(* ===== verification/Prelude.thy ===== *)
theory Prelude
  imports Main "HOL-Library.Word" "HOL-Library.Monad_Syntax"
begin

text \<open>
  Shared vocabulary of the development.

  C++ unsigned integers are natural numbers with the truncation written out:
  \<open>u8\<close>, \<open>u16\<close> and \<open>u32\<close> are the conversions to \<open>uint8_t\<close>, \<open>uint16_t\<close> and \<open>uint32_t\<close>,
  shifts are \<^const>\<open>push_bit\<close> and \<^const>\<open>drop_bit\<close>, and \<open>|\<close>, \<open>&\<close>, \<open>^\<close> are
  \<open>OR\<close>, \<open>AND\<close>, \<open>XOR\<close>.  A \<open>CHECK\<close> or \<open>THROW\<close> of the source, and an operation that C++ leaves
  undefined, is the value \<^const>\<open>None\<close>; sequences of fallible calls are written in the
  option monad with the state passed explicitly.

  The second part relates numbers to bit strings, most significant bit first, which is
  the order in which every component of the codec writes and reads them.
\<close>

unbundle bit_operations_syntax

type_synonym bits = "bool list"

abbreviation u8 :: "nat \<Rightarrow> nat" where "u8 \<equiv> take_bit 8"
abbreviation u16 :: "nat \<Rightarrow> nat" where "u16 \<equiv> take_bit 16"
abbreviation u32 :: "nat \<Rightarrow> nat" where "u32 \<equiv> take_bit 32"

text \<open>Subtraction of \<open>uint32_t\<close> values, which wraps modulo \<open>2 ^ 32\<close>.\<close>

definition sub32 :: "nat \<Rightarrow> nat \<Rightarrow> nat" where
  "sub32 a b = u32 (a + (2 ^ 32 - u32 b))"

lemma sub32_ge: "b \<le> a \<Longrightarrow> a < 2 ^ 32 \<Longrightarrow> sub32 a b = a - b"
  by (simp add: sub32_def take_bit_nat_def mod_if)

text \<open>Arithmetic of \<open>int\<close>; overflow is undefined.\<close>

definition i32 :: "int \<Rightarrow> int option" where
  "i32 i = (if - (2 ^ 31) \<le> i \<and> i < 2 ^ 31 then Some i else None)"

text \<open>\<open>CHECK(c, msg)\<close> throws when \<open>c\<close> holds.\<close>

definition check_not :: "bool \<Rightarrow> unit option" where
  "check_not c = (if c then None else Some ())"

lemma check_not_simps [simp]:
  "check_not False = Some ()"
  "check_not True = None"
  by (simp_all add: check_not_def)

lemma check_not_Some_iff [simp]: "check_not c = Some u \<longleftrightarrow> \<not> c"
  by (simp add: check_not_def)

lemma check_not_bind_Some [simp]:
  "(check_not c \<bind> f = Some r) \<longleftrightarrow> \<not> c \<and> f () = Some r"
  by (simp add: check_not_def)

text \<open>Accesses to a C++ array; outside of it they are undefined.\<close>

definition arr_get :: "'a list \<Rightarrow> nat \<Rightarrow> 'a option" where
  "arr_get xs i = (if i < length xs then Some (xs ! i) else None)"

definition arr_set :: "'a list \<Rightarrow> nat \<Rightarrow> 'a \<Rightarrow> 'a list option" where
  "arr_set xs i v = (if i < length xs then Some (xs[i := v]) else None)"

lemma arr_get_Some [simp]: "i < length xs \<Longrightarrow> arr_get xs i = Some (xs ! i)"
  by (simp add: arr_get_def)

lemma arr_set_Some [simp]: "i < length xs \<Longrightarrow> arr_set xs i v = Some (xs[i := v])"
  by (simp add: arr_set_def)

definition arr_get_i :: "'a list \<Rightarrow> int \<Rightarrow> 'a option" where
  "arr_get_i xs i = (if 0 \<le> i then arr_get xs (nat i) else None)"

definition arr_set_i :: "'a list \<Rightarrow> int \<Rightarrow> 'a \<Rightarrow> 'a list option" where
  "arr_set_i xs i v = (if 0 \<le> i then arr_set xs (nat i) v else None)"

lemma arr_int [simp]:
  "arr_get_i xs (int n) = arr_get xs n"
  "arr_set_i xs (int n) v = arr_set xs n v"
  by (simp_all add: arr_get_i_def arr_set_i_def)

text \<open>A \<open>for\<close> loop over the values its variable takes.\<close>

fun for_loop :: "('i \<Rightarrow> 's \<Rightarrow> 's option) \<Rightarrow> 'i list \<Rightarrow> 's \<Rightarrow> 's option" where
  "for_loop f [] s = Some s"
| "for_loop f (i # is) s = f i s \<bind> for_loop f is"

lemma for_loop_append: "for_loop f (xs @ ys) s = for_loop f xs s \<bind> for_loop f ys"
  by (induction xs arbitrary: s) (auto split: bind_splits)

lemma for_loop_upt:
  assumes "\<And>i. a \<le> i \<Longrightarrow> i < b \<Longrightarrow> f i (I i) = Some (I (Suc i))" "a \<le> b"
  shows "for_loop f [a..<b] (I a) = Some (I b)"
  using assms(2,1)
proof (induction b rule: dec_induct)
  case (step n)
  then show ?case by (simp add: for_loop_append)
qed simp

lemma for_loop_inv:
  assumes "\<And>i s s'. i \<in> set is \<Longrightarrow> I s \<Longrightarrow> f i s = Some s' \<Longrightarrow> I s'" "for_loop f is s = Some s'" "I s"
  shows "I s'"
  using assms by (induction "is" arbitrary: s) (auto split: bind_splits)

lemma upto_int: "[int a..int b - 1] = map int [a..<b]"
proof (cases "a \<le> b")
  case True
  then show ?thesis
  proof (induction b rule: dec_induct)
    case (step n)
    have "[int a..int n] = [int a..int n - 1] @ [int n]" using step by (intro upto_rec2) simp
    with step show ?case by simp
  qed simp
qed simp

text \<open>A loop over the elements of a list that updates each of them.\<close>

fun for_each :: "('a \<Rightarrow> 'b option) \<Rightarrow> 'a list \<Rightarrow> 'b list option" where
  "for_each f [] = Some []"
| "for_each f (x # xs) = do { y \<leftarrow> f x; ys \<leftarrow> for_each f xs; Some (y # ys) }"

lemma for_each_Some: "for_each f xs = Some ys \<longleftrightarrow> list_all2 (\<lambda>x y. f x = Some y) xs ys"
  by (induction xs arbitrary: ys) (auto simp: list_all2_Cons1 bind_eq_Some_conv)

text \<open>An array of which the first \<open>k\<close> entries have been replaced.\<close>

definition overlay :: "nat \<Rightarrow> 'a list \<Rightarrow> 'a list \<Rightarrow> 'a list" where
  "overlay k src old = take k src @ drop k old"

lemma overlay_0 [simp]: "overlay 0 src old = old"
  by (simp add: overlay_def)

lemma overlay_all [simp]: "length src = n \<Longrightarrow> length old = n \<Longrightarrow> overlay n src old = src"
  by (simp add: overlay_def)

lemma overlay_same [simp]: "overlay k xs xs = xs"
  by (simp add: overlay_def)

lemma length_overlay [simp]: "length src = length old \<Longrightarrow> length (overlay k src old) = length old"
  by (simp add: overlay_def)

lemma nth_overlay: "length src = length old \<Longrightarrow> i < length old \<Longrightarrow>
    overlay k src old ! i = (if i < k then src ! i else old ! i)"
  by (simp add: overlay_def nth_append min_def)

lemma overlay_Suc: "length src = length old \<Longrightarrow> k < length old \<Longrightarrow>
    (overlay k src old)[k := src ! k] = overlay (Suc k) src old"
  by (rule nth_equalityI) (auto simp: nth_overlay nth_list_update less_Suc_eq)

lemma arr_overlay: "length src = length old \<Longrightarrow> k < length old \<Longrightarrow>
    arr_set (overlay k src old) k (src ! k) = Some (overlay (Suc k) src old)"
  by (simp add: overlay_Suc)

text \<open>The fact collections of the development.\<close>

named_theorems codec_intro \<open>how the coder and parser of one syntax element agree\<close>
named_theorems inv_intro \<open>operations that preserve the invariant of their component\<close>

lemma drop_push_bit_nat [simp]: "drop_bit n (push_bit n a) = a" for a :: nat
  by (simp add: drop_bit_nat_def push_bit_nat_def)

lemma and_mask_nat: "x AND (2 ^ n - 1) = x mod 2 ^ n" for x :: nat
  by (simp add: mask_eq_exp_minus_1 take_bit_eq_mask flip: take_bit_nat_def)

lemma and_7 [simp]: "x AND 7 = x mod 8" for x :: nat
  using and_mask_nat [of x 3] by simp

lemma bit_1_0 [simp]: "bit (Suc 0) 0"
  by (simp add: bit_nat_def)

text \<open>\<open>a & ~m\<close>\<close>

definition and_not :: "nat \<Rightarrow> nat \<Rightarrow> nat" where
  "and_not a m = a XOR (a AND m)"

lemma bit_and_not [simp]: "bit (and_not a m) i \<longleftrightarrow> bit a i \<and> \<not> bit m i"
  by (auto simp: and_not_def bit_simps)

lemma or_disjoint:
  fixes a b :: nat
  assumes "b < 2 ^ n"
  shows "(a * 2 ^ n) OR b = a * 2 ^ n + b"
proof -
  have b: "b = take_bit n b"
    using assms by (simp add: take_bit_nat_eq_self)
  have "push_bit n a AND b = 0"
    by (subst b) (auto simp: bit_eq_iff bit_simps)
  then have "push_bit n a + b = push_bit n a OR b"
    by (rule disjunctive_add_eq_or)
  then show ?thesis
    by (simp add: push_bit_nat_def)
qed

section \<open>Bit strings, most significant bit first\<close>

definition to_bits :: "nat \<Rightarrow> nat \<Rightarrow> bits" where
  "to_bits n v = map (bit v) (rev [0..<n])"

definition of_bits :: "bits \<Rightarrow> nat" where
  "of_bits bs = foldl (\<lambda>a b. 2 * a + of_bool b) 0 bs"

lemma length_to_bits [simp]: "length (to_bits n v) = n"
  by (simp add: to_bits_def)

lemma to_bits_0 [simp]: "to_bits 0 v = []"
  by (simp add: to_bits_def)

lemma to_bits_Suc: "to_bits (Suc n) v = bit v n # to_bits n v"
  by (simp add: to_bits_def)

lemma nth_to_bits [simp]: "i < n \<Longrightarrow> to_bits n v ! i = bit v (n - Suc i)"
  by (simp add: to_bits_def rev_nth)

lemma of_bits_Nil [simp]: "of_bits [] = 0"
  by (simp add: of_bits_def)

lemma foldl_bits: "foldl (\<lambda>a b. 2 * a + of_bool b) k bs = k * 2 ^ length bs + of_bits bs"
  for k :: nat
proof (induction bs arbitrary: k)
  case Nil
  then show ?case by (simp add: of_bits_def)
next
  case (Cons b bs)
  show ?case
    using Cons [of "2 * k + of_bool b"] Cons [of "of_bool b"]
    by (simp add: of_bits_def algebra_simps)
qed

lemma of_bits_append: "of_bits (xs @ ys) = of_bits xs * 2 ^ length ys + of_bits ys"
  using foldl_bits [of "of_bits xs" ys] by (simp add: of_bits_def)

lemma of_bits_Cons: "of_bits (b # bs) = of_bool b * 2 ^ length bs + of_bits bs"
  using of_bits_append [of "[b]" bs] by (simp add: of_bits_def)

lemma of_bits_snoc: "of_bits (bs @ [b]) = 2 * of_bits bs + of_bool b"
  by (simp add: of_bits_append of_bits_Cons)

lemma of_bits_less: "of_bits bs < 2 ^ length bs"
proof (induction bs)
  case Nil
  then show ?case by simp
next
  case (Cons b bs)
  then show ?case by (cases b) (simp_all add: of_bits_Cons)
qed

lemma of_bits_to_bits: "of_bits (to_bits n v) = take_bit n v"
  by (induction n) (simp_all add: to_bits_Suc of_bits_Cons take_bit_Suc_from_most)

lemma of_bits_to_bits_less [simp]: "v < 2 ^ n \<Longrightarrow> of_bits (to_bits n v) = v"
  by (simp add: of_bits_to_bits take_bit_nat_eq_self)

lemma to_bits_append:
  "to_bits (m + n) v = to_bits m (drop_bit n v) @ to_bits n v"
  by (rule nth_equalityI) (auto simp: nth_append bit_drop_bit_eq Suc_diff_Suc add.commute)

lemma to_bits_cong: "take_bit n v = take_bit n w \<Longrightarrow> to_bits n v = to_bits n w"
proof -
  assume eq: "take_bit n v = take_bit n w"
  have "bit v i = bit w i" if "i < n" for i
    using arg_cong [OF eq, of "\<lambda>x. bit x i"] that by (simp add: bit_take_bit_iff)
  then show ?thesis by (simp add: to_bits_def)
qed

lemma to_bits_take_bit [simp]: "to_bits n (take_bit n v) = to_bits n v"
  by (rule to_bits_cong) simp

lemma to_bits_of_bits: "length bs = n \<Longrightarrow> to_bits n (of_bits bs) = bs"
proof (induction bs arbitrary: n)
  case Nil
  then show ?case by simp
next
  case (Cons b bs)
  have "take_bit (length bs) (of_bits (b # bs)) = take_bit (length bs) (of_bits bs)"
    by (simp add: of_bits_Cons take_bit_nat_def mod_mult_self3)
  moreover have "bit (of_bits (b # bs)) (length bs) = b"
    using of_bits_less [of bs] by (auto simp: of_bits_Cons bit_nat_def)
  ultimately show ?case
    using Cons to_bits_cong [of "length bs" "of_bits (b # bs)" "of_bits bs"]
    by (auto simp: to_bits_Suc)
qed

lemma to_bits_concat_shift:
  assumes "b < 2 ^ n"
  shows "to_bits (m + n) (a * 2 ^ n + b) = to_bits m a @ to_bits n b"
proof -
  have "drop_bit n (a * 2 ^ n + b) = a"
    using assms by (simp add: drop_bit_nat_def)
  moreover have "take_bit n (a * 2 ^ n + b) = take_bit n b"
    by (simp add: take_bit_nat_def)
  then have "to_bits n (a * 2 ^ n + b) = to_bits n b" by (rule to_bits_cong)
  ultimately show ?thesis by (simp add: to_bits_append)
qed

lemma to_bits_zero: "to_bits n 0 = replicate n False"
  by (rule nth_equalityI) auto

lemma to_bits_mask: "to_bits n (2 ^ n - 1) = replicate n True"
proof -
  have "bit (2 ^ n - 1 :: nat) i" if "i < n" for i
    using that bit_mask_iff [of n i, where 'a = nat] by (simp add: mask_eq_exp_minus_1)
  then show ?thesis by (intro nth_equalityI) auto
qed

lemmas to_bits_mask' = to_bits_mask [unfolded One_nat_def]

lemma to_bits_inj: "a < 2 ^ n \<Longrightarrow> b < 2 ^ n \<Longrightarrow> to_bits n a = to_bits n b \<Longrightarrow> a = b"
  by (metis of_bits_to_bits_less)

text \<open>Bytes as bit strings.\<close>

definition byte_bits :: "nat list \<Rightarrow> bits" where
  "byte_bits bs = concat (map (to_bits 8) bs)"

lemma byte_bits_simps [simp]:
  "byte_bits [] = []"
  "byte_bits (b # bs) = to_bits 8 b @ byte_bits bs"
  "byte_bits (xs @ ys) = byte_bits xs @ byte_bits ys"
  by (simp_all add: byte_bits_def)

lemma length_byte_bits [simp]: "length (byte_bits bs) = 8 * length bs"
  by (induction bs) auto

lemma byte_bits_drop: "drop (8 * n) (byte_bits bs) = byte_bits (drop n bs)"
proof (induction n arbitrary: bs)
  case 0
  then show ?case by simp
next
  case (Suc n)
  then show ?case by (cases bs) auto
qed

definition bytes :: "nat list \<Rightarrow> bool" where
  "bytes bs \<longleftrightarrow> (\<forall>b\<in>set bs. b < 256)"

lemma bytes_simps [simp]:
  "bytes []"
  "bytes (b # bs) \<longleftrightarrow> b < 256 \<and> bytes bs"
  "bytes (xs @ ys) \<longleftrightarrow> bytes xs \<and> bytes ys"
  by (auto simp: bytes_def)

lemma bytes_drop [simp]: "bytes bs \<Longrightarrow> bytes (drop n bs)"
  by (auto simp: bytes_def dest: in_set_dropD)

lemma bytes_take [simp]: "bytes bs \<Longrightarrow> bytes (take n bs)"
  by (auto simp: bytes_def dest: in_set_takeD)

lemma bytes_nth: "bytes bs \<Longrightarrow> i < length bs \<Longrightarrow> bs ! i < 256"
  by (auto simp: bytes_def)

lemma bytes_replicate [simp]: "x < 256 \<Longrightarrow> bytes (replicate n x)"
  by (auto simp: bytes_def)

lemma byte_bits_inj: "bytes xs \<Longrightarrow> bytes ys \<Longrightarrow> byte_bits xs = byte_bits ys \<Longrightarrow> xs = ys"
proof (induction xs arbitrary: ys)
  case Nil
  then show ?case by (cases ys) (auto dest: arg_cong [of _ _ length])
next
  case (Cons x xs)
  then obtain y ys' where ys: "ys = y # ys'"
    by (cases ys) (auto dest: arg_cong [of _ _ length])
  with Cons.prems have "to_bits 8 x = to_bits 8 y" and "byte_bits xs = byte_bits ys'"
    by simp_all
  with Cons.IH [of ys'] Cons.prems ys to_bits_inj [of x 8 y] show ?case by simp
qed

lemma u8_less [simp]: "take_bit 8 x < (256 :: nat)"
  using take_bit_nat_less_exp [of 8 x] by simp

text \<open>A number of \<open>8 * m\<close> bits as \<open>m\<close> bytes.\<close>

lemma to_bits_8_Suc:
  "to_bits (8 * Suc m) v = to_bits 8 (take_bit 8 (drop_bit (8 * m) v)) @ to_bits (8 * m) v"
  using to_bits_append [of 8 "8 * m" v] by simp

end
