(* ===== verification/Codec.thy ===== *)
theory Codec
  imports Prelude
begin

text \<open>
  The contract between a coder and its parser, as locales.

  A writer state \<open>s\<close> has committed to a set of possible complete streams: \<open>ext s F\<close> says that
  the complete stream \<open>F\<close> can still be the result.  \<open>pos s t F\<close> says that a reader in
  state \<open>t\<close> on the stream \<open>F\<close> is where the writer was in state \<open>s\<close>.  \<open>codes w r x\<close> states
  that the parser \<open>r\<close> recovers the value \<open>x\<close> from what the coder \<open>w\<close> writes, whatever is
  written before and after, and leaves the two sides in step again; so the relation
  composes, and a round trip of a whole syntax structure is a composition of the round trips
  of its syntax elements.

  The bit streams of the high level syntax provide the contract (theory \<open>Vlc\<close>: \<open>F\<close> is the
  list of all bits), and so does the arithmetic coder (\<open>F\<close> is the code value).
\<close>

text \<open>A number of width \<open>n\<close> that a reader takes bit by bit.\<close>

fun get_bits :: "(nat \<Rightarrow> 't \<Rightarrow> (nat \<times> 't) option) \<Rightarrow> nat \<Rightarrow> nat \<Rightarrow> 't \<Rightarrow> (nat \<times> 't) option" where
  "get_bits get acc 0 t = Some (acc, t)"
| "get_bits get acc (Suc n) t = get 1 t \<bind> (\<lambda>(b, t). get_bits get (2 * acc + b) n t)"

text \<open>A loop of a parser that updates an object.\<close>

fun read_loop :: "('i \<Rightarrow> 'x \<Rightarrow> 't \<Rightarrow> ('x \<times> 't) option) \<Rightarrow> 'i list \<Rightarrow> 'x \<Rightarrow> 't \<Rightarrow> ('x \<times> 't) option" where
  "read_loop f [] x t = Some (x, t)"
| "read_loop f (i # is) x t = f i x t \<bind> (\<lambda>(x, t). read_loop f is x t)"

locale coupling =
  fixes oinv :: "'s \<Rightarrow> bool"
    and ext :: "'s \<Rightarrow> 'f \<Rightarrow> bool"
    and pos :: "'s \<Rightarrow> 't \<Rightarrow> 'f \<Rightarrow> bool"
  assumes ext_inhabited: "oinv s \<Longrightarrow> \<exists>F. ext s F"
begin

definition codes :: "('s \<Rightarrow> 's option) \<Rightarrow> ('t \<Rightarrow> ('x \<times> 't) option) \<Rightarrow> 'x \<Rightarrow> bool" where
  "codes w r x \<longleftrightarrow> (\<forall>s. oinv s \<longrightarrow> (\<exists>s'. w s = Some s' \<and> oinv s'
     \<and> (\<forall>F. ext s' F \<longrightarrow> ext s F
         \<and> (\<forall>t. pos s t F \<longrightarrow> (\<exists>t'. r t = Some (x, t') \<and> pos s' t' F)))))"

lemma codesE:
  assumes "codes w r x" "oinv s"
  obtains s' where "w s = Some s'" "oinv s'"
    "\<And>F. ext s' F \<Longrightarrow> ext s F"
    "\<And>F t. ext s' F \<Longrightarrow> pos s t F \<Longrightarrow> \<exists>t'. r t = Some (x, t') \<and> pos s' t' F"
  using assms unfolding codes_def by blast

lemma codesI:
  assumes "\<And>s. oinv s \<Longrightarrow> \<exists>s'. w s = Some s' \<and> oinv s'
     \<and> (\<forall>F. ext s' F \<longrightarrow> ext s F \<and> (\<forall>t. pos s t F \<longrightarrow> (\<exists>t'. r t = Some (x, t') \<and> pos s' t' F)))"
  shows "codes w r x"
  using assms unfolding codes_def by blast

lemma codes_return: "x = y \<Longrightarrow> codes Some (\<lambda>t. Some (x, t)) y"
  by (simp add: codes_def)

lemma codes_bind:
  assumes "codes w1 r1 x" "codes w2 (r2 x) y"
  shows "codes (\<lambda>s. w1 s \<bind> w2) (\<lambda>t. r1 t \<bind> (\<lambda>(x, t). r2 x t)) y"
proof (rule codesI)
  fix s
  assume "oinv s"
  then obtain s1 where s1: "w1 s = Some s1" "oinv s1" "\<And>F. ext s1 F \<Longrightarrow> ext s F"
    "\<And>F t. ext s1 F \<Longrightarrow> pos s t F \<Longrightarrow> \<exists>t'. r1 t = Some (x, t') \<and> pos s1 t' F"
    by (rule codesE [OF assms(1)]) blast
  from assms(2) s1(2) obtain s2 where s2: "w2 s1 = Some s2" "oinv s2" "\<And>F. ext s2 F \<Longrightarrow> ext s1 F"
    "\<And>F t. ext s2 F \<Longrightarrow> pos s1 t F \<Longrightarrow> \<exists>t'. r2 x t = Some (y, t') \<and> pos s2 t' F"
    by (rule codesE) blast
  have "ext s F \<and> (\<exists>t'. r1 t \<bind> (\<lambda>(x, t). r2 x t) = Some (y, t') \<and> pos s2 t' F)"
    if F: "ext s2 F" "pos s t F" for F t
  proof -
    have "ext s1 F" using F(1) by (rule s2(3))
    with s1(4) F(2) obtain t1 where "r1 t = Some (x, t1)" "pos s1 t1 F" by blast
    with s2(4) [OF F(1)] s1(3) [OF \<open>ext s1 F\<close>] show ?thesis by force
  qed
  moreover have "ext s F" if "ext s2 F" for F using that s1(3) s2(3) by blast
  ultimately show "\<exists>s'. w1 s \<bind> w2 = Some s' \<and> oinv s' \<and> (\<forall>F. ext s' F \<longrightarrow> ext s F
      \<and> (\<forall>t. pos s t F \<longrightarrow> (\<exists>t'. r1 t \<bind> (\<lambda>(x, t). r2 x t) = Some (y, t') \<and> pos s' t' F)))"
    using s1(1) s2(1,2) by auto
qed

text \<open>The object of the first part, kept under a name.\<close>

lemma codes_bind_name:
  assumes "codes w1 r1 x" "\<And>z. z = x \<Longrightarrow> codes w2 (r2 z) y"
  shows "codes (\<lambda>s. w1 s \<bind> w2) (\<lambda>t. r1 t \<bind> (\<lambda>(x, t). r2 x t)) y"
  by (rule codes_bind [OF assms(1)]) (rule assms(2) [OF refl])

lemma codes_bind_end:
  assumes "codes w r1 x" "codes Some (r2 x) y"
  shows "codes w (\<lambda>t. r1 t \<bind> (\<lambda>(x, t). r2 x t)) y"
  using codes_bind [where ?w2.0 = Some, OF assms(1), of r2 y] assms(2) by simp

lemma codes_check_reader:
  "\<not> c \<Longrightarrow> codes w r x \<Longrightarrow> codes w (\<lambda>t. check_not c \<bind> (\<lambda>_. r t)) x"
  by simp

lemma codes_check_writer:
  "\<not> c \<Longrightarrow> codes w r x \<Longrightarrow> codes (\<lambda>s. check_not c \<bind> (\<lambda>_. w s)) r x"
  by simp

lemma codes_if_reader:
  "(b \<Longrightarrow> codes w r1 x) \<Longrightarrow> (\<not> b \<Longrightarrow> codes w r2 x) \<Longrightarrow> codes w (\<lambda>t. if b then r1 t else r2 t) x"
  by (cases b) auto

lemma codes_if_writer:
  "(b \<Longrightarrow> codes w1 r x) \<Longrightarrow> (\<not> b \<Longrightarrow> codes w2 r x) \<Longrightarrow> codes (\<lambda>s. if b then w1 s else w2 s) r x"
  by (cases b) auto

lemma codes_if:
  "b = c \<Longrightarrow> (b \<Longrightarrow> codes w1 r1 x) \<Longrightarrow> (\<not> b \<Longrightarrow> codes w2 r2 x)
    \<Longrightarrow> codes (\<lambda>s. if b then w1 s else w2 s) (\<lambda>t. if c then r1 t else r2 t) x"
  by (cases b) auto

lemma codes_cong: "codes w r x \<Longrightarrow> (\<And>s. w s = w' s) \<Longrightarrow> (\<And>t. r t = r' t) \<Longrightarrow> x = x' \<Longrightarrow> codes w' r' x'"
  by (simp add: codes_def)

lemma codes_weaken:
  assumes "codes w r' x" "\<And>t y. r' t = Some y \<Longrightarrow> r t = Some y"
  shows "codes w r x"
  using assms unfolding codes_def by metis

lemma codes_read_loop:
  assumes "\<And>k. k < length is \<Longrightarrow> codes (w (is ! k)) (r (is ! k) (X k)) (X (Suc k))"
  shows "codes (for_loop w is) (read_loop r is (X 0)) (X (length is))"
  using assms
proof (induction "is" arbitrary: X)
  case Nil
  then show ?case by (simp add: codes_return)
next
  case (Cons i "is")
  have "codes (w i) (r i (X 0)) (X 1)" using Cons.prems [of 0] by simp
  moreover have "codes (for_loop w is) (read_loop r is (X 1)) (X (length (i # is)))"
    using Cons.IH [of "\<lambda>k. X (Suc k)"] Cons.prems [of "Suc k" for k] by simp
  ultimately show ?case by (simp add: codes_bind)
qed

lemma codes_read_upt:
  assumes "\<And>k. k < n \<Longrightarrow> codes (w k) (r k (X k)) (X (Suc k))"
  shows "codes (for_loop w [0..<n]) (read_loop r [0..<n] (X 0)) (X n)"
  using codes_read_loop [of "[0..<n]" w r X] assms by simp

text \<open>What a successful write followed by a read from the matching position returns.\<close>

lemma codes_runs:
  assumes "codes w r x" "oinv s" "w s = Some s'" "ext s' F" "pos s t F"
  shows "\<exists>t'. r t = Some (x, t') \<and> pos s' t' F \<and> oinv s'"
  using codesE [OF assms(1,2)] assms(3-5) by (metis option.inject)

end

text \<open>A channel on which numbers of a given width can be written and read.\<close>

locale bit_channel = coupling oinv ext pos
  for oinv :: "'s \<Rightarrow> bool" and ext :: "'s \<Rightarrow> 'f \<Rightarrow> bool" and pos :: "'s \<Rightarrow> 't \<Rightarrow> 'f \<Rightarrow> bool" +
  fixes put :: "nat \<Rightarrow> nat \<Rightarrow> 's \<Rightarrow> 's option"
    and get :: "nat \<Rightarrow> 't \<Rightarrow> (nat \<times> 't) option"
    and maxlen :: nat
  assumes codes_put: "n \<le> maxlen \<Longrightarrow> v < 2 ^ n \<Longrightarrow> codes (put v n) (get n) v"
    and put_split: "m + n \<le> maxlen \<Longrightarrow> a < 2 ^ m \<Longrightarrow> b < 2 ^ n \<Longrightarrow> oinv s \<Longrightarrow>
      \<exists>s1 s2 s'. put a m s = Some s1 \<and> put b n s1 = Some s2 \<and> put (a * 2 ^ n + b) (m + n) s = Some s'
        \<and> oinv s1 \<and> oinv s' \<and> (\<forall>F. ext s' F \<longrightarrow> ext s2 F) \<and> (\<forall>t F. pos s2 t F \<longrightarrow> pos s' t F)"
    and one_le_maxlen: "1 \<le> maxlen"
begin

lemma codes_split:
  assumes "codes (\<lambda>s. put a m s \<bind> put b n) r x" "m + n \<le> maxlen" "a < 2 ^ m" "b < 2 ^ n"
  shows "codes (put (a * 2 ^ n + b) (m + n)) r x"
proof (rule codesI)
  fix s
  assume s: "oinv s"
  from put_split [OF assms(2-4) s] obtain s1 s2 s' where p: "put a m s = Some s1" "put b n s1 = Some s2"
    "put (a * 2 ^ n + b) (m + n) s = Some s'" "oinv s'" "\<And>F. ext s' F \<Longrightarrow> ext s2 F"
    "\<And>t F. pos s2 t F \<Longrightarrow> pos s' t F" by blast
  from codesE [OF assms(1) s] p(1,2) have
    "\<And>F. ext s2 F \<Longrightarrow> ext s F"
    "\<And>F t. ext s2 F \<Longrightarrow> pos s t F \<Longrightarrow> \<exists>t'. r t = Some (x, t') \<and> pos s2 t' F"
    by (metis bind.bind_lunit option.inject)+
  with p(3-6) show "\<exists>s'. put (a * 2 ^ n + b) (m + n) s = Some s' \<and> oinv s'
     \<and> (\<forall>F. ext s' F \<longrightarrow> ext s F \<and> (\<forall>t. pos s t F \<longrightarrow> (\<exists>t'. r t = Some (x, t') \<and> pos s' t' F)))"
    by blast
qed

lemma codes_put_bit: "v < 2 \<Longrightarrow> codes (put v 1) (get 1) v"
  using codes_put [of 1 v] one_le_maxlen by simp

lemma codes_get_bits:
  "0 < n \<Longrightarrow> n \<le> maxlen \<Longrightarrow> v < 2 ^ n \<Longrightarrow> codes (put v n) (get_bits get acc n) (acc * 2 ^ n + v)"
proof (induction n arbitrary: v acc)
  case 0
  then show ?case by simp
next
  case (Suc n)
  show ?case
  proof (cases "n = 0")
    case True
    have "codes (put v 1) (\<lambda>t. get 1 t \<bind> (\<lambda>(b, t). get_bits get (2 * acc + b) 0 t)) (2 * acc + v)"
      by (rule codes_bind_end [OF codes_put_bit]) (use Suc.prems True in \<open>auto intro: codes_return\<close>)
    then show ?thesis unfolding True get_bits.simps by (simp add: mult.commute)
  next
    case False
    let ?a = "v div 2 ^ n" and ?b = "v mod 2 ^ n"
    have a: "?a < 2" using Suc.prems by (simp add: less_mult_imp_div_less)
    have "codes (\<lambda>s. put ?a 1 s \<bind> put ?b n) (get_bits get acc (Suc n)) ((2 * acc + ?a) * 2 ^ n + ?b)"
      unfolding get_bits.simps
      by (rule codes_bind [OF codes_put_bit [OF a]]) (use Suc.IH [of ?b] False Suc.prems in simp)
    from codes_split [OF this] a Suc.prems show ?thesis
      by (simp add: algebra_simps del: get_bits.simps)
  qed
qed

end

section \<open>What a parser accepts\<close>

text \<open>\<open>accepts r P\<close>: whatever the stream holds, an object the parser \<open>r\<close> returns has the property \<open>P\<close>.\<close>

definition accepts :: "('t \<Rightarrow> ('x \<times> 't) option) \<Rightarrow> ('x \<Rightarrow> bool) \<Rightarrow> bool" where
  "accepts r P \<longleftrightarrow> (\<forall>t x t'. r t = Some (x, t') \<longrightarrow> P x)"

lemma accepts_return: "P x \<Longrightarrow> accepts (\<lambda>t. Some (x, t)) P"
  by (simp add: accepts_def)

lemma accepts_bind:
  "accepts r1 Q \<Longrightarrow> (\<And>x. Q x \<Longrightarrow> accepts (r2 x) P) \<Longrightarrow> accepts (\<lambda>t. r1 t \<bind> (\<lambda>(x, t). r2 x t)) P"
  unfolding accepts_def by (fastforce simp: bind_eq_Some_conv)

lemma accepts_any: "(\<And>x. accepts (r2 x) P) \<Longrightarrow> accepts (\<lambda>t. r1 t \<bind> (\<lambda>(x, t). r2 x t)) P"
  unfolding accepts_def by (fastforce simp: bind_eq_Some_conv)

lemma accepts_check: "(\<not> c \<Longrightarrow> accepts r P) \<Longrightarrow> accepts (\<lambda>t. check_not c \<bind> (\<lambda>_. r t)) P"
  unfolding accepts_def by (cases c) auto

lemma accepts_option: "(\<And>v. e = Some v \<Longrightarrow> accepts (r v) P) \<Longrightarrow> accepts (\<lambda>t. e \<bind> (\<lambda>v. r v t)) P"
  unfolding accepts_def by (cases e) auto

lemma accepts_if: "(c \<Longrightarrow> accepts r1 P) \<Longrightarrow> (\<not> c \<Longrightarrow> accepts r2 P) \<Longrightarrow> accepts (\<lambda>t. if c then r1 t else r2 t) P"
  unfolding accepts_def by (cases c) auto

lemma accepts_weaken: "accepts r Q \<Longrightarrow> (\<And>x. Q x \<Longrightarrow> P x) \<Longrightarrow> accepts r P"
  unfolding accepts_def by blast

lemma accepts_loop:
  "(\<And>i x. i \<in> set is \<Longrightarrow> I x \<Longrightarrow> accepts (r i x) I) \<Longrightarrow> I x \<Longrightarrow> accepts (read_loop r is x) I"
proof (induction "is" arbitrary: x)
  case (Cons i "is")
  have "accepts (r i x) I" using Cons.prems by simp
  moreover have "accepts (read_loop r is y) I" if "I y" for y by (rule Cons.IH) (use Cons.prems that in auto)
  ultimately show ?case using accepts_bind [of "r i x" I "read_loop r is" I] by (simp add: accepts_def)
qed (simp add: accepts_def)

lemma read_loop_fails:
  assumes "i \<in> set is" "\<And>x t. r i x t = None"
  shows "read_loop r is x t = None"
  using assms(1) by (induction "is" arbitrary: x t) (auto simp: assms(2) bind_eq_None_conv split: prod.splits)

lemmas accepts_intro = accepts_any accepts_check accepts_option accepts_if accepts_return

text \<open>
  The same for readers of streams with an invariant \<open>tinv\<close>, which they keep: \<open>yields r P\<close> says that an object returned
  from a proper stream has the property \<open>P\<close>.
\<close>

locale reader =
  fixes tinv :: "'t \<Rightarrow> bool"
begin

definition yields :: "('t \<Rightarrow> ('x \<times> 't) option) \<Rightarrow> ('x \<Rightarrow> bool) \<Rightarrow> bool" where
  "yields r P \<longleftrightarrow> (\<forall>t x t'. tinv t \<longrightarrow> r t = Some (x, t') \<longrightarrow> P x \<and> tinv t')"

lemma yieldsI: "(\<And>t x t'. tinv t \<Longrightarrow> r t = Some (x, t') \<Longrightarrow> P x \<and> tinv t') \<Longrightarrow> yields r P"
  by (simp add: yields_def)

lemma yieldsD: "yields r P \<Longrightarrow> tinv t \<Longrightarrow> r t = Some (x, t') \<Longrightarrow> P x \<and> tinv t'"
  by (simp add: yields_def)

lemma yields_return: "P x \<Longrightarrow> yields (\<lambda>t. Some (x, t)) P"
  by (simp add: yields_def)

lemma yields_bind:
  assumes "yields r1 Q" "\<And>x. Q x \<Longrightarrow> yields (r2 x) P"
  shows "yields (\<lambda>t. r1 t \<bind> (\<lambda>(x, t). r2 x t)) P"
proof (rule yieldsI)
  fix t y t'
  assume t: "tinv t" "r1 t \<bind> (\<lambda>(x, t). r2 x t) = Some (y, t')"
  then obtain x s where s: "r1 t = Some (x, s)" "r2 x s = Some (y, t')" by (cases "r1 t") auto
  from yieldsD [OF assms(1) t(1) s(1)] have "Q x" "tinv s" by blast+
  with yieldsD [OF assms(2)] s(2) show "P y \<and> tinv t'" by blast
qed

lemma yields_check: "(\<not> c \<Longrightarrow> yields r P) \<Longrightarrow> yields (\<lambda>t. check_not c \<bind> (\<lambda>_. r t)) P"
  unfolding yields_def by (cases c) auto

lemma yields_option: "(\<And>v. e = Some v \<Longrightarrow> yields (r v) P) \<Longrightarrow> yields (\<lambda>t. e \<bind> (\<lambda>v. r v t)) P"
  unfolding yields_def by (cases e) auto

lemma yields_if: "(c \<Longrightarrow> yields r1 P) \<Longrightarrow> (\<not> c \<Longrightarrow> yields r2 P) \<Longrightarrow> yields (\<lambda>t. if c then r1 t else r2 t) P"
  unfolding yields_def by (cases c) auto

lemma yields_weaken: "yields r Q \<Longrightarrow> (\<And>x. Q x \<Longrightarrow> P x) \<Longrightarrow> yields r P"
  unfolding yields_def by blast

lemma yields_loop:
  assumes "\<And>k x. k < n \<Longrightarrow> I k x \<Longrightarrow> yields (r k x) (I (Suc k))" "I 0 x"
  shows "yields (read_loop r [0..<n] x) (I n)"
proof -
  have "yields (read_loop r [m..<n] x) (I n)" if "m \<le> n" "I m x" for m x
    using that
  proof (induction m arbitrary: x rule: inc_induct)
    case base
    then show ?case by (simp add: yields_def)
  next
    case (step m)
    have "yields (\<lambda>t. r m x t \<bind> (\<lambda>(x, t). read_loop r [Suc m..<n] x t)) (I n)"
      by (rule yields_bind [OF assms(1)]) (use step in auto)
    then show ?case using step(2) by (simp add: upt_conv_Cons yields_def)
  qed
  from this [of 0 x] assms(2) show ?thesis by simp
qed

end

end
