(* ===== verification/TruncBinary.thy ===== *)
theory TruncBinary
  imports Codec
begin

text \<open>
  Truncated binary codes: the threshold of an alphabet, its table \<open>g_tbMax\<close> of \<open>CommonLib/Rom.h\<close>, and the code on any
  channel that carries numbers of a given width.  Both the slice header syntax and the arithmetic coder use it.
\<close>

text \<open>\<open>while (uiThreshVal <= uiMaxSymbol) { uiThresh++; uiThreshVal <<= 1; }\<close>\<close>

function trunc_thresh :: "nat \<Rightarrow> nat \<Rightarrow> nat" where
  "trunc_thresh uiMaxSymbol uiThresh =
     (if 2 ^ uiThresh \<le> uiMaxSymbol then trunc_thresh uiMaxSymbol (uiThresh + 1) else uiThresh)"
  by auto
termination
proof (relation "measure (\<lambda>(m, k). m - k)", goal_cases)
  case (2 m k)
  have "k < 2 ^ k" by (rule less_exp)
  with 2 have "k < m" by linarith
  then show ?case by simp
qed simp

declare trunc_thresh.simps [simp del]

definition g_tbMax :: "nat list" where
  "g_tbMax = [0, 0] @ replicate 2 1 @ replicate 4 2 @ replicate 8 3 @ replicate 16 4 @ replicate 32 5
     @ replicate 64 6 @ replicate 128 7 @ [8]"

definition tb_thresh :: "nat \<Rightarrow> nat option" where
  "tb_thresh uiMaxSymbol =
     (if uiMaxSymbol > 256 then Some (trunc_thresh uiMaxSymbol 8 - 1) else arr_get g_tbMax uiMaxSymbol)"

lemma trunc_thresh_bounds: "k \<le> trunc_thresh m k \<and> m < 2 ^ trunc_thresh m k
    \<and> (k < trunc_thresh m k \<longrightarrow> 2 ^ (trunc_thresh m k - 1) \<le> m)"
proof (induction m k rule: trunc_thresh.induct)
  case (1 m k)
  show ?case
  proof (cases "2 ^ k \<le> m")
    case True
    note IH = "1.IH" [OF True]
    moreover have "2 ^ (trunc_thresh m (k + 1) - 1) \<le> m"
      using IH True by (cases "k + 1 = trunc_thresh m (k + 1)") (force, simp)
    ultimately show ?thesis using True by (simp add: trunc_thresh.simps [of m k])
  next
    case False
    then show ?thesis by (simp add: trunc_thresh.simps [of m k])
  qed
qed

lemma nth_block: "n \<le> m \<Longrightarrow> m < n + l \<Longrightarrow> length xs = n \<Longrightarrow> (xs @ replicate l k @ ys) ! m = k"
  using less_diff_conv2 [of n m l] by (simp add: nth_append add.commute)

lemma g_tbMax_block: "2 ^ (k + 1) \<le> m \<Longrightarrow> m < 2 ^ (k + 2) \<Longrightarrow> k < 7 \<Longrightarrow> g_tbMax ! m = k + 1"
proof -
  let ?b = "\<lambda>j. replicate (2 ^ (j + 1)) (j + 1)"
  assume k: "k < 7" "2 ^ (k + 1) \<le> m" "m < 2 ^ (k + 2)"
  have g: "g_tbMax = [0, 0] @ concat (map ?b [0..<7]) @ [8]"
    by (simp add: g_tbMax_def upt_conv_Cons)
  have "concat (map ?b [0..<7]) = concat (map ?b [0..<k]) @ ?b k @ concat (map ?b [k + 1..<7])"
    using k(1) upt_add_eq_append [of 0 k "7 - k"] by (simp add: upt_conv_Cons)
  moreover have "length (concat (map ?b [0..<j])) + 2 = 2 ^ (j + 1)" for j by (induction j) simp_all
  ultimately show ?thesis unfolding g using k nth_block [of "2 ^ (k + 1)" m "2 ^ (k + 1)" "[0, 0] @ concat (map ?b [0..<k])"]
    by simp
qed

lemma g_tbMax_entry: "0 < m \<Longrightarrow> m < 257 \<Longrightarrow> 2 ^ (g_tbMax ! m) \<le> m \<and> m < 2 ^ (g_tbMax ! m + 1)"
proof -
  assume m: "0 < m" "m < 257"
  then have "1 \<le> m" by simp
  from ex_power_ivl1 [OF order.refl this] obtain j where j: "2 ^ j \<le> m" "m < 2 ^ (j + 1)" by blast
  consider "j = 0" | k where "j = k + 1" "k < 7" | "8 \<le> j" by (cases j) force+
  then show ?thesis
  proof cases
    case 1
    with j show ?thesis by (simp add: g_tbMax_def)
  next
    case 2
    with j g_tbMax_block [of k m] show ?thesis by simp
  next
    case 3
    then have "(2 :: nat) ^ 8 \<le> 2 ^ j" by (rule power_increasing) simp
    with j(1) m have "m = 256" by simp
    moreover have "g_tbMax ! 256 = 8" by (simp add: g_tbMax_def nth_append)
    ultimately show ?thesis by simp
  qed
qed

lemma tb_thresh_bounds: "0 < m \<Longrightarrow> \<exists>k. tb_thresh m = Some k \<and> 2 ^ k \<le> m \<and> m < 2 ^ (k + 1)"
proof (cases "m > 256")
  case True
  have "trunc_thresh m 8 > 8" using True by (simp add: trunc_thresh.simps [of m 8]) (use trunc_thresh_bounds [of 9 m] in linarith)
  with trunc_thresh_bounds [of 8 m] True show ?thesis by (cases "trunc_thresh m 8") (simp_all add: tb_thresh_def)
next
  case False
  assume "0 < m"
  moreover have "length g_tbMax = 257" by (simp add: g_tbMax_def)
  ultimately show ?thesis using False g_tbMax_entry [of m] by (simp add: tb_thresh_def)
qed

text \<open>
  With \<open>2 ^ k \<le> m < 2 ^ (k + 1)\<close> the first \<open>2 ^ (k + 1) - m\<close> symbols of an alphabet of \<open>m\<close> take \<open>k\<close> bits, the others
  one bit more; a reader recognises these by their first \<open>k\<close> bits.
\<close>

context bit_channel
begin

lemma codes_trunc:
  assumes m: "2 ^ k \<le> m" "m < 2 ^ (k + 1)" and e: "e = 2 ^ (k + 1) - m" and v: "v < m" and k: "k + 1 \<le> maxlen"
    and bit: "\<And>b. b \<le> 1 \<Longrightarrow> codes (put b 1) get1 b"
    and f: "\<And>x b. x < 2 ^ k \<Longrightarrow> b \<le> 1 \<Longrightarrow> e \<le> x \<Longrightarrow> f x b = 2 * x + b - e"
  shows "codes (\<lambda>s. if v < e then put v k s else put (v + e) (k + 1) s)
    (\<lambda>t. get k t \<bind> (\<lambda>(x, t). if x \<ge> e then get1 t \<bind> (\<lambda>(b, t). Some (f x b, t)) else Some (x, t))) v"
    (is "codes _ (\<lambda>t. get k t \<bind> (\<lambda>(x, t). ?r x t)) v")
proof (cases "v < e")
  case True
  have "codes (put v k) (\<lambda>t. get k t \<bind> (\<lambda>(x, t). ?r x t)) v"
    by (rule codes_bind_end [OF codes_put]) (use True k m e in \<open>auto intro: codes_return\<close>)
  with True show ?thesis by simp
next
  case False
  define y where "y = v + e"
  have y: "y < 2 ^ (k + 1)" "e \<le> y div 2" using False v m e by (simp_all add: y_def)
  have y2: "y div 2 < 2 ^ k" using y(1) by simp
  have "f (y div 2) (y mod 2) = v" using f [OF y2 _ y(2), of "y mod 2"] by (simp add: y_def)
  then have "codes (put (y mod 2) 1) (\<lambda>t. get1 t \<bind> (\<lambda>(b, t). Some (f (y div 2) b, t))) v"
    by (intro codes_bind_end [OF bit]) (simp_all add: codes_return)
  then have "codes (put (y mod 2) 1) (?r (y div 2)) v" using y(2) by simp
  then have "codes (\<lambda>s. put (y div 2) k s \<bind> put (y mod 2) 1) (\<lambda>t. get k t \<bind> (\<lambda>(x, t). ?r x t)) v"
    by (intro codes_bind [OF codes_put]) (use k y2 in auto)
  from codes_split [OF this] k y2 have "codes (put y (k + 1)) (\<lambda>t. get k t \<bind> (\<lambda>(x, t). ?r x t)) v" by simp
  with False show ?thesis by (simp add: y_def)
qed

end

end
