(* ===== verification/BitStream.thy ===== *)
theory BitStream
  imports Prelude
begin

text \<open>
  \<open>OutputBitstream\<close> and \<open>InputBitstream\<close> of \<open>CommonLib/BitStream.cpp\<close> and \<open>BitStream.h\<close>:
  the two classes every other component writes to and reads from.

  \<open>out_bits\<close> and \<open>in_bits\<close> are the abstract contents of a stream, a list of bits.  The
  lemmas show that \<open>write\<close> appends the bits of its argument and that \<open>read\<close> takes bits
  off the front, whatever number of bits is held back in the partial byte, so that
  clients reason about bit lists only (locale \<open>bit_channel\<close> of theory \<open>Vlc\<close>).
\<close>

section \<open>The writable stream\<close>

record obs =
  out_fifo :: "nat list"
  out_num_held :: nat
  out_held :: nat

definition clear :: "obs" where
  "clear = \<lparr>out_fifo = [], out_num_held = 0, out_held = 0\<rparr>"

text \<open>The \<open>switch\<close> falls through: case \<open>k\<close> pushes \<open>k\<close> bytes, the most significant first.\<close>

definition push_word :: "nat \<Rightarrow> nat \<Rightarrow> nat list" where
  "push_word k w =
     (if k = 4 then [u8 (drop_bit 24 w), u8 (drop_bit 16 w), u8 (drop_bit 8 w), u8 w]
      else if k = 3 then [u8 (drop_bit 16 w), u8 (drop_bit 8 w), u8 w]
      else if k = 2 then [u8 (drop_bit 8 w), u8 w]
      else if k = 1 then [u8 w]
      else [])"

text \<open>
  A write of 32 bits at an aligned position shifts the held bits, which are then all zero, by 32.  C++ leaves that shift undefined; the model
  takes the value 0, which every target gives to a zero shifted by any amount.
\<close>

definition obs_write :: "nat \<Rightarrow> nat \<Rightarrow> obs \<Rightarrow> obs option" where
  "obs_write uiBits uiNumberOfBits s = do {
     check_not (uiNumberOfBits > 32);
     check_not (uiNumberOfBits \<noteq> 32 \<and> drop_bit uiNumberOfBits uiBits \<noteq> 0);
     let num_total_bits = uiNumberOfBits + out_num_held s;
     let next_num_held_bits = num_total_bits mod 8;
     let next_held_bits = u8 (push_bit (8 - next_num_held_bits) uiBits);
     if drop_bit 3 num_total_bits = 0 then
       Some (s\<lparr>out_held := out_held s OR next_held_bits,
               out_num_held := next_num_held_bits\<rparr>)
     else do {
       let topword = push_bit 3 (drop_bit 3 (uiNumberOfBits - next_num_held_bits));
       let write_bits = u32 (push_bit topword (out_held s))
                        OR drop_bit next_num_held_bits uiBits;
       Some (s\<lparr>out_fifo := out_fifo s @ push_word (drop_bit 3 num_total_bits) write_bits,
               out_held := next_held_bits,
               out_num_held := next_num_held_bits\<rparr>)
     }
   }"

definition getNumBitsUntilByteAligned :: "obs \<Rightarrow> nat" where
  "getNumBitsUntilByteAligned s = (8 - out_num_held s) AND 7"

definition getNumberOfWrittenBits :: "obs \<Rightarrow> nat" where
  "getNumberOfWrittenBits s = length (out_fifo s) * 8 + out_num_held s"

definition writeAlignOne :: "obs \<Rightarrow> obs option" where
  "writeAlignOne s =
     (let num_bits = getNumBitsUntilByteAligned s
      in obs_write (push_bit num_bits 1 - 1) num_bits s)"

definition writeAlignZero :: "obs \<Rightarrow> obs" where
  "writeAlignZero s =
     (if 0 = out_num_held s then s
      else s\<lparr>out_fifo := out_fifo s @ [out_held s], out_held := 0, out_num_held := 0\<rparr>)"

definition writeByteAlignment :: "obs \<Rightarrow> obs option" where
  "writeByteAlignment s = do { s \<leftarrow> obs_write 1 1 s; Some (writeAlignZero s) }"

fun write_bytes :: "nat list \<Rightarrow> obs \<Rightarrow> obs option" where
  "write_bytes [] s = Some s"
| "write_bytes (b # bs) s = do { s \<leftarrow> obs_write b 8 s; write_bytes bs s }"

definition addSubstream :: "obs \<Rightarrow> obs \<Rightarrow> obs option" where
  "addSubstream sub s =
     (let uiNumBits = getNumberOfWrittenBits sub
      in do {
        s \<leftarrow> write_bytes (out_fifo sub) s;
        if uiNumBits AND 7 \<noteq> 0
        then obs_write (drop_bit (8 - (uiNumBits AND 7)) (out_held sub)) (uiNumBits AND 7) s
        else Some s
      })"

text \<open>\<open>insert\<close> past the end of the vector is undefined behaviour.\<close>

definition insertAt :: "obs \<Rightarrow> nat \<Rightarrow> obs \<Rightarrow> obs option" where
  "insertAt src pos s = do {
     check_not (getNumberOfWrittenBits src mod 8 \<noteq> 0);
     check_not (pos > length (out_fifo s));
     Some (s\<lparr>out_fifo := take pos (out_fifo s) @ out_fifo src @ drop pos (out_fifo s)\<rparr>)
   }"

subsection \<open>Invariant and abstract contents\<close>

definition obs_inv :: "obs \<Rightarrow> bool" where
  "obs_inv s \<longleftrightarrow> bytes (out_fifo s) \<and> out_num_held s < 8 \<and> out_held s < 256
     \<and> take_bit (8 - out_num_held s) (out_held s) = 0"

definition out_bits :: "obs \<Rightarrow> bits" where
  "out_bits s = byte_bits (out_fifo s)
     @ to_bits (out_num_held s) (drop_bit (8 - out_num_held s) (out_held s))"

lemma obs_inv_clear [simp, inv_intro]: "obs_inv clear"
  by (simp add: obs_inv_def clear_def)

lemma out_bits_clear [simp]: "out_bits clear = []"
  by (simp add: out_bits_def clear_def)

lemma length_out_bits: "length (out_bits s) = getNumberOfWrittenBits s"
  by (simp add: out_bits_def getNumberOfWrittenBits_def)

lemma push_word_bits:
  assumes "k \<le> 4"
  shows "byte_bits (push_word k w) = to_bits (8 * k) w" "bytes (push_word k w)"
proof -
  consider "k = 0" | "k = 1" | "k = 2" | "k = 3" | "k = 4"
    using assms by linarith
  then show "byte_bits (push_word k w) = to_bits (8 * k) w"
    by cases
      (use to_bits_8_Suc [of 0 w] to_bits_8_Suc [of 1 w] to_bits_8_Suc [of 2 w]
        to_bits_8_Suc [of 3 w] in \<open>simp_all add: push_word_def\<close>)
  show "bytes (push_word k w)"
    by (auto simp: push_word_def)
qed

text \<open>The held bits as a number: \<open>out_held s = h * 2 ^ (8 - k)\<close> with \<open>h < 2 ^ k\<close>.\<close>

lemma held_split:
  assumes "obs_inv s"
  obtains h where "out_held s = h * 2 ^ (8 - out_num_held s)" "h < 2 ^ out_num_held s"
    "drop_bit (8 - out_num_held s) (out_held s) = h"
proof -
  let ?k = "out_num_held s"
  let ?h = "drop_bit (8 - ?k) (out_held s)"
  have k: "?k < 8" and less: "out_held s < 2 ^ 8" and 0: "take_bit (8 - ?k) (out_held s) = 0"
    using assms by (auto simp: obs_inv_def)
  have eq: "out_held s = ?h * 2 ^ (8 - ?k)"
    using 0 div_mult_mod_eq [of "out_held s" "2 ^ (8 - ?k)"]
    by (simp add: drop_bit_nat_def take_bit_nat_def)
  have "?h < 2 ^ ?k"
    using less k by (simp add: drop_bit_nat_def less_mult_imp_div_less flip: power_add)
  with eq that show thesis by blast
qed

lemma next_held: "u8 (push_bit (8 - j) v) = push_bit (8 - j) (take_bit j v)" if "j < 8"
  using that by (simp add: take_bit_push_bit)

lemma write_short:
  assumes inv: "obs_inv s" and v: "v < 2 ^ n" and short: "n + out_num_held s < 8"
  shows "\<exists>s'. obs_write v n s = Some s' \<and> obs_inv s' \<and> out_bits s' = out_bits s @ to_bits n v"
proof -
  let ?k = "out_num_held s"
  let ?t = "n + ?k"
  from inv obtain h where h: "out_held s = h * 2 ^ (8 - ?k)" "h < 2 ^ ?k"
    "drop_bit (8 - ?k) (out_held s) = h" by (rule held_split)
  let ?X = "h * 2 ^ n + v"
  have "v < 2 ^ ?t"
    using v by (rule order_less_le_trans) simp
  then have N: "u8 (push_bit (8 - ?t) v) = push_bit (8 - ?t) v"
    using short by (simp add: next_held take_bit_nat_eq_self)
  have "out_held s = push_bit (8 - ?t) (h * 2 ^ n)"
    using short by (simp add: h push_bit_nat_def mult.assoc flip: power_add)
  then have O: "out_held s OR push_bit (8 - ?t) v = push_bit (8 - ?t) ?X"
    using or_disjoint [OF v] by (simp flip: push_bit_or)
  have X: "?X < 2 ^ ?t"
    using h(2) v mult_le_mono1 [of "Suc h" "2 ^ ?k" "2 ^ n"]
    by (simp add: power_add algebra_simps)
  let ?s' = "s\<lparr>out_held := push_bit (8 - ?t) ?X, out_num_held := ?t\<rparr>"
  have "push_bit (8 - ?t) ?X < 2 ^ (8 - ?t) * 2 ^ ?t"
    using X by (simp add: push_bit_nat_def)
  then have "push_bit (8 - ?t) ?X < 256"
    using short by (simp flip: power_add)
  then have inv': "obs_inv ?s'"
    using inv short by (simp add: obs_inv_def take_bit_push_bit)
  have "obs_write v n s = Some ?s'"
    using short v inv
    by (simp add: obs_write_def N O drop_bit_nat_def obs_inv_def Let_def)
  moreover have "out_bits ?s' = out_bits s @ to_bits n v"
    using to_bits_concat_shift [OF v, of ?k h] by (simp add: out_bits_def h(3) add.commute)
  ultimately show ?thesis using inv' by blast
qed

text \<open>The new partial byte holds \<open>j\<close> bits when \<open>n\<close> bits join the \<open>k\<close> held ones.\<close>

lemma split_total:
  fixes n k :: nat
  defines "j \<equiv> (n + k) mod 8" and "m \<equiv> (n + k) div 8"
  assumes "k < 8" "8 \<le> n + k"
  shows "j < 8" "j \<le> n" "0 < m" "8 * m = k + (n - j)" "n - j = 8 * m - k"
proof -
  have 1: "8 * m + j = n + k" and 2: "j < 8"
    by (simp_all add: j_def m_def)
  have "0 < m" using assms(4) by (simp add: m_def div_greater_zero_iff)
  with 1 2 assms(3) show "j < 8" "j \<le> n" "0 < m" "8 * m = k + (n - j)" "n - j = 8 * m - k"
    by arith+
qed

lemma topword_held:
  assumes inv: "obs_inv s" and h: "out_held s = h * 2 ^ (8 - out_num_held s)"
    and long: "8 \<le> n + out_num_held s"
  shows "push_bit (push_bit 3 (drop_bit 3 (n - (n + out_num_held s) mod 8))) (out_held s)
    = h * 2 ^ (n - (n + out_num_held s) mod 8)"
proof (cases "out_num_held s = 0")
  case True
  then have "out_held s = 0"
    using inv by (auto simp: obs_inv_def take_bit_nat_eq_self)
  then show ?thesis using h by simp
next
  case False
  let ?k = "out_num_held s"
  let ?m = "(n + ?k) div 8"
  have k: "?k < 8" using inv by (simp add: obs_inv_def)
  note st = split_total [OF k long]
  have "8 * ?m - ?k = 8 * (?m - 1) + (8 - ?k)"
    using k st(3) by arith
  then have "(8 * ?m - ?k) div 8 = ?m - 1"
    using False by simp
  then have "push_bit 3 (drop_bit 3 (8 * ?m - ?k)) = 8 * (?m - 1)"
    by (simp add: push_bit_nat_def drop_bit_nat_def)
  moreover have "8 - ?k + 8 * (?m - 1) = 8 * ?m - ?k"
    using k st(3) by arith
  ultimately show ?thesis
    by (simp add: st(5) h push_bit_nat_def mult.assoc flip: power_add)
qed

lemma write_long:
  assumes inv: "obs_inv s" and n: "n \<le> 32" and v: "v < 2 ^ n"
    and long: "8 \<le> n + out_num_held s"
  shows "\<exists>s'. obs_write v n s = Some s' \<and> obs_inv s' \<and> out_bits s' = out_bits s @ to_bits n v"
proof -
  let ?k = "out_num_held s"
  let ?j = "(n + ?k) mod 8"
  let ?m = "(n + ?k) div 8"
  have k: "?k < 8" using inv by (simp add: obs_inv_def)
  from inv obtain h where h: "out_held s = h * 2 ^ (8 - ?k)" "h < 2 ^ ?k"
    "drop_bit (8 - ?k) (out_held s) = h" by (rule held_split)
  note st = split_total [OF k long]
  note j = st(1,2) and len = st(4)
  have m: "0 < ?m" "?m \<le> 4"
    using st(3) n k by auto
  let ?lo = "drop_bit ?j v"
  let ?W = "h * 2 ^ (n - ?j) + ?lo"
  have lo: "?lo < 2 ^ (n - ?j)"
    using v j(2) by (simp add: drop_bit_nat_def less_mult_imp_div_less flip: power_add)
  have "h * 2 ^ (n - ?j) < 2 ^ ?k * 2 ^ (n - ?j)"
    using h(2) by simp
  also have "\<dots> = 2 ^ (8 * ?m)"
    by (simp add: len flip: power_add)
  also have "\<dots> \<le> (2 :: nat) ^ 32"
    using m(2) by (intro power_increasing) auto
  finally have u: "u32 (h * 2 ^ (n - ?j)) = h * 2 ^ (n - ?j)"
    by (simp add: take_bit_nat_eq_self)
  let ?s' = "s\<lparr>out_fifo := out_fifo s @ push_word ?m ?W,
    out_held := push_bit (8 - ?j) (take_bit ?j v), out_num_held := ?j\<rparr>"
  have W: "u32 (push_bit (push_bit 3 (drop_bit 3 (n - ?j))) (out_held s)) OR ?lo = ?W"
    by (simp only: topword_held [OF inv h(1) long] u or_disjoint [OF lo])
  have m': "drop_bit 3 (n + ?k) = ?m" and m'': "\<not> n + ?k < 8"
    using long by (simp_all add: drop_bit_nat_def)
  have dv: "drop_bit n v = 0"
    using v by (simp add: drop_bit_nat_def)
  have w: "obs_write v n s = Some ?s'"
    unfolding obs_write_def
    using m dv n by (simp add: W m' next_held j Let_def)
  have "push_bit (8 - ?j) (take_bit ?j v) < 2 ^ (8 - ?j) * 2 ^ ?j"
    by (simp add: push_bit_nat_def)
  then have "push_bit (8 - ?j) (take_bit ?j v) < 256"
    using j(1) by (simp flip: power_add)
  then have inv': "obs_inv ?s'"
    using inv push_word_bits(2) [OF m(2)] j(1) by (simp add: obs_inv_def take_bit_push_bit)
  have "to_bits (8 * ?m) ?W = to_bits ?k h @ to_bits (n - ?j) ?lo"
    unfolding len by (rule to_bits_concat_shift [OF lo])
  moreover have "to_bits n v = to_bits (n - ?j) ?lo @ to_bits ?j v"
    using to_bits_append [of "n - ?j" ?j v] j(2) by simp
  ultimately have "out_bits ?s' = out_bits s @ to_bits n v"
    using push_word_bits(1) [OF m(2)] by (simp add: out_bits_def h(3))
  with w inv' show ?thesis by blast
qed

theorem obs_write_law:
  assumes "obs_inv s" "n \<le> 32" "v < 2 ^ n"
  shows "\<exists>s'. obs_write v n s = Some s' \<and> obs_inv s'
    \<and> out_bits s' = out_bits s @ to_bits n v"
  using assms write_short [of s v n] write_long [of s n v] by (cases "n + out_num_held s < 8") auto

lemma obs_write_byte:
  assumes "obs_inv s" "b < 256"
  shows "\<exists>s'. obs_write b 8 s = Some s' \<and> obs_inv s' \<and> out_bits s' = out_bits s @ to_bits 8 b"
  using obs_write_law [of s 8 b] assms by simp

subsection \<open>Alignment, substreams and insertion\<close>

lemma aligned_iff: "obs_inv s \<Longrightarrow> getNumBitsUntilByteAligned s = (8 - out_num_held s) mod 8"
  by (simp add: getNumBitsUntilByteAligned_def)

lemma held_mod: "obs_inv s \<Longrightarrow> out_num_held s = length (out_bits s) mod 8"
  by (simp add: length_out_bits getNumberOfWrittenBits_def obs_inv_def)

lemma align8: "(l + (8 - l mod 8) mod 8) mod 8 = 0" for l :: nat
proof (cases "l mod 8 = 0")
  case False
  have "l + (8 - l mod 8) = 8 * (l div 8 + 1)"
    by arith
  with False show ?thesis by simp
qed simp

lemma writeAlignZero_law:
  assumes "obs_inv s"
  shows "obs_inv (writeAlignZero s)"
    "out_bits (writeAlignZero s)
       = out_bits s @ replicate (getNumBitsUntilByteAligned s) False"
    "out_num_held (writeAlignZero s) = 0"
proof -
  let ?k = "out_num_held s"
  from assms obtain h where h: "out_held s = h * 2 ^ (8 - ?k)" "h < 2 ^ ?k"
    "drop_bit (8 - ?k) (out_held s) = h" by (rule held_split)
  have "to_bits (?k + (8 - ?k)) (h * 2 ^ (8 - ?k) + 0) = to_bits ?k h @ to_bits (8 - ?k) 0"
    by (rule to_bits_concat_shift) simp
  then have "to_bits 8 (out_held s) = to_bits ?k h @ replicate (8 - ?k) False"
    using assms h by (simp add: to_bits_zero obs_inv_def)
  then show "out_bits (writeAlignZero s)
       = out_bits s @ replicate (getNumBitsUntilByteAligned s) False"
    using assms h(3)
    by (auto simp: writeAlignZero_def out_bits_def aligned_iff obs_inv_def)
  show "obs_inv (writeAlignZero s)" "out_num_held (writeAlignZero s) = 0"
    using assms by (auto simp: writeAlignZero_def obs_inv_def)
qed

theorem writeAlignOne_law:
  assumes "obs_inv s"
  shows "\<exists>s'. writeAlignOne s = Some s' \<and> obs_inv s' \<and> out_num_held s' = 0
    \<and> out_bits s' = out_bits s @ replicate (getNumBitsUntilByteAligned s) True"
proof -
  let ?n = "getNumBitsUntilByteAligned s"
  have n: "?n < 8" using assms by (simp add: aligned_iff)
  have "obs_inv s" "?n \<le> 32" "2 ^ ?n - 1 < (2::nat) ^ ?n"
    using assms n by simp_all
  from obs_write_law [OF this] obtain s' where s': "writeAlignOne s = Some s'" "obs_inv s'"
    "out_bits s' = out_bits s @ replicate ?n True"
    by (auto simp: writeAlignOne_def to_bits_mask' push_bit_nat_def)
  have "out_num_held s' = (length (out_bits s) + (8 - length (out_bits s) mod 8) mod 8) mod 8"
    using held_mod [OF s'(2)] s'(3) assms by (simp add: aligned_iff held_mod [OF assms])
  then have "out_num_held s' = 0" by (simp only: align8)
  with s' show ?thesis by blast
qed

theorem writeByteAlignment_law:
  assumes "obs_inv s"
  shows "\<exists>s' k. writeByteAlignment s = Some s' \<and> obs_inv s' \<and> out_num_held s' = 0
    \<and> k < 8 \<and> out_bits s' = out_bits s @ True # replicate k False"
proof -
  from obs_write_law [of s 1 1] assms obtain s1 where s1: "obs_write 1 1 s = Some s1" "obs_inv s1"
    "out_bits s1 = out_bits s @ [True]" by (auto simp: to_bits_Suc)
  have "getNumBitsUntilByteAligned s1 < 8"
    using s1(2) by (simp add: aligned_iff)
  with s1 writeAlignZero_law [OF s1(2)] show ?thesis
    by (auto simp: writeByteAlignment_def)
qed

lemma write_bytes_law:
  "obs_inv s \<Longrightarrow> bytes bs \<Longrightarrow>
    \<exists>s'. write_bytes bs s = Some s' \<and> obs_inv s' \<and> out_bits s' = out_bits s @ byte_bits bs"
proof (induction bs arbitrary: s)
  case Nil
  then show ?case by simp
next
  case (Cons b bs)
  from Cons.prems obs_write_byte [of s b] obtain s1 where s1: "obs_write b 8 s = Some s1"
    "obs_inv s1" "out_bits s1 = out_bits s @ to_bits 8 b" by auto
  with Cons.IH [OF s1(2)] Cons.prems show ?case by auto
qed

theorem addSubstream_law:
  assumes "obs_inv s" "obs_inv sub"
  shows "\<exists>s'. addSubstream sub s = Some s' \<and> obs_inv s' \<and> out_bits s' = out_bits s @ out_bits sub"
proof -
  let ?k = "out_num_held sub"
  from assms(2) obtain h where h: "h < 2 ^ ?k" "drop_bit (8 - ?k) (out_held sub) = h"
    by (rule held_split)
  have k: "getNumberOfWrittenBits sub AND 7 = ?k" "?k < 8"
    using assms(2)
    by (simp_all add: getNumberOfWrittenBits_def obs_inv_def)
  from write_bytes_law [OF assms(1), of "out_fifo sub"] assms(2) obtain s1 where
    s1: "write_bytes (out_fifo sub) s = Some s1" "obs_inv s1"
    "out_bits s1 = out_bits s @ byte_bits (out_fifo sub)" by (auto simp: obs_inv_def)
  with obs_write_law [OF s1(2), of ?k h] h k show ?thesis
    by (auto simp: addSubstream_def Let_def out_bits_def)
qed

theorem insertAt_law:
  assumes "obs_inv s" "obs_inv src" "out_num_held src = 0" "pos \<le> length (out_fifo s)"
  shows "\<exists>s'. insertAt src pos s = Some s' \<and> obs_inv s'
    \<and> out_bits s' = take (8 * pos) (out_bits s) @ out_bits src @ drop (8 * pos) (out_bits s)"
proof -
  have "byte_bits (out_fifo s) = byte_bits (take pos (out_fifo s)) @ byte_bits (drop pos (out_fifo s))"
    by (metis append_take_drop_id byte_bits_simps(3))
  moreover have "length (byte_bits (take pos (out_fifo s))) = 8 * pos"
    using assms(4) by simp
  ultimately show ?thesis
    using assms by (simp add: insertAt_def getNumberOfWrittenBits_def out_bits_def obs_inv_def)
qed

section \<open>The readable stream\<close>

record ibs =
  in_fifo :: "nat list"
  emulationPreventionByteLocation :: "nat list"
  fifo_idx :: nat
  in_num_held :: nat
  in_held :: nat
  numBitsRead :: nat

definition new_ibs :: "ibs" where
  "new_ibs = \<lparr>in_fifo = [], emulationPreventionByteLocation = [], fifo_idx = 0,
    in_num_held = 0, in_held = 0, numBitsRead = 0\<rparr>"

definition resetToStart :: "ibs \<Rightarrow> ibs" where
  "resetToStart s = s\<lparr>fifo_idx := 0, in_num_held := 0, in_held := 0, numBitsRead := 0\<rparr>"

definition getNumBitsLeft :: "ibs \<Rightarrow> nat" where
  "getNumBitsLeft s = 8 * (length (in_fifo s) - fifo_idx s) + in_num_held s"

definition in_NumBitsUntilByteAligned :: "ibs \<Rightarrow> nat" where
  "in_NumBitsUntilByteAligned s = in_num_held s AND 7"

text \<open>The \<open>switch\<close> of \<open>read\<close>, falling through from case \<open>k\<close> to case 0.\<close>

definition load_word :: "nat \<Rightarrow> nat list \<Rightarrow> nat \<Rightarrow> nat" where
  "load_word k f i =
     (if k = 3 then ((push_bit 24 (f ! i) OR push_bit 16 (f ! (i + 1)))
                     OR push_bit 8 (f ! (i + 2))) OR f ! (i + 3)
      else if k = 2 then (push_bit 16 (f ! i) OR push_bit 8 (f ! (i + 1))) OR f ! (i + 2)
      else if k = 1 then push_bit 8 (f ! i) OR f ! (i + 1)
      else f ! i)"

definition ibs_read :: "nat \<Rightarrow> ibs \<Rightarrow> (nat \<times> ibs) option" where
  "ibs_read uiNumberOfBits s = do {
     check_not (uiNumberOfBits > 32);
     let s = s\<lparr>numBitsRead := u32 (numBitsRead s + uiNumberOfBits)\<rparr>;
     if uiNumberOfBits \<le> in_num_held s then
       Some (and_not (drop_bit (in_num_held s - uiNumberOfBits) (in_held s))
               (push_bit uiNumberOfBits 255),
             s\<lparr>in_num_held := in_num_held s - uiNumberOfBits\<rparr>)
     else do {
       let n = uiNumberOfBits - in_num_held s;
       let retval = push_bit n (and_not (in_held s) (push_bit (in_num_held s) 255));
       let num_bytes_to_load = drop_bit 3 (n - 1);
       check_not (fifo_idx s + num_bytes_to_load \<ge> length (in_fifo s));
       let aligned_word = load_word num_bytes_to_load (in_fifo s) (fifo_idx s);
       let next_num_held_bits = (32 - n) mod 8;
       Some (retval OR drop_bit next_num_held_bits aligned_word,
             s\<lparr>fifo_idx := fifo_idx s + num_bytes_to_load + 1,
                in_num_held := next_num_held_bits, in_held := u8 aligned_word\<rparr>)
     }
   }"

definition readByte :: "ibs \<Rightarrow> (nat \<times> ibs) option" where
  "readByte s = do {
     check_not (fifo_idx s \<ge> length (in_fifo s));
     Some (in_fifo s ! fifo_idx s, s\<lparr>fifo_idx := fifo_idx s + 1\<rparr>)
   }"

definition peekPreviousByte :: "ibs \<Rightarrow> nat option" where
  "peekPreviousByte s = do {
     check_not (fifo_idx s = 0);
     Some (in_fifo s ! (fifo_idx s - 1))
   }"

text \<open>
  \<open>pseudoRead\<close> saves and restores the position; the shift by the number of missing bits
  is a shift of a \<open>uint32_t\<close>, undefined for 32.
\<close>

definition pseudoRead :: "nat \<Rightarrow> ibs \<Rightarrow> (nat \<times> ibs) option" where
  "pseudoRead uiNumberOfBits s = do {
     let num_bits_to_read = min uiNumberOfBits (getNumBitsLeft s);
     (ruiBits, s') \<leftarrow> ibs_read num_bits_to_read s;
     check_not (uiNumberOfBits - num_bits_to_read \<ge> 32);
     Some (u32 (push_bit (uiNumberOfBits - num_bits_to_read) ruiBits),
           s'\<lparr>fifo_idx := fifo_idx s, in_held := in_held s, in_num_held := in_num_held s\<rparr>)
   }"

function readOutTrailingBits :: "nat \<Rightarrow> ibs \<Rightarrow> (nat \<times> ibs) option" where
  "readOutTrailingBits count s =
     (if getNumBitsLeft s > 0 \<and> in_NumBitsUntilByteAligned s \<noteq> 0
      then (case ibs_read 1 s of None \<Rightarrow> None
            | Some (_, s') \<Rightarrow> readOutTrailingBits (count + 1) s')
      else Some (count, s))"
  by pat_completeness auto

termination
proof (relation "measure (\<lambda>(c, s). in_num_held s)")
  show "((count + 1, s'), (count, s)) \<in> measure (\<lambda>(c, s). in_num_held s)"
    if "getNumBitsLeft s > 0 \<and> in_NumBitsUntilByteAligned s \<noteq> 0"
      and "ibs_read 1 s = Some x" and "(b, s') = x" for count s x b s'
  proof -
    have "1 \<le> in_num_held s"
      using that(1) by (cases "in_num_held s") (simp_all add: in_NumBitsUntilByteAligned_def)
    with that(2,3) show ?thesis by (auto simp: ibs_read_def)
  qed
qed simp

declare readOutTrailingBits.simps [simp del]

definition readByteAlignment :: "ibs \<Rightarrow> (nat \<times> ibs) option" where
  "readByteAlignment s = do {
     (code, s) \<leftarrow> ibs_read 1 s;
     check_not (code \<noteq> 1);
     let numBits = in_NumBitsUntilByteAligned s;
     if numBits \<noteq> 0 then do {
       check_not (numBits > getNumBitsLeft s);
       (code, s) \<leftarrow> ibs_read numBits s;
       check_not (code \<noteq> 0);
       Some (numBits + 1, s)
     } else Some (numBits + 1, s)
   }"

fun read_bytes :: "nat \<Rightarrow> ibs \<Rightarrow> (nat list \<times> ibs) option" where
  "read_bytes 0 s = Some ([], s)"
| "read_bytes (Suc n) s = do {
     (b, s) \<leftarrow> ibs_read 8 s;
     (bs, s) \<leftarrow> read_bytes n s;
     Some (b # bs, s)
   }"

text \<open>
  The byte-aligned branch copies what is left and pads with zero bytes; the other branch
  reads byte by byte.  The result is a new stream positioned at its start.
\<close>

definition copy_bytes :: "nat \<Rightarrow> ibs \<Rightarrow> (nat list \<times> ibs) option" where
  "copy_bytes uiNumBytes s =
     (if in_num_held s = 0 then
        let n = min uiNumBytes (length (in_fifo s) - fifo_idx s)
        in Some (take n (drop (fifo_idx s) (in_fifo s)) @ replicate (uiNumBytes - n) 0,
                 s\<lparr>fifo_idx := fifo_idx s + n\<rparr>)
      else read_bytes uiNumBytes s)"

definition extractSubstream :: "nat \<Rightarrow> ibs \<Rightarrow> (ibs \<times> ibs) option" where
  "extractSubstream uiNumBits s = do {
     (buf, s) \<leftarrow> copy_bytes (uiNumBits div 8) s;
     if uiNumBits AND 7 \<noteq> 0 then do {
       (uiByte, s) \<leftarrow> ibs_read (uiNumBits AND 7) s;
       Some (new_ibs\<lparr>in_fifo := buf @ [u8 (push_bit (8 - (uiNumBits AND 7)) uiByte)]\<rparr>, s)
     } else Some (new_ibs\<lparr>in_fifo := buf\<rparr>, s)
   }"

subsection \<open>Invariant and abstract contents\<close>

definition ibs_inv :: "ibs \<Rightarrow> bool" where
  "ibs_inv s \<longleftrightarrow> bytes (in_fifo s) \<and> in_num_held s < 8 \<and> in_held s < 256
     \<and> fifo_idx s \<le> length (in_fifo s)"

definition in_bits :: "ibs \<Rightarrow> bits" where
  "in_bits s = to_bits (in_num_held s) (in_held s) @ byte_bits (drop (fifo_idx s) (in_fifo s))"

lemma in_bits_new [simp]: "in_bits (new_ibs\<lparr>in_fifo := f\<rparr>) = byte_bits f"
  by (simp add: in_bits_def new_ibs_def)

lemma length_in_bits: "ibs_inv s \<Longrightarrow> length (in_bits s) = getNumBitsLeft s"
  by (simp add: in_bits_def getNumBitsLeft_def ibs_inv_def)

lemma in_bits_resetToStart [simp]: "in_bits (resetToStart s) = byte_bits (in_fifo s)"
  by (simp add: in_bits_def resetToStart_def)

lemma ibs_inv_resetToStart [inv_intro]: "bytes (in_fifo s) \<Longrightarrow> ibs_inv (resetToStart s)"
  by (simp add: ibs_inv_def resetToStart_def)

lemma in_held_mod:
  assumes "ibs_inv s"
  shows "in_num_held s = length (in_bits s) mod 8"
  using assms by (simp add: length_in_bits getNumBitsLeft_def) (simp add: ibs_inv_def)

lemma mask_low: "a < 256 \<Longrightarrow> k < 8 \<Longrightarrow> and_not a (push_bit k 255) = take_bit k a"
proof -
  assume a: "a < 256" and "k < 8"
  have "a = take_bit 8 a" using a by (simp add: take_bit_nat_eq_self)
  then have "bit a i \<Longrightarrow> i < 8" for i by (metis bit_take_bit_iff)
  moreover have "bit (255::nat) i \<longleftrightarrow> i < 8" for i
    using bit_mask_iff [of 8 i, where 'a = nat] by (simp add: mask_eq_exp_minus_1)
  ultimately show ?thesis
    by (fastforce simp: bit_eq_iff bit_simps)
qed

lemma and_not_shifted:
  assumes "a < 256" "n \<le> k" "k < 8"
  shows "and_not (drop_bit (k - n) a) (push_bit n 255) = take_bit n (drop_bit (k - n) a)"
  using assms by (intro mask_low) (auto simp: drop_bit_nat_def intro: le_less_trans [OF div_le_dividend])

text \<open>Bytes joined by shifts and \<open>|\<close> are the number their bits denote.\<close>

lemma of_bits_bytes_Cons:
  "b < 256 \<Longrightarrow> of_bits (byte_bits (b # bs)) = b * 2 ^ (8 * length bs) + of_bits (byte_bits bs)"
  by (simp add: of_bits_append)

lemma or_push: "b < 2 ^ n \<Longrightarrow> push_bit n a OR b = push_bit n a + b" for a b :: nat
  by (simp add: or_disjoint push_bit_nat_def)

lemma load_word_bits:
  assumes "bytes f" "i + k < length f" "k \<le> 3"
  shows "load_word k f i = of_bits (byte_bits (take (k + 1) (drop i f)))"
proof -
  have b: "f ! (i + j) < 2 ^ 8" if "j \<le> k" for j
    using bytes_nth [OF assms(1), of "i + j"] assms(2) that by simp
  have or8: "push_bit 8 x OR f ! (i + j) = x * 256 + f ! (i + j)" if "j \<le> k" for x j
    using or_push [OF b [OF that]] by (simp add: push_bit_nat_def)
  have or16: "push_bit 16 x OR push_bit 8 (f ! (i + j)) = push_bit 8 (x * 256 + f ! (i + j))"
    if "j \<le> k" for x j
    using or8 [OF that, of x] push_bit_or [of 8 "push_bit 8 x" "f ! (i + j)"] by simp
  have or24: "push_bit 24 x OR push_bit 16 (f ! (i + j)) = push_bit 16 (x * 256 + f ! (i + j))"
    if "j \<le> k" for x j
    using or8 [OF that, of x] push_bit_or [of 16 "push_bit 8 x" "f ! (i + j)"] by simp
  have T: "take (k + 1) (drop i f) = map (\<lambda>j. f ! (i + j)) [0..<k + 1]"
    using assms(2) by (intro nth_equalityI) (auto simp del: upt_Suc)
  consider "k = 0" | "k = 1" | "k = 2" | "k = 3" using assms(3) by linarith
  then show ?thesis
  proof cases
    case 1
    then show ?thesis using b [of 0] by (subst T) (simp add: load_word_def)
  next
    case 2
    then show ?thesis
      using b [of 0] b [of 1] or8 [of 1]
      by (subst T) (simp add: load_word_def of_bits_append)
  next
    case 3
    have "[0..<2 + 1] = [0, 1, 2::nat]" by (simp add: upt_rec)
    with 3 show ?thesis
      using b [of 0] b [of 1] b [of 2] or16 [of 1] or8 [of 2]
      by (subst T) (simp add: load_word_def of_bits_append)
  next
    case 4
    have "[0..<3 + 1] = [0, 1, 2, 3::nat]" by (simp add: upt_rec)
    with 4 show ?thesis
      using b [of 0] b [of 1] b [of 2] b [of 3] or24 [of 1] or16 [of 2] or8 [of 3]
      by (subst T) (simp add: load_word_def of_bits_append)
  qed
qed

text \<open>The number of bytes loaded for \<open>m\<close> more bits, and what is left of the last one.\<close>

lemma load_count:
  fixes m :: nat
  defines "c \<equiv> (m - 1) div 8" and "j \<equiv> (32 - m) mod 8"
  assumes "0 < m" "m \<le> 32"
  shows "8 * (c + 1) = m + j" "j < 8" "c \<le> 3"
proof -
  define r where "r = (m - 1) mod 8"
  have 1: "m - 1 = 8 * c + r" and r: "r < 8" by (simp_all add: c_def r_def)
  then show c: "c \<le> 3" using assms(4) by arith
  have "32 - m = (7 - r) + 8 * (3 - c)" using 1 r c assms(3,4) by arith
  then have "j = (7 - r + 8 * (3 - c)) mod 8" by (simp only: j_def)
  also have "\<dots> = (7 - r) mod 8" by (rule mod_mult_self2)
  finally have "j = 7 - r" by simp
  then show "8 * (c + 1) = m + j" using 1 r assms(3) by arith
  show "j < 8" by (simp add: j_def)
qed

lemma read_short:
  assumes inv: "ibs_inv s" and n: "n \<le> in_num_held s"
  shows "\<exists>s'. ibs_read n s = Some (of_bits (take n (in_bits s)), s') \<and> ibs_inv s'
    \<and> in_bits s' = drop n (in_bits s) \<and> in_fifo s' = in_fifo s
    \<and> numBitsRead s' = u32 (numBitsRead s + n)"
proof -
  let ?k = "in_num_held s"
  have k: "?k < 8" "in_held s < 256" using inv by (auto simp: ibs_inv_def)
  have split: "to_bits ?k (in_held s) = to_bits n (drop_bit (?k - n) (in_held s)) @ to_bits (?k - n) (in_held s)"
    using to_bits_append [of n "?k - n" "in_held s"] n by simp
  then have "of_bits (take n (in_bits s)) = take_bit n (drop_bit (?k - n) (in_held s))"
    by (simp add: in_bits_def of_bits_to_bits)
  moreover have "drop n (in_bits s) = to_bits (?k - n) (in_held s) @ byte_bits (drop (fifo_idx s) (in_fifo s))"
    using split n by (simp add: in_bits_def)
  ultimately show ?thesis
    using inv n k by (auto simp: ibs_read_def and_not_shifted ibs_inv_def in_bits_def Let_def)
qed

lemma drop_bit_div_8: "drop_bit 3 x = x div 8" for x :: nat
  by (simp add: drop_bit_nat_def)

lemma read_long:
  assumes inv: "ibs_inv s" and n: "n \<le> 32" "in_num_held s < n" and enough: "n \<le> length (in_bits s)"
  shows "\<exists>s'. ibs_read n s = Some (of_bits (take n (in_bits s)), s') \<and> ibs_inv s'
    \<and> in_bits s' = drop n (in_bits s) \<and> in_fifo s' = in_fifo s
    \<and> numBitsRead s' = u32 (numBitsRead s + n)"
proof -
  let ?k = "in_num_held s" and ?f = "in_fifo s" and ?i = "fifo_idx s"
  have k: "?k < 8" "in_held s < 256" "?i \<le> length ?f" "bytes ?f"
    using inv by (auto simp: ibs_inv_def)
  define m where "m = n - ?k"
  define c where "c = (m - 1) div 8"
  define j where "j = (32 - m) mod 8"
  have m: "0 < m" "m \<le> 32" "n = ?k + m" using n by (auto simp: m_def)
  note c = load_count [OF m(1,2), folded c_def j_def]
  have "m \<le> 8 * (length ?f - ?i)"
    using enough m(3) by (simp add: in_bits_def)
  then have inr: "?i + c < length ?f" using c m(1) by arith
  define bs where "bs = byte_bits (take (c + 1) (drop ?i ?f))"
  have lbs: "length bs = m + j"
    using inr c(1) by (simp add: bs_def)
  have fifo: "byte_bits (drop ?i ?f) = bs @ byte_bits (drop (?i + c + 1) ?f)"
    unfolding bs_def by (metis append_take_drop_id byte_bits_simps(3) drop_drop add.commute add.assoc)
  have W: "load_word c ?f ?i = of_bits bs"
    unfolding bs_def by (rule load_word_bits) (use k inr c in auto)
  have bsum: "of_bits bs = of_bits (take m bs) * 2 ^ j + of_bits (drop m bs)"
    using of_bits_append [of "take m bs" "drop m bs"] lbs by simp
  have low: "of_bits (drop m bs) < 2 ^ j" and high: "of_bits (take m bs) < 2 ^ m"
    using of_bits_less [of "drop m bs"] of_bits_less [of "take m bs"] lbs by simp_all
  have D: "drop_bit j (of_bits bs) = of_bits (take m bs)"
    using bsum low by (simp add: drop_bit_nat_def)
  have R: "push_bit m (take_bit ?k (in_held s)) OR of_bits (take m bs) = of_bits (take n (in_bits s))"
    using or_push [OF high] lbs m(3)
    by (simp add: in_bits_def fifo of_bits_append of_bits_to_bits push_bit_nat_def)
  have "to_bits j (of_bits bs) = drop m bs"
    using bsum low lbs to_bits_cong [of j "of_bits bs" "of_bits (drop m bs)"]
    by (simp add: take_bit_nat_def to_bits_of_bits)
  moreover have "to_bits j (u8 (of_bits bs)) = to_bits j (of_bits bs)"
    using c(2) by (intro to_bits_cong) simp
  ultimately have H: "to_bits j (u8 (of_bits bs)) = drop m bs" by simp
  let ?s' = "s\<lparr>numBitsRead := u32 (numBitsRead s + n), fifo_idx := ?i + c + 1,
      in_num_held := j, in_held := u8 (of_bits bs)\<rparr>"
  have "ibs_read n s = Some (of_bits (take n (in_bits s)), ?s')"
    using n k inr
    by (simp add: ibs_read_def mask_low Let_def drop_bit_div_8 W [unfolded c_def One_nat_def]
        D R c_def flip: m_def j_def)
  moreover have "in_bits ?s' = drop n (in_bits s)"
    using m(3) lbs by (simp add: in_bits_def H fifo)
  moreover have "ibs_inv ?s'" using k c inr by (simp add: ibs_inv_def)
  ultimately show ?thesis by auto
qed

theorem ibs_read_law:
  assumes "ibs_inv s" "n \<le> 32" "n \<le> length (in_bits s)"
  shows "\<exists>s'. ibs_read n s = Some (of_bits (take n (in_bits s)), s') \<and> ibs_inv s'
    \<and> in_bits s' = drop n (in_bits s) \<and> in_fifo s' = in_fifo s
    \<and> numBitsRead s' = u32 (numBitsRead s + n)"
  using assms read_short read_long by (cases "n \<le> in_num_held s") auto

lemma read_exhausted:
  assumes inv: "ibs_inv s" and "length (in_bits s) < n"
  shows "ibs_read n s = None"
proof (cases "n \<le> 32")
  case True
  let ?m = "n - in_num_held s"
  have 1: "8 * (length (in_fifo s) - fifo_idx s) < ?m"
    using assms(2) by (simp add: in_bits_def)
  then have "in_num_held s < n" by simp
  moreover have "length (in_fifo s) \<le> fifo_idx s + (?m - 1) div 8"
    using 1 inv by (simp add: ibs_inv_def)
  ultimately show ?thesis
    using True by (simp add: ibs_read_def Let_def drop_bit_div_8)
qed (simp add: ibs_read_def)

lemma ibs_read_SomeD:
  assumes "ibs_read n s = Some (v, s')" "ibs_inv s"
  shows "n \<le> 32" "n \<le> length (in_bits s)" "v = of_bits (take n (in_bits s))" "ibs_inv s'"
    "in_bits s' = drop n (in_bits s)" "in_fifo s' = in_fifo s"
proof -
  show n: "n \<le> 32" using assms(1) by (auto simp: ibs_read_def)
  show l: "n \<le> length (in_bits s)"
    using read_exhausted [OF assms(2), of n] assms(1) by (cases "n \<le> length (in_bits s)") auto
  show "v = of_bits (take n (in_bits s))" "ibs_inv s'"
    "in_bits s' = drop n (in_bits s)" "in_fifo s' = in_fifo s"
    using ibs_read_law [OF assms(2) n l] assms(1) by auto
qed

lemma ibs_read_frame:
  "ibs_read n s = Some (v, s') \<Longrightarrow> in_fifo s' = in_fifo s
     \<and> emulationPreventionByteLocation s' = emulationPreventionByteLocation s"
  by (auto simp: ibs_read_def Let_def split: if_splits)

text \<open>Reading a value whose bits are at the front of the stream.\<close>

lemma ibs_read_value:
  assumes "ibs_inv s" "in_bits s = to_bits n v @ rest" "n \<le> 32" "v < 2 ^ n"
  shows "\<exists>s'. ibs_read n s = Some (v, s') \<and> ibs_inv s' \<and> in_bits s' = rest"
  using ibs_read_law [OF assms(1,3)] assms by auto

lemma readByte_law:
  assumes "ibs_inv s" "in_num_held s = 0" "fifo_idx s < length (in_fifo s)"
  shows "\<exists>b s'. readByte s = Some (b, s') \<and> ibs_inv s' \<and> in_num_held s' = 0 \<and> b < 256
    \<and> in_bits s = to_bits 8 b @ in_bits s'"
  using assms Cons_nth_drop_Suc [OF assms(3), symmetric]
  by (simp add: readByte_def ibs_inv_def in_bits_def bytes_nth)

lemma peekPreviousByte_law:
  assumes "readByte s = Some (b, s')"
  shows "peekPreviousByte s' = Some b"
  using assms by (auto simp: readByte_def peekPreviousByte_def)

theorem pseudoRead_law:
  assumes "ibs_inv s" "n \<le> 32" "n < 32 + length (in_bits s)"
  shows "pseudoRead n s = Some (of_bits (take n (in_bits s @ replicate n False)),
    s\<lparr>numBitsRead := u32 (numBitsRead s + min n (length (in_bits s)))\<rparr>)"
proof -
  define k where "k = min n (length (in_bits s))"
  have k: "k \<le> 32" "k \<le> length (in_bits s)" "k \<le> n" using assms by (auto simp: k_def)
  obtain s' where s': "ibs_read k s = Some (of_bits (take k (in_bits s)), s')"
    "in_fifo s' = in_fifo s" "numBitsRead s' = u32 (numBitsRead s + k)"
    using ibs_read_law [OF assms(1) k(1,2)] by blast
  have ep: "emulationPreventionByteLocation s' = emulationPreventionByteLocation s"
    using s'(1) by (auto simp: ibs_read_def Let_def split: if_splits)
  have "of_bits (take k (in_bits s)) < 2 ^ k"
    using of_bits_less [of "take k (in_bits s)"] k(2) by simp
  then have "push_bit (n - k) (of_bits (take k (in_bits s))) < 2 ^ (n - k) * 2 ^ k"
    by (simp add: push_bit_nat_def)
  also have "\<dots> \<le> 2 ^ 32"
    using power_increasing [OF assms(2), of "2 :: nat"] k(3) by (simp flip: power_add)
  finally have "u32 (push_bit (n - k) (of_bits (take k (in_bits s))))
    = of_bits (take k (in_bits s) @ replicate (n - k) False)"
    by (simp add: take_bit_nat_eq_self of_bits_append push_bit_nat_def flip: to_bits_zero)
  moreover have "take n (in_bits s @ replicate n False) = take k (in_bits s) @ replicate (n - k) False"
    by (auto simp: k_def min_def)
  moreover have "n - k < 32" using assms by (auto simp: k_def min_def)
  moreover have "s'\<lparr>fifo_idx := fifo_idx s, in_held := in_held s, in_num_held := in_num_held s\<rparr>
    = s\<lparr>numBitsRead := u32 (numBitsRead s + k)\<rparr>"
    using s'(2,3) ep by (cases s; cases s') simp
  ultimately show ?thesis
    using s'(1) assms(1) by (simp add: pseudoRead_def Let_def k_def flip: length_in_bits)
qed

theorem readByteAlignment_law:
  assumes "ibs_inv s" "in_bits s = True # replicate k False @ rest" "k < 8"
    "length rest mod 8 = 0"
  shows "\<exists>s'. readByteAlignment s = Some (k + 1, s') \<and> ibs_inv s' \<and> in_bits s' = rest"
proof -
  from ibs_read_value [OF assms(1), of 1 1 "replicate k False @ rest"] assms(2)
  obtain s1 where s1: "ibs_read 1 s = Some (1, s1)" "ibs_inv s1"
    "in_bits s1 = replicate k False @ rest" by (auto simp: to_bits_Suc)
  have k: "in_NumBitsUntilByteAligned s1 = k"
    using in_held_mod [OF s1(2)] s1(3) assms(3,4)
    by (simp add: in_NumBitsUntilByteAligned_def mod_add_eq [of k, symmetric])
  show ?thesis
  proof (cases "k = 0")
    case True
    with s1 k show ?thesis by (simp add: readByteAlignment_def)
  next
    case False
    from ibs_read_value [OF s1(2), of k 0 rest] s1(3) assms(3)
    obtain s2 where "ibs_read k s1 = Some (0, s2)" "ibs_inv s2" "in_bits s2 = rest"
      by (auto simp: to_bits_zero)
    moreover have "k \<le> getNumBitsLeft s1"
      using s1 by (simp flip: length_in_bits)
    ultimately show ?thesis using False s1 k by (simp add: readByteAlignment_def)
  qed
qed

lemma readOutTrailingBits_law:
  "ibs_inv s \<Longrightarrow> \<exists>s'. readOutTrailingBits c s = Some (c + in_num_held s, s') \<and> ibs_inv s'
     \<and> in_bits s' = drop (in_num_held s) (in_bits s)"
proof (induction "in_num_held s" arbitrary: c s)
  case 0
  then show ?case
    by (subst readOutTrailingBits.simps) (simp add: in_NumBitsUntilByteAligned_def)
next
  case (Suc n)
  have "ibs_read 1 s = Some (of_bits (take 1 (in_bits s)),
      s\<lparr>numBitsRead := u32 (numBitsRead s + 1), in_num_held := n\<rparr>)" (is "_ = Some (?v, ?s1)")
    using Suc.hyps(2) Suc.prems read_short [of s 1]
    by (auto simp: ibs_read_def Let_def simp flip: Suc.hyps(2))
  moreover obtain s1 where "ibs_read 1 s = Some (?v, s1)" "ibs_inv s1" "in_bits s1 = drop 1 (in_bits s)"
    using read_short [of s 1] Suc.prems Suc.hyps(2) by auto
  ultimately have s1: "ibs_read 1 s = Some (?v, ?s1)" "ibs_inv ?s1" "in_bits ?s1 = drop 1 (in_bits s)"
    by simp_all
  from Suc.hyps(1) [of ?s1 "c + 1"] s1(2) obtain s' where
    "readOutTrailingBits (c + 1) ?s1 = Some (c + 1 + n, s')" "ibs_inv s'"
    "in_bits s' = drop n (in_bits ?s1)" by auto
  moreover have "getNumBitsLeft s > 0" "in_NumBitsUntilByteAligned s \<noteq> 0"
    using Suc.hyps(2) Suc.prems by (simp_all add: getNumBitsLeft_def in_NumBitsUntilByteAligned_def ibs_inv_def)
  ultimately show ?case
    using s1 by (subst readOutTrailingBits.simps) (simp flip: Suc.hyps(2))
qed

lemma ibs_read_byte:
  assumes "ibs_inv s" "8 \<le> length (in_bits s)"
  shows "\<exists>b s'. ibs_read 8 s = Some (b, s') \<and> b < 256 \<and> ibs_inv s'
    \<and> in_bits s = to_bits 8 b @ in_bits s'"
proof -
  let ?b = "of_bits (take 8 (in_bits s))"
  have "?b < 2 ^ 8"
    using of_bits_less [of "take 8 (in_bits s)"] assms(2) by simp
  moreover have "to_bits 8 ?b = take 8 (in_bits s)"
    using assms(2) by (simp add: to_bits_of_bits)
  ultimately show ?thesis
    using ibs_read_law [OF assms(1), of 8] assms(2) by auto
qed

lemma read_bytes_law:
  "ibs_inv s \<Longrightarrow> 8 * n \<le> length (in_bits s) \<Longrightarrow>
    \<exists>bs s'. read_bytes n s = Some (bs, s') \<and> bytes bs \<and> length bs = n \<and> ibs_inv s'
      \<and> in_bits s = byte_bits bs @ in_bits s'"
proof (induction n arbitrary: s)
  case 0
  then show ?case by simp
next
  case (Suc n)
  from ibs_read_byte [of s] Suc.prems obtain b s1 where s1: "ibs_read 8 s = Some (b, s1)"
    "b < 256" "ibs_inv s1" "in_bits s = to_bits 8 b @ in_bits s1" by auto
  with Suc.IH [OF s1(3)] Suc.prems show ?case by auto
qed

lemma copy_bytes_law:
  assumes "ibs_inv s" "8 * n \<le> length (in_bits s)"
  shows "\<exists>bs s'. copy_bytes n s = Some (bs, s') \<and> bytes bs \<and> length bs = n \<and> ibs_inv s'
      \<and> in_bits s = byte_bits bs @ in_bits s'"
proof (cases "in_num_held s = 0")
  case True
  then have n: "n \<le> length (in_fifo s) - fifo_idx s"
    using assms(2) by (simp add: in_bits_def)
  let ?bs = "take n (drop (fifo_idx s) (in_fifo s))"
  have "drop (fifo_idx s) (in_fifo s) = ?bs @ drop (fifo_idx s + n) (in_fifo s)"
    by (metis append_take_drop_id drop_drop add.commute)
  then have "byte_bits (drop (fifo_idx s) (in_fifo s))
      = byte_bits ?bs @ byte_bits (drop (fifo_idx s + n) (in_fifo s))"
    by (metis byte_bits_simps(3))
  then show ?thesis
    using True n assms(1)
    by (simp add: copy_bytes_def Let_def in_bits_def ibs_inv_def le_diff_conv2 add.commute)
qed (use read_bytes_law [OF assms] in \<open>simp add: copy_bytes_def\<close>)

theorem extractSubstream_law:
  assumes "ibs_inv s" "n \<le> length (in_bits s)"
  shows "\<exists>t s'. extractSubstream n s = Some (t, s') \<and> ibs_inv t \<and> ibs_inv s'
    \<and> in_bits s' = drop n (in_bits s)
    \<and> in_bits t = take n (in_bits s) @ replicate ((8 - n mod 8) mod 8) False"
proof -
  have "8 * (n div 8) \<le> length (in_bits s)" using assms(2) by simp
  from copy_bytes_law [OF assms(1) this] obtain bs s1 where
    E: "copy_bytes (n div 8) s = Some (bs, s1)"
    and s1: "bytes bs" "length bs = n div 8" "ibs_inv s1" "in_bits s = byte_bits bs @ in_bits s1"
    by blast
  have n: "n = 8 * (n div 8) + n mod 8" by simp
  show ?thesis
  proof (cases "n mod 8 = 0")
    case True
    then have "in_bits s1 = drop n (in_bits s)" "take n (in_bits s) = byte_bits bs"
      using s1(2,4) n by simp_all
    then show ?thesis
      using E s1(1,3) True
      by (simp add: extractSubstream_def new_ibs_def ibs_inv_def in_bits_def)
  next
    case False
    have "8 * (n div 8) + n mod 8 \<le> 8 * (n div 8) + length (in_bits s1)"
      using assms(2) s1(2,4) by simp
    then have l: "n mod 8 \<le> length (in_bits s1)" by (rule add_le_imp_le_left)
    let ?v = "of_bits (take (n mod 8) (in_bits s1))"
    have "n mod 8 \<le> 32"
      using mod_less_divisor [of 8 n] by linarith
    from ibs_read_law [OF s1(3) this l] obtain s2 where s2: "ibs_read (n mod 8) s1 = Some (?v, s2)"
      "ibs_inv s2" "in_bits s2 = drop (n mod 8) (in_bits s1)" by blast
    have v: "?v < 2 ^ (n mod 8)"
      using of_bits_less [of "take (n mod 8) (in_bits s1)"] l by simp
    have m: "n mod 8 < 8" by simp
    have p: "push_bit (8 - n mod 8) ?v < 2 ^ (8 - n mod 8) * 2 ^ (n mod 8)"
      using v by (simp add: push_bit_nat_def)
    then have u: "u8 (push_bit (8 - n mod 8) ?v) = push_bit (8 - n mod 8) ?v"
      using m by (simp add: take_bit_nat_eq_self flip: power_add)
    have "to_bits (n mod 8 + (8 - n mod 8)) (?v * 2 ^ (8 - n mod 8) + 0)
        = to_bits (n mod 8) ?v @ to_bits (8 - n mod 8) 0"
      by (rule to_bits_concat_shift) simp
    then have tb: "to_bits 8 (push_bit (8 - n mod 8) ?v)
        = take (n mod 8) (in_bits s1) @ replicate (8 - n mod 8) False"
      using l by (simp add: to_bits_of_bits to_bits_zero push_bit_nat_def)
    have D: "take n (in_bits s) = byte_bits bs @ take (n mod 8) (in_bits s1)"
      "drop n (in_bits s) = drop (n mod 8) (in_bits s1)"
      using s1(2,4) n by (simp_all add: minus_mod_eq_mult_div [symmetric])
    let ?t = "new_ibs\<lparr>in_fifo := bs @ [u8 (push_bit (8 - n mod 8) ?v)]\<rparr>"
    have "extractSubstream n s = Some (?t, s2)"
      using E s2(1) False by (simp add: extractSubstream_def)
    moreover have "ibs_inv ?t"
      using s1(1) by (simp add: new_ibs_def ibs_inv_def)
    moreover have "in_bits ?t = take n (in_bits s) @ replicate ((8 - n mod 8) mod 8) False"
      using False tb D(1) by (simp add: u)
    ultimately show ?thesis using s2 D(2) by simp
  qed
qed

section \<open>What is written is what is read\<close>

text \<open>The reader of the bytes of a finished stream.\<close>

definition open_stream :: "nat list \<Rightarrow> ibs" where
  "open_stream f = new_ibs\<lparr>in_fifo := f\<rparr>"

lemma open_stream_inv [simp]: "bytes f \<Longrightarrow> ibs_inv (open_stream f)"
  "in_bits (open_stream f) = byte_bits f"
  by (simp_all add: open_stream_def new_ibs_def ibs_inv_def in_bits_def)

lemma open_out_bits:
  assumes "obs_inv s" "out_num_held s = 0"
  shows "ibs_inv (open_stream (out_fifo s))" "in_bits (open_stream (out_fifo s)) = out_bits s"
  using assms by (simp_all add: obs_inv_def out_bits_def)

fun write_fields :: "(nat \<times> nat) list \<Rightarrow> obs \<Rightarrow> obs option" where
  "write_fields [] s = Some s"
| "write_fields ((v, n) # fs) s = do { s \<leftarrow> obs_write v n s; write_fields fs s }"

fun read_fields :: "nat list \<Rightarrow> ibs \<Rightarrow> (nat list \<times> ibs) option" where
  "read_fields [] s = Some ([], s)"
| "read_fields (n # ns) s = do {
     (v, s) \<leftarrow> ibs_read n s;
     (vs, s) \<leftarrow> read_fields ns s;
     Some (v # vs, s)
   }"

definition fields_ok :: "(nat \<times> nat) list \<Rightarrow> bool" where
  "fields_ok fs \<longleftrightarrow> (\<forall>(v, n)\<in>set fs. n \<le> 32 \<and> v < 2 ^ n)"

lemma write_fields_law:
  "obs_inv s \<Longrightarrow> fields_ok fs \<Longrightarrow> \<exists>s'. write_fields fs s = Some s' \<and> obs_inv s'
     \<and> out_bits s' = out_bits s @ concat (map (\<lambda>(v, n). to_bits n v) fs)"
proof (induction fs arbitrary: s)
  case Nil
  then show ?case by simp
next
  case (Cons f fs)
  obtain v n where f: "f = (v, n)" by (cases f)
  with Cons.prems obs_write_law [of s n v] obtain s1 where "obs_write v n s = Some s1" "obs_inv s1"
    "out_bits s1 = out_bits s @ to_bits n v" by (auto simp: fields_ok_def)
  with Cons.IH [of s1] Cons.prems f show ?case by (auto simp: fields_ok_def)
qed

lemma read_fields_law:
  "ibs_inv s \<Longrightarrow> fields_ok fs \<Longrightarrow> in_bits s = concat (map (\<lambda>(v, n). to_bits n v) fs) @ rest \<Longrightarrow>
     \<exists>s'. read_fields (map snd fs) s = Some (map fst fs, s') \<and> ibs_inv s' \<and> in_bits s' = rest"
proof (induction fs arbitrary: s)
  case Nil
  then show ?case by simp
next
  case (Cons f fs)
  obtain v n where f: "f = (v, n)" by (cases f)
  with Cons.prems ibs_read_value [of s n v] obtain s1 where "ibs_read n s = Some (v, s1)"
    "ibs_inv s1" "in_bits s1 = concat (map (\<lambda>(v, n). to_bits n v) fs) @ rest"
    by (auto simp: fields_ok_def)
  with Cons.IH [of s1] Cons.prems f show ?case by (auto simp: fields_ok_def)
qed

section \<open>Properties\<close>

text \<open>
  \<open>OutputBitstream::write\<close> succeeds on every value that fits its width, and appends exactly
  the bits of the value, the most significant first, whatever is held back in the partial
  byte; the count of written bits grows by the width.
\<close>

theorem write_appends_bits:
  assumes "obs_inv s" "n \<le> 32" "v < 2 ^ n"
  shows "\<exists>s'. obs_write v n s = Some s' \<and> obs_inv s' \<and> out_bits s' = out_bits s @ to_bits n v
    \<and> getNumberOfWrittenBits s' = getNumberOfWrittenBits s + n"
  using obs_write_law [OF assms] by (auto simp flip: length_out_bits)

theorem write_appends_bits_witness:
  "\<exists>s'. obs_write 2989 12 \<lparr>out_fifo = [7], out_num_held = 3, out_held = 160\<rparr> = Some s' \<and> obs_inv s'
    \<and> out_bits s' = out_bits \<lparr>out_fifo = [7], out_num_held = 3, out_held = 160\<rparr> @ to_bits 12 2989
    \<and> getNumberOfWrittenBits s' = getNumberOfWrittenBits \<lparr>out_fifo = [7], out_num_held = 3, out_held = 160\<rparr> + 12"
  by (rule write_appends_bits) (simp_all add: obs_inv_def bytes_def take_bit_nat_def)

text \<open>
  C35. \<open>InputBitstream::read\<close> returns the next \<open>n\<close> bits as a number and moves past them, whatever
  is held in the partial byte, and fails exactly when fewer than \<open>n\<close> bits are left.
\<close>

theorem read_takes_bits:
  assumes "ibs_inv s" "n \<le> 32"
  shows "case ibs_read n s of
      None \<Rightarrow> length (in_bits s) < n
    | Some (v, s') \<Rightarrow> n \<le> length (in_bits s) \<and> v = of_bits (take n (in_bits s)) \<and> ibs_inv s'
        \<and> in_bits s' = drop n (in_bits s) \<and> numBitsRead s' = u32 (numBitsRead s + n)"
proof (cases "length (in_bits s) < n")
  case True
  with read_exhausted [OF assms(1)] show ?thesis by simp
next
  case False
  with ibs_read_law [OF assms] show ?thesis by auto
qed

theorem read_takes_bits_witness:
  "case ibs_read 12 (open_stream [171, 205]) of
      None \<Rightarrow> length (in_bits (open_stream [171, 205])) < 12
    | Some (v, s') \<Rightarrow> 12 \<le> length (in_bits (open_stream [171, 205]))
        \<and> v = of_bits (take 12 (in_bits (open_stream [171, 205]))) \<and> ibs_inv s'
        \<and> in_bits s' = drop 12 (in_bits (open_stream [171, 205]))
        \<and> numBitsRead s' = u32 (numBitsRead (open_stream [171, 205]) + 12)"
  by (rule read_takes_bits) (simp_all add: bytes_def)

text \<open>
  Fields of any widths up to 32 bits, written one after another into an empty stream
  that is then aligned to a byte, are read back unchanged from its bytes.
\<close>

theorem fields_roundtrip:
  assumes "fields_ok fs"
  shows "\<exists>s t. write_fields fs clear = Some s
    \<and> read_fields (map snd fs) (open_stream (out_fifo (writeAlignZero s))) = Some (map fst fs, t)"
proof -
  from write_fields_law [OF obs_inv_clear assms] obtain s where s: "write_fields fs clear = Some s"
    "obs_inv s" "out_bits s = concat (map (\<lambda>(v, n). to_bits n v) fs)" by auto
  note w = writeAlignZero_law [OF s(2)]
  from read_fields_law [OF open_out_bits(1) [OF w(1,3)] assms] open_out_bits(2) [OF w(1,3)] w(2) s
  show ?thesis by auto
qed

theorem fields_roundtrip_witness:
  "let fs = [(5, 3), (1000, 11), (4294967295, 32)]
   in \<exists>s t. write_fields fs clear = Some s
    \<and> read_fields (map snd fs) (open_stream (out_fifo (writeAlignZero s))) = Some (map fst fs, t)"
  unfolding Let_def by (rule fields_roundtrip) (simp add: fields_ok_def)

text \<open>
  A substream that \<open>addSubstream\<close> appends to a stream is what \<open>extractSubstream\<close> gets out of
  it at that place, padded with zero bits to whole bytes, and the reader then stands behind it.
\<close>

theorem substream_roundtrip:
  assumes "obs_inv s" "obs_inv sub" "ibs_inv t"
  shows "\<exists>s'. addSubstream sub s = Some s' \<and> obs_inv s' \<and> out_bits s' = out_bits s @ out_bits sub
    \<and> (in_bits t = out_bits sub @ rest \<longrightarrow> (\<exists>u t'. extractSubstream (getNumberOfWrittenBits sub) t = Some (u, t')
         \<and> ibs_inv u \<and> in_bits t' = rest
         \<and> in_bits u = out_bits sub @ replicate ((8 - getNumberOfWrittenBits sub mod 8) mod 8) False))"
proof -
  have "\<exists>u t'. extractSubstream (getNumberOfWrittenBits sub) t = Some (u, t') \<and> ibs_inv u \<and> in_bits t' = rest
      \<and> in_bits u = out_bits sub @ replicate ((8 - getNumberOfWrittenBits sub mod 8) mod 8) False"
    if "in_bits t = out_bits sub @ rest"
    using extractSubstream_law [OF assms(3), of "getNumberOfWrittenBits sub"] that
    by (auto simp flip: length_out_bits)
  with addSubstream_law [OF assms(1,2)] show ?thesis by blast
qed

theorem substream_roundtrip_witness:
  "let sub = \<lparr>out_fifo = [200], out_num_held = 2, out_held = 64\<rparr>; t = open_stream [200, 64]; rest = replicate 6 False
   in \<exists>s'. addSubstream sub clear = Some s' \<and> obs_inv s' \<and> out_bits s' = out_bits clear @ out_bits sub
    \<and> (in_bits t = out_bits sub @ rest \<longrightarrow> (\<exists>u t'. extractSubstream (getNumberOfWrittenBits sub) t = Some (u, t')
         \<and> ibs_inv u \<and> in_bits t' = rest
         \<and> in_bits u = out_bits sub @ replicate ((8 - getNumberOfWrittenBits sub mod 8) mod 8) False))"
  unfolding Let_def by (rule substream_roundtrip) (simp_all add: obs_inv_def clear_def bytes_def take_bit_nat_def)

text \<open>
  \<open>writeByteAlignment\<close> writes a one and then zeros up to the byte boundary, and
  \<open>readByteAlignment\<close> accepts them, reports how many bits they were and stops at the boundary.
\<close>

theorem byte_alignment_roundtrip:
  assumes "obs_inv s"
  shows "\<exists>s' k. writeByteAlignment s = Some s' \<and> out_num_held s' = 0 \<and> out_bits s' = out_bits s @ True # replicate k False
    \<and> (\<forall>t rest. ibs_inv t \<and> in_bits t = True # replicate k False @ rest \<and> length rest mod 8 = 0
        \<longrightarrow> (\<exists>t'. readByteAlignment t = Some (k + 1, t') \<and> ibs_inv t' \<and> in_bits t' = rest))"
proof -
  from writeByteAlignment_law [OF assms] obtain s' k where "writeByteAlignment s = Some s'" "out_num_held s' = 0"
    "k < 8" "out_bits s' = out_bits s @ True # replicate k False" by blast
  with readByteAlignment_law [where k = k] show ?thesis by (intro exI [of _ s'] exI [of _ k]) auto
qed

theorem byte_alignment_roundtrip_witness:
  "\<exists>s' k. writeByteAlignment clear = Some s' \<and> out_num_held s' = 0
    \<and> out_bits s' = out_bits clear @ True # replicate k False
    \<and> (\<forall>t rest. ibs_inv t \<and> in_bits t = True # replicate k False @ rest \<and> length rest mod 8 = 0
        \<longrightarrow> (\<exists>t'. readByteAlignment t = Some (k + 1, t') \<and> ibs_inv t' \<and> in_bits t' = rest))"
  by (rule byte_alignment_roundtrip) simp

text \<open>
  \<open>pseudoRead\<close> returns the next bits, with zeros for those past the end, and restores the
  read position, but the counter \<open>m_numBitsRead\<close> has advanced: the peek is visible.
\<close>

theorem pseudoRead_advances_counter:
  assumes "ibs_inv s" "n \<le> 32" "n < 32 + length (in_bits s)"
  shows "pseudoRead n s = Some (of_bits (take n (in_bits s @ replicate n False)),
    s\<lparr>numBitsRead := u32 (numBitsRead s + min n (length (in_bits s)))\<rparr>)"
  using assms by (rule pseudoRead_law)

theorem pseudoRead_advances_counter_witness:
  "pseudoRead 5 (open_stream [200]) = Some (of_bits (take 5 (in_bits (open_stream [200]) @ replicate 5 False)),
    (open_stream [200])\<lparr>numBitsRead := u32 (numBitsRead (open_stream [200]) + min 5 (length (in_bits (open_stream [200]))))\<rparr>)"
  by (rule pseudoRead_advances_counter) (simp_all add: bytes_def)

end
