(* ===== verification/Vlc.thy ===== *)
theory Vlc
  imports TruncBinary BitStream
begin

text \<open>
  The syntax element writers and readers of \<open>EncoderLib/VLCWriter.cpp\<close> and
  \<open>DecoderLib/VLCReader.cpp\<close>: fixed-length codes, flags and Exp-Golomb codes, the RBSP
  trailing bits, the access unit delimiter and filler data.

  The interpretation \<open>vlc\<close> shows that the bit streams are a bit channel; \<open>vlc.codes w r x\<close>
  is the round trip relation of this and the following theories.
\<close>

section \<open>Conversions between \<open>int\<close> and \<open>uint32_t\<close>\<close>

definition to_u32 :: "int \<Rightarrow> nat" where
  "to_u32 i = nat (i mod 2 ^ 32)"

definition to_i32 :: "nat \<Rightarrow> int" where
  "to_i32 n = (if n < 2 ^ 31 then int n else int n - 2 ^ 32)"

lemma to_u32_nonneg [simp]: "0 \<le> i \<Longrightarrow> i < 2 ^ 32 \<Longrightarrow> to_u32 i = nat i"
  by (simp add: to_u32_def)

lemma to_u32_less [simp]: "to_u32 i < 4294967296"
  by (simp add: to_u32_def nat_less_iff)

lemma to_i32_small [simp]: "n < 2 ^ 31 \<Longrightarrow> to_i32 n = int n"
  by (simp add: to_i32_def)

lemma to_i32_nat [simp]: "0 \<le> i \<Longrightarrow> i < 2 ^ 31 \<Longrightarrow> to_i32 (nat i) = i"
  by (simp add: to_i32_def nat_less_iff)

lemma to_i32_to_u32: "- (2 ^ 31) \<le> i \<Longrightarrow> i < 2 ^ 31 \<Longrightarrow> to_i32 (to_u32 i) = i"
proof (cases "0 \<le> i")
  case False
  assume "- (2 ^ 31) \<le> i" "i < 2 ^ 31"
  with False have "(i + 2 ^ 32) mod 2 ^ 32 = i + 2 ^ 32" by (intro mod_pos_pos_trivial) auto
  then have "to_u32 i = nat (i + 2 ^ 32)" by (simp add: to_u32_def)
  with False \<open>- (2 ^ 31) \<le> i\<close> show ?thesis by (simp add: to_i32_def)
qed (simp add: to_i32_def)

section \<open>Writer\<close>

definition xWriteCode :: "nat \<Rightarrow> nat \<Rightarrow> obs \<Rightarrow> obs option" where
  "xWriteCode uiCode uiLength s = do { check_not (uiLength = 0); obs_write uiCode uiLength s }"

text \<open>The loop that halves \<open>uiTemp\<close> until it is 1.\<close>

function uvlc_length :: "nat \<Rightarrow> nat \<Rightarrow> nat" where
  "uvlc_length uiTemp uiLength =
     (if 1 < uiTemp then uvlc_length (drop_bit 1 uiTemp) (uiLength + 2) else uiLength)"
  by pat_completeness auto

termination
  by (relation "measure fst") (auto simp: drop_bit_nat_def)

declare uvlc_length.simps [simp del]

definition xWriteUvlc :: "nat \<Rightarrow> obs \<Rightarrow> obs option" where
  "xWriteUvlc uiCode s = do {
     let uiCode = u32 (uiCode + 1);
     check_not (uiCode = 0);
     let uiLength = uvlc_length uiCode 1;
     s \<leftarrow> obs_write 0 (drop_bit 1 uiLength) s;
     obs_write uiCode (drop_bit 1 (uiLength + 1)) s
   }"

definition xWriteSvlc :: "int \<Rightarrow> obs \<Rightarrow> obs option" where
  "xWriteSvlc iCode s =
     (let uiCode = to_u32 (if iCode \<le> 0 then (- iCode) * 2 else iCode * 2 - 1)
      in xWriteUvlc uiCode s)"

definition xWriteFlag :: "nat \<Rightarrow> obs \<Rightarrow> obs option" where
  "xWriteFlag uiCode s = obs_write uiCode 1 s"

text \<open>The loop of \<open>xWriteRbspTrailingBits\<close>; \<open>n\<close> bounds its passes.\<close>

fun write_alignment :: "nat \<Rightarrow> nat \<Rightarrow> obs \<Rightarrow> (nat \<times> obs) option" where
  "write_alignment n cnt s =
     (if getNumBitsUntilByteAligned s \<noteq> 0 then
        (case n of 0 \<Rightarrow> None
         | Suc n \<Rightarrow> do { s \<leftarrow> xWriteFlag 0 s; write_alignment n (cnt + 1) s })
      else Some (cnt, s))"

definition xWriteRbspTrailingBits :: "obs \<Rightarrow> obs option" where
  "xWriteRbspTrailingBits s = do {
     s \<leftarrow> xWriteFlag 1 s;
     (cnt, s) \<leftarrow> write_alignment 8 0 s;
     check_not (cnt \<ge> 8);
     Some s
   }"

definition codeAUD :: "int \<Rightarrow> obs \<Rightarrow> obs option" where
  "codeAUD pictureType s = do {
     check_not (pictureType \<ge> 3);
     s \<leftarrow> xWriteCode (to_u32 pictureType) 3 s;
     xWriteRbspTrailingBits s
   }"

section \<open>Reader\<close>

definition xReadCode :: "nat \<Rightarrow> ibs \<Rightarrow> (nat \<times> ibs) option" where
  "xReadCode uiLength s = do { check_not (uiLength = 0); ibs_read uiLength s }"

lemma ibs_read_decreases: "ibs_read n s = Some (v, s') \<Longrightarrow> 0 < n \<Longrightarrow>
    in_num_held s' + 8 * (length (in_fifo s') - fifo_idx s') < in_num_held s + 8 * (length (in_fifo s) - fifo_idx s)"
proof -
  assume r: "ibs_read n s = Some (v, s')" and n: "0 < n"
  define k where "k = drop_bit 3 (n - in_num_held s - 1)"
  show ?thesis
  proof (cases "n \<le> in_num_held s")
    case True
    with r n show ?thesis by (auto simp: ibs_read_def)
  next
    case False
    have "(32 - (n - in_num_held s)) mod 8 < 8" by simp
    moreover have "k < length (in_fifo s) - fifo_idx s"
      "in_num_held s' = (32 - (n - in_num_held s)) mod 8" "in_fifo s' = in_fifo s" "fifo_idx s' = fifo_idx s + k + 1"
      using r False by (auto simp: ibs_read_def Let_def k_def)
    ultimately show ?thesis by simp
  qed
qed

text \<open>\<open>while (!(uiCode & 1)) { read(1, uiCode); uiLength++; }\<close>\<close>

function read_prefix :: "nat \<Rightarrow> nat \<Rightarrow> ibs \<Rightarrow> (nat \<times> ibs) option" where
  "read_prefix uiCode uiLength s =
     (if uiCode AND 1 = 0 then
        (case ibs_read 1 s of None \<Rightarrow> None
         | Some (uiCode, s) \<Rightarrow> read_prefix uiCode (uiLength + 1) s)
      else Some (uiLength, s))"
  by pat_completeness auto

termination
  by (relation "measure (\<lambda>(c, l, s). in_num_held s + 8 * (length (in_fifo s) - fifo_idx s))")
    (auto dest: ibs_read_decreases)

declare read_prefix.simps [simp del]

text \<open>
  \<open>(1 << uiLength) - 1\<close> is computed in \<open>int\<close>, where it overflows for a length of 31 and is undefined beyond; so a code with 31
  or more leading zeros is an error here, for the signed codes too, whose \<open>1 << uiLength\<close> does not fit \<open>int\<close>.
\<close>

definition xReadUvlc :: "ibs \<Rightarrow> (nat \<times> ibs) option" where
  "xReadUvlc s = do {
     (uiCode, s) \<leftarrow> ibs_read 1 s;
     if 0 = uiCode then do {
       (uiLength, s) \<leftarrow> read_prefix uiCode 0 s;
       (uiVal, s) \<leftarrow> ibs_read uiLength s;
       check_not (uiLength \<ge> 31);
       Some (u32 (uiVal + (push_bit uiLength 1 - 1)), s)
     } else Some (0, s)
   }"

definition xReadSvlc :: "ibs \<Rightarrow> (int \<times> ibs) option" where
  "xReadSvlc s = do {
     (uiBits, s) \<leftarrow> ibs_read 1 s;
     if 0 = uiBits then do {
       (uiLength, s) \<leftarrow> read_prefix uiBits 0 s;
       (uiBits, s) \<leftarrow> ibs_read uiLength s;
       check_not (uiLength \<ge> 31);
       let uiBits = u32 (uiBits + push_bit uiLength 1);
       Some (if uiBits AND 1 \<noteq> 0 then - int (drop_bit 1 uiBits) else int (drop_bit 1 uiBits), s)
     } else Some (0, s)
   }"

definition xReadFlag :: "ibs \<Rightarrow> (nat \<times> ibs) option" where
  "xReadFlag s = ibs_read 1 s"

function read_alignment :: "nat \<Rightarrow> ibs \<Rightarrow> (nat \<times> ibs) option" where
  "read_alignment cnt s =
     (if in_NumBitsUntilByteAligned s \<noteq> 0 then
        (case xReadFlag s of None \<Rightarrow> None
         | Some (b, s) \<Rightarrow> if b \<noteq> 0 then None else read_alignment (cnt + 1) s)
      else Some (cnt, s))"
  by pat_completeness auto

termination
  by (relation "measure (\<lambda>(c, s). in_num_held s + 8 * (length (in_fifo s) - fifo_idx s))")
    (auto simp: xReadFlag_def dest: ibs_read_decreases)

declare read_alignment.simps [simp del]

definition xReadRbspTrailingBits :: "ibs \<Rightarrow> (unit \<times> ibs) option" where
  "xReadRbspTrailingBits s = do {
     (b, s) \<leftarrow> xReadFlag s;
     check_not (b \<noteq> 1);
     (cnt, s) \<leftarrow> read_alignment 0 s;
     check_not (cnt \<ge> 8);
     Some ((), s)
   }"

definition parseAccessUnitDelimiter :: "ibs \<Rightarrow> (nat \<times> ibs) option" where
  "parseAccessUnitDelimiter s = do {
     (picType, s) \<leftarrow> xReadCode 3 s;
     (_, s) \<leftarrow> xReadRbspTrailingBits s;
     Some (picType, s)
   }"

text \<open>The \<open>CHECK\<close> of the loop throws unless the byte is \<open>0xff\<close>.\<close>

function read_filler :: "nat \<Rightarrow> ibs \<Rightarrow> (nat \<times> ibs) option" where
  "read_filler fdSize s =
     (if getNumBitsLeft s > 8 then
        (case xReadCode 8 s of None \<Rightarrow> None
         | Some (ffByte, s) \<Rightarrow> if ffByte \<noteq> 255 then None else read_filler (u32 (fdSize + 1)) s)
      else Some (fdSize, s))"
  by pat_completeness auto

termination
  by (relation "measure (\<lambda>(c, s). in_num_held s + 8 * (length (in_fifo s) - fifo_idx s))")
    (auto simp: xReadCode_def dest: ibs_read_decreases)

declare read_filler.simps [simp del]

definition parseFillerData :: "ibs \<Rightarrow> (nat \<times> ibs) option" where
  "parseFillerData s = do {
     (fdSize, s) \<leftarrow> read_filler 0 s;
     (_, s) \<leftarrow> xReadRbspTrailingBits s;
     Some (fdSize, s)
   }"

text \<open>
  \<open>peekBits\<close> and \<open>xMoreRbspData\<close>.  \<open>pseudoRead\<close> does count the bits it looks at, so the state is
  returned.  The loop drops the trailing zeros of the at most eight bits looked at.
\<close>

definition peekBits :: "nat \<Rightarrow> ibs \<Rightarrow> (nat \<times> ibs) option" where
  "peekBits bits s = pseudoRead bits s"

fun drop_zeros :: "nat \<Rightarrow> nat \<Rightarrow> nat" where
  "drop_zeros lastByte 0 = 0"
| "drop_zeros lastByte (Suc cnt) =
     (if lastByte AND 1 = 0 then drop_zeros (drop_bit 1 lastByte) cnt else Suc cnt)"

definition xMoreRbspData :: "ibs \<Rightarrow> (bool \<times> ibs) option" where
  "xMoreRbspData s =
     (let bitsLeft = getNumBitsLeft s
      in if bitsLeft > 8 then Some (True, s)
         else do {
           (lastByte, s) \<leftarrow> peekBits bitsLeft s;
           let cnt = int (drop_zeros (u8 lastByte) bitsLeft) - 1;
           check_not (cnt < 0);
           Some (cnt > 0, s)
         })"

text \<open>The loops \<open>while (xMoreRbspData()) { READ_FLAG(...) }\<close>; \<open>n\<close> bounds their passes.\<close>

fun skip_extension_data :: "nat \<Rightarrow> ibs \<Rightarrow> (unit \<times> ibs) option" where
  "skip_extension_data n s =
     (case xMoreRbspData s of None \<Rightarrow> None
      | Some (moreData, s) \<Rightarrow>
          if moreData then
            (case n of 0 \<Rightarrow> None
             | Suc n \<Rightarrow> (case xReadFlag s of None \<Rightarrow> None | Some (_, s) \<Rightarrow> skip_extension_data n s))
          else Some ((), s))"

section \<open>The bit streams are a bit channel\<close>

definition obs_ext :: "obs \<Rightarrow> bits \<Rightarrow> bool" where
  "obs_ext s F \<longleftrightarrow> 8 dvd length F \<and> take (length (out_bits s)) F = out_bits s"

definition ibs_pos :: "obs \<Rightarrow> ibs \<Rightarrow> bits \<Rightarrow> bool" where
  "ibs_pos s t F \<longleftrightarrow> ibs_inv t \<and> F = out_bits s @ in_bits t"

lemma obs_extD: "obs_ext s' F \<Longrightarrow> out_bits s' = out_bits s @ bs \<Longrightarrow> obs_ext s F"
  by (auto simp: obs_ext_def append_eq_conv_conj min_def take_add dest: arg_cong [of _ _ "take (length (out_bits s))"])

lemma obs_ext_pos:
  assumes "obs_ext s' F" "out_bits s' = out_bits s @ bs" "ibs_pos s t F"
  obtains rest where "in_bits t = bs @ rest" "F = out_bits s' @ rest"
proof -
  have "F = out_bits s @ bs @ drop (length (out_bits s')) F"
    using assms(1,2) append_take_drop_id [of "length (out_bits s')" F] by (simp add: obs_ext_def)
  with assms(2,3) show ?thesis by (intro that [of "drop (length (out_bits s')) F"]) (auto simp: ibs_pos_def)
qed

text \<open>What a writer appends and a reader takes, in bits.\<close>

definition appends :: "(obs \<Rightarrow> obs option) \<Rightarrow> bits \<Rightarrow> bool" where
  "appends w bs \<longleftrightarrow> (\<forall>s. obs_inv s \<longrightarrow> (\<exists>s'. w s = Some s' \<and> obs_inv s' \<and> out_bits s' = out_bits s @ bs))"

definition takes :: "(ibs \<Rightarrow> ('x \<times> ibs) option) \<Rightarrow> bits \<Rightarrow> 'x \<Rightarrow> bool" where
  "takes r bs x \<longleftrightarrow> (\<forall>t rest. ibs_inv t \<and> in_bits t = bs @ rest
     \<longrightarrow> (\<exists>t'. r t = Some (x, t') \<and> ibs_inv t' \<and> in_bits t' = rest))"

lemma appends_write: "n \<le> 32 \<Longrightarrow> v < 2 ^ n \<Longrightarrow> appends (obs_write v n) (to_bits n v)"
  by (simp add: appends_def obs_write_law)

lemma appends_bind: "appends w1 b1 \<Longrightarrow> appends w2 b2 \<Longrightarrow> appends (\<lambda>s. w1 s \<bind> w2) (b1 @ b2)"
  unfolding appends_def by (metis append_assoc bind.bind_lunit)

lemma takes_read: "n \<le> 32 \<Longrightarrow> length bs = n \<Longrightarrow> takes (ibs_read n) bs (of_bits bs)"
  unfolding takes_def using ibs_read_law by fastforce

lemma takes_bind:
  "takes r1 b1 x \<Longrightarrow> takes (r2 x) b2 y \<Longrightarrow> takes (\<lambda>t. r1 t \<bind> (\<lambda>(x, t). r2 x t)) (b1 @ b2) y"
  unfolding takes_def by fastforce

lemma takes_return: "takes (\<lambda>t. Some (x, t)) [] x"
  by (simp add: takes_def)

lemma obs_pad: "\<exists>F. obs_ext s F"
proof -
  let ?l = "length (out_bits s)"
  have "8 dvd ?l + (8 - ?l mod 8) mod 8" using align8 [of ?l] by (simp add: mod_eq_0_iff_dvd)
  then show ?thesis
    by (intro exI [of _ "out_bits s @ replicate ((8 - ?l mod 8) mod 8) False"]) (simp add: obs_ext_def)
qed

lemma codes_of_bits:
  assumes "appends w bs" "takes r bs x" "obs_inv s"
  shows "\<exists>s'. w s = Some s' \<and> obs_inv s'
     \<and> (\<forall>F. obs_ext s' F \<longrightarrow> obs_ext s F \<and> (\<forall>t. ibs_pos s t F \<longrightarrow> (\<exists>t'. r t = Some (x, t') \<and> ibs_pos s' t' F)))"
proof -
  from assms(1,3) obtain s' where s': "w s = Some s'" "obs_inv s'" "out_bits s' = out_bits s @ bs"
    unfolding appends_def by blast
  have "\<exists>t'. r t = Some (x, t') \<and> ibs_pos s' t' F" if "obs_ext s' F" "ibs_pos s t F" for F t
  proof -
    from obs_ext_pos [OF that(1) s'(3) that(2)]
    obtain rest where "in_bits t = bs @ rest" "F = out_bits s' @ rest" by blast
    with assms(2) that(2) show ?thesis unfolding takes_def ibs_pos_def by blast
  qed
  with s' obs_extD [OF _ s'(3)] show ?thesis by blast
qed

interpretation vlc: coupling obs_inv obs_ext ibs_pos
  by unfold_locales (rule obs_pad)

lemma codes_bitsI: "appends w bs \<Longrightarrow> takes r bs x \<Longrightarrow> vlc.codes w r x"
  by (rule vlc.codesI) (rule codes_of_bits)

lemma takes_to_bits: "n \<le> 32 \<Longrightarrow> v < 2 ^ n \<Longrightarrow> takes (ibs_read n) (to_bits n v) v"
  using takes_read [of n "to_bits n v"] by simp

interpretation vlc: bit_channel obs_inv obs_ext ibs_pos obs_write ibs_read 32
proof (unfold_locales, goal_cases)
  case (1 n v)
  then show ?case by (blast intro: codes_bitsI appends_write takes_to_bits)
next
  case (2 m n a b s)
  have "a * 2 ^ n + b < 2 ^ (m + n)"
  proof -
    have "a * 2 ^ n + b < (a + 1) * 2 ^ n" using 2(3) by simp
    also have "\<dots> \<le> 2 ^ m * 2 ^ n" using 2(2) by (intro mult_le_mono1) simp
    finally show ?thesis by (simp add: power_add)
  qed
  with 2 appends_write [of m a] appends_write [of n b] appends_write [of "m + n" "a * 2 ^ n + b"]
  obtain s1 s2 s' where s: "obs_write a m s = Some s1" "obs_inv s1" "out_bits s1 = out_bits s @ to_bits m a"
    "obs_write b n s1 = Some s2" "out_bits s2 = out_bits s1 @ to_bits n b"
    "obs_write (a * 2 ^ n + b) (m + n) s = Some s'" "obs_inv s'"
    "out_bits s' = out_bits s @ to_bits (m + n) (a * 2 ^ n + b)"
    unfolding appends_def by (metis add_leD1 add_leD2)
  have "out_bits s' = out_bits s2"
    using s(3,5,8) 2(3) by (simp add: to_bits_concat_shift)
  then have "obs_ext s' F \<Longrightarrow> obs_ext s2 F" "ibs_pos s2 t F \<Longrightarrow> ibs_pos s' t F" for t F
    by (simp_all add: obs_ext_def ibs_pos_def)
  with s show ?case by blast
qed simp

section \<open>Every syntax element is read back\<close>

lemma appends_xWriteCode: "0 < n \<Longrightarrow> n \<le> 32 \<Longrightarrow> v < 2 ^ n \<Longrightarrow> appends (xWriteCode v n) (to_bits n v)"
  using appends_write [of n v] by (simp add: appends_def xWriteCode_def)

lemma takes_xReadCode: "0 < n \<Longrightarrow> n \<le> 32 \<Longrightarrow> v < 2 ^ n \<Longrightarrow> takes (xReadCode n) (to_bits n v) v"
  using takes_to_bits [of n v] by (simp add: takes_def xReadCode_def)

lemma codes_code: "0 < n \<Longrightarrow> n \<le> 32 \<Longrightarrow> v < 2 ^ n \<Longrightarrow> vlc.codes (xWriteCode v n) (xReadCode n) v"
  by (blast intro: codes_bitsI appends_xWriteCode takes_xReadCode)

lemma appends_flag: "b < 2 \<Longrightarrow> appends (xWriteFlag b) [b = 1]"
  using appends_write [of 1 b] less_2_cases [of b]
  by (auto simp: appends_def xWriteFlag_def to_bits_Suc)

lemma takes_flag: "takes xReadFlag [b] (of_bool b)"
  using takes_read [of 1 "[b]"] by (simp add: takes_def xReadFlag_def of_bits_Cons)

lemma codes_flag: "b < 2 \<Longrightarrow> vlc.codes (xWriteFlag b) xReadFlag b"
proof -
  assume b: "b < 2"
  then have "of_bool (b = 1) = b" by auto
  then show ?thesis
    using codes_bitsI [OF appends_flag [OF b] takes_flag] by metis
qed

text \<open>Exp-Golomb codes: \<open>L\<close> zeros, a one and the \<open>L\<close> low bits of the value plus one.\<close>

lemma uvlc_length_law: "r < 2 ^ L \<Longrightarrow> uvlc_length (2 ^ L + r) n = n + 2 * L"
proof (induction L arbitrary: r n)
  case 0
  then show ?case by (simp add: uvlc_length.simps)
next
  case (Suc L)
  have "drop_bit 1 (2 ^ Suc L + r) = 2 ^ L + r div 2" by (simp add: drop_bit_nat_def)
  moreover have "r div 2 < 2 ^ L" using Suc.prems by (simp add: less_mult_imp_div_less mult.commute)
  moreover have "1 < 2 ^ Suc L + r" using one_le_power [of "2 :: nat" L] by (simp only: power_Suc) linarith
  ultimately show ?case
    using Suc.IH by (subst uvlc_length.simps) simp
qed

lemma read_prefix_zeros:
  "ibs_inv t \<Longrightarrow> in_bits t = replicate k False @ True # rest \<Longrightarrow>
    \<exists>t'. read_prefix 0 n t = Some (n + k + 1, t') \<and> ibs_inv t' \<and> in_bits t' = rest"
proof (induction k arbitrary: t n)
  case 0
  with ibs_read_law [of t 1] obtain t' where
    "ibs_read 1 t = Some (1, t')" "ibs_inv t'" "in_bits t' = rest" by (auto simp: of_bits_Cons)
  then show ?case
    by (simp add: read_prefix.simps [of 0 n t] read_prefix.simps [of "Suc 0" "Suc n" t'])
next
  case (Suc k)
  with ibs_read_law [of t 1] obtain t' where t': "ibs_read 1 t = Some (0, t')" "ibs_inv t'"
    "in_bits t' = replicate k False @ True # rest" by (auto simp: of_bits_Cons)
  from Suc.IH [OF t'(2,3), of "n + 1"] t'(1) show ?case
    by (auto simp: read_prefix.simps [of 0 n t])
qed

lemma log_split:
  fixes c :: nat
  assumes "0 < c" "c < 2 ^ 32"
  obtains L r where "c = 2 ^ L + r" "r < 2 ^ L" "L < 32"
proof -
  obtain L where L: "2 ^ L \<le> c" "c < 2 ^ Suc L"
    using ex_power_ivl1 [of 2 c] assms(1) by auto
  have "L < 32" using le_less_trans [OF L(1) assms(2)] by (rule power_less_imp_less_exp [rotated]) simp
  with L show ?thesis by (intro that [of L "c - 2 ^ L"]) auto
qed

lemma uvlc_bits:
  assumes "v < 2 ^ 31 - 1"
  obtains L r where "v + 1 = 2 ^ L + r" "r < 2 ^ L" "L < 31"
    "appends (xWriteUvlc v) (replicate L False @ True # to_bits L r)"
proof -
  have "0 < v + 1" "v + 1 < 2 ^ 32" using assms by simp_all
  then obtain L r where L: "v + 1 = 2 ^ L + r" "r < 2 ^ L" by (rule log_split)
  then have "(2 :: nat) ^ L < 2 ^ 31" using assms by linarith
  then have "L < 31" by (rule power_less_imp_less_exp [rotated]) simp
  note L = L this
  have u: "u32 (v + 1) = v + 1" using assms by (simp add: take_bit_nat_eq_self)
  have len: "uvlc_length (v + 1) 1 = 1 + 2 * L" unfolding L(1) by (rule uvlc_length_law [OF L(2)])
  have "v + 1 < 2 ^ (L + 1)" using L(1,2) by simp
  moreover have "to_bits (L + 1) (v + 1) = True # to_bits L r"
    using to_bits_concat_shift [OF L(2), of 1 1] L(1) by (simp add: to_bits_Suc)
  ultimately have "appends (\<lambda>s. obs_write 0 L s \<bind> obs_write (v + 1) (L + 1))
      (replicate L False @ True # to_bits L r)"
    using appends_bind [OF appends_write [of L 0] appends_write [of "L + 1" "v + 1"]] L(3)
    by (simp add: to_bits_zero)
  moreover have "drop_bit 1 (1 + 2 * L) = L" "drop_bit 1 (1 + 2 * L + 1) = L + 1"
    by (simp_all add: drop_bit_nat_def)
  ultimately have "appends (xWriteUvlc v) (replicate L False @ True # to_bits L r)"
    unfolding xWriteUvlc_def Let_def u len by simp
  with L show ?thesis by (rule that)
qed

lemma read_eg:
  assumes "ibs_inv t" "in_bits t = replicate (Suc k) False @ True # to_bits (Suc k) r @ rest"
    "r < 2 ^ Suc k" "Suc k < 32"
  shows "\<exists>t1 t2 t3. ibs_read 1 t = Some (0, t1) \<and> read_prefix 0 0 t1 = Some (Suc k, t2)
    \<and> ibs_read (Suc k) t2 = Some (r, t3) \<and> ibs_inv t3 \<and> in_bits t3 = rest"
proof -
  from ibs_read_law [of t 1] assms(1,2) obtain t1 where t1: "ibs_read 1 t = Some (0, t1)" "ibs_inv t1"
    "in_bits t1 = replicate k False @ True # to_bits (Suc k) r @ rest" by (auto simp: of_bits_Cons)
  from read_prefix_zeros [OF t1(2,3), of 0] obtain t2 where t2: "read_prefix 0 0 t1 = Some (Suc k, t2)"
    "ibs_inv t2" "in_bits t2 = to_bits (Suc k) r @ rest" by auto
  from takes_to_bits [of "Suc k" r] assms(3,4) t2(2,3) obtain t3 where
    "ibs_read (Suc k) t2 = Some (r, t3)" "ibs_inv t3" "in_bits t3 = rest" unfolding takes_def by force
  with t1 t2 show ?thesis by blast
qed

lemma read_eg_0:
  assumes "ibs_inv t" "in_bits t = True # rest"
  shows "\<exists>t'. ibs_read 1 t = Some (1, t') \<and> ibs_inv t' \<and> in_bits t' = rest"
  using ibs_read_law [of t 1] assms by (auto simp: of_bits_Cons)

lemma takes_uvlc:
  assumes "v + 1 = 2 ^ L + r" "r < 2 ^ L" "L < 31"
  shows "takes xReadUvlc (replicate L False @ True # to_bits L r) v"
  unfolding takes_def
proof (intro allI impI)
  fix t rest
  assume t: "ibs_inv t \<and> in_bits t = (replicate L False @ True # to_bits L r) @ rest"
  show "\<exists>t'. xReadUvlc t = Some (v, t') \<and> ibs_inv t' \<and> in_bits t' = rest"
  proof (cases L)
    case 0
    with t assms read_eg_0 [of t rest] show ?thesis by (auto simp: xReadUvlc_def)
  next
    case (Suc k)
    have "r + (2 ^ L - 1) = v" using assms(1) by (simp add: le_add_diff_inverse2)
    moreover have "v < 2 ^ 32"
    proof -
      have "v < 2 ^ (L + 1)" using assms(1,2) by simp
      also have "\<dots> \<le> 2 ^ 32" using assms(3) by (intro power_increasing) auto
      finally show ?thesis .
    qed
    ultimately have "u32 (r + (2 ^ L - 1)) = v" by (simp add: take_bit_nat_eq_self)
    moreover from t Suc assms read_eg [of t k r rest] obtain t1 t2 t3 where
      "ibs_read 1 t = Some (0, t1)" "read_prefix 0 0 t1 = Some (Suc k, t2)"
      "ibs_read (Suc k) t2 = Some (r, t3)" "ibs_inv t3" "in_bits t3 = rest" by auto
    ultimately show ?thesis using Suc assms(3) by (simp add: xReadUvlc_def push_bit_nat_def)
  qed
qed

lemma codes_uvlc: "v < 2 ^ 31 - 1 \<Longrightarrow> vlc.codes (xWriteUvlc v) xReadUvlc v"
  by (erule uvlc_bits) (blast intro: codes_bitsI takes_uvlc)

text \<open>Signed values are mapped to even and odd numbers.\<close>

definition svlc_map :: "int \<Rightarrow> nat" where
  "svlc_map i = (if i \<le> 0 then 2 * nat (- i) else 2 * nat i - 1)"

definition svlc_of :: "nat \<Rightarrow> int" where
  "svlc_of c = (if odd c then - int (c div 2) else int (c div 2))"

lemma svlc_of_map: "svlc_of (svlc_map i + 1) = i"
  by (auto simp: svlc_of_def svlc_map_def)

lemma takes_svlc:
  assumes "v + 1 = 2 ^ L + r" "r < 2 ^ L" "L < 31"
  shows "takes xReadSvlc (replicate L False @ True # to_bits L r) (svlc_of (v + 1))"
  unfolding takes_def
proof (intro allI impI)
  fix t rest
  assume t: "ibs_inv t \<and> in_bits t = (replicate L False @ True # to_bits L r) @ rest"
  show "\<exists>t'. xReadSvlc t = Some (svlc_of (v + 1), t') \<and> ibs_inv t' \<and> in_bits t' = rest"
  proof (cases L)
    case 0
    with t assms read_eg_0 [of t rest] show ?thesis by (auto simp: xReadSvlc_def svlc_of_def)
  next
    case (Suc k)
    have "v + 1 < 2 ^ 32"
    proof -
      have "v + 1 < 2 ^ (L + 1)" using assms(1,2) by simp
      also have "\<dots> \<le> 2 ^ 32" using assms(3) by (intro power_increasing) auto
      finally show ?thesis .
    qed
    define c where "c = v + 1"
    then have u: "u32 (r + 2 * 2 ^ k) = c"
      using assms(1) Suc \<open>v + 1 < 2 ^ 32\<close> by (simp add: take_bit_nat_eq_self add.commute)
    have e: "even r \<longleftrightarrow> even c" using c_def assms(1) Suc by simp
    have a: "c AND 1 = 0 \<longleftrightarrow> even c" "0 < c AND 1 \<longleftrightarrow> odd c" for c :: nat
      by (simp_all only: and_one_eq even_iff_mod_2_eq_zero odd_iff_mod_2_eq_one) simp
    have d: "drop_bit 1 c = c div 2" for c :: nat by (simp add: drop_bit_nat_def)
    from t Suc assms read_eg [of t k r rest] obtain t1 t2 t3 where
      "ibs_read 1 t = Some (0, t1)" "read_prefix 0 0 t1 = Some (Suc k, t2)"
      "ibs_read (Suc k) t2 = Some (r, t3)" "ibs_inv t3" "in_bits t3 = rest" by auto
    with Suc assms(3) show ?thesis unfolding c_def [symmetric]
      by (simp add: xReadSvlc_def u a d e svlc_of_def Let_def del: One_nat_def even_add)
  qed
qed

lemma codes_svlc: "\<bar>i\<bar> < 2 ^ 30 \<Longrightarrow> vlc.codes (xWriteSvlc i) xReadSvlc i"
proof -
  assume i: "\<bar>i\<bar> < 2 ^ 30"
  then have "xWriteSvlc i = xWriteUvlc (svlc_map i)"
    by (auto simp: xWriteSvlc_def svlc_map_def fun_eq_iff nat_mult_distrib nat_diff_distrib
        intro!: arg_cong [of _ _ "\<lambda>v. xWriteUvlc v _"])
  moreover have "svlc_map i < 2 ^ 31 - 1" using i by (auto simp: svlc_map_def)
  ultimately show ?thesis
    by (metis uvlc_bits codes_bitsI takes_svlc svlc_of_map)
qed

lemmas element_codes = codes_code codes_flag codes_uvlc codes_svlc

section \<open>Trailing bits\<close>

lemma align_step: "(8 - k) mod 8 = Suc m \<Longrightarrow> k < 8 \<Longrightarrow> (8 - (k + 1) mod 8) mod 8 = m" for k m :: nat
  by (cases "k = 0"; cases "k = 7") auto

lemma write_alignment_law:
  "obs_inv s \<Longrightarrow> getNumBitsUntilByteAligned s \<le> n \<Longrightarrow>
    \<exists>s'. write_alignment n c s = Some (c + getNumBitsUntilByteAligned s, s') \<and> obs_inv s'
      \<and> out_bits s' = out_bits s @ replicate (getNumBitsUntilByteAligned s) False"
proof (induction n arbitrary: c s)
  case 0
  then show ?case by simp
next
  case (Suc n)
  show ?case
  proof (cases "getNumBitsUntilByteAligned s")
    case 0
    with Suc.prems show ?thesis by simp
  next
    case (Suc k)
    from appends_flag [of 0] Suc.prems(1) obtain s1 where s1: "xWriteFlag 0 s = Some s1" "obs_inv s1"
      "out_bits s1 = out_bits s @ [False]" unfolding appends_def by force
    have "out_num_held s1 = (out_num_held s + 1) mod 8"
      unfolding held_mod [OF s1(2)] held_mod [OF Suc.prems(1)] s1(3) by (simp add: mod_simps)
    moreover have "out_num_held s < 8" using Suc.prems(1) by (simp add: obs_inv_def)
    ultimately have k: "getNumBitsUntilByteAligned s1 = k"
      using Suc align_step [of "out_num_held s" k] by (simp add: getNumBitsUntilByteAligned_def)
    from Suc.IH [OF s1(2), of "c + 1"] Suc.prems(2) Suc k s1 show ?thesis
      by (auto simp: replicate_append_same)
  qed
qed

lemma read_alignment_law:
  "ibs_inv t \<Longrightarrow> in_bits t = replicate k False @ rest \<Longrightarrow> 8 dvd length rest \<Longrightarrow> k < 8 \<Longrightarrow>
    \<exists>t'. read_alignment c t = Some (c + k, t') \<and> ibs_inv t' \<and> in_bits t' = rest"
proof (induction k arbitrary: c t)
  case 0
  then have "in_NumBitsUntilByteAligned t = 0"
    by (simp add: in_NumBitsUntilByteAligned_def in_held_mod mod_eq_0_iff_dvd)
  with 0 show ?case by (simp add: read_alignment.simps [of c t])
next
  case (Suc k)
  have "in_NumBitsUntilByteAligned t \<noteq> 0"
  proof -
    obtain m where "length rest = 8 * m" using Suc.prems(3) by blast
    then have "in_num_held t = (Suc k + 8 * m) mod 8"
      using Suc.prems(2) by (simp add: in_held_mod [OF Suc.prems(1)])
    also have "\<dots> = Suc k" unfolding mod_mult_self2 using Suc.prems(4) by simp
    finally show ?thesis using Suc.prems(4) by (simp add: in_NumBitsUntilByteAligned_def)
  qed
  moreover from takes_flag [of False] Suc.prems(1,2) obtain t1 where t1: "xReadFlag t = Some (0, t1)"
    "ibs_inv t1" "in_bits t1 = replicate k False @ rest" unfolding takes_def by force
  moreover from Suc.IH [OF t1(2,3) Suc.prems(3), of "c + 1"] Suc.prems(4) obtain t' where
    "read_alignment (c + 1) t1 = Some (c + 1 + k, t')" "ibs_inv t'" "in_bits t' = rest" by auto
  ultimately show ?case by (simp add: read_alignment.simps [of c t])
qed

lemma trailing_law:
  assumes "obs_inv s"
  shows "\<exists>s' k. xWriteRbspTrailingBits s = Some s' \<and> obs_inv s' \<and> k < 8
    \<and> 8 dvd length (out_bits s') \<and> out_bits s' = out_bits s @ True # replicate k False"
proof -
  from appends_flag [of 1] assms obtain s1 where s1: "xWriteFlag 1 s = Some s1" "obs_inv s1"
    "out_bits s1 = out_bits s @ [True]" unfolding appends_def by force
  let ?k = "getNumBitsUntilByteAligned s1"
  have k: "?k < 8" using s1(2) by (simp add: aligned_iff)
  from write_alignment_law [OF s1(2), of 8 0] k obtain s2 where s2: "write_alignment 8 0 s1 = Some (?k, s2)"
    "obs_inv s2" "out_bits s2 = out_bits s1 @ replicate ?k False" by auto
  have "8 dvd length (out_bits s1) + ?k"
    using align8 [of "length (out_bits s1)"] s1(2) by (simp add: aligned_iff held_mod mod_eq_0_iff_dvd)
  with s1 s2 k show ?thesis by (auto simp: xWriteRbspTrailingBits_def)
qed

lemma codes_trailing: "vlc.codes xWriteRbspTrailingBits xReadRbspTrailingBits ()"
proof (rule vlc.codesI)
  fix s
  assume "obs_inv s"
  from trailing_law [OF this] obtain s' k where s': "xWriteRbspTrailingBits s = Some s'" "obs_inv s'"
    "k < 8" "8 dvd length (out_bits s')" "out_bits s' = out_bits s @ True # replicate k False" by blast
  have "\<exists>t'. xReadRbspTrailingBits t = Some ((), t') \<and> ibs_pos s' t' F"
    if F: "obs_ext s' F" "ibs_pos s t F" for t F
  proof -
    from obs_ext_pos [OF F(1) s'(5) F(2)] obtain rest where
      r: "in_bits t = (True # replicate k False) @ rest" "F = out_bits s' @ rest" by blast
    have "8 dvd length rest"
      using F(1) s'(4) r(2) by (simp add: obs_ext_def dvd_add_right_iff)
    from takes_flag [of True] F(2) r(1) obtain t1 where t1: "xReadFlag t = Some (1, t1)" "ibs_inv t1"
      "in_bits t1 = replicate k False @ rest" unfolding takes_def ibs_pos_def by force
    from read_alignment_law [OF t1(2,3) \<open>8 dvd length rest\<close> s'(3), of 0] t1 s'(3) r(2) show ?thesis
      by (auto simp: xReadRbspTrailingBits_def ibs_pos_def)
  qed
  with s' obs_extD [OF _ s'(5)] show "\<exists>s'. xWriteRbspTrailingBits s = Some s' \<and> obs_inv s'
    \<and> (\<forall>F. obs_ext s' F \<longrightarrow> obs_ext s F
        \<and> (\<forall>t. ibs_pos s t F \<longrightarrow> (\<exists>t'. xReadRbspTrailingBits t = Some ((), t') \<and> ibs_pos s' t' F)))"
    by blast
qed

lemma codes_AUD: "0 \<le> p \<Longrightarrow> p < 3 \<Longrightarrow> vlc.codes (codeAUD p) parseAccessUnitDelimiter (nat p)"
  unfolding codeAUD_def parseAccessUnitDelimiter_def
  by (rule vlc.codes_check_writer, simp,
      rule vlc.codes_bind, rule codes_code, simp_all,
      rule vlc.codes_bind_end, rule codes_trailing, rule vlc.codes_return, rule refl)

text \<open>\<open>n\<close> bytes \<open>0xff\<close> and the stop bit byte are \<open>n\<close> bytes of filler data.\<close>

lemma read_filler_law:
  "ibs_inv t \<Longrightarrow> in_bits t = replicate (8 * n) True @ to_bits 8 128 \<Longrightarrow>
    \<exists>t'. read_filler c t = Some ((u32 (c + n)), t') \<and> ibs_inv t' \<and> in_bits t' = to_bits 8 128"
  if "c < 2 ^ 32"
  using that
proof (induction n arbitrary: c t)
  case 0
  then have "getNumBitsLeft t = 8" by (simp flip: length_in_bits)
  with 0 show ?case by (simp add: read_filler.simps [of c t] take_bit_nat_eq_self)
next
  case (Suc n)
  have "getNumBitsLeft t = 8 * Suc n + 8" using Suc.prems by (simp flip: length_in_bits)
  moreover have "to_bits 8 255 = replicate 8 True" using to_bits_mask' [of 8] by simp
  with Suc.prems(2) have "in_bits t = to_bits 8 255 @ replicate (8 * n) True @ to_bits 8 128"
    by (simp add: replicate_add)
  with takes_xReadCode [of 8 255] Suc.prems(1) obtain t1 where t1: "xReadCode 8 t = Some (255, t1)" "ibs_inv t1"
    "in_bits t1 = replicate (8 * n) True @ to_bits 8 128" unfolding takes_def by force
  moreover have "u32 (c + 1) < 2 ^ 32" using take_bit_nat_less_exp [of 32 "c + 1"] by simp
  from Suc.IH [OF t1(2,3) this] obtain t' where "read_filler (u32 (c + 1)) t1 = Some (u32 (u32 (c + 1) + n), t')"
    "ibs_inv t'" "in_bits t' = to_bits 8 128" by blast
  moreover have "u32 (u32 (c + 1) + n) = u32 (c + Suc n)" by (simp add: take_bit_nat_def mod_simps)
  ultimately show ?case by (simp add: read_filler.simps [of c t])
qed

lemma parseFillerData_law:
  assumes "ibs_inv t" "in_bits t = replicate (8 * n) True @ to_bits 8 128"
  shows "\<exists>t'. parseFillerData t = Some (u32 n, t') \<and> ibs_inv t' \<and> in_bits t' = []"
proof -
  from read_filler_law [of 0 t n] assms obtain t1 where t1: "read_filler 0 t = Some (u32 n, t1)"
    "ibs_inv t1" "in_bits t1 = to_bits 8 128" by auto
  have "to_bits 8 128 = True # replicate 7 False" by code_simp
  with t1 takes_flag [of True] obtain t2 where t2: "xReadFlag t1 = Some (1, t2)" "ibs_inv t2"
    "in_bits t2 = replicate 7 False @ []" unfolding takes_def by force
  from read_alignment_law [OF t2(2,3), of 0] t1 t2 show ?thesis
    by (auto simp: parseFillerData_def xReadRbspTrailingBits_def)
qed

section \<open>More RBSP data\<close>

lemma drop_zeros_law:
  "drop_zeros (of_bits (xs @ True # replicate k False)) (length xs + 1 + k) = length xs + 1"
proof (induction k)
  case 0
  have "odd (of_bits (xs @ [True]))" by (simp add: of_bits_snoc)
  then show ?case by (simp add: and_one_eq odd_iff_mod_2_eq_one)
next
  case (Suc k)
  have e: "xs @ True # replicate (Suc k) False = (xs @ True # replicate k False) @ [False]"
    by (simp add: replicate_append_same)
  have "of_bits (xs @ True # replicate (Suc k) False) = 2 * of_bits (xs @ True # replicate k False)"
    unfolding e of_bits_snoc by simp
  with Suc show ?case by (simp add: drop_bit_nat_def and_one_eq)
qed

lemma xMoreRbspData_law:
  assumes "ibs_inv t" "in_bits t = xs @ True # replicate k False" "k < 8"
  shows "\<exists>t'. xMoreRbspData t = Some (xs \<noteq> [], t') \<and> ibs_inv t' \<and> in_bits t' = in_bits t"
proof (cases "getNumBitsLeft t > 8")
  case True
  with assms show ?thesis by (auto simp: xMoreRbspData_def simp flip: length_in_bits)
next
  case False
  have l: "getNumBitsLeft t = length xs + 1 + k" using assms(1,2) by (simp flip: length_in_bits)
  then have "(2 :: nat) ^ length (in_bits t) \<le> 2 ^ 8"
    using False assms(2) by (intro power_increasing) auto
  then have "of_bits (in_bits t) < 2 ^ 8"
    using of_bits_less [of "in_bits t"] by (rule less_le_trans [rotated])
  then have u: "u8 (of_bits (in_bits t)) = of_bits (in_bits t)" by (simp add: take_bit_nat_eq_self)
  have p: "pseudoRead (length xs + 1 + k) t = Some (of_bits (in_bits t),
      t\<lparr>numBitsRead := u32 (numBitsRead t + (length xs + 1 + k))\<rparr>)"
    using pseudoRead_law [OF assms(1), of "length xs + 1 + k"] False l assms(2) by simp
  have d: "drop_zeros (of_bits (in_bits t)) (length xs + 1 + k) = length xs + 1"
    unfolding assms(2) by (rule drop_zeros_law)
  have f: "in_bits (t\<lparr>numBitsRead := c\<rparr>) = in_bits t" "ibs_inv (t\<lparr>numBitsRead := c\<rparr>) = ibs_inv t" for c
    by (simp_all add: in_bits_def ibs_inv_def)
  show ?thesis
    using False assms(1) unfolding xMoreRbspData_def peekBits_def Let_def l p
    by (simp add: u d f del: One_nat_def)
qed

lemma skip_extension_data_law:
  assumes "k < 8"
  shows "ibs_inv t \<Longrightarrow> in_bits t = xs @ True # replicate k False \<Longrightarrow> length xs \<le> n \<Longrightarrow>
    \<exists>t'. skip_extension_data n t = Some ((), t') \<and> ibs_inv t' \<and> in_bits t' = True # replicate k False"
proof (induction xs arbitrary: n t)
  case Nil
  with xMoreRbspData_law [of t "[]" k] assms obtain t' where
    "xMoreRbspData t = Some (False, t')" "ibs_inv t'" "in_bits t' = in_bits t" by auto
  with Nil show ?case by (cases n) auto
next
  case (Cons x xs)
  from xMoreRbspData_law [OF Cons.prems(1,2) assms] obtain t1 where
    t1: "xMoreRbspData t = Some (True, t1)" "ibs_inv t1" "in_bits t1 = x # xs @ True # replicate k False"
    using Cons.prems(2) by auto
  with takes_flag [of x] obtain t2 where t2: "xReadFlag t1 = Some (of_bool x, t2)" "ibs_inv t2"
    "in_bits t2 = xs @ True # replicate k False" unfolding takes_def by force
  obtain m where "n = Suc m" "length xs \<le> m" using Cons.prems(3) by (cases n) auto
  with Cons.IH [OF t2(2,3), of m] t1 t2 show ?case by simp
qed

section \<open>Rules that follow the text of a coder and its parser\<close>

lemma codes_flag_bool: "vlc.codes (xWriteFlag (of_bool b)) xReadFlag (of_bool b)"
  by (rule codes_flag) simp

lemma step_uvlc: "v < 2 ^ 31 - 1 \<Longrightarrow> vlc.codes w (r v) y
    \<Longrightarrow> vlc.codes (\<lambda>s. xWriteUvlc v s \<bind> w) (\<lambda>t. xReadUvlc t \<bind> (\<lambda>(x, t). r x t)) y"
  by (rule vlc.codes_bind, rule codes_uvlc)

lemma step_svlc: "\<bar>v\<bar> < 2 ^ 30 \<Longrightarrow> vlc.codes w (r v) y
    \<Longrightarrow> vlc.codes (\<lambda>s. xWriteSvlc v s \<bind> w) (\<lambda>t. xReadSvlc t \<bind> (\<lambda>(x, t). r x t)) y"
  by (rule vlc.codes_bind, rule codes_svlc)

lemma step_flag: "vlc.codes w (r (of_bool b)) y
    \<Longrightarrow> vlc.codes (\<lambda>s. xWriteFlag (of_bool b) s \<bind> w) (\<lambda>t. xReadFlag t \<bind> (\<lambda>(x, t). r x t)) y"
  by (rule vlc.codes_bind, rule codes_flag_bool)

lemma step_code: "0 < n \<Longrightarrow> n \<le> 32 \<Longrightarrow> v < 2 ^ n \<Longrightarrow> vlc.codes w (r v) y
    \<Longrightarrow> vlc.codes (\<lambda>s. xWriteCode v n s \<bind> w) (\<lambda>t. xReadCode n t \<bind> (\<lambda>(x, t). r x t)) y"
  by (rule vlc.codes_bind, rule codes_code)

lemma end_uvlc: "v < 2 ^ 31 - 1 \<Longrightarrow> f v = y
    \<Longrightarrow> vlc.codes (xWriteUvlc v) (\<lambda>t. xReadUvlc t \<bind> (\<lambda>(x, t). Some (f x, t))) y"
  by (rule vlc.codes_bind_end, rule codes_uvlc) (simp_all add: vlc.codes_return)

lemma end_svlc: "\<bar>v\<bar> < 2 ^ 30 \<Longrightarrow> f v = y
    \<Longrightarrow> vlc.codes (xWriteSvlc v) (\<lambda>t. xReadSvlc t \<bind> (\<lambda>(x, t). Some (f x, t))) y"
  by (rule vlc.codes_bind_end, rule codes_svlc) (simp_all add: vlc.codes_return)

lemma end_flag: "f (of_bool b) = y
    \<Longrightarrow> vlc.codes (xWriteFlag (of_bool b)) (\<lambda>t. xReadFlag t \<bind> (\<lambda>(x, t). Some (f x, t))) y"
  by (rule vlc.codes_bind_end, rule codes_flag_bool) (simp_all add: vlc.codes_return)

lemma end_code: "0 < n \<Longrightarrow> n \<le> 32 \<Longrightarrow> v < 2 ^ n \<Longrightarrow> f v = y
    \<Longrightarrow> vlc.codes (xWriteCode v n) (\<lambda>t. xReadCode n t \<bind> (\<lambda>(x, t). Some (f x, t))) y"
  by (rule vlc.codes_bind_end, rule codes_code) (simp_all add: vlc.codes_return)

lemma end_trailing: "f () = y
    \<Longrightarrow> vlc.codes xWriteRbspTrailingBits (\<lambda>t. xReadRbspTrailingBits t \<bind> (\<lambda>(x, t). Some (f x, t))) y"
  by (rule vlc.codes_bind_end, rule codes_trailing) (simp_all add: vlc.codes_return)

lemmas [codec_intro] = step_uvlc step_svlc step_flag step_code end_uvlc end_svlc end_flag end_code
  end_trailing vlc.codes_check_reader vlc.codes_check_writer vlc.codes_if vlc.codes_return

text \<open>An optional part of the syntax; a parser that meets none of it goes on with the object it has.\<close>

lemma step_opt:
  assumes "b = c" "b \<Longrightarrow> vlc.codes w1 r1 x" "vlc.codes w2 (r2 (if b then x else y)) z"
  shows "vlc.codes (\<lambda>s. (if b then w1 s else Some s) \<bind> w2)
    (\<lambda>t. (if c then r1 t else Some (y, t)) \<bind> (\<lambda>(x, t). r2 x t)) z"
  by (rule vlc.codes_bind, rule vlc.codes_if, rule assms(1)) (use assms(2,3) in \<open>auto intro: vlc.codes_return\<close>)

lemma step_opt_name:
  assumes "b = c" "b \<Longrightarrow> vlc.codes w1 r1 x" "\<And>u. u = (if b then x else y) \<Longrightarrow> vlc.codes w2 (r2 u) z"
  shows "vlc.codes (\<lambda>s. (if b then w1 s else Some s) \<bind> w2)
    (\<lambda>t. (if c then r1 t else Some (y, t)) \<bind> (\<lambda>(x, t). r2 x t)) z"
  by (rule step_opt [OF assms(1,2)]) (simp_all add: assms(3))

lemma end_opt:
  assumes "b = c" "b \<Longrightarrow> vlc.codes w1 r1 x" "(if b then x else y) = z"
  shows "vlc.codes (\<lambda>s. if b then w1 s else Some s) (\<lambda>t. if c then r1 t else Some (y, t)) z"
  by (rule vlc.codes_if, rule assms(1)) (use assms(2,3) in \<open>auto intro: vlc.codes_return\<close>)

text \<open>
  The rules for a proof that goes through the text from left to right, where the object the parser
  has built so far is found by unification.
\<close>

lemmas codec_rules = step_uvlc step_svlc step_flag step_code step_opt end_uvlc end_svlc end_flag end_code
  end_trailing end_opt vlc.codes_check_reader vlc.codes_check_writer vlc.codes_return

lemma to_i32_u32_add: "v + n < 2 ^ 31 \<Longrightarrow> to_i32 (u32 (v + n)) = int (v + n)"
  by (simp add: take_bit_nat_eq_self)

lemma u32_less [simp]: "v < 2 ^ 32 \<Longrightarrow> u32 v = v"
  by (simp add: take_bit_nat_eq_self)

section \<open>What the elements yield on a proper stream\<close>

interpretation rd: reader ibs_inv .

lemma yields_read: "rd.yields (ibs_read n) (\<lambda>v. v < 2 ^ n)"
proof (rule rd.yieldsI)
  fix t v t'
  assume r: "ibs_inv t" "ibs_read n t = Some (v, t')"
  note d = ibs_read_SomeD [OF r(2,1)]
  have "of_bits (take n (in_bits t)) < 2 ^ length (take n (in_bits t))" by (rule of_bits_less)
  with d show "v < 2 ^ n \<and> ibs_inv t'" by simp
qed

lemma yields_flag: "rd.yields xReadFlag (\<lambda>v. v \<le> 1)"
  using yields_read [of 1] unfolding xReadFlag_def [abs_def] by (rule rd.yields_weaken) simp

lemma yields_code: "rd.yields (xReadCode n) (\<lambda>v. v < 2 ^ n)"
  unfolding xReadCode_def [abs_def] by (intro rd.yields_check yields_read)

lemma yields_prefix: "rd.yields (read_prefix c n) (\<lambda>_. True)"
proof -
  have "read_prefix c n s = Some (v, s') \<Longrightarrow> ibs_inv s \<Longrightarrow> ibs_inv s'" for s v s'
  proof (induction c n s rule: read_prefix.induct)
    case (1 c n s)
    show ?case
    proof (cases "c AND 1 = 0")
      case True
      then obtain b s1 where b: "ibs_read 1 s = Some (b, s1)" using 1(2) by (auto simp: read_prefix.simps [of c n s] split: option.splits)
      then have "ibs_inv s1" using ibs_read_SomeD(4) 1(3) by blast
      with 1(1) [OF True b refl] 1(2) True b show ?thesis by (simp add: read_prefix.simps [of c n s])
    next
      case False
      then show ?thesis using 1(2,3) by (simp add: read_prefix.simps [of c n s])
    qed
  qed
  then show ?thesis by (intro rd.yieldsI) auto
qed

lemma u32_bound [simp]: "u32 v < 4294967296"
  using take_bit_nat_less_exp [of 32 v] by simp

lemma yields_uvlc: "rd.yields xReadUvlc (\<lambda>v. v < 2 ^ 32)"
  unfolding xReadUvlc_def [abs_def]
  by (rule rd.yields_bind [OF yields_read], intro rd.yields_if rd.yields_bind [OF yields_prefix] rd.yields_bind [OF yields_read]
      rd.yields_check rd.yields_return) simp_all

lemma yields_svlc: "rd.yields xReadSvlc (\<lambda>_. True)"
  unfolding xReadSvlc_def [abs_def] Let_def
  by (rule rd.yields_bind [OF yields_read], intro rd.yields_if rd.yields_bind [OF yields_prefix] rd.yields_bind [OF yields_read]
      rd.yields_check rd.yields_return) simp_all

lemmas yields_elements = rd.yields_bind [OF yields_flag] rd.yields_bind [OF yields_code]
  rd.yields_bind [OF yields_uvlc] rd.yields_bind [OF yields_svlc]

section \<open>Streams that end with the trailing bits\<close>

text \<open>
  Every syntax writer keeps the invariant of the stream, even on values that do not fit; one
  that ends with \<open>xWriteRbspTrailingBits\<close> leaves whole bytes, the last of them not zero.
\<close>

definition keeps :: "(obs \<Rightarrow> obs option) \<Rightarrow> bool" where
  "keeps w \<longleftrightarrow> (\<forall>s s'. obs_inv s \<longrightarrow> w s = Some s' \<longrightarrow> obs_inv s')"

definition closes :: "(obs \<Rightarrow> obs option) \<Rightarrow> bool" where
  "closes w \<longleftrightarrow> (\<forall>s s'. obs_inv s \<longrightarrow> w s = Some s' \<longrightarrow> obs_inv s' \<and> out_num_held s' = 0
     \<and> out_fifo s' \<noteq> [] \<and> last (out_fifo s') \<noteq> 0)"

lemma keeps_write: "keeps (obs_write v n)"
proof -
  have "obs_inv s'" if s: "obs_inv s" "obs_write v n s = Some s'" for s s'
  proof (cases "n = 32")
    case False
    with s(2) have "n \<le> 32" "v < 2 ^ n"
      by (auto simp: obs_write_def drop_bit_nat_def div_eq_0_iff)
    with obs_write_law [OF s(1)] s(2) show ?thesis by fastforce
  next
    case True
    define j where "j = (32 + out_num_held s) mod 8"
    have j: "j < 8" by (simp add: j_def)
    have "(32 + out_num_held s) div 8 = 4" using s(1) unfolding obs_inv_def by linarith
    then have k: "drop_bit 3 (32 + out_num_held s) = 4" by (simp add: drop_bit_nat_def)
    have "out_fifo s' = out_fifo s @ push_word 4 (u32 (push_bit (push_bit 3 (drop_bit 3 (32 - j))) (out_held s)) OR drop_bit j v)"
      "out_held s' = u8 (push_bit (8 - j) v)" "out_num_held s' = j"
      using s(2) unfolding True obs_write_def by (auto simp: Let_def k j_def)
    moreover have "u8 (push_bit (8 - j) v) < 256" "take_bit (8 - j) (u8 (push_bit (8 - j) v)) = 0"
      using take_bit_nat_less_exp [of 8 "push_bit (8 - j) v"] by (simp_all add: take_bit_push_bit next_held [OF j])
    ultimately show ?thesis
      using s(1) push_word_bits(2) [of 4] j by (simp only: obs_inv_def bytes_def set_append ball_Un) simp
  qed
  then show ?thesis unfolding keeps_def by blast
qed

lemma keeps_return: "keeps Some"
  by (simp add: keeps_def)

lemma keeps_bind: "keeps w1 \<Longrightarrow> keeps w2 \<Longrightarrow> keeps (\<lambda>s. w1 s \<bind> w2)"
  unfolding keeps_def bind_eq_Some_conv by blast

lemma keeps_if: "(b \<Longrightarrow> keeps w1) \<Longrightarrow> (\<not> b \<Longrightarrow> keeps w2) \<Longrightarrow> keeps (\<lambda>s. if b then w1 s else w2 s)"
  by (cases b) simp_all

lemma keeps_check: "keeps w \<Longrightarrow> keeps (\<lambda>s. check_not b \<bind> (\<lambda>_. w s))"
  by (cases b) (simp_all add: keeps_def)

lemma keeps_elements: "keeps (xWriteCode v n)" "keeps (xWriteFlag b)" "keeps (xWriteUvlc u)" "keeps (xWriteSvlc i)"
  unfolding xWriteCode_def xWriteFlag_def xWriteUvlc_def xWriteSvlc_def Let_def
  by (intro keeps_check keeps_bind keeps_write)+

lemmas keeps_intro = keeps_return keeps_elements keeps_bind keeps_if keeps_check

lemma closes_trailing: "closes xWriteRbspTrailingBits"
proof -
  have "obs_inv s' \<and> out_num_held s' = 0 \<and> out_fifo s' \<noteq> [] \<and> last (out_fifo s') \<noteq> 0"
    if s: "obs_inv s" "xWriteRbspTrailingBits s = Some s'" for s s'
  proof -
    from trailing_law [OF s(1)] s(2) obtain k where k: "obs_inv s'" "k < 8" "8 dvd length (out_bits s')"
      "out_bits s' = out_bits s @ True # replicate k False" by auto
    have h: "out_num_held s' = 0" using held_mod [OF k(1)] k(3) by auto
    then have b: "byte_bits (out_fifo s') = out_bits s @ True # replicate k False"
      using k(4) by (simp add: out_bits_def)
    moreover have ne: "out_fifo s' \<noteq> []" using b by auto
    moreover have "last (out_fifo s') \<noteq> 0"
    proof
      assume "last (out_fifo s') = 0"
      then obtain bs where "out_fifo s' = bs @ [0]" using ne by (metis append_butlast_last_id)
      then have "rev (byte_bits bs @ replicate 8 False) = rev (out_bits s @ True # replicate k False)"
        using b by (simp only: byte_bits_simps to_bits_zero append.right_neutral)
      then have "(replicate 8 False @ rev (byte_bits bs)) ! k = (replicate k False @ True # rev (out_bits s)) ! k"
        by simp
      with k(2) show False by (simp add: nth_append)
    qed
    ultimately show ?thesis using k(1) h by simp
  qed
  then show ?thesis unfolding closes_def by blast
qed

lemma closes_bind: "keeps w1 \<Longrightarrow> closes w2 \<Longrightarrow> closes (\<lambda>s. w1 s \<bind> w2)"
  unfolding keeps_def closes_def bind_eq_Some_conv by blast

lemma closes_check: "closes w \<Longrightarrow> closes (\<lambda>s. check_not b \<bind> (\<lambda>_. w s))"
proof (cases b)
  case True
  then show ?thesis unfolding closes_def by simp
qed simp

lemmas closes_intro = closes_trailing closes_bind closes_check keeps_intro

section \<open>Properties\<close>

text \<open>A list of syntax elements, as the syntax writers emit them.\<close>

datatype element = Code nat nat | Uvlc nat | Svlc int | Flag bool

fun write_element :: "element \<Rightarrow> obs \<Rightarrow> obs option" where
  "write_element (Code v n) = xWriteCode v n"
| "write_element (Uvlc v) = xWriteUvlc v"
| "write_element (Svlc i) = xWriteSvlc i"
| "write_element (Flag b) = xWriteFlag (of_bool b)"

fun read_element :: "element \<Rightarrow> ibs \<Rightarrow> (element \<times> ibs) option" where
  "read_element (Code _ n) = (\<lambda>s. do { (v, s) \<leftarrow> xReadCode n s; Some (Code v n, s) })"
| "read_element (Uvlc _) = (\<lambda>s. do { (v, s) \<leftarrow> xReadUvlc s; Some (Uvlc v, s) })"
| "read_element (Svlc _) = (\<lambda>s. do { (i, s) \<leftarrow> xReadSvlc s; Some (Svlc i, s) })"
| "read_element (Flag _) = (\<lambda>s. do { (b, s) \<leftarrow> xReadFlag s; Some (Flag (b \<noteq> 0), s) })"

fun write_elements :: "element list \<Rightarrow> obs \<Rightarrow> obs option" where
  "write_elements [] s = Some s"
| "write_elements (e # es) s = do { s \<leftarrow> write_element e s; write_elements es s }"

fun read_elements :: "element list \<Rightarrow> ibs \<Rightarrow> (element list \<times> ibs) option" where
  "read_elements [] s = Some ([], s)"
| "read_elements (e # es) s = do { (x, s) \<leftarrow> read_element e s; (xs, s) \<leftarrow> read_elements es s; Some (x # xs, s) }"

fun element_ok :: "element \<Rightarrow> bool" where
  "element_ok (Code v n) \<longleftrightarrow> 0 < n \<and> n \<le> 32 \<and> v < 2 ^ n"
| "element_ok (Uvlc v) \<longleftrightarrow> v < 2 ^ 31 - 1"
| "element_ok (Svlc i) \<longleftrightarrow> \<bar>i\<bar> < 2 ^ 30"
| "element_ok (Flag b) \<longleftrightarrow> True"

lemma codes_element: "element_ok e \<Longrightarrow> vlc.codes (write_element e) (read_element e) e"
proof (cases e)
  case (Flag b)
  have "vlc.codes (xWriteFlag (of_bool b)) (\<lambda>s. xReadFlag s \<bind> (\<lambda>(b, s). Some (Flag (b \<noteq> 0), s))) (Flag b)"
    by (rule vlc.codes_bind_end [OF codes_flag_bool]) (simp add: vlc.codes_return)
  with Flag show ?thesis by simp
qed (simp; rule vlc.codes_bind_end; (rule element_codes)?; simp add: vlc.codes_return)+

lemma codes_elements: "list_all element_ok es \<Longrightarrow> vlc.codes (write_elements es) (read_elements es) es"
proof (induction es)
  case Nil
  then show ?case by (simp add: vlc.codes_return)
next
  case (Cons e es)
  then show ?case
    by (simp, intro vlc.codes_bind [OF codes_element] vlc.codes_bind_end vlc.codes_return)
      (auto intro: vlc.codes_bind_end vlc.codes_return)
qed

text \<open>What a round trip says of a whole stream: written into an empty one, aligned, and read.\<close>

lemma codes_whole_stream:
  assumes "vlc.codes w r x"
  shows "\<exists>s t. w clear = Some s \<and> r (open_stream (out_fifo (writeAlignZero s))) = Some (x, t)"
proof -
  from vlc.codesE [OF assms obs_inv_clear] obtain s where s: "w clear = Some s" "obs_inv s"
    "\<And>F t. obs_ext s F \<Longrightarrow> ibs_pos clear t F \<Longrightarrow> \<exists>t'. r t = Some (x, t') \<and> ibs_pos s t' F"
    by metis
  note a = writeAlignZero_law [OF s(2)]
  have "8 dvd length (out_bits (writeAlignZero s))"
    using held_mod [OF a(1)] a(3) by auto
  then have "obs_ext s (out_bits (writeAlignZero s))" using a(2) by (simp add: obs_ext_def)
  moreover have "ibs_pos clear (open_stream (out_fifo (writeAlignZero s))) (out_bits (writeAlignZero s))"
    using open_out_bits [OF a(1,3)] by (simp add: ibs_pos_def)
  ultimately have "\<exists>t'. r (open_stream (out_fifo (writeAlignZero s))) = Some (x, t')
      \<and> ibs_pos s t' (out_bits (writeAlignZero s))" by (rule s(3))
  with s(1) show ?thesis by auto
qed

text \<open>The same for a writer that ends on a byte boundary: nothing is left to read.\<close>

lemma codes_aligned_stream:
  assumes "vlc.codes w r x" "w clear = Some s" "8 dvd length (out_bits s)" "ibs_inv t" "in_bits t = out_bits s"
  shows "\<exists>t'. r t = Some (x, t') \<and> ibs_inv t' \<and> in_bits t' = []"
proof -
  from vlc.codesE [OF assms(1) obs_inv_clear] assms(2)
  have "\<exists>t'. r t = Some (x, t') \<and> ibs_pos s t' (out_bits s)"
    using assms(3-5) by (metis append_Nil ibs_pos_def obs_ext_def option.inject order_refl out_bits_clear take_all)
  then show ?thesis by (auto simp: ibs_pos_def)
qed

text \<open>A syntax structure that ends with the trailing bits is a payload of whole bytes, which the parser uses up.\<close>

lemma codes_rbsp_stream:
  assumes "vlc.codes b rb y" "vlc.codes (\<lambda>s. b s \<bind> xWriteRbspTrailingBits) r x"
  shows "\<exists>s t. b clear \<bind> xWriteRbspTrailingBits = Some s \<and> out_num_held s = 0 \<and> last (out_fifo s) \<noteq> 0
    \<and> r (open_stream (out_fifo s)) = Some (x, t) \<and> in_bits t = []"
proof -
  from vlc.codesE [OF assms(1) obs_inv_clear] obtain s1 where s1: "b clear = Some s1" "obs_inv s1" by metis
  from trailing_law [OF s1(2)] obtain s where s: "xWriteRbspTrailingBits s1 = Some s" by blast
  with closes_trailing s1(2) have e: "obs_inv s" "out_num_held s = 0" "last (out_fifo s) \<noteq> 0"
    unfolding closes_def by blast+
  have w: "b clear \<bind> xWriteRbspTrailingBits = Some s" using s1(1) s by simp
  note o = open_out_bits [OF e(1,2)]
  have "8 dvd length (out_bits s)" using held_mod [OF e(1)] e(2) by auto
  from codes_aligned_stream [OF assms(2) w this o] w e(2,3) show ?thesis by blast
qed

text \<open>
  C33. Fixed length codes of 1 to 32 bits, unsigned Exp-Golomb codes up to \<open>2 ^ 31 - 2\<close>, signed
  ones below \<open>2 ^ 30\<close> in magnitude and flags, in any sequence, are read back unchanged by the
  corresponding \<open>xRead\<close> functions.
\<close>

theorem syntax_elements_roundtrip:
  assumes "list_all element_ok es"
  shows "\<exists>s t. write_elements es clear = Some s
    \<and> read_elements es (open_stream (out_fifo (writeAlignZero s))) = Some (es, t)"
  by (rule codes_whole_stream [OF codes_elements [OF assms]])

theorem syntax_elements_roundtrip_witness:
  "let es = [Code 5 3, Uvlc 2147483646, Svlc (- 1073741823), Flag True, Svlc 0, Uvlc 0, Code 4294967295 32]
   in \<exists>s t. write_elements es clear = Some s
    \<and> read_elements es (open_stream (out_fifo (writeAlignZero s))) = Some (es, t)"
  unfolding Let_def by (rule syntax_elements_roundtrip) simp

text \<open>
  The prefix of \<open>L\<close> zeros that \<open>xWriteUvlc\<close> writes is the binary logarithm of the value plus
  one, and the code has \<open>2 L + 1\<close> bits.
\<close>

theorem uvlc_code_length:
  assumes "v < 2 ^ 31 - 1" "obs_inv s"
  shows "\<exists>s' L. xWriteUvlc v s = Some s' \<and> 2 ^ L \<le> v + 1 \<and> v + 1 < 2 * 2 ^ L
    \<and> getNumberOfWrittenBits s' = getNumberOfWrittenBits s + (2 * L + 1)"
proof -
  from assms(1) obtain L r where L: "v + 1 = 2 ^ L + r" "r < 2 ^ L" "L < 31"
    "appends (xWriteUvlc v) (replicate L False @ True # to_bits L r)" by (rule uvlc_bits)
  from L(4) assms(2) obtain s' where s': "xWriteUvlc v s = Some s'"
    "out_bits s' = out_bits s @ replicate L False @ True # to_bits L r" by (auto simp: appends_def)
  then have "getNumberOfWrittenBits s' = getNumberOfWrittenBits s + (2 * L + 1)"
    by (simp flip: length_out_bits)
  with s'(1) L(1,2) show ?thesis by (intro exI [of _ s'] exI [of _ L]) auto
qed

theorem uvlc_code_length_witness:
  "\<exists>s' L. xWriteUvlc 9 clear = Some s' \<and> 2 ^ L \<le> 9 + (1 :: nat) \<and> 9 + 1 < 2 * (2 :: nat) ^ L
    \<and> getNumberOfWrittenBits s' = getNumberOfWrittenBits clear + (2 * L + 1)"
  by (rule uvlc_code_length) simp_all

text \<open>An access unit delimiter of picture type 0 to 2 is written, closed and read back.\<close>

theorem aud_roundtrip:
  assumes "0 \<le> p" "p < 3"
  shows "\<exists>s t. codeAUD p clear = Some s
    \<and> parseAccessUnitDelimiter (open_stream (out_fifo (writeAlignZero s))) = Some (nat p, t)"
  by (rule codes_whole_stream [OF codes_AUD [OF assms]])

theorem aud_roundtrip_witness:
  "\<exists>s t. codeAUD 2 clear = Some s
    \<and> parseAccessUnitDelimiter (open_stream (out_fifo (writeAlignZero s))) = Some (nat 2, t)"
  by (rule aud_roundtrip) simp_all

text \<open>
  A filler data unit of \<open>n\<close> bytes \<open>ff\<close> and the trailing bits is accepted, its size is
  reported and nothing is left; the loop stops before the trailing byte.
\<close>

theorem filler_data_size:
  assumes "ibs_inv t" "in_bits t = replicate (8 * n) True @ to_bits 8 128"
  shows "\<exists>t'. parseFillerData t = Some (u32 n, t') \<and> ibs_inv t' \<and> in_bits t' = []"
  by (rule parseFillerData_law [OF assms])

theorem filler_data_size_witness:
  "\<exists>t'. parseFillerData (open_stream [255, 255, 255, 128]) = Some (u32 3, t') \<and> ibs_inv t' \<and> in_bits t' = []"
  by (rule filler_data_size) (simp_all add: bytes_def, code_simp)

text \<open>
  C34. \<open>xMoreRbspData\<close> says whether anything precedes the trailing bits, and reading
  \<open>pps_extension_data_flag\<close>s under its control stops exactly at the trailing bits.
\<close>

theorem extension_data_skipped:
  assumes "ibs_inv t" "in_bits t = xs @ True # replicate k False" "k < 8"
  shows "(\<exists>t'. xMoreRbspData t = Some (xs \<noteq> [], t') \<and> in_bits t' = in_bits t)
    \<and> (\<exists>t'. skip_extension_data (length xs) t = Some ((), t') \<and> in_bits t' = True # replicate k False)"
  using xMoreRbspData_law [OF assms] skip_extension_data_law [OF assms(3,1,2), of "length xs"] by blast

theorem extension_data_skipped_witness:
  "(\<exists>t'. xMoreRbspData (open_stream [200, 72]) = Some (to_bits 8 200 @ [False, True, False, False] \<noteq> [], t')
      \<and> in_bits t' = in_bits (open_stream [200, 72]))
    \<and> (\<exists>t'. skip_extension_data (length (to_bits 8 200 @ [False, True, False, False])) (open_stream [200, 72]) = Some ((), t')
      \<and> in_bits t' = True # replicate 3 False)"
  by (rule extension_data_skipped) (simp_all add: bytes_def, code_simp)

end
