(* ===== verification/PicParameterSet.thy ===== *)
theory PicParameterSet
  imports Vlc
begin

text \<open>
  The picture parameter set: classes \<open>PPS\<close> and \<open>PPSRExt\<close> of \<open>CommonLib/Slice.h\<close>,
  \<open>HLSWriter::codePPS\<close> and \<open>HLSyntaxReader::parsePPS\<close>.  The configuration is that of
  \<open>TypeDef.h\<close>: no tiles, no dependent slices, no scaling lists, \<open>JVET_K0072\<close>.

  The parser updates an existing object, so that elements which are not transmitted keep their
  old value; \<open>pps_received p0 p\<close> is the object it arrives at from \<open>p0\<close>.
\<close>

record pps_rext =
  log2MaxTransformSkipBlockSize :: int
  crossComponentPredictionEnabledFlag :: bool
  diffCuChromaQpOffsetDepth :: int
  chromaQpOffsetListLen :: int
  chromaQpAdjTableIncludingNullEntry :: "(int \<times> int) list"
  log2SaoOffsetScale_luma :: nat
  log2SaoOffsetScale_chroma :: nat

record pps =
  PPSId :: int
  PPS_SPSId :: int
  picInitQPMinus26 :: int
  useDQP :: bool
  constrainedIntraPred :: bool
  sliceChromaQpFlag :: bool
  maxCuDQPDepth :: nat
  chromaCbQpOffset :: int
  chromaCrQpOffset :: int
  numRefIdxL0DefaultActive :: nat
  numRefIdxL1DefaultActive :: nat
  useWeightPred :: bool
  useWeightedBiPred :: bool
  outputFlagPresentFlag :: bool
  transquantBypassEnabledFlag :: bool
  useTransformSkip :: bool
  cabacInitPresentFlag :: bool
  sliceHeaderExtensionPresentFlag :: bool
  loopFilterAcrossSlicesEnabledFlag :: bool
  deblockingFilterControlPresentFlag :: bool
  deblockingFilterOverrideEnabledFlag :: bool
  ppsDeblockingFilterDisabledFlag :: bool
  deblockingFilterBetaOffsetDiv2 :: int
  deblockingFilterTcOffsetDiv2 :: int
  listsModificationPresentFlag :: bool
  log2ParallelMergeLevelMinus2 :: nat
  numExtraSliceHeaderBits :: int
  ppsRangeExtension :: pps_rext

definition MAX_QP_OFFSET_LIST_SIZE :: nat where "MAX_QP_OFFSET_LIST_SIZE = 6"

section \<open>Accessors of the range extension\<close>

definition getChromaQpOffsetListEnabledFlag :: "pps_rext \<Rightarrow> bool" where
  "getChromaQpOffsetListEnabledFlag e \<longleftrightarrow> chromaQpOffsetListLen e > 0"

definition settingsDifferFromDefaults :: "pps_rext \<Rightarrow> bool \<Rightarrow> bool" where
  "settingsDifferFromDefaults e bTransformSkipEnabledFlag \<longleftrightarrow>
     (bTransformSkipEnabledFlag \<and> to_u32 (log2MaxTransformSkipBlockSize e) \<noteq> 2)
     \<or> crossComponentPredictionEnabledFlag e
     \<or> getChromaQpOffsetListEnabledFlag e
     \<or> log2SaoOffsetScale_luma e \<noteq> 0
     \<or> log2SaoOffsetScale_chroma e \<noteq> 0"

definition getChromaQpOffsetListEntry :: "pps_rext \<Rightarrow> nat \<Rightarrow> (int \<times> int) option" where
  "getChromaQpOffsetListEntry e i = do {
     check_not (int i \<ge> chromaQpOffsetListLen e + 1);
     arr_get (chromaQpAdjTableIncludingNullEntry e) i
   }"

definition setChromaQpOffsetListEntry :: "nat \<Rightarrow> int \<Rightarrow> int \<Rightarrow> pps_rext \<Rightarrow> pps_rext option" where
  "setChromaQpOffsetListEntry i cbOffset crOffset e = do {
     check_not (i = 0 \<or> i > MAX_QP_OFFSET_LIST_SIZE);
     tab \<leftarrow> arr_set (chromaQpAdjTableIncludingNullEntry e) i (cbOffset, crOffset);
     Some (e\<lparr>chromaQpAdjTableIncludingNullEntry := tab,
             chromaQpOffsetListLen := max (chromaQpOffsetListLen e) (int i)\<rparr>)
   }"

section \<open>Writer\<close>

text \<open>The loop over the offset list; \<open>n\<close> entries are left.\<close>

fun code_qp_offsets :: "pps_rext \<Rightarrow> nat \<Rightarrow> nat \<Rightarrow> obs \<Rightarrow> obs option" where
  "code_qp_offsets e i 0 s = Some s"
| "code_qp_offsets e i (Suc n) s = do {
     (cb, _) \<leftarrow> getChromaQpOffsetListEntry e (i + 1);
     s \<leftarrow> xWriteSvlc cb s;
     (_, cr) \<leftarrow> getChromaQpOffsetListEntry e (i + 1);
     s \<leftarrow> xWriteSvlc cr s;
     code_qp_offsets e (i + 1) n s
   }"

definition code_pps_rext :: "pps \<Rightarrow> obs \<Rightarrow> obs option" where
  "code_pps_rext p s = do {
     let e = ppsRangeExtension p;
     s \<leftarrow> (if useTransformSkip p then xWriteUvlc (to_u32 (log2MaxTransformSkipBlockSize e - 2)) s
            else Some s);
     s \<leftarrow> xWriteFlag (of_bool (crossComponentPredictionEnabledFlag e)) s;
     s \<leftarrow> xWriteFlag (of_bool (getChromaQpOffsetListEnabledFlag e)) s;
     s \<leftarrow> (if getChromaQpOffsetListEnabledFlag e then do {
              s \<leftarrow> xWriteUvlc (to_u32 (diffCuChromaQpOffsetDepth e)) s;
              s \<leftarrow> xWriteUvlc (to_u32 (chromaQpOffsetListLen e - 1)) s;
              code_qp_offsets e 0 (nat (chromaQpOffsetListLen e)) s
            } else Some s);
     s \<leftarrow> xWriteUvlc (log2SaoOffsetScale_luma e) s;
     xWriteUvlc (log2SaoOffsetScale_chroma e) s
   }"

fun write_flags :: "bool list \<Rightarrow> obs \<Rightarrow> obs option" where
  "write_flags [] s = Some s"
| "write_flags (b # bs) s = do { s \<leftarrow> xWriteFlag (of_bool b) s; write_flags bs s }"

definition codePPS :: "pps \<Rightarrow> obs \<Rightarrow> obs option" where
  "codePPS p s = do {
     s \<leftarrow> xWriteUvlc (to_u32 (PPSId p)) s;
     s \<leftarrow> xWriteUvlc (to_u32 (PPS_SPSId p)) s;
     s \<leftarrow> xWriteFlag (of_bool (outputFlagPresentFlag p)) s;
     s \<leftarrow> xWriteCode (to_u32 (numExtraSliceHeaderBits p)) 3 s;
     s \<leftarrow> xWriteFlag (of_bool (cabacInitPresentFlag p)) s;
     s \<leftarrow> xWriteUvlc (sub32 (numRefIdxL0DefaultActive p) 1) s;
     s \<leftarrow> xWriteUvlc (sub32 (numRefIdxL1DefaultActive p) 1) s;
     s \<leftarrow> xWriteSvlc (picInitQPMinus26 p) s;
     s \<leftarrow> xWriteFlag (of_bool (constrainedIntraPred p)) s;
     s \<leftarrow> xWriteFlag (of_bool (useTransformSkip p)) s;
     s \<leftarrow> xWriteFlag (of_bool (useDQP p)) s;
     s \<leftarrow> (if useDQP p then xWriteUvlc (maxCuDQPDepth p) s else Some s);
     s \<leftarrow> xWriteSvlc (chromaCbQpOffset p) s;
     s \<leftarrow> xWriteSvlc (chromaCrQpOffset p) s;
     s \<leftarrow> xWriteFlag (of_bool (sliceChromaQpFlag p)) s;
     s \<leftarrow> xWriteFlag (of_bool (useWeightPred p)) s;
     s \<leftarrow> xWriteFlag (of_bool (useWeightedBiPred p)) s;
     s \<leftarrow> xWriteFlag (of_bool (transquantBypassEnabledFlag p)) s;
     s \<leftarrow> xWriteFlag (of_bool (loopFilterAcrossSlicesEnabledFlag p)) s;
     s \<leftarrow> xWriteFlag (of_bool (deblockingFilterControlPresentFlag p)) s;
     s \<leftarrow> (if deblockingFilterControlPresentFlag p then do {
              s \<leftarrow> xWriteFlag (of_bool (deblockingFilterOverrideEnabledFlag p)) s;
              s \<leftarrow> xWriteFlag (of_bool (ppsDeblockingFilterDisabledFlag p)) s;
              if \<not> ppsDeblockingFilterDisabledFlag p then do {
                s \<leftarrow> xWriteSvlc (deblockingFilterBetaOffsetDiv2 p) s;
                xWriteSvlc (deblockingFilterTcOffsetDiv2 p) s
              } else Some s
            } else Some s);
     s \<leftarrow> xWriteFlag (of_bool (listsModificationPresentFlag p)) s;
     s \<leftarrow> xWriteUvlc (log2ParallelMergeLevelMinus2 p) s;
     s \<leftarrow> xWriteFlag (of_bool (sliceHeaderExtensionPresentFlag p)) s;
     let pps_extension_flags =
       settingsDifferFromDefaults (ppsRangeExtension p) (useTransformSkip p) # replicate 7 False;
     let pps_extension_present_flag = (\<exists>f\<in>set pps_extension_flags. f);
     s \<leftarrow> xWriteFlag (of_bool pps_extension_present_flag) s;
     s \<leftarrow> (if pps_extension_present_flag then do {
              s \<leftarrow> write_flags pps_extension_flags s;
              if pps_extension_flags ! 0 then code_pps_rext p s else Some s
            } else Some s);
     xWriteRbspTrailingBits s
   }"

section \<open>Parser\<close>

fun parse_qp_offsets :: "pps_rext \<Rightarrow> nat \<Rightarrow> nat \<Rightarrow> ibs \<Rightarrow> (pps_rext \<times> ibs) option" where
  "parse_qp_offsets e i 0 s = Some (e, s)"
| "parse_qp_offsets e i (Suc n) s = do {
     (cbOffset, s) \<leftarrow> xReadSvlc s;
     check_not (cbOffset < -12 \<or> cbOffset > 12);
     (crOffset, s) \<leftarrow> xReadSvlc s;
     check_not (crOffset < -12 \<or> crOffset > 12);
     e \<leftarrow> setChromaQpOffsetListEntry (i + 1) cbOffset crOffset e;
     parse_qp_offsets e (i + 1) n s
   }"

definition parse_pps_rext :: "pps \<Rightarrow> ibs \<Rightarrow> (pps_rext \<times> ibs) option" where
  "parse_pps_rext p s = do {
     let e = ppsRangeExtension p;
     (e, s) \<leftarrow> (if useTransformSkip p then do {
         (uiCode, s) \<leftarrow> xReadUvlc s;
         Some (e\<lparr>log2MaxTransformSkipBlockSize := to_i32 (u32 (uiCode + 2))\<rparr>, s)
       } else Some (e, s));
     (uiCode, s) \<leftarrow> xReadFlag s;
     let e = e\<lparr>crossComponentPredictionEnabledFlag := (uiCode \<noteq> 0)\<rparr>;
     (uiCode, s) \<leftarrow> xReadFlag s;
     (e, s) \<leftarrow> (if uiCode = 0 then
         Some (e\<lparr>chromaQpOffsetListLen := 0, diffCuChromaQpOffsetDepth := 0\<rparr>, s)
       else do {
         (uiCode, s) \<leftarrow> xReadUvlc s;
         let e = e\<lparr>diffCuChromaQpOffsetDepth := to_i32 uiCode\<rparr>;
         (tableSizeMinus1, s) \<leftarrow> xReadUvlc s;
         check_not (tableSizeMinus1 \<ge> MAX_QP_OFFSET_LIST_SIZE);
         (e, s) \<leftarrow> parse_qp_offsets e 0 (tableSizeMinus1 + 1) s;
         check_not (chromaQpOffsetListLen e \<noteq> int (tableSizeMinus1 + 1));
         Some (e, s)
       });
     (uiCode, s) \<leftarrow> xReadUvlc s;
     let e = e\<lparr>log2SaoOffsetScale_luma := uiCode\<rparr>;
     (uiCode, s) \<leftarrow> xReadUvlc s;
     Some (e\<lparr>log2SaoOffsetScale_chroma := uiCode\<rparr>, s)
   }"

fun read_flags :: "nat \<Rightarrow> ibs \<Rightarrow> (bool list \<times> ibs) option" where
  "read_flags 0 s = Some ([], s)"
| "read_flags (Suc n) s = do {
     (b, s) \<leftarrow> xReadFlag s;
     (bs, s) \<leftarrow> read_flags n s;
     Some ((b \<noteq> 0) # bs, s)
   }"

definition parsePPS :: "pps \<Rightarrow> ibs \<Rightarrow> (pps \<times> ibs) option" where
  "parsePPS p s = do {
     (uiCode, s) \<leftarrow> xReadUvlc s;
     check_not (uiCode > 63);
     let p = p\<lparr>PPSId := to_i32 uiCode\<rparr>;
     (uiCode, s) \<leftarrow> xReadUvlc s;
     check_not (uiCode > 15);
     let p = p\<lparr>PPS_SPSId := to_i32 uiCode\<rparr>;
     (uiCode, s) \<leftarrow> xReadFlag s;
     let p = p\<lparr>outputFlagPresentFlag := (uiCode = 1)\<rparr>;
     (uiCode, s) \<leftarrow> xReadCode 3 s;
     let p = p\<lparr>numExtraSliceHeaderBits := to_i32 uiCode\<rparr>;
     (uiCode, s) \<leftarrow> xReadFlag s;
     let p = p\<lparr>cabacInitPresentFlag := (uiCode \<noteq> 0)\<rparr>;
     (uiCode, s) \<leftarrow> xReadUvlc s;
     check_not (uiCode > 14);
     let p = p\<lparr>numRefIdxL0DefaultActive := u32 (uiCode + 1)\<rparr>;
     (uiCode, s) \<leftarrow> xReadUvlc s;
     check_not (uiCode > 14);
     let p = p\<lparr>numRefIdxL1DefaultActive := u32 (uiCode + 1)\<rparr>;
     (iCode, s) \<leftarrow> xReadSvlc s;
     let p = p\<lparr>picInitQPMinus26 := iCode\<rparr>;
     (uiCode, s) \<leftarrow> xReadFlag s;
     let p = p\<lparr>constrainedIntraPred := (uiCode \<noteq> 0)\<rparr>;
     (uiCode, s) \<leftarrow> xReadFlag s;
     let p = p\<lparr>useTransformSkip := (uiCode \<noteq> 0)\<rparr>;
     (uiCode, s) \<leftarrow> xReadFlag s;
     let p = p\<lparr>useDQP := (uiCode \<noteq> 0)\<rparr>;
     (p, s) \<leftarrow> (if useDQP p then do {
         (uiCode, s) \<leftarrow> xReadUvlc s;
         Some (p\<lparr>maxCuDQPDepth := uiCode\<rparr>, s)
       } else Some (p\<lparr>maxCuDQPDepth := 0\<rparr>, s));
     (iCode, s) \<leftarrow> xReadSvlc s;
     let p = p\<lparr>chromaCbQpOffset := iCode\<rparr>;
     check_not (chromaCbQpOffset p < -12);
     check_not (chromaCbQpOffset p > 12);
     (iCode, s) \<leftarrow> xReadSvlc s;
     let p = p\<lparr>chromaCrQpOffset := iCode\<rparr>;
     check_not (chromaCrQpOffset p < -12);
     check_not (chromaCrQpOffset p > 12);
     (uiCode, s) \<leftarrow> xReadFlag s;
     let p = p\<lparr>sliceChromaQpFlag := (uiCode \<noteq> 0)\<rparr>;
     (uiCode, s) \<leftarrow> xReadFlag s;
     let p = p\<lparr>useWeightPred := (uiCode = 1)\<rparr>;
     (uiCode, s) \<leftarrow> xReadFlag s;
     let p = p\<lparr>useWeightedBiPred := (uiCode = 1)\<rparr>;
     (uiCode, s) \<leftarrow> xReadFlag s;
     let p = p\<lparr>transquantBypassEnabledFlag := (uiCode \<noteq> 0)\<rparr>;
     (uiCode, s) \<leftarrow> xReadFlag s;
     let p = p\<lparr>loopFilterAcrossSlicesEnabledFlag := (uiCode \<noteq> 0)\<rparr>;
     (uiCode, s) \<leftarrow> xReadFlag s;
     let p = p\<lparr>deblockingFilterControlPresentFlag := (uiCode \<noteq> 0)\<rparr>;
     (p, s) \<leftarrow> (if deblockingFilterControlPresentFlag p then do {
         (uiCode, s) \<leftarrow> xReadFlag s;
         let p = p\<lparr>deblockingFilterOverrideEnabledFlag := (uiCode \<noteq> 0)\<rparr>;
         (uiCode, s) \<leftarrow> xReadFlag s;
         let p = p\<lparr>ppsDeblockingFilterDisabledFlag := (uiCode \<noteq> 0)\<rparr>;
         if \<not> ppsDeblockingFilterDisabledFlag p then do {
           (iCode, s) \<leftarrow> xReadSvlc s;
           let p = p\<lparr>deblockingFilterBetaOffsetDiv2 := iCode\<rparr>;
           (iCode, s) \<leftarrow> xReadSvlc s;
           Some (p\<lparr>deblockingFilterTcOffsetDiv2 := iCode\<rparr>, s)
         } else Some (p, s)
       } else Some (p, s));
     (uiCode, s) \<leftarrow> xReadFlag s;
     let p = p\<lparr>listsModificationPresentFlag := (uiCode \<noteq> 0)\<rparr>;
     (uiCode, s) \<leftarrow> xReadUvlc s;
     let p = p\<lparr>log2ParallelMergeLevelMinus2 := uiCode\<rparr>;
     (uiCode, s) \<leftarrow> xReadFlag s;
     let p = p\<lparr>sliceHeaderExtensionPresentFlag := (uiCode \<noteq> 0)\<rparr>;
     (uiCode, s) \<leftarrow> xReadFlag s;
     (p, s) \<leftarrow> (if uiCode \<noteq> 0 then do {
         (pps_extension_flags, s) \<leftarrow> read_flags 8 s;
         (p, s) \<leftarrow> (if pps_extension_flags ! 0 then do {
             (e, s) \<leftarrow> parse_pps_rext p s;
             Some (p\<lparr>ppsRangeExtension := e\<rparr>, s)
           } else Some (p, s));
         let bSkipTrailingExtensionBits = (\<exists>f\<in>set (drop 1 pps_extension_flags). f);
         if bSkipTrailingExtensionBits then do {
           (_, s) \<leftarrow> skip_extension_data (getNumBitsLeft s) s;
           Some (p, s)
         } else Some (p, s)
       } else Some (p, s));
     (_, s) \<leftarrow> xReadRbspTrailingBits s;
     Some (p, s)
   }"

section \<open>What the parser receives\<close>

definition rext_received :: "pps_rext \<Rightarrow> bool \<Rightarrow> pps_rext \<Rightarrow> pps_rext" where
  "rext_received e0 ts e = e\<lparr>
     log2MaxTransformSkipBlockSize :=
       (if ts then log2MaxTransformSkipBlockSize e else log2MaxTransformSkipBlockSize e0),
     diffCuChromaQpOffsetDepth := (if chromaQpOffsetListLen e > 0 then diffCuChromaQpOffsetDepth e else 0),
     chromaQpAdjTableIncludingNullEntry :=
       map (\<lambda>j. if 1 \<le> j \<and> int j \<le> chromaQpOffsetListLen e
                then chromaQpAdjTableIncludingNullEntry e ! j
                else chromaQpAdjTableIncludingNullEntry e0 ! j) [0..<MAX_QP_OFFSET_LIST_SIZE + 1]\<rparr>"

definition pps_received :: "pps \<Rightarrow> pps \<Rightarrow> pps" where
  "pps_received p0 p =
     (let ctl = deblockingFilterControlPresentFlag p; off = ctl \<and> \<not> ppsDeblockingFilterDisabledFlag p
      in p\<lparr>maxCuDQPDepth := (if useDQP p then maxCuDQPDepth p else 0),
           deblockingFilterOverrideEnabledFlag :=
             deblockingFilterOverrideEnabledFlag (if ctl then p else p0),
           ppsDeblockingFilterDisabledFlag := ppsDeblockingFilterDisabledFlag (if ctl then p else p0),
           deblockingFilterBetaOffsetDiv2 := deblockingFilterBetaOffsetDiv2 (if off then p else p0),
           deblockingFilterTcOffsetDiv2 := deblockingFilterTcOffsetDiv2 (if off then p else p0),
           ppsRangeExtension :=
             (if settingsDifferFromDefaults (ppsRangeExtension p) (useTransformSkip p)
              then rext_received (ppsRangeExtension p0) (useTransformSkip p) (ppsRangeExtension p)
              else ppsRangeExtension p0)\<rparr>)"

text \<open>The values the syntax can carry.\<close>

definition rext_ok :: "pps_rext \<Rightarrow> bool" where
  "rext_ok e \<longleftrightarrow> 2 \<le> log2MaxTransformSkipBlockSize e \<and> log2MaxTransformSkipBlockSize e < 2 ^ 31
     \<and> 0 \<le> diffCuChromaQpOffsetDepth e \<and> diffCuChromaQpOffsetDepth e < 2 ^ 31 - 1
     \<and> 0 \<le> chromaQpOffsetListLen e \<and> chromaQpOffsetListLen e \<le> 6
     \<and> length (chromaQpAdjTableIncludingNullEntry e) = 7
     \<and> (\<forall>(cb, cr)\<in>set (chromaQpAdjTableIncludingNullEntry e). -12 \<le> cb \<and> cb \<le> 12 \<and> -12 \<le> cr \<and> cr \<le> 12)
     \<and> log2SaoOffsetScale_luma e < 2 ^ 31 - 1 \<and> log2SaoOffsetScale_chroma e < 2 ^ 31 - 1"

definition pps_ok :: "pps \<Rightarrow> bool" where
  "pps_ok p \<longleftrightarrow> 0 \<le> PPSId p \<and> PPSId p \<le> 63 \<and> 0 \<le> PPS_SPSId p \<and> PPS_SPSId p \<le> 15
     \<and> 0 \<le> numExtraSliceHeaderBits p \<and> numExtraSliceHeaderBits p < 8
     \<and> numRefIdxL0DefaultActive p \<in> {1..15} \<and> numRefIdxL1DefaultActive p \<in> {1..15}
     \<and> \<bar>picInitQPMinus26 p\<bar> < 2 ^ 30 \<and> maxCuDQPDepth p < 2 ^ 31 - 1
     \<and> -12 \<le> chromaCbQpOffset p \<and> chromaCbQpOffset p \<le> 12
     \<and> -12 \<le> chromaCrQpOffset p \<and> chromaCrQpOffset p \<le> 12
     \<and> \<bar>deblockingFilterBetaOffsetDiv2 p\<bar> < 2 ^ 30 \<and> \<bar>deblockingFilterTcOffsetDiv2 p\<bar> < 2 ^ 30
     \<and> log2ParallelMergeLevelMinus2 p < 2 ^ 31 - 1 \<and> rext_ok (ppsRangeExtension p)"

section \<open>Round trip\<close>

fun upd_table :: "'a list \<Rightarrow> nat \<Rightarrow> nat \<Rightarrow> 'a list \<Rightarrow> 'a list" where
  "upd_table src i 0 tab = tab"
| "upd_table src i (Suc n) tab = upd_table src (i + 1) n (tab[i + 1 := src ! (i + 1)])"

lemma length_upd_table [simp]: "length (upd_table src i n tab) = length tab"
  by (induction src i n tab rule: upd_table.induct) auto

lemma nth_upd_table: "i + n < length tab \<Longrightarrow> j < length tab \<Longrightarrow>
    upd_table src i n tab ! j = (if i < j \<and> j \<le> i + n then src ! j else tab ! j)"
proof (induction src i n tab rule: upd_table.induct)
  case (2 src i n tab)
  then have "upd_table src i (Suc n) tab ! j
      = (if i + 1 < j \<and> j \<le> i + 1 + n then src ! j else tab[i + 1 := src ! (i + 1)] ! j)" by simp
  with 2(2,3) show ?case by (auto simp: nth_list_update)
qed auto

lemma codes_qp_offsets:
  assumes "length (chromaQpAdjTableIncludingNullEntry e) = 7" "int (i + n) \<le> chromaQpOffsetListLen e"
    "i + n \<le> 6"
    "\<forall>(cb, cr)\<in>set (chromaQpAdjTableIncludingNullEntry e). -12 \<le> cb \<and> cb \<le> 12 \<and> -12 \<le> cr \<and> cr \<le> 12"
    "length (chromaQpAdjTableIncludingNullEntry e0) = 7" "chromaQpOffsetListLen e0 = int i"
  shows "vlc.codes (code_qp_offsets e i n) (parse_qp_offsets e0 i n)
    (e0\<lparr>chromaQpAdjTableIncludingNullEntry
          := upd_table (chromaQpAdjTableIncludingNullEntry e) i n (chromaQpAdjTableIncludingNullEntry e0),
        chromaQpOffsetListLen := int (i + n)\<rparr>)"
  using assms
proof (induction n arbitrary: i e0)
  case 0
  then show ?case by (auto intro!: vlc.codes_return)
next
  case (Suc n)
  let ?t = "chromaQpAdjTableIncludingNullEntry"
  obtain cb cr where c: "?t e ! (i + 1) = (cb, cr)" by fastforce
  then have "(cb, cr) \<in> set (?t e)" using nth_mem [of "i + 1" "?t e"] Suc.prems(1,3) by simp
  with Suc.prems(4) have r: "-12 \<le> cb" "cb \<le> 12" "-12 \<le> cr" "cr \<le> 12" by auto
  have g: "getChromaQpOffsetListEntry e (i + 1) = Some (cb, cr)"
    using Suc.prems(1-3) c by (simp add: getChromaQpOffsetListEntry_def)
  have st: "setChromaQpOffsetListEntry (i + 1) cb cr e0
      = Some (e0\<lparr>chromaQpAdjTableIncludingNullEntry := (?t e0)[i + 1 := (cb, cr)], chromaQpOffsetListLen := int (i + 1)\<rparr>)"
    using Suc.prems(3,5,6) by (simp add: setChromaQpOffsetListEntry_def MAX_QP_OFFSET_LIST_SIZE_def)
  have "vlc.codes (code_qp_offsets e (i + 1) n)
      (parse_qp_offsets (e0\<lparr>chromaQpAdjTableIncludingNullEntry := (?t e0)[i + 1 := (cb, cr)], chromaQpOffsetListLen := int (i + 1)\<rparr>) (i + 1) n)
      (e0\<lparr>chromaQpAdjTableIncludingNullEntry := upd_table (?t e) i (Suc n) (?t e0), chromaQpOffsetListLen := int (i + Suc n)\<rparr>)"
    using Suc.IH [of "i + 1" "e0\<lparr>chromaQpAdjTableIncludingNullEntry := (?t e0)[i + 1 := (cb, cr)], chromaQpOffsetListLen := int (i + 1)\<rparr>"]
      Suc.prems c by simp
  then show ?case
    unfolding code_qp_offsets.simps parse_qp_offsets.simps g bind.bind_lunit prod.case
    using r by - (intro codec_intro, simp_all only: st bind.bind_lunit, simp_all)
qed

lemma codes_block_log2:
  assumes "useTransformSkip q = useTransformSkip p"
    and "2 \<le> log2MaxTransformSkipBlockSize e \<and> log2MaxTransformSkipBlockSize e < 2 ^ 31"
  shows "vlc.codes
    (\<lambda>s. if useTransformSkip p then xWriteUvlc (to_u32 (log2MaxTransformSkipBlockSize e - 2)) s else Some s)
    (\<lambda>t. if useTransformSkip q then xReadUvlc t \<bind>
         (\<lambda>(uiCode, s). Some (e0\<lparr>log2MaxTransformSkipBlockSize := to_i32 (u32 (uiCode + 2))\<rparr>, s))
       else Some (e0, t))
    (e0\<lparr>log2MaxTransformSkipBlockSize :=
      (if useTransformSkip p then log2MaxTransformSkipBlockSize e else log2MaxTransformSkipBlockSize e0)\<rparr>)"
proof -
  let ?v = "to_u32 (log2MaxTransformSkipBlockSize e - 2)"
  have "?v < 2 ^ 31 - 1" "to_i32 (u32 (?v + 2)) = log2MaxTransformSkipBlockSize e"
    using assms(2) by (simp_all add: to_i32_u32_add nat_less_iff)
  then show ?thesis using assms(1) by - (intro codec_intro; simp)
qed

lemma codes_block_offsets:
  assumes e: "rext_ok e" and "b \<longleftrightarrow> \<not> getChromaQpOffsetListEnabledFlag e"
    and "length (chromaQpAdjTableIncludingNullEntry e0) = 7" "chromaQpOffsetListLen e0 = 0"
  shows "vlc.codes
    (\<lambda>s. if getChromaQpOffsetListEnabledFlag e then
         xWriteUvlc (to_u32 (diffCuChromaQpOffsetDepth e)) s \<bind>
           (\<lambda>s. xWriteUvlc (to_u32 (chromaQpOffsetListLen e - 1)) s \<bind>
             code_qp_offsets e 0 (nat (chromaQpOffsetListLen e)))
       else Some s)
    (\<lambda>t. if b then Some (e0\<lparr>chromaQpOffsetListLen := 0, diffCuChromaQpOffsetDepth := 0\<rparr>, t)
       else xReadUvlc t \<bind> (\<lambda>(uiCode, s). xReadUvlc s \<bind> (\<lambda>(tableSizeMinus1, s).
         check_not (MAX_QP_OFFSET_LIST_SIZE \<le> tableSizeMinus1) \<bind> (\<lambda>_.
         parse_qp_offsets (e0\<lparr>diffCuChromaQpOffsetDepth := to_i32 uiCode\<rparr>) 0 (tableSizeMinus1 + 1) s \<bind>
         (\<lambda>(e, s). check_not (chromaQpOffsetListLen e \<noteq> int (tableSizeMinus1 + 1)) \<bind> (\<lambda>_. Some (e, s)))))))
    (e0\<lparr>chromaQpAdjTableIncludingNullEntry := upd_table (chromaQpAdjTableIncludingNullEntry e) 0
          (nat (chromaQpOffsetListLen e)) (chromaQpAdjTableIncludingNullEntry e0),
        diffCuChromaQpOffsetDepth := (if chromaQpOffsetListLen e > 0 then diffCuChromaQpOffsetDepth e else 0),
        chromaQpOffsetListLen := chromaQpOffsetListLen e\<rparr>)"
proof (cases "chromaQpOffsetListLen e > 0")
  case False
  with assms have "chromaQpOffsetListLen e = 0" "b" "\<not> getChromaQpOffsetListEnabledFlag e"
    by (simp_all add: rext_ok_def getChromaQpOffsetListEnabledFlag_def)
  then show ?thesis using assms(4) by (auto intro!: vlc.codes_return)
next
  case True
  define k where "k = nat (chromaQpOffsetListLen e) - 1"
  have b: "b = False" and en: "getChromaQpOffsetListEnabledFlag e = True"
    using True assms(2) by (simp_all add: getChromaQpOffsetListEnabledFlag_def)
  have k: "to_u32 (chromaQpOffsetListLen e - 1) = k" "nat (chromaQpOffsetListLen e) = k + 1"
    "chromaQpOffsetListLen e = int (k + 1)" "k < 6"
    using True e by (auto simp: k_def rext_ok_def nat_diff_distrib)
  have d: "to_u32 (diffCuChromaQpOffsetDepth e) < 2 ^ 31 - 1"
    "to_i32 (to_u32 (diffCuChromaQpOffsetDepth e)) = diffCuChromaQpOffsetDepth e"
    using e by (simp_all add: rext_ok_def nat_less_iff)
  have o: "vlc.codes (code_qp_offsets e 0 (k + 1))
      (parse_qp_offsets (e0\<lparr>diffCuChromaQpOffsetDepth := diffCuChromaQpOffsetDepth e\<rparr>) 0 (k + 1))
      (e0\<lparr>diffCuChromaQpOffsetDepth := diffCuChromaQpOffsetDepth e,
          chromaQpAdjTableIncludingNullEntry := upd_table (chromaQpAdjTableIncludingNullEntry e) 0
            (k + 1) (chromaQpAdjTableIncludingNullEntry e0), chromaQpOffsetListLen := int (k + 1)\<rparr>)"
    using codes_qp_offsets [of e 0 "k + 1" "e0\<lparr>diffCuChromaQpOffsetDepth := diffCuChromaQpOffsetDepth e\<rparr>"]
      e k(3,4) assms(3,4) by (simp add: rext_ok_def del: code_qp_offsets.simps parse_qp_offsets.simps upd_table.simps)
  show ?thesis
    unfolding b en k(1,2) if_True if_False
    apply (rule step_uvlc [OF d(1)], rule step_uvlc)
     apply (use k(4) in simp)
    apply (rule vlc.codes_check_reader)
     apply (use k(4) in \<open>simp add: MAX_QP_OFFSET_LIST_SIZE_def\<close>)
    apply (unfold d(2))
    apply (rule vlc.codes_bind_end [OF o])
    apply (rule vlc.codes_check_reader)
     apply simp
    apply (rule vlc.codes_return)
    apply (use k(3) in \<open>simp del: upd_table.simps\<close>)
    done
qed

lemma codes_rext:
  assumes e: "rext_ok (ppsRangeExtension p)" and ts: "useTransformSkip q = useTransformSkip p"
    and e0: "length (chromaQpAdjTableIncludingNullEntry (ppsRangeExtension q)) = 7"
      "chromaQpOffsetListLen (ppsRangeExtension q) = 0"
  shows "vlc.codes (code_pps_rext p) (parse_pps_rext q)
    (rext_received (ppsRangeExtension q) (useTransformSkip p) (ppsRangeExtension p))"
proof -
  let ?e = "ppsRangeExtension p"
  have v: "to_u32 (diffCuChromaQpOffsetDepth ?e) < 2 ^ 31 - 1"
    "to_i32 (to_u32 (diffCuChromaQpOffsetDepth ?e)) = diffCuChromaQpOffsetDepth ?e"
    "log2SaoOffsetScale_luma ?e < 2 ^ 31 - 1" "log2SaoOffsetScale_chroma ?e < 2 ^ 31 - 1"
    using e by (simp_all add: rext_ok_def nat_less_iff)
  have table: "upd_table (chromaQpAdjTableIncludingNullEntry ?e) 0 (nat (chromaQpOffsetListLen ?e))
      (chromaQpAdjTableIncludingNullEntry (ppsRangeExtension q))
    = map (\<lambda>j. if 1 \<le> j \<and> int j \<le> chromaQpOffsetListLen ?e then chromaQpAdjTableIncludingNullEntry ?e ! j
        else chromaQpAdjTableIncludingNullEntry (ppsRangeExtension q) ! j) [0..<MAX_QP_OFFSET_LIST_SIZE + 1]"
    using e e0(1) by (intro nth_equalityI)
      (auto simp: nth_upd_table rext_ok_def MAX_QP_OFFSET_LIST_SIZE_def nat_le_iff le_nat_iff simp del: upt_Suc upd_table.simps)
  show ?thesis
    unfolding code_pps_rext_def parse_pps_rext_def Let_def
    apply (rule vlc.codes_bind, rule codes_block_log2 [OF ts])
     apply (use e in \<open>simp add: rext_ok_def\<close>)
    apply (intro step_flag)
    apply (rule vlc.codes_bind, rule codes_block_offsets [OF e])
       apply (simp_all add: e0)[3]
    apply (intro codec_intro)
      apply (rule v(3), rule v(4))
    apply (rule pps_rext.equality)
           apply (simp_all add: rext_received_def table del: upd_table.simps)
    done
qed

lemma codes_dqp:
  assumes "maxCuDQPDepth p < 2 ^ 31 - 1" "b = useDQP p"
  shows "vlc.codes (\<lambda>s. if useDQP p then xWriteUvlc (maxCuDQPDepth p) s else Some s)
    (\<lambda>t. if b then xReadUvlc t \<bind> (\<lambda>(uiCode, s). Some (q\<lparr>maxCuDQPDepth := uiCode\<rparr>, s))
       else Some (q\<lparr>maxCuDQPDepth := 0\<rparr>, t))
    (q\<lparr>maxCuDQPDepth := (if useDQP p then maxCuDQPDepth p else 0)\<rparr>)"
  using assms by - (intro codec_intro; simp)

lemma codes_deblocking:
  assumes "\<bar>deblockingFilterBetaOffsetDiv2 p\<bar> < 2 ^ 30" "\<bar>deblockingFilterTcOffsetDiv2 p\<bar> < 2 ^ 30"
    and "b = deblockingFilterControlPresentFlag p"
  shows "vlc.codes
    (\<lambda>s. if deblockingFilterControlPresentFlag p then
        xWriteFlag (of_bool (deblockingFilterOverrideEnabledFlag p)) s \<bind>
        (\<lambda>s. xWriteFlag (of_bool (ppsDeblockingFilterDisabledFlag p)) s \<bind>
        (\<lambda>s. if \<not> ppsDeblockingFilterDisabledFlag p then
            xWriteSvlc (deblockingFilterBetaOffsetDiv2 p) s \<bind> xWriteSvlc (deblockingFilterTcOffsetDiv2 p)
          else Some s))
      else Some s)
    (\<lambda>t. if b then
        xReadFlag t \<bind> (\<lambda>(uiCode, s). xReadFlag s \<bind> (\<lambda>(uiCodea, s).
          if \<not> ppsDeblockingFilterDisabledFlag (q\<lparr>deblockingFilterOverrideEnabledFlag := (uiCode \<noteq> 0),
                 ppsDeblockingFilterDisabledFlag := (uiCodea \<noteq> 0)\<rparr>)
          then xReadSvlc s \<bind> (\<lambda>(iCode, s). xReadSvlc s \<bind> (\<lambda>(iCodea, s).
            Some (q\<lparr>deblockingFilterOverrideEnabledFlag := (uiCode \<noteq> 0),
                 ppsDeblockingFilterDisabledFlag := (uiCodea \<noteq> 0),
                 deblockingFilterBetaOffsetDiv2 := iCode, deblockingFilterTcOffsetDiv2 := iCodea\<rparr>, s)))
          else Some (q\<lparr>deblockingFilterOverrideEnabledFlag := (uiCode \<noteq> 0),
                 ppsDeblockingFilterDisabledFlag := (uiCodea \<noteq> 0)\<rparr>, s)))
      else Some (q, t))
    (let ctl = deblockingFilterControlPresentFlag p; off = ctl \<and> \<not> ppsDeblockingFilterDisabledFlag p
     in q\<lparr>deblockingFilterOverrideEnabledFlag := deblockingFilterOverrideEnabledFlag (if ctl then p else q),
          ppsDeblockingFilterDisabledFlag := ppsDeblockingFilterDisabledFlag (if ctl then p else q),
          deblockingFilterBetaOffsetDiv2 := deblockingFilterBetaOffsetDiv2 (if off then p else q),
          deblockingFilterTcOffsetDiv2 := deblockingFilterTcOffsetDiv2 (if off then p else q)\<rparr>)"
proof (cases "deblockingFilterControlPresentFlag p")
  case False
  then show ?thesis using assms(3) by (simp add: vlc.codes_return)
next
  case True
  then show ?thesis
    unfolding assms(3) Let_def if_P [OF True]
    using assms(1,2) by - (intro codec_intro; simp)
qed

lemma codes_flags: "vlc.codes (write_flags bs) (read_flags (length bs)) bs"
proof (induction bs)
  case Nil
  then show ?case by (simp add: vlc.codes_return)
next
  case (Cons b bs)
  show ?case
    unfolding write_flags.simps read_flags.simps length_Cons
    by (intro codec_intro, rule vlc.codes_bind_end [OF Cons], rule vlc.codes_return) simp
qed

lemma codes_extension:
  assumes "rext_ok (ppsRangeExtension p)" "useTransformSkip q = useTransformSkip p"
    "length (chromaQpAdjTableIncludingNullEntry (ppsRangeExtension q)) = 7"
    "chromaQpOffsetListLen (ppsRangeExtension q) = 0"
    and f: "fs = f # replicate 7 False" "b = f" "c = f"
  shows "vlc.codes
    (\<lambda>s. if b then write_flags fs s \<bind> (\<lambda>s. if fs ! 0 then code_pps_rext p s else Some s) else Some s)
    (\<lambda>t. if c then read_flags 8 t \<bind> (\<lambda>(fs, s).
        (if fs ! 0 then parse_pps_rext q s \<bind> (\<lambda>(e, s). Some (q\<lparr>ppsRangeExtension := e\<rparr>, s))
         else Some (q, s)) \<bind> (\<lambda>(p, s).
        if \<exists>f\<in>set (drop 1 fs). f then skip_extension_data (getNumBitsLeft s) s \<bind> (\<lambda>(_, s). Some (p, s))
        else Some (p, s)))
      else Some (q, t))
    (q\<lparr>ppsRangeExtension := (if f then rext_received (ppsRangeExtension q) (useTransformSkip p) (ppsRangeExtension p)
       else ppsRangeExtension q)\<rparr>)"
proof (cases f)
  case False
  then show ?thesis using f by (simp add: vlc.codes_return)
next
  case True
  have r: "vlc.codes (write_flags fs) (read_flags 8) fs" using codes_flags [of fs] f(1) by simp
  have e: "(\<exists>f\<in>set (drop 1 fs). f) = False" "fs ! 0 = True" using f(1) True by auto
  have b: "b = True" "c = True" using f True by auto
  show ?thesis
    unfolding b if_True
    apply (rule vlc.codes_bind [OF r])
    apply (simp only: e if_True if_False)
    apply (rule vlc.codes_bind_end)
     apply (rule vlc.codes_bind_end [OF codes_rext [OF assms(1-4)] vlc.codes_return], rule refl)
    apply (rule vlc.codes_return)
    apply (simp add: True)
    done
qed

lemma codes_PPS:
  assumes "pps_ok p"
    "length (chromaQpAdjTableIncludingNullEntry (ppsRangeExtension p0)) = 7"
    "chromaQpOffsetListLen (ppsRangeExtension p0) = 0"
  shows "vlc.codes (codePPS p) (parsePPS p0) (pps_received p0 p)"
proof -
  have r: "rext_ok (ppsRangeExtension p)" "\<bar>deblockingFilterBetaOffsetDiv2 p\<bar> < 2 ^ 30"
    "\<bar>deblockingFilterTcOffsetDiv2 p\<bar> < 2 ^ 30" "maxCuDQPDepth p < 2 ^ 31 - 1"
    using assms(1) by (simp_all add: pps_ok_def)
  have ref: "sub32 n 1 < 2 ^ 31 - 1" "\<not> 14 < sub32 n 1" "u32 (sub32 n 1 + 1) = n" if "n \<in> {1..15}" for n
    using that by (auto simp: sub32_ge)
  have side: "to_u32 (PPSId p) < 2 ^ 31 - 1" "\<not> 63 < to_u32 (PPSId p)"
    "to_u32 (PPS_SPSId p) < 2 ^ 31 - 1" "\<not> 15 < to_u32 (PPS_SPSId p)" "(0 :: nat) < 3" "(3 :: nat) \<le> 32"
    "to_u32 (numExtraSliceHeaderBits p) < 2 ^ 3"
    "sub32 (numRefIdxL0DefaultActive p) 1 < 2 ^ 31 - 1" "\<not> 14 < sub32 (numRefIdxL0DefaultActive p) 1"
    "sub32 (numRefIdxL1DefaultActive p) 1 < 2 ^ 31 - 1" "\<not> 14 < sub32 (numRefIdxL1DefaultActive p) 1"
    "\<bar>picInitQPMinus26 p\<bar> < 2 ^ 30" "\<bar>chromaCbQpOffset p\<bar> < 2 ^ 30" "\<bar>chromaCrQpOffset p\<bar> < 2 ^ 30"
    "log2ParallelMergeLevelMinus2 p < 2 ^ 31 - 1"
    using assms(1) ref by (simp_all only: pps_ok_def) (simp_all add: nat_less_iff not_less nat_le_iff abs_less_iff)
  have conv: "to_i32 (to_u32 (PPSId p)) = PPSId p" "to_i32 (to_u32 (PPS_SPSId p)) = PPS_SPSId p"
    "to_i32 (to_u32 (numExtraSliceHeaderBits p)) = numExtraSliceHeaderBits p"
    "u32 (sub32 (numRefIdxL0DefaultActive p) 1 + 1) = numRefIdxL0DefaultActive p"
    "u32 (sub32 (numRefIdxL1DefaultActive p) 1 + 1) = numRefIdxL1DefaultActive p"
    using assms(1) ref by (simp_all only: pps_ok_def) (simp_all add: to_i32_to_u32)
  have qp: "\<not> chromaCbQpOffset p < -12" "\<not> 12 < chromaCbQpOffset p"
    "\<not> chromaCrQpOffset p < -12" "\<not> 12 < chromaCrQpOffset p"
    using assms(1) by (simp_all add: pps_ok_def)
  show ?thesis
    unfolding codePPS_def parsePPS_def Let_def
    apply (intro codec_intro)
                 apply ((rule side)+)
    apply (rule vlc.codes_bind, rule codes_dqp [OF r(4)])
     apply simp
    apply (intro codec_intro)
                  apply ((rule side | (simp add: qp; fail))+)[6]
    apply (rule vlc.codes_bind, rule codes_deblocking [OF r(2,3)])
     apply simp
    apply (intro codec_intro)
     apply (rule side)
    apply (rule vlc.codes_bind, rule codes_extension [OF r(1)])
          apply (simp add: Let_def)
         apply (simp add: Let_def assms)
        apply (simp add: Let_def assms)
       apply (rule refl)
      apply simp
     apply simp
    apply (intro codec_intro)
    unfolding pps_received_def Let_def
    apply (rule pps.equality)
                      apply (simp_all add: conv conv(4,5) [unfolded One_nat_def add_Suc_right add_0_right])
    done
qed

text \<open>The stream of a parameter set ends on a byte boundary.\<close>

lemma keeps_flags: "keeps (write_flags bs)"
proof (induction bs)
  case Nil
  then show ?case unfolding keeps_def by simp
next
  case (Cons b bs)
  then have "keeps (\<lambda>s. xWriteFlag (of_bool b) s \<bind> write_flags bs)" by (intro keeps_intro)
  then show ?case by simp
qed

lemma keeps_qp_offsets: "keeps (code_qp_offsets e i n)"
proof (induction n arbitrary: i)
  case 0
  then show ?case unfolding keeps_def by simp
next
  case (Suc n)
  show ?case
  proof (cases "getChromaQpOffsetListEntry e (i + 1)")
    case None
    then show ?thesis unfolding keeps_def by simp
  next
    case (Some cc)
    obtain cb cr where cc: "cc = (cb, cr)" by (cases cc)
    from Suc have "keeps (\<lambda>s. xWriteSvlc cb s \<bind> (\<lambda>s. xWriteSvlc cr s \<bind> code_qp_offsets e (i + 1) n))"
      by (intro keeps_intro)
    then show ?thesis using Some by (simp add: cc)
  qed
qed

lemma keeps_rext: "keeps (code_pps_rext p)"
  unfolding code_pps_rext_def Let_def by (intro keeps_intro keeps_qp_offsets)

lemma closes_codePPS: "closes (codePPS p)"
  unfolding codePPS_def Let_def by (intro closes_intro keeps_flags keeps_rext)

section \<open>Properties\<close>

text \<open>
  C12. A picture parameter set within the limits of the syntax is written by \<open>codePPS\<close> to whole
  bytes, and \<open>parsePPS\<close> gets it back from them, up to the fields the syntax leaves out, which
  keep what the receiving object held.
\<close>

theorem pps_roundtrip:
  assumes "pps_ok p" "length (chromaQpAdjTableIncludingNullEntry (ppsRangeExtension p0)) = 7"
    "chromaQpOffsetListLen (ppsRangeExtension p0) = 0"
  shows "\<exists>s t. codePPS p clear = Some s \<and> out_num_held s = 0 \<and> last (out_fifo s) \<noteq> 0
    \<and> parsePPS p0 (open_stream (out_fifo s)) = Some (pps_received p0 p, t) \<and> in_bits t = []"
proof -
  note c = codes_PPS [OF assms]
  from codes_whole_stream [OF c] obtain s where s: "codePPS p clear = Some s" by blast
  with closes_codePPS [of p] have e: "obs_inv s" "out_num_held s = 0" "last (out_fifo s) \<noteq> 0"
    unfolding closes_def by (metis obs_inv_clear)+
  note o = open_out_bits [OF e(1,2)]
  have "8 dvd length (out_bits s)" using held_mod [OF e(1)] e(2) by auto
  from codes_aligned_stream [OF c s this o] s e(2,3) show ?thesis by blast
qed

definition sample_rext :: pps_rext where
  "sample_rext = \<lparr>log2MaxTransformSkipBlockSize = 2, crossComponentPredictionEnabledFlag = False,
     diffCuChromaQpOffsetDepth = 0, chromaQpOffsetListLen = 0,
     chromaQpAdjTableIncludingNullEntry = replicate 7 (0, 0), log2SaoOffsetScale_luma = 0, log2SaoOffsetScale_chroma = 0\<rparr>"

definition sample_pps :: pps where
  "sample_pps = \<lparr>PPSId = 3, PPS_SPSId = 1, picInitQPMinus26 = - 4, useDQP = True, constrainedIntraPred = False,
     sliceChromaQpFlag = True, maxCuDQPDepth = 2, chromaCbQpOffset = - 1, chromaCrQpOffset = 6,
     numRefIdxL0DefaultActive = 2, numRefIdxL1DefaultActive = 1, useWeightPred = False, useWeightedBiPred = True,
     outputFlagPresentFlag = False, transquantBypassEnabledFlag = False, useTransformSkip = True,
     cabacInitPresentFlag = True, sliceHeaderExtensionPresentFlag = False, loopFilterAcrossSlicesEnabledFlag = True,
     deblockingFilterControlPresentFlag = True, deblockingFilterOverrideEnabledFlag = False,
     ppsDeblockingFilterDisabledFlag = False, deblockingFilterBetaOffsetDiv2 = 1, deblockingFilterTcOffsetDiv2 = - 2,
     listsModificationPresentFlag = False, log2ParallelMergeLevelMinus2 = 0, numExtraSliceHeaderBits = 0,
     ppsRangeExtension = sample_rext\<lparr>chromaQpOffsetListLen := 2,
       chromaQpAdjTableIncludingNullEntry := [(0, 0), (1, 2), (- 3, 12), (0, 0), (0, 0), (0, 0), (0, 0)]\<rparr>\<rparr>"

theorem pps_roundtrip_witness:
  "\<exists>s t. codePPS sample_pps clear = Some s \<and> out_num_held s = 0 \<and> last (out_fifo s) \<noteq> 0
    \<and> parsePPS (sample_pps\<lparr>ppsRangeExtension := sample_rext\<rparr>) (open_stream (out_fifo s))
      = Some (pps_received (sample_pps\<lparr>ppsRangeExtension := sample_rext\<rparr>) sample_pps, t) \<and> in_bits t = []"
  by (rule pps_roundtrip) (simp_all add: pps_ok_def rext_ok_def sample_pps_def sample_rext_def)

end
