(* ===== verification/ProfileTier.thy ===== *)
theory ProfileTier
  imports PicParameterSet
begin

text \<open>
  Profile, tier and level: classes \<open>ProfileTierLevel\<close> and \<open>PTL\<close> of \<open>CommonLib/Slice.h\<close>,
  \<open>HLSWriter::codePTL\<close> and \<open>HLSyntaxReader::parsePTL\<close>.

  The enumerations are the numbers they are coded with, since the parser casts any number it reads to them.
\<close>

definition MAX_TLAYER :: nat where "MAX_TLAYER = 7"

abbreviation (input) PROFILE_MAIN :: int where "PROFILE_MAIN \<equiv> 1"
abbreviation (input) PROFILE_MAIN10 :: int where "PROFILE_MAIN10 \<equiv> 2"
abbreviation (input) PROFILE_MAINSTILLPICTURE :: int where "PROFILE_MAINSTILLPICTURE \<equiv> 3"
abbreviation (input) PROFILE_MAINREXT :: int where "PROFILE_MAINREXT \<equiv> 4"
abbreviation (input) PROFILE_HIGHTHROUGHPUTREXT :: int where "PROFILE_HIGHTHROUGHPUTREXT \<equiv> 5"
abbreviation (input) PROFILE_NEXT :: int where "PROFILE_NEXT \<equiv> 6"

abbreviation (input) CHROMA_400 :: nat where "CHROMA_400 \<equiv> 0"
abbreviation (input) CHROMA_420 :: nat where "CHROMA_420 \<equiv> 1"
abbreviation (input) CHROMA_422 :: nat where "CHROMA_422 \<equiv> 2"
abbreviation (input) CHROMA_444 :: nat where "CHROMA_444 \<equiv> 3"

datatype tier = MAIN_TIER | HIGH_TIER

record profile_tier_level =
  profileSpace :: int
  tierFlag :: tier
  profileIdc :: int
  profileCompatibilityFlag :: "bool list"
  levelIdc :: int
  progressiveSourceFlag :: bool
  interlacedSourceFlag :: bool
  nonPackedConstraintFlag :: bool
  frameOnlyConstraintFlag :: bool
  bitDepthConstraintValue :: nat
  chromaFormatConstraintValue :: nat
  intraConstraintFlag :: bool
  onePictureOnlyConstraintFlag :: bool
  lowerBitRateConstraintFlag :: bool

record ptl =
  generalPTL :: profile_tier_level
  subLayerPTL :: "profile_tier_level list"
  subLayerProfilePresentFlag :: "bool list"
  subLayerLevelPresentFlag :: "bool list"

text \<open>The constructors; the argument is the memory of the object, for the members they do not set.\<close>

definition ProfileTierLevel :: "profile_tier_level \<Rightarrow> profile_tier_level" where
  "ProfileTierLevel m = m\<lparr>profileSpace := 0, tierFlag := MAIN_TIER, profileIdc := 0, levelIdc := 0,
     progressiveSourceFlag := False, interlacedSourceFlag := False, nonPackedConstraintFlag := False,
     frameOnlyConstraintFlag := False, profileCompatibilityFlag := replicate 32 False\<rparr>"

definition PTL :: "ptl \<Rightarrow> ptl" where
  "PTL m = m\<lparr>generalPTL := ProfileTierLevel (generalPTL m), subLayerPTL := map ProfileTierLevel (subLayerPTL m),
     subLayerProfilePresentFlag := replicate 6 False, subLayerLevelPresentFlag := replicate 6 False\<rparr>"

section \<open>Writer\<close>

definition code_constraints :: "profile_tier_level \<Rightarrow> obs \<Rightarrow> obs option" where
  "code_constraints p s = do {
     let bitDepthConstraint = bitDepthConstraintValue p;
     s \<leftarrow> xWriteFlag (of_bool (bitDepthConstraint \<le> 12)) s;
     s \<leftarrow> xWriteFlag (of_bool (bitDepthConstraint \<le> 10)) s;
     s \<leftarrow> xWriteFlag (of_bool (bitDepthConstraint \<le> 8)) s;
     let chromaFmtConstraint = chromaFormatConstraintValue p;
     s \<leftarrow> xWriteFlag (of_bool (chromaFmtConstraint = CHROMA_422 \<or> chromaFmtConstraint = CHROMA_420
            \<or> chromaFmtConstraint = CHROMA_400)) s;
     s \<leftarrow> xWriteFlag (of_bool (chromaFmtConstraint = CHROMA_420 \<or> chromaFmtConstraint = CHROMA_400)) s;
     s \<leftarrow> xWriteFlag (of_bool (chromaFmtConstraint = CHROMA_400)) s;
     s \<leftarrow> xWriteFlag (of_bool (intraConstraintFlag p)) s;
     s \<leftarrow> xWriteFlag (of_bool (onePictureOnlyConstraintFlag p)) s;
     s \<leftarrow> xWriteFlag (of_bool (lowerBitRateConstraintFlag p)) s;
     s \<leftarrow> xWriteCode 0 16 s;
     s \<leftarrow> xWriteCode 0 16 s;
     xWriteCode 0 2 s
   }"

definition code_reserved_43bits :: "obs \<Rightarrow> obs option" where
  "code_reserved_43bits s = do {
     s \<leftarrow> xWriteCode 0 16 s;
     s \<leftarrow> xWriteCode 0 16 s;
     xWriteCode 0 11 s
   }"

definition codeProfileTier :: "profile_tier_level \<Rightarrow> obs \<Rightarrow> obs option" where
  "codeProfileTier p s = do {
     s \<leftarrow> xWriteCode (to_u32 (profileSpace p)) 2 s;
     s \<leftarrow> xWriteFlag (of_bool (tierFlag p = HIGH_TIER)) s;
     s \<leftarrow> xWriteCode (to_u32 (profileIdc p)) 5 s;
     s \<leftarrow> write_flags (profileCompatibilityFlag p) s;
     s \<leftarrow> xWriteFlag (of_bool (progressiveSourceFlag p)) s;
     s \<leftarrow> xWriteFlag (of_bool (interlacedSourceFlag p)) s;
     s \<leftarrow> xWriteFlag (of_bool (nonPackedConstraintFlag p)) s;
     s \<leftarrow> xWriteFlag (of_bool (frameOnlyConstraintFlag p)) s;
     s \<leftarrow> (if profileIdc p = PROFILE_MAINREXT \<or> profileIdc p = PROFILE_HIGHTHROUGHPUTREXT
            then code_constraints p s else code_reserved_43bits s);
     xWriteFlag (of_bool False) s
   }"

definition code_sub_layer_flags :: "ptl \<Rightarrow> nat \<Rightarrow> obs \<Rightarrow> obs option" where
  "code_sub_layer_flags p i s = do {
     b \<leftarrow> arr_get (subLayerProfilePresentFlag p) i;
     s \<leftarrow> xWriteFlag (of_bool b) s;
     b \<leftarrow> arr_get (subLayerLevelPresentFlag p) i;
     xWriteFlag (of_bool b) s
   }"

definition code_sub_layer :: "ptl \<Rightarrow> nat \<Rightarrow> obs \<Rightarrow> obs option" where
  "code_sub_layer p i s = do {
     b \<leftarrow> arr_get (subLayerProfilePresentFlag p) i;
     l \<leftarrow> arr_get (subLayerLevelPresentFlag p) i;
     q \<leftarrow> arr_get (subLayerPTL p) i;
     s \<leftarrow> (if b then codeProfileTier q s else Some s);
     if l then xWriteCode (to_u32 (levelIdc q)) 8 s else Some s
   }"

definition codePTL :: "ptl \<Rightarrow> bool \<Rightarrow> int \<Rightarrow> obs \<Rightarrow> obs option" where
  "codePTL p profilePresentFlag maxNumSubLayersMinus1 s = do {
     s \<leftarrow> (if profilePresentFlag then codeProfileTier (generalPTL p) s else Some s);
     s \<leftarrow> xWriteCode (to_u32 (levelIdc (generalPTL p))) 8 s;
     s \<leftarrow> for_loop (code_sub_layer_flags p) [0..<nat maxNumSubLayersMinus1] s;
     s \<leftarrow> (if maxNumSubLayersMinus1 > 0
            then for_loop (\<lambda>i. xWriteCode 0 2) [nat maxNumSubLayersMinus1..<8] s else Some s);
     for_loop (code_sub_layer p) [0..<nat maxNumSubLayersMinus1] s
   }"

section \<open>Parser\<close>

definition parse_constraints :: "profile_tier_level \<Rightarrow> ibs \<Rightarrow> (profile_tier_level \<times> ibs) option" where
  "parse_constraints p s = do {
     let maxBitDepth = 16;
     (uiCode, s) \<leftarrow> xReadFlag s;
     let maxBitDepth = (if uiCode \<noteq> 0 then 12 else maxBitDepth);
     (uiCode, s) \<leftarrow> xReadFlag s;
     let maxBitDepth = (if uiCode \<noteq> 0 then 10 else maxBitDepth);
     (uiCode, s) \<leftarrow> xReadFlag s;
     let maxBitDepth = (if uiCode \<noteq> 0 then 8 else maxBitDepth);
     let p = p\<lparr>bitDepthConstraintValue := maxBitDepth\<rparr>;
     let chromaFmtConstraint = CHROMA_444;
     (uiCode, s) \<leftarrow> xReadFlag s;
     let chromaFmtConstraint = (if uiCode \<noteq> 0 then CHROMA_422 else chromaFmtConstraint);
     (uiCode, s) \<leftarrow> xReadFlag s;
     let chromaFmtConstraint = (if uiCode \<noteq> 0 then CHROMA_420 else chromaFmtConstraint);
     (uiCode, s) \<leftarrow> xReadFlag s;
     let chromaFmtConstraint = (if uiCode \<noteq> 0 then CHROMA_400 else chromaFmtConstraint);
     let p = p\<lparr>chromaFormatConstraintValue := chromaFmtConstraint\<rparr>;
     (uiCode, s) \<leftarrow> xReadFlag s;
     let p = p\<lparr>intraConstraintFlag := (uiCode \<noteq> 0)\<rparr>;
     (uiCode, s) \<leftarrow> xReadFlag s;
     let p = p\<lparr>onePictureOnlyConstraintFlag := (uiCode \<noteq> 0)\<rparr>;
     (uiCode, s) \<leftarrow> xReadFlag s;
     let p = p\<lparr>lowerBitRateConstraintFlag := (uiCode \<noteq> 0)\<rparr>;
     (_, s) \<leftarrow> xReadCode 16 s;
     (_, s) \<leftarrow> xReadCode 16 s;
     (_, s) \<leftarrow> xReadCode 2 s;
     Some (p, s)
   }"

definition parse_reserved_43bits :: "profile_tier_level \<Rightarrow> ibs \<Rightarrow> (profile_tier_level \<times> ibs) option" where
  "parse_reserved_43bits p s = do {
     let p = p\<lparr>bitDepthConstraintValue := (if profileIdc p = PROFILE_MAIN10 \<or> profileIdc p = PROFILE_NEXT then 10 else 8),
               chromaFormatConstraintValue := CHROMA_420, intraConstraintFlag := False,
               lowerBitRateConstraintFlag := True\<rparr>;
     (_, s) \<leftarrow> xReadCode 16 s;
     (_, s) \<leftarrow> xReadCode 16 s;
     (_, s) \<leftarrow> xReadCode 11 s;
     Some (p, s)
   }"

definition parseProfileTier :: "profile_tier_level \<Rightarrow> ibs \<Rightarrow> (profile_tier_level \<times> ibs) option" where
  "parseProfileTier p s = do {
     (uiCode, s) \<leftarrow> xReadCode 2 s;
     let p = p\<lparr>profileSpace := to_i32 uiCode\<rparr>;
     (uiCode, s) \<leftarrow> xReadFlag s;
     let p = p\<lparr>tierFlag := (if uiCode \<noteq> 0 then HIGH_TIER else MAIN_TIER)\<rparr>;
     (uiCode, s) \<leftarrow> xReadCode 5 s;
     let p = p\<lparr>profileIdc := to_i32 uiCode\<rparr>;
     (flags, s) \<leftarrow> read_flags 32 s;
     let p = p\<lparr>profileCompatibilityFlag := flags\<rparr>;
     (uiCode, s) \<leftarrow> xReadFlag s;
     let p = p\<lparr>progressiveSourceFlag := (uiCode \<noteq> 0)\<rparr>;
     (uiCode, s) \<leftarrow> xReadFlag s;
     let p = p\<lparr>interlacedSourceFlag := (uiCode \<noteq> 0)\<rparr>;
     (uiCode, s) \<leftarrow> xReadFlag s;
     let p = p\<lparr>nonPackedConstraintFlag := (uiCode \<noteq> 0)\<rparr>;
     (uiCode, s) \<leftarrow> xReadFlag s;
     let p = p\<lparr>frameOnlyConstraintFlag := (uiCode \<noteq> 0)\<rparr>;
     (p, s) \<leftarrow> (if profileIdc p = PROFILE_MAINREXT \<or> profileCompatibilityFlag p ! 4
          \<or> profileIdc p = PROFILE_HIGHTHROUGHPUTREXT \<or> profileCompatibilityFlag p ! 5
        then parse_constraints p s else parse_reserved_43bits p s);
     if profileIdc p \<ge> PROFILE_MAIN \<and> profileIdc p \<le> PROFILE_HIGHTHROUGHPUTREXT
        \<or> profileCompatibilityFlag p ! 1 \<or> profileCompatibilityFlag p ! 2 \<or> profileCompatibilityFlag p ! 3
        \<or> profileCompatibilityFlag p ! 4 \<or> profileCompatibilityFlag p ! 5
     then do {
       (uiCode, s) \<leftarrow> xReadFlag s;
       check_not (uiCode \<noteq> 0);
       Some (p, s)
     } else do {
       (uiCode, s) \<leftarrow> xReadFlag s;
       Some (p, s)
     }
   }"

definition parse_sub_layer_flags :: "nat \<Rightarrow> ptl \<Rightarrow> ibs \<Rightarrow> (ptl \<times> ibs) option" where
  "parse_sub_layer_flags i p s = do {
     (uiCode, s) \<leftarrow> xReadFlag s;
     fs \<leftarrow> arr_set (subLayerProfilePresentFlag p) i (uiCode \<noteq> 0);
     let p = p\<lparr>subLayerProfilePresentFlag := fs\<rparr>;
     (uiCode, s) \<leftarrow> xReadFlag s;
     fs \<leftarrow> arr_set (subLayerLevelPresentFlag p) i (uiCode \<noteq> 0);
     Some (p\<lparr>subLayerLevelPresentFlag := fs\<rparr>, s)
   }"

definition parse_sub_layer :: "nat \<Rightarrow> ptl \<Rightarrow> ibs \<Rightarrow> (ptl \<times> ibs) option" where
  "parse_sub_layer i p s = do {
     b \<leftarrow> arr_get (subLayerProfilePresentFlag p) i;
     l \<leftarrow> arr_get (subLayerLevelPresentFlag p) i;
     q \<leftarrow> arr_get (subLayerPTL p) i;
     (q, s) \<leftarrow> (if b then parseProfileTier q s else Some (q, s));
     (q, s) \<leftarrow> (if l then do {
         (uiCode, s) \<leftarrow> xReadCode 8 s;
         Some (q\<lparr>levelIdc := to_i32 uiCode\<rparr>, s)
       } else Some (q, s));
     qs \<leftarrow> arr_set (subLayerPTL p) i q;
     Some (p\<lparr>subLayerPTL := qs\<rparr>, s)
   }"

definition parsePTL :: "ptl \<Rightarrow> bool \<Rightarrow> int \<Rightarrow> ibs \<Rightarrow> (ptl \<times> ibs) option" where
  "parsePTL p profilePresentFlag maxNumSubLayersMinus1 s = do {
     (g, s) \<leftarrow> (if profilePresentFlag then parseProfileTier (generalPTL p) s else Some (generalPTL p, s));
     (uiCode, s) \<leftarrow> xReadCode 8 s;
     let p = p\<lparr>generalPTL := g\<lparr>levelIdc := to_i32 uiCode\<rparr>\<rparr>;
     (p, s) \<leftarrow> read_loop parse_sub_layer_flags [0..<nat maxNumSubLayersMinus1] p s;
     (_, s) \<leftarrow> (if maxNumSubLayersMinus1 > 0 then read_loop (\<lambda>i x s. do {
           (uiCode, s) \<leftarrow> xReadCode 2 s;
           check_not (uiCode \<noteq> 0);
           Some (x, s)
         }) [nat maxNumSubLayersMinus1..<8] () s
       else Some ((), s));
     read_loop parse_sub_layer [0..<nat maxNumSubLayersMinus1] p s
   }"

section \<open>Round trip\<close>

text \<open>
  The limits of the syntax.  The parser takes the branch of the range extensions profiles on their
  compatibility flags too, the writer only on the profile itself.
\<close>

definition profile_tier_ok :: "profile_tier_level \<Rightarrow> bool" where
  "profile_tier_ok p \<longleftrightarrow> 0 \<le> profileSpace p \<and> profileSpace p < 4 \<and> 0 \<le> profileIdc p \<and> profileIdc p < 32
     \<and> length (profileCompatibilityFlag p) = 32
     \<and> (profileCompatibilityFlag p ! 4 \<or> profileCompatibilityFlag p ! 5
        \<longrightarrow> profileIdc p = PROFILE_MAINREXT \<or> profileIdc p = PROFILE_HIGHTHROUGHPUTREXT)"

definition level_ok :: "profile_tier_level \<Rightarrow> bool" where
  "level_ok p \<longleftrightarrow> 0 \<le> levelIdc p \<and> levelIdc p < 256"

definition rounded_depth :: "nat \<Rightarrow> nat" where
  "rounded_depth d = (if d \<le> 8 then 8 else if d \<le> 10 then 10 else if d \<le> 12 then 12 else 16)"

definition rounded_chroma :: "nat \<Rightarrow> nat" where
  "rounded_chroma f = (if f = CHROMA_400 then CHROMA_400 else if f = CHROMA_420 \<or> f = CHROMA_400 then CHROMA_420
     else if f = CHROMA_422 \<or> f = CHROMA_420 \<or> f = CHROMA_400 then CHROMA_422 else CHROMA_444)"

lemma rounded_chroma: "f \<le> 3 \<Longrightarrow> rounded_chroma f = f"
  by (auto simp: rounded_chroma_def)

definition profile_tier_received :: "profile_tier_level \<Rightarrow> profile_tier_level \<Rightarrow> profile_tier_level" where
  "profile_tier_received p0 p =
     (let ext = (profileIdc p = PROFILE_MAINREXT \<or> profileIdc p = PROFILE_HIGHTHROUGHPUTREXT)
      in p\<lparr>levelIdc := levelIdc p0,
           bitDepthConstraintValue := (if ext then rounded_depth (bitDepthConstraintValue p)
             else if profileIdc p = PROFILE_MAIN10 \<or> profileIdc p = PROFILE_NEXT then 10 else 8),
           chromaFormatConstraintValue := (if ext then rounded_chroma (chromaFormatConstraintValue p) else CHROMA_420),
           intraConstraintFlag := ext \<and> intraConstraintFlag p,
           onePictureOnlyConstraintFlag := onePictureOnlyConstraintFlag (if ext then p else p0),
           lowerBitRateConstraintFlag := ext \<longrightarrow> lowerBitRateConstraintFlag p\<rparr>)"

lemma codes_constraints:
  "vlc.codes (code_constraints p) (parse_constraints q)
     (q\<lparr>bitDepthConstraintValue := rounded_depth (bitDepthConstraintValue p),
        chromaFormatConstraintValue := rounded_chroma (chromaFormatConstraintValue p),
        intraConstraintFlag := intraConstraintFlag p,
        onePictureOnlyConstraintFlag := onePictureOnlyConstraintFlag p,
        lowerBitRateConstraintFlag := lowerBitRateConstraintFlag p\<rparr>)"
  unfolding code_constraints_def parse_constraints_def Let_def
  by (intro codec_intro, simp_all only: of_bool_eq_0_iff not_not rounded_depth_def rounded_chroma_def) simp_all

lemma codes_reserved_43bits:
  "vlc.codes code_reserved_43bits (parse_reserved_43bits q)
     (q\<lparr>bitDepthConstraintValue := (if profileIdc q = PROFILE_MAIN10 \<or> profileIdc q = PROFILE_NEXT then 10 else 8),
        chromaFormatConstraintValue := CHROMA_420, intraConstraintFlag := False,
        lowerBitRateConstraintFlag := True\<rparr>)"
  unfolding code_reserved_43bits_def parse_reserved_43bits_def Let_def
  by (intro codec_intro) simp_all

lemma codes_profile_tier:
  assumes "profile_tier_ok p"
  shows "vlc.codes (codeProfileTier p) (parseProfileTier q) (profile_tier_received q p)"
proof -
  let ?ext = "profileIdc p = PROFILE_MAINREXT \<or> profileIdc p = PROFILE_HIGHTHROUGHPUTREXT"
  let ?q = "q\<lparr>profileSpace := profileSpace p, tierFlag := tierFlag p, profileIdc := profileIdc p,
      profileCompatibilityFlag := profileCompatibilityFlag p, progressiveSourceFlag := progressiveSourceFlag p,
      interlacedSourceFlag := interlacedSourceFlag p, nonPackedConstraintFlag := nonPackedConstraintFlag p,
      frameOnlyConstraintFlag := frameOnlyConstraintFlag p\<rparr>"
  have v: "to_u32 (profileSpace p) < 2 ^ 2" "to_i32 (to_u32 (profileSpace p)) = profileSpace p"
    "to_u32 (profileIdc p) < 2 ^ 5" "to_i32 (to_u32 (profileIdc p)) = profileIdc p"
    using assms by (auto simp: profile_tier_ok_def nat_less_iff)
  have t: "(if tierFlag p = HIGH_TIER then HIGH_TIER else MAIN_TIER) = tierFlag p"
    by (cases "tierFlag p") simp_all
  have flags: "vlc.codes (write_flags (profileCompatibilityFlag p)) (read_flags 32) (profileCompatibilityFlag p)"
    using codes_flags [of "profileCompatibilityFlag p"] assms by (simp add: profile_tier_ok_def)
  have branch: "?ext \<longleftrightarrow> (profileIdc p = PROFILE_MAINREXT \<or> profileCompatibilityFlag p ! 4
      \<or> profileIdc p = PROFILE_HIGHTHROUGHPUTREXT \<or> profileCompatibilityFlag p ! 5)"
    using assms by (auto simp: profile_tier_ok_def)
  have body: "vlc.codes (\<lambda>s. if ?ext then code_constraints p s else code_reserved_43bits s)
      (\<lambda>t. if profileIdc p = PROFILE_MAINREXT \<or> profileCompatibilityFlag p ! 4
          \<or> profileIdc p = PROFILE_HIGHTHROUGHPUTREXT \<or> profileCompatibilityFlag p ! 5
         then parse_constraints ?q t else parse_reserved_43bits ?q t) (profile_tier_received q p)"
  proof (rule vlc.codes_if [OF branch])
    assume e: ?ext
    show "vlc.codes (code_constraints p) (parse_constraints ?q) (profile_tier_received q p)"
      by (rule vlc.codes_cong [OF codes_constraints]) (use e in \<open>auto simp: profile_tier_received_def\<close>)
  next
    assume e: "\<not> ?ext"
    show "vlc.codes code_reserved_43bits (parse_reserved_43bits ?q) (profile_tier_received q p)"
      by (rule vlc.codes_cong [OF codes_reserved_43bits]) (use e in \<open>auto simp: profile_tier_received_def\<close>)
  qed
  show ?thesis
    unfolding codeProfileTier_def parseProfileTier_def Let_def
    apply (intro step_code step_flag)
           apply (use v in simp_all)[6]
    apply (rule vlc.codes_bind [OF flags])
    apply (intro step_flag)
    apply (simp only: of_bool_eq_0_iff not_not t v)
    apply (rule vlc.codes_bind)
     apply (rule vlc.codes_cong [OF body])
       apply (rule refl)
      apply simp
     apply (rule refl)
    apply (rule vlc.codes_if_reader)
     apply (rule vlc.codes_bind_end [OF codes_flag_bool], simp add: vlc.codes_return)
    apply (rule vlc.codes_bind_end [OF codes_flag_bool], simp add: vlc.codes_return)
    done
qed

definition ptl_wf :: "ptl \<Rightarrow> bool" where
  "ptl_wf p \<longleftrightarrow> length (subLayerPTL p) = 6 \<and> length (subLayerProfilePresentFlag p) = 6
     \<and> length (subLayerLevelPresentFlag p) = 6"

definition sub_layer_ok :: "ptl \<Rightarrow> nat \<Rightarrow> bool" where
  "sub_layer_ok p i \<longleftrightarrow> (subLayerProfilePresentFlag p ! i \<longrightarrow> profile_tier_ok (subLayerPTL p ! i))
     \<and> (subLayerLevelPresentFlag p ! i \<longrightarrow> level_ok (subLayerPTL p ! i))"

definition ptl_ok :: "nat \<Rightarrow> ptl \<Rightarrow> bool" where
  "ptl_ok n p \<longleftrightarrow> ptl_wf p \<and> n \<le> 6 \<and> profile_tier_ok (generalPTL p) \<and> level_ok (generalPTL p)
     \<and> (\<forall>i<n. sub_layer_ok p i)"

definition sub_layer_received :: "ptl \<Rightarrow> ptl \<Rightarrow> nat \<Rightarrow> profile_tier_level" where
  "sub_layer_received q p i =
     (let r = (if subLayerProfilePresentFlag p ! i then profile_tier_received (subLayerPTL q ! i) (subLayerPTL p ! i)
               else subLayerPTL q ! i)
      in if subLayerLevelPresentFlag p ! i then r\<lparr>levelIdc := levelIdc (subLayerPTL p ! i)\<rparr> else r)"

definition ptl_received :: "nat \<Rightarrow> ptl \<Rightarrow> ptl \<Rightarrow> ptl" where
  "ptl_received n q p = q\<lparr>
     generalPTL := (profile_tier_received (generalPTL q) (generalPTL p))\<lparr>levelIdc := levelIdc (generalPTL p)\<rparr>,
     subLayerProfilePresentFlag := overlay n (subLayerProfilePresentFlag p) (subLayerProfilePresentFlag q),
     subLayerLevelPresentFlag := overlay n (subLayerLevelPresentFlag p) (subLayerLevelPresentFlag q),
     subLayerPTL := overlay n (map (sub_layer_received q p) [0..<6]) (subLayerPTL q)\<rparr>"

lemma codes_level: "level_ok p \<Longrightarrow> vlc.codes (xWriteCode (to_u32 (levelIdc p)) 8)
    (\<lambda>t. xReadCode 8 t \<bind> (\<lambda>(uiCode, s). Some (q\<lparr>levelIdc := to_i32 uiCode\<rparr>, s))) (q\<lparr>levelIdc := levelIdc p\<rparr>)"
  by (rule end_code) (simp_all add: level_ok_def nat_less_iff)

lemma codes_sub_layer_flags:
  assumes "ptl_wf p" "ptl_wf q" "n \<le> 6"
  shows "vlc.codes (for_loop (code_sub_layer_flags p) [0..<n]) (read_loop parse_sub_layer_flags [0..<n] q)
    (q\<lparr>subLayerProfilePresentFlag := overlay n (subLayerProfilePresentFlag p) (subLayerProfilePresentFlag q),
       subLayerLevelPresentFlag := overlay n (subLayerLevelPresentFlag p) (subLayerLevelPresentFlag q)\<rparr>)"
proof -
  let ?X = "\<lambda>k. q\<lparr>subLayerProfilePresentFlag := overlay k (subLayerProfilePresentFlag p) (subLayerProfilePresentFlag q),
       subLayerLevelPresentFlag := overlay k (subLayerLevelPresentFlag p) (subLayerLevelPresentFlag q)\<rparr>"
  have "vlc.codes (code_sub_layer_flags p k) (parse_sub_layer_flags k (?X k)) (?X (Suc k))" if "k < n" for k
  proof -
    have k: "k < 6" using that assms(3) by simp
    have g: "arr_get (subLayerProfilePresentFlag p) k = Some (subLayerProfilePresentFlag p ! k)"
      "arr_get (subLayerLevelPresentFlag p) k = Some (subLayerLevelPresentFlag p ! k)"
      using k assms(1) by (simp_all add: ptl_wf_def)
    have u: "arr_set (overlay k (subLayerProfilePresentFlag p) (subLayerProfilePresentFlag q)) k (subLayerProfilePresentFlag p ! k)
        = Some (overlay (Suc k) (subLayerProfilePresentFlag p) (subLayerProfilePresentFlag q))"
      "arr_set (overlay k (subLayerLevelPresentFlag p) (subLayerLevelPresentFlag q)) k (subLayerLevelPresentFlag p ! k)
        = Some (overlay (Suc k) (subLayerLevelPresentFlag p) (subLayerLevelPresentFlag q))"
      using k assms(1,2) by (simp_all only: ptl_wf_def arr_overlay)
    show ?thesis
      unfolding code_sub_layer_flags_def parse_sub_layer_flags_def Let_def g bind.bind_lunit
      by (intro step_flag, simp add: u del: arr_set_Some split del: split_of_bool)
        (rule vlc.codes_bind_end [OF codes_flag_bool], simp add: u vlc.codes_return del: arr_set_Some)
  qed
  from vlc.codes_read_upt [of n "code_sub_layer_flags p" parse_sub_layer_flags ?X, OF this] show ?thesis by simp
qed

lemma codes_sub_layer_one:
  assumes "sub_layer_ok p k" "ptl_wf p" "length qs = 6" "k < 6"
    and q: "subLayerProfilePresentFlag q ! k = subLayerProfilePresentFlag p ! k"
      "subLayerLevelPresentFlag q ! k = subLayerLevelPresentFlag p ! k" "ptl_wf q" "qs ! k = subLayerPTL q0 ! k"
  shows "vlc.codes (code_sub_layer p k) (parse_sub_layer k (q\<lparr>subLayerPTL := qs\<rparr>))
    (q\<lparr>subLayerPTL := qs[k := sub_layer_received q0 p k]\<rparr>)"
proof -
  let ?b = "subLayerProfilePresentFlag p ! k" and ?l = "subLayerLevelPresentFlag p ! k"
  have g: "arr_get (subLayerProfilePresentFlag p) k = Some ?b" "arr_get (subLayerLevelPresentFlag p) k = Some ?l"
    "arr_get (subLayerPTL p) k = Some (subLayerPTL p ! k)"
    "arr_get (subLayerProfilePresentFlag (q\<lparr>subLayerPTL := qs\<rparr>)) k = Some ?b"
    "arr_get (subLayerLevelPresentFlag (q\<lparr>subLayerPTL := qs\<rparr>)) k = Some ?l"
    "arr_get (subLayerPTL (q\<lparr>subLayerPTL := qs\<rparr>)) k = Some (subLayerPTL q0 ! k)"
    using assms by (simp_all add: ptl_wf_def)
  show ?thesis
    unfolding code_sub_layer_def parse_sub_layer_def g bind.bind_lunit
    apply (rule vlc.codes_bind [where x = "if ?b then profile_tier_received (subLayerPTL q0 ! k) (subLayerPTL p ! k)
        else subLayerPTL q0 ! k"])
     apply (rule vlc.codes_if [OF refl])
      apply (use assms(1) in \<open>simp add: codes_profile_tier sub_layer_ok_def\<close>)
     apply (rule vlc.codes_return, simp)
    apply (rule vlc.codes_bind_end [where x = "sub_layer_received q0 p k"])
     apply (rule vlc.codes_if [OF refl])
      apply (rule vlc.codes_cong [OF codes_level])
         apply (use assms(1) in \<open>simp_all add: sub_layer_ok_def sub_layer_received_def Let_def vlc.codes_return\<close>)
    apply (use assms(3,4) in \<open>simp add: vlc.codes_return\<close>)
    done
qed

lemma codes_sub_layers:
  assumes "\<forall>i<n. sub_layer_ok p i" "ptl_wf p" "ptl_wf q" "n \<le> 6"
    and q: "\<forall>i<n. subLayerProfilePresentFlag q ! i = subLayerProfilePresentFlag p ! i
      \<and> subLayerLevelPresentFlag q ! i = subLayerLevelPresentFlag p ! i" "subLayerPTL q = subLayerPTL q0"
  shows "vlc.codes (for_loop (code_sub_layer p) [0..<n]) (read_loop parse_sub_layer [0..<n] q)
    (q\<lparr>subLayerPTL := overlay n (map (sub_layer_received q0 p) [0..<6]) (subLayerPTL q0)\<rparr>)"
proof -
  let ?src = "map (sub_layer_received q0 p) [0..<6]"
  let ?X = "\<lambda>k. q\<lparr>subLayerPTL := overlay k ?src (subLayerPTL q0)\<rparr>"
  have l: "length ?src = length (subLayerPTL q0)" using assms(3) q(2) by (simp add: ptl_wf_def)
  have "vlc.codes (code_sub_layer p k) (parse_sub_layer k (?X k)) (?X (Suc k))" if k: "k < n" for k
  proof -
    have "overlay (Suc k) ?src (subLayerPTL q0) = (overlay k ?src (subLayerPTL q0))[k := sub_layer_received q0 p k]"
      using overlay_Suc [OF l, of k] k assms(4) l by (simp del: upt_Suc)
    moreover have "overlay k ?src (subLayerPTL q0) ! k = subLayerPTL q0 ! k"
      using l k assms(4) by (simp add: nth_overlay)
    ultimately show ?thesis
      using codes_sub_layer_one [of p k "overlay k ?src (subLayerPTL q0)" q q0] assms k l by simp
  qed
  from vlc.codes_read_upt [of n "code_sub_layer p" parse_sub_layer ?X, OF this]
  have "vlc.codes (for_loop (code_sub_layer p) [0..<n]) (read_loop parse_sub_layer [0..<n] (q\<lparr>subLayerPTL := subLayerPTL q0\<rparr>))
      (?X n)" by simp
  moreover have "q\<lparr>subLayerPTL := subLayerPTL q0\<rparr> = q" by (simp add: q(2) [symmetric])
  ultimately show ?thesis by simp
qed

lemma codes_reserved_pairs: "vlc.codes (for_loop (\<lambda>i. xWriteCode 0 2) [n..<m])
    (read_loop (\<lambda>i x s. xReadCode 2 s \<bind> (\<lambda>(uiCode, s). check_not (uiCode \<noteq> 0) \<bind> (\<lambda>_. Some (x, s)))) [n..<m] ()) ()"
  by (rule vlc.codes_read_loop [where X = "\<lambda>_. ()"]) (rule vlc.codes_bind_end [OF codes_code], simp_all add: vlc.codes_return)

lemma codes_PTL:
  assumes "ptl_ok n p" "ptl_wf q"
  shows "vlc.codes (codePTL p True (int n)) (parsePTL q True (int n)) (ptl_received n q p)"
proof -
  have ok: "ptl_wf p" "n \<le> 6" "profile_tier_ok (generalPTL p)" "level_ok (generalPTL p)" "\<forall>i<n. sub_layer_ok p i"
    using assms(1) by (simp_all add: ptl_ok_def)
  have lvl: "to_u32 (levelIdc (generalPTL p)) < 2 ^ 8" "to_i32 (to_u32 (levelIdc (generalPTL p))) = levelIdc (generalPTL p)"
    using ok(4) by (simp_all add: level_ok_def nat_less_iff)
  let ?g = "(profile_tier_received (generalPTL q) (generalPTL p))\<lparr>levelIdc := levelIdc (generalPTL p)\<rparr>"
  let ?q = "q\<lparr>generalPTL := ?g,
     subLayerProfilePresentFlag := overlay n (subLayerProfilePresentFlag p) (subLayerProfilePresentFlag q),
     subLayerLevelPresentFlag := overlay n (subLayerLevelPresentFlag p) (subLayerLevelPresentFlag q)\<rparr>"
  have wf: "ptl_wf (q\<lparr>generalPTL := ?g\<rparr>)" "ptl_wf ?q" using assms(2) ok(1) by (simp_all add: ptl_wf_def)
  have same: "\<forall>i<n. subLayerProfilePresentFlag ?q ! i = subLayerProfilePresentFlag p ! i
      \<and> subLayerLevelPresentFlag ?q ! i = subLayerLevelPresentFlag p ! i"
    using ok(1,2) assms(2) by (simp add: ptl_wf_def nth_overlay)
  have flags: "vlc.codes (for_loop (code_sub_layer_flags p) [0..<n])
      (read_loop parse_sub_layer_flags [0..<n] (q\<lparr>generalPTL := ?g\<rparr>)) ?q"
    using codes_sub_layer_flags [OF ok(1) wf(1) ok(2)] by simp
  have n: "nat (int n) = n" by simp
  show ?thesis
    unfolding codePTL_def parsePTL_def Let_def if_True n
    apply (rule vlc.codes_bind [OF codes_profile_tier [OF ok(3)]])
    apply (rule step_code)
       apply simp_all[2]
     apply (rule lvl(1))
    apply (simp only: lvl(2))
    apply (rule vlc.codes_bind [OF flags])
    apply (rule vlc.codes_bind)
     apply (rule vlc.codes_if [OF refl codes_reserved_pairs])
     apply (rule vlc.codes_return, rule refl)
    apply (rule vlc.codes_cong [OF codes_sub_layers [OF ok(5,1) wf(2) ok(2) same, of q]])
       apply (simp_all add: ptl_received_def)
    done
qed

end
