(* ===== verification/VideoUsability.thy ===== *)
theory VideoUsability
  imports ProfileTier "HOL-Library.Signed_Division"
begin

text \<open>
  Video usability information: classes \<open>Window\<close>, \<open>TimingInfo\<close>, \<open>HRD\<close> and \<open>VUI\<close> of \<open>CommonLib/Slice.h\<close>,
  \<open>HLSWriter::codeVUI\<close>, \<open>codeHrdParameters\<close> and \<open>HLSyntaxReader::parseVUI\<close>, \<open>parseHrdParameters\<close>.
\<close>

section \<open>Windows\<close>

record window =
  win_enabledFlag :: bool
  winLeftOffset :: int
  winRightOffset :: int
  winTopOffset :: int
  winBottomOffset :: int

definition Window :: window where
  "Window = \<lparr>win_enabledFlag = False, winLeftOffset = 0, winRightOffset = 0, winTopOffset = 0, winBottomOffset = 0\<rparr>"

definition getWindowLeftOffset :: "window \<Rightarrow> int" where
  "getWindowLeftOffset w = (if win_enabledFlag w then winLeftOffset w else 0)"

definition getWindowRightOffset :: "window \<Rightarrow> int" where
  "getWindowRightOffset w = (if win_enabledFlag w then winRightOffset w else 0)"

definition getWindowTopOffset :: "window \<Rightarrow> int" where
  "getWindowTopOffset w = (if win_enabledFlag w then winTopOffset w else 0)"

definition getWindowBottomOffset :: "window \<Rightarrow> int" where
  "getWindowBottomOffset w = (if win_enabledFlag w then winBottomOffset w else 0)"

definition setWindowLeftOffset :: "int \<Rightarrow> window \<Rightarrow> window" where
  "setWindowLeftOffset v w = w\<lparr>winLeftOffset := v, win_enabledFlag := True\<rparr>"

definition setWindowRightOffset :: "int \<Rightarrow> window \<Rightarrow> window" where
  "setWindowRightOffset v w = w\<lparr>winRightOffset := v, win_enabledFlag := True\<rparr>"

definition setWindowTopOffset :: "int \<Rightarrow> window \<Rightarrow> window" where
  "setWindowTopOffset v w = w\<lparr>winTopOffset := v, win_enabledFlag := True\<rparr>"

definition setWindowBottomOffset :: "int \<Rightarrow> window \<Rightarrow> window" where
  "setWindowBottomOffset v w = w\<lparr>winBottomOffset := v, win_enabledFlag := True\<rparr>"

definition winUnitX :: "int list" where "winUnitX = [1, 2, 2, 1]"
definition winUnitY :: "int list" where "winUnitY = [1, 2, 1, 1]"

definition getWinUnitX :: "nat \<Rightarrow> int option" where
  "getWinUnitX chromaFormatIdc = do { check_not (chromaFormatIdc \<ge> 4); arr_get winUnitX chromaFormatIdc }"

definition getWinUnitY :: "nat \<Rightarrow> int option" where
  "getWinUnitY chromaFormatIdc = do { check_not (chromaFormatIdc \<ge> 4); arr_get winUnitY chromaFormatIdc }"

text \<open>The four offsets of a window in chroma units; the division of the source truncates towards zero.\<close>

definition code_window :: "window \<Rightarrow> nat \<Rightarrow> obs \<Rightarrow> obs option" where
  "code_window w fmt s = do {
     x \<leftarrow> getWinUnitX fmt;
     y \<leftarrow> getWinUnitY fmt;
     s \<leftarrow> xWriteUvlc (to_u32 (getWindowLeftOffset w sdiv x)) s;
     s \<leftarrow> xWriteUvlc (to_u32 (getWindowRightOffset w sdiv x)) s;
     s \<leftarrow> xWriteUvlc (to_u32 (getWindowTopOffset w sdiv y)) s;
     xWriteUvlc (to_u32 (getWindowBottomOffset w sdiv y)) s
   }"

definition parse_window :: "window \<Rightarrow> nat \<Rightarrow> ibs \<Rightarrow> (window \<times> ibs) option" where
  "parse_window w fmt s = do {
     x \<leftarrow> getWinUnitX fmt;
     y \<leftarrow> getWinUnitY fmt;
     (uiCode, s) \<leftarrow> xReadUvlc s;
     let w = setWindowLeftOffset (to_i32 (to_u32 (int uiCode * x))) w;
     (uiCode, s) \<leftarrow> xReadUvlc s;
     let w = setWindowRightOffset (to_i32 (to_u32 (int uiCode * x))) w;
     (uiCode, s) \<leftarrow> xReadUvlc s;
     let w = setWindowTopOffset (to_i32 (to_u32 (int uiCode * y))) w;
     (uiCode, s) \<leftarrow> xReadUvlc s;
     Some (setWindowBottomOffset (to_i32 (to_u32 (int uiCode * y))) w, s)
   }"

section \<open>Hypothetical reference decoder\<close>

definition MAX_CPB_CNT :: nat where "MAX_CPB_CNT = 32"

text \<open>The arrays \<open>[MAX_CPB_CNT][2]\<close> are lists of pairs; the second index says NAL or VCL.\<close>

record hrd_cpb =
  bitRateValueMinus1 :: nat
  cpbSizeValue :: nat
  ducpbSizeValue :: nat
  duBitRateValue :: nat
  cbrFlag :: bool

record hrd_sub_layer =
  fixedPicRateFlag :: bool
  fixedPicRateWithinCvsFlag :: bool
  picDurationInTcMinus1 :: nat
  lowDelayHrdFlag :: bool
  cpbCntMinus1 :: nat
  cpbNal :: "hrd_cpb list"
  cpbVcl :: "hrd_cpb list"

record hrd =
  nalHrdParametersPresentFlag :: bool
  vclHrdParametersPresentFlag :: bool
  subPicCpbParamsPresentFlag :: bool
  tickDivisorMinus2 :: nat
  duCpbRemovalDelayLengthMinus1 :: nat
  subPicCpbParamsInPicTimingSEIFlag :: bool
  dpbOutputDelayDuLengthMinus1 :: nat
  bitRateScale :: nat
  cpbSizeScale :: nat
  ducpbSizeScale :: nat
  initialCpbRemovalDelayLengthMinus1 :: nat
  cpbRemovalDelayLengthMinus1 :: nat
  dpbOutputDelayLengthMinus1 :: nat
  HRD_layers :: "hrd_sub_layer list"

text \<open>The constructor sets nothing of the sub-layers and not the scale \<open>ducpbSizeScale\<close>.\<close>

definition HRD :: "hrd \<Rightarrow> hrd" where
  "HRD m = m\<lparr>nalHrdParametersPresentFlag := False, vclHrdParametersPresentFlag := False,
     subPicCpbParamsPresentFlag := False, tickDivisorMinus2 := 0, duCpbRemovalDelayLengthMinus1 := 0,
     subPicCpbParamsInPicTimingSEIFlag := False, dpbOutputDelayDuLengthMinus1 := 0, bitRateScale := 0, cpbSizeScale := 0,
     initialCpbRemovalDelayLengthMinus1 := 23, cpbRemovalDelayLengthMinus1 := 23, dpbOutputDelayLengthMinus1 := 23\<rparr>"

definition code_hrd_du :: "hrd \<Rightarrow> obs \<Rightarrow> obs option" where
  "code_hrd_du h s = do {
     s \<leftarrow> xWriteCode (tickDivisorMinus2 h) 8 s;
     s \<leftarrow> xWriteCode (duCpbRemovalDelayLengthMinus1 h) 5 s;
     s \<leftarrow> xWriteFlag (of_bool (subPicCpbParamsInPicTimingSEIFlag h)) s;
     xWriteCode (dpbOutputDelayDuLengthMinus1 h) 5 s
   }"

definition code_hrd_common :: "hrd \<Rightarrow> obs \<Rightarrow> obs option" where
  "code_hrd_common h s = do {
     s \<leftarrow> xWriteFlag (of_bool (nalHrdParametersPresentFlag h)) s;
     s \<leftarrow> xWriteFlag (of_bool (vclHrdParametersPresentFlag h)) s;
     if nalHrdParametersPresentFlag h \<or> vclHrdParametersPresentFlag h then do {
       s \<leftarrow> xWriteFlag (of_bool (subPicCpbParamsPresentFlag h)) s;
       s \<leftarrow> (if subPicCpbParamsPresentFlag h then code_hrd_du h s else Some s);
       s \<leftarrow> xWriteCode (bitRateScale h) 4 s;
       s \<leftarrow> xWriteCode (cpbSizeScale h) 4 s;
       s \<leftarrow> (if subPicCpbParamsPresentFlag h then xWriteCode (ducpbSizeScale h) 4 s else Some s);
       s \<leftarrow> xWriteCode (initialCpbRemovalDelayLengthMinus1 h) 5 s;
       s \<leftarrow> xWriteCode (cpbRemovalDelayLengthMinus1 h) 5 s;
       xWriteCode (dpbOutputDelayLengthMinus1 h) 5 s
     } else Some s
   }"

definition code_cpb :: "bool \<Rightarrow> hrd_cpb list \<Rightarrow> nat \<Rightarrow> obs \<Rightarrow> obs option" where
  "code_cpb sub cs j s = do {
     c \<leftarrow> arr_get cs j;
     s \<leftarrow> xWriteUvlc (bitRateValueMinus1 c) s;
     s \<leftarrow> xWriteUvlc (cpbSizeValue c) s;
     s \<leftarrow> (if sub then do {
              s \<leftarrow> xWriteUvlc (ducpbSizeValue c) s;
              xWriteUvlc (duBitRateValue c) s
            } else Some s);
     xWriteFlag (of_bool (cbrFlag c)) s
   }"

definition code_hrd_layer_head :: "hrd_sub_layer \<Rightarrow> obs \<Rightarrow> obs option" where
  "code_hrd_layer_head l s = do {
     s \<leftarrow> xWriteFlag (of_bool (fixedPicRateFlag l)) s;
     s \<leftarrow> (if \<not> fixedPicRateFlag l then xWriteFlag (of_bool (fixedPicRateWithinCvsFlag l)) s else Some s);
     let fixedPixRateWithinCvsFlag = (if \<not> fixedPicRateFlag l then fixedPicRateWithinCvsFlag l else True);
     s \<leftarrow> (if fixedPixRateWithinCvsFlag then xWriteUvlc (picDurationInTcMinus1 l) s
            else xWriteFlag (of_bool (lowDelayHrdFlag l)) s);
     if \<not> lowDelayHrdFlag l then xWriteUvlc (cpbCntMinus1 l) s else Some s
   }"

definition code_hrd_layer :: "hrd \<Rightarrow> nat \<Rightarrow> obs \<Rightarrow> obs option" where
  "code_hrd_layer h i s = do {
     l \<leftarrow> arr_get (HRD_layers h) i;
     s \<leftarrow> code_hrd_layer_head l s;
     s \<leftarrow> (if nalHrdParametersPresentFlag h
            then for_loop (code_cpb (subPicCpbParamsPresentFlag h) (cpbNal l)) [0..<cpbCntMinus1 l + 1] s else Some s);
     if vclHrdParametersPresentFlag h
     then for_loop (code_cpb (subPicCpbParamsPresentFlag h) (cpbVcl l)) [0..<cpbCntMinus1 l + 1] s else Some s
   }"

definition codeHrdParameters :: "hrd \<Rightarrow> bool \<Rightarrow> nat \<Rightarrow> obs \<Rightarrow> obs option" where
  "codeHrdParameters h commonInfPresentFlag maxNumSubLayersMinus1 s = do {
     s \<leftarrow> (if commonInfPresentFlag then code_hrd_common h s else Some s);
     for_loop (code_hrd_layer h) [0..<maxNumSubLayersMinus1 + 1] s
   }"

definition parse_hrd_du :: "hrd \<Rightarrow> ibs \<Rightarrow> (hrd \<times> ibs) option" where
  "parse_hrd_du h s = do {
     (uiCode, s) \<leftarrow> xReadCode 8 s;
     let h = h\<lparr>tickDivisorMinus2 := uiCode\<rparr>;
     (uiCode, s) \<leftarrow> xReadCode 5 s;
     let h = h\<lparr>duCpbRemovalDelayLengthMinus1 := uiCode\<rparr>;
     (uiCode, s) \<leftarrow> xReadFlag s;
     let h = h\<lparr>subPicCpbParamsInPicTimingSEIFlag := (uiCode = 1)\<rparr>;
     (uiCode, s) \<leftarrow> xReadCode 5 s;
     Some (h\<lparr>dpbOutputDelayDuLengthMinus1 := uiCode\<rparr>, s)
   }"

definition parse_hrd_common :: "hrd \<Rightarrow> ibs \<Rightarrow> (hrd \<times> ibs) option" where
  "parse_hrd_common h s = do {
     (uiCode, s) \<leftarrow> xReadFlag s;
     let h = h\<lparr>nalHrdParametersPresentFlag := (uiCode = 1)\<rparr>;
     (uiCode, s) \<leftarrow> xReadFlag s;
     let h = h\<lparr>vclHrdParametersPresentFlag := (uiCode = 1)\<rparr>;
     if nalHrdParametersPresentFlag h \<or> vclHrdParametersPresentFlag h then do {
       (uiCode, s) \<leftarrow> xReadFlag s;
       let h = h\<lparr>subPicCpbParamsPresentFlag := (uiCode = 1)\<rparr>;
       (h, s) \<leftarrow> (if subPicCpbParamsPresentFlag h then parse_hrd_du h s else Some (h, s));
       (uiCode, s) \<leftarrow> xReadCode 4 s;
       let h = h\<lparr>bitRateScale := uiCode\<rparr>;
       (uiCode, s) \<leftarrow> xReadCode 4 s;
       let h = h\<lparr>cpbSizeScale := uiCode\<rparr>;
       (h, s) \<leftarrow> (if subPicCpbParamsPresentFlag h then do {
           (uiCode, s) \<leftarrow> xReadCode 4 s;
           Some (h\<lparr>ducpbSizeScale := uiCode\<rparr>, s)
         } else Some (h, s));
       (uiCode, s) \<leftarrow> xReadCode 5 s;
       let h = h\<lparr>initialCpbRemovalDelayLengthMinus1 := uiCode\<rparr>;
       (uiCode, s) \<leftarrow> xReadCode 5 s;
       let h = h\<lparr>cpbRemovalDelayLengthMinus1 := uiCode\<rparr>;
       (uiCode, s) \<leftarrow> xReadCode 5 s;
       Some (h\<lparr>dpbOutputDelayLengthMinus1 := uiCode\<rparr>, s)
     } else Some (h, s)
   }"

definition parse_cpb :: "bool \<Rightarrow> nat \<Rightarrow> hrd_cpb list \<Rightarrow> ibs \<Rightarrow> (hrd_cpb list \<times> ibs) option" where
  "parse_cpb sub j cs s = do {
     c \<leftarrow> arr_get cs j;
     (uiCode, s) \<leftarrow> xReadUvlc s;
     let c = c\<lparr>bitRateValueMinus1 := uiCode\<rparr>;
     (uiCode, s) \<leftarrow> xReadUvlc s;
     let c = c\<lparr>cpbSizeValue := uiCode\<rparr>;
     (c, s) \<leftarrow> (if sub then do {
         (uiCode, s) \<leftarrow> xReadUvlc s;
         let c = c\<lparr>ducpbSizeValue := uiCode\<rparr>;
         (uiCode, s) \<leftarrow> xReadUvlc s;
         Some (c\<lparr>duBitRateValue := uiCode\<rparr>, s)
       } else Some (c, s));
     (uiCode, s) \<leftarrow> xReadFlag s;
     cs \<leftarrow> arr_set cs j (c\<lparr>cbrFlag := (uiCode = 1)\<rparr>);
     Some (cs, s)
   }"

definition parse_hrd_layer_head :: "hrd_sub_layer \<Rightarrow> ibs \<Rightarrow> (hrd_sub_layer \<times> ibs) option" where
  "parse_hrd_layer_head l s = do {
     (uiCode, s) \<leftarrow> xReadFlag s;
     let l = l\<lparr>fixedPicRateFlag := (uiCode = 1)\<rparr>;
     (l, s) \<leftarrow> (if \<not> fixedPicRateFlag l then do {
         (uiCode, s) \<leftarrow> xReadFlag s;
         Some (l\<lparr>fixedPicRateWithinCvsFlag := (uiCode = 1)\<rparr>, s)
       } else Some (l\<lparr>fixedPicRateWithinCvsFlag := True\<rparr>, s));
     let l = l\<lparr>lowDelayHrdFlag := False, cpbCntMinus1 := 0\<rparr>;
     (l, s) \<leftarrow> (if fixedPicRateWithinCvsFlag l then do {
         (uiCode, s) \<leftarrow> xReadUvlc s;
         Some (l\<lparr>picDurationInTcMinus1 := uiCode\<rparr>, s)
       } else do {
         (uiCode, s) \<leftarrow> xReadFlag s;
         Some (l\<lparr>lowDelayHrdFlag := (uiCode = 1)\<rparr>, s)
       });
     if \<not> lowDelayHrdFlag l then do {
       (uiCode, s) \<leftarrow> xReadUvlc s;
       Some (l\<lparr>cpbCntMinus1 := uiCode\<rparr>, s)
     } else Some (l, s)
   }"

definition parse_hrd_layer :: "nat \<Rightarrow> hrd \<Rightarrow> ibs \<Rightarrow> (hrd \<times> ibs) option" where
  "parse_hrd_layer i h s = do {
     l \<leftarrow> arr_get (HRD_layers h) i;
     (l, s) \<leftarrow> parse_hrd_layer_head l s;
     (cs, s) \<leftarrow> (if nalHrdParametersPresentFlag h
       then read_loop (parse_cpb (subPicCpbParamsPresentFlag h)) [0..<cpbCntMinus1 l + 1] (cpbNal l) s
       else Some (cpbNal l, s));
     let l = l\<lparr>cpbNal := cs\<rparr>;
     (cs, s) \<leftarrow> (if vclHrdParametersPresentFlag h
       then read_loop (parse_cpb (subPicCpbParamsPresentFlag h)) [0..<cpbCntMinus1 l + 1] (cpbVcl l) s
       else Some (cpbVcl l, s));
     ls \<leftarrow> arr_set (HRD_layers h) i (l\<lparr>cpbVcl := cs\<rparr>);
     Some (h\<lparr>HRD_layers := ls\<rparr>, s)
   }"

definition parseHrdParameters :: "hrd \<Rightarrow> bool \<Rightarrow> nat \<Rightarrow> ibs \<Rightarrow> (hrd \<times> ibs) option" where
  "parseHrdParameters h commonInfPresentFlag maxNumSubLayersMinus1 s = do {
     (h, s) \<leftarrow> (if commonInfPresentFlag then parse_hrd_common h s else Some (h, s));
     read_loop parse_hrd_layer [0..<maxNumSubLayersMinus1 + 1] h s
   }"

section \<open>Round trips of windows and hypothetical reference decoders\<close>

definition window_ok :: "nat \<Rightarrow> window \<Rightarrow> bool" where
  "window_ok fmt w \<longleftrightarrow> fmt < 4 \<and> win_enabledFlag w
     \<and> 0 \<le> winLeftOffset w \<and> winLeftOffset w < 2 ^ 31 - 1 \<and> winUnitX ! fmt dvd winLeftOffset w
     \<and> 0 \<le> winRightOffset w \<and> winRightOffset w < 2 ^ 31 - 1 \<and> winUnitX ! fmt dvd winRightOffset w
     \<and> 0 \<le> winTopOffset w \<and> winTopOffset w < 2 ^ 31 - 1 \<and> winUnitY ! fmt dvd winTopOffset w
     \<and> 0 \<le> winBottomOffset w \<and> winBottomOffset w < 2 ^ 31 - 1 \<and> winUnitY ! fmt dvd winBottomOffset w"

lemma win_units: "fmt < 4 \<Longrightarrow> winUnitX ! fmt \<in> {1, 2} \<and> winUnitY ! fmt \<in> {1, 2}"
  by (auto simp: winUnitX_def winUnitY_def less_Suc_eq numeral_eq_Suc nth_Cons')

lemma window_offset:
  assumes "0 \<le> v" "v < 2 ^ 31 - 1" "u dvd v" "u \<in> {1, 2}"
  shows "to_u32 (v sdiv u) < 2 ^ 31 - 1" "to_i32 (to_u32 (int (to_u32 (v sdiv u)) * u)) = v"
proof -
  have q: "v sdiv u = v div u" using assms(1,4) by (auto simp: signed_divide_int_def sgn_if)
  have r: "0 \<le> v div u" "v div u \<le> v" using assms(1,4) by auto
  then have n: "to_u32 (v div u) = nat (v div u)" using assms(2) by simp
  show "to_u32 (v sdiv u) < 2 ^ 31 - 1" unfolding q n using r assms(2) by simp
  show "to_i32 (to_u32 (int (to_u32 (v sdiv u)) * u)) = v"
    unfolding q n using r assms by simp
qed

lemma codes_window:
  assumes "window_ok fmt w"
  shows "vlc.codes (code_window w fmt) (parse_window w0 fmt) w"
proof -
  let ?x = "winUnitX ! fmt" and ?y = "winUnitY ! fmt"
  have f: "fmt < 4" using assms by (simp add: window_ok_def)
  have u: "?x \<in> {1, 2}" "?y \<in> {1, 2}" using win_units [OF f] by auto
  have g: "getWinUnitX fmt = Some ?x" "getWinUnitY fmt = Some ?y"
    using f by (simp_all add: getWinUnitX_def getWinUnitY_def winUnitX_def winUnitY_def)
  have off: "getWindowLeftOffset w = winLeftOffset w" "getWindowRightOffset w = winRightOffset w"
    "getWindowTopOffset w = winTopOffset w" "getWindowBottomOffset w = winBottomOffset w"
    using assms by (simp_all add: window_ok_def getWindowLeftOffset_def getWindowRightOffset_def
        getWindowTopOffset_def getWindowBottomOffset_def)
  have l: "to_u32 (winLeftOffset w sdiv ?x) < 2 ^ 31 - 1" "to_i32 (to_u32 (int (to_u32 (winLeftOffset w sdiv ?x)) * ?x)) = winLeftOffset w"
    and r: "to_u32 (winRightOffset w sdiv ?x) < 2 ^ 31 - 1" "to_i32 (to_u32 (int (to_u32 (winRightOffset w sdiv ?x)) * ?x)) = winRightOffset w"
    and t: "to_u32 (winTopOffset w sdiv ?y) < 2 ^ 31 - 1" "to_i32 (to_u32 (int (to_u32 (winTopOffset w sdiv ?y)) * ?y)) = winTopOffset w"
    and b: "to_u32 (winBottomOffset w sdiv ?y) < 2 ^ 31 - 1" "to_i32 (to_u32 (int (to_u32 (winBottomOffset w sdiv ?y)) * ?y)) = winBottomOffset w"
    using window_offset [OF _ _ _ u(1)] window_offset [OF _ _ _ u(2)] assms unfolding window_ok_def by blast+
  show ?thesis
    unfolding code_window_def parse_window_def Let_def g bind.bind_lunit off
    apply (intro step_uvlc end_uvlc)
        apply (rule l r t b)+
    apply (unfold l r t b)
    apply (use assms in \<open>simp add: window_ok_def setWindowLeftOffset_def setWindowRightOffset_def
        setWindowTopOffset_def setWindowBottomOffset_def\<close>)
    done
qed

definition cpb_ok :: "hrd_cpb \<Rightarrow> bool" where
  "cpb_ok c \<longleftrightarrow> bitRateValueMinus1 c < 2 ^ 31 - 1 \<and> cpbSizeValue c < 2 ^ 31 - 1
     \<and> ducpbSizeValue c < 2 ^ 31 - 1 \<and> duBitRateValue c < 2 ^ 31 - 1"

definition hrd_layer_ok :: "hrd_sub_layer \<Rightarrow> bool" where
  "hrd_layer_ok l \<longleftrightarrow> cpbCntMinus1 l < 32 \<and> length (cpbNal l) = 32 \<and> length (cpbVcl l) = 32
     \<and> list_all cpb_ok (cpbNal l) \<and> list_all cpb_ok (cpbVcl l) \<and> picDurationInTcMinus1 l < 2 ^ 31 - 1
     \<and> (fixedPicRateFlag l \<longrightarrow> fixedPicRateWithinCvsFlag l)
     \<and> (fixedPicRateWithinCvsFlag l \<longrightarrow> \<not> lowDelayHrdFlag l)
     \<and> (lowDelayHrdFlag l \<longrightarrow> cpbCntMinus1 l = 0)"

definition hrd_layer_wf :: "hrd_sub_layer \<Rightarrow> bool" where
  "hrd_layer_wf l \<longleftrightarrow> length (cpbNal l) = 32 \<and> length (cpbVcl l) = 32"

definition hrd_ok :: "nat \<Rightarrow> hrd \<Rightarrow> bool" where
  "hrd_ok n h \<longleftrightarrow> tickDivisorMinus2 h < 2 ^ 8 \<and> duCpbRemovalDelayLengthMinus1 h < 2 ^ 5
     \<and> dpbOutputDelayDuLengthMinus1 h < 2 ^ 5 \<and> bitRateScale h < 2 ^ 4 \<and> cpbSizeScale h < 2 ^ 4
     \<and> ducpbSizeScale h < 2 ^ 4 \<and> initialCpbRemovalDelayLengthMinus1 h < 2 ^ 5
     \<and> cpbRemovalDelayLengthMinus1 h < 2 ^ 5 \<and> dpbOutputDelayLengthMinus1 h < 2 ^ 5
     \<and> length (HRD_layers h) = 7 \<and> n < 7 \<and> (\<forall>i\<le>n. hrd_layer_ok (HRD_layers h ! i))"

definition hrd_wf :: "hrd \<Rightarrow> bool" where
  "hrd_wf h \<longleftrightarrow> length (HRD_layers h) = 7 \<and> list_all hrd_layer_wf (HRD_layers h)"

definition hrd_common_received :: "hrd \<Rightarrow> hrd \<Rightarrow> hrd" where
  "hrd_common_received h0 h =
     (let p = (nalHrdParametersPresentFlag h \<or> vclHrdParametersPresentFlag h);
          d = (p \<and> subPicCpbParamsPresentFlag h)
      in h0\<lparr>nalHrdParametersPresentFlag := nalHrdParametersPresentFlag h,
            vclHrdParametersPresentFlag := vclHrdParametersPresentFlag h,
            subPicCpbParamsPresentFlag := subPicCpbParamsPresentFlag (if p then h else h0),
            tickDivisorMinus2 := tickDivisorMinus2 (if d then h else h0),
            duCpbRemovalDelayLengthMinus1 := duCpbRemovalDelayLengthMinus1 (if d then h else h0),
            subPicCpbParamsInPicTimingSEIFlag := subPicCpbParamsInPicTimingSEIFlag (if d then h else h0),
            dpbOutputDelayDuLengthMinus1 := dpbOutputDelayDuLengthMinus1 (if d then h else h0),
            bitRateScale := bitRateScale (if p then h else h0),
            cpbSizeScale := cpbSizeScale (if p then h else h0),
            ducpbSizeScale := ducpbSizeScale (if d then h else h0),
            initialCpbRemovalDelayLengthMinus1 := initialCpbRemovalDelayLengthMinus1 (if p then h else h0),
            cpbRemovalDelayLengthMinus1 := cpbRemovalDelayLengthMinus1 (if p then h else h0),
            dpbOutputDelayLengthMinus1 := dpbOutputDelayLengthMinus1 (if p then h else h0)\<rparr>)"

lemma codes_hrd_du:
  assumes "hrd_ok n h"
  shows "vlc.codes (code_hrd_du h) (parse_hrd_du h0) (h0\<lparr>tickDivisorMinus2 := tickDivisorMinus2 h,
     duCpbRemovalDelayLengthMinus1 := duCpbRemovalDelayLengthMinus1 h,
     subPicCpbParamsInPicTimingSEIFlag := subPicCpbParamsInPicTimingSEIFlag h,
     dpbOutputDelayDuLengthMinus1 := dpbOutputDelayDuLengthMinus1 h\<rparr>)"
  unfolding code_hrd_du_def parse_hrd_du_def Let_def
  by (intro codec_intro) (use assms in \<open>simp_all add: hrd_ok_def\<close>)

lemma codes_hrd_common:
  assumes "hrd_ok n h"
  shows "vlc.codes (code_hrd_common h) (parse_hrd_common h0) (hrd_common_received h0 h)"
proof -
  have r: "tickDivisorMinus2 h < 2 ^ 8" "bitRateScale h < 2 ^ 4" "cpbSizeScale h < 2 ^ 4" "ducpbSizeScale h < 2 ^ 4"
    "initialCpbRemovalDelayLengthMinus1 h < 2 ^ 5"
    "cpbRemovalDelayLengthMinus1 h < 2 ^ 5" "dpbOutputDelayLengthMinus1 h < 2 ^ 5"
    using assms by (simp_all add: hrd_ok_def)
  show ?thesis
    unfolding code_hrd_common_def parse_hrd_common_def Let_def
    apply (rule step_flag)+
    apply (rule end_opt)
      apply simp
     apply (rule step_flag step_code step_opt codes_hrd_du [OF assms] end_code r | (simp; fail))+
    apply (auto simp: hrd_common_received_def Let_def)
    done
qed

definition cpb_received :: "bool \<Rightarrow> hrd_cpb \<Rightarrow> hrd_cpb \<Rightarrow> hrd_cpb" where
  "cpb_received sub c0 c = c\<lparr>ducpbSizeValue := ducpbSizeValue (if sub then c else c0),
     duBitRateValue := duBitRateValue (if sub then c else c0)\<rparr>"

definition cpbs_received :: "bool \<Rightarrow> hrd_cpb list \<Rightarrow> hrd_cpb list \<Rightarrow> hrd_cpb list" where
  "cpbs_received sub cs0 cs = map2 (cpb_received sub) cs0 cs"

lemma codes_cpb:
  assumes "length src = 32" "list_all cpb_ok src" "j < 32" "length cs = 32" "cs ! j = old ! j" "length old = 32"
  shows "vlc.codes (code_cpb sub src j) (parse_cpb sub j cs) (cs[j := cpbs_received sub old src ! j])"
proof -
  have g: "arr_get src j = Some (src ! j)" "arr_get cs j = Some (old ! j)" using assms by simp_all
  have r: "bitRateValueMinus1 (src ! j) < 2 ^ 31 - 1" "cpbSizeValue (src ! j) < 2 ^ 31 - 1"
    "ducpbSizeValue (src ! j) < 2 ^ 31 - 1" "duBitRateValue (src ! j) < 2 ^ 31 - 1"
    using assms(1-3) by (simp_all add: list_all_length cpb_ok_def)
  have e: "cpbs_received sub old src ! j = cpb_received sub (old ! j) (src ! j)"
    using assms by (simp add: cpbs_received_def)
  show ?thesis
    unfolding code_cpb_def parse_cpb_def Let_def g bind.bind_lunit e
    apply (rule codec_rules r | (simp; fail))+
    apply (rule vlc.codes_bind_end [OF codes_flag_bool])
    apply (subst arr_set_Some, use assms(3,4) in simp)
    apply (unfold bind.bind_lunit)
    apply (rule vlc.codes_return, rule arg_cong [where f = "\<lambda>c. cs[j := c]"])
    apply (rule hrd_cpb.equality)
         apply (simp_all add: cpb_received_def)
    done
qed

lemma codes_cpbs:
  assumes "length src = 32" "list_all cpb_ok src" "n \<le> 32" "length old = 32"
  shows "vlc.codes (for_loop (code_cpb sub src) [0..<n]) (read_loop (parse_cpb sub) [0..<n] old)
    (overlay n (cpbs_received sub old src) old)"
proof -
  let ?src = "cpbs_received sub old src"
  have l: "length ?src = length old" using assms by (simp add: cpbs_received_def)
  have "vlc.codes (code_cpb sub src k) (parse_cpb sub k (overlay k ?src old)) (overlay (Suc k) ?src old)" if "k < n" for k
  proof -
    have "k < 32" "overlay k ?src old ! k = old ! k" using that assms l by (simp_all add: nth_overlay)
    with codes_cpb [OF assms(1,2), of k "overlay k ?src old" old sub] assms l overlay_Suc [OF l, of k]
    show ?thesis by simp
  qed
  from vlc.codes_read_upt [of n "code_cpb sub src" "parse_cpb sub" "\<lambda>k. overlay k ?src old", OF this]
  show ?thesis by simp
qed

definition hrd_layer_received :: "hrd \<Rightarrow> hrd_sub_layer \<Rightarrow> hrd_sub_layer \<Rightarrow> hrd_sub_layer" where
  "hrd_layer_received h l0 l = l\<lparr>
     picDurationInTcMinus1 := picDurationInTcMinus1 (if fixedPicRateWithinCvsFlag l then l else l0),
     cpbNal := (if nalHrdParametersPresentFlag h
       then overlay (cpbCntMinus1 l + 1) (cpbs_received (subPicCpbParamsPresentFlag h) (cpbNal l0) (cpbNal l)) (cpbNal l0)
       else cpbNal l0),
     cpbVcl := (if vclHrdParametersPresentFlag h
       then overlay (cpbCntMinus1 l + 1) (cpbs_received (subPicCpbParamsPresentFlag h) (cpbVcl l0) (cpbVcl l)) (cpbVcl l0)
       else cpbVcl l0)\<rparr>"

lemma codes_hrd_layer:
  assumes "hrd_layer_ok (HRD_layers h ! i)" "length (HRD_layers h) = 7" "i < 7" "length ls = 7"
    "hrd_layer_wf (l0 ! i)" "ls ! i = l0 ! i"
    and h0: "nalHrdParametersPresentFlag h0 = nalHrdParametersPresentFlag h"
      "vclHrdParametersPresentFlag h0 = vclHrdParametersPresentFlag h"
      "nalHrdParametersPresentFlag h \<or> vclHrdParametersPresentFlag h \<Longrightarrow> subPicCpbParamsPresentFlag h0 = subPicCpbParamsPresentFlag h"
  shows "vlc.codes (code_hrd_layer h i) (parse_hrd_layer i (h0\<lparr>HRD_layers := ls\<rparr>))
    (h0\<lparr>HRD_layers := ls[i := hrd_layer_received h (l0 ! i) (HRD_layers h ! i)]\<rparr>)"
proof -
  let ?l = "HRD_layers h ! i"
  let ?h = "\<lparr>fixedPicRateFlag = fixedPicRateFlag ?l, fixedPicRateWithinCvsFlag = fixedPicRateWithinCvsFlag ?l,
    picDurationInTcMinus1 = picDurationInTcMinus1 (if fixedPicRateWithinCvsFlag ?l then ?l else l0 ! i),
    lowDelayHrdFlag = lowDelayHrdFlag ?l, cpbCntMinus1 = cpbCntMinus1 ?l,
    cpbNal = cpbNal (l0 ! i), cpbVcl = cpbVcl (l0 ! i)\<rparr>"
  have g: "arr_get (HRD_layers h) i = Some ?l" "arr_get (HRD_layers (h0\<lparr>HRD_layers := ls\<rparr>)) i = Some (l0 ! i)"
    using assms by simp_all
  have ok: "picDurationInTcMinus1 ?l < 2 ^ 31 - 1" "cpbCntMinus1 ?l < 2 ^ 31 - 1" "cpbCntMinus1 ?l + 1 \<le> 32"
    "length (cpbNal ?l) = 32" "length (cpbVcl ?l) = 32" "list_all cpb_ok (cpbNal ?l)" "list_all cpb_ok (cpbVcl ?l)"
    using assms(1) by (simp_all add: hrd_layer_ok_def)
  have l0: "length (cpbNal (l0 ! i)) = 32" "length (cpbVcl (l0 ! i)) = 32" using assms(5) by (simp_all add: hrd_layer_wf_def)
  have upd: "h0\<lparr>HRD_layers := ls\<rparr>\<lparr>HRD_layers := (HRD_layers (h0\<lparr>HRD_layers := ls\<rparr>))[i := a]\<rparr> = h0\<lparr>HRD_layers := ls[i := b]\<rparr>"
    if "a = b" for a b using that by simp
  have fl: "(if \<not> fixedPicRateFlag ?l then fixedPicRateWithinCvsFlag ?l else True) = fixedPicRateWithinCvsFlag ?l"
    using assms(1) by (simp add: hrd_layer_ok_def)
  have head: "vlc.codes (code_hrd_layer_head ?l) (parse_hrd_layer_head (l0 ! i)) ?h"
    unfolding code_hrd_layer_head_def parse_hrd_layer_head_def Let_def fl
    apply (rule step_flag)
    apply (rule vlc.codes_bind [where x = "(l0 ! i)\<lparr>fixedPicRateFlag := fixedPicRateFlag ?l,
        fixedPicRateWithinCvsFlag := fixedPicRateWithinCvsFlag ?l\<rparr>"])
     apply (rule vlc.codes_if, simp)
      apply (rule end_flag, simp)
     apply (rule vlc.codes_return)
     apply (use assms(1) in \<open>simp add: hrd_layer_ok_def\<close>)
    apply (rule vlc.codes_bind [where x = "?h\<lparr>cpbCntMinus1 := 0\<rparr>"])
     apply (rule vlc.codes_if, simp)
      apply (rule end_uvlc, rule ok(1))
      apply (rule hrd_sub_layer.equality; use assms(1) in \<open>simp add: hrd_layer_ok_def\<close>)
     apply (rule end_flag)
     apply (rule hrd_sub_layer.equality; simp)
    apply (rule end_opt, simp)
     apply (rule end_uvlc, rule ok(2), rule refl)
    apply (use assms(1) in \<open>simp add: hrd_layer_ok_def\<close>)
    done
  show ?thesis
    unfolding code_hrd_layer_def parse_hrd_layer_def Let_def g bind.bind_lunit
    apply (rule vlc.codes_bind [OF head])
    apply (rule step_opt)
      apply (simp add: h0)
     apply (rule vlc.codes_cong [OF codes_cpbs [OF ok(4,6,3) l0(1)]])
       apply (simp_all add: h0(3))[3]
    apply (rule vlc.codes_bind_end)
     apply (rule end_opt)
       apply (simp add: h0)
      apply (rule vlc.codes_cong [OF codes_cpbs [OF ok(5,7,3) l0(2)]])
        apply (simp_all add: h0(3))[3]
     apply (rule refl)
    apply (subst arr_set_Some)
     apply (use assms in simp)
    apply (unfold bind.bind_lunit)
    apply (rule vlc.codes_return)
    apply (rule upd, rule hrd_sub_layer.equality)
           apply (simp_all add: hrd_layer_received_def)
    done
qed

definition hrd_received :: "nat \<Rightarrow> hrd \<Rightarrow> hrd \<Rightarrow> hrd" where
  "hrd_received n h0 h = (hrd_common_received h0 h)
     \<lparr>HRD_layers := overlay (n + 1) (map2 (hrd_layer_received h) (HRD_layers h0) (HRD_layers h)) (HRD_layers h0)\<rparr>"

lemma codes_HRD:
  assumes "hrd_ok n h" "hrd_wf h0"
  shows "vlc.codes (codeHrdParameters h True n) (parseHrdParameters h0 True n) (hrd_received n h0 h)"
proof -
  let ?src = "map2 (hrd_layer_received h) (HRD_layers h0) (HRD_layers h)"
  let ?h = "hrd_common_received h0 h"
  let ?X = "\<lambda>k. ?h\<lparr>HRD_layers := overlay k ?src (HRD_layers h0)\<rparr>"
  have len: "length (HRD_layers h) = 7" "length (HRD_layers h0) = 7" "n < 7" "\<forall>i\<le>n. hrd_layer_ok (HRD_layers h ! i)"
    "list_all hrd_layer_wf (HRD_layers h0)"
    using assms by (simp_all add: hrd_ok_def hrd_wf_def)
  have l: "length ?src = length (HRD_layers h0)" using len by simp
  have h: "nalHrdParametersPresentFlag ?h = nalHrdParametersPresentFlag h" "vclHrdParametersPresentFlag ?h = vclHrdParametersPresentFlag h"
    "nalHrdParametersPresentFlag h \<or> vclHrdParametersPresentFlag h \<Longrightarrow> subPicCpbParamsPresentFlag ?h = subPicCpbParamsPresentFlag h"
    "HRD_layers ?h = HRD_layers h0"
    by (auto simp: hrd_common_received_def Let_def)
  have "vlc.codes (code_hrd_layer h k) (parse_hrd_layer k (?X k)) (?X (Suc k))" if k: "k < n + 1" for k
  proof -
    have "hrd_layer_wf (HRD_layers h0 ! k)" using len(2,3,5) k by (simp add: list_all_length)
    moreover have "?src ! k = hrd_layer_received h (HRD_layers h0 ! k) (HRD_layers h ! k)" using len k by simp
    moreover have "overlay k ?src (HRD_layers h0) ! k = HRD_layers h0 ! k" using l len k by (simp add: nth_overlay)
    ultimately show ?thesis
      using codes_hrd_layer [of h k "overlay k ?src (HRD_layers h0)" "HRD_layers h0" ?h] overlay_Suc [OF l, of k] len k l h(1-3)
      by simp
  qed
  from vlc.codes_read_upt [of "n + 1" "code_hrd_layer h" parse_hrd_layer ?X, OF this]
  have loop: "vlc.codes (for_loop (code_hrd_layer h) [0..<n + 1])
      (read_loop parse_hrd_layer [0..<n + 1] (?h\<lparr>HRD_layers := HRD_layers h0\<rparr>)) (?X (n + 1))"
    by (simp del: upt_Suc)
  have "?h\<lparr>HRD_layers := HRD_layers h0\<rparr> = ?h" using h(4) [symmetric] by simp
  with loop show ?thesis
    unfolding codeHrdParameters_def parseHrdParameters_def if_True
    by (intro vlc.codes_bind [OF codes_hrd_common [OF assms(1)]]) (simp add: hrd_received_def del: upt_Suc)
qed

section \<open>Video usability information\<close>

record timing_info =
  timingInfoPresentFlag :: bool
  numUnitsInTick :: nat
  timeScale :: nat
  pocProportionalToTimingFlag :: bool
  numTicksPocDiffOneMinus1 :: int

record vui =
  aspectRatioInfoPresentFlag :: bool
  aspectRatioIdc :: int
  sarWidth :: int
  sarHeight :: int
  overscanInfoPresentFlag :: bool
  overscanAppropriateFlag :: bool
  videoSignalTypePresentFlag :: bool
  videoFormat :: int
  videoFullRangeFlag :: bool
  colourDescriptionPresentFlag :: bool
  colourPrimaries :: int
  transferCharacteristics :: int
  matrixCoefficients :: int
  chromaLocInfoPresentFlag :: bool
  chromaSampleLocTypeTopField :: int
  chromaSampleLocTypeBottomField :: int
  neutralChromaIndicationFlag :: bool
  fieldSeqFlag :: bool
  defaultDisplayWindow :: window
  frameFieldInfoPresentFlag :: bool
  hrdParametersPresentFlag :: bool
  bitstreamRestrictionFlag :: bool
  motionVectorsOverPicBoundariesFlag :: bool
  restrictedRefPicListsFlag :: bool
  minSpatialSegmentationIdc :: int
  maxBytesPerPicDenom :: int
  maxBitsPerMinCuDenom :: int
  log2MaxMvLengthHorizontal :: int
  log2MaxMvLengthVertical :: int
  hrdParameters :: hrd
  timingInfo :: timing_info

definition TimingInfo :: timing_info where
  "TimingInfo = \<lparr>timingInfoPresentFlag = False, numUnitsInTick = 1001, timeScale = 60000,
     pocProportionalToTimingFlag = False, numTicksPocDiffOneMinus1 = 0\<rparr>"

definition VUI :: "vui \<Rightarrow> vui" where
  "VUI m = \<lparr>aspectRatioInfoPresentFlag = False, aspectRatioIdc = 0, sarWidth = 0, sarHeight = 0,
     overscanInfoPresentFlag = False, overscanAppropriateFlag = False, videoSignalTypePresentFlag = False,
     videoFormat = 5, videoFullRangeFlag = False, colourDescriptionPresentFlag = False, colourPrimaries = 2,
     transferCharacteristics = 2, matrixCoefficients = 2, chromaLocInfoPresentFlag = False,
     chromaSampleLocTypeTopField = 0, chromaSampleLocTypeBottomField = 0, neutralChromaIndicationFlag = False,
     fieldSeqFlag = False, defaultDisplayWindow = Window, frameFieldInfoPresentFlag = False,
     hrdParametersPresentFlag = False, bitstreamRestrictionFlag = False, motionVectorsOverPicBoundariesFlag = True,
     restrictedRefPicListsFlag = True, minSpatialSegmentationIdc = 0, maxBytesPerPicDenom = 2,
     maxBitsPerMinCuDenom = 1, log2MaxMvLengthHorizontal = 15, log2MaxMvLengthVertical = 15,
     hrdParameters = HRD (hrdParameters m), timingInfo = TimingInfo\<rparr>"

subsection \<open>Writer\<close>

definition code_aspect_ratio :: "vui \<Rightarrow> obs \<Rightarrow> obs option" where
  "code_aspect_ratio v s = do {
     s \<leftarrow> xWriteFlag (of_bool (aspectRatioInfoPresentFlag v)) s;
     if aspectRatioInfoPresentFlag v then do {
       s \<leftarrow> xWriteCode (to_u32 (aspectRatioIdc v)) 8 s;
       if aspectRatioIdc v = 255 then do {
         s \<leftarrow> xWriteCode (to_u32 (sarWidth v)) 16 s;
         xWriteCode (to_u32 (sarHeight v)) 16 s
       } else Some s
     } else Some s
   }"

definition code_video_signal :: "vui \<Rightarrow> obs \<Rightarrow> obs option" where
  "code_video_signal v s = do {
     s \<leftarrow> xWriteFlag (of_bool (overscanInfoPresentFlag v)) s;
     s \<leftarrow> (if overscanInfoPresentFlag v then xWriteFlag (of_bool (overscanAppropriateFlag v)) s else Some s);
     s \<leftarrow> xWriteFlag (of_bool (videoSignalTypePresentFlag v)) s;
     if videoSignalTypePresentFlag v then do {
       s \<leftarrow> xWriteCode (to_u32 (videoFormat v)) 3 s;
       s \<leftarrow> xWriteFlag (of_bool (videoFullRangeFlag v)) s;
       s \<leftarrow> xWriteFlag (of_bool (colourDescriptionPresentFlag v)) s;
       if colourDescriptionPresentFlag v then do {
         s \<leftarrow> xWriteCode (to_u32 (colourPrimaries v)) 8 s;
         s \<leftarrow> xWriteCode (to_u32 (transferCharacteristics v)) 8 s;
         xWriteCode (to_u32 (matrixCoefficients v)) 8 s
       } else Some s
     } else Some s
   }"

definition code_chroma_loc :: "vui \<Rightarrow> obs \<Rightarrow> obs option" where
  "code_chroma_loc v s = do {
     s \<leftarrow> xWriteFlag (of_bool (chromaLocInfoPresentFlag v)) s;
     s \<leftarrow> (if chromaLocInfoPresentFlag v then do {
              s \<leftarrow> xWriteUvlc (to_u32 (chromaSampleLocTypeTopField v)) s;
              xWriteUvlc (to_u32 (chromaSampleLocTypeBottomField v)) s
            } else Some s);
     s \<leftarrow> xWriteFlag (of_bool (neutralChromaIndicationFlag v)) s;
     s \<leftarrow> xWriteFlag (of_bool (fieldSeqFlag v)) s;
     xWriteFlag (of_bool (frameFieldInfoPresentFlag v)) s
   }"

definition code_default_window :: "vui \<Rightarrow> nat \<Rightarrow> obs \<Rightarrow> obs option" where
  "code_default_window v fmt s = do {
     let w = defaultDisplayWindow v;
     s \<leftarrow> xWriteFlag (of_bool (win_enabledFlag w)) s;
     if win_enabledFlag w then code_window w fmt s else Some s
   }"

definition code_timing_info :: "timing_info \<Rightarrow> obs \<Rightarrow> obs option" where
  "code_timing_info t s = do {
     s \<leftarrow> xWriteCode (numUnitsInTick t) 32 s;
     s \<leftarrow> xWriteCode (timeScale t) 32 s;
     s \<leftarrow> xWriteFlag (of_bool (pocProportionalToTimingFlag t)) s;
     if pocProportionalToTimingFlag t then xWriteUvlc (to_u32 (numTicksPocDiffOneMinus1 t)) s else Some s
   }"

definition code_vui_timing :: "vui \<Rightarrow> nat \<Rightarrow> obs \<Rightarrow> obs option" where
  "code_vui_timing v maxSubLayers s = do {
     s \<leftarrow> xWriteFlag (of_bool (timingInfoPresentFlag (timingInfo v))) s;
     if timingInfoPresentFlag (timingInfo v) then do {
       s \<leftarrow> code_timing_info (timingInfo v) s;
       s \<leftarrow> xWriteFlag (of_bool (hrdParametersPresentFlag v)) s;
       if hrdParametersPresentFlag v then codeHrdParameters (hrdParameters v) True (sub32 maxSubLayers 1) s else Some s
     } else Some s
   }"

definition code_restriction :: "vui \<Rightarrow> obs \<Rightarrow> obs option" where
  "code_restriction v s = do {
     s \<leftarrow> xWriteFlag (of_bool (bitstreamRestrictionFlag v)) s;
     if bitstreamRestrictionFlag v then do {
       s \<leftarrow> xWriteFlag (of_bool (motionVectorsOverPicBoundariesFlag v)) s;
       s \<leftarrow> xWriteFlag (of_bool (restrictedRefPicListsFlag v)) s;
       s \<leftarrow> xWriteUvlc (to_u32 (minSpatialSegmentationIdc v)) s;
       s \<leftarrow> xWriteUvlc (to_u32 (maxBytesPerPicDenom v)) s;
       s \<leftarrow> xWriteUvlc (to_u32 (maxBitsPerMinCuDenom v)) s;
       s \<leftarrow> xWriteUvlc (to_u32 (log2MaxMvLengthHorizontal v)) s;
       xWriteUvlc (to_u32 (log2MaxMvLengthVertical v)) s
     } else Some s
   }"

definition codeVUI :: "vui \<Rightarrow> nat \<Rightarrow> nat \<Rightarrow> obs \<Rightarrow> obs option" where
  "codeVUI v chromaFormat maxSubLayers s = do {
     s \<leftarrow> code_aspect_ratio v s;
     s \<leftarrow> code_video_signal v s;
     s \<leftarrow> code_chroma_loc v s;
     s \<leftarrow> code_default_window v chromaFormat s;
     s \<leftarrow> code_vui_timing v maxSubLayers s;
     code_restriction v s
   }"

subsection \<open>Parser\<close>

definition parse_aspect_ratio :: "vui \<Rightarrow> ibs \<Rightarrow> (vui \<times> ibs) option" where
  "parse_aspect_ratio v s = do {
     (uiCode, s) \<leftarrow> xReadFlag s;
     let v = v\<lparr>aspectRatioInfoPresentFlag := (uiCode \<noteq> 0)\<rparr>;
     if aspectRatioInfoPresentFlag v then do {
       (uiCode, s) \<leftarrow> xReadCode 8 s;
       let v = v\<lparr>aspectRatioIdc := to_i32 uiCode\<rparr>;
       if aspectRatioIdc v = 255 then do {
         (uiCode, s) \<leftarrow> xReadCode 16 s;
         let v = v\<lparr>sarWidth := to_i32 uiCode\<rparr>;
         (uiCode, s) \<leftarrow> xReadCode 16 s;
         Some (v\<lparr>sarHeight := to_i32 uiCode\<rparr>, s)
       } else Some (v, s)
     } else Some (v, s)
   }"

definition parse_video_signal :: "vui \<Rightarrow> ibs \<Rightarrow> (vui \<times> ibs) option" where
  "parse_video_signal v s = do {
     (uiCode, s) \<leftarrow> xReadFlag s;
     let v = v\<lparr>overscanInfoPresentFlag := (uiCode \<noteq> 0)\<rparr>;
     (v, s) \<leftarrow> (if overscanInfoPresentFlag v then do {
         (uiCode, s) \<leftarrow> xReadFlag s;
         Some (v\<lparr>overscanAppropriateFlag := (uiCode \<noteq> 0)\<rparr>, s)
       } else Some (v, s));
     (uiCode, s) \<leftarrow> xReadFlag s;
     let v = v\<lparr>videoSignalTypePresentFlag := (uiCode \<noteq> 0)\<rparr>;
     if videoSignalTypePresentFlag v then do {
       (uiCode, s) \<leftarrow> xReadCode 3 s;
       let v = v\<lparr>videoFormat := to_i32 uiCode\<rparr>;
       (uiCode, s) \<leftarrow> xReadFlag s;
       let v = v\<lparr>videoFullRangeFlag := (uiCode \<noteq> 0)\<rparr>;
       (uiCode, s) \<leftarrow> xReadFlag s;
       let v = v\<lparr>colourDescriptionPresentFlag := (uiCode \<noteq> 0)\<rparr>;
       if colourDescriptionPresentFlag v then do {
         (uiCode, s) \<leftarrow> xReadCode 8 s;
         let v = v\<lparr>colourPrimaries := to_i32 uiCode\<rparr>;
         (uiCode, s) \<leftarrow> xReadCode 8 s;
         let v = v\<lparr>transferCharacteristics := to_i32 uiCode\<rparr>;
         (uiCode, s) \<leftarrow> xReadCode 8 s;
         Some (v\<lparr>matrixCoefficients := to_i32 uiCode\<rparr>, s)
       } else Some (v, s)
     } else Some (v, s)
   }"

definition parse_chroma_loc :: "vui \<Rightarrow> ibs \<Rightarrow> (vui \<times> ibs) option" where
  "parse_chroma_loc v s = do {
     (uiCode, s) \<leftarrow> xReadFlag s;
     let v = v\<lparr>chromaLocInfoPresentFlag := (uiCode \<noteq> 0)\<rparr>;
     (v, s) \<leftarrow> (if chromaLocInfoPresentFlag v then do {
         (uiCode, s) \<leftarrow> xReadUvlc s;
         let v = v\<lparr>chromaSampleLocTypeTopField := to_i32 uiCode\<rparr>;
         (uiCode, s) \<leftarrow> xReadUvlc s;
         Some (v\<lparr>chromaSampleLocTypeBottomField := to_i32 uiCode\<rparr>, s)
       } else Some (v, s));
     (uiCode, s) \<leftarrow> xReadFlag s;
     let v = v\<lparr>neutralChromaIndicationFlag := (uiCode \<noteq> 0)\<rparr>;
     (uiCode, s) \<leftarrow> xReadFlag s;
     let v = v\<lparr>fieldSeqFlag := (uiCode \<noteq> 0)\<rparr>;
     (uiCode, s) \<leftarrow> xReadFlag s;
     Some (v\<lparr>frameFieldInfoPresentFlag := (uiCode \<noteq> 0)\<rparr>, s)
   }"

definition parse_default_window :: "vui \<Rightarrow> nat \<Rightarrow> ibs \<Rightarrow> (vui \<times> ibs) option" where
  "parse_default_window v fmt s = do {
     (uiCode, s) \<leftarrow> xReadFlag s;
     if uiCode \<noteq> 0 then do {
       (w, s) \<leftarrow> parse_window (defaultDisplayWindow v) fmt s;
       Some (v\<lparr>defaultDisplayWindow := w\<rparr>, s)
     } else Some (v, s)
   }"

definition parse_timing_info :: "timing_info \<Rightarrow> ibs \<Rightarrow> (timing_info \<times> ibs) option" where
  "parse_timing_info t s = do {
     (uiCode, s) \<leftarrow> xReadCode 32 s;
     let t = t\<lparr>numUnitsInTick := uiCode\<rparr>;
     (uiCode, s) \<leftarrow> xReadCode 32 s;
     let t = t\<lparr>timeScale := uiCode\<rparr>;
     (uiCode, s) \<leftarrow> xReadFlag s;
     let t = t\<lparr>pocProportionalToTimingFlag := (uiCode \<noteq> 0)\<rparr>;
     if pocProportionalToTimingFlag t then do {
       (uiCode, s) \<leftarrow> xReadUvlc s;
       Some (t\<lparr>numTicksPocDiffOneMinus1 := to_i32 uiCode\<rparr>, s)
     } else Some (t, s)
   }"

definition parse_vui_timing :: "vui \<Rightarrow> nat \<Rightarrow> ibs \<Rightarrow> (vui \<times> ibs) option" where
  "parse_vui_timing v maxSubLayers s = do {
     (uiCode, s) \<leftarrow> xReadFlag s;
     let v = v\<lparr>timingInfo := (timingInfo v)\<lparr>timingInfoPresentFlag := (uiCode \<noteq> 0)\<rparr>\<rparr>;
     if timingInfoPresentFlag (timingInfo v) then do {
       (t, s) \<leftarrow> parse_timing_info (timingInfo v) s;
       let v = v\<lparr>timingInfo := t\<rparr>;
       (uiCode, s) \<leftarrow> xReadFlag s;
       let v = v\<lparr>hrdParametersPresentFlag := (uiCode \<noteq> 0)\<rparr>;
       if hrdParametersPresentFlag v then do {
         (h, s) \<leftarrow> parseHrdParameters (hrdParameters v) True (sub32 maxSubLayers 1) s;
         Some (v\<lparr>hrdParameters := h\<rparr>, s)
       } else Some (v, s)
     } else Some (v, s)
   }"

definition parse_restriction :: "vui \<Rightarrow> ibs \<Rightarrow> (vui \<times> ibs) option" where
  "parse_restriction v s = do {
     (uiCode, s) \<leftarrow> xReadFlag s;
     let v = v\<lparr>bitstreamRestrictionFlag := (uiCode \<noteq> 0)\<rparr>;
     if bitstreamRestrictionFlag v then do {
       (uiCode, s) \<leftarrow> xReadFlag s;
       let v = v\<lparr>motionVectorsOverPicBoundariesFlag := (uiCode \<noteq> 0)\<rparr>;
       (uiCode, s) \<leftarrow> xReadFlag s;
       let v = v\<lparr>restrictedRefPicListsFlag := (uiCode \<noteq> 0)\<rparr>;
       (uiCode, s) \<leftarrow> xReadUvlc s;
       let v = v\<lparr>minSpatialSegmentationIdc := to_i32 uiCode\<rparr>;
       check_not (uiCode \<ge> 4096);
       (uiCode, s) \<leftarrow> xReadUvlc s;
       let v = v\<lparr>maxBytesPerPicDenom := to_i32 uiCode\<rparr>;
       (uiCode, s) \<leftarrow> xReadUvlc s;
       let v = v\<lparr>maxBitsPerMinCuDenom := to_i32 uiCode\<rparr>;
       (uiCode, s) \<leftarrow> xReadUvlc s;
       let v = v\<lparr>log2MaxMvLengthHorizontal := to_i32 uiCode\<rparr>;
       (uiCode, s) \<leftarrow> xReadUvlc s;
       Some (v\<lparr>log2MaxMvLengthVertical := to_i32 uiCode\<rparr>, s)
     } else Some (v, s)
   }"

definition parseVUI :: "vui \<Rightarrow> nat \<Rightarrow> nat \<Rightarrow> ibs \<Rightarrow> (vui \<times> ibs) option" where
  "parseVUI v chromaFormat maxSubLayers s = do {
     (v, s) \<leftarrow> parse_aspect_ratio v s;
     (v, s) \<leftarrow> parse_video_signal v s;
     (v, s) \<leftarrow> parse_chroma_loc v s;
     (v, s) \<leftarrow> parse_default_window v chromaFormat s;
     (v, s) \<leftarrow> parse_vui_timing v maxSubLayers s;
     parse_restriction v s
   }"

subsection \<open>Round trip\<close>

lemma u32_of_i32: "0 \<le> x \<Longrightarrow> x < 2 ^ 31 - 1 \<Longrightarrow> to_u32 x < 2 ^ 31 - 1" "0 \<le> x \<Longrightarrow> x < 2 ^ 31 - 1 \<Longrightarrow> to_i32 (to_u32 x) = x"
  by (simp_all add: nat_less_iff)

lemma u32_of_field: "0 \<le> x \<Longrightarrow> x < 2 ^ n \<Longrightarrow> n < 32 \<Longrightarrow> to_u32 x < 2 ^ n"
  "0 \<le> x \<Longrightarrow> x < 2 ^ n \<Longrightarrow> n < 32 \<Longrightarrow> to_i32 (to_u32 x) = x"
proof -
  assume x: "0 \<le> x" "x < 2 ^ n" "n < 32"
  have "(2 :: int) ^ n \<le> 2 ^ 31" using x(3) by (intro power_increasing) auto
  with x have "x < 2 ^ 31" by linarith
  with x show "to_u32 x < 2 ^ n" "to_i32 (to_u32 x) = x" by (simp_all add: nat_less_iff)
qed

definition vui_ok :: "nat \<Rightarrow> nat \<Rightarrow> vui \<Rightarrow> bool" where
  "vui_ok fmt layers v \<longleftrightarrow> 0 \<le> aspectRatioIdc v \<and> aspectRatioIdc v < 2 ^ 8
     \<and> 0 \<le> sarWidth v \<and> sarWidth v < 2 ^ 16 \<and> 0 \<le> sarHeight v \<and> sarHeight v < 2 ^ 16
     \<and> 0 \<le> videoFormat v \<and> videoFormat v < 2 ^ 3
     \<and> 0 \<le> colourPrimaries v \<and> colourPrimaries v < 2 ^ 8
     \<and> 0 \<le> transferCharacteristics v \<and> transferCharacteristics v < 2 ^ 8
     \<and> 0 \<le> matrixCoefficients v \<and> matrixCoefficients v < 2 ^ 8
     \<and> 0 \<le> chromaSampleLocTypeTopField v \<and> chromaSampleLocTypeTopField v < 2 ^ 31 - 1
     \<and> 0 \<le> chromaSampleLocTypeBottomField v \<and> chromaSampleLocTypeBottomField v < 2 ^ 31 - 1
     \<and> (win_enabledFlag (defaultDisplayWindow v) \<longrightarrow> window_ok fmt (defaultDisplayWindow v))
     \<and> numUnitsInTick (timingInfo v) < 2 ^ 32 \<and> timeScale (timingInfo v) < 2 ^ 32
     \<and> 0 \<le> numTicksPocDiffOneMinus1 (timingInfo v) \<and> numTicksPocDiffOneMinus1 (timingInfo v) < 2 ^ 31 - 1
     \<and> (timingInfoPresentFlag (timingInfo v) \<and> hrdParametersPresentFlag v \<longrightarrow> hrd_ok (layers - 1) (hrdParameters v))
     \<and> 0 < layers \<and> layers < 8
     \<and> 0 \<le> minSpatialSegmentationIdc v \<and> minSpatialSegmentationIdc v < 4096
     \<and> 0 \<le> maxBytesPerPicDenom v \<and> maxBytesPerPicDenom v < 2 ^ 31 - 1
     \<and> 0 \<le> maxBitsPerMinCuDenom v \<and> maxBitsPerMinCuDenom v < 2 ^ 31 - 1
     \<and> 0 \<le> log2MaxMvLengthHorizontal v \<and> log2MaxMvLengthHorizontal v < 2 ^ 31 - 1
     \<and> 0 \<le> log2MaxMvLengthVertical v \<and> log2MaxMvLengthVertical v < 2 ^ 31 - 1"

lemma codes_aspect_ratio:
  assumes "vui_ok fmt layers v"
  shows "vlc.codes (code_aspect_ratio v) (parse_aspect_ratio v0)
    (let p = aspectRatioInfoPresentFlag v; e = p \<and> aspectRatioIdc v = 255
     in v0\<lparr>aspectRatioInfoPresentFlag := p, aspectRatioIdc := aspectRatioIdc (if p then v else v0),
           sarWidth := sarWidth (if e then v else v0), sarHeight := sarHeight (if e then v else v0)\<rparr>)"
proof -
  have r: "0 \<le> aspectRatioIdc v" "aspectRatioIdc v < 2 ^ 8" "0 \<le> sarWidth v" "sarWidth v < 2 ^ 16"
    "0 \<le> sarHeight v" "sarHeight v < 2 ^ 16"
    using assms by (simp_all add: vui_ok_def)
  note u = u32_of_field [OF r(1,2)] u32_of_field [OF r(3,4)] u32_of_field [OF r(5,6)]
  show ?thesis
    unfolding code_aspect_ratio_def parse_aspect_ratio_def Let_def
    by (rule codec_rules u | (simp add: u; fail))+
qed

lemma codes_video_signal:
  assumes "vui_ok fmt layers v"
  shows "vlc.codes (code_video_signal v) (parse_video_signal v0)
    (let p = videoSignalTypePresentFlag v; c = p \<and> colourDescriptionPresentFlag v
     in v0\<lparr>overscanInfoPresentFlag := overscanInfoPresentFlag v,
           overscanAppropriateFlag := overscanAppropriateFlag (if overscanInfoPresentFlag v then v else v0),
           videoSignalTypePresentFlag := p, videoFormat := videoFormat (if p then v else v0),
           videoFullRangeFlag := videoFullRangeFlag (if p then v else v0),
           colourDescriptionPresentFlag := colourDescriptionPresentFlag (if p then v else v0),
           colourPrimaries := colourPrimaries (if c then v else v0),
           transferCharacteristics := transferCharacteristics (if c then v else v0),
           matrixCoefficients := matrixCoefficients (if c then v else v0)\<rparr>)"
proof -
  have r: "0 \<le> videoFormat v" "videoFormat v < 2 ^ 3" "0 \<le> colourPrimaries v" "colourPrimaries v < 2 ^ 8"
    "0 \<le> transferCharacteristics v" "transferCharacteristics v < 2 ^ 8"
    "0 \<le> matrixCoefficients v" "matrixCoefficients v < 2 ^ 8"
    using assms by (simp_all add: vui_ok_def)
  note u = u32_of_field [OF r(1,2)] u32_of_field [OF r(3,4)] u32_of_field [OF r(5,6)] u32_of_field [OF r(7,8)]
  show ?thesis
    unfolding code_video_signal_def parse_video_signal_def Let_def
    by (rule codec_rules u | (simp add: u; fail))+
qed

lemma codes_chroma_loc:
  assumes "vui_ok fmt layers v"
  shows "vlc.codes (code_chroma_loc v) (parse_chroma_loc v0)
    (let p = chromaLocInfoPresentFlag v
     in v0\<lparr>chromaLocInfoPresentFlag := p,
           chromaSampleLocTypeTopField := chromaSampleLocTypeTopField (if p then v else v0),
           chromaSampleLocTypeBottomField := chromaSampleLocTypeBottomField (if p then v else v0),
           neutralChromaIndicationFlag := neutralChromaIndicationFlag v, fieldSeqFlag := fieldSeqFlag v,
           frameFieldInfoPresentFlag := frameFieldInfoPresentFlag v\<rparr>)"
proof -
  have r: "0 \<le> chromaSampleLocTypeTopField v" "chromaSampleLocTypeTopField v < 2 ^ 31 - 1"
    "0 \<le> chromaSampleLocTypeBottomField v" "chromaSampleLocTypeBottomField v < 2 ^ 31 - 1"
    using assms by (simp_all add: vui_ok_def)
  note u = u32_of_i32 [OF r(1,2)] u32_of_i32 [OF r(3,4)]
  show ?thesis
    unfolding code_chroma_loc_def parse_chroma_loc_def Let_def
    by (rule codec_rules u | (simp add: u; fail))+
qed

lemma codes_default_window:
  assumes "vui_ok fmt layers v"
  shows "vlc.codes (code_default_window v fmt) (parse_default_window v0 fmt)
    (v0\<lparr>defaultDisplayWindow := defaultDisplayWindow (if win_enabledFlag (defaultDisplayWindow v) then v else v0)\<rparr>)"
proof -
  have w: "window_ok fmt (defaultDisplayWindow v)" if "win_enabledFlag (defaultDisplayWindow v)"
    using assms that by (simp add: vui_ok_def)
  show ?thesis
    unfolding code_default_window_def parse_default_window_def Let_def
    by (rule step_flag end_opt vlc.codes_bind_end [OF codes_window] w vlc.codes_return | (simp; fail) | assumption)+
qed

lemma codes_timing_info:
  assumes "vui_ok fmt layers v"
  shows "vlc.codes (code_timing_info (timingInfo v)) (parse_timing_info t0)
    (t0\<lparr>numUnitsInTick := numUnitsInTick (timingInfo v), timeScale := timeScale (timingInfo v),
       pocProportionalToTimingFlag := pocProportionalToTimingFlag (timingInfo v),
       numTicksPocDiffOneMinus1 := (if pocProportionalToTimingFlag (timingInfo v)
         then numTicksPocDiffOneMinus1 (timingInfo v) else numTicksPocDiffOneMinus1 t0)\<rparr>)"
proof -
  have r: "0 \<le> numTicksPocDiffOneMinus1 (timingInfo v)" "numTicksPocDiffOneMinus1 (timingInfo v) < 2 ^ 31 - 1"
    "numUnitsInTick (timingInfo v) < 2 ^ 32" "timeScale (timingInfo v) < 2 ^ 32"
    using assms by (simp_all add: vui_ok_def)
  note u = u32_of_i32 [OF r(1,2)]
  show ?thesis
    unfolding code_timing_info_def parse_timing_info_def Let_def
    by (rule codec_rules u r | (simp add: u; fail))+
qed

definition timing_received :: "timing_info \<Rightarrow> timing_info \<Rightarrow> timing_info" where
  "timing_received t0 t = (if timingInfoPresentFlag t then t\<lparr>numTicksPocDiffOneMinus1 :=
       numTicksPocDiffOneMinus1 (if pocProportionalToTimingFlag t then t else t0)\<rparr>
     else t0\<lparr>timingInfoPresentFlag := False\<rparr>)"

lemma codes_vui_timing:
  assumes "vui_ok fmt layers v" "hrd_wf (hrdParameters v0)"
  shows "vlc.codes (code_vui_timing v layers) (parse_vui_timing v0 layers)
    (let p = timingInfoPresentFlag (timingInfo v)
     in v0\<lparr>timingInfo := timing_received (timingInfo v0) (timingInfo v),
           hrdParametersPresentFlag := hrdParametersPresentFlag (if p then v else v0),
           hrdParameters := (if p \<and> hrdParametersPresentFlag v
             then hrd_received (layers - 1) (hrdParameters v0) (hrdParameters v) else hrdParameters v0)\<rparr>)"
proof -
  have timing: "timing_received (timingInfo v0) (timingInfo v) = (if timingInfoPresentFlag (timingInfo v)
      then (timingInfo v0)\<lparr>timingInfoPresentFlag := True, numUnitsInTick := numUnitsInTick (timingInfo v),
        timeScale := timeScale (timingInfo v), pocProportionalToTimingFlag := pocProportionalToTimingFlag (timingInfo v),
        numTicksPocDiffOneMinus1 := (if pocProportionalToTimingFlag (timingInfo v)
         then numTicksPocDiffOneMinus1 (timingInfo v) else numTicksPocDiffOneMinus1 (timingInfo v0))\<rparr>
      else (timingInfo v0)\<lparr>timingInfoPresentFlag := False\<rparr>)"
    by (rule timing_info.equality) (simp_all add: timing_received_def)
  have l: "sub32 layers 1 = layers - 1" using assms(1) by (simp add: vui_ok_def sub32_ge)
  have h: "hrd_ok (layers - 1) (hrdParameters v)" if "timingInfoPresentFlag (timingInfo v)" "hrdParametersPresentFlag v"
    using assms(1) that by (simp add: vui_ok_def)
  have hc: "vlc.codes (codeHrdParameters (hrdParameters v) True (layers - 1))
      (parseHrdParameters (hrdParameters v0) True (layers - 1))
      (hrd_received (layers - 1) (hrdParameters v0) (hrdParameters v))"
    if "timingInfoPresentFlag (timingInfo v)" "hrdParametersPresentFlag v"
    using codes_HRD [OF h [OF that] assms(2)] .
  show ?thesis
    unfolding code_vui_timing_def parse_vui_timing_def Let_def l
    apply (rule step_flag)
    apply (rule end_opt, simp)
     apply (rule vlc.codes_bind [OF codes_timing_info [OF assms(1)]])
     apply (rule step_flag)
     apply (rule end_opt, simp)
      apply (rule vlc.codes_bind_end [where x = "hrd_received (layers - 1) (hrdParameters v0) (hrdParameters v)"])
       apply (rule vlc.codes_cong [OF hc], assumption, assumption, rule refl, simp, rule refl)
      apply (rule vlc.codes_return, rule refl)
     apply (rule refl)
    apply (rule vui.equality)
                        apply (simp_all add: timing)
    done
qed

lemma codes_restriction:
  assumes "vui_ok fmt layers v"
  shows "vlc.codes (code_restriction v) (parse_restriction v0)
    (let p = bitstreamRestrictionFlag v
     in v0\<lparr>bitstreamRestrictionFlag := p,
           motionVectorsOverPicBoundariesFlag := motionVectorsOverPicBoundariesFlag (if p then v else v0),
           restrictedRefPicListsFlag := restrictedRefPicListsFlag (if p then v else v0),
           minSpatialSegmentationIdc := minSpatialSegmentationIdc (if p then v else v0),
           maxBytesPerPicDenom := maxBytesPerPicDenom (if p then v else v0),
           maxBitsPerMinCuDenom := maxBitsPerMinCuDenom (if p then v else v0),
           log2MaxMvLengthHorizontal := log2MaxMvLengthHorizontal (if p then v else v0),
           log2MaxMvLengthVertical := log2MaxMvLengthVertical (if p then v else v0)\<rparr>)"
proof -
  have r: "0 \<le> minSpatialSegmentationIdc v" "minSpatialSegmentationIdc v < 2 ^ 31 - 1"
    "0 \<le> maxBytesPerPicDenom v" "maxBytesPerPicDenom v < 2 ^ 31 - 1"
    "0 \<le> maxBitsPerMinCuDenom v" "maxBitsPerMinCuDenom v < 2 ^ 31 - 1"
    "0 \<le> log2MaxMvLengthHorizontal v" "log2MaxMvLengthHorizontal v < 2 ^ 31 - 1"
    "0 \<le> log2MaxMvLengthVertical v" "log2MaxMvLengthVertical v < 2 ^ 31 - 1"
    using assms by (simp_all add: vui_ok_def)
  note u = u32_of_i32 [OF r(1,2)] u32_of_i32 [OF r(3,4)] u32_of_i32 [OF r(5,6)] u32_of_i32 [OF r(7,8)]
    u32_of_i32 [OF r(9,10)]
  have c: "\<not> 4096 \<le> to_u32 (minSpatialSegmentationIdc v)"
    using assms by (simp add: vui_ok_def nat_less_iff not_le)
  show ?thesis
    unfolding code_restriction_def parse_restriction_def Let_def
    by (rule codec_rules u c | (simp add: u; fail))+
qed

text \<open>What the parser has when it has read everything: the fields that were sent, the others as they were.\<close>

definition vui_received :: "nat \<Rightarrow> vui \<Rightarrow> vui \<Rightarrow> vui" where
  "vui_received layers v0 v =
     (let a = aspectRatioInfoPresentFlag v; e = a \<and> aspectRatioIdc v = 255;
          t = videoSignalTypePresentFlag v; c = t \<and> colourDescriptionPresentFlag v;
          l = chromaLocInfoPresentFlag v; g = timingInfoPresentFlag (timingInfo v); b = bitstreamRestrictionFlag v
      in v\<lparr>aspectRatioIdc := aspectRatioIdc (if a then v else v0),
           sarWidth := sarWidth (if e then v else v0), sarHeight := sarHeight (if e then v else v0),
           overscanAppropriateFlag := overscanAppropriateFlag (if overscanInfoPresentFlag v then v else v0),
           videoFormat := videoFormat (if t then v else v0),
           videoFullRangeFlag := videoFullRangeFlag (if t then v else v0),
           colourDescriptionPresentFlag := colourDescriptionPresentFlag (if t then v else v0),
           colourPrimaries := colourPrimaries (if c then v else v0),
           transferCharacteristics := transferCharacteristics (if c then v else v0),
           matrixCoefficients := matrixCoefficients (if c then v else v0),
           chromaSampleLocTypeTopField := chromaSampleLocTypeTopField (if l then v else v0),
           chromaSampleLocTypeBottomField := chromaSampleLocTypeBottomField (if l then v else v0),
           defaultDisplayWindow := defaultDisplayWindow (if win_enabledFlag (defaultDisplayWindow v) then v else v0),
           timingInfo := timing_received (timingInfo v0) (timingInfo v),
           hrdParametersPresentFlag := hrdParametersPresentFlag (if g then v else v0),
           hrdParameters := (if g \<and> hrdParametersPresentFlag v
             then hrd_received (layers - 1) (hrdParameters v0) (hrdParameters v) else hrdParameters v0),
           motionVectorsOverPicBoundariesFlag := motionVectorsOverPicBoundariesFlag (if b then v else v0),
           restrictedRefPicListsFlag := restrictedRefPicListsFlag (if b then v else v0),
           minSpatialSegmentationIdc := minSpatialSegmentationIdc (if b then v else v0),
           maxBytesPerPicDenom := maxBytesPerPicDenom (if b then v else v0),
           maxBitsPerMinCuDenom := maxBitsPerMinCuDenom (if b then v else v0),
           log2MaxMvLengthHorizontal := log2MaxMvLengthHorizontal (if b then v else v0),
           log2MaxMvLengthVertical := log2MaxMvLengthVertical (if b then v else v0)\<rparr>)"

lemma codes_VUI:
  assumes "vui_ok fmt layers v" "hrd_wf (hrdParameters v0)"
  shows "vlc.codes (codeVUI v fmt layers) (parseVUI v0 fmt layers) (vui_received layers v0 v)"
  unfolding codeVUI_def parseVUI_def
  apply (rule vlc.codes_bind [OF codes_aspect_ratio [OF assms(1)]] vlc.codes_bind [OF codes_video_signal [OF assms(1)]]
      vlc.codes_bind [OF codes_chroma_loc [OF assms(1)]] vlc.codes_bind [OF codes_default_window [OF assms(1)]])+
  apply (rule vlc.codes_bind [OF codes_vui_timing [OF assms(1)]])
   apply (simp add: Let_def assms(2))
  apply (rule vlc.codes_cong [OF codes_restriction [OF assms(1)]], rule refl, rule refl)
  apply (rule vui.equality)
                      apply (simp_all add: vui_received_def Let_def)
  done

end
