(* ===== verification/SpsNext.thy ===== *)
theory SpsNext
  imports VideoUsability
begin

text \<open>
  The extension of the sequence parameter set by the new coding tools: class \<open>SPSNext\<close> of
  \<open>CommonLib/Slice.h\<close>, \<open>HLSWriter::codeSPSNext\<close> and \<open>HLSyntaxReader::parseSPSNext\<close>, in the
  configuration of \<open>TypeDef.h\<close>.

  \<open>SPSNext\<close> has a reference to the \<open>SPS\<close> it belongs to and its parser overwrites three fields there; here
  they are the record \<open>cu_limits\<close>, which the parser takes and returns with the extension.
\<close>

definition MIN_CU_LOG2 :: nat where "MIN_CU_LOG2 = 2"
definition MAX_CU_SIZE :: nat where "MAX_CU_SIZE = 128"
definition MV_STORE_SHIFT :: nat where "MV_STORE_SHIFT = 2"
definition NumReservedFlags :: nat where "NumReservedFlags = 32 - 27"

text \<open>The table of logarithms, filled by the loop of \<open>initROM\<close>; \<open>c\<close> and \<open>n\<close> are its variables.\<close>

definition log2_step :: "nat \<Rightarrow> nat list \<times> nat \<times> nat \<Rightarrow> nat list \<times> nat \<times> nat" where
  "log2_step i = (\<lambda>(tab, c, n). let (c, n) = (if i = push_bit n 1 then (n, n + 1) else (c, n)) in (tab @ [c], c, n))"

definition g_aucLog2 :: "nat list" where
  "g_aucLog2 = fst (fold log2_step [0..<MAX_CU_SIZE + 1] ([], 0, 0))"

definition aucLog2 :: "nat \<Rightarrow> int option" where
  "aucLog2 x = map_option int (arr_get g_aucLog2 x)"

datatype channel_type = CHANNEL_TYPE_LUMA | CHANNEL_TYPE_CHROMA

record sps_next =
  m_NextEnabled :: bool
  m_QTBT :: bool
  m_NSST :: bool
  m_Intra4Tap :: bool
  m_LargeCTU :: bool
  m_IntraBoundaryFilter :: bool
  m_SubPuMvp :: bool
  m_ModifiedCABACEngine :: bool
  m_IMV :: bool
  m_BIO :: bool
  m_DisableMotionCompression :: bool
  m_LICEnabled :: bool
  m_IntraPDPC :: bool
  m_LMChroma :: bool
  m_IntraEMT :: bool
  m_InterEMT :: bool
  m_OBMC :: bool
  m_FRUC :: bool
  m_Affine :: bool
  m_AffineType :: bool
  m_AClip :: bool
  m_CIPFEnabled :: bool
  m_BIF :: bool
  m_DMVR :: bool
  m_MDMS :: bool
  m_GBi :: bool
  m_MTTEnabled :: bool
  m_CTUSize :: nat
  m_minQT :: "nat \<times> nat \<times> nat"
  m_maxBTDepth :: "nat \<times> nat \<times> nat"
  m_dualITree :: bool
  m_subPuLog2Size :: nat
  m_subPuMrgMode :: int
  m_CABACEngineMode :: nat
  m_ImvMode :: nat
  m_LICMode :: nat
  m_MTTMode :: nat
  m_OBMCBlkSize :: int
  m_FRUCRefineFilter :: nat
  m_FRUCRefineRange :: nat
  m_FRUCSmallBlkRefineDepth :: nat
  m_AClipQuant :: nat
  m_IntraPDPCMode :: int
  m_CIPFMode :: nat
  m_IBCMode :: nat

text \<open>The constructor leaves three members as they are in the memory of the object.\<close>

definition SPSNext :: "sps_next \<Rightarrow> sps_next" where
  "SPSNext m = m\<lparr>m_NextEnabled := False, m_QTBT := False, m_NSST := False, m_Intra4Tap := False, m_LargeCTU := False,
     m_IntraBoundaryFilter := False, m_SubPuMvp := False, m_ModifiedCABACEngine := False, m_IMV := False, m_BIO := False,
     m_DisableMotionCompression := False, m_LICEnabled := False, m_IntraPDPC := False, m_LMChroma := False,
     m_IntraEMT := False, m_InterEMT := False, m_OBMC := False, m_FRUC := False, m_Affine := False, m_AffineType := False,
     m_AClip := False, m_CIPFEnabled := False, m_BIF := False, m_DMVR := False, m_MDMS := False,
     m_MTTEnabled := False, m_CTUSize := 0, m_minQT := (0, 0, 0), m_maxBTDepth := (4, 4, 0),
     m_subPuLog2Size := 0, m_subPuMrgMode := 0, m_CABACEngineMode := 0, m_ImvMode := 0, m_LICMode := 0, m_MTTMode := 0,
     m_OBMCBlkSize := 4, m_FRUCRefineFilter := 1, m_FRUCRefineRange := 8, m_FRUCSmallBlkRefineDepth := 3,
     m_IntraPDPCMode := 0, m_CIPFMode := 0, m_IBCMode := 0\<rparr>"

record cu_limits =
  m_uiMaxCUWidth :: nat
  m_uiMaxCUHeight :: nat
  m_uiMaxCodingDepth :: nat

section \<open>Accessors that keep two fields together\<close>

definition setSubPuMvpMode :: "int \<Rightarrow> sps_next \<Rightarrow> sps_next" where
  "setSubPuMvpMode n x = x\<lparr>m_subPuMrgMode := n, m_SubPuMvp := (n \<noteq> 0)\<rparr>"

definition getUseATMVP :: "sps_next \<Rightarrow> bool" where
  "getUseATMVP x \<longleftrightarrow> m_subPuMrgMode x AND 1 = 1"

definition getUseSTMVP :: "sps_next \<Rightarrow> bool" where
  "getUseSTMVP x \<longleftrightarrow> m_subPuMrgMode x AND 2 = 2"

definition setCABACEngineMode :: "nat \<Rightarrow> sps_next \<Rightarrow> sps_next" where
  "setCABACEngineMode m x = x\<lparr>m_CABACEngineMode := m, m_ModifiedCABACEngine := (m \<noteq> 0)\<rparr>"

definition setImvMode :: "nat \<Rightarrow> sps_next \<Rightarrow> sps_next" where
  "setImvMode m x = x\<lparr>m_ImvMode := m, m_IMV := (m \<noteq> 0)\<rparr>"

definition setLICMode :: "nat \<Rightarrow> sps_next \<Rightarrow> sps_next" where
  "setLICMode m x = x\<lparr>m_LICMode := m, m_LICEnabled := (m \<noteq> 0)\<rparr>"

definition setMTTMode :: "nat \<Rightarrow> sps_next \<Rightarrow> sps_next" where
  "setMTTMode m x = x\<lparr>m_MTTMode := m, m_MTTEnabled := (m \<noteq> 0)\<rparr>"

definition setCIPFMode :: "nat \<Rightarrow> sps_next \<Rightarrow> sps_next" where
  "setCIPFMode n x = x\<lparr>m_CIPFMode := n, m_CIPFEnabled := (n > 0)\<rparr>"

definition getMinQTSize :: "sps_next \<Rightarrow> bool \<Rightarrow> channel_type \<Rightarrow> nat" where
  "getMinQTSize x intra ch = (case m_minQT x of (i, pb, c) \<Rightarrow>
     if intra then (if ch = CHANNEL_TYPE_LUMA then i else c) else pb)"

definition setMaxBTDepth :: "nat \<Rightarrow> nat \<Rightarrow> nat \<Rightarrow> sps_next \<Rightarrow> sps_next" where
  "setMaxBTDepth d i c x = x\<lparr>m_maxBTDepth := (i, d, c)\<rparr>"

definition getMaxBTDepth :: "sps_next \<Rightarrow> nat" where "getMaxBTDepth x = fst (snd (m_maxBTDepth x))"
definition getMaxBTDepthI :: "sps_next \<Rightarrow> nat" where "getMaxBTDepthI x = fst (m_maxBTDepth x)"
definition getMaxBTDepthIChroma :: "sps_next \<Rightarrow> nat" where "getMaxBTDepthIChroma x = snd (snd (m_maxBTDepth x))"

section \<open>Writer\<close>

definition code_next_flags1 :: "sps_next \<Rightarrow> obs \<Rightarrow> obs option" where
  "code_next_flags1 x s = do {
     s \<leftarrow> xWriteFlag (of_bool (m_QTBT x)) s;
     s \<leftarrow> xWriteFlag (of_bool (m_NSST x)) s;
     s \<leftarrow> xWriteFlag (of_bool (m_Intra4Tap x)) s;
     s \<leftarrow> xWriteFlag (of_bool (m_LargeCTU x)) s;
     s \<leftarrow> xWriteFlag (of_bool (m_IntraBoundaryFilter x)) s;
     s \<leftarrow> xWriteFlag (of_bool (m_SubPuMvp x)) s;
     s \<leftarrow> xWriteFlag (of_bool (m_ModifiedCABACEngine x)) s;
     s \<leftarrow> xWriteFlag (of_bool (m_IMV x)) s;
     s \<leftarrow> xWriteFlag (of_bool (m_BIO x)) s;
     s \<leftarrow> xWriteFlag (of_bool (m_DisableMotionCompression x)) s;
     s \<leftarrow> xWriteFlag (of_bool (m_LICEnabled x)) s;
     s \<leftarrow> xWriteFlag (of_bool (m_IntraPDPC x)) s;
     s \<leftarrow> xWriteFlag (of_bool (m_LMChroma x)) s;
     s \<leftarrow> xWriteFlag (of_bool (m_IntraEMT x)) s;
     xWriteFlag (of_bool (m_InterEMT x)) s
   }"

definition code_next_flags2 :: "sps_next \<Rightarrow> obs \<Rightarrow> obs option" where
  "code_next_flags2 x s = do {
     s \<leftarrow> xWriteFlag (of_bool (m_OBMC x)) s;
     s \<leftarrow> xWriteFlag (of_bool (m_FRUC x)) s;
     s \<leftarrow> xWriteFlag (of_bool (m_Affine x)) s;
     s \<leftarrow> (if m_Affine x then xWriteFlag (of_bool (m_AffineType x)) s else Some s);
     s \<leftarrow> xWriteFlag (of_bool (m_AClip x)) s;
     s \<leftarrow> xWriteFlag (of_bool (m_CIPFMode x \<noteq> 0)) s;
     s \<leftarrow> xWriteFlag (of_bool (m_BIF x)) s;
     s \<leftarrow> xWriteFlag (of_bool (m_DMVR x)) s;
     s \<leftarrow> xWriteFlag (of_bool (m_MDMS x)) s;
     s \<leftarrow> xWriteFlag (of_bool (m_IBCMode x \<noteq> 0)) s;
     s \<leftarrow> xWriteFlag (of_bool (m_GBi x)) s;
     s \<leftarrow> for_loop (\<lambda>k. xWriteFlag (of_bool False)) [0..<NumReservedFlags] s;
     s \<leftarrow> xWriteFlag (of_bool (m_MTTEnabled x)) s;
     xWriteFlag (of_bool False) s
   }"

definition code_log2_size :: "nat \<Rightarrow> obs \<Rightarrow> obs option" where
  "code_log2_size n s = do { l \<leftarrow> aucLog2 n; xWriteUvlc (to_u32 (l - int MIN_CU_LOG2)) s }"

definition code_next_qtbt :: "sps_next \<Rightarrow> obs \<Rightarrow> obs option" where
  "code_next_qtbt x s = do {
     s \<leftarrow> xWriteFlag (of_bool (m_dualITree x)) s;
     s \<leftarrow> code_log2_size (m_CTUSize x) s;
     s \<leftarrow> code_log2_size (getMinQTSize x True CHANNEL_TYPE_LUMA) s;
     s \<leftarrow> code_log2_size (getMinQTSize x False CHANNEL_TYPE_LUMA) s;
     s \<leftarrow> xWriteUvlc (getMaxBTDepth x) s;
     s \<leftarrow> xWriteUvlc (getMaxBTDepthI x) s;
     if m_dualITree x then do {
       s \<leftarrow> code_log2_size (getMinQTSize x True CHANNEL_TYPE_CHROMA) s;
       xWriteUvlc (getMaxBTDepthIChroma x) s
     } else Some s
   }"

definition code_next_sub_pu :: "sps_next \<Rightarrow> obs \<Rightarrow> obs option" where
  "code_next_sub_pu x s = do {
     s \<leftarrow> xWriteCode (sub32 (m_subPuLog2Size x) MIN_CU_LOG2) 3 s;
     s \<leftarrow> xWriteFlag (of_bool (getUseATMVP x)) s;
     xWriteFlag (of_bool (getUseSTMVP x)) s
   }"

definition code_next_modes :: "sps_next \<Rightarrow> obs \<Rightarrow> obs option" where
  "code_next_modes x s = do {
     s \<leftarrow> (if m_ModifiedCABACEngine x then xWriteUvlc (sub32 (m_CABACEngineMode x) 1) s else Some s);
     s \<leftarrow> (if m_IMV x then xWriteUvlc (sub32 (m_ImvMode x) 1) s else Some s);
     s \<leftarrow> (if m_LICEnabled x then xWriteUvlc (sub32 (m_LICMode x) 1) s else Some s);
     if m_MTTEnabled x then xWriteUvlc (sub32 (m_MTTMode x) 1) s else Some s
   }"

definition code_next_params :: "sps_next \<Rightarrow> obs \<Rightarrow> obs option" where
  "code_next_params x s = do {
     s \<leftarrow> (if m_OBMC x then xWriteUvlc (to_u32 (m_OBMCBlkSize x)) s else Some s);
     s \<leftarrow> (if m_FRUC x then do {
              s \<leftarrow> xWriteUvlc (m_FRUCRefineFilter x) s;
              s \<leftarrow> xWriteUvlc (drop_bit (2 + MV_STORE_SHIFT) (m_FRUCRefineRange x)) s;
              xWriteUvlc (m_FRUCSmallBlkRefineDepth x) s
            } else Some s);
     s \<leftarrow> (if m_AClip x then xWriteCode (m_AClipQuant x div 2) 2 s else Some s);
     if m_IntraPDPC x then xWriteFlag (to_u32 (m_IntraPDPCMode x - 1)) s else Some s
   }"

definition codeSPSNext :: "sps_next \<Rightarrow> obs \<Rightarrow> obs option" where
  "codeSPSNext x s = do {
     s \<leftarrow> code_next_flags1 x s;
     s \<leftarrow> code_next_flags2 x s;
     s \<leftarrow> (if m_QTBT x then code_next_qtbt x s else Some s);
     s \<leftarrow> (if m_SubPuMvp x then code_next_sub_pu x s else Some s);
     s \<leftarrow> code_next_modes x s;
     code_next_params x s
   }"

section \<open>Parser\<close>

definition parse_next_flags1 :: "sps_next \<Rightarrow> ibs \<Rightarrow> (sps_next \<times> ibs) option" where
  "parse_next_flags1 x s = do {
     (symbol, s) \<leftarrow> xReadFlag s;
     let x = x\<lparr>m_QTBT := (symbol \<noteq> 0)\<rparr>;
     (symbol, s) \<leftarrow> xReadFlag s;
     let x = x\<lparr>m_NSST := (symbol \<noteq> 0)\<rparr>;
     (symbol, s) \<leftarrow> xReadFlag s;
     let x = x\<lparr>m_Intra4Tap := (symbol \<noteq> 0)\<rparr>;
     (symbol, s) \<leftarrow> xReadFlag s;
     let x = x\<lparr>m_LargeCTU := (symbol \<noteq> 0)\<rparr>;
     (symbol, s) \<leftarrow> xReadFlag s;
     let x = x\<lparr>m_IntraBoundaryFilter := (symbol \<noteq> 0)\<rparr>;
     (symbol, s) \<leftarrow> xReadFlag s;
     let x = setSubPuMvpMode (to_i32 symbol) x;
     (symbol, s) \<leftarrow> xReadFlag s;
     let x = setCABACEngineMode symbol x;
     (symbol, s) \<leftarrow> xReadFlag s;
     let x = x\<lparr>m_IMV := (symbol \<noteq> 0)\<rparr>;
     (symbol, s) \<leftarrow> xReadFlag s;
     let x = x\<lparr>m_BIO := (symbol \<noteq> 0)\<rparr>;
     (symbol, s) \<leftarrow> xReadFlag s;
     let x = x\<lparr>m_DisableMotionCompression := (symbol \<noteq> 0)\<rparr>;
     (symbol, s) \<leftarrow> xReadFlag s;
     let x = setLICMode symbol x;
     (symbol, s) \<leftarrow> xReadFlag s;
     let x = x\<lparr>m_IntraPDPC := (symbol \<noteq> 0)\<rparr>;
     (symbol, s) \<leftarrow> xReadFlag s;
     let x = x\<lparr>m_LMChroma := (symbol \<noteq> 0)\<rparr>;
     (symbol, s) \<leftarrow> xReadFlag s;
     let x = x\<lparr>m_IntraEMT := (symbol \<noteq> 0)\<rparr>;
     (symbol, s) \<leftarrow> xReadFlag s;
     Some (x\<lparr>m_InterEMT := (symbol \<noteq> 0)\<rparr>, s)
   }"

definition parse_next_flags2 :: "sps_next \<Rightarrow> ibs \<Rightarrow> (sps_next \<times> ibs) option" where
  "parse_next_flags2 x s = do {
     (symbol, s) \<leftarrow> xReadFlag s;
     let x = x\<lparr>m_OBMC := (symbol \<noteq> 0)\<rparr>;
     (symbol, s) \<leftarrow> xReadFlag s;
     let x = x\<lparr>m_FRUC := (symbol \<noteq> 0)\<rparr>;
     (symbol, s) \<leftarrow> xReadFlag s;
     let x = x\<lparr>m_Affine := (symbol \<noteq> 0)\<rparr>;
     (x, s) \<leftarrow> (if m_Affine x then do {
         (symbol, s) \<leftarrow> xReadFlag s;
         Some (x\<lparr>m_AffineType := (symbol \<noteq> 0)\<rparr>, s)
       } else Some (x, s));
     (symbol, s) \<leftarrow> xReadFlag s;
     let x = x\<lparr>m_AClip := (symbol \<noteq> 0)\<rparr>;
     (symbol, s) \<leftarrow> xReadFlag s;
     let x = setCIPFMode symbol x;
     (symbol, s) \<leftarrow> xReadFlag s;
     let x = x\<lparr>m_BIF := (symbol \<noteq> 0)\<rparr>;
     (symbol, s) \<leftarrow> xReadFlag s;
     let x = x\<lparr>m_DMVR := (symbol \<noteq> 0)\<rparr>;
     (symbol, s) \<leftarrow> xReadFlag s;
     let x = x\<lparr>m_MDMS := (symbol \<noteq> 0)\<rparr>;
     (symbol, s) \<leftarrow> xReadFlag s;
     let x = x\<lparr>m_IBCMode := of_bool (symbol \<noteq> 0)\<rparr>;
     (symbol, s) \<leftarrow> xReadFlag s;
     let x = x\<lparr>m_GBi := (symbol \<noteq> 0)\<rparr>;
     (_, s) \<leftarrow> read_loop (\<lambda>k u s. do {
         (symbol, s) \<leftarrow> xReadFlag s;
         check_not (symbol \<noteq> 0);
         Some (u, s)
       }) [0..<NumReservedFlags] () s;
     (symbol, s) \<leftarrow> xReadFlag s;
     let x = setMTTMode symbol x;
     (symbol, s) \<leftarrow> xReadFlag s;
     check_not (symbol \<noteq> 0);
     Some (x, s)
   }"

text \<open>
  \<open>1 << n\<close> in \<open>int\<close>.  The parser does not check \<open>n\<close>; where C++ leaves the shift undefined the result is \<open>None\<close>, as for every
  undefined operation, and the limits proved of an accepted set do not use it.
\<close>

definition shl1 :: "nat \<Rightarrow> nat option" where
  "shl1 n = (if n < 31 then Some (push_bit n 1) else None)"

definition parse_log2_size :: "ibs \<Rightarrow> (nat \<times> ibs) option" where
  "parse_log2_size s = do {
     (symbol, s) \<leftarrow> xReadUvlc s;
     n \<leftarrow> shl1 (u32 (symbol + MIN_CU_LOG2));
     Some (n, s)
   }"

definition parse_next_qtbt :: "sps_next \<times> cu_limits \<Rightarrow> ibs \<Rightarrow> ((sps_next \<times> cu_limits) \<times> ibs) option" where
  "parse_next_qtbt xl s = do {
     let (x, l) = xl;
     (symbol, s) \<leftarrow> xReadFlag s;
     let x = x\<lparr>m_dualITree := (symbol \<noteq> 0)\<rparr>;
     (symbol, s) \<leftarrow> xReadUvlc s;
     ctu \<leftarrow> shl1 (u32 (symbol + MIN_CU_LOG2));
     let x = x\<lparr>m_CTUSize := ctu\<rparr>;
     let l = l\<lparr>m_uiMaxCodingDepth := symbol, m_uiMaxCUWidth := m_CTUSize x, m_uiMaxCUHeight := m_CTUSize x\<rparr>;
     (q0, s) \<leftarrow> parse_log2_size s;
     (q1, s) \<leftarrow> parse_log2_size s;
     (d0, s) \<leftarrow> xReadUvlc s;
     (d1, s) \<leftarrow> xReadUvlc s;
     ((q2, d2), s) \<leftarrow> (if m_dualITree x then do {
         (q2, s) \<leftarrow> parse_log2_size s;
         (d2, s) \<leftarrow> xReadUvlc s;
         Some ((q2, d2), s)
       } else Some ((0, 0), s));
     let x = setMaxBTDepth d0 d1 d2 (x\<lparr>m_minQT := (q0, q1, q2)\<rparr>);
     Some ((x, l), s)
   }"

definition parse_next_sub_pu :: "sps_next \<Rightarrow> ibs \<Rightarrow> (sps_next \<times> ibs) option" where
  "parse_next_sub_pu x s = do {
     (symbol, s) \<leftarrow> xReadCode 3 s;
     let x = x\<lparr>m_subPuLog2Size := symbol + MIN_CU_LOG2\<rparr>;
     (a, s) \<leftarrow> xReadFlag s;
     (b, s) \<leftarrow> xReadFlag s;
     Some (setSubPuMvpMode (to_i32 (a + push_bit 1 b)) x, s)
   }"

definition parse_next_modes :: "sps_next \<Rightarrow> ibs \<Rightarrow> (sps_next \<times> ibs) option" where
  "parse_next_modes x s = do {
     (x, s) \<leftarrow> (if m_ModifiedCABACEngine x then do {
         (symbol, s) \<leftarrow> xReadUvlc s;
         Some (setCABACEngineMode (u32 (symbol + 1)) x, s)
       } else Some (x, s));
     (x, s) \<leftarrow> (if m_IMV x then do {
         (symbol, s) \<leftarrow> xReadUvlc s;
         Some (setImvMode (u32 (symbol + 1)) x, s)
       } else Some (x, s));
     (x, s) \<leftarrow> (if m_LICEnabled x then do {
         (symbol, s) \<leftarrow> xReadUvlc s;
         Some (setLICMode (u32 (symbol + 1)) x, s)
       } else Some (x, s));
     if m_MTTEnabled x then do {
       (symbol, s) \<leftarrow> xReadUvlc s;
       Some (setMTTMode (u32 (symbol + 1)) x, s)
     } else Some (x, s)
   }"

definition parse_next_params :: "sps_next \<Rightarrow> ibs \<Rightarrow> (sps_next \<times> ibs) option" where
  "parse_next_params x s = do {
     (x, s) \<leftarrow> (if m_OBMC x then do {
         (symbol, s) \<leftarrow> xReadUvlc s;
         let x = x\<lparr>m_OBMCBlkSize := to_i32 symbol\<rparr>;
         check_not (\<not> (symbol = 4 \<or> symbol = 8));
         Some (x, s)
       } else Some (x, s));
     (x, s) \<leftarrow> (if m_FRUC x then do {
         (symbol, s) \<leftarrow> xReadUvlc s;
         let x = x\<lparr>m_FRUCRefineFilter := symbol\<rparr>;
         (symbol, s) \<leftarrow> xReadUvlc s;
         let x = x\<lparr>m_FRUCRefineRange := u32 (push_bit (2 + MV_STORE_SHIFT) symbol)\<rparr>;
         (symbol, s) \<leftarrow> xReadUvlc s;
         Some (x\<lparr>m_FRUCSmallBlkRefineDepth := symbol\<rparr>, s)
       } else Some (x, s));
     (x, s) \<leftarrow> (if m_AClip x then do {
         (symbol, s) \<leftarrow> xReadCode 2 s;
         Some (x\<lparr>m_AClipQuant := symbol * 2\<rparr>, s)
       } else Some (x, s));
     if m_IntraPDPC x then do {
       (symbol, s) \<leftarrow> xReadFlag s;
       Some (x\<lparr>m_IntraPDPCMode := to_i32 (symbol + 1)\<rparr>, s)
     } else Some (x, s)
   }"

definition parseSPSNext :: "sps_next \<times> cu_limits \<Rightarrow> ibs \<Rightarrow> ((sps_next \<times> cu_limits) \<times> ibs) option" where
  "parseSPSNext xl s = do {
     let (x, l) = xl;
     (x, s) \<leftarrow> parse_next_flags1 x s;
     (x, s) \<leftarrow> parse_next_flags2 x s;
     ((x, l), s) \<leftarrow> (if m_QTBT x then parse_next_qtbt (x, l) s else Some ((x, l), s));
     (x, s) \<leftarrow> (if m_SubPuMvp x then parse_next_sub_pu x s else Some (x, s));
     (x, s) \<leftarrow> parse_next_modes x s;
     (x, s) \<leftarrow> parse_next_params x s;
     Some ((x, l), s)
   }"

section \<open>Round trip\<close>

lemma aucLog2_power: "k \<le> 7 \<Longrightarrow> aucLog2 (2 ^ k) = Some (int k)"
proof -
  assume "k \<le> 7"
  moreover have "\<forall>k\<in>set [0..<8]. aucLog2 (2 ^ k) = Some (int k)" by code_simp
  ultimately show ?thesis by simp
qed

text \<open>The modes that go with an enabling flag are zero exactly when it is not set.\<close>

definition next_modes_ok :: "sps_next \<Rightarrow> bool" where
  "next_modes_ok x \<longleftrightarrow> m_SubPuMvp x = (m_subPuMrgMode x \<noteq> 0) \<and> m_subPuMrgMode x \<in> {0, 1, 2, 3}
     \<and> m_ModifiedCABACEngine x = (m_CABACEngineMode x \<noteq> 0) \<and> m_CABACEngineMode x < 2 ^ 31
     \<and> m_IMV x = (m_ImvMode x \<noteq> 0) \<and> m_ImvMode x < 2 ^ 31
     \<and> m_LICEnabled x = (m_LICMode x \<noteq> 0) \<and> m_LICMode x < 2 ^ 31
     \<and> m_MTTEnabled x = (m_MTTMode x \<noteq> 0) \<and> m_MTTMode x < 2 ^ 31
     \<and> m_CIPFEnabled x = (m_CIPFMode x > 0) \<and> m_CIPFMode x \<le> 1 \<and> m_IBCMode x \<le> 1"

definition block_size :: "nat \<Rightarrow> bool" where
  "block_size n \<longleftrightarrow> n \<in> {4, 8, 16, 32, 64, 128}"

definition next_qtbt_ok :: "sps_next \<Rightarrow> bool" where
  "next_qtbt_ok x \<longleftrightarrow> block_size (m_CTUSize x) \<and> block_size (getMinQTSize x True CHANNEL_TYPE_LUMA)
     \<and> block_size (getMinQTSize x False CHANNEL_TYPE_LUMA)
     \<and> (m_dualITree x \<longrightarrow> block_size (getMinQTSize x True CHANNEL_TYPE_CHROMA))
     \<and> getMaxBTDepth x < 2 ^ 31 - 1 \<and> getMaxBTDepthI x < 2 ^ 31 - 1 \<and> getMaxBTDepthIChroma x < 2 ^ 31 - 1"

definition next_params_ok :: "sps_next \<Rightarrow> bool" where
  "next_params_ok x \<longleftrightarrow> (m_OBMC x \<longrightarrow> m_OBMCBlkSize x \<in> {4, 8})
     \<and> (m_FRUC x \<longrightarrow> m_FRUCRefineFilter x < 2 ^ 31 - 1 \<and> m_FRUCRefineRange x < 2 ^ 32
         \<and> 16 dvd m_FRUCRefineRange x \<and> m_FRUCSmallBlkRefineDepth x < 2 ^ 31 - 1)
     \<and> (m_AClip x \<longrightarrow> m_AClipQuant x \<in> {0, 2, 4, 6})
     \<and> (m_IntraPDPC x \<longrightarrow> m_IntraPDPCMode x \<in> {1, 2})"

definition next_ok :: "sps_next \<Rightarrow> bool" where
  "next_ok x \<longleftrightarrow> next_modes_ok x \<and> (m_QTBT x \<longrightarrow> next_qtbt_ok x) \<and> next_params_ok x
     \<and> (m_SubPuMvp x \<longrightarrow> 2 \<le> m_subPuLog2Size x \<and> m_subPuLog2Size x < 10)"

lemma to_i32_of_bool [simp]: "to_i32 (of_bool b) = of_bool b"
  by (cases b) simp_all

lemma codes_next_flags1:
  "vlc.codes (code_next_flags1 x) (parse_next_flags1 x0)
    (x0\<lparr>m_QTBT := m_QTBT x, m_NSST := m_NSST x, m_Intra4Tap := m_Intra4Tap x, m_LargeCTU := m_LargeCTU x,
       m_IntraBoundaryFilter := m_IntraBoundaryFilter x, m_subPuMrgMode := of_bool (m_SubPuMvp x), m_SubPuMvp := m_SubPuMvp x,
       m_CABACEngineMode := of_bool (m_ModifiedCABACEngine x), m_ModifiedCABACEngine := m_ModifiedCABACEngine x,
       m_IMV := m_IMV x, m_BIO := m_BIO x, m_DisableMotionCompression := m_DisableMotionCompression x,
       m_LICMode := of_bool (m_LICEnabled x), m_LICEnabled := m_LICEnabled x, m_IntraPDPC := m_IntraPDPC x,
       m_LMChroma := m_LMChroma x, m_IntraEMT := m_IntraEMT x, m_InterEMT := m_InterEMT x\<rparr>)"
  unfolding code_next_flags1_def parse_next_flags1_def Let_def
  apply (rule step_flag end_flag)+
  apply (simp only: of_bool_eq_0_iff not_not setSubPuMvpMode_def setCABACEngineMode_def setLICMode_def to_i32_of_bool)
  done

lemma codes_reserved_flags: "vlc.codes (for_loop (\<lambda>k. xWriteFlag (of_bool False)) [0..<n])
    (read_loop (\<lambda>k u s. xReadFlag s \<bind> (\<lambda>(symbol, s). check_not (symbol \<noteq> 0) \<bind> (\<lambda>_. Some (u, s)))) [0..<n] ()) ()"
  apply (rule vlc.codes_read_loop [where X = "\<lambda>_. ()"])
  apply (rule vlc.codes_bind_end [OF codes_flag_bool])
  apply (simp only: of_bool_eq_0_iff check_not_simps bind.bind_lunit simp_thms prod.case)
  apply (rule vlc.codes_return, rule refl)
  done

lemma codes_next_flags2:
  assumes "next_modes_ok x"
  shows "vlc.codes (code_next_flags2 x) (parse_next_flags2 x0)
    (x0\<lparr>m_OBMC := m_OBMC x, m_FRUC := m_FRUC x, m_Affine := m_Affine x,
       m_AffineType := m_AffineType (if m_Affine x then x else x0), m_AClip := m_AClip x,
       m_CIPFMode := m_CIPFMode x, m_CIPFEnabled := m_CIPFEnabled x, m_BIF := m_BIF x, m_DMVR := m_DMVR x,
       m_MDMS := m_MDMS x, m_IBCMode := m_IBCMode x, m_GBi := m_GBi x,
       m_MTTMode := of_bool (m_MTTEnabled x), m_MTTEnabled := m_MTTEnabled x\<rparr>)"
proof -
  have le: "m_CIPFMode x \<le> 1" "m_IBCMode x \<le> 1" and en: "m_CIPFEnabled x = (m_CIPFMode x > 0)"
    using assms unfolding next_modes_ok_def by blast+
  show ?thesis
    unfolding code_next_flags2_def parse_next_flags2_def Let_def NumReservedFlags_def
    apply (rule step_flag)+
    apply (rule step_opt, simp)
     apply (rule end_flag, rule refl)
    apply (rule step_flag)+
    apply (rule vlc.codes_bind [OF codes_reserved_flags])
    apply (rule step_flag)
    apply (rule vlc.codes_bind_end [OF codes_flag_bool])
    apply (simp only: of_bool_eq_0_iff check_not_simps bind.bind_lunit simp_thms prod.case)
    apply (rule vlc.codes_return)
    apply (rule sps_next.equality)
                        apply (simp_all add: setCIPFMode_def setMTTMode_def)
    using le en by linarith+
qed

lemma block_size_power: "block_size n \<Longrightarrow> \<exists>k. n = 2 ^ k \<and> 2 \<le> k \<and> k \<le> 7"
proof -
  assume n: "block_size n"
  have "{2..7} = {2, 3, 4, 5, 6, 7 :: nat}" by auto
  with n have "\<exists>k\<in>{2..7}. n = 2 ^ k" by (simp add: block_size_def)
  then show ?thesis by auto
qed

lemma log2_value:
  assumes "2 \<le> k" "k \<le> 7"
  shows "to_u32 (int k - int MIN_CU_LOG2) = k - 2" "shl1 (u32 (k - 2 + MIN_CU_LOG2)) = Some (2 ^ k)"
proof -
  have "int k - int MIN_CU_LOG2 = int (k - 2)" using assms by (simp add: MIN_CU_LOG2_def)
  moreover have "int (k - 2) < 2 ^ 32" using assms by simp
  ultimately show "to_u32 (int k - int MIN_CU_LOG2) = k - 2" by simp
  have "u32 (k - 2 + MIN_CU_LOG2) = k" using assms by (simp add: MIN_CU_LOG2_def)
  then show "shl1 (u32 (k - 2 + MIN_CU_LOG2)) = Some (2 ^ k)"
    using assms by (simp add: shl1_def push_bit_nat_def)
qed

lemma codes_log2_size:
  assumes "block_size n"
  shows "vlc.codes (code_log2_size n) parse_log2_size n"
proof -
  from block_size_power [OF assms] obtain k where k: "n = 2 ^ k" "2 \<le> k" "k \<le> 7" by blast
  note v = log2_value [OF k(2,3)]
  show ?thesis
    unfolding code_log2_size_def parse_log2_size_def k(1) aucLog2_power [OF k(3)] bind.bind_lunit v
    apply (rule vlc.codes_bind_end [OF codes_uvlc])
    using k(3) apply simp
    unfolding prod.case v bind.bind_lunit
    by (rule vlc.codes_return [OF refl])
qed

lemma codes_next_qtbt:
  assumes "next_qtbt_ok x"
  shows "vlc.codes (code_next_qtbt x) (parse_next_qtbt (x0, l))
    (x0\<lparr>m_dualITree := m_dualITree x, m_CTUSize := m_CTUSize x,
       m_minQT := (fst (m_minQT x), fst (snd (m_minQT x)), if m_dualITree x then snd (snd (m_minQT x)) else 0),
       m_maxBTDepth := (getMaxBTDepthI x, getMaxBTDepth x, if m_dualITree x then getMaxBTDepthIChroma x else 0)\<rparr>,
     l\<lparr>m_uiMaxCodingDepth := nat (the (aucLog2 (m_CTUSize x))) - 2, m_uiMaxCUWidth := m_CTUSize x,
       m_uiMaxCUHeight := m_CTUSize x\<rparr>)"
proof -
  have ok: "block_size (m_CTUSize x)" "block_size (fst (m_minQT x))" "block_size (fst (snd (m_minQT x)))"
    "m_dualITree x \<Longrightarrow> block_size (snd (snd (m_minQT x)))"
    "getMaxBTDepth x < 2 ^ 31 - 1" "getMaxBTDepthI x < 2 ^ 31 - 1" "getMaxBTDepthIChroma x < 2 ^ 31 - 1"
    using assms unfolding next_qtbt_ok_def getMinQTSize_def by (auto split: prod.splits)
  have q: "getMinQTSize x True CHANNEL_TYPE_LUMA = fst (m_minQT x)"
    "getMinQTSize x False CHANNEL_TYPE_LUMA = fst (snd (m_minQT x))"
    "getMinQTSize x True CHANNEL_TYPE_CHROMA = snd (snd (m_minQT x))"
    by (auto simp: getMinQTSize_def split: prod.splits)
  from block_size_power [OF ok(1)] obtain k where k: "m_CTUSize x = 2 ^ k" "2 \<le> k" "k \<le> 7" by blast
  note v = log2_value [OF k(2,3)]
  show ?thesis
    unfolding code_next_qtbt_def parse_next_qtbt_def Let_def k(1) code_log2_size_def [of "2 ^ k"]
      aucLog2_power [OF k(3)] bind.bind_lunit v q prod.case option.sel nat_int
    apply (rule step_flag)
    apply (rule step_uvlc)
    subgoal using k(3) by simp
    unfolding v bind.bind_lunit
    apply (rule vlc.codes_bind [OF codes_log2_size [OF ok(2)]])
    apply (rule vlc.codes_bind [OF codes_log2_size [OF ok(3)]])
    apply (rule step_uvlc [OF ok(5)], rule step_uvlc [OF ok(6)])
    apply (rule vlc.codes_bind_end)
     apply (rule end_opt, simp)
      apply (rule vlc.codes_bind [OF codes_log2_size], erule ok(4))
      apply (rule end_uvlc [OF ok(7)], rule refl)
     apply (rule refl)
    apply (cases "m_dualITree x")
     apply (simp_all add: setMaxBTDepth_def vlc.codes_return k(1))
    done
qed


lemma sub_pu_mode: "m_subPuMrgMode x \<in> {0, 1, 2, 3} \<Longrightarrow>
    to_i32 (of_bool (getUseATMVP x) + push_bit 1 (of_bool (getUseSTMVP x))) = m_subPuMrgMode x"
  by (auto simp: getUseATMVP_def getUseSTMVP_def)

lemma codes_next_sub_pu:
  assumes "2 \<le> m_subPuLog2Size x" "m_subPuLog2Size x < 10" "m_subPuMrgMode x \<in> {0, 1, 2, 3}"
  shows "vlc.codes (code_next_sub_pu x) (parse_next_sub_pu x0) (x0\<lparr>m_subPuLog2Size := m_subPuLog2Size x,
    m_subPuMrgMode := m_subPuMrgMode x, m_SubPuMvp := (m_subPuMrgMode x \<noteq> 0)\<rparr>)"
proof -
  have s: "sub32 (m_subPuLog2Size x) MIN_CU_LOG2 = m_subPuLog2Size x - 2"
    "m_subPuLog2Size x - 2 + MIN_CU_LOG2 = m_subPuLog2Size x"
    using assms(1,2) by (simp_all add: MIN_CU_LOG2_def sub32_ge)
  show ?thesis
    unfolding code_next_sub_pu_def parse_next_sub_pu_def Let_def s(1)
    apply (rule step_code, simp, simp)
    subgoal using assms(2) by simp
    apply (rule step_flag end_flag)+
    apply (simp only: s(2) sub_pu_mode [OF assms(3)] setSubPuMvpMode_def)
    done
qed

text \<open>A mode field that follows its enabling flag.\<close>

lemma codes_mode:
  assumes "b = (m \<noteq> 0)" "m < 2 ^ 31"
  shows "vlc.codes (\<lambda>s. if b then xWriteUvlc (sub32 m 1) s else Some s)
    (\<lambda>s. if b then xReadUvlc s \<bind> (\<lambda>(symbol, s). Some (f (u32 (symbol + 1)), s)) else Some (x0, s))
    (if b then f m else x0)"
proof (cases b)
  case True
  have m: "sub32 m 1 < 2 ^ 31 - 1" "u32 (sub32 m 1 + 1) = m" using assms True by (simp_all add: sub32_ge)
  have "vlc.codes (xWriteUvlc (sub32 m 1)) (\<lambda>s. xReadUvlc s \<bind> (\<lambda>(symbol, s). Some (f (u32 (symbol + 1)), s))) (f m)"
    by (rule end_uvlc, rule m(1), simp only: m(2))
  with True show ?thesis by simp
qed (simp add: vlc.codes_return)

lemma codes_next_modes:
  assumes ok: "next_modes_ok x"
    and x0: "m_ModifiedCABACEngine x0 = m_ModifiedCABACEngine x" "m_CABACEngineMode x0 = of_bool (m_ModifiedCABACEngine x)"
      "m_IMV x0 = m_IMV x" "m_LICEnabled x0 = m_LICEnabled x" "m_LICMode x0 = of_bool (m_LICEnabled x)"
      "m_MTTEnabled x0 = m_MTTEnabled x" "m_MTTMode x0 = of_bool (m_MTTEnabled x)"
  shows "vlc.codes (code_next_modes x) (parse_next_modes x0) (x0\<lparr>m_CABACEngineMode := m_CABACEngineMode x,
    m_ImvMode := m_ImvMode (if m_IMV x then x else x0), m_LICMode := m_LICMode x, m_MTTMode := m_MTTMode x\<rparr>)"
proof -
  have e: "m_ModifiedCABACEngine x = (m_CABACEngineMode x \<noteq> 0)" "m_CABACEngineMode x < 2 ^ 31"
    and i: "m_IMV x = (m_ImvMode x \<noteq> 0)" "m_ImvMode x < 2 ^ 31"
    and l: "m_LICEnabled x = (m_LICMode x \<noteq> 0)" "m_LICMode x < 2 ^ 31"
    and m: "m_MTTEnabled x = (m_MTTMode x \<noteq> 0)" "m_MTTMode x < 2 ^ 31"
    using ok unfolding next_modes_ok_def by blast+
  have u1: "(if m_ModifiedCABACEngine x then setCABACEngineMode (m_CABACEngineMode x) x0 else x0)
      = x0\<lparr>m_CABACEngineMode := m_CABACEngineMode x\<rparr>"
    by (rule sps_next.equality) (simp_all add: setCABACEngineMode_def x0 e(1))
  have u2: "(if m_IMV x then setImvMode (m_ImvMode x) y else y) = y\<lparr>m_ImvMode := m_ImvMode (if m_IMV x then x else y)\<rparr>"
    if "m_IMV y = m_IMV x" for y
    by (rule sps_next.equality) (simp_all add: setImvMode_def that i(1))
  have u3: "(if m_LICEnabled x then setLICMode (m_LICMode x) y else y) = y\<lparr>m_LICMode := m_LICMode x\<rparr>"
    if "m_LICEnabled y = m_LICEnabled x" "m_LICMode y = of_bool (m_LICEnabled x)" for y
    by (rule sps_next.equality) (simp_all add: setLICMode_def that l(1))
  have u4: "(if m_MTTEnabled x then setMTTMode (m_MTTMode x) y else y) = y\<lparr>m_MTTMode := m_MTTMode x\<rparr>"
    if "m_MTTEnabled y = m_MTTEnabled x" "m_MTTMode y = of_bool (m_MTTEnabled x)" for y
    by (rule sps_next.equality) (simp_all add: setMTTMode_def that m(1))
  let ?y1 = "m_CABACEngineMode_update (\<lambda>_. m_CABACEngineMode x)"
  let ?y2 = "\<lambda>x0. m_ImvMode_update (\<lambda>_. m_ImvMode (if m_IMV x then x else ?y1 x0)) (?y1 x0)"
  let ?y3 = "\<lambda>x0. m_LICMode_update (\<lambda>_. m_LICMode x) (?y2 x0)"
  have y1: "m_IMV (?y1 x0) = m_IMV x" and y2: "m_LICEnabled (?y2 x0) = m_LICEnabled x" "m_LICMode (?y2 x0) = of_bool (m_LICEnabled x)"
    and y3: "m_MTTEnabled (?y3 x0) = m_MTTEnabled x" "m_MTTMode (?y3 x0) = of_bool (m_MTTEnabled x)"
    by (simp_all add: x0 del: split_of_bool)
  show ?thesis
    unfolding code_next_modes_def parse_next_modes_def x0
    apply (rule vlc.codes_bind [OF codes_mode [OF e, where f = "\<lambda>n. setCABACEngineMode n x0"]])
    unfolding u1 prod.case y1
    apply (rule vlc.codes_bind [OF codes_mode [OF i, where f = "\<lambda>n. setImvMode n (?y1 x0)"]])
    unfolding u2 [OF y1] prod.case y2
    apply (rule vlc.codes_bind [OF codes_mode [OF l, where f = "\<lambda>n. setLICMode n (?y2 x0)"]])
    unfolding u3 [OF y2] prod.case y3
    apply (rule vlc.codes_cong [OF codes_mode [OF m, where f = "\<lambda>n. setMTTMode n (?y3 x0)"] refl refl])
    unfolding u4 [OF y3]
    by simp
qed

lemma codes_next_params:
  assumes ok: "next_params_ok x"
    and x0: "m_OBMC x0 = m_OBMC x" "m_FRUC x0 = m_FRUC x" "m_AClip x0 = m_AClip x" "m_IntraPDPC x0 = m_IntraPDPC x"
  shows "vlc.codes (code_next_params x) (parse_next_params x0) (x0\<lparr>m_OBMCBlkSize := m_OBMCBlkSize (if m_OBMC x then x else x0),
    m_FRUCRefineFilter := m_FRUCRefineFilter (if m_FRUC x then x else x0),
    m_FRUCRefineRange := m_FRUCRefineRange (if m_FRUC x then x else x0),
    m_FRUCSmallBlkRefineDepth := m_FRUCSmallBlkRefineDepth (if m_FRUC x then x else x0),
    m_AClipQuant := m_AClipQuant (if m_AClip x then x else x0),
    m_IntraPDPCMode := m_IntraPDPCMode (if m_IntraPDPC x then x else x0)\<rparr>)"
proof -
  have o: "to_u32 (m_OBMCBlkSize x) < 2 ^ 31 - 1" "\<not> (\<not> (to_u32 (m_OBMCBlkSize x) = 4 \<or> to_u32 (m_OBMCBlkSize x) = 8))"
    "to_i32 (to_u32 (m_OBMCBlkSize x)) = m_OBMCBlkSize x" if "m_OBMC x"
    using ok that by (auto simp: next_params_ok_def)
  have f: "m_FRUCRefineFilter x < 2 ^ 31 - 1" "m_FRUCSmallBlkRefineDepth x < 2 ^ 31 - 1"
    "drop_bit (2 + MV_STORE_SHIFT) (m_FRUCRefineRange x) < 2 ^ 31 - 1"
    "u32 (push_bit (2 + MV_STORE_SHIFT) (drop_bit (2 + MV_STORE_SHIFT) (m_FRUCRefineRange x))) = m_FRUCRefineRange x"
    if "m_FRUC x"
  proof -
    have r: "m_FRUCRefineRange x < 2 ^ 32" "16 dvd m_FRUCRefineRange x" "m_FRUCRefineFilter x < 2 ^ 31 - 1"
      "m_FRUCSmallBlkRefineDepth x < 2 ^ 31 - 1"
      using ok that unfolding next_params_ok_def by blast+
    then show "m_FRUCRefineFilter x < 2 ^ 31 - 1" "m_FRUCSmallBlkRefineDepth x < 2 ^ 31 - 1"
      "drop_bit (2 + MV_STORE_SHIFT) (m_FRUCRefineRange x) < 2 ^ 31 - 1"
      by (simp_all add: drop_bit_nat_def MV_STORE_SHIFT_def)
    show "u32 (push_bit (2 + MV_STORE_SHIFT) (drop_bit (2 + MV_STORE_SHIFT) (m_FRUCRefineRange x))) = m_FRUCRefineRange x"
      using r(1,2) by (simp add: drop_bit_nat_def push_bit_nat_def MV_STORE_SHIFT_def)
  qed
  have a: "m_AClipQuant x div 2 < 2 ^ 2" "m_AClipQuant x div 2 * 2 = m_AClipQuant x" if "m_AClip x"
    using ok that unfolding next_params_ok_def by auto
  have p: "to_u32 (m_IntraPDPCMode x - 1) < 2" "to_i32 (to_u32 (m_IntraPDPCMode x - 1) + 1) = m_IntraPDPCMode x"
    if "m_IntraPDPC x" using ok that unfolding next_params_ok_def by auto
  show ?thesis
    unfolding code_next_params_def parse_next_params_def Let_def
    apply (rule step_opt, simp add: x0)
     apply (rule vlc.codes_bind_end [OF codes_uvlc], erule o(1))
     apply (rule vlc.codes_check_reader, erule o(2))
     apply (rule vlc.codes_return, rule refl)
    apply (rule step_opt, simp add: x0)
     apply (rule step_uvlc, erule f(1), rule step_uvlc, erule f(3), rule end_uvlc, erule f(2), rule refl)
    apply (rule step_opt, simp add: x0)
     apply (rule end_code, simp, simp, erule a(1), rule refl)
    apply (rule end_opt, simp add: x0)
     apply (rule vlc.codes_bind_end [OF codes_flag], erule p(1))
     apply (rule vlc.codes_return, rule refl)
    apply (simp only: o(3) f(4) a(2) p(2) cong: if_cong)
    apply (rule sps_next.equality)
    apply simp_all
    done
qed

text \<open>The extension the parser ends with, when it starts from \<open>x0\<close>, and the limits it leaves in the SPS.\<close>

definition next_received :: "sps_next \<Rightarrow> sps_next \<Rightarrow> sps_next" where
  "next_received x x0 = x\<lparr>
     m_NextEnabled := m_NextEnabled x0,
     m_AffineType := m_AffineType (if m_Affine x then x else x0),
     m_CTUSize := m_CTUSize (if m_QTBT x then x else x0),
     m_minQT := (if m_QTBT x then (fst (m_minQT x), fst (snd (m_minQT x)), if m_dualITree x then snd (snd (m_minQT x)) else 0)
       else m_minQT x0),
     m_maxBTDepth := (if m_QTBT x then (getMaxBTDepthI x, getMaxBTDepth x, if m_dualITree x then getMaxBTDepthIChroma x else 0)
       else m_maxBTDepth x0),
     m_dualITree := m_dualITree (if m_QTBT x then x else x0),
     m_subPuLog2Size := m_subPuLog2Size (if m_SubPuMvp x then x else x0),
     m_ImvMode := m_ImvMode (if m_IMV x then x else x0),
     m_OBMCBlkSize := m_OBMCBlkSize (if m_OBMC x then x else x0),
     m_FRUCRefineFilter := m_FRUCRefineFilter (if m_FRUC x then x else x0),
     m_FRUCRefineRange := m_FRUCRefineRange (if m_FRUC x then x else x0),
     m_FRUCSmallBlkRefineDepth := m_FRUCSmallBlkRefineDepth (if m_FRUC x then x else x0),
     m_AClipQuant := m_AClipQuant (if m_AClip x then x else x0),
     m_IntraPDPCMode := m_IntraPDPCMode (if m_IntraPDPC x then x else x0)\<rparr>"

definition limits_received :: "sps_next \<Rightarrow> cu_limits \<Rightarrow> cu_limits" where
  "limits_received x l = (if m_QTBT x then l\<lparr>m_uiMaxCodingDepth := nat (the (aucLog2 (m_CTUSize x))) - 2,
     m_uiMaxCUWidth := m_CTUSize x, m_uiMaxCUHeight := m_CTUSize x\<rparr> else l)"

text \<open>The optional blocks, on an extension \<open>y\<close> that has the flags already.\<close>

abbreviation qtbt_part :: "sps_next \<Rightarrow> sps_next \<Rightarrow> sps_next" where
  "qtbt_part x y \<equiv> y\<lparr>m_dualITree := m_dualITree (if m_QTBT x then x else y),
     m_CTUSize := m_CTUSize (if m_QTBT x then x else y),
     m_minQT := (if m_QTBT x then (fst (m_minQT x), fst (snd (m_minQT x)), if m_dualITree x then snd (snd (m_minQT x)) else 0)
       else m_minQT y),
     m_maxBTDepth := (if m_QTBT x then (getMaxBTDepthI x, getMaxBTDepth x, if m_dualITree x then getMaxBTDepthIChroma x else 0)
       else m_maxBTDepth y)\<rparr>"

lemma codes_next_qtbt_part:
  assumes "m_QTBT x \<Longrightarrow> next_qtbt_ok x"
  shows "vlc.codes (\<lambda>s. if m_QTBT x then code_next_qtbt x s else Some s)
    (\<lambda>s. if m_QTBT x then parse_next_qtbt (y, l) s else Some ((y, l), s)) (qtbt_part x y, limits_received x l)"
proof (cases "m_QTBT x")
  case True
  show ?thesis
    unfolding limits_received_def eqTrueI [OF True] if_True
    by (rule vlc.codes_cong [OF codes_next_qtbt [OF assms [OF True]] refl refl])
      (simp only: prod.inject sps_next.simps refl simp_thms)
qed (simp add: limits_received_def vlc.codes_return)

abbreviation sub_pu_part :: "sps_next \<Rightarrow> sps_next \<Rightarrow> sps_next" where
  "sub_pu_part x y \<equiv> y\<lparr>m_subPuLog2Size := m_subPuLog2Size (if m_SubPuMvp x then x else y), m_subPuMrgMode := m_subPuMrgMode x\<rparr>"

lemma codes_next_sub_pu_part:
  assumes "next_modes_ok x" "m_SubPuMvp x \<Longrightarrow> 2 \<le> m_subPuLog2Size x \<and> m_subPuLog2Size x < 10"
    and y: "m_SubPuMvp y = m_SubPuMvp x" "m_subPuMrgMode y = of_bool (m_SubPuMvp x)"
  shows "vlc.codes (\<lambda>s. if m_SubPuMvp x then code_next_sub_pu x s else Some s)
    (\<lambda>s. if m_SubPuMvp x then parse_next_sub_pu y s else Some (y, s)) (sub_pu_part x y)"
proof (cases "m_SubPuMvp x")
  case True
  have m: "m_subPuMrgMode x \<in> {0, 1, 2, 3}" "m_subPuMrgMode x \<noteq> 0"
    using assms(1) True unfolding next_modes_ok_def by blast+
  show ?thesis
    unfolding eqTrueI [OF True] if_True
    by (rule vlc.codes_cong [OF codes_next_sub_pu refl refl], insert assms(2) [OF True] m)
      (blast | rule sps_next.equality; simp add: y True)+
next
  case False
  then have "m_subPuMrgMode x = 0" using assms(1) unfolding next_modes_ok_def by blast
  with False show ?thesis by (simp add: vlc.codes_return y)
qed

lemma codes_SPSNext:
  assumes ok: "next_ok x"
  shows "vlc.codes (codeSPSNext x) (parseSPSNext (x0, l)) (next_received x x0, limits_received x l)"
proof -
  have m: "next_modes_ok x" and q: "m_QTBT x \<Longrightarrow> next_qtbt_ok x" and p: "next_params_ok x"
    and z: "m_SubPuMvp x \<Longrightarrow> 2 \<le> m_subPuLog2Size x \<and> m_subPuLog2Size x < 10"
    using ok unfolding next_ok_def by blast+
  show ?thesis
    unfolding codeSPSNext_def parseSPSNext_def Let_def prod.case
    apply (rule vlc.codes_bind_name [OF codes_next_flags1])
    subgoal for y1
      apply (rule vlc.codes_bind_name [OF codes_next_flags2 [OF m]])
      subgoal premises prems for y2
      proof -
        have Q: "m_QTBT y2 = m_QTBT x" and S: "m_SubPuMvp (qtbt_part x y2) = m_SubPuMvp x"
          "m_subPuMrgMode (qtbt_part x y2) = of_bool (m_SubPuMvp x)"
          by (simp_all add: prems del: split_of_bool)
        show ?thesis
          unfolding Q
          apply (rule vlc.codes_bind [OF codes_next_qtbt_part], erule q)
          unfolding prod.case S(1)
          apply (rule vlc.codes_bind [OF codes_next_sub_pu_part [OF m z S]], assumption)
          unfolding prod.case
          apply (rule vlc.codes_bind_name [OF codes_next_modes [OF m]])
                  prefer 8
          subgoal for y3
            apply (rule vlc.codes_bind_end [OF codes_next_params [OF p]])
                prefer 5
                apply (rule vlc.codes_return)
                apply (simp only: prod.inject simp_thms)
                apply (rule sps_next.equality)
            by (simp_all add: prems next_received_def)
          by (simp_all add: prems del: split_of_bool)
      qed
      done
    done
qed

end
