(* ===== verification/RefPicSet.thy ===== *)
theory RefPicSet
  imports Vlc "HOL-Library.Multiset"
begin

text \<open>
  Short term reference picture sets: class \<open>ReferencePictureSet\<close> of \<open>CommonLib/Slice.h\<close> and
  \<open>Slice.cpp\<close>, its sorting, and its syntax \<open>HLSWriter::xCodeShortTermRefPicSet\<close> and
  \<open>HLSyntaxReader::parseShortTermRefPicSet\<close>, with explicit coding and with prediction from another set.

  The object has arrays of \<open>MAX_NUM_REF_PICS\<close> entries and the parser checks no index against that bound;
  an access outside is the value \<^const>\<open>None\<close>.
\<close>

definition MAX_NUM_REF_PICS :: nat where "MAX_NUM_REF_PICS = 16"

record ref_pic_set =
  numberOfPictures :: int
  numberOfNegativePictures :: int
  numberOfPositivePictures :: int
  numberOfLongtermPictures :: int
  deltaPOC :: "int list"
  POC :: "int list"
  used :: "bool list"
  interRPSPrediction :: bool
  deltaRIdxMinus1 :: int
  deltaRPS :: int
  numRefIdc :: int
  refIdc :: "int list"
  bCheckLTMSB :: "bool list"
  pocLSBLT :: "int list"
  deltaPOCMSBCycleLT :: "int list"
  deltaPocMSBPresentFlag :: "bool list"

definition ReferencePictureSet :: ref_pic_set where
  "ReferencePictureSet = \<lparr>numberOfPictures = 0, numberOfNegativePictures = 0, numberOfPositivePictures = 0,
     numberOfLongtermPictures = 0, deltaPOC = replicate MAX_NUM_REF_PICS 0, POC = replicate MAX_NUM_REF_PICS 0,
     used = replicate MAX_NUM_REF_PICS False, interRPSPrediction = False, deltaRIdxMinus1 = 0, deltaRPS = 0,
     numRefIdc = 0, refIdc = replicate (MAX_NUM_REF_PICS + 1) 0,
     bCheckLTMSB = replicate MAX_NUM_REF_PICS False, pocLSBLT = replicate MAX_NUM_REF_PICS 0,
     deltaPOCMSBCycleLT = replicate MAX_NUM_REF_PICS 0,
     deltaPocMSBPresentFlag = replicate MAX_NUM_REF_PICS False\<rparr>"

definition rps_wf :: "ref_pic_set \<Rightarrow> bool" where
  "rps_wf r \<longleftrightarrow> length (deltaPOC r) = MAX_NUM_REF_PICS \<and> length (POC r) = MAX_NUM_REF_PICS
     \<and> length (used r) = MAX_NUM_REF_PICS \<and> length (refIdc r) = MAX_NUM_REF_PICS + 1
     \<and> length (bCheckLTMSB r) = MAX_NUM_REF_PICS \<and> length (pocLSBLT r) = MAX_NUM_REF_PICS
     \<and> length (deltaPOCMSBCycleLT r) = MAX_NUM_REF_PICS \<and> length (deltaPocMSBPresentFlag r) = MAX_NUM_REF_PICS"

section \<open>Accessors\<close>

definition getDeltaPOC :: "ref_pic_set \<Rightarrow> int \<Rightarrow> int option" where
  "getDeltaPOC r bufferNum = arr_get_i (deltaPOC r) bufferNum"

definition getUsed :: "ref_pic_set \<Rightarrow> int \<Rightarrow> bool option" where
  "getUsed r bufferNum = arr_get_i (used r) bufferNum"

definition getPOC :: "ref_pic_set \<Rightarrow> int \<Rightarrow> int option" where
  "getPOC r bufferNum = arr_get_i (POC r) bufferNum"

definition getRefIdc :: "ref_pic_set \<Rightarrow> int \<Rightarrow> int option" where
  "getRefIdc r bufferNum = arr_get_i (refIdc r) bufferNum"

definition getCheckLTMSBPresent :: "ref_pic_set \<Rightarrow> int \<Rightarrow> bool option" where
  "getCheckLTMSBPresent r bufferNum = arr_get_i (bCheckLTMSB r) bufferNum"

definition setDeltaPOC :: "int \<Rightarrow> int \<Rightarrow> ref_pic_set \<Rightarrow> ref_pic_set option" where
  "setDeltaPOC bufferNum x r = do { a \<leftarrow> arr_set_i (deltaPOC r) bufferNum x; Some (r\<lparr>deltaPOC := a\<rparr>) }"

definition setUsed :: "int \<Rightarrow> bool \<Rightarrow> ref_pic_set \<Rightarrow> ref_pic_set option" where
  "setUsed bufferNum b r = do { a \<leftarrow> arr_set_i (used r) bufferNum b; Some (r\<lparr>used := a\<rparr>) }"

definition setPOC :: "int \<Rightarrow> int \<Rightarrow> ref_pic_set \<Rightarrow> ref_pic_set option" where
  "setPOC bufferNum x r = do { a \<leftarrow> arr_set_i (POC r) bufferNum x; Some (r\<lparr>POC := a\<rparr>) }"

definition setRefIdc :: "int \<Rightarrow> int \<Rightarrow> ref_pic_set \<Rightarrow> ref_pic_set option" where
  "setRefIdc bufferNum x r = do { a \<leftarrow> arr_set_i (refIdc r) bufferNum x; Some (r\<lparr>refIdc := a\<rparr>) }"

definition setCheckLTMSBPresent :: "int \<Rightarrow> bool \<Rightarrow> ref_pic_set \<Rightarrow> ref_pic_set option" where
  "setCheckLTMSBPresent bufferNum b r =
     do { a \<leftarrow> arr_set_i (bCheckLTMSB r) bufferNum b; Some (r\<lparr>bCheckLTMSB := a\<rparr>) }"

section \<open>Sorting\<close>

text \<open>One pass of the insertion: \<open>sort_insert d u n\<close> is the loop over \<open>k = n - 1, \<dots>, 0\<close>.\<close>

fun sort_insert :: "int \<Rightarrow> bool \<Rightarrow> nat \<Rightarrow> ref_pic_set \<Rightarrow> ref_pic_set option" where
  "sort_insert d u 0 r = Some r"
| "sort_insert d u (Suc k) r = do {
     temp \<leftarrow> getDeltaPOC r (int k);
     r \<leftarrow> (if d < temp then do {
              r \<leftarrow> setDeltaPOC (int k + 1) temp r;
              v \<leftarrow> getUsed r (int k);
              r \<leftarrow> setUsed (int k + 1) v r;
              r \<leftarrow> setDeltaPOC (int k) d r;
              setUsed (int k) u r
            } else Some r);
     sort_insert d u k r
   }"

definition sort_pass :: "nat \<Rightarrow> ref_pic_set \<Rightarrow> ref_pic_set option" where
  "sort_pass j r = do {
     d \<leftarrow> getDeltaPOC r (int j);
     u \<leftarrow> getUsed r (int j);
     sort_insert d u j r
   }"

definition flip_entry :: "nat \<Rightarrow> nat \<Rightarrow> ref_pic_set \<Rightarrow> ref_pic_set option" where
  "flip_entry m j r = do {
     let k = int m - 1 - int j;
     d \<leftarrow> getDeltaPOC r (int j);
     u \<leftarrow> getUsed r (int j);
     dk \<leftarrow> getDeltaPOC r k;
     r \<leftarrow> setDeltaPOC (int j) dk r;
     uk \<leftarrow> getUsed r k;
     r \<leftarrow> setUsed (int j) uk r;
     r \<leftarrow> setDeltaPOC k d r;
     setUsed k u r
   }"

definition sortDeltaPOC :: "ref_pic_set \<Rightarrow> ref_pic_set option" where
  "sortDeltaPOC r = do {
     r \<leftarrow> for_loop sort_pass [1..<nat (numberOfPictures r)] r;
     let m = nat (numberOfNegativePictures r);
     for_loop (flip_entry m) [0..<m div 2] r
   }"

section \<open>Writer\<close>

definition code_ref_idc :: "ref_pic_set \<Rightarrow> int \<Rightarrow> obs \<Rightarrow> obs option" where
  "code_ref_idc rps j s = do {
     idc \<leftarrow> getRefIdc rps j;
     s \<leftarrow> xWriteCode (if idc = 1 then 1 else 0) 1 s;
     if idc \<noteq> 1 then xWriteCode (to_u32 (idc div 2)) 1 s else Some s
   }"

fun code_s0 :: "ref_pic_set \<Rightarrow> int list \<Rightarrow> int \<Rightarrow> obs \<Rightarrow> obs option" where
  "code_s0 rps [] prev s = Some s"
| "code_s0 rps (j # js) prev s = do {
     d \<leftarrow> getDeltaPOC rps j;
     s \<leftarrow> xWriteUvlc (to_u32 (prev - d - 1)) s;
     u \<leftarrow> getUsed rps j;
     s \<leftarrow> xWriteFlag (of_bool u) s;
     code_s0 rps js d s
   }"

fun code_s1 :: "ref_pic_set \<Rightarrow> int list \<Rightarrow> int \<Rightarrow> obs \<Rightarrow> obs option" where
  "code_s1 rps [] prev s = Some s"
| "code_s1 rps (j # js) prev s = do {
     d \<leftarrow> getDeltaPOC rps j;
     s \<leftarrow> xWriteUvlc (to_u32 (d - prev - 1)) s;
     u \<leftarrow> getUsed rps j;
     s \<leftarrow> xWriteFlag (of_bool u) s;
     code_s1 rps js d s
   }"

definition xCodeShortTermRefPicSet :: "ref_pic_set \<Rightarrow> bool \<Rightarrow> int \<Rightarrow> obs \<Rightarrow> obs option" where
  "xCodeShortTermRefPicSet rps calledFromSliceHeader idx s = do {
     s \<leftarrow> (if idx > 0 then xWriteFlag (of_bool (interRPSPrediction rps)) s else Some s);
     if interRPSPrediction rps then do {
       s \<leftarrow> (if calledFromSliceHeader then xWriteUvlc (to_u32 (deltaRIdxMinus1 rps)) s else Some s);
       s \<leftarrow> xWriteCode (if deltaRPS rps \<ge> 0 then 0 else 1) 1 s;
       s \<leftarrow> xWriteUvlc (to_u32 (\<bar>deltaRPS rps\<bar> - 1)) s;
       for_loop (code_ref_idc rps) [0..numRefIdc rps - 1] s
     } else do {
       s \<leftarrow> xWriteUvlc (to_u32 (numberOfNegativePictures rps)) s;
       s \<leftarrow> xWriteUvlc (to_u32 (numberOfPositivePictures rps)) s;
       s \<leftarrow> code_s0 rps [0..numberOfNegativePictures rps - 1] 0 s;
       code_s1 rps [numberOfNegativePictures rps..
                    numberOfNegativePictures rps + numberOfPositivePictures rps - 1] 0 s
     }
   }"

section \<open>Parser\<close>

text \<open>The counters \<open>k\<close>, \<open>k0\<close> and \<open>k1\<close> of the prediction are threaded through its loop.\<close>

definition read_ref_idc :: "ibs \<Rightarrow> (int \<times> ibs) option" where
  "read_ref_idc s = do {
     (bit, s) \<leftarrow> xReadCode 1 s;
     let idc = to_i32 bit;
     if idc = 0 then do { (bit, s) \<leftarrow> xReadCode 1 s; Some (to_i32 (u32 (push_bit 1 bit)), s) }
     else Some (idc, s)
   }"

definition predict_entry :: "ref_pic_set \<Rightarrow> int \<Rightarrow> int \<Rightarrow> int \<Rightarrow> ref_pic_set \<times> int \<times> int \<times> int
    \<Rightarrow> (ref_pic_set \<times> int \<times> int \<times> int) option" where
  "predict_entry rpsRef d j idc x = do {
     let (rps, k, k0, k1) = x;
     (rps, k, k0, k1) \<leftarrow> (if idc = 1 \<or> idc = 2 then do {
         refPOC \<leftarrow> (if j < numberOfPictures rpsRef then getDeltaPOC rpsRef j else Some 0);
         deltaPOC \<leftarrow> i32 (d + refPOC);
         rps \<leftarrow> setDeltaPOC k deltaPOC rps;
         rps \<leftarrow> setUsed k (idc = 1) rps;
         Some (if deltaPOC < 0 then (rps, k + 1, k0 + 1, k1) else (rps, k + 1, k0, k1 + 1))
       } else Some (rps, k, k0, k1));
     rps \<leftarrow> setRefIdc j idc rps;
     Some (rps, k, k0, k1)
   }"

fun parse_ref_idcs :: "ref_pic_set \<Rightarrow> int \<Rightarrow> int list \<Rightarrow> ref_pic_set \<times> int \<times> int \<times> int \<Rightarrow> ibs
    \<Rightarrow> ((ref_pic_set \<times> int \<times> int \<times> int) \<times> ibs) option" where
  "parse_ref_idcs rpsRef d [] x s = Some (x, s)"
| "parse_ref_idcs rpsRef d (j # js) x s = do {
     (idc, s) \<leftarrow> read_ref_idc s;
     x \<leftarrow> predict_entry rpsRef d j idc x;
     parse_ref_idcs rpsRef d js x s
   }"

fun parse_s0 :: "int list \<Rightarrow> int \<Rightarrow> ref_pic_set \<Rightarrow> ibs \<Rightarrow> (ref_pic_set \<times> ibs) option" where
  "parse_s0 [] prev rps s = Some (rps, s)"
| "parse_s0 (j # js) prev rps s = do {
     (code, s) \<leftarrow> xReadUvlc s;
     let poc = to_i32 (to_u32 (prev - int code - 1));
     rps \<leftarrow> setDeltaPOC j poc rps;
     (code, s) \<leftarrow> xReadFlag s;
     rps \<leftarrow> setUsed j (code \<noteq> 0) rps;
     parse_s0 js poc rps s
   }"

fun parse_s1 :: "int list \<Rightarrow> int \<Rightarrow> ref_pic_set \<Rightarrow> ibs \<Rightarrow> (ref_pic_set \<times> ibs) option" where
  "parse_s1 [] prev rps s = Some (rps, s)"
| "parse_s1 (j # js) prev rps s = do {
     (code, s) \<leftarrow> xReadUvlc s;
     let poc = to_i32 (to_u32 (prev + int code + 1));
     rps \<leftarrow> setDeltaPOC j poc rps;
     (code, s) \<leftarrow> xReadFlag s;
     rps \<leftarrow> setUsed j (code \<noteq> 0) rps;
     parse_s1 js poc rps s
   }"

text \<open>\<open>rpsList\<close> is the list of sets that the sequence parameter set holds so far.\<close>

definition parse_inter_rps :: "ref_pic_set list \<Rightarrow> ref_pic_set \<Rightarrow> int \<Rightarrow> ibs \<Rightarrow> (ref_pic_set \<times> ibs) option" where
  "parse_inter_rps rpsList rps idx s = do {
     (code, s) \<leftarrow> (if idx = int (length rpsList) then xReadUvlc s else Some (0, s));
     let rps = rps\<lparr>deltaRIdxMinus1 := to_i32 code\<rparr>;
     check_not (code > to_u32 (idx - 1));
     let rIdx = to_i32 (to_u32 (idx - 1 - int code));
     check_not (rIdx > idx - 1 \<or> rIdx < 0);
     rpsRef \<leftarrow> arr_get_i rpsList rIdx;
     (bit, s) \<leftarrow> xReadCode 1 s;
     (code, s) \<leftarrow> xReadUvlc s;
     let d = to_i32 (to_u32 ((1 - 2 * int bit) * (int code + 1)));
     let rps = rps\<lparr>deltaRPS := d\<rparr>;
     ((rps, k, k0, k1), s) \<leftarrow>
       parse_ref_idcs rpsRef d [0..numberOfPictures rpsRef] (rps, 0, 0, 0) s;
     rps \<leftarrow> sortDeltaPOC (rps\<lparr>numRefIdc := numberOfPictures rpsRef + 1, numberOfPictures := k,
              numberOfNegativePictures := k0, numberOfPositivePictures := k1\<rparr>);
     Some (rps, s)
   }"

definition parse_explicit_rps :: "ref_pic_set \<Rightarrow> ibs \<Rightarrow> (ref_pic_set \<times> ibs) option" where
  "parse_explicit_rps rps s = do {
     (code, s) \<leftarrow> xReadUvlc s;
     let neg = to_i32 code;
     let rps = rps\<lparr>numberOfNegativePictures := neg\<rparr>;
     (code, s) \<leftarrow> xReadUvlc s;
     let pos = to_i32 code;
     let rps = rps\<lparr>numberOfPositivePictures := pos\<rparr>;
     (rps, s) \<leftarrow> parse_s0 [0..neg - 1] 0 rps s;
     (rps, s) \<leftarrow> parse_s1 [neg..neg + pos - 1] 0 rps s;
     Some (rps\<lparr>numberOfPictures := neg + pos\<rparr>, s)
   }"

definition parseShortTermRefPicSet :: "ref_pic_set list \<Rightarrow> ref_pic_set \<Rightarrow> int \<Rightarrow> ibs
    \<Rightarrow> (ref_pic_set \<times> ibs) option" where
  "parseShortTermRefPicSet rpsList rps idx s = do {
     (interRPSPred, s) \<leftarrow> (if idx > 0 then xReadFlag s else Some (0, s));
     let rps = rps\<lparr>interRPSPrediction := (interRPSPred \<noteq> 0)\<rparr>;
     if interRPSPred \<noteq> 0 then parse_inter_rps rpsList rps idx s
     else parse_explicit_rps rps s
   }"

section \<open>The arrays as one list of entries\<close>

definition entries :: "ref_pic_set \<Rightarrow> (int \<times> bool) list" where
  "entries r = zip (deltaPOC r) (used r)"

definition with_entries :: "ref_pic_set \<Rightarrow> (int \<times> bool) list \<Rightarrow> ref_pic_set" where
  "with_entries r es = r\<lparr>deltaPOC := map fst es, used := map snd es\<rparr>"

lemma entries_with [simp]: "entries (with_entries r es) = es"
  by (simp add: entries_def with_entries_def zip_map_fst_snd)

lemma with_entries_entries [simp]: "length (deltaPOC r) = length (used r) \<Longrightarrow> with_entries r (entries r) = r"
  by (simp add: entries_def with_entries_def)

lemma with_entries_with [simp]: "with_entries (with_entries r es) es' = with_entries r es'"
  by (simp add: with_entries_def)

lemma with_entries_sel [simp]:
  "numberOfPictures (with_entries r es) = numberOfPictures r"
  "numberOfNegativePictures (with_entries r es) = numberOfNegativePictures r"
  by (simp_all add: with_entries_def)

lemma length_entries: "rps_wf r \<Longrightarrow> length (entries r) = MAX_NUM_REF_PICS"
  by (simp add: rps_wf_def entries_def)

lemma get_with_entries [simp]:
  "k < length es \<Longrightarrow> getDeltaPOC (with_entries r es) (int k) = Some (fst (es ! k))"
  "k < length es \<Longrightarrow> getUsed (with_entries r es) (int k) = Some (snd (es ! k))"
  by (simp_all add: getDeltaPOC_def getUsed_def with_entries_def)

lemma set_both_entries:
  "k < length es \<Longrightarrow> setDeltaPOC (int k) d (with_entries r es) \<bind> setUsed (int k) u
     = Some (with_entries r (es[k := (d, u)]))"
  by (simp add: setDeltaPOC_def setUsed_def with_entries_def map_update)

lemma set_both_entries':
  "k < length es \<Longrightarrow> setDeltaPOC (int k) d (with_entries r es) \<bind> (\<lambda>r. setUsed (int k) u r \<bind> f)
     = f (with_entries r (es[k := (d, u)]))"
  using set_both_entries [of k es d r u] by (simp add: setDeltaPOC_def setUsed_def with_entries_def map_update)

section \<open>Insertion sort\<close>

fun insert_after :: "int \<times> bool \<Rightarrow> (int \<times> bool) list \<Rightarrow> (int \<times> bool) list" where
  "insert_after x [] = [x]"
| "insert_after x (y # ys) = (if fst y \<le> fst x then y # insert_after x ys else x # y # ys)"

lemma mset_insert_after [simp]: "mset (insert_after x xs) = add_mset x (mset xs)"
  by (induction xs) auto

lemma set_insert_after [simp]: "set (insert_after x xs) = insert x (set xs)"
  by (metis mset_insert_after set_mset_add_mset_insert set_mset_mset)

lemma length_insert_after [simp]: "length (insert_after x xs) = Suc (length xs)"
  by (induction xs) auto

lemma insert_after_snoc: "fst x < fst y \<Longrightarrow> insert_after x (xs @ [y]) = insert_after x xs @ [y]"
  by (induction xs) auto

lemma insert_after_all: "\<forall>y\<in>set xs. fst y \<le> fst x \<Longrightarrow> insert_after x xs = xs @ [x]"
  by (induction xs) auto

lemma sorted_insert_after: "sorted (map fst xs) \<Longrightarrow> sorted (map fst (insert_after x xs))"
  by (induction xs) auto

lemma filter_insert_after: "sorted (map fst xs) \<Longrightarrow>
    filter (\<lambda>y. k = fst y) (insert_after x xs) = filter (\<lambda>y. k = fst y) (xs @ [x])"
proof (induction xs)
  case (Cons y ys)
  then have "filter (\<lambda>z. fst x = fst z) (y # ys) = []" if "\<not> fst y \<le> fst x"
    using that by (auto simp: filter_empty_conv)
  with Cons show ?case by auto
qed simp

lemma insert_after_sort_key: "insert_after x (sort_key fst xs) = sort_key fst (xs @ [x])"
proof (rule properties_for_sort_key [symmetric])
  fix k
  have "filter (\<lambda>y. c = fst y) (insert_after x (sort_key fst xs)) = filter (\<lambda>y. c = fst y) (xs @ [x])" for c
    using sort_key_stable [of fst c xs] by (simp add: filter_insert_after eq_commute [of _ c])
  then show "filter (\<lambda>y. fst k = fst y) (insert_after x (sort_key fst xs)) = filter (\<lambda>y. fst k = fst y) (xs @ [x])" .
qed (simp_all add: sorted_insert_after)

lemma sort_insert_step:
  assumes "Suc k < length es"
  shows "sort_insert d u (Suc k) (with_entries r es)
    = sort_insert d u k (with_entries r (if d < fst (es ! k) then es[Suc k := es ! k, k := (d, u)] else es))"
proof -
  have k: "int k + 1 = int (Suc k)" by simp
  show ?thesis
    using assms unfolding sort_insert.simps k
    by (simp add: getDeltaPOC_def getUsed_def setDeltaPOC_def setUsed_def with_entries_def map_update del: of_nat_Suc)
qed

lemma sort_insert_stays:
  "k < length es \<Longrightarrow> \<forall>i<k. fst (es ! i) \<le> d \<Longrightarrow> sort_insert d u k (with_entries r es) = Some (with_entries r es)"
  by (induction k) (auto simp: sort_insert_step simp del: sort_insert.simps(2) simp: not_less [symmetric])

lemma sort_insert_law:
  "sorted (map fst xs) \<Longrightarrow> sort_insert d u (length xs) (with_entries r (xs @ (d, u) # ys))
     = Some (with_entries r (insert_after (d, u) xs @ ys))"
proof (induction xs arbitrary: ys rule: rev_induct)
  case (snoc y xs)
  let ?es = "xs @ y # (d, u) # ys"
  show ?case
  proof (cases "d < fst y")
    case True
    have "?es[Suc (length xs) := y, length xs := (d, u)] = xs @ (d, u) # y # ys"
      by (simp add: list_update_append)
    with snoc True show ?thesis
      by (simp add: sort_insert_step insert_after_snoc sorted_append del: sort_insert.simps(2))
  next
    case False
    have le: "\<forall>z\<in>set (xs @ [y]). fst z \<le> d" using snoc.prems False by (force simp: sorted_append)
    have "fst (?es ! i) \<le> d" if "i < length (xs @ [y])" for i
      using le that nth_mem [OF that] by (cases "i = length xs") (auto simp: nth_append)
    then have "sort_insert d u (length (xs @ [y])) (with_entries r ?es) = Some (with_entries r ?es)"
      by (intro sort_insert_stays) auto
    with le show ?thesis using insert_after_all [of "xs @ [y]" "(d, u)"] by simp
  qed
qed simp

lemma sort_loop_law:
  assumes "n \<le> length es"
  shows "for_loop sort_pass [1..<n] (with_entries r es) = Some (with_entries r (sort_key fst (take n es) @ drop n es))"
proof (cases "n = 0")
  case False
  have "for_loop sort_pass [1..<n] (with_entries r (sort_key fst (take 1 es) @ drop 1 es))
      = Some (with_entries r (sort_key fst (take n es) @ drop n es))"
  proof (rule for_loop_upt)
    fix j
    assume j: "1 \<le> j" "j < n"
    obtain d u where du: "es ! j = (d, u)" by fastforce
    with j assms have dr: "drop j es = (d, u) # drop (Suc j) es" by (simp add: Cons_nth_drop_Suc [symmetric])
    have len: "length (sort_key fst (take j es)) = j" using j assms by simp
    have "sort_pass j (with_entries r (sort_key fst (take j es) @ drop j es))
        = sort_insert d u j (with_entries r (sort_key fst (take j es) @ (d, u) # drop (Suc j) es))"
      using len j assms unfolding sort_pass_def dr by (simp add: nth_append del: length_sort)
    also have "\<dots> = Some (with_entries r (insert_after (d, u) (sort_key fst (take j es)) @ drop (Suc j) es))"
      using sort_insert_law [of "sort_key fst (take j es)"] len by simp
    also have "insert_after (d, u) (sort_key fst (take j es)) = sort_key fst (take (Suc j) es)"
      using j assms du by (simp add: insert_after_sort_key take_Suc_conv_app_nth del: sort_key_simps)
    finally show "sort_pass j (with_entries r (sort_key fst (take j es) @ drop j es))
        = Some (with_entries r (sort_key fst (take (Suc j) es) @ drop (Suc j) es))" .
  qed (use False in simp)
  moreover have "sort_key fst (take 1 es) @ drop 1 es = es" by (cases es) auto
  ultimately show ?thesis by simp
qed simp

definition flipped :: "nat \<Rightarrow> nat \<Rightarrow> 'a list \<Rightarrow> 'a list" where
  "flipped m j es = map (\<lambda>i. if i < m \<and> (i < j \<or> m - 1 - i < j) then es ! (m - 1 - i) else es ! i) [0..<length es]"

lemma length_flipped [simp]: "length (flipped m j es) = length es"
  by (simp add: flipped_def)

lemma flip_loop_law:
  assumes "m \<le> length es"
  shows "for_loop (flip_entry m) [0..<m div 2] (with_entries r es) = Some (with_entries r (rev (take m es) @ drop m es))"
proof -
  have "for_loop (flip_entry m) [0..<m div 2] (with_entries r (flipped m 0 es))
      = Some (with_entries r (flipped m (m div 2) es))"
  proof (rule for_loop_upt)
    fix j
    assume j: "j < m div 2"
    then have k: "int m - 1 - int j = int (m - 1 - j)" "m - 1 - j < length es" "j < length es" "m - 1 - j \<noteq> j"
      using assms by auto
    let ?f = "flipped m j es"
    have "flip_entry m j (with_entries r ?f) = Some (with_entries r (?f[j := ?f ! (m - 1 - j), m - 1 - j := ?f ! j]))"
      using k unfolding flip_entry_def k(1) Let_def
      by (simp add: getDeltaPOC_def getUsed_def setDeltaPOC_def setUsed_def with_entries_def map_update)
    also have "?f[j := ?f ! (m - 1 - j), m - 1 - j := ?f ! j] = flipped m (Suc j) es"
      using k j by (intro nth_equalityI) (auto simp: nth_list_update flipped_def)
    finally show "flip_entry m j (with_entries r ?f) = Some (with_entries r (flipped m (Suc j) es))" .
  qed simp
  moreover have "flipped m 0 es = es" by (simp add: flipped_def map_nth)
  moreover have "flipped m (m div 2) es = rev (take m es) @ drop m es"
  proof (rule nth_equalityI)
    fix i
    assume "i < length (flipped m (m div 2) es)"
    then have i: "i < length es" by simp
    have "\<not> i < m div 2 \<Longrightarrow> \<not> m - Suc i < m div 2 \<Longrightarrow> i < m \<Longrightarrow> m - Suc i = i" by arith
    with i assms show "flipped m (m div 2) es ! i = (rev (take m es) @ drop m es) ! i"
      by (auto simp: flipped_def nth_append rev_nth)
  qed (use assms in simp)
  ultimately show ?thesis by simp
qed

definition sorted_entries :: "nat \<Rightarrow> nat \<Rightarrow> (int \<times> bool) list \<Rightarrow> (int \<times> bool) list" where
  "sorted_entries n m es = (let s = sort_key fst (take n es) @ drop n es in rev (take m s) @ drop m s)"

lemma sortDeltaPOC_law:
  assumes "rps_wf r" "numberOfPictures r \<le> 16" "numberOfNegativePictures r \<le> 16"
  shows "sortDeltaPOC r = Some (with_entries r
    (sorted_entries (nat (numberOfPictures r)) (nat (numberOfNegativePictures r)) (entries r)))"
proof -
  have l: "length (entries r) = 16" "length (deltaPOC r) = length (used r)"
    using length_entries [OF assms(1)] assms(1) by (simp_all add: rps_wf_def MAX_NUM_REF_PICS_def)
  have r: "r = with_entries r (entries r)" using l by simp
  show ?thesis
    using assms(2,3) l sort_loop_law [of "nat (numberOfPictures r)" "entries r" r]
      flip_loop_law [of "nat (numberOfNegativePictures r)" "sort_key fst (take (nat (numberOfPictures r)) (entries r))
          @ drop (nat (numberOfPictures r)) (entries r)" r]
    unfolding sortDeltaPOC_def Let_def sorted_entries_def by simp
qed

text \<open>Below and above zero.\<close>

lemma sort_key_split:
  "sort_key fst p = sort_key fst (filter (\<lambda>e. fst e < 0) p) @ sort_key fst (filter (\<lambda>e. \<not> fst e < 0) p)"
  for p :: "(int \<times> bool) list"
proof (rule properties_for_sort_key)
  fix k
  show "filter (\<lambda>y. fst k = fst y) (sort_key fst (filter (\<lambda>e. fst e < 0) p) @ sort_key fst (filter (\<lambda>e. \<not> fst e < 0) p))
      = filter (\<lambda>y. fst k = fst y) p"
  proof (cases "fst k < 0")
    case True
    then have "filter (\<lambda>y. fst y = fst k) (filter (\<lambda>e. \<not> fst e < 0) p) = []"
      "filter (\<lambda>y. fst y = fst k) (filter (\<lambda>e. fst e < 0) p) = filter (\<lambda>y. fst y = fst k) p"
      by (auto simp: filter_empty_conv intro!: filter_cong)
    then show ?thesis by (simp add: eq_commute [of "fst k"] sort_key_stable del: filter_filter)
  next
    case False
    then have "filter (\<lambda>y. fst y = fst k) (filter (\<lambda>e. fst e < 0) p) = []"
      "filter (\<lambda>y. fst y = fst k) (filter (\<lambda>e. \<not> fst e < 0) p) = filter (\<lambda>y. fst y = fst k) p"
      by (auto simp: filter_empty_conv intro!: filter_cong)
    then show ?thesis by (simp add: eq_commute [of "fst k"] sort_key_stable del: filter_filter)
  qed
next
  show "mset (sort_key fst (filter (\<lambda>e. fst e < 0) p) @ sort_key fst (filter (\<lambda>e. \<not> fst e < 0) p)) = mset p"
    using multiset_partition [of "mset p" "\<lambda>e. fst e < 0"] by simp
  show "sorted (map fst (sort_key fst (filter (\<lambda>e. fst e < 0) p) @ sort_key fst (filter (\<lambda>e. \<not> fst e < 0) p)))"
    by (auto simp: sorted_append)
qed

definition split_sorted :: "(int \<times> bool) list \<Rightarrow> (int \<times> bool) list" where
  "split_sorted p = rev (sort_key fst (filter (\<lambda>e. fst e < 0) p)) @ sort_key fst (filter (\<lambda>e. \<not> fst e < 0) p)"

lemma sorted_entries_split:
  assumes "n \<le> length es" "m = length (filter (\<lambda>e. fst e < 0) (take n es))"
  shows "sorted_entries n m es = split_sorted (take n es) @ drop n es"
  using assms(1) unfolding sorted_entries_def Let_def sort_key_split [of "take n es"] split_sorted_def assms(2)
  by simp

lemma length_split_sorted [simp]: "length (split_sorted p) = length p"
  using sum_length_filter_compl [of "\<lambda>e. fst e < 0" p] by (simp add: split_sorted_def)

section \<open>Round trip of the explicit coding\<close>

definition copied :: "nat \<Rightarrow> nat \<Rightarrow> 'a list \<Rightarrow> 'a list \<Rightarrow> 'a list" where
  "copied a n src es = fold (\<lambda>j es. es[j := src ! j]) [a..<a + n] es"

lemma copied_simps [simp]:
  "copied a 0 src es = es"
  "copied a (Suc n) src es = copied (Suc a) n src (es[a := src ! a])"
  by (simp_all add: copied_def upt_conv_Cons del: upt_Suc)

lemma length_copied [simp]: "length (copied a n src es) = length es"
  by (induction n arbitrary: a es) auto

lemma nth_copied: "j < length es \<Longrightarrow> copied a n src es ! j = (if a \<le> j \<and> j < a + n then src ! j else es ! j)"
proof (induction n arbitrary: a es)
  case (Suc n)
  then show ?case by (cases "j = a") (auto simp: nth_list_update)
qed auto

lemma copied_all:
  assumes "m + n \<le> length es" "length es = length src"
  shows "copied m n src (copied 0 m src es) = take (m + n) src @ drop (m + n) es"
  using assms by (intro nth_equalityI) (auto simp: nth_copied nth_append)

lemma upt_Suc_int: "map int [a..<a + Suc n] = int a # map int [Suc a..<Suc a + n]"
  by (simp add: upt_conv_Cons)

lemma set_halves:
  assumes "k < length es"
  shows "setDeltaPOC (int k) d (with_entries r es) = Some ((with_entries r es)\<lparr>deltaPOC := (map fst es)[k := d]\<rparr>)"
    and "setUsed (int k) u ((with_entries r es)\<lparr>deltaPOC := (map fst es)[k := d]\<rparr>)
      = Some (with_entries r (es[k := (d, u)]))"
  using assms by (simp_all add: setDeltaPOC_def setUsed_def with_entries_def map_update)

text \<open>The deltas that the Exp-Golomb codes can carry.\<close>

fun s0_ok :: "int \<Rightarrow> int list \<Rightarrow> bool" where
  "s0_ok prev [] \<longleftrightarrow> True"
| "s0_ok prev (d # ds) \<longleftrightarrow> - (2 ^ 31) < d \<and> d < prev \<and> s0_ok d ds"

fun s1_ok :: "int \<Rightarrow> int list \<Rightarrow> bool" where
  "s1_ok prev [] \<longleftrightarrow> True"
| "s1_ok prev (d # ds) \<longleftrightarrow> prev < d \<and> d < 2 ^ 31 \<and> s1_ok d ds"

lemma get_entry:
  assumes "k < length (entries src)"
  shows "getDeltaPOC src (int k) = Some (fst (entries src ! k))" "getUsed src (int k) = Some (snd (entries src ! k))"
  using assms by (simp_all add: getDeltaPOC_def getUsed_def entries_def)

lemma codes_s0:
  "a + n \<le> length (entries src) \<Longrightarrow> a + n \<le> length es \<Longrightarrow> prev \<le> 0
    \<Longrightarrow> s0_ok prev (map fst (take n (drop a (entries src))))
    \<Longrightarrow> vlc.codes (code_s0 src (map int [a..<a + n]) prev)
      (parse_s0 (map int [a..<a + n]) prev (with_entries r es)) (with_entries r (copied a n (entries src) es))"
proof (induction n arbitrary: a prev es)
  case 0
  then show ?case by (auto intro!: vlc.codes_return)
next
  case (Suc n)
  let ?d = "fst (entries src ! a)" and ?u = "snd (entries src ! a)"
  have a: "a < length (entries src)" "a < length es" using Suc.prems(1,2) by simp_all
  then have dr: "drop a (entries src) = entries src ! a # drop (Suc a) (entries src)"
    by (simp add: Cons_nth_drop_Suc)
  then have ok: "- (2 ^ 31) < ?d" "?d < prev" "s0_ok ?d (map fst (take n (drop (Suc a) (entries src))))"
    using Suc.prems(4) by simp_all
  have IH: "vlc.codes (code_s0 src (map int [Suc a..<Suc a + n]) ?d)
      (parse_s0 (map int [Suc a..<Suc a + n]) ?d (with_entries r (es[a := (?d, ?u)])))
      (with_entries r (copied a (Suc n) (entries src) es))"
    using Suc.IH [of "Suc a" "es[a := (?d, ?u)]" ?d] Suc.prems ok by simp
  have v: "to_u32 (prev - ?d - 1) = nat (prev - ?d - 1)" "nat (prev - ?d - 1) < 2 ^ 31 - 1"
    using ok Suc.prems(3) by simp_all
  have p: "to_i32 (to_u32 (prev - int (nat (prev - ?d - 1)) - 1)) = ?d"
    using ok Suc.prems(3) by (simp add: to_i32_to_u32)
  show ?case
    unfolding upt_Suc_int code_s0.simps parse_s0.simps get_entry [OF a(1)] bind.bind_lunit v(1) Let_def
    apply (rule step_uvlc [OF v(2)])
    unfolding p set_halves(1) [OF a(2)] bind.bind_lunit
    apply (rule step_flag)
    unfolding of_bool_eq_0_iff not_not set_halves(2) [OF a(2)] bind.bind_lunit
    by (rule IH)
qed

lemma codes_s1:
  "a + n \<le> length (entries src) \<Longrightarrow> a + n \<le> length es \<Longrightarrow> 0 \<le> prev
    \<Longrightarrow> s1_ok prev (map fst (take n (drop a (entries src))))
    \<Longrightarrow> vlc.codes (code_s1 src (map int [a..<a + n]) prev)
      (parse_s1 (map int [a..<a + n]) prev (with_entries r es)) (with_entries r (copied a n (entries src) es))"
proof (induction n arbitrary: a prev es)
  case 0
  then show ?case by (auto intro!: vlc.codes_return)
next
  case (Suc n)
  let ?d = "fst (entries src ! a)" and ?u = "snd (entries src ! a)"
  have a: "a < length (entries src)" "a < length es" using Suc.prems(1,2) by simp_all
  then have dr: "drop a (entries src) = entries src ! a # drop (Suc a) (entries src)"
    by (simp add: Cons_nth_drop_Suc)
  then have ok: "prev < ?d" "?d < 2 ^ 31" "s1_ok ?d (map fst (take n (drop (Suc a) (entries src))))"
    using Suc.prems(4) by simp_all
  have IH: "vlc.codes (code_s1 src (map int [Suc a..<Suc a + n]) ?d)
      (parse_s1 (map int [Suc a..<Suc a + n]) ?d (with_entries r (es[a := (?d, ?u)])))
      (with_entries r (copied a (Suc n) (entries src) es))"
    using Suc.IH [of "Suc a" "es[a := (?d, ?u)]" ?d] Suc.prems ok by simp
  have v: "to_u32 (?d - prev - 1) = nat (?d - prev - 1)" "nat (?d - prev - 1) < 2 ^ 31 - 1"
    using ok Suc.prems(3) by simp_all
  have p: "to_i32 (to_u32 (prev + int (nat (?d - prev - 1)) + 1)) = ?d"
    using ok Suc.prems(3) by (simp add: to_i32_to_u32)
  show ?case
    unfolding upt_Suc_int code_s1.simps parse_s1.simps get_entry [OF a(1)] bind.bind_lunit v(1) Let_def
    apply (rule step_uvlc [OF v(2)])
    unfolding p set_halves(1) [OF a(2)] bind.bind_lunit
    apply (rule step_flag)
    unfolding of_bool_eq_0_iff not_not set_halves(2) [OF a(2)] bind.bind_lunit
    by (rule IH)
qed

definition explicit_ok :: "ref_pic_set \<Rightarrow> bool" where
  "explicit_ok src \<longleftrightarrow> 0 \<le> numberOfNegativePictures src \<and> 0 \<le> numberOfPositivePictures src
     \<and> numberOfNegativePictures src + numberOfPositivePictures src \<le> 16
     \<and> (let m = nat (numberOfNegativePictures src); n = nat (numberOfPositivePictures src)
        in s0_ok 0 (take m (deltaPOC src)) \<and> s1_ok 0 (take n (drop m (deltaPOC src))))"

definition explicit_received :: "ref_pic_set \<Rightarrow> ref_pic_set \<Rightarrow> ref_pic_set" where
  "explicit_received r0 src =
     (let n = nat (numberOfNegativePictures src + numberOfPositivePictures src)
      in r0\<lparr>numberOfPictures := numberOfNegativePictures src + numberOfPositivePictures src,
            numberOfNegativePictures := numberOfNegativePictures src,
            numberOfPositivePictures := numberOfPositivePictures src,
            deltaPOC := take n (deltaPOC src) @ drop n (deltaPOC r0),
            used := take n (used src) @ drop n (used r0)\<rparr>)"

lemma entries_map: "length (deltaPOC r) = length (used r) \<Longrightarrow> map fst (entries r) = deltaPOC r"
    "length (deltaPOC r) = length (used r) \<Longrightarrow> map snd (entries r) = used r"
  by (simp_all add: entries_def)

lemma codes_explicit:
  assumes "rps_wf src" "rps_wf r0" "explicit_ok src"
  shows "vlc.codes
    (\<lambda>s. xWriteUvlc (to_u32 (numberOfNegativePictures src)) s \<bind>
      (\<lambda>s. xWriteUvlc (to_u32 (numberOfPositivePictures src)) s \<bind>
      (\<lambda>s. code_s0 src [0..numberOfNegativePictures src - 1] 0 s \<bind>
      code_s1 src [numberOfNegativePictures src..numberOfNegativePictures src + numberOfPositivePictures src - 1] 0)))
    (parse_explicit_rps r0) (explicit_received r0 src)"
proof -
  define m where "m = nat (numberOfNegativePictures src)"
  define n where "n = nat (numberOfPositivePictures src)"
  have mn: "numberOfNegativePictures src = int m" "numberOfPositivePictures src = int n" "m + n \<le> 16"
    using assms(3) by (auto simp: m_def n_def explicit_ok_def)
  have u: "to_u32 (int m) = m" "to_u32 (int n) = n" "m < 2 ^ 31 - 1" "n < 2 ^ 31 - 1"
    "to_i32 m = int m" "to_i32 n = int n"
    using mn(3) by simp_all
  have l: "map int [0..<0 + m] = [0..int m - 1]" "map int [m..<m + n] = [int m..int m + int n - 1]"
    using upto_int [of 0 m] upto_int [of m "m + n"] by simp_all
  let ?r = "r0\<lparr>numberOfNegativePictures := int m, numberOfPositivePictures := int n\<rparr>"
  have e: "length (entries src) = 16" "length (entries ?r) = 16" "entries ?r = entries r0" "with_entries ?r (entries r0) = ?r"
    "length (deltaPOC src) = length (used src)" "length (deltaPOC r0) = length (used r0)"
    using length_entries [OF assms(1)] length_entries [OF assms(2)] assms(1,2)
    by (simp_all add: MAX_NUM_REF_PICS_def rps_wf_def entries_def with_entries_def)
  have ok: "s0_ok 0 (take m (map fst (entries src)))" "s1_ok 0 (take n (drop m (map fst (entries src))))"
    using assms(3) unfolding entries_map(1) [OF e(5)] by (simp_all add: explicit_ok_def Let_def m_def n_def)
  have s0: "vlc.codes (code_s0 src [0..int m - 1] 0) (parse_s0 [0..int m - 1] 0 ?r)
      (with_entries ?r (copied 0 m (entries src) (entries r0)))"
    using codes_s0 [of 0 m src "entries r0" 0 ?r] mn(3) e ok(1) unfolding l by (simp add: take_map)
  have s1: "vlc.codes (code_s1 src [int m..int m + int n - 1] 0)
      (parse_s1 [int m..int m + int n - 1] 0 (with_entries ?r (copied 0 m (entries src) (entries r0))))
      (with_entries ?r (take (m + n) (entries src) @ drop (m + n) (entries r0)))"
    using codes_s1 [of m n src "copied 0 m (entries src) (entries r0)" 0 ?r] mn(3) e ok(2)
      copied_all [of m n "entries r0" "entries src"] unfolding l by (simp add: take_map drop_map)
  have f: "(with_entries ?r (take (m + n) (entries src) @ drop (m + n) (entries r0)))\<lparr>numberOfPictures := int m + int n\<rparr>
      = explicit_received r0 src"
    using e(5,6) by (simp add: explicit_received_def mn with_entries_def Let_def nat_int_add take_map [symmetric]
        drop_map [symmetric] entries_map)
  show ?thesis
    unfolding mn(1,2) u(1,2) parse_explicit_rps_def Let_def
    apply (rule step_uvlc [OF u(3)], rule step_uvlc [OF u(4)])
    unfolding u(5,6)
    apply (rule vlc.codes_bind [OF s0])
    apply (rule vlc.codes_bind_end [OF s1])
    by (rule vlc.codes_return) (rule f)
qed

section \<open>Round trip of the prediction\<close>

definition ref_delta :: "ref_pic_set \<Rightarrow> nat \<Rightarrow> int" where
  "ref_delta ref j = (if int j < numberOfPictures ref then deltaPOC ref ! j else 0)"

text \<open>The entries that the indices \<open>js\<close> of the reference set predict.\<close>

definition picks :: "int \<Rightarrow> ref_pic_set \<Rightarrow> int list \<Rightarrow> nat list \<Rightarrow> (int \<times> bool) list" where
  "picks d ref idc js = map (\<lambda>j. (d + ref_delta ref j, idc ! j = 1)) (filter (\<lambda>j. idc ! j \<noteq> 0) js)"

lemma picks_simps [simp]:
  "picks d ref idc [] = []"
  "picks d ref idc (j # js) = (if idc ! j \<noteq> 0 then [(d + ref_delta ref j, idc ! j = 1)] else []) @ picks d ref idc js"
  by (simp_all add: picks_def)

text \<open>The sums are made on \<open>int\<close>.\<close>

definition deltas_fit :: "(int \<times> bool) list \<Rightarrow> bool" where
  "deltas_fit p \<longleftrightarrow> (\<forall>e\<in>set p. - (2 ^ 31) \<le> fst e \<and> fst e < 2 ^ 31)"

lemma deltas_fit_append [simp]: "deltas_fit (p @ q) \<longleftrightarrow> deltas_fit p \<and> deltas_fit q"
  by (auto simp: deltas_fit_def)

definition below :: "(int \<times> bool) list \<Rightarrow> int" where
  "below p = int (length (filter (\<lambda>e. fst e < 0) p))"

lemma below_append [simp]: "below [] = 0" "below (p @ q) = below p + below q"
  by (simp_all add: below_def)

lemma codes_ref_idc:
  assumes "j < length (refIdc src)" "refIdc src ! j \<in> {0, 1, 2}"
  shows "vlc.codes (code_ref_idc src (int j)) read_ref_idc (refIdc src ! j)"
proof -
  have g: "getRefIdc src (int j) = Some (refIdc src ! j)" using assms(1) by (simp add: getRefIdc_def)
  have two: "vlc.codes (\<lambda>s. xWriteCode 0 1 s \<bind> xWriteCode b 1) read_ref_idc (2 * int b)" if "b < 2" for b
    unfolding read_ref_idc_def Let_def
    by (rule step_code; simp?) (rule vlc.codes_bind_end, rule codes_code; use that in \<open>simp add: vlc.codes_return\<close>)
  have one: "vlc.codes (xWriteCode 1 1) read_ref_idc 1"
    unfolding read_ref_idc_def Let_def
    by (rule vlc.codes_bind_end, rule codes_code; simp add: vlc.codes_return)
  from assms(2) consider "refIdc src ! j = 0" | "refIdc src ! j = 1" | "refIdc src ! j = 2" by auto
  then show ?thesis using two [of 0] two [of 1] one g by cases (simp_all add: code_ref_idc_def [abs_def])
qed

lemma predict_entry_law:
  assumes "idc ! j \<in> {0, 1, 2}" "j < length ri" "numberOfPictures ref \<le> int (length (deltaPOC ref))"
    "k + length (picks d ref idc [j]) \<le> length es" "deltas_fit (picks d ref idc [j])"
  shows "predict_entry ref d (int j) (idc ! j) (with_entries (r\<lparr>refIdc := ri\<rparr>) es, int k, k0, k1)
    = (let p = picks d ref idc [j]
       in Some (with_entries (r\<lparr>refIdc := ri[j := idc ! j]\<rparr>) (take k es @ p @ drop (k + length p) es),
         int (k + length p), k0 + below p, k1 + (int (length p) - below p)))"
proof -
  let ?e = "(d + ref_delta ref j, idc ! j = 1)"
  have rd: "(if int j < numberOfPictures ref then getDeltaPOC ref (int j) else Some 0) = Some (ref_delta ref j)"
    using assms(3) by (auto simp: getDeltaPOC_def ref_delta_def)
  have si: "setRefIdc (int j) i (with_entries (r\<lparr>refIdc := ri\<rparr>) es') = Some (with_entries (r\<lparr>refIdc := ri[j := i]\<rparr>) es')" for i es'
    using assms(2) by (simp add: setRefIdc_def with_entries_def)
  show ?thesis
  proof (cases "idc ! j = 0")
    case True
    then show ?thesis by (simp add: predict_entry_def si)
  next
    case False
    with assms(4) have k: "k < length es" by simp
    have "es[k := ?e] = take k es @ ?e # drop (Suc k) es" using k by (simp add: upd_conv_take_nth_drop)
    moreover have "i32 (d + ref_delta ref j) = Some (d + ref_delta ref j)" using assms(5) False by (simp add: deltas_fit_def i32_def)
    ultimately show ?thesis using False assms(1)
      unfolding predict_entry_def Let_def prod.case rd bind.bind_lunit set_halves [OF k]
      by (auto simp: si below_def set_halves [OF k])
  qed
qed

lemma codes_ref_idcs:
  assumes "length (refIdc src) = N" "\<forall>j<N. refIdc src ! j \<in> {0, 1, 2}"
    "numberOfPictures ref \<le> int (length (deltaPOC ref))"
  shows "a + n \<le> N \<Longrightarrow> length ri = N \<Longrightarrow> k + length (picks d ref (refIdc src) [a..<a + n]) \<le> length es \<Longrightarrow>
    deltas_fit (picks d ref (refIdc src) [a..<a + n]) \<Longrightarrow>
    vlc.codes (for_loop (code_ref_idc src) (map int [a..<a + n]))
      (parse_ref_idcs ref d (map int [a..<a + n]) (with_entries (r\<lparr>refIdc := ri\<rparr>) es, int k, k0, k1))
      (let p = picks d ref (refIdc src) [a..<a + n]
       in (with_entries (r\<lparr>refIdc := copied a n (refIdc src) ri\<rparr>) (take k es @ p @ drop (k + length p) es),
           int (k + length p), k0 + below p, k1 + (int (length p) - below p)))"
proof (induction n arbitrary: a ri k es k0 k1)
  case 0
  then show ?case by (auto intro!: vlc.codes_return)
next
  case (Suc n)
  define p where "p = picks d ref (refIdc src) [a]"
  define q where "q = picks d ref (refIdc src) [Suc a..<Suc a + n]"
  have pq: "picks d ref (refIdc src) [a..<a + Suc n] = p @ q"
    by (simp add: p_def q_def upt_conv_Cons del: upt_Suc)
  have fit: "deltas_fit p" "deltas_fit q" using Suc.prems(4) unfolding pq by simp_all
  define es' where "es' = take k es @ p @ drop (k + length p) es"
  have len: "k + length p + length q \<le> length es" using Suc.prems(3) unfolding pq by simp
  then have es': "length es' = length es" "take (k + length p) es' = take k es @ p"
    "drop (k + length p + length q) es' = drop (k + length (p @ q)) es"
    by (simp_all add: es'_def ac_simps)
  have e: "predict_entry ref d (int a) (refIdc src ! a) (with_entries (r\<lparr>refIdc := ri\<rparr>) es, int k, k0, k1)
      = Some (with_entries (r\<lparr>refIdc := ri[a := refIdc src ! a]\<rparr>) es', int (k + length p), k0 + below p,
          k1 + (int (length p) - below p))"
    using predict_entry_law [of "refIdc src" a ri ref k d es r k0 k1] assms Suc.prems(1,2) len fit(1)
    by (simp add: p_def es'_def Let_def del: picks_simps)
  have IH: "vlc.codes (for_loop (code_ref_idc src) (map int [Suc a..<Suc a + n]))
      (parse_ref_idcs ref d (map int [Suc a..<Suc a + n])
        (with_entries (r\<lparr>refIdc := ri[a := refIdc src ! a]\<rparr>) es', int (k + length p), k0 + below p,
          k1 + (int (length p) - below p)))
      (with_entries (r\<lparr>refIdc := copied a (Suc n) (refIdc src) ri\<rparr>) (take k es @ (p @ q) @ drop (k + length (p @ q)) es),
       int (k + length (p @ q)), k0 + below (p @ q), k1 + (int (length (p @ q)) - below (p @ q)))"
    using Suc.IH [of "Suc a" "ri[a := refIdc src ! a]" "k + length p" es' "k0 + below p" "k1 + (int (length p) - below p)"]
      Suc.prems(1,2) len es' fit(2) unfolding q_def [symmetric] Let_def by (simp add: algebra_simps del: upt_Suc)
  show ?case
    unfolding pq Let_def unfolding upt_Suc_int for_loop.simps parse_ref_idcs.simps
    apply (rule vlc.codes_bind [OF codes_ref_idc])
    using assms(1,2) Suc.prems(1) apply simp_all [2]
    unfolding e bind.bind_lunit by (rule IH)
qed

definition inter_ok :: "ref_pic_set list \<Rightarrow> bool \<Rightarrow> int \<Rightarrow> ref_pic_set \<Rightarrow> bool" where
  "inter_ok rpsList called idx src \<longleftrightarrow> 0 < idx \<and> idx \<le> int (length rpsList) \<and> idx < 2 ^ 31
     \<and> called = (idx = int (length rpsList))
     \<and> 0 \<le> deltaRIdxMinus1 src \<and> deltaRIdxMinus1 src < idx
     \<and> deltaRPS src \<noteq> 0 \<and> \<bar>deltaRPS src\<bar> < 2 ^ 31
     \<and> (\<forall>j\<le>MAX_NUM_REF_PICS. refIdc src ! j \<in> {0, 1, 2})
     \<and> (let ref = rpsList ! nat (idx - 1 - (if called then deltaRIdxMinus1 src else 0))
        in rps_wf ref \<and> 0 \<le> numberOfPictures ref \<and> numberOfPictures ref \<le> 16
           \<and> numRefIdc src = numberOfPictures ref + 1
           \<and> length (picks (deltaRPS src) ref (refIdc src) [0..<nat (numRefIdc src)]) \<le> 16
           \<and> deltas_fit (picks (deltaRPS src) ref (refIdc src) [0..<nat (numRefIdc src)]))"

text \<open>
  The received set: the chosen entries of the reference set shifted by \<open>deltaRPS\<close>, first those with
  negative delta, largest first, then the others, smallest first.
\<close>

definition inter_received :: "ref_pic_set list \<Rightarrow> bool \<Rightarrow> int \<Rightarrow> ref_pic_set \<Rightarrow> ref_pic_set \<Rightarrow> ref_pic_set" where
  "inter_received rpsList called idx r0 src =
     (let d = (if called then deltaRIdxMinus1 src else 0);
          ref = rpsList ! nat (idx - 1 - d);
          p = picks (deltaRPS src) ref (refIdc src) [0..<nat (numRefIdc src)];
          m = nat (numRefIdc src)
      in with_entries (r0\<lparr>deltaRIdxMinus1 := d, deltaRPS := deltaRPS src,
           refIdc := take m (refIdc src) @ drop m (refIdc r0), numRefIdc := numRefIdc src,
           numberOfPictures := int (length p), numberOfNegativePictures := below p,
           numberOfPositivePictures := int (length p) - below p\<rparr>)
         (split_sorted p @ drop (length p) (entries r0)))"

lemma sign_delta:
  assumes "d \<noteq> 0" "\<bar>d\<bar> < 2 ^ 31"
  shows "to_i32 (to_u32 ((1 - 2 * int (if d \<ge> 0 then 0 else 1)) * (int (to_u32 (\<bar>d\<bar> - 1)) + 1))) = d"
    "to_u32 (\<bar>d\<bar> - 1) < 2 ^ 31 - 1"
proof -
  have a: "to_u32 (\<bar>d\<bar> - 1) = nat (\<bar>d\<bar> - 1)" using assms by simp
  then show "to_u32 (\<bar>d\<bar> - 1) < 2 ^ 31 - 1" using assms by simp
  have "int (to_u32 (\<bar>d\<bar> - 1)) + 1 = \<bar>d\<bar>" unfolding a using assms by simp
  then show "to_i32 (to_u32 ((1 - 2 * int (if d \<ge> 0 then 0 else 1)) * (int (to_u32 (\<bar>d\<bar> - 1)) + 1))) = d"
    using assms to_i32_to_u32 [of d] by (cases "d \<ge> 0") simp_all
qed

lemma codes_inter:
  assumes "rps_wf src" "rps_wf r0" "inter_ok rpsList called idx src"
  shows "vlc.codes
    (\<lambda>s. (if called then xWriteUvlc (to_u32 (deltaRIdxMinus1 src)) s else Some s) \<bind>
      (\<lambda>s. xWriteCode (if deltaRPS src \<ge> 0 then 0 else 1) 1 s \<bind>
      (\<lambda>s. xWriteUvlc (to_u32 (\<bar>deltaRPS src\<bar> - 1)) s \<bind>
      for_loop (code_ref_idc src) [0..numRefIdc src - 1])))
    (parse_inter_rps rpsList r0 idx) (inter_received rpsList called idx r0 src)"
proof -
  define d where "d = (if called then deltaRIdxMinus1 src else 0)"
  define ref where "ref = rpsList ! nat (idx - 1 - d)"
  define p where "p = picks (deltaRPS src) ref (refIdc src) [0..<nat (numRefIdc src)]"
  define m where "m = nat (numRefIdc src)"
  have ok: "0 < idx" "idx \<le> int (length rpsList)" "idx < 2 ^ 31" "called = (idx = int (length rpsList))"
    "0 \<le> d" "d < idx" "deltaRPS src \<noteq> 0" "\<bar>deltaRPS src\<bar> < 2 ^ 31"
    "\<forall>j\<le>MAX_NUM_REF_PICS. refIdc src ! j \<in> {0, 1, 2}"
    "rps_wf ref" "0 \<le> numberOfPictures ref" "numberOfPictures ref \<le> 16"
    "numRefIdc src = int m" "int m = numberOfPictures ref + 1" "length p \<le> 16" "deltas_fit p"
    using assms(3) by (simp_all add: inter_ok_def Let_def d_def [symmetric] ref_def [symmetric] p_def m_def)
      (auto simp: d_def)
  have wf: "length (refIdc src) = 17" "length (refIdc r0) = 17" "length (deltaPOC ref) = 16" "length (entries r0) = 16"
    "length (deltaPOC r0) = length (used r0)"
    using assms(1,2) ok(10) length_entries [OF assms(2)] by (simp_all add: rps_wf_def MAX_NUM_REF_PICS_def)
  have ds: "to_u32 (deltaRIdxMinus1 src) = nat d" if called using that ok by (simp add: d_def)
  have i: "\<not> to_u32 (idx - 1) < nat d" "to_i32 (to_u32 (idx - 1 - int (nat d))) = idx - 1 - d"
    "to_i32 (nat d) = d" "arr_get_i rpsList (idx - 1 - d) = Some ref"
    using ok(1-6) by (simp_all add: arr_get_i_def ref_def nat_less_iff)
  let ?r = "r0\<lparr>deltaRIdxMinus1 := d, deltaRPS := deltaRPS src\<rparr>"
  let ?r' = "?r\<lparr>refIdc := take m (refIdc src) @ drop m (refIdc r0)\<rparr>"
  have "map int [0..<0 + m] = [0..int m - 1]" using upto_int [of 0 m] by simp
  then have l: "map int [0..<0 + m] = [0..numRefIdc src - 1]" "map int [0..<0 + m] = [0..numberOfPictures ref]"
    using ok(13,14) by simp_all
  have cp: "copied 0 m (refIdc src) (refIdc r0) = take m (refIdc src) @ drop m (refIdc r0)"
    using copied_all [of 0 m "refIdc r0" "refIdc src"] wf ok(12,14) by simp
  have we: "with_entries (?r\<lparr>refIdc := refIdc r0\<rparr>) (entries r0) = ?r"
    using wf(5) by (simp add: with_entries_def entries_map)
  have pm: "picks (deltaRPS src) ref (refIdc src) [0..<m] = p" by (simp add: p_def m_def)
  have loop: "vlc.codes (for_loop (code_ref_idc src) [0..numRefIdc src - 1])
      (parse_ref_idcs ref (deltaRPS src) [0..numberOfPictures ref] (?r, 0, 0, 0))
      (with_entries ?r' (p @ drop (length p) (entries r0)), int (length p), below p, int (length p) - below p)"
    using codes_ref_idcs [of src 17 ref 0 m "refIdc r0" 0 "deltaRPS src" "entries r0" ?r 0 0]
      wf ok(9,11,12,14,15,16) unfolding l [symmetric] we cp
    by (simp add: MAX_NUM_REF_PICS_def pm Let_def cp less_Suc_eq_le [symmetric])
  have sort: "sortDeltaPOC ((with_entries ?r' (p @ drop (length p) (entries r0)))
        \<lparr>numRefIdc := numberOfPictures ref + 1, numberOfPictures := int (length p),
         numberOfNegativePictures := below p, numberOfPositivePictures := int (length p) - below p\<rparr>)
      = Some (inter_received rpsList called idx r0 src)" (is "sortDeltaPOC ?s = _")
  proof -
    have w: "rps_wf ?s" using assms(1,2) ok(14,15) wf
      by (simp add: rps_wf_def with_entries_def MAX_NUM_REF_PICS_def)
    have b: "below p \<le> int (length p)" by (simp add: below_def)
    have e: "entries ?s = p @ drop (length p) (entries r0)" by (simp add: entries_def with_entries_def zip_map_fst_snd)
    have "sorted_entries (nat (numberOfPictures ?s)) (nat (numberOfNegativePictures ?s)) (entries ?s)
        = split_sorted p @ drop (length p) (entries r0)"
      unfolding e using sorted_entries_split [of "length p" "p @ drop (length p) (entries r0)" "nat (below p)"]
      by (simp add: below_def)
    with sortDeltaPOC_law [OF w] b ok(15) show ?thesis
      by (simp add: inter_received_def Let_def d_def [symmetric] ref_def [symmetric] pm
          m_def [symmetric] with_entries_def ok(14) [symmetric] ok(13))
  qed
  show ?thesis
    unfolding parse_inter_rps_def Let_def
    apply (rule vlc.codes_bind [where x = "nat d"])
     apply (rule vlc.codes_if [OF ok(4)])
    subgoal using ds ok(3,6) by (simp add: codes_uvlc nat_less_iff)
    subgoal by (rule vlc.codes_return) (simp add: d_def)
    apply (rule vlc.codes_check_reader [OF i(1)])
    unfolding i
    apply (rule vlc.codes_check_reader)
    subgoal using ok(5,6) by simp
    unfolding bind.bind_lunit
    apply (rule step_code, simp, simp, simp)
    apply (rule step_uvlc [OF sign_delta(2) [OF ok(7,8)]])
    unfolding sign_delta(1) [OF ok(7,8)]
    apply (rule vlc.codes_bind_end)
     apply (rule loop)
    unfolding prod.case using sort by (simp add: vlc.codes_return)
qed

section \<open>Properties\<close>

definition rps_ok :: "ref_pic_set list \<Rightarrow> bool \<Rightarrow> int \<Rightarrow> ref_pic_set \<Rightarrow> bool" where
  "rps_ok rpsList called idx src \<longleftrightarrow> rps_wf src
     \<and> (if interRPSPrediction src then inter_ok rpsList called idx src else explicit_ok src)"

definition rps_received :: "ref_pic_set list \<Rightarrow> bool \<Rightarrow> int \<Rightarrow> ref_pic_set \<Rightarrow> ref_pic_set \<Rightarrow> ref_pic_set" where
  "rps_received rpsList called idx r0 src =
     (if interRPSPrediction src then inter_received rpsList called idx (r0\<lparr>interRPSPrediction := True\<rparr>) src
      else explicit_received (r0\<lparr>interRPSPrediction := False\<rparr>) src)"

lemma codes_rps:
  assumes "rps_ok rpsList called idx src" "rps_wf r0"
  shows "vlc.codes (xCodeShortTermRefPicSet src called idx) (parseShortTermRefPicSet rpsList r0 idx)
    (rps_received rpsList called idx r0 src)"
proof -
  let ?b = "interRPSPrediction src" let ?r = "r0\<lparr>interRPSPrediction := ?b\<rparr>"
  have idx: "0 < idx" if ?b using assms(1) that by (simp add: rps_ok_def inter_ok_def)
  have wf: "rps_wf src" "rps_wf ?r" using assms by (simp_all add: rps_ok_def rps_wf_def)
  show ?thesis
    unfolding xCodeShortTermRefPicSet_def [abs_def] parseShortTermRefPicSet_def [abs_def] Let_def
    apply (rule vlc.codes_bind [where x = "of_bool ?b"])
     apply (rule vlc.codes_if [OF refl codes_flag_bool])
    subgoal using idx by (intro vlc.codes_return) auto
    unfolding of_bool_eq_0_iff not_not
    apply (rule vlc.codes_if [OF refl])
    subgoal using codes_inter [OF wf, of rpsList called idx] assms(1) by (simp add: rps_ok_def rps_received_def)
    subgoal using codes_explicit [OF wf] assms(1) by (simp add: rps_ok_def rps_received_def)
    done
qed

text \<open>
  C13. A reference picture set that \<open>xCodeShortTermRefPicSet\<close> writes, explicitly or by prediction from an
  earlier set, is received by \<open>parseShortTermRefPicSet\<close>: the counts, deltas and flags that were sent, or the
  entries chosen from the reference set, shifted by \<open>deltaRPS\<close> and sorted.
\<close>

theorem rps_roundtrip:
  assumes "rps_ok rpsList called idx src" "rps_wf r0"
  shows "\<exists>s t. xCodeShortTermRefPicSet src called idx clear = Some s
    \<and> parseShortTermRefPicSet rpsList r0 idx (open_stream (out_fifo (writeAlignZero s)))
        = Some (rps_received rpsList called idx r0 src, t)"
  by (rule codes_whole_stream [OF codes_rps [OF assms]])

definition example_ref :: ref_pic_set where
  "example_ref = ReferencePictureSet\<lparr>numberOfPictures := 3, numberOfNegativePictures := 2, numberOfPositivePictures := 1,
     deltaPOC := [-1, -4, 2] @ replicate 13 0, used := [True, False, True] @ replicate 13 False\<rparr>"

definition example_rps :: ref_pic_set where
  "example_rps = ReferencePictureSet\<lparr>interRPSPrediction := True, deltaRPS := - 2, numRefIdc := 4,
     refIdc := [1, 0, 2, 1] @ replicate 13 0\<rparr>"

theorem rps_roundtrip_witness:
  "\<exists>s t. xCodeShortTermRefPicSet example_rps True 1 clear = Some s
    \<and> parseShortTermRefPicSet [example_ref] ReferencePictureSet 1 (open_stream (out_fifo (writeAlignZero s)))
        = Some (rps_received [example_ref] True 1 ReferencePictureSet example_rps, t)"
proof (rule rps_roundtrip)
  have "refIdc example_rps ! j \<in> {0, 1, 2}" if "j \<le> 16" for j
  proof -
    have "list_all (\<lambda>x. x \<in> {0, 1, 2}) (refIdc example_rps)" "length (refIdc example_rps) = 17"
      by (simp_all add: example_rps_def list_all_iff)
    with that show ?thesis by (simp add: list_all_length)
  qed
  then show "rps_ok [example_ref] True 1 example_rps"
    by (simp add: rps_ok_def inter_ok_def MAX_NUM_REF_PICS_def Let_def)
      (simp add: example_rps_def example_ref_def ReferencePictureSet_def rps_wf_def MAX_NUM_REF_PICS_def
        picks_def numeral_2_eq_2 upt_rec deltas_fit_def ref_delta_def)
qed (simp add: ReferencePictureSet_def rps_wf_def)

text \<open>
  \<open>sortDeltaPOC\<close> orders the entries as its comment says: when the number of negative pictures is right, the
  negative deltas come first, in decreasing order, then the others in increasing order; the \<open>used\<close> flags move
  with their deltas, no entry is lost, and the entries beyond the number of pictures stay.
\<close>

theorem sort_delta_poc:
  assumes "rps_wf r" "0 \<le> numberOfPictures r" "numberOfPictures r \<le> 16"
    "n = nat (numberOfPictures r)"
    "numberOfNegativePictures r = int (length (filter (\<lambda>e. fst e < 0) (take n (entries r))))"
  shows "\<exists>r'. sortDeltaPOC r = Some r'
    \<and> mset (take n (entries r')) = mset (take n (entries r)) \<and> drop n (entries r') = drop n (entries r)
    \<and> (let m = nat (numberOfNegativePictures r); ds = map fst (take n (entries r'))
       in sorted_wrt (\<ge>) (take m ds) \<and> (\<forall>d\<in>set (take m ds). d < 0)
        \<and> sorted (drop m ds) \<and> (\<forall>d\<in>set (drop m ds). 0 \<le> d))"
proof -
  let ?p = "take n (entries r)" and ?m = "nat (numberOfNegativePictures r)"
  define A where "A = sort_key fst (filter (\<lambda>e. fst e < 0) ?p)"
  define B where "B = sort_key fst (filter (\<lambda>e. \<not> fst e < 0) ?p)"
  have l: "length (entries r) = 16" using length_entries [OF assms(1)] by (simp add: MAX_NUM_REF_PICS_def)
  have n: "n \<le> 16" using assms(3,4) by simp
  have "length (filter (\<lambda>e. fst e < 0) ?p) \<le> 16" using length_filter_le [of "\<lambda>e. fst e < 0" ?p] n by simp
  with sortDeltaPOC_law [OF assms(1,3)] assms(4,5) sorted_entries_split [of n "entries r" ?m] l n
  have r': "sortDeltaPOC r = Some (with_entries r (rev A @ B @ drop n (entries r)))"
    by (simp add: split_sorted_def A_def B_def)
  have m: "length A = ?m" using assms(5) by (simp add: A_def)
  have AB: "length (rev A @ B) = n"
    using sum_length_filter_compl [of "\<lambda>e. fst e < 0" ?p] l n by (simp add: A_def B_def)
  have t: "take n (rev A @ B @ drop n (entries r)) = rev A @ B"
    "drop n (rev A @ B @ drop n (entries r)) = drop n (entries r)"
    using AB by (simp_all flip: append_assoc)
  have "mset (rev A @ B) = mset ?p"
    using multiset_partition [of "mset ?p" "\<lambda>e. fst e < 0"] by (simp add: A_def B_def)
  moreover have "sorted_wrt (\<ge>) (rev (map fst A))"
    using sorted_sort_key [of fst "filter (\<lambda>e. fst e < 0) ?p"] by (simp add: A_def sorted_wrt_rev)
  moreover have "sorted (map fst B)" "\<forall>d\<in>set (map fst A). d < 0" "\<forall>d\<in>set (map fst B). 0 \<le> d"
    by (auto simp: A_def B_def)
  ultimately show ?thesis using r' t m by (auto simp: Let_def rev_map)
qed

theorem sort_delta_poc_witness:
  "\<exists>r'. sortDeltaPOC (example_ref\<lparr>deltaPOC := [2, -4, -1] @ replicate 13 0\<rparr>) = Some r'
    \<and> mset (take 3 (entries r')) = mset (take 3 (entries (example_ref\<lparr>deltaPOC := [2, -4, -1] @ replicate 13 0\<rparr>)))
    \<and> drop 3 (entries r') = drop 3 (entries (example_ref\<lparr>deltaPOC := [2, -4, -1] @ replicate 13 0\<rparr>))
    \<and> (let m = nat (numberOfNegativePictures (example_ref\<lparr>deltaPOC := [2, -4, -1] @ replicate 13 0\<rparr>));
           ds = map fst (take 3 (entries r'))
       in sorted_wrt (\<ge>) (take m ds) \<and> (\<forall>d\<in>set (take m ds). d < 0)
        \<and> sorted (drop m ds) \<and> (\<forall>d\<in>set (drop m ds). 0 \<le> d))"
  by (rule sort_delta_poc)
    (simp_all add: example_ref_def ReferencePictureSet_def rps_wf_def MAX_NUM_REF_PICS_def entries_def take_Cons' numeral_3_eq_3)

end
