(* ===== verification/SeqParameterSet.thy ===== *)
theory SeqParameterSet
  imports SpsNext RefPicSet
begin

text \<open>
  The sequence parameter set: classes \<open>SPSRExt\<close> and \<open>SPS\<close> of \<open>CommonLib/Slice.h\<close>, \<open>HLSWriter::codeSPS\<close> and
  \<open>HLSyntaxReader::parseSPS\<close>, over the syntax of its parts in theories \<open>ProfileTier\<close>, \<open>RefPicSet\<close>,
  \<open>VideoUsability\<close> and \<open>SpsNext\<close>.

  Each function of the source is one sequence of syntax elements; here it is cut into blocks of a few elements,
  which the two functions compose in the order of the source.
\<close>

definition MAX_NUM_LONG_TERM_REF_PICS :: nat where "MAX_NUM_LONG_TERM_REF_PICS = 33"

record sps_rext =
  transformSkipRotationEnabledFlag :: bool
  transformSkipContextEnabledFlag :: bool
  rdpcmEnabledFlagImplicit :: bool
  rdpcmEnabledFlagExplicit :: bool
  extendedPrecisionProcessingFlag :: bool
  intraSmoothingDisabledFlag :: bool
  highPrecisionOffsetsEnabledFlag :: bool
  persistentRiceAdaptationEnabledFlag :: bool
  cabacBypassAlignmentEnabledFlag :: bool

definition sps_rext_differs :: "sps_rext \<Rightarrow> bool" where
  "sps_rext_differs e \<longleftrightarrow> transformSkipRotationEnabledFlag e \<or> transformSkipContextEnabledFlag e
     \<or> rdpcmEnabledFlagImplicit e \<or> rdpcmEnabledFlagExplicit e \<or> extendedPrecisionProcessingFlag e
     \<or> intraSmoothingDisabledFlag e \<or> highPrecisionOffsetsEnabledFlag e
     \<or> persistentRiceAdaptationEnabledFlag e \<or> cabacBypassAlignmentEnabledFlag e"

definition SPSRExt :: sps_rext where
  "SPSRExt = \<lparr>transformSkipRotationEnabledFlag = False, transformSkipContextEnabledFlag = False,
     rdpcmEnabledFlagImplicit = False, rdpcmEnabledFlagExplicit = False, extendedPrecisionProcessingFlag = False,
     intraSmoothingDisabledFlag = False, highPrecisionOffsetsEnabledFlag = False,
     persistentRiceAdaptationEnabledFlag = False, cabacBypassAlignmentEnabledFlag = False\<rparr>"

text \<open>
  The arrays over the two channel types are pairs of fields. The three sizes of the coding units that the parser
  of the extension overwrites are one record, \<open>m_cu\<close>.
\<close>

record sps =
  m_SPSId :: int
  m_chromaFormatIdc :: nat
  m_uiMaxTLayers :: nat
  m_picWidthInLumaSamples :: nat
  m_picHeightInLumaSamples :: nat
  m_log2MinCodingBlockSize :: int
  m_log2DiffMaxMinCodingBlockSize :: int
  m_cu :: cu_limits
  m_conformanceWindow :: window
  m_RPSList :: "ref_pic_set list"
  m_bLongTermRefsPresent :: bool
  m_SPSTemporalMVPEnabledFlag :: bool
  m_numReorderPics :: "int list"
  m_uiQuadtreeTULog2MaxSize :: nat
  m_uiQuadtreeTULog2MinSize :: nat
  m_uiQuadtreeTUMaxDepthInter :: nat
  m_uiQuadtreeTUMaxDepthIntra :: nat
  m_usePCM :: bool
  m_pcmLog2MaxSize :: nat
  m_uiPCMLog2MinSize :: nat
  m_useAMP :: bool
  m_bitDepthLuma :: int
  m_bitDepthChroma :: int
  m_qpBDOffsetLuma :: int
  m_qpBDOffsetChroma :: int
  m_pcmBitDepthLuma :: int
  m_pcmBitDepthChroma :: int
  m_bPCMFilterDisableFlag :: bool
  m_uiBitsForPOC :: nat
  m_numLongTermRefPicSPS :: nat
  m_ltRefPicPocLsbSps :: "nat list"
  m_usedByCurrPicLtSPSFlag :: "bool list"
  m_uiMaxTrSize :: nat
  m_bUseSAO :: bool
  m_bTemporalIdNestingFlag :: bool
  m_uiMaxDecPicBuffering :: "nat list"
  m_uiMaxLatencyIncreasePlus1 :: "nat list"
  m_vuiParametersPresentFlag :: bool
  m_vuiParameters :: vui
  m_spsRangeExtension :: sps_rext
  m_spsNextExtension :: sps_next
  m_pcPTL :: ptl
  m_useALF :: bool

text \<open>
  The constructor; three flags and the parts that have no value of their own keep what the memory \<open>m\<close> holds.
\<close>

definition SPS :: "sps \<Rightarrow> sps" where
  "SPS m = m\<lparr>m_SPSId := 0, m_chromaFormatIdc := CHROMA_420, m_uiMaxTLayers := 1, m_picWidthInLumaSamples := 352,
     m_picHeightInLumaSamples := 288, m_log2MinCodingBlockSize := 0, m_log2DiffMaxMinCodingBlockSize := 0,
     m_cu := \<lparr>m_uiMaxCUWidth = 32, m_uiMaxCUHeight = 32, m_uiMaxCodingDepth = 3\<rparr>, m_conformanceWindow := Window,
     m_RPSList := [], m_bLongTermRefsPresent := False, m_numReorderPics := replicate 7 0, m_uiQuadtreeTULog2MaxSize := 0,
     m_uiQuadtreeTULog2MinSize := 0, m_uiQuadtreeTUMaxDepthInter := 0, m_uiQuadtreeTUMaxDepthIntra := 0,
     m_usePCM := False, m_pcmLog2MaxSize := 5, m_uiPCMLog2MinSize := 7, m_bitDepthLuma := 8, m_bitDepthChroma := 8,
     m_qpBDOffsetLuma := 0, m_qpBDOffsetChroma := 0, m_pcmBitDepthLuma := 8, m_pcmBitDepthChroma := 8,
     m_bPCMFilterDisableFlag := False, m_uiBitsForPOC := 8, m_numLongTermRefPicSPS := 0,
     m_ltRefPicPocLsbSps := replicate 33 0, m_usedByCurrPicLtSPSFlag := replicate 33 False, m_uiMaxTrSize := 32,
     m_bUseSAO := False, m_bTemporalIdNestingFlag := False, m_uiMaxDecPicBuffering := replicate 7 1,
     m_uiMaxLatencyIncreasePlus1 := replicate 7 0,
     m_vuiParametersPresentFlag := False, m_vuiParameters := VUI (m_vuiParameters m), m_spsRangeExtension := SPSRExt,
     m_spsNextExtension := SPSNext (m_spsNextExtension m), m_pcPTL := PTL (m_pcPTL m)\<rparr>"

definition setMaxTLayers :: "nat \<Rightarrow> sps \<Rightarrow> sps option" where
  "setMaxTLayers n x = do { check_not (n > MAX_TLAYER); Some (x\<lparr>m_uiMaxTLayers := n\<rparr>) }"

definition getLtRefPicPocLsbSps :: "sps \<Rightarrow> nat \<Rightarrow> nat option" where
  "getLtRefPicPocLsbSps x index = do {
     check_not (index \<ge> MAX_NUM_LONG_TERM_REF_PICS); arr_get (m_ltRefPicPocLsbSps x) index }"

definition setLtRefPicPocLsbSps :: "nat \<Rightarrow> nat \<Rightarrow> sps \<Rightarrow> sps option" where
  "setLtRefPicPocLsbSps index val x = do {
     check_not (index \<ge> MAX_NUM_LONG_TERM_REF_PICS);
     a \<leftarrow> arr_set (m_ltRefPicPocLsbSps x) index val; Some (x\<lparr>m_ltRefPicPocLsbSps := a\<rparr>) }"

definition getUsedByCurrPicLtSPSFlag :: "sps \<Rightarrow> nat \<Rightarrow> bool option" where
  "getUsedByCurrPicLtSPSFlag x i = do {
     check_not (i \<ge> MAX_NUM_LONG_TERM_REF_PICS); arr_get (m_usedByCurrPicLtSPSFlag x) i }"

definition setUsedByCurrPicLtSPSFlag :: "nat \<Rightarrow> bool \<Rightarrow> sps \<Rightarrow> sps option" where
  "setUsedByCurrPicLtSPSFlag i b x = do {
     check_not (i \<ge> MAX_NUM_LONG_TERM_REF_PICS);
     a \<leftarrow> arr_set (m_usedByCurrPicLtSPSFlag x) i b; Some (x\<lparr>m_usedByCurrPicLtSPSFlag := a\<rparr>) }"

definition setMaxDecPicBuffering :: "nat \<Rightarrow> nat \<Rightarrow> sps \<Rightarrow> sps option" where
  "setMaxDecPicBuffering ui tlayer x = do {
     check_not (tlayer \<ge> MAX_TLAYER);
     a \<leftarrow> arr_set (m_uiMaxDecPicBuffering x) tlayer ui; Some (x\<lparr>m_uiMaxDecPicBuffering := a\<rparr>) }"

definition setNumReorderPics :: "int \<Rightarrow> nat \<Rightarrow> sps \<Rightarrow> sps option" where
  "setNumReorderPics i tlayer x = do { a \<leftarrow> arr_set (m_numReorderPics x) tlayer i; Some (x\<lparr>m_numReorderPics := a\<rparr>) }"

definition setMaxLatencyIncreasePlus1 :: "nat \<Rightarrow> nat \<Rightarrow> sps \<Rightarrow> sps option" where
  "setMaxLatencyIncreasePlus1 ui tlayer x = do {
     a \<leftarrow> arr_set (m_uiMaxLatencyIncreasePlus1 x) tlayer ui; Some (x\<lparr>m_uiMaxLatencyIncreasePlus1 := a\<rparr>) }"

text \<open>\<open>RPSList::create\<close> resizes the vector: the sets it has already stay.\<close>

definition createRPSList :: "nat \<Rightarrow> sps \<Rightarrow> sps" where
  "createRPSList numRPS x = x\<lparr>m_RPSList :=
     take numRPS (m_RPSList x) @ replicate (numRPS - length (m_RPSList x)) ReferencePictureSet\<rparr>"

definition isChromaEnabled :: "nat \<Rightarrow> bool" where
  "isChromaEnabled fmt \<longleftrightarrow> fmt \<noteq> CHROMA_400"

section \<open>Writer\<close>

definition code_sps_head :: "sps \<Rightarrow> obs \<Rightarrow> obs option" where
  "code_sps_head x s = do {
     s \<leftarrow> xWriteCode (sub32 (m_uiMaxTLayers x) 1) 3 s;
     s \<leftarrow> xWriteFlag (of_bool (m_bTemporalIdNestingFlag x)) s;
     s \<leftarrow> codePTL (m_pcPTL x) True (to_i32 (sub32 (m_uiMaxTLayers x) 1)) s;
     s \<leftarrow> xWriteUvlc (to_u32 (m_SPSId x)) s;
     s \<leftarrow> xWriteUvlc (m_chromaFormatIdc x) s;
     if m_chromaFormatIdc x = CHROMA_444 then xWriteFlag (of_bool False) s else Some s
   }"

definition code_sps_picture :: "sps \<Rightarrow> obs \<Rightarrow> obs option" where
  "code_sps_picture x s = do {
     s \<leftarrow> xWriteUvlc (m_picWidthInLumaSamples x) s;
     s \<leftarrow> xWriteUvlc (m_picHeightInLumaSamples x) s;
     let conf = m_conformanceWindow x;
     s \<leftarrow> xWriteFlag (of_bool (win_enabledFlag conf)) s;
     s \<leftarrow> (if win_enabledFlag conf then code_window conf (m_chromaFormatIdc x) s else Some s);
     s \<leftarrow> xWriteUvlc (to_u32 (m_bitDepthLuma x - 8)) s;
     s \<leftarrow> xWriteUvlc (to_u32 (if isChromaEnabled (m_chromaFormatIdc x) then m_bitDepthChroma x - 8 else 0)) s;
     xWriteUvlc (sub32 (m_uiBitsForPOC x) 4) s
   }"

definition code_sps_layer :: "sps \<Rightarrow> nat \<Rightarrow> obs \<Rightarrow> obs option" where
  "code_sps_layer x i s = do {
     b \<leftarrow> arr_get (m_uiMaxDecPicBuffering x) i;
     s \<leftarrow> xWriteUvlc (sub32 b 1) s;
     r \<leftarrow> arr_get (m_numReorderPics x) i;
     s \<leftarrow> xWriteUvlc (to_u32 r) s;
     l \<leftarrow> arr_get (m_uiMaxLatencyIncreasePlus1 x) i;
     xWriteUvlc l s
   }"

definition code_sps_layers :: "sps \<Rightarrow> obs \<Rightarrow> obs option" where
  "code_sps_layers x s = do {
     s \<leftarrow> xWriteFlag (of_bool True) s;
     for_loop (code_sps_layer x) [0..<Suc (sub32 (m_uiMaxTLayers x) 1)] s
   }"

definition code_sps_sizes :: "sps \<Rightarrow> obs \<Rightarrow> obs option" where
  "code_sps_sizes x s = do {
     check_not (m_uiMaxCUWidth (m_cu x) \<noteq> m_uiMaxCUHeight (m_cu x));
     s \<leftarrow> xWriteUvlc (to_u32 (m_log2MinCodingBlockSize x - 3)) s;
     s \<leftarrow> xWriteUvlc (to_u32 (m_log2DiffMaxMinCodingBlockSize x)) s;
     s \<leftarrow> xWriteUvlc (sub32 (m_uiQuadtreeTULog2MinSize x) 2) s;
     s \<leftarrow> xWriteUvlc (sub32 (m_uiQuadtreeTULog2MaxSize x) (m_uiQuadtreeTULog2MinSize x)) s;
     s \<leftarrow> xWriteUvlc (sub32 (m_uiQuadtreeTUMaxDepthInter x) 1) s;
     xWriteUvlc (sub32 (m_uiQuadtreeTUMaxDepthIntra x) 1) s
   }"

definition code_sps_pcm :: "sps \<Rightarrow> obs \<Rightarrow> obs option" where
  "code_sps_pcm x s = do {
     s \<leftarrow> xWriteCode (sub32 (to_u32 (m_pcmBitDepthLuma x)) 1) 4 s;
     s \<leftarrow> xWriteCode (if isChromaEnabled (m_chromaFormatIdc x) then sub32 (to_u32 (m_pcmBitDepthChroma x)) 1 else 0) 4 s;
     s \<leftarrow> xWriteUvlc (sub32 (m_uiPCMLog2MinSize x) 3) s;
     s \<leftarrow> xWriteUvlc (sub32 (m_pcmLog2MaxSize x) (m_uiPCMLog2MinSize x)) s;
     xWriteFlag (of_bool (m_bPCMFilterDisableFlag x)) s
   }"

definition code_sps_tools :: "sps \<Rightarrow> obs \<Rightarrow> obs option" where
  "code_sps_tools x s = do {
     s \<leftarrow> xWriteFlag (of_bool (m_useALF x)) s;
     s \<leftarrow> xWriteFlag (of_bool (m_useAMP x)) s;
     s \<leftarrow> xWriteFlag (of_bool (m_bUseSAO x)) s;
     s \<leftarrow> xWriteFlag (of_bool (m_usePCM x)) s;
     if m_usePCM x then code_sps_pcm x s else Some s
   }"

definition code_sps_rps :: "ref_pic_set list \<Rightarrow> nat \<Rightarrow> obs \<Rightarrow> obs option" where
  "code_sps_rps l i s = do { r \<leftarrow> arr_get l i; xCodeShortTermRefPicSet r False (int i) s }"

definition code_sps_ltref :: "sps \<Rightarrow> nat \<Rightarrow> obs \<Rightarrow> obs option" where
  "code_sps_ltref x k s = do {
     v \<leftarrow> getLtRefPicPocLsbSps x k;
     s \<leftarrow> xWriteCode v (m_uiBitsForPOC x) s;
     u \<leftarrow> getUsedByCurrPicLtSPSFlag x k;
     xWriteFlag (of_bool u) s
   }"

definition code_sps_refs :: "sps \<Rightarrow> obs \<Rightarrow> obs option" where
  "code_sps_refs x s = do {
     check_not (m_uiMaxTLayers x = 0);
     s \<leftarrow> xWriteUvlc (length (m_RPSList x)) s;
     s \<leftarrow> for_loop (code_sps_rps (m_RPSList x)) [0..<length (m_RPSList x)] s;
     s \<leftarrow> xWriteFlag (of_bool (m_bLongTermRefsPresent x)) s;
     if m_bLongTermRefsPresent x then do {
       s \<leftarrow> xWriteUvlc (m_numLongTermRefPicSPS x) s;
       for_loop (code_sps_ltref x) [0..<m_numLongTermRefPicSPS x] s
     } else Some s
   }"

definition code_sps_vui :: "sps \<Rightarrow> obs \<Rightarrow> obs option" where
  "code_sps_vui x s = do {
     s \<leftarrow> xWriteFlag (of_bool (m_SPSTemporalMVPEnabledFlag x)) s;
     s \<leftarrow> xWriteFlag (of_bool (m_vuiParametersPresentFlag x)) s;
     if m_vuiParametersPresentFlag x then codeVUI (m_vuiParameters x) (m_chromaFormatIdc x) (m_uiMaxTLayers x) s else Some s
   }"

definition code_sps_rext :: "sps_rext \<Rightarrow> obs \<Rightarrow> obs option" where
  "code_sps_rext e s = do {
     s \<leftarrow> xWriteFlag (of_bool (transformSkipRotationEnabledFlag e)) s;
     s \<leftarrow> xWriteFlag (of_bool (transformSkipContextEnabledFlag e)) s;
     s \<leftarrow> xWriteFlag (of_bool (rdpcmEnabledFlagImplicit e)) s;
     s \<leftarrow> xWriteFlag (of_bool (rdpcmEnabledFlagExplicit e)) s;
     s \<leftarrow> xWriteFlag (of_bool (extendedPrecisionProcessingFlag e)) s;
     s \<leftarrow> xWriteFlag (of_bool (intraSmoothingDisabledFlag e)) s;
     s \<leftarrow> xWriteFlag (of_bool (highPrecisionOffsetsEnabledFlag e)) s;
     s \<leftarrow> xWriteFlag (of_bool (persistentRiceAdaptationEnabledFlag e)) s;
     xWriteFlag (of_bool (cabacBypassAlignmentEnabledFlag e)) s
   }"

definition code_sps_extension :: "sps \<Rightarrow> obs \<Rightarrow> obs option" where
  "code_sps_extension x s = do {
     let sps_extension_flags = [sps_rext_differs (m_spsRangeExtension x), False, False,
       m_NextEnabled (m_spsNextExtension x), False, False, False, False];
     let sps_extension_present_flag = (\<exists>f\<in>set sps_extension_flags. f);
     s \<leftarrow> xWriteFlag (of_bool sps_extension_present_flag) s;
     if sps_extension_present_flag then do {
       s \<leftarrow> write_flags sps_extension_flags s;
       s \<leftarrow> (if sps_extension_flags ! 0 then code_sps_rext (m_spsRangeExtension x) s else Some s);
       if sps_extension_flags ! 3 then codeSPSNext (m_spsNextExtension x) s else Some s
     } else Some s
   }"

definition code_sps_body :: "sps \<Rightarrow> obs \<Rightarrow> obs option" where
  "code_sps_body x s = do {
     s \<leftarrow> code_sps_head x s;
     s \<leftarrow> code_sps_picture x s;
     s \<leftarrow> code_sps_layers x s;
     s \<leftarrow> code_sps_sizes x s;
     s \<leftarrow> code_sps_tools x s;
     s \<leftarrow> code_sps_refs x s;
     s \<leftarrow> code_sps_vui x s;
     code_sps_extension x s
   }"

definition codeSPS :: "sps \<Rightarrow> obs \<Rightarrow> obs option" where
  "codeSPS x s = do { s \<leftarrow> code_sps_body x s; xWriteRbspTrailingBits s }"

section \<open>Parser\<close>

definition parse_sps_head :: "sps \<Rightarrow> ibs \<Rightarrow> (sps \<times> ibs) option" where
  "parse_sps_head x s = do {
     (uiCode, s) \<leftarrow> xReadCode 3 s;
     x \<leftarrow> setMaxTLayers (uiCode + 1) x;
     check_not (uiCode > 6);
     (uiCode, s) \<leftarrow> xReadFlag s;
     let x = x\<lparr>m_bTemporalIdNestingFlag := (uiCode > 0)\<rparr>;
     check_not (m_uiMaxTLayers x = 1 \<and> uiCode \<noteq> 1);
     (p, s) \<leftarrow> parsePTL (m_pcPTL x) True (to_i32 (sub32 (m_uiMaxTLayers x) 1)) s;
     let x = x\<lparr>m_pcPTL := p\<rparr>;
     (uiCode, s) \<leftarrow> xReadUvlc s;
     let x = x\<lparr>m_SPSId := to_i32 uiCode\<rparr>;
     check_not (uiCode > 15);
     (uiCode, s) \<leftarrow> xReadUvlc s;
     let x = x\<lparr>m_chromaFormatIdc := uiCode\<rparr>;
     check_not (uiCode > 3);
     check_not (m_chromaFormatIdc x = CHROMA_422);
     (_, s) \<leftarrow> (if m_chromaFormatIdc x = CHROMA_444 then do {
         (uiCode, s) \<leftarrow> xReadFlag s;
         check_not (uiCode \<noteq> 0);
         Some ((), s)
       } else Some ((), s));
     Some (x, s)
   }"

definition parse_sps_picture :: "sps \<Rightarrow> ibs \<Rightarrow> (sps \<times> ibs) option" where
  "parse_sps_picture x s = do {
     (uiCode, s) \<leftarrow> xReadUvlc s;
     let x = x\<lparr>m_picWidthInLumaSamples := uiCode\<rparr>;
     (uiCode, s) \<leftarrow> xReadUvlc s;
     let x = x\<lparr>m_picHeightInLumaSamples := uiCode\<rparr>;
     (uiCode, s) \<leftarrow> xReadFlag s;
     (conf, s) \<leftarrow> (if uiCode \<noteq> 0 then parse_window (m_conformanceWindow x) (m_chromaFormatIdc x) s
       else Some (m_conformanceWindow x, s));
     let x = x\<lparr>m_conformanceWindow := conf\<rparr>;
     (uiCode, s) \<leftarrow> xReadUvlc s;
     check_not (uiCode > 8);
     let x = x\<lparr>m_bitDepthLuma := int (8 + uiCode), m_qpBDOffsetLuma := int (6 * uiCode)\<rparr>;
     (uiCode, s) \<leftarrow> xReadUvlc s;
     check_not (uiCode > 8);
     let x = x\<lparr>m_bitDepthChroma := int (8 + uiCode), m_qpBDOffsetChroma := int (6 * uiCode)\<rparr>;
     (uiCode, s) \<leftarrow> xReadUvlc s;
     let x = x\<lparr>m_uiBitsForPOC := u32 (4 + uiCode)\<rparr>;
     check_not (uiCode > 12);
     Some (x, s)
   }"

definition parse_sps_layer :: "nat \<Rightarrow> sps \<Rightarrow> ibs \<Rightarrow> (sps \<times> ibs) option" where
  "parse_sps_layer i x s = do {
     (uiCode, s) \<leftarrow> xReadUvlc s;
     x \<leftarrow> setMaxDecPicBuffering (u32 (uiCode + 1)) i x;
     (uiCode, s) \<leftarrow> xReadUvlc s;
     x \<leftarrow> setNumReorderPics (to_i32 uiCode) i x;
     (uiCode, s) \<leftarrow> xReadUvlc s;
     x \<leftarrow> setMaxLatencyIncreasePlus1 uiCode i x;
     Some (x, s)
   }"

definition copy_sps_layer :: "nat \<Rightarrow> sps \<Rightarrow> sps option" where
  "copy_sps_layer i x = do {
     b \<leftarrow> arr_get (m_uiMaxDecPicBuffering x) 0;
     x \<leftarrow> setMaxDecPicBuffering b i x;
     r \<leftarrow> arr_get (m_numReorderPics x) 0;
     x \<leftarrow> setNumReorderPics r i x;
     l \<leftarrow> arr_get (m_uiMaxLatencyIncreasePlus1 x) 0;
     setMaxLatencyIncreasePlus1 l i x
   }"

text \<open>Without the ordering information of the sub-layers, the values of the first are copied to the others.\<close>

definition parse_sps_layers :: "sps \<Rightarrow> ibs \<Rightarrow> (sps \<times> ibs) option" where
  "parse_sps_layers x s = do {
     (subLayerOrderingInfoPresentFlag, s) \<leftarrow> xReadFlag s;
     let n = Suc (sub32 (m_uiMaxTLayers x) 1);
     if subLayerOrderingInfoPresentFlag \<noteq> 0 then read_loop parse_sps_layer [0..<n] x s
     else do {
       (x, s) \<leftarrow> parse_sps_layer 0 x s;
       x \<leftarrow> for_loop copy_sps_layer [1..<n] x;
       Some (x, s)
     }
   }"

text \<open>\<open>1 << n\<close> on a signed \<open>n\<close>.\<close>

definition shl1_i :: "int \<Rightarrow> nat option" where
  "shl1_i n = (if 0 \<le> n then shl1 (nat n) else None)"

definition parse_sps_sizes :: "sps \<Rightarrow> ibs \<Rightarrow> (sps \<times> ibs) option" where
  "parse_sps_sizes x s = do {
     (uiCode, s) \<leftarrow> xReadUvlc s;
     let log2MinCUSize = to_i32 (u32 (uiCode + 3));
     let x = x\<lparr>m_log2MinCodingBlockSize := log2MinCUSize\<rparr>;
     (uiCode, s) \<leftarrow> xReadUvlc s;
     let x = x\<lparr>m_log2DiffMaxMinCodingBlockSize := to_i32 uiCode\<rparr>;
     check_not (levelIdc (generalPTL (m_pcPTL x)) \<ge> 150 \<and> log2MinCUSize + m_log2DiffMaxMinCodingBlockSize x < 5);
     let maxCUDepthDelta = to_i32 uiCode;
     size \<leftarrow> shl1_i (log2MinCUSize + maxCUDepthDelta);
     let x = x\<lparr>m_cu := (m_cu x)\<lparr>m_uiMaxCUWidth := size, m_uiMaxCUHeight := size\<rparr>\<rparr>;
     (uiCode, s) \<leftarrow> xReadUvlc s;
     let x = x\<lparr>m_uiQuadtreeTULog2MinSize := u32 (uiCode + 2)\<rparr>;
     (uiCode, s) \<leftarrow> xReadUvlc s;
     let x = x\<lparr>m_uiQuadtreeTULog2MaxSize := u32 (uiCode + m_uiQuadtreeTULog2MinSize x)\<rparr>;
     trSize \<leftarrow> shl1 (u32 (uiCode + m_uiQuadtreeTULog2MinSize x));
     let x = x\<lparr>m_uiMaxTrSize := trSize\<rparr>;
     (uiCode, s) \<leftarrow> xReadUvlc s;
     let x = x\<lparr>m_uiQuadtreeTUMaxDepthInter := u32 (uiCode + 1)\<rparr>;
     (uiCode, s) \<leftarrow> xReadUvlc s;
     let x = x\<lparr>m_uiQuadtreeTUMaxDepthIntra := u32 (uiCode + 1)\<rparr>;
     let addCuDepth = max 0 (log2MinCUSize - to_i32 (m_uiQuadtreeTULog2MinSize x));
     Some (x\<lparr>m_cu := (m_cu x)\<lparr>m_uiMaxCodingDepth := to_u32 (maxCUDepthDelta + addCuDepth)\<rparr>\<rparr>, s)
   }"

definition parse_sps_pcm :: "sps \<Rightarrow> ibs \<Rightarrow> (sps \<times> ibs) option" where
  "parse_sps_pcm x s = do {
     (uiCode, s) \<leftarrow> xReadCode 4 s;
     let x = x\<lparr>m_pcmBitDepthLuma := int (1 + uiCode)\<rparr>;
     (uiCode, s) \<leftarrow> xReadCode 4 s;
     let x = x\<lparr>m_pcmBitDepthChroma := int (1 + uiCode)\<rparr>;
     (uiCode, s) \<leftarrow> xReadUvlc s;
     let x = x\<lparr>m_uiPCMLog2MinSize := u32 (uiCode + 3)\<rparr>;
     (uiCode, s) \<leftarrow> xReadUvlc s;
     let x = x\<lparr>m_pcmLog2MaxSize := u32 (uiCode + m_uiPCMLog2MinSize x)\<rparr>;
     (uiCode, s) \<leftarrow> xReadFlag s;
     Some (x\<lparr>m_bPCMFilterDisableFlag := (uiCode \<noteq> 0)\<rparr>, s)
   }"

definition parse_sps_tools :: "sps \<Rightarrow> ibs \<Rightarrow> (sps \<times> ibs) option" where
  "parse_sps_tools x s = do {
     (uiCode, s) \<leftarrow> xReadFlag s;
     let x = x\<lparr>m_useALF := (uiCode \<noteq> 0)\<rparr>;
     (uiCode, s) \<leftarrow> xReadFlag s;
     let x = x\<lparr>m_useAMP := (uiCode \<noteq> 0)\<rparr>;
     (uiCode, s) \<leftarrow> xReadFlag s;
     let x = x\<lparr>m_bUseSAO := (uiCode \<noteq> 0)\<rparr>;
     (uiCode, s) \<leftarrow> xReadFlag s;
     let x = x\<lparr>m_usePCM := (uiCode \<noteq> 0)\<rparr>;
     if m_usePCM x then parse_sps_pcm x s else Some (x, s)
   }"

definition parse_sps_rps :: "nat \<Rightarrow> sps \<Rightarrow> ibs \<Rightarrow> (sps \<times> ibs) option" where
  "parse_sps_rps i x s = do {
     r \<leftarrow> arr_get (m_RPSList x) i;
     (r, s) \<leftarrow> parseShortTermRefPicSet (m_RPSList x) r (int i) s;
     l \<leftarrow> arr_set (m_RPSList x) i r;
     Some (x\<lparr>m_RPSList := l\<rparr>, s)
   }"

definition parse_sps_ltref :: "nat \<Rightarrow> sps \<Rightarrow> ibs \<Rightarrow> (sps \<times> ibs) option" where
  "parse_sps_ltref k x s = do {
     (uiCode, s) \<leftarrow> xReadCode (m_uiBitsForPOC x) s;
     x \<leftarrow> setLtRefPicPocLsbSps k uiCode x;
     (uiCode, s) \<leftarrow> xReadFlag s;
     x \<leftarrow> setUsedByCurrPicLtSPSFlag k (uiCode \<noteq> 0) x;
     Some (x, s)
   }"

definition parse_sps_refs :: "sps \<Rightarrow> ibs \<Rightarrow> (sps \<times> ibs) option" where
  "parse_sps_refs x s = do {
     (uiCode, s) \<leftarrow> xReadUvlc s;
     check_not (uiCode > 64);
     let x = createRPSList uiCode x;
     (x, s) \<leftarrow> read_loop parse_sps_rps [0..<uiCode] x s;
     (uiCode, s) \<leftarrow> xReadFlag s;
     let x = x\<lparr>m_bLongTermRefsPresent := (uiCode \<noteq> 0)\<rparr>;
     if m_bLongTermRefsPresent x then do {
       (uiCode, s) \<leftarrow> xReadUvlc s;
       let x = x\<lparr>m_numLongTermRefPicSPS := uiCode\<rparr>;
       read_loop parse_sps_ltref [0..<uiCode] x s
     } else Some (x, s)
   }"

definition parse_sps_vui :: "sps \<Rightarrow> ibs \<Rightarrow> (sps \<times> ibs) option" where
  "parse_sps_vui x s = do {
     (uiCode, s) \<leftarrow> xReadFlag s;
     let x = x\<lparr>m_SPSTemporalMVPEnabledFlag := (uiCode \<noteq> 0)\<rparr>;
     (uiCode, s) \<leftarrow> xReadFlag s;
     let x = x\<lparr>m_vuiParametersPresentFlag := (uiCode \<noteq> 0)\<rparr>;
     if m_vuiParametersPresentFlag x then do {
       (v, s) \<leftarrow> parseVUI (m_vuiParameters x) (m_chromaFormatIdc x) (m_uiMaxTLayers x) s;
       Some (x\<lparr>m_vuiParameters := v\<rparr>, s)
     } else Some (x, s)
   }"

definition parse_sps_rext :: "sps_rext \<Rightarrow> ibs \<Rightarrow> (sps_rext \<times> ibs) option" where
  "parse_sps_rext e s = do {
     (uiCode, s) \<leftarrow> xReadFlag s;
     let e = e\<lparr>transformSkipRotationEnabledFlag := (uiCode \<noteq> 0)\<rparr>;
     (uiCode, s) \<leftarrow> xReadFlag s;
     let e = e\<lparr>transformSkipContextEnabledFlag := (uiCode \<noteq> 0)\<rparr>;
     (uiCode, s) \<leftarrow> xReadFlag s;
     let e = e\<lparr>rdpcmEnabledFlagImplicit := (uiCode \<noteq> 0)\<rparr>;
     (uiCode, s) \<leftarrow> xReadFlag s;
     let e = e\<lparr>rdpcmEnabledFlagExplicit := (uiCode \<noteq> 0)\<rparr>;
     (uiCode, s) \<leftarrow> xReadFlag s;
     let e = e\<lparr>extendedPrecisionProcessingFlag := (uiCode \<noteq> 0)\<rparr>;
     (uiCode, s) \<leftarrow> xReadFlag s;
     let e = e\<lparr>intraSmoothingDisabledFlag := (uiCode \<noteq> 0)\<rparr>;
     (uiCode, s) \<leftarrow> xReadFlag s;
     let e = e\<lparr>highPrecisionOffsetsEnabledFlag := (uiCode \<noteq> 0)\<rparr>;
     (uiCode, s) \<leftarrow> xReadFlag s;
     let e = e\<lparr>persistentRiceAdaptationEnabledFlag := (uiCode \<noteq> 0)\<rparr>;
     (uiCode, s) \<leftarrow> xReadFlag s;
     Some (e\<lparr>cabacBypassAlignmentEnabledFlag := (uiCode \<noteq> 0)\<rparr>, s)
   }"

definition parse_sps_extension :: "sps \<Rightarrow> ibs \<Rightarrow> (sps \<times> ibs) option" where
  "parse_sps_extension x s = do {
     (uiCode, s) \<leftarrow> xReadFlag s;
     if uiCode \<noteq> 0 then do {
       (sps_extension_flags, s) \<leftarrow> read_flags 8 s;
       let x = (if profileIdc (generalPTL (m_pcPTL x)) = PROFILE_NEXT
         then x\<lparr>m_spsNextExtension := (m_spsNextExtension x)\<lparr>m_NextEnabled := True\<rparr>\<rparr> else x);
       (x, s) \<leftarrow> (if sps_extension_flags ! 0 then do {
           (e, s) \<leftarrow> parse_sps_rext (m_spsRangeExtension x) s;
           Some (x\<lparr>m_spsRangeExtension := e\<rparr>, s)
         } else Some (x, s));
       (x, s) \<leftarrow> (if sps_extension_flags ! 3 then do {
           check_not (\<not> m_NextEnabled (m_spsNextExtension x));
           ((n, l), s) \<leftarrow> parseSPSNext (m_spsNextExtension x, m_cu x) s;
           Some (x\<lparr>m_spsNextExtension := n, m_cu := l\<rparr>, s)
         } else Some (x, s));
       let bSkipTrailingExtensionBits = (\<exists>i\<in>{1, 2, 4, 5, 6, 7}. sps_extension_flags ! i);
       if bSkipTrailingExtensionBits then do {
         (_, s) \<leftarrow> skip_extension_data (getNumBitsLeft s) s;
         Some (x, s)
       } else Some (x, s)
     } else Some (x, s)
   }"

definition parse_sps_body :: "sps \<Rightarrow> ibs \<Rightarrow> (sps \<times> ibs) option" where
  "parse_sps_body x s = do {
     (x, s) \<leftarrow> parse_sps_head x s;
     (x, s) \<leftarrow> parse_sps_picture x s;
     (x, s) \<leftarrow> parse_sps_layers x s;
     (x, s) \<leftarrow> parse_sps_sizes x s;
     (x, s) \<leftarrow> parse_sps_tools x s;
     (x, s) \<leftarrow> parse_sps_refs x s;
     (x, s) \<leftarrow> parse_sps_vui x s;
     parse_sps_extension x s
   }"

definition parseSPS :: "sps \<Rightarrow> ibs \<Rightarrow> (sps \<times> ibs) option" where
  "parseSPS x s = do {
     (x, s) \<leftarrow> parse_sps_body x s;
     (_, s) \<leftarrow> xReadRbspTrailingBits s;
     Some (x, s)
   }"

section \<open>Round trip\<close>

definition sps_head_ok :: "sps \<Rightarrow> bool" where
  "sps_head_ok x \<longleftrightarrow> 1 \<le> m_uiMaxTLayers x \<and> m_uiMaxTLayers x \<le> 7
     \<and> (m_uiMaxTLayers x = 1 \<longrightarrow> m_bTemporalIdNestingFlag x)
     \<and> ptl_ok (m_uiMaxTLayers x - 1) (m_pcPTL x)
     \<and> 0 \<le> m_SPSId x \<and> m_SPSId x \<le> 15 \<and> m_chromaFormatIdc x \<in> {CHROMA_400, CHROMA_420, CHROMA_444}"

abbreviation head_part :: "sps \<Rightarrow> sps \<Rightarrow> sps" where
  "head_part x y \<equiv> y\<lparr>m_uiMaxTLayers := m_uiMaxTLayers x, m_bTemporalIdNestingFlag := m_bTemporalIdNestingFlag x,
     m_pcPTL := ptl_received (m_uiMaxTLayers x - 1) (m_pcPTL y) (m_pcPTL x), m_SPSId := m_SPSId x,
     m_chromaFormatIdc := m_chromaFormatIdc x\<rparr>"

lemma layers_minus1:
  assumes "1 \<le> n" "n \<le> 7"
  shows "sub32 n 1 = n - 1" "to_i32 (n - 1) = int (n - 1)" "Suc (n - 1) = n"
  using assms by (simp_all add: sub32_ge)

lemma codes_sps_head:
  assumes ok: "sps_head_ok x" and y: "ptl_wf (m_pcPTL y)"
  shows "vlc.codes (code_sps_head x) (parse_sps_head y) (head_part x y)"
proof -
  have h: "1 \<le> m_uiMaxTLayers x" "m_uiMaxTLayers x \<le> 7" and nest: "m_uiMaxTLayers x = 1 \<longrightarrow> m_bTemporalIdNestingFlag x"
    and p: "ptl_ok (m_uiMaxTLayers x - 1) (m_pcPTL x)" and i: "0 \<le> m_SPSId x" "m_SPSId x \<le> 15"
    and c: "m_chromaFormatIdc x \<in> {0, 1, 3}"
    using ok unfolding sps_head_ok_def by blast+
  note l = layers_minus1 [OF h]
  have v: "m_uiMaxTLayers x - 1 < 2 ^ 3" "\<not> 6 < m_uiMaxTLayers x - 1" "m_uiMaxTLayers x - 1 + 1 = m_uiMaxTLayers x"
    "to_u32 (m_SPSId x) < 2 ^ 31 - 1" "\<not> 15 < to_u32 (m_SPSId x)" "to_i32 (to_u32 (m_SPSId x)) = m_SPSId x"
    "m_chromaFormatIdc x < 2 ^ 31 - 1" "\<not> 3 < m_chromaFormatIdc x" "m_chromaFormatIdc x \<noteq> 2"
    "setMaxTLayers (m_uiMaxTLayers x) y = Some (y\<lparr>m_uiMaxTLayers := m_uiMaxTLayers x\<rparr>)"
    using h i c by (auto simp: u32_of_i32 setMaxTLayers_def MAX_TLAYER_def)
  have f: "(0 < (of_bool b :: nat)) = b" "((of_bool b :: nat) \<noteq> 1) = (\<not> b)" for b by auto
  have k: "m_pcPTL (z\<lparr>m_uiMaxTLayers := a\<rparr>) = m_pcPTL z" "m_pcPTL (z\<lparr>m_bTemporalIdNestingFlag := b\<rparr>) = m_pcPTL z"
    "m_uiMaxTLayers (z\<lparr>m_bTemporalIdNestingFlag := b\<rparr>) = m_uiMaxTLayers z"
    "m_uiMaxTLayers (z\<lparr>m_uiMaxTLayers := a\<rparr>) = a" "m_chromaFormatIdc (z\<lparr>m_chromaFormatIdc := a\<rparr>) = a" for z a b by simp_all
  show ?thesis
    unfolding code_sps_head_def parse_sps_head_def l Let_def
    apply (rule step_code, simp, simp, rule v(1))
    apply (simp only: v(2,3,10) bind.bind_lunit check_not_simps)
    apply (rule step_flag)
    apply (rule vlc.codes_check_reader)
    subgoal using nest by simp
    apply (simp only: k l f)
    apply (rule vlc.codes_bind [OF codes_PTL [OF p y]])
    apply (rule step_uvlc [OF v(4)])
    apply (rule vlc.codes_check_reader [OF v(5)])
    apply (rule step_uvlc [OF v(7)])
    apply (rule vlc.codes_check_reader [OF v(8)])
    apply (simp only: k v(6,9) check_not_simps bind.bind_lunit)
    apply (rule vlc.codes_bind_end)
     apply (rule end_opt [OF refl])
      apply (rule vlc.codes_bind_end [OF codes_flag_bool])
      apply (simp only: of_bool_eq_0_iff check_not_simps bind.bind_lunit simp_thms prod.case)
      apply (rule vlc.codes_return [OF refl])
     apply (rule refl)
    apply (rule vlc.codes_return)
    apply simp
    done
qed

definition chroma_depth :: "sps \<Rightarrow> int" where
  "chroma_depth x = (if isChromaEnabled (m_chromaFormatIdc x) then m_bitDepthChroma x else 8)"

definition sps_picture_ok :: "sps \<Rightarrow> bool" where
  "sps_picture_ok x \<longleftrightarrow> m_picWidthInLumaSamples x < 2 ^ 31 - 1 \<and> m_picHeightInLumaSamples x < 2 ^ 31 - 1
     \<and> (win_enabledFlag (m_conformanceWindow x) \<longrightarrow> window_ok (m_chromaFormatIdc x) (m_conformanceWindow x))
     \<and> m_bitDepthLuma x \<in> {8..16} \<and> chroma_depth x \<in> {8..16} \<and> m_uiBitsForPOC x \<in> {4..16}"

abbreviation picture_part :: "sps \<Rightarrow> sps \<Rightarrow> sps" where
  "picture_part x y \<equiv> y\<lparr>m_picWidthInLumaSamples := m_picWidthInLumaSamples x,
     m_picHeightInLumaSamples := m_picHeightInLumaSamples x,
     m_conformanceWindow := (if win_enabledFlag (m_conformanceWindow x) then m_conformanceWindow x else m_conformanceWindow y),
     m_bitDepthLuma := m_bitDepthLuma x, m_qpBDOffsetLuma := 6 * (m_bitDepthLuma x - 8),
     m_bitDepthChroma := chroma_depth x, m_qpBDOffsetChroma := 6 * (chroma_depth x - 8),
     m_uiBitsForPOC := m_uiBitsForPOC x\<rparr>"

lemma depth_minus8:
  assumes "d \<in> {8..16}"
  shows "to_u32 (d - 8) < 2 ^ 31 - 1" "\<not> 8 < to_u32 (d - 8)" "int (8 + to_u32 (d - 8)) = d" "int (6 * to_u32 (d - 8)) = 6 * (d - 8)"
proof -
  have "to_u32 (d - 8) = nat (d - 8)" using assms by simp
  with assms show "to_u32 (d - 8) < 2 ^ 31 - 1" "\<not> 8 < to_u32 (d - 8)" "int (8 + to_u32 (d - 8)) = d"
    "int (6 * to_u32 (d - 8)) = 6 * (d - 8)" by auto
qed

lemma codes_sps_picture:
  assumes ok: "sps_picture_ok x" and y: "m_chromaFormatIdc y = m_chromaFormatIdc x"
  shows "vlc.codes (code_sps_picture x) (parse_sps_picture y) (picture_part x y)"
proof -
  have s: "m_picWidthInLumaSamples x < 2 ^ 31 - 1" "m_picHeightInLumaSamples x < 2 ^ 31 - 1"
    and w: "win_enabledFlag (m_conformanceWindow x) \<Longrightarrow> window_ok (m_chromaFormatIdc x) (m_conformanceWindow x)"
    and d: "m_bitDepthLuma x \<in> {8..16}" "chroma_depth x \<in> {8..16}" and b: "m_uiBitsForPOC x \<in> {4..16}"
    using ok unfolding sps_picture_ok_def by blast+
  have c: "(if isChromaEnabled (m_chromaFormatIdc x) then m_bitDepthChroma x - 8 else 0) = chroma_depth x - 8"
    by (simp add: chroma_depth_def)
  have p: "sub32 (m_uiBitsForPOC x) 4 < 2 ^ 31 - 1" "\<not> 12 < sub32 (m_uiBitsForPOC x) 4"
    "u32 (4 + sub32 (m_uiBitsForPOC x) 4) = m_uiBitsForPOC x"
    using b by (auto simp: sub32_ge)
  have k: "m_conformanceWindow (z\<lparr>m_picWidthInLumaSamples := a\<rparr>) = m_conformanceWindow z"
    "m_conformanceWindow (z\<lparr>m_picHeightInLumaSamples := a\<rparr>) = m_conformanceWindow z"
    "m_chromaFormatIdc (z\<lparr>m_picWidthInLumaSamples := a\<rparr>) = m_chromaFormatIdc z"
    "m_chromaFormatIdc (z\<lparr>m_picHeightInLumaSamples := a\<rparr>) = m_chromaFormatIdc z" for z a by simp_all
  note dl = depth_minus8 [OF d(1)] and dc = depth_minus8 [OF d(2)]
  show ?thesis
    unfolding code_sps_picture_def parse_sps_picture_def Let_def c
    apply (rule step_uvlc [OF s(1)], rule step_uvlc [OF s(2)], rule step_flag)
    apply (simp only: k y of_bool_eq_0_iff not_not)
    apply (rule step_opt [OF refl], rule codes_window, erule w)
    apply (rule step_uvlc [OF dl(1)], rule vlc.codes_check_reader [OF dl(2)])
    apply (rule step_uvlc [OF dc(1)], rule vlc.codes_check_reader [OF dc(2)])
    apply (rule vlc.codes_bind_end [OF codes_uvlc [OF p(1)]])
    apply (simp only: p(2,3) dl(3,4) dc(3,4) check_not_simps bind.bind_lunit prod.case)
    apply (rule vlc.codes_return)
    apply (rule sps.equality; simp)
    done
qed

definition sps_layers_wf :: "sps \<Rightarrow> bool" where
  "sps_layers_wf x \<longleftrightarrow> length (m_uiMaxDecPicBuffering x) = 7 \<and> length (m_numReorderPics x) = 7
     \<and> length (m_uiMaxLatencyIncreasePlus1 x) = 7"

definition sps_layers_ok :: "sps \<Rightarrow> bool" where
  "sps_layers_ok x \<longleftrightarrow> sps_layers_wf x \<and> (\<forall>i<m_uiMaxTLayers x. 1 \<le> m_uiMaxDecPicBuffering x ! i
     \<and> m_uiMaxDecPicBuffering x ! i < 2 ^ 31 \<and> 0 \<le> m_numReorderPics x ! i \<and> m_numReorderPics x ! i < 2 ^ 31 - 1
     \<and> m_uiMaxLatencyIncreasePlus1 x ! i < 2 ^ 31 - 1)"

abbreviation layers_part :: "nat \<Rightarrow> sps \<Rightarrow> sps \<Rightarrow> sps" where
  "layers_part n x y \<equiv> y\<lparr>m_uiMaxDecPicBuffering := overlay n (m_uiMaxDecPicBuffering x) (m_uiMaxDecPicBuffering y),
     m_numReorderPics := overlay n (m_numReorderPics x) (m_numReorderPics y),
     m_uiMaxLatencyIncreasePlus1 := overlay n (m_uiMaxLatencyIncreasePlus1 x) (m_uiMaxLatencyIncreasePlus1 y)\<rparr>"

lemma codes_sps_layer:
  assumes ok: "sps_layers_ok x" "k < m_uiMaxTLayers x" "k < 7" and y: "sps_layers_wf y"
  shows "vlc.codes (code_sps_layer x k) (parse_sps_layer k (layers_part k x y)) (layers_part (Suc k) x y)"
proof -
  have len: "length (m_uiMaxDecPicBuffering x) = 7" "length (m_numReorderPics x) = 7" "length (m_uiMaxLatencyIncreasePlus1 x) = 7"
    "length (m_uiMaxDecPicBuffering y) = 7" "length (m_numReorderPics y) = 7" "length (m_uiMaxLatencyIncreasePlus1 y) = 7"
    using ok(1) y by (simp_all add: sps_layers_ok_def sps_layers_wf_def)
  have v: "1 \<le> m_uiMaxDecPicBuffering x ! k" "m_uiMaxDecPicBuffering x ! k < 2 ^ 31" "0 \<le> m_numReorderPics x ! k"
    "m_numReorderPics x ! k < 2 ^ 31 - 1" "m_uiMaxLatencyIncreasePlus1 x ! k < 2 ^ 31 - 1"
    using ok(1,2) unfolding sps_layers_ok_def by blast+
  have b: "sub32 (m_uiMaxDecPicBuffering x ! k) 1 < 2 ^ 31 - 1"
    "u32 (sub32 (m_uiMaxDecPicBuffering x ! k) 1 + 1) = m_uiMaxDecPicBuffering x ! k"
    using v(1,2) by (simp_all add: sub32_ge)
  have g: "arr_get (m_uiMaxDecPicBuffering x) k = Some (m_uiMaxDecPicBuffering x ! k)"
    "arr_get (m_numReorderPics x) k = Some (m_numReorderPics x ! k)"
    "arr_get (m_uiMaxLatencyIncreasePlus1 x) k = Some (m_uiMaxLatencyIncreasePlus1 x ! k)" "\<not> MAX_TLAYER \<le> k"
    using len ok(3) by (simp_all add: MAX_TLAYER_def)
  have u: "setMaxDecPicBuffering (m_uiMaxDecPicBuffering x ! k) k (layers_part k x y)
      = Some (layers_part k x y\<lparr>m_uiMaxDecPicBuffering := overlay (Suc k) (m_uiMaxDecPicBuffering x) (m_uiMaxDecPicBuffering y)\<rparr>)"
    "setNumReorderPics (m_numReorderPics x ! k) k
        (layers_part k x y\<lparr>m_uiMaxDecPicBuffering := overlay (Suc k) (m_uiMaxDecPicBuffering x) (m_uiMaxDecPicBuffering y)\<rparr>)
      = Some (layers_part k x y\<lparr>m_uiMaxDecPicBuffering := overlay (Suc k) (m_uiMaxDecPicBuffering x) (m_uiMaxDecPicBuffering y),
          m_numReorderPics := overlay (Suc k) (m_numReorderPics x) (m_numReorderPics y)\<rparr>)"
    "setMaxLatencyIncreasePlus1 (m_uiMaxLatencyIncreasePlus1 x ! k) k
        (layers_part k x y\<lparr>m_uiMaxDecPicBuffering := overlay (Suc k) (m_uiMaxDecPicBuffering x) (m_uiMaxDecPicBuffering y),
          m_numReorderPics := overlay (Suc k) (m_numReorderPics x) (m_numReorderPics y)\<rparr>)
      = Some (layers_part (Suc k) x y)"
    using len ok(3) g(4) by (simp_all add: setMaxDecPicBuffering_def setNumReorderPics_def setMaxLatencyIncreasePlus1_def
        arr_overlay del: arr_set_Some)
  show ?thesis
    unfolding code_sps_layer_def parse_sps_layer_def g(1-3) bind.bind_lunit
    apply (rule step_uvlc [OF b(1)])
    apply (simp only: b(2) u(1) bind.bind_lunit)
    apply (rule step_uvlc [OF u32_of_i32(1) [OF v(3,4)]])
    apply (simp only: u32_of_i32(2) [OF v(3,4)] u(2) bind.bind_lunit)
    apply (rule vlc.codes_bind_end [OF codes_uvlc [OF v(5)]])
    apply (simp only: u(3) bind.bind_lunit prod.case)
    by (rule vlc.codes_return [OF refl])
qed

lemma codes_sps_layers:
  assumes ok: "sps_layers_ok x" "1 \<le> m_uiMaxTLayers x" "m_uiMaxTLayers x \<le> 7"
    and y: "sps_layers_wf y" "m_uiMaxTLayers y = m_uiMaxTLayers x"
  shows "vlc.codes (code_sps_layers x) (parse_sps_layers y) (layers_part (m_uiMaxTLayers x) x y)"
proof -
  note l = layers_minus1 [OF ok(2,3)]
  have "vlc.codes (code_sps_layer x k) (parse_sps_layer k (layers_part k x y)) (layers_part (Suc k) x y)"
    if "k < m_uiMaxTLayers x" for k
    using codes_sps_layer [OF ok(1) that _ y(1)] that ok(3) by simp
  from vlc.codes_read_upt [of "m_uiMaxTLayers x" "code_sps_layer x" parse_sps_layer "\<lambda>k. layers_part k x y", OF this]
  have r: "vlc.codes (for_loop (code_sps_layer x) [0..<m_uiMaxTLayers x]) (read_loop parse_sps_layer [0..<m_uiMaxTLayers x] y)
    (layers_part (m_uiMaxTLayers x) x y)" by simp
  show ?thesis
    unfolding code_sps_layers_def parse_sps_layers_def Let_def y(2) l
    apply (rule step_flag)
    apply (simp only: of_bool_eq_0_iff not_not if_True simp_thms)
    by (rule r)
qed

definition sps_sizes_ok :: "sps \<Rightarrow> bool" where
  "sps_sizes_ok x \<longleftrightarrow> m_uiMaxCUWidth (m_cu x) = m_uiMaxCUHeight (m_cu x)
     \<and> 3 \<le> m_log2MinCodingBlockSize x \<and> 0 \<le> m_log2DiffMaxMinCodingBlockSize x
     \<and> m_log2MinCodingBlockSize x + m_log2DiffMaxMinCodingBlockSize x < 31
     \<and> (150 \<le> levelIdc (generalPTL (m_pcPTL x)) \<longrightarrow> 5 \<le> m_log2MinCodingBlockSize x + m_log2DiffMaxMinCodingBlockSize x)
     \<and> 2 \<le> m_uiQuadtreeTULog2MinSize x \<and> m_uiQuadtreeTULog2MinSize x \<le> m_uiQuadtreeTULog2MaxSize x
     \<and> m_uiQuadtreeTULog2MaxSize x < 31
     \<and> 1 \<le> m_uiQuadtreeTUMaxDepthInter x \<and> m_uiQuadtreeTUMaxDepthInter x < 2 ^ 31
     \<and> 1 \<le> m_uiQuadtreeTUMaxDepthIntra x \<and> m_uiQuadtreeTUMaxDepthIntra x < 2 ^ 31"

text \<open>The sizes that follow from the logarithms.\<close>

definition max_cu_size :: "sps \<Rightarrow> nat" where
  "max_cu_size x = 2 ^ nat (m_log2MinCodingBlockSize x + m_log2DiffMaxMinCodingBlockSize x)"

definition max_coding_depth :: "sps \<Rightarrow> nat" where
  "max_coding_depth x = nat (m_log2DiffMaxMinCodingBlockSize x
     + max 0 (m_log2MinCodingBlockSize x - int (m_uiQuadtreeTULog2MinSize x)))"

abbreviation sizes_part :: "sps \<Rightarrow> sps \<Rightarrow> sps" where
  "sizes_part x y \<equiv> y\<lparr>m_log2MinCodingBlockSize := m_log2MinCodingBlockSize x,
     m_log2DiffMaxMinCodingBlockSize := m_log2DiffMaxMinCodingBlockSize x,
     m_cu := \<lparr>m_uiMaxCUWidth = max_cu_size x, m_uiMaxCUHeight = max_cu_size x, m_uiMaxCodingDepth = max_coding_depth x\<rparr>,
     m_uiQuadtreeTULog2MinSize := m_uiQuadtreeTULog2MinSize x, m_uiQuadtreeTULog2MaxSize := m_uiQuadtreeTULog2MaxSize x,
     m_uiMaxTrSize := 2 ^ m_uiQuadtreeTULog2MaxSize x,
     m_uiQuadtreeTUMaxDepthInter := m_uiQuadtreeTUMaxDepthInter x,
     m_uiQuadtreeTUMaxDepthIntra := m_uiQuadtreeTUMaxDepthIntra x\<rparr>"

lemma codes_sps_sizes:
  assumes ok: "sps_sizes_ok x" and y: "levelIdc (generalPTL (m_pcPTL y)) = levelIdc (generalPTL (m_pcPTL x))"
  shows "vlc.codes (code_sps_sizes x) (parse_sps_sizes y) (sizes_part x y)"
proof -
  let ?m = "m_log2MinCodingBlockSize x" and ?d = "m_log2DiffMaxMinCodingBlockSize x"
    and ?tn = "m_uiQuadtreeTULog2MinSize x" and ?tx = "m_uiQuadtreeTULog2MaxSize x"
    and ?ie = "m_uiQuadtreeTUMaxDepthInter x" and ?ia = "m_uiQuadtreeTUMaxDepthIntra x"
  have w: "m_uiMaxCUWidth (m_cu x) = m_uiMaxCUHeight (m_cu x)" and m: "3 \<le> ?m" "0 \<le> ?d" "?m + ?d < 31"
    and lv: "150 \<le> levelIdc (generalPTL (m_pcPTL x)) \<longrightarrow> 5 \<le> ?m + ?d"
    and t: "2 \<le> ?tn" "?tn \<le> ?tx" "?tx < 31" and e: "1 \<le> ?ie" "?ie < 2 ^ 31" and a: "1 \<le> ?ia" "?ia < 2 ^ 31"
    using ok unfolding sps_sizes_ok_def by blast+
  have m3: "to_u32 (?m - 3) = nat (?m - 3)" using m by simp
  have v: "to_u32 (?m - 3) < 2 ^ 31 - 1" "to_i32 (u32 (to_u32 (?m - 3) + 3)) = ?m"
    "to_u32 ?d < 2 ^ 31 - 1" "to_i32 (to_u32 ?d) = ?d"
    "sub32 ?tn 2 < 2 ^ 31 - 1" "u32 (sub32 ?tn 2 + 2) = ?tn" "sub32 ?tx ?tn < 2 ^ 31 - 1" "u32 (sub32 ?tx ?tn + ?tn) = ?tx"
    "sub32 ?ie 1 < 2 ^ 31 - 1" "u32 (sub32 ?ie 1 + 1) = ?ie" "sub32 ?ia 1 < 2 ^ 31 - 1" "u32 (sub32 ?ia 1 + 1) = ?ia"
    using m t e a unfolding m3 by (simp_all add: sub32_ge u32_of_i32)
  have sh: "shl1_i (?m + ?d) = Some (max_cu_size x)" "shl1 ?tx = Some (2 ^ ?tx)"
    using m t by (simp_all add: shl1_i_def shl1_def max_cu_size_def push_bit_nat_def)
  have dep: "to_u32 (?d + max 0 (?m - to_i32 ?tn)) = max_coding_depth x"
    using m t by (simp add: max_coding_depth_def)
  have k: "m_log2DiffMaxMinCodingBlockSize (z\<lparr>m_log2DiffMaxMinCodingBlockSize := i\<rparr>) = i"
    "m_pcPTL (z\<lparr>m_log2DiffMaxMinCodingBlockSize := i\<rparr>) = m_pcPTL z" "m_pcPTL (z\<lparr>m_log2MinCodingBlockSize := i\<rparr>) = m_pcPTL z"
    "m_uiQuadtreeTULog2MinSize (z\<lparr>m_uiQuadtreeTULog2MinSize := n\<rparr>) = n"
    "m_uiQuadtreeTULog2MinSize (z\<lparr>m_uiQuadtreeTULog2MaxSize := n\<rparr>) = m_uiQuadtreeTULog2MinSize z"
    "m_uiQuadtreeTULog2MinSize (z\<lparr>m_uiMaxTrSize := n\<rparr>) = m_uiQuadtreeTULog2MinSize z"
    "m_uiQuadtreeTULog2MinSize (z\<lparr>m_uiQuadtreeTUMaxDepthInter := n\<rparr>) = m_uiQuadtreeTULog2MinSize z"
    "m_uiQuadtreeTULog2MinSize (z\<lparr>m_uiQuadtreeTUMaxDepthIntra := n\<rparr>) = m_uiQuadtreeTULog2MinSize z"
    for z :: sps and i n by simp_all
  show ?thesis
    unfolding code_sps_sizes_def parse_sps_sizes_def Let_def
    apply (rule vlc.codes_check_writer)
    subgoal using w by simp
    apply (rule step_uvlc [OF v(1)])
    apply (rule step_uvlc [OF v(3)])
    apply (simp only: v(2,4) k y)
    apply (rule vlc.codes_check_reader)
    subgoal using lv by auto
    apply (simp only: sh bind.bind_lunit)
    apply (rule step_uvlc [OF v(5)])
    apply (rule step_uvlc [OF v(7)])
    apply (simp only: v(6,8) k sh bind.bind_lunit)
    apply (rule step_uvlc [OF v(9)])
    apply (rule vlc.codes_bind_end [OF codes_uvlc [OF v(11)]])
    apply (simp only: v(10,12) k dep prod.case)
    apply (rule vlc.codes_return)
    apply (rule sps.equality; simp)
    done
qed

definition pcm_chroma_depth :: "sps \<Rightarrow> int" where
  "pcm_chroma_depth x = (if isChromaEnabled (m_chromaFormatIdc x) then m_pcmBitDepthChroma x else 1)"

definition sps_pcm_ok :: "sps \<Rightarrow> bool" where
  "sps_pcm_ok x \<longleftrightarrow> m_pcmBitDepthLuma x \<in> {1..16} \<and> pcm_chroma_depth x \<in> {1..16}
     \<and> 3 \<le> m_uiPCMLog2MinSize x \<and> m_uiPCMLog2MinSize x \<le> m_pcmLog2MaxSize x \<and> m_pcmLog2MaxSize x < 2 ^ 31"

abbreviation pcm_part :: "sps \<Rightarrow> sps \<Rightarrow> sps" where
  "pcm_part x y \<equiv> y\<lparr>m_pcmBitDepthLuma := m_pcmBitDepthLuma (if m_usePCM x then x else y),
     m_pcmBitDepthChroma := (if m_usePCM x then pcm_chroma_depth x else m_pcmBitDepthChroma y),
     m_uiPCMLog2MinSize := m_uiPCMLog2MinSize (if m_usePCM x then x else y),
     m_pcmLog2MaxSize := m_pcmLog2MaxSize (if m_usePCM x then x else y),
     m_bPCMFilterDisableFlag := m_bPCMFilterDisableFlag (if m_usePCM x then x else y)\<rparr>"

abbreviation tools_part :: "sps \<Rightarrow> sps \<Rightarrow> sps" where
  "tools_part x y \<equiv> pcm_part x (y\<lparr>m_useALF := m_useALF x, m_useAMP := m_useAMP x, m_bUseSAO := m_bUseSAO x, m_usePCM := m_usePCM x\<rparr>)"

lemma codes_sps_pcm:
  assumes ok: "sps_pcm_ok x" and p: "m_usePCM x"
  shows "vlc.codes (code_sps_pcm x) (parse_sps_pcm y) (pcm_part x y)"
proof -
  have d: "m_pcmBitDepthLuma x \<in> {1..16}" "pcm_chroma_depth x \<in> {1..16}"
    and z: "3 \<le> m_uiPCMLog2MinSize x" "m_uiPCMLog2MinSize x \<le> m_pcmLog2MaxSize x" "m_pcmLog2MaxSize x < 2 ^ 31"
    using ok unfolding sps_pcm_ok_def by blast+
  have f: "sub32 (to_u32 e) 1 < 2 ^ 4" "int (1 + sub32 (to_u32 e) 1) = e" if "e \<in> {1..16}" for e
  proof -
    have e: "to_u32 e = nat e" "1 \<le> nat e" "nat e < 2 ^ 32" using that by auto
    have "sub32 (nat e) 1 = nat e - 1" by (rule sub32_ge) (use e in simp_all)
    then show "sub32 (to_u32 e) 1 < 2 ^ 4" "int (1 + sub32 (to_u32 e) 1) = e" unfolding e(1) using that by auto
  qed
  have c: "(if isChromaEnabled (m_chromaFormatIdc x) then sub32 (to_u32 (m_pcmBitDepthChroma x)) 1 else 0)
      = sub32 (to_u32 (pcm_chroma_depth x)) 1" by (simp add: pcm_chroma_depth_def sub32_ge)
  have v: "sub32 (m_uiPCMLog2MinSize x) 3 < 2 ^ 31 - 1" "u32 (sub32 (m_uiPCMLog2MinSize x) 3 + 3) = m_uiPCMLog2MinSize x"
    "sub32 (m_pcmLog2MaxSize x) (m_uiPCMLog2MinSize x) < 2 ^ 31 - 1"
    "u32 (sub32 (m_pcmLog2MaxSize x) (m_uiPCMLog2MinSize x) + m_uiPCMLog2MinSize x) = m_pcmLog2MaxSize x"
    using z by (simp_all add: sub32_ge)
  have k: "m_uiPCMLog2MinSize (z\<lparr>m_uiPCMLog2MinSize := n\<rparr>) = n" for z :: sps and n by simp
  show ?thesis
    unfolding code_sps_pcm_def parse_sps_pcm_def Let_def c
    apply (rule step_code, simp, simp, rule f(1) [OF d(1)])
    apply (rule step_code, simp, simp, rule f(1) [OF d(2)])
    apply (rule step_uvlc [OF v(1)], rule step_uvlc [OF v(3)])
    apply (simp only: f(2) [OF d(1)] f(2) [OF d(2)] v(2,4) k)
    apply (rule end_flag)
    apply (simp only: of_bool_eq_0_iff not_not)
    apply (rule sps.equality; simp add: p)
    done
qed

lemma codes_sps_tools:
  assumes ok: "m_usePCM x \<Longrightarrow> sps_pcm_ok x"
  shows "vlc.codes (code_sps_tools x) (parse_sps_tools y) (tools_part x y)"
proof -
  have k: "m_usePCM (z\<lparr>m_usePCM := b\<rparr>) = b" for z b by simp
  show ?thesis
    unfolding code_sps_tools_def parse_sps_tools_def Let_def
    apply (rule step_flag)+
    apply (simp only: of_bool_eq_0_iff not_not k)
    apply (rule end_opt [OF refl], rule codes_sps_pcm, erule ok, assumption)
    apply (rule sps.equality; simp)
    done
qed

text \<open>The list of sets as it is after the parser has received the first \<open>k\<close> of \<open>src\<close>.\<close>

definition rps_list_upto :: "nat \<Rightarrow> ref_pic_set list \<Rightarrow> ref_pic_set list" where
  "rps_list_upto k src = fold (\<lambda>i l. l[i := rps_received l False (int i) ReferencePictureSet (src ! i)]) [0..<k]
     (replicate (length src) ReferencePictureSet)"

lemma rps_list_upto_Suc: "rps_list_upto (Suc k) src = (rps_list_upto k src)
    [k := rps_received (rps_list_upto k src) False (int k) ReferencePictureSet (src ! k)]"
  by (simp add: rps_list_upto_def)

lemma rps_list_upto_law: "length (rps_list_upto k src) = length src
    \<and> (\<forall>j. k \<le> j \<longrightarrow> j < length src \<longrightarrow> rps_list_upto k src ! j = ReferencePictureSet)"
proof (induction k)
  case 0
  then show ?case by (simp add: rps_list_upto_def)
qed (simp add: rps_list_upto_Suc)

definition sps_refs_ok :: "sps \<Rightarrow> bool" where
  "sps_refs_ok x \<longleftrightarrow> 1 \<le> m_uiMaxTLayers x \<and> length (m_RPSList x) \<le> 64
     \<and> (\<forall>i<length (m_RPSList x). rps_ok (rps_list_upto i (m_RPSList x)) False (int i) (m_RPSList x ! i))
     \<and> m_numLongTermRefPicSPS x \<le> 33 \<and> length (m_ltRefPicPocLsbSps x) = 33 \<and> length (m_usedByCurrPicLtSPSFlag x) = 33
     \<and> 0 < m_uiBitsForPOC x \<and> m_uiBitsForPOC x \<le> 32
     \<and> (\<forall>k<m_numLongTermRefPicSPS x. m_ltRefPicPocLsbSps x ! k < 2 ^ m_uiBitsForPOC x)"

definition sps_ltrefs_wf :: "sps \<Rightarrow> bool" where
  "sps_ltrefs_wf x \<longleftrightarrow> length (m_ltRefPicPocLsbSps x) = 33 \<and> length (m_usedByCurrPicLtSPSFlag x) = 33"

abbreviation ltrefs_part :: "nat \<Rightarrow> sps \<Rightarrow> sps \<Rightarrow> sps" where
  "ltrefs_part n x y \<equiv> y\<lparr>m_ltRefPicPocLsbSps := overlay n (m_ltRefPicPocLsbSps x) (m_ltRefPicPocLsbSps y),
     m_usedByCurrPicLtSPSFlag := overlay n (m_usedByCurrPicLtSPSFlag x) (m_usedByCurrPicLtSPSFlag y)\<rparr>"

abbreviation refs_part :: "sps \<Rightarrow> sps \<Rightarrow> sps" where
  "refs_part x y \<equiv> (let n = (if m_bLongTermRefsPresent x then m_numLongTermRefPicSPS x else 0)
     in y\<lparr>m_RPSList := rps_list_upto (length (m_RPSList x)) (m_RPSList x),
       m_bLongTermRefsPresent := m_bLongTermRefsPresent x,
       m_numLongTermRefPicSPS := m_numLongTermRefPicSPS (if m_bLongTermRefsPresent x then x else y),
       m_ltRefPicPocLsbSps := overlay n (m_ltRefPicPocLsbSps x) (m_ltRefPicPocLsbSps y),
       m_usedByCurrPicLtSPSFlag := overlay n (m_usedByCurrPicLtSPSFlag x) (m_usedByCurrPicLtSPSFlag y)\<rparr>)"

lemma rps_wf_fresh: "rps_wf ReferencePictureSet"
  by (simp add: rps_wf_def ReferencePictureSet_def)

lemma codes_sps_rps:
  assumes "rps_ok (rps_list_upto k src) False (int k) (src ! k)" "k < length src"
  shows "vlc.codes (code_sps_rps src k) (parse_sps_rps k (y\<lparr>m_RPSList := rps_list_upto k src\<rparr>))
    (y\<lparr>m_RPSList := rps_list_upto (Suc k) src\<rparr>)"
proof -
  let ?l = "rps_list_upto k src"
  have l: "length ?l = length src" "?l ! k = ReferencePictureSet" using rps_list_upto_law [of k src] assms(2) by auto
  have g: "arr_get src k = Some (src ! k)" "arr_get ?l k = Some ReferencePictureSet"
    "arr_set ?l k (rps_received ?l False (int k) ReferencePictureSet (src ! k)) = Some (rps_list_upto (Suc k) src)"
    using assms(2) l by (simp_all add: rps_list_upto_Suc)
  have k: "m_RPSList (y\<lparr>m_RPSList := v\<rparr>) = v" "y\<lparr>m_RPSList := v, m_RPSList := w\<rparr> = y\<lparr>m_RPSList := w\<rparr>" for v w by simp_all
  show ?thesis
    unfolding code_sps_rps_def parse_sps_rps_def k g bind.bind_lunit
    apply (rule vlc.codes_bind_end [OF codes_rps [OF assms(1) rps_wf_fresh]])
    apply (simp only: prod.case g bind.bind_lunit)
    by (rule vlc.codes_return [OF refl])
qed

lemma codes_sps_ltref:
  assumes ok: "sps_refs_ok x" "k < m_numLongTermRefPicSPS x" and y: "sps_ltrefs_wf y" "m_uiBitsForPOC y = m_uiBitsForPOC x"
  shows "vlc.codes (code_sps_ltref x k) (parse_sps_ltref k (ltrefs_part k x y)) (ltrefs_part (Suc k) x y)"
proof -
  have n: "m_numLongTermRefPicSPS x \<le> 33" "length (m_ltRefPicPocLsbSps x) = 33" "length (m_usedByCurrPicLtSPSFlag x) = 33"
    "0 < m_uiBitsForPOC x" "m_uiBitsForPOC x \<le> 32" "m_ltRefPicPocLsbSps x ! k < 2 ^ m_uiBitsForPOC x"
    "length (m_ltRefPicPocLsbSps y) = 33" "length (m_usedByCurrPicLtSPSFlag y) = 33"
    using ok y(1) unfolding sps_refs_ok_def sps_ltrefs_wf_def by blast+
  have k: "k < 33" "\<not> MAX_NUM_LONG_TERM_REF_PICS \<le> k" using n(1) ok(2) by (simp_all add: MAX_NUM_LONG_TERM_REF_PICS_def)
  have g: "getLtRefPicPocLsbSps x k = Some (m_ltRefPicPocLsbSps x ! k)"
    "getUsedByCurrPicLtSPSFlag x k = Some (m_usedByCurrPicLtSPSFlag x ! k)"
    "setLtRefPicPocLsbSps k (m_ltRefPicPocLsbSps x ! k) (ltrefs_part k x y)
      = Some (ltrefs_part k x y\<lparr>m_ltRefPicPocLsbSps := overlay (Suc k) (m_ltRefPicPocLsbSps x) (m_ltRefPicPocLsbSps y)\<rparr>)"
    "setUsedByCurrPicLtSPSFlag k (m_usedByCurrPicLtSPSFlag x ! k)
        (ltrefs_part k x y\<lparr>m_ltRefPicPocLsbSps := overlay (Suc k) (m_ltRefPicPocLsbSps x) (m_ltRefPicPocLsbSps y)\<rparr>)
      = Some (ltrefs_part (Suc k) x y)"
    using n k by (simp_all add: getLtRefPicPocLsbSps_def getUsedByCurrPicLtSPSFlag_def setLtRefPicPocLsbSps_def
        setUsedByCurrPicLtSPSFlag_def arr_overlay del: arr_set_Some)
  have b: "m_uiBitsForPOC (ltrefs_part k x y) = m_uiBitsForPOC x" using y(2) by simp
  show ?thesis
    unfolding code_sps_ltref_def parse_sps_ltref_def g b bind.bind_lunit
    apply (rule step_code [OF n(4,5,6)])
    apply (simp only: g(3) bind.bind_lunit)
    apply (rule vlc.codes_bind_end [OF codes_flag_bool])
    apply (simp only: of_bool_eq_0_iff not_not g(4) bind.bind_lunit prod.case)
    by (rule vlc.codes_return [OF refl])
qed

lemma codes_sps_refs:
  assumes ok: "sps_refs_ok x" and y: "sps_ltrefs_wf y" "m_uiBitsForPOC y = m_uiBitsForPOC x" "m_RPSList y = []"
  shows "vlc.codes (code_sps_refs x) (parse_sps_refs y) (refs_part x y)"
proof -
  let ?l = "m_RPSList x" and ?n = "m_numLongTermRefPicSPS x"
  have c: "m_uiMaxTLayers x \<noteq> 0" "length ?l < 2 ^ 31 - 1" "\<not> 64 < length ?l" "?n < 2 ^ 31 - 1"
    and r: "\<And>i. i < length ?l \<Longrightarrow> rps_ok (rps_list_upto i ?l) False (int i) (?l ! i)"
    using ok by (auto simp: sps_refs_ok_def)
  let ?z = "y\<lparr>m_RPSList := rps_list_upto (length ?l) ?l, m_bLongTermRefsPresent := m_bLongTermRefsPresent x\<rparr>"
  have cr: "createRPSList (length ?l) y = y\<lparr>m_RPSList := rps_list_upto 0 ?l\<rparr>"
    by (simp add: createRPSList_def rps_list_upto_def y(3))
  have one: "vlc.codes (for_loop (code_sps_rps ?l) [0..<length ?l])
      (read_loop parse_sps_rps [0..<length ?l] (y\<lparr>m_RPSList := rps_list_upto 0 ?l\<rparr>))
      (y\<lparr>m_RPSList := rps_list_upto (length ?l) ?l\<rparr>)"
    by (rule vlc.codes_read_upt [of "length ?l" "code_sps_rps ?l" parse_sps_rps "\<lambda>k. y\<lparr>m_RPSList := rps_list_upto k ?l\<rparr>"])
      (rule codes_sps_rps [OF r], assumption+)
  let ?y = "?z\<lparr>m_numLongTermRefPicSPS := ?n\<rparr>"
  have two: "vlc.codes (for_loop (code_sps_ltref x) [0..<?n]) (read_loop parse_sps_ltref [0..<?n] ?y) (ltrefs_part ?n x ?y)"
  proof -
    have wf: "sps_ltrefs_wf ?y" "m_uiBitsForPOC ?y = m_uiBitsForPOC x" using y by (simp_all add: sps_ltrefs_wf_def)
    have "vlc.codes (for_loop (code_sps_ltref x) [0..<?n]) (read_loop parse_sps_ltref [0..<?n] (ltrefs_part 0 x ?y))
      (ltrefs_part ?n x ?y)"
      by (rule vlc.codes_read_upt [of ?n "code_sps_ltref x" parse_sps_ltref "\<lambda>k. ltrefs_part k x ?y"])
        (rule codes_sps_ltref [OF ok _ wf])
    then show ?thesis by simp
  qed
  have k: "m_bLongTermRefsPresent (u\<lparr>m_bLongTermRefsPresent := b\<rparr>) = b" for u b by simp
  show ?thesis
    unfolding code_sps_refs_def parse_sps_refs_def Let_def
    apply (rule vlc.codes_check_writer [OF c(1)])
    apply (rule step_uvlc [OF c(2)])
    apply (rule vlc.codes_check_reader [OF c(3)])
    apply (simp only: cr)
    apply (rule vlc.codes_bind [OF one])
    apply (rule step_flag)
    apply (simp only: of_bool_eq_0_iff not_not k)
    apply (rule end_opt [OF refl])
     apply (rule step_uvlc [OF c(4)])
     apply (rule two)
    apply (cases "m_bLongTermRefsPresent x"; simp)
    done
qed

definition vui_part :: "sps \<Rightarrow> sps \<Rightarrow> sps" where
  "vui_part x y = y\<lparr>m_SPSTemporalMVPEnabledFlag := m_SPSTemporalMVPEnabledFlag x,
     m_vuiParametersPresentFlag := m_vuiParametersPresentFlag x,
     m_vuiParameters := (if m_vuiParametersPresentFlag x
       then vui_received (m_uiMaxTLayers x) (m_vuiParameters y) (m_vuiParameters x) else m_vuiParameters y)\<rparr>"

lemma codes_sps_vui:
  assumes ok: "m_vuiParametersPresentFlag x \<Longrightarrow> vui_ok (m_chromaFormatIdc x) (m_uiMaxTLayers x) (m_vuiParameters x)"
    and y: "m_chromaFormatIdc y = m_chromaFormatIdc x" "m_uiMaxTLayers y = m_uiMaxTLayers x"
      "hrd_wf (hrdParameters (m_vuiParameters y))"
  shows "vlc.codes (code_sps_vui x) (parse_sps_vui y) (vui_part x y)"
proof -
  let ?y = "y\<lparr>m_SPSTemporalMVPEnabledFlag := m_SPSTemporalMVPEnabledFlag x,
    m_vuiParametersPresentFlag := m_vuiParametersPresentFlag x\<rparr>"
  have k: "m_vuiParametersPresentFlag ?y = m_vuiParametersPresentFlag x" "m_vuiParameters ?y = m_vuiParameters y"
    "m_chromaFormatIdc ?y = m_chromaFormatIdc x" "m_uiMaxTLayers ?y = m_uiMaxTLayers x" using y by simp_all
  show ?thesis
    unfolding code_sps_vui_def parse_sps_vui_def Let_def
    apply (rule step_flag)+
    apply (simp only: of_bool_eq_0_iff not_not k)
    apply (rule end_opt [OF refl])
     apply (rule vlc.codes_bind_end [OF codes_VUI])
       apply (erule ok)
      apply (rule y(3))
     apply (simp only: prod.case)
     apply (rule vlc.codes_return [OF refl])
    apply (simp add: vui_part_def)
    done
qed

lemma codes_sps_rext: "vlc.codes (code_sps_rext e) (parse_sps_rext e0) e"
  unfolding code_sps_rext_def parse_sps_rext_def Let_def
  apply (rule step_flag end_flag)+
  apply (simp only: of_bool_eq_0_iff not_not)
  apply (rule sps_rext.equality; simp)
  done

definition sps_extension_ok :: "sps \<Rightarrow> bool" where
  "sps_extension_ok x \<longleftrightarrow> (m_NextEnabled (m_spsNextExtension x) \<longrightarrow>
     profileIdc (generalPTL (m_pcPTL x)) = PROFILE_NEXT \<and> next_ok (m_spsNextExtension x))"

text \<open>The extension of the new tools that the parser ends with: it is switched on by the profile.\<close>

definition extension_received :: "sps \<Rightarrow> sps_next \<Rightarrow> sps_next" where
  "extension_received x n0 =
     (let n = m_spsNextExtension x; e = sps_rext_differs (m_spsRangeExtension x) \<or> m_NextEnabled n;
          n0 = (if e \<and> profileIdc (generalPTL (m_pcPTL x)) = PROFILE_NEXT then n0\<lparr>m_NextEnabled := True\<rparr> else n0)
      in if m_NextEnabled n then next_received n n0 else n0)"

abbreviation extension_part :: "sps \<Rightarrow> sps \<Rightarrow> sps" where
  "extension_part x y \<equiv> y\<lparr>
     m_spsRangeExtension := m_spsRangeExtension (if sps_rext_differs (m_spsRangeExtension x) then x else y),
     m_spsNextExtension := extension_received x (m_spsNextExtension y),
     m_cu := (if m_NextEnabled (m_spsNextExtension x) then limits_received (m_spsNextExtension x) (m_cu y) else m_cu y)\<rparr>"

lemma codes_sps_extension:
  assumes ok: "sps_extension_ok x" and y: "profileIdc (generalPTL (m_pcPTL y)) = profileIdc (generalPTL (m_pcPTL x))"
  shows "vlc.codes (code_sps_extension x) (parse_sps_extension y) (extension_part x y)"
proof -
  let ?d = "sps_rext_differs (m_spsRangeExtension x)" and ?n = "m_NextEnabled (m_spsNextExtension x)"
    and ?p = "profileIdc (generalPTL (m_pcPTL x)) = PROFILE_NEXT"
  let ?fs = "[?d, False, False, ?n, False, False, False, False]"
  let ?y = "if ?p then y\<lparr>m_spsNextExtension := (m_spsNextExtension y)\<lparr>m_NextEnabled := True\<rparr>\<rparr> else y"
  have n: "?p" "next_ok (m_spsNextExtension x)" if "?n" using ok that unfolding sps_extension_ok_def by blast+
  have e: "(\<exists>f\<in>set ?fs. f) = (?d \<or> ?n)" "?fs ! 0 = ?d" "?fs ! 3 = ?n" "(\<exists>i\<in>{1, 2, 4, 5, 6, 7}. ?fs ! i) = False"
    by (auto simp: nth_Cons' numeral_eq_Suc)
  have fl: "vlc.codes (write_flags ?fs) (read_flags 8) ?fs"
  proof -
    have "length ?fs = 8" by simp
    then show ?thesis using codes_flags [of ?fs] by (simp only:)
  qed
  show ?thesis
  proof (cases "?d \<or> ?n")
    case False
    then show ?thesis
      unfolding code_sps_extension_def parse_sps_extension_def Let_def e
      apply -
      apply (rule step_flag)
      apply (simp add: extension_received_def vlc.codes_return)
      done
  next
    case True
    show ?thesis
      unfolding code_sps_extension_def parse_sps_extension_def Let_def e eqTrueI [OF True] if_True y
      apply (rule step_flag)
      apply (simp only: of_bool_eq_0_iff not_not if_True simp_thms)
      apply (rule vlc.codes_bind [OF fl])
      apply (simp only: e if_False)
      apply (rule step_opt_name [OF refl])
       apply (rule vlc.codes_bind_end [OF codes_sps_rext vlc.codes_return], rule refl)
      subgoal for y1
        apply (rule vlc.codes_bind_end)
         apply (rule end_opt [OF refl])
          apply (rule vlc.codes_check_reader)
        subgoal using n(1) by simp
          apply (rule vlc.codes_bind_end [OF codes_SPSNext [OF n(2)]], assumption)
          apply (simp only: prod.case)
          apply (rule vlc.codes_return [OF refl])
         apply (rule refl)
        apply (rule vlc.codes_return)
        using True n(1) by (auto simp: extension_received_def Let_def)
      done
  qed
qed

text \<open>
  What the syntax can carry, and what the receiving object has to have: arrays of the right lengths and no sets yet.
\<close>

definition sps_ok :: "sps \<Rightarrow> bool" where
  "sps_ok x \<longleftrightarrow> sps_head_ok x \<and> sps_picture_ok x \<and> sps_layers_ok x \<and> sps_sizes_ok x \<and> (m_usePCM x \<longrightarrow> sps_pcm_ok x)
     \<and> sps_refs_ok x \<and> (m_vuiParametersPresentFlag x \<longrightarrow> vui_ok (m_chromaFormatIdc x) (m_uiMaxTLayers x) (m_vuiParameters x))
     \<and> sps_extension_ok x"

definition sps_wf :: "sps \<Rightarrow> bool" where
  "sps_wf y \<longleftrightarrow> m_RPSList y = [] \<and> ptl_wf (m_pcPTL y) \<and> sps_layers_wf y \<and> sps_ltrefs_wf y \<and> hrd_wf (hrdParameters (m_vuiParameters y))"

text \<open>
  The object the parser ends with, when it starts from \<open>y\<close>: the values sent, the derived sizes, and what
  \<open>y\<close> held where nothing is sent.
\<close>

definition sps_received :: "sps \<Rightarrow> sps \<Rightarrow> sps" where
  "sps_received y x =
     (let n = m_uiMaxTLayers x; p = m_usePCM x; lt = m_bLongTermRefsPresent x;
          k = (if lt then m_numLongTermRefPicSPS x else 0); v = m_vuiParametersPresentFlag x;
          cu = \<lparr>m_uiMaxCUWidth = max_cu_size x, m_uiMaxCUHeight = max_cu_size x, m_uiMaxCodingDepth = max_coding_depth x\<rparr>
      in x\<lparr>m_pcPTL := ptl_received (n - 1) (m_pcPTL y) (m_pcPTL x),
           m_conformanceWindow := m_conformanceWindow (if win_enabledFlag (m_conformanceWindow x) then x else y),
           m_qpBDOffsetLuma := 6 * (m_bitDepthLuma x - 8),
           m_bitDepthChroma := chroma_depth x, m_qpBDOffsetChroma := 6 * (chroma_depth x - 8),
           m_uiMaxDecPicBuffering := overlay n (m_uiMaxDecPicBuffering x) (m_uiMaxDecPicBuffering y),
           m_numReorderPics := overlay n (m_numReorderPics x) (m_numReorderPics y),
           m_uiMaxLatencyIncreasePlus1 := overlay n (m_uiMaxLatencyIncreasePlus1 x) (m_uiMaxLatencyIncreasePlus1 y),
           m_cu := (if m_NextEnabled (m_spsNextExtension x) then limits_received (m_spsNextExtension x) cu else cu),
           m_uiMaxTrSize := 2 ^ m_uiQuadtreeTULog2MaxSize x,
           m_pcmBitDepthLuma := m_pcmBitDepthLuma (if p then x else y),
           m_pcmBitDepthChroma := (if p then pcm_chroma_depth x else m_pcmBitDepthChroma y),
           m_uiPCMLog2MinSize := m_uiPCMLog2MinSize (if p then x else y),
           m_pcmLog2MaxSize := m_pcmLog2MaxSize (if p then x else y),
           m_bPCMFilterDisableFlag := m_bPCMFilterDisableFlag (if p then x else y),
           m_RPSList := rps_list_upto (length (m_RPSList x)) (m_RPSList x),
           m_numLongTermRefPicSPS := m_numLongTermRefPicSPS (if lt then x else y),
           m_ltRefPicPocLsbSps := overlay k (m_ltRefPicPocLsbSps x) (m_ltRefPicPocLsbSps y),
           m_usedByCurrPicLtSPSFlag := overlay k (m_usedByCurrPicLtSPSFlag x) (m_usedByCurrPicLtSPSFlag y),
           m_vuiParameters := (if v then vui_received n (m_vuiParameters y) (m_vuiParameters x) else m_vuiParameters y),
           m_spsRangeExtension := m_spsRangeExtension (if sps_rext_differs (m_spsRangeExtension x) then x else y),
           m_spsNextExtension := extension_received x (m_spsNextExtension y)\<rparr>)"

lemma codes_sps_body:
  assumes ok: "sps_ok x" and y: "sps_wf y"
  shows "vlc.codes (code_sps_body x) (parse_sps_body y) (sps_received y x)"
proof -
  have o: "sps_head_ok x" "sps_picture_ok x" "sps_layers_ok x" "sps_sizes_ok x" "sps_refs_ok x" "sps_extension_ok x"
    and pcm: "m_usePCM x \<Longrightarrow> sps_pcm_ok x"
    and vui: "m_vuiParametersPresentFlag x \<Longrightarrow> vui_ok (m_chromaFormatIdc x) (m_uiMaxTLayers x) (m_vuiParameters x)"
    using ok unfolding sps_ok_def by blast+
  have w: "ptl_wf (m_pcPTL y)" "sps_layers_wf y" "sps_ltrefs_wf y" "hrd_wf (hrdParameters (m_vuiParameters y))"
    "m_RPSList y = []"
    using y unfolding sps_wf_def by blast+
  have n: "1 \<le> m_uiMaxTLayers x" "m_uiMaxTLayers x \<le> 7" using o(1) unfolding sps_head_ok_def by blast+
  show ?thesis
    unfolding code_sps_body_def parse_sps_body_def
    apply (rule vlc.codes_bind_name [OF codes_sps_head [OF o(1) w(1)]])
    subgoal for y1
      apply (rule vlc.codes_bind_name [OF codes_sps_picture [OF o(2)]], simp)
      subgoal for y2
        apply (rule vlc.codes_bind_name [OF codes_sps_layers [OF o(3) n]])
        subgoal using w(2) by (simp add: sps_layers_wf_def)
         apply simp
        subgoal for y3
          apply (rule vlc.codes_bind_name [OF codes_sps_sizes [OF o(4)]])
          subgoal by (simp add: ptl_received_def profile_tier_received_def)
          subgoal for y4
            apply (rule vlc.codes_bind_name [OF codes_sps_tools [OF pcm]], assumption)
            subgoal for y5
              apply (rule vlc.codes_bind_name [OF codes_sps_refs [OF o(5)]])
              subgoal using w(3) by (simp add: sps_ltrefs_wf_def)
              subgoal by simp
              subgoal using w(5) by simp
              subgoal for y6
                apply (rule vlc.codes_bind_name [OF codes_sps_vui [OF vui]], assumption)
                subgoal by (simp add: Let_def)
                subgoal by (simp add: Let_def)
                subgoal using w(4) by (simp add: Let_def)
                subgoal for y7
                  apply (rule vlc.codes_cong [OF codes_sps_extension [OF o(6)] refl refl])
                  subgoal by (simp add: Let_def vui_part_def ptl_received_def profile_tier_received_def)
                  apply (simp add: Let_def vui_part_def cong: if_cong split del: if_split)
                  apply (thin_tac "_ = _")+
                  apply (rule sps.equality; simp add: sps_received_def Let_def)
                  done
                done
              done
            done
          done
        done
      done
    done
qed

lemma codes_SPS:
  assumes "sps_ok x" "sps_wf y"
  shows "vlc.codes (codeSPS x) (parseSPS y) (sps_received y x)"
  unfolding codeSPS_def parseSPS_def
  by (rule vlc.codes_bind [OF codes_sps_body [OF assms]], rule end_trailing, rule refl)

text \<open>An object the constructor has made is well formed, if its memory has arrays of the declared lengths.\<close>

lemma sps_wf_constructor:
  "length (subLayerPTL (m_pcPTL m)) = 6 \<Longrightarrow> hrd_wf (hrdParameters (m_vuiParameters m)) \<Longrightarrow> sps_wf (SPS m)"
  by (simp add: sps_wf_def SPS_def ptl_wf_def PTL_def sps_layers_wf_def sps_ltrefs_wf_def VUI_def HRD_def hrd_wf_def)

section \<open>Properties\<close>

text \<open>
  C11. A sequence parameter set within the limits of the syntax is written by \<open>codeSPS\<close> to whole bytes, and
  \<open>parseSPS\<close> on a new object gets it back from them and uses them up: every value sent, the sizes derived from
  the logarithms, the reference picture sets as the parser reconstructs them one after the other, and the
  constructor's values where the syntax sends nothing.
\<close>

theorem sps_roundtrip:
  assumes "sps_ok x" "length (subLayerPTL (m_pcPTL m)) = 6" "hrd_wf (hrdParameters (m_vuiParameters m))"
  shows "\<exists>s t. codeSPS x clear = Some s \<and> out_num_held s = 0 \<and> last (out_fifo s) \<noteq> 0
    \<and> parseSPS (SPS m) (open_stream (out_fifo s)) = Some (sps_received (SPS m) x, t) \<and> in_bits t = []"
proof -
  have w: "sps_wf (SPS m)" by (rule sps_wf_constructor [OF assms(2,3)])
  have "vlc.codes (\<lambda>s. code_sps_body x s \<bind> xWriteRbspTrailingBits) (parseSPS (SPS m)) (sps_received (SPS m) x)"
    using codes_SPS [OF assms(1) w] unfolding codeSPS_def .
  from codes_rbsp_stream [OF codes_sps_body [OF assms(1) w] this] show ?thesis unfolding codeSPS_def .
qed

text \<open>A zeroed memory, and a set made by the constructor in it and then filled in.\<close>

definition sample_tier :: profile_tier_level where
  "sample_tier = \<lparr>profileSpace = 0, tierFlag = MAIN_TIER, profileIdc = 0, profileCompatibilityFlag = replicate 32 False,
     levelIdc = 0, progressiveSourceFlag = False, interlacedSourceFlag = False, nonPackedConstraintFlag = False,
     frameOnlyConstraintFlag = False, bitDepthConstraintValue = 0, chromaFormatConstraintValue = CHROMA_400,
     intraConstraintFlag = False, onePictureOnlyConstraintFlag = False, lowerBitRateConstraintFlag = False\<rparr>"

definition sample_hrd :: hrd where
  "sample_hrd = (let c = \<lparr>bitRateValueMinus1 = 0, cpbSizeValue = 0, ducpbSizeValue = 0, duBitRateValue = 0, cbrFlag = False\<rparr>;
       l = \<lparr>fixedPicRateFlag = False, fixedPicRateWithinCvsFlag = False, picDurationInTcMinus1 = 0, lowDelayHrdFlag = False,
            cpbCntMinus1 = 0, cpbNal = replicate 32 c, cpbVcl = replicate 32 c\<rparr>
     in \<lparr>nalHrdParametersPresentFlag = False, vclHrdParametersPresentFlag = False, subPicCpbParamsPresentFlag = False,
         tickDivisorMinus2 = 0, duCpbRemovalDelayLengthMinus1 = 0, subPicCpbParamsInPicTimingSEIFlag = False,
         dpbOutputDelayDuLengthMinus1 = 0, bitRateScale = 0, cpbSizeScale = 0, ducpbSizeScale = 0,
         initialCpbRemovalDelayLengthMinus1 = 0, cpbRemovalDelayLengthMinus1 = 0, dpbOutputDelayLengthMinus1 = 0,
         HRD_layers = replicate 7 l\<rparr>)"

definition sample_next :: sps_next where
  "sample_next = \<lparr>m_NextEnabled = True, m_QTBT = True, m_NSST = True, m_Intra4Tap = False, m_LargeCTU = True,
     m_IntraBoundaryFilter = False, m_SubPuMvp = True, m_ModifiedCABACEngine = True, m_IMV = True, m_BIO = True,
     m_DisableMotionCompression = False, m_LICEnabled = False, m_IntraPDPC = True, m_LMChroma = True, m_IntraEMT = True,
     m_InterEMT = False, m_OBMC = True, m_FRUC = True, m_Affine = True, m_AffineType = True, m_AClip = True,
     m_CIPFEnabled = False, m_BIF = True, m_DMVR = True, m_MDMS = False, m_GBi = True, m_MTTEnabled = True,
     m_CTUSize = 128, m_minQT = (8, 16, 4), m_maxBTDepth = (3, 4, 2), m_dualITree = True, m_subPuLog2Size = 3,
     m_subPuMrgMode = 3, m_CABACEngineMode = 2, m_ImvMode = 2, m_LICMode = 0, m_MTTMode = 1, m_OBMCBlkSize = 4,
     m_FRUCRefineFilter = 1, m_FRUCRefineRange = 32, m_FRUCSmallBlkRefineDepth = 3, m_AClipQuant = 2,
     m_IntraPDPCMode = 1, m_CIPFMode = 0, m_IBCMode = 0\<rparr>"

definition sample_memory :: sps where
  "sample_memory = \<lparr>m_SPSId = 0, m_chromaFormatIdc = 0, m_uiMaxTLayers = 0, m_picWidthInLumaSamples = 0,
     m_picHeightInLumaSamples = 0, m_log2MinCodingBlockSize = 0, m_log2DiffMaxMinCodingBlockSize = 0,
     m_cu = \<lparr>m_uiMaxCUWidth = 0, m_uiMaxCUHeight = 0, m_uiMaxCodingDepth = 0\<rparr>, m_conformanceWindow = Window,
     m_RPSList = [], m_bLongTermRefsPresent = False, m_SPSTemporalMVPEnabledFlag = False, m_numReorderPics = replicate 7 0,
     m_uiQuadtreeTULog2MaxSize = 0, m_uiQuadtreeTULog2MinSize = 0, m_uiQuadtreeTUMaxDepthInter = 0,
     m_uiQuadtreeTUMaxDepthIntra = 0, m_usePCM = False, m_pcmLog2MaxSize = 0, m_uiPCMLog2MinSize = 0, m_useAMP = False,
     m_bitDepthLuma = 0, m_bitDepthChroma = 0, m_qpBDOffsetLuma = 0, m_qpBDOffsetChroma = 0, m_pcmBitDepthLuma = 0,
     m_pcmBitDepthChroma = 0, m_bPCMFilterDisableFlag = False, m_uiBitsForPOC = 0, m_numLongTermRefPicSPS = 0,
     m_ltRefPicPocLsbSps = replicate 33 0, m_usedByCurrPicLtSPSFlag = replicate 33 False, m_uiMaxTrSize = 0,
     m_bUseSAO = False, m_bTemporalIdNestingFlag = False, m_uiMaxDecPicBuffering = replicate 7 0,
     m_uiMaxLatencyIncreasePlus1 = replicate 7 0, m_vuiParametersPresentFlag = False,
     m_vuiParameters = VUI \<lparr>aspectRatioInfoPresentFlag = False, aspectRatioIdc = 0, sarWidth = 0, sarHeight = 0,
       overscanInfoPresentFlag = False, overscanAppropriateFlag = False, videoSignalTypePresentFlag = False,
       videoFormat = 0, videoFullRangeFlag = False, colourDescriptionPresentFlag = False, colourPrimaries = 0,
       transferCharacteristics = 0, matrixCoefficients = 0, chromaLocInfoPresentFlag = False,
       chromaSampleLocTypeTopField = 0, chromaSampleLocTypeBottomField = 0, neutralChromaIndicationFlag = False,
       fieldSeqFlag = False, defaultDisplayWindow = Window, frameFieldInfoPresentFlag = False,
       hrdParametersPresentFlag = False, bitstreamRestrictionFlag = False, motionVectorsOverPicBoundariesFlag = False,
       restrictedRefPicListsFlag = False, minSpatialSegmentationIdc = 0, maxBytesPerPicDenom = 0,
       maxBitsPerMinCuDenom = 0, log2MaxMvLengthHorizontal = 0, log2MaxMvLengthVertical = 0,
       hrdParameters = sample_hrd, timingInfo = TimingInfo\<rparr>,
     m_spsRangeExtension = SPSRExt, m_spsNextExtension = sample_next,
     m_pcPTL = \<lparr>generalPTL = sample_tier, subLayerPTL = replicate 6 sample_tier,
       subLayerProfilePresentFlag = replicate 6 False, subLayerLevelPresentFlag = replicate 6 False\<rparr>,
     m_useALF = False\<rparr>"

definition sample_sps :: sps where
  "sample_sps = (SPS sample_memory)\<lparr>m_SPSId := 3, m_uiMaxTLayers := 2, m_picWidthInLumaSamples := 416,
     m_picHeightInLumaSamples := 240, m_conformanceWindow := Window\<lparr>win_enabledFlag := True, winBottomOffset := 8\<rparr>,
     m_bitDepthLuma := 10, m_bitDepthChroma := 10, m_log2MinCodingBlockSize := 3, m_log2DiffMaxMinCodingBlockSize := 4,
     m_uiQuadtreeTULog2MinSize := 2, m_uiQuadtreeTULog2MaxSize := 5, m_uiQuadtreeTUMaxDepthInter := 3,
     m_uiQuadtreeTUMaxDepthIntra := 3, m_usePCM := True, m_uiPCMLog2MinSize := 3, m_numReorderPics := [2, 1, 0, 0, 0, 0, 0],
     m_uiMaxDecPicBuffering := [4, 5, 1, 1, 1, 1, 1],
     m_RPSList := [ReferencePictureSet\<lparr>numberOfPictures := 2, numberOfNegativePictures := 1, numberOfPositivePictures := 1,
        deltaPOC := [- 8, 4, 0, 0, 0, 0, 0, 0, 0, 0, 0, 0, 0, 0, 0, 0],
        used := [True, True, False, False, False, False, False, False, False, False, False, False, False, False, False, False]\<rparr>],
     m_bLongTermRefsPresent := True, m_numLongTermRefPicSPS := 1, m_ltRefPicPocLsbSps := 200 # replicate 32 0,
     m_vuiParametersPresentFlag := True, m_spsNextExtension := sample_next,
     m_pcPTL := (m_pcPTL (SPS sample_memory))\<lparr>generalPTL :=
       sample_tier\<lparr>profileIdc := PROFILE_NEXT, levelIdc := 150, bitDepthConstraintValue := 10, frameOnlyConstraintFlag := True\<rparr>\<rparr>\<rparr>"

lemma sample_sps_ok: "sps_ok sample_sps"
proof -
  note d = sample_sps_def sample_memory_def SPS_def PTL_def ProfileTierLevel_def sample_tier_def Window_def VUI_def HRD_def TimingInfo_def
    sample_hrd_def SPSRExt_def
  have two: "(\<forall>i<2. P i) = (P 0 \<and> P 1)" for P :: "nat \<Rightarrow> bool"
    by (auto simp: less_2_cases_iff)
  have "sps_head_ok sample_sps"
    by (simp add: d sps_head_ok_def ptl_ok_def ptl_wf_def profile_tier_ok_def level_ok_def sub_layer_ok_def)
  moreover have "sps_picture_ok sample_sps"
    by (simp add: d sps_picture_ok_def chroma_depth_def window_ok_def winUnitX_def winUnitY_def)
  moreover have "sps_layers_ok sample_sps"
    by (simp add: d sps_layers_ok_def sps_layers_wf_def two)
  moreover have "sps_sizes_ok sample_sps" by (simp add: d sps_sizes_ok_def)
  moreover have "sps_pcm_ok sample_sps" by (simp add: d sps_pcm_ok_def pcm_chroma_depth_def)
  moreover have "sps_refs_ok sample_sps"
    by (simp add: d sps_refs_ok_def rps_ok_def rps_wf_def ReferencePictureSet_def explicit_ok_def MAX_NUM_REF_PICS_def)
  moreover have "vui_ok (m_chromaFormatIdc sample_sps) (m_uiMaxTLayers sample_sps) (m_vuiParameters sample_sps)"
    by (simp add: d vui_ok_def)
  moreover have "sps_extension_ok sample_sps"
    by (simp add: d sps_extension_ok_def sample_next_def next_ok_def next_modes_ok_def next_qtbt_ok_def next_params_ok_def
        block_size_def getMinQTSize_def getMaxBTDepth_def getMaxBTDepthI_def getMaxBTDepthIChroma_def)
  ultimately show ?thesis by (simp add: sps_ok_def)
qed

theorem sps_roundtrip_witness:
  "\<exists>s t. codeSPS sample_sps clear = Some s \<and> out_num_held s = 0 \<and> last (out_fifo s) \<noteq> 0
    \<and> parseSPS (SPS sample_memory) (open_stream (out_fifo s)) = Some (sps_received (SPS sample_memory) sample_sps, t)
    \<and> in_bits t = []"
  by (rule sps_roundtrip [OF sample_sps_ok])
    (simp_all add: sample_memory_def VUI_def HRD_def sample_hrd_def hrd_wf_def hrd_layer_wf_def list_all_iff Let_def)

section \<open>Limits of a received set\<close>

text \<open>The values that every accepted stream respects, block by block.\<close>

definition head_limits :: "sps \<Rightarrow> bool" where
  "head_limits x \<longleftrightarrow> 1 \<le> m_uiMaxTLayers x \<and> m_uiMaxTLayers x \<le> 7 \<and> (m_uiMaxTLayers x = 1 \<longrightarrow> m_bTemporalIdNestingFlag x)
     \<and> 0 \<le> m_SPSId x \<and> m_SPSId x \<le> 15 \<and> m_chromaFormatIdc x \<in> {CHROMA_400, CHROMA_420, CHROMA_444}"

definition depth_limits :: "sps \<Rightarrow> bool" where
  "depth_limits x \<longleftrightarrow> m_bitDepthLuma x \<in> {8..16} \<and> m_bitDepthChroma x \<in> {8..16}
     \<and> m_qpBDOffsetLuma x = 6 * (m_bitDepthLuma x - 8) \<and> m_qpBDOffsetChroma x = 6 * (m_bitDepthChroma x - 8)
     \<and> m_uiBitsForPOC x \<in> {4..16}"

definition size_limits :: "sps \<Rightarrow> bool" where
  "size_limits x \<longleftrightarrow> 0 \<le> m_log2MinCodingBlockSize x + m_log2DiffMaxMinCodingBlockSize x
     \<and> m_log2MinCodingBlockSize x + m_log2DiffMaxMinCodingBlockSize x \<le> 30 \<and> m_uiQuadtreeTULog2MaxSize x \<le> 30
     \<and> (levelIdc (generalPTL (m_pcPTL x)) \<ge> 150 \<longrightarrow> m_log2MinCodingBlockSize x + m_log2DiffMaxMinCodingBlockSize x \<ge> 5)
     \<and> m_uiMaxTrSize x = 2 ^ m_uiQuadtreeTULog2MaxSize x"

lemma accepts_sps_head: "accepts (parse_sps_head y) head_limits"
proof -
  have i: "\<not> 15 < u \<Longrightarrow> to_i32 u = int u" for u by (simp add: take_bit_nat_eq_self)
  show ?thesis
    unfolding parse_sps_head_def Let_def
    by (intro accepts_intro) (auto simp: head_limits_def setMaxTLayers_def i bind_eq_Some_conv split: if_splits)
qed

lemma accepts_sps_picture:
  assumes "head_limits y"
  shows "accepts (parse_sps_picture y) (\<lambda>x. head_limits x \<and> depth_limits x)"
  unfolding parse_sps_picture_def Let_def
  by (intro accepts_intro) (use assms in \<open>auto simp: head_limits_def depth_limits_def take_bit_nat_eq_self\<close>)

lemma layer_setters_limits:
  "setMaxDecPicBuffering v i z = Some x \<Longrightarrow> head_limits x = head_limits z \<and> depth_limits x = depth_limits z"
  "setNumReorderPics r i z = Some x \<Longrightarrow> head_limits x = head_limits z \<and> depth_limits x = depth_limits z"
  "setMaxLatencyIncreasePlus1 v i z = Some x \<Longrightarrow> head_limits x = head_limits z \<and> depth_limits x = depth_limits z"
  unfolding setMaxDecPicBuffering_def setNumReorderPics_def setMaxLatencyIncreasePlus1_def
  by (simp_all add: bind_eq_Some_conv) (auto simp: head_limits_def depth_limits_def)

lemma accepts_sps_layer:
  assumes "head_limits y \<and> depth_limits y"
  shows "accepts (parse_sps_layer i y) (\<lambda>x. head_limits x \<and> depth_limits x)"
  unfolding parse_sps_layer_def
  by (intro accepts_intro)
    (use assms in \<open>auto dest!: layer_setters_limits\<close>)

lemma copy_layers_limits:
  "for_loop copy_sps_layer is y = Some x \<Longrightarrow> head_limits y \<and> depth_limits y \<Longrightarrow> head_limits x \<and> depth_limits x"
proof (induction "is" arbitrary: y)
  case (Cons i "is")
  then obtain z where z: "copy_sps_layer i y = Some z" "for_loop copy_sps_layer is z = Some x"
    by (auto simp: bind_eq_Some_conv)
  from z(1) Cons.prems(2) have "head_limits z \<and> depth_limits z"
    unfolding copy_sps_layer_def by (auto simp: bind_eq_Some_conv dest!: layer_setters_limits)
  with Cons.IH z(2) show ?case by blast
qed simp

lemma accepts_sps_layers:
  assumes "head_limits y \<and> depth_limits y"
  shows "accepts (parse_sps_layers y) (\<lambda>x. head_limits x \<and> depth_limits x)"
  unfolding parse_sps_layers_def Let_def
  apply (rule accepts_any, rule accepts_if)
   apply (rule accepts_loop [OF accepts_sps_layer], assumption, rule assms)
  apply (rule accepts_bind [OF accepts_sps_layer [OF assms]])
  apply (rule accepts_option, rule accepts_return)
  by (rule copy_layers_limits)

lemma shl1_limit: "shl1 n = Some v \<Longrightarrow> n \<le> 30 \<and> v = 2 ^ n" "shl1_i k = Some v \<Longrightarrow> 0 \<le> k \<and> k \<le> 30"
  by (auto simp: shl1_def shl1_i_def push_bit_nat_def split: if_splits)

lemma accepts_sps_sizes:
  assumes "head_limits y \<and> depth_limits y"
  shows "accepts (parse_sps_sizes y) (\<lambda>x. head_limits x \<and> depth_limits x \<and> size_limits x)"
  unfolding parse_sps_sizes_def Let_def
  by (intro accepts_intro)
    (use assms in \<open>auto simp: head_limits_def depth_limits_def size_limits_def dest!: shl1_limit\<close>)

lemma accepts_sps_tools:
  assumes "head_limits y \<and> depth_limits y \<and> size_limits y"
  shows "accepts (parse_sps_tools y) (\<lambda>x. head_limits x \<and> depth_limits x \<and> size_limits x)"
  unfolding parse_sps_tools_def parse_sps_pcm_def Let_def
  by (intro accepts_intro) (use assms in \<open>auto simp: head_limits_def depth_limits_def size_limits_def\<close>)

definition refs_limits :: "sps \<Rightarrow> bool" where
  "refs_limits x \<longleftrightarrow> length (m_RPSList x) \<le> 64 \<and> (m_bLongTermRefsPresent x \<longrightarrow> m_numLongTermRefPicSPS x \<le> 33)"

lemma limits_keep:
  "head_limits (z\<lparr>m_RPSList := l\<rparr>) = head_limits z" "depth_limits (z\<lparr>m_RPSList := l\<rparr>) = depth_limits z"
  "size_limits (z\<lparr>m_RPSList := l\<rparr>) = size_limits z" "head_limits (z\<lparr>m_bLongTermRefsPresent := b\<rparr>) = head_limits z"
  "depth_limits (z\<lparr>m_bLongTermRefsPresent := b\<rparr>) = depth_limits z" "size_limits (z\<lparr>m_bLongTermRefsPresent := b\<rparr>) = size_limits z"
  "head_limits (z\<lparr>m_numLongTermRefPicSPS := n\<rparr>) = head_limits z" "depth_limits (z\<lparr>m_numLongTermRefPicSPS := n\<rparr>) = depth_limits z"
  "size_limits (z\<lparr>m_numLongTermRefPicSPS := n\<rparr>) = size_limits z" "head_limits (z\<lparr>m_ltRefPicPocLsbSps := p\<rparr>) = head_limits z"
  "depth_limits (z\<lparr>m_ltRefPicPocLsbSps := p\<rparr>) = depth_limits z" "size_limits (z\<lparr>m_ltRefPicPocLsbSps := p\<rparr>) = size_limits z"
  "head_limits (z\<lparr>m_usedByCurrPicLtSPSFlag := u\<rparr>) = head_limits z" "depth_limits (z\<lparr>m_usedByCurrPicLtSPSFlag := u\<rparr>) = depth_limits z"
  "size_limits (z\<lparr>m_usedByCurrPicLtSPSFlag := u\<rparr>) = size_limits z"
  by (simp_all add: head_limits_def depth_limits_def size_limits_def)

lemma accepts_sps_refs:
  assumes "head_limits y \<and> depth_limits y \<and> size_limits y"
  shows "accepts (parse_sps_refs y) (\<lambda>x. head_limits x \<and> depth_limits x \<and> size_limits x \<and> refs_limits x)"
proof -
  let ?L = "\<lambda>x. head_limits x \<and> depth_limits x \<and> size_limits x \<and> length (m_RPSList x) \<le> 64"
  have rps: "accepts (parse_sps_rps i z) ?L" if "?L z" for i z
    unfolding parse_sps_rps_def
    by (intro accepts_intro) (use that in \<open>auto simp: limits_keep arr_set_def split: if_splits\<close>)
  have lt: "accepts (parse_sps_ltref i z) (\<lambda>x. ?L x \<and> m_numLongTermRefPicSPS x = n)"
    if "?L z \<and> m_numLongTermRefPicSPS z = n" for i z n
    unfolding parse_sps_ltref_def
    by (intro accepts_intro) (use that in \<open>auto simp: limits_keep setLtRefPicPocLsbSps_def setUsedByCurrPicLtSPSFlag_def bind_eq_Some_conv\<close>)
  have loop: "accepts (read_loop parse_sps_ltref [0..<n] z) (\<lambda>x. ?L x \<and> refs_limits x)"
    if z: "?L z \<and> m_numLongTermRefPicSPS z = n" for n z
  proof (cases "n \<le> 33")
    case True
    have "accepts (read_loop parse_sps_ltref [0..<n] z) (\<lambda>x. ?L x \<and> m_numLongTermRefPicSPS x = n)"
      by (rule accepts_loop [OF lt]) (use z in auto)
    then show ?thesis by (rule accepts_weaken) (use True in \<open>simp add: refs_limits_def\<close>)
  next
    case False
    have "parse_sps_ltref 33 x t = None" for x t
      by (simp add: parse_sps_ltref_def setLtRefPicPocLsbSps_def MAX_NUM_LONG_TERM_REF_PICS_def bind_eq_None_conv split: prod.splits)
    then have "read_loop parse_sps_ltref [0..<n] z t = None" for t by (rule read_loop_fails [rotated]) (use False in simp)
    then show ?thesis by (simp add: accepts_def)
  qed
  show ?thesis
    unfolding parse_sps_refs_def Let_def
    apply (rule accepts_any, rule accepts_check)
    apply (rule accepts_bind [OF accepts_loop [OF rps]], assumption)
    subgoal for n using assms by (auto simp: createRPSList_def limits_keep)
    apply (rule accepts_any, rule accepts_if)
     apply (rule accepts_any, rule accepts_weaken [OF loop])
      apply (auto simp: limits_keep)[1]
     apply blast
    by (rule accepts_return) (auto simp: limits_keep refs_limits_def)
qed

definition sps_limits :: "sps \<Rightarrow> bool" where
  "sps_limits x \<longleftrightarrow> head_limits x \<and> depth_limits x \<and> size_limits x \<and> refs_limits x"

lemma accepts_sps_vui: "sps_limits y \<Longrightarrow> accepts (parse_sps_vui y) sps_limits"
  unfolding parse_sps_vui_def Let_def
  by (intro accepts_intro) (auto simp: sps_limits_def head_limits_def depth_limits_def size_limits_def refs_limits_def)

lemma sps_limits_update [simp]:
  "sps_limits (y\<lparr>m_spsNextExtension := n\<rparr>) = sps_limits y" "sps_limits (y\<lparr>m_spsRangeExtension := e\<rparr>) = sps_limits y"
  "sps_limits (y\<lparr>m_cu := l\<rparr>) = sps_limits y"
  by (simp_all add: sps_limits_def head_limits_def depth_limits_def size_limits_def refs_limits_def)

lemma accepts_sps_extension:
  assumes "sps_limits y"
  shows "accepts (parse_sps_extension y) sps_limits"
proof -
  have r: "accepts (\<lambda>s. if b then parse_sps_rext (m_spsRangeExtension z) s \<bind> (\<lambda>(e, s). Some (z\<lparr>m_spsRangeExtension := e\<rparr>, s))
      else Some (z, s)) sps_limits" if "sps_limits z" for b z
    by (intro accepts_intro) (use that in simp_all)
  have n: "accepts (\<lambda>s. if b then check_not c \<bind> (\<lambda>_. parseSPSNext nl s \<bind>
        (\<lambda>((n, l), s). Some (z\<lparr>m_spsNextExtension := n, m_cu := l\<rparr>, s))) else Some (z, s)) sps_limits" if "sps_limits z" for b c nl z
    unfolding accepts_def using that by (auto simp: bind_eq_Some_conv check_not_def split: if_splits)
  show ?thesis
    unfolding parse_sps_extension_def Let_def
    apply (rule accepts_any, rule accepts_if)
     apply (rule accepts_any)
     apply (rule accepts_bind [OF r])
    subgoal using assms by simp
     apply (rule accepts_bind [OF n], assumption)
     apply (intro accepts_intro, assumption+)
    by (rule accepts_return, rule assms)
qed

lemma accepts_sps_body: "accepts (parse_sps_body y) sps_limits"
  unfolding parse_sps_body_def
  apply (rule accepts_bind [OF accepts_sps_head])
  apply (rule accepts_bind [OF accepts_sps_picture], assumption)
  apply (rule accepts_bind [OF accepts_sps_layers], assumption)
  apply (rule accepts_bind [OF accepts_sps_sizes], assumption)
  apply (rule accepts_bind [OF accepts_sps_tools], assumption)
  apply (rule accepts_bind [OF accepts_sps_refs], assumption)
  apply (rule accepts_bind [OF accepts_sps_vui])
   apply (simp add: sps_limits_def)
  by (rule accepts_sps_extension)

lemma accepts_SPS: "accepts (parseSPS y) sps_limits"
  unfolding parseSPS_def by (rule accepts_bind [OF accepts_sps_body], rule accepts_any, rule accepts_return)

text \<open>
  C23. Whatever bits it reads, \<open>parseSPS\<close> only returns a set with 1 to 7 temporal layers, an identifier up to 15, a chroma
  format other than 4:2:2, bit depths from 8 to 16 with the quantiser offsets that belong to them, 4 to 16 bits of
  POC, at most 64 reference picture sets and at most 33 long term pictures; anything else ends in one of its checks.  The sizes
  of coding and transform blocks are not among the limits, because the parser does not check the codes by which it shifts.
\<close>

theorem sps_accepted_limits:
  assumes "parseSPS y t = Some (x, t')"
  shows "1 \<le> m_uiMaxTLayers x \<and> m_uiMaxTLayers x \<le> 7 \<and> (m_uiMaxTLayers x = 1 \<longrightarrow> m_bTemporalIdNestingFlag x)
    \<and> 0 \<le> m_SPSId x \<and> m_SPSId x \<le> 15 \<and> m_chromaFormatIdc x \<in> {CHROMA_400, CHROMA_420, CHROMA_444}
    \<and> m_bitDepthLuma x \<in> {8..16} \<and> m_qpBDOffsetLuma x = 6 * (m_bitDepthLuma x - 8)
    \<and> m_bitDepthChroma x \<in> {8..16} \<and> m_qpBDOffsetChroma x = 6 * (m_bitDepthChroma x - 8)
    \<and> m_uiBitsForPOC x \<in> {4..16}
    \<and> length (m_RPSList x) \<le> 64 \<and> (m_bLongTermRefsPresent x \<longrightarrow> m_numLongTermRefPicSPS x \<le> 33)"
proof -
  have "sps_limits x" using accepts_SPS [of y] assms unfolding accepts_def by blast
  then show ?thesis unfolding sps_limits_def head_limits_def depth_limits_def size_limits_def refs_limits_def by simp
qed

theorem sps_accepted_limits_witness:
  "\<exists>s t. codeSPS sample_sps clear = Some s
    \<and> parseSPS (SPS sample_memory) (open_stream (out_fifo (writeAlignZero s)))
      = Some (sps_received (SPS sample_memory) sample_sps, t)
    \<and> m_uiMaxTLayers (sps_received (SPS sample_memory) sample_sps) \<le> 7"
proof -
  have w: "sps_wf (SPS sample_memory)"
    by (rule sps_wf_constructor)
      (simp_all add: sample_memory_def VUI_def HRD_def sample_hrd_def hrd_wf_def hrd_layer_wf_def list_all_iff Let_def)
  from codes_whole_stream [OF codes_SPS [OF sample_sps_ok w]] sps_accepted_limits show ?thesis by blast
qed

end
