(* ===== verification/NalUnit.thy ===== *)
theory NalUnit
  imports BitStream
begin

text \<open>
  NAL units: \<open>CommonLib/NAL.h\<close>, \<open>EncoderLib/NALwrite.cpp\<close>, \<open>DecoderLib/NALread.cpp\<close> and
  \<open>OutputBitstream::countStartCodeEmulations\<close>.

  The writer prefixes a two-byte header and inserts emulation prevention bytes into the
  payload; the reader removes them, strips \<open>cabac_zero_word\<close>s and parses the header.  The
  lemmas show that the written payload contains no start code, that the reader undoes the
  writer exactly when the payload does not end in an odd run of one zero byte, and that
  \<open>countStartCodeEmulations\<close> counts the bytes the writer inserts.
\<close>

section \<open>NAL unit types\<close>

abbreviation (input) NAL_UNIT_CODED_SLICE_TRAIL_N :: nat where "NAL_UNIT_CODED_SLICE_TRAIL_N \<equiv> 0"
abbreviation (input) NAL_UNIT_CODED_SLICE_TRAIL_R :: nat where "NAL_UNIT_CODED_SLICE_TRAIL_R \<equiv> 1"
abbreviation (input) NAL_UNIT_CODED_SLICE_TSA_N :: nat where "NAL_UNIT_CODED_SLICE_TSA_N \<equiv> 2"
abbreviation (input) NAL_UNIT_CODED_SLICE_TSA_R :: nat where "NAL_UNIT_CODED_SLICE_TSA_R \<equiv> 3"
abbreviation (input) NAL_UNIT_CODED_SLICE_STSA_N :: nat where "NAL_UNIT_CODED_SLICE_STSA_N \<equiv> 4"
abbreviation (input) NAL_UNIT_CODED_SLICE_STSA_R :: nat where "NAL_UNIT_CODED_SLICE_STSA_R \<equiv> 5"
abbreviation (input) NAL_UNIT_CODED_SLICE_RADL_N :: nat where "NAL_UNIT_CODED_SLICE_RADL_N \<equiv> 6"
abbreviation (input) NAL_UNIT_CODED_SLICE_RADL_R :: nat where "NAL_UNIT_CODED_SLICE_RADL_R \<equiv> 7"
abbreviation (input) NAL_UNIT_CODED_SLICE_RASL_N :: nat where "NAL_UNIT_CODED_SLICE_RASL_N \<equiv> 8"
abbreviation (input) NAL_UNIT_CODED_SLICE_RASL_R :: nat where "NAL_UNIT_CODED_SLICE_RASL_R \<equiv> 9"
abbreviation (input) NAL_UNIT_CODED_SLICE_BLA_W_LP :: nat where "NAL_UNIT_CODED_SLICE_BLA_W_LP \<equiv> 16"
abbreviation (input) NAL_UNIT_CODED_SLICE_BLA_W_RADL :: nat where "NAL_UNIT_CODED_SLICE_BLA_W_RADL \<equiv> 17"
abbreviation (input) NAL_UNIT_CODED_SLICE_BLA_N_LP :: nat where "NAL_UNIT_CODED_SLICE_BLA_N_LP \<equiv> 18"
abbreviation (input) NAL_UNIT_CODED_SLICE_IDR_W_RADL :: nat where "NAL_UNIT_CODED_SLICE_IDR_W_RADL \<equiv> 19"
abbreviation (input) NAL_UNIT_CODED_SLICE_IDR_N_LP :: nat where "NAL_UNIT_CODED_SLICE_IDR_N_LP \<equiv> 20"
abbreviation (input) NAL_UNIT_CODED_SLICE_CRA :: nat where "NAL_UNIT_CODED_SLICE_CRA \<equiv> 21"
abbreviation (input) NAL_UNIT_RESERVED_IRAP_VCL23 :: nat where "NAL_UNIT_RESERVED_IRAP_VCL23 \<equiv> 23"
abbreviation (input) NAL_UNIT_SPS :: nat where "NAL_UNIT_SPS \<equiv> 33"
abbreviation (input) NAL_UNIT_PPS :: nat where "NAL_UNIT_PPS \<equiv> 34"
abbreviation (input) NAL_UNIT_EOS :: nat where "NAL_UNIT_EOS \<equiv> 36"
abbreviation (input) NAL_UNIT_EOB :: nat where "NAL_UNIT_EOB \<equiv> 37"
abbreviation (input) NAL_UNIT_PREFIX_SEI :: nat where "NAL_UNIT_PREFIX_SEI \<equiv> 39"
abbreviation (input) NAL_UNIT_SUFFIX_SEI :: nat where "NAL_UNIT_SUFFIX_SEI \<equiv> 40"

record nalu =
  nalUnitType :: nat
  temporalId :: nat
  nuhLayerId :: nat

definition isSlice :: "nalu \<Rightarrow> bool" where
  "isSlice n \<longleftrightarrow> nalUnitType n = NAL_UNIT_CODED_SLICE_TRAIL_R
     \<or> nalUnitType n = NAL_UNIT_CODED_SLICE_TRAIL_N
     \<or> nalUnitType n = NAL_UNIT_CODED_SLICE_TSA_R
     \<or> nalUnitType n = NAL_UNIT_CODED_SLICE_TSA_N
     \<or> nalUnitType n = NAL_UNIT_CODED_SLICE_STSA_R
     \<or> nalUnitType n = NAL_UNIT_CODED_SLICE_STSA_N
     \<or> nalUnitType n = NAL_UNIT_CODED_SLICE_BLA_W_LP
     \<or> nalUnitType n = NAL_UNIT_CODED_SLICE_BLA_W_RADL
     \<or> nalUnitType n = NAL_UNIT_CODED_SLICE_BLA_N_LP
     \<or> nalUnitType n = NAL_UNIT_CODED_SLICE_IDR_W_RADL
     \<or> nalUnitType n = NAL_UNIT_CODED_SLICE_IDR_N_LP
     \<or> nalUnitType n = NAL_UNIT_CODED_SLICE_CRA
     \<or> nalUnitType n = NAL_UNIT_CODED_SLICE_RADL_N
     \<or> nalUnitType n = NAL_UNIT_CODED_SLICE_RADL_R
     \<or> nalUnitType n = NAL_UNIT_CODED_SLICE_RASL_N
     \<or> nalUnitType n = NAL_UNIT_CODED_SLICE_RASL_R"

definition isSei :: "nalu \<Rightarrow> bool" where
  "isSei n \<longleftrightarrow> nalUnitType n = NAL_UNIT_PREFIX_SEI \<or> nalUnitType n = NAL_UNIT_SUFFIX_SEI"

definition isVcl :: "nalu \<Rightarrow> bool" where
  "isVcl n \<longleftrightarrow> nalUnitType n < 32"

lemma slice_is_vcl: "isSlice n \<Longrightarrow> isVcl n"
  by (auto simp: isSlice_def isVcl_def)

section \<open>Writing\<close>

definition writeNalUnitHeader :: "nalu \<Rightarrow> nat list option" where
  "writeNalUnitHeader n = do {
     bs \<leftarrow> obs_write 0 1 clear;
     bs \<leftarrow> obs_write (nalUnitType n) 6 bs;
     bs \<leftarrow> obs_write (nuhLayerId n) 6 bs;
     bs \<leftarrow> obs_write (u32 (temporalId n + 1)) 3 bs;
     Some (out_fifo bs)
   }"

text \<open>
  The loop of \<open>write\<close> with its \<open>zeroCount\<close>; the result is what it stores in
  \<open>outputBuffer\<close>, with the final byte appended after the loop.
\<close>

fun insert_epb :: "nat \<Rightarrow> nat list \<Rightarrow> nat list" where
  "insert_epb zeroCount [] = (if zeroCount > 0 then [3] else [])"
| "insert_epb zeroCount (v # rbsp) =
     (if zeroCount = 2 \<and> v \<le> 3
      then 3 # v # insert_epb (if v = 0 then 1 else 0) rbsp
      else v # insert_epb (if v = 0 then zeroCount + 1 else 0) rbsp)"

definition write_nalu :: "nalu \<Rightarrow> nat list \<Rightarrow> nat list option" where
  "write_nalu n rbsp = do {
     hdr \<leftarrow> writeNalUnitHeader n;
     Some (hdr @ insert_epb 0 rbsp)
   }"

section \<open>Reading\<close>

text \<open>
  The loop of \<open>convertPayloadToRBSP\<close>.  It works in place, but the write position never
  overtakes the read position, so the bytes read are those of the original buffer.  The
  result is the kept bytes, the recorded positions and the final \<open>zeroCount\<close>.
\<close>

fun strip_epb :: "nat \<Rightarrow> nat \<Rightarrow> nat list \<Rightarrow> (nat list \<times> nat list \<times> nat) option" where
  "strip_epb zeroCount pos [] = Some ([], [], zeroCount)"
| "strip_epb zeroCount pos (b # bs) = do {
     check_not (zeroCount \<ge> 2 \<and> b < 3);
     if zeroCount = 2 \<and> b = 3 then
       (case bs of
          [] \<Rightarrow> Some ([], [pos], 0)
        | c # cs \<Rightarrow> do {
            check_not (c > 3);
            (out, ps, z) \<leftarrow> strip_epb (if c = 0 then 1 else 0) (pos + 2) cs;
            Some (c # out, pos # ps, z)
          })
     else do {
       (out, ps, z) \<leftarrow> strip_epb (if b = 0 then zeroCount + 1 else 0) (pos + 1) bs;
       Some (b # out, ps, z)
     }
   }"

text \<open>\<open>while (it_write[-1] == 0x00)\<close> runs off the buffer when every byte is zero.\<close>

definition strip_cabac_zero_words :: "nat list \<Rightarrow> nat list option" where
  "strip_cabac_zero_words out =
     (if (\<forall>b\<in>set out. b = 0) then None
      else Some (rev (dropWhile (\<lambda>b. b = 0) (rev out))))"

definition convertPayloadToRBSP :: "nat list \<Rightarrow> bool \<Rightarrow> (nat list \<times> nat list) option" where
  "convertPayloadToRBSP nalUnitBuf isVclNalUnit = do {
     (out, ps, zeroCount) \<leftarrow> strip_epb 0 0 nalUnitBuf;
     check_not (zeroCount \<noteq> 0);
     out \<leftarrow> (if isVclNalUnit then strip_cabac_zero_words out else Some out);
     Some (out, ps)
   }"

definition readNalUnitHeader :: "ibs \<Rightarrow> (nalu \<times> ibs) option" where
  "readNalUnitHeader bs = do {
     (forbidden_zero_bit, bs) \<leftarrow> ibs_read 1 bs;
     check_not (forbidden_zero_bit \<noteq> 0);
     (t, bs) \<leftarrow> ibs_read 6 bs;
     (layer, bs) \<leftarrow> ibs_read 6 bs;
     (tid1, bs) \<leftarrow> ibs_read 3 bs;
     let tid = sub32 tid1 1;
     check_not (layer = 0 \<and> tid \<noteq> 0
       \<and> (t = NAL_UNIT_CODED_SLICE_BLA_W_LP \<or> t = NAL_UNIT_CODED_SLICE_BLA_W_RADL
        \<or> t = NAL_UNIT_CODED_SLICE_BLA_N_LP \<or> t = NAL_UNIT_CODED_SLICE_IDR_W_RADL
        \<or> t = NAL_UNIT_CODED_SLICE_IDR_N_LP \<or> t = NAL_UNIT_CODED_SLICE_CRA
        \<or> t = NAL_UNIT_SPS \<or> t = NAL_UNIT_EOS \<or> t = NAL_UNIT_EOB));
     check_not (layer = 0 \<and> tid = 0
       \<and> (t = NAL_UNIT_CODED_SLICE_TSA_R \<or> t = NAL_UNIT_CODED_SLICE_TSA_N
        \<or> t = NAL_UNIT_CODED_SLICE_STSA_R \<or> t = NAL_UNIT_CODED_SLICE_STSA_N));
     Some (\<lparr>nalUnitType = t, temporalId = tid, nuhLayerId = layer\<rparr>, bs)
   }"

definition read_nalu :: "nat list \<Rightarrow> (nalu \<times> ibs) option" where
  "read_nalu nalUnitBuf = do {
     check_not (nalUnitBuf = []);
     (rbsp, ps) \<leftarrow> convertPayloadToRBSP nalUnitBuf (hd nalUnitBuf AND 64 = 0);
     readNalUnitHeader (resetToStart
       (new_ibs\<lparr>in_fifo := rbsp, emulationPreventionByteLocation := ps\<rparr>))
   }"

section \<open>Counting start code emulations\<close>

text \<open>
  \<open>search_n(found, end - 1, 2, 0)\<close> on the suffix of the buffer at \<open>found\<close>: the suffix at
  the first pair of zero bytes before the last byte, or at the last byte when there is none.
\<close>

fun search_pair :: "nat list \<Rightarrow> nat list" where
  "search_pair (a # b # c # r) = (if a = 0 \<and> b = 0 then a # b # c # r else search_pair (b # c # r))"
| "search_pair [a, b] = [b]"
| "search_pair [a] = [a]"
| "search_pair [] = []"

lemma search_pair_length: "length (search_pair xs) \<le> length xs"
  by (induction xs rule: search_pair.induct) auto

text \<open>The inner \<open>do\<close> loop: the suffix at the third byte of the next emulated start code.\<close>

function next_emulation :: "nat list \<Rightarrow> nat list" where
  "next_emulation xs =
     (case search_pair xs of
        a # b # c # r \<Rightarrow> if c \<le> 3 then c # r else next_emulation (c # r)
      | _ \<Rightarrow> [])"
  by pat_completeness auto

termination
proof (relation "measure length")
  show "(c # r, xs) \<in> measure length"
    if "search_pair xs = a # l" "l = b # m" "m = c # r" for xs a l b m c r
    using search_pair_length [of xs] that by simp
qed simp_all

declare next_emulation.simps [simp del]

lemma next_emulation_length: "xs \<noteq> [] \<Longrightarrow> length (next_emulation xs) < length xs"
proof (induction xs rule: next_emulation.induct)
  case (1 xs)
  then show ?case
    using search_pair_length [of xs]
    by (subst next_emulation.simps) (fastforce split: list.splits)
qed

function countStartCodeEmulations :: "nat list \<Rightarrow> nat" where
  "countStartCodeEmulations xs =
     (if xs = [] then 0
      else let found = next_emulation xs
           in if found \<noteq> [] then 1 + countStartCodeEmulations found else 0)"
  by pat_completeness auto

termination
  by (relation "measure length") (auto simp: next_emulation_length)

declare countStartCodeEmulations.simps [simp del]

section \<open>No start code in what is written\<close>

text \<open>The value of \<open>zeroCount\<close> after the payload, and the number of bytes inserted inside it.\<close>

fun zeros_after :: "nat \<Rightarrow> nat list \<Rightarrow> nat" where
  "zeros_after z [] = z"
| "zeros_after z (v # vs) =
     zeros_after (if v = 0 then (if z = 2 then 1 else z + 1) else 0) vs"

fun epb_count :: "nat \<Rightarrow> nat list \<Rightarrow> nat" where
  "epb_count z [] = 0"
| "epb_count z (v # vs) =
     (if z = 2 \<and> v \<le> 3 then 1 else 0)
     + epb_count (if v = 0 then (if z = 2 then 1 else z + 1) else 0) vs"

fun no_start_code :: "nat list \<Rightarrow> bool" where
  "no_start_code (a # b # c # r) \<longleftrightarrow> \<not> (a = 0 \<and> b = 0 \<and> c \<le> 2) \<and> no_start_code (b # c # r)"
| "no_start_code xs \<longleftrightarrow> True"

lemma no_start_code_nonzero [simp]: "x \<noteq> 0 \<Longrightarrow> no_start_code (x # xs) \<longleftrightarrow> no_start_code xs"
  by (cases xs rule: no_start_code.cases) auto

lemma no_start_code_zero_nonzero [simp]:
  "y \<noteq> 0 \<Longrightarrow> no_start_code (0 # y # xs) \<longleftrightarrow> no_start_code xs"
  by (cases xs) auto

lemma no_start_code_00 [simp]:
  "2 < y \<Longrightarrow> no_start_code (0 # 0 # y # xs) \<longleftrightarrow> no_start_code xs"
  by simp

lemma cases_le_2: "z \<le> 2 \<Longrightarrow> (z = 0 \<Longrightarrow> P) \<Longrightarrow> (z = 1 \<Longrightarrow> P) \<Longrightarrow> (z = 2 \<Longrightarrow> P) \<Longrightarrow> P" for z :: nat
  by linarith

lemma replicate_numeral_2 [simp]: "replicate 2 x = [x, x]"
  by (simp add: numeral_2_eq_2)

lemma insert_epb_no_start_code: "z \<le> 2 \<Longrightarrow> no_start_code (replicate z 0 @ insert_epb z r)"
proof (induction r arbitrary: z)
  case Nil
  then show ?case by (auto elim!: cases_le_2)
next
  case (Cons v r)
  from Cons.IH [of 0] Cons.IH [of 1] Cons.IH [of 2]
  have "no_start_code (insert_epb 0 r)" "no_start_code (0 # insert_epb 1 r)"
    "no_start_code (0 # 0 # insert_epb 2 r)" by simp_all
  with Cons.prems show ?case
    by (elim cases_le_2) (auto simp: numeral_2_eq_2)
qed

lemma insert_epb_last: "insert_epb z r \<noteq> [] \<Longrightarrow> last (insert_epb z r) \<noteq> 0"
proof (induction r arbitrary: z)
  case Nil
  then show ?case by (auto split: if_splits)
next
  case (Cons v r)
  have "insert_epb 1 r \<noteq> []" "insert_epb (Suc z) r \<noteq> []" by (cases r; simp)+
  with Cons show ?case by (cases "insert_epb 0 r = []") auto
qed

lemma insert_epb_length:
  "z \<le> 2 \<Longrightarrow> length (insert_epb z r) = length r + epb_count z r + (if zeros_after z r > 0 then 1 else 0)"
proof (induction r arbitrary: z)
  case Nil
  then show ?case by simp
next
  case (Cons v r)
  show ?case
    using Cons.prems Cons.IH [of 0] Cons.IH [of 1] Cons.IH [of 2]
    by (elim cases_le_2) (auto simp flip: numeral_2_eq_2)
qed

lemma epb_count_bound: "z \<le> 2 \<Longrightarrow> 2 * epb_count z r + zeros_after z r \<le> length r + z"
proof (induction r arbitrary: z)
  case Nil
  then show ?case by simp
next
  case (Cons v r)
  show ?case
    using Cons.prems Cons.IH [of 0] Cons.IH [of 1] Cons.IH [of 2]
    by (elim cases_le_2) (auto simp flip: numeral_2_eq_2)
qed

lemma insert_epb_bytes: "bytes r \<Longrightarrow> bytes (insert_epb z r)"
  by (induction r arbitrary: z) auto

section \<open>The reader undoes the writer\<close>

lemma strip_insert_epb:
  "z \<le> 2 \<Longrightarrow> \<exists>ps. strip_epb z pos (insert_epb z r)
     = Some (r @ (if zeros_after z r = 1 then [3] else []), ps, 0)
     \<and> length ps = epb_count z r + (if zeros_after z r = 2 then 1 else 0)"
proof (induction r arbitrary: z pos)
  case Nil
  then show ?case by (elim cases_le_2) auto
next
  case (Cons v r)
  have IH: "\<exists>ps. strip_epb z' pos' (insert_epb z' r)
       = Some (r @ (if zeros_after z' r = 1 then [3] else []), ps, 0)
       \<and> length ps = epb_count z' r + (if zeros_after z' r = 2 then 1 else 0)"
    if "z' \<le> 2" for z' pos' using Cons.IH [OF that] .
  from IH [of 0 "pos + 1"] IH [of 0 "pos + 2"] IH [of 1 "pos + 1"] IH [of 1 "pos + 2"]
    IH [of 2 "pos + 1"] Cons.prems show ?case
    by (elim cases_le_2) (auto simp flip: numeral_2_eq_2)
qed

lemma zeros_after_last: "r \<noteq> [] \<Longrightarrow> last r \<noteq> 0 \<Longrightarrow> zeros_after z r = 0"
  by (induction r arbitrary: z) (auto split: if_splits)

definition trim_zeros :: "nat list \<Rightarrow> nat list" where
  "trim_zeros r = rev (dropWhile (\<lambda>b. b = 0) (rev r))"

lemma trim_zeros_append: "r \<noteq> [] \<Longrightarrow> last r \<noteq> 0 \<Longrightarrow> trim_zeros (r @ replicate n 0) = r"
proof -
  assume r: "r \<noteq> []" "last r \<noteq> 0"
  have "dropWhile (\<lambda>b. b = 0) (replicate n 0 @ rev r) = rev r"
    using r by (induction n) (auto simp: dropWhile_eq_self_iff hd_rev)
  then show ?thesis by (simp add: trim_zeros_def)
qed

lemma strip_cabac_prefix:
  "b \<noteq> 0 \<Longrightarrow> strip_cabac_zero_words (a # b # r) = Some (a # b # trim_zeros r)"
  by (simp add: strip_cabac_zero_words_def trim_zeros_def dropWhile_append)

lemma bytes_trim_zeros: "bytes r \<Longrightarrow> bytes (trim_zeros r)"
  by (auto simp: bytes_def trim_zeros_def dest: set_dropWhileD)

lemma zeros_after_append: "zeros_after z (r @ s) = zeros_after (zeros_after z r) s"
  by (induction r arbitrary: z) auto

lemma zeros_after_even:
  "zeros_after 2 (replicate (2 * k) 0) = 2" "zeros_after (Suc 0) (replicate (2 * k) 0) = Suc 0"
  "zeros_after 0 (replicate (2 * k) 0) = (if k = 0 then 0 else 2)"
proof -
  show 1: "zeros_after 2 (replicate (2 * k) 0) = 2" for k
    by (induction k) (simp_all add: numeral_2_eq_2)
  show "zeros_after (Suc 0) (replicate (2 * k) 0) = Suc 0"
    by (induction k) (simp_all add: numeral_2_eq_2)
  show "zeros_after 0 (replicate (2 * k) 0) = (if k = 0 then 0 else 2)"
    using 1 by (cases k) (simp_all flip: numeral_2_eq_2)
qed

text \<open>The two header bytes.\<close>

definition nal_ok :: "nalu \<Rightarrow> bool" where
  "nal_ok n \<longleftrightarrow> nalUnitType n < 64 \<and> nuhLayerId n < 64 \<and> temporalId n < 7"

definition header_bits :: "nalu \<Rightarrow> bits" where
  "header_bits n = to_bits 1 0 @ to_bits 6 (nalUnitType n) @ to_bits 6 (nuhLayerId n)
     @ to_bits 3 (temporalId n + 1)"

lemma header_fields: "writeNalUnitHeader n = do {
    bs \<leftarrow> write_fields [(0, 1), (nalUnitType n, 6), (nuhLayerId n, 6), (u32 (temporalId n + 1), 3)] clear;
    Some (out_fifo bs)
  }"
  by (simp add: writeNalUnitHeader_def)

lemma writeNalUnitHeader_law:
  assumes "nal_ok n"
  shows "\<exists>a b. writeNalUnitHeader n = Some [a, b] \<and> a < 128 \<and> b < 256 \<and> b \<noteq> 0
    \<and> byte_bits [a, b] = header_bits n \<and> (a AND 64 = 0) = isVcl n"
proof -
  define fs where
    "fs = [(0, 1), (nalUnitType n, 6), (nuhLayerId n, 6), (u32 (temporalId n + 1), 3 :: nat)]"
  have t: "u32 (Suc (temporalId n)) = Suc (temporalId n)"
    using assms by (simp add: nal_ok_def take_bit_nat_eq_self)
  have ok: "fields_ok fs"
    using assms by (simp add: fs_def nal_ok_def fields_ok_def t)
  have hb: "concat (map (\<lambda>(v, k). to_bits k v) fs) = header_bits n"
    by (simp add: fs_def header_bits_def t)
  from write_fields_law [OF obs_inv_clear ok]
  obtain s where s: "write_fields fs clear = Some s" "obs_inv s" "out_bits s = header_bits n"
    by (auto simp: hb)
  have l: "length (out_bits s) = 16"
    by (simp add: s(3) header_bits_def)
  then have k: "out_num_held s = 0"
    by (simp only: held_mod [OF s(2)]) simp
  with l have "length (out_fifo s) = Suc (Suc 0)"
    by (simp add: length_out_bits getNumberOfWrittenBits_def)
  then obtain a b where f: "out_fifo s = [a, b]"
    by (auto simp: length_Suc_conv)
  with k have bits: "byte_bits [a, b] = header_bits n" and lt: "a < 256" "b < 256"
    using s by (simp_all add: out_bits_def obs_inv_def)
  have sb: "to_bits 8 v = to_bits 5 (drop_bit 3 v) @ to_bits 3 v" for v
    using to_bits_append [of 5 3 v] by simp
  have 1: "to_bits 8 a = take 8 (header_bits n)" "to_bits 8 b = drop 8 (header_bits n)"
    by (simp_all flip: bits)
  have ab: "to_bits 8 a = False # to_bits 6 (nalUnitType n) @ [bit (nuhLayerId n) 5]"
    using 1(1) by (simp add: header_bits_def to_bits_Suc numeral_eq_Suc)
  have "of_bits (to_bits 8 a) = of_bits (False # to_bits 6 (nalUnitType n) @ [bit (nuhLayerId n) 5])"
    by (simp only: ab)
  then have "a = 2 * nalUnitType n + of_bool (bit (nuhLayerId n) 5)"
    using lt(1) assms
    by (simp add: of_bits_Cons of_bits_append nal_ok_def)
  then have a: "a div 2 = nalUnitType n" by simp
  moreover have "nalUnitType n < 64" using assms by (simp add: nal_ok_def)
  ultimately have "a < 128" by arith
  have "(a AND 2 ^ 6 = 0) = (a < 64)"
  proof -
    have "a div 64 = 0 \<or> a div 64 = 1" using \<open>a < 128\<close> by arith
    then show ?thesis
      unfolding and_exp_eq_0_iff_not_bit by (auto simp: bit_nat_def div_eq_0_iff)
  qed
  then have v: "(a AND 64 = 0) = isVcl n"
    using a by (auto simp: isVcl_def)
  have "to_bits 3 b = to_bits 3 (temporalId n + 1)"
    using 1(2) sb [of b] by (simp add: header_bits_def)
  then have "b \<noteq> 0"
    using assms to_bits_inj [of 0 3 "temporalId n + 1"] by (cases "b = 0") (auto simp: nal_ok_def)
  then show ?thesis
    using s(1) f bits lt(2) \<open>a < 128\<close> v by (simp add: header_fields fs_def)
qed

text \<open>The header is read back as it was written.\<close>

definition nal_checked :: "nalu \<Rightarrow> bool" where
  "nal_checked n \<longleftrightarrow> nuhLayerId n = 0 \<longrightarrow>
     (if temporalId n \<noteq> 0
      then nalUnitType n \<notin> {16, 17, 18, 19, 20, 21, 33, 36, 37}
      else nalUnitType n \<notin> {2, 3, 4, 5})"

lemma readNalUnitHeader_law:
  assumes "ibs_inv bs" "in_bits bs = header_bits n @ rest" "nal_ok n" "nal_checked n"
  shows "\<exists>bs'. readNalUnitHeader bs = Some (n, bs') \<and> ibs_inv bs' \<and> in_bits bs' = rest"
proof -
  from ibs_read_value [OF assms(1), of 1 0] assms(2) obtain s1 where
    s1: "ibs_read 1 bs = Some (0, s1)" "ibs_inv s1"
    "in_bits s1 = to_bits 6 (nalUnitType n) @ to_bits 6 (nuhLayerId n) @ to_bits 3 (temporalId n + 1) @ rest"
    by (auto simp: header_bits_def)
  from ibs_read_value [OF s1(2,3)] assms(3) obtain s2 where
    s2: "ibs_read 6 s1 = Some (nalUnitType n, s2)" "ibs_inv s2"
    "in_bits s2 = to_bits 6 (nuhLayerId n) @ to_bits 3 (temporalId n + 1) @ rest"
    by (auto simp: nal_ok_def)
  from ibs_read_value [OF s2(2,3)] assms(3) obtain s3 where
    s3: "ibs_read 6 s2 = Some (nuhLayerId n, s3)" "ibs_inv s3"
    "in_bits s3 = to_bits 3 (temporalId n + 1) @ rest"
    by (auto simp: nal_ok_def)
  from ibs_read_value [OF s3(2,3)] assms(3) obtain s4 where
    s4: "ibs_read 3 s3 = Some (temporalId n + 1, s4)" "ibs_inv s4" "in_bits s4 = rest"
    by (auto simp: nal_ok_def)
  have tid: "sub32 (temporalId n + 1) 1 = temporalId n"
    using assms(3) by (subst sub32_ge) (auto simp: nal_ok_def)
  have "readNalUnitHeader bs = Some (n, s4)"
    using assms(4) s1(1) s2(1) s3(1) s4(1) tid
    by (auto simp: readNalUnitHeader_def nal_checked_def Let_def)
  with s4 show ?thesis by blast
qed

lemma readNalUnitHeader_frame:
  "readNalUnitHeader bs = Some (n, bs') \<Longrightarrow>
     emulationPreventionByteLocation bs' = emulationPreventionByteLocation bs"
  by (auto simp: readNalUnitHeader_def Let_def Option.bind_eq_Some_conv dest!: ibs_read_frame)

section \<open>Counting agrees with inserting\<close>

lemma epb_count_restart: "c \<noteq> 0 \<Longrightarrow> z \<noteq> 2 \<or> 3 < c \<Longrightarrow> epb_count z (c # r) = epb_count 0 (c # r)"
  by auto

lemma search_pair_count:
  "(case search_pair xs of
      a # b # c # r \<Rightarrow> a = 0 \<and> b = 0 \<and> epb_count 0 xs = (if c \<le> 3 then 1 else 0) + epb_count 0 (c # r)
    | _ \<Rightarrow> epb_count 0 xs = 0)"
proof (induction xs rule: search_pair.induct)
  case (1 a b c r)
  show ?case
  proof (cases "a = 0 \<and> b = 0")
    case True
    then show ?thesis by (auto simp flip: numeral_2_eq_2)
  next
    case False
    then have "epb_count 0 (a # b # c # r) = epb_count 0 (b # c # r)" by auto
    moreover have "search_pair (a # b # c # r) = search_pair (b # c # r)"
      using False by auto
    ultimately show ?thesis using 1 [OF False] by (simp only:)
  qed
qed auto

lemma next_emulation_count:
  "epb_count 0 xs = (case next_emulation xs of [] \<Rightarrow> 0 | c # r \<Rightarrow> 1 + epb_count 0 (c # r))"
proof (induction xs rule: next_emulation.induct)
  case (1 xs)
  show ?case
    using 1 search_pair_count [of xs]
    by (subst next_emulation.simps) (auto simp del: epb_count.simps split: list.splits)
qed

theorem countStartCodeEmulations_count: "countStartCodeEmulations xs = epb_count 0 xs"
proof (induction xs rule: countStartCodeEmulations.induct)
  case (1 xs)
  show ?case
    using 1 next_emulation_count [of xs]
    by (subst countStartCodeEmulations.simps)
      (auto simp: Let_def simp del: epb_count.simps(2) split: list.splits)
qed

section \<open>Whole NAL units\<close>

lemma strip_nonzero_prefix:
  assumes "b \<noteq> 0"
  shows "strip_epb 0 0 (a # b # xs) = (case strip_epb 0 2 xs of None \<Rightarrow> None
     | Some (out, ps, z) \<Rightarrow> Some (a # b # out, ps, z))"
  using assms by (simp add: numeral_2_eq_2 split: option.splits)

text \<open>
  What the reader makes of a payload: a payload that ends in an odd run of zero bytes
  comes back with the writer's final byte, and a VCL unit loses its trailing zero bytes.
\<close>

definition received :: "nalu \<Rightarrow> nat list \<Rightarrow> nat list" where
  "received n rbsp =
     (let p = rbsp @ (if zeros_after 0 rbsp = 1 then [3] else [])
      in if isVcl n then trim_zeros p else p)"

lemma read_write_received:
  assumes "nal_ok n" "nal_checked n" "bytes rbsp"
  shows "\<exists>buf s. write_nalu n rbsp = Some buf \<and> bytes buf \<and> no_start_code buf \<and> last buf \<noteq> 0
    \<and> read_nalu buf = Some (n, s) \<and> ibs_inv s \<and> in_bits s = byte_bits (received n rbsp)
    \<and> length (emulationPreventionByteLocation s)
        = epb_count 0 rbsp + (if zeros_after 0 rbsp = 2 then 1 else 0)"
proof -
  from writeNalUnitHeader_law [OF assms(1)] obtain a b where
    w: "writeNalUnitHeader n = Some [a, b]" "a < 128" "b < 256" "b \<noteq> 0"
      "byte_bits [a, b] = header_bits n" "(a AND 64 = 0) = isVcl n"
    by (elim exE conjE) (rule that)
  let ?p = "rbsp @ (if zeros_after 0 rbsp = 1 then [3] else [])"
  let ?q = "received n rbsp"
  from strip_insert_epb [of 0 2 rbsp] obtain ps where
    s: "strip_epb 0 2 (insert_epb 0 rbsp) = Some (?p, ps, 0)"
      "length ps = epb_count 0 rbsp + (if zeros_after 0 rbsp = 2 then 1 else 0)"
    by auto
  let ?buf = "a # b # insert_epb 0 rbsp"
  have c: "convertPayloadToRBSP ?buf (a AND 64 = 0) = Some (a # b # ?q, ps)"
    using s w(4,6)
    by (simp add: convertPayloadToRBSP_def strip_nonzero_prefix strip_cabac_prefix received_def
        Let_def del: strip_epb.simps)
  let ?s0 = "resetToStart (new_ibs\<lparr>in_fifo := a # b # ?q, emulationPreventionByteLocation := ps\<rparr>)"
  have "bytes ?q"
    using assms(3) by (auto simp: received_def Let_def intro!: bytes_trim_zeros)
  then have "ibs_inv ?s0" "in_bits ?s0 = header_bits n @ byte_bits ?q"
    using w(2-5) by (auto intro: ibs_inv_resetToStart)
  from readNalUnitHeader_law [OF this assms(1,2)] obtain s' where
    s': "readNalUnitHeader ?s0 = Some (n, s')" "ibs_inv s'" "in_bits s' = byte_bits ?q" by blast
  moreover have "emulationPreventionByteLocation s' = ps"
    using readNalUnitHeader_frame [OF s'(1)] by (simp add: resetToStart_def)
  moreover have "no_start_code ?buf"
    using w(4) insert_epb_no_start_code [of 0 rbsp] by (cases "a = 0") auto
  moreover have "last ?buf \<noteq> 0"
    using w(4) insert_epb_last [of 0 rbsp] by auto
  ultimately show ?thesis
    using w(1-3) c s(2) insert_epb_bytes [OF assms(3), of 0]
    by (simp add: write_nalu_def read_nalu_def)
qed

lemma received_plain: "rbsp \<noteq> [] \<Longrightarrow> last rbsp \<noteq> 0 \<Longrightarrow> received n rbsp = rbsp"
  using trim_zeros_append [of rbsp 0] by (simp add: received_def zeros_after_last)

lemma received_cabac_zero_words:
  assumes "rbsp \<noteq> []" "last rbsp \<noteq> 0" "isVcl n"
  shows "received n (rbsp @ replicate (2 * k) 0) = rbsp"
  using assms trim_zeros_append [of rbsp "2 * k"] zeros_after_even(3) [of k]
  by (simp add: received_def zeros_after_append zeros_after_last)

lemma received_odd_zeros:
  assumes "rbsp \<noteq> []" "last rbsp \<noteq> 0"
  shows "received n (rbsp @ replicate (2 * k + 1) 0) = rbsp @ replicate (2 * k + 1) 0 @ [3]"
  using assms trim_zeros_append [of "rbsp @ replicate (2 * k + 1) 0 @ [3]" 0] zeros_after_even(2) [of k]
  by (simp add: received_def zeros_after_append zeros_after_last Let_def)

section \<open>Properties\<close>

text \<open>
  A NAL unit whose payload does not end in a zero byte survives \<open>write\<close> and \<open>read\<close>: the
  header fields and the payload come back, and one emulation prevention location is recorded
  for each byte the writer inserted.
\<close>

theorem nal_roundtrip:
  assumes "nal_ok n" "nal_checked n" "bytes rbsp" "rbsp \<noteq> []" "last rbsp \<noteq> 0"
  shows "\<exists>buf s. write_nalu n rbsp = Some buf \<and> read_nalu buf = Some (n, s) \<and> ibs_inv s
    \<and> in_bits s = byte_bits rbsp
    \<and> length (emulationPreventionByteLocation s) = length buf - 2 - length rbsp"
proof -
  from read_write_received [OF assms(1-3)] zeros_after_last [OF assms(4,5)] received_plain [OF assms(4,5)]
  obtain buf s where b: "write_nalu n rbsp = Some buf" "read_nalu buf = Some (n, s)" "ibs_inv s"
    "in_bits s = byte_bits rbsp" "length (emulationPreventionByteLocation s) = epb_count 0 rbsp" by auto
  obtain a c where h: "writeNalUnitHeader n = Some [a, c]" using writeNalUnitHeader_law [OF assms(1)] by blast
  with b(1) have "length buf = 2 + length (insert_epb 0 rbsp)" by (auto simp: write_nalu_def)
  then have "length buf = 2 + length rbsp + epb_count 0 rbsp"
    using insert_epb_length [of 0 rbsp] zeros_after_last [OF assms(4,5)] by simp
  with b show ?thesis by auto
qed

theorem nal_roundtrip_witness:
  "\<exists>buf s. write_nalu \<lparr>nalUnitType = 34, temporalId = 0, nuhLayerId = 0\<rparr> [0, 0, 1, 0, 0, 3, 128] = Some buf
    \<and> read_nalu buf = Some (\<lparr>nalUnitType = 34, temporalId = 0, nuhLayerId = 0\<rparr>, s) \<and> ibs_inv s
    \<and> in_bits s = byte_bits [0, 0, 1, 0, 0, 3, 128]
    \<and> length (emulationPreventionByteLocation s) = length buf - 2 - length [0, 0, 1, 0, 0, 3, 128 :: nat]"
  by (rule nal_roundtrip) (simp_all add: nal_ok_def nal_checked_def bytes_def)

text \<open>
  C30. What \<open>write\<close> puts out never contains three bytes \<open>00 00 00\<close>, \<open>00 00 01\<close> or \<open>00 00 02\<close>, does
  not end in a zero byte, and is at most half as long again as the payload, plus four bytes.
\<close>

theorem nal_no_start_code:
  assumes "nal_ok n" "bytes rbsp"
  shows "\<exists>buf. write_nalu n rbsp = Some buf \<and> bytes buf \<and> no_start_code buf \<and> last buf \<noteq> 0
    \<and> 2 * length buf \<le> 3 * length rbsp + 6"
proof -
  from writeNalUnitHeader_law [OF assms(1)] obtain a b where w: "writeNalUnitHeader n = Some [a, b]"
    "a < 128" "b < 256" "b \<noteq> 0" by (elim exE conjE) (rule that)
  have "no_start_code (a # b # insert_epb 0 rbsp)"
    using w(4) insert_epb_no_start_code [of 0 rbsp] by (cases "a = 0") auto
  moreover have "last (a # b # insert_epb 0 rbsp) \<noteq> 0" using w(4) insert_epb_last [of 0 rbsp] by auto
  moreover have "2 * length (insert_epb 0 rbsp) \<le> 3 * length rbsp + 2"
    using insert_epb_length [of 0 rbsp] epb_count_bound [of 0 rbsp] by (auto split: if_splits)
  ultimately show ?thesis using w insert_epb_bytes [OF assms(2), of 0] by (simp add: write_nalu_def)
qed

theorem nal_no_start_code_witness:
  "\<exists>buf. write_nalu \<lparr>nalUnitType = 1, temporalId = 0, nuhLayerId = 0\<rparr> (replicate 9 0) = Some buf
    \<and> bytes buf \<and> no_start_code buf \<and> last buf \<noteq> 0 \<and> 2 * length buf \<le> 3 * length (replicate 9 (0 :: nat)) + 6"
  by (rule nal_no_start_code) (simp_all add: nal_ok_def bytes_def)

text \<open>
  The \<open>cabac_zero_words\<close> that the encoder appends to a slice (pairs of zero bytes) are
  taken off by the reader of a VCL unit.
\<close>

theorem cabac_zero_words_dropped:
  assumes "nal_ok n" "nal_checked n" "isVcl n" "bytes rbsp" "rbsp \<noteq> []" "last rbsp \<noteq> 0"
  shows "\<exists>buf s. write_nalu n (rbsp @ replicate (2 * k) 0) = Some buf \<and> read_nalu buf = Some (n, s)
    \<and> in_bits s = byte_bits rbsp"
proof -
  have "bytes (rbsp @ replicate (2 * k) 0)" using assms(4) by (auto simp: bytes_def)
  from read_write_received [OF assms(1,2) this] received_cabac_zero_words [OF assms(5,6,3), of k]
  show ?thesis by auto
qed

theorem cabac_zero_words_dropped_witness:
  "\<exists>buf s. write_nalu \<lparr>nalUnitType = 1, temporalId = 0, nuhLayerId = 0\<rparr> ([9, 128] @ replicate (2 * 3) 0) = Some buf
    \<and> read_nalu buf = Some (\<lparr>nalUnitType = 1, temporalId = 0, nuhLayerId = 0\<rparr>, s) \<and> in_bits s = byte_bits [9, 128]"
  by (rule cabac_zero_words_dropped) (simp_all add: nal_ok_def nal_checked_def isVcl_def bytes_def)

text \<open>
  C31. A payload that ends in an odd number of zero bytes does not survive: the byte \<open>03\<close> that the
  writer appends after it stays in what the reader returns.
\<close>

theorem odd_trailing_zeros_kept:
  assumes "nal_ok n" "nal_checked n" "bytes rbsp" "rbsp \<noteq> []" "last rbsp \<noteq> 0"
  shows "\<exists>buf s. write_nalu n (rbsp @ replicate (2 * k + 1) 0) = Some buf \<and> read_nalu buf = Some (n, s)
    \<and> in_bits s = byte_bits (rbsp @ replicate (2 * k + 1) 0 @ [3])"
proof -
  have "bytes (rbsp @ replicate (2 * k + 1) 0)" using assms(3) by (auto simp: bytes_def)
  from read_write_received [OF assms(1,2) this] received_odd_zeros [OF assms(4,5), of n k]
  show ?thesis by auto
qed

theorem odd_trailing_zeros_kept_witness:
  "\<exists>buf s. write_nalu \<lparr>nalUnitType = 1, temporalId = 0, nuhLayerId = 0\<rparr> ([128] @ replicate (2 * 0 + 1) 0) = Some buf
    \<and> read_nalu buf = Some (\<lparr>nalUnitType = 1, temporalId = 0, nuhLayerId = 0\<rparr>, s)
    \<and> in_bits s = byte_bits ([128] @ replicate (2 * 0 + 1) 0 @ [3])"
  by (rule odd_trailing_zeros_kept) (simp_all add: nal_ok_def nal_checked_def bytes_def)

text \<open>
  \<open>countStartCodeEmulations\<close> returns the number of bytes that \<open>write\<close> inserts inside the
  payload, so that the entry point offsets, which are corrected by it, point to the right byte.
\<close>

theorem emulation_count_is_inserted:
  "length (insert_epb 0 rbsp) = length rbsp + countStartCodeEmulations rbsp
     + (if zeros_after 0 rbsp > 0 then 1 else 0)"
  by (simp add: insert_epb_length countStartCodeEmulations_count)

end
