(* ===== verification/AnnexB.thy ===== *)
theory AnnexB
  imports NalUnit
begin

text \<open>
  The Annex B byte stream: \<open>EncoderLib/AnnexBwrite.h\<close> (writer), \<open>DecoderLib/AnnexBread.h\<close>
  (the look-ahead reader \<open>InputByteStream\<close>) and \<open>DecoderLib/AnnexBread.cpp\<close> (the parser).

  \<open>rep s xs\<close> says that the reader, with its up to four bytes of look-ahead packed in one
  \<open>uint32_t\<close>, stands for the remaining byte list \<open>xs\<close>; every operation of the reader and
  the whole parser are shown to refine operations on byte lists.  From the list version
  follows that parsing the output of the writer returns the NAL units in order.
\<close>

section \<open>Writer\<close>

text \<open>An access unit is a list of NAL unit types with their bytes in EBSP format.\<close>

fun writeAnnexB_loop :: "bool \<Rightarrow> (nat \<times> nat list) list \<Rightarrow> nat list \<times> nat list" where
  "writeAnnexB_loop first [] = ([], [])"
| "writeAnnexB_loop first ((t, d) # au) =
     (let prefix = (if first \<or> t = NAL_UNIT_SPS \<or> t = NAL_UNIT_PPS then [0, 0, 0, 1] else [0, 0, 1]);
          (out, sizes) = writeAnnexB_loop False au
      in (prefix @ d @ out, u32 (length prefix + length d) # sizes))"

definition writeAnnexB :: "(nat \<times> nat list) list \<Rightarrow> nat list \<times> nat list" where
  "writeAnnexB au = writeAnnexB_loop True au"

section \<open>Reader\<close>

text \<open>
  \<open>ib_input\<close> is what \<open>m_Input\<close> has left; \<open>get()\<close> at the end throws and leaves the state
  unchanged, which is the result \<^const>\<open>None\<close> of \<open>readByte\<close>.
\<close>

record ibytes =
  numFutureBytes :: nat
  futureBytes :: nat
  ib_input :: "nat list"

definition new_ibytes :: "nat list \<Rightarrow> ibytes" where
  "new_ibytes xs = \<lparr>numFutureBytes = 0, futureBytes = 0, ib_input = xs\<rparr>"

definition ib_reset :: "ibytes \<Rightarrow> ibytes" where
  "ib_reset s = s\<lparr>numFutureBytes := 0, futureBytes := 0\<rparr>"

fun fetch :: "nat \<Rightarrow> ibytes \<Rightarrow> bool \<times> ibytes" where
  "fetch 0 s = (False, s)"
| "fetch (Suc n) s =
     (case ib_input s of
        [] \<Rightarrow> (True, s)
      | b # bs \<Rightarrow> fetch n (s\<lparr>futureBytes := u32 (push_bit 8 (futureBytes s)) OR b,
          numFutureBytes := numFutureBytes s + 1, ib_input := bs\<rparr>))"

definition eofBeforeNBytes :: "nat \<Rightarrow> ibytes \<Rightarrow> bool \<times> ibytes" where
  "eofBeforeNBytes n s =
     (if numFutureBytes s \<ge> n then (False, s) else fetch (n - numFutureBytes s) s)"

text \<open>The value is undefined (\<^const>\<open>None\<close>) where fewer than \<open>n\<close> bytes are left.\<close>

definition peekBytes :: "nat \<Rightarrow> ibytes \<Rightarrow> nat option \<times> ibytes" where
  "peekBytes n s =
     (let (eof, s) = eofBeforeNBytes n s
      in (if numFutureBytes s < n then None
          else Some (drop_bit (8 * (numFutureBytes s - n)) (futureBytes s)), s))"

definition ib_readByte :: "ibytes \<Rightarrow> (nat \<times> ibytes) option" where
  "ib_readByte s =
     (if numFutureBytes s = 0 then
        (case ib_input s of [] \<Rightarrow> None | b # bs \<Rightarrow> Some (u8 b, s\<lparr>ib_input := bs\<rparr>))
      else
        let n = numFutureBytes s - 1
        in Some (u8 (drop_bit (8 * n) (futureBytes s)),
                 s\<lparr>numFutureBytes := n,
                    futureBytes := and_not (futureBytes s) (u32 (push_bit (8 * n) 255))\<rparr>))"

text \<open>The result and the state reached, also when a byte is missing.\<close>

fun ib_readBytes :: "nat \<Rightarrow> nat \<Rightarrow> ibytes \<Rightarrow> nat option \<times> ibytes" where
  "ib_readBytes val 0 s = (Some val, s)"
| "ib_readBytes val (Suc n) s =
     (case ib_readByte s of
        None \<Rightarrow> (None, s)
      | Some (b, s) \<Rightarrow> ib_readBytes (u32 (push_bit 8 val) OR b) n s)"

section \<open>Parser\<close>

record annexb_stats =
  numLeadingZero8BitsBytes :: nat
  numZeroByteBytes :: nat
  numStartCodePrefixBytes :: nat
  numBytesInNALUnit :: nat
  numTrailingZero8BitsBytes :: nat

definition add_stats :: "annexb_stats \<Rightarrow> annexb_stats \<Rightarrow> annexb_stats" where
  "add_stats s r = \<lparr>
     numLeadingZero8BitsBytes = u32 (numLeadingZero8BitsBytes s + numLeadingZero8BitsBytes r),
     numZeroByteBytes = u32 (numZeroByteBytes s + numZeroByteBytes r),
     numStartCodePrefixBytes = u32 (numStartCodePrefixBytes s + numStartCodePrefixBytes r),
     numBytesInNALUnit = u32 (numBytesInNALUnit s + numBytesInNALUnit r),
     numTrailingZero8BitsBytes = u32 (numTrailingZero8BitsBytes s + numTrailingZero8BitsBytes r)\<rparr>"

text \<open>\<open>(eofBeforeNBytes(n) || peekBytes(n) != v)\<close>\<close>

definition differs :: "nat \<Rightarrow> (nat \<Rightarrow> bool) \<Rightarrow> ibytes \<Rightarrow> bool \<times> ibytes" where
  "differs n p s =
     (let (eof, s) = eofBeforeNBytes n s
      in if eof then (True, s)
         else let (v, s) = peekBytes n s in (\<not> (\<exists>x. v = Some x \<and> p x), s))"

definition not_at_start_code :: "ibytes \<Rightarrow> bool \<times> ibytes" where
  "not_at_start_code s =
     (let (c, s) = differs 3 (\<lambda>v. v = 1) s
      in if c then differs 4 (\<lambda>v. v = 1) s else (False, s))"

abbreviation remaining :: "ibytes \<Rightarrow> nat" where
  "remaining s \<equiv> numFutureBytes s + length (ib_input s)"

lemma remaining_fetch: "fetch n s = (e, s') \<Longrightarrow> remaining s' = remaining s"
  by (induction n s rule: fetch.induct) (auto split: list.splits)

lemma remaining_eof: "eofBeforeNBytes n s = (e, s') \<Longrightarrow> remaining s' = remaining s"
  by (auto simp: eofBeforeNBytes_def remaining_fetch split: if_splits)

lemma remaining_differs: "differs n p s = (c, s') \<Longrightarrow> remaining s' = remaining s"
  by (auto simp: differs_def peekBytes_def Let_def dest!: remaining_eof split: prod.splits if_splits)

lemma remaining_not_at: "not_at_start_code s = (c, s') \<Longrightarrow> remaining s' = remaining s"
  by (auto simp: not_at_start_code_def Let_def dest!: remaining_differs split: prod.splits if_splits)

lemma remaining_readByte: "ib_readByte s = Some (b, s') \<Longrightarrow> remaining s = Suc (remaining s')"
  by (auto simp: ib_readByte_def Let_def split: if_splits list.splits)

text \<open>
  The loops that discard zero bytes up to a start code.  The result is whether an
  exception left the loop, the number of bytes counted, and the reader.
\<close>

function skip_zeros :: "nat \<Rightarrow> ibytes \<Rightarrow> bool \<times> nat \<times> ibytes" where
  "skip_zeros cnt s =
     (let (c, s) = not_at_start_code s
      in if c then
           (case ib_readByte s of
              None \<Rightarrow> (True, cnt, s)
            | Some (b, s) \<Rightarrow> if b \<noteq> 0 then (True, cnt, s) else skip_zeros (u32 (cnt + 1)) s)
         else (False, cnt, s))"
  by pat_completeness auto

termination
proof (relation "measure (\<lambda>(c, s). remaining s)", goal_cases)
  case (2 cnt s x c s1 y b s2)
  have "remaining s1 = remaining s"
    using remaining_not_at [of s c s1] 2(1,2) by simp
  with 2 remaining_readByte [of s1 b s2] show ?case by simp
qed simp

text \<open>The loop that collects the payload.\<close>

function take_payload :: "nat list \<Rightarrow> ibytes \<Rightarrow> bool \<times> nat list \<times> ibytes" where
  "take_payload nal s =
     (let (c, s) = differs 3 (\<lambda>v. \<not> v > 2) s
      in if c then
           (case ib_readByte s of
              None \<Rightarrow> (True, nal, s)
            | Some (b, s) \<Rightarrow> take_payload (nal @ [b]) s)
         else (False, nal, s))"
  by pat_completeness auto

termination
proof (relation "measure (\<lambda>(c, s). remaining s)", goal_cases)
  case (2 nal s x c s1 y b s2)
  have "remaining s1 = remaining s"
    using remaining_differs [of 3 "\<lambda>v. \<not> v > 2" s c s1] 2(1,2) by simp
  with 2 remaining_readByte [of s1 b s2] show ?case by simp
qed simp

declare skip_zeros.simps [simp del] take_payload.simps [simp del]

text \<open>
  \<open>_byteStreamNALUnit\<close>: the first component says whether it left by an exception; what it
  had stored in \<open>nalUnit\<close> and \<open>stats\<close> by then is kept.
\<close>

definition byteStreamNALUnit_body ::
  "ibytes \<Rightarrow> nat list \<Rightarrow> annexb_stats \<Rightarrow> bool \<times> ibytes \<times> nat list \<times> annexb_stats" where
  "byteStreamNALUnit_body bs nalUnit stats =
     (let (thrown, cnt, bs) = skip_zeros (numLeadingZero8BitsBytes stats) bs;
          stats = stats\<lparr>numLeadingZero8BitsBytes := cnt\<rparr>
      in if thrown then (True, bs, nalUnit, stats) else
      let (v, bs) = peekBytes 3 bs;
          (thrown, bs, stats) =
            (if v \<noteq> Some 1 then
               (case ib_readByte bs of
                  None \<Rightarrow> (True, bs, stats)
                | Some (zero_byte, bs) \<Rightarrow>
                    if zero_byte \<noteq> 0 then (True, bs, stats)
                    else (False, bs, stats\<lparr>numZeroByteBytes := u32 (numZeroByteBytes stats + 1)\<rparr>))
             else (False, bs, stats))
      in if thrown then (True, bs, nalUnit, stats) else
      let (prefix, bs) = ib_readBytes 0 3 bs
      in if prefix \<noteq> Some 1 then (True, bs, nalUnit, stats) else
      let stats = stats\<lparr>numStartCodePrefixBytes := u32 (numStartCodePrefixBytes stats + 3)\<rparr>;
          (thrown, nalUnit, bs) = take_payload nalUnit bs
      in if thrown then (True, bs, nalUnit, stats) else
      let (thrown, cnt, bs) = skip_zeros (numTrailingZero8BitsBytes stats) bs
      in (thrown, bs, nalUnit, stats\<lparr>numTrailingZero8BitsBytes := cnt\<rparr>))"

definition byteStreamNALUnit ::
  "ibytes \<Rightarrow> nat list \<Rightarrow> annexb_stats \<Rightarrow> bool \<times> ibytes \<times> nat list \<times> annexb_stats" where
  "byteStreamNALUnit bs nalUnit stats =
     (let (eof, bs, nalUnit, stats) = byteStreamNALUnit_body bs nalUnit stats
      in (eof, bs, nalUnit, stats\<lparr>numBytesInNALUnit := u32 (length nalUnit)\<rparr>))"

section \<open>The reader stands for a byte list\<close>

text \<open>Big-endian packing.\<close>

definition be :: "nat list \<Rightarrow> nat" where
  "be xs = foldl (\<lambda>a b. a * 256 + b) 0 xs"

lemma be_Nil [simp]: "be [] = 0"
  by (simp add: be_def)

lemma be_snoc [simp]: "be (xs @ [b]) = be xs * 256 + b"
  by (simp add: be_def)

lemma foldl_be: "foldl (\<lambda>a b. a * 256 + b) k xs = k * 256 ^ length xs + be xs" for k :: nat
proof (induction xs arbitrary: k)
  case Nil
  then show ?case by simp
next
  case (Cons b xs)
  show ?case
    using Cons [of "k * 256 + b"] Cons [of b] by (simp add: be_def algebra_simps)
qed

lemma be_append: "be (xs @ ys) = be xs * 256 ^ length ys + be ys"
  using foldl_be [of "be xs" ys] by (simp add: be_def)

lemma be_Cons: "be (b # xs) = b * 256 ^ length xs + be xs"
  using be_append [of "[b]" xs] by (simp add: be_def)

lemma be_less: "bytes xs \<Longrightarrow> be xs < 256 ^ length xs"
proof (induction xs)
  case Nil
  then show ?case by simp
next
  case (Cons b xs)
  then have "b * 256 ^ length xs + be xs < (b + 1) * 256 ^ length xs" by simp
  also have "\<dots> \<le> 256 * 256 ^ length xs"
    using Cons.prems by (intro mult_le_mono1) simp
  finally show ?case by (simp add: be_Cons)
qed

lemma pow256: "(256 :: nat) ^ n = 2 ^ (8 * n)"
  by (simp add: power_mult)

definition rep :: "ibytes \<Rightarrow> nat list \<Rightarrow> bool" where
  "rep s xs \<longleftrightarrow> (\<exists>p. bytes p \<and> length p = numFutureBytes s \<and> length p \<le> 4
     \<and> futureBytes s = be p \<and> bytes (ib_input s) \<and> xs = p @ ib_input s)"

lemma rep_new [simp]: "bytes xs \<Longrightarrow> rep (new_ibytes xs) xs"
  by (simp add: rep_def new_ibytes_def)

lemma rep_bytes: "rep s xs \<Longrightarrow> bytes xs"
  by (auto simp: rep_def)

lemma rep_remaining: "rep s xs \<Longrightarrow> remaining s = length xs"
  by (auto simp: rep_def)

lemma rep_future: "rep s xs \<Longrightarrow> numFutureBytes s \<le> length xs"
  by (auto simp: rep_def)

lemma fetch_rep:
  "rep s xs \<Longrightarrow> numFutureBytes s + n \<le> 4 \<Longrightarrow>
    \<exists>s'. fetch n s = (length xs < numFutureBytes s + n, s') \<and> rep s' xs
      \<and> (numFutureBytes s + n \<le> length xs \<longrightarrow> numFutureBytes s' = numFutureBytes s + n)"
proof (induction n arbitrary: s)
  case 0
  then show ?case using rep_future [of s xs] by auto
next
  case (Suc n)
  from Suc.prems obtain p where p: "bytes p" "length p = numFutureBytes s" "length p \<le> 4"
    "futureBytes s = be p" "bytes (ib_input s)" "xs = p @ ib_input s" by (auto simp: rep_def)
  show ?case
  proof (cases "ib_input s")
    case Nil
    with p Suc.prems show ?thesis by auto
  next
    case (Cons b bs)
    have "be p < 256 ^ length p" using p(1) by (rule be_less)
    also have "\<dots> \<le> 256 ^ 3" using p(2) Suc.prems(2) by (intro power_increasing) auto
    finally have "push_bit 8 (be p) < 2 ^ 32" by (simp add: push_bit_nat_def)
    then have "u32 (push_bit 8 (be p)) OR b = be (p @ [b])"
      using p(5) Cons or_push [of b 8 "be p"] by (simp add: take_bit_nat_eq_self push_bit_nat_def)
    then have "rep (s\<lparr>futureBytes := u32 (push_bit 8 (futureBytes s)) OR b,
        numFutureBytes := numFutureBytes s + 1, ib_input := bs\<rparr>) xs" (is "rep ?s1 xs")
      using p Cons Suc.prems(2) unfolding rep_def by (intro exI [of _ "p @ [b]"]) auto
    from Suc.IH [OF this] Suc.prems(2) Cons show ?thesis by simp
  qed
qed

lemma eof_rep:
  assumes "rep s xs" "n \<le> 4"
  shows "\<exists>s'. eofBeforeNBytes n s = (length xs < n, s') \<and> rep s' xs
    \<and> (n \<le> length xs \<longrightarrow> n \<le> numFutureBytes s')"
  using assms fetch_rep [OF assms(1), of "n - numFutureBytes s"] rep_future [OF assms(1)]
  by (auto simp: eofBeforeNBytes_def)

lemma peek_rep:
  assumes "rep s xs" "n \<le> 4"
  shows "\<exists>s'. peekBytes n s = (if length xs < n then None else Some (be (take n xs)), s') \<and> rep s' xs"
proof -
  from eof_rep [OF assms] obtain s' where s': "eofBeforeNBytes n s = (length xs < n, s')" "rep s' xs"
    "n \<le> length xs \<Longrightarrow> n \<le> numFutureBytes s'" by auto
  show ?thesis
  proof (cases "length xs < n")
    case True
    with s' rep_future [OF s'(2)] show ?thesis by (auto simp: peekBytes_def)
  next
    case False
    with s'(3) have n: "n \<le> numFutureBytes s'" by simp
    from s'(2) obtain p where p: "bytes p" "length p = numFutureBytes s'" "futureBytes s' = be p"
      "xs = p @ ib_input s'" by (auto simp: rep_def)
    have "be p = be (take n p) * 256 ^ (length p - n) + be (drop n p)"
      using be_append [of "take n p" "drop n p"] by simp
    moreover have "be (drop n p) < 256 ^ (length p - n)"
      using be_less [of "drop n p"] p(1) by simp
    ultimately have "drop_bit (8 * (numFutureBytes s' - n)) (futureBytes s') = be (take n p)"
      by (simp add: drop_bit_nat_def p(2,3) flip: pow256)
    with s' n p False show ?thesis by (auto simp: peekBytes_def)
  qed
qed

lemma mask_shifted:
  assumes "v < 2 ^ (m + 8)" "m + 8 \<le> 32"
  shows "and_not v (u32 (push_bit m 255)) = take_bit m v"
proof -
  have "v = take_bit (m + 8) v" using assms(1) by (simp add: take_bit_nat_eq_self)
  then have b: "bit v i \<Longrightarrow> i < m + 8" for i by (metis bit_take_bit_iff)
  have c: "bit (255::nat) i \<longleftrightarrow> i < 8" for i
    using bit_mask_iff [of 8 i, where 'a = nat] by (simp add: mask_eq_exp_minus_1)
  have mm: "bit (u32 (push_bit m 255)) i \<longleftrightarrow> m \<le> i \<and> i < m + 8" for i
    using assms(2) by (auto simp: bit_take_bit_iff bit_push_bit_iff_nat c)
  have "bit (and_not v M) i = bit (take_bit m v) i"
    if M: "\<And>i. bit M i \<longleftrightarrow> m \<le> i \<and> i < m + 8" for M i
    using b [of i] by (simp add: M bit_take_bit_iff) linarith
  with mm show ?thesis by (intro bit_eqI) blast
qed

lemma readByte_rep:
  assumes "rep s xs"
  shows "case xs of [] \<Rightarrow> ib_readByte s = None
    | b # ys \<Rightarrow> \<exists>s'. ib_readByte s = Some (b, s') \<and> rep s' ys"
proof -
  from assms obtain p where p: "bytes p" "length p = numFutureBytes s" "length p \<le> 4"
    "futureBytes s = be p" "bytes (ib_input s)" "xs = p @ ib_input s" by (auto simp: rep_def)
  show ?thesis
  proof (cases p)
    case Nil
    with p show ?thesis
      by (auto simp: ib_readByte_def rep_def take_bit_nat_eq_self split: list.splits)
  next
    case (Cons b q)
    have q: "be q < 2 ^ (8 * length q)" using be_less [of q] p(1) Cons by (simp add: pow256)
    have bp: "be p = b * 2 ^ (8 * length q) + be q" by (simp add: Cons be_Cons pow256)
    have "be p < 256 ^ length p" using p(1) by (rule be_less)
    then have "and_not (be p) (u32 (push_bit (8 * length q) 255)) = take_bit (8 * length q) (be p)"
      using p(3) Cons by (intro mask_shifted) (simp_all add: pow256 power_add)
    moreover have "take_bit (8 * length q) (be p) = be q"
      using q by (simp add: bp take_bit_nat_def)
    moreover have "b < 256" using p(1) Cons by simp
    then have "u8 (drop_bit (8 * length q) (be p)) = b"
      using q by (simp add: bp drop_bit_nat_def take_bit_nat_eq_self)
    moreover have n: "numFutureBytes s = Suc (length q)" using p(2) Cons by simp
    ultimately have "ib_readByte s = Some (b, s\<lparr>numFutureBytes := length q, futureBytes := be q\<rparr>)"
      using p(4) by (simp add: ib_readByte_def)
    moreover have "rep (s\<lparr>numFutureBytes := length q, futureBytes := be q\<rparr>) (q @ ib_input s)"
      using p Cons by (auto simp: rep_def)
    ultimately show ?thesis using p(6) Cons by simp
  qed
qed

section \<open>The parser on byte lists\<close>

definition at_start_code :: "nat list \<Rightarrow> bool" where
  "at_start_code xs \<longleftrightarrow> take 3 xs = [0, 0, 1] \<or> take 4 xs = [0, 0, 0, 1]"

fun spec_skip :: "nat \<Rightarrow> nat list \<Rightarrow> bool \<times> nat \<times> nat list" where
  "spec_skip cnt [] = (True, cnt, [])"
| "spec_skip cnt (b # ys) =
     (if at_start_code (b # ys) then (False, cnt, b # ys)
      else if b \<noteq> 0 then (True, cnt, ys) else spec_skip (u32 (cnt + 1)) ys)"

definition payload_ends :: "nat list \<Rightarrow> bool" where
  "payload_ends xs \<longleftrightarrow> (\<exists>c zs. xs = 0 # 0 # c # zs \<and> c \<le> 2)"

fun spec_payload :: "nat list \<Rightarrow> nat list \<Rightarrow> bool \<times> nat list \<times> nat list" where
  "spec_payload nal [] = (True, nal, [])"
| "spec_payload nal (b # ys) =
     (if payload_ends (b # ys) then (False, nal, b # ys) else spec_payload (nal @ [b]) ys)"

lemma differs_rep:
  assumes "rep s xs" "n \<le> 4"
  shows "\<exists>s'. differs n p s = (\<not> (n \<le> length xs \<and> p (be (take n xs))), s') \<and> rep s' xs"
proof -
  from eof_rep [OF assms] obtain s1 where s1: "eofBeforeNBytes n s = (length xs < n, s1)" "rep s1 xs"
    by auto
  from peek_rep [OF s1(2) assms(2)] obtain s2 where
    "peekBytes n s1 = (if length xs < n then None else Some (be (take n xs)), s2)" "rep s2 xs" by auto
  with s1 show ?thesis by (auto simp: differs_def)
qed

lemma be_take_3: "bytes xs \<Longrightarrow> 3 \<le> length xs \<Longrightarrow>
    \<exists>a b c zs. xs = a # b # c # zs \<and> be (take 3 xs) = 65536 * a + 256 * b + c"
  by (cases xs rule: remdups_adj.cases; cases "tl (tl xs)") (auto simp: be_Cons numeral_3_eq_3)

lemma be_3_eq: "bytes xs \<Longrightarrow> 3 \<le> length xs \<Longrightarrow> be (take 3 xs) = 1 \<longleftrightarrow> take 3 xs = [0, 0, 1]"
proof -
  assume "bytes xs" "3 \<le> length xs"
  with be_take_3 obtain a b c zs where
    "xs = a # b # c # zs" "be (take 3 xs) = 65536 * a + 256 * b + c" by blast
  moreover have "65536 * a + 256 * b + c = 1 \<longleftrightarrow> a = 0 \<and> b = 0 \<and> c = 1"
    by (cases "a = 0"; cases "b = 0") auto
  ultimately show ?thesis by simp
qed

lemma be_3_le: "bytes xs \<Longrightarrow> 3 \<le> length xs \<Longrightarrow> be (take 3 xs) \<le> 2 \<longleftrightarrow> payload_ends xs"
  using be_take_3 [of xs] by (auto simp: payload_ends_def)

lemma be_4_eq: "bytes xs \<Longrightarrow> 4 \<le> length xs \<Longrightarrow> be (take 4 xs) = 1 \<longleftrightarrow> take 4 xs = [0, 0, 0, 1]"
proof -
  assume xs: "bytes xs" "4 \<le> length xs"
  then obtain a ys where a: "xs = a # ys" by (cases xs) auto
  with xs be_take_3 [of ys] obtain b c d zs where
    ys: "ys = b # c # d # zs" "be (take 3 ys) = 65536 * b + 256 * c + d" by auto
  then have "be (take 4 xs) = a * 16777216 + (65536 * b + 256 * c + d)"
    using a by (simp add: be_Cons)
  moreover have "a * 16777216 + (65536 * b + 256 * c + d) = 1 \<longleftrightarrow> a = 0 \<and> b = 0 \<and> c = 0 \<and> d = 1"
    by (cases "a = 0"; cases "b = 0"; cases "c = 0") auto
  ultimately show ?thesis using a ys by simp
qed

lemma not_at_start_code_rep:
  assumes "rep s xs"
  shows "\<exists>s'. not_at_start_code s = (\<not> at_start_code xs, s') \<and> rep s' xs"
proof -
  have b: "bytes xs" using assms by (rule rep_bytes)
  from differs_rep [OF assms, of 3 "\<lambda>v. v = 1"] obtain s1 where
    s1: "differs 3 (\<lambda>v. v = 1) s = (\<not> (3 \<le> length xs \<and> be (take 3 xs) = 1), s1)" "rep s1 xs" by auto
  from differs_rep [OF s1(2), of 4 "\<lambda>v. v = 1"] obtain s2 where
    s2: "differs 4 (\<lambda>v. v = 1) s1 = (\<not> (4 \<le> length xs \<and> be (take 4 xs) = 1), s2)" "rep s2 xs" by auto
  have "3 \<le> length xs \<and> be (take 3 xs) = 1 \<longleftrightarrow> take 3 xs = [0, 0, 1]"
    using be_3_eq [OF b] by (cases "3 \<le> length xs") (auto dest: arg_cong [of _ _ length])
  moreover have "4 \<le> length xs \<and> be (take 4 xs) = 1 \<longleftrightarrow> take 4 xs = [0, 0, 0, 1]"
    using be_4_eq [OF b] by (cases "4 \<le> length xs") (auto dest: arg_cong [of _ _ length])
  ultimately show ?thesis using s1 s2 by (auto simp: not_at_start_code_def at_start_code_def)
qed

lemma skip_zeros_rep:
  "rep s xs \<Longrightarrow> \<exists>s'. skip_zeros cnt s = (fst (spec_skip cnt xs), fst (snd (spec_skip cnt xs)), s')
     \<and> rep s' (snd (snd (spec_skip cnt xs)))"
proof (induction cnt xs arbitrary: s rule: spec_skip.induct)
  case (1 cnt)
  from not_at_start_code_rep [OF 1] obtain s1 where
    "not_at_start_code s = (True, s1)" "rep s1 []" by (auto simp: at_start_code_def)
  with readByte_rep [of s1 "[]"] show ?case by (simp add: skip_zeros.simps [of cnt s])
next
  case (2 cnt b ys)
  from not_at_start_code_rep [OF 2(2)] obtain s1 where
    s1: "not_at_start_code s = (\<not> at_start_code (b # ys), s1)" "rep s1 (b # ys)" by auto
  from readByte_rep [OF s1(2)] obtain s2 where s2: "ib_readByte s1 = Some (b, s2)" "rep s2 ys" by auto
  show ?case
    using s1 s2 2(1) [OF _ _ s2(2)] by (auto simp: skip_zeros.simps [of cnt s])
qed

lemma take_payload_rep:
  "rep s xs \<Longrightarrow> \<exists>s'. take_payload nal s = (fst (spec_payload nal xs), fst (snd (spec_payload nal xs)), s')
     \<and> rep s' (snd (snd (spec_payload nal xs)))"
proof (induction nal xs arbitrary: s rule: spec_payload.induct)
  case (1 nal)
  from differs_rep [OF 1, of 3 "\<lambda>v. \<not> v > 2"] obtain s1 where
    "differs 3 (\<lambda>v. \<not> v > 2) s = (True, s1)" "rep s1 []" by auto
  with readByte_rep [of s1 "[]"] show ?case by (simp add: take_payload.simps [of nal s])
next
  case (2 nal b ys)
  have b: "bytes (b # ys)" using 2(2) by (rule rep_bytes)
  have e: "(3 \<le> length (b # ys) \<and> \<not> be (take 3 (b # ys)) > 2) = payload_ends (b # ys)"
    using be_3_le [OF b] by (cases "3 \<le> length (b # ys)") (auto simp: payload_ends_def not_less)
  from differs_rep [OF 2(2), of 3 "\<lambda>v. \<not> v > 2"] obtain s1 where
    s1: "differs 3 (\<lambda>v. \<not> v > 2) s = (\<not> payload_ends (b # ys), s1)" "rep s1 (b # ys)"
    unfolding e by auto
  from readByte_rep [OF s1(2)] obtain s2 where s2: "ib_readByte s1 = Some (b, s2)" "rep s2 ys" by auto
  show ?case
    using s1 s2 2(1) [OF _ s2(2)] by (auto simp: take_payload.simps [of nal s])
qed

section \<open>Reading back what was written\<close>

lemma at_start_code_simps [simp]:
  "at_start_code (0 # 0 # Suc 0 # r)"
  "at_start_code (0 # 0 # 0 # Suc 0 # r)"
  "\<not> at_start_code (0 # 0 # 0 # 0 # r)"
  by (simp_all add: at_start_code_def)

lemma payload_ends_simps [simp]:
  "payload_ends (a # b # c # r) \<longleftrightarrow> a = 0 \<and> b = 0 \<and> c \<le> 2"
  "\<not> payload_ends [a, b]" "\<not> payload_ends [a]" "\<not> payload_ends []"
  by (auto simp: payload_ends_def)

lemma spec_skip_start:
  "cnt < 2 ^ 32 \<Longrightarrow> spec_skip cnt (replicate k 0 @ 0 # 0 # 1 # r)
    = (False, u32 (cnt + (k - 1)), replicate (min k 1) 0 @ 0 # 0 # 1 # r)"
proof (induction k arbitrary: cnt)
  case 0
  then show ?case by (simp add: take_bit_nat_eq_self)
next
  case (Suc k)
  show ?case
  proof (cases k)
    case 0
    with Suc.prems show ?thesis by (simp add: take_bit_nat_eq_self)
  next
    case (Suc j)
    have "\<not> at_start_code (0 # replicate k 0 @ 0 # 0 # 1 # r)"
      using Suc by (cases j; cases "j - 1") (auto simp: at_start_code_def)
    then have "spec_skip cnt (replicate (Suc k) 0 @ 0 # 0 # 1 # r)
        = spec_skip (u32 (cnt + 1)) (replicate k 0 @ 0 # 0 # 1 # r)" by simp
    also have "\<dots> = (False, u32 (u32 (cnt + 1) + (k - 1)), replicate (min k 1) 0 @ 0 # 0 # 1 # r)"
      by (rule Suc.IH) (use take_bit_nat_less_exp [of 32 "cnt + 1"] in simp)
    also have "u32 (u32 (cnt + 1) + (k - 1)) = u32 (cnt + (Suc k - 1))"
      using Suc by (simp add: take_bit_nat_def mod_simps)
    finally show ?thesis using Suc by simp
  qed
qed

lemma spec_payload_nal:
  assumes "no_start_code n" "n \<noteq> [] \<Longrightarrow> last n \<noteq> 0" "rest = [] \<or> payload_ends rest"
  shows "spec_payload acc (n @ rest) = (rest = [], acc @ n, rest)"
  using assms(1,2)
proof (induction n arbitrary: acc)
  case Nil
  then show ?case using assms(3) by (cases rest) auto
next
  case (Cons b ys)
  have "\<not> payload_ends ((b # ys) @ rest)"
  proof (cases ys)
    case Nil
    with Cons.prems show ?thesis by (auto simp: payload_ends_def)
  next
    case (Cons c zs)
    with Cons.prems show ?thesis by (cases zs) (auto simp: payload_ends_def)
  qed
  moreover have "no_start_code ys" using Cons.prems(1)
    by (cases "b # ys" rule: no_start_code.cases) auto
  moreover have "ys \<noteq> [] \<Longrightarrow> last ys \<noteq> 0" using Cons.prems(2) by simp
  ultimately show ?case using Cons.IH [of "acc @ [b]"] by simp
qed

text \<open>
  One call on a unit with \<open>z\<close> zero bytes before its start code, and either the end of the
  stream or \<open>t\<close> zero bytes and another start code behind it.
\<close>

definition fresh_stats :: annexb_stats where
  "fresh_stats = \<lparr>numLeadingZero8BitsBytes = 0, numZeroByteBytes = 0, numStartCodePrefixBytes = 0,
     numBytesInNALUnit = 0, numTrailingZero8BitsBytes = 0\<rparr>"

definition rest_ok :: "nat \<Rightarrow> nat list \<Rightarrow> nat list \<Rightarrow> bool" where
  "rest_ok t rest left \<longleftrightarrow> rest = [] \<and> left = [] \<and> t = 0
     \<or> (\<exists>r. rest = replicate t 0 @ 0 # 0 # 1 # r \<and> left = replicate (min t 1) 0 @ 0 # 0 # 1 # r)"

lemma rest_ok_ends: "rest_ok t rest left \<Longrightarrow> rest = [] \<or> payload_ends rest"
  by (cases t; cases "t - 1"; cases "t - 2") (auto simp: rest_ok_def)

lemma readBytes_3_rep:
  assumes "rep s (0 # 0 # 1 # r)"
  shows "\<exists>s'. ib_readBytes 0 3 s = (Some 1, s') \<and> rep s' r"
proof -
  from readByte_rep [OF assms] obtain s1 where s1: "ib_readByte s = Some (0, s1)" "rep s1 (0 # 1 # r)"
    by auto
  from readByte_rep [OF s1(2)] obtain s2 where s2: "ib_readByte s1 = Some (0, s2)" "rep s2 (1 # r)"
    by auto
  from readByte_rep [OF s2(2)] obtain s3 where s3: "ib_readByte s2 = Some (1, s3)" "rep s3 r"
    by auto
  from s1 s2 s3 show ?thesis by (simp add: numeral_3_eq_3)
qed

lemma zero_byte_rep:
  assumes "rep s (replicate (min z 1) 0 @ 0 # 0 # 1 # r)"
  shows "\<exists>s1 v s2. peekBytes 3 s = (Some v, s1) \<and> (v = 1 \<longleftrightarrow> z = 0)
    \<and> (if z = 0 then s2 = s1 else ib_readByte s1 = Some (0, s2)) \<and> rep s2 (0 # 0 # 1 # r)"
proof (cases z)
  case 0
  with peek_rep [OF assms, of 3] show ?thesis by (auto simp: be_Cons)
next
  case (Suc k)
  with peek_rep [OF assms, of 3] obtain s1 where
    s1: "peekBytes 3 s = (Some 0, s1)" "rep s1 (0 # 0 # 0 # 1 # r)" by (auto simp: be_Cons)
  from readByte_rep [OF s1(2)] s1 Suc show ?thesis by auto
qed

lemma byteStreamNALUnit_law:
  assumes "rep s (replicate z 0 @ 0 # 0 # 1 # n @ rest)"
    and "no_start_code n" "n \<noteq> [] \<Longrightarrow> last n \<noteq> 0" "rest_ok t rest left"
  shows "\<exists>s'. byteStreamNALUnit s [] fresh_stats = (rest = [], s', n,
      \<lparr>numLeadingZero8BitsBytes = u32 (z - 1), numZeroByteBytes = min z 1,
       numStartCodePrefixBytes = 3, numBytesInNALUnit = u32 (length n),
       numTrailingZero8BitsBytes = u32 (t - 1)\<rparr>) \<and> rep s' left"
proof -
  have e1: "spec_skip 0 (replicate z 0 @ 0 # 0 # 1 # n @ rest)
      = (False, u32 (z - 1), replicate (min z 1) 0 @ 0 # 0 # 1 # n @ rest)"
    using spec_skip_start [of 0 z "n @ rest"] by simp
  from skip_zeros_rep [OF assms(1), of 0] obtain s1 where
    s1: "skip_zeros 0 s = (False, u32 (z - 1), s1)" "rep s1 (replicate (min z 1) 0 @ 0 # 0 # 1 # n @ rest)"
    unfolding e1 by auto
  from zero_byte_rep [OF s1(2)] obtain s2 v s3 where s2: "peekBytes 3 s1 = (Some v, s2)" "v = 1 \<longleftrightarrow> z = 0"
    "if z = 0 then s3 = s2 else ib_readByte s2 = Some (0, s3)" "rep s3 (0 # 0 # 1 # n @ rest)"
    by blast
  from readBytes_3_rep [OF s2(4)] obtain s4 where s4: "ib_readBytes 0 3 s3 = (Some 1, s4)" "rep s4 (n @ rest)"
    by auto
  have e2: "spec_payload [] (n @ rest) = (rest = [], n, rest)"
    using spec_payload_nal [OF assms(2,3) rest_ok_ends [OF assms(4)], of "[]"] by simp
  from take_payload_rep [OF s4(2), of "[]"] obtain s5 where
    s5: "take_payload [] s4 = (rest = [], n, s5)" "rep s5 rest"
    unfolding e2 by auto
  note steps = s1(1) s2(1-3) s4(1) s5(1)
  show ?thesis
  proof (cases "rest = []")
    case True
    with assms(4) s5(2) have "t = 0" "rep s5 left" by (auto simp: rest_ok_def)
    with True steps show ?thesis
      by (cases "z = 0") (auto simp: byteStreamNALUnit_def byteStreamNALUnit_body_def fresh_stats_def)
  next
    case False
    with assms(4) obtain r where r: "rest = replicate t 0 @ 0 # 0 # 1 # r"
      "left = replicate (min t 1) 0 @ 0 # 0 # 1 # r" by (auto simp: rest_ok_def)
    have e3: "spec_skip 0 rest = (False, u32 (t - 1), left)"
      unfolding r using spec_skip_start [of 0 t r] by simp
    from skip_zeros_rep [OF s5(2), of 0] obtain s6 where
      s6: "skip_zeros 0 s5 = (False, u32 (t - 1), s6)" "rep s6 left" unfolding e3 by auto
    with False steps show ?thesis
      by (cases "z = 0") (auto simp: byteStreamNALUnit_def byteStreamNALUnit_body_def fresh_stats_def)
  qed
qed

text \<open>The calls of \<open>DecApp\<close>: a new unit and new statistics for each.\<close>

fun read_units :: "nat \<Rightarrow> ibytes \<Rightarrow> (bool \<times> nat list) list" where
  "read_units 0 s = []"
| "read_units (Suc k) s =
     (let (eof, s, nalUnit, stats) = byteStreamNALUnit s [] fresh_stats
      in (eof, nalUnit) # read_units k s)"

definition unit_ok :: "nat list \<Rightarrow> bool" where
  "unit_ok d \<longleftrightarrow> bytes d \<and> d \<noteq> [] \<and> no_start_code d \<and> last d \<noteq> 0"

lemma writeAnnexB_rest:
  assumes "au \<noteq> []"
  shows "\<exists>t r. t \<le> 1 \<and> fst (writeAnnexB_loop False au) = replicate t 0 @ 0 # 0 # 1 # r"
proof -
  obtain t d a where au: "au = (t, d) # a" using assms by (cases au) auto
  show ?thesis
  proof (cases "t = NAL_UNIT_SPS \<or> t = NAL_UNIT_PPS")
    case True
    then show ?thesis by (intro exI [of _ 1]) (auto simp: au split: prod.splits)
  next
    case False
    then show ?thesis by (intro exI [of _ 0]) (auto simp: au split: prod.splits)
  qed
qed

lemma read_writeAnnexB:
  "rep s (fst (writeAnnexB_loop first au)) \<Longrightarrow> \<forall>(t, d)\<in>set au. unit_ok d \<Longrightarrow>
   read_units (length au) s = map (\<lambda>(t, d). (False, d)) (butlast au) @ map (\<lambda>(t, d). (True, d)) (drop (length au - 1) au)"
proof (induction au arbitrary: s first)
  case Nil
  then show ?case by simp
next
  case (Cons u au)
  obtain ty d where u: "u = (ty, d)" by (cases u)
  define z where "z = (if first \<or> ty = NAL_UNIT_SPS \<or> ty = NAL_UNIT_PPS then 1 else 0 :: nat)"
  define rest where "rest = fst (writeAnnexB_loop False au)"
  have out: "fst (writeAnnexB_loop first (u # au)) = replicate z 0 @ 0 # 0 # 1 # d @ rest"
    by (auto simp: u z_def rest_def split: prod.splits)
  have d: "no_start_code d" "last d \<noteq> 0" using Cons.prems(2) by (auto simp: u unit_ok_def)
  obtain t where ro: "rest_ok t rest rest"
  proof (cases "au = []")
    case True
    then show ?thesis using that [of 0] by (simp add: rest_def rest_ok_def)
  next
    case False
    from writeAnnexB_rest [OF this] obtain t r where "t \<le> 1" "rest = replicate t 0 @ 0 # 0 # 1 # r"
      by (auto simp: rest_def)
    then show ?thesis using that [of t] by (auto simp: rest_ok_def min_def)
  qed
  have re: "rest = [] \<longleftrightarrow> au = []"
    using writeAnnexB_rest [of au] by (cases "au = []") (auto simp: rest_def)
  from byteStreamNALUnit_law [OF Cons.prems(1) [unfolded out] d(1) _ ro] d(2) obtain s' st where
    s': "byteStreamNALUnit s [] fresh_stats = (au = [], s', d, st)" "rep s' rest" by (auto simp: re)
  from Cons.IH [OF s'(2) [unfolded rest_def]] Cons.prems(2)
  have "read_units (length au) s' = map (\<lambda>(t, d). (False, d)) (butlast au)
      @ map (\<lambda>(t, d). (True, d)) (drop (length au - 1) au)" by simp
  with s' show ?case by (cases au) (auto simp: u)
qed

lemma bytes_writeAnnexB:
  "\<forall>(t, d)\<in>set au. unit_ok d \<Longrightarrow> bytes (fst (writeAnnexB_loop first au))"
  by (induction first au rule: writeAnnexB_loop.induct) (auto simp: unit_ok_def split: prod.splits)

lemma writeAnnexB_sizes:
  "snd (writeAnnexB_loop first au) = map u32 (snd (writeAnnexB_loop first au))
   \<and> (sum_list (map (\<lambda>(t, d). 4 + length d) au) < 2 ^ 32
      \<longrightarrow> sum_list (snd (writeAnnexB_loop first au)) = length (fst (writeAnnexB_loop first au)))"
  by (induction first au rule: writeAnnexB_loop.induct) (auto simp: take_bit_nat_eq_self split: prod.splits)

section \<open>Properties\<close>

text \<open>
  C32. The byte stream that \<open>writeAnnexB\<close> writes for an access unit is split by
  \<open>byteStreamNALUnit\<close> into the same NAL units in the same order, and the end of the stream is
  reported with the last one: there, and only there, the function returns true.  Its doc comment says that it returns false
  when the end was reached and true otherwise; the code returns its variable \<open>eof\<close>.
\<close>

theorem annexb_roundtrip:
  assumes "\<forall>(t, d)\<in>set au. unit_ok d"
  shows "read_units (length au) (new_ibytes (fst (writeAnnexB au)))
    = map (\<lambda>(t, d). (False, d)) (butlast au) @ map (\<lambda>(t, d). (True, d)) (drop (length au - 1) au)"
  using assms bytes_writeAnnexB [OF assms] by (intro read_writeAnnexB [of _ True]) (simp_all add: writeAnnexB_def)

theorem annexb_roundtrip_witness:
  "let au = [(33, [66, 1, 5]), (34, [68, 1, 0, 0, 3, 9]), (1, [2, 1, 128])]
   in read_units (length au) (new_ibytes (fst (writeAnnexB au)))
    = map (\<lambda>(t, d). (False, d)) (butlast au) @ map (\<lambda>(t, d). (True, d)) (drop (length au - 1) au)"
  unfolding Let_def by (rule annexb_roundtrip) (simp add: unit_ok_def bytes_def)

text \<open>
  One call of \<open>byteStreamNALUnit\<close>, on \<open>z\<close> zero bytes, a start code prefix, a NAL unit, and
  either the end of the stream or \<open>t\<close> zero bytes and the next prefix: it returns the unit, and the
  statistics account for every byte.
\<close>

theorem annexb_one_unit:
  assumes "bytes (replicate z 0 @ 0 # 0 # 1 # n @ rest)" "no_start_code n" "n = [] \<or> last n \<noteq> 0"
    "rest_ok t rest left"
  shows "\<exists>s'. byteStreamNALUnit (new_ibytes (replicate z 0 @ 0 # 0 # 1 # n @ rest)) [] fresh_stats
    = (rest = [], s', n, \<lparr>numLeadingZero8BitsBytes = u32 (z - 1), numZeroByteBytes = min z 1,
         numStartCodePrefixBytes = 3, numBytesInNALUnit = u32 (length n),
         numTrailingZero8BitsBytes = u32 (t - 1)\<rparr>)"
  using byteStreamNALUnit_law [OF rep_new [OF assms(1)] assms(2) _ assms(4)] assms(3) by blast

theorem annexb_one_unit_witness:
  "\<exists>s'. byteStreamNALUnit (new_ibytes (replicate 4 0 @ 0 # 0 # 1 # [68, 1, 9] @ (replicate 3 0 @ [0, 0, 1, 7]))) [] fresh_stats
    = ((replicate 3 0 @ [0, 0, 1, 7 :: nat]) = [], s', [68, 1, 9],
       \<lparr>numLeadingZero8BitsBytes = u32 (4 - 1), numZeroByteBytes = min 4 1,
         numStartCodePrefixBytes = 3, numBytesInNALUnit = u32 (length [68, 1, 9 :: nat]),
         numTrailingZero8BitsBytes = u32 (3 - 1)\<rparr>)"
  by (rule annexb_one_unit [where left = "replicate (min 3 1) 0 @ 0 # 0 # 1 # [7]"])
    (auto simp: bytes_def rest_ok_def)

end
