(* ===== verification/Contexts.thy ===== *)
theory Contexts
  imports Prelude
begin

text \<open>
  The probability models of \<open>CommonLib/Contexts.h\<close> and \<open>Contexts.cpp\<close>.  The coder and the
  decoder are templates over the model class; a record of its operations takes the
  place of the template parameter, and the locale \<open>prob_model\<close> states what the arithmetic coder
  relies on: the renormalised subranges lie between 256 and 511.  \<open>BinProbModel_Std\<close>
  is shown to provide it.
\<close>

section \<open>The operations of a model class\<close>

record 'm prob_ops =
  getLPS :: "'m \<Rightarrow> nat \<Rightarrow> nat"
  mps :: "'m \<Rightarrow> nat"
  getRenormBitsLPS :: "nat \<Rightarrow> nat"
  getRenormBitsRange :: "nat \<Rightarrow> nat"
  update :: "'m \<Rightarrow> nat \<Rightarrow> 'm"
  initModel :: "int \<Rightarrow> int \<Rightarrow> 'm"

locale prob_model =
  fixes P :: "('m, 'z) prob_ops_scheme" and valid :: "'m \<Rightarrow> bool"
  assumes mps_le: "valid m \<Longrightarrow> mps P m \<le> 1"
    and LPS_range: "valid m \<Longrightarrow> 256 \<le> R \<Longrightarrow> R < 512 \<Longrightarrow> getLPS P m R < R"
    and LPS_renorm: "valid m \<Longrightarrow> 256 \<le> R \<Longrightarrow> R < 512 \<Longrightarrow>
      getRenormBitsLPS P (getLPS P m R) \<le> 8
      \<and> 256 \<le> getLPS P m R * 2 ^ getRenormBitsLPS P (getLPS P m R)
      \<and> getLPS P m R * 2 ^ getRenormBitsLPS P (getLPS P m R) < 512"
    and MPS_renorm: "valid m \<Longrightarrow> 256 \<le> R \<Longrightarrow> R < 512 \<Longrightarrow> R - getLPS P m R < 256 \<Longrightarrow>
      getRenormBitsRange P (R - getLPS P m R) \<le> 8
      \<and> 256 \<le> (R - getLPS P m R) * 2 ^ getRenormBitsRange P (R - getLPS P m R)
      \<and> (R - getLPS P m R) * 2 ^ getRenormBitsRange P (R - getLPS P m R) < 512"
    and update_valid: "valid m \<Longrightarrow> b \<le> 1 \<Longrightarrow> valid (update P m b)"

section \<open>\<open>BinProbModel_Std\<close>\<close>

definition m_NextState :: "(nat \<times> nat) list" where
  "m_NextState =
    [(2, 1), (0, 3), (4, 0), (1, 5), (6, 2), (3, 7), (8, 4), (5, 9),
     (10, 4), (5, 11), (12, 8), (9, 13), (14, 8), (9, 15), (16, 10), (11, 17),
     (18, 12), (13, 19), (20, 14), (15, 21), (22, 16), (17, 23), (24, 18), (19, 25),
     (26, 18), (19, 27), (28, 22), (23, 29), (30, 22), (23, 31), (32, 24), (25, 33),
     (34, 26), (27, 35), (36, 26), (27, 37), (38, 30), (31, 39), (40, 30), (31, 41),
     (42, 32), (33, 43), (44, 32), (33, 45), (46, 36), (37, 47), (48, 36), (37, 49),
     (50, 38), (39, 51), (52, 38), (39, 53), (54, 42), (43, 55), (56, 42), (43, 57),
     (58, 44), (45, 59), (60, 44), (45, 61), (62, 46), (47, 63), (64, 48), (49, 65),
     (66, 48), (49, 67), (68, 50), (51, 69), (70, 52), (53, 71), (72, 52), (53, 73),
     (74, 54), (55, 75), (76, 54), (55, 77), (78, 56), (57, 79), (80, 58), (59, 81),
     (82, 58), (59, 83), (84, 60), (61, 85), (86, 60), (61, 87), (88, 60), (61, 89),
     (90, 62), (63, 91), (92, 64), (65, 93), (94, 64), (65, 95), (96, 66), (67, 97),
     (98, 66), (67, 99), (100, 66), (67, 101), (102, 68), (69, 103), (104, 68), (69, 105),
     (106, 70), (71, 107), (108, 70), (71, 109), (110, 70), (71, 111), (112, 72), (73, 113),
     (114, 72), (73, 115), (116, 72), (73, 117), (118, 74), (75, 119), (120, 74), (75, 121),
     (122, 74), (75, 123), (124, 76), (77, 125), (124, 76), (77, 125), (126, 126), (127, 127)]"

definition m_LPSTable_64_4 :: "nat list list" where
  "m_LPSTable_64_4 =
    [[128, 176, 208, 240], [128, 167, 197, 227], [128, 158, 187, 216], [123, 150, 178, 205],
     [116, 142, 169, 195], [111, 135, 160, 185], [105, 128, 152, 175], [100, 122, 144, 166],
     [95, 116, 137, 158], [90, 110, 130, 150], [85, 104, 123, 142], [81, 99, 117, 135],
     [77, 94, 111, 128], [73, 89, 105, 122], [69, 85, 100, 116], [66, 80, 95, 110],
     [62, 76, 90, 104], [59, 72, 86, 99], [56, 69, 81, 94], [53, 65, 77, 89],
     [51, 62, 73, 85], [48, 59, 69, 80], [46, 56, 66, 76], [43, 53, 63, 72],
     [41, 50, 59, 69], [39, 48, 56, 65], [37, 45, 54, 62], [35, 43, 51, 59],
     [33, 41, 48, 56], [32, 39, 46, 53], [30, 37, 43, 50], [29, 35, 41, 48],
     [27, 33, 39, 45], [26, 31, 37, 43], [24, 30, 35, 41], [23, 28, 33, 39],
     [22, 27, 32, 37], [21, 26, 30, 35], [20, 24, 29, 33], [19, 23, 27, 31],
     [18, 22, 26, 30], [17, 21, 25, 28], [16, 20, 23, 27], [15, 19, 22, 25],
     [14, 18, 21, 24], [14, 17, 20, 23], [13, 16, 19, 22], [12, 15, 18, 21],
     [12, 14, 17, 20], [11, 14, 16, 19], [11, 13, 15, 18], [10, 12, 15, 17],
     [10, 12, 14, 16], [9, 11, 13, 15], [9, 11, 12, 14], [8, 10, 12, 14],
     [8, 9, 11, 13], [7, 9, 11, 12], [7, 9, 10, 12], [7, 8, 10, 11],
     [6, 8, 9, 11], [6, 7, 9, 10], [6, 7, 8, 9], [2, 2, 2, 2]]"

definition m_RenormTable_32 :: "nat list" where
  "m_RenormTable_32 =
    [6, 5, 4, 4, 3, 3, 3, 3, 2, 2, 2, 2, 2, 2, 2, 2,
     1, 1, 1, 1, 1, 1, 1, 1, 1, 1, 1, 1, 1, 1, 1, 1]"

definition m_EstFracBits :: "nat list" where
  "m_EstFracBits =
    [31523, 34297, 29856, 36028, 28388, 37716, 26612, 39963,
     24752, 42538, 23196, 44891, 21645, 47445, 20310, 49833,
     19079, 52215, 17878, 54723, 16708, 57371, 15752, 59703,
     14816, 62157, 13923, 64670, 13127, 67072, 12368, 69525,
     11597, 72194, 10963, 74547, 10350, 76973, 9732, 79583,
     9253, 81736, 8692, 84420, 8254, 86651, 7757, 89344,
     7321, 91870, 6936, 94231, 6565, 96648, 6209, 99111,
     5855, 101712, 5593, 103751, 5244, 106627, 5006, 108707,
     4689, 111640, 4454, 113959, 4200, 116603, 3967, 119182,
     3802, 121114, 3609, 123476, 3407, 126106, 3216, 128736,
     3073, 130808, 2911, 133297, 2742, 136034, 2581, 138822,
     2440, 141405, 2356, 143016, 2216, 145842, 2077, 148855,
     1993, 150758, 1891, 153187, 1808, 155279, 1696, 158246,
     1650, 159523, 1512, 163576, 1466, 165045, 1374, 168023,
     1292, 170923, 1217, 173684, 1191, 174686, 1135, 176943,
     1055, 180397, 999, 182925, 954, 185123, 268, 245691]"

text \<open>
  \<open>BinProbModel_Std::init\<close>; \<open>>>\<close> on a negative \<open>int\<close> is the arithmetic shift.  The
  value is stored in a \<open>uint8_t\<close>.
\<close>

definition std_init :: "int \<Rightarrow> int \<Rightarrow> nat" where
  "std_init qp initId =
     (let slope = (initId div 16) * 5 - 45;
          offset = (initId mod 16) * 8 - 16;
          inistate = (slope * qp) div 16 + offset
      in if inistate \<ge> 64 then nat ((min 62 (inistate - 64) * 2 + 1) mod 256)
         else nat ((min 62 (63 - inistate) * 2) mod 256))"

definition std_update :: "nat \<Rightarrow> nat \<Rightarrow> nat" where
  "std_update st bin = (if bin = 0 then fst (m_NextState ! st) else snd (m_NextState ! st))"

definition std_getLPS :: "nat \<Rightarrow> nat \<Rightarrow> nat" where
  "std_getLPS st rng = m_LPSTable_64_4 ! (drop_bit 1 st) ! (drop_bit 6 rng AND 3)"

definition BinProbModel_Std :: "nat prob_ops" where
  "BinProbModel_Std = \<lparr>
     getLPS = std_getLPS,
     mps = (\<lambda>st. st AND 1),
     getRenormBitsLPS = (\<lambda>LPS. m_RenormTable_32 ! (drop_bit 3 LPS)),
     getRenormBitsRange = (\<lambda>rng. 1),
     update = std_update,
     initModel = std_init\<rparr>"

text \<open>States 126 and 127 have no regular successor; they are not used for context coded bins.\<close>

definition std_valid :: "nat \<Rightarrow> bool" where
  "std_valid st \<longleftrightarrow> st < 126"

lemma std_init_valid: "std_valid (std_init qp initId)"
  by (auto simp: std_valid_def std_init_def Let_def min_def nat_less_iff)

lemma std_next_table: "list_all (\<lambda>(a, b). a < 126 \<and> b < 126) (take 126 m_NextState) \<and> length m_NextState = 128"
  by code_simp

lemma std_update_valid: "std_valid st \<Longrightarrow> std_valid (std_update st b)"
proof -
  assume st: "std_valid st"
  then have "m_NextState ! st \<in> set (take 126 m_NextState)"
    using std_next_table nth_mem [of st "take 126 m_NextState"] by (simp add: std_valid_def)
  with std_next_table show ?thesis
    by (cases "m_NextState ! st") (auto simp: std_valid_def std_update_def list_all_iff)
qed

text \<open>The table entries for a range in \<open>[256 + 64 q, 320 + 64 q)\<close>.\<close>

definition lps_row_ok :: "nat list \<Rightarrow> bool" where
  "lps_row_ok row \<longleftrightarrow> length row = 4
     \<and> list_all (\<lambda>q. let l = row ! q; n = m_RenormTable_32 ! (l div 8)
          in l \<le> 128 + 64 * q \<and> n \<le> 8 \<and> 256 \<le> l * 2 ^ n \<and> l * 2 ^ n < 512) [0, 1, 2, 3]"

lemma lps_table_ok: "list_all lps_row_ok (take 63 m_LPSTable_64_4) \<and> length m_LPSTable_64_4 = 64"
  by code_simp

lemma std_LPS:
  assumes "std_valid st" "256 \<le> R" "R < 512"
  shows "let l = std_getLPS st R; n = m_RenormTable_32 ! (l div 8)
    in R - l \<ge> 128 \<and> l < R \<and> n \<le> 8 \<and> 256 \<le> l * 2 ^ n \<and> l * 2 ^ n < 512"
proof -
  define q where "q = R div 64 - 4"
  have q: "drop_bit 6 R AND 3 = q" "q < 4" "256 + 64 * q \<le> R"
  proof -
    have "R div 64 \<in> {4, 5, 6, 7}" using assms(2,3) by auto
    moreover have "drop_bit 6 R AND 3 = (R div 64) mod 4"
      using and_mask_nat [of "R div 64" 2] by (simp add: drop_bit_nat_def)
    ultimately show "drop_bit 6 R AND 3 = q" "q < 4" by (auto simp: q_def)
    show "256 + 64 * q \<le> R" using assms(2) by (auto simp: q_def)
  qed
  have "st div 2 < 63" using assms(1) by (auto simp: std_valid_def)
  then have "m_LPSTable_64_4 ! (st div 2) \<in> set (take 63 m_LPSTable_64_4)"
    using lps_table_ok nth_mem [of "st div 2" "take 63 m_LPSTable_64_4"] by simp
  then have row: "lps_row_ok (m_LPSTable_64_4 ! (st div 2))"
    using lps_table_ok by (simp add: list_all_iff)
  define l where "l = std_getLPS st R"
  have l: "l = m_LPSTable_64_4 ! (st div 2) ! q"
    unfolding l_def std_getLPS_def q(1) by (simp add: drop_bit_nat_def)
  from q(2) consider "q = 0" | "q = 1" | "q = 2" | "q = 3" by linarith
  then have "l \<le> 128 + 64 * q \<and> m_RenormTable_32 ! (l div 8) \<le> 8
      \<and> 256 \<le> l * 2 ^ (m_RenormTable_32 ! (l div 8)) \<and> l * 2 ^ (m_RenormTable_32 ! (l div 8)) < 512"
    using row unfolding l lps_row_ok_def Let_def by cases simp_all
  with q(3) show ?thesis unfolding l_def [symmetric] Let_def by linarith
qed

interpretation std: prob_model BinProbModel_Std std_valid
proof (unfold_locales, goal_cases)
  case (1 m)
  have "m AND 1 = m mod 2" by (simp add: and_one_eq)
  then show ?case by (simp add: BinProbModel_Std_def)
next
  case (2 m R)
  with std_LPS [of m R] show ?case by (simp add: BinProbModel_Std_def Let_def)
next
  case (3 m R)
  with std_LPS [of m R] show ?case by (simp add: BinProbModel_Std_def Let_def drop_bit_nat_def)
next
  case (4 m R)
  with std_LPS [of m R] show ?case by (simp add: BinProbModel_Std_def Let_def)
next
  case (5 m b)
  with std_update_valid show ?case by (simp add: BinProbModel_Std_def)
qed

section \<open>Properties\<close>

text \<open>
  C27. For every state a context model can reach and every range of the coder, both subranges
  are non-empty and are brought back into 256..511 by the shifts of the renormalisation tables;
  initialisation and update stay within those states.
\<close>

theorem std_model_renormalises:
  assumes "std_valid st" "256 \<le> R" "R < 512"
  shows "let l = getLPS BinProbModel_Std st R; k = getRenormBitsLPS BinProbModel_Std l; r = R - l in
    l < R \<and> 256 \<le> l * 2 ^ k \<and> l * 2 ^ k < 512
    \<and> (r < 256 \<longrightarrow> 256 \<le> r * 2 ^ getRenormBitsRange BinProbModel_Std r \<and> r * 2 ^ getRenormBitsRange BinProbModel_Std r < 512)
    \<and> std_valid (update BinProbModel_Std st b) \<and> std_valid (initModel BinProbModel_Std qp i)"
  using std.LPS_range [OF assms] std.LPS_renorm [OF assms] std.MPS_renorm [OF assms]
    std_update_valid [OF assms(1), of b] std_init_valid [of qp i]
  by (simp add: Let_def BinProbModel_Std_def)

theorem std_model_renormalises_witness:
  "let l = getLPS BinProbModel_Std 17 400; k = getRenormBitsLPS BinProbModel_Std l; r = 400 - l in
    l < 400 \<and> 256 \<le> l * 2 ^ k \<and> l * 2 ^ k < 512
    \<and> (r < 256 \<longrightarrow> 256 \<le> r * 2 ^ getRenormBitsRange BinProbModel_Std r \<and> r * 2 ^ getRenormBitsRange BinProbModel_Std r < 512)
    \<and> std_valid (update BinProbModel_Std 17 0) \<and> std_valid (initModel BinProbModel_Std 32 154)"
  by (rule std_model_renormalises) (simp_all add: std_valid_def)

end
