(* ===== verification/BinEncoder.thy ===== *)
theory BinEncoder
  imports Contexts BitStream
begin

text \<open>
  The arithmetic encoder: \<open>BinEncoderBase\<close> and \<open>TBinEncoder\<close> of \<open>EncoderLib/BinEncoder.h\<close> and
  \<open>BinEncoder.cpp\<close>, with its bin counter and bin store.

  Abstractly the encoder holds a number \<open>total\<close> of \<open>prec\<close> bits, the low end of the current
  interval: the bits written, the byte held back with the run of \<open>0xff\<close> bytes behind it
  (a carry may still run through them) and the register \<open>low\<close>.  Every operation adds an offset
  to that number and scales it (lemma group \<open>_step\<close>), and \<open>writeOut\<close> does not change it.
\<close>

section \<open>State\<close>

record bin_store =
  bs_inUse :: bool
  bs_binBuffer :: "bool list list"

record 'm binenc =
  enc_bs :: obs
  enc_low :: nat
  enc_range :: nat
  enc_bufferedByte :: nat
  enc_numBufferedBytes :: nat
  enc_bitsLeft :: int
  enc_ctx :: "'m list"
  enc_numBinsCtx :: "nat list"
  enc_numBinsEP :: nat
  enc_numBinsTrm :: nat
  enc_binStore :: bin_store

definition m_maxNumBins :: nat where "m_maxNumBins = 100000"

definition bs_reset :: "bin_store \<Rightarrow> bin_store" where
  "bs_reset st = (if bs_inUse st then st\<lparr>bs_binBuffer := map (\<lambda>_. []) (bs_binBuffer st)\<rparr> else st)"

definition bs_addBin :: "nat \<Rightarrow> nat \<Rightarrow> bin_store \<Rightarrow> bin_store option" where
  "bs_addBin bin ctxId st =
     (if bs_inUse st then do {
        buf \<leftarrow> arr_get (bs_binBuffer st) ctxId;
        Some (if length buf < m_maxNumBins
              then st\<lparr>bs_binBuffer := (bs_binBuffer st)[ctxId := buf @ [bin = 1]]\<rparr> else st)
      } else Some st)"

section \<open>\<open>BinCounter\<close>\<close>

definition bc_reset :: "'m binenc \<Rightarrow> 'm binenc" where
  "bc_reset s = s\<lparr>enc_numBinsCtx := map (\<lambda>_. 0) (enc_numBinsCtx s), enc_numBinsEP := 0, enc_numBinsTrm := 0\<rparr>"

definition addCtx :: "nat \<Rightarrow> 'm binenc \<Rightarrow> 'm binenc option" where
  "addCtx ctxId s = do {
     k \<leftarrow> arr_get (enc_numBinsCtx s) ctxId;
     Some (s\<lparr>enc_numBinsCtx := (enc_numBinsCtx s)[ctxId := u32 (k + 1)]\<rparr>)
   }"

definition addEP :: "nat \<Rightarrow> 'm binenc \<Rightarrow> 'm binenc" where
  "addEP num s = s\<lparr>enc_numBinsEP := u32 (enc_numBinsEP s + num)\<rparr>"

definition addTrm :: "'m binenc \<Rightarrow> 'm binenc" where
  "addTrm s = s\<lparr>enc_numBinsTrm := u32 (enc_numBinsTrm s + 1)\<rparr>"

definition getAll :: "'m binenc \<Rightarrow> nat" where
  "getAll s = foldl (\<lambda>count k. u32 (count + k)) (u32 (enc_numBinsEP s + enc_numBinsTrm s)) (enc_numBinsCtx s)"

section \<open>Operations\<close>

definition enc_start :: "'m binenc \<Rightarrow> 'm binenc" where
  "enc_start s =
     (let s = s\<lparr>enc_low := 0, enc_range := 510, enc_bufferedByte := 255,
                enc_numBufferedBytes := 0, enc_bitsLeft := 23\<rparr>;
          s = bc_reset s
      in s\<lparr>enc_binStore := bs_reset (enc_binStore s)\<rparr>)"

definition enc_restart :: "'m binenc \<Rightarrow> 'm binenc" where
  "enc_restart s = s\<lparr>enc_low := 0, enc_range := 510, enc_bufferedByte := 255,
     enc_numBufferedBytes := 0, enc_bitsLeft := 23\<rparr>"

definition enc_resetBits :: "'m binenc \<Rightarrow> 'm binenc" where
  "enc_resetBits s = bc_reset (s\<lparr>enc_low := 0, enc_bufferedByte := 255,
     enc_numBufferedBytes := 0, enc_bitsLeft := 23\<rparr>)"

text \<open>\<open>while (m_numBufferedBytes > 1) { write(byte, 8); m_numBufferedBytes--; }\<close>\<close>

fun write_buffered :: "nat \<Rightarrow> nat \<Rightarrow> obs \<Rightarrow> (nat \<times> obs) option" where
  "write_buffered byte n bs =
     (if n > 1 then (case obs_write byte 8 bs of None \<Rightarrow> None
                     | Some bs \<Rightarrow> write_buffered byte (n - 1) bs)
      else Some (n, bs))"

declare write_buffered.simps [simp del]

definition enc_finish :: "'m binenc \<Rightarrow> 'm binenc option" where
  "enc_finish s = do {
     s \<leftarrow> (if drop_bit (nat (32 - enc_bitsLeft s)) (enc_low s) \<noteq> 0 then do {
          bs \<leftarrow> obs_write (u32 (enc_bufferedByte s + 1)) 8 (enc_bs s);
          (n, bs) \<leftarrow> write_buffered 0 (enc_numBufferedBytes s) bs;
          Some (s\<lparr>enc_bs := bs, enc_numBufferedBytes := n,
                  enc_low := sub32 (enc_low s) (push_bit (nat (32 - enc_bitsLeft s)) 1)\<rparr>)
        } else do {
          bs \<leftarrow> (if enc_numBufferedBytes s > 0 then obs_write (enc_bufferedByte s) 8 (enc_bs s)
                  else Some (enc_bs s));
          (n, bs) \<leftarrow> write_buffered 255 (enc_numBufferedBytes s) bs;
          Some (s\<lparr>enc_bs := bs, enc_numBufferedBytes := n\<rparr>)
        });
     bs \<leftarrow> obs_write (drop_bit 8 (enc_low s)) (nat (24 - enc_bitsLeft s)) (enc_bs s);
     Some (s\<lparr>enc_bs := bs\<rparr>)
   }"

definition writeOut :: "'m binenc \<Rightarrow> 'm binenc option" where
  "writeOut s = do {
     let leadByte = drop_bit (nat (24 - enc_bitsLeft s)) (enc_low s);
     let s = s\<lparr>enc_bitsLeft := enc_bitsLeft s + 8\<rparr>;
     let s = s\<lparr>enc_low := enc_low s AND drop_bit (nat (enc_bitsLeft s)) (2 ^ 32 - 1)\<rparr>;
     if leadByte = 255 then Some (s\<lparr>enc_numBufferedBytes := enc_numBufferedBytes s + 1\<rparr>)
     else if enc_numBufferedBytes s > 0 then do {
       let carry = drop_bit 8 leadByte;
       let byte = u32 (enc_bufferedByte s + carry);
       let s = s\<lparr>enc_bufferedByte := leadByte AND 255\<rparr>;
       bs \<leftarrow> obs_write byte 8 (enc_bs s);
       (n, bs) \<leftarrow> write_buffered ((255 + carry) AND 255) (enc_numBufferedBytes s) bs;
       Some (s\<lparr>enc_bs := bs, enc_numBufferedBytes := n\<rparr>)
     } else Some (s\<lparr>enc_numBufferedBytes := 1, enc_bufferedByte := leadByte\<rparr>)
   }"

definition writeOut_if :: "'m binenc \<Rightarrow> 'm binenc option" where
  "writeOut_if s = (if enc_bitsLeft s < 12 then writeOut s else Some s)"

definition encodeBinEP :: "nat \<Rightarrow> 'm binenc \<Rightarrow> 'm binenc option" where
  "encodeBinEP bin s =
     (let s = addEP 1 s;
          s = s\<lparr>enc_low := u32 (push_bit 1 (enc_low s))\<rparr>;
          s = (if bin \<noteq> 0 then s\<lparr>enc_low := u32 (enc_low s + enc_range s)\<rparr> else s);
          s = s\<lparr>enc_bitsLeft := enc_bitsLeft s - 1\<rparr>
      in writeOut_if s)"

function encodeAlignedBinsEP :: "nat \<Rightarrow> nat \<Rightarrow> 'm binenc \<Rightarrow> 'm binenc option" where
  "encodeAlignedBinsEP bins remBins s =
     (if remBins > 0 then
        let binsToCode = min remBins 8;
            binMask = push_bit binsToCode 1 - 1;
            newBins = drop_bit (remBins - binsToCode) bins AND binMask;
            s = s\<lparr>enc_low := u32 (u32 (push_bit binsToCode (enc_low s)) + push_bit 8 newBins),
                  enc_bitsLeft := enc_bitsLeft s - int binsToCode\<rparr>
        in (case writeOut_if s of None \<Rightarrow> None
            | Some s \<Rightarrow> encodeAlignedBinsEP bins (remBins - binsToCode) s)
      else Some s)"
  by pat_completeness auto

termination
  by (relation "measure (\<lambda>(b, r, s). r)") auto

declare encodeAlignedBinsEP.simps [simp del]

text \<open>The body of \<open>encodeBinsEP\<close> behind its test for the aligned range.\<close>

fun encode_chunks :: "nat \<Rightarrow> nat \<Rightarrow> 'm binenc \<Rightarrow> 'm binenc option" where
  "encode_chunks bins numBins s =
     (if numBins > 8 then
        let numBins = numBins - 8;
            pattern = drop_bit numBins bins;
            s = s\<lparr>enc_low := u32 (u32 (push_bit 8 (enc_low s)) + enc_range s * pattern),
                  enc_bitsLeft := enc_bitsLeft s - 8\<rparr>;
            bins = sub32 bins (push_bit numBins pattern)
        in (case writeOut_if s of None \<Rightarrow> None | Some s \<Rightarrow> encode_chunks bins numBins s)
      else
        let s = s\<lparr>enc_low := u32 (u32 (push_bit numBins (enc_low s)) + enc_range s * bins),
                  enc_bitsLeft := enc_bitsLeft s - int numBins\<rparr>
        in writeOut_if s)"

declare encode_chunks.simps [simp del]

definition encodeBinsEP :: "nat \<Rightarrow> nat \<Rightarrow> 'm binenc \<Rightarrow> 'm binenc option" where
  "encodeBinsEP bins numBins s =
     (let s = addEP numBins s
      in if enc_range s = 256 then encodeAlignedBinsEP bins numBins s
         else encode_chunks bins numBins s)"

definition encodeBinTrm :: "nat \<Rightarrow> 'm binenc \<Rightarrow> 'm binenc option" where
  "encodeBinTrm bin s =
     (let s = addTrm s;
          s = s\<lparr>enc_range := sub32 (enc_range s) 2\<rparr>
      in if bin \<noteq> 0 then
           writeOut_if (s\<lparr>enc_low := u32 (push_bit 7 (u32 (enc_low s + enc_range s))),
             enc_range := push_bit 7 2, enc_bitsLeft := enc_bitsLeft s - 7\<rparr>)
         else if enc_range s \<ge> 256 then Some s
         else writeOut_if (s\<lparr>enc_low := u32 (push_bit 1 (enc_low s)),
             enc_range := u32 (push_bit 1 (enc_range s)), enc_bitsLeft := enc_bitsLeft s - 1\<rparr>))"

definition encodeBinsPCM :: "nat \<Rightarrow> nat \<Rightarrow> 'm binenc \<Rightarrow> 'm binenc option" where
  "encodeBinsPCM bins numBins s = do {
     bs \<leftarrow> obs_write bins numBins (enc_bs s);
     Some (s\<lparr>enc_bs := bs\<rparr>)
   }"

definition enc_align :: "'m binenc \<Rightarrow> 'm binenc" where
  "enc_align s = s\<lparr>enc_range := 256\<rparr>"

definition pcmAlignBits :: "'m binenc \<Rightarrow> 'm binenc option" where
  "pcmAlignBits s = do {
     s \<leftarrow> enc_finish s;
     bs \<leftarrow> obs_write 1 1 (enc_bs s);
     Some (s\<lparr>enc_bs := writeAlignZero bs\<rparr>)
   }"

definition getNumWrittenBits :: "'m binenc \<Rightarrow> nat" where
  "getNumWrittenBits s = nat ((int (getNumberOfWrittenBits (enc_bs s)) + 8 * int (enc_numBufferedBytes s)
     + 23 - enc_bitsLeft s) mod 2 ^ 32)"

text \<open>\<open>TBinEncoder::encodeBin\<close>; the record \<open>P\<close> is the template parameter.\<close>

definition encodeBin :: "('m, 'z) prob_ops_scheme \<Rightarrow> nat \<Rightarrow> nat \<Rightarrow> 'm binenc \<Rightarrow> 'm binenc option" where
  "encodeBin P bin ctxId s = do {
     s \<leftarrow> addCtx ctxId s;
     m \<leftarrow> arr_get (enc_ctx s) ctxId;
     let LPS = getLPS P m (enc_range s);
     let s = s\<lparr>enc_range := sub32 (enc_range s) LPS\<rparr>;
     s \<leftarrow> (if bin \<noteq> mps P m then
            let numBits = getRenormBitsLPS P LPS
            in writeOut_if (s\<lparr>enc_bitsLeft := enc_bitsLeft s - int numBits,
                 enc_low := u32 (push_bit numBits (u32 (enc_low s + enc_range s))),
                 enc_range := u32 (push_bit numBits LPS)\<rparr>)
          else if enc_range s < 256 then
            let numBits = getRenormBitsRange P (enc_range s)
            in writeOut_if (s\<lparr>enc_bitsLeft := enc_bitsLeft s - int numBits,
                 enc_low := u32 (push_bit numBits (enc_low s)),
                 enc_range := u32 (push_bit numBits (enc_range s))\<rparr>)
          else Some s);
     st \<leftarrow> bs_addBin bin ctxId (enc_binStore s);
     Some (s\<lparr>enc_ctx := (enc_ctx s)[ctxId := update P m bin], enc_binStore := st\<rparr>)
   }"

section \<open>The number the encoder stands for\<close>

definition held_bytes :: "'m binenc \<Rightarrow> nat list" where
  "held_bytes s = (if enc_numBufferedBytes s = 0 then []
     else enc_bufferedByte s # replicate (enc_numBufferedBytes s - 1) 255)"

definition coded :: "bits \<Rightarrow> 'm binenc \<Rightarrow> bits" where
  "coded base s = drop (length base) (out_bits (enc_bs s)) @ byte_bits (held_bytes s)"

definition total :: "bits \<Rightarrow> 'm binenc \<Rightarrow> nat" where
  "total base s = of_bits (coded base s) * 2 ^ nat (32 - enc_bitsLeft s) + enc_low s"

definition prec :: "bits \<Rightarrow> 'm binenc \<Rightarrow> nat" where
  "prec base s = length (coded base s) + nat (32 - enc_bitsLeft s)"

text \<open>
  The invariant of the registers; \<open>base\<close> is what the stream held at the start.  The
  register \<open>low\<close> may exceed its \<open>32 - bitsLeft\<close> bits by a carry, but only by a sixteenth, so
  that a byte with a carry is never \<open>0x1ff\<close>; and the interval lies below \<open>2 ^ prec\<close>, so that
  no carry leaves a run of \<open>0xff\<close> bytes that begins the stream.
\<close>

definition reg_inv :: "bits \<Rightarrow> 'm binenc \<Rightarrow> bool" where
  "reg_inv base s \<longleftrightarrow> obs_inv (enc_bs s) \<and> take (length base) (out_bits (enc_bs s)) = base
     \<and> enc_bufferedByte s < 256 \<and> 4 \<le> enc_bitsLeft s \<and> enc_bitsLeft s \<le> 23
     \<and> 0 < enc_range s \<and> enc_range s \<le> 512
     \<and> enc_low s + enc_range s \<le> 2 ^ nat (32 - enc_bitsLeft s) + 2 ^ nat (28 - enc_bitsLeft s)
     \<and> total base s + enc_range s \<le> 2 ^ prec base s
     \<and> (enc_numBufferedBytes s = 0 \<longrightarrow> out_bits (enc_bs s) = base \<and> enc_bufferedByte s = 255)
     \<and> (enc_bufferedByte s = 255 \<longrightarrow> out_bits (enc_bs s) = base)"

definition enc_inv :: "bits \<Rightarrow> 'm binenc \<Rightarrow> bool" where
  "enc_inv base s \<longleftrightarrow> reg_inv base s \<and> 12 \<le> enc_bitsLeft s \<and> 256 \<le> enc_range s \<and> enc_range s < 512"

text \<open>The fields that the number does not depend on.\<close>

lemma frame_simps [simp]:
  "total base (s\<lparr>enc_numBinsEP := n\<rparr>) = total base s"
  "total base (s\<lparr>enc_numBinsTrm := n\<rparr>) = total base s"
  "total base (s\<lparr>enc_numBinsCtx := l\<rparr>) = total base s"
  "total base (s\<lparr>enc_ctx := c\<rparr>) = total base s"
  "total base (s\<lparr>enc_binStore := st\<rparr>) = total base s"
  "total base (s\<lparr>enc_range := r\<rparr>) = total base s"
  "prec base (s\<lparr>enc_numBinsEP := n\<rparr>) = prec base s"
  "prec base (s\<lparr>enc_numBinsTrm := n\<rparr>) = prec base s"
  "prec base (s\<lparr>enc_numBinsCtx := l\<rparr>) = prec base s"
  "prec base (s\<lparr>enc_ctx := c\<rparr>) = prec base s"
  "prec base (s\<lparr>enc_binStore := st\<rparr>) = prec base s"
  "prec base (s\<lparr>enc_range := r\<rparr>) = prec base s"
  by (simp_all add: total_def prec_def coded_def held_bytes_def)

lemma reg_frame [simp]:
  "reg_inv base (s\<lparr>enc_numBinsEP := n\<rparr>) = reg_inv base s"
  "reg_inv base (s\<lparr>enc_numBinsTrm := n\<rparr>) = reg_inv base s"
  "reg_inv base (s\<lparr>enc_numBinsCtx := l\<rparr>) = reg_inv base s"
  "reg_inv base (s\<lparr>enc_ctx := c\<rparr>) = reg_inv base s"
  "reg_inv base (s\<lparr>enc_binStore := st\<rparr>) = reg_inv base s"
  by (simp_all add: reg_inv_def)

lemma inv_frame [simp]:
  "enc_inv base (s\<lparr>enc_numBinsEP := n\<rparr>) = enc_inv base s"
  "enc_inv base (s\<lparr>enc_numBinsTrm := n\<rparr>) = enc_inv base s"
  "enc_inv base (s\<lparr>enc_numBinsCtx := l\<rparr>) = enc_inv base s"
  "enc_inv base (s\<lparr>enc_ctx := c\<rparr>) = enc_inv base s"
  "enc_inv base (s\<lparr>enc_binStore := st\<rparr>) = enc_inv base s"
  by (simp_all add: enc_inv_def)

lemma enc_start_inv:
  assumes "obs_inv (enc_bs s)"
  shows "enc_inv (out_bits (enc_bs s)) (enc_start s)" "total (out_bits (enc_bs s)) (enc_start s) = 0"
    "prec (out_bits (enc_bs s)) (enc_start s) = 9"
  using assms by (auto simp: enc_inv_def reg_inv_def enc_start_def bc_reset_def Let_def total_def prec_def
      coded_def held_bytes_def)

section \<open>\<open>writeOut\<close> moves a byte without changing the number\<close>

lemma of_byte: "b < 256 \<Longrightarrow> of_bits (byte_bits (b # xs)) = b * 256 ^ length xs + of_bits (byte_bits xs)"
  by (simp add: of_bits_bytes_Cons power_mult del: byte_bits_simps(2))

lemma of_ffs: "of_bits (byte_bits (replicate n 255)) + 1 = 256 ^ n"
  by (induction n) (simp_all add: of_byte del: byte_bits_simps(2))

lemma of_zeros: "of_bits (byte_bits (replicate n 0)) = 0"
  by (induction n) (simp_all add: of_byte del: byte_bits_simps(2))

lemma carry_run:
  assumes "b + 1 < 256"
  shows "of_bits (byte_bits (b # replicate n 255)) + 1 = of_bits (byte_bits ((b + 1) # replicate n 0))"
  using assms of_ffs [of n] by (simp add: of_byte of_zeros del: byte_bits_simps(2))

lemma write_buffered_law:
  "obs_inv bs \<Longrightarrow> byte < 256 \<Longrightarrow> \<exists>bs'. write_buffered byte n bs = Some (min n 1, bs') \<and> obs_inv bs'
    \<and> out_bits bs' = out_bits bs @ byte_bits (replicate (n - 1) byte)"
proof (induction n arbitrary: bs)
  case 0
  then show ?case by (simp add: write_buffered.simps)
next
  case (Suc n)
  show ?case
  proof (cases n)
    case 0
    with Suc.prems show ?thesis by (simp add: write_buffered.simps)
  next
    case (Suc k)
    from obs_write_byte [OF Suc.prems] obtain b1 where b1: "obs_write byte 8 bs = Some b1" "obs_inv b1"
      "out_bits b1 = out_bits bs @ to_bits 8 byte" by auto
    from Suc.IH [OF b1(2) Suc.prems(2)] b1 Suc show ?thesis
      by (auto simp: write_buffered.simps [of byte "Suc (Suc k)"])
  qed
qed

text \<open>The fields \<open>writeOut\<close> does not touch.\<close>

definition same_rest :: "'m binenc \<Rightarrow> 'm binenc \<Rightarrow> bool" where
  "same_rest s s' \<longleftrightarrow> enc_range s' = enc_range s \<and> enc_ctx s' = enc_ctx s
     \<and> enc_numBinsCtx s' = enc_numBinsCtx s \<and> enc_numBinsEP s' = enc_numBinsEP s
     \<and> enc_numBinsTrm s' = enc_numBinsTrm s \<and> enc_binStore s' = enc_binStore s"

lemma low_mask: "k \<le> 32 \<Longrightarrow> a AND drop_bit (32 - k) (2 ^ 32 - 1) = a mod 2 ^ k" for a :: nat
proof -
  assume "k \<le> 32"
  then have "drop_bit (32 - k) (2 ^ 32 - 1 :: nat) = 2 ^ k - 1"
    using drop_bit_mask_eq [of "32 - k" 32, where 'a = nat] by (simp add: mask_eq_exp_minus_1)
  then show ?thesis using and_mask_nat [of a k] by simp
qed

lemma byte_bits_snoc_value:
  "b < 256 \<Longrightarrow> of_bits (xs @ byte_bits [b]) = of_bits xs * 256 + b"
  by (simp add: of_bits_append)

lemma reg_invI:
  assumes "reg_inv base s" "same_rest s s'" "total base s' = total base s" "prec base s' = prec base s"
    "obs_inv (enc_bs s')" "take (length base) (out_bits (enc_bs s')) = base"
    "enc_bitsLeft s' = 24 - int k + 8" "13 \<le> k" "k \<le> 20" "enc_low s' < 2 ^ k"
    "enc_bufferedByte s' < 256" "0 < enc_numBufferedBytes s'"
    "enc_bufferedByte s' = 255 \<longrightarrow> out_bits (enc_bs s') = base"
  shows "reg_inv base s'"
proof -
  have r: "0 < enc_range s'" "enc_range s' \<le> 512" "total base s' + enc_range s' \<le> 2 ^ prec base s'"
    using assms(1-4) by (simp_all add: reg_inv_def same_rest_def)
  have n: "nat (32 - enc_bitsLeft s') = k" "nat (28 - enc_bitsLeft s') = k - 4"
    using assms(7-9) by simp_all
  have "(2 :: nat) ^ 9 \<le> 2 ^ (k - 4)" using assms(8) by (intro power_increasing) auto
  with assms(10) r(2) have "enc_low s' + enc_range s' \<le> 2 ^ k + 2 ^ (k - 4)" by simp
  with assms(5-13) r n show ?thesis by (simp add: reg_inv_def)
qed

text \<open>The byte that is written out, and what becomes of the bytes held back.\<close>

lemma writeOut_bytes:
  assumes B: "B < 256" and N: "0 < N" and carry: "c \<le> 1" "c = 1 \<Longrightarrow> B \<noteq> 255" and bs: "obs_inv bs"
  shows "\<exists>bs1 bs2. obs_write (u32 (B + c)) 8 bs = Some bs1
    \<and> write_buffered ((255 + c) AND 255) N bs1 = Some (1, bs2) \<and> obs_inv bs2
    \<and> (\<exists>x. out_bits bs2 = out_bits bs @ x \<and> length x = 8 * N
         \<and> of_bits x = of_bits (byte_bits (B # replicate (N - 1) 255)) + c)"
proof -
  have lt: "B + c < 256" using B carry by (cases "c = 0") auto
  then have u: "u32 (B + c) = B + c" by (simp add: take_bit_nat_eq_self)
  from obs_write_byte [OF bs lt] obtain bs1 where bs1: "obs_write (u32 (B + c)) 8 bs = Some bs1"
    "obs_inv bs1" "out_bits bs1 = out_bits bs @ to_bits 8 (B + c)" by (auto simp: u)
  define y where "y = (if c = 0 then 255 else 0 :: nat)"
  have y: "(255 + c) AND 255 = y" "y < 256"
    using carry(1) and_mask_nat [of "255 + c" 8] by (auto simp: y_def le_Suc_eq)
  from write_buffered_law [OF bs1(2) y(2), of N] N obtain bs2 where bs2:
    "write_buffered y N bs1 = Some (1, bs2)" "obs_inv bs2"
    "out_bits bs2 = out_bits bs1 @ byte_bits (replicate (N - 1) y)" by (auto simp: min_def)
  have "of_bits (byte_bits ((B + c) # replicate (N - 1) y))
      = of_bits (byte_bits (B # replicate (N - 1) 255)) + c"
  proof (cases "c = 0")
    case False
    then have "c = 1" using carry(1) by simp
    with carry_run [of B "N - 1"] lt show ?thesis by (simp add: y_def)
  qed (simp add: y_def)
  with bs1 bs2 y(1) N show ?thesis
    by (intro exI conjI; (rule refl | assumption)?)
      (auto intro!: exI [of _ "byte_bits ((B + c) # replicate (N - 1) y)"])
qed

lemma no_lost_carry:
  assumes inv: "reg_inv base s" and low: "2 ^ nat (32 - enc_bitsLeft s) \<le> enc_low s"
  shows "0 < enc_numBufferedBytes s" "enc_bufferedByte s \<noteq> 255"
proof -
  let ?N = "enc_numBufferedBytes s" and ?m = "nat (32 - enc_bitsLeft s)"
  have *: False if B: "enc_bufferedByte s = 255"
  proof -
    have "held_bytes s = replicate ?N 255"
      using B by (cases ?N) (simp_all add: held_bytes_def)
    moreover have "out_bits (enc_bs s) = base" using inv B by (simp add: reg_inv_def)
    ultimately have cd: "coded base s = byte_bits (replicate ?N 255)" by (simp add: coded_def)
    have "(of_bits (coded base s) + 1) * 2 ^ ?m \<le> total base s"
      using low by (simp add: total_def)
    moreover have "of_bits (coded base s) + 1 = 256 ^ ?N" unfolding cd by (rule of_ffs)
    then have "2 ^ prec base s = (of_bits (coded base s) + 1) * 2 ^ ?m"
      by (simp add: prec_def cd power_add power_mult)
    ultimately have "2 ^ prec base s \<le> total base s" by simp
    with inv show False by (simp add: reg_inv_def)
  qed
  then show "enc_bufferedByte s \<noteq> 255" by blast
  have "?N = 0 \<Longrightarrow> enc_bufferedByte s = 255" using inv by (simp add: reg_inv_def)
  with * show "0 < ?N" by blast
qed

lemma writeOut_law:
  assumes inv: "reg_inv base s" and b: "enc_bitsLeft s < 12"
  shows "\<exists>s'. writeOut s = Some s' \<and> reg_inv base s' \<and> same_rest s s'
    \<and> total base s' = total base s \<and> prec base s' = prec base s \<and> enc_bitsLeft s' = enc_bitsLeft s + 8"
proof -
  define k where "k = nat (24 - enc_bitsLeft s)"
  have k: "enc_bitsLeft s = 24 - int k" "13 \<le> k" "k \<le> 20"
    using inv b by (auto simp: k_def reg_inv_def)
  have n: "nat (32 - enc_bitsLeft s) = k + 8" "nat (28 - enc_bitsLeft s) = k + 4"
    "nat (24 - enc_bitsLeft s) = k" "nat (enc_bitsLeft s + 8) = 32 - k" using k by auto
  define L r where "L = enc_low s div 2 ^ k" and "r = enc_low s mod 2 ^ k"
  have low: "enc_low s = L * 2 ^ k + r" "r < 2 ^ k"
    unfolding L_def r_def by (rule div_mult_mod_eq [symmetric]) simp
  let ?N = "enc_numBufferedBytes s" and ?B = "enc_bufferedByte s" and ?bs = "enc_bs s"
  have i: "obs_inv ?bs" "take (length base) (out_bits ?bs) = base" "?B < 256" "0 < enc_range s"
    "total base s + enc_range s \<le> 2 ^ prec base s"
    "?N = 0 \<Longrightarrow> out_bits ?bs = base \<and> ?B = 255" "?B = 255 \<Longrightarrow> out_bits ?bs = base"
    using inv by (simp_all add: reg_inv_def)
  have len: "length base \<le> length (out_bits ?bs)" by (metis i(2) length_take min.cobounded1)
  have "enc_low s < 272 * 2 ^ k"
    using inv i(4) n by (simp add: reg_inv_def power_add)
  then have L: "L < 272" by (simp add: L_def less_mult_imp_div_less)
  have lead: "drop_bit k (enc_low s) = L" by (simp add: L_def drop_bit_nat_def)
  have mask: "enc_low s AND drop_bit (32 - k) 4294967295 = r"
    using low_mask [of k "enc_low s"] k(3) by (simp add: r_def)
  have tot: "total base s = (of_bits (coded base s) * 256 + L) * 2 ^ k + r"
    by (simp add: total_def n low(1) power_add algebra_simps)
  have prc: "prec base s = length (coded base s) + 8 + k" by (simp add: prec_def n)
  let ?s1 = "s\<lparr>enc_bitsLeft := enc_bitsLeft s + 8, enc_low := r\<rparr>"
  note fin = reg_invI [OF inv _ _ _ _ _ _ k(2,3)]
  have finish: ?thesis if "writeOut s = Some s'" "same_rest s s'" "obs_inv (enc_bs s')"
      "take (length base) (out_bits (enc_bs s')) = base" "enc_bitsLeft s' = enc_bitsLeft s + 8" "enc_low s' = r"
      "enc_bufferedByte s' < 256" "0 < enc_numBufferedBytes s'"
      "enc_bufferedByte s' = 255 \<longrightarrow> out_bits (enc_bs s') = base"
      "of_bits (coded base s') = of_bits (coded base s) * 256 + L"
      "length (coded base s') = length (coded base s) + 8" for s'
  proof -
    have n': "nat (32 - enc_bitsLeft s') = k" using that(5) k by simp
    have t: "total base s' = total base s" "prec base s' = prec base s"
      by (simp_all add: tot prc total_def [of base s'] prec_def [of base s'] n' n(3) that)
    moreover have "reg_inv base s'"
      by (rule fin) (use that t low(2) k(1) in simp_all)
    ultimately show ?thesis using that by blast
  qed
  consider "L = 255" | "L \<noteq> 255" "0 < ?N" | "L \<noteq> 255" "?N = 0" by blast
  then show ?thesis
  proof cases
    case 1
    have h: "held_bytes (?s1\<lparr>enc_numBufferedBytes := ?N + 1\<rparr>) = held_bytes s @ [255]"
      using i(6) by (cases ?N) (simp_all add: held_bytes_def replicate_append_same)
    have "writeOut s = Some (?s1\<lparr>enc_numBufferedBytes := ?N + 1\<rparr>)"
      using 1 by (simp add: writeOut_def n lead mask)
    then show ?thesis
      by (rule finish) (use i 1 h in \<open>simp_all add: same_rest_def coded_def of_bits_append power_add\<close>)
  next
    case 2
    define c where "c = L div 256"
    have c: "c \<le> 1" "L = 256 * c + L mod 256" "L mod 256 \<noteq> 255"
    proof -
      show "c \<le> 1" using L by (simp add: c_def)
      show "L = 256 * c + L mod 256" by (simp add: c_def)
      show "L mod 256 \<noteq> 255"
      proof (cases "L < 256")
        case False
        then obtain d where "L = d + 256" using le_Suc_ex [of 256 L] by (auto simp: add.commute)
        with L show ?thesis by simp
      qed (use 2(1) in simp)
    qed
    have c1: "?B \<noteq> 255" if "c = 1"
    proof -
      have "256 * 2 ^ k \<le> L * 2 ^ k" using c(2) that by (intro mult_le_mono1) simp
      moreover have "(2 :: nat) ^ nat (32 - enc_bitsLeft s) = 256 * 2 ^ k" unfolding n(1) power_add by simp
      ultimately have "2 ^ nat (32 - enc_bitsLeft s) \<le> enc_low s" using low(1) by linarith
      then show ?thesis by (rule no_lost_carry [OF inv])
    qed
    from writeOut_bytes [OF i(3) 2(2) c(1) c1 i(1)] obtain bs1 bs2 x where w:
      "obs_write (u32 (?B + c)) 8 ?bs = Some bs1"
      "write_buffered ((255 + c) AND 255) ?N bs1 = Some (1, bs2)" "obs_inv bs2"
      "out_bits bs2 = out_bits ?bs @ x" "length x = 8 * ?N"
      "of_bits x = of_bits (byte_bits (?B # replicate (?N - 1) 255)) + c" by blast
    let ?s2 = "?s1\<lparr>enc_bufferedByte := L mod 256, enc_bs := bs2, enc_numBufferedBytes := 1\<rparr>"
    have cs: "coded base ?s2 = (drop (length base) (out_bits ?bs) @ x) @ byte_bits [L mod 256]"
      using len by (simp add: coded_def held_bytes_def w(4))
    have co: "coded base s = drop (length base) (out_bits ?bs) @ byte_bits (?B # replicate (?N - 1) 255)"
      using 2(2) by (simp add: coded_def held_bytes_def)
    have "of_bits (drop (length base) (out_bits ?bs) @ x) = of_bits (coded base s) + c"
      unfolding co of_bits_append w(5,6) using 2(2) by (simp add: algebra_simps)
    then have v: "of_bits (coded base ?s2) = of_bits (coded base s) * 256 + L"
      unfolding cs by (subst byte_bits_snoc_value) (use c(2) in simp_all)
    have l: "length (coded base ?s2) = length (coded base s) + 8"
      unfolding cs co using 2(2) w(5) by simp
    have "L AND 255 = L mod 256" using and_mask_nat [of L 8] by simp
    moreover have "drop_bit 8 L = c" by (simp add: c_def drop_bit_nat_def)
    ultimately have "writeOut s = Some ?s2"
      using 2 w(1,2) by (simp add: writeOut_def n lead mask Let_def)
    then show ?thesis
      by (rule finish) (use i w(3,4) c(3) v l len in \<open>simp_all add: same_rest_def\<close>)
  next
    case 3
    have "coded base s = []" using 3 i(6) by (simp add: coded_def held_bytes_def)
    have L8: "L < 256"
    proof (rule ccontr)
      assume "\<not> L < 256"
      then have "256 * 2 ^ k \<le> L * 2 ^ k" by (intro mult_le_mono1) simp
      moreover have "(2 :: nat) ^ nat (32 - enc_bitsLeft s) = 256 * 2 ^ k" unfolding n(1) power_add by simp
      ultimately have "2 ^ nat (32 - enc_bitsLeft s) \<le> enc_low s" using low(1) by linarith
      then show False using no_lost_carry [OF inv] 3(2) by simp
    qed
    have "writeOut s = Some (?s1\<lparr>enc_numBufferedBytes := 1, enc_bufferedByte := L\<rparr>)"
      using 3 by (simp add: writeOut_def n lead mask Let_def)
    then show ?thesis
      by (rule finish) (use i 3 L8 in \<open>simp_all add: same_rest_def coded_def held_bytes_def\<close>)
  qed
qed

section \<open>Every operation adds an offset and scales\<close>

definition same_tabs :: "'m binenc \<Rightarrow> 'm binenc \<Rightarrow> bool" where
  "same_tabs s s' \<longleftrightarrow> enc_ctx s' = enc_ctx s \<and> enc_numBinsCtx s' = enc_numBinsCtx s
     \<and> enc_binStore s' = enc_binStore s"

definition stepped :: "bits \<Rightarrow> 'm binenc \<Rightarrow> 'm binenc \<Rightarrow> nat \<Rightarrow> nat \<Rightarrow> nat \<Rightarrow> bool" where
  "stepped base s s' k d R \<longleftrightarrow> enc_inv base s' \<and> total base s' = total base s * 2 ^ k + d
     \<and> prec base s' = prec base s + k \<and> enc_range s' = R \<and> same_tabs s s'"

lemma stepped_trans:
  "stepped base s s1 k1 d1 R1 \<Longrightarrow> stepped base s1 s2 k2 d2 R2
    \<Longrightarrow> stepped base s s2 (k1 + k2) (d1 * 2 ^ k2 + d2) R2"
  by (simp add: stepped_def same_tabs_def power_add algebra_simps)

lemma scale_step:
  assumes inv: "enc_inv base s" and j: "j \<le> 8" and R: "256 \<le> R" "R < 512" "d + R \<le> enc_range s * 2 ^ j"
    and s1: "enc_bs s1 = enc_bs s" "enc_bufferedByte s1 = enc_bufferedByte s"
      "enc_numBufferedBytes s1 = enc_numBufferedBytes s" "enc_bitsLeft s1 = enc_bitsLeft s - int j"
      "enc_low s1 = enc_low s * 2 ^ j + d" "enc_range s1 = R" "same_tabs s s1"
  shows "\<exists>s'. writeOut_if s1 = Some s' \<and> stepped base s s' j d R"
proof -
  have i: "reg_inv base s" "12 \<le> enc_bitsLeft s" "enc_bitsLeft s \<le> 23"
    using inv by (simp_all add: enc_inv_def reg_inv_def)
  have c: "coded base s1 = coded base s" by (simp add: coded_def held_bytes_def s1)
  have n: "nat (32 - enc_bitsLeft s1) = nat (32 - enc_bitsLeft s) + j"
    "nat (28 - enc_bitsLeft s1) = nat (28 - enc_bitsLeft s) + j" using i s1(4) by auto
  have t: "total base s1 = total base s * 2 ^ j + d" "prec base s1 = prec base s + j"
    by (simp_all add: total_def prec_def c n s1(5) power_add algebra_simps)
  have "(enc_low s + enc_range s) * 2 ^ j \<le> (2 ^ nat (32 - enc_bitsLeft s) + 2 ^ nat (28 - enc_bitsLeft s)) * 2 ^ j"
    "(total base s + enc_range s) * 2 ^ j \<le> 2 ^ prec base s * 2 ^ j"
    using i(1) by (simp_all add: reg_inv_def)
  then have "enc_low s1 + R \<le> 2 ^ nat (32 - enc_bitsLeft s1) + 2 ^ nat (28 - enc_bitsLeft s1)"
    "total base s1 + R \<le> 2 ^ prec base s1"
    using R(3) by (simp_all add: n t s1(5) power_add algebra_simps)
  with i j R s1 have inv1: "reg_inv base s1" by (simp add: reg_inv_def)
  show ?thesis
  proof (cases "enc_bitsLeft s1 < 12")
    case True
    from writeOut_law [OF inv1 this] obtain s' where s': "writeOut s1 = Some s'" "reg_inv base s'"
      "same_rest s1 s'" "total base s' = total base s1" "prec base s' = prec base s1"
      "enc_bitsLeft s' = enc_bitsLeft s1 + 8" by blast
    with True R s1 i(2) j t show ?thesis
      by (auto simp: writeOut_if_def stepped_def enc_inv_def same_rest_def same_tabs_def)
  next
    case False
    with inv1 R s1 t show ?thesis by (simp add: writeOut_if_def stepped_def enc_inv_def)
  qed
qed

text \<open>The registers do not wrap.\<close>

lemma no_wrap:
  assumes "enc_inv base s" "j \<le> 8" "d \<le> enc_range s * 2 ^ j"
  shows "enc_low s * 2 ^ j + d < 2 ^ 32"
proof -
  have b: "12 \<le> enc_bitsLeft s" "enc_low s + enc_range s \<le> 2 ^ nat (32 - enc_bitsLeft s) + 2 ^ nat (28 - enc_bitsLeft s)"
    using assms(1) by (simp_all add: enc_inv_def reg_inv_def)
  have "(2 :: nat) ^ nat (32 - enc_bitsLeft s) \<le> 2 ^ 20" "(2 :: nat) ^ nat (28 - enc_bitsLeft s) \<le> 2 ^ 16"
    using b(1) by (intro power_increasing; simp)+
  with b(2) have "enc_low s + enc_range s \<le> 2 ^ 20 + 2 ^ 16" by linarith
  then have "(enc_low s + enc_range s) * 2 ^ j \<le> (2 ^ 20 + 2 ^ 16) * 2 ^ 8"
    using assms(2) by (intro mult_le_mono power_increasing) auto
  with assms(3) show ?thesis by (simp add: algebra_simps)
qed

lemma u32_low:
  assumes "enc_inv base s" "j \<le> 8" "d \<le> enc_range s * 2 ^ j"
  shows "u32 (u32 (push_bit j (enc_low s)) + d) = enc_low s * 2 ^ j + d"
    "u32 (push_bit j (enc_low s)) = enc_low s * 2 ^ j"
  using no_wrap [OF assms] by (simp_all add: push_bit_nat_def take_bit_nat_eq_self)

lemma enc_range_bounds: "enc_inv base s \<Longrightarrow> 256 \<le> enc_range s \<and> enc_range s < 512"
  by (simp add: enc_inv_def)

theorem encodeBinEP_step:
  assumes "enc_inv base s" "bin \<le> 1"
  shows "\<exists>s'. encodeBinEP bin s = Some s' \<and> stepped base s s' 1 (bin * enc_range s) (enc_range s)"
proof -
  have "bin = 0 \<or> bin = 1" using assms(2) by auto
  then show ?thesis
    unfolding encodeBinEP_def Let_def
    using u32_low [OF assms(1), of 1 0] u32_low [OF assms(1), of 1 "enc_range s"] enc_range_bounds [OF assms(1)]
    by (intro scale_step [OF assms(1)]) (auto simp: addEP_def same_tabs_def)
qed

lemma take_bit_split: "take_bit (k + m) b = take_bit k (drop_bit m b) * 2 ^ m + take_bit m b" for b :: nat
  by (simp add: take_bit_nat_def drop_bit_nat_def mod_mult2_eq power_add mult.commute [of "2 ^ k"])

lemma aligned_step:
  "enc_inv base s \<Longrightarrow> enc_range s = 256 \<Longrightarrow>
    \<exists>s'. encodeAlignedBinsEP bins n s = Some s' \<and> stepped base s s' n (take_bit n bins * 256) 256"
proof (induction n arbitrary: s rule: less_induct)
  case (less n)
  show ?case
  proof (cases "n = 0")
    case True
    with less.prems show ?thesis by (simp add: encodeAlignedBinsEP.simps [of _ 0] stepped_def same_tabs_def)
  next
    case False
    define k where "k = min n 8"
    define v where "v = take_bit k (drop_bit (n - k) bins)"
    have k: "0 < k" "k \<le> 8" "k \<le> n" using False by (auto simp: k_def)
    have v: "v < 2 ^ k" by (simp add: v_def)
    have m: "drop_bit (n - k) bins AND (push_bit k 1 - 1) = v"
      using and_mask_nat [of "drop_bit (n - k) bins" k] by (simp add: v_def push_bit_nat_def take_bit_nat_def)
    have d: "v * 256 + 256 \<le> enc_range s * 2 ^ k"
      using v mult_le_mono1 [of "v + 1" "2 ^ k" 256] less.prems(2) by simp
    define s1 where "s1 = s\<lparr>enc_low := u32 (u32 (push_bit k (enc_low s)) + push_bit 8 v),
        enc_bitsLeft := enc_bitsLeft s - int k\<rparr>"
    have "enc_low s1 = enc_low s * 2 ^ k + v * 256"
      using u32_low(1) [OF less.prems(1) k(2), of "v * 256"] d by (simp add: s1_def push_bit_nat_def)
    with scale_step [OF less.prems(1) k(2), of 256 "v * 256" s1] less.prems(2) d obtain s2 where
      s2: "writeOut_if s1 = Some s2" "stepped base s s2 k (v * 256) 256"
      by (auto simp: s1_def same_tabs_def)
    then have i2: "enc_inv base s2" "enc_range s2 = 256" by (simp_all add: stepped_def)
    from less.IH [OF _ i2, of "n - k"] k obtain s3 where
      s3: "encodeAlignedBinsEP bins (n - k) s2 = Some s3" "stepped base s2 s3 (n - k) (take_bit (n - k) bins * 256) 256"
      by auto
    have "take_bit n bins = v * 2 ^ (n - k) + take_bit (n - k) bins"
      using k take_bit_split [of k "n - k" bins] by (simp add: v_def)
    then have "stepped base s s3 n (take_bit n bins * 256) 256"
      using stepped_trans [OF s2(2) s3(2)] k by (simp add: algebra_simps)
    moreover have "encodeAlignedBinsEP bins n s = Some s3"
      unfolding encodeAlignedBinsEP.simps [of bins n s] Let_def k_def [symmetric] m s1_def [symmetric]
      using False s2(1) s3(1) by simp
    ultimately show ?thesis by blast
  qed
qed

lemma chunks_step:
  "enc_inv base s \<Longrightarrow> v < 2 ^ n \<Longrightarrow> v < 2 ^ 32 \<Longrightarrow>
    \<exists>s'. encode_chunks v n s = Some s' \<and> stepped base s s' n (v * enc_range s) (enc_range s)"
proof (induction n arbitrary: s v rule: less_induct)
  case (less n)
  let ?R = "enc_range s"
  have R: "256 \<le> ?R" "?R < 512" using enc_range_bounds [OF less.prems(1)] by auto
  show ?case
  proof (cases "n > 8")
    case False
    then have n: "n \<le> 8" by simp
    have d: "?R * v + ?R \<le> ?R * 2 ^ n"
      using less.prems(2) mult_le_mono2 [of "v + 1" "2 ^ n" ?R] by simp
    define s1 where "s1 = s\<lparr>enc_low := u32 (u32 (push_bit n (enc_low s)) + ?R * v),
        enc_bitsLeft := enc_bitsLeft s - int n\<rparr>"
    have "enc_low s1 = enc_low s * 2 ^ n + ?R * v"
      unfolding s1_def by (simp, rule u32_low(1) [OF less.prems(1) n]) (use d in linarith)
    with scale_step [OF less.prems(1) n R d, of s1] show ?thesis
      using False by (simp add: encode_chunks.simps [of v n] Let_def s1_def same_tabs_def mult.commute)
  next
    case True
    define m where "m = n - 8"
    have n: "n = m + 8" "m < n" using True by (auto simp: m_def)
    define p where "p = v div 2 ^ m"
    have p: "p < 2 ^ 8" using less.prems(2) by (simp add: p_def n power_add less_mult_imp_div_less mult.commute)
    have sub: "sub32 v (push_bit m p) = v mod 2 ^ m"
      using less.prems(3) sub32_ge [of "p * 2 ^ m" v] by (simp add: p_def push_bit_nat_def minus_div_mult_eq_mod)
    have d: "?R * p + ?R \<le> ?R * 2 ^ 8" using p mult_le_mono2 [of "p + 1" "2 ^ 8" ?R] by simp
    define s1 where "s1 = s\<lparr>enc_low := u32 (u32 (push_bit 8 (enc_low s)) + ?R * p),
        enc_bitsLeft := enc_bitsLeft s - 8\<rparr>"
    have "enc_low s1 = enc_low s * 2 ^ 8 + ?R * p"
      using u32_low(1) [OF less.prems(1) order_refl, of "?R * p"] add_leD1 [OF d] unfolding s1_def
      by simp
    with scale_step [OF less.prems(1) order_refl R d, of s1] obtain s2 where
      s2: "writeOut_if s1 = Some s2" "stepped base s s2 8 (?R * p) ?R" by (auto simp: s1_def same_tabs_def)
    then have i2: "enc_inv base s2" "enc_range s2 = ?R" by (simp_all add: stepped_def)
    have "v mod 2 ^ m < 2 ^ 32" using less.prems(3) by (rule le_less_trans [rotated]) simp
    with less.IH [OF n(2) i2(1), of "v mod 2 ^ m"] i2(2) obtain s3 where
      s3: "encode_chunks (v mod 2 ^ m) m s2 = Some s3" "stepped base s2 s3 m (v mod 2 ^ m * ?R) ?R" by auto
    have "(?R * p) * 2 ^ m + v mod 2 ^ m * ?R = v * ?R"
    proof -
      have "v = p * 2 ^ m + v mod 2 ^ m" unfolding p_def by (rule div_mult_mod_eq [symmetric])
      then have "v * ?R = (p * 2 ^ m + v mod 2 ^ m) * ?R" by (rule arg_cong)
      then show ?thesis by (simp add: algebra_simps)
    qed
    then have "stepped base s s3 n (v * ?R) ?R"
      using stepped_trans [OF s2(2) s3(2)] by (simp add: n(1) add.commute)
    moreover have "encode_chunks v n s = Some s3"
      using True s2(1) s3(1) sub by (simp add: encode_chunks.simps [of v n] Let_def drop_bit_nat_def
          s1_def [symmetric] flip: m_def p_def)
    ultimately show ?thesis by blast
  qed
qed

theorem encodeBinsEP_step:
  assumes "enc_inv base s" "v < 2 ^ n" "v < 2 ^ 32"
  shows "\<exists>s'. encodeBinsEP v n s = Some s' \<and> stepped base s s' n (v * enc_range s) (enc_range s)"
proof -
  let ?s = "addEP n s"
  have i: "enc_inv base ?s" "enc_range ?s = enc_range s" using assms(1) by (simp_all add: addEP_def)
  have st: "stepped base ?s s' k d R \<longleftrightarrow> stepped base s s' k d R" for s' k d R
    by (simp add: stepped_def addEP_def same_tabs_def)
  show ?thesis
    using aligned_step [OF i(1), where n = n and bins = v] chunks_step [OF i(1) assms(2,3)] assms(2)
    by (auto simp: encodeBinsEP_def Let_def st i(2) take_bit_nat_eq_self)
qed

lemma trm_range:
  assumes "enc_inv base s"
  obtains r where "enc_range s = r + 2" "254 \<le> r" "r < 510" "sub32 (enc_range s) 2 = r"
proof -
  have R: "256 \<le> enc_range s" "enc_range s < 512" using enc_range_bounds [OF assms] by auto
  then show ?thesis by (intro that [of "enc_range s - 2"]) (simp_all add: sub32_ge)
qed

lemma encodeBinTrm_1:
  assumes "enc_inv base s"
  shows "\<exists>s'. encodeBinTrm 1 s = Some s' \<and> stepped base s s' 7 ((enc_range s - 2) * 2 ^ 7) 256"
proof -
  obtain r where r: "enc_range s = r + 2" "254 \<le> r" "r < 510" "sub32 (enc_range s) 2 = r"
    using assms by (rule trm_range)
  have "enc_low s * 2 ^ 7 + r * 2 ^ 7 < 2 ^ 32"
    by (rule no_wrap [OF assms]) (simp_all add: r(1))
  then have low: "u32 (push_bit 7 (u32 (enc_low s + r))) = enc_low s * 2 ^ 7 + r * 2 ^ 7"
    by (simp add: push_bit_nat_def take_bit_nat_eq_self algebra_simps)
  define s1 where "s1 = (addTrm s)\<lparr>enc_low := u32 (push_bit 7 (u32 (enc_low s + r))), enc_range := push_bit 7 2,
    enc_bitsLeft := enc_bitsLeft s - 7\<rparr>"
  have "encodeBinTrm 1 s = writeOut_if s1"
    by (simp add: encodeBinTrm_def addTrm_def Let_def r(4) s1_def)
  with scale_step [OF assms, of 7 256 "r * 2 ^ 7" s1] r(1,2) low show ?thesis
    by (simp add: s1_def addTrm_def same_tabs_def push_bit_nat_def)
qed

lemma encodeBinTrm_0:
  assumes "enc_inv base s"
  shows "\<exists>s' k. encodeBinTrm 0 s = Some s' \<and> k = (if enc_range s \<ge> 258 then 0 else 1)
    \<and> stepped base s s' k 0 ((enc_range s - 2) * 2 ^ k)"
proof -
  obtain r where r: "enc_range s = r + 2" "254 \<le> r" "r < 510" "sub32 (enc_range s) 2 = r"
    using assms by (rule trm_range)
  show ?thesis
  proof (cases "256 \<le> r")
    case True
    have "encodeBinTrm 0 s = Some ((addTrm s)\<lparr>enc_range := r\<rparr>)"
      using True by (simp add: encodeBinTrm_def addTrm_def Let_def r(4))
    moreover have "stepped base s ((addTrm s)\<lparr>enc_range := r\<rparr>) 0 0 r"
      using assms r(1,3) True by (auto simp: addTrm_def stepped_def enc_inv_def reg_inv_def same_tabs_def)
    ultimately show ?thesis using True r(1) by auto
  next
    case False
    define s1 where "s1 = (addTrm s)\<lparr>enc_low := u32 (push_bit 1 (enc_low s)), enc_range := u32 (push_bit 1 r),
      enc_bitsLeft := enc_bitsLeft s - 1\<rparr>"
    have "encodeBinTrm 0 s = writeOut_if s1"
      using False by (simp add: encodeBinTrm_def addTrm_def Let_def r(4) s1_def)
    moreover have "u32 (push_bit 1 r) = r * 2" using r(3) by (simp add: push_bit_nat_def take_bit_nat_eq_self)
    moreover have "\<exists>s'. writeOut_if s1 = Some s' \<and> stepped base s s' 1 0 (r * 2)"
      using scale_step [OF assms, of 1 "r * 2" 0 s1] u32_low(2) [OF assms, of 1 0] r(1,2) False calculation(2)
      by (simp add: s1_def addTrm_def same_tabs_def)
    ultimately show ?thesis using False r(1) by auto
  qed
qed

lemma enc_align_step:
  assumes "enc_inv base s"
  shows "stepped base s (enc_align s) 0 0 256"
  using assms by (auto simp: stepped_def enc_align_def enc_inv_def reg_inv_def same_tabs_def)

section \<open>Context coded bins\<close>

text \<open>The step of one bin: the interval is split at \<open>range - LPS\<close>.\<close>

definition bin_step :: "('m, 'z) prob_ops_scheme \<Rightarrow> nat \<Rightarrow> 'm \<Rightarrow> nat \<Rightarrow> nat \<times> nat \<times> nat" where
  "bin_step P R m bin =
     (let L = getLPS P m R; r = R - L
      in if bin \<noteq> mps P m then
           (let k = getRenormBitsLPS P L in (k, r * 2 ^ k, L * 2 ^ k))
         else if r < 256 then
           (let k = getRenormBitsRange P r in (k, 0, r * 2 ^ k))
         else (0, 0, r))"

definition tabs_ok :: "('m \<Rightarrow> bool) \<Rightarrow> 'm binenc \<Rightarrow> bool" where
  "tabs_ok valid s \<longleftrightarrow> (\<forall>m\<in>set (enc_ctx s). valid m)
     \<and> length (enc_numBinsCtx s) = length (enc_ctx s)
     \<and> (bs_inUse (enc_binStore s) \<longrightarrow> length (bs_binBuffer (enc_binStore s)) = length (enc_ctx s))"

lemma tabs_ok_same: "same_tabs s s' \<Longrightarrow> tabs_ok valid s' = tabs_ok valid s"
  by (simp add: tabs_ok_def same_tabs_def)

context prob_model
begin

lemma bin_step_bounds:
  assumes "valid m" "256 \<le> R" "R < 512" "bin_step P R m bin = (k, d, R')"
  shows "k \<le> 8" "256 \<le> R'" "R' < 512" "d + R' \<le> R * 2 ^ k"
proof -
  let ?L = "getLPS P m R"
  note L = LPS_range [OF assms(1-3)] LPS_renorm [OF assms(1-3)] MPS_renorm [OF assms(1-3)]
  have "(R - ?L) * 2 ^ k + ?L * 2 ^ k = R * 2 ^ k"
    using L(1) by (simp add: algebra_simps flip: add_mult_distrib2)
  then show "k \<le> 8" "256 \<le> R'" "R' < 512" "d + R' \<le> R * 2 ^ k"
    using assms(2-4) L by (auto simp: bin_step_def Let_def split: if_splits)
qed

lemma bin_registers:
  assumes inv: "enc_inv base s" and m: "valid m" and R: "R = enc_range s"
    and st: "bin_step P R m bin = (k, d, R')" and r: "r = R - getLPS P m R"
    and e0: "enc_range s0 = R" "enc_ctx s0 = enc_ctx s" "enc_low s0 = enc_low s" "enc_bitsLeft s0 = enc_bitsLeft s"
    "enc_binStore s0 = enc_binStore s" "enc_inv base s0" "total base s0 = total base s" "prec base s0 = prec base s"
  shows "\<exists>s2. (let s = s0\<lparr>enc_range := r\<rparr> in
      if bin \<noteq> mps P m then
        let numBits = getRenormBitsLPS P (getLPS P m R)
        in writeOut_if (s\<lparr>enc_bitsLeft := enc_bitsLeft s - int numBits,
             enc_low := u32 (push_bit numBits (u32 (enc_low s + enc_range s))),
             enc_range := u32 (push_bit numBits (getLPS P m R))\<rparr>)
      else if enc_range s < 256 then
        let numBits = getRenormBitsRange P (enc_range s)
        in writeOut_if (s\<lparr>enc_bitsLeft := enc_bitsLeft s - int numBits,
             enc_low := u32 (push_bit numBits (enc_low s)),
             enc_range := u32 (push_bit numBits (enc_range s))\<rparr>)
      else Some s) = Some s2 \<and> stepped base s0 s2 k d R'"
proof -
  have Rb: "256 \<le> R" "R < 512" using enc_range_bounds [OF inv] R by auto
  note b = bin_step_bounds [OF m Rb st]
  have rR: "r \<le> R" by (simp add: r)
  consider "bin \<noteq> mps P m" | "bin = mps P m" "r < 256" | "bin = mps P m" "\<not> r < 256" by blast
  then show ?thesis
  proof cases
    case 1
    then have k: "k = getRenormBitsLPS P (getLPS P m R)" "d = r * 2 ^ k" "R' = getLPS P m R * 2 ^ k"
      using st by (auto simp: bin_step_def Let_def r)
    have a: "enc_low s0 * 2 ^ k + r * 2 ^ k < 2 ^ 32"
      by (rule no_wrap [OF e0(6) b(1)]) (simp add: e0(1) rR)
    have low: "u32 (push_bit k (u32 (enc_low s0 + r))) = enc_low s0 * 2 ^ k + r * 2 ^ k"
    proof -
      have "enc_low s0 + r \<le> (enc_low s0 + r) * 2 ^ k" by simp
      with a have "enc_low s0 + r < 2 ^ 32" by (auto simp only: add_mult_distrib)
      with a show ?thesis by (simp add: push_bit_nat_def take_bit_nat_eq_self add_mult_distrib)
    qed
    have rng: "u32 (push_bit k (getLPS P m R)) = R'" using b(3) k(3) by (simp add: push_bit_nat_def take_bit_nat_eq_self)
    define s1 where "s1 = s0\<lparr>enc_range := r, enc_bitsLeft := enc_bitsLeft s0 - int k,
      enc_low := u32 (push_bit k (u32 (enc_low s0 + r))), enc_range := R'\<rparr>"
    from scale_step [OF e0(6) b(1-3), of d s1] b(4) show ?thesis
      using 1 by (simp add: Let_def s1_def low e0(1) k(2) rng same_tabs_def flip: k(1))
  next
    case 2
    then have k: "k = getRenormBitsRange P r" "d = 0" "R' = r * 2 ^ k"
      using st by (auto simp: bin_step_def Let_def r)
    have low: "u32 (push_bit k (enc_low s0)) = enc_low s0 * 2 ^ k" by (rule u32_low(2) [OF e0(6) b(1), of 0]) simp
    have rng: "u32 (push_bit k r) = R'" using b(3) k(3) by (simp add: push_bit_nat_def take_bit_nat_eq_self)
    define s1 where "s1 = s0\<lparr>enc_range := r, enc_bitsLeft := enc_bitsLeft s0 - int k,
      enc_low := u32 (push_bit k (enc_low s0)), enc_range := R'\<rparr>"
    from scale_step [OF e0(6) b(1-3), of d s1] b(4) show ?thesis
      using 2 by (simp add: Let_def s1_def low e0(1) k(2) rng same_tabs_def flip: k(1))
  next
    case 3
    then have k: "k = 0" "d = 0" "R' = r" using st by (auto simp: bin_step_def Let_def r)
    from e0(6) 3 rR e0(1) Rb have "stepped base s0 (s0\<lparr>enc_range := r\<rparr>) 0 0 r"
      by (auto simp: stepped_def enc_inv_def reg_inv_def same_tabs_def)
    with 3 k show ?thesis by (simp add: Let_def)
  qed
qed

theorem encodeBin_step:
  assumes inv: "enc_inv base s" and tab: "tabs_ok valid s" and c: "c < length (enc_ctx s)" and bin: "bin \<le> 1"
  shows "\<exists>s' k d R. encodeBin P bin c s = Some s' \<and> bin_step P (enc_range s) (enc_ctx s ! c) bin = (k, d, R)
    \<and> enc_inv base s' \<and> total base s' = total base s * 2 ^ k + d \<and> prec base s' = prec base s + k
    \<and> enc_range s' = R \<and> enc_ctx s' = (enc_ctx s)[c := update P (enc_ctx s ! c) bin] \<and> tabs_ok valid s'"
proof -
  let ?m = "enc_ctx s ! c" and ?R = "enc_range s"
  have m: "valid ?m" using tab c by (simp add: tabs_ok_def)
  have R: "256 \<le> ?R" "?R < 512" using enc_range_bounds [OF inv] by auto
  obtain k d R' where st: "bin_step P ?R ?m bin = (k, d, R')" by (cases "bin_step P ?R ?m bin") auto
  note b = bin_step_bounds [OF m R st]
  obtain s0 where s0: "addCtx c s = Some s0" "enc_numBinsCtx s0 = (enc_numBinsCtx s)[c := u32 (enc_numBinsCtx s ! c + 1)]"
    "s0 = s\<lparr>enc_numBinsCtx := enc_numBinsCtx s0\<rparr>"
    using tab c by (simp add: addCtx_def tabs_ok_def)
  have e0: "enc_range s0 = ?R" "enc_ctx s0 = enc_ctx s" "enc_low s0 = enc_low s" "enc_bitsLeft s0 = enc_bitsLeft s"
    "enc_binStore s0 = enc_binStore s" "enc_inv base s0" "total base s0 = total base s" "prec base s0 = prec base s"
    using inv by (subst s0(3); simp)+
  let ?L = "getLPS P ?m ?R"
  define r where "r = ?R - ?L"
  have sub: "sub32 ?R ?L = r" and r: "r \<le> ?R" using LPS_range [OF m R] R by (simp_all add: r_def sub32_ge)
  have "\<exists>s2. (let s = s0\<lparr>enc_range := r\<rparr> in
      if bin \<noteq> mps P ?m then
        let numBits = getRenormBitsLPS P ?L
        in writeOut_if (s\<lparr>enc_bitsLeft := enc_bitsLeft s - int numBits,
             enc_low := u32 (push_bit numBits (u32 (enc_low s + enc_range s))),
             enc_range := u32 (push_bit numBits ?L)\<rparr>)
      else if enc_range s < 256 then
        let numBits = getRenormBitsRange P (enc_range s)
        in writeOut_if (s\<lparr>enc_bitsLeft := enc_bitsLeft s - int numBits,
             enc_low := u32 (push_bit numBits (enc_low s)),
             enc_range := u32 (push_bit numBits (enc_range s))\<rparr>)
      else Some s) = Some s2 \<and> stepped base s0 s2 k d R'" (is "\<exists>s2. ?w = Some s2 \<and> _")
    by (rule bin_registers [OF inv m refl st r_def e0])
  then obtain s2 where s2: "?w = Some s2" "stepped base s0 s2 k d R'" by blast
  then have t2: "enc_ctx s2 = enc_ctx s" "enc_binStore s2 = enc_binStore s" "same_tabs s0 s2"
    using e0 by (simp_all add: stepped_def same_tabs_def)
  obtain st where bst: "bs_addBin bin c (enc_binStore s) = Some st" "bs_inUse st = bs_inUse (enc_binStore s)"
    "length (bs_binBuffer st) = length (bs_binBuffer (enc_binStore s))"
    using tab c by (cases "bs_inUse (enc_binStore s)") (auto simp: bs_addBin_def tabs_ok_def)
  let ?s = "s2\<lparr>enc_ctx := (enc_ctx s)[c := update P ?m bin], enc_binStore := st\<rparr>"
  have "encodeBin P bin c s = Some ?s"
    using s0(1) s2(1) bst(1) c by (simp add: encodeBin_def e0 sub t2 Let_def split: if_splits)
  moreover have "\<forall>m\<in>set ((enc_ctx s)[c := update P ?m bin]). valid m"
    using tab update_valid [OF m bin] set_update_subset_insert [of "enc_ctx s" c] by (auto simp: tabs_ok_def)
  then have "tabs_ok valid ?s"
    using tab bst(2,3) t2(3) s0(2) by (simp add: tabs_ok_def same_tabs_def)
  ultimately show ?thesis
    using st s2(2) e0 by (intro exI [of _ ?s] exI) (auto simp: stepped_def)
qed

end

section \<open>Termination\<close>

text \<open>\<open>finish\<close> writes the number without its last eight bits.\<close>

lemma finish_bytes:
  assumes inv: "reg_inv base s" and c: "c = of_bool (2 ^ nat (32 - enc_bitsLeft s) \<le> enc_low s)"
  shows "\<exists>s1. (if drop_bit (nat (32 - enc_bitsLeft s)) (enc_low s) \<noteq> 0 then do {
          bs \<leftarrow> obs_write (u32 (enc_bufferedByte s + 1)) 8 (enc_bs s);
          (n, bs) \<leftarrow> write_buffered 0 (enc_numBufferedBytes s) bs;
          Some (s\<lparr>enc_bs := bs, enc_numBufferedBytes := n,
                  enc_low := sub32 (enc_low s) (push_bit (nat (32 - enc_bitsLeft s)) 1)\<rparr>)
        } else do {
          bs \<leftarrow> (if enc_numBufferedBytes s > 0 then obs_write (enc_bufferedByte s) 8 (enc_bs s)
                  else Some (enc_bs s));
          (n, bs) \<leftarrow> write_buffered 255 (enc_numBufferedBytes s) bs;
          Some (s\<lparr>enc_bs := bs, enc_numBufferedBytes := n\<rparr>)
        }) = Some s1
    \<and> obs_inv (enc_bs s1) \<and> enc_bitsLeft s1 = enc_bitsLeft s
    \<and> enc_low s1 = enc_low s - c * 2 ^ nat (32 - enc_bitsLeft s)
    \<and> (\<exists>x. out_bits (enc_bs s1) = base @ x \<and> length x = length (coded base s)
         \<and> of_bits x = of_bits (coded base s) + c)"
proof -
  let ?m = "nat (32 - enc_bitsLeft s)" and ?N = "enc_numBufferedBytes s" and ?B = "enc_bufferedByte s"
  have i: "obs_inv (enc_bs s)" "take (length base) (out_bits (enc_bs s)) = base" "?B < 256"
    using inv by (simp_all add: reg_inv_def)
  have len: "length base \<le> length (out_bits (enc_bs s))" by (metis i(2) length_take min.cobounded1)
  define w where "w = drop (length base) (out_bits (enc_bs s))"
  have w: "out_bits (enc_bs s) = base @ w" unfolding w_def by (metis append_take_drop_id i(2))
  have lowb: "enc_low s < 2 ^ 32"
  proof -
    have "4 \<le> enc_bitsLeft s" using inv by (simp add: reg_inv_def)
    then have "(2 :: nat) ^ ?m \<le> 2 ^ 28" "(2 :: nat) ^ nat (28 - enc_bitsLeft s) \<le> 2 ^ 24"
      by (intro power_increasing; simp)+
    then show ?thesis using inv by (simp add: reg_inv_def)
  qed
  show ?thesis
  proof (cases "2 ^ ?m \<le> enc_low s")
    case True
    have N: "0 < ?N" and B: "?B + 1 < 256" using no_lost_carry [OF inv True] i(3) by auto
    have cond: "drop_bit ?m (enc_low s) \<noteq> 0" using True by (simp add: drop_bit_nat_def div_eq_0_iff not_less)
    have u: "u32 (Suc ?B) = Suc ?B" using B by (simp add: take_bit_nat_eq_self)
    from obs_write_byte [OF i(1) B] obtain bs1 where bs1: "obs_write (?B + 1) 8 (enc_bs s) = Some bs1"
      "obs_inv bs1" "out_bits bs1 = out_bits (enc_bs s) @ to_bits 8 (?B + 1)" by auto
    from write_buffered_law [OF bs1(2), of 0 ?N] N obtain bs2 where bs2:
      "write_buffered 0 ?N bs1 = Some (1, bs2)" "obs_inv bs2"
      "out_bits bs2 = out_bits bs1 @ byte_bits (replicate (?N - 1) 0)" by (auto simp: min_def)
    have sub: "sub32 (enc_low s) (2 ^ ?m) = enc_low s - 2 ^ ?m"
      using True lowb by (simp add: sub32_ge)
    let ?x = "w @ byte_bits ((?B + 1) # replicate (?N - 1) 0)"
    have "of_bits ?x = of_bits (coded base s) + 1" "length ?x = length (coded base s)"
      using carry_run [OF B, of "?N - 1"] N
      by (simp_all add: coded_def held_bytes_def of_bits_append del: byte_bits_simps(2) flip: w_def)
    moreover have "out_bits bs2 = base @ ?x" using bs1(3) bs2(3) w by simp
    moreover have "c = 1" using True c by simp
    ultimately show ?thesis
      using cond bs1 bs2 by (auto simp: u sub simp del: byte_bits_simps(2))
  next
    case False
    then have cond: "drop_bit ?m (enc_low s) = 0" by (simp add: drop_bit_nat_def)
    have "\<exists>bs1. (if ?N > 0 then obs_write ?B 8 (enc_bs s) else Some (enc_bs s)) = Some bs1 \<and> obs_inv bs1
        \<and> out_bits bs1 = out_bits (enc_bs s) @ (if ?N > 0 then to_bits 8 ?B else [])"
      using obs_write_byte [OF i(1,3)] i(1) by auto
    then obtain bs1 where bs1: "(if ?N > 0 then obs_write ?B 8 (enc_bs s) else Some (enc_bs s)) = Some bs1"
      "obs_inv bs1" "out_bits bs1 = out_bits (enc_bs s) @ (if ?N > 0 then to_bits 8 ?B else [])" by blast
    from write_buffered_law [OF bs1(2), of 255 ?N] obtain n bs2 where bs2:
      "write_buffered 255 ?N bs1 = Some (n, bs2)" "obs_inv bs2"
      "out_bits bs2 = out_bits bs1 @ byte_bits (replicate (?N - 1) 255)" by auto
    have "out_bits bs2 = base @ coded base s"
      using bs1(3) bs2(3) w by (simp add: coded_def held_bytes_def flip: w_def)
    moreover have "c = 0" using False c by simp
    ultimately show ?thesis using cond bs1 bs2 by auto
  qed
qed

theorem enc_finish_law:
  assumes inv: "reg_inv base s"
  shows "\<exists>s' x. enc_finish s = Some s' \<and> obs_inv (enc_bs s') \<and> out_bits (enc_bs s') = base @ x
    \<and> length x + 8 = prec base s \<and> of_bits x = total base s div 2 ^ 8"
proof -
  define m where "m = nat (32 - enc_bitsLeft s)"
  define c where "c = (of_bool (2 ^ m \<le> enc_low s) :: nat)"
  have b: "enc_bitsLeft s = 32 - int m" "9 \<le> m" "m \<le> 28" "nat (24 - enc_bitsLeft s) = m - 8"
    "nat (28 - enc_bitsLeft s) = m - 4"
    using inv by (auto simp: m_def reg_inv_def)
  from finish_bytes [OF inv c_def [unfolded m_def]] obtain s1 x where s1:
    "obs_inv (enc_bs s1)" "enc_bitsLeft s1 = enc_bitsLeft s" "enc_low s1 = enc_low s - c * 2 ^ m"
    "out_bits (enc_bs s1) = base @ x" "length x = length (coded base s)" "of_bits x = of_bits (coded base s) + c"
    "enc_finish s = do {
       bs \<leftarrow> obs_write (drop_bit 8 (enc_low s1)) (nat (24 - enc_bitsLeft s1)) (enc_bs s1);
       Some (s1\<lparr>enc_bs := bs\<rparr>) }"
    unfolding enc_finish_def m_def [symmetric] by (auto simp: c_def)
  have low: "enc_low s = c * 2 ^ m + enc_low s1" using s1(3) by (auto simp: c_def)
  have "(2 :: nat) ^ (m - 4) \<le> 2 ^ m" by (intro power_increasing) auto
  moreover have "enc_low s < 2 ^ m + 2 ^ (m - 4)"
    using inv b(5) by (simp add: reg_inv_def flip: m_def)
  moreover have "enc_low s1 = (if 2 ^ m \<le> enc_low s then enc_low s - 2 ^ m else enc_low s)"
    using s1(3) by (simp add: c_def)
  ultimately have "enc_low s1 < 2 ^ m"
    by (simp only: split: if_split) linarith
  also have m8: "(2 :: nat) ^ m = 2 ^ (m - 8) * 2 ^ 8"
    using b(2) power_add [of "2 :: nat" "m - 8" 8] by simp
  finally have d: "drop_bit 8 (enc_low s1) < 2 ^ (m - 8)"
    by (simp add: drop_bit_nat_def less_mult_imp_div_less)
  have "m - 8 \<le> 32" using b(3) by arith
  from obs_write_law [OF s1(1) this d] obtain bs where bs: "obs_write (drop_bit 8 (enc_low s1)) (m - 8) (enc_bs s1) = Some bs"
    "obs_inv bs" "out_bits bs = out_bits (enc_bs s1) @ to_bits (m - 8) (drop_bit 8 (enc_low s1))" by auto
  have "total base s = (of_bits x * 2 ^ (m - 8)) * 2 ^ 8 + enc_low s1"
  proof -
    have "total base s = (of_bits (coded base s) + c) * 2 ^ m + enc_low s1"
      by (simp add: total_def low algebra_simps flip: m_def)
    then show ?thesis by (simp add: s1(6) m8)
  qed
  then have "total base s div 2 ^ 8 = of_bits x * 2 ^ (m - 8) + drop_bit 8 (enc_low s1)"
    by (simp add: drop_bit_nat_def)
  moreover have "of_bits (x @ to_bits (m - 8) (drop_bit 8 (enc_low s1)))
      = of_bits x * 2 ^ (m - 8) + drop_bit 8 (enc_low s1)"
    using d by (simp add: of_bits_append)
  moreover have "length (x @ to_bits (m - 8) (drop_bit 8 (enc_low s1))) + 8 = prec base s"
    using b(2) s1(5) by (simp add: prec_def flip: m_def)
  ultimately show ?thesis
    using s1(2,4,7) bs b(4) by (intro exI [of _ "s1\<lparr>enc_bs := bs\<rparr>"] exI [of _ "x @ to_bits (m - 8) (drop_bit 8 (enc_low s1))"]) simp
qed

section \<open>Properties\<close>

text \<open>An encoder on an empty stream, for the examples.\<close>

definition plain_enc :: "nat \<Rightarrow> nat \<Rightarrow> int \<Rightarrow> nat binenc" where
  "plain_enc low rng left = \<lparr>enc_bs = clear, enc_low = low, enc_range = rng, enc_bufferedByte = 255,
     enc_numBufferedBytes = 0, enc_bitsLeft = left, enc_ctx = [], enc_numBinsCtx = [], enc_numBinsEP = 0,
     enc_numBinsTrm = 0, enc_binStore = \<lparr>bs_inUse = False, bs_binBuffer = []\<rparr>\<rparr>"

text \<open>
  C24. \<open>writeOut\<close> moves a byte out of the register, through the held back byte and the run of
  \<open>ff\<close> bytes, without changing the number that the encoder stands for, whether a carry runs or
  not; the invariant of the registers holds afterwards and eight more bits are free.
\<close>

theorem writeOut_keeps_number:
  assumes "reg_inv base s" "enc_bitsLeft s < 12"
  shows "\<exists>s'. writeOut s = Some s' \<and> reg_inv base s' \<and> total base s' = total base s
    \<and> prec base s' = prec base s \<and> enc_range s' = enc_range s \<and> enc_bitsLeft s' = enc_bitsLeft s + 8"
  using writeOut_law [OF assms] by (auto simp: same_rest_def)

theorem writeOut_keeps_number_witness:
  "\<exists>s'. writeOut (plain_enc 4000000 300 10) = Some s' \<and> reg_inv [] s'
    \<and> total [] s' = total [] (plain_enc 4000000 300 10)
    \<and> prec [] s' = prec [] (plain_enc 4000000 300 10) \<and> enc_range s' = enc_range (plain_enc 4000000 300 10)
    \<and> enc_bitsLeft s' = enc_bitsLeft (plain_enc 4000000 300 10) + 8"
  by (rule writeOut_keeps_number)
    (simp_all add: plain_enc_def reg_inv_def total_def prec_def coded_def held_bytes_def)

text \<open>
  C25. \<open>encodeBinsEP\<close> on \<open>n\<close> bypass bins scales the number by \<open>2 ^ n\<close> and adds the bins times the
  range, however the bins are cut into chunks, keeps range and contexts, and never wraps a register.
\<close>

theorem encodeBinsEP_scales:
  assumes "enc_inv base s" "n \<le> 32" "v < 2 ^ n"
  shows "\<exists>s'. encodeBinsEP v n s = Some s' \<and> enc_inv base s' \<and> total base s' = total base s * 2 ^ n + v * enc_range s
    \<and> prec base s' = prec base s + n \<and> enc_range s' = enc_range s \<and> enc_ctx s' = enc_ctx s"
proof -
  have "v < 2 ^ 32" using assms(3) power_increasing [OF assms(2), of "2 :: nat"] by simp
  from encodeBinsEP_step [OF assms(1,3) this] show ?thesis by (auto simp: stepped_def same_tabs_def)
qed

theorem encodeBinsEP_scales_witness:
  "\<exists>s'. encodeBinsEP 123456 20 (plain_enc 77 256 23) = Some s' \<and> enc_inv [] s'
    \<and> total [] s' = total [] (plain_enc 77 256 23) * 2 ^ 20 + 123456 * enc_range (plain_enc 77 256 23)
    \<and> prec [] s' = prec [] (plain_enc 77 256 23) + 20 \<and> enc_range s' = enc_range (plain_enc 77 256 23)
    \<and> enc_ctx s' = enc_ctx (plain_enc 77 256 23)"
  by (rule encodeBinsEP_scales)
    (simp_all add: plain_enc_def enc_inv_def reg_inv_def total_def prec_def coded_def held_bytes_def)

text \<open>
  C26. With the range 256 the shortcut \<open>encodeAlignedBinsEP\<close>, which shifts the bins in, does the
  same to the number as the general code with its multiplication.
\<close>

theorem aligned_bins_equivalent:
  assumes "enc_inv base s" "enc_range s = 256" "n \<le> 32" "v < 2 ^ n"
  shows "\<exists>s1 s2. encodeAlignedBinsEP v n s = Some s1 \<and> encode_chunks v n s = Some s2
    \<and> total base s1 = total base s2 \<and> prec base s1 = prec base s2 \<and> enc_range s1 = enc_range s2"
proof -
  have "v < 2 ^ 32" using assms(4) power_increasing [OF assms(3), of "2 :: nat"] by simp
  from chunks_step [OF assms(1,4) this] aligned_step [OF assms(1,2), of v n] assms(2,4) show ?thesis
    by (fastforce simp: stepped_def take_bit_nat_eq_self)
qed

theorem aligned_bins_equivalent_witness:
  "\<exists>s1 s2. encodeAlignedBinsEP 54321 17 (plain_enc 77 256 23) = Some s1
    \<and> encode_chunks 54321 17 (plain_enc 77 256 23) = Some s2
    \<and> total [] s1 = total [] s2 \<and> prec [] s1 = prec [] s2 \<and> enc_range s1 = enc_range s2"
  by (rule aligned_bins_equivalent)
    (simp_all add: plain_enc_def enc_inv_def reg_inv_def total_def prec_def coded_def held_bytes_def)

end
