(* ===== verification/BinDecoder.thy ===== *)
theory BinDecoder
  imports Contexts BitStream
begin

text \<open>
  The arithmetic decoder: \<open>BinDecoderBase\<close> and \<open>TBinDecoder\<close> of \<open>DecoderLib/BinDecoder.h\<close> and
  \<open>BinDecoder.cpp\<close>.

  The code is a list of bytes.  \<open>dec_pos cb T p s\<close> says that the decoder has consumed the
  number \<open>T\<close> of \<open>p\<close> bits: its register \<open>value\<close> is what the bytes read so far exceed \<open>T\<close> by, at a
  resolution of seven more bits than \<open>p\<close>.
\<close>

section \<open>State and operations\<close>

record 'm bindec =
  dec_bs :: ibs
  dec_range :: nat
  dec_value :: nat
  dec_bitsNeeded :: int
  dec_ctx :: "'m list"

text \<open>
  \<open>start\<close> calls \<open>readByte\<close> twice in one expression; the model takes the left operand first.
\<close>

definition dec_start :: "'m bindec \<Rightarrow> 'm bindec option" where
  "dec_start s = do {
     check_not (in_NumBitsUntilByteAligned (dec_bs s) \<noteq> 0);
     (b0, bs) \<leftarrow> readByte (dec_bs s);
     (b1, bs) \<leftarrow> readByte bs;
     Some (s\<lparr>dec_bs := bs, dec_range := 510, dec_value := u32 (push_bit 8 b0 + b1),
             dec_bitsNeeded := - 8\<rparr>)
   }"

definition dec_finish :: "'m bindec \<Rightarrow> unit option" where
  "dec_finish s = do {
     lastByte \<leftarrow> peekPreviousByte (dec_bs s);
     check_not (u32 (push_bit (nat (8 + dec_bitsNeeded s)) lastByte) AND 255 \<noteq> 128)
   }"

text \<open>\<open>m_Value += readByte() << m_bitsNeeded; m_bitsNeeded -= 8\<close>\<close>

definition read_more :: "'m bindec \<Rightarrow> 'm bindec option" where
  "read_more s =
     (if dec_bitsNeeded s \<ge> 0 then do {
        (b, bs) \<leftarrow> readByte (dec_bs s);
        Some (s\<lparr>dec_bs := bs, dec_value := u32 (dec_value s + push_bit (nat (dec_bitsNeeded s)) b),
                dec_bitsNeeded := dec_bitsNeeded s - 8\<rparr>)
      } else Some s)"

definition decodeBinEP :: "'m bindec \<Rightarrow> (nat \<times> 'm bindec) option" where
  "decodeBinEP s = do {
     let s = s\<lparr>dec_value := u32 (dec_value s + dec_value s), dec_bitsNeeded := dec_bitsNeeded s + 1\<rparr>;
     s \<leftarrow> (if dec_bitsNeeded s \<ge> 0 then do {
            (b, bs) \<leftarrow> readByte (dec_bs s);
            Some (s\<lparr>dec_bs := bs, dec_value := u32 (dec_value s + b), dec_bitsNeeded := - 8\<rparr>)
          } else Some s);
     let SR = u32 (push_bit 7 (dec_range s));
     Some (if dec_value s \<ge> SR then (1, s\<lparr>dec_value := dec_value s - SR\<rparr>) else (0, s))
   }"

function decodeAlignedBinsEP :: "nat \<Rightarrow> nat \<Rightarrow> 'm bindec \<Rightarrow> (nat \<times> 'm bindec) option" where
  "decodeAlignedBinsEP bins remBins s =
     (if remBins > 0 then
        let binsToRead = min remBins 8;
            binMask = push_bit binsToRead 1 - 1;
            newBins = drop_bit (15 - binsToRead) (dec_value s) AND binMask;
            bins = u32 (push_bit binsToRead bins) OR newBins;
            s = s\<lparr>dec_value := u32 (push_bit binsToRead (dec_value s)) AND 32767,
                  dec_bitsNeeded := dec_bitsNeeded s + int binsToRead\<rparr>
        in if dec_bitsNeeded s \<ge> 0 then
             (case readByte (dec_bs s) of None \<Rightarrow> None
              | Some (b, bs) \<Rightarrow>
                  decodeAlignedBinsEP bins (remBins - binsToRead)
                    (s\<lparr>dec_bs := bs, dec_value := dec_value s OR push_bit (nat (dec_bitsNeeded s)) b,
                       dec_bitsNeeded := dec_bitsNeeded s - 8\<rparr>))
           else decodeAlignedBinsEP bins (remBins - binsToRead) s
      else Some (bins, s))"
  by pat_completeness auto

termination
  by (relation "measure (\<lambda>(b, r, s). r)") auto

declare decodeAlignedBinsEP.simps [simp del]

text \<open>\<open>n\<close> passes of the loop that compares with the halved \<open>SR\<close>.\<close>

fun compare_loop :: "nat \<Rightarrow> nat \<Rightarrow> nat \<Rightarrow> nat \<Rightarrow> nat \<times> nat" where
  "compare_loop 0 SR bins val = (bins, val)"
| "compare_loop (Suc n) SR bins val =
     (let bins = u32 (bins + bins); SR = drop_bit 1 SR
      in if val \<ge> SR then compare_loop n SR (u32 (bins + 1)) (val - SR)
         else compare_loop n SR bins val)"

fun decode_chunks :: "nat \<Rightarrow> nat \<Rightarrow> 'm bindec \<Rightarrow> (nat \<times> 'm bindec) option" where
  "decode_chunks bins remBins s =
     (if remBins > 8 then
        (case readByte (dec_bs s) of None \<Rightarrow> None
         | Some (b, bs) \<Rightarrow>
             let val = u32 (u32 (push_bit 8 (dec_value s)) + push_bit (nat (8 + dec_bitsNeeded s)) b);
                 SR = u32 (push_bit 15 (dec_range s));
                 (bins, val) = compare_loop 8 SR bins val
             in decode_chunks bins (remBins - 8) (s\<lparr>dec_bs := bs, dec_value := val\<rparr>))
      else
        (case read_more (s\<lparr>dec_bitsNeeded := dec_bitsNeeded s + int remBins,
                           dec_value := u32 (push_bit remBins (dec_value s))\<rparr>) of None \<Rightarrow> None
         | Some s \<Rightarrow>
             let SR = u32 (push_bit (remBins + 7) (dec_range s));
                 (bins, val) = compare_loop remBins SR bins (dec_value s)
             in Some (bins, s\<lparr>dec_value := val\<rparr>)))"

declare decode_chunks.simps [simp del]

definition decodeBinsEP :: "nat \<Rightarrow> 'm bindec \<Rightarrow> (nat \<times> 'm bindec) option" where
  "decodeBinsEP numBins s =
     (if dec_range s = 256 then decodeAlignedBinsEP 0 numBins s else decode_chunks 0 numBins s)"

definition decodeBinTrm :: "'m bindec \<Rightarrow> (nat \<times> 'm bindec) option" where
  "decodeBinTrm s =
     (let s = s\<lparr>dec_range := sub32 (dec_range s) 2\<rparr>;
          SR = u32 (push_bit 7 (dec_range s))
      in if dec_value s \<ge> SR then Some (1, s)
         else if dec_range s < 256 then
           let s = s\<lparr>dec_range := u32 (dec_range s + dec_range s),
                     dec_value := u32 (dec_value s + dec_value s),
                     dec_bitsNeeded := dec_bitsNeeded s + 1\<rparr>
           in if dec_bitsNeeded s = 0 then do {
                (b, bs) \<leftarrow> readByte (dec_bs s);
                Some (0, s\<lparr>dec_bs := bs, dec_value := u32 (dec_value s + b), dec_bitsNeeded := - 8\<rparr>)
              } else Some (0, s)
         else Some (0, s))"

definition decodeBinsPCM :: "nat \<Rightarrow> 'm bindec \<Rightarrow> (nat \<times> 'm bindec) option" where
  "decodeBinsPCM numBins s = do {
     (bins, bs) \<leftarrow> ibs_read numBins (dec_bs s);
     Some (bins, s\<lparr>dec_bs := bs\<rparr>)
   }"

definition dec_align :: "'m bindec \<Rightarrow> 'm bindec" where
  "dec_align s = s\<lparr>dec_range := 256\<rparr>"

definition dec_getNumBitsRead :: "'m bindec \<Rightarrow> nat" where
  "dec_getNumBitsRead s = nat ((int (numBitsRead (dec_bs s)) + dec_bitsNeeded s) mod 2 ^ 32)"

text \<open>\<open>TBinDecoder::decodeBin\<close>\<close>

definition decodeBin :: "('m, 'z) prob_ops_scheme \<Rightarrow> nat \<Rightarrow> 'm bindec \<Rightarrow> (nat \<times> 'm bindec) option" where
  "decodeBin P ctxId s = do {
     m \<leftarrow> arr_get (dec_ctx s) ctxId;
     let bin = mps P m;
     let LPS = getLPS P m (dec_range s);
     let s = s\<lparr>dec_range := sub32 (dec_range s) LPS\<rparr>;
     let SR = u32 (push_bit 7 (dec_range s));
     (bin, s) \<leftarrow> (if dec_value s < SR then
         if dec_range s < 256 then do {
           let numBits = getRenormBitsRange P (dec_range s);
           s \<leftarrow> read_more (s\<lparr>dec_range := u32 (push_bit numBits (dec_range s)),
                  dec_value := u32 (push_bit numBits (dec_value s)),
                  dec_bitsNeeded := dec_bitsNeeded s + int numBits\<rparr>);
           Some (bin, s)
         } else Some (bin, s)
       else do {
         let bin = sub32 1 bin;
         let numBits = getRenormBitsLPS P LPS;
         s \<leftarrow> read_more (s\<lparr>dec_value := u32 (push_bit numBits (dec_value s - SR)),
                dec_range := u32 (push_bit numBits LPS),
                dec_bitsNeeded := dec_bitsNeeded s + int numBits\<rparr>);
         Some (bin, s)
       });
     Some (bin, s\<lparr>dec_ctx := (dec_ctx s)[ctxId := update P m bin]\<rparr>)
   }"

section \<open>What the register stands for\<close>

definition code_prefix :: "nat list \<Rightarrow> nat \<Rightarrow> nat" where
  "code_prefix cb p = of_bits (take p (byte_bits cb))"

definition dec_pos :: "nat list \<Rightarrow> nat \<Rightarrow> nat \<Rightarrow> 'm bindec \<Rightarrow> bool" where
  "dec_pos cb T p s \<longleftrightarrow> bytes (in_fifo (dec_bs s)) \<and> in_num_held (dec_bs s) = 0
     \<and> (\<exists>pb q j. in_fifo (dec_bs s) = pb @ cb \<and> fifo_idx (dec_bs s) = length pb + q \<and> q \<le> length cb
          \<and> j < 8 \<and> dec_bitsNeeded s = int j - 8 \<and> 8 * q + j = p + 7
          \<and> dec_value s + T * 128 = code_prefix cb (8 * q) * 2 ^ j)"

lemma take_byte_bits: "take (8 * q) (byte_bits cb) = byte_bits (take q cb)"
proof (induction q arbitrary: cb)
  case 0
  then show ?case by simp
next
  case (Suc q)
  then show ?case by (cases cb) auto
qed

lemma code_prefix_byte:
  assumes "bytes cb" "q < length cb"
  shows "code_prefix cb (8 * (q + 1)) = code_prefix cb (8 * q) * 256 + cb ! q"
proof -
  have "code_prefix cb (8 * (q + 1)) = of_bits (byte_bits (take q cb @ [cb ! q]))"
    using assms(2) by (simp only: code_prefix_def take_byte_bits) (simp add: take_Suc_conv_app_nth)
  also have "\<dots> = of_bits (byte_bits (take q cb)) * 256 + cb ! q"
    using bytes_nth [OF assms] by (simp add: of_bits_append)
  finally show ?thesis by (simp only: code_prefix_def take_byte_bits)
qed

lemma code_prefix_split:
  assumes "p + m \<le> 8 * length cb"
  shows "\<exists>r. r < 2 ^ m \<and> code_prefix cb (p + m) = code_prefix cb p * 2 ^ m + r"
proof -
  have "take (p + m) (byte_bits cb) = take p (byte_bits cb) @ take m (drop p (byte_bits cb))"
    by (simp add: take_add)
  then have "code_prefix cb (p + m) = code_prefix cb p * 2 ^ m + of_bits (take m (drop p (byte_bits cb)))"
    using assms by (simp add: code_prefix_def of_bits_append)
  moreover have "of_bits (take m (drop p (byte_bits cb))) < 2 ^ m"
    using of_bits_less [of "take m (drop p (byte_bits cb))"] assms by simp
  ultimately show ?thesis by blast
qed

lemma code_prefix_div: "p + m \<le> 8 * length cb \<Longrightarrow> code_prefix cb (p + m) div 2 ^ m = code_prefix cb p"
  using code_prefix_split [of p m cb] by auto

text \<open>The value, without the bits read ahead.\<close>

lemma dec_value_div:
  assumes "dec_pos cb T p s"
  shows "T \<le> code_prefix cb p" "dec_value s div 128 = code_prefix cb p - T"
proof -
  from assms(1) obtain q j where q: "q \<le> length cb" "j < 8" "8 * q + j = p + 7"
    "dec_value s + T * 128 = code_prefix cb (8 * q) * 2 ^ j" unfolding dec_pos_def by blast
  then have "p + (7 - j) = 8 * q" by simp
  with code_prefix_split [of p "7 - j" cb] q(1) obtain r where
    r: "r < 2 ^ (7 - j)" "code_prefix cb (8 * q) = code_prefix cb p * 2 ^ (7 - j) + r" by auto
  have pw: "(2 :: nat) ^ (7 - j) * 2 ^ j = 128" using q(2) by (simp flip: power_add)
  have e: "dec_value s + T * 128 = code_prefix cb p * 128 + r * 2 ^ j"
  proof -
    have "dec_value s + T * 128 = (code_prefix cb p * 2 ^ (7 - j) + r) * 2 ^ j" using q(4) r(2) by simp
    also have "\<dots> = code_prefix cb p * (2 ^ (7 - j) * 2 ^ j) + r * 2 ^ j" by (simp add: algebra_simps)
    finally show ?thesis unfolding pw .
  qed
  have l: "r * 2 ^ j < 128"
    using r(1) pw mult_less_cancel2 [of r "2 ^ j" "2 ^ (7 - j)"] by simp
  show le: "T \<le> code_prefix cb p"
    using e l by linarith
  have "dec_value s = (code_prefix cb p - T) * 128 + r * 2 ^ j"
    using e le by (simp add: diff_mult_distrib)
  with l show "dec_value s div 128 = code_prefix cb p - T" by simp
qed

lemma dec_value_cmp:
  assumes "dec_pos cb T p s"
  shows "dec_value s < r * 128 \<longleftrightarrow> code_prefix cb p < T + r"
    "r * 128 \<le> dec_value s \<longleftrightarrow> T + r \<le> code_prefix cb p"
proof -
  have "dec_value s < r * 128 \<longleftrightarrow> code_prefix cb p - T < r"
    using dec_value_div(2) [OF assms] by (metis div_less_iff_less_mult zero_less_numeral)
  with dec_value_div(1) [OF assms] show a: "dec_value s < r * 128 \<longleftrightarrow> code_prefix cb p < T + r" by linarith
  show "r * 128 \<le> dec_value s \<longleftrightarrow> T + r \<le> code_prefix cb p" using a by linarith
qed

section \<open>The interval\<close>

definition in_interval :: "nat list \<Rightarrow> nat \<Rightarrow> nat \<Rightarrow> nat \<Rightarrow> bool" where
  "in_interval cb T p R \<longleftrightarrow> bytes cb \<and> p \<le> 8 * length cb \<and> T \<le> code_prefix cb p \<and> code_prefix cb p < T + R"

lemma in_interval_ge:
  assumes "in_interval cb (T * 2 ^ k) (p + k) R'"
  shows "T \<le> code_prefix cb p"
proof -
  have "T * 2 ^ k div 2 ^ k \<le> code_prefix cb (p + k) div 2 ^ k"
    using assms by (intro div_le_mono) (simp add: in_interval_def)
  then show ?thesis using assms code_prefix_div [of p k cb] by (simp add: in_interval_def)
qed

lemma in_interval_lt:
  assumes "in_interval cb T' (p + k) R'" "T' + R' \<le> T * 2 ^ k"
  shows "code_prefix cb p < T"
proof -
  have "code_prefix cb (p + k) < T * 2 ^ k" using assms by (simp add: in_interval_def)
  then have "code_prefix cb (p + k) div 2 ^ k < T" by (simp add: less_mult_imp_div_less)
  then show ?thesis using assms code_prefix_div [of p k cb] by (simp add: in_interval_def)
qed

lemma in_interval_shrink:
  assumes "in_interval cb (T * 2 ^ k + d) (p + k) R'" "d + R' \<le> R * 2 ^ k"
  shows "in_interval cb T p R"
proof -
  have "in_interval cb (T * 2 ^ k) (p + k) (d + R')" using assms(1) by (simp add: in_interval_def)
  then have "T \<le> code_prefix cb p" by (rule in_interval_ge)
  moreover have "code_prefix cb p < T + R"
    by (rule in_interval_lt [OF assms(1)]) (use assms(2) in \<open>simp add: add_mult_distrib\<close>)
  ultimately show ?thesis using assms(1) by (simp add: in_interval_def)
qed

lemma in_interval_value:
  assumes "in_interval cb T p R" "dec_pos cb T p s"
  shows "dec_value s < R * 128"
  using assms by (simp add: dec_value_cmp(1) in_interval_def)

text \<open>Two multiples of the range that hold the same code are the same.\<close>

lemma in_interval_unique:
  assumes "in_interval cb (T + a * R) p R" "T + b * R \<le> code_prefix cb p" "code_prefix cb p < T + b * R + R"
  shows "a = b"
proof -
  have "R > 0" using assms(2,3) by auto
  moreover have "code_prefix cb p - T = a * R + (code_prefix cb p - T - a * R)" "code_prefix cb p - T - a * R < R"
    "code_prefix cb p - T = b * R + (code_prefix cb p - T - b * R)" "code_prefix cb p - T - b * R < R"
    using assms unfolding in_interval_def by linarith+
  ultimately show ?thesis by (metis div_mult_self3 div_less add.commute add.right_neutral not_gr_zero)
qed

section \<open>Reading on\<close>

text \<open>\<open>k\<close> more bits, when the register already holds \<open>T' * 128\<close> less than them.\<close>

lemma read_more_pos:
  assumes pos: "dec_pos cb T p s" and "bytes cb" and k: "k \<le> 8" "p + k \<le> 8 * length cb"
    and s1: "dec_bs s1 = dec_bs s" "dec_bitsNeeded s1 = dec_bitsNeeded s + int k"
      "dec_value s1 + T' * 128 = (dec_value s + T * 128) * 2 ^ k" "dec_value s1 < 2 ^ 31"
  shows "\<exists>s'. read_more s1 = Some s' \<and> dec_pos cb T' (p + k) s'
    \<and> dec_range s' = dec_range s1 \<and> dec_ctx s' = dec_ctx s1
    \<and> (dec_bitsNeeded s1 \<ge> 0 \<longrightarrow> (\<exists>b bs. b < 256 \<and> readByte (dec_bs s1) = Some (b, bs)
         \<and> s' = s1\<lparr>dec_bs := bs, dec_value := dec_value s1 + b * 2 ^ nat (dec_bitsNeeded s1),
             dec_bitsNeeded := dec_bitsNeeded s1 - 8\<rparr>))
    \<and> (dec_bitsNeeded s1 < 0 \<longrightarrow> s' = s1)"
proof -
  from pos obtain pb q j where p: "bytes (in_fifo (dec_bs s))" "in_num_held (dec_bs s) = 0"
    "in_fifo (dec_bs s) = pb @ cb" "fifo_idx (dec_bs s) = length pb + q" "q \<le> length cb" "j < 8"
    "dec_bitsNeeded s = int j - 8" "8 * q + j = p + 7"
    "dec_value s + T * 128 = code_prefix cb (8 * q) * 2 ^ j" unfolding dec_pos_def by blast
  have v: "dec_value s1 + T' * 128 = code_prefix cb (8 * q) * 2 ^ (j + k)"
    unfolding s1(3) p(9) by (simp add: power_add)
  show ?thesis
  proof (cases "j + k < 8")
    case True
    then have "dec_pos cb T' (p + k) s1"
      using p v s1(1,2) unfolding dec_pos_def by (auto intro!: exI [of _ pb] exI [of _ q] exI [of _ "j + k"])
    with True show ?thesis using p(7) s1(2) by (simp add: read_more_def)
  next
    case False
    define i where "i = j + k - 8"
    have i: "j + k = i + 8" "i < 8" using False p(6) k(1) by (auto simp: i_def)
    have bn: "dec_bitsNeeded s1 = int i" using s1(2) p(7) i(1) by simp
    have q: "q < length cb" using p(8) k(2) i by linarith
    define b where "b = cb ! q"
    have b: "b < 256" using bytes_nth [OF assms(2) q] by (simp add: b_def)
    obtain bs where bs: "readByte (dec_bs s1) = Some (b, bs)" "in_fifo bs = pb @ cb" "in_num_held bs = 0"
      "fifo_idx bs = length pb + (q + 1)"
      using p(2-4) q unfolding s1(1) readByte_def by (auto simp: b_def nth_append)
    have "b * 2 ^ i \<le> 255 * 2 ^ 7" using b i(2) by (intro mult_le_mono power_increasing) auto
    then have u: "u32 (dec_value s1 + push_bit i b) = dec_value s1 + b * 2 ^ i"
      using s1(4) by (simp add: push_bit_nat_def take_bit_nat_eq_self)
    have "dec_value s1 + b * 2 ^ i + T' * 128 = code_prefix cb (8 * (q + 1)) * 2 ^ i"
    proof -
      have "(2 :: nat) ^ (j + k) = 256 * 2 ^ i" by (simp add: i(1) power_add)
      then have "dec_value s1 + T' * 128 = code_prefix cb (8 * q) * 256 * 2 ^ i" using v by simp
      moreover have "code_prefix cb (8 * (q + 1)) * 2 ^ i = code_prefix cb (8 * q) * 256 * 2 ^ i + b * 2 ^ i"
        unfolding code_prefix_byte [OF assms(2) q] b_def by (rule add_mult_distrib)
      ultimately show ?thesis by linarith
    qed
    moreover have "8 * (q + 1) + i = p + k + 7" using p(8) i(1) by simp
    ultimately have "dec_pos cb T' (p + k) (s1\<lparr>dec_bs := bs, dec_value := dec_value s1 + b * 2 ^ i,
        dec_bitsNeeded := int i - 8\<rparr>)"
      using p(1,3) bs(2-4) i(2) q unfolding dec_pos_def
      by (intro conjI exI [of _ pb] exI [of _ "q + 1"] exI [of _ i]) simp_all
    with bs(1) b show ?thesis by (simp add: read_more_def bn u)
  qed
qed

lemma dec_pos_frame [simp]:
  "dec_pos cb T p (s\<lparr>dec_range := r\<rparr>) = dec_pos cb T p s"
  "dec_pos cb T p (s\<lparr>dec_ctx := c\<rparr>) = dec_pos cb T p s"
  by (simp_all add: dec_pos_def)

lemma dec_pos_sub:
  assumes "dec_pos cb T p s" "T + d \<le> code_prefix cb p"
  shows "dec_pos cb (T + d) p (s\<lparr>dec_value := dec_value s - d * 128\<rparr>)"
proof -
  have "d * 128 \<le> dec_value s" using dec_value_cmp(2) [OF assms(1)] assms(2) by simp
  then have "dec_value s - d * 128 + (T + d) * 128 = dec_value s + T * 128" by simp
  with assms(1) show ?thesis by (auto simp: dec_pos_def)
qed

lemma bitsNeeded_bounds: "dec_pos cb T p s \<Longrightarrow> - 8 \<le> dec_bitsNeeded s \<and> dec_bitsNeeded s < 0"
  by (auto simp: dec_pos_def)

text \<open>Doubling the value and reading a byte when the eighth bit is needed.\<close>

lemma read_one:
  assumes "dec_bitsNeeded s \<le> 0" "P \<longleftrightarrow> dec_bitsNeeded s \<ge> 0"
  shows "(if P then do {
      (b, bs) \<leftarrow> readByte (dec_bs s);
      Some (s\<lparr>dec_bs := bs, dec_value := u32 (dec_value s + b), dec_bitsNeeded := - 8\<rparr>)
    } else Some s) = read_more s"
proof (cases "dec_bitsNeeded s = 0")
  case True
  with assms(2) show ?thesis by (simp add: read_more_def)
next
  case False
  with assms show ?thesis by (simp add: read_more_def)
qed

lemma value_shift_bound: "v < 512 * 128 \<Longrightarrow> k \<le> 8 \<Longrightarrow> v * 2 ^ k < 2 ^ 31 \<and> u32 (push_bit k v) = v * 2 ^ k"
  for v :: nat
proof -
  assume "v < 512 * 128" "k \<le> 8"
  then have "v * 2 ^ k \<le> 512 * 128 * 2 ^ 8" by (intro mult_le_mono power_increasing) auto
  then show ?thesis by (simp add: push_bit_nat_def take_bit_nat_eq_self)
qed

lemma decodeBinEP_pos:
  assumes pos: "dec_pos cb T p s" and R: "R = dec_range s" "R < 512" and bin: "bin \<le> 1"
    and iv: "in_interval cb (T * 2 + bin * R) (p + 1) R"
  shows "\<exists>s'. decodeBinEP s = Some (bin, s') \<and> dec_pos cb (T * 2 + bin * R) (p + 1) s'
    \<and> dec_range s' = R \<and> dec_ctx s' = dec_ctx s"
proof -
  have "in_interval cb T p R"
    by (rule in_interval_shrink [of _ _ 1]) (use iv bin in \<open>auto simp: le_Suc_eq\<close>)
  note v = in_interval_value [OF this pos]
  then have v2: "u32 (dec_value s + dec_value s) = dec_value s * 2" "dec_value s * 2 < 2 ^ 31"
    using R(2) by (auto intro: take_bit_nat_eq_self simp: mult_2_right)
  define s1 where "s1 = s\<lparr>dec_value := dec_value s * 2, dec_bitsNeeded := dec_bitsNeeded s + 1\<rparr>"
  have "bytes cb" "p + 1 \<le> 8 * length cb" using iv by (simp_all add: in_interval_def)
  from read_more_pos [OF pos this(1) _ this(2), of s1 "T * 2"] v2(2) obtain s2 where
    s2: "read_more s1 = Some s2" "dec_pos cb (T * 2) (p + 1) s2" "dec_range s2 = R" "dec_ctx s2 = dec_ctx s"
    by (auto simp: s1_def R(1) algebra_simps)
  have "dec_bitsNeeded s + 1 \<le> 0" using bitsNeeded_bounds [OF pos] by simp
  then have e: "decodeBinEP s = (let SR = u32 (push_bit 7 (dec_range s2)) in
      Some (if dec_value s2 \<ge> SR then (1, s2\<lparr>dec_value := dec_value s2 - SR\<rparr>) else (0, s2)))"
    using s2(1) read_one [of s1 "dec_bitsNeeded s1 \<ge> 0"]
    unfolding decodeBinEP_def Let_def v2(1) s1_def [symmetric] by (simp add: s1_def)
  have SR: "u32 (push_bit 7 R) = R * 128" using R(2) by (simp add: push_bit_nat_def take_bit_nat_eq_self)
  show ?thesis
  proof (cases "bin = 0")
    case True
    with iv have "\<not> R * 128 \<le> dec_value s2" using dec_value_cmp(2) [OF s2(2), of R] by (simp add: in_interval_def)
    with True s2 e show ?thesis by (simp add: SR)
  next
    case False
    with bin have b: "bin = 1" by simp
    with iv have ge: "T * 2 + R \<le> code_prefix cb (p + 1)" by (simp add: in_interval_def)
    with dec_value_cmp(2) [OF s2(2), of R] have "R * 128 \<le> dec_value s2" by simp
    with b s2 e dec_pos_sub [OF s2(2) ge] show ?thesis by (simp add: SR)
  qed
qed

lemma quotient_pos:
  assumes pos: "dec_pos cb T p s" and iv: "in_interval cb (T + a * R) p R"
  shows "dec_value s div (R * 128) = a" "dec_value s mod (R * 128) = dec_value s - a * R * 128"
    "dec_pos cb (T + a * R) p (s\<lparr>dec_value := dec_value s - a * R * 128\<rparr>)"
proof -
  have "a * R * 128 \<le> dec_value s" "dec_value s < (a * R + R) * 128"
    using iv unfolding dec_value_cmp [OF pos] in_interval_def by simp_all
  then show q: "dec_value s div (R * 128) = a"
    by (intro div_nat_eqI) (simp_all add: algebra_simps)
  show "dec_value s mod (R * 128) = dec_value s - a * R * 128"
    using minus_div_mult_eq_mod [of "dec_value s" "R * 128"] by (simp add: q mult.assoc)
  show "dec_pos cb (T + a * R) p (s\<lparr>dec_value := dec_value s - a * R * 128\<rparr>)"
    using iv by (intro dec_pos_sub [OF pos]) (simp add: in_interval_def)
qed

lemma compare_loop_law:
  "val < S * 2 ^ n \<Longrightarrow> (bins + 1) * 2 ^ n \<le> 2 ^ 32 \<Longrightarrow>
    compare_loop n (S * 2 ^ n) bins val = (bins * 2 ^ n + val div S, val mod S)"
proof (induction n arbitrary: bins val)
  case 0
  then show ?case by simp
next
  case (Suc n)
  have half: "drop_bit 1 (S * 2 ^ Suc n) = S * 2 ^ n" by (simp add: drop_bit_nat_def)
  have "(2 * bins + 2) * 2 ^ n \<le> 2 ^ 32" using Suc.prems(2) by simp
  then have le: "(2 * bins + 1 + 1) * 2 ^ n \<le> 2 ^ 32" "(2 * bins + 1) * 2 ^ n \<le> 2 ^ 32"
    by (simp_all add: algebra_simps)
  have "(2 * bins + 2) * 1 \<le> (2 * bins + 2) * 2 ^ n" by (rule mult_le_mono2) simp
  with le(1) have "2 * bins + 2 \<le> 2 ^ 32" by simp
  then have u: "u32 (bins + bins) = 2 * bins" "u32 (2 * bins + 1) = 2 * bins + 1"
    by (simp_all add: take_bit_nat_eq_self mult_2)
  have e: "compare_loop (Suc n) (S * 2 ^ Suc n) bins val =
      (if S * 2 ^ n \<le> val then compare_loop n (S * 2 ^ n) (2 * bins + 1) (val - S * 2 ^ n)
       else compare_loop n (S * 2 ^ n) (2 * bins) val)"
    unfolding compare_loop.simps Let_def half u ..
  show ?case
  proof (cases "S * 2 ^ n \<le> val")
    case True
    define w where "w = val - S * 2 ^ n"
    have w: "val = w + 2 ^ n * S" "w < S * 2 ^ n" using True Suc.prems(1) by (auto simp: w_def mult.commute)
    then have "0 < S" by (cases S) auto
    then have "val div S = w div S + 2 ^ n" "val mod S = w mod S" unfolding w(1) by simp_all
    with True Suc.IH [OF w(2) le(1)] show ?thesis
      unfolding e by (simp add: w_def [symmetric] algebra_simps)
  next
    case False
    then have "val < S * 2 ^ n" by simp
    from False Suc.IH [OF this le(2)] show ?thesis unfolding e by (simp add: algebra_simps)
  qed
qed

text \<open>\<open>k\<close> bits are shifted in; then the quotient by the range is taken off.\<close>

lemma shift_in:
  assumes pos: "dec_pos cb T p s" and R: "R < 512" "a < 2 ^ k" and k: "k \<le> 8"
    and iv: "in_interval cb (T * 2 ^ k + a * R) (p + k) R"
    and s1: "s1 = s\<lparr>dec_bitsNeeded := dec_bitsNeeded s + int k, dec_value := dec_value s * 2 ^ k\<rparr>"
  shows "dec_value s < R * 128" "u32 (push_bit k (dec_value s)) = dec_value s * 2 ^ k"
    "\<exists>s2. read_more s1 = Some s2 \<and> dec_pos cb (T * 2 ^ k) (p + k) s2
      \<and> dec_range s2 = dec_range s \<and> dec_ctx s2 = dec_ctx s \<and> dec_value s2 < R * 2 ^ k * 128
      \<and> (dec_bitsNeeded s1 \<ge> 0 \<longrightarrow> (\<exists>b bs. b < 256 \<and> readByte (dec_bs s1) = Some (b, bs)
         \<and> s2 = s1\<lparr>dec_bs := bs, dec_value := dec_value s1 + b * 2 ^ nat (dec_bitsNeeded s1),
             dec_bitsNeeded := dec_bitsNeeded s1 - 8\<rparr>))"
proof -
  have "a * R + R \<le> R * 2 ^ k"
    using R(2) mult_le_mono1 [of "a + 1" "2 ^ k" R] by (simp add: algebra_simps)
  then have "in_interval cb T p R" by (rule in_interval_shrink [OF iv])
  from in_interval_value [OF this pos] show v: "dec_value s < R * 128" .
  then have b: "dec_value s < 512 * 128" using R(1) by linarith
  from value_shift_bound [OF b k] show "u32 (push_bit k (dec_value s)) = dec_value s * 2 ^ k" by simp
  have "bytes cb" "p + k \<le> 8 * length cb" using iv by (simp_all add: in_interval_def)
  from read_more_pos [OF pos this(1) k this(2), of s1 "T * 2 ^ k"] value_shift_bound [OF b k] obtain s2 where
    s2: "read_more s1 = Some s2" "dec_pos cb (T * 2 ^ k) (p + k) s2" "dec_range s2 = dec_range s" "dec_ctx s2 = dec_ctx s"
      "dec_bitsNeeded s1 \<ge> 0 \<longrightarrow> (\<exists>b bs. b < 256 \<and> readByte (dec_bs s1) = Some (b, bs)
         \<and> s2 = s1\<lparr>dec_bs := bs, dec_value := dec_value s1 + b * 2 ^ nat (dec_bitsNeeded s1),
             dec_bitsNeeded := dec_bitsNeeded s1 - 8\<rparr>)"
    by (auto simp: s1 algebra_simps)
  moreover have "code_prefix cb (p + k) < T * 2 ^ k + R * 2 ^ k"
    using iv \<open>a * R + R \<le> R * 2 ^ k\<close> by (simp add: in_interval_def)
  then have "dec_value s2 < R * 2 ^ k * 128" using dec_value_cmp(1) [OF s2(2)] by blast
  ultimately show "\<exists>s2. read_more s1 = Some s2 \<and> dec_pos cb (T * 2 ^ k) (p + k) s2
      \<and> dec_range s2 = dec_range s \<and> dec_ctx s2 = dec_ctx s \<and> dec_value s2 < R * 2 ^ k * 128
      \<and> (dec_bitsNeeded s1 \<ge> 0 \<longrightarrow> (\<exists>b bs. b < 256 \<and> readByte (dec_bs s1) = Some (b, bs)
         \<and> s2 = s1\<lparr>dec_bs := bs, dec_value := dec_value s1 + b * 2 ^ nat (dec_bitsNeeded s1),
             dec_bitsNeeded := dec_bitsNeeded s1 - 8\<rparr>))" by blast
qed

lemma scaled_range: "R < 512 \<Longrightarrow> k \<le> 8 \<Longrightarrow> u32 (push_bit (k + 7) R) = R * 128 * 2 ^ k" for R :: nat
proof -
  assume R: "R < 512" "k \<le> 8"
  then have "R * (128 * 2 ^ k) \<le> 511 * (128 * 2 ^ 8)" by (intro mult_le_mono power_increasing) auto
  then have "R * 128 * 2 ^ k < 2 ^ 32" by (simp add: mult.assoc)
  then show ?thesis by (simp add: push_bit_nat_def power_add take_bit_nat_eq_self algebra_simps)
qed

lemma decode_last_chunk:
  assumes pos: "dec_pos cb T p s" and R: "R = dec_range s" "R < 512" and v: "v < 2 ^ n" "n \<le> 8"
    and b: "(bins + 1) * 2 ^ n \<le> 2 ^ 32" and iv: "in_interval cb (T * 2 ^ n + v * R) (p + n) R"
  shows "\<exists>s'. decode_chunks bins n s = Some (bins * 2 ^ n + v, s') \<and> dec_pos cb (T * 2 ^ n + v * R) (p + n) s'
    \<and> dec_range s' = R \<and> dec_ctx s' = dec_ctx s"
proof -
  define s1 where "s1 = s\<lparr>dec_bitsNeeded := dec_bitsNeeded s + int n, dec_value := dec_value s * 2 ^ n\<rparr>"
  note sh = shift_in [OF pos R(2) v iv s1_def]
  from sh(3) obtain s2 where s2: "read_more s1 = Some s2" "dec_pos cb (T * 2 ^ n) (p + n) s2"
    "dec_range s2 = R" "dec_ctx s2 = dec_ctx s" "dec_value s2 < R * 2 ^ n * 128" by (auto simp: R(1))
  note q = quotient_pos [OF s2(2) iv]
  have "dec_value s2 < R * 128 * 2 ^ n" using s2(5) by (simp add: mult_ac)
  from compare_loop_law [OF this b] have
    c: "compare_loop n (R * 128 * 2 ^ n) bins (dec_value s2) = (bins * 2 ^ n + v, dec_value s2 - v * R * 128)"
    by (simp only: q(1,2))
  have "decode_chunks bins n s = Some (bins * 2 ^ n + v, s2\<lparr>dec_value := dec_value s2 - v * R * 128\<rparr>)"
    using v(2) s2(1) unfolding decode_chunks.simps [of bins n s] sh(2) s1_def [symmetric]
    by (simp add: s2(3) scaled_range [OF R(2) v(2)] c)
  with q(3) s2(3,4) show ?thesis by simp
qed

lemma decode_chunks_pos:
  "dec_pos cb T p s \<Longrightarrow> R = dec_range s \<Longrightarrow> R < 512 \<Longrightarrow> v < 2 ^ n \<Longrightarrow> (bins + 1) * 2 ^ n \<le> 2 ^ 32 \<Longrightarrow>
    in_interval cb (T * 2 ^ n + v * R) (p + n) R \<Longrightarrow>
    \<exists>s'. decode_chunks bins n s = Some (bins * 2 ^ n + v, s') \<and> dec_pos cb (T * 2 ^ n + v * R) (p + n) s'
      \<and> dec_range s' = R \<and> dec_ctx s' = dec_ctx s"
proof (induction n arbitrary: s T p v bins rule: less_induct)
  case (less n)
  show ?case
  proof (cases "n > 8")
    case False
    with decode_last_chunk [OF less.prems(1-4) _ less.prems(5,6)] show ?thesis by simp
  next
    case True
    define m where "m = n - 8"
    have n: "n = 8 + m" "m < n" using True by (auto simp: m_def)
    define a b where "a = v div 2 ^ m" and "b = v mod 2 ^ m"
    have v: "v = a * 2 ^ m + b" "b < 2 ^ m" unfolding a_def b_def by (simp_all add: div_mult_mod_eq)
    have a: "a < 2 ^ 8" using less.prems(4) by (simp add: a_def n power_add less_mult_imp_div_less mult.commute)
    have e: "T * 2 ^ n + v * R = (T * 2 ^ 8 + a * R) * 2 ^ m + b * R" "p + n = p + 8 + m"
      by (simp_all add: n(1) v(1) power_add algebra_simps)
    have "b * R + R \<le> R * 2 ^ m" using mult_le_mono1 [of "b + 1" "2 ^ m" R] v(2) by (simp add: algebra_simps)
    then have iv: "in_interval cb (T * 2 ^ 8 + a * R) (p + 8) R"
      using in_interval_shrink less.prems(6) unfolding e by blast
    define s1 where "s1 = s\<lparr>dec_bitsNeeded := dec_bitsNeeded s + int 8, dec_value := dec_value s * 2 ^ 8\<rparr>"
    note sh = shift_in [OF less.prems(1,3) a order_refl iv s1_def]
    have "dec_bitsNeeded s1 \<ge> 0" using bitsNeeded_bounds [OF less.prems(1)] by (simp add: s1_def)
    with sh(3) obtain s2 x bs where s2: "dec_pos cb (T * 2 ^ 8) (p + 8) s2"
      "dec_range s2 = R" "dec_ctx s2 = dec_ctx s" "dec_value s2 < R * 2 ^ 8 * 128" "x < 256"
      "readByte (dec_bs s1) = Some (x, bs)"
      "s2 = s1\<lparr>dec_bs := bs, dec_value := dec_value s1 + x * 2 ^ nat (dec_bitsNeeded s1),
             dec_bitsNeeded := dec_bitsNeeded s1 - 8\<rparr>" by (auto simp: less.prems(2))
    note q = quotient_pos [OF s2(1) iv]
    have R15: "u32 (push_bit 15 R) = R * 128 * 2 ^ 8" using scaled_range [OF less.prems(3), of 8] by simp
    have "R * 128 * 2 ^ 8 < 2 ^ 32" using less.prems(3) by simp
    then have val: "u32 (u32 (push_bit 8 (dec_value s)) + push_bit (nat (8 + dec_bitsNeeded s)) x) = dec_value s2"
      using s2(4,7) unfolding sh(2)
      by (simp add: s1_def push_bit_nat_def take_bit_nat_eq_self add.commute)
    have "(bins + 1) * 2 ^ 8 * 1 \<le> (bins + 1) * 2 ^ 8 * 2 ^ m" by (rule mult_le_mono2) simp
    also have "\<dots> = (bins + 1) * 2 ^ n" by (simp only: n(1) power_add mult.assoc)
    finally have le8: "(bins + 1) * 2 ^ 8 \<le> 2 ^ 32" using less.prems(5) by linarith
    have "dec_value s2 < R * 128 * 2 ^ 8" using s2(4) by simp
    from compare_loop_law [OF this le8] have
      c: "compare_loop 8 (R * 128 * 2 ^ 8) bins (dec_value s2) = (bins * 2 ^ 8 + a, dec_value s2 - a * R * 128)"
      by (simp only: q(1,2))
    define s3 where "s3 = s2\<lparr>dec_value := dec_value s2 - a * R * 128\<rparr>"
    have s3: "s\<lparr>dec_bs := bs, dec_value := dec_value s2 - a * R * 128\<rparr> = s3"
      by (rule bindec.equality) (simp_all add: s3_def s2(7) s1_def)
    have "(bins * 2 ^ 8 + a + 1) * 2 ^ m \<le> (bins + 1) * 2 ^ 8 * 2 ^ m"
      using a by (intro mult_le_mono1) simp
    also have "\<dots> = (bins + 1) * 2 ^ n" by (simp only: n(1) power_add mult.assoc)
    finally have le: "(bins * 2 ^ 8 + a + 1) * 2 ^ m \<le> 2 ^ 32" using less.prems(5) by linarith
    from less.IH [OF n(2) q(3) [folded s3_def] _ less.prems(3) v(2) le] less.prems(6) e s2(2,3)
    obtain s' where s': "decode_chunks (bins * 2 ^ 8 + a) m s3 = Some ((bins * 2 ^ 8 + a) * 2 ^ m + b, s')"
      "dec_pos cb (T * 2 ^ n + v * R) (p + n) s'" "dec_range s' = R" "dec_ctx s' = dec_ctx s"
      by (auto simp: s3_def)
    have "(bins * 2 ^ 8 + a) * 2 ^ m + b = bins * 2 ^ n + v"
      by (simp add: n(1) v(1) power_add algebra_simps)
    moreover have "decode_chunks bins n s = decode_chunks (bins * 2 ^ 8 + a) m s3"
      using True s2(6) unfolding decode_chunks.simps [of bins n s]
      by (simp add: s1_def Let_def val less.prems(2) [symmetric] R15 [simplified] c [simplified] s3 [simplified] m_def)
    ultimately show ?thesis using s' by auto
  qed
qed

text \<open>With the range 256 the quotient is a field of the register.\<close>

lemma multiple_add:
  fixes w x :: nat
  assumes "2 ^ i dvd w" "x < 2 ^ i"
  shows "w OR x = w + x" "i \<le> l \<Longrightarrow> w < 2 ^ l \<Longrightarrow> w + x < 2 ^ l"
proof -
  obtain z where z: "w = 2 ^ i * z" using assms(1) by (auto simp: dvd_def)
  show "w OR x = w + x"
    using or_push [OF assms(2), of z] by (simp add: z push_bit_nat_def mult.commute)
  assume l: "i \<le> l" "w < 2 ^ l"
  have pw: "(2 :: nat) ^ l = 2 ^ i * 2 ^ (l - i)" using l(1) by (simp flip: power_add)
  with l(2) have "z < 2 ^ (l - i)" unfolding z pw by simp
  then have "2 ^ i * (z + 1) \<le> 2 ^ i * 2 ^ (l - i)" by (intro mult_le_mono2) simp
  with assms(2) show "w + x < 2 ^ l" by (simp add: z pw)
qed

lemma value_multiple:
  assumes "dec_pos cb T p s"
  shows "\<exists>j. j < 8 \<and> dec_bitsNeeded s = int j - 8 \<and> 2 ^ j dvd dec_value s"
proof -
  from assms obtain q j where j: "j < 8" "dec_bitsNeeded s = int j - 8"
    "dec_value s + T * 128 = code_prefix cb (8 * q) * 2 ^ j" unfolding dec_pos_def by blast
  have "(2 :: nat) ^ j dvd 128" using le_imp_power_dvd [of j 7 "2 :: nat"] j(1) by simp
  then have "2 ^ j dvd T * 128" by simp
  moreover have "2 ^ j dvd dec_value s + T * 128" unfolding j(3) by simp
  ultimately have "2 ^ j dvd dec_value s" using dvd_add_left_iff by blast
  with j show ?thesis by blast
qed

lemma aligned_chunk:
  assumes pos: "dec_pos cb T p s" and a: "a < 2 ^ k" and k: "k \<le> 8"
    and iv: "in_interval cb (T * 2 ^ k + a * 256) (p + k) 256"
    and s1: "s1 = s\<lparr>dec_value := u32 (push_bit k (dec_value s)) AND 32767,
               dec_bitsNeeded := dec_bitsNeeded s + int k\<rparr>"
  shows "drop_bit (15 - k) (dec_value s) AND (push_bit k 1 - 1) = a"
    "dec_bitsNeeded s1 \<ge> 0 \<Longrightarrow> \<exists>b bs s2. readByte (dec_bs s1) = Some (b, bs)
      \<and> s2 = s1\<lparr>dec_bs := bs, dec_value := dec_value s1 OR push_bit (nat (dec_bitsNeeded s1)) b,
            dec_bitsNeeded := dec_bitsNeeded s1 - 8\<rparr>
      \<and> dec_pos cb (T * 2 ^ k + a * 256) (p + k) s2"
    "dec_bitsNeeded s1 < 0 \<Longrightarrow> dec_pos cb (T * 2 ^ k + a * 256) (p + k) s1"
proof -
  have le: "a * 256 + 256 \<le> 256 * 2 ^ k" using a by simp
  note v = in_interval_value [OF in_interval_shrink [OF iv le] pos]
  define v2 where "v2 = dec_value s * 2 ^ k"
  define n where "n = v2 div 2 ^ 15"
  have u: "u32 (push_bit k (dec_value s)) = v2" "v2 < 2 ^ 31"
    using value_shift_bound [of "dec_value s" k] v k by (simp_all add: v2_def)
  have low: "v2 AND 32767 = v2 mod 2 ^ 15" using and_mask_nat [of v2 15] by simp
  have p15: "(2 :: nat) ^ 15 = 2 ^ (15 - k) * 2 ^ k" using k by (simp flip: power_add)
  have n: "drop_bit (15 - k) (dec_value s) AND (push_bit k 1 - 1) = n"
  proof -
    have "v2 div 2 ^ 15 = dec_value s div 2 ^ (15 - k)" unfolding v2_def p15 by simp
    moreover have "dec_value s div 2 ^ (15 - k) < 2 ^ k"
      using v p15 by (intro less_mult_imp_div_less) (simp add: mult.commute)
    ultimately show ?thesis
      using and_mask_nat [of "drop_bit (15 - k) (dec_value s)" k]
      by (simp add: n_def drop_bit_nat_def push_bit_nat_def)
  qed
  have "v2 mod 2 ^ 15 + n * 2 ^ 15 = v2" unfolding n_def by (rule mod_div_mult_eq)
  then have e: "dec_value s1 + (T * 2 ^ k + n * 256) * 128 = (dec_value s + T * 128) * 2 ^ k"
    unfolding s1 by (simp add: u(1) low) (simp add: v2_def algebra_simps)
  have bc: "bytes cb" "p + k \<le> 8 * length cb" using iv by (simp_all add: in_interval_def)
  have "dec_value s1 \<le> v2" by (simp add: s1 u(1) low)
  then have "dec_value s1 < 2 ^ 31" using u(2) by linarith
  from read_more_pos [OF pos bc(1) k bc(2) _ _ e this] obtain s2 where
    s2: "dec_pos cb (T * 2 ^ k + n * 256) (p + k) s2"
      "dec_bitsNeeded s1 \<ge> 0 \<longrightarrow> (\<exists>b bs. b < 256 \<and> readByte (dec_bs s1) = Some (b, bs)
         \<and> s2 = s1\<lparr>dec_bs := bs, dec_value := dec_value s1 + b * 2 ^ nat (dec_bitsNeeded s1),
             dec_bitsNeeded := dec_bitsNeeded s1 - 8\<rparr>)"
      "dec_bitsNeeded s1 < 0 \<longrightarrow> s2 = s1" by (auto simp: s1)
  from value_multiple [OF pos] obtain j where j: "j < 8" "dec_bitsNeeded s = int j - 8" "2 ^ j dvd dec_value s" by blast
  have "(2 :: nat) ^ (j + k) dvd v2" using j(3) by (simp add: v2_def power_add)
  moreover have "(2 :: nat) ^ (j + k) dvd 2 ^ 15" using j(1) k by (intro le_imp_power_dvd) simp
  moreover have m: "dec_value s1 = v2 mod 2 ^ 15" by (simp add: s1 u(1) low)
  ultimately have dv: "2 ^ (j + k) dvd dec_value s1" by (simp only: dvd_mod)
  have l15: "dec_value s1 < 2 ^ 15" by (simp add: m)
  have val: "dec_value s2 < 2 ^ 15 \<and> (\<forall>b bs. b < 256 \<longrightarrow> dec_bitsNeeded s1 \<ge> 0 \<longrightarrow>
      dec_value s1 OR push_bit (nat (dec_bitsNeeded s1)) b = dec_value s1 + b * 2 ^ nat (dec_bitsNeeded s1))"
  proof (cases "dec_bitsNeeded s1 \<ge> 0")
    case False
    with s2(3) l15 show ?thesis by simp
  next
    case True
    have x: "b * 2 ^ nat (dec_bitsNeeded s1) < 2 ^ (j + k)" if "b < 256" for b :: nat
    proof -
      have "j + k = 8 + nat (dec_bitsNeeded s1)" using True j(2) by (simp add: s1)
      then have "(2 :: nat) ^ (j + k) = 256 * 2 ^ nat (dec_bitsNeeded s1)" by (simp add: power_add)
      with that show ?thesis by simp
    qed
    have "j + k \<le> 15" using j(1) k by simp
    from s2(2) True obtain b where "b < 256" "dec_value s2 = dec_value s1 + b * 2 ^ nat (dec_bitsNeeded s1)" by auto
    with multiple_add(2) [OF dv x \<open>j + k \<le> 15\<close> l15] have "dec_value s2 < 2 ^ 15" by simp
    with multiple_add(1) [OF dv x] show ?thesis by (simp add: push_bit_nat_def)
  qed
  then have "code_prefix cb (p + k) < T * 2 ^ k + n * 256 + 256"
    using dec_value_cmp(1) [OF s2(1), of 256] by simp
  from in_interval_unique [OF iv dec_value_div(1) [OF s2(1)] this] have na: "n = a" by simp
  show "drop_bit (15 - k) (dec_value s) AND (push_bit k 1 - 1) = a" using n na by simp
  show "dec_pos cb (T * 2 ^ k + a * 256) (p + k) s1" if "dec_bitsNeeded s1 < 0" using s2(1,3) na that by simp
  show "\<exists>b bs s2. readByte (dec_bs s1) = Some (b, bs)
      \<and> s2 = s1\<lparr>dec_bs := bs, dec_value := dec_value s1 OR push_bit (nat (dec_bitsNeeded s1)) b,
            dec_bitsNeeded := dec_bitsNeeded s1 - 8\<rparr>
      \<and> dec_pos cb (T * 2 ^ k + a * 256) (p + k) s2" if c: "dec_bitsNeeded s1 \<ge> 0"
  proof -
    from s2(2) c obtain b bs where "b < 256" "readByte (dec_bs s1) = Some (b, bs)"
      "s2 = s1\<lparr>dec_bs := bs, dec_value := dec_value s1 + b * 2 ^ nat (dec_bitsNeeded s1),
             dec_bitsNeeded := dec_bitsNeeded s1 - 8\<rparr>" by blast
    with s2(1) val na c show ?thesis by auto
  qed
qed

lemma decodeAligned_pos:
  "dec_pos cb T p s \<Longrightarrow> dec_range s = 256 \<Longrightarrow> v < 2 ^ n \<Longrightarrow> (bins + 1) * 2 ^ n \<le> 2 ^ 32 \<Longrightarrow>
    in_interval cb (T * 2 ^ n + v * 256) (p + n) 256 \<Longrightarrow>
    \<exists>s'. decodeAlignedBinsEP bins n s = Some (bins * 2 ^ n + v, s') \<and> dec_pos cb (T * 2 ^ n + v * 256) (p + n) s'
      \<and> dec_range s' = 256 \<and> dec_ctx s' = dec_ctx s"
proof (induction n arbitrary: s T p v bins rule: less_induct)
  case (less n)
  show ?case
  proof (cases "n = 0")
    case True
    with less.prems show ?thesis by (simp add: decodeAlignedBinsEP.simps [of bins 0 s])
  next
    case False
    define k m where "k = min n 8" and "m = n - k"
    have n: "n = k + m" "m < n" "k \<le> 8" using False by (auto simp: k_def m_def)
    define a b where "a = v div 2 ^ m" and "b = v mod 2 ^ m"
    have v: "v = a * 2 ^ m + b" "b < 2 ^ m" unfolding a_def b_def by (simp_all add: div_mult_mod_eq)
    have a: "a < 2 ^ k" using less.prems(3) by (simp add: a_def n power_add less_mult_imp_div_less)
    have e: "T * 2 ^ n + v * 256 = (T * 2 ^ k + a * 256) * 2 ^ m + b * 256" "p + n = p + k + m"
      by (simp_all add: n(1) v(1) power_add algebra_simps)
    have "b * 256 + 256 \<le> 256 * 2 ^ m" using v(2) by simp
    then have iv: "in_interval cb (T * 2 ^ k + a * 256) (p + k) 256"
      using in_interval_shrink less.prems(5) unfolding e by blast
    define s1 where "s1 = s\<lparr>dec_value := u32 (push_bit k (dec_value s)) AND 32767,
               dec_bitsNeeded := dec_bitsNeeded s + int k\<rparr>"
    note ch = aligned_chunk [OF less.prems(1) a n(3) iv s1_def]
    have "(bins + 1) * 2 ^ k * 1 \<le> (bins + 1) * 2 ^ k * 2 ^ m" by (rule mult_le_mono2) simp
    also have tn: "\<dots> = (bins + 1) * 2 ^ n" by (simp only: n(1) power_add mult.assoc)
    finally have "bins * 2 ^ k + 2 ^ k \<le> 2 ^ 32" using less.prems(4) by (simp add: add_mult_distrib)
    moreover have "(2 :: nat) ^ k > 0" by simp
    ultimately have "bins * 2 ^ k < 2 ^ 32" by linarith
    then have bb: "u32 (push_bit k bins) OR a = bins * 2 ^ k + a"
      using or_push [OF a, of bins] by (simp add: push_bit_nat_def take_bit_nat_eq_self)
    have "(bins * 2 ^ k + a + 1) * 2 ^ m \<le> (bins + 1) * 2 ^ k * 2 ^ m"
      using a by (intro mult_le_mono1) simp
    then have le: "(bins * 2 ^ k + a + 1) * 2 ^ m \<le> 2 ^ 32" using less.prems(4) tn by linarith
    have res: "(bins * 2 ^ k + a) * 2 ^ m + b = bins * 2 ^ n + v"
      by (simp add: n(1) v(1) power_add algebra_simps)
    have "\<exists>s2. decodeAlignedBinsEP bins n s = decodeAlignedBinsEP (bins * 2 ^ k + a) m s2
        \<and> dec_pos cb (T * 2 ^ k + a * 256) (p + k) s2 \<and> dec_range s2 = 256 \<and> dec_ctx s2 = dec_ctx s"
    proof (cases "dec_bitsNeeded s1 \<ge> 0")
      case True
      from ch(2) [OF True] obtain x bs s2 where s2: "readByte (dec_bs s1) = Some (x, bs)"
        "s2 = s1\<lparr>dec_bs := bs, dec_value := dec_value s1 OR push_bit (nat (dec_bitsNeeded s1)) x,
            dec_bitsNeeded := dec_bitsNeeded s1 - 8\<rparr>"
        "dec_pos cb (T * 2 ^ k + a * 256) (p + k) s2" by blast
      have "decodeAlignedBinsEP bins n s = decodeAlignedBinsEP (bins * 2 ^ k + a) m s2"
        using True False s2(1) unfolding decodeAlignedBinsEP.simps [of bins n s] Let_def k_def [symmetric] ch(1)
          s1_def [symmetric] bb m_def [symmetric] s2(2) by simp
      moreover have "dec_range s2 = 256" "dec_ctx s2 = dec_ctx s"
        using less.prems(2) by (simp_all add: s2(2) s1_def)
      ultimately show ?thesis using s2(3) by blast
    next
      case neg: False
      then have "decodeAlignedBinsEP bins n s = decodeAlignedBinsEP (bins * 2 ^ k + a) m s1"
        using False unfolding decodeAlignedBinsEP.simps [of bins n s] Let_def k_def [symmetric] ch(1)
          s1_def [symmetric] bb m_def [symmetric] by simp
      moreover have "dec_range s1 = 256" "dec_ctx s1 = dec_ctx s"
        using less.prems(2) by (simp_all add: s1_def)
      ultimately show ?thesis using ch(3) neg by force
    qed
    then obtain s2 where s2: "decodeAlignedBinsEP bins n s = decodeAlignedBinsEP (bins * 2 ^ k + a) m s2"
      "dec_pos cb (T * 2 ^ k + a * 256) (p + k) s2" "dec_range s2 = 256" "dec_ctx s2 = dec_ctx s" by blast
    from less.IH [OF n(2) s2(2,3) v(2) le] less.prems(5) show ?thesis
      unfolding e s2(1) res s2(4) by simp
  qed
qed

theorem decodeBinsEP_pos:
  assumes "dec_pos cb T p s" "R = dec_range s" "R < 512" "v < 2 ^ n" "n \<le> 32"
    "in_interval cb (T * 2 ^ n + v * R) (p + n) R"
  shows "\<exists>s'. decodeBinsEP n s = Some (v, s') \<and> dec_pos cb (T * 2 ^ n + v * R) (p + n) s'
    \<and> dec_range s' = R \<and> dec_ctx s' = dec_ctx s"
proof -
  have le: "(0 + 1) * 2 ^ n \<le> (2 :: nat) ^ 32" using power_increasing [OF assms(5), of "2 :: nat"] by simp
  show ?thesis
  proof (cases "R = 256")
    case True
    with decodeAligned_pos [OF assms(1) _ assms(4) le] assms(2,6) show ?thesis by (simp add: decodeBinsEP_def)
  next
    case False
    with decode_chunks_pos [OF assms(1-4) le assms(6)] assms(2) show ?thesis by (simp add: decodeBinsEP_def)
  qed
qed

section \<open>Terminating bins and context coded bins\<close>

lemma decodeBinTrm_0_pos:
  assumes pos: "dec_pos cb T p s" and R: "R = dec_range s" "256 \<le> R" "R < 512"
    and k: "k = (if R \<ge> 258 then 0 else 1)"
    and iv: "in_interval cb (T * 2 ^ k) (p + k) ((R - 2) * 2 ^ k)"
  shows "\<exists>s'. decodeBinTrm s = Some (0, s') \<and> dec_pos cb (T * 2 ^ k) (p + k) s'
    \<and> dec_range s' = (R - 2) * 2 ^ k \<and> dec_ctx s' = dec_ctx s"
proof -
  have sub: "sub32 R 2 = R - 2" using R by (simp add: sub32_ge)
  have SR: "u32 (push_bit 7 (R - 2)) = (R - 2) * 128" using R by (simp add: push_bit_nat_def take_bit_nat_eq_self)
  have "in_interval cb T p (R - 2)" using in_interval_shrink [of cb T k 0 p "(R - 2) * 2 ^ k"] iv by simp
  note v = in_interval_value [OF this pos]
  then have nv: "\<not> (R - 2) * 128 \<le> dec_value s" by simp
  show ?thesis
  proof (cases "R \<ge> 258")
    case True
    then have "\<not> R - 2 < 256" by simp
    then have "decodeBinTrm s = Some (0, s\<lparr>dec_range := R - 2\<rparr>)"
      using nv unfolding decodeBinTrm_def Let_def by (simp add: R(1) [symmetric] sub SR)
    with True pos show ?thesis by (simp add: k)
  next
    case False
    define s1 where "s1 = s\<lparr>dec_range := (R - 2) * 2, dec_value := dec_value s * 2, dec_bitsNeeded := dec_bitsNeeded s + 1\<rparr>"
    have "bytes cb" "p + 1 \<le> 8 * length cb" using iv False by (simp_all add: in_interval_def k)
    moreover have "dec_bs s1 = dec_bs s" "dec_bitsNeeded s1 = dec_bitsNeeded s + int 1"
      "dec_value s1 + T * 2 * 128 = (dec_value s + T * 128) * 2 ^ 1" by (simp_all add: s1_def)
    moreover have "dec_value s1 < 2 ^ 31" using v R(3) by (simp add: s1_def)
    moreover have "dec_range s1 = (R - 2) * 2" "dec_ctx s1 = dec_ctx s" by (simp_all add: s1_def)
    ultimately obtain s2 where
      s2: "read_more s1 = Some s2" "dec_pos cb (T * 2) (p + 1) s2" "dec_range s2 = (R - 2) * 2" "dec_ctx s2 = dec_ctx s"
      using read_more_pos [OF pos, of 1 s1 "T * 2"] by auto
    have d: "u32 (dec_value s + dec_value s) = dec_value s * 2" "u32 (R - 2 + (R - 2)) = (R - 2) * 2"
      using v R(3) by (auto intro: take_bit_nat_eq_self simp: mult_2_right)
    have bn: "dec_bitsNeeded s1 \<le> 0" using bitsNeeded_bounds [OF pos] by (simp add: s1_def)
    then have "dec_bitsNeeded s1 = 0 \<longleftrightarrow> dec_bitsNeeded s1 \<ge> 0" by linarith
    have "R - 2 < 256" using False by simp
    then have "decodeBinTrm s = (if dec_bitsNeeded s1 = 0 then do {
        (b, bs) \<leftarrow> readByte (dec_bs s1);
        Some (0, s1\<lparr>dec_bs := bs, dec_value := u32 (dec_value s1 + b), dec_bitsNeeded := - 8\<rparr>)
      } else Some (0, s1))"
      using nv d unfolding decodeBinTrm_def Let_def by (simp add: R(1) [symmetric] sub SR s1_def)
    also have "\<dots> = (if dec_bitsNeeded s1 = 0 then do {
        (b, bs) \<leftarrow> readByte (dec_bs s1);
        Some (s1\<lparr>dec_bs := bs, dec_value := u32 (dec_value s1 + b), dec_bitsNeeded := - 8\<rparr>)
      } else Some s1) \<bind> (\<lambda>s. Some (0, s))"
      by (simp add: split_def)
    also have "\<dots> = Some (0, s2)" unfolding read_one [OF bn \<open>dec_bitsNeeded s1 = 0 \<longleftrightarrow> _\<close>] s2(1) by simp
    finally show ?thesis using s2 False by (simp add: k)
  qed
qed

lemma decodeBinTrm_1_pos:
  assumes pos: "dec_pos cb T p s" and R: "R = dec_range s" "256 \<le> R" "R < 512"
    and ge: "T + (R - 2) \<le> code_prefix cb p"
  shows "decodeBinTrm s = Some (1, s\<lparr>dec_range := R - 2\<rparr>)"
proof -
  have "sub32 R 2 = R - 2" using R by (simp add: sub32_ge)
  moreover have "u32 (push_bit 7 (R - 2)) = (R - 2) * 128" using R by (simp add: push_bit_nat_def take_bit_nat_eq_self)
  moreover have "(R - 2) * 128 \<le> dec_value s" using dec_value_cmp(2) [OF pos] ge by simp
  ultimately show ?thesis unfolding decodeBinTrm_def Let_def by (simp add: R(1) [symmetric])
qed

lemma dec_start_pos:
  assumes "ibs_inv t" "in_num_held t = 0" "in_fifo t = pb @ cb" "fifo_idx t = length pb" "2 \<le> length cb"
    and "dec_bs s = t"
  shows "\<exists>s'. dec_start s = Some s' \<and> dec_pos cb 0 9 s' \<and> dec_range s' = 510 \<and> dec_ctx s' = dec_ctx s"
proof -
  obtain a b r where cb: "cb = a # b # r" using assms(5) by (cases cb; cases "tl cb") auto
  have bt: "bytes (in_fifo t)" using assms(1) by (simp add: ibs_inv_def)
  then have ab: "a < 256" "b < 256" by (auto simp: assms(3) cb bytes_def)
  have "in_NumBitsUntilByteAligned t = 0" by (simp add: in_NumBitsUntilByteAligned_def assms(2))
  moreover have "u32 (push_bit 8 a + b) = a * 256 + b"
    using ab by (simp add: push_bit_nat_def take_bit_nat_eq_self)
  moreover have "code_prefix cb 16 = a * 256 + b"
    using ab take_byte_bits [of 2 cb] by (simp add: code_prefix_def cb of_bits_append del: of_bits_bytes_Cons)
  ultimately show ?thesis
    using assms(2-4,6) bt
    by (auto simp: dec_start_def readByte_def cb dec_pos_def nth_append
        intro!: exI [of _ pb] exI [of _ 2] exI [of _ "0 :: nat"])
qed

end
