(* ===== verification/Cabac.thy ===== *)
theory Cabac
  imports BinEncoder BinDecoder Codec
begin

text \<open>
  The arithmetic coder and its decoder together.

  The code of a complete stream is a byte list; the encoder has committed to those codes whose
  first \<open>prec\<close> bits lie in its interval, and the decoder is in step with it when it has consumed
  the number \<open>total\<close> of \<open>prec\<close> bits and holds the same range and context models.  This is the
  contract of locale \<open>coupling\<close>, so that the round trips of the bin functions compose as those
  of the syntax elements do.
\<close>

section \<open>Context coded bins\<close>

context prob_model
begin

lemma decodeBin_pos:
  assumes pos: "dec_pos cb T p s" and R: "R = dec_range s" "256 \<le> R" "R < 512"
    and c: "c < length (dec_ctx s)" "m = dec_ctx s ! c" "valid m" "bin \<le> 1"
    and st: "bin_step P R m bin = (k, d, R')"
    and iv: "in_interval cb (T * 2 ^ k + d) (p + k) R'"
  shows "\<exists>s'. decodeBin P c s = Some (bin, s') \<and> dec_pos cb (T * 2 ^ k + d) (p + k) s'
    \<and> dec_range s' = R' \<and> dec_ctx s' = (dec_ctx s)[c := update P m bin]"
proof -
  note b = bin_step_bounds [OF c(3) R(2,3) st]
  define L r where "L = getLPS P m R" and "r = R - L"
  have L: "L < R" using LPS_range [OF c(3) R(2,3)] by (simp add: L_def)
  have sub: "sub32 R L = r" using L R(3) by (simp add: sub32_ge r_def)
  have SR: "u32 (push_bit 7 r) = r * 128" using R(3) by (simp add: r_def push_bit_nat_def take_bit_nat_eq_self)
  have mps: "mps P m \<le> 1" by (rule mps_le [OF c(3)])
  have bc: "bytes cb" "p + k \<le> 8 * length cb" using iv by (simp_all add: in_interval_def)
  have "in_interval cb T p R" by (rule in_interval_shrink [OF iv b(4)])
  from in_interval_value [OF this pos] R(3) have vb: "dec_value s < 512 * 128" by linarith
  have dec: "decodeBin P c s = (if dec_value s < r * 128 then
         if r < 256 then
           read_more (s\<lparr>dec_range := u32 (push_bit (getRenormBitsRange P r) r),
                  dec_value := u32 (push_bit (getRenormBitsRange P r) (dec_value s)),
                  dec_bitsNeeded := dec_bitsNeeded s + int (getRenormBitsRange P r)\<rparr>) \<bind> (\<lambda>s. Some (mps P m, s))
         else Some (mps P m, s\<lparr>dec_range := r\<rparr>)
       else
         read_more (s\<lparr>dec_value := u32 (push_bit (getRenormBitsLPS P L) (dec_value s - r * 128)),
                dec_range := u32 (push_bit (getRenormBitsLPS P L) L),
                dec_bitsNeeded := dec_bitsNeeded s + int (getRenormBitsLPS P L)\<rparr>)
           \<bind> (\<lambda>s. Some (sub32 1 (mps P m), s)))
      \<bind> (\<lambda>(bin, s). Some (bin, s\<lparr>dec_ctx := (dec_ctx s)[c := update P m bin]\<rparr>))"
    using c(1) by (simp add: decodeBin_def Let_def c(2) [symmetric] R(1) [symmetric] L_def [symmetric] sub SR)
  have res: ?thesis if s2: "decodeBin P c s = Some s2 \<bind> (\<lambda>s. Some (bin, s\<lparr>dec_ctx := (dec_ctx s)[c := update P m bin]\<rparr>))"
    "dec_pos cb (T * 2 ^ k + d) (p + k) s2" "dec_range s2 = R'" "dec_ctx s2 = dec_ctx s" for s2
    using s2 by simp
  consider "bin \<noteq> mps P m" | "bin = mps P m" "r < 256" | "bin = mps P m" "\<not> r < 256" by blast
  then show ?thesis
  proof cases
    case 1
    then have k: "k = getRenormBitsLPS P L" "d = r * 2 ^ k" "R' = L * 2 ^ k"
      using st by (auto simp: bin_step_def Let_def r_def L_def)
    have bin: "sub32 1 (mps P m) = bin" using 1 c(4) mps by (auto simp: sub32_ge le_Suc_eq)
    have t: "T * 2 ^ k + d = (T + r) * 2 ^ k" by (simp add: k(2) add_mult_distrib)
    then have ge: "T + r \<le> code_prefix cb p" using in_interval_ge [of cb "T + r" k p R'] iv by simp
    then have nv: "\<not> dec_value s < r * 128" using dec_value_cmp(2) [OF pos, of r] by linarith
    define s1 where "s1 = s\<lparr>dec_value := u32 (push_bit k (dec_value s - r * 128)), dec_range := u32 (push_bit k L),
      dec_bitsNeeded := dec_bitsNeeded s + int k\<rparr>"
    have v: "(dec_value s - r * 128) * 2 ^ k < 2 ^ 31"
      "u32 (push_bit k (dec_value s - r * 128)) = (dec_value s - r * 128) * 2 ^ k"
      using value_shift_bound [of "dec_value s - r * 128" k] vb b(1) by simp_all
    have rng: "u32 (push_bit k L) = R'" using b(3) k(3) by (simp add: push_bit_nat_def take_bit_nat_eq_self)
    from read_more_pos [OF dec_pos_sub [OF pos ge] bc(1) b(1) bc(2), of s1 "(T + r) * 2 ^ k"] v obtain s2 where
      s2: "read_more s1 = Some s2" "dec_pos cb ((T + r) * 2 ^ k) (p + k) s2" "dec_range s2 = R'" "dec_ctx s2 = dec_ctx s"
      by (auto simp: s1_def rng algebra_simps)
    have "decodeBin P c s = Some s2 \<bind> (\<lambda>s. Some (bin, s\<lparr>dec_ctx := (dec_ctx s)[c := update P m bin]\<rparr>))"
      unfolding dec using nv by (simp only: if_False k(1) [symmetric] s1_def [symmetric] s2(1) bin) simp
    from res [OF this] s2(2-4) show ?thesis by (simp add: t)
  next
    case 2
    then have k: "k = getRenormBitsRange P r" "d = 0" "R' = r * 2 ^ k"
      using st by (auto simp: bin_step_def Let_def r_def L_def)
    have "in_interval cb T p r" using in_interval_shrink [of cb T k 0 p "r * 2 ^ k" r] iv by (simp add: k(2,3))
    from in_interval_value [OF this pos] have lt: "dec_value s < r * 128" .
    define s1 where "s1 = s\<lparr>dec_range := u32 (push_bit k r), dec_value := u32 (push_bit k (dec_value s)),
      dec_bitsNeeded := dec_bitsNeeded s + int k\<rparr>"
    note v = value_shift_bound [OF vb b(1)]
    have rng: "u32 (push_bit k r) = R'" using b(3) k(3) by (simp add: push_bit_nat_def take_bit_nat_eq_self)
    from read_more_pos [OF pos bc(1) b(1) bc(2), of s1 "T * 2 ^ k"] v obtain s2 where
      s2: "read_more s1 = Some s2" "dec_pos cb (T * 2 ^ k) (p + k) s2" "dec_range s2 = R'" "dec_ctx s2 = dec_ctx s"
      by (auto simp: s1_def rng algebra_simps)
    have "decodeBin P c s = Some s2 \<bind> (\<lambda>s. Some (bin, s\<lparr>dec_ctx := (dec_ctx s)[c := update P m bin]\<rparr>))"
      unfolding dec using lt 2 by (simp only: if_True k(1) [symmetric] s1_def [symmetric] s2(1)) simp
    from res [OF this] s2(2-4) show ?thesis by (simp add: k(2))
  next
    case 3
    then have k: "k = 0" "d = 0" "R' = r" using st by (auto simp: bin_step_def Let_def r_def L_def)
    have "in_interval cb T p r" using iv by (simp add: k)
    from in_interval_value [OF this pos] have lt: "dec_value s < r * 128" .
    have "decodeBin P c s = Some (s\<lparr>dec_range := r\<rparr>) \<bind> (\<lambda>s. Some (bin, s\<lparr>dec_ctx := (dec_ctx s)[c := update P m bin]\<rparr>))"
      unfolding dec using lt 3 by simp
    from res [OF this] pos show ?thesis by (simp add: k)
  qed
qed

end

section \<open>The contract\<close>

text \<open>\<open>N\<close> is the number of context models.\<close>

definition arith_inv :: "('m \<Rightarrow> bool) \<Rightarrow> nat \<Rightarrow> bits \<Rightarrow> 'm binenc \<Rightarrow> bool" where
  "arith_inv valid N base s \<longleftrightarrow> enc_inv base s \<and> tabs_ok valid s \<and> length (enc_ctx s) = N"

definition arith_ext :: "bits \<Rightarrow> 'm binenc \<Rightarrow> nat list \<Rightarrow> bool" where
  "arith_ext base s cb \<longleftrightarrow> in_interval cb (total base s) (prec base s) (enc_range s)"

definition arith_pos :: "bits \<Rightarrow> 'm binenc \<Rightarrow> 'm bindec \<Rightarrow> nat list \<Rightarrow> bool" where
  "arith_pos base s t cb \<longleftrightarrow> dec_pos cb (total base s) (prec base s) t
     \<and> dec_range t = enc_range s \<and> dec_ctx t = enc_ctx s"

lemma bytes_of_bits: "8 dvd length bs \<Longrightarrow> \<exists>cb. bytes cb \<and> byte_bits cb = bs"
proof (induction "length bs" arbitrary: bs rule: less_induct)
  case less
  show ?case
  proof (cases "bs = []")
    case True
    then show ?thesis by (intro exI [of _ "[]"]) simp
  next
    case False
    then have l: "8 \<le> length bs" using less.prems by (auto dest: dvd_imp_le)
    with False less.prems less.hyps [of "drop 8 bs"] obtain cb where cb: "bytes cb" "byte_bits cb = drop 8 bs"
      by (auto simp: dvd_diff_nat)
    let ?b = "of_bits (take 8 bs)"
    have "?b < 256" "to_bits 8 ?b = take 8 bs"
      using of_bits_less [of "take 8 bs"] to_bits_of_bits [of "take 8 bs" 8] l by simp_all
    with cb show ?thesis by (intro exI [of _ "?b # cb"]) simp
  qed
qed

lemma arith_ext_inhabited:
  assumes "enc_inv base s"
  shows "\<exists>cb. arith_ext base s cb"
proof -
  let ?T = "total base s" and ?p = "prec base s"
  have lt: "?T + enc_range s \<le> 2 ^ ?p" "0 < enc_range s" using assms by (simp_all add: enc_inv_def reg_inv_def)
  have "8 dvd length (to_bits ?p ?T @ replicate ((8 - ?p mod 8) mod 8) False)"
    using align8 [of ?p] by (simp only: length_append length_to_bits length_replicate dvd_eq_mod_eq_0)
  from bytes_of_bits [OF this] obtain cb where cb: "bytes cb"
    "byte_bits cb = to_bits ?p ?T @ replicate ((8 - ?p mod 8) mod 8) False" by blast
  have "length (byte_bits cb) = 8 * length cb" by simp
  then have "?p \<le> 8 * length cb" unfolding cb(2) by simp
  moreover have "code_prefix cb ?p = ?T" using lt by (simp add: code_prefix_def cb(2))
  ultimately show ?thesis using cb(1) lt by (auto simp: arith_ext_def in_interval_def)
qed

locale arith_coder = prob_model P valid
  for P :: "('m, 'z) prob_ops_scheme" and valid :: "'m \<Rightarrow> bool" +
  fixes N :: nat and base :: bits

sublocale arith_coder \<subseteq> coupling "arith_inv valid N base" "arith_ext base" "arith_pos base"
  by unfold_locales (auto simp: arith_inv_def intro: arith_ext_inhabited)

context arith_coder
begin

text \<open>A step of the encoder and the step of the decoder that undoes it.\<close>

lemma codes_step:
  assumes "\<And>s. arith_inv valid N base s \<Longrightarrow> \<exists>s' k d R ms. w s = Some s' \<and> arith_inv valid N base s'
      \<and> total base s' = total base s * 2 ^ k + d \<and> prec base s' = prec base s + k \<and> enc_range s' = R \<and> enc_ctx s' = ms
      \<and> d + R \<le> enc_range s * 2 ^ k
      \<and> (\<forall>cb t. in_interval cb (total base s * 2 ^ k + d) (prec base s + k) R \<longrightarrow> arith_pos base s t cb \<longrightarrow>
           (\<exists>t'. r t = Some (x, t') \<and> dec_pos cb (total base s * 2 ^ k + d) (prec base s + k) t'
              \<and> dec_range t' = R \<and> dec_ctx t' = ms))"
  shows "codes w r x"
proof (rule codesI)
  fix s
  assume "arith_inv valid N base s"
  from assms [OF this] obtain s' k d R ms where s': "w s = Some s'" "arith_inv valid N base s'"
    "total base s' = total base s * 2 ^ k + d" "prec base s' = prec base s + k" "enc_range s' = R" "enc_ctx s' = ms"
    "d + R \<le> enc_range s * 2 ^ k"
    "\<And>cb t. in_interval cb (total base s * 2 ^ k + d) (prec base s + k) R \<Longrightarrow> arith_pos base s t cb \<Longrightarrow>
           \<exists>t'. r t = Some (x, t') \<and> dec_pos cb (total base s * 2 ^ k + d) (prec base s + k) t'
              \<and> dec_range t' = R \<and> dec_ctx t' = ms" by metis
  have "arith_ext base s cb" if "arith_ext base s' cb" for cb
    using that in_interval_shrink [OF _ s'(7)] by (simp add: arith_ext_def s'(3-5))
  moreover have "\<exists>t'. r t = Some (x, t') \<and> arith_pos base s' t' cb" if "arith_ext base s' cb" "arith_pos base s t cb" for t cb
    using that s'(8) [of cb t] by (simp add: arith_ext_def arith_pos_def s'(3-6))
  ultimately show "\<exists>s'. w s = Some s' \<and> arith_inv valid N base s' \<and> (\<forall>F. arith_ext base s' F \<longrightarrow> arith_ext base s F
      \<and> (\<forall>t. arith_pos base s t F \<longrightarrow> (\<exists>t'. r t = Some (x, t') \<and> arith_pos base s' t' F)))"
    using s'(1,2) by blast
qed

text \<open>A step that keeps the models.\<close>

lemma arith_inv_stepped: "arith_inv valid N base s \<Longrightarrow> stepped base s s' k d R \<Longrightarrow> arith_inv valid N base s'"
  using tabs_ok_same [of s s'] by (auto simp: arith_inv_def stepped_def same_tabs_def)

lemma codes_stepped:
  assumes "\<And>s. arith_inv valid N base s \<Longrightarrow> \<exists>s' k d R. w s = Some s' \<and> stepped base s s' k d R
      \<and> d + R \<le> enc_range s * 2 ^ k
      \<and> (\<forall>cb t. in_interval cb (total base s * 2 ^ k + d) (prec base s + k) R \<longrightarrow>
           dec_pos cb (total base s) (prec base s) t \<longrightarrow> dec_range t = enc_range s \<longrightarrow>
           (\<exists>t'. r t = Some (x, t') \<and> dec_pos cb (total base s * 2 ^ k + d) (prec base s + k) t'
              \<and> dec_range t' = R \<and> dec_ctx t' = dec_ctx t))"
  shows "codes w r x"
proof (rule codes_step, goal_cases)
  case (1 s)
  from assms [OF this] obtain s' k d R where s': "w s = Some s'" "stepped base s s' k d R" "d + R \<le> enc_range s * 2 ^ k"
    and r: "\<And>cb t. in_interval cb (total base s * 2 ^ k + d) (prec base s + k) R \<Longrightarrow>
           dec_pos cb (total base s) (prec base s) t \<Longrightarrow> dec_range t = enc_range s \<Longrightarrow>
           \<exists>t'. r t = Some (x, t') \<and> dec_pos cb (total base s * 2 ^ k + d) (prec base s + k) t'
              \<and> dec_range t' = R \<and> dec_ctx t' = dec_ctx t" by metis
  have "arith_inv valid N base s'" "enc_ctx s' = enc_ctx s"
    using arith_inv_stepped [OF 1 s'(2)] s'(2) by (auto simp: stepped_def same_tabs_def)
  moreover have "\<exists>t'. r t = Some (x, t') \<and> dec_pos cb (total base s * 2 ^ k + d) (prec base s + k) t'
              \<and> dec_range t' = R \<and> dec_ctx t' = enc_ctx s"
    if "in_interval cb (total base s * 2 ^ k + d) (prec base s + k) R" "arith_pos base s t cb" for cb t
    using r [OF that(1)] that(2) unfolding arith_pos_def by metis
  ultimately show ?case using s' unfolding stepped_def by blast
qed

lemma inv_bounds: "arith_inv valid N base s \<Longrightarrow> enc_inv base s \<and> 256 \<le> enc_range s \<and> enc_range s < 512"
  using enc_range_bounds by (auto simp: arith_inv_def)

lemma codes_EP: "bin \<le> 1 \<Longrightarrow> codes (encodeBinEP bin) decodeBinEP bin"
proof (rule codes_stepped, goal_cases)
  case (1 s)
  note i = inv_bounds [OF 1(2)]
  from encodeBinEP_step i 1(1) obtain s' where s': "encodeBinEP bin s = Some s'"
    "stepped base s s' 1 (bin * enc_range s) (enc_range s)" by blast
  have "\<exists>t'. decodeBinEP t = Some (bin, t') \<and> dec_pos cb (total base s * 2 ^ 1 + bin * enc_range s) (prec base s + 1) t'
      \<and> dec_range t' = enc_range s \<and> dec_ctx t' = dec_ctx t"
    if "in_interval cb (total base s * 2 ^ 1 + bin * enc_range s) (prec base s + 1) (enc_range s)"
      "dec_pos cb (total base s) (prec base s) t" "dec_range t = enc_range s" for cb t
    using decodeBinEP_pos [OF that(2) that(3) [symmetric] _ 1(1)] that(1) i by simp
  moreover have "bin * enc_range s + enc_range s \<le> enc_range s * 2 ^ 1" using 1(1) by (auto simp: le_Suc_eq)
  ultimately show ?case using s' by blast
qed

lemma scaled_le: "v < 2 ^ n \<Longrightarrow> v * R + R \<le> R * 2 ^ n" for R :: nat
  using mult_le_mono1 [of "v + 1" "2 ^ n" R] by (simp add: algebra_simps)

lemma codes_EPs: "n \<le> 32 \<Longrightarrow> v < 2 ^ n \<Longrightarrow> codes (encodeBinsEP v n) (decodeBinsEP n) v"
proof (rule codes_stepped, goal_cases)
  case (1 s)
  note i = inv_bounds [OF 1(3)]
  have "v < 2 ^ 32" using 1(1,2) power_increasing [OF 1(1), of "2 :: nat"] by simp
  with encodeBinsEP_step i 1(2) obtain s' where s': "encodeBinsEP v n s = Some s'"
    "stepped base s s' n (v * enc_range s) (enc_range s)" by blast
  have "\<exists>t'. decodeBinsEP n t = Some (v, t') \<and> dec_pos cb (total base s * 2 ^ n + v * enc_range s) (prec base s + n) t'
      \<and> dec_range t' = enc_range s \<and> dec_ctx t' = dec_ctx t"
    if "in_interval cb (total base s * 2 ^ n + v * enc_range s) (prec base s + n) (enc_range s)"
      "dec_pos cb (total base s) (prec base s) t" "dec_range t = enc_range s" for cb t
    using decodeBinsEP_pos [OF that(2) that(3) [symmetric] _ 1(2,1)] that(1) i by simp
  with s' scaled_le [OF 1(2)] show ?case by blast
qed

lemma codes_Trm_0: "codes (encodeBinTrm 0) decodeBinTrm 0"
proof (rule codes_stepped, goal_cases)
  case (1 s)
  note i = inv_bounds [OF 1]
  from encodeBinTrm_0 i obtain s' k where s': "encodeBinTrm 0 s = Some s'" "k = (if enc_range s \<ge> 258 then 0 else 1 :: nat)"
    "stepped base s s' k 0 ((enc_range s - 2) * 2 ^ k)" by blast
  have "\<exists>t'. decodeBinTrm t = Some (0, t') \<and> dec_pos cb (total base s * 2 ^ k + 0) (prec base s + k) t'
      \<and> dec_range t' = (enc_range s - 2) * 2 ^ k \<and> dec_ctx t' = dec_ctx t"
    if "in_interval cb (total base s * 2 ^ k + 0) (prec base s + k) ((enc_range s - 2) * 2 ^ k)"
      "dec_pos cb (total base s) (prec base s) t" "dec_range t = enc_range s" for cb t
    using decodeBinTrm_0_pos [OF that(2) that(3) [symmetric] _ _ s'(2)] that(1) i by simp
  moreover have "0 + (enc_range s - 2) * 2 ^ k \<le> enc_range s * 2 ^ k" by simp
  ultimately show ?case using s' by blast
qed

lemma codes_align: "codes (\<lambda>s. Some (enc_align s)) (\<lambda>t. Some ((), dec_align t)) ()"
proof (rule codes_stepped, goal_cases)
  case (1 s)
  note i = inv_bounds [OF 1]
  have "stepped base s (enc_align s) 0 0 256" using enc_align_step i by blast
  moreover have "\<exists>t'. Some ((), dec_align t) = Some ((), t') \<and> dec_pos cb (total base s * 2 ^ 0 + 0) (prec base s + 0) t'
      \<and> dec_range t' = 256 \<and> dec_ctx t' = dec_ctx t"
    if "dec_pos cb (total base s) (prec base s) t" for cb t
    using that by (simp add: dec_align_def)
  moreover have "0 + 256 \<le> enc_range s * 2 ^ 0" using i by simp
  ultimately show ?case by blast
qed

lemma codes_bin: "c < N \<Longrightarrow> bin \<le> 1 \<Longrightarrow> codes (encodeBin P bin c) (decodeBin P c) bin"
proof (rule codes_step, goal_cases)
  case (1 s)
  note i = inv_bounds [OF 1(3)]
  let ?m = "enc_ctx s ! c"
  have tab: "tabs_ok valid s" "length (enc_ctx s) = N" using 1(3) by (simp_all add: arith_inv_def)
  then have m: "valid ?m" using 1(1) by (simp add: tabs_ok_def)
  from encodeBin_step [OF _ tab(1) _ 1(2)] i 1(1) tab(2) obtain s' k d R where s': "encodeBin P bin c s = Some s'"
    "bin_step P (enc_range s) ?m bin = (k, d, R)" "enc_inv base s'" "total base s' = total base s * 2 ^ k + d"
    "prec base s' = prec base s + k" "enc_range s' = R" "enc_ctx s' = (enc_ctx s)[c := update P ?m bin]"
    "tabs_ok valid s'" by blast
  have le: "d + R \<le> enc_range s * 2 ^ k" using bin_step_bounds [OF m _ _ s'(2)] i by blast
  have "\<exists>t'. decodeBin P c t = Some (bin, t') \<and> dec_pos cb (total base s * 2 ^ k + d) (prec base s + k) t'
      \<and> dec_range t' = R \<and> dec_ctx t' = (enc_ctx s)[c := update P ?m bin]"
    if "in_interval cb (total base s * 2 ^ k + d) (prec base s + k) R" "arith_pos base s t cb" for t cb
  proof -
    have t: "dec_pos cb (total base s) (prec base s) t" "enc_range s = dec_range t" "dec_ctx t = enc_ctx s"
      using that(2) by (simp_all add: arith_pos_def)
    from decodeBin_pos [OF t(1,2), of c ?m bin k d R] that(1) i 1(1,2) tab(2) m s'(2) t(3) show ?thesis by simp
  qed
  moreover have "arith_inv valid N base s'" using s'(3,7,8) tab(2) by (simp add: arith_inv_def)
  ultimately show ?case using s'(1,4-7) le by blast
qed

end

text \<open>The bypass bins are a channel for numbers of up to 32 bits.\<close>

sublocale arith_coder \<subseteq> bit_channel "arith_inv valid N base" "arith_ext base" "arith_pos base"
    encodeBinsEP decodeBinsEP 32
proof (unfold_locales, goal_cases)
  case (1 n v)
  then show ?case by (rule codes_EPs)
next
  case (2 m n a b s)
  note i = inv_bounds [OF 2(4)]
  have m: "(2 :: nat) ^ (m + n) \<le> 2 ^ 32" by (rule power_increasing) (use 2(1) in auto)
  have "a * 2 ^ n + b < (a + 1) * 2 ^ n" using 2(3) by simp
  also have "\<dots> \<le> 2 ^ m * 2 ^ n" using 2(2) by (intro mult_le_mono1) simp
  finally have ab: "a * 2 ^ n + b < 2 ^ (m + n)" by (simp add: power_add)
  have "(2 :: nat) ^ m \<le> 2 ^ (m + n)" "(2 :: nat) ^ n \<le> 2 ^ (m + n)" by (intro power_increasing; simp)+
  with m 2(2,3) ab have l: "a < 2 ^ 32" "b < 2 ^ 32" "a * 2 ^ n + b < 2 ^ 32" by linarith+
  from encodeBinsEP_step i 2(2) l(1) obtain s1 where s1: "encodeBinsEP a m s = Some s1"
    "stepped base s s1 m (a * enc_range s) (enc_range s)" by blast
  then have i1: "enc_inv base s1" "enc_range s1 = enc_range s" by (simp_all add: stepped_def)
  from encodeBinsEP_step [OF i1(1) 2(3) l(2)] i1(2) obtain s2 where s2: "encodeBinsEP b n s1 = Some s2"
    "stepped base s1 s2 n (b * enc_range s) (enc_range s)" by auto
  from encodeBinsEP_step i ab l(3) obtain s' where s': "encodeBinsEP (a * 2 ^ n + b) (m + n) s = Some s'"
    "stepped base s s' (m + n) ((a * 2 ^ n + b) * enc_range s) (enc_range s)" by blast
  have st: "stepped base s s2 (m + n) ((a * 2 ^ n + b) * enc_range s) (enc_range s)"
    using stepped_trans [OF s1(2) s2(2)] by (simp add: algebra_simps)
  have "arith_inv valid N base s1" "arith_inv valid N base s'"
    using arith_inv_stepped [OF 2(4)] s1(2) s'(2) by blast+
  moreover have "arith_ext base s' F \<longleftrightarrow> arith_ext base s2 F" "arith_pos base s2 t F \<longleftrightarrow> arith_pos base s' t F" for F t
    using st s'(2) by (auto simp: stepped_def same_tabs_def arith_ext_def arith_pos_def)
  ultimately show ?case using s1(1) s2(1) s'(1) by blast
qed simp

section \<open>A whole slice\<close>

text \<open>\<open>CABACWriter::end_of_slice\<close>, \<open>CABACReader::terminating_bit\<close> and \<open>remaining_bytes\<close>\<close>

definition end_of_slice :: "'m binenc \<Rightarrow> 'm binenc option" where
  "end_of_slice s = do { s \<leftarrow> encodeBinTrm 1 s; enc_finish s }"

definition terminating_bit :: "'m bindec \<Rightarrow> (bool \<times> 'm bindec) option" where
  "terminating_bit t = do {
     (b, t) \<leftarrow> decodeBinTrm t;
     if b \<noteq> 0 then do {
       _ \<leftarrow> dec_finish t;
       (_, bs) \<leftarrow> readOutTrailingBits 0 (dec_bs t);
       Some (True, t\<lparr>dec_bs := bs\<rparr>)
     } else Some (False, t)
   }"

function skip_null_bytes :: "ibs \<Rightarrow> ibs option" where
  "skip_null_bytes bs =
     (if getNumBitsLeft bs \<noteq> 0 then
        (case readByte bs of None \<Rightarrow> None
         | Some (b, bs) \<Rightarrow> if b \<noteq> 0 then None else skip_null_bytes bs)
      else Some bs)"
  by pat_completeness auto

termination
  by (relation "measure (\<lambda>bs. length (in_fifo bs) - fifo_idx bs)")
    (auto simp: readByte_def split: if_splits bind_splits)

declare skip_null_bytes.simps [simp del]

definition remaining_bytes :: "bool \<Rightarrow> 'm bindec \<Rightarrow> 'm bindec option" where
  "remaining_bytes noTrailingBytesExpected t =
     (if noTrailingBytesExpected then do {
        check_not (0 \<noteq> getNumBitsLeft (dec_bs t));
        Some t
      } else do {
        bs \<leftarrow> skip_null_bytes (dec_bs t);
        Some (t\<lparr>dec_bs := bs\<rparr>)
      })"

text \<open>The stop bit is found where the decoder expects it.\<close>

lemma dec_finish_pos:
  assumes pos: "dec_pos cb T p t" and cb: "byte_bits cb = x @ True # replicate z False" "z < 8" "bytes cb"
    and p: "length x + 1 = p"
  shows "dec_finish t = Some ()" "fifo_idx (dec_bs t) = length (in_fifo (dec_bs t))" "in_num_held (dec_bs t) = 0"
proof -
  from pos obtain pb q j where d: "in_num_held (dec_bs t) = 0" "in_fifo (dec_bs t) = pb @ cb"
    "fifo_idx (dec_bs t) = length pb + q" "q \<le> length cb" "j < 8" "dec_bitsNeeded t = int j - 8" "8 * q + j = p + 7"
    unfolding dec_pos_def by blast
  have "8 * length cb = length (byte_bits cb)" by simp
  then have "8 * length cb = p + z" unfolding cb(1) using p by simp
  with d(4,5,7) cb(2) have q: "q = length cb" "z = 7 - j" "0 < q" using p by (presburger, presburger, presburger)
  define last where "last = cb ! (q - 1)"
  have "drop (8 * (q - 1)) (byte_bits cb) = to_bits 8 last"
    using q(1,3) by (cases cb rule: rev_cases) (simp_all add: last_def)
  then have "to_bits 8 last = drop (8 * (q - 1)) x @ True # replicate z False"
    using cb(1) p d(5,7) q(3) by simp
  moreover define y where "y = of_bits (drop (8 * (q - 1)) x)"
  moreover have last: "last < 256" using cb(3) q(1,3) bytes_nth [of cb "q - 1"] by (simp add: last_def)
  moreover have "of_bits (to_bits 8 last) = last" using last by simp
  moreover have "of_bits (replicate z False) = 0" using of_bits_to_bits [of z 0] by (simp add: to_bits_zero)
  ultimately have "last = (2 * y + 1) * 2 ^ z" by (simp add: of_bits_append of_bits_Cons)
  moreover have "(2 :: nat) ^ z * 2 ^ j = 2 ^ 7" using q(2) d(5) by (simp flip: power_add)
  ultimately have sh: "push_bit j last = (2 * y + 1) * 2 ^ 7" unfolding push_bit_nat_def by (metis mult.assoc)
  have "last * 2 ^ j \<le> 255 * 2 ^ 7" using last d(5) by (intro mult_le_mono power_increasing) auto
  then have "u32 (push_bit j last) = push_bit j last" by (simp add: push_bit_nat_def take_bit_nat_eq_self)
  then have "u32 (push_bit j last) AND 255 = ((2 * y + 1) * 2 ^ 7) mod 2 ^ 8"
    using and_mask_nat [of "push_bit j last" 8] by (simp add: sh)
  also have "\<dots> = 128" by (simp add: mod_mult2_eq)
  finally have "u32 (push_bit j last) AND 255 = 128" .
  moreover have "peekPreviousByte (dec_bs t) = Some last"
  proof -
    have "length pb + q - 1 = length pb + (q - 1)" using q(3) by simp
    then show ?thesis using q(3) d(2,3) by (simp only: peekPreviousByte_def last_def nth_append_length_plus) simp
  qed
  ultimately show "dec_finish t = Some ()" using d(6) by (simp add: dec_finish_def)
  show "fifo_idx (dec_bs t) = length (in_fifo (dec_bs t))" "in_num_held (dec_bs t) = 0"
    using d(1-3) q(1) by simp_all
qed

lemma take_byte_list: "take n xs = ys" if "bytes xs" "bytes ys" "take (8 * n) (byte_bits xs) = byte_bits ys"
  using that by (metis byte_bits_inj bytes_take take_byte_bits)

context arith_coder
begin

lemma enc_start_inv':
  assumes "obs_inv (enc_bs s)" "tabs_ok valid s" "length (enc_ctx s) = N" "base = out_bits (enc_bs s)"
  shows "arith_inv valid N base (enc_start s)" "total base (enc_start s) = 0" "prec base (enc_start s) = 9"
    "enc_range (enc_start s) = 510" "enc_ctx (enc_start s) = enc_ctx s"
  using enc_start_inv [OF assms(1)] assms(2-4)
  by (auto simp: arith_inv_def tabs_ok_def enc_start_def bc_reset_def bs_reset_def Let_def)

text \<open>The bytes of a finished slice: the number without its last bit, the stop bit and zeros.\<close>

lemma end_of_slice_bytes:
  assumes s: "arith_inv valid N base s" and al: "base = byte_bits pre" "bytes pre"
  shows "\<exists>s' bs cb x z. end_of_slice s = Some s' \<and> writeByteAlignment (enc_bs s') = Some bs
    \<and> out_fifo bs = pre @ cb \<and> out_num_held bs = 0 \<and> bytes cb \<and> byte_bits cb = x @ True # replicate z False \<and> z < 8
    \<and> length x + 1 = prec base s \<and> of_bits x = (total base s + (enc_range s - 2)) div 2"
proof -
  note i = inv_bounds [OF s]
  from encodeBinTrm_1 i obtain s1 where s1: "encodeBinTrm 1 s = Some s1"
    "stepped base s s1 7 ((enc_range s - 2) * 2 ^ 7) 256" by blast
  then have "reg_inv base s1" by (simp add: stepped_def enc_inv_def)
  from enc_finish_law [OF this] obtain s' x where s': "enc_finish s1 = Some s'" "obs_inv (enc_bs s')"
    "out_bits (enc_bs s') = base @ x" "length x + 8 = prec base s1" "of_bits x = total base s1 div 2 ^ 8" by blast
  from writeByteAlignment_law [OF s'(2)] obtain bs z where bs: "writeByteAlignment (enc_bs s') = Some bs"
    "obs_inv bs" "out_num_held bs = 0" "z < 8" "out_bits bs = out_bits (enc_bs s') @ True # replicate z False" by blast
  have bb: "byte_bits (out_fifo bs) = byte_bits pre @ x @ True # replicate z False"
    using bs(3,5) s'(3) al(1) by (simp add: out_bits_def)
  have bf: "bytes (out_fifo bs)" using bs(2) by (simp add: obs_inv_def)
  define cb where "cb = drop (length pre) (out_fifo bs)"
  have "take (length pre) (out_fifo bs) = pre"
    by (rule take_byte_list [OF bf al(2)]) (use bb in simp)
  then have "out_fifo bs = pre @ cb" unfolding cb_def by (metis append_take_drop_id)
  moreover from this have "bytes cb" "byte_bits cb = x @ True # replicate z False" using bf bb by simp_all
  moreover have "total base s1 div 2 ^ 8 = (total base s + (enc_range s - 2)) div 2"
  proof -
    have "total base s1 = (total base s + (enc_range s - 2)) * 2 ^ 7" using s1(2) by (simp add: stepped_def add_mult_distrib)
    then have "total base s1 div 2 ^ 8 = (total base s + (enc_range s - 2)) * 2 ^ 7 div (2 * 2 ^ 7)" by simp
    then show ?thesis by (simp only: div_mult_mult2 [of "2 ^ 7"]) simp
  qed
  moreover have "length x + 1 = prec base s" using s'(4) s1(2) by (simp add: stepped_def)
  ultimately show ?thesis using s1(1) s'(1,5) bs(1,3,4) by (auto simp: end_of_slice_def)
qed

lemma stop_bit_interval:
  assumes s: "arith_inv valid N base s" and cb: "bytes cb" "byte_bits cb = x @ True # replicate z False"
    and x: "length x + 1 = prec base s" "of_bits x = (total base s + (enc_range s - 2)) div 2"
  shows "arith_ext base s cb" "total base s + (enc_range s - 2) \<le> code_prefix cb (prec base s)"
    "2 \<le> length cb"
proof -
  note i = inv_bounds [OF s]
  have "code_prefix cb (prec base s) = of_bits (x @ [True])"
    by (simp add: code_prefix_def cb(2) flip: x(1))
  then have C: "code_prefix cb (prec base s) = 2 * ((total base s + (enc_range s - 2)) div 2) + 1"
    by (simp add: of_bits_snoc x(2))
  show ge: "total base s + (enc_range s - 2) \<le> code_prefix cb (prec base s)" unfolding C by presburger
  have "code_prefix cb (prec base s) < total base s + enc_range s" 
  proof -
    have "2 * ((total base s + (enc_range s - 2)) div 2) \<le> total base s + (enc_range s - 2)" by simp
    moreover have "total base s + (enc_range s - 2) + 2 = total base s + enc_range s" using i by arith
    ultimately show ?thesis unfolding C by linarith
  qed
  moreover have l: "prec base s \<le> 8 * length cb"
    using arg_cong [OF cb(2), of length] x(1) by simp
  moreover have "total base s \<le> code_prefix cb (prec base s)" using ge by (rule add_leD1)
  ultimately show "arith_ext base s cb" using cb(1) by (simp add: arith_ext_def in_interval_def)
  have "enc_bitsLeft s \<le> 23" using i by (simp add: enc_inv_def reg_inv_def)
  then have "9 \<le> nat (32 - enc_bitsLeft s)" by linarith
  then have "9 \<le> prec base s" by (simp add: prec_def)
  with l show "2 \<le> length cb" by simp
qed

theorem slice_roundtrip:
  assumes c: "codes w r x" and s: "obs_inv (enc_bs s)" "tabs_ok valid s" "length (enc_ctx s) = N"
    "out_num_held (enc_bs s) = 0" "base = out_bits (enc_bs s)"
  shows "\<exists>s1 s2 bs cb. w (enc_start s) = Some s1 \<and> end_of_slice s1 = Some s2
    \<and> writeByteAlignment (enc_bs s2) = Some bs \<and> out_num_held bs = 0 \<and> out_fifo bs = out_fifo (enc_bs s) @ cb \<and> bytes cb
    \<and> (\<forall>t pb. ibs_inv (dec_bs t) \<and> in_num_held (dec_bs t) = 0 \<and> in_fifo (dec_bs t) = pb @ cb
         \<and> fifo_idx (dec_bs t) = length pb \<and> dec_ctx t = enc_ctx s
         \<longrightarrow> (\<exists>t1 t2 t3. dec_start t = Some t1 \<and> r t1 = Some (x, t2) \<and> dec_ctx t2 = enc_ctx s1
               \<and> terminating_bit t2 = Some (True, t3) \<and> getNumBitsLeft (dec_bs t3) = 0))"
proof -
  note st = enc_start_inv' [OF s(1-3,5)]
  from codesE [OF c st(1)] obtain s1 where s1: "w (enc_start s) = Some s1" "arith_inv valid N base s1"
    "\<And>F t. arith_ext base s1 F \<Longrightarrow> arith_pos base (enc_start s) t F \<Longrightarrow> \<exists>t'. r t = Some (x, t') \<and> arith_pos base s1 t' F"
    by metis
  have "base = byte_bits (out_fifo (enc_bs s))" "bytes (out_fifo (enc_bs s))"
    using s(1,4,5) by (simp_all add: out_bits_def obs_inv_def)
  from end_of_slice_bytes [OF s1(2) this] obtain s2 bs cb y z where e: "end_of_slice s1 = Some s2"
    "writeByteAlignment (enc_bs s2) = Some bs" "out_fifo bs = out_fifo (enc_bs s) @ cb" "out_num_held bs = 0"
    "bytes cb" "byte_bits cb = y @ True # replicate z False" "z < 8" "length y + 1 = prec base s1"
    "of_bits y = (total base s1 + (enc_range s1 - 2)) div 2" by blast
  note sb = stop_bit_interval [OF s1(2) e(5,6,8,9)]
  have "\<exists>t1 t2 t3. dec_start t = Some t1 \<and> r t1 = Some (x, t2) \<and> dec_ctx t2 = enc_ctx s1
      \<and> terminating_bit t2 = Some (True, t3) \<and> getNumBitsLeft (dec_bs t3) = 0"
    if t: "ibs_inv (dec_bs t)" "in_num_held (dec_bs t) = 0" "in_fifo (dec_bs t) = pb @ cb"
      "fifo_idx (dec_bs t) = length pb" "dec_ctx t = enc_ctx s" for t pb
  proof -
    from dec_start_pos [OF t(1-4) sb(3) refl] obtain t1 where t1: "dec_start t = Some t1" "dec_pos cb 0 9 t1"
      "dec_range t1 = 510" "dec_ctx t1 = dec_ctx t" by blast
    then have "arith_pos base (enc_start s) t1 cb" using st(2-5) t(5) by (simp add: arith_pos_def)
    from s1(3) [OF sb(1) this] obtain t2 where t2: "r t1 = Some (x, t2)" "arith_pos base s1 t2 cb" by blast
    then have p: "dec_pos cb (total base s1) (prec base s1) t2" "enc_range s1 = dec_range t2" "dec_ctx t2 = enc_ctx s1"
      by (simp_all add: arith_pos_def)
    let ?t = "t2\<lparr>dec_range := enc_range s1 - 2\<rparr>"
    have trm: "decodeBinTrm t2 = Some (1, ?t)"
      using decodeBinTrm_1_pos [OF p(1,2)] sb(2) inv_bounds [OF s1(2)] by simp
    have "dec_pos cb (total base s1) (prec base s1) ?t" using p(1) by simp
    from dec_finish_pos [OF this e(6,7,5,8)]
    have f: "dec_finish ?t = Some ()" "fifo_idx (dec_bs t2) = length (in_fifo (dec_bs t2))" "in_num_held (dec_bs t2) = 0"
      by simp_all
    then have "getNumBitsLeft (dec_bs t2) = 0" by (simp add: getNumBitsLeft_def)
    then have "terminating_bit t2 = Some (True, ?t)"
      using trm f(1) by (simp add: terminating_bit_def readOutTrailingBits.simps [of 0 "dec_bs t2"])
    with t1(1) t2(1) p(3) \<open>getNumBitsLeft (dec_bs t2) = 0\<close> show ?thesis by simp
  qed
  with s1(1) e(1-5) show ?thesis by blast
qed

end

interpretation std: arith_coder BinProbModel_Std std_valid N base for N base
  by unfold_locales

section \<open>Sequences of bins\<close>

datatype bin_op = CtxBin nat nat | EPBin nat | EPBins nat nat | TrmZero | AlignRange

fun encode_op :: "('m, 'z) prob_ops_scheme \<Rightarrow> bin_op \<Rightarrow> 'm binenc \<Rightarrow> 'm binenc option" where
  "encode_op P (CtxBin c b) = encodeBin P b c"
| "encode_op P (EPBin b) = encodeBinEP b"
| "encode_op P (EPBins v n) = encodeBinsEP v n"
| "encode_op P TrmZero = encodeBinTrm 0"
| "encode_op P AlignRange = (\<lambda>s. Some (enc_align s))"

fun decode_op :: "('m, 'z) prob_ops_scheme \<Rightarrow> bin_op \<Rightarrow> 'm bindec \<Rightarrow> (bin_op \<times> 'm bindec) option" where
  "decode_op P (CtxBin c _) = (\<lambda>t. decodeBin P c t \<bind> (\<lambda>(b, t). Some (CtxBin c b, t)))"
| "decode_op P (EPBin _) = (\<lambda>t. decodeBinEP t \<bind> (\<lambda>(b, t). Some (EPBin b, t)))"
| "decode_op P (EPBins _ n) = (\<lambda>t. decodeBinsEP n t \<bind> (\<lambda>(v, t). Some (EPBins v n, t)))"
| "decode_op P TrmZero = (\<lambda>t. decodeBinTrm t \<bind> (\<lambda>(b, t). if b = 0 then Some (TrmZero, t) else None))"
| "decode_op P AlignRange = (\<lambda>t. Some ((), dec_align t) \<bind> (\<lambda>(_, t). Some (AlignRange, t)))"

fun encode_ops :: "('m, 'z) prob_ops_scheme \<Rightarrow> bin_op list \<Rightarrow> 'm binenc \<Rightarrow> 'm binenc option" where
  "encode_ops P [] s = Some s"
| "encode_ops P (e # es) s = encode_op P e s \<bind> encode_ops P es"

fun decode_ops :: "('m, 'z) prob_ops_scheme \<Rightarrow> bin_op list \<Rightarrow> 'm bindec \<Rightarrow> (bin_op list \<times> 'm bindec) option" where
  "decode_ops P [] t = Some ([], t)"
| "decode_ops P (e # es) t = decode_op P e t \<bind> (\<lambda>(x, t). decode_ops P es t \<bind> (\<lambda>(xs, t). Some (x # xs, t)))"

fun op_ok :: "nat \<Rightarrow> bin_op \<Rightarrow> bool" where
  "op_ok N (CtxBin c b) \<longleftrightarrow> c < N \<and> b \<le> 1"
| "op_ok N (EPBin b) \<longleftrightarrow> b \<le> 1"
| "op_ok N (EPBins v n) \<longleftrightarrow> n \<le> 32 \<and> v < 2 ^ n"
| "op_ok N TrmZero \<longleftrightarrow> True"
| "op_ok N AlignRange \<longleftrightarrow> True"

context arith_coder
begin

lemma codes_op: "op_ok N e \<Longrightarrow> codes (encode_op P e) (decode_op P e) e"
proof (cases e)
  case AlignRange
  have "codes (\<lambda>s. Some (enc_align s)) (\<lambda>t. Some ((), dec_align t) \<bind> (\<lambda>(_, t). Some (AlignRange, t))) AlignRange"
    by (rule codes_bind_end [OF codes_align]) (simp add: codes_return)
  then show ?thesis unfolding AlignRange encode_op.simps decode_op.simps .
qed (simp; rule codes_bind_end; (rule codes_bin codes_EP codes_EPs codes_Trm_0)?; simp add: codes_return)+

lemma codes_ops: "list_all (op_ok N) ops \<Longrightarrow> codes (encode_ops P ops) (decode_ops P ops) ops"
proof (induction ops)
  case Nil
  then show ?case by (simp add: codes_return)
next
  case (Cons e es)
  then show ?case
    by (simp, intro codes_bind [OF codes_op] codes_bind_end codes_return) (auto intro: codes_bind_end codes_return)
qed

end

text \<open>A decoder at a place in a stream of bytes, with given context models.\<close>

definition new_dec :: "nat list \<Rightarrow> nat \<Rightarrow> 'm list \<Rightarrow> 'm bindec" where
  "new_dec bs i ctx = \<lparr>dec_bs = (open_stream bs)\<lparr>fifo_idx := i\<rparr>, dec_range = 0, dec_value = 0,
     dec_bitsNeeded = 0, dec_ctx = ctx\<rparr>"

text \<open>
  An encoder between two slices: valid context models and a byte aligned output.  Then a writer
  followed by \<open>end_of_slice\<close> and byte alignment appends bytes from which the reader, at any place
  where they stand last, gets the value, the context states of the writer, and the end.
\<close>

definition enc_ready :: "nat binenc \<Rightarrow> bool" where
  "enc_ready s \<longleftrightarrow> tabs_ok std_valid s \<and> obs_inv (enc_bs s) \<and> out_num_held (enc_bs s) = 0"

definition slice_decodes ::
    "('m binenc \<Rightarrow> 'm binenc option) \<Rightarrow> ('m bindec \<Rightarrow> ('x \<times> 'm bindec) option) \<Rightarrow> 'x \<Rightarrow> 'm binenc \<Rightarrow> nat list \<Rightarrow> bool" where
  "slice_decodes w r x s pb \<longleftrightarrow> (\<exists>s1 s2 bs cb t1 t2 t3. w (enc_start s) = Some s1 \<and> end_of_slice s1 = Some s2
    \<and> writeByteAlignment (enc_bs s2) = Some bs \<and> out_fifo bs = out_fifo (enc_bs s) @ cb
    \<and> dec_start (new_dec (pb @ cb) (length pb) (enc_ctx s)) = Some t1
    \<and> r t1 = Some (x, t2) \<and> dec_ctx t2 = enc_ctx s1
    \<and> terminating_bit t2 = Some (True, t3) \<and> getNumBitsLeft (dec_bs t3) = 0)"

lemma std_slice_decodes:
  assumes "std.codes (length (enc_ctx s)) (out_bits (enc_bs s)) w r x" "enc_ready s" "bytes pb"
  shows "slice_decodes w r x s pb"
proof -
  from assms(2) have s: "tabs_ok std_valid s" "obs_inv (enc_bs s)" "out_num_held (enc_bs s) = 0"
    by (simp_all add: enc_ready_def)
  from std.slice_roundtrip [OF assms(1) s(2,1) refl s(3) refl]
  obtain s1 s2 bs cb where e: "w (enc_start s) = Some s1" "end_of_slice s1 = Some s2"
    "writeByteAlignment (enc_bs s2) = Some bs" "out_num_held bs = 0" "out_fifo bs = out_fifo (enc_bs s) @ cb"
    "bytes cb" and d: "\<And>t pb. ibs_inv (dec_bs t) \<Longrightarrow> in_num_held (dec_bs t) = 0 \<Longrightarrow> in_fifo (dec_bs t) = pb @ cb
         \<Longrightarrow> fifo_idx (dec_bs t) = length pb \<Longrightarrow> dec_ctx t = enc_ctx s
         \<Longrightarrow> \<exists>t1 t2 t3. dec_start t = Some t1 \<and> r t1 = Some (x, t2) \<and> dec_ctx t2 = enc_ctx s1
               \<and> terminating_bit t2 = Some (True, t3) \<and> getNumBitsLeft (dec_bs t3) = 0" by blast
  have "ibs_inv (dec_bs (new_dec (pb @ cb) (length pb) (enc_ctx s)))" using assms(3) e(6)
    by (simp add: new_dec_def open_stream_def new_ibs_def ibs_inv_def)
  from d [OF this] obtain t1 t2 t3 where "dec_start (new_dec (pb @ cb) (length pb) (enc_ctx s)) = Some t1"
    "r t1 = Some (x, t2)" "dec_ctx t2 = enc_ctx s1"
    "terminating_bit t2 = Some (True, t3)" "getNumBitsLeft (dec_bs t3) = 0"
    by (auto simp: new_dec_def open_stream_def new_ibs_def)
  with e show ?thesis unfolding slice_decodes_def by blast
qed

text \<open>An encoder for \<open>N\<close> contexts in the initial state of a slice, on an empty stream.\<close>

definition new_enc :: "nat \<Rightarrow> int \<Rightarrow> int list \<Rightarrow> nat binenc" where
  "new_enc N qp ids = \<lparr>enc_bs = clear, enc_low = 0, enc_range = 0, enc_bufferedByte = 0, enc_numBufferedBytes = 0,
     enc_bitsLeft = 0, enc_ctx = map (initModel BinProbModel_Std qp) ids, enc_numBinsCtx = replicate N 0,
     enc_numBinsEP = 0, enc_numBinsTrm = 0, enc_binStore = \<lparr>bs_inUse = False, bs_binBuffer = []\<rparr>\<rparr>"

lemma length_new_enc [simp]: "length (enc_ctx (new_enc N qp ids)) = length ids"
  by (simp add: new_enc_def)

lemma enc_ready_new: "length ids = N \<Longrightarrow> enc_ready (new_enc N qp ids)"
  by (simp add: enc_ready_def new_enc_def clear_def tabs_ok_def BinProbModel_Std_def std_init_valid obs_inv_def)

section \<open>Properties\<close>

text \<open>
  C1. Any sequence of context coded bins, bypass bins (single or up to 32 at once), terminating
  zeros and alignments that the encoder writes into a slice, closed with \<open>end_of_slice\<close> and
  byte alignment, is decoded to the same values, with the context models in the same states at
  the end; the decoder then finds the terminating bin and the stop bit, and no bits are left.
\<close>

theorem cabac_roundtrip:
  assumes "list_all (op_ok (length (enc_ctx s))) ops" "tabs_ok std_valid s"
    "obs_inv (enc_bs s)" "out_num_held (enc_bs s) = 0" "bytes pb"
  shows "\<exists>s1 s2 bs cb t1 t2 t3. encode_ops BinProbModel_Std ops (enc_start s) = Some s1 \<and> end_of_slice s1 = Some s2
    \<and> writeByteAlignment (enc_bs s2) = Some bs \<and> out_fifo bs = out_fifo (enc_bs s) @ cb
    \<and> dec_start (new_dec (pb @ cb) (length pb) (enc_ctx s)) = Some t1
    \<and> decode_ops BinProbModel_Std ops t1 = Some (ops, t2) \<and> dec_ctx t2 = enc_ctx s1
    \<and> terminating_bit t2 = Some (True, t3) \<and> getNumBitsLeft (dec_bs t3) = 0"
proof -
  have "enc_ready s" using assms(2-4) by (simp add: enc_ready_def)
  from std_slice_decodes [OF std.codes_ops [OF assms(1)] this assms(5)] show ?thesis
    unfolding slice_decodes_def .
qed

theorem cabac_roundtrip_witness:
  "let s = new_enc 3 30 [154, 110, 200]; pb = [1, 2];
     ops = [CtxBin 0 1, CtxBin 2 0, EPBins 77 13, AlignRange, EPBin 1, CtxBin 1 1, TrmZero, EPBins 5 3]
   in \<exists>s1 s2 bs cb t1 t2 t3. encode_ops BinProbModel_Std ops (enc_start s) = Some s1 \<and> end_of_slice s1 = Some s2
    \<and> writeByteAlignment (enc_bs s2) = Some bs \<and> out_fifo bs = out_fifo (enc_bs s) @ cb
    \<and> dec_start (new_dec (pb @ cb) (length pb) (enc_ctx s)) = Some t1
    \<and> decode_ops BinProbModel_Std ops t1 = Some (ops, t2) \<and> dec_ctx t2 = enc_ctx s1
    \<and> terminating_bit t2 = Some (True, t3) \<and> getNumBitsLeft (dec_bs t3) = 0"
  unfolding Let_def
  by (rule cabac_roundtrip)
    (simp_all add: new_enc_def clear_def tabs_ok_def BinProbModel_Std_def std_init_valid bytes_def obs_inv_def)

end
