(* ===== verification/BinCodes.thy ===== *)
theory BinCodes
  imports Cabac TruncBinary
begin

text \<open>
  Binarisations over bypass and context coded bins: \<open>encodeRemAbsEP\<close> of \<open>BinEncoderBase\<close> with
  \<open>decodeRemAbsEP\<close> of \<open>BinDecoderBase\<close>, and the helper functions at the end of \<open>CABACWriter.cpp\<close>
  and \<open>CABACReader.cpp\<close>: truncated unary, Exp-Golomb and truncated binary codes.  The writer
  functions have the prefix \<open>put\<close>, the readers \<open>get\<close>.

  Each pair is shown to agree in the contract of locale \<open>arith_coder\<close>, for every value
  whose code fits the 32 bits of one call of \<open>encodeBinsEP\<close>.
\<close>

section \<open>Operations\<close>

subsection \<open>Remaining absolute levels\<close>

definition COEF_REMAIN_BIN_REDUCTION :: nat where "COEF_REMAIN_BIN_REDUCTION = 3"

definition g_auiGoRiceRange :: "nat list" where
  "g_auiGoRiceRange = [6, 5, 6, 3, 3, 3, 3, 3, 3, 3]"

text \<open>\<open>while (codeValue > (2 << prefixLength) - 2) prefixLength++\<close>\<close>

function prefix_length :: "nat \<Rightarrow> nat \<Rightarrow> nat" where
  "prefix_length codeValue prefixLength =
     (if codeValue > 2 * 2 ^ prefixLength - 2 then prefix_length codeValue (prefixLength + 1) else prefixLength)"
  by auto
termination
proof (relation "measure (\<lambda>(c, p). c - p)", goal_cases)
  case (2 c p)
  have "p < 2 ^ p" by (rule less_exp)
  with 2 have "p < c" by linarith
  then show ?case by simp
qed simp

text \<open>\<open>while (bins >= delta) { bins -= delta; delta = 1 << (++length); }\<close>\<close>

function escape_length :: "nat \<Rightarrow> nat \<Rightarrow> nat \<times> nat" where
  "escape_length bins len = (if bins \<ge> 2 ^ len then escape_length (bins - 2 ^ len) (len + 1) else (bins, len))"
  by auto
termination
  by (relation "measure fst") (auto intro!: diff_less intro: less_le_trans [rotated])

declare prefix_length.simps [simp del] escape_length.simps [simp del]

text \<open>\<open>(1 << n) - c\<close> on \<open>int\<close> overflows from \<open>n = 31\<close> on.\<close>

definition encodeRemAbsEP :: "nat \<Rightarrow> nat \<Rightarrow> bool \<Rightarrow> nat \<Rightarrow> 'm binenc \<Rightarrow> 'm binenc option" where
  "encodeRemAbsEP bins goRicePar useLimitedPrefixLength maxLog2TrDynamicRange s = do {
     riceRange \<leftarrow> arr_get g_auiGoRiceRange goRicePar;
     let threshold = u32 (push_bit goRicePar riceRange);
     if bins < threshold then do {
       let bitMask = 2 ^ goRicePar - 1;
       let len = drop_bit goRicePar bins + 1;
       s \<leftarrow> encodeBinsEP (2 ^ len - 2) len s;
       encodeBinsEP (bins AND bitMask) goRicePar s
     } else if useLimitedPrefixLength then do {
       let maxPrefixLength = sub32 (32 - COEF_REMAIN_BIN_REDUCTION) maxLog2TrDynamicRange;
       let codeValue = sub32 (drop_bit goRicePar bins) COEF_REMAIN_BIN_REDUCTION;
       let (prefixLength, suffixLength) =
         (if codeValue \<ge> 2 ^ maxPrefixLength - 1 then (maxPrefixLength, maxLog2TrDynamicRange)
          else let p = prefix_length codeValue 0 in (p, p + goRicePar + 1));
       let totalPrefixLength = prefixLength + COEF_REMAIN_BIN_REDUCTION;
       check_not (totalPrefixLength \<ge> 31);
       let bitMask = 2 ^ goRicePar - 1;
       let prefix = 2 ^ totalPrefixLength - 1;
       let suffix = u32 (push_bit goRicePar (sub32 codeValue (2 ^ prefixLength - 1))) OR (bins AND bitMask);
       s \<leftarrow> encodeBinsEP prefix totalPrefixLength s;
       encodeBinsEP suffix suffixLength s
     } else do {
       let (bins, len) = escape_length (bins - threshold) goRicePar;
       let numBin = riceRange + len + 1 - goRicePar;
       check_not (numBin \<ge> 31);
       s \<leftarrow> encodeBinsEP (2 ^ numBin - 2) numBin s;
       encodeBinsEP bins len s
     }
   }"

text \<open>
  \<open>do { prefix++; codeWord = decodeBinEP(); } while (codeWord && prefix < maxPrefix);
  prefix -= 1 - codeWord;\<close>
\<close>

function limited_prefix :: "nat \<Rightarrow> nat \<Rightarrow> 'm bindec \<Rightarrow> (nat \<times> 'm bindec) option" where
  "limited_prefix maxPrefix prefix t = decodeBinEP t \<bind> (\<lambda>(codeWord, t).
     if codeWord \<noteq> 0 \<and> prefix + 1 < maxPrefix then limited_prefix maxPrefix (prefix + 1) t
     else Some (prefix + 1 - (1 - codeWord), t))"
  by auto
termination
  by (relation "measure (\<lambda>(m, p, t). m - p)") auto

text \<open>\<open>while (decodeBinEP()) prefix++;\<close> ends at a zero bin, or with an error at the end of the stream.\<close>

partial_function (option) unlimited_prefix :: "nat \<Rightarrow> 'm bindec \<Rightarrow> (nat \<times> 'm bindec) option" where
  "unlimited_prefix prefix t = decodeBinEP t \<bind> (\<lambda>(b, t).
     if b \<noteq> 0 then unlimited_prefix (u32 (prefix + 1)) t else Some (prefix, t))"

declare limited_prefix.simps [simp del]

definition decodeRemAbsEP :: "nat \<Rightarrow> bool \<Rightarrow> nat \<Rightarrow> 'm bindec \<Rightarrow> (nat \<times> 'm bindec) option" where
  "decodeRemAbsEP goRicePar useLimitedPrefixLength maxLog2TrDynamicRange t = do {
     cutoff \<leftarrow> arr_get g_auiGoRiceRange goRicePar;
     (prefix, t) \<leftarrow> (if useLimitedPrefixLength then limited_prefix (sub32 32 maxLog2TrDynamicRange) 0 t
                    else unlimited_prefix 0 t);
     (offset, len) \<leftarrow> (if prefix < cutoff then Some (u32 (push_bit goRicePar prefix), goRicePar) else do {
        check_not (prefix - cutoff \<ge> 31);
        let offset = u32 (push_bit goRicePar (2 ^ (prefix - cutoff) + cutoff - 1));
        Some (offset, u32 (goRicePar
          + (if useLimitedPrefixLength
             then (if prefix = sub32 32 maxLog2TrDynamicRange then sub32 maxLog2TrDynamicRange goRicePar
                   else sub32 prefix COEF_REMAIN_BIN_REDUCTION)
             else prefix - cutoff)))
     });
     (bins, t) \<leftarrow> decodeBinsEP len t;
     Some (u32 (offset + bins), t)
   }"

subsection \<open>Truncated unary codes\<close>

text \<open>\<open>binsWritten\<close> runs from \<open>k\<close> to \<open>totalBinsToWrite\<close>.\<close>

fun put_unary_bins :: "('m, 'z) prob_ops_scheme \<Rightarrow> nat \<Rightarrow> nat \<Rightarrow> nat \<Rightarrow> nat \<Rightarrow> nat \<Rightarrow> 'm binenc \<Rightarrow> 'm binenc option" where
  "put_unary_bins P symbol ctxId0 ctxIdN k 0 s = Some s"
| "put_unary_bins P symbol ctxId0 ctxIdN k (Suc n) s =
     encodeBin P (of_bool (symbol > k)) (if k = 0 then ctxId0 else ctxIdN) s
       \<bind> put_unary_bins P symbol ctxId0 ctxIdN (k + 1) n"

definition put_unary_max_symbol :: "('m, 'z) prob_ops_scheme \<Rightarrow> nat \<Rightarrow> nat \<Rightarrow> nat \<Rightarrow> nat \<Rightarrow> 'm binenc \<Rightarrow> 'm binenc option" where
  "put_unary_max_symbol P symbol ctxId0 ctxIdN maxSymbol s = do {
     check_not (symbol > maxSymbol);
     let totalBinsToWrite = min (u32 (symbol + 1)) maxSymbol;
     put_unary_bins P symbol ctxId0 ctxIdN 0 totalBinsToWrite s
   }"

function get_unary_bins :: "('m, 'z) prob_ops_scheme \<Rightarrow> nat \<Rightarrow> nat \<Rightarrow> nat \<Rightarrow> nat \<Rightarrow> 'm bindec \<Rightarrow> (nat \<times> 'm bindec) option" where
  "get_unary_bins P ctxId0 ctxIdN maxSymbol onesRead t =
     (if onesRead < maxSymbol then decodeBin P (if onesRead = 0 then ctxId0 else ctxIdN) t \<bind> (\<lambda>(b, t).
        if b = 1 then get_unary_bins P ctxId0 ctxIdN maxSymbol (onesRead + 1) t else Some (onesRead, t))
      else Some (onesRead, t))"
  by auto
termination
  by (relation "measure (\<lambda>(P, c, d, m, k, t). m - k)") auto

declare get_unary_bins.simps [simp del]

definition get_unary_max_symbol :: "('m, 'z) prob_ops_scheme \<Rightarrow> nat \<Rightarrow> nat \<Rightarrow> nat \<Rightarrow> 'm bindec \<Rightarrow> (nat \<times> 'm bindec) option" where
  "get_unary_max_symbol P ctxId0 ctxIdN maxSymbol = get_unary_bins P ctxId0 ctxIdN maxSymbol 0"

text \<open>\<open>while (symbol--) { bins <<= 1; bins++; numBins++; }\<close>\<close>

fun unary_ones :: "nat \<Rightarrow> nat \<Rightarrow> nat \<Rightarrow> nat \<times> nat" where
  "unary_ones 0 bins numBins = (bins, numBins)"
| "unary_ones (Suc symbol) bins numBins = unary_ones symbol (u32 (2 * bins + 1)) (numBins + 1)"

definition put_unary_max_eqprob :: "nat \<Rightarrow> nat \<Rightarrow> 'm binenc \<Rightarrow> 'm binenc option" where
  "put_unary_max_eqprob symbol maxSymbol s =
     (if maxSymbol = 0 then Some s else do {
        let codeLast = maxSymbol > symbol;
        let (bins, numBins) = unary_ones symbol 0 0;
        let (bins, numBins) = (if codeLast then (u32 (2 * bins), numBins + 1) else (bins, numBins));
        check_not (\<not> numBins \<le> 32);
        encodeBinsEP bins numBins s
      })"

function get_unary_eqprob :: "nat \<Rightarrow> nat \<Rightarrow> 'm bindec \<Rightarrow> (nat \<times> 'm bindec) option" where
  "get_unary_eqprob maxSymbol k t =
     (if k < maxSymbol then decodeBinEP t \<bind> (\<lambda>(b, t). if b = 0 then Some (k, t) else get_unary_eqprob maxSymbol (k + 1) t)
      else Some (maxSymbol, t))"
  by auto
termination
  by (relation "measure (\<lambda>(m, k, t). m - k)") auto

declare get_unary_eqprob.simps [simp del]

definition get_unary_max_eqprob :: "nat \<Rightarrow> 'm bindec \<Rightarrow> (nat \<times> 'm bindec) option" where
  "get_unary_max_eqprob maxSymbol = get_unary_eqprob maxSymbol 0"

subsection \<open>Exp-Golomb codes\<close>

function exp_golomb_prefix :: "nat \<Rightarrow> nat \<Rightarrow> nat \<Rightarrow> nat \<Rightarrow> nat \<times> nat \<times> nat \<times> nat" where
  "exp_golomb_prefix symbol count bins numBins =
     (if symbol \<ge> 2 ^ count
      then exp_golomb_prefix (symbol - 2 ^ count) (count + 1) (u32 (2 * bins + 1)) (numBins + 1)
      else (symbol, count, bins, numBins))"
  by auto
termination
  by (relation "measure fst") (auto intro!: diff_less intro: less_le_trans [rotated])

declare exp_golomb_prefix.simps [simp del]

definition put_exp_golomb_eqprob :: "nat \<Rightarrow> nat \<Rightarrow> 'm binenc \<Rightarrow> 'm binenc option" where
  "put_exp_golomb_eqprob symbol count s = do {
     let (symbol, count, bins, numBins) = exp_golomb_prefix symbol count 0 0;
     let bins = u32 (2 * bins);
     let numBins = numBins + 1;
     let bins = u32 (push_bit count bins) OR symbol;
     let numBins = numBins + count;
     check_not (\<not> numBins \<le> 32);
     encodeBinsEP bins numBins s
   }"

text \<open>The loop \<open>while (bit)\<close>; a shift by 32 or more is undefined.\<close>

function exp_golomb_ones :: "nat \<Rightarrow> nat \<Rightarrow> 'm bindec \<Rightarrow> ((nat \<times> nat) \<times> 'm bindec) option" where
  "exp_golomb_ones symbol count t = decodeBinEP t \<bind> (\<lambda>(b, t).
     if count \<ge> 32 then None
     else if b \<noteq> 0 then exp_golomb_ones (u32 (symbol + u32 (push_bit count b))) (count + 1) t
     else Some ((u32 (symbol + u32 (push_bit count b)), count + 1), t))"
  by auto
termination
  by (relation "measure (\<lambda>(x, c, t). 32 - c)") auto

declare exp_golomb_ones.simps [simp del]

definition get_exp_golomb_eqprob :: "nat \<Rightarrow> 'm bindec \<Rightarrow> (nat \<times> 'm bindec) option" where
  "get_exp_golomb_eqprob count t = do {
     ((symbol, count), t) \<leftarrow> exp_golomb_ones 0 count t;
     let count = count - 1;
     if count \<noteq> 0 then do {
       (bins, t) \<leftarrow> decodeBinsEP count t;
       Some (u32 (symbol + bins), t)
     } else Some (symbol, t)
   }"

subsection \<open>Truncated binary codes\<close>

definition g_NonMPM :: "nat list" where
  "g_NonMPM = [0, 0] @ replicate 2 1 @ replicate 4 2 @ replicate 8 3 @ replicate 16 4 @ replicate 32 5
     @ replicate 64 6 @ replicate 128 7 @ [8]"

definition uiThresh_of :: "nat \<Rightarrow> nat option" where
  "uiThresh_of uiMaxSymbol =
     (if uiMaxSymbol > 256 then Some (trunc_thresh uiMaxSymbol 8 - 1) else arr_get g_NonMPM uiMaxSymbol)"

definition xWriteTruncBinCode :: "nat \<Rightarrow> nat \<Rightarrow> 'm binenc \<Rightarrow> 'm binenc option" where
  "xWriteTruncBinCode uiSymbol uiMaxSymbol s = do {
     uiThresh \<leftarrow> uiThresh_of uiMaxSymbol;
     let uiVal = u32 (push_bit uiThresh 1);
     check_not (\<not> uiVal \<le> uiMaxSymbol);
     check_not (\<not> u32 (push_bit 1 uiVal) > uiMaxSymbol);
     check_not (\<not> uiSymbol < uiMaxSymbol);
     let b = sub32 uiMaxSymbol uiVal;
     check_not (\<not> b < uiVal);
     if uiSymbol < sub32 uiVal b then encodeBinsEP uiSymbol uiThresh s
     else do {
       let uiSymbol = u32 (uiSymbol + sub32 uiVal b);
       check_not (\<not> uiSymbol < u32 (push_bit 1 uiVal));
       check_not (\<not> drop_bit 1 uiSymbol \<ge> sub32 uiVal b);
       encodeBinsEP uiSymbol (uiThresh + 1) s
     }
   }"

definition xReadTruncBinCode :: "nat \<Rightarrow> 'm bindec \<Rightarrow> (nat \<times> 'm bindec) option" where
  "xReadTruncBinCode uiMaxSymbol t = do {
     uiThresh \<leftarrow> uiThresh_of uiMaxSymbol;
     let uiVal = u32 (push_bit uiThresh 1);
     let b = sub32 uiMaxSymbol uiVal;
     (ruiSymbol, t) \<leftarrow> decodeBinsEP uiThresh t;
     if ruiSymbol \<ge> sub32 uiVal b then do {
       (uiSymbol, t) \<leftarrow> decodeBinEP t;
       let ruiSymbol = u32 (push_bit 1 ruiSymbol);
       let ruiSymbol = u32 (ruiSymbol + uiSymbol);
       Some (sub32 ruiSymbol (sub32 uiVal b), t)
     } else Some (ruiSymbol, t)
   }"

section \<open>Unary prefixes\<close>

lemma ones_Suc: "(2 :: nat) ^ Suc n - 1 = 2 * (2 ^ n - 1) + 1"
proof -
  have "(1 :: nat) \<le> 2 ^ n" by (rule one_le_power) simp
  then show ?thesis unfolding power_Suc by linarith
qed

lemma u32_ones: "n < 32 \<Longrightarrow> bins = 2 ^ n - 1 \<Longrightarrow> u32 (2 * bins + 1) = 2 ^ (n + 1) - 1"
proof -
  assume n: "n < 32" "bins = 2 ^ n - 1"
  have "(2 :: nat) ^ (n + 1) \<le> 2 ^ 32" using n by (intro power_increasing) auto
  then have "(2 :: nat) ^ (n + 1) - 1 < 2 ^ 32" by (simp add: less_eq_Suc_le)
  then show ?thesis using ones_Suc [of n] n(2) by (simp add: take_bit_nat_eq_self)
qed

fun get_ones :: "nat \<Rightarrow> 'm bindec \<Rightarrow> (unit \<times> 'm bindec) option" where
  "get_ones 0 t = Some ((), t)"
| "get_ones (Suc n) t = decodeBinEP t \<bind> (\<lambda>(b, t). if b = 1 then get_ones n t else None)"

lemma get_ones_SucE:
  assumes "get_ones (Suc n) t = Some ((), t')"
  obtains t1 where "decodeBinEP t = Some (1, t1)" "get_ones n t1 = Some ((), t')"
  using assms by (auto simp: bind_eq_Some_conv split: if_splits)

context arith_coder
begin

lemma codes_EPs_1: "b \<le> 1 \<Longrightarrow> codes (encodeBinsEP b 1) decodeBinEP b"
proof (rule codes_stepped, goal_cases)
  case (1 s)
  note i = inv_bounds [OF 1(2)]
  from encodeBinsEP_step [of base s b 1] i 1(1) obtain s' where s': "encodeBinsEP b 1 s = Some s'"
    "stepped base s s' 1 (b * enc_range s) (enc_range s)" by force
  have "\<exists>t'. decodeBinEP t = Some (b, t') \<and> dec_pos cb (total base s * 2 ^ 1 + b * enc_range s) (prec base s + 1) t'
      \<and> dec_range t' = enc_range s \<and> dec_ctx t' = dec_ctx t"
    if "in_interval cb (total base s * 2 ^ 1 + b * enc_range s) (prec base s + 1) (enc_range s)"
      "dec_pos cb (total base s) (prec base s) t" "dec_range t = enc_range s" for cb t
    using decodeBinEP_pos [OF that(2) that(3) [symmetric] _ 1(1)] that(1) i by simp
  moreover have "b * enc_range s + enc_range s \<le> enc_range s * 2 ^ 1" using 1(1) by (auto simp: le_Suc_eq)
  ultimately show ?case using s' by blast
qed

lemma codes_ones: "0 < n \<Longrightarrow> n \<le> 32 \<Longrightarrow> codes (encodeBinsEP (2 ^ n - 1) n) (get_ones n) ()"
proof (induction n)
  case 0
  then show ?case by simp
next
  case (Suc n)
  show ?case
  proof (cases "n = 0")
    case True
    have "codes (encodeBinsEP 1 1) (\<lambda>t. decodeBinEP t \<bind> (\<lambda>(b, t). if b = 1 then get_ones 0 t else None)) ()"
      by (rule codes_bind_end [OF codes_EPs_1]) (auto intro: codes_return)
    then show ?thesis by (simp add: True)
  next
    case False
    have "codes (\<lambda>s. encodeBinsEP 1 1 s \<bind> encodeBinsEP (2 ^ n - 1) n) (get_ones (Suc n)) ()"
      unfolding get_ones.simps by (rule codes_bind [OF codes_EPs_1]) (use Suc False in auto)
    from codes_split [OF this] Suc.prems show ?thesis by (simp add: mult_2 del: get_ones.simps)
  qed
qed

text \<open>
  A reader that counts ones and continues as \<open>r'\<close> after \<open>n\<close> of them.
\<close>

lemma codes_after_ones:
  assumes "n \<le> 32" "0 < n" "\<And>t t'. get_ones n t = Some ((), t') \<Longrightarrow> r t = r' t'" "codes w r' x"
  shows "codes (\<lambda>s. encodeBinsEP (2 ^ n - 1) n s \<bind> w) r x"
proof (rule codes_weaken)
  show "codes (\<lambda>s. encodeBinsEP (2 ^ n - 1) n s \<bind> w) (\<lambda>t. get_ones n t \<bind> (\<lambda>(_, t). r' t)) x"
    by (rule codes_bind [OF codes_ones]) (use assms in auto)
  show "r t = Some y" if "get_ones n t \<bind> (\<lambda>(_, t). r' t) = Some y" for t y
    using that assms(3) by (auto simp: bind_eq_Some_conv)
qed

lemma codes_ones_zero:
  assumes "n < 32" "\<And>t t'. get_ones n t = Some ((), t') \<Longrightarrow> r t = r' t'" "codes (encodeBinsEP 0 1) r' x"
  shows "codes (encodeBinsEP (2 ^ (n + 1) - 2) (n + 1)) r x"
proof (cases "n = 0")
  case True
  then show ?thesis using assms(2,3) by (simp add: codes_def)
next
  case False
  have "codes (\<lambda>s. encodeBinsEP (2 ^ n - 1) n s \<bind> encodeBinsEP 0 1) r x"
    by (rule codes_after_ones) (use assms False in auto)
  moreover have "(2 ^ n - 1) * 2 ^ 1 + 0 = (2 ^ (n + 1) - 2 :: nat)" by (simp add: right_diff_distrib')
  ultimately show ?thesis using codes_split [of "2 ^ n - 1" n 0 1 r x] assms(1) by simp
qed

end

section \<open>Truncated unary and Exp-Golomb codes\<close>

lemma unary_ones_eq:
  assumes "numBins + symbol \<le> 32" "bins = 2 ^ numBins - 1"
  shows "unary_ones symbol bins numBins = (2 ^ (numBins + symbol) - 1, numBins + symbol)"
  using assms
proof (induction symbol arbitrary: bins numBins)
  case 0
  then show ?case by simp
next
  case (Suc symbol)
  have "u32 (2 * bins + 1) = 2 ^ (numBins + 1) - 1" by (rule u32_ones) (use Suc.prems in auto)
  with Suc.IH [of "numBins + 1" "2 ^ (numBins + 1) - 1"] Suc.prems(1) show ?case by simp
qed

lemma get_unary_eqprob_ones:
  "get_ones n t = Some ((), t') \<Longrightarrow> k + n \<le> m \<Longrightarrow> get_unary_eqprob m k t = get_unary_eqprob m (k + n) t'"
proof (induction n arbitrary: k t)
  case 0
  then show ?case by simp
next
  case (Suc n)
  from Suc.prems(1) obtain t1 where "decodeBinEP t = Some (1, t1)" "get_ones n t1 = Some ((), t')"
    by (rule get_ones_SucE)
  with Suc.IH [of t1 "Suc k"] Suc.prems(2) show ?case by (simp add: get_unary_eqprob.simps [of m k])
qed

lemma unlimited_prefix_ones:
  "get_ones n t = Some ((), t') \<Longrightarrow> k + n < 2 ^ 32 \<Longrightarrow> unlimited_prefix k t = unlimited_prefix (k + n) t'"
proof (induction n arbitrary: k t)
  case 0
  then show ?case by simp
next
  case (Suc n)
  from Suc.prems(1) obtain t1 where "decodeBinEP t = Some (1, t1)" "get_ones n t1 = Some ((), t')"
    by (rule get_ones_SucE)
  with Suc.IH [of t1 "Suc k"] Suc.prems(2) show ?case
    by (simp add: unlimited_prefix.simps [of k] take_bit_nat_eq_self)
qed

lemma limited_prefix_ones:
  "get_ones n t = Some ((), t') \<Longrightarrow> k + n < m \<Longrightarrow> limited_prefix m k t = limited_prefix m (k + n) t'"
proof (induction n arbitrary: k t)
  case 0
  then show ?case by simp
next
  case (Suc n)
  from Suc.prems(1) obtain t1 where "decodeBinEP t = Some (1, t1)" "get_ones n t1 = Some ((), t')"
    by (rule get_ones_SucE)
  with Suc.IH [of t1 "Suc k"] Suc.prems(2) show ?case by (simp add: limited_prefix.simps [of m k])
qed

lemma limited_prefix_full:
  assumes "get_ones (Suc n) t = Some ((), t')" "k + Suc n = m"
  shows "limited_prefix m k t = Some (m, t')"
  using assms
proof (induction n arbitrary: k t)
  case 0
  then show ?case by (auto simp: bind_eq_Some_conv limited_prefix.simps [of m k] split: if_splits)
next
  case (Suc n)
  from Suc.prems(1) obtain t1 where "decodeBinEP t = Some (1, t1)" "get_ones (Suc n) t1 = Some ((), t')"
    by (rule get_ones_SucE)
  with Suc.IH [of t1 "Suc k"] Suc.prems(2) show ?case
    by (simp add: limited_prefix.simps [of m k] del: get_ones.simps)
qed

lemma exp_golomb_ones_ones:
  "get_ones n t = Some ((), t') \<Longrightarrow> count + n \<le> 31 \<Longrightarrow> symbol + (2 ^ n - 1) * 2 ^ count < 2 ^ 32 \<Longrightarrow>
    exp_golomb_ones symbol count t = exp_golomb_ones (symbol + (2 ^ n - 1) * 2 ^ count) (count + n) t'"
proof (induction n arbitrary: symbol count t)
  case 0
  then show ?case by simp
next
  case (Suc n)
  from Suc.prems(1) obtain t1 where t1: "decodeBinEP t = Some (1, t1)" "get_ones n t1 = Some ((), t')"
    by (rule get_ones_SucE)
  have e: "symbol + (2 ^ Suc n - 1) * 2 ^ count = symbol + 2 ^ count + (2 ^ n - 1) * 2 ^ Suc count"
  proof -
    show ?thesis unfolding ones_Suc by (simp only: add_mult_distrib add_mult_distrib2 mult_1_right power_Suc mult_1 ac_simps)
  qed
  have c: "count < 32" "Suc count + n \<le> 31" using Suc.prems(2) by simp_all
  have "symbol + 2 ^ count < 2 ^ 32" using Suc.prems(3) unfolding e by linarith
  then have u: "u32 (symbol + u32 (push_bit count 1)) = symbol + 2 ^ count"
    using c(1) by (simp add: push_bit_nat_def take_bit_nat_eq_self)
  have "exp_golomb_ones symbol count t = exp_golomb_ones (symbol + 2 ^ count) (count + 1) t1"
    by (subst exp_golomb_ones.simps) (use c(1) in \<open>simp only: t1(1) bind.bind_lunit split u, simp\<close>)
  moreover have "symbol + 2 ^ count + (2 ^ n - 1) * 2 ^ Suc count < 2 ^ 32" using Suc.prems(3) unfolding e .
  ultimately show ?case unfolding e using Suc.IH [OF t1(2), of "Suc count" "symbol + 2 ^ count"] c(2) by simp
qed

text \<open>What the prefix loop of \<open>put_exp_golomb_eqprob\<close> leaves: \<open>k\<close> ones and the rest of the symbol.\<close>

lemma exp_golomb_prefix_eq:
  assumes "numBins \<le> 32" "bins = 2 ^ numBins - 1" "symbol < 2 ^ (count + 32 - numBins)"
  shows "\<exists>k r. exp_golomb_prefix symbol count bins numBins = (r, count + k, u32 (2 ^ (numBins + k) - 1), numBins + k)
    \<and> symbol = (2 ^ k - 1) * 2 ^ count + r \<and> r < 2 ^ (count + k)"
  using assms
proof (induction symbol count bins numBins rule: exp_golomb_prefix.induct)
  case (1 symbol count bins numBins)
  show ?case
  proof (cases "symbol \<ge> 2 ^ count")
    case False
    have "(2 :: nat) ^ numBins \<le> 2 ^ 32" using "1.prems" by (intro power_increasing) auto
    with False "1.prems" show ?thesis
      by (intro exI [of _ 0] exI [of _ symbol]) (simp add: exp_golomb_prefix.simps take_bit_nat_eq_self)
  next
    case True
    have n: "numBins < 32"
    proof (rule ccontr)
      assume "\<not> numBins < 32"
      with "1.prems"(1) have "numBins = 32" by simp
      with "1.prems"(3) True show False by simp
    qed
    have b: "u32 (2 * bins + 1) = 2 ^ (numBins + 1) - 1" by (rule u32_ones [OF n "1.prems"(2)])
    have "symbol - 2 ^ count < 2 ^ (count + 1 + 32 - (numBins + 1))"
      using le_less_trans [OF diff_le_self "1.prems"(3)] by (simp add: add.commute)
    with "1.IH" [OF True] n b obtain k r where k:
      "exp_golomb_prefix (symbol - 2 ^ count) (count + 1) (2 ^ (numBins + 1) - 1) (numBins + 1)
        = (r, count + 1 + k, u32 (2 ^ (numBins + 1 + k) - 1), numBins + 1 + k)"
      "symbol - 2 ^ count = (2 ^ k - 1) * 2 ^ (count + 1) + r" "r < 2 ^ (count + 1 + k)" by force
    have "symbol = (2 ^ Suc k - 1) * 2 ^ count + r"
    proof -
      have "symbol = 2 ^ count + ((2 ^ k - 1) * 2 ^ (count + 1) + r)" using k(2) True by linarith
      then show ?thesis unfolding ones_Suc by (simp only: add_mult_distrib add_mult_distrib2 mult_1_right power_Suc power_add power_one_right mult_1 ac_simps)
    qed
    moreover have "exp_golomb_prefix symbol count bins numBins
        = (r, count + Suc k, u32 (2 ^ (numBins + Suc k) - 1), numBins + Suc k)"
      using k(1) True b by (simp add: exp_golomb_prefix.simps [of symbol])
    moreover have "r < 2 ^ (count + Suc k)" using k(3) by simp
    ultimately show ?thesis by blast
  qed
qed

lemma or_shift: "r < 2 ^ c \<Longrightarrow> a * 2 ^ c + r < 2 ^ 32 \<Longrightarrow> u32 (push_bit c a) OR r = a * 2 ^ c + r" for a c r :: nat
  by (simp add: push_bit_nat_def or_disjoint take_bit_nat_eq_self)

lemma shift_less:
  assumes "a < 2 ^ m" "r < 2 ^ c"
  shows "a * 2 ^ c + r < (2 :: nat) ^ (m + c)"
proof -
  have "a * 2 ^ c + r < (a + 1) * 2 ^ c" using assms(2) by simp
  also have "\<dots> \<le> 2 ^ m * 2 ^ c" using assms(1) by (intro mult_le_mono1) simp
  finally show ?thesis by (simp only: power_add)
qed

context arith_coder
begin

lemma codes_unary_max_eqprob:
  assumes "symbol \<le> maxSymbol" "symbol < 32 \<or> maxSymbol = 32"
  shows "codes (put_unary_max_eqprob symbol maxSymbol) (get_unary_max_eqprob maxSymbol) symbol"
proof -
  consider "maxSymbol = 0" | "0 < maxSymbol" "symbol = maxSymbol" "maxSymbol \<le> 32" | "symbol < maxSymbol" "symbol < 32"
    using assms by linarith
  then show ?thesis
  proof cases
    case 1
    then show ?thesis using assms(1)
      by (simp add: codes_def put_unary_max_eqprob_def get_unary_max_eqprob_def get_unary_eqprob.simps)
  next
    case 2
    have "codes (encodeBinsEP (2 ^ symbol - 1) symbol) (get_unary_max_eqprob maxSymbol) symbol"
    proof (rule codes_weaken)
      show "codes (encodeBinsEP (2 ^ symbol - 1) symbol) (\<lambda>t. get_ones symbol t \<bind> (\<lambda>(_, t). Some (symbol, t))) symbol"
        by (rule codes_bind_end [OF codes_ones]) (use 2 in \<open>auto intro: codes_return\<close>)
      show "get_unary_max_eqprob maxSymbol t = Some y" if "get_ones symbol t \<bind> (\<lambda>(_, t). Some (symbol, t)) = Some y" for t y
        using that get_unary_eqprob_ones [of symbol t _ 0 maxSymbol] 2
        by (auto simp: bind_eq_Some_conv get_unary_max_eqprob_def get_unary_eqprob.simps [of maxSymbol maxSymbol])
    qed
    then show ?thesis using 2 unary_ones_eq [of 0 symbol 0] by (simp add: put_unary_max_eqprob_def [abs_def])
  next
    case 3
    have z: "codes (encodeBinsEP 0 1) (get_unary_eqprob maxSymbol symbol) symbol"
      unfolding get_unary_eqprob.simps [of maxSymbol symbol]
      by (rule codes_if_reader, rule codes_bind_end [OF codes_EPs_1]) (use 3 in \<open>auto intro: codes_return\<close>)
    have "codes (encodeBinsEP (2 ^ (symbol + 1) - 2) (symbol + 1)) (get_unary_max_eqprob maxSymbol) symbol"
      unfolding get_unary_max_eqprob_def
      by (rule codes_ones_zero [OF 3(2) _ z]) (use get_unary_eqprob_ones [of symbol _ _ 0 maxSymbol] 3 in simp)
    moreover have "u32 (2 * (2 ^ symbol - 1)) = 2 ^ (symbol + 1) - 2"
    proof -
      have "(2 :: nat) ^ (symbol + 1) \<le> 2 ^ 32" using 3 by (intro power_increasing) auto
      then have "(2 :: nat) ^ (symbol + 1) - 2 < 2 ^ 32" by (simp add: less_eq_Suc_le)
      then show ?thesis by (simp add: right_diff_distrib' take_bit_nat_eq_self)
    qed
    ultimately show ?thesis using 3 unary_ones_eq [of 0 symbol 0] by (simp add: put_unary_max_eqprob_def [abs_def])
  qed
qed

lemma codes_exp_golomb:
  assumes "symbol + 2 ^ count < 2 ^ 16"
  shows "codes (put_exp_golomb_eqprob symbol count) (get_exp_golomb_eqprob count) symbol"
proof -
  have "symbol < 2 ^ (count + 32 - 0)"
    using assms power_increasing [of 32 "count + 32 - 0" "2 :: nat"] by simp
  from exp_golomb_prefix_eq [OF _ _ this, of 0] obtain k r where k:
    "exp_golomb_prefix symbol count 0 0 = (r, count + k, u32 (2 ^ k - 1), k)"
    "symbol = (2 ^ k - 1) * 2 ^ count + r" "r < 2 ^ (count + k)" by auto
  define c where "c = count + k"
  have "(2 :: nat) ^ c = 2 ^ k * 2 ^ count" by (simp add: c_def power_add)
  also have "\<dots> = (2 ^ k - 1) * 2 ^ count + 2 ^ count" by (cases "(2 :: nat) ^ k") simp_all
  finally have p: "(2 ^ k - 1) * 2 ^ count + 2 ^ count = (2 :: nat) ^ c" by simp
  with k(2) assms have "(2 :: nat) ^ c < 2 ^ 16" by linarith
  then have c: "c < 16" by (simp only: power_strict_increasing_iff)
  define a :: nat where "a = 2 ^ (k + 1) - 2"
  have kb: "(2 :: nat) ^ (k + 1) \<le> 2 ^ 32" using c by (intro power_increasing) (auto simp: c_def)
  have "(0 :: nat) < 2 ^ (k + 1)" by simp
  then have a: "a < 2 ^ (k + 1)" "a < 2 ^ 32" using kb unfolding a_def by linarith+
  have bins: "u32 (2 * u32 (2 ^ k - 1)) = a"
  proof -
    have "(2 :: nat) ^ k - 1 < 2 ^ 32" using kb by simp
    then have "u32 (2 ^ k - 1) = 2 ^ k - 1" by (rule take_bit_nat_eq_self)
    then show ?thesis using a(2) by (simp add: a_def right_diff_distrib' take_bit_nat_eq_self)
  qed
  have r: "r < 2 ^ c" using k(3) by (simp add: c_def)
  have "a * 2 ^ c + r < 2 ^ (k + 1 + c)" by (rule shift_less [OF a(1) r])
  also have "\<dots> \<le> (2 :: nat) ^ 32" by (rule power_increasing) (use c in \<open>auto simp: c_def\<close>)
  finally have or: "u32 (push_bit c a) OR r = a * 2 ^ c + r" by (rule or_shift [OF r])
  have w: "put_exp_golomb_eqprob symbol count s = encodeBinsEP (a * 2 ^ c + r) (k + 1 + c) s" for s :: "'a binenc"
    using c unfolding put_exp_golomb_eqprob_def k(1) c_def [symmetric] Let_def split bins or by (simp add: c_def)
  let ?x = "(2 ^ k - 1) * 2 ^ count :: nat"
  have x: "?x < 2 ^ 32" "?x + r = symbol" using k(2) assms by simp_all
  have z: "codes (encodeBinsEP 0 1) (exp_golomb_ones ?x c) (?x, c + 1)"
    unfolding exp_golomb_ones.simps [of ?x c]
    by (rule codes_bind_end [OF codes_EPs_1]) (use c x(1) in \<open>auto intro!: codes_return simp: take_bit_nat_eq_self\<close>)
  have u: "codes (encodeBinsEP a (k + 1)) (exp_golomb_ones 0 count) (?x, c + 1)" unfolding a_def
    by (rule codes_ones_zero [OF _ _ z]) (use exp_golomb_ones_ones [of k _ _ count 0] c x(1) in \<open>auto simp: c_def\<close>)
  show ?thesis
  proof (cases "c = 0")
    case True
    have "codes (encodeBinsEP a (k + 1)) (get_exp_golomb_eqprob count) symbol"
      unfolding get_exp_golomb_eqprob_def
      by (rule codes_bind_end [OF u]) (use True x r in \<open>auto intro!: codes_return\<close>)
    then show ?thesis using True r by (simp add: w [abs_def])
  next
    case False
    have "codes (\<lambda>s. encodeBinsEP a (k + 1) s \<bind> encodeBinsEP r c) (get_exp_golomb_eqprob count) symbol"
      unfolding get_exp_golomb_eqprob_def
    proof (rule codes_bind [OF u])
      have "codes (encodeBinsEP r c) (\<lambda>t. decodeBinsEP c t \<bind> (\<lambda>(bins, t). Some (u32 (?x + bins), t))) symbol"
        by (rule codes_bind_end [OF codes_EPs]) (use c r x assms in \<open>auto intro!: codes_return simp: take_bit_nat_eq_self\<close>)
      then show "codes (encodeBinsEP r c) (case (?x, c + 1) of (symbol, count) \<Rightarrow> \<lambda>t.
          let count = count - 1 in if count \<noteq> 0 then decodeBinsEP count t \<bind> (\<lambda>(bins, t). Some (u32 (symbol + bins), t))
          else Some (symbol, t)) symbol" using False by simp
    qed
    then have "codes (encodeBinsEP (a * 2 ^ c + r) (k + 1 + c)) (get_exp_golomb_eqprob count) symbol"
      by (rule codes_split) (use c a r in \<open>auto simp: c_def\<close>)
    then show ?thesis by (simp add: w [abs_def])
  qed
qed

end

section \<open>Context coded truncated unary and truncated binary codes\<close>

lemma uiThresh_of_bounds: "0 < m \<Longrightarrow> \<exists>k. uiThresh_of m = Some k \<and> 2 ^ k \<le> m \<and> m < 2 ^ (k + 1)"
  using tb_thresh_bounds [of m] unfolding uiThresh_of_def tb_thresh_def g_NonMPM_def g_tbMax_def .

context arith_coder
begin

lemma codes_unary_bins:
  assumes "c0 < N" "cN < N" "symbol \<le> m"
  shows "k \<le> symbol \<Longrightarrow> k + n = min (symbol + 1) m \<Longrightarrow>
    codes (put_unary_bins P symbol c0 cN k n) (get_unary_bins P c0 cN m k) symbol"
proof (induction n arbitrary: k)
  case 0
  then have "k = symbol" "symbol = m" using assms(3) by (auto simp: min_def split: if_splits)
  then show ?case by (simp add: codes_def get_unary_bins.simps)
next
  case (Suc n)
  let ?r = "\<lambda>b t. if b = 1 then get_unary_bins P c0 cN m (k + 1) t else Some (k, t)"
  have "codes (put_unary_bins P symbol c0 cN (k + 1) n) (?r (of_bool (symbol > k))) symbol"
  proof (cases "symbol > k")
    case True
    then show ?thesis using Suc.IH [of "k + 1"] Suc.prems by simp
  next
    case False
    then have "k = symbol" "n = 0" using Suc.prems by (auto simp: min_def split: if_splits)
    then show ?thesis by (simp add: codes_def)
  qed
  then have "codes (put_unary_bins P symbol c0 cN k (Suc n)) (\<lambda>t. decodeBin P (if k = 0 then c0 else cN) t \<bind> (\<lambda>(b, t). ?r b t)) symbol"
    unfolding put_unary_bins.simps by (intro codes_bind [OF codes_bin]) (use assms in auto)
  moreover have "k < m" using Suc.prems by (simp add: min_def split: if_splits)
  then have "(\<lambda>t. decodeBin P (if k = 0 then c0 else cN) t \<bind> (\<lambda>(b, t). ?r b t)) = get_unary_bins P c0 cN m k"
    by (simp add: fun_eq_iff get_unary_bins.simps [of P c0 cN m k])
  ultimately show ?case by (simp only:)
qed

lemma codes_unary_max_symbol:
  assumes "c0 < N" "cN < N" "symbol \<le> m" "symbol + 1 < 2 ^ 32"
  shows "codes (put_unary_max_symbol P symbol c0 cN m) (get_unary_max_symbol P c0 cN m) symbol"
  using codes_unary_bins [OF assms(1-3), of 0 "min (symbol + 1) m"] assms(3,4)
  by (simp add: put_unary_max_symbol_def [abs_def] get_unary_max_symbol_def take_bit_nat_eq_self)

lemma codes_trunc_bin:
  assumes "symbol < m" "m < 2 ^ 31"
  shows "codes (xWriteTruncBinCode symbol m) (xReadTruncBinCode m) symbol"
proof -
  from uiThresh_of_bounds [of m] assms(1) obtain k where k: "uiThresh_of m = Some k" "2 ^ k \<le> m" "m < 2 ^ (k + 1)" by auto
  have "(2 :: nat) ^ k < 2 ^ 31" using k(2) assms(2) by linarith
  then have k31: "k < 31" by (simp only: power_strict_increasing_iff)
  have v: "u32 (push_bit k 1) = 2 ^ k" "u32 (push_bit 1 (2 ^ k)) = 2 ^ (k + 1)"
    using k31 by (simp_all add: push_bit_nat_def mult.commute flip: power_Suc)
  have b: "sub32 m (2 ^ k) = m - 2 ^ k" using k(2) assms(2) by (simp add: sub32_ge)
  have "sub32 (2 ^ k) (m - 2 ^ k) = 2 ^ k - (m - 2 ^ k)"
    using k(3) assms(2) k(2) by (intro sub32_ge) auto
  also have "\<dots> = 2 ^ (k + 1) - m" using k(2,3) by simp
  finally have d: "sub32 (2 ^ k) (m - 2 ^ k) = 2 ^ (k + 1) - m" .
  have bl: "m - 2 ^ k < 2 ^ k"
  proof -
    have "m < 2 ^ k + 2 ^ k" using k(3) by simp
    then show ?thesis using k(2) by linarith
  qed
  define e where "e = 2 ^ (k + 1) - m"
  have e: "e \<le> 2 ^ k" "e + m = 2 ^ (k + 1)" "0 < e" using k(2,3) by (simp_all add: e_def)
  let ?r = "\<lambda>sym t. if sym \<ge> e then decodeBinEP t \<bind> (\<lambda>(b, t). Some (sub32 (u32 (u32 (push_bit 1 sym) + b)) e, t)) else Some (sym, t)"
  have w: "xWriteTruncBinCode symbol m s = (if symbol < e then encodeBinsEP symbol k s else encodeBinsEP (symbol + e) (k + 1) s)"
    for s :: "'a binenc"
  proof -
    have "(2 :: nat) ^ (k + 1) \<le> 2147483648" using power_increasing [of "k + 1" 31 "2 :: nat"] k31 by simp
    moreover have "symbol + e < 2147483648 + 2147483648" using assms e calculation by (simp del: power_Suc)
    ultimately have "u32 (symbol + e) = symbol + e" by (intro take_bit_nat_eq_self) simp
    moreover have "\<not> symbol < e \<Longrightarrow> e \<le> (symbol + e) div 2" by simp
    ultimately show ?thesis
      unfolding xWriteTruncBinCode_def k(1) bind.bind_lunit Let_def v b d e_def [symmetric]
      using k(2,3) assms(1) bl e by (cases "symbol < e") (simp_all add: drop_bit_nat_def)
  qed
  have f: "sub32 (u32 (u32 (push_bit 1 x) + b)) e = 2 * x + b - e" if "x < 2 ^ k" "b \<le> 1" "e \<le> x" for x b
  proof -
    have "(2 :: nat) ^ (k + 1) \<le> 2 ^ 31" using k31 by (intro power_increasing) auto
    then have "2 * x + b < 2 ^ 31" using that by simp
    then show ?thesis using that by (simp add: push_bit_nat_def take_bit_nat_eq_self sub32_ge mult.commute)
  qed
  have r: "xReadTruncBinCode m t = decodeBinsEP k t \<bind> (\<lambda>(sym, t). ?r sym t)" for t :: "'a bindec"
    by (simp only: xReadTruncBinCode_def k(1) bind.bind_lunit Let_def v b d e_def [symmetric])
  show ?thesis
    unfolding w [abs_def] r [abs_def]
    by (rule codes_trunc [OF k(2,3) e_def assms(1) _ codes_EPs_1 f]) (use k31 in auto)
qed

end

section \<open>Remaining absolute levels\<close>

definition remAbs_ok :: "nat \<Rightarrow> nat \<Rightarrow> bool \<Rightarrow> nat \<Rightarrow> bool" where
  "remAbs_ok bins goRicePar useLimitedPrefixLength maxLog2TrDynamicRange \<longleftrightarrow>
     goRicePar < 10 \<and> bins < 2 ^ 24
     \<and> (useLimitedPrefixLength \<longrightarrow> 6 \<le> maxLog2TrDynamicRange \<and> maxLog2TrDynamicRange \<le> 26
          \<and> (bins < (g_auiGoRiceRange ! goRicePar) * 2 ^ goRicePar
             \<or> 3 \<le> goRicePar \<and> bins < 2 ^ maxLog2TrDynamicRange))"

definition rice_entry_ok :: "nat \<Rightarrow> nat \<Rightarrow> bool" where
  "rice_entry_ok g rr \<longleftrightarrow> 3 \<le> rr \<and> rr \<le> 6 \<and> (3 \<le> g \<longrightarrow> rr = 3) \<and> rr * 2 ^ g < 2 ^ 32"

lemma rice_table: "list_all (\<lambda>g. rice_entry_ok g (g_auiGoRiceRange ! g)) [0..<10]"
  by (simp add: rice_entry_ok_def g_auiGoRiceRange_def upt_conv_Cons)

lemma rice_range:
  assumes "g < 10" "rr = g_auiGoRiceRange ! g"
  shows "arr_get g_auiGoRiceRange g = Some rr" "3 \<le> rr" "rr \<le> 6" "3 \<le> g \<Longrightarrow> rr = 3" "u32 (push_bit g rr) = rr * 2 ^ g"
proof -
  have "rice_entry_ok g rr" using rice_table assms by (simp add: list_all_iff)
  then show "arr_get g_auiGoRiceRange g = Some rr" "3 \<le> rr" "rr \<le> 6" "3 \<le> g \<Longrightarrow> rr = 3" "u32 (push_bit g rr) = rr * 2 ^ g"
    using assms by (auto simp: rice_entry_ok_def arr_get_def g_auiGoRiceRange_def push_bit_nat_def take_bit_nat_eq_self)
qed

lemma prefix_length_eq: "2 ^ p \<le> c + 1 \<Longrightarrow> c + 1 < 2 ^ (p + 1) \<Longrightarrow> q \<le> p \<Longrightarrow> prefix_length c q = p"
proof (induction "p - q" arbitrary: q)
  case 0
  then have "\<not> 2 * 2 ^ q - 2 < c" by simp
  with 0 show ?case by (simp add: prefix_length.simps [of c q])
next
  case (Suc d)
  then have "(2 :: nat) ^ (q + 1) \<le> 2 ^ p" by (intro power_increasing) auto
  moreover have "(1 :: nat) \<le> 2 ^ q" by (rule one_le_power) simp
  ultimately have "2 * 2 ^ q - 2 < c" using Suc.prems(1) unfolding power_add power_one_right by linarith
  with Suc show ?case by (simp add: prefix_length.simps [of c q])
qed

lemma escape_length_eq: "\<exists>k. escape_length bins n = (bins + 2 ^ n - 2 ^ (n + k), n + k)
    \<and> 2 ^ (n + k) \<le> bins + 2 ^ n \<and> bins + 2 ^ n < 2 ^ (n + k + 1)"
proof (induction bins n rule: escape_length.induct)
  case (1 bins n)
  show ?case
  proof (cases "2 ^ n \<le> bins")
    case True
    from "1.IH" [OF True] obtain k where k:
      "escape_length (bins - 2 ^ n) (n + 1) = (bins - 2 ^ n + 2 ^ (n + 1) - 2 ^ (n + 1 + k), n + 1 + k)"
      "2 ^ (n + 1 + k) \<le> bins - 2 ^ n + 2 ^ (n + 1)" "bins - 2 ^ n + 2 ^ (n + 1) < 2 ^ (n + 1 + k + 1)" by blast
    have "bins - 2 ^ n + 2 ^ (n + 1) = bins + 2 ^ n" using True by simp
    with k True show ?thesis by (intro exI [of _ "Suc k"]) (simp add: escape_length.simps [of bins n])
  next
    case False
    then show ?thesis by (intro exI [of _ 0]) (simp add: escape_length.simps [of bins n])
  qed
qed

text \<open>The end of the prefix: a zero bin.\<close>

context arith_coder
begin

lemma codes_unlimited_prefix:
  assumes "n < 32"
  shows "codes (encodeBinsEP (2 ^ (n + 1) - 2) (n + 1)) (unlimited_prefix 0) n"
proof (rule codes_ones_zero [OF assms])
  show "unlimited_prefix 0 t = unlimited_prefix n t'" if "get_ones n t = Some ((), t')" for t t' :: "'a bindec"
    using unlimited_prefix_ones [OF that, of 0] assms by simp
  show "codes (encodeBinsEP 0 1) (unlimited_prefix n) n"
    unfolding unlimited_prefix.simps [of n, abs_def]
    by (rule codes_bind_end [OF codes_EPs_1]) (auto intro: codes_return)
qed

lemma codes_limited_zero: "codes (encodeBinsEP 0 1) (limited_prefix m n) n"
  unfolding limited_prefix.simps [of m n, abs_def]
  by (rule codes_bind_end [OF codes_EPs_1]) (auto intro: codes_return)

lemma codes_limited_prefix:
  assumes "n < 32" "n < m"
  shows "codes (encodeBinsEP (2 ^ (n + 1) - 2) (n + 1)) (limited_prefix m 0) n"
proof (rule codes_ones_zero [OF assms(1)])
  show "limited_prefix m 0 t = limited_prefix m n t'" if "get_ones n t = Some ((), t')" for t t' :: "'a bindec"
    using limited_prefix_ones [OF that, of 0] assms by simp
qed (rule codes_limited_zero)

lemma codes_limited_full:
  assumes "0 < n" "n \<le> 32"
  shows "codes (encodeBinsEP (2 ^ n - 1) n) (limited_prefix n 0) n"
proof (rule codes_weaken)
  show "codes (encodeBinsEP (2 ^ n - 1) n) (\<lambda>t. get_ones n t \<bind> (\<lambda>(_, t). Some (n, t))) n"
    by (rule codes_bind_end [OF codes_ones]) (use assms in \<open>auto intro: codes_return\<close>)
  obtain n' where n: "n = Suc n'" using assms(1) by (cases n) auto
  show "limited_prefix n 0 t = Some y" if "get_ones n t \<bind> (\<lambda>(_, t). Some (n, t)) = Some y" for t y
    using that limited_prefix_full [of n' t _ 0 n] by (auto simp: bind_eq_Some_conv n)
qed

text \<open>A code below the threshold: a unary quotient and the remainder.\<close>

lemma codes_below_threshold:
  assumes g: "g < 10" "rr = g_auiGoRiceRange ! g" "bins < rr * 2 ^ g" and m: "limited \<Longrightarrow> m \<le> 26"
  shows "codes (encodeRemAbsEP bins g limited m) (decodeRemAbsEP g limited m) bins"
proof -
  note rr = rice_range [OF g(1,2)]
  define q where "q = bins div 2 ^ g"
  have "q < rr" using g(3) by (simp add: q_def less_mult_imp_div_less)
  with rr(3) have q: "q < rr" "q < 6" by linarith+
  have r: "bins mod 2 ^ g < 2 ^ g" by simp
  have prefix: "codes (encodeBinsEP (2 ^ (q + 1) - 2) (q + 1))
      (\<lambda>t. if limited then limited_prefix (sub32 32 m) 0 t else unlimited_prefix 0 t) q"
    using m q(2) by (intro codes_if_reader codes_limited_prefix codes_unlimited_prefix) (auto simp: sub32_ge)
  have "u32 (push_bit g q) = q * 2 ^ g"
  proof -
    have "bins < 2 ^ 32" using rr(3) g(1,3) mult_le_mono [OF rr(3) power_increasing [of g 9 "2 :: nat"]] by simp
    moreover have "q * 2 ^ g \<le> bins" by (simp add: q_def)
    ultimately show ?thesis by (simp add: push_bit_nat_def take_bit_nat_eq_self)
  qed
  moreover have "codes (encodeBinsEP (bins mod 2 ^ g) g)
      (\<lambda>t. decodeBinsEP g t \<bind> (\<lambda>(b, t). Some (u32 (q * 2 ^ g + b), t))) bins"
  proof (rule codes_bind_end [OF codes_EPs])
    have "bins < 2 ^ 32" using rr(3) g(1,3) mult_le_mono [OF rr(3) power_increasing [of g 9 "2 :: nat"]] by simp
    then show "codes Some (\<lambda>t. Some (u32 (q * 2 ^ g + bins mod 2 ^ g), t)) bins"
      by (intro codes_return) (simp only: q_def div_mult_mod_eq, simp add: take_bit_nat_eq_self)
  qed (use g(1) in auto)
  ultimately have rest: "codes (encodeBinsEP (bins mod 2 ^ g) g) (\<lambda>t. (if q < rr then Some (u32 (push_bit g q), g) else undefined)
      \<bind> (\<lambda>(offset, len). decodeBinsEP len t \<bind> (\<lambda>(b, t). Some (u32 (offset + b), t)))) bins"
    using q(1) by simp
  have "codes (\<lambda>s. encodeBinsEP (2 ^ (q + 1) - 2) (q + 1) s \<bind> encodeBinsEP (bins mod 2 ^ g) g)
      (decodeRemAbsEP g limited m) bins"
    unfolding decodeRemAbsEP_def rr(1) bind.bind_lunit
    by (rule codes_bind [OF prefix]) (use rest q(1) in simp)
  moreover have "encodeRemAbsEP bins g limited m s
      = encodeBinsEP (2 ^ (q + 1) - 2) (q + 1) s \<bind> encodeBinsEP (bins mod 2 ^ g) g" for s :: "'a binenc"
    using g(3) and_mask_nat [of bins g]
    by (simp add: encodeRemAbsEP_def rr(1,5) q_def drop_bit_nat_def)
  ultimately show ?thesis by (rule codes_cong [OF _ sym refl refl])
qed

text \<open>Without the limit: \<open>rr + k\<close> ones, a zero, and \<open>g + k\<close> bits.\<close>

lemma codes_escape:
  assumes g: "g < 10" "rr = g_auiGoRiceRange ! g" "rr * 2 ^ g \<le> bins" and bins: "bins < 2 ^ 24"
  shows "codes (encodeRemAbsEP bins g False m) (decodeRemAbsEP g False m) bins"
proof -
  note rr = rice_range [OF g(1,2)]
  from escape_length_eq [of "bins - rr * 2 ^ g" g] obtain k where k:
    "escape_length (bins - rr * 2 ^ g) g = (bins - rr * 2 ^ g + 2 ^ g - 2 ^ (g + k), g + k)"
    "2 ^ (g + k) \<le> bins - rr * 2 ^ g + 2 ^ g" "bins - rr * 2 ^ g + 2 ^ g < 2 ^ (g + k + 1)" by blast
  define b where "b = bins - rr * 2 ^ g + 2 ^ g - 2 ^ (g + k)"
  have thr: "3 * 2 ^ g \<le> rr * 2 ^ g" using rr(2) by (rule mult_le_mono1)
  have "(2 :: nat) ^ (g + k) < 2 ^ 24"
  proof -
    have "(0 :: nat) < 2 ^ g" by simp
    then show ?thesis using k(2) thr g(3) bins by linarith
  qed
  then have gk: "g + k < 24" by (simp only: power_strict_increasing_iff)
  have b: "b < 2 ^ (g + k)" using k(2,3) unfolding b_def power_add power_one_right by linarith
  define off where "off = (2 ^ k + rr - 1) * 2 ^ g"
  have "off + 2 ^ g = 2 ^ (g + k) + rr * 2 ^ g"
  proof -
    have "2 ^ k + rr - 1 + 1 = 2 ^ k + rr" using rr(2) by simp
    then have "(2 ^ k + rr - 1) * 2 ^ g + 2 ^ g = (2 ^ k + rr) * 2 ^ g" by (metis add_mult_distrib mult_1)
    then show ?thesis by (simp add: off_def add_mult_distrib add_mult_distrib2 power_add mult.commute)
  qed
  then have sum: "off + b = bins" using k(2) g(3) unfolding b_def by linarith
  then have off: "off < 2 ^ 32" using bins by simp
  have rest: "codes (encodeBinsEP b (g + k)) (\<lambda>t. decodeBinsEP (g + k) t \<bind> (\<lambda>(b, t). Some (u32 (off + b), t))) bins"
    by (rule codes_bind_end [OF codes_EPs]) (use gk b sum bins in \<open>auto intro!: codes_return simp: take_bit_nat_eq_self\<close>)
  have "codes (\<lambda>s. encodeBinsEP (2 ^ (rr + k + 1) - 2) (rr + k + 1) s \<bind> encodeBinsEP b (g + k)) (decodeRemAbsEP g False m) bins"
    unfolding decodeRemAbsEP_def rr(1) bind.bind_lunit if_False
  proof (rule codes_bind [OF codes_unlimited_prefix])
    have "u32 (push_bit g (2 ^ (rr + k - rr) + rr - 1)) = off" "u32 (g + (rr + k - rr)) = g + k"
      using off gk by (simp_all add: off_def push_bit_nat_def take_bit_nat_eq_self)
    moreover have "\<not> rr + k < rr" "\<not> rr + k - rr \<ge> 31" using gk by simp_all
    ultimately show "codes (encodeBinsEP b (g + k)) (\<lambda>t. (if rr + k < rr then Some (u32 (push_bit g (rr + k)), g)
        else check_not (31 \<le> rr + k - rr) \<bind> (\<lambda>_. let offset = u32 (push_bit g (2 ^ (rr + k - rr) + rr - 1))
           in Some (offset, u32 (g + (rr + k - rr)))))
        \<bind> (\<lambda>(offset, len). decodeBinsEP len t \<bind> (\<lambda>(bins, t). Some (u32 (offset + bins), t)))) bins"
      using rest by (simp only: if_False Let_def check_not_simps bind.bind_lunit split)
  qed (use gk rr(3) in simp)
  moreover have "encodeRemAbsEP bins g False m s
      = encodeBinsEP (2 ^ (rr + k + 1) - 2) (rr + k + 1) s \<bind> encodeBinsEP b (g + k)" for s :: "'a binenc"
  proof -
    have "rr + (g + k) + 1 - g = rr + k + 1" "\<not> rr + k + 1 \<ge> 31" "\<not> bins < rr * 2 ^ g" using gk rr(3) g(3) by simp_all
    then show ?thesis
      by (simp only: encodeRemAbsEP_def rr(1,5) bind.bind_lunit Let_def k(1) b_def [symmetric] split if_False check_not_simps)
  qed
  ultimately show ?thesis by (rule codes_cong [OF _ sym refl refl])
qed

text \<open>With the limit on the prefix.\<close>

lemma codes_limited_escape:
  assumes g: "3 \<le> g" "g < 10" "3 * 2 ^ g \<le> bins" and m: "6 \<le> m" "m \<le> 26" "bins < 2 ^ m"
  shows "codes (encodeRemAbsEP bins g True m) (decodeRemAbsEP g True m) bins"
proof -
  have rr0: "g_auiGoRiceRange ! g = 3" using rice_range(4) [OF g(2) refl] g(1) by simp
  note rr = rice_range(1,5) [OF g(2) rr0 [symmetric]]
  have bins: "bins < 2 ^ 26" using m(2,3) power_increasing [of m 26 "2 :: nat"] by simp
  then have bins32: "bins < 2 ^ 32" by simp
  have "(2 :: nat) ^ g < 2 ^ m" using g(3) m(3) by linarith
  then have gm: "g < m" by (simp only: power_strict_increasing_iff)
  define q low where "q = bins div 2 ^ g" and "low = bins mod 2 ^ g"
  have q: "3 \<le> q" "q * 2 ^ g + low = bins" "low < 2 ^ g" "q \<le> bins"
    using div_le_mono [OF g(3), of "2 ^ g"] unfolding q_def low_def by (simp, simp only: div_mult_mod_eq, simp, simp)
  have low: "bins AND (2 ^ g - 1) = low" using and_mask_nat [of bins g] by (simp add: low_def)
  have s: "sub32 q 3 = q - 3" "sub32 29 m = 29 - m" "sub32 32 m = 32 - m" "(32 - 3 :: nat) = 29" "drop_bit g bins = q"
    using q(1,4) bins m(1,2) by (simp_all add: sub32_ge) (simp add: q_def drop_bit_nat_def)
  text \<open>The suffix and what the decoder adds to it.\<close>
  have suffix: "u32 (push_bit g (sub32 (q - 3) (2 ^ p - 1))) OR low = (q - 2 - 2 ^ p) * 2 ^ g + low"
    "u32 (push_bit g (2 ^ p + 3 - 1)) = (2 ^ p + 2) * 2 ^ g"
    "(2 ^ p + 2) * 2 ^ g + ((q - 2 - 2 ^ p) * 2 ^ g + low) = bins" if "2 ^ p \<le> q - 2" for p
  proof -
    have qp: "q = (2 ^ p + 2) + (q - 2 - 2 ^ p)" using that q(1) by simp
    then have e: "(2 ^ p + 2) * 2 ^ g + (q - 2 - 2 ^ p) * 2 ^ g = q * 2 ^ g" by (metis add_mult_distrib)
    then show sum: "(2 ^ p + 2) * 2 ^ g + ((q - 2 - 2 ^ p) * 2 ^ g + low) = bins" using q(2) by linarith
    then have l: "(q - 2 - 2 ^ p) * 2 ^ g + low < 2 ^ 32" "(2 ^ p + 2) * 2 ^ g < (2 :: nat) ^ 32" using bins32 by linarith+
    have "sub32 (q - 3) (2 ^ p - 1) = q - 3 - (2 ^ p - 1)" by (rule sub32_ge) (use that q(4) bins32 in linarith)+
    also have "\<dots> = q - 2 - 2 ^ p" 
    proof -
      have "(1 :: nat) \<le> 2 ^ p" by (rule one_le_power) simp
      then show ?thesis using that q(1) by linarith
    qed
    finally show "u32 (push_bit g (sub32 (q - 3) (2 ^ p - 1))) OR low = (q - 2 - 2 ^ p) * 2 ^ g + low"
      using or_shift [OF q(3) l(1)] by simp
    show "u32 (push_bit g (2 ^ p + 3 - 1)) = (2 ^ p + 2) * 2 ^ g" using l(2) by (simp add: push_bit_nat_def take_bit_nat_eq_self)
  qed
  text \<open>The decoder after the prefix.\<close>
  have rest: "codes (encodeBinsEP x n) (\<lambda>t. (if p + 3 < 3 then Some (u32 (push_bit g (p + 3)), g)
        else check_not (31 \<le> p + 3 - 3) \<bind> (\<lambda>_. let offset = u32 (push_bit g (2 ^ (p + 3 - 3) + 3 - 1))
           in Some (offset, u32 (g + (if True then if p + 3 = sub32 32 m then sub32 m g else sub32 (p + 3) COEF_REMAIN_BIN_REDUCTION else p + 3 - 3)))))
        \<bind> (\<lambda>(offset, len). decodeBinsEP len t \<bind> (\<lambda>(bins, t). Some (u32 (offset + bins), t)))) bins"
    if "x = (q - 2 - 2 ^ p) * 2 ^ g + low" "x < 2 ^ n" "n \<le> 32" "2 ^ p \<le> q - 2" "p < 31"
      "n = (if p + 3 = 32 - m then m else g + p)" for x n p
  proof -
    have "codes (encodeBinsEP x n) (\<lambda>t. decodeBinsEP n t \<bind> (\<lambda>(b, t). Some (u32 ((2 ^ p + 2) * 2 ^ g + b), t))) bins"
      by (rule codes_bind_end [OF codes_EPs [OF that(3,2)]])
        (use suffix(3) [OF that(4)] bins that(1) in \<open>auto intro!: codes_return simp: take_bit_nat_eq_self simp del: add_mult_distrib\<close>)
    moreover have "u32 (g + (if p + 3 = 32 - m then sub32 m g else sub32 (p + 3) COEF_REMAIN_BIN_REDUCTION)) = n"
      using that(5,6) gm m(2) g(2) by (simp add: sub32_ge COEF_REMAIN_BIN_REDUCTION_def take_bit_nat_eq_self)
    moreover have "\<not> p + 3 < 3" "\<not> 31 \<le> p + 3 - 3" "p + 3 - 3 = p" using that(5) by simp_all
    ultimately show ?thesis
      by (simp only: if_False if_True Let_def check_not_simps bind.bind_lunit split suffix(2) [OF that(4)] s(3))
  qed
  have rd: "decodeRemAbsEP g True m t = limited_prefix (sub32 32 m) 0 t \<bind> (\<lambda>(p, t). (if p < 3 then Some (u32 (push_bit g p), g)
        else check_not (31 \<le> p - 3) \<bind> (\<lambda>_. let offset = u32 (push_bit g (2 ^ (p - 3) + 3 - 1))
           in Some (offset, u32 (g + (if True then if p = sub32 32 m then sub32 m g else sub32 p COEF_REMAIN_BIN_REDUCTION else p - 3)))))
        \<bind> (\<lambda>(offset, len). decodeBinsEP len t \<bind> (\<lambda>(bins, t). Some (u32 (offset + bins), t))))" for t :: "'a bindec"
    by (simp only: decodeRemAbsEP_def rr(1) bind.bind_lunit if_True)
  have nb: "\<not> bins < 3 * 2 ^ g" using g(3) by simp
  show ?thesis
  proof (cases "2 ^ (29 - m) \<le> q - 2")
    case True
    define x where "x = (q - 2 - 2 ^ (29 - m)) * 2 ^ g + low"
    have x: "x < 2 ^ m" using suffix(3) [OF True] m(3) unfolding x_def by linarith
    have "codes (\<lambda>s. encodeBinsEP (2 ^ (32 - m) - 1) (32 - m) s \<bind> encodeBinsEP x m) (decodeRemAbsEP g True m) bins"
      unfolding rd [abs_def]
    proof (rule codes_bind)
      show "codes (encodeBinsEP (2 ^ (32 - m) - 1) (32 - m)) (limited_prefix (sub32 32 m) 0) (32 - m)"
        unfolding s(3) by (rule codes_limited_full) (use m in auto)
      have e: "29 - m + 3 = 32 - m" using m by simp
      show "codes (encodeBinsEP x m) (\<lambda>t. (if 32 - m < 3 then Some (u32 (push_bit g (32 - m)), g)
          else check_not (31 \<le> 32 - m - 3) \<bind> (\<lambda>_. let offset = u32 (push_bit g (2 ^ (32 - m - 3) + 3 - 1))
             in Some (offset, u32 (g + (if True then if 32 - m = sub32 32 m then sub32 m g
                  else sub32 (32 - m) COEF_REMAIN_BIN_REDUCTION else 32 - m - 3)))))
          \<bind> (\<lambda>(offset, len). decodeBinsEP len t \<bind> (\<lambda>(bins, t). Some (u32 (offset + bins), t)))) bins"
        by (rule rest [OF x_def x _ True, unfolded e]) (use m in simp_all)
    qed
    moreover have "encodeRemAbsEP bins g True m s = encodeBinsEP (2 ^ (32 - m) - 1) (32 - m) s \<bind> encodeBinsEP x m" for s :: "'a binenc"
    proof -
      have "29 - m + 3 = 32 - m" "\<not> 32 - m \<ge> 31" "2 ^ (29 - m) - 1 \<le> q - 3" using m True by simp_all
      then show ?thesis
        by (simp only: encodeRemAbsEP_def rr bind.bind_lunit Let_def split if_True if_False check_not_simps
            COEF_REMAIN_BIN_REDUCTION_def s nb low suffix(1) [OF True] x_def)
    qed
    ultimately show ?thesis by (rule codes_cong [OF _ sym refl refl])
  next
    case False
    have "1 \<le> q - 2" using q(1) by simp
    from ex_power_ivl1 [OF order.refl this] obtain p where p: "2 ^ p \<le> q - 2" "q - 2 < 2 ^ (p + 1)" by blast
    have "(2 :: nat) ^ p < 2 ^ (29 - m)" using p(1) False by linarith
    then have pm: "p < 29 - m" by (simp only: power_strict_increasing_iff)
    define x where "x = (q - 2 - 2 ^ p) * 2 ^ g + low"
    have "q - 2 - 2 ^ p < 2 ^ p" using p unfolding power_add by simp
    from shift_less [OF this q(3)] have x: "x < 2 ^ (p + g)" unfolding x_def .
    have pl: "prefix_length (q - 3) 0 = p" by (rule prefix_length_eq) (use p q(1) in simp_all)
    have n32: "1 + (p + g) \<le> 32" using pm m g(2) by simp
    have "codes (\<lambda>s. encodeBinsEP 0 1 s \<bind> encodeBinsEP x (p + g)) (\<lambda>t. limited_prefix (sub32 32 m) (p + 3) t \<bind> (\<lambda>(p, t).
        (if p < 3 then Some (u32 (push_bit g p), g)
        else check_not (31 \<le> p - 3) \<bind> (\<lambda>_. let offset = u32 (push_bit g (2 ^ (p - 3) + 3 - 1))
           in Some (offset, u32 (g + (if True then if p = sub32 32 m then sub32 m g else sub32 p COEF_REMAIN_BIN_REDUCTION else p - 3)))))
        \<bind> (\<lambda>(offset, len). decodeBinsEP len t \<bind> (\<lambda>(bins, t). Some (u32 (offset + bins), t))))) bins"
      by (rule codes_bind [OF codes_limited_zero], rule rest [OF x_def x]) (use n32 p pm in auto)
    from codes_split [OF this n32 _ x] have sfx: "codes (encodeBinsEP x (1 + (p + g))) (\<lambda>t. limited_prefix (sub32 32 m) (p + 3) t \<bind> (\<lambda>(p, t).
        (if p < 3 then Some (u32 (push_bit g p), g)
        else check_not (31 \<le> p - 3) \<bind> (\<lambda>_. let offset = u32 (push_bit g (2 ^ (p - 3) + 3 - 1))
           in Some (offset, u32 (g + (if True then if p = sub32 32 m then sub32 m g else sub32 p COEF_REMAIN_BIN_REDUCTION else p - 3)))))
        \<bind> (\<lambda>(offset, len). decodeBinsEP len t \<bind> (\<lambda>(bins, t). Some (u32 (offset + bins), t))))) bins" by simp
    have "codes (\<lambda>s. encodeBinsEP (2 ^ (p + 3) - 1) (p + 3) s \<bind> encodeBinsEP x (1 + (p + g))) (decodeRemAbsEP g True m) bins"
    proof (rule codes_after_ones [OF _ _ _ sfx])
      show "decodeRemAbsEP g True m t = limited_prefix (sub32 32 m) (p + 3) t' \<bind> (\<lambda>(p, t).
        (if p < 3 then Some (u32 (push_bit g p), g)
        else check_not (31 \<le> p - 3) \<bind> (\<lambda>_. let offset = u32 (push_bit g (2 ^ (p - 3) + 3 - 1))
           in Some (offset, u32 (g + (if True then if p = sub32 32 m then sub32 m g else sub32 p COEF_REMAIN_BIN_REDUCTION else p - 3)))))
        \<bind> (\<lambda>(offset, len). decodeBinsEP len t \<bind> (\<lambda>(bins, t). Some (u32 (offset + bins), t))))"
        if "get_ones (p + 3) t = Some ((), t')" for t t' :: "'a bindec"
        unfolding rd using limited_prefix_ones [OF that, of 0 "sub32 32 m"] pm by (simp add: s(3))
    qed (use pm in auto)
    moreover have "encodeRemAbsEP bins g True m s = encodeBinsEP (2 ^ (p + 3) - 1) (p + 3) s \<bind> encodeBinsEP x (1 + (p + g))"
      for s :: "'a binenc"
    proof -
      have "p + g + 1 = 1 + (p + g)" "\<not> p + 3 \<ge> 31" "\<not> 2 ^ (29 - m) - 1 \<le> q - 3" using pm False q(1) m by simp_all
      then show ?thesis
        by (simp only: encodeRemAbsEP_def rr bind.bind_lunit Let_def split if_True if_False check_not_simps
            COEF_REMAIN_BIN_REDUCTION_def s nb low suffix(1) [OF p(1)] x_def pl)
    qed
    ultimately show ?thesis by (rule codes_cong [OF _ sym refl refl])
  qed
qed

lemma codes_RemAbs: "remAbs_ok bins g limited m \<Longrightarrow> codes (encodeRemAbsEP bins g limited m) (decodeRemAbsEP g limited m) bins"
  using codes_below_threshold [OF _ refl, of g bins limited m] codes_escape [OF _ refl, of g bins m]
    codes_limited_escape [of g bins m] rice_range(4) [OF _ refl, of g]
  by (cases limited; cases "bins < g_auiGoRiceRange ! g * 2 ^ g") (auto simp: remAbs_ok_def not_less)

text \<open>
  For Rice parameters below 3 the two sides disagree on where the escape codes start: the
  encoder goes over to them after \<open>g_auiGoRiceRange\<close> ones, but writes a prefix that counts from
  \<open>COEF_REMAIN_BIN_REDUCTION\<close>.
\<close>

lemma codes_limited_mismatch:
  "codes (encodeRemAbsEP 6 0 True 15)
     (\<lambda>t. decodeRemAbsEP 0 True 15 t \<bind> (\<lambda>(x, t). decodeBinsEP 2 t \<bind> (\<lambda>(y, t). Some ((x, y), t)))) (5, 0)"
proof -
  have rr: "arr_get g_auiGoRiceRange 0 = Some 6" by (simp add: g_auiGoRiceRange_def)
  have "prefix_length 3 0 = 2" by (simp add: prefix_length.simps)
  then have w: "encodeRemAbsEP 6 0 True 15 s = encodeBinsEP (2 ^ 5 - 1) 5 s \<bind> encodeBinsEP 0 3" for s :: "'a binenc"
    by (simp add: encodeRemAbsEP_def rr COEF_REMAIN_BIN_REDUCTION_def sub32_def)
  have r: "decodeRemAbsEP 0 True 15 t = limited_prefix 17 0 t \<bind> (\<lambda>(p, t).
      (if p < 6 then Some (u32 (push_bit 0 p), 0) else do {
        check_not (p - 6 \<ge> 31);
        let offset = u32 (push_bit 0 (2 ^ (p - 6) + 6 - 1));
        Some (offset, u32 (0 + (if True then (if p = sub32 32 15 then sub32 15 0
                   else sub32 p COEF_REMAIN_BIN_REDUCTION) else p - 6)))
      }) \<bind> (\<lambda>(offset, len). decodeBinsEP len t \<bind> (\<lambda>(b, t). Some (u32 (offset + b), t))))" for t :: "'a bindec"
    by (simp add: decodeRemAbsEP_def rr sub32_def)
  let ?k = "\<lambda>t. decodeBinsEP 0 t \<bind> (\<lambda>(b, t). decodeBinsEP 2 t \<bind> (\<lambda>(y, t). Some ((u32 (5 + b), y), t)))"
  have "codes (\<lambda>s. encodeBinsEP 0 0 s \<bind> encodeBinsEP 0 2) ?k (5, 0)"
    by (rule codes_bind [OF codes_EPs [of 0 0]], simp, simp, rule codes_bind_end [OF codes_EPs [of 2 0]])
      (simp_all add: codes_return)
  from codes_split [OF this] have "codes (encodeBinsEP 0 2) ?k (5, 0)" by (simp add: numeral_2_eq_2)
  then have "codes (\<lambda>s. encodeBinsEP 0 1 s \<bind> encodeBinsEP 0 2) (\<lambda>t. limited_prefix 17 5 t \<bind> (\<lambda>(p, t).
      if p = 5 then ?k t else None)) (5, 0)"
    by (intro codes_bind [OF codes_limited_zero]) simp
  from codes_split [OF this] have z: "codes (encodeBinsEP 0 3) (\<lambda>t. limited_prefix 17 5 t \<bind> (\<lambda>(p, t).
      if p = 5 then ?k t else None)) (5, 0)" by (simp add: numeral_3_eq_3 numeral_2_eq_2)
  have "codes (encodeBinsEP 0 3) (\<lambda>t. limited_prefix 17 5 t \<bind> (\<lambda>(p, t).
      (if p < 6 then Some (u32 (push_bit 0 p), 0) else do {
        check_not (p - 6 \<ge> 31);
        let offset = u32 (push_bit 0 (2 ^ (p - 6) + 6 - 1));
        Some (offset, u32 (0 + (if True then (if p = sub32 32 15 then sub32 15 0
                   else sub32 p COEF_REMAIN_BIN_REDUCTION) else p - 6)))
      }) \<bind> (\<lambda>(offset, len). decodeBinsEP len t \<bind> (\<lambda>(b, t). Some (u32 (offset + b), t))))
      \<bind> (\<lambda>(x, t). decodeBinsEP 2 t \<bind> (\<lambda>(y, t). Some ((x, y), t)))) (5, 0)"
  proof (rule codes_weaken [OF z], goal_cases)
    case (1 t y)
    then obtain t1 where t1: "limited_prefix 17 5 t = Some (5, t1)" "?k t1 = Some y"
      by (auto simp: bind_eq_Some_conv split: if_splits)
    then show ?case by (simp add: bind_assoc case_prod_beta')
  qed
  then have "codes (\<lambda>s. encodeBinsEP (2 ^ 5 - 1) 5 s \<bind> encodeBinsEP 0 3)
     (\<lambda>t. decodeRemAbsEP 0 True 15 t \<bind> (\<lambda>(x, t). decodeBinsEP 2 t \<bind> (\<lambda>(y, t). Some ((x, y), t)))) (5, 0)"
    by (rule codes_after_ones [rotated 3]) (auto simp: r dest!: limited_prefix_ones [of 5 _ _ 0 17])
  then show ?thesis by (rule codes_cong) (simp_all add: w)
qed

end

section \<open>Sequences of codes\<close>

datatype bin_code =
    Bins bin_op
  | RemAbs nat nat bool nat
  | UnaryCtx nat nat nat nat
  | UnaryEP nat nat
  | ExpGolomb nat nat
  | TruncBin nat nat

fun put_code :: "('m, 'z) prob_ops_scheme \<Rightarrow> bin_code \<Rightarrow> 'm binenc \<Rightarrow> 'm binenc option" where
  "put_code P (Bins e) = encode_op P e"
| "put_code P (RemAbs bins g limited m) = encodeRemAbsEP bins g limited m"
| "put_code P (UnaryCtx symbol c0 cN m) = put_unary_max_symbol P symbol c0 cN m"
| "put_code P (UnaryEP symbol m) = put_unary_max_eqprob symbol m"
| "put_code P (ExpGolomb symbol count) = put_exp_golomb_eqprob symbol count"
| "put_code P (TruncBin symbol m) = xWriteTruncBinCode symbol m"

fun get_code :: "('m, 'z) prob_ops_scheme \<Rightarrow> bin_code \<Rightarrow> 'm bindec \<Rightarrow> (bin_code \<times> 'm bindec) option" where
  "get_code P (Bins e) = (\<lambda>t. decode_op P e t \<bind> (\<lambda>(e, t). Some (Bins e, t)))"
| "get_code P (RemAbs _ g limited m) = (\<lambda>t. decodeRemAbsEP g limited m t \<bind> (\<lambda>(v, t). Some (RemAbs v g limited m, t)))"
| "get_code P (UnaryCtx _ c0 cN m) = (\<lambda>t. get_unary_max_symbol P c0 cN m t \<bind> (\<lambda>(v, t). Some (UnaryCtx v c0 cN m, t)))"
| "get_code P (UnaryEP _ m) = (\<lambda>t. get_unary_max_eqprob m t \<bind> (\<lambda>(v, t). Some (UnaryEP v m, t)))"
| "get_code P (ExpGolomb _ count) = (\<lambda>t. get_exp_golomb_eqprob count t \<bind> (\<lambda>(v, t). Some (ExpGolomb v count, t)))"
| "get_code P (TruncBin _ m) = (\<lambda>t. xReadTruncBinCode m t \<bind> (\<lambda>(v, t). Some (TruncBin v m, t)))"

fun put_codes :: "('m, 'z) prob_ops_scheme \<Rightarrow> bin_code list \<Rightarrow> 'm binenc \<Rightarrow> 'm binenc option" where
  "put_codes P [] s = Some s"
| "put_codes P (e # es) s = put_code P e s \<bind> put_codes P es"

fun get_codes :: "('m, 'z) prob_ops_scheme \<Rightarrow> bin_code list \<Rightarrow> 'm bindec \<Rightarrow> (bin_code list \<times> 'm bindec) option" where
  "get_codes P [] t = Some ([], t)"
| "get_codes P (e # es) t = get_code P e t \<bind> (\<lambda>(x, t). get_codes P es t \<bind> (\<lambda>(xs, t). Some (x # xs, t)))"

fun code_ok :: "nat \<Rightarrow> bin_code \<Rightarrow> bool" where
  "code_ok N (Bins e) \<longleftrightarrow> op_ok N e"
| "code_ok N (RemAbs bins g limited m) \<longleftrightarrow> remAbs_ok bins g limited m"
| "code_ok N (UnaryCtx symbol c0 cN m) \<longleftrightarrow> c0 < N \<and> cN < N \<and> symbol \<le> m \<and> symbol + 1 < 2 ^ 32"
| "code_ok N (UnaryEP symbol m) \<longleftrightarrow> symbol \<le> m \<and> (symbol < 32 \<or> m = 32)"
| "code_ok N (ExpGolomb symbol count) \<longleftrightarrow> symbol + 2 ^ count < 2 ^ 16"
| "code_ok N (TruncBin symbol m) \<longleftrightarrow> symbol < m \<and> m < 2 ^ 31"

context arith_coder
begin

lemma codes_bin_code: "code_ok N e \<Longrightarrow> codes (put_code P e) (get_code P e) e"
  by (cases e; simp; rule codes_bind_end;
      (rule codes_op codes_RemAbs codes_unary_max_symbol codes_unary_max_eqprob codes_exp_golomb codes_trunc_bin)?;
      simp add: codes_return)

lemma codes_bin_codes: "list_all (code_ok N) es \<Longrightarrow> codes (put_codes P es) (get_codes P es) es"
proof (induction es)
  case Nil
  then show ?case by (simp add: codes_return)
next
  case (Cons e es)
  then show ?case
    by (simp, intro codes_bind [OF codes_bin_code] codes_bind_end codes_return) (auto intro: codes_bind_end codes_return)
qed

end

section \<open>Properties\<close>

text \<open>
  C22. Any sequence of the binarisations (remaining absolute levels, truncated unary with contexts
  and without, Exp-Golomb, truncated binary) and plain bins in a slice is decoded to the
  values that were written, with the same context states, and the end of the slice is found, within the bounds of \<open>code_ok\<close>:
  remaining levels below \<open>2 ^ 24\<close> with a Rice parameter below 10 and, with the limited prefix length, without
  the escape code for Rice parameters below 3 (where the codes do not match);
  Exp-Golomb values that with \<open>2 ^ count\<close> stay below \<open>2 ^ 16\<close>; unary values below 32 without contexts, unless the largest is 32.
\<close>

theorem bin_codes_roundtrip:
  assumes "list_all (code_ok (length (enc_ctx s))) es" "enc_ready s" "bytes pb"
  shows "slice_decodes (put_codes BinProbModel_Std es) (get_codes BinProbModel_Std es) es s pb"
  by (rule std_slice_decodes [OF std.codes_bin_codes [OF assms(1)] assms(2,3)])

theorem bin_codes_roundtrip_witness:
  "let es = [RemAbs 1000 2 False 15, UnaryCtx 2 0 1 5, RemAbs 40 3 True 15, UnaryEP 7 7, ExpGolomb 99 1, TruncBin 44 45, Bins (CtxBin 2 1)]
   in slice_decodes (put_codes BinProbModel_Std es) (get_codes BinProbModel_Std es) es (new_enc 3 30 [154, 110, 200]) [7]"
  unfolding Let_def
  by (rule bin_codes_roundtrip) (simp_all add: enc_ready_new remAbs_ok_def g_auiGoRiceRange_def)

text \<open>
  C29. With the limited prefix length (extended precision), Rice parameter 0 and a dynamic range of
  15 bits, the level 6 is decoded as 5, and two bins of its code are left for the next element.
\<close>

theorem limited_prefix_mismatch:
  assumes "enc_ready s" "bytes pb"
  shows "slice_decodes (encodeRemAbsEP 6 0 True 15)
     (\<lambda>t. decodeRemAbsEP 0 True 15 t \<bind> (\<lambda>(x, t). decodeBinsEP 2 t \<bind> (\<lambda>(y, t). Some ((x, y), t)))) (5, 0) s pb"
  by (rule std_slice_decodes [OF std.codes_limited_mismatch assms])

theorem limited_prefix_mismatch_witness:
  "slice_decodes (encodeRemAbsEP 6 0 True 15)
     (\<lambda>t. decodeRemAbsEP 0 True 15 t \<bind> (\<lambda>(x, t). decodeBinsEP 2 t \<bind> (\<lambda>(y, t). Some ((x, y), t)))) (5, 0)
     (new_enc 3 30 [154, 110, 200]) [7]"
  by (rule limited_prefix_mismatch) (simp_all add: enc_ready_new)

end
