(* ===== verification/ContextTables.thy ===== *)
theory ContextTables
  imports Cabac
begin

text \<open>
  The context sets of \<open>ContextSetCfg\<close> (\<open>CommonLib/Contexts.cpp\<close>): one table of initialisation
  values per slice type for every syntax element, registered one after the other by
  \<open>addCtxSet\<close> during static initialisation, which also gives each set its place among the context
  models; and the store of context models \<open>CtxStore\<close> that is initialised from them.

  The tables are those of the configured build (\<open>JEM_TOOLS\<close>, \<open>JVET_K0072\<close>, \<open>JVET_K0371_ALF\<close>,
  \<open>JVET_K0248_GBI\<close>, \<open>INTRA67_3MPM\<close> set).  Shown is that the sets are disjoint and fill the range of the context models,
  so that two syntax elements never share a model, and that initialisation gives valid models for every slice type and
  quantiser.
\<close>

section \<open>Names and initialisation values of the context sets\<close>

datatype ctx_name =
    SplitFlag
  | BTSplitFlag
  | SkipFlag
  | MergeFlag
  | MergeIdx
  | PartSize
  | PredMode
  | IPredMode nat
  | PdpcFlag
  | DeltaQP
  | InterDir
  | RefPic
  | AffineFlag
  | AffineType
  | GBiIdx
  | Mvd
  | TransSubdivFlag
  | QtRootCbf
  | QtCbf nat
  | SigCoeffGroup nat
  | SigFlag nat
  | ParFlag nat
  | GtxFlag nat
  | LastX nat
  | LastY nat
  | MVPIdx
  | SaoMergeFlag
  | SaoTypeIdx
  | TransformSkipFlag
  | TransquantBypassFlag
  | NSSTIdx
  | RdpcmFlag
  | RdpcmDir
  | EMTTuIndex
  | EMTCuFlag
  | CrossCompPred
  | ChromaQpAdjFlag
  | ChromaQpAdjIdc
  | ImvFlag
  | LICFlag
  | ObmcFlag
  | FrucFlag
  | FrucMode
  | ctbAlfFlag

text \<open>The initialisation value of unused contexts.\<close>

definition CNU :: nat where "CNU = 154"

definition SplitFlag_init :: "nat list list" where
  "SplitFlag_init =
   [[107, 139, 126, 255, 0],
    [107, 139, 126, 255, 0],
    [139, 141, 157, 255, 0]]"

definition BTSplitFlag_init :: "nat list list" where
  "BTSplitFlag_init =
   [[107, 139, 126, 154, 154, 154, 154, 154, 154, 154, 154, 154],
    [107, 139, 126, 154, 154, 154, 154, 154, 154, 154, 154, 154],
    [139, 141, 157, 154, 154, 154, 154, 154, 154, 154, 154, 154]]"

definition SkipFlag_init :: "nat list list" where
  "SkipFlag_init =
   [[197, 185, 201],
    [197, 185, 201],
    [CNU, CNU, CNU]]"

definition MergeFlag_init :: "nat list list" where
  "MergeFlag_init =
   [[154],
    [110],
    [CNU]]"

definition MergeIdx_init :: "nat list list" where
  "MergeIdx_init =
   [[137, CNU, CNU, CNU, CNU],
    [122, CNU, CNU, CNU, CNU],
    [CNU, CNU, CNU, CNU, CNU]]"

definition PartSize_init :: "nat list list" where
  "PartSize_init =
   [[154, 139, 154, 154],
    [154, 139, 154, 154],
    [184, CNU, CNU, CNU]]"

definition PredMode_init :: "nat list list" where
  "PredMode_init =
   [[134],
    [149],
    [CNU]]"

definition IPredMode_init :: "nat list list list" where
  "IPredMode_init =
   [[[183],
     [154],
     [184]],
    [[139, 152, 139, 154, 154, 154, 154, 154, 154, 154, 154, 154],
     [139, 152, 139, 154, 154, 154, 154, 154, 154, 154, 154, 154],
     [139, 63, 139, 154, 154, 154, 154, 154, 154, 154, 154, 154]]]"

definition PdpcFlag_init :: "nat list list" where
  "PdpcFlag_init =
   [[107],
    [107],
    [139]]"

definition DeltaQP_init :: "nat list list" where
  "DeltaQP_init =
   [[154, 154, 154],
    [154, 154, 154],
    [154, 154, 154]]"

definition InterDir_init :: "nat list list" where
  "InterDir_init =
   [[95, 79, 63, 31, 31],
    [95, 79, 63, 31, 31],
    [CNU, CNU, CNU, CNU, CNU]]"

definition RefPic_init :: "nat list list" where
  "RefPic_init =
   [[153, 153],
    [153, 153],
    [CNU, CNU]]"

definition AffineFlag_init :: "nat list list" where
  "AffineFlag_init =
   [[197, 185, 201],
    [197, 185, 201],
    [CNU, CNU, CNU]]"

definition AffineType_init :: "nat list list" where
  "AffineType_init =
   [[92],
    [77],
    [CNU]]"

definition GBiIdx_init :: "nat list list" where
  "GBiIdx_init =
   [[95, 79, 63, 31, 31, 31, 31],
    [95, 79, 63, 31, 31, 31, 31],
    [CNU, CNU, CNU, CNU, CNU, CNU, CNU]]"

definition Mvd_init :: "nat list list" where
  "Mvd_init =
   [[169, 198],
    [140, 198],
    [CNU, CNU]]"

definition TransSubdivFlag_init :: "nat list list" where
  "TransSubdivFlag_init =
   [[224, 167, 122, 122, 122],
    [124, 138, 94, 94, 94],
    [153, 138, 138, 138, 138]]"

definition QtRootCbf_init :: "nat list list" where
  "QtRootCbf_init =
   [[79],
    [79],
    [CNU]]"

definition QtCbf_init :: "nat list list list" where
  "QtCbf_init =
   [[[153, 111],
     [153, 111],
     [111, 141]],
    [[149, 92, 167, 154, 154],
     [149, 107, 167, 154, 154],
     [94, 138, 182, 154, 154]],
    [[149, 149],
     [149, 149],
     [94, 94]]]"

definition SigCoeffGroup_init :: "nat list list list" where
  "SigCoeffGroup_init =
   [[[121, 140],
     [121, 140],
     [91, 171]],
    [[61, 154],
     [61, 154],
     [134, 141]],
    [[122, 143],
     [78, 111],
     [135, 155]],
    [[91, 141],
     [60, 140],
     [104, 139]]]"

definition SigFlag_init :: "nat list list list" where
  "SigFlag_init =
   [[[106, 167, 182, 124, 139, 169, 134, 167, 197, 183, 183, 184, 209, 198, 168, 168, 183, 170, CNU, CNU],
     [135, 152, 167, 153, 168, 140, 149, 182, 153, 183, 154, 155, 180, 198, 197, 183, 169, 170, CNU, CNU],
     [121, 138, 124, 139, 125, 111, 135, 139, 154, 140, 155, 127, 107, 185, 169, 170, 156, 143, CNU, CNU]],
    [[177, 196, 153, 124, 198, 183, 166, 213, 226, 198, 198, 156],
     [134, 168, 168, 154, 169, 199, 166, 214, 227, 229, 185, 142],
     [149, 168, 153, 111, 140, 126, 182, 200, 111, 143, 142, 158]],
    [[181, 127, 173, 201, 187, 173, 226, 173, 188, 202, 173, 188, 196, 223, 237, 223, 221, 223, CNU, CNU],
     [123, 142, 202, 157, 157, 188, 138, 158, 203, 173, 158, 174, 182, 223, 223, 223, 206, 237, CNU, CNU],
     [108, 157, 173, 158, 218, 189, 123, 159, 159, 174, 189, 204, 79, 223, 223, 207, 253, 191, CNU, CNU]],
    [[210, 170, 143, 143, 201, 244, 182, 223, 223, 223, 159, 223],
     [167, 155, 158, 186, 127, 158, 197, 223, 223, 223, 206, 237],
     [137, 158, 157, 187, 204, 159, 185, 223, 238, 220, 253, 237]],
    [[137, 142, 159, 158, 187, 159, 241, 174, 174, 159, 159, 203, 210, 223, 223, 223, 223, 223, CNU, CNU],
     [123, 157, 174, 143, 143, 203, 138, 159, 189, 159, 173, 174, 196, 223, 223, 223, 223, 223, CNU, CNU],
     [107, 143, 218, 173, 218, 189, 63, 219, 189, 175, 189, 204, 63, 223, 223, 223, 253, 191, CNU, CNU]],
    [[196, 199, 143, 172, 158, 203, 196, 223, 223, 223, 223, 223],
     [167, 155, 159, 157, 157, 158, 182, 223, 223, 223, 223, 223],
     [181, 159, 143, 232, 143, 173, 169, 237, 223, 223, 238, 253]]]"

definition ParFlag_init :: "nat list list list" where
  "ParFlag_init =
   [[[162, 134, 136, 167, 153, 138, 135, 167, 182, 168, 168, 150, 182, 153, 168, 110, 180, 168, 139, 168, 154],
     [133, 163, 151, 167, 138, 168, 149, 152, 153, 153, 124, 150, 153, 153, 168, 139, 166, 168, 168, 139, 139],
     [134, 120, 152, 123, 153, 153, 136, 123, 153, 168, 154, 152, 153, 153, 124, 139, 123, 168, 139, 154, 139]],
    [[57, 192, 194, 225, 153, 139, 209, 168, 213, 123, 95],
     [147, 164, 137, 153, 124, 153, 210, 183, 183, 154, 139],
     [134, 121, 182, 183, 138, 183, 198, 154, 154, 124, 154]]]"

definition GtxFlag_init :: "nat list list list" where
  "GtxFlag_init =
   [[[59, 57, 59, 133, 164, 165, 117, 147, 134, 150, 137, 133, 163, 121, 166, 167, 163, 135, 136, 181, 139],
     [45, 57, 58, 44, 149, 91, 73, 89, 105, 91, 122, 74, 105, 121, 122, 138, 119, 106, 107, 152, 139],
     [135, 43, 119, 90, 76, 107, 74, 75, 106, 77, 93, 105, 91, 122, 93, 94, 150, 136, 123, 153, 125]],
    [[133, 3, 14, 120, 135, 91, 179, 103, 194, 94, 111],
     [118, 102, 134, 135, 122, 123, 163, 120, 122, 153, 169],
     [195, 88, 74, 105, 152, 138, 120, 90, 107, 139, 184]],
    [[3, 3, 103, 119, 91, 151, 3, 148, 194, 152, 138, 147, 164, 166, 167, 168, 133, 180, 196, 139, 169],
     [3, 3, 118, 120, 106, 152, 3, 119, 121, 122, 153, 118, 135, 166, 138, 139, 148, 151, 182, 168, 184],
     [132, 102, 104, 121, 92, 93, 104, 106, 122, 123, 94, 105, 137, 153, 139, 95, 121, 123, 139, 154, 126]],
    [[3, 3, 176, 193, 137, 181, 161, 137, 183, 155, 111],
     [3, 3, 134, 137, 123, 124, 147, 167, 169, 199, 156],
     [147, 73, 164, 151, 107, 109, 120, 152, 140, 185, 111]]]"

definition LastX_init :: "nat list list list" where
  "LastX_init =
   [[[125, 110, 124, 110, 95, 94, 125, 111, 111, 79, 125, 126, 111, 111, 79, 126, 111, 111, 79, CNU, CNU, CNU, CNU, CNU, CNU],
     [125, 110, 94, 110, 95, 79, 125, 111, 110, 78, 110, 111, 111, 95, 94, 111, 111, 95, 94, CNU, CNU, CNU, CNU, CNU, CNU],
     [110, 110, 124, 125, 140, 153, 125, 127, 140, 109, 111, 143, 127, 111, 79, 143, 127, 111, 79, CNU, CNU, CNU, CNU, CNU, CNU]],
    [[108, 123, 93, 154],
     [108, 123, 108, 154],
     [108, 123, 63, 154]]]"

definition LastY_init :: "nat list list list" where
  "LastY_init =
   [[[125, 110, 124, 110, 95, 94, 125, 111, 111, 79, 125, 126, 111, 111, 79, 126, 111, 111, 79, CNU, CNU, CNU, CNU, CNU, CNU],
     [125, 110, 94, 110, 95, 79, 125, 111, 110, 78, 110, 111, 111, 95, 94, 111, 111, 95, 94, CNU, CNU, CNU, CNU, CNU, CNU],
     [110, 110, 124, 125, 140, 153, 125, 127, 140, 109, 111, 143, 127, 111, 79, 143, 127, 111, 79, CNU, CNU, CNU, CNU, CNU, CNU]],
    [[108, 123, 93, 154],
     [108, 123, 108, 154],
     [108, 123, 63, 154]]]"

definition MVPIdx_init :: "nat list list" where
  "MVPIdx_init =
   [[168],
    [168],
    [CNU]]"

definition SaoMergeFlag_init :: "nat list list" where
  "SaoMergeFlag_init =
   [[153],
    [153],
    [153]]"

definition SaoTypeIdx_init :: "nat list list" where
  "SaoTypeIdx_init =
   [[160],
    [185],
    [200]]"

definition TransformSkipFlag_init :: "nat list list" where
  "TransformSkipFlag_init =
   [[139, 139],
    [139, 139],
    [139, 139]]"

definition TransquantBypassFlag_init :: "nat list list" where
  "TransquantBypassFlag_init =
   [[154],
    [154],
    [154]]"

definition NSSTIdx_init :: "nat list list" where
  "NSSTIdx_init =
   [[107, 107, 107, 107, 107],
    [107, 107, 107, 107, 107],
    [139, 139, 139, 139, 139]]"

definition RdpcmFlag_init :: "nat list list" where
  "RdpcmFlag_init =
   [[139, 139],
    [139, 139],
    [CNU, CNU]]"

definition RdpcmDir_init :: "nat list list" where
  "RdpcmDir_init =
   [[139, 139],
    [139, 139],
    [CNU, CNU]]"

definition EMTTuIndex_init :: "nat list list" where
  "EMTTuIndex_init =
   [[CNU, CNU, CNU, CNU],
    [CNU, CNU, CNU, CNU],
    [CNU, CNU, CNU, CNU]]"

definition EMTCuFlag_init :: "nat list list" where
  "EMTCuFlag_init =
   [[CNU, CNU, CNU, CNU, CNU, CNU],
    [CNU, CNU, CNU, CNU, CNU, CNU],
    [CNU, CNU, CNU, CNU, CNU, CNU]]"

definition CrossCompPred_init :: "nat list list" where
  "CrossCompPred_init =
   [[154, 154, 154, 154, 154, 154, 154, 154, 154, 154],
    [154, 154, 154, 154, 154, 154, 154, 154, 154, 154],
    [154, 154, 154, 154, 154, 154, 154, 154, 154, 154]]"

definition ChromaQpAdjFlag_init :: "nat list list" where
  "ChromaQpAdjFlag_init =
   [[154],
    [154],
    [154]]"

definition ChromaQpAdjIdc_init :: "nat list list" where
  "ChromaQpAdjIdc_init =
   [[154],
    [154],
    [154]]"

definition ImvFlag_init :: "nat list list" where
  "ImvFlag_init =
   [[197, 185, 201, 185],
    [197, 185, 201, 185],
    [CNU, CNU, CNU, CNU]]"

definition LICFlag_init :: "nat list list" where
  "LICFlag_init =
   [[154],
    [154],
    [CNU]]"

definition ObmcFlag_init :: "nat list list" where
  "ObmcFlag_init =
   [[201],
    [201],
    [CNU]]"

definition FrucFlag_init :: "nat list list" where
  "FrucFlag_init =
   [[197, 185, 201],
    [197, 185, 201],
    [CNU, CNU, CNU]]"

definition FrucMode_init :: "nat list list" where
  "FrucMode_init =
   [[197, 185, 201],
    [197, 185, 201],
    [CNU, CNU, CNU]]"

definition ctbAlfFlag_init :: "nat list list" where
  "ctbAlfFlag_init =
   [[100, 100, 100, 100, 100, 100, 100, 100, 100],
    [153, 153, 153, 153, 153, 153, 153, 153, 153],
    [200, 200, 200, 200, 200, 200, 200, 200, 200]]"

text \<open>In the order of the declarations, which is the order of static initialisation.\<close>

definition contextSets :: "(ctx_name \<times> nat list list) list" where
  "contextSets =
   [(SplitFlag, SplitFlag_init), (BTSplitFlag, BTSplitFlag_init), (SkipFlag, SkipFlag_init),
     (MergeFlag, MergeFlag_init), (MergeIdx, MergeIdx_init), (PartSize, PartSize_init), (PredMode, PredMode_init),
     (IPredMode 0, IPredMode_init ! 0), (IPredMode 1, IPredMode_init ! 1), (PdpcFlag, PdpcFlag_init),
     (DeltaQP, DeltaQP_init), (InterDir, InterDir_init), (RefPic, RefPic_init), (AffineFlag, AffineFlag_init),
     (AffineType, AffineType_init), (GBiIdx, GBiIdx_init), (Mvd, Mvd_init), (TransSubdivFlag, TransSubdivFlag_init),
     (QtRootCbf, QtRootCbf_init), (QtCbf 0, QtCbf_init ! 0), (QtCbf 1, QtCbf_init ! 1), (QtCbf 2, QtCbf_init ! 2),
     (SigCoeffGroup 0, SigCoeffGroup_init ! 0), (SigCoeffGroup 1, SigCoeffGroup_init ! 1),
     (SigCoeffGroup 2, SigCoeffGroup_init ! 2), (SigCoeffGroup 3, SigCoeffGroup_init ! 3),
     (SigFlag 0, SigFlag_init ! 0), (SigFlag 1, SigFlag_init ! 1), (SigFlag 2, SigFlag_init ! 2),
     (SigFlag 3, SigFlag_init ! 3), (SigFlag 4, SigFlag_init ! 4), (SigFlag 5, SigFlag_init ! 5),
     (ParFlag 0, ParFlag_init ! 0), (ParFlag 1, ParFlag_init ! 1), (GtxFlag 0, GtxFlag_init ! 0),
     (GtxFlag 1, GtxFlag_init ! 1), (GtxFlag 2, GtxFlag_init ! 2), (GtxFlag 3, GtxFlag_init ! 3),
     (LastX 0, LastX_init ! 0), (LastX 1, LastX_init ! 1), (LastY 0, LastY_init ! 0), (LastY 1, LastY_init ! 1),
     (MVPIdx, MVPIdx_init), (SaoMergeFlag, SaoMergeFlag_init), (SaoTypeIdx, SaoTypeIdx_init),
     (TransformSkipFlag, TransformSkipFlag_init), (TransquantBypassFlag, TransquantBypassFlag_init),
     (NSSTIdx, NSSTIdx_init), (RdpcmFlag, RdpcmFlag_init), (RdpcmDir, RdpcmDir_init), (EMTTuIndex, EMTTuIndex_init),
     (EMTCuFlag, EMTCuFlag_init), (CrossCompPred, CrossCompPred_init), (ChromaQpAdjFlag, ChromaQpAdjFlag_init),
     (ChromaQpAdjIdc, ChromaQpAdjIdc_init), (ImvFlag, ImvFlag_init), (LICFlag, LICFlag_init),
     (ObmcFlag, ObmcFlag_init), (FrucFlag, FrucFlag_init), (FrucMode, FrucMode_init), (ctbAlfFlag, ctbAlfFlag_init)]"

section \<open>Registration\<close>

record CtxSet =
  Offset :: nat
  Size :: nat

text \<open>\<open>std::vector::resize\<close>\<close>

definition vec_resize :: "nat \<Rightarrow> 'a \<Rightarrow> 'a list \<Rightarrow> 'a list" where
  "vec_resize n x xs = take n xs @ replicate (n - length xs) x"

text \<open>The loop over the slice types.\<close>

fun add_rows :: "nat \<Rightarrow> nat \<Rightarrow> nat list list \<Rightarrow> nat list list \<Rightarrow> nat list list option" where
  "add_rows startIdx numValues (initSet # sets) (initTable # tables) = do {
     check_not (length initSet \<noteq> numValues);
     let initTable = vec_resize (startIdx + numValues) 0 initTable;
     let initTable = take startIdx initTable @ initSet;
     tables \<leftarrow> add_rows startIdx numValues sets tables;
     Some (initTable # tables)
   }"
| "add_rows startIdx numValues _ tables = Some tables"

definition addCtxSet :: "nat list list \<Rightarrow> nat list list \<Rightarrow> (CtxSet \<times> nat list list) option" where
  "addCtxSet initSet2d sm_InitTables = do {
     let startIdx = length (hd sm_InitTables);
     let numValues = length (hd initSet2d);
     sm_InitTables \<leftarrow> add_rows startIdx numValues initSet2d sm_InitTables;
     Some (\<lparr>Offset = u16 startIdx, Size = u16 numValues\<rparr>, sm_InitTables)
   }"

fun addCtxSets :: "(ctx_name \<times> nat list list) list \<Rightarrow> nat list list \<Rightarrow> ((ctx_name \<times> CtxSet) list \<times> nat list list) option" where
  "addCtxSets [] tables = Some ([], tables)"
| "addCtxSets ((n, initSet2d) # sets) tables = do {
     (c, tables) \<leftarrow> addCtxSet initSet2d tables;
     (cs, tables) \<leftarrow> addCtxSets sets tables;
     Some ((n, c) # cs, tables)
   }"

text \<open>The static members after initialisation; \<open>sm_InitTables\<close> starts as one empty table for each of the three slice types.\<close>

definition ContextSetCfg :: "((ctx_name \<times> CtxSet) list \<times> nat list list) option" where
  "ContextSetCfg = addCtxSets contextSets (replicate 3 [])"

definition sm_InitTables :: "nat list list" where
  "sm_InitTables = (case ContextSetCfg of Some (_, tables) \<Rightarrow> tables | None \<Rightarrow> [])"

definition ctxSet :: "ctx_name \<Rightarrow> CtxSet option" where
  "ctxSet n = (case ContextSetCfg of Some (cs, _) \<Rightarrow> map_of cs n | None \<Rightarrow> None)"

definition NumberOfContexts :: nat where
  "NumberOfContexts = length (hd sm_InitTables)"

text \<open>\<open>CtxSet::operator()\<close>; its range check is a debug assertion.\<close>

definition ctxInc :: "CtxSet \<Rightarrow> nat \<Rightarrow> nat" where
  "ctxInc c inc = u16 (Offset c + inc)"

definition ctxId :: "ctx_name \<Rightarrow> nat \<Rightarrow> nat" where
  "ctxId n inc = (case ctxSet n of Some c \<Rightarrow> ctxInc c inc | None \<Rightarrow> NumberOfContexts)"

text \<open>The combined set of two others: the smallest range that holds both.\<close>

definition combined :: "CtxSet list \<Rightarrow> CtxSet" where
  "combined cs =
     (let minOffset = foldl (\<lambda>m c. min m (Offset c)) 65535 cs;
          maxOffset = foldl (\<lambda>m c. max m (u16 (Offset c + Size c))) 0 cs
      in \<lparr>Offset = minOffset, Size = u16 (maxOffset - minOffset)\<rparr>)"

definition getInitTable :: "nat \<Rightarrow> nat list option" where
  "getInitTable initId = do {
     check_not (initId \<ge> length sm_InitTables);
     Some (sm_InitTables ! initId)
   }"

section \<open>\<open>CtxStore\<close>\<close>

definition MAX_QP :: int where "MAX_QP = 63"

definition Clip3 :: "int \<Rightarrow> int \<Rightarrow> int \<Rightarrow> int" where
  "Clip3 minVal maxVal a = min (max minVal a) maxVal"

definition ctx_init :: "('m, 'z) prob_ops_scheme \<Rightarrow> int \<Rightarrow> nat \<Rightarrow> 'm list \<Rightarrow> 'm list option" where
  "ctx_init P qp initId m_CtxBuffer = do {
     initTable \<leftarrow> getInitTable initId;
     check_not (length m_CtxBuffer \<noteq> length initTable);
     let clippedQP = Clip3 0 MAX_QP qp;
     Some (map (\<lambda>k. initModel P clippedQP (int (initTable ! k))) [0..<length m_CtxBuffer])
   }"

text \<open>Saving and loading the states of \<open>BinProbModel_Std\<close> in 16 bits.\<close>

definition savePStates :: "nat list \<Rightarrow> nat list" where
  "savePStates m_CtxBuffer = map u16 m_CtxBuffer"

definition loadPStates :: "nat list \<Rightarrow> nat list \<Rightarrow> nat list option" where
  "loadPStates probStates m_CtxBuffer = do {
     check_not (length m_CtxBuffer \<noteq> length probStates);
     Some (map u8 probStates)
   }"

text \<open>The copy of one context set from another store.\<close>

definition copyFrom :: "'m list \<Rightarrow> CtxSet \<Rightarrow> 'm list \<Rightarrow> 'm list" where
  "copyFrom src c m_Ctx = take (Offset c) m_Ctx @ take (Size c) (drop (Offset c) src) @ drop (Offset c + Size c) m_Ctx"

definition enc_reset :: "('m, 'z) prob_ops_scheme \<Rightarrow> int \<Rightarrow> nat \<Rightarrow> 'm binenc \<Rightarrow> 'm binenc option" where
  "enc_reset P qp initId s = do {
     ctx \<leftarrow> ctx_init P qp initId (enc_ctx s);
     Some (enc_start (s\<lparr>enc_ctx := ctx\<rparr>))
   }"

definition dec_reset :: "('m, 'z) prob_ops_scheme \<Rightarrow> int \<Rightarrow> nat \<Rightarrow> 'm bindec \<Rightarrow> 'm bindec option" where
  "dec_reset P qp initId t = do {
     ctx \<leftarrow> ctx_init P qp initId (dec_ctx t);
     dec_start (t\<lparr>dec_ctx := ctx\<rparr>)
   }"

section \<open>The layout of the context sets\<close>

text \<open>What the registration amounts to: the sets follow each other without gaps.\<close>

fun layout :: "(ctx_name \<times> nat list list) list \<Rightarrow> nat \<Rightarrow> (ctx_name \<times> CtxSet) list" where
  "layout [] off = []"
| "layout ((n, i) # sets) off = (n, \<lparr>Offset = off, Size = length (hd i)\<rparr>) # layout sets (off + length (hd i))"

definition init_size :: "(ctx_name \<times> nat list list) list \<Rightarrow> nat" where
  "init_size sets = sum_list (map (\<lambda>(n, i). length (hd i)) sets)"

definition init_wf :: "ctx_name \<times> nat list list \<Rightarrow> bool" where
  "init_wf = (\<lambda>(n, i). length i = 3 \<and> length (i ! 0) = length (hd i) \<and> length (i ! 1) = length (hd i) \<and> length (i ! 2) = length (hd i))"

definition init_row :: "nat \<Rightarrow> (ctx_name \<times> nat list list) list \<Rightarrow> nat list" where
  "init_row k sets = concat (map (\<lambda>(n, i). i ! k) sets)"

lemma init_size_simps [simp]:
  "init_size [] = 0" "init_size ((n, i) # sets) = length (hd i) + init_size sets"
  by (simp_all add: init_size_def)

lemma init_row_simps [simp]:
  "init_row k [] = []" "init_row k ((n, i) # sets) = i ! k @ init_row k sets"
  by (simp_all add: init_row_def)

lemma addCtxSets_layout:
  assumes "list_all init_wf sets" "length a = off" "length b = off" "length c = off" "off + init_size sets < 2 ^ 16"
  shows "addCtxSets sets [a, b, c] = Some (layout sets off, [a @ init_row 0 sets, b @ init_row 1 sets, c @ init_row 2 sets])"
  using assms
proof (induction sets arbitrary: a b c off)
  case Nil
  then show ?case by simp
next
  case (Cons p sets)
  obtain n i where p: "p = (n, i)" by force
  with Cons.prems(1) have "length i = 3" by (simp add: init_wf_def)
  then obtain x y z where i: "i = [x, y, z]" by (auto simp: length_Suc_conv numeral_3_eq_3)
  with Cons.prems(1) p have l: "length y = length x" "length z = length x" by (simp_all add: init_wf_def)
  have "addCtxSet i [a, b, c] = Some (\<lparr>Offset = off, Size = length x\<rparr>, [a @ x, b @ y, c @ z])"
    using Cons.prems(2-5) l by (simp add: addCtxSet_def i p vec_resize_def take_bit_nat_eq_self)
  moreover have "addCtxSets sets [a @ x, b @ y, c @ z] = Some (layout sets (off + length x),
      [(a @ x) @ init_row 0 sets, (b @ y) @ init_row 1 sets, (c @ z) @ init_row 2 sets])"
    by (rule Cons.IH) (use Cons.prems p i l in simp_all)
  ultimately show ?case by (simp add: p i)
qed

lemma layout_bounds: "(n, c) \<in> set (layout sets off) \<Longrightarrow> off \<le> Offset c \<and> Offset c + Size c \<le> off + init_size sets"
  by (induction sets off rule: layout.induct) auto

lemma layout_sorted: "sorted_wrt (\<lambda>(n, c) (m, d). Offset c + Size c \<le> Offset d) (layout sets off)"
  by (induction sets off rule: layout.induct) (auto dest: layout_bounds)

lemma layout_names: "map fst (layout sets off) = map fst sets"
  by (induction sets off rule: layout.induct) auto

lemmas init_defs =
    SplitFlag_init_def BTSplitFlag_init_def SkipFlag_init_def MergeFlag_init_def MergeIdx_init_def PartSize_init_def
    PredMode_init_def IPredMode_init_def PdpcFlag_init_def DeltaQP_init_def InterDir_init_def RefPic_init_def
    AffineFlag_init_def AffineType_init_def GBiIdx_init_def Mvd_init_def TransSubdivFlag_init_def QtRootCbf_init_def
    QtCbf_init_def SigCoeffGroup_init_def SigFlag_init_def ParFlag_init_def GtxFlag_init_def LastX_init_def
    LastY_init_def MVPIdx_init_def SaoMergeFlag_init_def SaoTypeIdx_init_def TransformSkipFlag_init_def
    TransquantBypassFlag_init_def NSSTIdx_init_def RdpcmFlag_init_def RdpcmDir_init_def EMTTuIndex_init_def
    EMTCuFlag_init_def CrossCompPred_init_def ChromaQpAdjFlag_init_def ChromaQpAdjIdc_init_def ImvFlag_init_def
    LICFlag_init_def ObmcFlag_init_def FrucFlag_init_def FrucMode_init_def ctbAlfFlag_init_def

lemma layout_contextSets: "layout contextSets 0 =
    [(SplitFlag, \<lparr>Offset = 0, Size = 5\<rparr>), (BTSplitFlag, \<lparr>Offset = 5, Size = 12\<rparr>),
     (SkipFlag, \<lparr>Offset = 17, Size = 3\<rparr>), (MergeFlag, \<lparr>Offset = 20, Size = 1\<rparr>),
     (MergeIdx, \<lparr>Offset = 21, Size = 5\<rparr>), (PartSize, \<lparr>Offset = 26, Size = 4\<rparr>),
     (PredMode, \<lparr>Offset = 30, Size = 1\<rparr>), (IPredMode 0, \<lparr>Offset = 31, Size = 1\<rparr>),
     (IPredMode 1, \<lparr>Offset = 32, Size = 12\<rparr>), (PdpcFlag, \<lparr>Offset = 44, Size = 1\<rparr>),
     (DeltaQP, \<lparr>Offset = 45, Size = 3\<rparr>), (InterDir, \<lparr>Offset = 48, Size = 5\<rparr>),
     (RefPic, \<lparr>Offset = 53, Size = 2\<rparr>), (AffineFlag, \<lparr>Offset = 55, Size = 3\<rparr>),
     (AffineType, \<lparr>Offset = 58, Size = 1\<rparr>), (GBiIdx, \<lparr>Offset = 59, Size = 7\<rparr>),
     (Mvd, \<lparr>Offset = 66, Size = 2\<rparr>), (TransSubdivFlag, \<lparr>Offset = 68, Size = 5\<rparr>),
     (QtRootCbf, \<lparr>Offset = 73, Size = 1\<rparr>), (QtCbf 0, \<lparr>Offset = 74, Size = 2\<rparr>),
     (QtCbf 1, \<lparr>Offset = 76, Size = 5\<rparr>), (QtCbf 2, \<lparr>Offset = 81, Size = 2\<rparr>),
     (SigCoeffGroup 0, \<lparr>Offset = 83, Size = 2\<rparr>),
     (SigCoeffGroup 1, \<lparr>Offset = 85, Size = 2\<rparr>),
     (SigCoeffGroup 2, \<lparr>Offset = 87, Size = 2\<rparr>),
     (SigCoeffGroup 3, \<lparr>Offset = 89, Size = 2\<rparr>), (SigFlag 0, \<lparr>Offset = 91, Size = 20\<rparr>),
     (SigFlag 1, \<lparr>Offset = 111, Size = 12\<rparr>), (SigFlag 2, \<lparr>Offset = 123, Size = 20\<rparr>),
     (SigFlag 3, \<lparr>Offset = 143, Size = 12\<rparr>), (SigFlag 4, \<lparr>Offset = 155, Size = 20\<rparr>),
     (SigFlag 5, \<lparr>Offset = 175, Size = 12\<rparr>), (ParFlag 0, \<lparr>Offset = 187, Size = 21\<rparr>),
     (ParFlag 1, \<lparr>Offset = 208, Size = 11\<rparr>), (GtxFlag 0, \<lparr>Offset = 219, Size = 21\<rparr>),
     (GtxFlag 1, \<lparr>Offset = 240, Size = 11\<rparr>), (GtxFlag 2, \<lparr>Offset = 251, Size = 21\<rparr>),
     (GtxFlag 3, \<lparr>Offset = 272, Size = 11\<rparr>), (LastX 0, \<lparr>Offset = 283, Size = 25\<rparr>),
     (LastX 1, \<lparr>Offset = 308, Size = 4\<rparr>), (LastY 0, \<lparr>Offset = 312, Size = 25\<rparr>),
     (LastY 1, \<lparr>Offset = 337, Size = 4\<rparr>), (MVPIdx, \<lparr>Offset = 341, Size = 1\<rparr>),
     (SaoMergeFlag, \<lparr>Offset = 342, Size = 1\<rparr>), (SaoTypeIdx, \<lparr>Offset = 343, Size = 1\<rparr>),
     (TransformSkipFlag, \<lparr>Offset = 344, Size = 2\<rparr>),
     (TransquantBypassFlag, \<lparr>Offset = 346, Size = 1\<rparr>), (NSSTIdx, \<lparr>Offset = 347, Size = 5\<rparr>),
     (RdpcmFlag, \<lparr>Offset = 352, Size = 2\<rparr>), (RdpcmDir, \<lparr>Offset = 354, Size = 2\<rparr>),
     (EMTTuIndex, \<lparr>Offset = 356, Size = 4\<rparr>), (EMTCuFlag, \<lparr>Offset = 360, Size = 6\<rparr>),
     (CrossCompPred, \<lparr>Offset = 366, Size = 10\<rparr>),
     (ChromaQpAdjFlag, \<lparr>Offset = 376, Size = 1\<rparr>),
     (ChromaQpAdjIdc, \<lparr>Offset = 377, Size = 1\<rparr>), (ImvFlag, \<lparr>Offset = 378, Size = 4\<rparr>),
     (LICFlag, \<lparr>Offset = 382, Size = 1\<rparr>), (ObmcFlag, \<lparr>Offset = 383, Size = 1\<rparr>),
     (FrucFlag, \<lparr>Offset = 384, Size = 3\<rparr>), (FrucMode, \<lparr>Offset = 387, Size = 3\<rparr>),
     (ctbAlfFlag, \<lparr>Offset = 390, Size = 9\<rparr>)]"
  by (simp add: contextSets_def init_defs)

lemma contextSets_wf: "list_all init_wf contextSets"
  by (simp add: contextSets_def init_wf_def init_defs)

lemma contextSets_size: "init_size contextSets = 399"
  by (simp add: contextSets_def init_defs)

lemma contextSets_names: "distinct (map fst contextSets)"
  by (simp add: contextSets_def)

lemma ContextSetCfg_eq: "ContextSetCfg = Some (layout contextSets 0, [init_row 0 contextSets, init_row 1 contextSets, init_row 2 contextSets])"
  using addCtxSets_layout [OF contextSets_wf, of "[]" 0 "[]" "[]"] contextSets_size
  by (simp add: ContextSetCfg_def numeral_3_eq_3)

lemma length_init_row: "k < 3 \<Longrightarrow> list_all init_wf sets \<Longrightarrow> length (init_row k sets) = init_size sets"
  by (induction sets) (auto simp: init_wf_def less_Suc_eq numeral_3_eq_3 numeral_2_eq_2)

lemma NumberOfContexts_eq: "NumberOfContexts = 399"
  using length_init_row [OF _ contextSets_wf, of 0] contextSets_size
  by (simp add: NumberOfContexts_def sm_InitTables_def ContextSetCfg_eq)

lemma ctxSet_eq: "ctxSet = map_of (layout contextSets 0)"
  by (simp add: fun_eq_iff ctxSet_def ContextSetCfg_eq)

lemma ctxSet_bounds: "ctxSet n = Some c \<Longrightarrow> Offset c + Size c \<le> NumberOfContexts"
  using layout_bounds [of n c contextSets 0] map_of_SomeD [of "layout contextSets 0" n c]
  by (simp add: ctxSet_eq NumberOfContexts_eq contextSets_size)

lemma ctxId_eq: "ctxSet n = Some c \<Longrightarrow> inc < Size c \<Longrightarrow> ctxId n inc = Offset c + inc \<and> ctxId n inc < NumberOfContexts"
  using ctxSet_bounds [of n c] by (simp add: ctxId_def ctxInc_def NumberOfContexts_eq take_bit_nat_eq_self)

lemma sorted_wrt_disjoint:
  assumes "sorted_wrt (\<lambda>(n, c) (m, d). Offset c + Size c \<le> Offset d) cs" "(n, c) \<in> set cs" "(m, d) \<in> set cs" "n \<noteq> m"
  shows "Offset c + Size c \<le> Offset d \<or> Offset d + Size d \<le> Offset c"
  using assms by (induction cs) auto

lemma ctxSet_disjoint:
  assumes "ctxSet n = Some c" "ctxSet m = Some d" "n \<noteq> m"
  shows "Offset c + Size c \<le> Offset d \<or> Offset d + Size d \<le> Offset c"
  using sorted_wrt_disjoint [OF layout_sorted, of n c contextSets 0 m d] assms
    map_of_SomeD [of "layout contextSets 0" n c] map_of_SomeD [of "layout contextSets 0" m d]
  by (simp add: ctxSet_eq)

section \<open>Initialisation\<close>

lemma getInitTable_eq: "initId < 3 \<Longrightarrow> getInitTable initId = Some (init_row initId contextSets)"
  by (auto simp: getInitTable_def sm_InitTables_def ContextSetCfg_eq less_Suc_eq numeral_3_eq_3 numeral_2_eq_2)

lemma length_getInitTable: "initId < 3 \<Longrightarrow> getInitTable initId = Some t \<Longrightarrow> length t = NumberOfContexts"
  using length_init_row [OF _ contextSets_wf, of initId] contextSets_size
  by (auto simp: getInitTable_eq NumberOfContexts_eq)

lemma ctx_init_std:
  assumes "length ctx = NumberOfContexts" "initId < 3"
  shows "\<exists>ctx'. ctx_init BinProbModel_Std qp initId ctx = Some ctx' \<and> length ctx' = NumberOfContexts \<and> list_all std_valid ctx'"
  using assms length_getInitTable [OF assms(2)]
  by (auto simp: ctx_init_def getInitTable_eq list_all_iff BinProbModel_Std_def std_init_valid)

text \<open>Where the values of a syntax element stand in the tables.\<close>

lemma layout_rows:
  assumes "list_all init_wf sets" "distinct (map fst sets)" "(n, rows) \<in> set sets" "k < 3"
  shows "\<exists>c. map_of (layout sets off) n = Some c \<and> off \<le> Offset c \<and> Size c = length (hd rows)
    \<and> (\<forall>i<Size c. init_row k sets ! (Offset c - off + i) = rows ! k ! i)"
  using assms
proof (induction sets arbitrary: off)
  case Nil
  then show ?case by simp
next
  case (Cons q sets)
  obtain m rs where q: "q = (m, rs)" by force
  have w: "length (rs ! k) = length (hd rs)"
    using Cons.prems(1,4) by (auto simp: q init_wf_def less_Suc_eq numeral_3_eq_3 numeral_2_eq_2)
  show ?case
  proof (cases "m = n")
    case True
    then have "rows = rs" using Cons.prems(2,3) by (auto simp: q image_iff)
    then show ?thesis using True w by (auto simp: q nth_append)
  next
    case False
    then have "(n, rows) \<in> set sets" using Cons.prems(3) by (simp add: q)
    with Cons.IH [of "off + length (hd rs)"] Cons.prems(1,2,4) obtain c where
      c: "map_of (layout sets (off + length (hd rs))) n = Some c" "off + length (hd rs) \<le> Offset c" "Size c = length (hd rows)"
        "\<forall>i<Size c. init_row k sets ! (Offset c - (off + length (hd rs)) + i) = rows ! k ! i"
      by auto
    have "init_row k ((m, rs) # sets) ! (Offset c - off + i) = rows ! k ! i" if "i < Size c" for i
    proof -
      have "Offset c - off + i - length (hd rs) = Offset c - (off + length (hd rs)) + i" using c(2) by simp
      moreover have "\<not> Offset c - off + i < length (hd rs)" using c(2) by simp
      ultimately show ?thesis using c(4) that w by (simp only: init_row_simps nth_append if_False)
    qed
    with c(1-3) False show ?thesis by (auto simp: q)
  qed
qed

lemma table_value:
  assumes "(n, rows) \<in> set contextSets" "i < length (hd rows)" "initId < 3"
  shows "init_row initId contextSets ! ctxId n i = rows ! initId ! i \<and> ctxId n i < NumberOfContexts"
proof -
  from layout_rows [OF contextSets_wf contextSets_names assms(1,3), of 0] obtain c where
    c: "ctxSet n = Some c" "Size c = length (hd rows)" "\<forall>i<Size c. init_row initId contextSets ! (Offset c + i) = rows ! initId ! i"
    by (auto simp: ctxSet_eq)
  with ctxId_eq [of n c i] assms(2) show ?thesis by auto
qed

text \<open>
  The initialisation of a context variable in the words of the standard: \<open>preCtxState\<close> is clipped to 1..126, the most
  probable symbol is 1 above 63; the state of the code holds the index of the probability and the symbol in the lowest bit.
\<close>

definition standard_state :: "int \<Rightarrow> nat \<Rightarrow> int" where
  "standard_state q v = (let slopeIdx = int (v div 16); offsetIdx = int (v mod 16); m = slopeIdx * 5 - 45; n = offsetIdx * 8 - 16;
     preCtxState = max 1 (min 126 ((m * q) div 16 + n)); valMps = (preCtxState > 63)
     in 2 * (if valMps then preCtxState - 64 else 63 - preCtxState) + of_bool valMps)"

lemma std_init_standard: "int (std_init q (int v)) = standard_state q v"
proof -
  define x where "x = (int (v div 16) * 5 - 45) * q div 16 + (int (v mod 16) * 8 - 16)"
  have "int (std_init q (int v)) = (if x \<ge> 64 then min 62 (x - 64) * 2 + 1 else min 62 (63 - x) * 2)"
  proof -
    have e: "slope * q div 16 + offset = x" if "slope = int v div 16 * 5 - 45" "offset = int v mod 16 * 8 - 16" for slope offset
      using that by (simp add: x_def zdiv_int zmod_int)
    have "(min 62 (x - 64) * 2 + 1) mod 256 = min 62 (x - 64) * 2 + 1" if "x \<ge> 64" using that by (intro mod_pos_pos_trivial) (auto simp: min_def)
    moreover have "min 62 (63 - x) * 2 mod 256 = min 62 (63 - x) * 2" if "\<not> x \<ge> 64" using that by (intro mod_pos_pos_trivial) auto
    ultimately show ?thesis unfolding std_init_def Let_def e [OF refl refl] by auto
  qed
  moreover have "standard_state q v = (let preCtxState = max 1 (min 126 x) in
      2 * (if preCtxState > 63 then preCtxState - 64 else 63 - preCtxState) + of_bool (preCtxState > 63))"
    by (simp add: standard_state_def x_def Let_def)
  ultimately show ?thesis by (auto simp: Let_def min_def max_def)
qed

lemma ctx_init_values:
  assumes "length ctx = NumberOfContexts" "initId < 3" "ctx_init BinProbModel_Std qp initId ctx = Some ctx'"
    and "(n, rows) \<in> set contextSets" "i < length (hd rows)"
  shows "int (ctx' ! ctxId n i) = standard_state (max 0 (min 63 qp)) (rows ! initId ! i)"
proof -
  note v = table_value [OF assms(4,5,2)]
  have "ctx' ! ctxId n i = std_init (Clip3 0 MAX_QP qp) (int (rows ! initId ! i))"
    using assms(1-3) v by (auto simp: ctx_init_def getInitTable_eq BinProbModel_Std_def split: if_splits bind_splits)
  moreover have "Clip3 0 MAX_QP qp = max 0 (min 63 qp)" by (auto simp: Clip3_def MAX_QP_def)
  ultimately show ?thesis by (simp add: std_init_standard)
qed

lemma enc_ready_reset:
  assumes "obs_inv (enc_bs s)" "out_num_held (enc_bs s) = 0" "length (enc_numBinsCtx s) = NumberOfContexts"
    "length (enc_ctx s) = NumberOfContexts" "bs_inUse (enc_binStore s) \<longrightarrow> length (bs_binBuffer (enc_binStore s)) = NumberOfContexts" "initId < 3"
  shows "\<exists>ctx. ctx_init BinProbModel_Std qp initId (enc_ctx s) = Some ctx \<and> enc_ready (s\<lparr>enc_ctx := ctx\<rparr>)
    \<and> length ctx = NumberOfContexts"
  using ctx_init_std [OF assms(4,6), of qp] assms
  by (auto simp: enc_ready_def tabs_ok_def list_all_iff)

text \<open>The sets that are looked up below.\<close>

lemma ctxSet_lookup:
  "ctxSet DeltaQP = Some \<lparr>Offset = 45, Size = 3\<rparr>"
  "ctxSet Mvd = Some \<lparr>Offset = 66, Size = 2\<rparr>"
  "ctxSet SaoMergeFlag = Some \<lparr>Offset = 342, Size = 1\<rparr>"
  "ctxSet SaoTypeIdx = Some \<lparr>Offset = 343, Size = 1\<rparr>"
  "ctxSet ChromaQpAdjFlag = Some \<lparr>Offset = 376, Size = 1\<rparr>"
  "ctxSet ChromaQpAdjIdc = Some \<lparr>Offset = 377, Size = 1\<rparr>"
  "ctxSet CrossCompPred = Some \<lparr>Offset = 366, Size = 10\<rparr>"
  by (simp_all add: ctxSet_eq layout_contextSets)

lemma Sao_combined: "combined [\<lparr>Offset = 342, Size = 1\<rparr>, \<lparr>Offset = 343, Size = 1\<rparr>] = \<lparr>Offset = 342, Size = 2\<rparr>"
  by (simp add: combined_def)

section \<open>Properties\<close>

text \<open>
  Every context of a registered set has its own model: the numbers lie below
  \<open>NumberOfContexts\<close>, and two contexts have the same number only if they are the same
  context of the same syntax element.
\<close>

theorem contexts_not_shared:
  assumes "ctxSet n = Some c" "i < Size c" "ctxSet m = Some d" "j < Size d"
  shows "ctxId n i < NumberOfContexts \<and> (ctxId n i = ctxId m j \<longleftrightarrow> n = m \<and> i = j)"
proof -
  from ctxId_eq [OF assms(1,2)] ctxId_eq [OF assms(3,4)] have e: "ctxId n i = Offset c + i" "ctxId m j = Offset d + j"
    "ctxId n i < NumberOfContexts" by simp_all
  show ?thesis
  proof (cases "n = m")
    case True
    with assms(1,3) have "c = d" by simp
    with e True show ?thesis by auto
  next
    case False
    from ctxSet_disjoint [OF assms(1,3) False] assms(2,4) e show ?thesis by (auto simp: False)
  qed
qed

theorem contexts_not_shared_witness:
  "ctxId Mvd 1 < NumberOfContexts \<and> (ctxId Mvd 1 = ctxId DeltaQP 2 \<longleftrightarrow> Mvd = DeltaQP \<and> (1 :: nat) = 2)"
  by (rule contexts_not_shared [OF ctxSet_lookup(2) _ ctxSet_lookup(1)]) simp_all

text \<open>
  C28. The contexts of a slice.  Resetting encoder and decoder for a slice type (0 for B, 1 for P, 2 for I) and any quantiser
  succeeds, leaves the encoder ready for the slice, and gives both the same models: every context of every registered syntax element has
  the state that the standard computes from its entry in the row of that slice type and from the quantiser clipped to 0..63.  The row
  order is fixed by the context of the prediction mode.
\<close>

theorem reset_contexts:
  assumes "obs_inv (enc_bs s)" "out_num_held (enc_bs s) = 0" "length (enc_numBinsCtx s) = NumberOfContexts"
    "length (enc_ctx s) = NumberOfContexts" "\<not> bs_inUse (enc_binStore s)" "initId < 3" "length (dec_ctx t) = NumberOfContexts"
  shows "\<exists>ctx. enc_reset BinProbModel_Std qp initId s = Some (enc_start (s\<lparr>enc_ctx := ctx\<rparr>)) \<and> enc_ready (s\<lparr>enc_ctx := ctx\<rparr>)
    \<and> dec_reset BinProbModel_Std qp initId t = dec_start (t\<lparr>dec_ctx := ctx\<rparr>) \<and> length ctx = NumberOfContexts
    \<and> (\<forall>(n, rows)\<in>set contextSets. \<forall>i<length (hd rows).
         int (ctx ! ctxId n i) = standard_state (max 0 (min 63 qp)) (rows ! initId ! i))
    \<and> int (ctx ! ctxId PredMode 0) = standard_state (max 0 (min 63 qp)) ([134, 149, 154] ! initId)"
proof -
  from enc_ready_reset [OF assms(1-4) _ assms(6), of qp] assms(5) obtain ctx where
    c: "ctx_init BinProbModel_Std qp initId (enc_ctx s) = Some ctx" "enc_ready (s\<lparr>enc_ctx := ctx\<rparr>)" "length ctx = NumberOfContexts" by blast
  then have "ctx_init BinProbModel_Std qp initId (dec_ctx t) = Some ctx" using assms(4,7) by (simp add: ctx_init_def)
  with c(1) have r: "enc_reset BinProbModel_Std qp initId s = Some (enc_start (s\<lparr>enc_ctx := ctx\<rparr>))"
    "dec_reset BinProbModel_Std qp initId t = dec_start (t\<lparr>dec_ctx := ctx\<rparr>)"
    by (simp_all add: enc_reset_def dec_reset_def)
  note v = ctx_init_values [OF assms(4,6) c(1)]
  have "int (ctx ! ctxId PredMode 0) = standard_state (max 0 (min 63 qp)) ([134, 149, 154] ! initId)"
    using v [of PredMode PredMode_init 0] assms(6)
    by (auto simp: contextSets_def PredMode_init_def CNU_def less_Suc_eq numeral_3_eq_3 numeral_2_eq_2)
  with c r v show ?thesis by blast
qed

theorem reset_contexts_witness:
  "let s = new_enc 399 0 (replicate 399 0); t = new_dec [] 0 (replicate 399 0) in
    \<exists>ctx. enc_reset BinProbModel_Std 70 2 s = Some (enc_start (s\<lparr>enc_ctx := ctx\<rparr>)) \<and> enc_ready (s\<lparr>enc_ctx := ctx\<rparr>)
    \<and> dec_reset BinProbModel_Std 70 2 t = dec_start (t\<lparr>dec_ctx := ctx\<rparr>) \<and> length ctx = NumberOfContexts
    \<and> (\<forall>(n, rows)\<in>set contextSets. \<forall>i<length (hd rows).
         int (ctx ! ctxId n i) = standard_state (max 0 (min 63 70)) (rows ! 2 ! i))
    \<and> int (ctx ! ctxId PredMode 0) = standard_state (max 0 (min 63 70)) ([134, 149, 154] ! 2)"
  unfolding Let_def
  by (rule reset_contexts) (simp_all add: new_enc_def new_dec_def clear_def obs_inv_def NumberOfContexts_eq)

end
