(* ===== verification/PictureBuffer.thy ===== *)
theory PictureBuffer
  imports RefPicSet NalUnit
begin

text \<open>
  The decoded picture buffer: class \<open>Picture\<close> (its marking, not its samples) of \<open>CommonLib/Picture.h\<close>
  and the operations of \<open>CommonLib/Slice.cpp\<close> that sort, search and mark the pictures of a \<open>PicList\<close>.

  A \<open>PicList\<close> is a list of pictures; a \<open>Picture*\<close> is the \<open>pic_id\<close> of a picture of the list.  Dereferencing
  the end of the list is \<^const>\<open>None\<close>, as is a failed \<open>CHECK\<close>.
\<close>

datatype slice_type = B_SLICE | P_SLICE | I_SLICE

abbreviation (input) NAL_UNIT_INVALID :: nat where "NAL_UNIT_INVALID \<equiv> 64"
abbreviation (input) NAL_UNIT_RESERVED_VCL_R15 :: nat where "NAL_UNIT_RESERVED_VCL_R15 \<equiv> 15"

definition MAX_NUM_REF :: nat where "MAX_NUM_REF = 16"

text \<open>The reference lists hold two directions, \<open>REF_PIC_LIST_0\<close> and \<open>REF_PIC_LIST_1\<close>.\<close>

record slice =
  m_iPOC :: int
  m_iLastIDR :: int
  m_iAssociatedIRAP :: int
  m_iAssociatedIRAPType :: nat
  m_eNalUnitType :: nat
  m_eSliceType :: slice_type
  m_uiTLayer :: nat
  m_PicOutputFlag :: bool
  m_noOutputPriorPicsFlag :: bool
  m_noRaslOutputFlag :: bool
  m_handleCraAsBlaFlag :: bool
  m_sliceCurStartCtuTsAddr :: nat
  m_independentSliceIdx :: nat
  m_pendingRasInit :: bool
  m_bCheckLDC :: bool
  m_bioLDBPossible :: bool
  m_temporalLayerNonReferenceFlag :: bool
  m_pRPS :: ref_pic_set
  sps_BitsForPOC :: nat
  sps_IBCMode :: bool
  sps_UseBIO :: bool
  m_pcPic :: nat
  m_aiNumRefIdx :: "int \<times> int"
  m_apcRefPicList :: "nat option list \<times> nat option list"
  m_aiRefPOCList :: "int list \<times> int list"
  m_bIsUsedAsLongTerm :: "bool list \<times> bool list"
  m_list1IdxToList0Idx :: "int list"
  modificationFlagL0 :: bool
  modificationFlagL1 :: bool
  m_RefPicSetIdxL0 :: "nat list"
  m_RefPicSetIdxL1 :: "nat list"

record picture =
  pic_id :: nat
  poc :: int
  layer :: nat
  referenced :: bool
  reconstructed :: bool
  neededForOutput :: bool
  usedByCurr :: bool
  longTerm :: bool
  fieldPic :: bool
  pic_slices :: "slice list"
  pic_BitsForPOC :: nat
  pic_size :: "nat \<times> nat \<times> nat \<times> nat"

definition getRapPicFlag :: "slice \<Rightarrow> bool" where
  "getRapPicFlag s \<longleftrightarrow> m_eNalUnitType s = NAL_UNIT_CODED_SLICE_IDR_W_RADL
     \<or> m_eNalUnitType s = NAL_UNIT_CODED_SLICE_IDR_N_LP
     \<or> m_eNalUnitType s = NAL_UNIT_CODED_SLICE_BLA_N_LP
     \<or> m_eNalUnitType s = NAL_UNIT_CODED_SLICE_BLA_W_RADL
     \<or> m_eNalUnitType s = NAL_UNIT_CODED_SLICE_BLA_W_LP
     \<or> m_eNalUnitType s = NAL_UNIT_CODED_SLICE_CRA"

definition isReferenceNalu :: "slice \<Rightarrow> bool" where
  "isReferenceNalu s \<longleftrightarrow> m_eNalUnitType s \<le> NAL_UNIT_RESERVED_VCL_R15 \<and> m_eNalUnitType s mod 2 \<noteq> 0
     \<or> m_eNalUnitType s \<ge> NAL_UNIT_CODED_SLICE_BLA_W_LP \<and> m_eNalUnitType s \<le> NAL_UNIT_RESERVED_IRAP_VCL23"

definition isIRAP :: "slice \<Rightarrow> bool" where
  "isIRAP s \<longleftrightarrow> m_eNalUnitType s \<ge> 16 \<and> m_eNalUnitType s \<le> 23"

definition isIDRorBLA :: "slice \<Rightarrow> bool" where
  "isIDRorBLA s \<longleftrightarrow> m_eNalUnitType s \<ge> 16 \<and> m_eNalUnitType s \<le> 20"

section \<open>Sorting and searching\<close>

text \<open>The insertion position: before the first picture whose POC is not smaller.\<close>

fun insert_pic :: "picture \<Rightarrow> picture list \<Rightarrow> picture list" where
  "insert_pic x [] = [x]"
| "insert_pic x (p # ps) = (if poc p \<ge> poc x then x # p # ps else p # insert_pic x ps)"

definition sortPicList :: "picture list \<Rightarrow> picture list" where
  "sortPicList pics = fold (\<lambda>i l. insert_pic (l ! i) (take i l) @ drop (i + 1) l) [1..<length pics] pics"

definition xGetRefPic :: "picture list \<Rightarrow> int \<Rightarrow> nat option" where
  "xGetRefPic pics c = map_option pic_id (List.find (\<lambda>p. poc p = c) pics)"

text \<open>
  The first picture that is referenced and has the POC (or its low bits), whether it is a long-term picture
  or not, and the first picture of the list when there is none.
\<close>

definition xGetLongTermRefPic :: "slice \<Rightarrow> picture list \<Rightarrow> int \<Rightarrow> bool \<Rightarrow> nat option" where
  "xGetLongTermRefPic s pics c pocHasMsb =
     (if pics = [] then None
      else let pocCycle = push_bit (sps_BitsForPOC s) 1;
               c = (if pocHasMsb then c else c AND (pocCycle - 1))
           in case List.find (\<lambda>p. poc p \<noteq> m_iPOC s \<and> referenced p
                  \<and> c = (if pocHasMsb then poc p else poc p AND (pocCycle - 1))) pics of
                Some p \<Rightarrow> Some (pic_id p)
              | None \<Rightarrow> Some (pic_id (hd pics)))"

definition upd_pic :: "nat \<Rightarrow> (picture \<Rightarrow> picture) \<Rightarrow> picture list \<Rightarrow> picture list" where
  "upd_pic i f pics = map (\<lambda>p. if pic_id p = i then f p else p) pics"

definition get_pic :: "picture list \<Rightarrow> nat \<Rightarrow> picture option" where
  "get_pic pics i = List.find (\<lambda>p. pic_id p = i) pics"

section \<open>Decoding refresh\<close>

text \<open>
  The comparison \<open>pocCRA < MAX_UINT\<close> is made on \<open>uint32_t\<close>, so that \<open>pocCRA = -1\<close> disables the checks.
\<close>

definition checkCRA :: "slice \<Rightarrow> ref_pic_set \<Rightarrow> int \<times> nat \<Rightarrow> picture list \<Rightarrow> (int \<times> nat) option" where
  "checkCRA s r st pics = do {
     let (pocCRA, associatedIRAPType) = st;
     let armed = (to_u32 pocCRA < 2 ^ 32 - 1 \<and> m_iPOC s > pocCRA);
     let n = numberOfNegativePictures r + numberOfPositivePictures r;
     for_loop (\<lambda>i u. if armed then do {
         d \<leftarrow> getDeltaPOC r i;
         check_not (m_iPOC s + d < pocCRA)
       } else Some u) [0..n - 1] ();
     for_loop (\<lambda>i u. if armed then do {
         msb \<leftarrow> getCheckLTMSBPresent r i;
         c \<leftarrow> getPOC r i;
         if \<not> msb then do {
           q \<leftarrow> xGetLongTermRefPic s pics c False;
           p \<leftarrow> get_pic pics q;
           check_not (poc p < pocCRA)
         } else check_not (c < pocCRA)
       } else Some u) [n..numberOfPictures r - 1] ();
     if m_eNalUnitType s = NAL_UNIT_CODED_SLICE_IDR_W_RADL \<or> m_eNalUnitType s = NAL_UNIT_CODED_SLICE_IDR_N_LP
     then Some (m_iPOC s, m_eNalUnitType s)
     else if m_eNalUnitType s = NAL_UNIT_CODED_SLICE_CRA then Some (m_iPOC s, m_eNalUnitType s)
     else if m_eNalUnitType s = NAL_UNIT_CODED_SLICE_BLA_W_LP
         \<or> m_eNalUnitType s = NAL_UNIT_CODED_SLICE_BLA_W_RADL \<or> m_eNalUnitType s = NAL_UNIT_CODED_SLICE_BLA_N_LP
     then Some (m_iPOC s, m_eNalUnitType s)
     else Some (pocCRA, associatedIRAPType)
   }"

definition unmark :: "(picture \<Rightarrow> bool) \<Rightarrow> picture list \<Rightarrow> picture list" where
  "unmark P pics = map (\<lambda>p. if P p then p\<lparr>referenced := False\<rparr> else p) pics"

definition decodingRefreshMarking :: "slice \<Rightarrow> int \<times> bool \<times> picture list \<Rightarrow> bool \<Rightarrow> int \<times> bool \<times> picture list" where
  "decodingRefreshMarking s st bEfficientFieldIRAPEnabled =
     (let (pocCRA, bRefreshPending, pics) = st;
          pocCurr = m_iPOC s; t = m_eNalUnitType s;
          bla = (t = NAL_UNIT_CODED_SLICE_BLA_W_LP \<or> t = NAL_UNIT_CODED_SLICE_BLA_W_RADL
                 \<or> t = NAL_UNIT_CODED_SLICE_BLA_N_LP)
      in if bla \<or> t = NAL_UNIT_CODED_SLICE_IDR_W_RADL \<or> t = NAL_UNIT_CODED_SLICE_IDR_N_LP then
           (if bla then pocCurr else pocCRA,
            if bEfficientFieldIRAPEnabled then True else bRefreshPending,
            unmark (\<lambda>p. poc p \<noteq> pocCurr) pics)
         else
           let (bRefreshPending, pics) =
             (if bEfficientFieldIRAPEnabled
                 \<and> (m_iAssociatedIRAPType s = NAL_UNIT_CODED_SLICE_IDR_N_LP
                    \<or> m_iAssociatedIRAPType s = NAL_UNIT_CODED_SLICE_IDR_W_RADL) then
                if bRefreshPending \<and> pocCurr > m_iLastIDR s then
                  (False, unmark (\<lambda>p. poc p \<noteq> pocCurr \<and> poc p \<noteq> m_iLastIDR s) pics)
                else (bRefreshPending, pics)
              else
                if bRefreshPending \<and> pocCurr > pocCRA then
                  (False, unmark (\<lambda>p. poc p \<noteq> pocCurr \<and> poc p \<noteq> pocCRA) pics)
                else (bRefreshPending, pics))
           in if t = NAL_UNIT_CODED_SLICE_CRA then (pocCurr, True, pics) else (pocCRA, bRefreshPending, pics))"

section \<open>Temporal layers\<close>

definition isTemporalLayerSwitchingPoint :: "slice \<Rightarrow> picture list \<Rightarrow> bool" where
  "isTemporalLayerSwitchingPoint s pics \<longleftrightarrow>
     list_all (\<lambda>p. referenced p \<and> poc p \<noteq> m_iPOC s \<longrightarrow> \<not> layer p \<ge> m_uiTLayer s) pics"

definition isStepwiseTemporalLayerSwitchingPointCandidate :: "slice \<Rightarrow> picture list \<Rightarrow> bool" where
  "isStepwiseTemporalLayerSwitchingPointCandidate s pics \<longleftrightarrow>
     list_all (\<lambda>p. referenced p \<and> usedByCurr p \<and> poc p \<noteq> m_iPOC s \<longrightarrow> \<not> layer p \<ge> m_uiTLayer s) pics"

section \<open>Leading pictures\<close>

abbreviation (input) is_RASL :: "nat \<Rightarrow> bool" where
  "is_RASL t \<equiv> t = NAL_UNIT_CODED_SLICE_RASL_N \<or> t = NAL_UNIT_CODED_SLICE_RASL_R"

abbreviation (input) is_RADL :: "nat \<Rightarrow> bool" where
  "is_RADL t \<equiv> t = NAL_UNIT_CODED_SLICE_RADL_N \<or> t = NAL_UNIT_CODED_SLICE_RADL_R"

abbreviation (input) is_IDR :: "nat \<Rightarrow> bool" where
  "is_IDR t \<equiv> t = NAL_UNIT_CODED_SLICE_IDR_N_LP \<or> t = NAL_UNIT_CODED_SLICE_IDR_W_RADL"

abbreviation (input) is_BLA :: "nat \<Rightarrow> bool" where
  "is_BLA t \<equiv> t = NAL_UNIT_CODED_SLICE_BLA_N_LP \<or> t = NAL_UNIT_CODED_SLICE_BLA_W_LP
     \<or> t = NAL_UNIT_CODED_SLICE_BLA_W_RADL"

text \<open>The checks of the slice against one picture of the buffer.\<close>

definition check_leading_pic :: "slice \<Rightarrow> picture \<Rightarrow> unit option" where
  "check_leading_pic s p =
     (if \<not> reconstructed p then Some ()
      else if poc p = m_iPOC s then Some ()
      else do {
        pcSlice \<leftarrow> arr_get (pic_slices p) 0;
        let t = m_eNalUnitType s;
        (if m_PicOutputFlag pcSlice \<and> \<not> m_noOutputPriorPicsFlag s then
           if is_BLA t \<or> t = NAL_UNIT_CODED_SLICE_CRA \<or> is_IDR t then check_not (poc p \<ge> m_iPOC s)
           else Some () else Some ());
        (if m_PicOutputFlag pcSlice then
           if is_RADL t then
             if m_iAssociatedIRAP s > m_iAssociatedIRAP pcSlice then
               if m_iAssociatedIRAP s \<noteq> poc p then check_not (poc p \<ge> m_iPOC s)
               else Some () else Some () else Some () else Some ());
        (if is_RASL t \<or> is_RADL t then
           if m_iAssociatedIRAP pcSlice = m_iAssociatedIRAP s then check_not (poc p > m_iAssociatedIRAP s)
           else Some () else Some ());
        (if is_RASL t then
           if (is_BLA (m_iAssociatedIRAPType s) \<or> m_iAssociatedIRAPType s = NAL_UNIT_CODED_SLICE_CRA)
              \<and> m_iAssociatedIRAP s = m_iAssociatedIRAP pcSlice then
             if is_RADL (m_eNalUnitType pcSlice) then check_not (poc p \<le> m_iPOC s)
             else Some () else Some () else Some ());
        (if is_RASL t then
           if m_iAssociatedIRAPType s = NAL_UNIT_CODED_SLICE_CRA then
             if m_iPOC pcSlice < m_iAssociatedIRAP s
                \<and> (is_BLA (m_eNalUnitType pcSlice) \<or> is_IDR (m_eNalUnitType pcSlice)
                   \<or> m_eNalUnitType pcSlice = NAL_UNIT_CODED_SLICE_CRA) then
               check_not (m_iPOC s \<le> m_iPOC pcSlice)
             else Some () else Some () else Some ())
      })"

definition checkLeadingPictureRestrictions :: "slice \<Rightarrow> picture list \<Rightarrow> unit option" where
  "checkLeadingPictureRestrictions s pics = do {
     let t = m_eNalUnitType s;
     (if m_iAssociatedIRAP s > m_iPOC s then
        if t < NAL_UNIT_CODED_SLICE_BLA_W_LP \<or> t > NAL_UNIT_RESERVED_IRAP_VCL23 then
          check_not (t \<noteq> NAL_UNIT_CODED_SLICE_RASL_N \<and> t \<noteq> NAL_UNIT_CODED_SLICE_RASL_R
            \<and> t \<noteq> NAL_UNIT_CODED_SLICE_RADL_N \<and> t \<noteq> NAL_UNIT_CODED_SLICE_RADL_R)
        else Some () else Some ());
     (if m_iAssociatedIRAP s < m_iPOC s then check_not (is_RASL t \<or> is_RADL t) else Some ());
     (if is_RASL t then
        check_not (m_iAssociatedIRAPType s = NAL_UNIT_CODED_SLICE_BLA_W_RADL
          \<or> m_iAssociatedIRAPType s = NAL_UNIT_CODED_SLICE_BLA_N_LP)
      else Some ());
     (if is_RASL t then check_not (is_IDR (m_iAssociatedIRAPType s)) else Some ());
     (if is_RADL t then
        check_not (m_iAssociatedIRAPType s = NAL_UNIT_CODED_SLICE_BLA_N_LP
          \<or> m_iAssociatedIRAPType s = NAL_UNIT_CODED_SLICE_IDR_N_LP)
      else Some ());
     for_loop (\<lambda>p u. check_leading_pic s p) pics ()
   }"

section \<open>Marking by the reference picture set\<close>

definition rps_st_step :: "slice \<Rightarrow> ref_pic_set \<Rightarrow> int \<Rightarrow> picture \<times> bool \<Rightarrow> (picture \<times> bool) option" where
  "rps_st_step s r i x = do {
     let (p, isReference) = x;
     d \<leftarrow> getDeltaPOC r i;
     if \<not> longTerm p \<and> poc p = m_iPOC s + d then do {
       u \<leftarrow> getUsed r i;
       Some (p\<lparr>usedByCurr := u, longTerm := False\<rparr>, True)
     } else Some (p, isReference)
   }"

definition rps_lt_step :: "ref_pic_set \<Rightarrow> int \<Rightarrow> picture \<times> bool \<Rightarrow> (picture \<times> bool) option" where
  "rps_lt_step r i x = do {
     let (p, isReference) = x;
     msb \<leftarrow> getCheckLTMSBPresent r i;
     c \<leftarrow> getPOC r i;
     u \<leftarrow> getUsed r i;
     if msb then
       if longTerm p \<and> poc p = c then Some (p\<lparr>usedByCurr := u\<rparr>, True) else Some (p, isReference)
     else
       let pocCycle = push_bit (pic_BitsForPOC p) 1;
           curPoc = poc p AND (pocCycle - 1);
           refPoc = c AND (pocCycle - 1)
       in if longTerm p \<and> curPoc = refPoc then Some (p\<lparr>usedByCurr := u\<rparr>, True) else Some (p, isReference)
   }"

text \<open>The sanity checks on a picture that stays referenced.\<close>

definition rps_sanity :: "slice \<Rightarrow> picture \<Rightarrow> unit option" where
  "rps_sanity s p = do {
     check_not (usedByCurr p \<and> \<not> layer p \<le> m_uiTLayer s);
     (if m_eNalUnitType s = NAL_UNIT_CODED_SLICE_TSA_R \<or> m_eNalUnitType s = NAL_UNIT_CODED_SLICE_TSA_N
      then check_not (\<not> layer p < m_uiTLayer s) else Some ());
     (if poc p \<noteq> m_iPOC s \<and> layer p = m_uiTLayer s then
        if usedByCurr p then do {
          sl \<leftarrow> arr_get (pic_slices p) 0;
          check_not (m_temporalLayerNonReferenceFlag sl)
        } else Some ()
      else Some ())
   }"

definition rps_finish :: "slice \<Rightarrow> picture \<Rightarrow> bool \<Rightarrow> picture option" where
  "rps_finish s p isReference = do {
     let p = (if poc p \<noteq> m_iPOC s \<and> \<not> isReference
              then p\<lparr>referenced := False, usedByCurr := False, longTerm := False\<rparr> else p);
     (if referenced p then rps_sanity s p else Some ());
     Some p
   }"

definition apply_rps_pic :: "slice \<Rightarrow> ref_pic_set \<Rightarrow> picture \<Rightarrow> picture option" where
  "apply_rps_pic s r p =
     (if \<not> referenced p then Some p
      else do {
        let n = numberOfPositivePictures r + numberOfNegativePictures r;
        (p, isReference) \<leftarrow> for_loop (rps_st_step s r) [0..n - 1] (p, False);
        (p, isReference) \<leftarrow> for_loop (rps_lt_step r) [max 0 n..numberOfPictures r - 1] (p, isReference);
        rps_finish s p isReference
      })"

definition applyReferencePictureSet :: "slice \<Rightarrow> ref_pic_set \<Rightarrow> picture list \<Rightarrow> picture list option" where
  "applyReferencePictureSet s r pics = do {
     checkLeadingPictureRestrictions s pics;
     for_each (apply_rps_pic s r) pics
   }"

section \<open>Missing reference pictures\<close>

record availability =
  atLeastOneUnabledByRecoveryPoint :: bool
  atLeastOneFlushedByPreviousIDR :: bool
  atLeastOneLost :: bool
  atLeastOneRemoved :: bool
  iPocLost :: int

text \<open>The report for a picture of the set that is not available, the same in both loops of the function.\<close>

definition report_missing :: "slice \<Rightarrow> int \<Rightarrow> bool \<Rightarrow> int \<Rightarrow> bool \<Rightarrow> availability \<Rightarrow> availability" where
  "report_missing s pocRandomAccess bUseRecoveryPoint d u a =
     (if m_iPOC s + d \<ge> pocRandomAccess then
        if \<not> u then a\<lparr>atLeastOneRemoved := True\<rparr>
        else a\<lparr>atLeastOneLost := True, iPocLost := m_iPOC s + d\<rparr>
      else if bUseRecoveryPoint \<and> m_iPOC s > pocRandomAccess then a\<lparr>atLeastOneUnabledByRecoveryPoint := True\<rparr>
      else if bUseRecoveryPoint \<and> (m_iAssociatedIRAPType s = NAL_UNIT_CODED_SLICE_IDR_N_LP
          \<or> m_iAssociatedIRAPType s = NAL_UNIT_CODED_SLICE_IDR_W_RADL)
        then a\<lparr>atLeastOneFlushedByPreviousIDR := True\<rparr>
      else a)"

text \<open>\<open>blocked\<close>: the picture precedes the recovery point that the current picture follows.\<close>

definition blocked :: "slice \<Rightarrow> int \<Rightarrow> bool \<Rightarrow> int \<Rightarrow> bool" where
  "blocked s pocRandomAccess bUseRecoveryPoint d \<longleftrightarrow>
     bUseRecoveryPoint \<and> m_iPOC s > pocRandomAccess \<and> m_iPOC s + d < pocRandomAccess"

definition lt_matches :: "bool \<Rightarrow> int \<Rightarrow> picture \<Rightarrow> bool" where
  "lt_matches msb c p \<longleftrightarrow>
     (if msb then longTerm p \<and> poc p = c \<and> referenced p
      else let pocCycle = push_bit (pic_BitsForPOC p) 1;
               curPoc = poc p AND (pocCycle - 1);
               refPoc = c AND (pocCycle - 1)
           in longTerm p \<and> curPoc = refPoc \<and> referenced p)"

text \<open>The second search, which turns the first short-term picture that fits into a long-term one.\<close>

fun mark_long_term :: "bool \<Rightarrow> int \<Rightarrow> bool \<Rightarrow> picture list \<Rightarrow> bool \<times> picture list" where
  "mark_long_term msb c blk [] = (False, [])"
| "mark_long_term msb c blk (p # ps) =
     (let pocCycle = push_bit (pic_BitsForPOC p) 1;
          curPoc = (if msb then poc p else poc p AND (pocCycle - 1));
          refPoc = (if msb then c else c AND (pocCycle - 1))
      in if referenced p \<and> curPoc = refPoc \<and> \<not> blk then (True, p\<lparr>longTerm := True\<rparr> # ps)
         else let (a, ps) = mark_long_term msb c blk ps in (a, p # ps))"

definition check_lt_step :: "slice \<Rightarrow> ref_pic_set \<Rightarrow> int \<Rightarrow> bool \<Rightarrow> int \<Rightarrow> availability \<times> picture list
    \<Rightarrow> (availability \<times> picture list) option" where
  "check_lt_step s r pocRandomAccess bUseRecoveryPoint i x = do {
     let (a, pics) = x;
     msb \<leftarrow> getCheckLTMSBPresent r i;
     c \<leftarrow> getPOC r i;
     d \<leftarrow> getDeltaPOC r i;
     u \<leftarrow> getUsed r i;
     let blk = blocked s pocRandomAccess bUseRecoveryPoint d;
     let isAvailable = fold (\<lambda>p isAvailable. if lt_matches msb c p then \<not> blk else isAvailable) pics False;
     let (isAvailable, pics) = (if \<not> isAvailable then mark_long_term msb c blk pics else (isAvailable, pics));
     Some (if \<not> isAvailable then report_missing s pocRandomAccess bUseRecoveryPoint d u a else a, pics)
   }"

definition check_st_step :: "slice \<Rightarrow> ref_pic_set \<Rightarrow> int \<Rightarrow> bool \<Rightarrow> picture list \<Rightarrow> int \<Rightarrow> availability
    \<Rightarrow> availability option" where
  "check_st_step s r pocRandomAccess bUseRecoveryPoint pics i a = do {
     d \<leftarrow> getDeltaPOC r i;
     u \<leftarrow> getUsed r i;
     let blk = blocked s pocRandomAccess bUseRecoveryPoint d;
     let isAvailable = fold (\<lambda>p isAvailable. if \<not> longTerm p \<and> poc p = m_iPOC s + d \<and> referenced p
           then \<not> blk else isAvailable) pics False;
     Some (if \<not> isAvailable then report_missing s pocRandomAccess bUseRecoveryPoint d u a else a)
   }"

definition checkThatAllRefPicsAreAvailable :: "slice \<Rightarrow> ref_pic_set \<Rightarrow> int \<Rightarrow> bool \<Rightarrow> picture list
    \<Rightarrow> (int \<times> picture list) option" where
  "checkThatAllRefPicsAreAvailable s r pocRandomAccess bUseRecoveryPoint pics = do {
     let a = \<lparr>atLeastOneUnabledByRecoveryPoint = False, atLeastOneFlushedByPreviousIDR = False,
              atLeastOneLost = False, atLeastOneRemoved = False, iPocLost = 0\<rparr>;
     let n = numberOfNegativePictures r + numberOfPositivePictures r;
     (a, pics) \<leftarrow> for_loop (check_lt_step s r pocRandomAccess bUseRecoveryPoint) [n..numberOfPictures r - 1] (a, pics);
     a \<leftarrow> for_loop (check_st_step s r pocRandomAccess bUseRecoveryPoint pics) [0..n - 1] a;
     Some (if atLeastOneUnabledByRecoveryPoint a \<or> atLeastOneFlushedByPreviousIDR a then -1
           else if atLeastOneLost a then iPocLost a + 1
           else if atLeastOneRemoved a then -2
           else 0, pics)
   }"

section \<open>Lemmas on sorting\<close>

lemma insert_pic_insort: "insert_pic = insort_key poc"
proof (intro ext)
  fix x ps
  show "insert_pic x ps = insort_key poc x ps" by (induction ps) auto
qed

lemma sortPicList_law: "sortPicList pics = (let n = length pics in
    fold (\<lambda>i l. insort_key poc (l ! i) (take i l) @ drop (i + 1) l) [1..<n] pics)"
  by (simp add: sortPicList_def insert_pic_insort)

lemma sort_fold:
  "1 \<le> n \<Longrightarrow> n \<le> length pics \<Longrightarrow>
    (let l = fold (\<lambda>i l. insort_key poc (l ! i) (take i l) @ drop (i + 1) l) [1..<n] pics
     in length l = length pics \<and> mset l = mset pics \<and> sorted (map poc (take n l)))"
proof (induction n rule: dec_induct)
  case base
  then show ?case by (cases pics) auto
next
  case (step n)
  define l where "l = fold (\<lambda>i l. insort_key poc (l ! i) (take i l) @ drop (i + 1) l) [1..<n] pics"
  define l' where "l' = insort_key poc (l ! n) (take n l) @ drop (n + 1) l"
  have l: "length l = length pics" "mset l = mset pics" "sorted (map poc (take n l))" "n < length l"
    using step unfolding l_def Let_def by auto
  have f: "fold (\<lambda>i l. insort_key poc (l ! i) (take i l) @ drop (i + 1) l) [1..<Suc n] pics = l'"
    using step.hyps by (simp add: l_def l'_def)
  have "mset l' = mset (take n l @ l ! n # drop (Suc n) l)" by (simp add: l'_def)
  also have "take n l @ l ! n # drop (Suc n) l = l" using l(4) by (simp add: id_take_nth_drop [symmetric])
  finally have "mset l' = mset pics" using l(2) by simp
  moreover have "length l' = length pics" using l by (simp add: l'_def)
  moreover have "take (Suc n) l' = insort_key poc (l ! n) (take n l)" using l(4) by (simp add: l'_def)
  then have "sorted (map poc (take (Suc n) l'))" using l(3) by (simp add: sorted_insort_key)
  ultimately show ?case unfolding f Let_def by simp
qed

section \<open>Lemmas on the marking\<close>

text \<open>
  A picture is in the reference picture set: as a short-term picture by its distance, as a
  long-term picture by its POC or by the low bits of its POC.
\<close>

definition lt_fits :: "ref_pic_set \<Rightarrow> nat \<Rightarrow> picture \<Rightarrow> bool" where
  "lt_fits r i p \<longleftrightarrow> (if bCheckLTMSB r ! i then poc p = POC r ! i
     else poc p mod 2 ^ pic_BitsForPOC p = POC r ! i mod 2 ^ pic_BitsForPOC p)"

definition in_rps :: "slice \<Rightarrow> ref_pic_set \<Rightarrow> picture \<Rightarrow> bool" where
  "in_rps s r p \<longleftrightarrow>
     (let n = nat (numberOfPositivePictures r + numberOfNegativePictures r); m = nat (numberOfPictures r)
      in if longTerm p then \<exists>i\<in>{n..<m}. lt_fits r i p
         else \<exists>i\<in>{..<n}. poc p = m_iPOC s + deltaPOC r ! i)"

lemma and_mask_int: "x AND (push_bit n 1 - 1) = x mod 2 ^ n" for x :: int
  by (simp add: push_bit_eq_mult take_bit_eq_mod [symmetric] take_bit_eq_mask mask_eq_exp_minus_1)

lemmas and_mask_int' = and_mask_int [unfolded push_bit_of_1]

lemma keep_short_term: "\<not> longTerm p \<Longrightarrow> p\<lparr>usedByCurr := u, longTerm := False\<rparr> = p\<lparr>usedByCurr := u\<rparr>"
  by (cases p) simp

text \<open>What the loops do to a picture: they only set \<open>usedByCurr\<close>, from an entry that fits.\<close>

definition rps_scan :: "(nat \<Rightarrow> bool) \<Rightarrow> nat list \<Rightarrow> picture \<times> bool \<Rightarrow> picture \<times> bool \<Rightarrow> bool" where
  "rps_scan fits js x y \<longleftrightarrow> (\<exists>u. fst y = fst x\<lparr>usedByCurr := u\<rparr>)
     \<and> snd y = (snd x \<or> (\<exists>j\<in>set js. fits j))"

lemma rps_scan_Nil: "rps_scan fits [] x x"
  by (auto simp: rps_scan_def intro!: exI [of _ "usedByCurr (fst x)"])

lemma st_loop_scan:
  assumes "rps_wf r" "for_loop (rps_st_step s r) (map int js) x = Some y" "\<forall>j\<in>set js. j < MAX_NUM_REF_PICS"
    "\<not> longTerm (fst x)"
  shows "rps_scan (\<lambda>j. poc (fst x) = m_iPOC s + deltaPOC r ! j) js x y"
  using assms(2-)
proof (induction js arbitrary: x)
  case Nil
  then show ?case by (simp add: rps_scan_Nil)
next
  case (Cons j js)
  let ?f = "\<lambda>j. poc (fst x) = m_iPOC s + deltaPOC r ! j"
  obtain x1 where x1: "rps_st_step s r (int j) x = Some x1" "for_loop (rps_st_step s r) (map int js) x1 = Some y"
    using Cons.prems(1) by (auto simp: bind_eq_Some_conv)
  have "rps_scan ?f [j] x x1"
    using x1(1) Cons.prems(2,3) assms(1)
    by (cases x) (auto simp: rps_st_step_def rps_scan_def keep_short_term getDeltaPOC_def getUsed_def rps_wf_def
        split: if_splits intro: exI [of _ "usedByCurr (fst x)"])
  moreover from this have e: "poc (fst x1) = poc (fst x)" "\<not> longTerm (fst x1)"
    using Cons.prems(3) by (auto simp: rps_scan_def)
  from Cons.IH [OF x1(2) _ e(2)] Cons.prems(2) have "rps_scan ?f js x1 y" by (simp add: e)
  ultimately show ?case by (auto simp: rps_scan_def)
qed

lemma lt_loop_scan:
  assumes "rps_wf r" "for_loop (rps_lt_step r) (map int js) x = Some y" "\<forall>j\<in>set js. j < MAX_NUM_REF_PICS"
  shows "rps_scan (\<lambda>j. longTerm (fst x) \<and> lt_fits r j (fst x)) js x y"
  using assms(2-)
proof (induction js arbitrary: x)
  case Nil
  then show ?case by (simp add: rps_scan_Nil)
next
  case (Cons j js)
  let ?f = "\<lambda>j. longTerm (fst x) \<and> lt_fits r j (fst x)"
  obtain x1 where x1: "rps_lt_step r (int j) x = Some x1" "for_loop (rps_lt_step r) (map int js) x1 = Some y"
    using Cons.prems(1) by (auto simp: bind_eq_Some_conv)
  have "rps_scan ?f [j] x x1"
    using x1(1) Cons.prems(2) assms(1)
    by (cases x) (auto simp: rps_lt_step_def rps_scan_def RefPicSet.getPOC_def getCheckLTMSBPresent_def getUsed_def
        rps_wf_def and_mask_int' lt_fits_def Let_def split: if_splits intro: exI [of _ "usedByCurr (fst x)"])
  moreover from this have e: "longTerm (fst x1) = longTerm (fst x)" "lt_fits r j (fst x1) = lt_fits r j (fst x)" for j
    by (auto simp: rps_scan_def lt_fits_def)
  from Cons.IH [OF x1(2)] Cons.prems(2) have "rps_scan ?f js x1 y" by (simp add: e)
  ultimately show ?case by (auto simp: rps_scan_def)
qed

lemma st_loop_idle:
  assumes "for_loop (rps_st_step s r) js x = Some y" "longTerm (fst x)"
  shows "y = x"
  using assms by (induction js arbitrary: x) (auto simp: rps_st_step_def bind_eq_Some_conv split: if_splits)

lemma rps_sanityD: "rps_sanity s p = Some () \<Longrightarrow> (usedByCurr p \<longrightarrow> layer p \<le> m_uiTLayer s)
    \<and> (m_eNalUnitType s = NAL_UNIT_CODED_SLICE_TSA_R \<or> m_eNalUnitType s = NAL_UNIT_CODED_SLICE_TSA_N
       \<longrightarrow> layer p < m_uiTLayer s)"
  by (simp add: rps_sanity_def bind_eq_Some_conv split: if_splits)

text \<open>The effect of the whole loop body on a referenced picture, and the checks that were passed.\<close>

lemma apply_rps_pic_law:
  assumes "rps_wf r" "apply_rps_pic s r p = Some p'" "referenced p"
    and "0 \<le> numberOfPositivePictures r + numberOfNegativePictures r"
    and "numberOfPositivePictures r + numberOfNegativePictures r \<le> 16" "numberOfPictures r \<le> 16"
  shows "(if poc p = m_iPOC s \<or> in_rps s r p
          then (\<exists>u. p' = p\<lparr>usedByCurr := u\<rparr>) \<and> (usedByCurr p' \<longrightarrow> layer p \<le> m_uiTLayer s)
            \<and> (m_eNalUnitType s = NAL_UNIT_CODED_SLICE_TSA_R \<or> m_eNalUnitType s = NAL_UNIT_CODED_SLICE_TSA_N
               \<longrightarrow> layer p < m_uiTLayer s)
          else p' = p\<lparr>referenced := False, usedByCurr := False, longTerm := False\<rparr>)"
proof -
  define n where "n = nat (numberOfPositivePictures r + numberOfNegativePictures r)"
  define m where "m = nat (numberOfPictures r)"
  have nm: "numberOfPositivePictures r + numberOfNegativePictures r = int n" "max 0 (int n) = int n"
    "n \<le> 16" "m \<le> 16" using assms(4-6) by (simp_all add: n_def m_def)
  have l: "[0..int n - 1] = map int [0..<n]" "[int n..numberOfPictures r - 1] = map int [n..<m]"
  proof -
    show "[0..int n - 1] = map int [0..<n]" using upto_int [of 0 n] by simp
    show "[int n..numberOfPictures r - 1] = map int [n..<m]"
    proof (cases "numberOfPictures r \<ge> 0")
      case True
      then show ?thesis using upto_int [of n m] by (simp add: m_def)
    qed (simp add: m_def)
  qed
  obtain x y where x: "for_loop (rps_st_step s r) (map int [0..<n]) (p, False) = Some x"
    and y: "for_loop (rps_lt_step r) (map int [n..<m]) x = Some y"
    and rest: "rps_finish s (fst y) (snd y) = Some p'"
    using assms(2,3) unfolding apply_rps_pic_def Let_def nm(1,2) l
    by (auto simp: bind_eq_Some_conv)
  have b: "\<forall>j\<in>set [0..<n]. j < MAX_NUM_REF_PICS" "\<forall>j\<in>set [n..<m]. j < MAX_NUM_REF_PICS"
    using nm(3,4) by (auto simp: MAX_NUM_REF_PICS_def)
  have "\<exists>u. fst y = p\<lparr>usedByCurr := u\<rparr>" and isR: "snd y = in_rps s r p"
  proof -
    have "(\<exists>u. fst y = p\<lparr>usedByCurr := u\<rparr>) \<and> snd y = in_rps s r p"
    proof (cases "longTerm p")
      case True
      then have "x = (p, False)" using st_loop_idle [OF x] by simp
      with lt_loop_scan [OF assms(1) y b(2)] True show ?thesis
        by (auto simp: rps_scan_def in_rps_def Let_def n_def [symmetric] m_def [symmetric])
    next
      case False
      then have sx: "rps_scan (\<lambda>j. poc p = m_iPOC s + deltaPOC r ! j) [0..<n] (p, False) x"
        using st_loop_scan [OF assms(1) x b(1)] by simp
      then have "\<not> longTerm (fst x)" using False by (auto simp: rps_scan_def)
      with sx lt_loop_scan [OF assms(1) y b(2)] False show ?thesis
        by (auto simp: rps_scan_def in_rps_def Let_def n_def [symmetric] m_def [symmetric])
    qed
    then show "\<exists>u. fst y = p\<lparr>usedByCurr := u\<rparr>" "snd y = in_rps s r p" by auto
  qed
  then obtain u where u: "fst y = p\<lparr>usedByCurr := u\<rparr>" by blast
  show ?thesis
  proof (cases "poc p = m_iPOC s \<or> in_rps s r p")
    case True
    with rest [unfolded u isR] assms(3) have "p' = p\<lparr>usedByCurr := u\<rparr>" "rps_sanity s p' = Some ()"
      by (auto simp: rps_finish_def Let_def bind_eq_Some_conv)
    with True rps_sanityD [of s p'] show ?thesis by auto
  next
    case False
    with rest [unfolded u isR] show ?thesis by (auto simp: rps_finish_def Let_def bind_eq_Some_conv)
  qed
qed

text \<open>What every operation of the buffer keeps of a picture, whatever it marks.\<close>

definition same_picture :: "picture \<Rightarrow> picture \<Rightarrow> bool" where
  "same_picture p p' \<longleftrightarrow> pic_id p' = pic_id p \<and> poc p' = poc p \<and> layer p' = layer p
     \<and> reconstructed p' = reconstructed p \<and> neededForOutput p' = neededForOutput p
     \<and> pic_slices p' = pic_slices p \<and> fieldPic p' = fieldPic p \<and> pic_BitsForPOC p' = pic_BitsForPOC p
     \<and> (referenced p' \<longrightarrow> referenced p)"

definition rps_in_bounds :: "ref_pic_set \<Rightarrow> bool" where
  "rps_in_bounds r \<longleftrightarrow> rps_wf r \<and> 0 \<le> numberOfPositivePictures r + numberOfNegativePictures r
     \<and> numberOfPositivePictures r + numberOfNegativePictures r \<le> 16 \<and> numberOfPictures r \<le> 16"

lemma apply_rps_law:
  assumes "rps_in_bounds r" "applyReferencePictureSet s r pics = Some pics'"
  shows "list_all2 (\<lambda>p p'. same_picture p p'
    \<and> (referenced p' \<longleftrightarrow> referenced p \<and> (poc p = m_iPOC s \<or> in_rps s r p))
    \<and> (referenced p' \<longrightarrow> longTerm p' = longTerm p \<and> (usedByCurr p' \<longrightarrow> layer p \<le> m_uiTLayer s))
    \<and> (referenced p \<and> \<not> referenced p' \<longrightarrow> \<not> usedByCurr p' \<and> \<not> longTerm p')) pics pics'"
proof -
  have "list_all2 (\<lambda>p p'. apply_rps_pic s r p = Some p') pics pics'"
    using assms(2) by (auto simp: applyReferencePictureSet_def for_each_Some bind_eq_Some_conv)
  then show ?thesis
  proof (rule list_all2_mono)
    fix p p'
    assume a: "apply_rps_pic s r p = Some p'"
    show "same_picture p p' \<and> (referenced p' \<longleftrightarrow> referenced p \<and> (poc p = m_iPOC s \<or> in_rps s r p))
      \<and> (referenced p' \<longrightarrow> longTerm p' = longTerm p \<and> (usedByCurr p' \<longrightarrow> layer p \<le> m_uiTLayer s))
      \<and> (referenced p \<and> \<not> referenced p' \<longrightarrow> \<not> usedByCurr p' \<and> \<not> longTerm p')"
    proof (cases "referenced p")
      case True
      from apply_rps_pic_law [OF _ a True] assms(1) True show ?thesis
        by (auto simp: rps_in_bounds_def same_picture_def split: if_splits)
    next
      case False
      with a have "p' = p" by (simp add: apply_rps_pic_def)
      with False show ?thesis by (simp add: same_picture_def)
    qed
  qed
qed

section \<open>Lemmas on the missing pictures\<close>

definition st_available :: "slice \<Rightarrow> ref_pic_set \<Rightarrow> picture list \<Rightarrow> nat \<Rightarrow> bool" where
  "st_available s r pics i \<longleftrightarrow> (\<exists>p\<in>set pics. \<not> longTerm p \<and> referenced p \<and> poc p = m_iPOC s + deltaPOC r ! i)"

definition lt_available :: "ref_pic_set \<Rightarrow> picture list \<Rightarrow> nat \<Rightarrow> bool" where
  "lt_available r pics i \<longleftrightarrow> (\<exists>p\<in>set pics. longTerm p \<and> referenced p \<and> lt_fits r i p)"

definition reported :: "availability \<Rightarrow> bool" where
  "reported a \<longleftrightarrow> atLeastOneLost a \<or> atLeastOneRemoved a"

text \<open>What the report of one or several entries does to the flags.\<close>

definition noted :: "slice \<Rightarrow> ref_pic_set \<Rightarrow> nat set \<Rightarrow> availability \<Rightarrow> availability \<Rightarrow> bool" where
  "noted s r J a a' \<longleftrightarrow> (reported a \<longrightarrow> reported a')
     \<and> (atLeastOneLost a' \<longrightarrow> atLeastOneLost a \<and> iPocLost a' = iPocLost a
          \<or> (\<exists>j\<in>J. iPocLost a' = m_iPOC s + deltaPOC r ! j))
     \<and> atLeastOneUnabledByRecoveryPoint a' = atLeastOneUnabledByRecoveryPoint a
     \<and> atLeastOneFlushedByPreviousIDR a' = atLeastOneFlushedByPreviousIDR a"

lemma noted_refl: "noted s r J a a"
  by (auto simp: noted_def)

lemma noted_trans: "noted s r J a b \<Longrightarrow> noted s r K b c \<Longrightarrow> noted s r (J \<union> K) a c"
  unfolding noted_def by (elim conjE, intro conjI) (blast | simp | metis Un_iff)+

lemma noted_report: "noted s r {i} a (report_missing s ra False (deltaPOC r ! i) u a)"
  by (auto simp: noted_def report_missing_def reported_def)

lemma report_reported: "m_iPOC s + d \<ge> ra \<Longrightarrow> reported (report_missing s ra False d u a)"
  by (simp add: report_missing_def reported_def)

lemma fold_available:
  "fold (\<lambda>p a. if P p then b else a) pics a0 = (if \<exists>p\<in>set pics. P p then b else a0)"
  by (induction pics arbitrary: a0) auto

text \<open>The short-term loop.\<close>

lemma st_check_step:
  assumes "rps_wf r" "check_st_step s r ra False pics (int i) a = Some a'" "i < MAX_NUM_REF_PICS"
  shows "noted s r {i} a a'"
    "m_iPOC s + deltaPOC r ! i \<ge> ra \<Longrightarrow> \<not> st_available s r pics i \<Longrightarrow> reported a'"
proof -
  have g: "getDeltaPOC r (int i) = Some (deltaPOC r ! i)" "getUsed r (int i) = Some (used r ! i)"
    using assms(1,3) by (simp_all add: getDeltaPOC_def getUsed_def rps_wf_def)
  have a': "a' = (if st_available s r pics i then a else report_missing s ra False (deltaPOC r ! i) (used r ! i) a)"
    using assms(2) unfolding check_st_step_def g Let_def fold_available
    by (auto simp: blocked_def st_available_def)
  show "noted s r {i} a a'" unfolding a' by (auto simp: noted_refl noted_report)
  show "reported a'" if "m_iPOC s + deltaPOC r ! i \<ge> ra" "\<not> st_available s r pics i"
    unfolding a' using that by (simp add: report_reported)
qed

lemma st_check_loop:
  assumes "rps_wf r"
  shows "for_loop (check_st_step s r ra False pics) (map int js) a = Some a' \<Longrightarrow> \<forall>i\<in>set js. i < MAX_NUM_REF_PICS
    \<Longrightarrow> noted s r (set js) a a'
      \<and> ((\<exists>i\<in>set js. m_iPOC s + deltaPOC r ! i \<ge> ra \<and> \<not> st_available s r pics i) \<longrightarrow> reported a')"
proof (induction js arbitrary: a)
  case Nil
  then show ?case by (simp add: noted_refl)
next
  case (Cons j js)
  then obtain a1 where a1: "check_st_step s r ra False pics (int j) a = Some a1"
    "for_loop (check_st_step s r ra False pics) (map int js) a1 = Some a'"
    by (auto simp: bind_eq_Some_conv)
  have j: "j < MAX_NUM_REF_PICS" using Cons.prems(2) by simp
  note one = st_check_step [OF assms a1(1) j]
  have rest: "noted s r (set js) a1 a'"
    "(\<exists>i\<in>set js. m_iPOC s + deltaPOC r ! i \<ge> ra \<and> \<not> st_available s r pics i) \<longrightarrow> reported a'"
    using Cons.IH [OF a1(2)] Cons.prems(2) by simp_all
  have "noted s r (set (j # js)) a a'" using noted_trans [OF one(1) rest(1)] by simp
  moreover have "reported a1 \<longrightarrow> reported a'" using rest(1) by (simp add: noted_def)
  ultimately show ?case using one(2) rest(2) by auto
qed

text \<open>The long-term loop, which may turn short-term pictures into long-term ones.\<close>

definition marks_more :: "picture \<Rightarrow> picture \<Rightarrow> bool" where
  "marks_more p p' \<longleftrightarrow> p' = p \<or> p' = p\<lparr>longTerm := True\<rparr> \<and> referenced p"

lemma marks_more_refl: "list_all2 marks_more pics pics"
  by (simp add: list_all2_refl marks_more_def)

lemma marks_more_trans: "list_all2 marks_more a b \<Longrightarrow> list_all2 marks_more b c \<Longrightarrow> list_all2 marks_more a c"
  by (rule list_all2_trans [of marks_more marks_more marks_more]) (auto simp: marks_more_def)

lemma mark_long_term_law:
  "mark_long_term msb c False pics = (b, pics') \<Longrightarrow> list_all2 marks_more pics pics'
    \<and> (b \<longrightarrow> (\<exists>p\<in>set pics'. longTerm p \<and> referenced p
        \<and> (if msb then poc p = c else poc p mod 2 ^ pic_BitsForPOC p = c mod 2 ^ pic_BitsForPOC p)))"
proof (induction pics arbitrary: b pics')
  case (Cons p ps)
  obtain b1 ps1 where r: "mark_long_term msb c False ps = (b1, ps1)" by fastforce
  show ?case
    using Cons.prems Cons.IH [OF r] r
    by (cases msb) (auto simp: marks_more_def and_mask_int' Let_def list_all2_refl split: if_splits)
qed simp

lemma list_all2_partner: "list_all2 P xs ys \<Longrightarrow> x \<in> set xs \<Longrightarrow> \<exists>y\<in>set ys. P x y"
  by (induction rule: list_all2_induct) auto

lemma marks_more_available:
  assumes "list_all2 marks_more pics pics'" "lt_available r pics i"
  shows "lt_available r pics' i"
proof -
  from assms(2) obtain p where p: "p \<in> set pics" "longTerm p" "referenced p" "lt_fits r i p"
    by (auto simp: lt_available_def)
  with list_all2_partner [OF assms(1)] obtain p' where "p' \<in> set pics'" "marks_more p p'" by blast
  moreover from this p have "longTerm p'" "referenced p'" "lt_fits r i p'"
    by (auto simp: marks_more_def lt_fits_def)
  ultimately show ?thesis by (auto simp: lt_available_def)
qed

lemma lt_check_step:
  assumes "rps_wf r" "check_lt_step s r ra False (int i) (a, pics) = Some (a', pics')" "i < MAX_NUM_REF_PICS"
  shows "noted s r {i} a a'" "list_all2 marks_more pics pics'"
    "m_iPOC s + deltaPOC r ! i \<ge> ra \<Longrightarrow> \<not> lt_available r pics' i \<Longrightarrow> reported a'"
proof -
  let ?msb = "bCheckLTMSB r ! i" and ?c = "POC r ! i"
  have g: "getDeltaPOC r (int i) = Some (deltaPOC r ! i)" "getUsed r (int i) = Some (used r ! i)"
    "getCheckLTMSBPresent r (int i) = Some ?msb" "RefPicSet.getPOC r (int i) = Some ?c"
    using assms(1,3) by (simp_all add: getDeltaPOC_def getUsed_def getCheckLTMSBPresent_def RefPicSet.getPOC_def rps_wf_def)
  have m: "lt_matches ?msb ?c p \<longleftrightarrow> longTerm p \<and> referenced p \<and> lt_fits r i p" for p
    by (auto simp: lt_matches_def lt_fits_def and_mask_int' Let_def)
  have fd: "fold (\<lambda>p isAvailable. if lt_matches ?msb ?c p then True else isAvailable) pics False = lt_available r pics i"
    unfolding fold_available by (simp add: m lt_available_def)
  obtain b ps where mk: "mark_long_term ?msb ?c False pics = (b, ps)" by fastforce
  note ml = mark_long_term_law [OF mk]
  have b: "lt_available r ps i" if b using ml that by (auto simp: lt_available_def lt_fits_def)
  have bl: "blocked s ra False d = False" for d by (simp add: blocked_def)
  have r: "(if lt_available r pics i then (a', pics') = (a, pics)
      else pics' = ps \<and> a' = (if b then a else report_missing s ra False (deltaPOC r ! i) (used r ! i) a))"
    using assms(2) fd unfolding check_lt_step_def g Let_def prod.case bind.bind_lunit bl
    by (auto simp: mk split: if_splits)
  show "noted s r {i} a a'" using r by (auto simp: noted_refl noted_report split: if_splits)
  show "list_all2 marks_more pics pics'" using r ml by (auto simp: marks_more_refl split: if_splits)
  show "reported a'" if "m_iPOC s + deltaPOC r ! i \<ge> ra" "\<not> lt_available r pics' i"
    using r that b by (auto simp: report_reported split: if_splits)
qed

lemma lt_check_loop:
  assumes "rps_wf r"
  shows "for_loop (check_lt_step s r ra False) (map int js) (a, pics) = Some (a', pics') \<Longrightarrow> \<forall>i\<in>set js. i < MAX_NUM_REF_PICS
    \<Longrightarrow> noted s r (set js) a a' \<and> list_all2 marks_more pics pics'
      \<and> ((\<exists>i\<in>set js. m_iPOC s + deltaPOC r ! i \<ge> ra \<and> \<not> lt_available r pics' i) \<longrightarrow> reported a')"
proof (induction js arbitrary: a pics)
  case Nil
  then show ?case by (simp add: noted_refl marks_more_refl)
next
  case (Cons j js)
  then obtain a1 ps1 where a1: "check_lt_step s r ra False (int j) (a, pics) = Some (a1, ps1)"
    "for_loop (check_lt_step s r ra False) (map int js) (a1, ps1) = Some (a', pics')"
    by (auto simp: bind_eq_Some_conv)
  have j: "j < MAX_NUM_REF_PICS" using Cons.prems(2) by simp
  note one = lt_check_step [OF assms a1(1) j]
  have rest: "noted s r (set js) a1 a'" "list_all2 marks_more ps1 pics'"
    "(\<exists>i\<in>set js. m_iPOC s + deltaPOC r ! i \<ge> ra \<and> \<not> lt_available r pics' i) \<longrightarrow> reported a'"
    using Cons.IH [OF a1(2)] Cons.prems(2) by simp_all
  have "noted s r (set (j # js)) a a'" using noted_trans [OF one(1) rest(1)] by simp
  moreover have "reported a1 \<longrightarrow> reported a'" using rest(1) by (simp add: noted_def)
  moreover have "lt_available r ps1 j \<longrightarrow> lt_available r pics' j" using marks_more_available [OF rest(2)] by blast
  ultimately show ?case using one(3) rest(3) marks_more_trans [OF one(2) rest(2)] by auto
qed

abbreviation (input) nothing_missing :: availability where
  "nothing_missing \<equiv> \<lparr>atLeastOneUnabledByRecoveryPoint = False, atLeastOneFlushedByPreviousIDR = False,
    atLeastOneLost = False, atLeastOneRemoved = False, iPocLost = 0\<rparr>"

lemma check_unfolded:
  assumes "rps_in_bounds r" "checkThatAllRefPicsAreAvailable s r ra False pics = Some (res, pics')"
    "numberOfNegativePictures r + numberOfPositivePictures r \<le> numberOfPictures r"
    "n = nat (numberOfNegativePictures r + numberOfPositivePictures r)" "m = nat (numberOfPictures r)"
  obtains a1 a2 where "for_loop (check_lt_step s r ra False) (map int [n..<m]) (nothing_missing, pics) = Some (a1, pics')"
    "for_loop (check_st_step s r ra False pics') (map int [0..<n]) a1 = Some a2"
    "res = (if atLeastOneLost a2 then iPocLost a2 + 1 else if atLeastOneRemoved a2 then -2 else 0)"
    "noted s r {..<m} nothing_missing a2" "rps_wf r" "n \<le> m" "m \<le> 16"
    "list_all2 marks_more pics pics'"
    "(\<exists>i\<in>set [n..<m]. m_iPOC s + deltaPOC r ! i \<ge> ra \<and> \<not> lt_available r pics' i) \<longrightarrow> reported a2"
    "(\<exists>i\<in>set [0..<n]. m_iPOC s + deltaPOC r ! i \<ge> ra \<and> \<not> st_available s r pics' i) \<longrightarrow> reported a2"
proof -
  have nm: "numberOfNegativePictures r + numberOfPositivePictures r = int n" "numberOfPictures r = int m" "m \<le> 16" "n \<le> m"
    and wf: "rps_wf r"
    using assms(1,3,4,5) by (auto simp: rps_in_bounds_def)
  obtain a1 a2 where a: "for_loop (check_lt_step s r ra False) (map int [n..<m]) (nothing_missing, pics) = Some (a1, pics')"
    "for_loop (check_st_step s r ra False pics') (map int [0..<n]) a1 = Some a2"
    "res = (if atLeastOneUnabledByRecoveryPoint a2 \<or> atLeastOneFlushedByPreviousIDR a2 then -1
           else if atLeastOneLost a2 then iPocLost a2 + 1 else if atLeastOneRemoved a2 then -2 else 0)"
    using assms(2) upto_int [of n m] upto_int [of 0 n]
    unfolding checkThatAllRefPicsAreAvailable_def Let_def nm(1,2) by (auto simp: bind_eq_Some_conv)
  have b: "\<forall>i\<in>set [n..<m]. i < MAX_NUM_REF_PICS" "\<forall>i\<in>set [0..<n]. i < MAX_NUM_REF_PICS"
    using nm(3,4) by (auto simp: MAX_NUM_REF_PICS_def)
  note lt = lt_check_loop [OF wf a(1) b(1)] and st = st_check_loop [OF wf a(2) b(2)]
  have nt: "noted s r {..<m} nothing_missing a2"
    using noted_trans [of s r _ nothing_missing a1 _ a2] lt st nm(4) by (metis (no_types, lifting) ivl_disj_un_one(2) sup_commute
      atLeast_upt atLeastLessThan_upt lessThan_atLeast0 zero_order(1) atLeast0LessThan)
  then have "\<not> atLeastOneUnabledByRecoveryPoint a2" "\<not> atLeastOneFlushedByPreviousIDR a2" by (simp_all add: noted_def)
  moreover have "reported a1 \<longrightarrow> reported a2" using st by (simp add: noted_def)
  ultimately show ?thesis using that [OF a(1,2) _ nt wf nm(4,3)] a(3) lt st by simp
qed

lemma check_available_law:
  assumes "rps_in_bounds r" "checkThatAllRefPicsAreAvailable s r ra False pics = Some (res, pics')"
    "res = 0" "\<forall>i<nat (numberOfPictures r). m_iPOC s + deltaPOC r ! i \<noteq> - 1"
    "numberOfNegativePictures r + numberOfPositivePictures r \<le> numberOfPictures r"
  defines "n \<equiv> nat (numberOfNegativePictures r + numberOfPositivePictures r)"
  shows "list_all2 marks_more pics pics'"
    "i < n \<Longrightarrow> m_iPOC s + deltaPOC r ! i \<ge> ra \<Longrightarrow> st_available s r pics' i"
    "n \<le> i \<Longrightarrow> i < nat (numberOfPictures r) \<Longrightarrow> m_iPOC s + deltaPOC r ! i \<ge> ra \<Longrightarrow> lt_available r pics' i"
proof -
  obtain a1 a2 where a: "res = (if atLeastOneLost a2 then iPocLost a2 + 1 else if atLeastOneRemoved a2 then -2 else 0)"
    "noted s r {..<nat (numberOfPictures r)} nothing_missing a2" "list_all2 marks_more pics pics'"
    "(\<exists>i\<in>set [n..<nat (numberOfPictures r)]. m_iPOC s + deltaPOC r ! i \<ge> ra \<and> \<not> lt_available r pics' i) \<longrightarrow> reported a2"
    "(\<exists>i\<in>set [0..<n]. m_iPOC s + deltaPOC r ! i \<ge> ra \<and> \<not> st_available s r pics' i) \<longrightarrow> reported a2"
    using check_unfolded [OF assms(1,2,5) n_def [THEN meta_eq_to_obj_eq] refl] by blast
  have "atLeastOneLost a2 \<longrightarrow> iPocLost a2 \<noteq> -1" using a(2) assms(4) by (auto simp: noted_def)
  then have "\<not> reported a2" using a(1) assms(3) by (auto simp: reported_def split: if_splits)
  with a show "list_all2 marks_more pics pics'"
    "i < n \<Longrightarrow> m_iPOC s + deltaPOC r ! i \<ge> ra \<Longrightarrow> st_available s r pics' i"
    "n \<le> i \<Longrightarrow> i < nat (numberOfPictures r) \<Longrightarrow> m_iPOC s + deltaPOC r ! i \<ge> ra \<Longrightarrow> lt_available r pics' i"
    by auto
qed

text \<open>A used short-term picture that no picture of the buffer can be is reported as lost.\<close>

lemma st_check_lost:
  assumes "rps_wf r" "for_loop (check_st_step s r ra False pics) (map int js) a = Some a'" "\<forall>i\<in>set js. i < MAX_NUM_REF_PICS"
  shows "atLeastOneLost a \<or> (\<exists>i\<in>set js. used r ! i \<and> m_iPOC s + deltaPOC r ! i \<ge> ra \<and> \<not> st_available s r pics i)
    \<Longrightarrow> atLeastOneLost a'"
  using assms(2,3)
proof (induction js arbitrary: a)
  case (Cons j js)
  then obtain a1 where a1: "check_st_step s r ra False pics (int j) a = Some a1"
    "for_loop (check_st_step s r ra False pics) (map int js) a1 = Some a'"
    by (auto simp: bind_eq_Some_conv)
  have g: "getDeltaPOC r (int j) = Some (deltaPOC r ! j)" "getUsed r (int j) = Some (used r ! j)"
    using assms(1) Cons.prems(3) by (simp_all add: getDeltaPOC_def getUsed_def rps_wf_def)
  have "a1 = (if st_available s r pics j then a else report_missing s ra False (deltaPOC r ! j) (used r ! j) a)"
    using a1(1) unfolding check_st_step_def g Let_def fold_available
    by (auto simp: blocked_def st_available_def)
  then have "atLeastOneLost a \<or> used r ! j \<and> m_iPOC s + deltaPOC r ! j \<ge> ra \<and> \<not> st_available s r pics j \<Longrightarrow> atLeastOneLost a1"
    by (auto simp: report_missing_def)
  with Cons a1(2) show ?case by auto
qed simp

lemma check_lost:
  assumes "rps_in_bounds r" "checkThatAllRefPicsAreAvailable s r ra False pics = Some (res, pics')"
    "numberOfNegativePictures r + numberOfPositivePictures r \<le> numberOfPictures r"
    "\<forall>i<nat (numberOfPictures r). m_iPOC s + deltaPOC r ! i \<ge> 0"
    "i < nat (numberOfNegativePictures r + numberOfPositivePictures r)" "used r ! i" "m_iPOC s + deltaPOC r ! i \<ge> ra"
    "\<forall>p\<in>set pics. poc p \<noteq> m_iPOC s + deltaPOC r ! i"
  shows "res > 0" "\<forall>p\<in>set pics'. poc p \<noteq> m_iPOC s + deltaPOC r ! i"
proof -
  define n m where nm: "n = nat (numberOfNegativePictures r + numberOfPositivePictures r)" "m = nat (numberOfPictures r)"
  obtain a1 a2 where a: "for_loop (check_st_step s r ra False pics') (map int [0..<n]) a1 = Some a2"
    "res = (if atLeastOneLost a2 then iPocLost a2 + 1 else if atLeastOneRemoved a2 then -2 else 0)"
    "noted s r {..<m} nothing_missing a2" "rps_wf r" "n \<le> m" "m \<le> 16" "list_all2 marks_more pics pics'"
    using check_unfolded [OF assms(1-3) nm] by metis
  have "map poc pics' = map poc pics"
    using a(7) by (induction rule: list_all2_induct) (auto simp: marks_more_def)
  then have "poc ` set pics' = poc ` set pics" by (metis set_map)
  with assms(8) show q: "\<forall>p\<in>set pics'. poc p \<noteq> m_iPOC s + deltaPOC r ! i" by (metis imageE imageI)
  then have "\<not> st_available s r pics' i" by (auto simp: st_available_def)
  moreover have "\<forall>i\<in>set [0..<n]. i < MAX_NUM_REF_PICS" "i \<in> set [0..<n]"
    using a(5,6) assms(5) nm by (auto simp: MAX_NUM_REF_PICS_def)
  ultimately have "atLeastOneLost a2" using st_check_lost [OF a(4,1)] assms(6,7) by blast
  then show "res > 0" using a(2,3) assms(4) nm by (auto simp: noted_def)
qed

section \<open>Marks of the check and order of the sorted list\<close>

lemma mark_long_term_same: "mark_long_term msb c blk pics = (b, pics') \<Longrightarrow> list_all2 marks_more pics pics'"
proof (induction pics arbitrary: b pics')
  case (Cons p ps)
  obtain b1 ps1 where r: "mark_long_term msb c blk ps = (b1, ps1)" by fastforce
  show ?case
    using Cons.prems Cons.IH [OF r] r
    by (auto simp: marks_more_def Let_def list_all2_refl split: if_splits)
qed simp

lemma lt_step_same:
  assumes "check_lt_step s r ra rp i x = Some y"
  shows "list_all2 marks_more (snd x) (snd y)"
proof -
  obtain a pics where x: "x = (a, pics)" by fastforce
  from assms have "snd y = pics \<or> (\<exists>msb c blk. snd y = snd (mark_long_term msb c blk pics))"
    unfolding check_lt_step_def x Let_def by (auto simp: bind_eq_Some_conv case_prod_unfold) blast
  then show ?thesis unfolding x
    by (auto simp: marks_more_refl intro: mark_long_term_same [OF surjective_pairing])
qed

lemma lt_loop_same: "for_loop (check_lt_step s r ra rp) js x = Some y \<Longrightarrow> list_all2 marks_more (snd x) (snd y)"
proof (induction js arbitrary: x)
  case (Cons j js)
  then show ?case by (auto simp: bind_eq_Some_conv dest!: lt_step_same intro: marks_more_trans)
qed (simp add: marks_more_refl)

lemma check_same:
  assumes "checkThatAllRefPicsAreAvailable s r ra rp pics = Some (res, pics')"
  shows "list_all2 marks_more pics pics'"
proof -
  from assms obtain a ps a' where
    l: "for_loop (check_lt_step s r ra rp) [numberOfNegativePictures r + numberOfPositivePictures r..numberOfPictures r - 1]
      (\<lparr>atLeastOneUnabledByRecoveryPoint = False, atLeastOneFlushedByPreviousIDR = False,
        atLeastOneLost = False, atLeastOneRemoved = False, iPocLost = 0\<rparr>, pics) = Some (a, ps)"
    and "pics' = ps"
    unfolding checkThatAllRefPicsAreAvailable_def Let_def by (auto simp: bind_eq_Some_conv)
  with lt_loop_same [OF l] show ?thesis by simp
qed

lemma sort_law: "mset (sortPicList pics) = mset pics" "sorted (map poc (sortPicList pics))"
proof -
  have "mset (sortPicList pics) = mset pics \<and> sorted (map poc (sortPicList pics))"
  proof (cases "pics = []")
    case False
    then have "1 \<le> length pics" by (simp add: Suc_le_eq)
    from sort_fold [OF this order_refl, unfolded Let_def, folded sortPicList_law [unfolded Let_def]]
    have f: "length (sortPicList pics) = length pics" "mset (sortPicList pics) = mset pics"
      "sorted (map poc (take (length pics) (sortPicList pics)))" by blast+
    with take_all [of "sortPicList pics" "length pics"] show ?thesis by simp
  qed (simp add: sortPicList_def)
  then show "mset (sortPicList pics) = mset pics" "sorted (map poc (sortPicList pics))" by simp_all
qed

section \<open>Decoding refresh over several pictures\<close>

text \<open>
  One picture: the slice, and what the encoder does with the buffer before the refresh of the picture (any function: new pictures,
  other marks).  The first component of the state is \<open>pocCRA\<close>, the second says whether a refresh is pending.
\<close>

definition refresh_step :: "slice \<times> (picture list \<Rightarrow> picture list) \<Rightarrow> int \<times> bool \<times> picture list \<Rightarrow> int \<times> bool \<times> picture list" where
  "refresh_step sf st = decodingRefreshMarking (fst sf) (fst st, fst (snd st), snd sf (snd (snd st))) False"

lemma refresh_cra: "m_eNalUnitType s = NAL_UNIT_CODED_SLICE_CRA \<Longrightarrow> fst (decodingRefreshMarking s st False) = m_iPOC s
    \<and> fst (snd (decodingRefreshMarking s st False))"
  by (simp add: decodingRefreshMarking_def Let_def case_prod_beta)

lemma refresh_ordinary:
  "\<not> getRapPicFlag s \<Longrightarrow> decodingRefreshMarking s (c, b, pics) False
    = (c, b \<and> m_iPOC s \<le> c, if b \<and> m_iPOC s > c then unmark (\<lambda>p. poc p \<noteq> m_iPOC s \<and> poc p \<noteq> c) pics else pics)"
  by (auto simp: getRapPicFlag_def decodingRefreshMarking_def Let_def)

lemma refresh_leading:
  assumes "\<forall>sf\<in>set lead. \<not> getRapPicFlag (fst sf) \<and> m_iPOC (fst sf) \<le> c"
  shows "fold refresh_step lead (c, b, pics) = (c, b, fold (\<lambda>sf. snd sf) lead pics)"
  using assms
proof (induction lead arbitrary: pics)
  case (Cons sf lead)
  then show ?case by (simp add: refresh_step_def refresh_ordinary)
qed simp

lemma refresh_trailing:
  assumes "\<forall>sf\<in>set rest. \<not> getRapPicFlag (fst sf)"
  shows "fold refresh_step rest (c, False, pics) = (c, False, fold (\<lambda>sf. snd sf) rest pics)"
  using assms
proof (induction rest arbitrary: pics)
  case (Cons sf rest)
  then show ?case by (simp add: refresh_step_def refresh_ordinary)
qed simp

section \<open>Properties\<close>

text \<open>\<open>sortPicList\<close> permutes the pictures and leaves them in increasing order of their POC.\<close>

theorem sort_pic_list:
  "mset (sortPicList pics) = mset pics \<and> sorted (map poc (sortPicList pics))"
  by (simp add: sort_law)

text \<open>
  C10. After \<open>applyReferencePictureSet\<close> exactly those reference pictures stay references that belong to the
  set (or have the POC of the current picture): a short-term picture by its distance, a long-term one by its
  POC or its low bits.  Pictures of the set used by the current one are in no higher temporal layer; a
  picture that left the set loses its long-term mark; nothing else of a picture changes.
\<close>

theorem apply_rps_marks:
  assumes "rps_in_bounds r" "applyReferencePictureSet s r pics = Some pics'"
  shows "list_all2 (\<lambda>p p'. same_picture p p'
    \<and> (referenced p' \<longleftrightarrow> referenced p \<and> (poc p = m_iPOC s \<or> in_rps s r p))
    \<and> (referenced p' \<longrightarrow> longTerm p' = longTerm p \<and> (usedByCurr p' \<longrightarrow> layer p \<le> m_uiTLayer s))
    \<and> (referenced p \<and> \<not> referenced p' \<longrightarrow> \<not> usedByCurr p' \<and> \<not> longTerm p')) pics pics'"
  by (rule apply_rps_law [OF assms])

definition example_slice :: slice where
  "example_slice = \<lparr>m_iPOC = 8, m_iLastIDR = 0, m_iAssociatedIRAP = 0, m_iAssociatedIRAPType = 19,
     m_eNalUnitType = 1, m_eSliceType = B_SLICE, m_uiTLayer = 0, m_PicOutputFlag = True,
     m_noOutputPriorPicsFlag = False, m_noRaslOutputFlag = False, m_handleCraAsBlaFlag = False,
     m_sliceCurStartCtuTsAddr = 0, m_independentSliceIdx = 0, m_pendingRasInit = False, m_bCheckLDC = False,
     m_bioLDBPossible = False, m_temporalLayerNonReferenceFlag = False,
     m_pRPS = example_ref, sps_BitsForPOC = 8, sps_IBCMode = False, sps_UseBIO = False, m_pcPic = 9, m_aiNumRefIdx = (2, 2),
     m_apcRefPicList = (replicate 17 None, replicate 17 None),
     m_aiRefPOCList = (replicate 17 0, replicate 17 0),
     m_bIsUsedAsLongTerm = (replicate 17 False, replicate 17 False),
     m_list1IdxToList0Idx = replicate 16 0, modificationFlagL0 = False, modificationFlagL1 = False,
     m_RefPicSetIdxL0 = replicate 32 0, m_RefPicSetIdxL1 = replicate 32 0\<rparr>"

definition example_pic :: "nat \<Rightarrow> int \<Rightarrow> picture" where
  "example_pic i c = \<lparr>pic_id = i, poc = c, layer = 0, referenced = True, reconstructed = True,
     neededForOutput = False, usedByCurr = False, longTerm = False, fieldPic = False,
     pic_slices = [example_slice\<lparr>m_iPOC := c\<rparr>], pic_BitsForPOC = 8, pic_size = (64, 64, 64, 64)\<rparr>"

definition example_dpb :: "picture list" where
  "example_dpb = [example_pic 1 7, example_pic 2 4, example_pic 3 10, example_pic 4 0]"

lemma example_rps_bounds: "rps_in_bounds example_ref"
  by (simp add: rps_in_bounds_def rps_wf_def example_ref_def ReferencePictureSet_def MAX_NUM_REF_PICS_def)

theorem apply_rps_marks_witness:
  "\<exists>pics'. applyReferencePictureSet example_slice example_ref example_dpb = Some pics'
    \<and> list_all2 (\<lambda>p p'. same_picture p p'
    \<and> (referenced p' \<longleftrightarrow> referenced p \<and> (poc p = m_iPOC example_slice \<or> in_rps example_slice example_ref p))
    \<and> (referenced p' \<longrightarrow> longTerm p' = longTerm p \<and> (usedByCurr p' \<longrightarrow> layer p \<le> m_uiTLayer example_slice))
    \<and> (referenced p \<and> \<not> referenced p' \<longrightarrow> \<not> usedByCurr p' \<and> \<not> longTerm p')) example_dpb pics'"
proof -
  have "applyReferencePictureSet example_slice example_ref example_dpb \<noteq> None" by code_simp
  with apply_rps_marks [OF example_rps_bounds] show ?thesis by blast
qed

text \<open>
  C17. When \<open>checkThatAllRefPicsAreAvailable\<close> is called without recovery point and returns 0, every entry of the set that does not precede the
  random access point has its picture in the buffer, referenced and marked short-term or long-term as the set
  says.  Nothing is said of the entries before the random access point, which the function does not look for, nor of sets with
  an entry of POC -1, since the function returns the lost POC plus one.
\<close>

theorem refs_available:
  assumes "rps_in_bounds r" "checkThatAllRefPicsAreAvailable s r ra False pics = Some (0, pics')"
    "\<forall>i<nat (numberOfPictures r). m_iPOC s + deltaPOC r ! i \<noteq> - 1"
    "numberOfNegativePictures r + numberOfPositivePictures r \<le> numberOfPictures r"
    "i < nat (numberOfPictures r)" "m_iPOC s + deltaPOC r ! i \<ge> ra"
  shows "if i < nat (numberOfNegativePictures r + numberOfPositivePictures r)
    then st_available s r pics' i else lt_available r pics' i"
  using check_available_law [OF assms(1,2) refl assms(3,4)] assms(5,6) by auto

theorem refs_available_witness:
  "\<exists>pics'. checkThatAllRefPicsAreAvailable example_slice example_ref 0 False example_dpb = Some (0, pics')
    \<and> (if 1 < nat (numberOfNegativePictures example_ref + numberOfPositivePictures example_ref)
    then st_available example_slice example_ref pics' 1 else lt_available example_ref pics' 1)"
proof -
  have "map_option fst (checkThatAllRefPicsAreAvailable example_slice example_ref 0 False example_dpb) = Some 0"
    by code_simp
  then obtain pics' where c: "checkThatAllRefPicsAreAvailable example_slice example_ref 0 False example_dpb = Some (0, pics')"
    by auto
  have d: "numberOfPictures example_ref = 3" "deltaPOC example_ref ! 0 = -1" "deltaPOC example_ref ! 1 = -4"
    "deltaPOC example_ref ! 2 = 2" "m_iPOC example_slice = 8"
    "numberOfNegativePictures example_ref + numberOfPositivePictures example_ref = 3"
    by (simp_all add: example_ref_def example_slice_def)
  have "\<forall>i<nat (numberOfPictures example_ref). m_iPOC example_slice + deltaPOC example_ref ! i \<noteq> - 1"
    unfolding d by (auto simp: less_Suc_eq numeral_3_eq_3 d [unfolded numeral_2_eq_2 One_nat_def])
  from refs_available [OF example_rps_bounds c this, of 1] c show ?thesis by (simp add: d d(3) [unfolded One_nat_def])
qed

text \<open>
  The value that reports a lost picture of POC -1 is the one that reports that nothing is missing:
  with an entry used by the current picture whose POC is -1, no picture of that POC in the buffer and none
  else missing, the function returns 0.
\<close>

theorem lost_minus_one_unreported:
  assumes "rps_wf r" "numberOfNegativePictures r = 1" "numberOfPositivePictures r = 0" "numberOfPictures r = 1"
    "m_iPOC s + deltaPOC r ! 0 = -1" "used r ! 0" "ra \<le> -1" "\<forall>p\<in>set pics. poc p \<noteq> -1"
  shows "checkThatAllRefPicsAreAvailable s r ra False pics = Some (0, pics)"
proof -
  have g: "getDeltaPOC r (int 0) = Some (deltaPOC r ! 0)" "getUsed r (int 0) = Some True"
    using assms(1,6) by (simp_all add: getDeltaPOC_def getUsed_def rps_wf_def MAX_NUM_REF_PICS_def arr_get_i_def)
  have na: "\<not> (\<exists>p\<in>set pics. \<not> longTerm p \<and> poc p = -1 \<and> referenced p)" using assms(8) by blast
  then have "check_st_step s r ra False pics (int 0) a = Some (report_missing s ra False (deltaPOC r ! 0) True a)" for a
    unfolding check_st_step_def g Let_def fold_available assms(5) bind.bind_lunit by (simp add: if_not_P [OF na])
  then show ?thesis
    using assms(2-5,7) by (simp add: checkThatAllRefPicsAreAvailable_def report_missing_def)
qed

theorem lost_minus_one_unreported_witness:
  "checkThatAllRefPicsAreAvailable example_slice
     (ReferencePictureSet\<lparr>numberOfPictures := 1, numberOfNegativePictures := 1,
        deltaPOC := -9 # replicate 15 0, used := True # replicate 15 False\<rparr>) (- 100) False example_dpb
   = Some (0, example_dpb)"
  by (rule lost_minus_one_unreported)
    (auto simp: rps_wf_def ReferencePictureSet_def MAX_NUM_REF_PICS_def example_slice_def example_dpb_def example_pic_def)

text \<open>
  C16. The decoding refresh of the encoder at a CRA picture (without efficient field IRAP).  The pictures that follow it in coding order with
  lower POCs change no mark, whatever else happens to the buffer between them; the first picture behind it in output order takes the mark of
  reference from exactly the pictures other than itself and the CRA picture; no later picture does until the next random access picture.
\<close>

theorem cra_refresh:
  assumes "m_eNalUnitType s = NAL_UNIT_CODED_SLICE_CRA" "\<forall>sf\<in>set lead. \<not> getRapPicFlag (fst sf) \<and> m_iPOC (fst sf) \<le> m_iPOC s"
    and "\<not> getRapPicFlag t" "m_iPOC t > m_iPOC s" "\<forall>sf\<in>set rest. \<not> getRapPicFlag (fst sf)"
  shows "let pics1 = fold (\<lambda>sf. snd sf) lead (snd (snd (decodingRefreshMarking s st False)));
      pics2 = map (\<lambda>p. p\<lparr>referenced := referenced p \<and> (poc p = m_iPOC t \<or> poc p = m_iPOC s)\<rparr>) (f pics1)
    in fold refresh_step (lead @ [(t, f)] @ rest) (decodingRefreshMarking s st False)
      = (m_iPOC s, False, fold (\<lambda>sf. snd sf) rest pics2)"
proof -
  obtain pics0 where c: "decodingRefreshMarking s st False = (m_iPOC s, True, pics0)"
    using refresh_cra [OF assms(1), of st] by (cases "decodingRefreshMarking s st False") auto
  have u: "unmark (\<lambda>p. poc p \<noteq> a \<and> poc p \<noteq> b) pics = map (\<lambda>p. p\<lparr>referenced := referenced p \<and> (poc p = a \<or> poc p = b)\<rparr>) pics" for a b pics
    unfolding unmark_def by (rule map_cong) auto
  have "refresh_step (t, f) (m_iPOC s, True, pics) = (m_iPOC s, False, unmark (\<lambda>p. poc p \<noteq> m_iPOC t \<and> poc p \<noteq> m_iPOC s) (f pics))" for pics
    using assms(3,4) by (simp add: refresh_step_def refresh_ordinary)
  then show ?thesis unfolding c Let_def
    by (simp add: refresh_leading [OF assms(2)] refresh_trailing [OF assms(5)] u)
qed

theorem cra_refresh_witness:
  "fold refresh_step [(example_slice\<lparr>m_iPOC := 6\<rparr>, Cons (example_pic 5 8)), (example_slice\<lparr>m_iPOC := 12\<rparr>, id), (example_slice\<lparr>m_iPOC := 10\<rparr>, id)]
      (decodingRefreshMarking (example_slice\<lparr>m_eNalUnitType := NAL_UNIT_CODED_SLICE_CRA\<rparr>) (0, False, example_dpb) False)
    = (8, False, map (\<lambda>p. p\<lparr>referenced := poc p = 8\<rparr>) (example_pic 5 8 # example_dpb))"
proof -
  let ?s = "example_slice\<lparr>m_eNalUnitType := NAL_UNIT_CODED_SLICE_CRA\<rparr>"
  have n: "\<not> getRapPicFlag (example_slice\<lparr>m_iPOC := c\<rparr>)" for c by (simp add: getRapPicFlag_def example_slice_def)
  have p: "snd (snd (decodingRefreshMarking ?s (0, False, example_dpb) False)) = example_dpb" "m_iPOC ?s = 8"
    by (simp_all add: decodingRefreshMarking_def example_slice_def)
  have r: "map (\<lambda>p. p\<lparr>referenced := referenced p \<and> (poc p = 12 \<or> poc p = 8)\<rparr>) (example_pic 5 8 # example_dpb)
      = map (\<lambda>p. p\<lparr>referenced := poc p = 8\<rparr>) (example_pic 5 8 # example_dpb)"
    by (simp add: example_dpb_def example_pic_def)
  show ?thesis
    using cra_refresh [of ?s "[(example_slice\<lparr>m_iPOC := 6\<rparr>, Cons (example_pic 5 8))]" "example_slice\<lparr>m_iPOC := 12\<rparr>"
        "[(example_slice\<lparr>m_iPOC := 10\<rparr>, id)]" "(0, False, example_dpb)" id] n p r
    by (simp add: Let_def)
qed

end
