(* ===== verification/ExplicitRps.thy ===== *)
theory ExplicitRps
  imports PictureBuffer
begin

text \<open>
  \<open>Slice::createExplicitReferencePictureSetFromReference\<close> of \<open>CommonLib/Slice.cpp\<close>: the reference picture set that
  the encoder sends in a slice header when pictures of the configured set are missing, and its prediction
  from the set that predicts the configured one.

  The last theorem composes it with the syntax of theory \<open>RefPicSet\<close>: the decoder receives the set the encoder made.
\<close>

record explicit_state =
  localRPS :: ref_pic_set
  k_cnt :: int
  nrOfNegativePictures :: int
  nrOfPositivePictures :: int
  irapIsInRPS :: bool

text \<open>
  One picture of the buffer against entry \<open>i\<close>; \<open>ofs\<close> is 0, and 1 in the loop for a composite reference,
  \<open>irapDist\<close> the distance of the associated IRAP picture.
\<close>

definition explicit_entry :: "slice \<Rightarrow> ref_pic_set \<Rightarrow> bool \<Rightarrow> int \<Rightarrow> bool \<Rightarrow> bool \<Rightarrow> int \<Rightarrow> int
    \<Rightarrow> int \<Rightarrow> picture \<Rightarrow> explicit_state \<Rightarrow> explicit_state option" where
  "explicit_entry s r isRAP pocRandomAccess bUseRecoveryPoint bEfficientFieldIRAPEnabled ofs irapDist i p st = do {
     d \<leftarrow> getDeltaPOC r i;
     if poc p = m_iPOC s + ofs + d \<and> referenced p then do {
       let k = k_cnt st;
       l \<leftarrow> setDeltaPOC k (d + ofs) (localRPS st);
       u \<leftarrow> getUsed r i;
       l \<leftarrow> setUsed k (u \<and> \<not> isRAP) l;
       l \<leftarrow> (if bEfficientFieldIRAPEnabled then do {
           uk \<leftarrow> getUsed l k;
           setUsed k (uk \<and> \<not> (bUseRecoveryPoint \<and> m_iPOC s > pocRandomAccess \<and> m_iPOC s + d + ofs < pocRandomAccess)) l
         } else Some l);
       dk \<leftarrow> getDeltaPOC l k;
       let st = st\<lparr>localRPS := l, k_cnt := k + 1\<rparr>;
       Some (if dk < 0 then st\<lparr>nrOfNegativePictures := nrOfNegativePictures st + 1\<rparr>
         else st\<lparr>irapIsInRPS := irapIsInRPS st \<or> bEfficientFieldIRAPEnabled \<and> poc p = m_iAssociatedIRAP s
                   \<and> m_iAssociatedIRAP s = m_iPOC s + irapDist,
                 nrOfPositivePictures := nrOfPositivePictures st + 1\<rparr>)
     } else Some st
   }"

definition add_irap :: "slice \<Rightarrow> int \<Rightarrow> picture \<Rightarrow> explicit_state \<times> bool \<Rightarrow> (explicit_state \<times> bool) option" where
  "add_irap s irapDist p x = do {
     let (st, useNewRPS) = x;
     if poc p = m_iAssociatedIRAP s \<and> m_iAssociatedIRAP s = m_iPOC s + irapDist then do {
       l \<leftarrow> setDeltaPOC (k_cnt st) 1 (localRPS st);
       l \<leftarrow> setUsed (k_cnt st) True l;
       Some (st\<lparr>localRPS := l, nrOfPositivePictures := nrOfPositivePictures st + 1, k_cnt := k_cnt st + 1\<rparr>, True)
     } else Some (st, useNewRPS)
   }"

text \<open>The comparison of one entry \<open>j\<close> of the new set with the POC distance \<open>x\<close>.\<close>

definition idc_step :: "ref_pic_set \<Rightarrow> int \<Rightarrow> int \<Rightarrow> int \<Rightarrow> int option" where
  "idc_step l x j idc = do {
     dj \<leftarrow> getDeltaPOC l j;
     if x = dj then do { u \<leftarrow> getUsed l j; Some (if u then 1 else 2) } else Some idc
   }"

definition choose_ref_idc :: "ref_pic_set \<Rightarrow> ref_pic_set \<Rightarrow> int \<Rightarrow> ref_pic_set \<Rightarrow> ref_pic_set option" where
  "choose_ref_idc r ref i l = do {
     d \<leftarrow> (if i \<noteq> numberOfPictures ref then getDeltaPOC ref i else Some 0);
     idc \<leftarrow> for_loop (idc_step l (d + deltaRPS r)) [0..numberOfPictures l - 1] 0;
     setRefIdc i idc l
   }"

definition predict_local :: "ref_pic_set list \<Rightarrow> int \<Rightarrow> ref_pic_set \<Rightarrow> bool \<Rightarrow> ref_pic_set \<Rightarrow> ref_pic_set option" where
  "predict_local rpsList rpsIdx r useNewRPS l =
     (if \<not> interRPSPrediction r \<or> useNewRPS then Some (l\<lparr>interRPSPrediction := False, numRefIdc := 0\<rparr>)
      else do {
        let rIdx = rpsIdx - deltaRIdxMinus1 r - 1;
        ref \<leftarrow> arr_get_i rpsList rIdx;
        l \<leftarrow> for_loop (choose_ref_idc r ref) [0..numberOfPictures ref] l;
        Some (l\<lparr>interRPSPrediction := True, numRefIdc := max 0 (numberOfPictures ref + 1),
                deltaRPS := deltaRPS r,
                deltaRIdxMinus1 := deltaRIdxMinus1 r + int (length rpsList) - rpsIdx\<rparr>)
      })"

definition createExplicitReferencePictureSetFromReference ::
  "slice \<Rightarrow> ref_pic_set list \<Rightarrow> int \<Rightarrow> bool \<Rightarrow> picture list \<Rightarrow> ref_pic_set \<Rightarrow> bool \<Rightarrow> int \<Rightarrow> bool \<Rightarrow> bool \<Rightarrow> bool \<Rightarrow> bool
    \<Rightarrow> ref_pic_set option" where
  "createExplicitReferencePictureSetFromReference s rpsList rpsIdx picIsField pics r isRAP pocRandomAccess
     bUseRecoveryPoint bEfficientFieldIRAPEnabled isEncodeLtRef isCompositeRefEnable = do {
     let irapDist = (if isCompositeRefEnable then 2 else 1);
     let st = \<lparr>localRPS = ReferencePictureSet, k_cnt = 0, nrOfNegativePictures = 0, nrOfPositivePictures = 0,
               irapIsInRPS = False\<rparr>;
     st \<leftarrow> for_loop (\<lambda>i. for_loop (explicit_entry s r isRAP pocRandomAccess bUseRecoveryPoint
         bEfficientFieldIRAPEnabled 0 irapDist i) pics) [0..numberOfPictures r - 1] st;
     (st, useNewRPS) \<leftarrow> (if bEfficientFieldIRAPEnabled \<and> picIsField \<and> \<not> irapIsInRPS st
       then for_loop (add_irap s irapDist) pics (st, False) else Some (st, False));
     (st, useNewRPS) \<leftarrow> (if isCompositeRefEnable \<and> isEncodeLtRef then do {
         st \<leftarrow> for_loop (\<lambda>i st. for_loop (explicit_entry s r isRAP pocRandomAccess bUseRecoveryPoint
             bEfficientFieldIRAPEnabled 1 2 i) pics (st\<lparr>k_cnt := 0\<rparr>)) [0..numberOfPictures r - 1]
           (st\<lparr>nrOfNegativePictures := 0, nrOfPositivePictures := 0\<rparr>);
         Some (st, True)
       } else Some (st, useNewRPS));
     predict_local rpsList rpsIdx r useNewRPS
       ((localRPS st)\<lparr>numberOfNegativePictures := nrOfNegativePictures st,
         numberOfPositivePictures := nrOfPositivePictures st,
         numberOfPictures := nrOfNegativePictures st + nrOfPositivePictures st\<rparr>)
   }"

section \<open>The order of a received set\<close>

text \<open>Negative deltas first, decreasing, then the others, increasing.\<close>

definition rps_order :: "int \<Rightarrow> int \<Rightarrow> bool" where
  "rps_order a b \<longleftrightarrow> (if a < 0 then b < a \<or> 0 \<le> b else a < b)"

lemma rps_order_split:
  "sorted_wrt rps_order (map fst p) \<Longrightarrow>
    p = filter (\<lambda>e. fst e < 0) p @ filter (\<lambda>e. \<not> fst e < 0) p
    \<and> sorted_wrt (>) (map fst (filter (\<lambda>e. fst e < 0) p)) \<and> sorted_wrt (<) (map fst (filter (\<lambda>e. \<not> fst e < 0) p))"
proof (induction p)
  case (Cons x p)
  have "filter (\<lambda>e. fst e < 0) p = []" if "\<not> fst x < 0"
    using that Cons.prems by (auto simp: rps_order_def filter_empty_conv)
  with Cons show ?case by (cases "fst x < 0") (auto simp: rps_order_def)
qed simp

lemma sort_distinct:
  assumes "mset (xs :: (int \<times> bool) list) = mset ys" "sorted (map fst ys)" "distinct (map fst ys)"
  shows "sort_key fst xs = ys"
proof (rule sort_key_inj_key_eq [OF assms(1) _ assms(2)])
  show "inj_on fst (set xs)" using assms(1,3) by (metis distinct_map mset_eq_setD)
qed

lemma rps_order_distinct: "sorted_wrt rps_order ds \<Longrightarrow> distinct ds"
  by (induction ds) (auto simp: rps_order_def split: if_splits)

lemma split_sorted_unique:
  assumes "mset q = mset p" "sorted_wrt rps_order (map fst p)"
  shows "split_sorted q = p"
proof -
  let ?A = "filter (\<lambda>e. fst e < 0) p" and ?B = "filter (\<lambda>e. \<not> fst e < 0) p"
  note s = rps_order_split [OF assms(2)]
  have d: "distinct (map fst p)" by (rule rps_order_distinct [OF assms(2)])
  have "sort_key fst (filter (\<lambda>e. fst e < 0) q) = rev ?A"
  proof (rule sort_distinct)
    have "mset (filter (\<lambda>e. fst e < 0) q) = mset ?A" using assms(1) by (simp add: mset_filter)
    then show "mset (filter (\<lambda>e. fst e < 0) q) = mset (rev ?A)" by simp
    have "sorted_wrt (<) (rev (map fst ?A))" using s by (simp add: sorted_wrt_rev)
    then have "sorted (rev (map fst ?A))" by (rule strict_sorted_imp_sorted)
    then show "sorted (map fst (rev ?A))" by (simp add: rev_map)
    show "distinct (map fst (rev ?A))" using d by (simp add: rev_map [symmetric] distinct_map_filter)
  qed
  moreover have "sort_key fst (filter (\<lambda>e. \<not> fst e < 0) q) = ?B"
  proof (rule sort_distinct)
    show "mset (filter (\<lambda>e. \<not> fst e < 0) q) = mset ?B" using assms(1) by (simp add: mset_filter)
    show "sorted (map fst ?B)" using s by (auto intro: strict_sorted_imp_sorted)
    show "distinct (map fst ?B)" using d by (simp add: distinct_map_filter)
  qed
  ultimately show ?thesis using s by (simp add: split_sorted_def)
qed

section \<open>The pictures that are kept\<close>

definition kept :: "slice \<Rightarrow> ref_pic_set \<Rightarrow> picture list \<Rightarrow> nat \<Rightarrow> bool" where
  "kept s r pics i \<longleftrightarrow> (\<exists>p\<in>set pics. poc p = m_iPOC s + deltaPOC r ! i \<and> referenced p)"

definition explicit_pics :: "slice \<Rightarrow> ref_pic_set \<Rightarrow> bool \<Rightarrow> picture list \<Rightarrow> nat list \<Rightarrow> (int \<times> bool) list" where
  "explicit_pics s r isRAP pics js =
     map (\<lambda>i. (deltaPOC r ! i, used r ! i \<and> \<not> isRAP)) (filter (kept s r pics) js)"

definition est :: "ref_pic_set \<Rightarrow> (int \<times> bool) list \<Rightarrow> nat \<Rightarrow> int \<Rightarrow> int \<Rightarrow> explicit_state" where
  "est l es k a b = \<lparr>localRPS = with_entries l es, k_cnt = int k, nrOfNegativePictures = a, nrOfPositivePictures = b,
     irapIsInRPS = False\<rparr>"

lemma est_sel:
  "localRPS (est l es k a b) = with_entries l es" "nrOfNegativePictures (est l es k a b) = a"
  "nrOfPositivePictures (est l es k a b) = b"
  by (simp_all add: est_def)

lemma explicit_entry_law:
  assumes "rps_wf r" "i < MAX_NUM_REF_PICS" "k < length es"
  shows "explicit_entry s r isRAP ra rp False 0 dist (int i) p (est l es k a b) =
    (if poc p = m_iPOC s + deltaPOC r ! i \<and> referenced p then
       let e = (deltaPOC r ! i, used r ! i \<and> \<not> isRAP)
       in Some (est l (es[k := e]) (Suc k) (a + below [e]) (b + (1 - below [e])))
     else Some (est l es k a b))"
proof -
  have g: "getDeltaPOC r (int i) = Some (deltaPOC r ! i)" "getUsed r (int i) = Some (used r ! i)"
    using assms(1,2) by (simp_all add: getDeltaPOC_def getUsed_def rps_wf_def)
  let ?e = "(deltaPOC r ! i, used r ! i \<and> \<not> isRAP)"
  have gd: "getDeltaPOC (with_entries l (es[k := ?e])) (int k) = Some (deltaPOC r ! i)"
    using assms(3) by simp
  show ?thesis
    unfolding explicit_entry_def g est_def Let_def
    by (auto simp: set_halves [OF assms(3)] gd below_def simp del: get_with_entries)
qed

lemma explicit_entry_skip:
  assumes "rps_wf r" "i < MAX_NUM_REF_PICS" "\<not> (poc p = m_iPOC s + deltaPOC r ! i \<and> referenced p)"
  shows "explicit_entry s r isRAP ra rp False 0 dist (int i) p st = Some st"
  using assms by (auto simp: explicit_entry_def getDeltaPOC_def rps_wf_def)

lemma for_loop_filter:
  "(\<And>x s. x \<in> set xs \<Longrightarrow> \<not> P x \<Longrightarrow> f x s = Some s) \<Longrightarrow> for_loop f xs s = for_loop f (filter P xs) s"
proof (induction xs arbitrary: s)
  case (Cons x xs)
  then have "for_loop f xs = for_loop f (filter P xs)" by (intro ext) simp
  with Cons.prems show ?case by (cases "P x") auto
qed simp

definition one_each :: "picture list \<Rightarrow> bool" where
  "one_each pics \<longleftrightarrow> distinct (map poc (filter referenced pics))"

lemma one_match:
  assumes "one_each pics"
  shows "(if \<exists>p\<in>set pics. poc p = c \<and> referenced p
    then \<exists>p. filter (\<lambda>p. poc p = c \<and> referenced p) pics = [p] \<and> poc p = c \<and> referenced p
    else filter (\<lambda>p. poc p = c \<and> referenced p) pics = [])"
  using assms
proof (induction pics)
  case (Cons p pics)
  then have IH: "one_each pics" by (auto simp: one_each_def split: if_splits)
  have "filter (\<lambda>q. poc q = c \<and> referenced q) pics = []" if "poc p = c" "referenced p"
    using Cons.prems that by (auto simp: one_each_def filter_empty_conv image_iff)
  with Cons.IH [OF IH] show ?case by (cases "poc p = c \<and> referenced p") auto
qed simp

lemma explicit_loop:
  assumes "rps_wf r" "one_each pics"
  shows "\<forall>i\<in>set js. i < MAX_NUM_REF_PICS \<Longrightarrow> k + length (explicit_pics s r isRAP pics js) \<le> length es \<Longrightarrow>
    for_loop (\<lambda>i. for_loop (explicit_entry s r isRAP ra rp False 0 dist i) pics) (map int js) (est l es k a b)
    = (let p = explicit_pics s r isRAP pics js
       in Some (est l (take k es @ p @ drop (k + length p) es) (k + length p) (a + below p) (b + (int (length p) - below p))))"
proof (induction js arbitrary: k es a b)
  case Nil
  then show ?case by (simp add: explicit_pics_def)
next
  case (Cons j js)
  let ?P = "\<lambda>p. poc p = m_iPOC s + deltaPOC r ! j \<and> referenced p"
  let ?e = "(deltaPOC r ! j, used r ! j \<and> \<not> isRAP)"
  let ?q = "explicit_pics s r isRAP pics js"
  have j: "j < MAX_NUM_REF_PICS" using Cons.prems(1) by simp
  have f: "for_loop (explicit_entry s r isRAP ra rp False 0 dist (int j)) pics st
      = for_loop (explicit_entry s r isRAP ra rp False 0 dist (int j)) (filter ?P pics) st" for st
    by (rule for_loop_filter) (rule explicit_entry_skip [OF assms(1) j])
  note om = one_match [OF assms(2), of "m_iPOC s + deltaPOC r ! j"]
  show ?case
  proof (cases "kept s r pics j")
    case False
    then have "filter ?P pics = []" using om by (simp add: kept_def split: if_splits)
    then have "for_loop (explicit_entry s r isRAP ra rp False 0 dist (int j)) pics (est l es k a b) = Some (est l es k a b)"
      unfolding f by simp
    moreover have "explicit_pics s r isRAP pics (j # js) = ?q" using False by (simp add: explicit_pics_def)
    ultimately show ?thesis using Cons by simp
  next
    case True
    then obtain p where p: "filter ?P pics = [p]" "?P p" using om by (auto simp: kept_def split: if_splits)
    have q: "explicit_pics s r isRAP pics (j # js) = ?e # ?q" using True by (simp add: explicit_pics_def)
    have k: "k < length es" using Cons.prems(2) unfolding q by simp
    have "for_loop (explicit_entry s r isRAP ra rp False 0 dist (int j)) pics (est l es k a b)
        = Some (est l (es[k := ?e]) (Suc k) (a + below [?e]) (b + (1 - below [?e])))"
      unfolding f p(1) using explicit_entry_law [OF assms(1) j k] p(2) by (simp add: Let_def)
    moreover have "take (Suc k) (es[k := ?e]) = take k es @ [?e]" using k by (simp add: take_Suc_conv_app_nth)
    moreover have "below (?e # ?q) = below [?e] + below ?q" by (simp add: below_def)
    ultimately show ?thesis
      using Cons.IH [of "Suc k" "es[k := ?e]" "a + below [?e]" "b + (1 - below [?e])"] Cons.prems k
      unfolding q by (simp add: Let_def algebra_simps)
  qed
qed

section \<open>The prediction of the kept pictures\<close>

lemma idc_loop:
  assumes "n \<le> length es" "distinct (map fst (take n es))"
  shows "\<exists>idc. for_loop (idc_step (with_entries l es) x) (map int [0..<n]) 0 = Some idc
    \<and> (\<forall>e\<in>set (take n es). fst e = x \<longrightarrow> idc = (if snd e then 1 else 2))
    \<and> (x \<notin> fst ` set (take n es) \<longrightarrow> idc = 0)"
  using assms
proof (induction n)
  case (Suc n)
  have n: "n < length es" using Suc.prems(1) by simp
  have t: "take (Suc n) es = take n es @ [es ! n]" using n by (simp add: take_Suc_conv_app_nth)
  from Suc.prems(2) have nd: "distinct (map fst (take n es))" "fst (es ! n) \<notin> fst ` set (take n es)" unfolding t by auto
  from Suc.IH [OF _ nd(1)] n obtain idc where idc: "for_loop (idc_step (with_entries l es) x) (map int [0..<n]) 0 = Some idc"
    "\<forall>e\<in>set (take n es). fst e = x \<longrightarrow> idc = (if snd e then 1 else 2)"
    "x \<notin> fst ` set (take n es) \<longrightarrow> idc = 0" by auto
  have st: "idc_step (with_entries l es) x (int n) v
      = Some (if x = fst (es ! n) then if snd (es ! n) then 1 else 2 else v)" for v
    using n by (simp add: idc_step_def)
  show ?case
  proof (cases "x = fst (es ! n)")
    case True
    then have "(x, b) \<notin> set (take n es)" for b using nd(2) by (force simp: image_iff)
    with idc True show ?thesis unfolding t by (auto simp: for_loop_append st [unfolded True])
  next
    case False
    with idc show ?thesis unfolding t by (auto simp: for_loop_append st)
  qed
qed simp

text \<open>The index chosen for entry \<open>i\<close> of the reference set.\<close>

definition idc_for :: "(int \<times> bool) list \<Rightarrow> int \<Rightarrow> int" where
  "idc_for p x = (if (x, True) \<in> set p then 1 else if (x, False) \<in> set p then 2 else 0)"

lemma choose_ref_idc_law:
  assumes "rps_wf ref" "numberOfPictures ref \<le> 16" "i < length ri" "int i \<le> numberOfPictures ref"
    "p = take n es" "n \<le> length es" "distinct (map fst p)" "numberOfPictures l = int n"
  shows "choose_ref_idc r ref (int i) (with_entries (l\<lparr>refIdc := ri\<rparr>) es)
    = Some (with_entries (l\<lparr>refIdc := ri[i := idc_for p (ref_delta ref i + deltaRPS r)]\<rparr>) es)"
proof -
  let ?x = "ref_delta ref i + deltaRPS r"
  have d: "(if int i \<noteq> numberOfPictures ref then getDeltaPOC ref (int i) else Some 0) = Some (ref_delta ref i)"
    using assms(1,2,4) by (auto simp: getDeltaPOC_def ref_delta_def rps_wf_def MAX_NUM_REF_PICS_def)
  obtain idc where idc: "for_loop (idc_step (with_entries (l\<lparr>refIdc := ri\<rparr>) es) ?x) (map int [0..<n]) 0 = Some idc"
    "\<forall>e\<in>set p. fst e = ?x \<longrightarrow> idc = (if snd e then 1 else 2)" "?x \<notin> fst ` set p \<longrightarrow> idc = 0"
    using idc_loop [of n es "l\<lparr>refIdc := ri\<rparr>" ?x] assms(5-7) by auto
  have "idc = idc_for p ?x"
  proof (cases "?x \<in> fst ` set p")
    case True
    then obtain b where "(?x, b) \<in> set p" by auto
    moreover have k: "(?x, b) \<in> set p \<Longrightarrow> idc = (if b then 1 else 2)" for b using idc(2) by fastforce
    ultimately show ?thesis using k [of True] k [of False] by (cases b) (auto simp: idc_for_def)
  qed (use idc(3) in \<open>auto simp: idc_for_def image_iff\<close>)
  moreover have "[0..numberOfPictures (with_entries (l\<lparr>refIdc := ri\<rparr>) es) - 1] = map int [0..<n]"
    using upto_int [of 0 n] assms(8) by simp
  moreover have "setRefIdc (int i) v (with_entries (l\<lparr>refIdc := ri\<rparr>) es) = Some (with_entries (l\<lparr>refIdc := ri[i := v]\<rparr>) es)" for v
    using assms(3) by (simp add: setRefIdc_def with_entries_def)
  ultimately show ?thesis using idc(1) unfolding choose_ref_idc_def d by simp
qed

lemma choose_loop_law:
  assumes "rps_wf ref" "numberOfPictures ref = int m" "m \<le> 16" "length ri = 17"
    "p = take n es" "n \<le> length es" "distinct (map fst p)" "numberOfPictures l = int n"
  shows "for_loop (choose_ref_idc r ref) (map int [0..<Suc m]) (with_entries (l\<lparr>refIdc := ri\<rparr>) es)
    = Some (with_entries (l\<lparr>refIdc := map (\<lambda>i. idc_for p (ref_delta ref i + deltaRPS r)) [0..<Suc m] @ drop (Suc m) ri\<rparr>) es)"
proof -
  define I where "I i = with_entries (l\<lparr>refIdc := map (\<lambda>i. idc_for p (ref_delta ref i + deltaRPS r)) [0..<i] @ drop i ri\<rparr>) es" for i
  have "for_loop (\<lambda>i. choose_ref_idc r ref (int i)) [0..<Suc m] (I 0) = Some (I (Suc m))"
  proof (rule for_loop_upt)
    fix i
    assume i: "i < Suc m"
    then have dr: "drop i ri = ri ! i # drop (Suc i) ri" using assms(3,4) by (simp add: Cons_nth_drop_Suc)
    have "choose_ref_idc r ref (int i) (I i) = Some (with_entries (l\<lparr>refIdc :=
        (map (\<lambda>i. idc_for p (ref_delta ref i + deltaRPS r)) [0..<i] @ drop i ri)[i := idc_for p (ref_delta ref i + deltaRPS r)]\<rparr>) es)"
      unfolding I_def by (rule choose_ref_idc_law [OF assms(1)]) (use assms i in auto)
    then show "choose_ref_idc r ref (int i) (I i) = Some (I (Suc i))" unfolding I_def dr by (simp add: list_update_append)
  qed simp
  moreover have "for_loop (choose_ref_idc r ref) (map int js) x = for_loop (\<lambda>i. choose_ref_idc r ref (int i)) js x" for js x
  proof (induction js arbitrary: x)
    case (Cons j js)
    then have "for_loop (choose_ref_idc r ref) (map int js) = for_loop (\<lambda>i. choose_ref_idc r ref (int i)) js" by (intro ext)
    then show ?case by simp
  qed simp
  ultimately show ?thesis by (simp add: I_def del: upt_Suc)
qed

section \<open>The composition with the syntax\<close>

text \<open>
  The configured set \<open>r\<close>, entry \<open>idx\<close> of the list, is predicted from \<open>ref\<close>: its deltas, in the order of a set,
  are deltas of \<open>ref\<close> (or 0) moved by \<open>deltaRPS\<close>.
\<close>

definition predicted_from :: "ref_pic_set list \<Rightarrow> int \<Rightarrow> ref_pic_set \<Rightarrow> ref_pic_set \<Rightarrow> bool" where
  "predicted_from rpsList idx r ref \<longleftrightarrow> rps_wf r \<and> interRPSPrediction r
     \<and> 0 \<le> numberOfPictures r \<and> numberOfPictures r \<le> 16
     \<and> 0 \<le> deltaRIdxMinus1 r \<and> deltaRIdxMinus1 r < idx \<and> idx \<le> int (length rpsList) \<and> int (length rpsList) < 2 ^ 31
     \<and> deltaRPS r \<noteq> 0 \<and> \<bar>deltaRPS r\<bar> < 2 ^ 31
     \<and> ref = rpsList ! nat (idx - deltaRIdxMinus1 r - 1)
     \<and> rps_wf ref \<and> 0 \<le> numberOfPictures ref \<and> numberOfPictures ref \<le> 16
     \<and> distinct (map (ref_delta ref) [0..<Suc (nat (numberOfPictures ref))])
     \<and> sorted_wrt rps_order (take (nat (numberOfPictures r)) (deltaPOC r))
     \<and> (\<forall>d\<in>set (take (nat (numberOfPictures r)) (deltaPOC r)).
          \<bar>d\<bar> < 2 ^ 31 \<and> (\<exists>j\<le>nat (numberOfPictures ref). d = deltaRPS r + ref_delta ref j))"

definition kept_pics :: "slice \<Rightarrow> ref_pic_set \<Rightarrow> bool \<Rightarrow> picture list \<Rightarrow> (int \<times> bool) list" where
  "kept_pics s r isRAP pics = explicit_pics s r isRAP pics [0..<nat (numberOfPictures r)]"

lemma kept_pics_order:
  assumes "predicted_from rpsList idx r ref"
  shows "sorted_wrt rps_order (map fst (kept_pics s r isRAP pics))" "length (kept_pics s r isRAP pics) \<le> 16"
    "\<forall>e\<in>set (kept_pics s r isRAP pics). \<exists>j\<le>nat (numberOfPictures ref). fst e = deltaRPS r + ref_delta ref j"
    "deltas_fit (kept_pics s r isRAP pics)"
proof -
  let ?n = "nat (numberOfPictures r)"
  have n: "?n \<le> 16" "length (deltaPOC r) = 16"
  proof -
    have "rps_wf r" "numberOfPictures r \<le> 16" using assms by (simp_all add: predicted_from_def)
    then show "?n \<le> 16" "length (deltaPOC r) = 16" by (simp_all add: rps_wf_def MAX_NUM_REF_PICS_def)
  qed
  have t: "map ((!) (deltaPOC r)) [0..<?n] = take ?n (deltaPOC r)" using n by (intro nth_equalityI) auto
  have "sorted_wrt rps_order (map ((!) (deltaPOC r)) [0..<?n])" unfolding t using assms by (simp add: predicted_from_def)
  then have "sorted_wrt (\<lambda>i j. rps_order (deltaPOC r ! i) (deltaPOC r ! j)) (filter (kept s r pics) [0..<?n])"
    by (intro sorted_wrt_filter) (simp add: sorted_wrt_map)
  then show "sorted_wrt rps_order (map fst (kept_pics s r isRAP pics))"
    by (simp add: kept_pics_def explicit_pics_def sorted_wrt_map)
  show "length (kept_pics s r isRAP pics) \<le> 16"
    using length_filter_le [of "kept s r pics" "[0..<?n]"] n by (simp add: kept_pics_def explicit_pics_def)
  have "deltaPOC r ! i \<in> set (take ?n (deltaPOC r))" if "i < ?n" for i
    using that n t by (metis atLeast_upt image_eqI lessThan_iff list.set_map)
  then show "\<forall>e\<in>set (kept_pics s r isRAP pics). \<exists>j\<le>nat (numberOfPictures ref). fst e = deltaRPS r + ref_delta ref j"
    "deltas_fit (kept_pics s r isRAP pics)"
    using assms by (fastforce simp: predicted_from_def kept_pics_def explicit_pics_def deltas_fit_def)+
qed

text \<open>Predicting back from the chosen indices gives the same entries.\<close>

lemma picks_chosen:
  assumes "distinct (map (ref_delta ref) [0..<N])" "distinct (map fst p)"
    "\<forall>e\<in>set p. \<exists>j<N. fst e = D + ref_delta ref j"
    "\<forall>j<N. idc ! j = idc_for p (ref_delta ref j + D)"
  shows "mset (picks D ref idc [0..<N]) = mset p"
proof -
  have one: "idc_for p x = (if b then 1 else 2)" if "(x, b) \<in> set p" for x b
  proof -
    have "inj_on fst (set p)" using assms(2) by (simp add: distinct_map)
    then have "(x, True) \<notin> set p \<or> (x, False) \<notin> set p"
      by (metis Pair_inject fst_conv inj_onD)
    with that show ?thesis by (cases b) (auto simp: idc_for_def)
  qed
  have "set (picks D ref idc [0..<N]) = set p"
  proof (intro equalityI subsetI)
    fix e
    assume "e \<in> set (picks D ref idc [0..<N])"
    then obtain j where "j < N" "idc_for p (ref_delta ref j + D) \<noteq> 0" "e = (D + ref_delta ref j, idc_for p (ref_delta ref j + D) = 1)"
      using assms(4) by (auto simp: picks_def)
    then show "e \<in> set p" by (auto simp: idc_for_def add.commute split: if_splits)
  next
    fix e
    assume e: "e \<in> set p"
    obtain x b where xb: "e = (x, b)" by fastforce
    with assms(3) e obtain j where j: "j < N" "x = ref_delta ref j + D" by (auto simp: add.commute)
    have "idc ! j = (if b then 1 else 2)" using assms(4) one [of x b] e xb j by auto
    then have "idc ! j \<noteq> 0" "(idc ! j = 1) = b" by (cases b; simp)+
    then show "e \<in> set (picks D ref idc [0..<N])" using j xb by (auto simp: picks_def add.commute intro!: image_eqI [of _ _ j])
  qed
  moreover have "distinct (picks D ref idc [0..<N])"
  proof -
    have "inj_on (ref_delta ref) (set [0..<N])" using assms(1) by (simp add: distinct_map)
    then show ?thesis by (auto simp: picks_def distinct_map inj_on_def)
  qed
  moreover have "distinct p" using assms(2) by (simp add: distinct_map)
  ultimately show ?thesis by (simp add: set_eq_iff_mset_eq_distinct)
qed

lemma create_law:
  assumes "predicted_from rpsList idx r ref" "one_each pics" "\<not> (cmp \<and> enc)"
    and L_def: "L = kept_pics s r isRAP pics" and m_def: "m = nat (numberOfPictures ref)"
  shows "createExplicitReferencePictureSetFromReference s rpsList idx isField pics r isRAP ra rp False enc cmp
    = Some ((with_entries (ReferencePictureSet\<lparr>numberOfNegativePictures := below L,
          numberOfPositivePictures := int (length L) - below L, numberOfPictures := int (length L),
          refIdc := map (\<lambda>i. idc_for L (ref_delta ref i + deltaRPS r)) [0..<Suc m] @ drop (Suc m) (refIdc ReferencePictureSet)\<rparr>)
        (L @ drop (length L) (entries ReferencePictureSet)))
      \<lparr>interRPSPrediction := True, numRefIdc := int (Suc m), deltaRPS := deltaRPS r,
        deltaRIdxMinus1 := deltaRIdxMinus1 r + int (length rpsList) - idx\<rparr>)"
proof -
  let ?n = "nat (numberOfPictures r)" and ?R = ReferencePictureSet
  have p: "rps_wf r" "interRPSPrediction r" "0 \<le> numberOfPictures r" "numberOfPictures r \<le> 16" "0 \<le> deltaRIdxMinus1 r"
    "deltaRIdxMinus1 r < idx" "idx \<le> int (length rpsList)" "ref = rpsList ! nat (idx - deltaRIdxMinus1 r - 1)"
    "rps_wf ref" "0 \<le> numberOfPictures ref" "numberOfPictures ref \<le> 16"
    using assms(1) unfolding predicted_from_def by blast+
  have n: "[0..numberOfPictures r - 1] = map int [0..<?n]" "?n \<le> 16" using upto_int [of 0 ?n] p(3,4) by simp_all
  have m: "numberOfPictures ref = int m" "m \<le> 16" using p(10,11) by (simp_all add: m_def)
  have mm: "[0..int m] = map int [0..<Suc m]" using upto_int [of 0 "Suc m"] by (simp add: algebra_simps)
  note ko = kept_pics_order [OF assms(1), of s isRAP pics, folded L_def]
  have R: "rps_wf ?R" "length (entries ?R) = 16" "with_entries ?R (entries ?R) = ?R" "length (refIdc ?R) = 17"
    by (simp_all add: rps_wf_def ReferencePictureSet_def entries_def with_entries_def MAX_NUM_REF_PICS_def)
  let ?es = "L @ drop (length L) (entries ?R)"
  have st0: "\<lparr>localRPS = ?R, k_cnt = 0, nrOfNegativePictures = 0, nrOfPositivePictures = 0, irapIsInRPS = False\<rparr>
      = est ?R (entries ?R) 0 0 0" unfolding est_def R(3) by simp
  have loop: "for_loop (\<lambda>i. for_loop (explicit_entry s r isRAP ra rp False 0 dist i) pics) (map int [0..<?n])
      (est ?R (entries ?R) 0 0 0) = Some (est ?R ?es (length L) (below L) (int (length L) - below L))" for dist
    using explicit_loop [OF p(1) assms(2), of "[0..<?n]" 0 s isRAP "entries ?R"] n(2) ko(2) R(2)
    unfolding kept_pics_def [symmetric] L_def [symmetric] by (simp add: Let_def MAX_NUM_REF_PICS_def)
  let ?l = "?R\<lparr>numberOfNegativePictures := below L, numberOfPositivePictures := int (length L) - below L,
      numberOfPictures := int (length L)\<rparr>"
  have l: "(localRPS (est ?R ?es k a b))\<lparr>numberOfNegativePictures := below L,
      numberOfPositivePictures := int (length L) - below L,
      numberOfPictures := int (length L)\<rparr> = with_entries (?l\<lparr>refIdc := refIdc ?R\<rparr>) ?es" for k a b
    by (simp add: est_def with_entries_def)
  have dl: "distinct (map fst L)" by (rule rps_order_distinct [OF ko(1)])
  have ch: "for_loop (choose_ref_idc r ref) (map int [0..<Suc m]) (with_entries (?l\<lparr>refIdc := refIdc ?R\<rparr>) ?es)
      = Some (with_entries (?l\<lparr>refIdc := map (\<lambda>i. idc_for L (ref_delta ref i + deltaRPS r)) [0..<Suc m]
          @ drop (Suc m) (refIdc ?R)\<rparr>) ?es)"
    by (rule choose_loop_law [OF p(9) m R(4), of L "length L"]) (use dl in simp_all)
  have ref: "arr_get_i rpsList (idx - deltaRIdxMinus1 r - 1) = Some ref"
    using p(5-8) by (simp add: arr_get_i_def)
  have c: "(cmp \<and> enc) = False" using assms(3) by simp
  have np: "numberOfPictures (with_entries (?l\<lparr>refIdc := ri\<rparr>) ?es) = int (length L)" for ri by (simp add: with_entries_def)
  have "createExplicitReferencePictureSetFromReference s rpsList idx isField pics r isRAP ra rp False enc cmp
      = predict_local rpsList idx r False (with_entries (?l\<lparr>refIdc := refIdc ?R\<rparr>) ?es)"
    unfolding createExplicitReferencePictureSetFromReference_def Let_def st0 n(1) loop bind.bind_lunit c if_False
      simp_thms prod.case by (simp add: est_sel l [unfolded est_sel])
  also have "\<dots> = Some ((with_entries (?l\<lparr>refIdc := map (\<lambda>i. idc_for L (ref_delta ref i + deltaRPS r)) [0..<Suc m]
          @ drop (Suc m) (refIdc ?R)\<rparr>) ?es)\<lparr>interRPSPrediction := True, numRefIdc := int (Suc m), deltaRPS := deltaRPS r,
        deltaRIdxMinus1 := deltaRIdxMinus1 r + int (length rpsList) - idx\<rparr>)"
    unfolding predict_local_def Let_def ref bind.bind_lunit m(1) mm ch using p(2) by simp
  finally show ?thesis by simp
qed

lemma below_mset: "mset p = mset q \<Longrightarrow> below p = below q"
  unfolding below_def by (metis mset_filter size_mset)

lemma create_transmits:
  assumes "predicted_from rpsList idx r ref" "one_each pics" "\<not> (cmp \<and> enc)" "rps_wf r0"
    and L_def: "L = kept_pics s r isRAP pics"
  shows "\<exists>l. createExplicitReferencePictureSetFromReference s rpsList idx isField pics r isRAP ra rp False enc cmp = Some l
    \<and> rps_ok rpsList True (int (length rpsList)) l
    \<and> take (length L) (entries l) = L \<and> numberOfPictures l = int (length L) \<and> numberOfNegativePictures l = below L
    \<and> (let t = rps_received rpsList True (int (length rpsList)) r0 l
       in take (length L) (entries t) = L \<and> numberOfPictures t = int (length L) \<and> numberOfNegativePictures t = below L)"
proof -
  define m where "m = nat (numberOfPictures ref)"
  define idcs where "idcs = map (\<lambda>i. idc_for L (ref_delta ref i + deltaRPS r)) [0..<Suc m] @ drop (Suc m) (refIdc ReferencePictureSet)"
  let ?n = "int (length rpsList)"
  have p: "0 \<le> deltaRIdxMinus1 r" "deltaRIdxMinus1 r < idx" "idx \<le> ?n" "?n < 2 ^ 31" "deltaRPS r \<noteq> 0"
    "\<bar>deltaRPS r\<bar> < 2 ^ 31" "ref = rpsList ! nat (idx - deltaRIdxMinus1 r - 1)" "rps_wf ref" "0 \<le> numberOfPictures ref"
    "numberOfPictures ref \<le> 16" "distinct (map (ref_delta ref) [0..<Suc m])"
    using assms(1) unfolding predicted_from_def m_def by blast+
  note ko = kept_pics_order [OF assms(1), of s isRAP pics, folded L_def]
  define l where "l = (with_entries (ReferencePictureSet\<lparr>numberOfNegativePictures := below L,
          numberOfPositivePictures := int (length L) - below L, numberOfPictures := int (length L), refIdc := idcs\<rparr>)
        (L @ drop (length L) (entries ReferencePictureSet)))
      \<lparr>interRPSPrediction := True, numRefIdc := int (Suc m), deltaRPS := deltaRPS r,
        deltaRIdxMinus1 := deltaRIdxMinus1 r + ?n - idx\<rparr>"
  have c: "createExplicitReferencePictureSetFromReference s rpsList idx isField pics r isRAP ra rp False enc cmp = Some l"
    using create_law [OF assms(1-3) L_def m_def] unfolding l_def idcs_def .
  have ls: "interRPSPrediction l" "numRefIdc l = int (Suc m)" "deltaRPS l = deltaRPS r"
    "deltaRIdxMinus1 l = deltaRIdxMinus1 r + ?n - idx" "refIdc l = idcs" "numberOfPictures l = int (length L)"
    "numberOfNegativePictures l = below L"
    by (simp_all add: l_def with_entries_def)
  have le: "entries l = L @ drop (length L) (entries ReferencePictureSet)"
    by (simp add: l_def with_entries_def entries_def zip_map_fst_snd)
  have m: "m \<le> 16" "int m = numberOfPictures ref" using p(9,10) by (simp_all add: m_def)
  have li: "length idcs = 17" using m by (simp add: idcs_def ReferencePictureSet_def MAX_NUM_REF_PICS_def del: upt_Suc)
  have lR: "length (entries ReferencePictureSet) = 16"
    by (simp add: ReferencePictureSet_def entries_def MAX_NUM_REF_PICS_def)
  have wf: "rps_wf l" using li ko(2) lR
    by (simp add: l_def with_entries_def rps_wf_def ReferencePictureSet_def MAX_NUM_REF_PICS_def)
  have ni: "idcs ! j = idc_for L (ref_delta ref j + deltaRPS r)" if "j < Suc m" for j
    using that by (simp add: idcs_def nth_append del: upt_Suc)
  have three: "idcs ! j \<in> {0, 1, 2}" if "j \<le> MAX_NUM_REF_PICS" for j
  proof (cases "j < Suc m")
    case True
    then show ?thesis unfolding ni [OF True] idc_for_def by simp
  next
    case False
    then have "idcs ! j = refIdc ReferencePictureSet ! j"
      using that m by (simp add: idcs_def nth_append ReferencePictureSet_def MAX_NUM_REF_PICS_def del: upt_Suc)
    with that show ?thesis by (simp add: ReferencePictureSet_def del: replicate.simps)
  qed
  have dl: "distinct (map fst L)" by (rule rps_order_distinct [OF ko(1)])
  have mp: "mset (picks (deltaRPS r) ref idcs [0..<Suc m]) = mset L"
    by (rule picks_chosen [OF p(11) dl]) (use ko(3) ni in \<open>auto simp: less_Suc_eq_le m_def\<close>)
  let ?p = "picks (deltaRPS r) ref idcs [0..<Suc m]"
  have lp: "length ?p = length L" using mp by (metis size_mset)
  have fit: "deltas_fit ?p" using ko(4) mp unfolding deltas_fit_def by (metis set_mset_mset)
  have rf: "rpsList ! nat (?n - 1 - deltaRIdxMinus1 l) = ref" unfolding ls p(7) by (simp add: algebra_simps)
  have ok: "rps_ok rpsList True ?n l"
  proof -
    have "0 < ?n" "nat (numRefIdc l) = Suc m" using p(1-3) ls(2) by linarith+
    then show ?thesis
      unfolding rps_ok_def inter_ok_def Let_def if_True rf
      using wf p(1-6,8-10) ls m three lp fit ko(2) by (simp del: upt_Suc picks_simps)
  qed
  have t: "rps_received rpsList True ?n r0 l = inter_received rpsList True ?n (r0\<lparr>interRPSPrediction := True\<rparr>) l"
    using ls(1) by (simp add: rps_received_def)
  have nn: "nat (int (Suc m)) = Suc m" by simp
  have r: "numberOfPictures (inter_received rpsList True ?n r l) = int (length L)"
    "numberOfNegativePictures (inter_received rpsList True ?n r l) = below L"
    "take (length L) (entries (inter_received rpsList True ?n r l)) = L" for r
    unfolding inter_received_def Let_def if_True rf unfolding ls nn
    using lp below_mset [OF mp] split_sorted_unique [OF mp ko(1)] by (simp_all del: picks_simps upt_Suc)
  show ?thesis using c ok le ls r unfolding Let_def by (simp add: t)
qed

section \<open>Properties\<close>

text \<open>
  C3. The set that \<open>createExplicitReferencePictureSetFromReference\<close> makes for a slice header reaches the decoder, when
  the configured set is predicted from an earlier one of the list with deltas of magnitude below \<open>2 ^ 31\<close>, efficient field IRAP is
  off and the slice is not coded with composite references (there the code announces pictures that it does not
  write: theorem \<open>composite_set_overwritten\<close>).  Then the new set holds exactly those entries of the configured one whose
  pictures are still references in the buffer (unused when the slice is a random access one), and the
  prediction that the encoder chooses for it, written by \<open>xCodeShortTermRefPicSet\<close> and read by
  \<open>parseShortTermRefPicSet\<close>, gives the same entries in the same order.
\<close>

theorem explicit_rps_transmitted:
  assumes "predicted_from rpsList idx r ref" "one_each pics" "\<not> (cmp \<and> enc)" "rps_wf r0"
    and "L = kept_pics s r isRAP pics"
  shows "\<exists>l os rec is.
    createExplicitReferencePictureSetFromReference s rpsList idx isField pics r isRAP ra rp False enc cmp = Some l
    \<and> take (length L) (entries l) = L \<and> numberOfPictures l = int (length L)
    \<and> xCodeShortTermRefPicSet l True (int (length rpsList)) clear = Some os
    \<and> parseShortTermRefPicSet rpsList r0 (int (length rpsList)) (open_stream (out_fifo (writeAlignZero os))) = Some (rec, is)
    \<and> take (length L) (entries rec) = L \<and> numberOfPictures rec = int (length L)
    \<and> numberOfNegativePictures rec = below L"
proof -
  from create_transmits [OF assms] obtain l where
    "createExplicitReferencePictureSetFromReference s rpsList idx isField pics r isRAP ra rp False enc cmp = Some l"
    and ok: "rps_ok rpsList True (int (length rpsList)) l"
    and "take (length L) (entries l) = L" "numberOfPictures l = int (length L)"
      "let t = rps_received rpsList True (int (length rpsList)) r0 l
       in take (length L) (entries t) = L \<and> numberOfPictures t = int (length L) \<and> numberOfNegativePictures t = below L"
    by blast
  moreover from codes_whole_stream [OF codes_rps [OF ok assms(4)]] obtain os "is" where
    "xCodeShortTermRefPicSet l True (int (length rpsList)) clear = Some os"
    "parseShortTermRefPicSet rpsList r0 (int (length rpsList)) (open_stream (out_fifo (writeAlignZero os)))
      = Some (rps_received rpsList True (int (length rpsList)) r0 l, is)" by blast
  ultimately show ?thesis unfolding Let_def by blast
qed

definition example_configured :: ref_pic_set where
  "example_configured = ReferencePictureSet\<lparr>numberOfPictures := 3, numberOfNegativePictures := 2, numberOfPositivePictures := 1,
     interRPSPrediction := True, deltaRPS := - 2, deltaPOC := [-2, -6, 0] @ replicate 13 0,
     used := [True, True, True] @ replicate 13 False\<rparr>"

theorem explicit_rps_transmitted_witness:
  "\<exists>l os rec is.
    createExplicitReferencePictureSetFromReference (example_slice\<lparr>m_iPOC := 10\<rparr>) [example_ref, example_configured] 1 False
      example_dpb example_configured False 0 False False False False = Some l
    \<and> take (length (kept_pics (example_slice\<lparr>m_iPOC := 10\<rparr>) example_configured False example_dpb)) (entries l)
        = kept_pics (example_slice\<lparr>m_iPOC := 10\<rparr>) example_configured False example_dpb
    \<and> numberOfPictures l = int (length (kept_pics (example_slice\<lparr>m_iPOC := 10\<rparr>) example_configured False example_dpb))
    \<and> xCodeShortTermRefPicSet l True (int (length [example_ref, example_configured])) clear = Some os
    \<and> parseShortTermRefPicSet [example_ref, example_configured] ReferencePictureSet (int (length [example_ref, example_configured]))
        (open_stream (out_fifo (writeAlignZero os))) = Some (rec, is)
    \<and> take (length (kept_pics (example_slice\<lparr>m_iPOC := 10\<rparr>) example_configured False example_dpb)) (entries rec)
        = kept_pics (example_slice\<lparr>m_iPOC := 10\<rparr>) example_configured False example_dpb
    \<and> numberOfPictures rec = int (length (kept_pics (example_slice\<lparr>m_iPOC := 10\<rparr>) example_configured False example_dpb))
    \<and> numberOfNegativePictures rec = below (kept_pics (example_slice\<lparr>m_iPOC := 10\<rparr>) example_configured False example_dpb)"
proof (rule explicit_rps_transmitted [OF _ _ _ _ refl])
  have n: "numberOfPictures example_ref = 3" "numberOfPictures example_configured = 3" "deltaRPS example_configured = - 2"
    "take 3 (deltaPOC example_configured) = [-2, -6, 0]"
    by (simp_all add: example_ref_def example_configured_def numeral_3_eq_3)
  have d: "ref_delta example_ref 0 = -1" "ref_delta example_ref 1 = -4" "ref_delta example_ref 2 = 2" "ref_delta example_ref 3 = 0"
    by (simp_all add: ref_delta_def example_ref_def)
  have "\<bar>x\<bar> < 2 ^ 31 \<and> (\<exists>j\<le>3. x = - 2 + ref_delta example_ref j)" if "x \<in> {-2, -6, 0}" for x
    using that d by (auto intro: exI [of _ 3] exI [of _ 1] exI [of _ 2])
  moreover have "distinct (map (ref_delta example_ref) [0..<Suc 3])"
    using d by (simp add: upt_rec numeral_3_eq_3 numeral_2_eq_2)
  moreover have "rps_wf example_ref" "rps_wf example_configured" "interRPSPrediction example_configured"
    "deltaRIdxMinus1 example_configured = 0"
    by (simp_all add: example_configured_def example_ref_def ReferencePictureSet_def rps_wf_def MAX_NUM_REF_PICS_def)
  ultimately show "predicted_from [example_ref, example_configured] 1 example_configured example_ref"
    unfolding predicted_from_def n by (simp add: n rps_order_def)
  show "one_each example_dpb" by code_simp
qed (simp_all add: rps_wf_def ReferencePictureSet_def)

text \<open>
  In the branch for composite references the counter of the written entries starts again with every entry of
  the configured set: the set announces three pictures, but holds only one of them.
\<close>

theorem composite_set_overwritten:
  "map_option (\<lambda>l. (numberOfPictures l, take 3 (deltaPOC l)))
     (createExplicitReferencePictureSetFromReference (example_slice\<lparr>m_iPOC := 7\<rparr>) [example_ref] 0 False
       example_dpb example_ref False 0 False False True True)
   = Some (3, [3, 0, 0])"
  by code_simp

end
