(* ===== verification/PictureOutput.thy ===== *)
theory PictureOutput
  imports PictureBuffer
begin

text \<open>
  Output of decoded pictures: \<open>DecApp::xWriteOutput\<close> and \<open>DecApp::xFlushOutput\<close> of
  \<open>App/DecoderApp/DecApp.cpp\<close>, which write the pictures of the buffer in the order of their POC, either as soon
  as more pictures wait than the stream allows (bumping) or all of them.

  The video file is the list of the POCs written to it; the two fields of a frame are two entries.
  The application's member \<open>m_iPOCLastDisplay\<close> is threaded through.
\<close>

section \<open>Bumping\<close>

text \<open>The limits of the sequence parameter set of the first picture in the list.\<close>

record output_limits =
  sps_MaxTLayers :: nat
  sps_NumReorderPics :: "nat list"
  sps_MaxDecPicBuffering :: "nat list"

definition highest_layer :: "int \<Rightarrow> output_limits \<Rightarrow> int" where
  "highest_layer m_iMaxTemporalLayer l =
     (if m_iMaxTemporalLayer = -1 \<or> to_u32 m_iMaxTemporalLayer \<ge> sps_MaxTLayers l
      then int (sps_MaxTLayers l) - 1 else m_iMaxTemporalLayer)"

definition waiting :: "int \<Rightarrow> picture \<Rightarrow> bool" where
  "waiting lastPOC p \<longleftrightarrow> neededForOutput p \<and> poc p > lastPOC"

text \<open>\<open>numPicsNotYetDisplayed\<close> and \<open>dpbFullness\<close>.\<close>

definition count_waiting :: "int \<Rightarrow> picture list \<Rightarrow> int \<times> int" where
  "count_waiting lastPOC pics = fold (\<lambda>p (n, d). if waiting lastPOC p then (n + 1, d + 1)
     else if referenced p then (n, d + 1) else (n, d)) pics (0, 0)"

text \<open>A written picture is no longer needed for output, and free when it is not a reference.\<close>

definition written :: "picture \<Rightarrow> picture" where
  "written p = p\<lparr>reconstructed := reconstructed p \<and> referenced p, neededForOutput := False\<rparr>"

text \<open>The comparisons of the counters with the limits are made on \<open>uint32_t\<close>.\<close>

definition exceeds :: "nat \<Rightarrow> nat \<Rightarrow> int \<Rightarrow> int \<Rightarrow> bool" where
  "exceeds numReorder maxDec n d \<longleftrightarrow> to_u32 n > numReorder \<or> to_u32 d > maxDec"

fun write_frames :: "nat \<Rightarrow> nat \<Rightarrow> int \<Rightarrow> int \<Rightarrow> int \<Rightarrow> picture list \<Rightarrow> picture list \<times> int \<times> int list" where
  "write_frames r m n d lastPOC [] = ([], lastPOC, [])"
| "write_frames r m n d lastPOC (p # ps) =
     (if waiting lastPOC p \<and> exceeds r m n d then
        let (ps, lastPOC, out) = write_frames r m (n - 1) (if referenced p then d else d - 1) (poc p) ps
        in (written p # ps, lastPOC, poc p # out)
      else let (ps, lastPOC, out) = write_frames r m n d lastPOC ps in (p # ps, lastPOC, out))"

text \<open>Two fields that follow each other in the list and form the next frame.\<close>

definition field_pair :: "picture \<Rightarrow> picture \<Rightarrow> bool" where
  "field_pair t b \<longleftrightarrow> neededForOutput t \<and> neededForOutput b \<and> poc t mod 2 = 0 \<and> poc b = poc t + 1"

fun write_fields :: "nat \<Rightarrow> nat \<Rightarrow> int \<Rightarrow> int \<Rightarrow> int \<Rightarrow> picture list \<Rightarrow> picture list \<times> int \<times> int list" where
  "write_fields r m n d lastPOC (t # b # ps) =
     (if field_pair t b \<and> exceeds r m n d \<and> (poc t = lastPOC + 1 \<or> lastPOC < 0) then
        let (ps, lastPOC, out) = write_fields r m (n - 2) d (poc b) (written b # ps)
        in (written t # ps, lastPOC, poc t # poc b # out)
      else let (ps, lastPOC, out) = write_fields r m n d lastPOC (b # ps) in (t # ps, lastPOC, out))"
| "write_fields r m n d lastPOC ps = (ps, lastPOC, [])"

definition xWriteOutput :: "int \<Rightarrow> output_limits \<Rightarrow> int \<Rightarrow> picture list \<Rightarrow> (picture list \<times> int \<times> int list) option" where
  "xWriteOutput m_iMaxTemporalLayer l lastPOC pics =
     (if pics = [] then Some (pics, lastPOC, [])
      else do {
        let t = highest_layer m_iMaxTemporalLayer l;
        numReorder \<leftarrow> arr_get_i (sps_NumReorderPics l) t;
        maxDec \<leftarrow> arr_get_i (sps_MaxDecPicBuffering l) t;
        let (n, d) = count_waiting lastPOC pics;
        p \<leftarrow> arr_get pics (if n > 2 then 1 else 0);
        Some (if n > 2 \<and> fieldPic p then write_fields numReorder maxDec n d lastPOC pics
              else if \<not> fieldPic p then write_frames numReorder maxDec n d lastPOC pics
              else (pics, lastPOC, []))
      })"

section \<open>Flushing\<close>

fun flush_fields :: "picture list \<Rightarrow> int list" where
  "flush_fields (t # b # ps) = (if field_pair t b then poc t # poc b # flush_fields (written b # ps) else flush_fields (b # ps))"
| "flush_fields ps = []"

text \<open>All pictures are destroyed, the list is cleared and the last POC reset to \<open>-MAX_INT\<close>.\<close>

definition xFlushOutput :: "int \<Rightarrow> picture list \<Rightarrow> picture list \<times> int \<times> int list" where
  "xFlushOutput lastPOC pics =
     (if pics = [] then (pics, lastPOC, [])
      else ([], - (2 ^ 31 - 1),
        if fieldPic (hd pics) then flush_fields pics
        else map poc (filter neededForOutput pics)))"

section \<open>The bumping process\<close>

lemma count_waiting_eq:
  "count_waiting lastPOC pics = (int (length (filter (waiting lastPOC) pics)),
     int (length (filter (\<lambda>p. waiting lastPOC p \<or> referenced p) pics)))"
proof -
  have "fold (\<lambda>p (n, d). if waiting lastPOC p then (n + 1, d + 1) else if referenced p then (n, d + 1) else (n, d)) pics (a, b)
    = (a + int (length (filter (waiting lastPOC) pics)),
       b + int (length (filter (\<lambda>p. waiting lastPOC p \<or> referenced p) pics)))" for a b
    by (induction pics arbitrary: a b) auto
  then show ?thesis by (simp add: count_waiting_def)
qed

text \<open>The list after all pictures up to \<open>lastPOC'\<close> are written.\<close>

definition written_up_to :: "int \<Rightarrow> int \<Rightarrow> picture list \<Rightarrow> picture list" where
  "written_up_to lastPOC lastPOC' pics = map (\<lambda>p. if waiting lastPOC p \<and> poc p \<le> lastPOC' then written p else p) pics"

definition to_write :: "int \<Rightarrow> int \<Rightarrow> picture list \<Rightarrow> int list" where
  "to_write lastPOC lastPOC' pics = map poc (filter (\<lambda>p. waiting lastPOC p \<and> poc p \<le> lastPOC') pics)"

lemma to_write_none: "lastPOC' \<le> lastPOC \<Longrightarrow> to_write lastPOC lastPOC' pics = []"
  by (auto simp: to_write_def waiting_def filter_empty_conv)

lemma written_up_to_none: "lastPOC' \<le> lastPOC \<Longrightarrow> written_up_to lastPOC lastPOC' pics = pics"
  unfolding written_up_to_def by (rule map_idI) (auto simp: waiting_def)

lemma later_waiting:
  assumes "sorted_wrt (<) (map poc (filter neededForOutput (p # ps)))" "waiting lastPOC p" "q \<in> set ps"
  shows "waiting lastPOC q \<longleftrightarrow> waiting (poc p) q"
  using assms by (auto simp: waiting_def)

lemma written_props [simp]: "poc (written p) = poc p" "\<not> waiting a (written p)" "referenced (written p) = referenced p"
  by (simp_all add: written_def waiting_def)

text \<open>The references among the pictures written do not leave the buffer.\<close>

definition freed_count :: "int \<Rightarrow> int \<Rightarrow> picture list \<Rightarrow> int" where
  "freed_count a b pics = int (length (filter (\<lambda>p. waiting a p \<and> poc p \<le> b \<and> \<not> referenced p) pics))"

lemma freed_count_none: "b \<le> a \<Longrightarrow> freed_count a b pics = 0"
  by (auto simp: freed_count_def waiting_def filter_empty_conv)

lemma write_frames_stop: "\<not> exceeds r m n d \<Longrightarrow> write_frames r m n d lastPOC ps = (ps, lastPOC, [])"
  by (induction ps) auto

lemma after_written:
  assumes "sorted_wrt (<) (map poc (filter neededForOutput (p # ps)))" "waiting lastPOC p" "poc p \<le> b"
  shows "written_up_to lastPOC b (p # ps) = written p # written_up_to (poc p) b ps"
    and "to_write lastPOC b (p # ps) = poc p # to_write (poc p) b ps"
    and "freed_count lastPOC b (p # ps) = (if referenced p then 0 else 1) + freed_count (poc p) b ps"
    and "filter (waiting lastPOC) (p # ps) = p # filter (waiting (poc p)) ps"
  using later_waiting [OF assms(1,2)] assms(2,3)
  by (auto simp: written_up_to_def to_write_def freed_count_def cong: filter_cong map_cong)

lemma write_frames_law:
  assumes "sorted_wrt (<) (map poc (filter neededForOutput ps))" "write_frames r m n d lastPOC ps = (ps', lastPOC', out)"
    and "n = int (length (filter (waiting lastPOC) ps))"
  shows "lastPOC \<le> lastPOC' \<and> ps' = written_up_to lastPOC lastPOC' ps \<and> out = to_write lastPOC lastPOC' ps
    \<and> sorted_wrt (<) (lastPOC # out) \<and> lastPOC' = last (lastPOC # out)
    \<and> (n = int (length out) \<or> \<not> exceeds r m (n - int (length out)) (d - freed_count lastPOC lastPOC' ps))"
  using assms
proof (induction r m n d lastPOC ps arbitrary: ps' lastPOC' out rule: write_frames.induct)
  case (1 r m n d lastPOC)
  then show ?case by (simp add: written_up_to_def to_write_def)
next
  case (2 r m n d lastPOC p ps)
  show ?case
  proof (cases "waiting lastPOC p")
    case w: True
    show ?thesis
    proof (cases "exceeds r m n d")
      case True
      obtain qs out1 where q: "write_frames r m (n - 1) (if referenced p then d else d - 1) (poc p) ps = (qs, lastPOC', out1)"
        and o: "ps' = written p # qs" "out = poc p # out1"
        using 2(4) w True by (auto split: prod.splits)
      have n1: "n - 1 = int (length (filter (waiting (poc p)) ps))"
        using 2(5) after_written(4) [OF 2(3) w order_refl] by simp
      have "sorted_wrt (<) (map poc (filter neededForOutput ps))" using 2(3) by (auto split: if_splits)
      from 2(1) [OF _ this q n1] w True
      have ih: "poc p \<le> lastPOC'" "qs = written_up_to (poc p) lastPOC' ps" "out1 = to_write (poc p) lastPOC' ps"
        "sorted_wrt (<) (poc p # out1)" "lastPOC' = last (poc p # out1)"
        and e: "n - 1 = int (length out1) \<or> \<not> exceeds r m (n - 1 - int (length out1))
          ((if referenced p then d else d - 1) - freed_count (poc p) lastPOC' ps)"
        by blast+
      note aw = after_written [OF 2(3) w ih(1)]
      have lt: "lastPOC < poc p" using w by (simp add: waiting_def)
      have "sorted_wrt (<) (lastPOC # out)" using ih(4) lt o by auto
      moreover have "n = int (length out) \<or> \<not> exceeds r m (n - int (length out)) (d - freed_count lastPOC lastPOC' (p # ps))"
        using e o(2) aw(3) by (auto simp: algebra_simps split: if_splits)
      moreover have "lastPOC \<le> lastPOC'" using ih(1) lt by linarith
      moreover have "lastPOC' = last (lastPOC # out)" by (subst ih(5)) (simp add: o)
      moreover have "ps' = written_up_to lastPOC lastPOC' (p # ps)" "out = to_write lastPOC lastPOC' (p # ps)"
        unfolding aw(1,2) o ih(2,3) [symmetric] by (rule refl)+
      ultimately show ?thesis by blast
    next
      case False
      then show ?thesis
        using 2(4) write_frames_stop [OF False] by (auto simp: to_write_none written_up_to_none freed_count_none)
    qed
  next
    case w: False
    then obtain qs where q: "write_frames r m n d lastPOC ps = (qs, lastPOC', out)" and o: "ps' = p # qs"
      using 2(4) by (auto split: prod.splits)
    have "n = int (length (filter (waiting lastPOC) ps))" "sorted_wrt (<) (map poc (filter neededForOutput ps))" using 2(3,5) w by (auto split: if_splits)
    note ih = 2(2) [OF _ this(2) q this(1)]
    have "written_up_to lastPOC lastPOC' (p # ps) = p # written_up_to lastPOC lastPOC' ps"
      "to_write lastPOC lastPOC' (p # ps) = to_write lastPOC lastPOC' ps"
      "freed_count lastPOC lastPOC' (p # ps) = freed_count lastPOC lastPOC' ps"
      using w by (simp_all add: written_up_to_def to_write_def freed_count_def)
    with ih w o show ?thesis by (metis (no_types))
  qed
qed

text \<open>Before every picture that is written one of the limits is exceeded; \<open>k\<close> pictures are written before it.\<close>

lemma write_frames_bumps:
  assumes "sorted_wrt (<) (map poc (filter neededForOutput ps))" "write_frames r m n d lastPOC ps = (ps', lastPOC', out)"
    and "n = int (length (filter (waiting lastPOC) ps))" "k < length out"
  shows "let b = (lastPOC # out) ! k in lastPOC \<le> b
    \<and> exceeds r m (n - int (length (to_write lastPOC b ps))) (d - freed_count lastPOC b ps)"
  using assms
proof (induction r m n d lastPOC ps arbitrary: ps' lastPOC' out k rule: write_frames.induct)
  case (1 r m n d lastPOC)
  then show ?case by simp
next
  case (2 r m n d lastPOC p ps)
  have s: "sorted_wrt (<) (map poc (filter neededForOutput ps))" using 2(3) by (auto split: if_splits)
  show ?case
  proof (cases "waiting lastPOC p")
    case w: True
    have e: "exceeds r m n d" using 2(4,6) write_frames_stop by (cases "exceeds r m n d") fastforce+
    obtain qs out1 where q: "write_frames r m (n - 1) (if referenced p then d else d - 1) (poc p) ps = (qs, lastPOC', out1)"
      and o: "out = poc p # out1"
      using 2(4) w e by (auto split: prod.splits)
    show ?thesis
    proof (cases k)
      case 0
      then show ?thesis using e by (simp add: to_write_none freed_count_none)
    next
      case (Suc j)
      define b where "b = (poc p # out1) ! j"
      have n1: "n - 1 = int (length (filter (waiting (poc p)) ps))" using 2(5) after_written(4) [OF 2(3) w order_refl] by simp
      have "poc p \<le> b \<and> exceeds r m (n - 1 - int (length (to_write (poc p) b ps)))
          ((if referenced p then d else d - 1) - freed_count (poc p) b ps)"
        using 2(1) [OF _ s q n1, of j] w e 2(6) Suc o by (simp add: b_def Let_def)
      moreover have "lastPOC < poc p" "(lastPOC # out) ! k = b" using w Suc o by (simp_all add: waiting_def b_def)
      ultimately show ?thesis using after_written(2,3) [OF 2(3) w, of b]
        by (auto simp: Let_def algebra_simps split: if_splits)
    qed
  next
    case w: False
    then obtain qs where q: "write_frames r m n d lastPOC ps = (qs, lastPOC', out)" using 2(4) by (auto split: prod.splits)
    have "n = int (length (filter (waiting lastPOC) ps))" using 2(5) w by (auto split: if_splits)
    note ih = 2(2) [OF _ s q this 2(6)]
    have "to_write lastPOC b (p # ps) = to_write lastPOC b ps" "freed_count lastPOC b (p # ps) = freed_count lastPOC b ps" for b
      using w by (simp_all add: to_write_def freed_count_def)
    with ih w show ?thesis by simp
  qed
qed

lemma count_written:
  assumes "a \<le> b"
  shows "count_waiting b (written_up_to a b pics) =
    (fst (count_waiting a pics) - int (length (to_write a b pics)), snd (count_waiting a pics) - freed_count a b pics)"
proof (induction pics)
  case Nil
  show ?case by (simp add: count_waiting_eq written_up_to_def to_write_def freed_count_def)
next
  case (Cons p ps)
  have w: "waiting b p \<longleftrightarrow> waiting a p \<and> \<not> poc p \<le> b" using assms by (auto simp: waiting_def)
  show ?case
    using Cons w by (cases "waiting a p"; cases "poc p \<le> b"; cases "referenced p")
      (simp_all add: count_waiting_eq written_up_to_def to_write_def freed_count_def)
qed

section \<open>Properties\<close>

text \<open>
  C19. The bumping process.  When the frames needed for output stand in increasing order of POC, \<open>xWriteOutput\<close> writes
  pictures in increasing order and after everything written before, and marks exactly those as written.  It writes a picture only
  while a limit is exceeded: just before each picture that is written, when the pictures up to the one before it are written, more than
  \<open>numReorder\<close> pictures wait or more than \<open>maxDec\<close> pictures occupy the buffer.  It stops when no picture waits or
  both limits hold.
\<close>

theorem write_output_bumping:
  assumes "xWriteOutput t l lastPOC pics = Some (pics', lastPOC', out)"
    and "sorted_wrt (<) (map poc (filter neededForOutput pics))" "\<forall>p\<in>set pics. \<not> fieldPic p" "pics \<noteq> []" "length pics < 2 ^ 32"
    and "arr_get_i (sps_NumReorderPics l) (highest_layer t l) = Some r"
    and "arr_get_i (sps_MaxDecPicBuffering l) (highest_layer t l) = Some m"
  shows "out = to_write lastPOC lastPOC' pics \<and> pics' = written_up_to lastPOC lastPOC' pics
    \<and> sorted_wrt (<) (lastPOC # out) \<and> lastPOC' = last (lastPOC # out)
    \<and> (\<forall>k<length out. let b = (lastPOC # out) ! k; (n, d) = count_waiting b (written_up_to lastPOC b pics) in n > int r \<or> d > int m)
    \<and> (let (n, d) = count_waiting lastPOC' pics' in n = 0 \<or> n \<le> int r \<and> d \<le> int m)"
proof -
  obtain n d where c: "count_waiting lastPOC pics = (n, d)" by fastforce
  have n: "n = int (length (filter (waiting lastPOC) pics))" using c by (simp add: count_waiting_eq)
  have "n \<le> int (length pics)" unfolding n by (simp add: length_filter_le)
  with assms(4) have i: "(if n > 2 then 1 else 0) < length pics" by auto
  from nth_mem [OF i] assms(3) have f: "\<not> fieldPic (pics ! (if n > 2 then 1 else 0))" by blast
  have "xWriteOutput t l lastPOC pics = Some (write_frames r m n d lastPOC pics)"
    unfolding xWriteOutput_def Let_def assms(6,7) c bind.bind_lunit prod.case arr_get_Some [OF i]
    using f assms(4) by (cases "2 < n") (simp_all only: if_True if_False simp_thms)
  then have w: "write_frames r m n d lastPOC pics = (pics', lastPOC', out)" using assms(1) by simp
  note law = write_frames_law [OF assms(2) w n]
  have cw: "count_waiting lastPOC' pics' = (n - int (length out), d - freed_count lastPOC lastPOC' pics)"
    using count_written [of lastPOC lastPOC' pics] law c by (metis fst_conv snd_conv)
  have bound: "0 \<le> fst (count_waiting a ps)" "fst (count_waiting a ps) \<le> int (length ps)"
    "0 \<le> snd (count_waiting a ps)" "snd (count_waiting a ps) \<le> int (length ps)" for a ps
    by (simp_all add: count_waiting_eq)
  have "pics' = written_up_to lastPOC lastPOC' pics" using law by blast
  then have l: "length pics' = length pics" unfolding written_up_to_def by (rule ssubst) (rule length_map)
  define x y where xy: "x = fst (count_waiting lastPOC' pics')" "y = snd (count_waiting lastPOC' pics')"
  have "0 \<le> x" "x < 2 ^ 32" "0 \<le> y" "y < 2 ^ 32"
    using bound [of lastPOC' pics', folded xy, unfolded l] assms(5) by simp_all
  then have "\<not> exceeds r m x y \<Longrightarrow> x \<le> int r \<and> y \<le> int m" by (auto simp: exceeds_def not_less nat_le_iff)
  moreover have "x = n - int (length out)" "y = d - freed_count lastPOC lastPOC' pics" unfolding xy cw by simp_all
  moreover have "n - int (length out) = 0 \<or> \<not> exceeds r m (n - int (length out)) (d - freed_count lastPOC lastPOC' pics)"
    using law by (metis cancel_comm_monoid_add_class.diff_cancel)
  ultimately have "x = 0 \<or> x \<le> int r \<and> y \<le> int m" by metis
  then have "let (n, d) = count_waiting lastPOC' pics' in n = 0 \<or> n \<le> int r \<and> d \<le> int m"
    unfolding xy by (simp add: case_prod_beta)
  moreover have "let b = (lastPOC # out) ! k; (n, d) = count_waiting b (written_up_to lastPOC b pics) in n > int r \<or> d > int m"
    if k: "k < length out" for k
  proof -
    define b where "b = (lastPOC # out) ! k"
    have e: "lastPOC \<le> b" "exceeds r m (n - int (length (to_write lastPOC b pics))) (d - freed_count lastPOC b pics)"
      using write_frames_bumps [OF assms(2) w n k] by (simp_all add: b_def Let_def)
    define u v where uv: "u = fst (count_waiting b (written_up_to lastPOC b pics))" "v = snd (count_waiting b (written_up_to lastPOC b pics))"
    have "length (written_up_to lastPOC b pics) = length pics" by (simp add: written_up_to_def)
    then have r: "0 \<le> u" "u < 2 ^ 32" "0 \<le> v" "v < 2 ^ 32"
      using bound [of b "written_up_to lastPOC b pics", folded uv] assms(5) by simp_all
    have "exceeds r m u v" using e(2) count_written [OF e(1), of pics] c by (simp add: uv)
    then have "u > int r \<or> v > int m" using r by (auto simp: exceeds_def zless_nat_conj)
    then show ?thesis by (simp add: uv b_def [symmetric] Let_def case_prod_beta)
  qed
  ultimately show ?thesis using law by blast
qed

definition example_waiting :: "picture list" where
  "example_waiting = [example_pic 1 0, (example_pic 2 2)\<lparr>neededForOutput := True, referenced := False\<rparr>,
     (example_pic 3 4)\<lparr>neededForOutput := True\<rparr>, (example_pic 4 8)\<lparr>neededForOutput := True\<rparr>]"

definition example_limits :: output_limits where
  "example_limits = \<lparr>sps_MaxTLayers = 1, sps_NumReorderPics = [2], sps_MaxDecPicBuffering = [4]\<rparr>"

theorem write_output_bumping_witness:
  "\<exists>pics'. xWriteOutput (-1) example_limits 0 example_waiting = Some (pics', 2, [2])
    \<and> pics' = written_up_to 0 2 example_waiting
    \<and> (let (n, d) = count_waiting 0 (written_up_to 0 0 example_waiting) in n > int 2 \<or> d > int 4)
    \<and> (let (n, d) = count_waiting 2 pics' in n = 0 \<or> n \<le> int 2 \<and> d \<le> int 4)"
proof -
  have "map_option snd (xWriteOutput (-1) example_limits 0 example_waiting) = Some (2, [2])" by code_simp
  then obtain pics' where x: "xWriteOutput (-1) example_limits 0 example_waiting = Some (pics', 2, [2])" by auto
  have s: "sorted_wrt (<) (map poc (filter neededForOutput example_waiting))" "\<forall>p\<in>set example_waiting. \<not> fieldPic p" "example_waiting \<noteq> []"
    "length example_waiting < 2 ^ 32"
    by (simp_all add: example_waiting_def example_pic_def)
  have l: "arr_get_i (sps_NumReorderPics example_limits) (highest_layer (-1) example_limits) = Some 2"
    "arr_get_i (sps_MaxDecPicBuffering example_limits) (highest_layer (-1) example_limits) = Some 4"
    by (simp_all add: example_limits_def highest_layer_def arr_get_i_def)
  note b = write_output_bumping [OF x s l]
  then have "\<forall>k<length [2 :: int]. let b = [0, 2] ! k; (n, d) = count_waiting b (written_up_to 0 b example_waiting) in n > int 2 \<or> d > int 4"
    by blast
  then have "let (n, d) = count_waiting 0 (written_up_to 0 0 example_waiting) in n > int 2 \<or> d > int 4" by (simp add: Let_def)
  with b x show ?thesis by blast
qed

end
