(* ===== verification/RefPicLists.thy ===== *)
theory RefPicLists
  imports PictureBuffer
begin

text \<open>
  The reference picture lists of a slice: \<open>Slice::setRefPicList\<close>, \<open>setRefPOCList\<close>,
  \<open>setList1IdxToList0Idx\<close> and \<open>getNumRpsCurrTempList\<close> of \<open>CommonLib/Slice.cpp\<close>, built from the reference
  picture set of the slice and the pictures of the buffer.
\<close>

section \<open>The pictures of the set\<close>

text \<open>The arrays \<open>RefPicSetStCurr0\<close>, \<open>RefPicSetStCurr1\<close> and \<open>RefPicSetLtCurr\<close> hold 16 entries each.\<close>

definition append16 :: "nat list \<Rightarrow> nat \<Rightarrow> nat list option" where
  "append16 xs x = (if length xs < 16 then Some (xs @ [x]) else None)"

type_synonym gathered = "picture list \<times> nat list \<times> nat option"

definition gather_st :: "slice \<Rightarrow> int \<Rightarrow> gathered \<Rightarrow> gathered option" where
  "gather_st s i x = do {
     let (pics, sts, pcRefPic) = x;
     u \<leftarrow> getUsed (m_pRPS s) i;
     if u then do {
       d \<leftarrow> getDeltaPOC (m_pRPS s) i;
       q \<leftarrow> xGetRefPic pics (m_iPOC s + d);
       let pics = upd_pic q (\<lambda>p. p\<lparr>longTerm := False\<rparr>) pics;
       sts \<leftarrow> append16 sts q;
       Some (pics, sts, Some q)
     } else Some (pics, sts, pcRefPic)
   }"

definition gather_lt :: "slice \<Rightarrow> int \<Rightarrow> gathered \<Rightarrow> gathered option" where
  "gather_lt s i x = do {
     let (pics, lts, pcRefPic) = x;
     u \<leftarrow> getUsed (m_pRPS s) i;
     c \<leftarrow> RefPicSet.getPOC (m_pRPS s) i;
     msb \<leftarrow> getCheckLTMSBPresent (m_pRPS s) i;
     (pics, lts, pcRefPic) \<leftarrow> (if u then do {
         q \<leftarrow> xGetLongTermRefPic s pics c msb;
         let pics = upd_pic q (\<lambda>p. p\<lparr>longTerm := True\<rparr>) pics;
         lts \<leftarrow> append16 lts q;
         Some (pics, lts, Some q)
       } else Some (pics, lts, pcRefPic));
     if pcRefPic = None then do {
       q \<leftarrow> xGetLongTermRefPic s pics c msb;
       Some (pics, lts, Some q)
     } else Some (pics, lts, pcRefPic)
   }"

section \<open>The lists\<close>

definition getRefPicSetIdx :: "nat list \<Rightarrow> nat \<Rightarrow> nat option" where
  "getRefPicSetIdx idxs idx = do { check_not (idx \<ge> 32); arr_get idxs idx }"

text \<open>One entry of a list: \<open>total\<close> pictures in \<open>rpsCurrList\<close>, of which the first \<open>nst\<close> are short-term.\<close>

definition fill_entry :: "bool \<Rightarrow> nat list \<Rightarrow> nat list \<Rightarrow> nat \<Rightarrow> nat \<Rightarrow> nat option list \<times> bool list
    \<Rightarrow> (nat option list \<times> bool list) option" where
  "fill_entry modified idxs rpsCurrList nst rIdx x = do {
     let (pl, lt) = x;
     let total = length rpsCurrList;
     cIdx \<leftarrow> (if modified then getRefPicSetIdx idxs rIdx
              else if total = 0 then None else Some (rIdx mod total));
     check_not (cIdx \<ge> total);
     pl \<leftarrow> arr_set pl rIdx (Some (rpsCurrList ! cIdx));
     lt \<leftarrow> arr_set lt rIdx (cIdx \<ge> nst);
     Some (pl, lt)
   }"

definition copy_entry :: "nat option list \<Rightarrow> nat \<Rightarrow> nat option list \<Rightarrow> nat option list option" where
  "copy_entry src i dst = do { x \<leftarrow> arr_get src i; arr_set dst i x }"

definition build_lists :: "slice \<Rightarrow> bool \<Rightarrow> nat list \<Rightarrow> nat list \<Rightarrow> nat list \<Rightarrow> slice option" where
  "build_lists s bCopyL0toL1ErrorCase st0 st1 lts = do {
     let nst = length st0 + length st1;
     let rpsCurrList0 = st0 @ st1 @ lts;
     check_not (length rpsCurrList0 > MAX_NUM_REF + 1);
     let rpsCurrList1 = st1 @ st0 @ lts;
     let none = replicate (MAX_NUM_REF + 1) None;
     let off = replicate (MAX_NUM_REF + 1) False;
     (l0, lt0) \<leftarrow> for_loop (fill_entry (modificationFlagL0 s) (m_RefPicSetIdxL0 s) rpsCurrList0 nst)
       [0..<nat (fst (m_aiNumRefIdx s))] (fst (m_apcRefPicList s), off);
     (n1, l1, lt1) \<leftarrow> (if m_eSliceType s \<noteq> B_SLICE then Some (0, none, off)
       else do {
         (l1, lt1) \<leftarrow> for_loop (fill_entry (modificationFlagL1 s) (m_RefPicSetIdxL1 s) rpsCurrList1 nst)
           [0..<nat (snd (m_aiNumRefIdx s))] (snd (m_apcRefPicList s), off);
         Some (snd (m_aiNumRefIdx s), l1, lt1)
       });
     (l0, lt0) \<leftarrow> (if sps_IBCMode s then do {
         l0 \<leftarrow> arr_set_i l0 (fst (m_aiNumRefIdx s) - 1) (Some (m_pcPic s));
         lt0 \<leftarrow> arr_set_i lt0 (fst (m_aiNumRefIdx s) - 1) True;
         Some (l0, lt0)
       } else Some (l0, lt0));
     (n1, l1) \<leftarrow> (if bCopyL0toL1ErrorCase \<and> m_eSliceType s = B_SLICE \<and> n1 = 0 then do {
         l1 \<leftarrow> for_loop (copy_entry l0) [0..<nat (fst (m_aiNumRefIdx s))] l1;
         Some (fst (m_aiNumRefIdx s), l1)
       } else Some (n1, l1));
     Some (s\<lparr>m_aiNumRefIdx := (fst (m_aiNumRefIdx s), n1), m_apcRefPicList := (l0, l1),
             m_bIsUsedAsLongTerm := (lt0, lt1)\<rparr>)
   }"

definition setRefPicList :: "slice \<Rightarrow> bool \<Rightarrow> bool \<Rightarrow> picture list \<Rightarrow> (slice \<times> picture list) option" where
  "setRefPicList s checkNumPocTotalCurr bCopyL0toL1ErrorCase pics = do {
     let none = replicate (MAX_NUM_REF + 1) None;
     let s = (if m_eSliceType s = I_SLICE
              then s\<lparr>m_apcRefPicList := (none, none), m_aiNumRefIdx := (0, 0)\<rparr> else s);
     if m_eSliceType s = I_SLICE \<and> \<not> checkNumPocTotalCurr then Some (s, pics)
     else do {
       let r = m_pRPS s;
       let neg = numberOfNegativePictures r;
       let pos = numberOfPositivePictures r;
       (pics, st0, q) \<leftarrow> for_loop (gather_st s) [0..neg - 1] (pics, [], None);
       (pics, st1, q) \<leftarrow> for_loop (gather_st s) [max 0 neg..neg + pos - 1] (pics, [], q);
       (pics, lts, q) \<leftarrow> for_loop (gather_lt s) (rev [neg + pos..neg + pos + numberOfLongtermPictures r - 1]) (pics, [], q);
       (pics, lts) \<leftarrow> (if sps_IBCMode s then do {
           lts \<leftarrow> append16 lts (m_pcPic s);
           Some (upd_pic (m_pcPic s) (\<lambda>p. p\<lparr>longTerm := True\<rparr>) pics, lts)
         } else Some (pics, lts));
       let numPicTotalCurr = length st0 + length st1 + length lts;
       (if checkNumPocTotalCurr \<and> getRapPicFlag s then
          if sps_IBCMode s then check_not (numPicTotalCurr \<noteq> 1) else check_not (numPicTotalCurr \<noteq> 0)
        else Some ());
       if checkNumPocTotalCurr \<and> m_eSliceType s = I_SLICE then Some (s, pics)
       else do {
         (if checkNumPocTotalCurr then do {
            check_not (numPicTotalCurr = 0);
            check_not (numPicTotalCurr > 8)
          } else Some ());
         s \<leftarrow> build_lists s bCopyL0toL1ErrorCase st0 st1 lts;
         Some (s, pics)
       }
     }
   }"

section \<open>POCs of the lists\<close>

definition pocs_of :: "picture list \<Rightarrow> nat option list \<Rightarrow> int \<Rightarrow> int list \<Rightarrow> int list option" where
  "pocs_of pics pl n out = for_loop (\<lambda>i out. do {
     q \<leftarrow> arr_get pl i;
     q \<leftarrow> q;
     p \<leftarrow> get_pic pics q;
     arr_set out i (poc p)
   }) [0..<nat n] out"

definition setRefPOCList :: "picture list \<Rightarrow> slice \<Rightarrow> slice option" where
  "setRefPOCList pics s = do {
     a \<leftarrow> pocs_of pics (fst (m_apcRefPicList s)) (fst (m_aiNumRefIdx s)) (fst (m_aiRefPOCList s));
     b \<leftarrow> pocs_of pics (snd (m_apcRefPicList s)) (snd (m_aiNumRefIdx s)) (snd (m_aiRefPOCList s));
     Some (s\<lparr>m_aiRefPOCList := (a, b)\<rparr>)
   }"

definition entry_poc :: "picture list \<Rightarrow> nat option list \<Rightarrow> nat \<Rightarrow> int option" where
  "entry_poc pics pl i = do { q \<leftarrow> arr_get pl i; q \<leftarrow> q; p \<leftarrow> get_pic pics q; Some (poc p) }"

text \<open>The inner loop, which stops at the first index with the same POC.\<close>

fun find_in_list0 :: "picture list \<Rightarrow> slice \<Rightarrow> nat \<Rightarrow> nat list \<Rightarrow> int option" where
  "find_in_list0 pics s idxL1 [] = Some (- 1)"
| "find_in_list0 pics s idxL1 (idxL0 # is) = do {
     a \<leftarrow> entry_poc pics (fst (m_apcRefPicList s)) idxL0;
     b \<leftarrow> entry_poc pics (snd (m_apcRefPicList s)) idxL1;
     if a = b then Some (int idxL0) else find_in_list0 pics s idxL1 is
   }"

definition setList1IdxToList0Idx :: "picture list \<Rightarrow> slice \<Rightarrow> slice option" where
  "setList1IdxToList0Idx pics s =
     for_loop (\<lambda>idxL1 s. do {
       v \<leftarrow> find_in_list0 pics s idxL1 [0..<nat (fst (m_aiNumRefIdx s))];
       a \<leftarrow> arr_set (m_list1IdxToList0Idx s) idxL1 v;
       Some (s\<lparr>m_list1IdxToList0Idx := a\<rparr>)
     }) [0..<nat (snd (m_aiNumRefIdx s))] s"

definition getNumRpsCurrTempList :: "slice \<Rightarrow> int option" where
  "getNumRpsCurrTempList s =
     (if m_eSliceType s = I_SLICE then Some 0
      else do {
        let r = m_pRPS s;
        n \<leftarrow> for_loop (\<lambda>i n. do { u \<leftarrow> getUsed r i; Some (if u then n + 1 else n) })
          [0..numberOfNegativePictures r + numberOfPositivePictures r + numberOfLongtermPictures r - 1] (0 :: int);
        Some (if sps_IBCMode s then n + 1 else n)
      })"

section \<open>Lemmas on the search\<close>

definition relabels :: "picture \<Rightarrow> picture \<Rightarrow> bool" where
  "relabels p p' \<longleftrightarrow> (\<exists>b. p' = p\<lparr>longTerm := b\<rparr>)"

lemma relabels_refl: "list_all2 relabels pics pics"
  unfolding relabels_def by (rule list_all2_refl) (metis picture.surjective picture.update_convs(8))

lemma relabels_trans: "list_all2 relabels a b \<Longrightarrow> list_all2 relabels b c \<Longrightarrow> list_all2 relabels a c"
  by (rule list_all2_trans [of relabels relabels relabels]) (auto simp: relabels_def)

lemma relabels_upd: "list_all2 relabels pics (upd_pic q (\<lambda>p. p\<lparr>longTerm := b\<rparr>) pics)"
proof -
  have "relabels p p" for p using relabels_refl [of "[p]"] by simp
  then show ?thesis by (auto simp: upd_pic_def list_all2_map2 relabels_def [of _ "_\<lparr>longTerm := b\<rparr>"] intro!: list_all2_refl)
qed

lemma find_relabels:
  fixes P :: "picture \<Rightarrow> bool"
  assumes "list_all2 relabels pics pics'" "\<And>(p :: picture) b. P (p\<lparr>longTerm := b\<rparr>) = P p"
  shows "map_option pic_id (List.find P pics') = map_option pic_id (List.find P pics)"
  using assms(1) by (induction rule: list_all2_induct) (auto simp: relabels_def assms(2))

lemma xGetRefPic_relabels: "list_all2 relabels pics pics' \<Longrightarrow> xGetRefPic pics' c = xGetRefPic pics c"
  unfolding xGetRefPic_def by (rule find_relabels) simp_all

lemma xGetLongTermRefPic_relabels:
  assumes "list_all2 relabels pics pics'"
  shows "xGetLongTermRefPic s pics' c msb = xGetLongTermRefPic s pics c msb"
proof -
  define P where "P p \<longleftrightarrow> poc p \<noteq> m_iPOC s \<and> referenced p
    \<and> (if msb then c else c AND (push_bit (sps_BitsForPOC s) 1 - 1))
      = (if msb then poc p else poc p AND (push_bit (sps_BitsForPOC s) 1 - 1))" for p :: picture
  have f: "map_option pic_id (List.find P pics') = map_option pic_id (List.find P pics)"
    by (rule find_relabels [OF assms]) (simp add: P_def)
  have e: "(pics' = []) = (pics = [])" "pics \<noteq> [] \<Longrightarrow> pic_id (hd pics') = pic_id (hd pics)"
    using assms by (cases pics; cases pics'; auto simp: relabels_def)+
  have g: "xGetLongTermRefPic s qs c msb = (if qs = [] then None
      else case map_option pic_id (List.find P qs) of Some i \<Rightarrow> Some i | None \<Rightarrow> Some (pic_id (hd qs)))" for qs
    unfolding xGetLongTermRefPic_def Let_def P_def by (auto split: option.splits)
  show ?thesis unfolding g f e(1) using e(2) by (cases "pics = []") (simp_all split: option.split)
qed

lemma xGetRefPic_found:
  "xGetRefPic pics c = Some q \<Longrightarrow> \<exists>p\<in>set pics. pic_id p = q \<and> poc p = c"
  "p \<in> set pics \<Longrightarrow> poc p = c \<Longrightarrow> xGetRefPic pics c \<noteq> None"
  unfolding xGetRefPic_def by (auto simp: find_Some_iff find_None_iff)

section \<open>Lemmas on the gathering loops\<close>

definition st_ids :: "slice \<Rightarrow> picture list \<Rightarrow> nat list \<Rightarrow> nat list" where
  "st_ids s pics js = map (\<lambda>i. the (xGetRefPic pics (m_iPOC s + deltaPOC (m_pRPS s) ! i)))
     (filter (\<lambda>i. used (m_pRPS s) ! i) js)"

definition lt_ids :: "slice \<Rightarrow> picture list \<Rightarrow> nat list \<Rightarrow> nat list" where
  "lt_ids s pics js = map (\<lambda>i. the (xGetLongTermRefPic s pics (POC (m_pRPS s) ! i) (bCheckLTMSB (m_pRPS s) ! i)))
     (filter (\<lambda>i. used (m_pRPS s) ! i) js)"

lemma ids_relabels:
  assumes "list_all2 relabels pics pics'"
  shows "st_ids s pics' js = st_ids s pics js" "lt_ids s pics' js = lt_ids s pics js"
  using assms by (simp_all add: st_ids_def lt_ids_def xGetRefPic_relabels xGetLongTermRefPic_relabels)

lemma gather_st_one:
  assumes "rps_wf (m_pRPS s)" "j < MAX_NUM_REF_PICS"
  shows "gather_st s (int j) (pics, sts, q) =
    (if used (m_pRPS s) ! j then
       case xGetRefPic pics (m_iPOC s + deltaPOC (m_pRPS s) ! j) of None \<Rightarrow> None
       | Some i \<Rightarrow> if length sts < 16 then Some (upd_pic i (\<lambda>p. p\<lparr>longTerm := False\<rparr>) pics, sts @ [i], Some i) else None
     else Some (pics, sts, q))"
  using assms by (auto simp: gather_st_def getUsed_def getDeltaPOC_def rps_wf_def append16_def Let_def split: option.split)

lemma gather_st_loop:
  assumes "rps_wf (m_pRPS s)"
  shows "for_loop (gather_st s) (map int js) (pics, sts, q) = Some (pics', sts', q') \<Longrightarrow> \<forall>j\<in>set js. j < MAX_NUM_REF_PICS
    \<Longrightarrow> sts' = sts @ st_ids s pics js \<and> list_all2 relabels pics pics'
      \<and> (\<forall>j\<in>set js. used (m_pRPS s) ! j \<longrightarrow> xGetRefPic pics (m_iPOC s + deltaPOC (m_pRPS s) ! j) \<noteq> None)"
proof (induction js arbitrary: pics sts q)
  case Nil
  then show ?case by (simp add: st_ids_def relabels_refl)
next
  case (Cons j js)
  then have j: "j < MAX_NUM_REF_PICS" by simp
  show ?case
  proof (cases "used (m_pRPS s) ! j")
    case False
    with Cons gather_st_one [OF assms j] show ?thesis by (auto simp: st_ids_def)
  next
    case True
    with Cons.prems(1) gather_st_one [OF assms j] obtain i where
      i: "xGetRefPic pics (m_iPOC s + deltaPOC (m_pRPS s) ! j) = Some i"
      "for_loop (gather_st s) (map int js) (upd_pic i (\<lambda>p. p\<lparr>longTerm := False\<rparr>) pics, sts @ [i], Some i)
        = Some (pics', sts', q')"
      by (auto split: option.splits if_splits)
    note r = relabels_upd [of pics i False]
    from Cons.IH [OF i(2)] Cons.prems(2) True i(1) show ?thesis
      by (auto simp: ids_relabels [OF r] xGetRefPic_relabels [OF r] st_ids_def intro: relabels_trans [OF r])
  qed
qed

lemma gather_st_runs:
  assumes "rps_wf (m_pRPS s)"
  shows "\<forall>j\<in>set js. j < MAX_NUM_REF_PICS
      \<and> (used (m_pRPS s) ! j \<longrightarrow> xGetRefPic pics (m_iPOC s + deltaPOC (m_pRPS s) ! j) \<noteq> None)
    \<Longrightarrow> length sts + length js \<le> 16 \<Longrightarrow> for_loop (gather_st s) (map int js) (pics, sts, q) \<noteq> None"
proof (induction js arbitrary: pics sts q)
  case (Cons j js)
  then have j: "j < MAX_NUM_REF_PICS" by simp
  show ?case
  proof (cases "used (m_pRPS s) ! j")
    case False
    with Cons gather_st_one [OF assms j] show ?thesis by simp
  next
    case True
    with Cons.prems(1) obtain i where i: "xGetRefPic pics (m_iPOC s + deltaPOC (m_pRPS s) ! j) = Some i" by auto
    note r = relabels_upd [of pics i False]
    from Cons.IH [of "upd_pic i (\<lambda>p. p\<lparr>longTerm := False\<rparr>) pics" "sts @ [i]" "Some i"] Cons.prems i True
    show ?thesis using gather_st_one [OF assms j] by (simp add: xGetRefPic_relabels [OF r])
  qed
qed simp

lemma gather_lt_one:
  assumes "rps_wf (m_pRPS s)" "j < MAX_NUM_REF_PICS" "pics \<noteq> []"
  shows "\<exists>q'. gather_lt s (int j) (pics, lts, q) =
    (if used (m_pRPS s) ! j then
       let i = the (xGetLongTermRefPic s pics (POC (m_pRPS s) ! j) (bCheckLTMSB (m_pRPS s) ! j))
       in if length lts < 16 then Some (upd_pic i (\<lambda>p. p\<lparr>longTerm := True\<rparr>) pics, lts @ [i], q') else None
     else Some (pics, lts, q'))"
proof -
  have g: "getUsed (m_pRPS s) (int j) = Some (used (m_pRPS s) ! j)" "RefPicSet.getPOC (m_pRPS s) (int j) = Some (POC (m_pRPS s) ! j)"
    "getCheckLTMSBPresent (m_pRPS s) (int j) = Some (bCheckLTMSB (m_pRPS s) ! j)"
    using assms(1,2) by (simp_all add: getUsed_def RefPicSet.getPOC_def getCheckLTMSBPresent_def rps_wf_def)
  have "\<exists>i. xGetLongTermRefPic s pics c msb = Some i" for c msb
    using assms(3) by (auto simp: xGetLongTermRefPic_def Let_def split: option.split)
  then obtain i where i: "xGetLongTermRefPic s pics (POC (m_pRPS s) ! j) (bCheckLTMSB (m_pRPS s) ! j) = Some i" by blast
  show ?thesis
    by (cases "used (m_pRPS s) ! j"; cases q) (auto simp: gather_lt_def g i append16_def Let_def)
qed

lemma gather_lt_loop:
  assumes "rps_wf (m_pRPS s)"
  shows "for_loop (gather_lt s) (map int js) (pics, lts, q) = Some (pics', lts', q') \<Longrightarrow> \<forall>j\<in>set js. j < MAX_NUM_REF_PICS
    \<Longrightarrow> pics \<noteq> [] \<Longrightarrow> lts' = lts @ lt_ids s pics js \<and> list_all2 relabels pics pics'"
proof (induction js arbitrary: pics lts q)
  case Nil
  then show ?case by (simp add: lt_ids_def relabels_refl)
next
  case (Cons j js)
  then have j: "j < MAX_NUM_REF_PICS" by simp
  let ?i = "the (xGetLongTermRefPic s pics (POC (m_pRPS s) ! j) (bCheckLTMSB (m_pRPS s) ! j))"
  obtain q1 where q1: "gather_lt s (int j) (pics, lts, q) =
      (if used (m_pRPS s) ! j then if length lts < 16
         then Some (upd_pic ?i (\<lambda>p. p\<lparr>longTerm := True\<rparr>) pics, lts @ [?i], q1) else None
       else Some (pics, lts, q1))"
    using gather_lt_one [OF assms j Cons.prems(3), of lts q] unfolding Let_def by blast
  note r = relabels_upd [of pics ?i True]
  have ne: "upd_pic i f pics \<noteq> []" for i f using Cons.prems(3) by (simp add: upd_pic_def)
  show ?case
  proof (cases "used (m_pRPS s) ! j")
    case False
    with Cons.prems q1 Cons.IH [of pics lts q1] show ?thesis by (simp add: lt_ids_def)
  next
    case True
    with Cons.prems(1) q1 have "for_loop (gather_lt s) (map int js)
        (upd_pic ?i (\<lambda>p. p\<lparr>longTerm := True\<rparr>) pics, lts @ [?i], q1) = Some (pics', lts', q')"
      by (simp split: if_splits)
    from Cons.IH [OF this _ ne] Cons.prems(2) True show ?thesis
      by (auto simp: ids_relabels [OF r] xGetLongTermRefPic_relabels [OF r] lt_ids_def intro: relabels_trans [OF r])
  qed
qed

lemma gather_lt_runs:
  assumes "rps_wf (m_pRPS s)"
  shows "\<forall>j\<in>set js. j < MAX_NUM_REF_PICS \<Longrightarrow> pics \<noteq> [] \<Longrightarrow> length lts + length js \<le> 16
    \<Longrightarrow> for_loop (gather_lt s) (map int js) (pics, lts, q) \<noteq> None"
proof (induction js arbitrary: pics lts q)
  case (Cons j js)
  then have j: "j < MAX_NUM_REF_PICS" by simp
  have ne: "upd_pic i f pics \<noteq> []" for i f using Cons.prems(2) by (simp add: upd_pic_def)
  from gather_lt_one [OF assms j Cons.prems(2), of lts q] Cons.prems ne Cons.IH show ?case
    by (auto simp: Let_def)
qed simp

section \<open>Lemmas on the lists\<close>

lemma fill_entry_law:
  assumes "r < length pl" "r < length lt" "L \<noteq> []"
  shows "fill_entry False idxs L nst r (pl, lt)
    = Some (pl[r := Some (L ! (r mod length L))], lt[r := (nst \<le> r mod length L)])"
  using assms by (simp add: fill_entry_def Let_def not_le)

definition filled :: "nat list \<Rightarrow> nat \<Rightarrow> nat option list \<Rightarrow> nat option list" where
  "filled L n pl = map (\<lambda>r. Some (L ! (r mod length L))) [0..<n] @ drop n pl"

definition filled_lt :: "nat list \<Rightarrow> nat \<Rightarrow> nat \<Rightarrow> bool list \<Rightarrow> bool list" where
  "filled_lt L nst n lt = map (\<lambda>r. nst \<le> r mod length L) [0..<n] @ drop n lt"

lemma length_filled [simp]:
  "n \<le> length pl \<Longrightarrow> length (filled L n pl) = length pl"
  "n \<le> length lt \<Longrightarrow> length (filled_lt L nst n lt) = length lt"
  by (simp_all add: filled_def filled_lt_def)

lemma nth_filled:
  "r < n \<Longrightarrow> filled L n pl ! r = Some (L ! (r mod length L))"
  "r < n \<Longrightarrow> filled_lt L nst n lt ! r = (nst \<le> r mod length L)"
  by (simp_all add: filled_def filled_lt_def nth_append)

lemma fill_loop_law:
  assumes "n \<le> length pl" "n \<le> length lt" "L \<noteq> []"
  shows "for_loop (fill_entry False idxs L nst) [0..<n] (pl, lt) = Some (filled L n pl, filled_lt L nst n lt)"
proof -
  have "for_loop (fill_entry False idxs L nst) [0..<n] (filled L 0 pl, filled_lt L nst 0 lt)
      = Some (filled L n pl, filled_lt L nst n lt)"
  proof (rule for_loop_upt)
    fix i
    assume "i < n"
    then have i: "i < length pl" "i < length lt" using assms(1,2) by simp_all
    then have "(filled L i pl)[i := Some (L ! (i mod length L))] = filled L (Suc i) pl"
      "(filled_lt L nst i lt)[i := (nst \<le> i mod length L)] = filled_lt L nst (Suc i) lt"
      by (simp_all add: filled_def filled_lt_def list_update_append Cons_nth_drop_Suc [symmetric])
    with fill_entry_law [of i "filled L i pl" "filled_lt L nst i lt" L idxs nst] i assms(3)
    show "fill_entry False idxs L nst i (filled L i pl, filled_lt L nst i lt)
        = Some (filled L (Suc i) pl, filled_lt L nst (Suc i) lt)" by simp
  qed simp
  then show ?thesis by (simp add: filled_def filled_lt_def)
qed

text \<open>The lists without modification commands, and their last entry with intra block copy.\<close>

definition lists_ready :: "slice \<Rightarrow> bool" where
  "lists_ready s \<longleftrightarrow> \<not> modificationFlagL0 s \<and> \<not> modificationFlagL1 s
     \<and> fst (m_aiNumRefIdx s) \<in> {1..int MAX_NUM_REF} \<and> snd (m_aiNumRefIdx s) \<in> {0..int MAX_NUM_REF}
     \<and> (m_eSliceType s = B_SLICE \<longrightarrow> snd (m_aiNumRefIdx s) > 0)
     \<and> length (fst (m_apcRefPicList s)) = MAX_NUM_REF + 1 \<and> length (snd (m_apcRefPicList s)) = MAX_NUM_REF + 1"

definition last_own :: "slice \<Rightarrow> nat \<Rightarrow> nat option \<Rightarrow> nat option" where
  "last_own s r x = (if sps_IBCMode s \<and> int r = fst (m_aiNumRefIdx s) - 1 then Some (m_pcPic s) else x)"

lemma build_lists_law:
  assumes "lists_ready s" "st0 @ st1 @ lts \<noteq> []" "length (st0 @ st1 @ lts) \<le> 17"
  shows "\<exists>s'. build_lists s c st0 st1 lts = Some s' \<and> m_pRPS s' = m_pRPS s
    \<and> (\<forall>r<nat (fst (m_aiNumRefIdx s)).
        fst (m_apcRefPicList s') ! r = last_own s r (Some ((st0 @ st1 @ lts) ! (r mod length (st0 @ st1 @ lts))))
        \<and> (\<not> sps_IBCMode s \<longrightarrow> fst (m_bIsUsedAsLongTerm s') ! r
             = (length st0 + length st1 \<le> r mod length (st0 @ st1 @ lts))))
    \<and> (m_eSliceType s = B_SLICE \<longrightarrow> (\<forall>r<nat (snd (m_aiNumRefIdx s)).
        snd (m_apcRefPicList s') ! r = Some ((st1 @ st0 @ lts) ! (r mod length (st1 @ st0 @ lts)))
        \<and> snd (m_bIsUsedAsLongTerm s') ! r = (length st0 + length st1 \<le> r mod length (st1 @ st0 @ lts))))"
proof -
  define n0 where "n0 = nat (fst (m_aiNumRefIdx s))"
  define n1 where "n1 = nat (snd (m_aiNumRefIdx s))"
  define A where "A = st0 @ st1 @ lts"
  define B where "B = st1 @ st0 @ lts"
  have n: "fst (m_aiNumRefIdx s) = int n0" "snd (m_aiNumRefIdx s) = int n1" "0 < n0" "n0 \<le> 16" "n1 \<le> 16"
    "m_eSliceType s = B_SLICE \<Longrightarrow> 0 < n1"
    "length (fst (m_apcRefPicList s)) = 17" "length (snd (m_apcRefPicList s)) = 17"
    using assms(1) by (auto simp: lists_ready_def n0_def n1_def MAX_NUM_REF_def)
  have AB: "A \<noteq> []" "B \<noteq> []" "length A \<le> 17" using assms(2,3) by (auto simp: A_def B_def)
  let ?off = "replicate 17 False"
  have mr: "MAX_NUM_REF + 1 = 17" by (simp add: MAX_NUM_REF_def)
  have f0: "for_loop (fill_entry False idxs A nst) [0..<n0] (fst (m_apcRefPicList s), ?off)
      = Some (filled A n0 (fst (m_apcRefPicList s)), filled_lt A nst n0 ?off)" for idxs nst
    using fill_loop_law n AB by (simp add: MAX_NUM_REF_def)
  have f1: "for_loop (fill_entry False idxs B nst) [0..<n1] (snd (m_apcRefPicList s), ?off)
      = Some (filled B n1 (snd (m_apcRefPicList s)), filled_lt B nst n1 ?off)" for idxs nst
    using fill_loop_law n AB by (simp add: MAX_NUM_REF_def)
  have i: "int n0 - 1 = int (n0 - 1)" using n(3) by simp
  have flags: "modificationFlagL0 s = False" "modificationFlagL1 s = False"
    using assms(1) by (simp_all add: lists_ready_def)
  have chk: "(17 < length A) = False" using AB(3) by (simp add: mr)
  let ?l0 = "filled A n0 (fst (m_apcRefPicList s))" and ?t0 = "filled_lt A (length st0 + length st1) n0 ?off"
  let ?L0 = "if sps_IBCMode s then ?l0[n0 - 1 := Some (m_pcPic s)] else ?l0"
  let ?T0 = "if sps_IBCMode s then ?t0[n0 - 1 := True] else ?t0"
  have len: "length ?l0 = 17" "length ?t0 = 17" using n by (simp_all add: MAX_NUM_REF_def)
  have own: "(if sps_IBCMode s then do {
         l0 \<leftarrow> arr_set_i ?l0 (int n0 - 1) (Some (m_pcPic s));
         lt0 \<leftarrow> arr_set_i ?t0 (int n0 - 1) True;
         Some (l0, lt0)
       } else Some (?l0, ?t0)) = Some (?L0, ?T0)"
    unfolding i using n(4) len by simp
  have L0: "?L0 ! r = last_own s r (Some (A ! (r mod length A)))"
    "\<not> sps_IBCMode s \<Longrightarrow> ?T0 ! r = (length st0 + length st1 \<le> r mod length A)" if "r < n0" for r
    using that n len by (auto simp: last_own_def nth_filled nth_list_update)
  have lenL: "length ?L0 = 17" using len by simp
  show ?thesis
  proof (cases "m_eSliceType s = B_SLICE")
    case True
    with n(6) have "int n1 \<noteq> 0" by simp
    with True show ?thesis
      unfolding build_lists_def Let_def n flags A_def [symmetric] B_def [symmetric] mr chk nat_int
      by (simp add: f0 f1 own [simplified] L0 nth_filled)
  next
    case False
    with own show ?thesis
      unfolding build_lists_def Let_def n flags A_def [symmetric] B_def [symmetric] mr chk nat_int
      by (simp add: f0 f1 L0 nth_filled)
  qed
qed

section \<open>Lemmas on the whole function\<close>

definition neg_idx :: "slice \<Rightarrow> nat list" where
  "neg_idx s = [0..<nat (numberOfNegativePictures (m_pRPS s))]"

definition pos_idx :: "slice \<Rightarrow> nat list" where
  "pos_idx s = [nat (numberOfNegativePictures (m_pRPS s))..<
     nat (numberOfNegativePictures (m_pRPS s) + numberOfPositivePictures (m_pRPS s))]"

definition lt_idx :: "slice \<Rightarrow> nat list" where
  "lt_idx s = rev [nat (numberOfNegativePictures (m_pRPS s) + numberOfPositivePictures (m_pRPS s))..<
     nat (numberOfNegativePictures (m_pRPS s) + numberOfPositivePictures (m_pRPS s) + numberOfLongtermPictures (m_pRPS s))]"

definition rps_counts_ok :: "ref_pic_set \<Rightarrow> bool" where
  "rps_counts_ok r \<longleftrightarrow> rps_wf r \<and> 0 \<le> numberOfNegativePictures r \<and> 0 \<le> numberOfPositivePictures r
     \<and> 0 \<le> numberOfLongtermPictures r
     \<and> numberOfNegativePictures r + numberOfPositivePictures r + numberOfLongtermPictures r \<le> 16"

text \<open>The pictures of the set as the buffer has them.\<close>

definition rps_lt_ids :: "slice \<Rightarrow> picture list \<Rightarrow> nat list" where
  "rps_lt_ids s pics = lt_ids s pics (lt_idx s) @ (if sps_IBCMode s then [m_pcPic s] else [])"

definition rps_pics0 :: "slice \<Rightarrow> picture list \<Rightarrow> nat list" where
  "rps_pics0 s pics = st_ids s pics (neg_idx s) @ st_ids s pics (pos_idx s) @ rps_lt_ids s pics"

definition rps_pics1 :: "slice \<Rightarrow> picture list \<Rightarrow> nat list" where
  "rps_pics1 s pics = st_ids s pics (pos_idx s) @ st_ids s pics (neg_idx s) @ rps_lt_ids s pics"

definition num_st :: "slice \<Rightarrow> nat" where
  "num_st s = length (filter (\<lambda>i. used (m_pRPS s) ! i) (neg_idx s)) + length (filter (\<lambda>i. used (m_pRPS s) ! i) (pos_idx s))"

lemma idx_ranges:
  assumes "rps_counts_ok (m_pRPS s)"
  defines "r \<equiv> m_pRPS s"
  shows "[0..numberOfNegativePictures r - 1] = map int (neg_idx s)"
    "[max 0 (numberOfNegativePictures r)..numberOfNegativePictures r + numberOfPositivePictures r - 1] = map int (pos_idx s)"
    "rev [numberOfNegativePictures r + numberOfPositivePictures r..
       numberOfNegativePictures r + numberOfPositivePictures r + numberOfLongtermPictures r - 1] = map int (lt_idx s)"
    "\<forall>j\<in>set (neg_idx s). j < MAX_NUM_REF_PICS" "\<forall>j\<in>set (pos_idx s). j < MAX_NUM_REF_PICS"
    "\<forall>j\<in>set (lt_idx s). j < MAX_NUM_REF_PICS"
    "length (neg_idx s) + length (pos_idx s) + length (lt_idx s) \<le> 16"
proof -
  define a where "a = nat (numberOfNegativePictures r)"
  define b where "b = nat (numberOfPositivePictures r)"
  define c where "c = nat (numberOfLongtermPictures r)"
  have e: "numberOfNegativePictures r = int a" "numberOfPositivePictures r = int b" "numberOfLongtermPictures r = int c"
    "a + b + c \<le> 16"
    using assms(1) by (auto simp: rps_counts_ok_def r_def a_def b_def c_def)
  have nt: "nat (int a + int b) = a + b" "nat (int a + int b + int c) = a + b + c" by linarith+
  have i: "neg_idx s = [0..<a]" "pos_idx s = [a..<a + b]" "lt_idx s = rev [a + b..<a + b + c]"
    unfolding neg_idx_def pos_idx_def lt_idx_def r_def [symmetric] e nt by simp_all
  show "[0..numberOfNegativePictures r - 1] = map int (neg_idx s)"
    "[max 0 (numberOfNegativePictures r)..numberOfNegativePictures r + numberOfPositivePictures r - 1] = map int (pos_idx s)"
    "rev [numberOfNegativePictures r + numberOfPositivePictures r..
       numberOfNegativePictures r + numberOfPositivePictures r + numberOfLongtermPictures r - 1] = map int (lt_idx s)"
    using upto_int [of 0 a] upto_int [of a "a + b"] upto_int [of "a + b" "a + b + c"]
    unfolding e i by (simp_all add: rev_map)
  show "\<forall>j\<in>set (neg_idx s). j < MAX_NUM_REF_PICS" "\<forall>j\<in>set (pos_idx s). j < MAX_NUM_REF_PICS"
    "\<forall>j\<in>set (lt_idx s). j < MAX_NUM_REF_PICS" "length (neg_idx s) + length (pos_idx s) + length (lt_idx s) \<le> 16"
    using e(4) unfolding i by (auto simp: MAX_NUM_REF_PICS_def)
qed

lemma length_ids: "length (st_ids s pics js) = length (filter (\<lambda>i. used (m_pRPS s) ! i) js)"
  by (simp add: st_ids_def)

text \<open>The three loops together.\<close>

lemma gather_law:
  assumes "rps_counts_ok (m_pRPS s)" "pics \<noteq> []"
    "for_loop (gather_st s) (map int (neg_idx s)) (pics, [], None) = Some (pics1, st0, q1)"
    "for_loop (gather_st s) (map int (pos_idx s)) (pics1, [], q1) = Some (pics2, st1, q2)"
    "for_loop (gather_lt s) (map int (lt_idx s)) (pics2, [], q2) = Some (pics3, lts, q3)"
  shows "st0 = st_ids s pics (neg_idx s)" "st1 = st_ids s pics (pos_idx s)" "lts = lt_ids s pics (lt_idx s)"
    "list_all2 relabels pics pics3"
    "\<forall>j\<in>set (neg_idx s) \<union> set (pos_idx s). used (m_pRPS s) ! j
       \<longrightarrow> xGetRefPic pics (m_iPOC s + deltaPOC (m_pRPS s) ! j) \<noteq> None"
proof -
  have wf: "rps_wf (m_pRPS s)" using assms(1) by (simp add: rps_counts_ok_def)
  note i = idx_ranges(4-6) [OF assms(1)]
  note l1 = gather_st_loop [OF wf assms(3) i(1)] and l2 = gather_st_loop [OF wf assms(4) i(2)]
  have r1: "list_all2 relabels pics pics1" using l1 by simp
  have r2: "list_all2 relabels pics pics2" using relabels_trans [OF r1] l2 by simp
  have ne: "pics2 \<noteq> []" using r2 assms(2) by auto
  note l3 = gather_lt_loop [OF wf assms(5) i(3) ne]
  show "st0 = st_ids s pics (neg_idx s)" using l1 by simp
  show "st1 = st_ids s pics (pos_idx s)" using l2 by (simp add: ids_relabels [OF r1])
  show "lts = lt_ids s pics (lt_idx s)" using l3 by (simp add: ids_relabels [OF r2])
  show "list_all2 relabels pics pics3" using relabels_trans [OF r2] l3 by simp
  show "\<forall>j\<in>set (neg_idx s) \<union> set (pos_idx s). used (m_pRPS s) ! j
       \<longrightarrow> xGetRefPic pics (m_iPOC s + deltaPOC (m_pRPS s) ! j) \<noteq> None"
    using l1 l2 by (auto simp: xGetRefPic_relabels [OF r1])
qed

lemma setRefPicList_cases:
  assumes "rps_counts_ok (m_pRPS s)" "pics \<noteq> []" "m_eSliceType s \<noteq> I_SLICE"
    "setRefPicList s True c pics = Some (s', pics')"
  shows "build_lists s c (st_ids s pics (neg_idx s)) (st_ids s pics (pos_idx s)) (rps_lt_ids s pics) = Some s'"
    "list_all2 relabels pics pics'" "rps_pics0 s pics \<noteq> []" "length (rps_pics0 s pics) \<le> 8"
    "\<forall>j\<in>set (neg_idx s) \<union> set (pos_idx s). used (m_pRPS s) ! j
       \<longrightarrow> xGetRefPic pics (m_iPOC s + deltaPOC (m_pRPS s) ! j) \<noteq> None"
proof -
  obtain pics1 st0 q1 pics2 st1 q2 pics3 lts q3 pics4 lts' where
    g: "for_loop (gather_st s) (map int (neg_idx s)) (pics, [], None) = Some (pics1, st0, q1)"
    "for_loop (gather_st s) (map int (pos_idx s)) (pics1, [], q1) = Some (pics2, st1, q2)"
    "for_loop (gather_lt s) (map int (lt_idx s)) (pics2, [], q2) = Some (pics3, lts, q3)"
    and ibc: "(if sps_IBCMode s then append16 lts (m_pcPic s) \<bind>
          (\<lambda>lts. Some (upd_pic (m_pcPic s) (\<lambda>p. p\<lparr>longTerm := True\<rparr>) pics3, lts)) else Some (pics3, lts)) = Some (pics4, lts')"
    and n: "length st0 + length st1 + length lts' \<noteq> 0" "length st0 + length st1 + length lts' \<le> 8"
    and b: "build_lists s c st0 st1 lts' = Some s'" "pics' = pics4"
    using assms(3,4) unfolding setRefPicList_def Let_def idx_ranges(1-3) [OF assms(1)] if_not_P [OF assms(3)]
    by (auto simp: bind_eq_Some_conv simp del: upto.simps)
  note law = gather_law [OF assms(1,2) g]
  have l: "lts' = rps_lt_ids s pics" "list_all2 relabels pics3 pics4"
    using ibc law(3) relabels_upd [of pics3 "m_pcPic s" True] relabels_refl [of pics3]
    by (auto simp: rps_lt_ids_def append16_def split: if_splits)
  show "build_lists s c (st_ids s pics (neg_idx s)) (st_ids s pics (pos_idx s)) (rps_lt_ids s pics) = Some s'"
    using b law l by simp
  show "list_all2 relabels pics pics'" using relabels_trans [OF law(4) l(2)] b by simp
  show "rps_pics0 s pics \<noteq> []" "length (rps_pics0 s pics) \<le> 8" using n law l(1) by (auto simp: rps_pics0_def)
  show "\<forall>j\<in>set (neg_idx s) \<union> set (pos_idx s). used (m_pRPS s) ! j
       \<longrightarrow> xGetRefPic pics (m_iPOC s + deltaPOC (m_pRPS s) ! j) \<noteq> None"
    by (rule law(5))
qed

definition total_used :: "slice \<Rightarrow> nat" where
  "total_used s = length (filter (\<lambda>i. used (m_pRPS s) ! i) (neg_idx s @ pos_idx s @ lt_idx s))"

lemma length_rps_pics0: "\<not> sps_IBCMode s \<Longrightarrow> length (rps_pics0 s pics) = total_used s"
  by (simp add: rps_pics0_def rps_lt_ids_def total_used_def st_ids_def lt_ids_def)

lemma setRefPicList_runs:
  assumes "rps_counts_ok (m_pRPS s)" "pics \<noteq> []" "m_eSliceType s \<noteq> I_SLICE" "\<not> sps_IBCMode s"
    "\<not> getRapPicFlag s" "lists_ready s" "total_used s \<in> {1..8}"
    "\<forall>j\<in>set (neg_idx s) \<union> set (pos_idx s). used (m_pRPS s) ! j
       \<longrightarrow> xGetRefPic pics (m_iPOC s + deltaPOC (m_pRPS s) ! j) \<noteq> None"
  shows "\<exists>s' pics'. setRefPicList s True c pics = Some (s', pics')"
proof -
  have wf: "rps_wf (m_pRPS s)" using assms(1) by (simp add: rps_counts_ok_def)
  note i = idx_ranges(4-7) [OF assms(1)]
  have "for_loop (gather_st s) (map int (neg_idx s)) (pics, [], None) \<noteq> None"
    by (rule gather_st_runs [OF wf]) (use i assms(8) in auto)
  then obtain pics1 st0 q1 where g1: "for_loop (gather_st s) (map int (neg_idx s)) (pics, [], None) = Some (pics1, st0, q1)"
    by auto
  have r1: "list_all2 relabels pics pics1" using gather_st_loop [OF wf g1 i(1)] by simp
  have "for_loop (gather_st s) (map int (pos_idx s)) (pics1, [], q1) \<noteq> None"
    by (rule gather_st_runs [OF wf]) (use i assms(8) in \<open>auto simp: xGetRefPic_relabels [OF r1]\<close>)
  then obtain pics2 st1 q2 where g2: "for_loop (gather_st s) (map int (pos_idx s)) (pics1, [], q1) = Some (pics2, st1, q2)"
    by auto
  have "list_all2 relabels pics pics2" using relabels_trans [OF r1] gather_st_loop [OF wf g2 i(2)] by simp
  then have ne: "pics2 \<noteq> []" using assms(2) by auto
  have "for_loop (gather_lt s) (map int (lt_idx s)) (pics2, [], q2) \<noteq> None"
    by (rule gather_lt_runs [OF wf]) (use i ne in auto)
  then obtain pics3 lts q3 where g3: "for_loop (gather_lt s) (map int (lt_idx s)) (pics2, [], q2) = Some (pics3, lts, q3)"
    by auto
  note law = gather_law [OF assms(1,2) g1 g2 g3]
  have len: "length (st0 @ st1 @ lts) = total_used s"
    using length_rps_pics0 [OF assms(4), of pics] assms(4) law(1-3) by (simp add: rps_pics0_def rps_lt_ids_def)
  then have b: "length (st0 @ st1 @ lts) \<noteq> 0" "length (st0 @ st1 @ lts) \<le> 8" using assms(7) by simp_all
  then have "st0 @ st1 @ lts \<noteq> []" "length (st0 @ st1 @ lts) \<le> 17" by auto
  from build_lists_law [OF assms(6) this] obtain s' where "build_lists s c st0 st1 lts = Some s'" by blast
  then show ?thesis
    using b assms(4,5) unfolding setRefPicList_def Let_def idx_ranges(1-3) [OF assms(1)] if_not_P [OF assms(3)]
    by (simp add: g1 g2 g3 assms(3) del: upto.simps)
qed

section \<open>Properties\<close>

text \<open>
  C14. For a P or B slice without list modification, \<open>setRefPicList\<close> fills list 0 cyclically with the used
  pictures of the reference picture set, the preceding ones first, then the following ones, then the
  long-term ones, and list 1 of a B slice with the following ones first; an entry is marked long-term exactly
  when it is.  With intra block copy the last entry of list 0 is the current picture.  Every used short-term
  entry is a picture of the buffer with the POC that the set says, and there are 1 to 8 pictures.
\<close>

theorem ref_pic_lists_content:
  assumes "rps_counts_ok (m_pRPS s)" "pics \<noteq> []" "m_eSliceType s \<noteq> I_SLICE" "lists_ready s"
    "setRefPicList s True c pics = Some (s', pics')"
  shows "(let N = length (rps_pics0 s pics) in 1 \<le> N \<and> N \<le> 8
    \<and> (\<forall>r<nat (fst (m_aiNumRefIdx s)).
        fst (m_apcRefPicList s') ! r = last_own s r (Some (rps_pics0 s pics ! (r mod N)))
        \<and> (\<not> sps_IBCMode s \<longrightarrow> fst (m_bIsUsedAsLongTerm s') ! r = (num_st s \<le> r mod N)))
    \<and> (m_eSliceType s = B_SLICE \<longrightarrow> (\<forall>r<nat (snd (m_aiNumRefIdx s)).
        snd (m_apcRefPicList s') ! r = Some (rps_pics1 s pics ! (r mod N))
        \<and> snd (m_bIsUsedAsLongTerm s') ! r = (num_st s \<le> r mod N))))
    \<and> (\<forall>j\<in>set (neg_idx s) \<union> set (pos_idx s). used (m_pRPS s) ! j \<longrightarrow>
        (\<exists>p\<in>set pics. xGetRefPic pics (m_iPOC s + deltaPOC (m_pRPS s) ! j) = Some (pic_id p)
          \<and> poc p = m_iPOC s + deltaPOC (m_pRPS s) ! j))"
proof -
  note c = setRefPicList_cases [OF assms(1-3,5)]
  have n: "length (rps_pics1 s pics) = length (rps_pics0 s pics)" by (simp add: rps_pics0_def rps_pics1_def)
  have st: "num_st s = length (st_ids s pics (neg_idx s)) + length (st_ids s pics (pos_idx s))"
    by (simp add: num_st_def st_ids_def)
  have "length (rps_pics0 s pics) \<le> 17" using c(4) by simp
  with build_lists_law [OF assms(4), of "st_ids s pics (neg_idx s)" "st_ids s pics (pos_idx s)" "rps_lt_ids s pics" c] c(1,3) n
  have "(\<forall>r<nat (fst (m_aiNumRefIdx s)).
        fst (m_apcRefPicList s') ! r = last_own s r (Some (rps_pics0 s pics ! (r mod length (rps_pics0 s pics))))
        \<and> (\<not> sps_IBCMode s \<longrightarrow> fst (m_bIsUsedAsLongTerm s') ! r = (num_st s \<le> r mod length (rps_pics0 s pics))))
    \<and> (m_eSliceType s = B_SLICE \<longrightarrow> (\<forall>r<nat (snd (m_aiNumRefIdx s)).
        snd (m_apcRefPicList s') ! r = Some (rps_pics1 s pics ! (r mod length (rps_pics1 s pics)))
        \<and> snd (m_bIsUsedAsLongTerm s') ! r = (num_st s \<le> r mod length (rps_pics1 s pics))))"
    unfolding st rps_pics0_def [symmetric] rps_pics1_def [symmetric] by auto
  moreover have "1 \<le> length (rps_pics0 s pics)" using c(3) by (simp add: Suc_le_eq)
  moreover have "\<exists>p\<in>set pics. xGetRefPic pics d = Some (pic_id p) \<and> poc p = d" if "xGetRefPic pics d \<noteq> None" for d
    using that xGetRefPic_found(1) [of pics d] by auto
  ultimately show ?thesis using c(4,5) n unfolding Let_def by auto
qed

lemma example_lists:
  "rps_counts_ok (m_pRPS example_slice)" "example_dpb \<noteq> []" "m_eSliceType example_slice \<noteq> I_SLICE"
  "lists_ready example_slice"
  by (simp_all add: rps_counts_ok_def lists_ready_def example_slice_def example_dpb_def example_ref_def
      ReferencePictureSet_def rps_wf_def MAX_NUM_REF_PICS_def MAX_NUM_REF_def)

theorem ref_pic_lists_content_witness:
  "\<exists>s' pics'. setRefPicList example_slice True True example_dpb = Some (s', pics')
    \<and> fst (m_apcRefPicList s') ! 1 = last_own example_slice 1 (Some (rps_pics0 example_slice example_dpb ! (1 mod length (rps_pics0 example_slice example_dpb))))"
proof -
  have "setRefPicList example_slice True True example_dpb \<noteq> None" by code_simp
  then obtain s' pics' where r: "setRefPicList example_slice True True example_dpb = Some (s', pics')" by auto
  have "1 < nat (fst (m_aiNumRefIdx example_slice))" by (simp add: example_slice_def)
  with ref_pic_lists_content [OF example_lists r] r show ?thesis unfolding Let_def by blast
qed

text \<open>
  C15. No undefined access in the chain the decoder runs for an ordinary P or B slice: one without random access,
  list modification and current picture referencing, which uses 1 to 8 pictures of its set, none before the random access point and
  none of POC -1.  When \<open>checkThatAllRefPicsAreAvailable\<close> reports nothing missing and the marking by
  \<open>applyReferencePictureSet\<close> succeeds, then \<open>setRefPicList\<close> finds all pictures and returns the lists.
\<close>

theorem ref_lists_built:
  assumes "rps_counts_ok (m_pRPS s)" "numberOfPictures (m_pRPS s) = numberOfNegativePictures (m_pRPS s)
      + numberOfPositivePictures (m_pRPS s) + numberOfLongtermPictures (m_pRPS s)"
    and "checkThatAllRefPicsAreAvailable s (m_pRPS s) ra False pics = Some (0, pics1)"
    and "applyReferencePictureSet s (m_pRPS s) pics1 = Some pics2"
    and "\<forall>i<nat (numberOfPictures (m_pRPS s)). ra \<le> m_iPOC s + deltaPOC (m_pRPS s) ! i
           \<and> m_iPOC s + deltaPOC (m_pRPS s) ! i \<noteq> - 1"
    and "m_eSliceType s \<noteq> I_SLICE" "\<not> sps_IBCMode s" "\<not> getRapPicFlag s" "lists_ready s" "total_used s \<in> {1..8}"
    and "pics \<noteq> []"
  shows "\<exists>s' pics3. setRefPicList s True c pics2 = Some (s', pics3)"
proof -
  let ?r = "m_pRPS s"
  have b: "rps_in_bounds ?r" using assms(1,2) by (auto simp: rps_in_bounds_def rps_counts_ok_def)
  have le: "numberOfNegativePictures ?r + numberOfPositivePictures ?r \<le> numberOfPictures ?r"
    using assms(1,2) by (simp add: rps_counts_ok_def)
  note chk = check_available_law [OF b assms(3) refl _ le]
  note app = apply_rps_law [OF b assms(4)]
  have "pics1 \<noteq> []" using check_same [OF assms(3)] assms(11) by auto
  then have ne: "pics2 \<noteq> []" using app by auto
  have "xGetRefPic pics2 (m_iPOC s + deltaPOC ?r ! j) \<noteq> None" if j: "j \<in> set (neg_idx s) \<union> set (pos_idx s)" for j
  proof -
    have jn: "j < nat (numberOfNegativePictures ?r + numberOfPositivePictures ?r)"
      using j assms(1) by (auto simp: neg_idx_def pos_idx_def rps_counts_ok_def)
    moreover from this have "j < nat (numberOfPictures ?r)" using le by linarith
    ultimately have "st_available s ?r pics1 j" using chk(2) assms(5) by auto
    then obtain p where p: "p \<in> set pics1" "poc p = m_iPOC s + deltaPOC ?r ! j" by (auto simp: st_available_def)
    with list_all2_partner [OF app p(1)] obtain p' where "p' \<in> set pics2" "poc p' = m_iPOC s + deltaPOC ?r ! j"
      by (auto simp: same_picture_def)
    then show ?thesis by (rule xGetRefPic_found(2))
  qed
  then show ?thesis using setRefPicList_runs [OF assms(1) ne assms(6-10)] by blast
qed

theorem ref_lists_built_witness:
  "\<exists>pics2 s' pics3. applyReferencePictureSet example_slice example_ref example_dpb = Some pics2
     \<and> setRefPicList example_slice True True pics2 = Some (s', pics3)"
proof -
  have r: "m_pRPS example_slice = example_ref" by (simp add: example_slice_def)
  have c: "checkThatAllRefPicsAreAvailable example_slice (m_pRPS example_slice) 0 False example_dpb = Some (0, example_dpb)"
    by code_simp
  have "applyReferencePictureSet example_slice (m_pRPS example_slice) example_dpb \<noteq> None" by code_simp
  then obtain pics2 where a: "applyReferencePictureSet example_slice (m_pRPS example_slice) example_dpb = Some pics2" by auto
  have "\<exists>s' pics3. setRefPicList example_slice True True pics2 = Some (s', pics3)"
  proof (rule ref_lists_built [OF example_lists(1) _ c a _ example_lists(3) _ _ example_lists(4) _ example_lists(2)])
    show "\<forall>i<nat (numberOfPictures (m_pRPS example_slice)). 0 \<le> m_iPOC example_slice + deltaPOC (m_pRPS example_slice) ! i
      \<and> m_iPOC example_slice + deltaPOC (m_pRPS example_slice) ! i \<noteq> - 1"
      by (simp add: r) (auto simp: example_slice_def example_ref_def numeral_3_eq_3 less_Suc_eq)
    show "total_used example_slice \<in> {1..8}" by code_simp
  qed (simp_all add: example_slice_def example_ref_def ReferencePictureSet_def getRapPicFlag_def)
  with a show ?thesis unfolding r by blast
qed

end
