(* ===== verification/DecoderControl.thy ===== *)
theory DecoderControl
  imports PictureOutput RefPicLists "HOL-Library.Code_Target_Nat"
begin

text \<open>
  The control of the decoder, class \<open>DecLib\<close> of \<open>DecoderLib/DecLib.cpp\<close>: random access and the pictures it
  skips, the inference of output flags, the allocation of picture buffers, lost pictures, and the state
  that carries over from slice to slice.

  A slice enters as the pilot \<open>m_apcSlicePilot\<close> that \<open>parseSliceHeader\<close> has filled.  The samples of the pictures
  and their decoding are not part of the state.  \<open>new Picture\<close> gives a fresh identity; its POC is not
  initialised, so it is an argument \<open>g\<close> about which nothing is assumed.
\<close>

abbreviation MAX_INT :: int where "MAX_INT \<equiv> 2147483647"

record decoder =
  dec_associatedIRAPType :: nat
  dec_pocCRA :: int
  dec_pocRandomAccess :: int
  dec_lastRasPoc :: int
  dec_cListPic :: "picture list"
  dec_pcPic :: "nat option"
  dec_uiSliceSegmentIdx :: nat
  dec_prevPOC :: int
  dec_prevTid0POC :: int
  dec_bFirstSliceInPicture :: bool
  dec_bFirstSliceInSequence :: bool
  dec_prevSliceSkipped :: bool
  dec_skippedPOC :: int
  dec_bFirstSliceInBitstream :: bool
  dec_lastPOCNoOutputPriorPics :: int
  dec_isNoOutputPriorPics :: bool
  dec_craNoRaslOutputFlag :: bool
  dec_warningMessageSkipPicture :: bool
  dec_prefixSEINALUs :: "nat list"

definition DecLib :: decoder where
  "DecLib = \<lparr>dec_associatedIRAPType = NAL_UNIT_INVALID, dec_pocCRA = 0, dec_pocRandomAccess = MAX_INT,
     dec_lastRasPoc = MAX_INT, dec_cListPic = [], dec_pcPic = None, dec_uiSliceSegmentIdx = 0,
     dec_prevPOC = MAX_INT, dec_prevTid0POC = 0, dec_bFirstSliceInPicture = True,
     dec_bFirstSliceInSequence = True, dec_prevSliceSkipped = False, dec_skippedPOC = 0,
     dec_bFirstSliceInBitstream = True, dec_lastPOCNoOutputPriorPics = -1, dec_isNoOutputPriorPics = False,
     dec_craNoRaslOutputFlag = False, dec_warningMessageSkipPicture = False, dec_prefixSEINALUs = []\<rparr>"

section \<open>Picture buffers\<close>

definition new_picture :: "nat \<Rightarrow> int \<Rightarrow> nat \<times> nat \<times> nat \<times> nat \<Rightarrow> picture" where
  "new_picture i g dims = \<lparr>pic_id = i, poc = g, layer = 2 ^ 32 - 1, referenced = False, reconstructed = False,
     neededForOutput = False, usedByCurr = False, longTerm = False, fieldPic = False, pic_slices = [],
     pic_BitsForPOC = 0, pic_size = dims\<rparr>"

definition reusable :: "picture \<Rightarrow> bool" where
  "reusable p \<longleftrightarrow> \<not> reconstructed p \<and> \<not> neededForOutput p \<or> \<not> referenced p \<and> \<not> neededForOutput p"

text \<open>A buffer of another size is destroyed, with its slices, and created again.\<close>

definition reuse :: "nat \<times> nat \<times> nat \<times> nat \<Rightarrow> picture \<Rightarrow> picture" where
  "reuse dims p = (if pic_size p \<noteq> dims then p\<lparr>pic_slices := [], pic_size := dims\<rparr> else p)
     \<lparr>neededForOutput := False, reconstructed := False\<rparr>"

type_synonym buffer_sps = "nat list \<times> (nat \<times> nat \<times> nat \<times> nat)"

definition fresh_id :: "picture list \<Rightarrow> nat" where
  "fresh_id pics = Suc (foldr max (map pic_id pics) 0)"

definition add_picture :: "int \<Rightarrow> nat \<times> nat \<times> nat \<times> nat \<Rightarrow> decoder \<Rightarrow> nat \<times> decoder" where
  "add_picture g dims d = (let i = fresh_id (dec_cListPic d)
     in (i, d\<lparr>dec_cListPic := dec_cListPic d @ [new_picture i g dims]\<rparr>))"

definition xGetNewPicBuffer :: "int \<Rightarrow> buffer_sps \<Rightarrow> nat \<Rightarrow> decoder \<Rightarrow> (nat \<times> decoder) option" where
  "xGetNewPicBuffer g sps temporalLayer d = do {
     m \<leftarrow> arr_get (fst sps) temporalLayer;
     if length (dec_cListPic d) < m then Some (add_picture g (snd sps) d)
     else case List.find reusable (dec_cListPic d) of
       None \<Rightarrow> Some (add_picture g (snd sps) d)
     | Some p \<Rightarrow> Some (pic_id p, d\<lparr>dec_cListPic := upd_pic (pic_id p) (reuse (snd sps)) (dec_cListPic d)\<rparr>)
   }"

section \<open>Flags of a slice\<close>

definition xUpdatePreviousTid0POC :: "slice \<Rightarrow> decoder \<Rightarrow> decoder" where
  "xUpdatePreviousTid0POC s d =
     (if m_uiTLayer s = 0 \<and> isReferenceNalu s \<and> m_eNalUnitType s \<noteq> NAL_UNIT_CODED_SLICE_RASL_R
         \<and> m_eNalUnitType s \<noteq> NAL_UNIT_CODED_SLICE_RADL_R
      then d\<lparr>dec_prevTid0POC := m_iPOC s\<rparr> else d)"

definition xUpdateRasInit :: "slice \<Rightarrow> decoder \<Rightarrow> slice \<times> decoder" where
  "xUpdateRasInit s d =
     (let s = s\<lparr>m_pendingRasInit := False\<rparr>;
          (s, d) = (if m_iPOC s > dec_lastRasPoc d
                    then (s\<lparr>m_pendingRasInit := True\<rparr>, d\<lparr>dec_lastRasPoc := MAX_INT\<rparr>) else (s, d))
      in (s, if isIRAP s then d\<lparr>dec_lastRasPoc := m_iPOC s\<rparr> else d))"

text \<open>The inference of \<open>NoRaslOutputFlag\<close> and \<open>NoOutputPriorPicsFlag\<close> of a random access slice.\<close>

definition infer_rap_flags :: "slice \<Rightarrow> decoder \<Rightarrow> slice \<times> decoder" where
  "infer_rap_flags s d =
     (if getRapPicFlag s then
        let t = m_eNalUnitType s;
            s = (if t \<ge> NAL_UNIT_CODED_SLICE_BLA_W_LP \<and> t \<le> NAL_UNIT_CODED_SLICE_IDR_N_LP
                    \<or> t = NAL_UNIT_CODED_SLICE_CRA \<and> dec_bFirstSliceInSequence d
                    \<or> t = NAL_UNIT_CODED_SLICE_CRA \<and> m_handleCraAsBlaFlag s
                 then s\<lparr>m_noRaslOutputFlag := True\<rparr> else s);
            s = (if \<not> dec_bFirstSliceInBitstream d \<and> getRapPicFlag s \<and> m_noRaslOutputFlag s then
                   if t = NAL_UNIT_CODED_SLICE_CRA then s\<lparr>m_noOutputPriorPicsFlag := True\<rparr> else s
                 else s\<lparr>m_noOutputPriorPicsFlag := False\<rparr>)
        in (s, if t = NAL_UNIT_CODED_SLICE_CRA then d\<lparr>dec_craNoRaslOutputFlag := m_noRaslOutputFlag s\<rparr> else d)
      else (s, d))"

definition infer_output_flags :: "slice \<Rightarrow> decoder \<Rightarrow> slice \<times> decoder" where
  "infer_output_flags s d =
     (let (s, d) = infer_rap_flags s d;
          d = (if getRapPicFlag s \<and> m_noOutputPriorPicsFlag s
               then d\<lparr>dec_lastPOCNoOutputPriorPics := m_iPOC s, dec_isNoOutputPriorPics := True\<rparr>
               else d\<lparr>dec_isNoOutputPriorPics := False\<rparr>);
          s = (if is_RASL (m_eNalUnitType s) \<and> dec_craNoRaslOutputFlag d then s\<lparr>m_PicOutputFlag := False\<rparr> else s)
      in if m_eNalUnitType s = NAL_UNIT_CODED_SLICE_CRA \<and> dec_craNoRaslOutputFlag d then
           let s = s\<lparr>m_iPOC := m_iPOC s AND (push_bit (sps_BitsForPOC s) 1 - 1)\<rparr>
           in (s, xUpdatePreviousTid0POC s d)
         else (s, d))"

definition checkNoOutputPriorPics :: "decoder \<Rightarrow> decoder" where
  "checkNoOutputPriorPics d =
     (if dec_isNoOutputPriorPics d
      then d\<lparr>dec_cListPic := map (\<lambda>p. if dec_lastPOCNoOutputPriorPics d \<noteq> poc p
               then p\<lparr>neededForOutput := False\<rparr> else p) (dec_cListPic d)\<rparr>
      else d)"

section \<open>Skipped pictures\<close>

definition isSkipPictureForBLA :: "slice \<Rightarrow> decoder \<Rightarrow> int \<Rightarrow> bool \<times> int" where
  "isSkipPictureForBLA s d iPOCLastDisplay =
     (if is_BLA (dec_associatedIRAPType d) \<and> m_iPOC s < dec_pocCRA d \<and> is_RASL (m_eNalUnitType s)
      then (True, iPOCLastDisplay + 1) else (False, iPOCLastDisplay))"

definition isRandomAccessSkipPicture :: "slice \<Rightarrow> decoder \<Rightarrow> int \<Rightarrow> int \<Rightarrow> bool \<times> decoder \<times> int \<times> int" where
  "isRandomAccessSkipPicture s d iSkipFrame iPOCLastDisplay =
     (if iSkipFrame \<noteq> 0 then (True, d, iSkipFrame - 1, iPOCLastDisplay)
      else if dec_pocRandomAccess d = MAX_INT then
        if m_eNalUnitType s = NAL_UNIT_CODED_SLICE_CRA \<or> is_BLA (m_eNalUnitType s) then
          (False, d\<lparr>dec_pocRandomAccess := m_iPOC s\<rparr>, iSkipFrame, iPOCLastDisplay)
        else if is_IDR (m_eNalUnitType s) then
          (False, d\<lparr>dec_pocRandomAccess := - MAX_INT\<rparr>, iSkipFrame, iPOCLastDisplay)
        else (True, d\<lparr>dec_warningMessageSkipPicture := True\<rparr>, iSkipFrame, iPOCLastDisplay)
      else if m_iPOC s < dec_pocRandomAccess d \<and> is_RASL (m_eNalUnitType s)
      then (True, d, iSkipFrame, iPOCLastDisplay + 1)
      else (False, d, iSkipFrame, iPOCLastDisplay))"

section \<open>Lost pictures\<close>

text \<open>The part of \<open>Slice::initSlice\<close> that concerns the modelled members.\<close>

definition initSlice :: "slice \<Rightarrow> slice" where
  "initSlice s = s\<lparr>m_aiNumRefIdx := (0, 0), m_bCheckLDC := False\<rparr>"

text \<open>The loops that look for the closest picture only copy its samples.\<close>

definition xCreateLostPicture :: "int \<Rightarrow> buffer_sps \<Rightarrow> int \<Rightarrow> decoder \<Rightarrow> decoder option" where
  "xCreateLostPicture g sps iLostPoc d = do {
     (i, d) \<leftarrow> xGetNewPicBuffer g sps 0 d;
     p \<leftarrow> get_pic (dec_cListPic d) i;
     sl \<leftarrow> arr_get (pic_slices p) 0;
     let sl = (initSlice sl)\<lparr>m_iPOC := iLostPoc\<rparr>;
     let d = d\<lparr>dec_cListPic := upd_pic i (\<lambda>p. p\<lparr>pic_slices := (pic_slices p)[0 := sl], referenced := True,
       reconstructed := True, neededForOutput := True\<rparr>) (dec_cListPic d)\<rparr>;
     let d = xUpdatePreviousTid0POC sl d;
     Some (if dec_pocRandomAccess d = MAX_INT then d\<lparr>dec_pocRandomAccess := iLostPoc\<rparr> else d)
   }"

text \<open>
  The loop of \<open>xDecodeSlice\<close> that inserts a picture for every lost one.  Every turn takes a reusable buffer and
  leaves it needed for output, or throws.
\<close>

definition free_buffers :: "picture list \<Rightarrow> nat" where
  "free_buffers pics = length (filter reusable pics)"

lemma free_buffers_less:
  assumes "List.find reusable pics = Some p" "\<And>q. q \<in> set pics \<Longrightarrow> pic_id q = pic_id p \<Longrightarrow> \<not> reusable (f q)"
  shows "free_buffers (upd_pic (pic_id p) f pics) < free_buffers pics"
proof -
  have mono: "free_buffers (upd_pic (pic_id p) f qs) \<le> free_buffers qs" if "set qs \<subseteq> set pics" for qs
    using that assms(2) by (induction qs) (auto simp: free_buffers_def upd_pic_def)
  from assms(1) obtain xs ys where "pics = xs @ p # ys" "reusable p"
    unfolding find_Some_iff by (metis id_take_nth_drop)
  moreover have "\<not> reusable (f p)" using assms(2) [of p] calculation by simp
  ultimately have "free_buffers (upd_pic (pic_id p) f pics) = free_buffers (upd_pic (pic_id p) f xs) + free_buffers (upd_pic (pic_id p) f ys)"
    "free_buffers pics = free_buffers xs + Suc (free_buffers ys)" "set xs \<subseteq> set pics" "set ys \<subseteq> set pics"
    by (auto simp: free_buffers_def upd_pic_def)
  with mono [of xs] mono [of ys] show ?thesis by simp
qed

lemma fresh_id_fresh: "p \<in> set pics \<Longrightarrow> pic_id p < fresh_id pics"
proof -
  have "p \<in> set pics \<Longrightarrow> pic_id p \<le> foldr max (map pic_id pics) 0" by (induction pics) auto
  then show "p \<in> set pics \<Longrightarrow> pic_id p < fresh_id pics" by (simp add: fresh_id_def)
qed

lemma get_pic_append: "\<forall>p\<in>set pics. pic_id p \<noteq> i \<Longrightarrow> get_pic (pics @ qs) i = get_pic qs i"
  by (induction pics) (auto simp: get_pic_def)

lemma get_pic_fresh: "get_pic (pics @ [new_picture (fresh_id pics) g dims]) (fresh_id pics) = Some (new_picture (fresh_id pics) g dims)"
proof -
  have "\<forall>p\<in>set pics. pic_id p \<noteq> fresh_id pics" using fresh_id_fresh [of _ pics] by fastforce
  then show ?thesis by (simp add: get_pic_append) (simp add: get_pic_def new_picture_def)
qed

text \<open>A lost picture is put into a buffer of the list that is free; without one the call throws.\<close>

lemma create_lost_cases:
  assumes "xCreateLostPicture g sps iLostPoc d = Some d'"
  obtains p f where "List.find reusable (dec_cListPic d) = Some p"
    "dec_cListPic d' = upd_pic (pic_id p) f (dec_cListPic d)" "\<forall>q. neededForOutput (f q) \<and> reconstructed (f q) \<and> referenced (f q)"
    "\<forall>q. poc (f q) = poc q \<and> pic_id (f q) = pic_id q"
    "dec_pocRandomAccess d \<noteq> MAX_INT \<longrightarrow> dec_pocRandomAccess d' = dec_pocRandomAccess d"
proof -
  obtain i d1 where n: "xGetNewPicBuffer g sps 0 d = Some (i, d1)"
    using assms by (auto simp: xCreateLostPicture_def bind_eq_Some_conv)
  show ?thesis
  proof (cases "\<exists>p. List.find reusable (dec_cListPic d) = Some p \<and> i = pic_id p
      \<and> d1 = d\<lparr>dec_cListPic := upd_pic (pic_id p) (reuse (snd sps)) (dec_cListPic d)\<rparr>")
    case True
    then obtain p where p: "List.find reusable (dec_cListPic d) = Some p" "i = pic_id p"
      "d1 = d\<lparr>dec_cListPic := upd_pic (pic_id p) (reuse (snd sps)) (dec_cListPic d)\<rparr>" by blast
    then obtain q sl where q: "get_pic (dec_cListPic d1) i = Some q" "arr_get (pic_slices q) 0 = Some sl"
      using assms n by (auto simp: xCreateLostPicture_def bind_eq_Some_conv)
    let ?g = "\<lambda>p. p\<lparr>pic_slices := (pic_slices p)[0 := (initSlice sl)\<lparr>m_iPOC := iLostPoc\<rparr>], referenced := True,
      reconstructed := True, neededForOutput := True\<rparr>"
    have "dec_cListPic d' = upd_pic i ?g (dec_cListPic d1)"
      "dec_pocRandomAccess d \<noteq> MAX_INT \<longrightarrow> dec_pocRandomAccess d' = dec_pocRandomAccess d"
      using assms n q p(3) by (auto simp: xCreateLostPicture_def xUpdatePreviousTid0POC_def Let_def)
    moreover have "upd_pic i ?g (dec_cListPic d1) = upd_pic (pic_id p) (\<lambda>q. ?g (reuse (snd sps) q)) (dec_cListPic d)"
      by (simp add: p upd_pic_def reuse_def)
    ultimately show ?thesis using p(1) by (intro that [of p "\<lambda>q. ?g (reuse (snd sps) q)"]) (auto simp: reuse_def)
  next
    case False
    then have "i = fresh_id (dec_cListPic d)"
      "dec_cListPic d1 = dec_cListPic d @ [new_picture (fresh_id (dec_cListPic d)) g (snd sps)]"
      using n by (auto simp: xGetNewPicBuffer_def add_picture_def Let_def bind_eq_Some_conv split: if_splits option.splits)
    then have "xCreateLostPicture g sps iLostPoc d = None"
      by (simp add: xCreateLostPicture_def n get_pic_fresh) (simp add: new_picture_def arr_get_def)
    with assms show ?thesis by simp
  qed
qed

lemma create_lost_keeps_pocs:
  assumes "xCreateLostPicture g sps iLostPoc d = Some d'" "dec_pocRandomAccess d \<noteq> MAX_INT"
  shows "poc ` set (dec_cListPic d') = poc ` set (dec_cListPic d)" "dec_pocRandomAccess d' = dec_pocRandomAccess d"
proof -
  obtain p f where f: "List.find reusable (dec_cListPic d) = Some p" "dec_cListPic d' = upd_pic (pic_id p) f (dec_cListPic d)"
    "\<forall>q. neededForOutput (f q) \<and> reconstructed (f q) \<and> referenced (f q)"
    "\<forall>q. poc (f q) = poc q \<and> pic_id (f q) = pic_id q"
    "dec_pocRandomAccess d \<noteq> MAX_INT \<longrightarrow> dec_pocRandomAccess d' = dec_pocRandomAccess d"
    by (rule create_lost_cases [OF assms(1)])
  have "map poc (dec_cListPic d') = map poc (dec_cListPic d)" using f(4) by (simp add: f(2) upd_pic_def)
  then show "poc ` set (dec_cListPic d') = poc ` set (dec_cListPic d)" by (metis set_map)
  show "dec_pocRandomAccess d' = dec_pocRandomAccess d" using f(5) assms(2) by simp
qed

lemma create_lost_uses_buffer:
  assumes "xCreateLostPicture g sps iLostPoc d = Some d'"
  shows "free_buffers (dec_cListPic d') < free_buffers (dec_cListPic d)"
  using assms by (rule create_lost_cases) (auto simp: reusable_def intro: free_buffers_less)

text \<open>The check changes only the long-term marks, which has no effect on the free buffers.\<close>

lemma marks_more_free: "list_all2 marks_more pics pics' \<Longrightarrow> free_buffers pics' = free_buffers pics"
  unfolding free_buffers_def
  by (induction rule: list_all2_induct) (auto simp: marks_more_def reusable_def)

function conceal_lost_pictures :: "int \<Rightarrow> buffer_sps \<Rightarrow> slice \<Rightarrow> decoder \<Rightarrow> decoder option" where
  "conceal_lost_pictures g sps s d =
     (case checkThatAllRefPicsAreAvailable s (m_pRPS s) (dec_pocRandomAccess d) False (dec_cListPic d) of
        None \<Rightarrow> None
      | Some (lostPoc, pics) \<Rightarrow>
          let d = d\<lparr>dec_cListPic := pics\<rparr> in
          if lostPoc > 0 then
            case xCreateLostPicture g sps (lostPoc - 1) d of
              None \<Rightarrow> None
            | Some d' \<Rightarrow> conceal_lost_pictures g sps s d'
          else Some d)"
  by pat_completeness auto

termination
proof (relation "measure (\<lambda>(g, sps, s, d). free_buffers (dec_cListPic d))", goal_cases)
  case (2 g sps s d x lostPoc pics d1 d')
  then have "list_all2 marks_more (dec_cListPic d) pics" using check_same by metis
  with create_lost_uses_buffer [of g sps _ _ d'] 2 marks_more_free show ?case by fastforce
qed simp

declare conceal_lost_pictures.simps [simp del]

section \<open>Activation\<close>

text \<open>
  The slice becomes a slice of the current picture: of a new one, whose buffer is taken and whose references
  are marked, or of the picture being decoded.  The buffered prefix SEI units are parsed and removed.
\<close>

definition xActivateParameterSets :: "int \<Rightarrow> buffer_sps \<Rightarrow> bool \<Rightarrow> slice \<Rightarrow> decoder \<Rightarrow> decoder option" where
  "xActivateParameterSets g sps isField s d =
     (if dec_bFirstSliceInPicture d then do {
        (i, d) \<leftarrow> xGetNewPicBuffer g sps (m_uiTLayer s) d;
        pics \<leftarrow> applyReferencePictureSet s (m_pRPS s) (dec_cListPic d);
        check_not (dec_uiSliceSegmentIdx d \<noteq> 0);
        Some (d\<lparr>dec_pcPic := Some i, dec_prefixSEINALUs := [], dec_cListPic := upd_pic i (\<lambda>p. p\<lparr>pic_slices := [s],
          pic_BitsForPOC := sps_BitsForPOC s, fieldPic := isField\<rparr>) pics\<rparr>)
      } else do {
        i \<leftarrow> dec_pcPic d;
        p \<leftarrow> get_pic (dec_cListPic d) i;
        check_not (length (pic_slices p) + 1 \<noteq> dec_uiSliceSegmentIdx d + 1);
        Some (d\<lparr>dec_prefixSEINALUs := [], dec_cListPic := upd_pic i (\<lambda>p. p\<lparr>pic_slices := pic_slices p @ [s],
          pic_BitsForPOC := sps_BitsForPOC s\<rparr>) (dec_cListPic d)\<rparr>)
      })"

section \<open>The start of a slice\<close>

definition low_delay_list :: "picture list \<Rightarrow> nat option list \<Rightarrow> int \<Rightarrow> int \<Rightarrow> bool \<Rightarrow> bool option" where
  "low_delay_list pics l n iCurrPOC = for_loop (\<lambda>iRefIdx bLowDelay.
     if bLowDelay then do { c \<leftarrow> entry_poc pics l iRefIdx; Some (\<not> c > iCurrPOC) } else Some False) [0..<nat n]"

definition checkLDC :: "slice \<Rightarrow> picture list \<Rightarrow> slice option" where
  "checkLDC s pics =
     (if m_eSliceType s \<noteq> I_SLICE then do {
        b \<leftarrow> low_delay_list pics (fst (m_apcRefPicList s)) (fst (m_aiNumRefIdx s)) (m_iPOC s) True;
        b \<leftarrow> (if m_eSliceType s = B_SLICE
              then low_delay_list pics (snd (m_apcRefPicList s)) (snd (m_aiNumRefIdx s)) (m_iPOC s) b else Some b);
        Some (s\<lparr>m_bCheckLDC := b\<rparr>)
      } else Some s)"

definition setBio :: "slice \<Rightarrow> slice option" where
  "setBio s =
     (if \<not> sps_UseBIO s then Some s
      else if m_eSliceType s \<noteq> B_SLICE then Some (s\<lparr>m_bioLDBPossible := False\<rparr>)
      else if fst (m_aiNumRefIdx s) \<le> 1 \<and> snd (m_aiNumRefIdx s) \<le> 1 then do {
        iPOCL0 \<leftarrow> arr_get (fst (m_aiRefPOCList s)) 0;
        iPOCL1 \<leftarrow> arr_get (snd (m_aiRefPOCList s)) 0;
        Some (s\<lparr>m_bioLDBPossible := \<bar>iPOCL0 - m_iPOC s\<bar> = 1 \<and> \<bar>iPOCL1 - m_iPOC s\<bar> = 1\<rparr>)
      } else Some (s\<lparr>m_bioLDBPossible := m_bCheckLDC s\<rparr>))"

definition start_slice :: "nat \<Rightarrow> decoder \<Rightarrow> decoder option" where
  "start_slice tid d = do {
     i \<leftarrow> dec_pcPic d;
     p \<leftarrow> get_pic (dec_cListPic d) i;
     s \<leftarrow> arr_get (pic_slices p) (dec_uiSliceSegmentIdx d);
     let s = s\<lparr>m_pcPic := i\<rparr>;
     let pics = upd_pic i (\<lambda>p. p\<lparr>poc := m_iPOC s, layer := tid, referenced := True\<rparr>) (dec_cListPic d);
     (pocCRA, irapType) \<leftarrow> checkCRA s (m_pRPS s) (dec_pocCRA d, dec_associatedIRAPType d) pics;
     (s, pics) \<leftarrow> setRefPicList s True True pics;
     s \<leftarrow> checkLDC s pics;
     s \<leftarrow> setRefPOCList pics s;
     s \<leftarrow> setBio s;
     Some (d\<lparr>dec_pocCRA := pocCRA, dec_associatedIRAPType := irapType, dec_bFirstSliceInPicture := False,
       dec_cListPic := upd_pic i (\<lambda>p. p\<lparr>pic_slices := (pic_slices p)[dec_uiSliceSegmentIdx d := s],
         longTerm := longTerm p \<and> \<not> sps_IBCMode s\<rparr>) pics,
       dec_uiSliceSegmentIdx := dec_uiSliceSegmentIdx d + 1\<rparr>)
   }"

section \<open>A slice\<close>

text \<open>
  What happens to a slice: it is skipped, it is left for the next call because it starts a new picture, or it
  is decoded.  \<open>iPOCLastDisplay\<close> is passed to \<open>xDecodeSlice\<close> by value, so its increments are lost.
\<close>

datatype decision = Skip | NewPicture | Decode

definition independent_idx :: "decoder \<Rightarrow> nat option" where
  "independent_idx d =
     (if dec_bFirstSliceInPicture d then Some 0
      else do {
        i \<leftarrow> dec_pcPic d;
        p \<leftarrow> get_pic (dec_cListPic d) i;
        sl \<leftarrow> arr_get_i (pic_slices p) (int (dec_uiSliceSegmentIdx d) - 1);
        Some (u32 (m_independentSliceIdx sl + 1))
      })"

definition decide_slice :: "slice \<Rightarrow> decoder \<Rightarrow> int \<Rightarrow> int \<Rightarrow> decision \<times> slice \<times> decoder \<times> int" where
  "decide_slice s d iSkipFrame iPOCLastDisplay =
     (let d = xUpdatePreviousTid0POC s d;
          s = s\<lparr>m_iAssociatedIRAP := dec_pocCRA d, m_iAssociatedIRAPType := dec_associatedIRAPType d\<rparr>;
          (s, d) = infer_output_flags s d;
          (skip, d, iSkipFrame, iPOCLastDisplay) = isRandomAccessSkipPicture s d iSkipFrame iPOCLastDisplay
      in if skip \<or> fst (isSkipPictureForBLA s d iPOCLastDisplay) then
           (Skip, s, d\<lparr>dec_prevSliceSkipped := True, dec_skippedPOC := m_iPOC s\<rparr>, iSkipFrame)
         else
           let d = d\<lparr>dec_prevSliceSkipped := False\<rparr> in
           if m_sliceCurStartCtuTsAddr s = 0 \<and> \<not> dec_bFirstSliceInPicture d then
             (if dec_prevPOC d \<ge> dec_pocRandomAccess d then NewPicture else Decode,
              s, d\<lparr>dec_prevPOC := m_iPOC s\<rparr>, iSkipFrame)
           else (Decode, s, d, iSkipFrame))"

definition decode_picture_slice :: "int \<Rightarrow> buffer_sps \<Rightarrow> buffer_sps \<Rightarrow> bool \<Rightarrow> slice \<Rightarrow> decoder \<Rightarrow> decoder option" where
  "decode_picture_slice g sps0 sps isField s d = do {
     d \<leftarrow> conceal_lost_pictures g sps0 s d;
     let d = d\<lparr>dec_prevPOC := m_iPOC s\<rparr>;
     let (s, d) = (if dec_bFirstSliceInPicture d then xUpdateRasInit s d else (s, d));
     d \<leftarrow> xActivateParameterSets g sps isField s d;
     start_slice (m_uiTLayer s) (d\<lparr>dec_bFirstSliceInSequence := False, dec_bFirstSliceInBitstream := False\<rparr>)
   }"

definition xDecodeSlice :: "int \<Rightarrow> buffer_sps \<Rightarrow> buffer_sps \<Rightarrow> bool \<Rightarrow> slice \<Rightarrow> decoder \<Rightarrow> int \<Rightarrow> int
    \<Rightarrow> (bool \<times> decoder \<times> int) option" where
  "xDecodeSlice g sps0 sps isField s d iSkipFrame iPOCLastDisplay = do {
     let d = (if dec_bFirstSliceInPicture d then d\<lparr>dec_uiSliceSegmentIdx := 0\<rparr> else d);
     idx \<leftarrow> independent_idx d;
     case decide_slice (s\<lparr>m_independentSliceIdx := idx\<rparr>) d iSkipFrame iPOCLastDisplay of
       (Skip, s, d, iSkipFrame) \<Rightarrow> Some (False, d, iSkipFrame)
     | (NewPicture, s, d, iSkipFrame) \<Rightarrow> Some (True, d, iSkipFrame)
     | (Decode, s, d, iSkipFrame) \<Rightarrow> do {
         d \<leftarrow> decode_picture_slice g sps0 sps isField s d;
         Some (False, d, iSkipFrame)
       }
   }"

section \<open>The other operations\<close>

definition end_of_sequence :: "decoder \<Rightarrow> decoder" where
  "end_of_sequence d = d\<lparr>dec_associatedIRAPType := NAL_UNIT_INVALID, dec_pocCRA := 0,
     dec_pocRandomAccess := MAX_INT, dec_prevPOC := MAX_INT, dec_prevSliceSkipped := False, dec_skippedPOC := 0\<rparr>"

text \<open>
  For unknown units the front of the list is deleted but not removed from it.  \<open>freed\<close> holds the addresses
  deleted so far; deleting one again is undefined.
\<close>

partial_function (option) discard_prefix :: "nat list \<Rightarrow> nat list \<Rightarrow> unit option" where
  "discard_prefix freed l =
     (if l = [] then Some ()
      else if hd l \<in> set freed then None else discard_prefix (hd l # freed) l)"

definition xParsePrefixSEIsForUnknownVCLNal :: "decoder \<Rightarrow> decoder option" where
  "xParsePrefixSEIsForUnknownVCLNal d = do { discard_prefix [] (dec_prefixSEINALUs d); Some d }"

text \<open>The picture's slice at this point is the one decoded last.\<close>

definition finishPictureLight :: "decoder \<Rightarrow> (int \<times> decoder) option" where
  "finishPictureLight d = do {
     i \<leftarrow> dec_pcPic d;
     p \<leftarrow> get_pic (dec_cListPic d) i;
     s \<leftarrow> (if pic_slices p = [] then None else Some (last (pic_slices p)));
     Some (m_iPOC s, d\<lparr>dec_cListPic := sortPicList (upd_pic i (\<lambda>p. p\<lparr>neededForOutput := m_PicOutputFlag s,
       reconstructed := True\<rparr>) (dec_cListPic d))\<rparr>)
   }"

definition finishPicture :: "decoder \<Rightarrow> (int \<times> decoder) option" where
  "finishPicture d = do {
     (c, d) \<leftarrow> finishPictureLight d;
     Some (c, d\<lparr>dec_bFirstSliceInPicture := True\<rparr>)
   }"

text \<open>
  The dispatch on the type of a unit; \<open>s\<close> is the parsed header of a slice, \<open>addr\<close> the address of a buffered
  unit.  Parameter sets, suffix SEI messages, delimiters and filler data leave the modelled state alone.
\<close>

definition decode :: "int \<Rightarrow> buffer_sps \<Rightarrow> buffer_sps \<Rightarrow> bool \<Rightarrow> nalu \<Rightarrow> slice \<Rightarrow> nat \<Rightarrow> decoder \<Rightarrow> int \<Rightarrow> int
    \<Rightarrow> (bool \<times> decoder \<times> int) option" where
  "decode g sps0 sps isField nal s addr d iSkipFrame iPOCLastDisplay =
     (if nuhLayerId nal > 0 then Some (False, d, iSkipFrame)
      else if isSlice nal then xDecodeSlice g sps0 sps isField s d iSkipFrame iPOCLastDisplay
      else if nalUnitType nal = NAL_UNIT_PREFIX_SEI
        then Some (False, d\<lparr>dec_prefixSEINALUs := dec_prefixSEINALUs d @ [addr]\<rparr>, iSkipFrame)
      else if nalUnitType nal = NAL_UNIT_EOS then Some (False, end_of_sequence d, iSkipFrame)
      else if nalUnitType nal \<le> 32 then do { d \<leftarrow> xParsePrefixSEIsForUnknownVCLNal d; Some (False, d, iSkipFrame) }
      else if nalUnitType nal \<ge> NAL_UNIT_INVALID then None
      else Some (False, d, iSkipFrame))"

section \<open>The random access invariant\<close>

lemma infer_rap_random:
  "dec_pocRandomAccess (snd (infer_rap_flags s d)) = dec_pocRandomAccess d"
  "m_eNalUnitType (fst (infer_rap_flags s d)) = m_eNalUnitType s"
  "m_iPOC (fst (infer_rap_flags s d)) = m_iPOC s" "sps_BitsForPOC (fst (infer_rap_flags s d)) = sps_BitsForPOC s"
  by (simp_all add: infer_rap_flags_def Let_def if_distrib [of m_eNalUnitType] if_distrib [of m_iPOC] if_distrib [of sps_BitsForPOC])

lemma update_tid0_random [simp]: "dec_pocRandomAccess (xUpdatePreviousTid0POC s d) = dec_pocRandomAccess d"
  by (simp add: xUpdatePreviousTid0POC_def)

lemma infer_output_random:
  assumes "infer_output_flags s d = (s', d')"
  shows "dec_pocRandomAccess d' = dec_pocRandomAccess d" "m_eNalUnitType s' = m_eNalUnitType s"
    "m_iPOC s' = m_iPOC s \<or> m_iPOC s' = m_iPOC s AND (push_bit (sps_BitsForPOC s) 1 - 1)"
proof -
  obtain s1 d1 where r: "infer_rap_flags s d = (s1, d1)" by fastforce
  note f = infer_rap_random [of s d, unfolded r fst_conv snd_conv]
  define d2 where "d2 = (if getRapPicFlag s1 \<and> m_noOutputPriorPicsFlag s1
    then d1\<lparr>dec_lastPOCNoOutputPriorPics := m_iPOC s1, dec_isNoOutputPriorPics := True\<rparr>
    else d1\<lparr>dec_isNoOutputPriorPics := False\<rparr>)"
  define s2 where "s2 = (if is_RASL (m_eNalUnitType s1) \<and> dec_craNoRaslOutputFlag d2 then s1\<lparr>m_PicOutputFlag := False\<rparr> else s1)"
  have g: "dec_pocRandomAccess d2 = dec_pocRandomAccess d" "m_eNalUnitType s2 = m_eNalUnitType s" "m_iPOC s2 = m_iPOC s"
    "sps_BitsForPOC s2 = sps_BitsForPOC s"
    by (simp_all add: d2_def s2_def f)
  have "(s', d') = (if m_eNalUnitType s2 = NAL_UNIT_CODED_SLICE_CRA \<and> dec_craNoRaslOutputFlag d2 then
      (s2\<lparr>m_iPOC := m_iPOC s2 AND (push_bit (sps_BitsForPOC s2) 1 - 1)\<rparr>,
       xUpdatePreviousTid0POC (s2\<lparr>m_iPOC := m_iPOC s2 AND (push_bit (sps_BitsForPOC s2) 1 - 1)\<rparr>) d2) else (s2, d2))"
    unfolding assms [symmetric] infer_output_flags_def r prod.case Let_def d2_def s2_def ..
  with g show "dec_pocRandomAccess d' = dec_pocRandomAccess d" "m_eNalUnitType s' = m_eNalUnitType s"
    "m_iPOC s' = m_iPOC s \<or> m_iPOC s' = m_iPOC s AND (push_bit (sps_BitsForPOC s) 1 - 1)"
    by (simp_all split: if_splits)
qed

abbreviation is_random_access :: "slice \<Rightarrow> bool" where
  "is_random_access s \<equiv> m_eNalUnitType s = NAL_UNIT_CODED_SLICE_CRA \<or> is_BLA (m_eNalUnitType s) \<or> is_IDR (m_eNalUnitType s)"

text \<open>
  The slices that were accepted since the start of a sequence, the last one first, and what
  \<open>m_pocRandomAccess\<close> says of them.
\<close>

definition random_access_inv :: "decoder \<Rightarrow> slice list \<Rightarrow> bool" where
  "random_access_inv d tr \<longleftrightarrow>
     (if tr = [] then dec_pocRandomAccess d = MAX_INT
      else dec_pocRandomAccess d \<noteq> MAX_INT \<and> is_random_access (last tr)
        \<and> dec_pocRandomAccess d = (if is_IDR (m_eNalUnitType (last tr)) then - MAX_INT else m_iPOC (last tr))
        \<and> (\<forall>s\<in>set tr. is_RASL (m_eNalUnitType s) \<longrightarrow> dec_pocRandomAccess d \<le> m_iPOC s))"

definition accepted :: "slice \<Rightarrow> decoder \<Rightarrow> int \<Rightarrow> int \<Rightarrow> slice list" where
  "accepted s d iSkipFrame iPOCLastDisplay =
     (let d = (if dec_bFirstSliceInPicture d then d\<lparr>dec_uiSliceSegmentIdx := 0\<rparr> else d)
      in case independent_idx d of
           None \<Rightarrow> []
         | Some idx \<Rightarrow>
             (case decide_slice (s\<lparr>m_independentSliceIdx := idx\<rparr>) d iSkipFrame iPOCLastDisplay of
                (dc, s', _, _) \<Rightarrow> if dc = Skip then [] else [s']))"

lemma decide_keeps_inv:
  assumes "decide_slice s d iSkipFrame iPOCLastDisplay = (dc, s', d', k)" "random_access_inv d tr"
    and "m_iPOC s < MAX_INT" "sps_BitsForPOC s \<le> 16"
  shows "random_access_inv d' (if dc = Skip then tr else s' # tr)" "dc \<noteq> Skip \<Longrightarrow> dec_pocRandomAccess d' \<noteq> MAX_INT"
proof -
  let ?s = "s\<lparr>m_iAssociatedIRAP := dec_pocCRA (xUpdatePreviousTid0POC s d),
    m_iAssociatedIRAPType := dec_associatedIRAPType (xUpdatePreviousTid0POC s d)\<rparr>"
  obtain s1 d1 where o: "infer_output_flags ?s (xUpdatePreviousTid0POC s d) = (s1, d1)" by fastforce
  have r: "dec_pocRandomAccess d1 = dec_pocRandomAccess d" "m_eNalUnitType s1 = m_eNalUnitType s"
    using infer_output_random [OF o] by (simp_all add: xUpdatePreviousTid0POC_def)
  have "(m_iPOC s AND (push_bit (sps_BitsForPOC s) 1 - 1) :: int) < 2 ^ sps_BitsForPOC s"
    unfolding and_mask_int' by simp
  moreover have "(2 :: int) ^ sps_BitsForPOC s \<le> 2 ^ 16" using assms(4) by (intro power_increasing) auto
  ultimately have lt: "m_iPOC s1 < MAX_INT" using infer_output_random(3) [OF o] assms(3) by auto
  obtain skp d2 k2 l2 where k: "isRandomAccessSkipPicture s1 d1 iSkipFrame iPOCLastDisplay = (skp, d2, k2, l2)"
    by (metis prod_cases4)
  have e: "s' = s1" "dec_pocRandomAccess d' = dec_pocRandomAccess d2" "dc = Skip \<longleftrightarrow> skp \<or> fst (isSkipPictureForBLA s1 d2 l2)"
    using assms(1) o k by (auto simp: decide_slice_def Let_def split: if_splits)
  have b: "fst (isSkipPictureForBLA s1 d2 l2) \<Longrightarrow> is_RASL (m_eNalUnitType s1)"
    by (auto simp: isSkipPictureForBLA_def split: if_splits)
  show "random_access_inv d' (if dc = Skip then tr else s' # tr)"
    using assms(2) e b k lt r(1)
    by (cases skp; cases "tr = []") (auto simp: random_access_inv_def isRandomAccessSkipPicture_def split: if_splits)
  then show "dc \<noteq> Skip \<Longrightarrow> dec_pocRandomAccess d' \<noteq> MAX_INT" by (auto simp: random_access_inv_def split: if_splits)
qed

lemma conceal_random:
  "conceal_lost_pictures g sps s d = Some d' \<Longrightarrow> dec_pocRandomAccess d \<noteq> MAX_INT
    \<Longrightarrow> dec_pocRandomAccess d' = dec_pocRandomAccess d"
proof (induction g sps s d arbitrary: d' rule: conceal_lost_pictures.induct)
  case (1 g sps s d)
  obtain n pics where c: "checkThatAllRefPicsAreAvailable s (m_pRPS s) (dec_pocRandomAccess d) False (dec_cListPic d) = Some (n, pics)"
    using 1(2) by (subst (asm) conceal_lost_pictures.simps) (auto split: option.splits)
  show ?case
  proof (cases "n > 0")
    case True
    then obtain d1 where d1: "xCreateLostPicture g sps (n - 1) (d\<lparr>dec_cListPic := pics\<rparr>) = Some d1"
      "conceal_lost_pictures g sps s d1 = Some d'"
      using 1(2) c by (subst (asm) conceal_lost_pictures.simps) (auto split: option.splits)
    from create_lost_keeps_pocs(2) [OF d1(1)] have "dec_pocRandomAccess d1 = dec_pocRandomAccess d" using 1(3) by simp
    with 1(1) [OF c refl refl True d1(1,2)] 1(3) show ?thesis by simp
  next
    case False
    then show ?thesis using 1(2) c by (subst (asm) conceal_lost_pictures.simps) auto
  qed
qed

lemma get_buffer_random: "xGetNewPicBuffer g sps t d = Some (i, d') \<Longrightarrow> dec_pocRandomAccess d' = dec_pocRandomAccess d"
  by (auto simp: xGetNewPicBuffer_def add_picture_def Let_def bind_eq_Some_conv split: if_splits option.splits)

lemma activate_random: "xActivateParameterSets g sps f s d = Some d' \<Longrightarrow> dec_pocRandomAccess d' = dec_pocRandomAccess d"
  by (auto simp: xActivateParameterSets_def Let_def bind_eq_Some_conv dest!: get_buffer_random split: if_splits)

lemma start_random: "start_slice t d = Some d' \<Longrightarrow> dec_pocRandomAccess d' = dec_pocRandomAccess d"
  by (auto simp: start_slice_def Let_def bind_eq_Some_conv)

lemma decode_picture_random:
  assumes "decode_picture_slice g sps0 sps f s d = Some d'" "dec_pocRandomAccess d \<noteq> MAX_INT"
  shows "dec_pocRandomAccess d' = dec_pocRandomAccess d"
proof -
  from assms(1) obtain d1 where c: "conceal_lost_pictures g sps0 s d = Some d1"
    by (auto simp: decode_picture_slice_def bind_eq_Some_conv)
  define e where "e = (if dec_bFirstSliceInPicture d1 then xUpdateRasInit s (d1\<lparr>dec_prevPOC := m_iPOC s\<rparr>) else (s, d1\<lparr>dec_prevPOC := m_iPOC s\<rparr>))"
  have "dec_pocRandomAccess (snd e) = dec_pocRandomAccess d1"
    by (simp add: e_def xUpdateRasInit_def Let_def)
  moreover from assms(1) c obtain d2 where "xActivateParameterSets g sps f (fst e) (snd e) = Some d2"
    "start_slice (m_uiTLayer (fst e)) (d2\<lparr>dec_bFirstSliceInSequence := False, dec_bFirstSliceInBitstream := False\<rparr>) = Some d'"
    by (auto simp: decode_picture_slice_def bind_eq_Some_conv Let_def e_def case_prod_beta)
  moreover note activate_random [OF this(1)] start_random [OF this(2)]
  ultimately show ?thesis using conceal_random [OF c assms(2)] by simp
qed

lemma random_access_cong:
  "dec_pocRandomAccess d' = dec_pocRandomAccess d \<Longrightarrow> random_access_inv d' tr = random_access_inv d tr"
  unfolding random_access_inv_def by (elim ssubst) (rule refl)

lemma decode_slice_keeps_inv:
  assumes "xDecodeSlice g sps0 sps f s d k l = Some (ret, d', k')" "random_access_inv d tr"
    and "m_iPOC s < MAX_INT" "sps_BitsForPOC s \<le> 16"
  shows "random_access_inv d' (accepted s d k l @ tr)"
proof -
  let ?d = "if dec_bFirstSliceInPicture d then d\<lparr>dec_uiSliceSegmentIdx := 0\<rparr> else d"
  obtain idx where i: "independent_idx ?d = Some idx" using assms(1) by (auto simp: xDecodeSlice_def Let_def bind_eq_Some_conv)
  obtain dc s1 d1 k1 where dd: "decide_slice (s\<lparr>m_independentSliceIdx := idx\<rparr>) ?d k l = (dc, s1, d1, k1)"
    by (metis prod_cases4)
  have "random_access_inv ?d tr" using assms(2) by (subst random_access_cong [of _ d]) simp_all
  note inv = decide_keeps_inv [OF dd this] 
  have ra: "dec_pocRandomAccess d' = dec_pocRandomAccess d1"
  proof (cases dc)
    case Decode
    then have "decode_picture_slice g sps0 sps f s1 d1 = Some d'"
      using assms(1) i dd by (auto simp: xDecodeSlice_def Let_def bind_eq_Some_conv)
    then show ?thesis using decode_picture_random inv(2) Decode assms(3,4) by auto
  qed (use assms(1) i dd in \<open>auto simp: xDecodeSlice_def Let_def\<close>)
  have "accepted s d k l @ tr = (if dc = Skip then tr else s1 # tr)"
    unfolding accepted_def Let_def i option.case dd prod.case by simp
  with inv(1) assms(3,4) random_access_cong [OF ra] show ?thesis by simp
qed

text \<open>
  The runs of the decoder: units of the stream, and the calls the application makes between them.  The
  second component lists the slices accepted since the start of the sequence.
\<close>

inductive decoding :: "decoder \<Rightarrow> slice list \<Rightarrow> bool" where
  Start: "decoding DecLib []"
| Unit: "decoding d tr \<Longrightarrow> m_eNalUnitType s = nalUnitType nal \<Longrightarrow> m_iPOC s < MAX_INT \<Longrightarrow> sps_BitsForPOC s \<le> 16
    \<Longrightarrow> decode g sps0 sps f nal s addr d k l = Some (ret, d', k')
    \<Longrightarrow> decoding d' (if nuhLayerId nal > 0 then tr else if nalUnitType nal = NAL_UNIT_EOS then []
          else if isSlice nal then accepted s d k l @ tr else tr)"
| Finish: "decoding d tr \<Longrightarrow> finishPicture d = Some (c, d') \<Longrightarrow> decoding d' tr"
| Prior: "decoding d tr \<Longrightarrow> decoding (checkNoOutputPriorPics d) tr"
| Output: "decoding d tr \<Longrightarrow> xWriteOutput t lim lastPOC (dec_cListPic d) = Some (pics, lastPOC', out)
    \<Longrightarrow> decoding (d\<lparr>dec_cListPic := pics\<rparr>) tr"
| Flush: "decoding d tr \<Longrightarrow> decoding (d\<lparr>dec_cListPic := fst (xFlushOutput lastPOC (dec_cListPic d))\<rparr>) tr"
| Flags: "decoding d tr \<Longrightarrow> decoding (d\<lparr>dec_bFirstSliceInPicture := b, dec_bFirstSliceInSequence := c,
    dec_isNoOutputPriorPics := e\<rparr>) tr"

lemma decoding_inv: "decoding d tr \<Longrightarrow> random_access_inv d tr"
proof (induction rule: decoding.induct)
  case Start
  show ?case by (simp add: random_access_inv_def DecLib_def)
next
  case (Unit d tr s nal g sps0 sps f addr k l ret d' k')
  show ?case
  proof (cases "isSlice nal \<and> nuhLayerId nal = 0")
    case True
    then have "nalUnitType nal \<noteq> NAL_UNIT_EOS" by (auto simp: isSlice_def)
    moreover have "xDecodeSlice g sps0 sps f s d k l = Some (ret, d', k')" using Unit.hyps(5) True by (simp add: decode_def)
    ultimately show ?thesis using decode_slice_keeps_inv Unit True by simp
  next
    case False
    show ?thesis
    proof (cases "nuhLayerId nal = 0 \<and> nalUnitType nal = NAL_UNIT_EOS")
      case True
      then have "d' = end_of_sequence d" using Unit.hyps(5) False by (simp add: decode_def)
      then show ?thesis using True by (simp add: random_access_inv_def end_of_sequence_def)
    next
      case other: False
      have ra: "dec_pocRandomAccess d' = dec_pocRandomAccess d"
        using Unit.hyps(5) False other
        by (auto simp: decode_def xParsePrefixSEIsForUnknownVCLNal_def bind_eq_Some_conv split: if_splits)
      have "(if nuhLayerId nal > 0 then tr else if nalUnitType nal = NAL_UNIT_EOS then []
          else if isSlice nal then accepted s d k l @ tr else tr) = tr"
        using False other by auto
      then show ?thesis using Unit.IH random_access_cong [OF ra] by simp
    qed
  qed
next
  case (Finish d tr c d')
  then have "dec_pocRandomAccess d' = dec_pocRandomAccess d"
    by (auto simp: finishPicture_def finishPictureLight_def bind_eq_Some_conv)
  from random_access_cong [OF this] Finish.IH show ?case by simp
next
  case (Prior d tr)
  have "dec_pocRandomAccess (checkNoOutputPriorPics d) = dec_pocRandomAccess d" by (simp add: checkNoOutputPriorPics_def)
  from random_access_cong [OF this] Prior.IH show ?case by simp
next
  case (Output d tr t lim lastPOC pics lastPOC' out)
  have "dec_pocRandomAccess (d\<lparr>dec_cListPic := pics\<rparr>) = dec_pocRandomAccess d" by simp
  from random_access_cong [OF this] Output.IH show ?case by blast
next
  case (Flush d tr lastPOC)
  have "dec_pocRandomAccess (d\<lparr>dec_cListPic := fst (xFlushOutput lastPOC (dec_cListPic d))\<rparr>) = dec_pocRandomAccess d" by simp
  from random_access_cong [OF this] Flush.IH show ?case by blast
next
  case (Flags d tr e c b)
  have "dec_pocRandomAccess (d\<lparr>dec_bFirstSliceInPicture := b, dec_bFirstSliceInSequence := c,
    dec_isNoOutputPriorPics := e\<rparr>) = dec_pocRandomAccess d" by simp
  from random_access_cong [OF this] Flags.IH show ?case by blast
qed

section \<open>A slice of the current picture\<close>

text \<open>The members that the concealment and the start of a slice leave alone.\<close>

lemma relabels_more: "list_all2 relabels a b \<Longrightarrow> list_all2 relabels a (upd_pic q (\<lambda>p. p\<lparr>longTerm := c\<rparr>) b)"
  by (rule relabels_trans [OF _ relabels_upd])

lemma setRefPicList_frame:
  assumes "setRefPicList s a b pics = Some (s', pics')"
  shows "list_all2 relabels pics pics' \<and> m_iPOC s' = m_iPOC s"
proof -
  have st: "list_all2 relabels (fst x) (fst x')" if "for_loop (gather_st q) is x = Some x'" for q "is" x x'
  proof (rule for_loop_inv [OF _ that, where I = "\<lambda>y. list_all2 relabels (fst x) (fst y)"])
    fix i y y'
    assume "list_all2 relabels (fst x) (fst y)" "gather_st q i y = Some y'"
    then show "list_all2 relabels (fst x) (fst y')"
      by (cases y) (auto simp: gather_st_def Let_def bind_eq_Some_conv intro!: relabels_more split: if_splits)
  qed (rule relabels_refl)
  have lt: "list_all2 relabels (fst x) (fst x')" if "for_loop (gather_lt q) is x = Some x'" for q "is" x x'
  proof (rule for_loop_inv [OF _ that, where I = "\<lambda>y. list_all2 relabels (fst x) (fst y)"])
    fix i y y'
    assume "list_all2 relabels (fst x) (fst y)" "gather_lt q i y = Some y'"
    then show "list_all2 relabels (fst x) (fst y')"
      by (cases y) (auto simp: gather_lt_def Let_def bind_eq_Some_conv intro!: relabels_more split: if_splits)
  qed (rule relabels_refl)
  have ibc: "list_all2 relabels a b" if "list_all2 relabels a z" "z = b \<or> b = upd_pic q (\<lambda>p. p\<lparr>longTerm := True\<rparr>) z" for a z b q
    using that relabels_trans relabels_upd by blast
  have poc: "m_iPOC y' = m_iPOC y" if "build_lists y b st0 st1 lts = Some y'" for y y' b st0 st1 lts
    using that by (auto simp: build_lists_def Let_def bind_eq_Some_conv)
  define s1 where "s1 = (if m_eSliceType s = I_SLICE
    then s\<lparr>m_apcRefPicList := (replicate (MAX_NUM_REF + 1) None, replicate (MAX_NUM_REF + 1) None), m_aiNumRefIdx := (0, 0)\<rparr> else s)"
  have e: "m_iPOC s1 = m_iPOC s" by (simp add: s1_def)
  note r0 = assms [unfolded setRefPicList_def Let_def, folded s1_def]
  show ?thesis
  proof (cases "m_eSliceType s1 = I_SLICE \<and> \<not> a")
    case True
    then show ?thesis using r0 e by (auto simp: relabels_refl)
  next
    case False
    let ?neg = "numberOfNegativePictures (m_pRPS s1)" and ?pos = "numberOfPositivePictures (m_pRPS s1)"
    from r0 False obtain x1 x2 x3 pics4 lts4 where
      l: "for_loop (gather_st s1) [0..?neg - 1] (pics, [], None) = Some x1"
        "for_loop (gather_st s1) [max 0 ?neg..?neg + ?pos - 1] (fst x1, [], snd (snd x1)) = Some x2"
        "for_loop (gather_lt s1) (rev [?neg + ?pos..?neg + ?pos + numberOfLongtermPictures (m_pRPS s1) - 1]) (fst x2, [], snd (snd x2)) = Some x3"
      and i: "fst x3 = pics4 \<or> pics4 = upd_pic (m_pcPic s1) (\<lambda>p. p\<lparr>longTerm := True\<rparr>) (fst x3)"
      and r: "pics' = pics4" "s' = s1 \<or> (\<exists>st0 st1. build_lists s1 b st0 st1 lts4 = Some s')"
      by (fastforce simp: bind_eq_Some_conv case_prod_beta split: if_splits)
    have "list_all2 relabels pics (fst x3)"
      using st [OF l(1)] st [OF l(2)] lt [OF l(3)] by (auto intro: relabels_trans)
    then have "list_all2 relabels pics pics'" unfolding r(1) using i by (rule ibc)
    with r(2) poc e show ?thesis by auto
  qed
qed

lemma get_pic_upd: "(\<And>q. pic_id (f q) = pic_id q) \<Longrightarrow> get_pic (upd_pic i f pics) j
    = map_option (\<lambda>p. if j = i then f p else p) (get_pic pics j)"
  by (induction pics) (auto simp: get_pic_def upd_pic_def)

lemma get_pic_relabels:
  "list_all2 relabels pics pics' \<Longrightarrow> get_pic pics i = Some p \<Longrightarrow> \<exists>p'. get_pic pics' i = Some p' \<and> relabels p p'"
  by (induction rule: list_all2_induct) (auto simp: get_pic_def relabels_def split: if_splits)

lemma ids_upd: "(\<And>q. pic_id (f q) = pic_id q) \<Longrightarrow> map pic_id (upd_pic i f pics) = map pic_id pics"
  by (simp add: upd_pic_def)

lemma ids_relabeled: "list_all2 relabels pics pics' \<Longrightarrow> map pic_id pics' = map pic_id pics"
  by (induction rule: list_all2_induct) (auto simp: relabels_def)

lemma ids_marked: "list_all2 marks_more pics pics' \<Longrightarrow> map pic_id pics' = map pic_id pics"
  by (induction rule: list_all2_induct) (auto simp: marks_more_def)

lemma get_buffer_frame:
  assumes "xGetNewPicBuffer g sps t d = Some (i, d')"
  shows "dec_pcPic d' = dec_pcPic d \<and> dec_uiSliceSegmentIdx d' = dec_uiSliceSegmentIdx d
    \<and> dec_bFirstSliceInPicture d' = dec_bFirstSliceInPicture d"
  using assms by (auto simp: xGetNewPicBuffer_def add_picture_def Let_def bind_eq_Some_conv split: if_splits option.splits)

lemma update_tid0_frame [simp]:
  "dec_pcPic (xUpdatePreviousTid0POC s d) = dec_pcPic d" "dec_uiSliceSegmentIdx (xUpdatePreviousTid0POC s d) = dec_uiSliceSegmentIdx d"
  "dec_bFirstSliceInPicture (xUpdatePreviousTid0POC s d) = dec_bFirstSliceInPicture d"
  "dec_cListPic (xUpdatePreviousTid0POC s d) = dec_cListPic d" "dec_prevPOC (xUpdatePreviousTid0POC s d) = dec_prevPOC d"
  by (simp_all add: xUpdatePreviousTid0POC_def)

lemma create_lost_frame:
  assumes "xCreateLostPicture g sps c d = Some d'"
  shows "map pic_id (dec_cListPic d') = map pic_id (dec_cListPic d) \<and> dec_pcPic d' = dec_pcPic d
    \<and> dec_uiSliceSegmentIdx d' = dec_uiSliceSegmentIdx d \<and> dec_bFirstSliceInPicture d' = dec_bFirstSliceInPicture d"
proof -
  have "dec_pcPic d' = dec_pcPic d \<and> dec_uiSliceSegmentIdx d' = dec_uiSliceSegmentIdx d
    \<and> dec_bFirstSliceInPicture d' = dec_bFirstSliceInPicture d"
    using assms by (auto simp: xCreateLostPicture_def Let_def bind_eq_Some_conv dest!: get_buffer_frame split: if_splits)
  moreover obtain p f where f: "List.find reusable (dec_cListPic d) = Some p" "dec_cListPic d' = upd_pic (pic_id p) f (dec_cListPic d)"
    "\<forall>q. neededForOutput (f q) \<and> reconstructed (f q) \<and> referenced (f q)"
    "\<forall>q. poc (f q) = poc q \<and> pic_id (f q) = pic_id q"
    "dec_pocRandomAccess d \<noteq> MAX_INT \<longrightarrow> dec_pocRandomAccess d' = dec_pocRandomAccess d"
    by (rule create_lost_cases [OF assms])
  ultimately show ?thesis by (simp add: ids_upd)
qed

lemma conceal_frame:
  "conceal_lost_pictures g sps s d = Some d' \<Longrightarrow> map pic_id (dec_cListPic d') = map pic_id (dec_cListPic d) \<and> dec_pcPic d' = dec_pcPic d
    \<and> dec_uiSliceSegmentIdx d' = dec_uiSliceSegmentIdx d \<and> dec_bFirstSliceInPicture d' = dec_bFirstSliceInPicture d"
proof (induction g sps s d arbitrary: d' rule: conceal_lost_pictures.induct)
  case (1 g sps s d)
  obtain n pics where c: "checkThatAllRefPicsAreAvailable s (m_pRPS s) (dec_pocRandomAccess d) False (dec_cListPic d) = Some (n, pics)"
    using 1(2) by (subst (asm) conceal_lost_pictures.simps) (auto split: option.splits)
  note same = ids_marked [OF check_same [OF c]]
  show ?case
  proof (cases "n > 0")
    case True
    then obtain d1 where d1: "xCreateLostPicture g sps (n - 1) (d\<lparr>dec_cListPic := pics\<rparr>) = Some d1"
      "conceal_lost_pictures g sps s d1 = Some d'"
      using 1(2) c by (subst (asm) conceal_lost_pictures.simps) (auto split: option.splits)
    from create_lost_frame [OF d1(1)] 1(1) [OF c refl refl True d1(1,2)] same show ?thesis by simp
  next
    case False
    then show ?thesis using 1(2) c same by (subst (asm) conceal_lost_pictures.simps) auto
  qed
qed

lemma start_slice_frame:
  assumes "start_slice t d = Some d'" "dec_pcPic d = Some i" "get_pic (dec_cListPic d) i = Some p"
    and "dec_uiSliceSegmentIdx d < length (pic_slices p)"
  shows "map pic_id (dec_cListPic d') = map pic_id (dec_cListPic d) \<and> dec_pcPic d' = Some i \<and> \<not> dec_bFirstSliceInPicture d'
    \<and> dec_uiSliceSegmentIdx d' = dec_uiSliceSegmentIdx d + 1
    \<and> (\<exists>p'. get_pic (dec_cListPic d') i = Some p' \<and> length (pic_slices p') = length (pic_slices p)
         \<and> poc p' = m_iPOC (pic_slices p ! dec_uiSliceSegmentIdx d))"
proof -
  let ?s = "(pic_slices p ! dec_uiSliceSegmentIdx d)\<lparr>m_pcPic := i\<rparr>"
  let ?f = "\<lambda>p. p\<lparr>poc := m_iPOC ?s, layer := t, referenced := True\<rparr>"
  let ?pics = "upd_pic i ?f (dec_cListPic d)"
  obtain s' pics' s'' c a where r: "setRefPicList ?s True True ?pics = Some (s', pics')"
    and d': "d' = d\<lparr>dec_pocCRA := c, dec_associatedIRAPType := a, dec_bFirstSliceInPicture := False,
       dec_cListPic := upd_pic i (\<lambda>p. p\<lparr>pic_slices := (pic_slices p)[dec_uiSliceSegmentIdx d := s''],
         longTerm := longTerm p \<and> \<not> sps_IBCMode s''\<rparr>) pics', dec_uiSliceSegmentIdx := dec_uiSliceSegmentIdx d + 1\<rparr>"
    using assms by (auto simp: start_slice_def Let_def bind_eq_Some_conv arr_get_def intro: that)
  note f = setRefPicList_frame [OF r]
  let ?g = "\<lambda>p. p\<lparr>pic_slices := (pic_slices p)[dec_uiSliceSegmentIdx d := s''], longTerm := longTerm p \<and> \<not> sps_IBCMode s''\<rparr>"
  have l: "dec_cListPic d' = upd_pic i ?g pics'" unfolding d' by simp
  have ids: "map pic_id (dec_cListPic d') = map pic_id (dec_cListPic d)"
    unfolding l by (simp add: ids_upd ids_relabeled [OF conjunct1 [OF f]])
  have "get_pic ?pics i = Some (?f p)" using assms(3) by (simp add: get_pic_upd)
  from get_pic_relabels [OF conjunct1 [OF f] this] obtain q where q: "get_pic pics' i = Some q" "relabels (?f p) q" by blast
  have "get_pic (dec_cListPic d') i = Some (?g q)" unfolding l using q(1) by (simp add: get_pic_upd)
  moreover have "poc q = m_iPOC (pic_slices p ! dec_uiSliceSegmentIdx d)" "pic_slices q = pic_slices p"
    using q(2) by (auto simp: relabels_def)
  ultimately show ?thesis using ids d' assms(2) by auto
qed

text \<open>What becomes of a slice that is neither skipped nor a random access one.\<close>

lemma decide_ordinary:
  assumes "\<not> getRapPicFlag s" "\<not> is_RASL (m_eNalUnitType s)" "dec_pocRandomAccess d \<noteq> MAX_INT"
    and "m_sliceCurStartCtuTsAddr s = 0" "\<not> dec_bFirstSliceInPicture d"
  shows "\<exists>s' d'. decide_slice s d 0 iPOCLastDisplay = (if dec_prevPOC d \<ge> dec_pocRandomAccess d then NewPicture else Decode, s', d', 0)
    \<and> m_iPOC s' = m_iPOC s \<and> dec_cListPic d' = dec_cListPic d \<and> dec_pcPic d' = dec_pcPic d
    \<and> dec_uiSliceSegmentIdx d' = dec_uiSliceSegmentIdx d \<and> \<not> dec_bFirstSliceInPicture d'"
proof -
  have cra: "m_eNalUnitType s \<noteq> NAL_UNIT_CODED_SLICE_CRA" using assms(1) by (auto simp: getRapPicFlag_def)
  let ?s = "s\<lparr>m_iAssociatedIRAP := dec_pocCRA (xUpdatePreviousTid0POC s d), m_iAssociatedIRAPType := dec_associatedIRAPType (xUpdatePreviousTid0POC s d)\<rparr>"
  have rap: "\<not> getRapPicFlag ?s" using assms(1) by (simp add: getRapPicFlag_def)
  have i: "infer_output_flags ?s e = (?s, e\<lparr>dec_isNoOutputPriorPics := False\<rparr>)" for e
    using rap assms(2) cra by (simp add: infer_output_flags_def infer_rap_flags_def)
  show ?thesis unfolding decide_slice_def Let_def i prod.case using assms
    by (simp add: isRandomAccessSkipPicture_def isSkipPictureForBLA_def)
qed

section \<open>Properties\<close>

text \<open>
  C18. Random access.  In every run of the decoder, the first slice that is not skipped after the start or an
  end of sequence unit is that of a CRA, BLA or IDR picture, and when it is not IDR, every RASL slice
  accepted later has a POC not below that of the first.  The doc comment of \<open>isRandomAccessSkipPicture\<close> says that at any other
  picture a warning is issued and decoding is attempted; the code discards every slice until the first CRA, BLA or IDR
  picture, as the text of its warning says.
\<close>

theorem random_access_decoding:
  assumes "decoding d tr" "tr \<noteq> []"
  shows "is_random_access (last tr)
    \<and> (\<not> is_IDR (m_eNalUnitType (last tr)) \<longrightarrow>
        (\<forall>s\<in>set tr. is_RASL (m_eNalUnitType s) \<longrightarrow> m_iPOC (last tr) \<le> m_iPOC s))"
  using decoding_inv [OF assms(1)] assms(2)
  by (cases "is_IDR (m_eNalUnitType (last tr))") (auto simp: random_access_inv_def)

text \<open>
  C21. A lost short-term picture that the slice uses is not concealed, when its POC is that of no picture of the
  buffer, in use or free, and is not before the random access point, and the pictures of the set have no negative POC:
  the loop that should insert it ends in an exception, because \<open>xCreateLostPicture\<close> gives the POC to a slice
  of the new picture and not to the picture.  A free picture of that POC that is taken for the lost one would end the loop; long-term
  pictures are not covered.
\<close>

theorem lost_picture_aborts:
  assumes "rps_in_bounds (m_pRPS s)"
    "numberOfNegativePictures (m_pRPS s) + numberOfPositivePictures (m_pRPS s) \<le> numberOfPictures (m_pRPS s)"
    "\<forall>j<nat (numberOfPictures (m_pRPS s)). m_iPOC s + deltaPOC (m_pRPS s) ! j \<ge> 0"
    "i < nat (numberOfNegativePictures (m_pRPS s) + numberOfPositivePictures (m_pRPS s))" "used (m_pRPS s) ! i"
    "m_iPOC s + deltaPOC (m_pRPS s) ! i \<ge> dec_pocRandomAccess d" "dec_pocRandomAccess d \<noteq> MAX_INT"
    "\<forall>p\<in>set (dec_cListPic d). poc p \<noteq> m_iPOC s + deltaPOC (m_pRPS s) ! i"
  shows "conceal_lost_pictures g sps s d = None"
  using assms
proof (induction g sps s d rule: conceal_lost_pictures.induct)
  case (1 g sps s d)
  show ?case
  proof (cases "checkThatAllRefPicsAreAvailable s (m_pRPS s) (dec_pocRandomAccess d) False (dec_cListPic d)")
    case None
    then show ?thesis by (subst conceal_lost_pictures.simps) simp
  next
    case (Some a)
    then obtain n pics where c: "checkThatAllRefPicsAreAvailable s (m_pRPS s) (dec_pocRandomAccess d) False (dec_cListPic d) = Some (n, pics)"
      by (cases a) simp
    note l = check_lost [OF 1(2) c 1(3,4,5,6,7,9)]
    show ?thesis
    proof (cases "xCreateLostPicture g sps (n - 1) (d\<lparr>dec_cListPic := pics\<rparr>)")
      case None
      then show ?thesis using c l(1) by (subst conceal_lost_pictures.simps) simp
    next
      case (Some d1)
      have f: "poc ` set (dec_cListPic d1) = poc ` set pics" "dec_pocRandomAccess d1 = dec_pocRandomAccess d"
        using create_lost_keeps_pocs [OF Some] 1(8) by simp_all
      have "\<forall>p\<in>set (dec_cListPic d1). poc p \<noteq> m_iPOC s + deltaPOC (m_pRPS s) ! i"
        using l(2) f(1) by (metis imageE imageI)
      then have "conceal_lost_pictures g sps s d1 = None"
        using 1(1) [OF c refl refl l(1) Some 1(2,3,4,5,6)] 1(7,8) f(2) by simp
      then show ?thesis using c l(1) Some by (subst conceal_lost_pictures.simps) simp
    qed
  qed
qed

definition example_decoder :: decoder where
  "example_decoder = DecLib\<lparr>dec_pocRandomAccess := 0, dec_cListPic := [example_pic 1 7, (example_pic 2 3)\<lparr>referenced := False\<rparr>]\<rparr>"

theorem lost_picture_aborts_witness:
  "conceal_lost_pictures 5 ([4], (64, 64, 64, 64)) (example_slice\<lparr>m_pRPS := example_ref\<lparr>used := replicate 16 True\<rparr>\<rparr>) example_decoder = None"
proof (rule lost_picture_aborts [of _ 1])
  have "\<forall>j\<in>{0,1,2}. m_iPOC example_slice + deltaPOC example_ref ! j \<ge> 0" by (simp add: example_slice_def example_ref_def)
  then show "\<forall>j<nat (numberOfPictures (m_pRPS (example_slice\<lparr>m_pRPS := example_ref\<lparr>used := replicate 16 True\<rparr>\<rparr>))).
      0 \<le> m_iPOC (example_slice\<lparr>m_pRPS := example_ref\<lparr>used := replicate 16 True\<rparr>\<rparr>)
        + deltaPOC (m_pRPS (example_slice\<lparr>m_pRPS := example_ref\<lparr>used := replicate 16 True\<rparr>\<rparr>)) ! j"
    by (auto simp: example_ref_def less_Suc_eq numeral_3_eq_3 numeral_2_eq_2)
qed (simp_all add: example_ref_def example_slice_def example_decoder_def DecLib_def example_pic_def rps_in_bounds_def
    rps_wf_def ReferencePictureSet_def MAX_NUM_REF_PICS_def)

definition example_rap :: "nat \<Rightarrow> int \<Rightarrow> slice" where
  "example_rap t c = example_slice\<lparr>m_eNalUnitType := t, m_iPOC := c, m_eSliceType := I_SLICE, m_pRPS := ReferencePictureSet\<rparr>"

abbreviation example_decode :: "slice \<Rightarrow> decoder \<Rightarrow> (bool \<times> decoder \<times> int) option" where
  "example_decode s d \<equiv> decode 5 ([4], (64, 64, 64, 64)) ([4], (64, 64, 64, 64)) False
     \<lparr>nalUnitType = m_eNalUnitType s, temporalId = 0, nuhLayerId = 0\<rparr> s 0 d 0 0"

theorem random_access_decoding_witness:
  "\<exists>d. decoding d (accepted (example_rap 21 8) DecLib 0 0)
    \<and> (\<forall>s\<in>set (accepted (example_rap 21 8) DecLib 0 0). is_RASL (m_eNalUnitType s)
         \<longrightarrow> m_iPOC (last (accepted (example_rap 21 8) DecLib 0 0)) \<le> m_iPOC s)"
proof -
  have "map_option fst (example_decode (example_rap 21 8) DecLib) = Some False" by code_simp
  then obtain d k where d: "example_decode (example_rap 21 8) DecLib = Some (False, d, k)" by auto
  have t: "map m_eNalUnitType (accepted (example_rap 21 8) DecLib 0 0) = [21]" by code_simp
  have "decoding d (accepted (example_rap 21 8) DecLib 0 0 @ [])"
    using decoding.Unit [OF decoding.Start _ _ _ d] by (simp add: example_rap_def example_slice_def isSlice_def)
  then have r: "decoding d (accepted (example_rap 21 8) DecLib 0 0)" by simp
  have ne: "accepted (example_rap 21 8) DecLib 0 0 \<noteq> []" using t by auto
  have "m_eNalUnitType (last (accepted (example_rap 21 8) DecLib 0 0)) = 21"
    using arg_cong [OF t, of last] ne by (simp add: last_map)
  with random_access_decoding [OF r ne] r show ?thesis by auto
qed

text \<open>
  C20. The buffer that \<open>xGetNewPicBuffer\<close> returns is no picture that waits for output or that is both
  reconstructed and a reference; no other picture changes, and the list grows beyond the size of the
  sequence parameter set only when every buffer in it is in use.
\<close>

theorem buffer_not_in_use:
  assumes "xGetNewPicBuffer g sps t d = Some (i, d')" "distinct (map pic_id (dec_cListPic d))"
  shows "(\<exists>p. get_pic (dec_cListPic d') i = Some p \<and> \<not> reconstructed p \<and> \<not> neededForOutput p)
    \<and> (\<forall>p\<in>set (dec_cListPic d). pic_id p = i \<longrightarrow> \<not> neededForOutput p \<and> \<not> (reconstructed p \<and> referenced p))
    \<and> filter (\<lambda>p. pic_id p \<noteq> i) (dec_cListPic d') = filter (\<lambda>p. pic_id p \<noteq> i) (dec_cListPic d)
    \<and> (length (dec_cListPic d') > length (dec_cListPic d) \<longrightarrow>
        length (dec_cListPic d) < fst sps ! t \<or> (\<forall>p\<in>set (dec_cListPic d). \<not> reusable p))"
proof -
  let ?pics = "dec_cListPic d"
  obtain m where m: "arr_get (fst sps) t = Some m" "m = fst sps ! t"
    using assms(1) by (auto simp: xGetNewPicBuffer_def arr_get_def bind_eq_Some_conv split: if_splits)
  show ?thesis
  proof (cases "length ?pics < m \<or> List.find reusable ?pics = None")
    case True
    then have e: "add_picture g (snd sps) d = (i, d')"
      using assms(1) m(1) by (auto simp: xGetNewPicBuffer_def split: if_splits)
    then have i: "i = fresh_id ?pics" "dec_cListPic d' = ?pics @ [new_picture i g (snd sps)]"
      by (auto simp: add_picture_def Let_def)
    have f: "\<forall>p\<in>set ?pics. pic_id p \<noteq> i" using fresh_id_fresh [of _ ?pics] i(1) by fastforce
    then have "get_pic (dec_cListPic d') i = Some (new_picture i g (snd sps))"
      by (simp add: i(2) get_pic_append) (simp add: get_pic_def new_picture_def)
    with f True m(2) i(2) show ?thesis by (auto simp: new_picture_def find_None_iff filter_empty_conv)
  next
    case False
    then obtain p where p: "List.find reusable ?pics = Some p" by auto
    with False assms(1) m(1) have i: "i = pic_id p" "dec_cListPic d' = upd_pic i (reuse (snd sps)) ?pics"
      by (auto simp: xGetNewPicBuffer_def)
    from p have r: "p \<in> set ?pics" "reusable p" by (auto simp: find_Some_iff)
    have u: "q = p" if "q \<in> set ?pics" "pic_id q = i" for q
      using that r(1) i(1) assms(2) by (metis (no_types) distinct_map inj_onD)
    have k: "pic_id (reuse (snd sps) q) = pic_id q" for q by (simp add: reuse_def)
    have "get_pic (upd_pic (pic_id p) (reuse (snd sps)) qs) (pic_id p) = Some (reuse (snd sps) q) \<and> pic_id q = pic_id p"
      if "get_pic qs (pic_id p) = Some q" for qs q
      using that by (induction qs) (auto simp: get_pic_def upd_pic_def k split: if_splits)
    moreover obtain q where "get_pic ?pics (pic_id p) = Some q"
      using r(1) by (cases "get_pic ?pics (pic_id p)") (auto simp: get_pic_def find_None_iff)
    ultimately have "\<exists>q. get_pic (dec_cListPic d') i = Some (reuse (snd sps) q)" using i by auto
    moreover have "filter (\<lambda>p. pic_id p \<noteq> i) (upd_pic i (reuse (snd sps)) qs) = filter (\<lambda>p. pic_id p \<noteq> i) qs" for qs
      by (induction qs) (auto simp: upd_pic_def k)
    ultimately show ?thesis using u r(2) i(2) by (auto simp: reuse_def reusable_def upd_pic_def)
  qed
qed

theorem buffer_not_in_use_witness:
  "\<exists>i d'. xGetNewPicBuffer 5 ([2], (64, 64, 64, 64)) 0 example_decoder = Some (i, d')
    \<and> (\<exists>p. get_pic (dec_cListPic d') i = Some p \<and> \<not> reconstructed p \<and> \<not> neededForOutput p)"
proof -
  have "map_option fst (xGetNewPicBuffer 5 ([2], (64, 64, 64, 64)) 0 example_decoder) = Some 2" by code_simp
  then obtain d' where d: "xGetNewPicBuffer 5 ([2], (64, 64, 64, 64)) 0 example_decoder = Some (2, d')" by auto
  have "distinct (map pic_id (dec_cListPic example_decoder))" by (simp add: example_decoder_def example_pic_def)
  from buffer_not_in_use [OF d this] d show ?thesis by blast
qed

text \<open>
  C36. Leading pictures of a random access point are merged.  A slice with address 0 that is neither a random access nor a RASL one
  and comes while a picture is being decoded is recognised as the first of a new picture exactly when the POC of the previous slice is not
  before the random access point.  Otherwise, as after a RADL picture of a CRA or BLA random access point, the slice is added to the picture
  being decoded, which takes its POC; no buffer is taken for it, and the picture before is never finished.
\<close>

theorem radl_pictures_merged:
  assumes "decode g sps0 sps isField nal s addr d 0 lastPOC = Some (newPicture, d', iSkipFrame)" "nuhLayerId nal = 0" "isSlice nal"
    and "\<not> getRapPicFlag s" "\<not> is_RASL (m_eNalUnitType s)" "m_sliceCurStartCtuTsAddr s = 0"
    and "\<not> dec_bFirstSliceInPicture d" "dec_pocRandomAccess d \<noteq> MAX_INT"
  shows "(newPicture \<longleftrightarrow> dec_prevPOC d \<ge> dec_pocRandomAccess d)
    \<and> (\<not> newPicture \<longrightarrow> (\<exists>i p. dec_pcPic d = Some i \<and> dec_pcPic d' = Some i
         \<and> map pic_id (dec_cListPic d') = map pic_id (dec_cListPic d) \<and> get_pic (dec_cListPic d') i = Some p \<and> poc p = m_iPOC s
         \<and> length (pic_slices p) = dec_uiSliceSegmentIdx d + 1 \<and> dec_uiSliceSegmentIdx d' = dec_uiSliceSegmentIdx d + 1
         \<and> \<not> dec_bFirstSliceInPicture d'))"
proof -
  from assms(1-3,7) obtain idx where idx: "independent_idx d = Some idx"
    by (auto simp: decode_def xDecodeSlice_def bind_eq_Some_conv)
  let ?s = "s\<lparr>m_independentSliceIdx := idx\<rparr>"
  have "\<not> getRapPicFlag ?s" "\<not> is_RASL (m_eNalUnitType ?s)" "m_sliceCurStartCtuTsAddr ?s = 0"
    using assms(4-6) by (simp_all add: getRapPicFlag_def)
  from decide_ordinary [OF this(1,2) assms(8) this(3) assms(7), of lastPOC] obtain s1 d1 where
    dec: "decide_slice ?s d 0 lastPOC = (if dec_prevPOC d \<ge> dec_pocRandomAccess d then NewPicture else Decode, s1, d1, 0)"
    and k: "m_iPOC s1 = m_iPOC s" "dec_cListPic d1 = dec_cListPic d" "dec_pcPic d1 = dec_pcPic d"
      "dec_uiSliceSegmentIdx d1 = dec_uiSliceSegmentIdx d" "\<not> dec_bFirstSliceInPicture d1"
    by auto
  show ?thesis
  proof (cases "dec_prevPOC d \<ge> dec_pocRandomAccess d")
    case True
    then show ?thesis using assms(1-3,7) idx dec by (simp add: decode_def xDecodeSlice_def)
  next
    case False
    then have r: "decode_picture_slice g sps0 sps isField s1 d1 = Some d'" "\<not> newPicture"
      using assms(1-3,7) idx dec by (auto simp: decode_def xDecodeSlice_def bind_eq_Some_conv)
    then obtain d2 d3 where c: "conceal_lost_pictures g sps0 s1 d1 = Some d2"
      and a: "xActivateParameterSets g sps isField s1 (d2\<lparr>dec_prevPOC := m_iPOC s1\<rparr>) = Some d3"
      and t: "start_slice (m_uiTLayer s1) (d3\<lparr>dec_bFirstSliceInSequence := False, dec_bFirstSliceInBitstream := False\<rparr>) = Some d'"
      using k(5) conceal_frame by (fastforce simp: decode_picture_slice_def bind_eq_Some_conv Let_def)
    note f = conceal_frame [OF c]
    obtain i q where q: "dec_pcPic d2 = Some i" "get_pic (dec_cListPic d2) i = Some q" "length (pic_slices q) = dec_uiSliceSegmentIdx d2"
      "d3 = d2\<lparr>dec_prevPOC := m_iPOC s1, dec_prefixSEINALUs := [], dec_cListPic := upd_pic i (\<lambda>p. p\<lparr>pic_slices := pic_slices p @ [s1],
        pic_BitsForPOC := sps_BitsForPOC s1\<rparr>) (dec_cListPic d2)\<rparr>"
      using a f k(5) by (auto simp: xActivateParameterSets_def bind_eq_Some_conv)
    let ?e = "d3\<lparr>dec_bFirstSliceInSequence := False, dec_bFirstSliceInBitstream := False\<rparr>"
    let ?q = "q\<lparr>pic_slices := pic_slices q @ [s1], pic_BitsForPOC := sps_BitsForPOC s1\<rparr>"
    have e: "dec_pcPic ?e = Some i" "get_pic (dec_cListPic ?e) i = Some ?q" "dec_uiSliceSegmentIdx ?e < length (pic_slices ?q)"
      "dec_uiSliceSegmentIdx ?e = dec_uiSliceSegmentIdx d" "map pic_id (dec_cListPic ?e) = map pic_id (dec_cListPic d)"
      using q f k by (simp_all add: get_pic_upd ids_upd)
    have at: "dec_uiSliceSegmentIdx ?e = length (pic_slices q)" using q(3,4) by simp
    have new: "pic_slices ?q ! dec_uiSliceSegmentIdx ?e = s1" unfolding at by simp
    have "dec_pcPic d = Some i" using q(1) f k(3) by simp
    moreover have "length (pic_slices ?q) = dec_uiSliceSegmentIdx d + 1" using at e(4) by simp
    moreover note start_slice_frame [OF t e(1-3), unfolded new, unfolded e(4,5) k(1)]
    ultimately show ?thesis using False r(2) by auto
  qed
qed

definition example_radl :: decoder where
  "example_radl = the (do { (_, d, _) \<leftarrow> example_decode (example_rap 21 8) DecLib;
     (_, d, _) \<leftarrow> example_decode (example_rap 7 6) d;
     (_, d) \<leftarrow> finishPicture d;
     (_, d, _) \<leftarrow> example_decode (example_rap 7 6) d;
     Some d })"

theorem radl_pictures_merged_witness:
  "\<exists>d'. example_decode (example_rap 7 7) example_radl = Some (False, d', 0) \<and> (\<exists>i p. dec_pcPic example_radl = Some i \<and> dec_pcPic d' = Some i
     \<and> get_pic (dec_cListPic d') i = Some p \<and> poc p = 7 \<and> length (pic_slices p) = 2)"
proof -
  have "map_option (\<lambda>(b, d, k). (b, k)) (example_decode (example_rap 7 7) example_radl) = Some (False, 0)" by code_simp
  then obtain d' where d: "example_decode (example_rap 7 7) example_radl = Some (False, d', 0)" by auto
  have st: "\<not> dec_bFirstSliceInPicture example_radl" "dec_pocRandomAccess example_radl = 8" "dec_uiSliceSegmentIdx example_radl = 1" by code_simp+
  have s: "\<not> getRapPicFlag (example_rap 7 7)" "\<not> is_RASL (m_eNalUnitType (example_rap 7 7))" "m_sliceCurStartCtuTsAddr (example_rap 7 7) = 0"
    "m_iPOC (example_rap 7 7) = 7" by code_simp+
  have n: "isSlice \<lparr>nalUnitType = m_eNalUnitType (example_rap 7 7), temporalId = 0, nuhLayerId = 0\<rparr>" by code_simp
  from radl_pictures_merged [OF d _ n s(1-3) st(1)] st(2,3) s(4) d show ?thesis by auto
qed

text \<open>
  A prefix SEI unit followed by a unit of a reserved VCL type makes the decoder delete the SEI unit twice:
  the call is defined only when no prefix SEI unit is buffered.
\<close>

theorem unknown_vcl_after_prefix_sei:
  "xParsePrefixSEIsForUnknownVCLNal d = (if dec_prefixSEINALUs d = [] then Some d else None)"
  by (simp add: xParsePrefixSEIsForUnknownVCLNal_def discard_prefix.simps [of "[]"] discard_prefix.simps [of "[_]"])

end
