(* ===== verification/AlfSyntax.thy ===== *)
theory AlfSyntax
  imports TruncBinary Vlc "HOL-Library.Signed_Division"
begin

text \<open>
  The parameters of the adaptive loop filter in the slice header: \<open>HLSWriter::alf\<close> and \<open>HLSyntaxReader::alf\<close> with the
  functions they call, the choice of the Golomb orders in \<open>EncAdaptiveLoopFilter\<close>, and its estimate of the bits.

  An \<open>int\<close> is an unbounded integer where the values cannot leave its range, which the bounds below show for the
  counts of bits; where the stream decides, a value out of range is \<^const>\<open>None\<close>.  The arrays \<open>kMinTab\<close> are
  static in the source: what they hold before a call is an argument.
\<close>

section \<open>Filters\<close>

definition MAX_NUM_ALF_CLASSES :: nat where "MAX_NUM_ALF_CLASSES = 25"
definition MAX_NUM_ALF_LUMA_COEFF :: nat where "MAX_NUM_ALF_LUMA_COEFF = 13"
definition MAX_NUM_ALF_CHROMA_COEFF :: nat where "MAX_NUM_ALF_CHROMA_COEFF = 7"
definition MAX_NUM_ALF_COEFF :: nat where "MAX_NUM_ALF_COEFF = 25"

datatype alf_filter_type = ALF_FILTER_5 | ALF_FILTER_7 | ALF_NUM_OF_FILTER_TYPES

record alf_shape =
  filterType :: alf_filter_type
  filterLength :: nat
  numCoeff :: nat
  filterSize :: nat
  pattern :: "nat list"
  weights :: "int list"
  golombIdx :: "nat list"

definition AlfFilterShape :: "nat \<Rightarrow> alf_shape" where
  "AlfFilterShape sz =
     (let s = \<lparr>filterType = ALF_NUM_OF_FILTER_TYPES, filterLength = sz, numCoeff = sz * sz div 4 + 1,
               filterSize = sz * sz div 2 + 1, pattern = [], weights = [], golombIdx = []\<rparr> in
      if sz = 5 then
        s\<lparr>pattern := [      0,
                     1, 2, 3,
                  4, 5, 6, 5, 4,
                     3, 2, 1,
                        0],
          weights := [      2,
                     2, 2, 2,
                  2, 2, 1, 1],
          golombIdx := [    0,
                     0, 1, 0,
                  0, 1, 2, 2],
          filterType := ALF_FILTER_5\<rparr>
      else if sz = 7 then
        s\<lparr>pattern := [            0,
                           1, 2, 3,
                        4, 5, 6, 7, 8,
                    9, 10, 11, 12, 11, 10, 9,
                        8, 7, 6, 5, 4,
                           3, 2, 1,
                              0],
          weights := [            2,
                           2, 2, 2,
                        2, 2, 2, 2, 2,
                     2, 2, 2, 1, 1],
          golombIdx := [          0,
                           0, 1, 0,
                        0, 1, 2, 1, 0,
                     0, 1, 2, 3, 3],
          filterType := ALF_FILTER_7\<rparr>
      else s)"

definition getMaxGolombIdx :: "alf_filter_type \<Rightarrow> nat" where
  "getMaxGolombIdx ft = (if ft = ALF_FILTER_5 then 2 else 3)"

record alf_param =
  enabledFlag :: "bool list"
  lumaFilterType :: alf_filter_type
  chromaCtbPresentFlag :: bool
  lumaCoeff :: "int list"
  chromaCoeff :: "int list"
  filterCoeffDeltaIdx :: "int list"
  filterCoeffFlag :: "bool list"
  numLumaFilters :: int
  coeffDeltaFlag :: bool
  coeffDeltaPredModeFlag :: bool

definition COMPONENT_Y :: nat where "COMPONENT_Y = 0"
definition COMPONENT_Cb :: nat where "COMPONENT_Cb = 1"
definition COMPONENT_Cr :: nat where "COMPONENT_Cr = 2"

definition alf_reset :: "alf_param \<Rightarrow> alf_param" where
  "alf_reset a = a\<lparr>enabledFlag := replicate 3 False, lumaFilterType := ALF_FILTER_5,
     lumaCoeff := replicate (25 * 13) 0, chromaCoeff := replicate 7 0, filterCoeffDeltaIdx := replicate 25 0,
     filterCoeffFlag := replicate 25 True, numLumaFilters := 1, coeffDeltaFlag := False,
     coeffDeltaPredModeFlag := False, chromaCtbPresentFlag := False\<rparr>"

text \<open>Conversions to \<open>short\<close>, and \<open>(int)pow(2.0, k)\<close>, which is undefined when the power is no \<open>int\<close>.\<close>

definition to_i16 :: "int \<Rightarrow> int" where
  "to_i16 i = signed_take_bit 15 i"

definition pow2 :: "int \<Rightarrow> int option" where
  "pow2 k = (if k < 0 then Some 0 else if k < 31 then Some (2 ^ nat k) else None)"

section \<open>The Golomb orders\<close>

definition lengthGolomb :: "int \<Rightarrow> nat \<Rightarrow> int" where
  "lengthGolomb coeffVal k =
     (let m = push_bit (k - 1) 2; q = coeffVal sdiv m in
      if coeffVal \<noteq> 0 then q + 2 + int k else q + 1 + int k)"

text \<open>\<open>bitsCoeffScan[idx][k] += lengthGolomb(coeffVal, k)\<close> for all orders \<open>k\<close>.\<close>

type_synonym scan_bits = "int list list"

definition scan_get :: "scan_bits \<Rightarrow> nat \<Rightarrow> int \<Rightarrow> int option" where
  "scan_get scan idx k = do { row \<leftarrow> arr_get scan idx; arr_get_i row k }"

definition add_lengths :: "nat \<Rightarrow> int \<Rightarrow> scan_bits \<Rightarrow> scan_bits option" where
  "add_lengths idx coeffVal = for_loop (\<lambda>k scan. do {
     row \<leftarrow> arr_get scan idx;
     n \<leftarrow> arr_get row k;
     row \<leftarrow> arr_set row k (n + lengthGolomb coeffVal k);
     arr_set scan idx row }) [1..<15]"

definition no_bits :: scan_bits where
  "no_bits = replicate 11 (replicate 16 0)"

text \<open>The loop over the filters, of which \<open>coded\<close> selects those that are sent.\<close>

definition scan_filters :: "alf_shape \<Rightarrow> nat \<Rightarrow> (nat \<Rightarrow> bool option) \<Rightarrow> int list \<Rightarrow> scan_bits \<Rightarrow> scan_bits option" where
  "scan_filters shape numFilters coded coeff = for_loop (\<lambda>ind scan. do {
     c \<leftarrow> coded ind;
     if c then for_loop (\<lambda>i scan. do {
         v \<leftarrow> arr_get coeff (ind * MAX_NUM_ALF_LUMA_COEFF + i);
         idx \<leftarrow> arr_get (golombIdx shape) i;
         add_lengths idx \<bar>v\<bar> scan }) [0..<numCoeff shape - 1] scan
     else Some scan }) [0..<numFilters]"

text \<open>The better one of the orders \<open>kStart\<close> and \<open>kStart + 1\<close> for a class of coefficients, and the bits it takes.\<close>

definition better_order :: "scan_bits \<Rightarrow> nat \<Rightarrow> int \<Rightarrow> (int \<times> int) option" where
  "better_order scan scanPos kStart = do {
     minBits \<leftarrow> scan_get scan scanPos kStart;
     bits \<leftarrow> scan_get scan scanPos (kStart + 1);
     Some (if bits < minBits then (kStart + 1, bits) else (kStart, minBits)) }"

fun start_bits :: "scan_bits \<Rightarrow> nat list \<Rightarrow> int \<Rightarrow> int \<Rightarrow> int option" where
  "start_bits scan [] kStart bitsKStart = Some bitsKStart"
| "start_bits scan (scanPos # ps) kStart bitsKStart = do {
     (kMin, minBits) \<leftarrow> better_order scan scanPos kStart;
     start_bits scan ps kMin (bitsKStart + minBits) }"

fun best_start :: "scan_bits \<Rightarrow> nat \<Rightarrow> int list \<Rightarrow> int \<Rightarrow> int \<Rightarrow> int option" where
  "best_start scan maxGolombIdx [] minBitsKStart minKStart = Some minKStart"
| "best_start scan maxGolombIdx (k # ks) minBitsKStart minKStart = do {
     bitsKStart \<leftarrow> start_bits scan [0..<maxGolombIdx] k 0;
     if bitsKStart < minBitsKStart then best_start scan maxGolombIdx ks bitsKStart k
     else best_start scan maxGolombIdx ks minBitsKStart minKStart }"

fun fill_orders :: "scan_bits \<Rightarrow> nat list \<Rightarrow> int \<Rightarrow> int list \<Rightarrow> int list option" where
  "fill_orders scan [] kStart kMinTab = Some kMinTab"
| "fill_orders scan (scanPos # ps) kStart kMinTab = do {
     (kMin, minBits) \<leftarrow> better_order scan scanPos kStart;
     kMinTab \<leftarrow> arr_set kMinTab scanPos kMin;
     fill_orders scan ps kMin kMinTab }"

definition getGolombKMin :: "alf_shape \<Rightarrow> int list \<Rightarrow> scan_bits \<Rightarrow> (int \<times> int list) option" where
  "getGolombKMin shape kMinTab scan = do {
     let maxGolombIdx = getMaxGolombIdx (filterType shape);
     minKStart \<leftarrow> best_start scan maxGolombIdx [1, 2, 3, 4, 5, 6, 7] (2 ^ 31 - 1) (- 1);
     kMinTab \<leftarrow> fill_orders scan [0..<maxGolombIdx] minKStart kMinTab;
     Some (minKStart, kMinTab) }"

section \<open>Writer\<close>

subsection \<open>Codes\<close>

text \<open>\<open>bins <<= 1; bins++; numBins++;\<close> for each of the ones, and a zero unless the symbol is the largest one.\<close>

fun unary_bins :: "nat \<Rightarrow> nat \<Rightarrow> nat \<Rightarrow> nat \<times> nat" where
  "unary_bins 0 bins numBins = (bins, numBins)"
| "unary_bins (Suc symbol) bins numBins = unary_bins symbol (2 * bins + 1) (numBins + 1)"

definition write_truncatedUnaryEqProb :: "nat \<Rightarrow> nat \<Rightarrow> obs \<Rightarrow> obs option" where
  "write_truncatedUnaryEqProb symbol maxSymbol s =
     (if maxSymbol = 0 then Some s else do {
        let codeLast = maxSymbol > symbol;
        let (bins, numBins) = unary_bins symbol 0 0;
        let (bins, numBins) = (if codeLast then (2 * bins, numBins + 1) else (bins, numBins));
        check_not (\<not> numBins \<le> 32);
        xWriteCode bins numBins s })"

definition write_TruncBinCode :: "nat \<Rightarrow> nat \<Rightarrow> obs \<Rightarrow> obs option" where
  "write_TruncBinCode uiSymbol uiMaxSymbol s = do {
     uiThresh \<leftarrow> tb_thresh uiMaxSymbol;
     let uiVal = push_bit uiThresh 1;
     check_not (\<not> uiVal \<le> uiMaxSymbol);
     check_not (\<not> push_bit 1 uiVal > uiMaxSymbol);
     check_not (\<not> uiSymbol < uiMaxSymbol);
     let b = int uiMaxSymbol - int uiVal;
     check_not (\<not> b < int uiVal);
     if uiSymbol < to_u32 (int uiVal - b) then xWriteCode uiSymbol uiThresh s
     else do {
       let uiSymbol = u32 (uiSymbol + to_u32 (int uiVal - b));
       check_not (\<not> uiSymbol < push_bit 1 uiVal);
       check_not (\<not> drop_bit 1 uiSymbol \<ge> to_u32 (int uiVal - b));
       xWriteCode uiSymbol (uiThresh + 1) s } }"

fun write_low_bits :: "nat \<Rightarrow> nat \<Rightarrow> obs \<Rightarrow> obs option" where
  "write_low_bits 0 symbol s = Some s"
| "write_low_bits (Suc k) symbol s = do { s \<leftarrow> xWriteFlag (symbol AND 1) s; write_low_bits k (drop_bit 1 symbol) s }"

definition alfGolombEncode :: "int \<Rightarrow> int \<Rightarrow> obs \<Rightarrow> obs option" where
  "alfGolombEncode coeff k s = do {
     let symbol = nat \<bar>coeff\<bar>;
     m \<leftarrow> pow2 k;
     check_not (m = 0);
     let q = symbol div nat m;
     s \<leftarrow> for_loop (\<lambda>i. xWriteFlag 1) [0..<q] s;
     s \<leftarrow> xWriteFlag 0 s;
     s \<leftarrow> write_low_bits (nat k) symbol s;
     if coeff \<noteq> 0 then xWriteFlag (of_bool (coeff > 0)) s else Some s }"

subsection \<open>A set of filters\<close>

definition alf_shape_of :: "alf_param \<Rightarrow> bool \<Rightarrow> alf_shape" where
  "alf_shape_of a isChroma = AlfFilterShape (if isChroma then 5 else if lumaFilterType a = ALF_FILTER_5 then 5 else 7)"

definition alf_num_filters :: "alf_param \<Rightarrow> bool \<Rightarrow> nat" where
  "alf_num_filters a isChroma = (if isChroma then 1 else nat (numLumaFilters a))"

definition alf_coeff :: "alf_param \<Rightarrow> bool \<Rightarrow> int list" where
  "alf_coeff a isChroma = (if isChroma then chromaCoeff a else lumaCoeff a)"

text \<open>The conditions of the two loops over the filters; \<open>&&\<close> and \<open>||\<close> look at \<open>filterCoeffFlag\<close> only when they need it.\<close>

definition filter_scanned :: "alf_param \<Rightarrow> bool \<Rightarrow> nat \<Rightarrow> bool option" where
  "filter_scanned a isChroma ind =
     (if isChroma \<or> \<not> coeffDeltaFlag a then Some True else arr_get (filterCoeffFlag a) ind)"

definition filter_skipped :: "alf_param \<Rightarrow> bool \<Rightarrow> nat \<Rightarrow> bool option" where
  "filter_skipped a isChroma ind =
     (if isChroma then Some False
      else do { f \<leftarrow> arr_get (filterCoeffFlag a) ind; Some (\<not> f \<and> coeffDeltaFlag a) })"

fun write_orders :: "nat list \<Rightarrow> int list \<Rightarrow> int \<Rightarrow> obs \<Rightarrow> obs option" where
  "write_orders [] kMinTab kMin s = Some s"
| "write_orders (idx # ids) kMinTab kMin s = do {
     k \<leftarrow> arr_get kMinTab idx;
     let golombOrderIncreaseFlag = k \<noteq> kMin;
     check_not (\<not> k \<le> kMin + 1);
     s \<leftarrow> xWriteFlag (of_bool golombOrderIncreaseFlag) s;
     write_orders ids kMinTab k s }"

definition code_delta_flags :: "alf_param \<Rightarrow> bool \<Rightarrow> obs \<Rightarrow> obs option" where
  "code_delta_flags a isChroma s =
     (if \<not> isChroma then do {
        s \<leftarrow> xWriteFlag (of_bool (coeffDeltaFlag a)) s;
        if \<not> coeffDeltaFlag a \<and> numLumaFilters a > 1 then xWriteFlag (of_bool (coeffDeltaPredModeFlag a)) s else Some s
      } else Some s)"

definition code_coeff_flags :: "alf_param \<Rightarrow> bool \<Rightarrow> obs \<Rightarrow> obs option" where
  "code_coeff_flags a isChroma s =
     (if \<not> isChroma \<and> coeffDeltaFlag a
      then for_loop (\<lambda>ind s. do { f \<leftarrow> arr_get (filterCoeffFlag a) ind; xWriteFlag (of_bool f) s })
        [0..<alf_num_filters a isChroma] s
      else Some s)"

definition code_coefficients :: "alf_param \<Rightarrow> bool \<Rightarrow> int list \<Rightarrow> obs \<Rightarrow> obs option" where
  "code_coefficients a isChroma kMinTab =
     (let shape = alf_shape_of a isChroma; coeff = alf_coeff a isChroma in
      for_loop (\<lambda>ind s. do {
        skip \<leftarrow> filter_skipped a isChroma ind;
        if skip then Some s
        else for_loop (\<lambda>i s. do {
          v \<leftarrow> arr_get coeff (ind * MAX_NUM_ALF_LUMA_COEFF + i);
          idx \<leftarrow> arr_get (golombIdx shape) i;
          k \<leftarrow> arr_get kMinTab idx;
          alfGolombEncode v k s }) [0..<numCoeff shape - 1] s })
        [0..<alf_num_filters a isChroma])"

definition code_alfFilter :: "int list \<Rightarrow> alf_param \<Rightarrow> bool \<Rightarrow> obs \<Rightarrow> obs option" where
  "code_alfFilter tab a isChroma s = do {
     s \<leftarrow> code_delta_flags a isChroma s;
     let shape = alf_shape_of a isChroma;
     scan \<leftarrow> scan_filters shape (alf_num_filters a isChroma) (filter_scanned a isChroma) (alf_coeff a isChroma) no_bits;
     (kMin, kMinTab) \<leftarrow> getGolombKMin shape tab scan;
     s \<leftarrow> xWriteUvlc (to_u32 (kMin - 1)) s;
     s \<leftarrow> write_orders [0..<getMaxGolombIdx (filterType shape)] kMinTab kMin s;
     s \<leftarrow> code_coeff_flags a isChroma s;
     code_coefficients a isChroma kMinTab s }"

definition code_alf :: "int list \<Rightarrow> int list \<Rightarrow> alf_param \<Rightarrow> obs \<Rightarrow> obs option" where
  "code_alf tab tab' a s = do {
     y \<leftarrow> arr_get (enabledFlag a) COMPONENT_Y;
     s \<leftarrow> xWriteFlag (of_bool y) s;
     if \<not> y then Some s
     else do {
       cb \<leftarrow> arr_get (enabledFlag a) COMPONENT_Cb;
       cr \<leftarrow> arr_get (enabledFlag a) COMPONENT_Cr;
       let alfChromaIdc = of_bool cb * 2 + of_bool cr;
       s \<leftarrow> write_truncatedUnaryEqProb alfChromaIdc 3 s;
       s \<leftarrow> write_TruncBinCode (to_u32 (numLumaFilters a - 1)) MAX_NUM_ALF_CLASSES s;
       s \<leftarrow> xWriteFlag (of_bool (lumaFilterType a = ALF_FILTER_5)) s;
       s \<leftarrow> (if numLumaFilters a > 1 then for_loop (\<lambda>i s. do {
           d \<leftarrow> arr_get (filterCoeffDeltaIdx a) i;
           write_TruncBinCode (to_u32 d) (nat (numLumaFilters a)) s }) [0..<MAX_NUM_ALF_CLASSES] s else Some s);
       s \<leftarrow> code_alfFilter tab a False s;
       if alfChromaIdc \<noteq> 0 then do {
         s \<leftarrow> xWriteFlag (of_bool (chromaCtbPresentFlag a)) s;
         code_alfFilter tab' a True s
       } else Some s } }"

section \<open>Reader\<close>

subsection \<open>Codes\<close>

fun read_truncatedUnaryEqProb :: "nat \<Rightarrow> nat \<Rightarrow> ibs \<Rightarrow> (nat \<times> ibs) option" where
  "read_truncatedUnaryEqProb 0 k s = Some (k, s)"
| "read_truncatedUnaryEqProb (Suc n) k s = do {
     (symbol, s) \<leftarrow> xReadFlag s;
     if symbol = 0 then Some (k, s) else read_truncatedUnaryEqProb n (k + 1) s }"

definition read_TruncBinCode :: "nat \<Rightarrow> ibs \<Rightarrow> (nat \<times> ibs) option" where
  "read_TruncBinCode uiMaxSymbol s = do {
     uiThresh \<leftarrow> tb_thresh uiMaxSymbol;
     let uiVal = push_bit uiThresh 1;
     let b = int uiMaxSymbol - int uiVal;
     (ruiSymbol, s) \<leftarrow> xReadCode uiThresh s;
     if ruiSymbol \<ge> to_u32 (int uiVal - b) then do {
       (uiSymbol, s) \<leftarrow> xReadFlag s;
       let ruiSymbol = u32 (push_bit 1 ruiSymbol);
       let ruiSymbol = u32 (ruiSymbol + uiSymbol);
       Some (sub32 ruiSymbol (to_u32 (int uiVal - b)), s)
     } else Some (ruiSymbol, s) }"

text \<open>\<open>while (uiSymbol) { xReadFlag(uiSymbol); q++; }\<close>, where \<open>n\<close> counts the ones.\<close>

function read_ones :: "nat \<Rightarrow> ibs \<Rightarrow> (nat \<times> ibs) option" where
  "read_ones n s = (case xReadFlag s of None \<Rightarrow> None
     | Some (uiSymbol, s) \<Rightarrow> if uiSymbol \<noteq> 0 then read_ones (n + 1) s else Some (n, s))"
  by auto
termination
  by (relation "measure (\<lambda>(n, s). in_num_held s + 8 * (length (in_fifo s) - fifo_idx s))")
    (auto dest: ibs_read_decreases simp: xReadFlag_def)

declare read_ones.simps [simp del]

fun read_low_bits :: "nat \<Rightarrow> nat \<Rightarrow> int \<Rightarrow> ibs \<Rightarrow> (int \<times> ibs) option" where
  "read_low_bits 0 a nr s = Some (nr, s)"
| "read_low_bits (Suc k) a nr s = do {
     (uiSymbol, s) \<leftarrow> xReadFlag s;
     read_low_bits k (a + 1) (if uiSymbol \<noteq> 0 then nr + 2 ^ a else nr) s }"

definition alfGolombDecode :: "int \<Rightarrow> ibs \<Rightarrow> (int \<times> ibs) option" where
  "alfGolombDecode k s = do {
     m \<leftarrow> pow2 k;
     (q, s) \<leftarrow> read_ones 0 s;
     (nr, s) \<leftarrow> read_low_bits (nat k) 0 0 s;
     nr \<leftarrow> i32 (nr + int q * m);
     if nr \<noteq> 0 then do {
       (uiSymbol, s) \<leftarrow> xReadFlag s;
       Some (if uiSymbol \<noteq> 0 then nr else - nr, s)
     } else Some (nr, s) }"

subsection \<open>A set of filters\<close>

definition set_coeff :: "bool \<Rightarrow> int list \<Rightarrow> alf_param \<Rightarrow> alf_param" where
  "set_coeff isChroma c a = (if isChroma then a\<lparr>chromaCoeff := c\<rparr> else a\<lparr>lumaCoeff := c\<rparr>)"

definition parse_delta_flags :: "alf_param \<Rightarrow> bool \<Rightarrow> ibs \<Rightarrow> (alf_param \<times> ibs) option" where
  "parse_delta_flags a isChroma s =
     (if \<not> isChroma then do {
        (code, s) \<leftarrow> xReadFlag s;
        let a = a\<lparr>coeffDeltaFlag := (code \<noteq> 0)\<rparr>;
        if \<not> coeffDeltaFlag a then do {
          let a = a\<lparr>filterCoeffFlag := replicate MAX_NUM_ALF_CLASSES True\<rparr>;
          if numLumaFilters a > 1 then do {
            (code, s) \<leftarrow> xReadFlag s;
            Some (a\<lparr>coeffDeltaPredModeFlag := (code \<noteq> 0)\<rparr>, s)
          } else Some (a\<lparr>coeffDeltaPredModeFlag := False\<rparr>, s)
        } else Some (a\<lparr>coeffDeltaPredModeFlag := False\<rparr>, s)
      } else Some (a, s))"

fun parse_orders :: "nat list \<Rightarrow> int \<Rightarrow> int list \<Rightarrow> ibs \<Rightarrow> (int list \<times> ibs) option" where
  "parse_orders [] kMin kMinTab s = Some (kMinTab, s)"
| "parse_orders (idx # ids) kMin kMinTab s = do {
     (code, s) \<leftarrow> xReadFlag s;
     check_not (code > 1);
     k \<leftarrow> i32 (kMin + int code);
     kMinTab \<leftarrow> arr_set kMinTab idx k;
     parse_orders ids k kMinTab s }"

definition parse_coeff_flags :: "alf_param \<Rightarrow> bool \<Rightarrow> ibs \<Rightarrow> (alf_param \<times> ibs) option" where
  "parse_coeff_flags a isChroma s =
     (if \<not> isChroma \<and> coeffDeltaFlag a
      then read_loop (\<lambda>ind a s. do {
          (code, s) \<leftarrow> xReadFlag s;
          f \<leftarrow> arr_set (filterCoeffFlag a) ind (code \<noteq> 0);
          Some (a\<lparr>filterCoeffFlag := f\<rparr>, s) }) [0..<nat (numLumaFilters a)] a s
      else Some (a, s))"

text \<open>\<open>memset(coeff + ind * MAX_NUM_ALF_LUMA_COEFF, 0, sizeof(*coeff) * alfShape.numCoeff)\<close>\<close>

definition clear_coeff :: "nat \<Rightarrow> nat \<Rightarrow> int list \<Rightarrow> int list option" where
  "clear_coeff ind n = for_loop (\<lambda>i coeff. arr_set coeff (ind * MAX_NUM_ALF_LUMA_COEFF + i) 0) [0..<n]"

definition parse_coefficients :: "bool \<Rightarrow> alf_param \<Rightarrow> int list \<Rightarrow> int list \<Rightarrow> ibs \<Rightarrow> (int list \<times> ibs) option" where
  "parse_coefficients isChroma a kMinTab =
     (let shape = alf_shape_of a isChroma in
      read_loop (\<lambda>ind coeff s. do {
        skip \<leftarrow> filter_skipped a isChroma ind;
        if skip then do { coeff \<leftarrow> clear_coeff ind (numCoeff shape) coeff; Some (coeff, s) }
        else read_loop (\<lambda>i coeff s. do {
          idx \<leftarrow> arr_get (golombIdx shape) i;
          k \<leftarrow> arr_get kMinTab idx;
          (v, s) \<leftarrow> alfGolombDecode k s;
          coeff \<leftarrow> arr_set coeff (ind * MAX_NUM_ALF_LUMA_COEFF + i) (to_i16 v);
          Some (coeff, s) }) [0..<numCoeff shape - 1] coeff s })
        [0..<alf_num_filters a isChroma])"

definition parse_alfFilter :: "int list \<Rightarrow> alf_param \<Rightarrow> bool \<Rightarrow> ibs \<Rightarrow> (alf_param \<times> ibs) option" where
  "parse_alfFilter tab a isChroma s = do {
     (a, s) \<leftarrow> parse_delta_flags a isChroma s;
     (code, s) \<leftarrow> xReadUvlc s;
     let kMin = to_i32 (u32 (code + 1));
     (kMinTab, s) \<leftarrow> parse_orders [0..<getMaxGolombIdx (filterType (alf_shape_of a isChroma))] kMin tab s;
     (a, s) \<leftarrow> parse_coeff_flags a isChroma s;
     (coeff, s) \<leftarrow> parse_coefficients isChroma a kMinTab (alf_coeff a isChroma) s;
     Some (set_coeff isChroma coeff a, s) }"

definition parse_alf :: "int list \<Rightarrow> int list \<Rightarrow> alf_param \<Rightarrow> ibs \<Rightarrow> (alf_param \<times> ibs) option" where
  "parse_alf tab tab' a s = do {
     (code, s) \<leftarrow> xReadFlag s;
     e \<leftarrow> arr_set (enabledFlag a) COMPONENT_Y (code \<noteq> 0);
     if code = 0 then do {
       e \<leftarrow> arr_set e COMPONENT_Cr False;
       e \<leftarrow> arr_set e COMPONENT_Cb False;
       Some (a\<lparr>enabledFlag := e\<rparr>, s)
     } else do {
       (alfChromaIdc, s) \<leftarrow> read_truncatedUnaryEqProb 3 0 s;
       e \<leftarrow> arr_set e COMPONENT_Cb (drop_bit 1 alfChromaIdc \<noteq> 0);
       e \<leftarrow> arr_set e COMPONENT_Cr (alfChromaIdc AND 1 \<noteq> 0);
       let a = a\<lparr>enabledFlag := e\<rparr>;
       (code, s) \<leftarrow> read_TruncBinCode MAX_NUM_ALF_CLASSES s;
       let a = a\<lparr>numLumaFilters := to_i32 (u32 (code + 1))\<rparr>;
       (code, s) \<leftarrow> xReadFlag s;
       let a = a\<lparr>lumaFilterType := (if code \<noteq> 0 then ALF_FILTER_5 else ALF_FILTER_7)\<rparr>;
       (a, s) \<leftarrow> (if numLumaFilters a > 1 then read_loop (\<lambda>i a s. do {
            (code, s) \<leftarrow> read_TruncBinCode (nat (numLumaFilters a)) s;
            d \<leftarrow> arr_set (filterCoeffDeltaIdx a) i (to_i16 (to_i32 code));
            Some (a\<lparr>filterCoeffDeltaIdx := d\<rparr>, s) }) [0..<MAX_NUM_ALF_CLASSES] a s
          else Some (a\<lparr>filterCoeffDeltaIdx := replicate MAX_NUM_ALF_CLASSES 0\<rparr>, s));
       (a, s) \<leftarrow> parse_alfFilter tab a False s;
       if alfChromaIdc \<noteq> 0 then do {
         (code, s) \<leftarrow> xReadFlag s;
         let a = a\<lparr>chromaCtbPresentFlag := (code \<noteq> 0)\<rparr>;
         parse_alfFilter tab' a True s
       } else Some (a, s) } }"

section \<open>Codes\<close>

lemma unary_bins_ones: "unary_bins symbol bins numBins = ((bins + 1) * 2 ^ symbol - 1, numBins + symbol)"
proof (induction symbol arbitrary: bins numBins)
  case (Suc n)
  have "2 * (bins + 1) * 2 ^ n = (bins + 1) * 2 ^ Suc n" by simp
  with Suc show ?case by simp
qed simp

lemma to_bits_ones: "to_bits n (2 ^ n - 1) = replicate n True"
proof (induction n)
  case (Suc n)
  have "to_bits (1 + n) (1 * 2 ^ n + (2 ^ n - 1)) = to_bits 1 1 @ to_bits n (2 ^ n - 1)"
    by (rule to_bits_concat_shift) simp
  with Suc show ?case by (simp add: to_bits_Suc mult_2)
qed simp

lemma takes_truncated_unary:
  "j < n \<Longrightarrow> takes (read_truncatedUnaryEqProb n k) (replicate j True @ [False]) (k + j)"
  "takes (read_truncatedUnaryEqProb n k) (replicate n True) (k + n)"
proof -
  have r: "read_truncatedUnaryEqProb (Suc n) k = (\<lambda>s. xReadFlag s \<bind>
      (\<lambda>(x, s). if x = 0 then Some (k, s) else read_truncatedUnaryEqProb n (k + 1) s))" for n k
    by (simp add: fun_eq_iff)
  have one: "takes (read_truncatedUnaryEqProb n (k + 1)) bs v \<Longrightarrow> takes (read_truncatedUnaryEqProb (Suc n) k) (True # bs) v" for n k bs v
    using takes_bind [OF takes_flag [of True], of "\<lambda>x s. if x = 0 then Some (k, s) else read_truncatedUnaryEqProb n (k + 1) s" bs v]
    unfolding r by simp
  have zero: "takes (read_truncatedUnaryEqProb (Suc n) k) [False] k" for n k
    using takes_bind [OF takes_flag [of False], of "\<lambda>x s. if x = 0 then Some (k, s) else read_truncatedUnaryEqProb n (k + 1) s" "[]" k]
      takes_return [of k] unfolding r by simp
  show "j < n \<Longrightarrow> takes (read_truncatedUnaryEqProb n k) (replicate j True @ [False]) (k + j)"
  proof (induction j arbitrary: n k)
    case 0
    then show ?case using zero [of "n - 1" k] by (cases n) (simp_all del: read_truncatedUnaryEqProb.simps)
  next
    case (Suc j)
    then show ?case using one [of "n - 1" k "replicate j True @ [False]" "k + Suc j"] Suc.IH [of "n - 1" "k + 1"]
      by (cases n) (simp_all del: read_truncatedUnaryEqProb.simps)
  qed
  show "takes (read_truncatedUnaryEqProb n k) (replicate n True) (k + n)"
  proof (induction n arbitrary: k)
    case 0
    then show ?case by (simp add: takes_return)
  next
    case (Suc n)
    then show ?case using one [of n k "replicate n True" "k + Suc n"] Suc.IH [of "k + 1"]
      by (simp del: read_truncatedUnaryEqProb.simps)
  qed
qed

lemma codes_truncatedUnaryEqProb:
  assumes "symbol \<le> m" "m \<le> 31"
  shows "vlc.codes (write_truncatedUnaryEqProb symbol m) (read_truncatedUnaryEqProb m 0) symbol"
proof (cases "m = 0")
  case True
  then show ?thesis using assms vlc.codes_return [of 0 0]
    by (simp add: write_truncatedUnaryEqProb_def [abs_def] read_truncatedUnaryEqProb.simps [abs_def])
next
  case m: False
  show ?thesis
  proof (cases "symbol = m")
    case True
    have "appends (xWriteCode (2 ^ m - 1) m) (replicate m True)"
      using appends_xWriteCode [of m "2 ^ m - 1"] m assms to_bits_ones [of m] by simp
    moreover have "write_truncatedUnaryEqProb symbol m s = xWriteCode (2 ^ m - 1) m s" for s
      using m assms True by (simp add: write_truncatedUnaryEqProb_def unary_bins_ones)
    ultimately show ?thesis using codes_bitsI [OF _ takes_truncated_unary(2) [of m 0]] True ext
      by (metis add_0)
  next
    case False
    have v: "2 * (2 ^ symbol - 1) = (2 ^ symbol - 1) * 2 ^ 1 + (0 :: nat)" by simp
    have "to_bits (symbol + 1) (2 * (2 ^ symbol - 1)) = replicate symbol True @ [False]"
      unfolding v by (subst to_bits_concat_shift) (simp_all add: to_bits_ones [simplified] to_bits_Suc)
    moreover have "2 * (2 ^ symbol - 1) < (2 :: nat) ^ (symbol + 1)" by simp
    ultimately have "appends (xWriteCode (2 * (2 ^ symbol - 1)) (symbol + 1)) (replicate symbol True @ [False])"
      using appends_xWriteCode [of "symbol + 1" "2 * (2 ^ symbol - 1)"] assms False by simp
    moreover have "write_truncatedUnaryEqProb symbol m s = xWriteCode (2 * (2 ^ symbol - 1)) (symbol + 1) s" for s
      using m assms False by (simp add: write_truncatedUnaryEqProb_def unary_bins_ones)
    moreover have "takes (read_truncatedUnaryEqProb m 0) (replicate symbol True @ [False]) symbol"
      using takes_truncated_unary(1) [of symbol m 0] False assms by simp
    ultimately show ?thesis using codes_bitsI by (metis ext)
  qed
qed

lemma codes_TruncBinCode:
  assumes "symbol < m" "1 < m" "m < 2 ^ 30"
  shows "vlc.codes (write_TruncBinCode symbol m) (read_TruncBinCode m) symbol"
proof -
  from tb_thresh_bounds [of m] assms obtain k where k: "tb_thresh m = Some k" "2 ^ k \<le> m" "m < 2 ^ (k + 1)" by auto
  have "(2 :: nat) ^ k < 2 ^ 30" using k(2) assms(3) by linarith
  then have k30: "k < 30" by (simp only: power_strict_increasing_iff)
  have p: "(2 :: nat) ^ (k + 1) \<le> 2 ^ 30" using power_increasing [of "k + 1" 30 "2 :: nat"] k30 by simp
  have k0: "0 < k" using k(3) assms(2) by (cases k) simp_all
  define e where "e = 2 ^ (k + 1) - m"
  have e: "e \<le> 2 ^ k" "e + m = 2 ^ (k + 1)" "0 < e" using k(2,3) by (simp_all add: e_def)
  have v: "push_bit k 1 = (2 :: nat) ^ k" by (simp add: push_bit_nat_def)
  have "int (2 ^ k) - (int m - int (2 ^ k)) = int e" using arg_cong [OF e(2), of int] by (simp add: algebra_simps)
  then have b: "to_u32 (int (2 ^ k) - (int m - int (2 ^ k))) = e" using e(1) p by simp
  let ?f = "\<lambda>x b. sub32 (u32 (u32 (push_bit 1 x) + b)) e"
  let ?r = "\<lambda>sym t. if sym \<ge> e then xReadFlag t \<bind> (\<lambda>(b, t). Some (?f sym b, t)) else Some (sym, t)"
  have w: "write_TruncBinCode symbol m s = (if symbol < e then obs_write symbol k s else obs_write (symbol + e) (k + 1) s)" for s
  proof -
    have "symbol + e < 2 ^ 32" using assms e p by simp
    then have "u32 (symbol + e) = symbol + e" by (rule take_bit_nat_eq_self)
    moreover have "\<not> symbol < e \<Longrightarrow> e \<le> (symbol + e) div 2" by simp
    moreover have "int m < 2 * int (2 ^ k)" using k(3) of_nat_less_iff [of m "2 ^ (k + 1)", where ?'a = int] by simp
    ultimately show ?thesis
      unfolding write_TruncBinCode_def k(1) bind.bind_lunit Let_def v b
      using k(2,3) assms(1) e k0 by (cases "symbol < e") (simp_all add: drop_bit_nat_def push_bit_nat_def xWriteCode_def)
  qed
  have f: "?f x b = 2 * x + b - e" if "x < 2 ^ k" "b \<le> 1" "e \<le> x" for x b
  proof -
    have "2 * x + b < 2 ^ 31" using that p by simp
    then show ?thesis using that by (simp add: push_bit_nat_def take_bit_nat_eq_self sub32_ge mult.commute)
  qed
  have r: "read_TruncBinCode m t = ibs_read k t \<bind> (\<lambda>(sym, t). ?r sym t)" for t
    using k0 by (simp only: read_TruncBinCode_def k(1) bind.bind_lunit Let_def v b xReadCode_def) simp
  have bit: "vlc.codes (obs_write b 1) xReadFlag b" if "b \<le> 1" for b
    using vlc.codes_put_bit [of b] that by (simp add: xReadFlag_def [abs_def])
  show ?thesis
    unfolding w [abs_def] r [abs_def]
    by (rule vlc.codes_trunc [OF k(2,3) e_def assms(1) _ bit f]) (use k30 in auto)
qed

text \<open>The Golomb code of a coefficient: the quotient in unary, the remainder least significant bit first, the sign.\<close>

fun low_bits :: "nat \<Rightarrow> nat \<Rightarrow> bits" where
  "low_bits 0 x = []"
| "low_bits (Suc k) x = odd x # low_bits k (x div 2)"

definition golomb_bits :: "int \<Rightarrow> nat \<Rightarrow> bits" where
  "golomb_bits c k = replicate (nat \<bar>c\<bar> div 2 ^ k) True @ False # low_bits k (nat \<bar>c\<bar>) @ (if c \<noteq> 0 then [c > 0] else [])"

lemma length_low_bits [simp]: "length (low_bits k x) = k"
  by (induction k arbitrary: x) simp_all

lemma appends_return: "appends Some []"
  by (simp add: appends_def)

lemma appends_flag_bool: "appends (xWriteFlag (of_bool b)) [b]"
  using appends_flag [of "of_bool b"] by (cases b) simp_all

lemma appends_ones: "appends (for_loop (\<lambda>i. xWriteFlag 1) is) (replicate (length is) True)"
proof (induction "is")
  case (Cons i "is")
  have "for_loop (\<lambda>i. xWriteFlag 1) (i # is) = (\<lambda>s. xWriteFlag 1 s \<bind> for_loop (\<lambda>i. xWriteFlag 1) is)"
    by (simp add: fun_eq_iff)
  then show ?case using appends_bind [OF appends_flag Cons.IH, of 1] by simp
qed (simp add: appends_def)

lemma appends_low_bits: "appends (write_low_bits k x) (low_bits k x)"
proof (induction k arbitrary: x)
  case (Suc k)
  have "write_low_bits (Suc k) x = (\<lambda>s. xWriteFlag (x AND 1) s \<bind> write_low_bits k (drop_bit 1 x))"
    by (simp add: fun_eq_iff)
  moreover have "x AND 1 < 2" by (simp add: and_one_eq mod2_eq_if)
  moreover have "(x AND 1 = 1) = odd x" by (simp add: and_one_eq mod2_eq_if)
  ultimately show ?case using appends_bind [OF appends_flag Suc.IH, of "x AND 1" "drop_bit 1 x"]
    by (simp add: drop_bit_nat_def)
qed (simp add: appends_def)

lemma takes_low_bits: "takes (read_low_bits k a nr) (low_bits k x) (nr + 2 ^ a * int (x mod 2 ^ k))"
proof (induction k arbitrary: a nr x)
  case (Suc k)
  let ?nr = "if odd x then nr + 2 ^ a else nr"
  have "int (x mod 2 ^ Suc k) = of_bool (odd x) + 2 * int (x div 2 mod 2 ^ k)"
    by (simp add: mod_mult2_eq mod2_eq_if)
  then have v: "?nr + 2 ^ (a + 1) * int (x div 2 mod 2 ^ k) = nr + 2 ^ a * int (x mod 2 ^ Suc k)"
    by (simp add: algebra_simps)
  have "read_low_bits (Suc k) a nr = (\<lambda>s. xReadFlag s \<bind>
      (\<lambda>(b, s). read_low_bits k (a + 1) (if b \<noteq> 0 then nr + 2 ^ a else nr) s))"
    by (simp add: fun_eq_iff)
  then show ?case
    using takes_bind [OF takes_flag [of "odd x"], of "\<lambda>b s. read_low_bits k (a + 1) (if b \<noteq> 0 then nr + 2 ^ a else nr) s"]
      Suc.IH [of "a + 1" ?nr "x div 2"] v by simp
qed (simp add: takes_def)

lemma read_ones_rec:
  "read_ones n = (\<lambda>s. xReadFlag s \<bind> (\<lambda>(b, s). if b \<noteq> 0 then read_ones (n + 1) s else Some (n, s)))"
  by (rule ext, subst read_ones.simps) (auto split: option.splits)

lemma takes_ones: "takes (read_ones n) (replicate q True @ [False]) (n + q)"
proof (induction q arbitrary: n)
  case 0
  show ?case unfolding read_ones_rec [of n]
    using takes_bind [OF takes_flag [of False], of "\<lambda>b s. if b \<noteq> 0 then read_ones (n + 1) s else Some (n, s)" "[]" n]
      takes_return [of n] by simp
next
  case (Suc q)
  show ?case unfolding read_ones_rec [of n]
    using takes_bind [OF takes_flag [of True], of "\<lambda>b s. if b \<noteq> 0 then read_ones (n + 1) s else Some (n, s)"]
      Suc.IH [of "n + 1"] by simp
qed

lemma appends_golomb:
  assumes "0 \<le> k" "k < 31"
  shows "appends (alfGolombEncode c k) (golomb_bits c (nat k))"
proof -
  let ?q = "nat \<bar>c\<bar> div 2 ^ nat k"
  have p: "pow2 k = Some (2 ^ nat k)" using assms by (simp add: pow2_def)
  have q: "nat (2 ^ nat k) = 2 ^ nat k" by simp
  have e: "appends (\<lambda>s. if c \<noteq> 0 then xWriteFlag (of_bool (c > 0)) s else Some s) (if c \<noteq> 0 then [c > 0] else [])"
    using appends_flag_bool [of "c > 0"] appends_return by (cases "c = 0") simp_all
  show ?thesis
    unfolding alfGolombEncode_def [abs_def] p Let_def bind.bind_lunit golomb_bits_def q
    using appends_bind [OF appends_ones [of "[0..<?q]"] appends_bind [OF appends_flag [of 0] appends_bind [OF appends_low_bits [of "nat k" "nat \<bar>c\<bar>"] e]]]
    by (simp split del: if_split)
qed

lemma takes_golomb:
  assumes "0 \<le> k" "k < 31" "\<bar>c\<bar> < 2 ^ 31"
  shows "takes (alfGolombDecode k) (golomb_bits c (nat k)) c"
proof -
  let ?a = "nat \<bar>c\<bar>" and ?k = "nat k"
  have p: "pow2 k = Some (2 ^ nat k)" using assms by (simp add: pow2_def)
  have "int (?a mod 2 ^ ?k) + int (?a div 2 ^ ?k) * 2 ^ ?k = int (?a mod 2 ^ ?k + ?a div 2 ^ ?k * 2 ^ ?k)" by simp
  also have "\<dots> = \<bar>c\<bar>" by (simp only: mod_div_mult_eq nat_0_le abs_ge_zero int_nat_eq if_True)
  finally have v: "i32 (int (?a mod 2 ^ ?k) + int (?a div 2 ^ ?k) * 2 ^ ?k) = Some \<bar>c\<bar>"
    using assms(3) by (auto simp: i32_def intro: order.trans [OF _ abs_ge_zero])
  let ?r = "\<lambda>q nr s. i32 (nr + int q * 2 ^ ?k) \<bind> (\<lambda>nr. if nr \<noteq> 0 then xReadFlag s \<bind> (\<lambda>(b, s). Some (if b \<noteq> 0 then nr else - nr, s)) else Some (nr, s))"
  have s: "takes (?r (?a div 2 ^ ?k) (int (?a mod 2 ^ ?k))) (if c \<noteq> 0 then [c > 0] else []) c"
    unfolding v bind.bind_lunit
    using takes_bind [OF takes_flag [of "c > 0"], of "\<lambda>b s. Some (if b \<noteq> 0 then \<bar>c\<bar> else - \<bar>c\<bar>, s)" "[]" c]
      takes_return [of c] by (cases "c > 0"; cases "c = 0") simp_all
  have l: "takes (\<lambda>s. read_low_bits ?k 0 0 s \<bind> (\<lambda>(nr, s). ?r (?a div 2 ^ ?k) nr s))
      (low_bits ?k ?a @ (if c \<noteq> 0 then [c > 0] else [])) c"
    by (rule takes_bind [OF takes_low_bits [of ?k 0 0 ?a]]) (use s in simp)
  have "takes (\<lambda>s. read_ones 0 s \<bind> (\<lambda>(q, s). read_low_bits ?k 0 0 s \<bind> (\<lambda>(nr, s). ?r q nr s)))
      ((replicate (?a div 2 ^ ?k) True @ [False]) @ low_bits ?k ?a @ (if c \<noteq> 0 then [c > 0] else [])) c"
    by (rule takes_bind [OF takes_ones [of 0 "?a div 2 ^ ?k"]]) (use l in simp)
  then show ?thesis
    unfolding alfGolombDecode_def [abs_def] p bind.bind_lunit golomb_bits_def by (simp only: append_assoc append_Cons append_Nil)
qed

lemma codes_golomb:
  "0 \<le> k \<Longrightarrow> k < 31 \<Longrightarrow> \<bar>c\<bar> < 2 ^ 31 \<Longrightarrow> vlc.codes (alfGolombEncode c k) (alfGolombDecode k) c"
  using codes_bitsI [OF appends_golomb takes_golomb] by blast

lemma lengthGolomb_bits: "1 \<le> k \<Longrightarrow> int (length (golomb_bits c k)) = lengthGolomb \<bar>c\<bar> k"
proof -
  assume "1 \<le> k"
  then have "push_bit (k - 1) (2 :: int) = 2 ^ k" by (cases k) (simp_all add: push_bit_int_def)
  moreover have "\<bar>c\<bar> sdiv 2 ^ k = int (nat \<bar>c\<bar> div 2 ^ k)"
    by (simp add: signed_divide_int_def zdiv_int sgn_if)
  ultimately show ?thesis by (simp add: golomb_bits_def lengthGolomb_def Let_def)
qed

section \<open>The choice of the Golomb orders\<close>

lemma for_loop_grows:
  fixes n d :: nat
  assumes "\<And>i s n. i \<in> set is \<Longrightarrow> I n s \<Longrightarrow> \<exists>s'. f i s = Some s' \<and> I (n + d) s'" "I n s"
  shows "\<exists>s'. for_loop f is s = Some s' \<and> I (n + d * length is) s'"
  using assms
proof (induction "is" arbitrary: s n)
  case (Cons i "is")
  then obtain s1 where s1: "f i s = Some s1" "I (n + d) s1" by fastforce
  have "\<exists>s'. for_loop f is s1 = Some s' \<and> I (n + d + d * length is) s'" by (rule Cons.IH) (use Cons.prems s1 in auto)
  with s1(1) show ?case by (simp add: algebra_simps)
qed simp

definition scan_ok :: "nat \<Rightarrow> scan_bits \<Rightarrow> bool" where
  "scan_ok B scan \<longleftrightarrow> length scan = 11 \<and> (\<forall>row\<in>set scan. length row = 16 \<and> (\<forall>x\<in>set row. 0 \<le> x \<and> x \<le> int B))"

text \<open>A \<open>short\<close> takes at most 16400 bits.\<close>

lemma lengthGolomb_bound: "\<bar>v\<bar> \<le> 2 ^ 15 \<Longrightarrow> 1 \<le> k \<Longrightarrow> k < 15 \<Longrightarrow> 0 \<le> lengthGolomb \<bar>v\<bar> k \<and> lengthGolomb \<bar>v\<bar> k \<le> 16400"
proof -
  assume a: "\<bar>v\<bar> \<le> 2 ^ 15" "1 \<le> k" "k < 15"
  have "nat \<bar>v\<bar> \<le> 32768" using a(1) by simp
  then have "nat \<bar>v\<bar> div 2 ^ k \<le> 32768 div 2 ^ k" by (rule div_le_mono)
  also have "\<dots> \<le> 32768 div 2 ^ 1" by (rule div_le_mono2) (simp, rule power_increasing [OF a(2)], simp)
  finally have "nat \<bar>v\<bar> div 2 ^ k \<le> 16384" by simp
  moreover have "length (golomb_bits v k) \<le> nat \<bar>v\<bar> div 2 ^ k + k + 2" by (simp add: golomb_bits_def)
  ultimately have "length (golomb_bits v k) \<le> 16400" using a(3) by linarith
  then show ?thesis using lengthGolomb_bits [OF a(2), of v] by linarith
qed

lemma add_lengths_law:
  assumes "scan_ok B scan" "idx < 11" "\<bar>v\<bar> \<le> 2 ^ 15"
  shows "\<exists>scan'. add_lengths idx \<bar>v\<bar> scan = Some scan' \<and> scan_ok (B + 16400) scan'"
proof -
  define J where "J k scan' \<longleftrightarrow> length scan' = 11
      \<and> (\<forall>j<11. length (scan' ! j) = 16
        \<and> (\<forall>m<16. scan' ! j ! m = scan ! j ! m + (if j = idx \<and> 0 < m \<and> m < k then lengthGolomb \<bar>v\<bar> m else 0)))"
    for k and scan' :: scan_bits
  let ?f = "\<lambda>k scan. do {
     row \<leftarrow> arr_get scan idx;
     n \<leftarrow> arr_get row k;
     row \<leftarrow> arr_set row k (n + lengthGolomb \<bar>v\<bar> k);
     arr_set scan idx row }"
  have o: "length scan = 11" "\<And>j. j < 11 \<Longrightarrow> length (scan ! j) = 16"
    "\<And>j m. j < 11 \<Longrightarrow> m < 16 \<Longrightarrow> 0 \<le> scan ! j ! m \<and> scan ! j ! m \<le> int B"
    using assms(1) unfolding scan_ok_def by (auto simp: all_set_conv_all_nth)
  have "\<exists>s'. for_loop ?f [1..<m] scan = Some s' \<and> J m s'" if "1 \<le> m" "m \<le> 15" for m
    using that
  proof (induction m rule: dec_induct)
    case base
    have "J 1 scan" using o unfolding J_def by auto
    then show ?case by simp
  next
    case (step m)
    then obtain s where s: "J m s" "for_loop ?f [1..<m] scan = Some s" by auto
    have l: "length s = 11" "length (s ! idx) = 16" using s(1) assms(2) by (simp_all add: J_def)
    have "J (Suc m) (s[idx := (s ! idx)[m := s ! idx ! m + lengthGolomb \<bar>v\<bar> m]])"
      using s(1) step(1) step.prems assms(2) unfolding J_def
      by (simp add: nth_list_update less_Suc_eq)
    then show ?case using s(2) l step assms(2) by (simp add: for_loop_append)
  qed
  from this [of 15] obtain scan' where s: "add_lengths idx \<bar>v\<bar> scan = Some scan'" "J 15 scan'"
    unfolding add_lengths_def by auto
  have "0 \<le> scan' ! j ! m \<and> scan' ! j ! m \<le> int B + 16400" if "j < 11" "m < 16" for j m
    using s(2) o(3) [OF that] lengthGolomb_bound [OF assms(3), of m] that unfolding J_def by auto
  moreover have "length scan' = 11" "\<And>j. j < 11 \<Longrightarrow> length (scan' ! j) = 16" using s(2) by (simp_all add: J_def)
  ultimately have "scan_ok (B + 16400) scan'" unfolding scan_ok_def by (auto simp: all_set_conv_all_nth)
  with s(1) show ?thesis by blast
qed

definition shape_ok :: "alf_shape \<Rightarrow> bool" where
  "shape_ok shape \<longleftrightarrow> shape = AlfFilterShape 5 \<or> shape = AlfFilterShape 7"

lemma shape_law:
  assumes "shape_ok shape"
  shows "getMaxGolombIdx (filterType shape) \<le> 3" "numCoeff shape \<le> 13" "0 < numCoeff shape"
    "i < numCoeff shape - 1 \<Longrightarrow> i < length (golombIdx shape) \<and> golombIdx shape ! i < getMaxGolombIdx (filterType shape)"
proof -
  have "i < length (golombIdx shape) \<and> golombIdx shape ! i < getMaxGolombIdx (filterType shape)" if "i < numCoeff shape - 1" for i
  proof -
    have "list_all (\<lambda>i. i < length (golombIdx shape) \<and> golombIdx shape ! i < getMaxGolombIdx (filterType shape)) [0..<numCoeff shape - 1]"
      using assms unfolding shape_ok_def
      by (elim disjE) (simp_all add: AlfFilterShape_def getMaxGolombIdx_def upt_rec)
    with that show ?thesis by (simp add: list_all_iff)
  qed
  then show "i < numCoeff shape - 1 \<Longrightarrow> i < length (golombIdx shape) \<and> golombIdx shape ! i < getMaxGolombIdx (filterType shape)" .
  show "getMaxGolombIdx (filterType shape) \<le> 3" "numCoeff shape \<le> 13" "0 < numCoeff shape"
    using assms unfolding shape_ok_def by (auto simp: AlfFilterShape_def getMaxGolombIdx_def)
qed

lemma scan_filters_law:
  assumes shape: "shape_ok shape" and n: "n \<le> 25"
    and coded: "\<And>ind. ind < n \<Longrightarrow> \<exists>c. coded ind = Some c"
    and coeff: "\<And>ind i. ind < n \<Longrightarrow> i < numCoeff shape - 1 \<Longrightarrow>
      ind * MAX_NUM_ALF_LUMA_COEFF + i < length coeff \<and> \<bar>coeff ! (ind * MAX_NUM_ALF_LUMA_COEFF + i)\<bar> \<le> 2 ^ 15"
  shows "\<exists>scan. scan_filters shape n coded coeff no_bits = Some scan \<and> scan_ok 5000000 scan"
proof -
  have mono: "scan_ok B scan \<Longrightarrow> B \<le> B' \<Longrightarrow> scan_ok B' scan" for B B' scan
    unfolding scan_ok_def by force
  let ?inner = "\<lambda>ind. for_loop (\<lambda>i scan. do {
         v \<leftarrow> arr_get coeff (ind * MAX_NUM_ALF_LUMA_COEFF + i);
         idx \<leftarrow> arr_get (golombIdx shape) i;
         add_lengths idx \<bar>v\<bar> scan }) [0..<numCoeff shape - 1]"
  have inner: "\<exists>scan'. ?inner ind scan = Some scan' \<and> scan_ok (B + 200000) scan'" if "ind < n" "scan_ok B scan" for ind B scan
  proof -
    have "\<exists>scan'. ?inner ind scan = Some scan' \<and> scan_ok (B + 16400 * length [0..<numCoeff shape - 1]) scan'"
    proof (rule for_loop_grows [where I = scan_ok])
      fix i s m
      assume "i \<in> set [0..<numCoeff shape - 1]" "scan_ok m s"
      then show "\<exists>s'. do { v \<leftarrow> arr_get coeff (ind * MAX_NUM_ALF_LUMA_COEFF + i);
         idx \<leftarrow> arr_get (golombIdx shape) i; add_lengths idx \<bar>v\<bar> s } = Some s' \<and> scan_ok (m + 16400) s'"
        using coeff [of ind i] that(1) shape_law(1) [OF shape] shape_law(4) [OF shape, of i]
        by (simp add: add_lengths_law)
    qed (rule that(2))
    then show ?thesis using shape_law(2) [OF shape] by (auto elim!: mono)
  qed
  have "\<exists>scan. scan_filters shape n coded coeff no_bits = Some scan \<and> scan_ok (0 + 200000 * length [0..<n]) scan"
    unfolding scan_filters_def
  proof (rule for_loop_grows [where I = scan_ok])
    fix ind s m
    assume i: "ind \<in> set [0..<n]" "scan_ok m s"
    then obtain c where c: "coded ind = Some c" using coded by auto
    show "\<exists>s'. do { c \<leftarrow> coded ind; if c then ?inner ind s else Some s } = Some s' \<and> scan_ok (m + 200000) s'"
      using inner [of ind m s] i mono [of m s "m + 200000"] by (cases c) (simp_all add: c)
  qed (simp add: scan_ok_def no_bits_def)
  then show ?thesis using n by (auto elim!: mono)
qed

text \<open>The orders \<open>kMinTab\<close> go up by at most one from class to class, starting from the first order.\<close>

fun rising :: "int \<Rightarrow> int list \<Rightarrow> bool" where
  "rising k [] \<longleftrightarrow> True"
| "rising k (x # xs) \<longleftrightarrow> (x = k \<or> x = k + 1) \<and> rising x xs"

lemma rising_bounds: "rising k xs \<Longrightarrow> x \<in> set xs \<Longrightarrow> k \<le> x \<and> x \<le> k + int (length xs)"
  by (induction xs arbitrary: k) fastforce+

lemma better_order_law:
  assumes "scan_ok B scan" "p < 11" "0 \<le> k" "k \<le> 14"
  shows "\<exists>k' b. better_order scan p k = Some (k', b) \<and> (k' = k \<or> k' = k + 1) \<and> 0 \<le> b \<and> b \<le> int B"
proof -
  have r: "length scan = 11" "length (scan ! p) = 16" "\<And>j. j < 16 \<Longrightarrow> 0 \<le> scan ! p ! j \<and> scan ! p ! j \<le> int B"
    using assms(1,2) unfolding scan_ok_def by (auto simp: all_set_conv_all_nth)
  have "scan_get scan p j = Some (scan ! p ! nat j)" if "0 \<le> j" "j \<le> 15" for j
    using that r assms(2) by (simp add: scan_get_def arr_get_i_def)
  then have "better_order scan p k = Some (if scan ! p ! nat (k + 1) < scan ! p ! nat k then (k + 1, scan ! p ! nat (k + 1)) else (k, scan ! p ! nat k))"
    using assms(3,4) by (simp add: better_order_def)
  then show ?thesis using r(3) [of "nat k"] r(3) [of "nat (k + 1)"] assms(3,4) by auto
qed

lemma start_bits_law:
  assumes "scan_ok B scan"
  shows "set ps \<subseteq> {..<11} \<Longrightarrow> 0 \<le> k \<Longrightarrow> k + int (length ps) \<le> 15 \<Longrightarrow>
    \<exists>v. start_bits scan ps k acc = Some v \<and> v \<le> acc + int (B * length ps)"
proof (induction ps arbitrary: k acc)
  case (Cons p ps)
  then obtain k' b where o: "better_order scan p k = Some (k', b)" "k' = k \<or> k' = k + 1" "0 \<le> b" "b \<le> int B"
    using better_order_law [OF assms, of p k] by auto
  then obtain v where "start_bits scan ps k' (acc + b) = Some v" "v \<le> acc + b + int (B * length ps)"
    using Cons.IH [of k' "acc + b"] Cons.prems by auto
  with o show ?case by (simp add: algebra_simps)
qed simp

lemma best_start_law:
  assumes "scan_ok B scan" "g \<le> 3"
  shows "\<forall>k\<in>set ks. 1 \<le> k \<and> k \<le> 7 \<Longrightarrow>
    \<exists>r. best_start scan g ks mb mk = Some r \<and> (r \<in> set ks \<or> r = mk \<and> (ks \<noteq> [] \<longrightarrow> mb \<le> int (3 * B)))"
proof (induction ks arbitrary: mb mk)
  case (Cons k ks)
  have "\<exists>v. start_bits scan [0..<g] k 0 = Some v \<and> v \<le> 0 + int (B * length [0..<g])"
    by (rule start_bits_law [OF assms(1)]) (use Cons.prems assms(2) in auto)
  then obtain v where v: "start_bits scan [0..<g] k 0 = Some v" "v \<le> int (B * g)" by auto
  have "B * g \<le> B * 3" using assms(2) by (rule mult_le_mono2)
  then have b: "v \<le> int (3 * B)" using v(2) by linarith
  from Cons.IH [of v k] Cons.IH [of mb mk] Cons.prems v b show ?case by auto
qed simp

lemma fill_orders_law:
  assumes "scan_ok B scan"
  shows "a \<le> m \<Longrightarrow> m \<le> length tab \<Longrightarrow> m \<le> 11 \<Longrightarrow> 0 \<le> k \<Longrightarrow> k + int (m - a) \<le> 15 \<Longrightarrow>
    \<exists>tab'. fill_orders scan [a..<m] k tab = Some tab' \<and> length tab' = length tab \<and> take a tab' = take a tab
      \<and> rising k (drop a (take m tab'))"
proof (induction a arbitrary: k tab rule: inc_induct)
  case (step a)
  then obtain k' b where o: "better_order scan a k = Some (k', b)" "k' = k \<or> k' = k + 1"
    using better_order_law [OF assms, of a k] by auto
  then obtain tab' where tab': "fill_orders scan [Suc a..<m] k' (tab[a := k']) = Some tab'" "length tab' = length tab"
    "take (Suc a) tab' = take (Suc a) (tab[a := k'])" "rising k' (drop (Suc a) (take m tab'))"
    using step.IH [of "tab[a := k']" k'] step by auto
  have n: "tab' ! a = k'" using arg_cong [OF tab'(3), of "\<lambda>xs. xs ! a"] step by simp
  have "drop a (take m tab') = tab' ! a # drop (Suc a) (take m tab')" using step tab'(2) by (simp add: Cons_nth_drop_Suc [symmetric])
  moreover have "take a tab' = take a tab" using arg_cong [OF tab'(3), of "take a"] by (simp add: min_def)
  ultimately show ?case using o tab' n step by (simp add: upt_conv_Cons)
qed simp

lemma getGolombKMin_law:
  assumes "shape_ok shape" "length tab = MAX_NUM_ALF_COEFF" "scan_ok 5000000 scan"
  shows "\<exists>k tab'. getGolombKMin shape tab scan = Some (k, tab') \<and> 1 \<le> k \<and> k \<le> 7 \<and> length tab' = MAX_NUM_ALF_COEFF
    \<and> rising k (take (getMaxGolombIdx (filterType shape)) tab')"
proof -
  let ?g = "getMaxGolombIdx (filterType shape)"
  note g = shape_law(1) [OF assms(1)]
  from best_start_law [OF assms(3) g, of "[1, 2, 3, 4, 5, 6, 7]" "2 ^ 31 - 1" "- 1"] obtain k where
    k: "best_start scan ?g [1, 2, 3, 4, 5, 6, 7] (2 ^ 31 - 1) (- 1) = Some k" "1 \<le> k" "k \<le> 7" by auto
  from fill_orders_law [OF assms(3), of 0 ?g tab k] k g assms(2) obtain tab' where
    "fill_orders scan [0..<?g] k tab = Some tab'" "length tab' = length tab" "rising k (take ?g tab')"
    by (auto simp: MAX_NUM_ALF_COEFF_def)
  with k assms(2) show ?thesis by (simp add: getGolombKMin_def del: best_start.simps fill_orders.simps)
qed

lemma codes_orders:
  assumes "length tab = length tab0" "m \<le> length tab" "0 \<le> k" "k < 2 ^ 30" "m < 100" "a \<le> m"
  shows "rising k (drop a (take m tab)) \<Longrightarrow>
    vlc.codes (write_orders [a..<m] tab k) (parse_orders [a..<m] k (overlay a tab tab0)) (overlay m tab tab0)"
proof -
  have "rising k (drop a (take m tab)) \<Longrightarrow> 0 \<le> k \<Longrightarrow> k + int (m - a) < 2 ^ 31 - 1 \<Longrightarrow>
    vlc.codes (write_orders [a..<m] tab k) (parse_orders [a..<m] k (overlay a tab tab0)) (overlay m tab tab0)"
    using assms(6)
  proof (induction a arbitrary: k rule: inc_induct)
    case base
    then show ?case by (simp add: vlc.codes_return write_orders.simps [abs_def] parse_orders.simps [abs_def])
  next
    case (step a)
    have "drop a (take m tab) = tab ! a # drop (Suc a) (take m tab)"
      using step(2) assms(2) by (simp add: Cons_nth_drop_Suc [symmetric])
    then have r: "tab ! a = k \<or> tab ! a = k + 1" "rising (tab ! a) (drop (Suc a) (take m tab))" using step.prems by auto
    have i: "i32 (k + int (of_bool (tab ! a \<noteq> k))) = Some (tab ! a)" using r(1) step.prems step(2) by (auto simp: i32_def)
    have c: "\<not> Suc 0 < of_bool (tab ! a \<noteq> k)" by simp
    have IH: "vlc.codes (write_orders [Suc a..<m] tab (tab ! a)) (parse_orders [Suc a..<m] (tab ! a) (overlay (Suc a) tab tab0))
        (overlay m tab tab0)" by (rule step.IH) (use r step.prems step(2) in auto)
    have w: "write_orders [a..<m] tab k = (\<lambda>s. xWriteFlag (of_bool (tab ! a \<noteq> k)) s \<bind> write_orders [Suc a..<m] tab (tab ! a))"
      using step(2) assms(2) r(1) by (auto simp: upt_conv_Cons fun_eq_iff)
    have p: "parse_orders [a..<m] k (overlay a tab tab0) = (\<lambda>s. xReadFlag s \<bind> (\<lambda>(code, s). check_not (code > 1) \<bind> (\<lambda>_.
        i32 (k + int code) \<bind> (\<lambda>v. arr_set (overlay a tab tab0) a v \<bind> (\<lambda>t. parse_orders [Suc a..<m] v t s)))))"
      using step(2) by (simp add: upt_conv_Cons fun_eq_iff)
    show ?case unfolding w p
      by (rule step_flag) (use IH i c step(2) assms(1,2) in \<open>simp add: overlay_Suc split del: split_of_bool\<close>)
  qed
  then show "rising k (drop a (take m tab)) \<Longrightarrow>
    vlc.codes (write_orders [a..<m] tab k) (parse_orders [a..<m] k (overlay a tab tab0)) (overlay m tab tab0)"
    using assms(3-6) by simp
qed

section \<open>The coefficients\<close>

text \<open>An array of which the entries that satisfy \<open>P\<close> and have a new value have been set.\<close>

definition merge :: "(nat \<Rightarrow> bool) \<Rightarrow> (nat \<Rightarrow> 'a option) \<Rightarrow> 'a list \<Rightarrow> 'a list" where
  "merge P g old = map (\<lambda>p. if P p then (case g p of Some v \<Rightarrow> v | None \<Rightarrow> old ! p) else old ! p) [0..<length old]"

lemma length_merge [simp]: "length (merge P g old) = length old"
  by (simp add: merge_def)

lemma merge_set: "p < length old \<Longrightarrow> g p = Some v \<Longrightarrow> (\<And>q. Q q \<longleftrightarrow> P q \<or> q = p) \<Longrightarrow>
    (merge P g old)[p := v] = merge Q g old"
  by (rule nth_equalityI) (auto simp: merge_def nth_list_update)

lemma merge_same: "(\<And>p. p < length old \<Longrightarrow> P p \<noteq> Q p \<Longrightarrow> g p = None) \<Longrightarrow> merge P g old = merge Q g old"
  by (rule nth_equalityI) (auto simp: merge_def split: option.split)

lemma merge_none [simp]: "merge (\<lambda>p. False) g old = old"
  by (rule nth_equalityI) (auto simp: merge_def)

definition alf_skips :: "alf_param \<Rightarrow> bool \<Rightarrow> nat \<Rightarrow> bool" where
  "alf_skips a isChroma ind \<longleftrightarrow> \<not> isChroma \<and> coeffDeltaFlag a \<and> \<not> filterCoeffFlag a ! ind"

text \<open>What the reader stores at a position: a filter that is not sent is cleared, another one gets all but its last coefficient.\<close>

definition coeff_at :: "alf_param \<Rightarrow> bool \<Rightarrow> nat \<Rightarrow> int option" where
  "coeff_at a isChroma p =
     (let shape = alf_shape_of a isChroma; ind = p div 13; i = p mod 13 in
      if alf_skips a isChroma ind then (if i < numCoeff shape then Some 0 else None)
      else if i < numCoeff shape - 1 then Some (alf_coeff a isChroma ! p) else None)"

definition coeff_received :: "alf_param \<Rightarrow> bool \<Rightarrow> int list \<Rightarrow> int list" where
  "coeff_received a isChroma old = merge (\<lambda>p. p div 13 < alf_num_filters a isChroma) (coeff_at a isChroma) old"

definition alf_wf :: "alf_param \<Rightarrow> bool" where
  "alf_wf a \<longleftrightarrow> length (enabledFlag a) = 3 \<and> length (lumaCoeff a) = 25 * 13 \<and> length (chromaCoeff a) = 7
     \<and> length (filterCoeffDeltaIdx a) = 25 \<and> length (filterCoeffFlag a) = 25"

definition alf_ok :: "alf_param \<Rightarrow> bool" where
  "alf_ok a \<longleftrightarrow> alf_wf a \<and> 1 \<le> numLumaFilters a \<and> numLumaFilters a \<le> 25
     \<and> (\<forall>c\<in>set (lumaCoeff a) \<union> set (chromaCoeff a). - (2 ^ 15) \<le> c \<and> c < 2 ^ 15)
     \<and> (\<forall>d\<in>set (filterCoeffDeltaIdx a). 0 \<le> d \<and> d < numLumaFilters a)
     \<and> lumaFilterType a \<noteq> ALF_NUM_OF_FILTER_TYPES"

lemma alf_shape_ok: "shape_ok (alf_shape_of a isChroma)"
  by (simp add: shape_ok_def alf_shape_of_def)

lemma alf_chroma_shape: "numCoeff (alf_shape_of a True) = 7"
  by (simp add: alf_shape_of_def AlfFilterShape_def)

lemma to_i16_short [simp]: "- 32768 \<le> c \<Longrightarrow> c < 32768 \<Longrightarrow> to_i16 c = c"
  by (simp add: to_i16_def signed_take_bit_int_eq_self_iff)

lemma coeff_pos:
  assumes "alf_ok a" "ind < alf_num_filters a isChroma" "i < numCoeff (alf_shape_of a isChroma)"
  shows "ind * 13 + i < length (alf_coeff a isChroma)"
    "- 32768 \<le> alf_coeff a isChroma ! (ind * 13 + i)" "alf_coeff a isChroma ! (ind * 13 + i) < 32768"
proof -
  have i: "i < 13" using shape_law(2) [OF alf_shape_ok [of a isChroma]] assms(3) by simp
  show l: "ind * 13 + i < length (alf_coeff a isChroma)"
  proof (cases isChroma)
    case True
    then show ?thesis using assms alf_chroma_shape [of a]
      by (simp add: alf_num_filters_def alf_coeff_def alf_ok_def alf_wf_def)
  next
    case False
    then have "ind < 25" using assms(1,2) by (auto simp: alf_num_filters_def alf_ok_def)
    then show ?thesis using False i assms(1) by (simp add: alf_coeff_def alf_ok_def alf_wf_def)
  qed
  have "alf_coeff a isChroma ! (ind * 13 + i) \<in> set (lumaCoeff a) \<union> set (chromaCoeff a)"
    using nth_mem [OF l] by (auto simp: alf_coeff_def split: if_splits)
  then show "- 32768 \<le> alf_coeff a isChroma ! (ind * 13 + i)" "alf_coeff a isChroma ! (ind * 13 + i) < 32768"
    using assms(1) by (auto simp: alf_ok_def)
qed

lemma filter_flags:
  assumes "alf_ok a" "ind < alf_num_filters a isChroma"
  shows "filter_skipped a isChroma ind = Some (alf_skips a isChroma ind)"
    "filter_scanned a isChroma ind = Some (\<not> alf_skips a isChroma ind)"
  using assms by (auto simp: filter_skipped_def filter_scanned_def alf_skips_def alf_num_filters_def alf_ok_def alf_wf_def split: if_splits)

lemma div_mod_13: "i < 13 \<Longrightarrow> (q div 13 = k \<and> q mod 13 = i) \<longleftrightarrow> q = k * 13 + i" for i k q :: nat
  by auto

lemma clear_coeff_law:
  assumes "n \<le> 13" "k * 13 + n \<le> length old" "\<And>i. i < n \<Longrightarrow> g (k * 13 + i) = Some 0"
  shows "clear_coeff k n (merge (\<lambda>p. p div 13 < k) g old) = Some (merge (\<lambda>p. p div 13 < k \<or> p div 13 = k \<and> p mod 13 < n) g old)"
proof -
  let ?Y = "\<lambda>i. merge (\<lambda>p. p div 13 < k \<or> p div 13 = k \<and> p mod 13 < i) g old"
  have "for_loop (\<lambda>i coeff. arr_set coeff (k * MAX_NUM_ALF_LUMA_COEFF + i) 0) [0..<n] (?Y 0) = Some (?Y n)"
  proof (rule for_loop_upt)
    fix i
    assume i: "i < n"
    then have "(?Y i)[k * 13 + i := 0] = ?Y (Suc i)"
      using assms div_mod_13 [of i _ k] by (intro merge_set) (auto simp: less_Suc_eq)
    then show "arr_set (?Y i) (k * MAX_NUM_ALF_LUMA_COEFF + i) 0 = Some (?Y (Suc i))"
      using assms(2) i by (simp add: MAX_NUM_ALF_LUMA_COEFF_def)
  qed simp
  then show ?thesis by (simp add: clear_coeff_def)
qed

lemma codes_filter:
  assumes "n \<le> 13" "k * 13 + n \<le> length old"
    "\<And>i. i < n \<Longrightarrow> g (k * 13 + i) = Some (coeff ! (k * 13 + i)) \<and> k * 13 + i < length coeff
      \<and> - 32768 \<le> coeff ! (k * 13 + i) \<and> coeff ! (k * 13 + i) < 32768"
    "\<And>i. i < n \<Longrightarrow> i < length ids \<and> ids ! i < length tab \<and> ids ! i < length tab'
      \<and> tab' ! (ids ! i) = tab ! (ids ! i) \<and> 0 \<le> tab ! (ids ! i) \<and> tab ! (ids ! i) < 31"
  shows "vlc.codes
    (for_loop (\<lambda>i s. do { v \<leftarrow> arr_get coeff (k * MAX_NUM_ALF_LUMA_COEFF + i);
       idx \<leftarrow> arr_get ids i; j \<leftarrow> arr_get tab idx; alfGolombEncode v j s }) [0..<n])
    (read_loop (\<lambda>i coeff s. do { idx \<leftarrow> arr_get ids i; j \<leftarrow> arr_get tab' idx; (v, s) \<leftarrow> alfGolombDecode j s;
       coeff \<leftarrow> arr_set coeff (k * MAX_NUM_ALF_LUMA_COEFF + i) (to_i16 v); Some (coeff, s) }) [0..<n]
      (merge (\<lambda>p. p div 13 < k) g old))
    (merge (\<lambda>p. p div 13 < k \<or> p div 13 = k \<and> p mod 13 < n) g old)"
proof -
  let ?Y = "\<lambda>i. merge (\<lambda>p. p div 13 < k \<or> p div 13 = k \<and> p mod 13 < i) g old"
  have "vlc.codes
    (for_loop (\<lambda>i s. do { v \<leftarrow> arr_get coeff (k * MAX_NUM_ALF_LUMA_COEFF + i);
       idx \<leftarrow> arr_get ids i; j \<leftarrow> arr_get tab idx; alfGolombEncode v j s }) [0..<n])
    (read_loop (\<lambda>i coeff s. do { idx \<leftarrow> arr_get ids i; j \<leftarrow> arr_get tab' idx; (v, s) \<leftarrow> alfGolombDecode j s;
       coeff \<leftarrow> arr_set coeff (k * MAX_NUM_ALF_LUMA_COEFF + i) (to_i16 v); Some (coeff, s) }) [0..<n] (?Y 0)) (?Y n)"
  proof (rule vlc.codes_read_upt)
    fix i
    assume i: "i < n"
    let ?c = "coeff ! (k * 13 + i)" and ?j = "tab ! (ids ! i)"
    have "(?Y i)[k * 13 + i := ?c] = ?Y (Suc i)"
      using assms(1,2) assms(3) [OF i] i div_mod_13 [of i _ k] by (intro merge_set) (auto simp: less_Suc_eq)
    moreover have "vlc.codes (alfGolombEncode ?c ?j) (alfGolombDecode ?j) ?c"
      by (rule codes_golomb) (use assms(3,4) [OF i] in auto)
    ultimately show "vlc.codes
      (\<lambda>s. do { v \<leftarrow> arr_get coeff (k * MAX_NUM_ALF_LUMA_COEFF + i);
         idx \<leftarrow> arr_get ids i; j \<leftarrow> arr_get tab idx; alfGolombEncode v j s })
      (\<lambda>s. do { idx \<leftarrow> arr_get ids i; j \<leftarrow> arr_get tab' idx; (v, s) \<leftarrow> alfGolombDecode j s;
         coeff \<leftarrow> arr_set (?Y i) (k * MAX_NUM_ALF_LUMA_COEFF + i) (to_i16 v); Some (coeff, s) })
      (?Y (Suc i))"
      using assms(2) assms(3,4) [OF i] i
      by (simp add: MAX_NUM_ALF_LUMA_COEFF_def vlc.codes_bind_end vlc.codes_return)
  qed
  then show ?thesis by simp
qed

lemma codes_coefficients:
  assumes a: "alf_ok a" and len: "length old = length (alf_coeff a isChroma)"
    and shape: "alf_shape_of a' isChroma = alf_shape_of a isChroma"
    and num: "alf_num_filters a' isChroma = alf_num_filters a isChroma"
    and skip: "\<And>ind. ind < alf_num_filters a isChroma \<Longrightarrow> filter_skipped a' isChroma ind = Some (alf_skips a isChroma ind)"
    and tab: "\<And>idx. idx < getMaxGolombIdx (filterType (alf_shape_of a isChroma)) \<Longrightarrow>
      idx < length tab \<and> idx < length tab' \<and> tab' ! idx = tab ! idx \<and> 0 \<le> tab ! idx \<and> tab ! idx < 31"
  shows "vlc.codes (code_coefficients a isChroma tab) (parse_coefficients isChroma a' tab' old) (coeff_received a isChroma old)"
proof -
  let ?sh = "alf_shape_of a isChroma" and ?g = "coeff_at a isChroma" and ?n = "alf_num_filters a isChroma"
  let ?X = "\<lambda>k. merge (\<lambda>p. p div 13 < k) ?g old"
  note sh = shape_law [OF alf_shape_ok [of a isChroma]]
  have at: "?g (k * 13 + i) = (if alf_skips a isChroma k then (if i < numCoeff ?sh then Some 0 else None)
      else if i < numCoeff ?sh - 1 then Some (alf_coeff a isChroma ! (k * 13 + i)) else None)" if "i < 13" for k i
    using that unfolding coeff_at_def Let_def by simp
  have last: "merge (\<lambda>p. p div 13 < k \<or> p div 13 = k \<and> p mod 13 < n) ?g old = ?X (Suc k)"
    if "\<And>i. i < 13 \<Longrightarrow> n \<le> i \<Longrightarrow> ?g (k * 13 + i) = None" for k n
  proof (rule merge_same)
    fix p
    assume "(p div 13 < k \<or> p div 13 = k \<and> p mod 13 < n) \<noteq> (p div 13 < Suc k)"
    then have p: "p div 13 = k" "\<not> p mod 13 < n" by auto
    then show "?g p = None" using that [of "p mod 13"] div_mult_mod_eq [of p 13] by auto
  qed
  have "vlc.codes (code_coefficients a isChroma tab) (parse_coefficients isChroma a' tab' (?X 0)) (?X ?n)"
    unfolding code_coefficients_def parse_coefficients_def Let_def num shape
  proof (rule vlc.codes_read_upt)
    fix k
    assume k: "k < ?n"
    have pos: "k * 13 + i < length old \<and> - 32768 \<le> alf_coeff a isChroma ! (k * 13 + i) \<and> alf_coeff a isChroma ! (k * 13 + i) < 32768"
      if "i < numCoeff ?sh" for i using coeff_pos [OF a k that] len by simp
    have fits: "k * 13 + numCoeff ?sh \<le> length old" using pos [of "numCoeff ?sh - 1"] sh(3) by linarith
    let ?w = "for_loop (\<lambda>i s. do { v \<leftarrow> arr_get (alf_coeff a isChroma) (k * MAX_NUM_ALF_LUMA_COEFF + i);
       idx \<leftarrow> arr_get (golombIdx ?sh) i; j \<leftarrow> arr_get tab idx; alfGolombEncode v j s }) [0..<numCoeff ?sh - 1]"
    let ?r = "\<lambda>c. read_loop (\<lambda>i coeff s. do { idx \<leftarrow> arr_get (golombIdx ?sh) i; j \<leftarrow> arr_get tab' idx; (v, s) \<leftarrow> alfGolombDecode j s;
       coeff \<leftarrow> arr_set coeff (k * MAX_NUM_ALF_LUMA_COEFF + i) (to_i16 v); Some (coeff, s) }) [0..<numCoeff ?sh - 1] c"
    have "vlc.codes (\<lambda>s. if alf_skips a isChroma k then Some s else ?w s)
       (\<lambda>s. if alf_skips a isChroma k then do { coeff \<leftarrow> clear_coeff k (numCoeff ?sh) (?X k); Some (coeff, s) } else ?r (?X k) s)
       (?X (Suc k))"
    proof (rule vlc.codes_if [OF refl])
      assume s: "alf_skips a isChroma k"
      have "clear_coeff k (numCoeff ?sh) (?X k) = Some (merge (\<lambda>p. p div 13 < k \<or> p div 13 = k \<and> p mod 13 < numCoeff ?sh) ?g old)"
        by (rule clear_coeff_law) (use sh(2) fits s at in auto)
      moreover have "merge (\<lambda>p. p div 13 < k \<or> p div 13 = k \<and> p mod 13 < numCoeff ?sh) ?g old = ?X (Suc k)"
        by (rule last) (use s at in simp)
      ultimately show "vlc.codes Some (\<lambda>s. do { coeff \<leftarrow> clear_coeff k (numCoeff ?sh) (?X k); Some (coeff, s) }) (?X (Suc k))"
        by (simp add: vlc.codes_return)
    next
      assume s: "\<not> alf_skips a isChroma k"
      have "vlc.codes ?w (?r (?X k)) (merge (\<lambda>p. p div 13 < k \<or> p div 13 = k \<and> p mod 13 < numCoeff ?sh - 1) ?g old)"
        by (rule codes_filter) (use s fits sh(2,3) at pos len tab sh(4) in auto)
      moreover have "merge (\<lambda>p. p div 13 < k \<or> p div 13 = k \<and> p mod 13 < numCoeff ?sh - 1) ?g old = ?X (Suc k)"
        by (rule last) (use s at in simp)
      ultimately show "vlc.codes ?w (?r (?X k)) (?X (Suc k))" by simp
    qed
    then show "vlc.codes
     (\<lambda>s. filter_skipped a isChroma k \<bind> (\<lambda>skip. if skip then Some s else ?w s))
     (\<lambda>s. filter_skipped a' isChroma k \<bind> (\<lambda>skip. if skip then do { coeff \<leftarrow> clear_coeff k (numCoeff ?sh) (?X k); Some (coeff, s) } else ?r (?X k) s))
     (?X (Suc k))"
      by (simp only: filter_flags(1) [OF a k] skip [OF k] bind.bind_lunit)
  qed
  then show ?thesis by (simp add: coeff_received_def)
qed

section \<open>A set of filters\<close>

definition flags_received :: "alf_param \<Rightarrow> bool list \<Rightarrow> bool list" where
  "flags_received a old = (if coeffDeltaFlag a then overlay (nat (numLumaFilters a)) (filterCoeffFlag a) old else replicate 25 True)"

definition pred_received :: "alf_param \<Rightarrow> bool" where
  "pred_received a \<longleftrightarrow> \<not> coeffDeltaFlag a \<and> numLumaFilters a > 1 \<and> coeffDeltaPredModeFlag a"

definition filter_received :: "alf_param \<Rightarrow> bool \<Rightarrow> alf_param \<Rightarrow> alf_param" where
  "filter_received a isChroma a0 =
     (if isChroma then a0\<lparr>chromaCoeff := coeff_received a True (chromaCoeff a0)\<rparr>
      else a0\<lparr>coeffDeltaFlag := coeffDeltaFlag a, coeffDeltaPredModeFlag := pred_received a,
        filterCoeffFlag := flags_received a (filterCoeffFlag a0), lumaCoeff := coeff_received a False (lumaCoeff a0)\<rparr>)"

lemma codes_delta_flags:
  assumes "numLumaFilters a0 = numLumaFilters a"
  shows "vlc.codes (code_delta_flags a isChroma) (parse_delta_flags a0 isChroma)
    (if isChroma then a0 else a0\<lparr>coeffDeltaFlag := coeffDeltaFlag a, coeffDeltaPredModeFlag := pred_received a,
       filterCoeffFlag := if coeffDeltaFlag a then filterCoeffFlag a0 else replicate 25 True\<rparr>)"
proof (cases isChroma)
  case True
  then show ?thesis by (simp add: code_delta_flags_def [abs_def] parse_delta_flags_def [abs_def] vlc.codes_return)
next
  case False
  have r: "parse_delta_flags a0 isChroma = (\<lambda>s. xReadFlag s \<bind> (\<lambda>(code, s).
      let a = a0\<lparr>coeffDeltaFlag := (code \<noteq> 0)\<rparr> in
      if \<not> coeffDeltaFlag a then let a = a\<lparr>filterCoeffFlag := replicate MAX_NUM_ALF_CLASSES True\<rparr> in
        if numLumaFilters a > 1 then xReadFlag s \<bind> (\<lambda>(code, s). Some (a\<lparr>coeffDeltaPredModeFlag := (code \<noteq> 0)\<rparr>, s))
        else Some (a\<lparr>coeffDeltaPredModeFlag := False\<rparr>, s)
      else Some (a\<lparr>coeffDeltaPredModeFlag := False\<rparr>, s)))"
    using False by (simp add: parse_delta_flags_def [abs_def])
  show ?thesis
  proof (cases "coeffDeltaFlag a \<or> numLumaFilters a \<le> 1")
    case True
    have "code_delta_flags a isChroma = xWriteFlag (of_bool (coeffDeltaFlag a))"
      using True False by (auto simp: code_delta_flags_def [abs_def] split: bind_splits)
    then show ?thesis using True False assms unfolding r
      by (simp only: simp_thms if_False)
        (rule vlc.codes_bind_end [OF codes_flag_bool], auto simp: pred_received_def MAX_NUM_ALF_CLASSES_def vlc.codes_return)
  next
    case n: False
    then have w: "code_delta_flags a isChroma = (\<lambda>s. xWriteFlag (of_bool (coeffDeltaFlag a)) s \<bind> xWriteFlag (of_bool (coeffDeltaPredModeFlag a)))"
      using False by (simp add: code_delta_flags_def [abs_def])
    have "vlc.codes (xWriteFlag (of_bool (coeffDeltaPredModeFlag a))) (\<lambda>s. xReadFlag s \<bind> (\<lambda>(code, s).
        Some (a0\<lparr>coeffDeltaFlag := False, filterCoeffFlag := replicate 25 True, coeffDeltaPredModeFlag := (code \<noteq> 0)\<rparr>, s)))
        (a0\<lparr>coeffDeltaFlag := coeffDeltaFlag a, coeffDeltaPredModeFlag := pred_received a, filterCoeffFlag := replicate 25 True\<rparr>)"
      by (rule vlc.codes_bind_end [OF codes_flag_bool]) (use n in \<open>auto simp: pred_received_def vlc.codes_return\<close>)
    then show ?thesis
      unfolding w r
      by (intro vlc.codes_bind [OF codes_flag_bool]) (use n False assms in \<open>simp add: Let_def MAX_NUM_ALF_CLASSES_def\<close>)
  qed
qed

lemma codes_coeff_flags:
  assumes "alf_ok a" "length (filterCoeffFlag a0) = 25" "numLumaFilters a0 = numLumaFilters a" "coeffDeltaFlag a0 = coeffDeltaFlag a"
  shows "vlc.codes (code_coeff_flags a isChroma) (parse_coeff_flags a0 isChroma)
    (if \<not> isChroma \<and> coeffDeltaFlag a then a0\<lparr>filterCoeffFlag := overlay (nat (numLumaFilters a)) (filterCoeffFlag a) (filterCoeffFlag a0)\<rparr> else a0)"
proof -
  let ?X = "\<lambda>k. a0\<lparr>filterCoeffFlag := overlay k (filterCoeffFlag a) (filterCoeffFlag a0)\<rparr>"
  have l: "length (filterCoeffFlag a) = length (filterCoeffFlag a0)" using assms(1,2) by (simp add: alf_ok_def alf_wf_def)
  have "vlc.codes (for_loop (\<lambda>ind s. do { f \<leftarrow> arr_get (filterCoeffFlag a) ind; xWriteFlag (of_bool f) s }) [0..<nat (numLumaFilters a)])
    (read_loop (\<lambda>ind a s. do {
          (code, s) \<leftarrow> xReadFlag s;
          f \<leftarrow> arr_set (filterCoeffFlag a) ind (code \<noteq> 0);
          Some (a\<lparr>filterCoeffFlag := f\<rparr>, s) }) [0..<nat (numLumaFilters a)] (?X 0)) (?X (nat (numLumaFilters a)))"
  proof (rule vlc.codes_read_upt)
    fix k
    assume "k < nat (numLumaFilters a)"
    then have k: "k < length (filterCoeffFlag a0)" using assms(1,2) by (auto simp: alf_ok_def)
    have b: "(of_bool (filterCoeffFlag a ! k) \<noteq> (0 :: nat)) = filterCoeffFlag a ! k" by simp
    show "vlc.codes (\<lambda>s. do { f \<leftarrow> arr_get (filterCoeffFlag a) k; xWriteFlag (of_bool f) s })
      (\<lambda>s. do { (code, s) \<leftarrow> xReadFlag s; f \<leftarrow> arr_set (filterCoeffFlag (?X k)) k (code \<noteq> 0); Some (?X k\<lparr>filterCoeffFlag := f\<rparr>, s) })
      (?X (Suc k))"
      using k l by (auto intro!: vlc.codes_bind_end [OF codes_flag_bool] vlc.codes_return
        simp: overlay_Suc b simp del: of_bool_eq_0_iff split del: split_of_bool)
  qed
  then show ?thesis using assms(3,4)
    by (simp add: code_coeff_flags_def [abs_def] parse_coeff_flags_def [abs_def] alf_num_filters_def vlc.codes_return)
qed

lemma nth_rising: "rising k xs \<Longrightarrow> i < length xs \<Longrightarrow> k \<le> xs ! i \<and> xs ! i \<le> k + int (length xs)"
  by (rule rising_bounds) auto

lemma alf_skips_received:
  assumes "alf_ok a" "ind < alf_num_filters a isChroma" "length (filterCoeffFlag a0) = 25"
    "\<not> isChroma \<longrightarrow> coeffDeltaFlag a' = coeffDeltaFlag a \<and> filterCoeffFlag a' = flags_received a (filterCoeffFlag a0)"
  shows "filter_skipped a' isChroma ind = Some (alf_skips a isChroma ind)"
proof (cases isChroma)
  case False
  have "ind < nat (numLumaFilters a)" "ind < 25" using assms(1,2) False by (auto simp: alf_num_filters_def alf_ok_def)
  then show ?thesis using assms False
    by (auto simp: filter_skipped_def alf_skips_def flags_received_def alf_ok_def alf_wf_def nth_overlay)
qed (simp add: filter_skipped_def alf_skips_def)

lemma codes_alfFilter:
  assumes a: "alf_ok a" and a0: "alf_wf a0" and tabs: "length tab = MAX_NUM_ALF_COEFF" "length tab' = MAX_NUM_ALF_COEFF"
    and same: "numLumaFilters a0 = numLumaFilters a" "lumaFilterType a0 = lumaFilterType a"
  shows "vlc.codes (code_alfFilter tab a isChroma) (parse_alfFilter tab' a0 isChroma) (filter_received a isChroma a0)"
proof -
  let ?sh = "alf_shape_of a isChroma" and ?n = "alf_num_filters a isChroma"
  let ?m = "getMaxGolombIdx (filterType ?sh)"
  note ok = alf_shape_ok [of a isChroma]
  have n: "?n \<le> 25" using a by (auto simp: alf_num_filters_def alf_ok_def)
  have "\<exists>scan. scan_filters ?sh ?n (filter_scanned a isChroma) (alf_coeff a isChroma) no_bits = Some scan \<and> scan_ok 5000000 scan"
  proof (rule scan_filters_law [OF ok n])
    show "\<exists>c. filter_scanned a isChroma ind = Some c" if "ind < ?n" for ind using filter_flags(2) [OF a that] by blast
    show "ind * MAX_NUM_ALF_LUMA_COEFF + i < length (alf_coeff a isChroma) \<and>
        \<bar>alf_coeff a isChroma ! (ind * MAX_NUM_ALF_LUMA_COEFF + i)\<bar> \<le> 2 ^ 15" if "ind < ?n" "i < numCoeff ?sh - 1" for ind i
    proof -
      have "i < numCoeff ?sh" using that(2) by linarith
      from coeff_pos [OF a that(1) this] show ?thesis by (simp add: MAX_NUM_ALF_LUMA_COEFF_def abs_le_iff)
    qed
  qed
  then obtain scan where scan: "scan_filters ?sh ?n (filter_scanned a isChroma) (alf_coeff a isChroma) no_bits = Some scan"
    "scan_ok 5000000 scan" by blast
  from getGolombKMin_law [OF ok tabs(1) scan(2)] obtain k ks where ks: "getGolombKMin ?sh tab scan = Some (k, ks)"
    "1 \<le> k" "k \<le> 7" "length ks = MAX_NUM_ALF_COEFF" "rising k (take ?m ks)" by blast
  have m: "?m \<le> 3" by (rule shape_law(1) [OF ok])
  have kn: "to_u32 (k - 1) < 2 ^ 31 - 1" "to_i32 (u32 (to_u32 (k - 1) + 1)) = k"
    using ks(2,3) by (simp_all add: take_bit_nat_eq_self)
  let ?z = "\<lambda>f. if isChroma then a0 else a0\<lparr>coeffDeltaFlag := coeffDeltaFlag a, coeffDeltaPredModeFlag := pred_received a,
       filterCoeffFlag := f\<rparr>"
  define z1 where "z1 = ?z (if coeffDeltaFlag a then filterCoeffFlag a0 else replicate 25 True)"
  define z2 where "z2 = ?z (flags_received a (filterCoeffFlag a0))"
  have z1: "alf_shape_of z1 isChroma = ?sh" using same by (auto simp: z1_def alf_shape_of_def)
  have z2: "alf_shape_of z2 isChroma = ?sh" "alf_num_filters z2 isChroma = ?n" "alf_coeff z2 isChroma = alf_coeff a0 isChroma"
    using same by (auto simp: z2_def alf_shape_of_def alf_num_filters_def alf_coeff_def)
  have c1: "vlc.codes (code_delta_flags a isChroma) (parse_delta_flags a0 isChroma) z1"
    unfolding z1_def by (rule codes_delta_flags [OF same(1)])
  have c2: "vlc.codes (write_orders [0..<?m] ks k) (parse_orders [0..<?m] k tab') (overlay ?m ks tab')"
    using codes_orders [of ks tab' ?m k 0] ks tabs m by (simp add: MAX_NUM_ALF_COEFF_def)
  have c3: "vlc.codes (code_coeff_flags a isChroma) (parse_coeff_flags z1 isChroma) z2"
  proof -
    have z: "(if \<not> isChroma \<and> coeffDeltaFlag a
        then z1\<lparr>filterCoeffFlag := overlay (nat (numLumaFilters a)) (filterCoeffFlag a) (filterCoeffFlag z1)\<rparr> else z1) = z2"
      by (simp add: z1_def z2_def flags_received_def)
    have "vlc.codes (code_coeff_flags a isChroma) (parse_coeff_flags z1 isChroma) (if \<not> isChroma \<and> coeffDeltaFlag a
        then z1\<lparr>filterCoeffFlag := overlay (nat (numLumaFilters a)) (filterCoeffFlag a) (filterCoeffFlag z1)\<rparr> else z1)"
    proof (cases isChroma)
      case True
      then show ?thesis by (simp add: code_coeff_flags_def [abs_def] parse_coeff_flags_def [abs_def] vlc.codes_return)
    next
      case False
      then show ?thesis by (intro codes_coeff_flags) (use a a0 same in \<open>simp_all add: z1_def alf_wf_def\<close>)
    qed
    then show ?thesis unfolding z .
  qed
  have c4: "vlc.codes (code_coefficients a isChroma ks) (parse_coefficients isChroma z2 (overlay ?m ks tab') (alf_coeff a0 isChroma))
      (coeff_received a isChroma (alf_coeff a0 isChroma))"
  proof (rule codes_coefficients [OF a _ z2(1,2)])
    show "length (alf_coeff a0 isChroma) = length (alf_coeff a isChroma)" using a a0 by (simp add: alf_coeff_def alf_ok_def alf_wf_def)
    show "filter_skipped z2 isChroma ind = Some (alf_skips a isChroma ind)" if "ind < ?n" for ind
      by (rule alf_skips_received [OF a that, of a0]) (use a0 in \<open>auto simp: z2_def alf_wf_def\<close>)
    show "idx < length ks \<and> idx < length (overlay ?m ks tab') \<and> overlay ?m ks tab' ! idx = ks ! idx \<and> 0 \<le> ks ! idx \<and> ks ! idx < 31"
      if "idx < ?m" for idx
      using that m ks tabs nth_rising [OF ks(5), of idx] by (simp add: MAX_NUM_ALF_COEFF_def nth_overlay)
  qed
  have e: "set_coeff isChroma (coeff_received a isChroma (alf_coeff a0 isChroma)) z2 = filter_received a isChroma a0"
    by (simp add: set_coeff_def z2_def filter_received_def alf_coeff_def)
  show ?thesis
    unfolding code_alfFilter_def parse_alfFilter_def Let_def scan(1) ks(1) bind.bind_lunit prod.case
    by (rule vlc.codes_bind [OF c1], rule step_uvlc [OF kn(1)], simp only: kn(2) z1,
        rule vlc.codes_bind [OF c2], rule vlc.codes_bind [OF c3], simp only: z2(3),
        rule vlc.codes_bind_end [OF c4], rule vlc.codes_return, rule e)
qed

section \<open>The parameters of a slice\<close>

text \<open>
  What the decoder has after reading the parameters into \<open>a0\<close>: everything sent; where nothing is sent it keeps its old
  values, except for the flags and indices that the reader sets itself.
\<close>

definition alf_received :: "alf_param \<Rightarrow> alf_param \<Rightarrow> alf_param" where
  "alf_received a a0 =
     (if \<not> enabledFlag a ! 0 then a0\<lparr>enabledFlag := [False, False, False]\<rparr>
      else let a1 = filter_received a False (a0\<lparr>enabledFlag := enabledFlag a, numLumaFilters := numLumaFilters a,
             lumaFilterType := lumaFilterType a,
             filterCoeffDeltaIdx := if numLumaFilters a > 1 then filterCoeffDeltaIdx a else replicate 25 0\<rparr>) in
        if enabledFlag a ! 1 \<or> enabledFlag a ! 2
        then filter_received a True (a1\<lparr>chromaCtbPresentFlag := chromaCtbPresentFlag a\<rparr>) else a1)"

lemma codes_delta_idx:
  assumes a: "alf_ok a" and z: "length (filterCoeffDeltaIdx z) = 25" "numLumaFilters z = numLumaFilters a"
  shows "vlc.codes
    (\<lambda>s. if numLumaFilters a > 1 then for_loop (\<lambda>i s. do {
           d \<leftarrow> arr_get (filterCoeffDeltaIdx a) i;
           write_TruncBinCode (to_u32 d) (nat (numLumaFilters a)) s }) [0..<MAX_NUM_ALF_CLASSES] s else Some s)
    (\<lambda>s. if numLumaFilters z > 1 then read_loop (\<lambda>i a s. do {
            (code, s) \<leftarrow> read_TruncBinCode (nat (numLumaFilters a)) s;
            d \<leftarrow> arr_set (filterCoeffDeltaIdx a) i (to_i16 (to_i32 code));
            Some (a\<lparr>filterCoeffDeltaIdx := d\<rparr>, s) }) [0..<MAX_NUM_ALF_CLASSES] z s
          else Some (z\<lparr>filterCoeffDeltaIdx := replicate MAX_NUM_ALF_CLASSES 0\<rparr>, s))
    (z\<lparr>filterCoeffDeltaIdx := if numLumaFilters a > 1 then filterCoeffDeltaIdx a else replicate 25 0\<rparr>)"
proof (rule vlc.codes_if, simp only: z(2))
  assume n: "numLumaFilters a > 1"
  let ?X = "\<lambda>k. z\<lparr>filterCoeffDeltaIdx := overlay k (filterCoeffDeltaIdx a) (filterCoeffDeltaIdx z)\<rparr>"
  have l: "length (filterCoeffDeltaIdx a) = 25" using a by (simp add: alf_ok_def alf_wf_def)
  have "vlc.codes
    (for_loop (\<lambda>i s. do { d \<leftarrow> arr_get (filterCoeffDeltaIdx a) i; write_TruncBinCode (to_u32 d) (nat (numLumaFilters a)) s }) [0..<25])
    (read_loop (\<lambda>i a s. do {
            (code, s) \<leftarrow> read_TruncBinCode (nat (numLumaFilters a)) s;
            d \<leftarrow> arr_set (filterCoeffDeltaIdx a) i (to_i16 (to_i32 code));
            Some (a\<lparr>filterCoeffDeltaIdx := d\<rparr>, s) }) [0..<25] (?X 0)) (?X 25)"
  proof (rule vlc.codes_read_upt)
    fix k :: nat
    assume k: "k < 25"
    let ?d = "filterCoeffDeltaIdx a ! k"
    have "?d \<in> set (filterCoeffDeltaIdx a)" using k l by simp
    then have d: "0 \<le> ?d" "?d < numLumaFilters a" "numLumaFilters a \<le> 25" using a by (auto simp: alf_ok_def)
    have "vlc.codes (write_TruncBinCode (to_u32 ?d) (nat (numLumaFilters a))) (read_TruncBinCode (nat (numLumaFilters a))) (nat ?d)"
      using codes_TruncBinCode [of "nat ?d" "nat (numLumaFilters a)"] d n by simp
    moreover have "to_i16 (to_i32 (nat ?d)) = ?d" using d by simp
    ultimately show "vlc.codes
      (\<lambda>s. do { d \<leftarrow> arr_get (filterCoeffDeltaIdx a) k; write_TruncBinCode (to_u32 d) (nat (numLumaFilters a)) s })
      (\<lambda>s. do { (code, s) \<leftarrow> read_TruncBinCode (nat (numLumaFilters (?X k))) s;
         d \<leftarrow> arr_set (filterCoeffDeltaIdx (?X k)) k (to_i16 (to_i32 code)); Some (?X k\<lparr>filterCoeffDeltaIdx := d\<rparr>, s) })
      (?X (Suc k))"
      using k l z by (simp add: overlay_Suc vlc.codes_bind_end vlc.codes_return)
  qed
  then show "vlc.codes
    (for_loop (\<lambda>i s. do { d \<leftarrow> arr_get (filterCoeffDeltaIdx a) i; write_TruncBinCode (to_u32 d) (nat (numLumaFilters a)) s }) [0..<MAX_NUM_ALF_CLASSES])
    (read_loop (\<lambda>i a s. do {
            (code, s) \<leftarrow> read_TruncBinCode (nat (numLumaFilters a)) s;
            d \<leftarrow> arr_set (filterCoeffDeltaIdx a) i (to_i16 (to_i32 code));
            Some (a\<lparr>filterCoeffDeltaIdx := d\<rparr>, s) }) [0..<MAX_NUM_ALF_CLASSES] z)
    (z\<lparr>filterCoeffDeltaIdx := if numLumaFilters a > 1 then filterCoeffDeltaIdx a else replicate 25 0\<rparr>)"
    using n l z by (simp add: MAX_NUM_ALF_CLASSES_def)
qed (simp add: MAX_NUM_ALF_CLASSES_def vlc.codes_return)

lemma chroma_idc_flags:
  "drop_bit 1 (of_bool b * 2 + of_bool c :: nat) \<noteq> 0 \<longleftrightarrow> b" "(of_bool b * 2 + of_bool c :: nat) AND 1 \<noteq> 0 \<longleftrightarrow> c"
  by (cases b; cases c; simp add: drop_bit_nat_def and_one_eq)+

lemma codes_alf:
  assumes a: "alf_ok a" and a0: "alf_wf a0"
    and tabs: "length tab = 25" "length tab' = 25" "length dtab = 25" "length dtab' = 25"
  shows "vlc.codes (code_alf tab tab' a) (parse_alf dtab dtab' a0) (alf_received a a0)"
proof -
  obtain y cb cr where e: "enabledFlag a = [y, cb, cr]"
    using a by (auto simp: alf_ok_def alf_wf_def length_Suc_conv numeral_3_eq_3)
  obtain y0 cb0 cr0 where e0: "enabledFlag a0 = [y0, cb0, cr0]"
    using a0 by (auto simp: alf_wf_def length_Suc_conv numeral_3_eq_3)
  let ?idc = "of_bool cb * 2 + of_bool cr :: nat"
  define z1 where "z1 = a0\<lparr>enabledFlag := [True, cb, cr], numLumaFilters := numLumaFilters a, lumaFilterType := lumaFilterType a\<rparr>"
  define z2 where "z2 = z1\<lparr>filterCoeffDeltaIdx := if numLumaFilters a > 1 then filterCoeffDeltaIdx a else replicate 25 0\<rparr>"
  define z3 where "z3 = filter_received a False z2"
  have z1: "length (filterCoeffDeltaIdx z1) = 25" "numLumaFilters z1 = numLumaFilters a" using a0 by (simp_all add: z1_def alf_wf_def)
  have z2: "alf_wf z2" "numLumaFilters z2 = numLumaFilters a" "lumaFilterType z2 = lumaFilterType a"
    using a a0 by (auto simp: z2_def z1_def alf_wf_def alf_ok_def)
  have z3: "alf_wf (z3\<lparr>chromaCtbPresentFlag := b\<rparr>)" "numLumaFilters z3 = numLumaFilters a" "lumaFilterType z3 = lumaFilterType a" for b
    using a z2 by (auto simp: z3_def filter_received_def alf_wf_def alf_ok_def flags_received_def coeff_received_def)
  have n: "1 \<le> numLumaFilters a" "numLumaFilters a \<le> 25" using a by (auto simp: alf_ok_def)
  have c0: "vlc.codes (write_truncatedUnaryEqProb ?idc 3) (read_truncatedUnaryEqProb 3 0) ?idc"
    by (rule codes_truncatedUnaryEqProb) (cases cb; cases cr; simp)+
  have c1: "vlc.codes (write_TruncBinCode (to_u32 (numLumaFilters a - 1)) MAX_NUM_ALF_CLASSES) (read_TruncBinCode MAX_NUM_ALF_CLASSES)
      (nat (numLumaFilters a - 1))"
    using codes_TruncBinCode [of "nat (numLumaFilters a - 1)" 25] n by (simp add: MAX_NUM_ALF_CLASSES_def nat_less_iff)
  have n': "to_i32 (u32 (nat (numLumaFilters a - 1) + 1)) = numLumaFilters a" using n by (simp add: take_bit_nat_eq_self nat_less_iff)
  have lf: "(if of_bool (lumaFilterType a = ALF_FILTER_5) \<noteq> (0 :: nat) then ALF_FILTER_5 else ALF_FILTER_7) = lumaFilterType a"
    using a by (cases "lumaFilterType a") (simp_all add: alf_ok_def)
  have last: "vlc.codes (\<lambda>s. if ?idc \<noteq> 0 then do {
         s \<leftarrow> xWriteFlag (of_bool (chromaCtbPresentFlag a)) s; code_alfFilter tab' a True s } else Some s)
      (\<lambda>s. if ?idc \<noteq> 0 then do {
         (code, s) \<leftarrow> xReadFlag s; parse_alfFilter dtab' (z3\<lparr>chromaCtbPresentFlag := (code \<noteq> 0)\<rparr>) True s } else Some (z3, s))
      (if cb \<or> cr then filter_received a True (z3\<lparr>chromaCtbPresentFlag := chromaCtbPresentFlag a\<rparr>) else z3)"
  proof (rule vlc.codes_if [OF refl])
    assume "?idc \<noteq> 0"
    then have i: "cb \<or> cr" by auto
    have "vlc.codes (code_alfFilter tab' a True) (parse_alfFilter dtab' (z3\<lparr>chromaCtbPresentFlag := chromaCtbPresentFlag a\<rparr>) True)
        (filter_received a True (z3\<lparr>chromaCtbPresentFlag := chromaCtbPresentFlag a\<rparr>))"
      by (rule codes_alfFilter [OF a z3(1)]) (simp_all add: tabs MAX_NUM_ALF_COEFF_def z3)
    then show "vlc.codes (\<lambda>s. do { s \<leftarrow> xWriteFlag (of_bool (chromaCtbPresentFlag a)) s; code_alfFilter tab' a True s })
      (\<lambda>s. do { (code, s) \<leftarrow> xReadFlag s; parse_alfFilter dtab' (z3\<lparr>chromaCtbPresentFlag := (code \<noteq> 0)\<rparr>) True s })
      (if cb \<or> cr then filter_received a True (z3\<lparr>chromaCtbPresentFlag := chromaCtbPresentFlag a\<rparr>) else z3)"
      by (intro step_flag) (simp add: i)
  qed (auto simp: vlc.codes_return)
  have c2: "vlc.codes (code_alfFilter tab a False) (parse_alfFilter dtab z2 False) z3"
    unfolding z3_def by (rule codes_alfFilter [OF a z2(1)]) (simp_all add: tabs MAX_NUM_ALF_COEFF_def z2)
  have gets: "arr_get [y', cb, cr] 0 = Some y'" "arr_get [y', cb, cr] 1 = Some cb" "arr_get [y', cb, cr] 2 = Some cr" for y'
    by (simp_all add: arr_get_def)
  have sets: "arr_set [y', cb0, cr0] 0 v = Some [v, cb0, cr0]" "arr_set [v, b', cr0] 1 w = Some [v, w, cr0]"
    "arr_set [v, w, c'] 2 u = Some [v, w, u]" for y' v w u b' c' :: bool by (simp_all add: arr_set_def)
  show ?thesis
  proof (cases y)
    case False
    then show ?thesis
      by (simp add: code_alf_def [abs_def] parse_alf_def [abs_def] e e0 COMPONENT_Y_def COMPONENT_Cb_def COMPONENT_Cr_def
          alf_received_def arr_set_def vlc.codes_bind_end [OF codes_flag] vlc.codes_return)
  next
    case True
    have r: "alf_received a a0 = (if cb \<or> cr then filter_received a True (z3\<lparr>chromaCtbPresentFlag := chromaCtbPresentFlag a\<rparr>) else z3)"
      unfolding alf_received_def e z3_def z2_def z1_def by (simp add: True Let_def split del: if_split)
    have "vlc.codes (code_alf tab tab' a) (parse_alf dtab dtab' a0)
        (if cb \<or> cr then filter_received a True (z3\<lparr>chromaCtbPresentFlag := chromaCtbPresentFlag a\<rparr>) else z3)"
      unfolding code_alf_def parse_alf_def e e0 COMPONENT_Y_def COMPONENT_Cb_def COMPONENT_Cr_def Let_def
      apply (simp only: gets bind.bind_lunit True)
      apply (rule step_flag)
      apply (simp only: sets bind.bind_lunit of_bool_eq one_neq_zero not_False_eq_True if_False simp_thms)
      apply (rule vlc.codes_bind [OF c0])
      apply (simp only: chroma_idc_flags sets bind.bind_lunit)
      apply (rule vlc.codes_bind [OF c1], rule step_flag)
      apply (simp only: n' lf flip: z1_def)
      apply (rule vlc.codes_bind [OF codes_delta_idx [OF a z1]])
      apply (simp only: flip: z2_def)
      apply (rule vlc.codes_bind [OF c2])
      apply (rule last)
      done
    then show ?thesis unfolding r .
  qed
qed

section \<open>What the reader accepts\<close>

definition shorts :: "int list \<Rightarrow> bool" where
  "shorts cs \<longleftrightarrow> (\<forall>c\<in>set cs. - (2 ^ 15) \<le> c \<and> c < 2 ^ 15)"

lemma to_i16_range: "- (2 ^ 15) \<le> to_i16 v \<and> to_i16 v < 2 ^ 15"
  unfolding to_i16_def using signed_take_bit_int_greater_eq_minus_exp [of 15 v] signed_take_bit_int_less_exp [of 15 v] by simp

lemma shorts_set:
  assumes "arr_set cs i v = Some cs'" "shorts cs" "- (2 ^ 15) \<le> v \<and> v < 2 ^ 15"
  shows "shorts cs'" "length cs' = length cs"
proof -
  have c: "cs' = cs[i := v]" using assms(1) by (simp add: arr_set_def split: if_splits)
  have "set cs' \<subseteq> insert v (set cs)" unfolding c by (rule set_update_subset_insert)
  then show "shorts cs'" using assms(2,3) unfolding shorts_def by blast
  show "length cs' = length cs" by (simp add: c)
qed

lemma clear_coeff_shorts:
  assumes "clear_coeff ind n cs = Some cs'" "shorts cs"
  shows "shorts cs' \<and> length cs' = length cs"
proof (rule for_loop_inv [OF _ assms(1) [unfolded clear_coeff_def], where I = "\<lambda>xs. shorts xs \<and> length xs = length cs"])
  fix i s s'
  assume "shorts s \<and> length s = length cs" "arr_set s (ind * MAX_NUM_ALF_LUMA_COEFF + i) 0 = Some s'"
  then show "shorts s' \<and> length s' = length cs" using shorts_set [of s _ 0 s'] by simp
qed (use assms(2) in simp)

definition alf_limits :: "alf_param \<Rightarrow> bool" where
  "alf_limits a \<longleftrightarrow> alf_wf a \<and> shorts (lumaCoeff a) \<and> shorts (chromaCoeff a)
     \<and> 1 \<le> numLumaFilters a \<and> numLumaFilters a \<le> 25
     \<and> (\<forall>d\<in>set (filterCoeffDeltaIdx a). 0 \<le> d \<and> d < numLumaFilters a)
     \<and> lumaFilterType a \<noteq> ALF_NUM_OF_FILTER_TYPES"

lemma alf_limits_update:
  "alf_limits a \<Longrightarrow> length f = 25 \<Longrightarrow> alf_limits (a\<lparr>filterCoeffFlag := f\<rparr>)"
  "alf_limits a \<Longrightarrow> alf_limits (a\<lparr>coeffDeltaFlag := b\<rparr>)"
  "alf_limits a \<Longrightarrow> alf_limits (a\<lparr>coeffDeltaPredModeFlag := b\<rparr>)"
  "alf_limits a \<Longrightarrow> alf_limits (a\<lparr>chromaCtbPresentFlag := b\<rparr>)"
  "alf_limits a \<Longrightarrow> shorts c \<Longrightarrow> length c = length (alf_coeff a ch) \<Longrightarrow> alf_limits (set_coeff ch c a)"
  by (auto simp: alf_limits_def alf_wf_def set_coeff_def alf_coeff_def)

lemma yields_delta_flags: "alf_limits a \<Longrightarrow> rd.yields (parse_delta_flags a ch) alf_limits"
  unfolding parse_delta_flags_def Let_def
  by (intro rd.yields_if yields_elements rd.yields_return) (simp_all add: alf_limits_update MAX_NUM_ALF_CLASSES_def)

lemma yields_coeff_flags:
  assumes "alf_limits a"
  shows "rd.yields (parse_coeff_flags a ch) alf_limits"
  unfolding parse_coeff_flags_def
proof (intro rd.yields_if rd.yields_return rd.yields_loop)
  fix i x
  assume x: "alf_limits x"
  then have "length (filterCoeffFlag x) = 25" by (simp add: alf_limits_def alf_wf_def)
  then show "rd.yields (\<lambda>s. do { (code, s) \<leftarrow> xReadFlag s; f \<leftarrow> arr_set (filterCoeffFlag x) i (code \<noteq> 0);
      Some (x\<lparr>filterCoeffFlag := f\<rparr>, s) }) alf_limits"
    using x by (intro yields_elements rd.yields_option rd.yields_return) (auto simp: arr_set_def alf_limits_update split: if_splits)
qed (use assms in auto)

lemma yields_ones: "rd.yields (read_ones n) (\<lambda>_. True)"
proof -
  have "read_ones n s = Some (v, s') \<Longrightarrow> ibs_inv s \<Longrightarrow> ibs_inv s'" for s v s'
  proof (induction n s rule: read_ones.induct)
    case (1 n s)
    then obtain b s1 where b: "xReadFlag s = Some (b, s1)" by (auto simp: read_ones.simps [of n s] split: option.splits)
    then have i: "ibs_inv s1" using rd.yieldsD [OF yields_flag 1(3)] by blast
    show ?case
      using 1(1) [OF b refl] 1(2) b i by (cases "b = 0") (simp_all add: read_ones.simps [of n s])
  qed
  then show ?thesis by (intro rd.yieldsI) auto
qed

lemma yields_low_bits: "rd.yields (read_low_bits k a nr) (\<lambda>_. True)"
proof (induction k arbitrary: a nr)
  case 0
  show ?case by (rule rd.yieldsI) simp
next
  case (Suc k)
  show ?case unfolding read_low_bits.simps by (intro yields_elements Suc)
qed

lemma yields_golomb: "rd.yields (alfGolombDecode k) (\<lambda>_. True)"
  unfolding alfGolombDecode_def
  by (intro rd.yields_option rd.yields_bind [OF yields_ones] rd.yields_bind [OF yields_low_bits] rd.yields_if yields_elements
      rd.yields_return) simp_all

lemma yields_orders: "rd.yields (parse_orders ids k tab) (\<lambda>_. True)"
proof (induction ids arbitrary: k tab)
  case Nil
  show ?case by (rule rd.yieldsI) simp
next
  case (Cons i ids)
  show ?case unfolding parse_orders.simps by (intro yields_elements rd.yields_check rd.yields_option Cons.IH)
qed

lemma yields_coefficients:
  assumes "shorts cs"
  shows "rd.yields (parse_coefficients ch a tab cs) (\<lambda>c. shorts c \<and> length c = length cs)"
  unfolding parse_coefficients_def Let_def
proof (rule rd.yields_loop [where I = "\<lambda>_ c. shorts c \<and> length c = length cs"])
  fix ind c
  assume c: "shorts c \<and> length c = length cs"
  have "rd.yields (read_loop (\<lambda>i coeff s. do {
        idx \<leftarrow> arr_get (golombIdx (alf_shape_of a ch)) i; k \<leftarrow> arr_get tab idx; (v, s) \<leftarrow> alfGolombDecode k s;
        coeff \<leftarrow> arr_set coeff (ind * MAX_NUM_ALF_LUMA_COEFF + i) (to_i16 v); Some (coeff, s) })
        [0..<numCoeff (alf_shape_of a ch) - 1] c) (\<lambda>c. shorts c \<and> length c = length cs)"
  proof (rule rd.yields_loop [where I = "\<lambda>_ c. shorts c \<and> length c = length cs"], intro rd.yields_option rd.yields_bind [OF yields_golomb] rd.yields_return)
    fix i x v cs'
    assume "shorts x \<and> length x = length cs" "arr_set x (ind * MAX_NUM_ALF_LUMA_COEFF + i) (to_i16 v) = Some cs'"
    then show "shorts cs' \<and> length cs' = length cs" using shorts_set [OF _ _ to_i16_range, of x _ v cs'] by simp
  qed (rule c)
  then show "rd.yields (\<lambda>s. filter_skipped a ch ind \<bind> (\<lambda>skip.
      if skip then do { coeff \<leftarrow> clear_coeff ind (numCoeff (alf_shape_of a ch)) c; Some (coeff, s) }
      else read_loop (\<lambda>i coeff s. do {
        idx \<leftarrow> arr_get (golombIdx (alf_shape_of a ch)) i; k \<leftarrow> arr_get tab idx; (v, s) \<leftarrow> alfGolombDecode k s;
        coeff \<leftarrow> arr_set coeff (ind * MAX_NUM_ALF_LUMA_COEFF + i) (to_i16 v); Some (coeff, s) })
        [0..<numCoeff (alf_shape_of a ch) - 1] c s)) (\<lambda>c. shorts c \<and> length c = length cs)"
    by (intro rd.yields_option rd.yields_if rd.yields_return) (use clear_coeff_shorts c in auto)
qed (use assms in simp)

lemma yields_alfFilter:
  assumes "alf_limits a"
  shows "rd.yields (parse_alfFilter tab a ch) alf_limits"
  unfolding parse_alfFilter_def Let_def
proof (intro rd.yields_bind [OF yields_delta_flags [OF assms]] yields_elements rd.yields_bind [OF yields_orders]
    rd.yields_bind [OF yields_coeff_flags] rd.yields_bind [OF yields_coefficients] rd.yields_return)
  show "shorts (alf_coeff z ch)" if "alf_limits z" for z using that by (simp add: alf_limits_def alf_coeff_def)
qed (use alf_limits_update(5) in auto)

lemma yields_TruncBinCode:
  assumes "1 < m" "m < 2 ^ 30"
  shows "rd.yields (read_TruncBinCode m) (\<lambda>v. v < m)"
proof -
  from tb_thresh_bounds [of m] assms obtain k where k: "tb_thresh m = Some k" "2 ^ k \<le> m" "m < 2 ^ (k + 1)" by auto
  have p: "(2 :: nat) ^ k \<le> 2 ^ 30" using k(2) assms(2) by simp
  define e where "e = 2 ^ (k + 1) - m"
  have e: "e \<le> 2 ^ k" "e + m = 2 ^ (k + 1)" using k(2,3) by (simp_all add: e_def)
  have "int (2 ^ k) - (int m - int (2 ^ k)) = int e" using arg_cong [OF e(2), of int] by (simp add: algebra_simps)
  then have b: "to_u32 (int (2 ^ k) - (int m - int (2 ^ k))) = e" using e(1) p by simp
  have v: "push_bit k 1 = (2 :: nat) ^ k" by (simp add: push_bit_nat_def)
  have f: "sub32 (u32 (u32 (push_bit 1 x) + b)) e < m" if "x < 2 ^ k" "b \<le> 1" "e \<le> x" for x b
  proof -
    have "2 * x + b < 2 ^ 32" using that p by simp
    then have "sub32 (u32 (u32 (push_bit 1 x) + b)) e = 2 * x + b - e"
      using that by (simp add: push_bit_nat_def take_bit_nat_eq_self sub32_ge mult.commute)
    then show ?thesis using that e by simp
  qed
  show ?thesis
    unfolding read_TruncBinCode_def k(1) bind.bind_lunit Let_def v b
    by (intro yields_elements rd.yields_if rd.yields_return) (use f k(2) e in auto)
qed

lemma yields_truncated_unary: "rd.yields (read_truncatedUnaryEqProb n k) (\<lambda>_. True)"
proof (induction n arbitrary: k)
  case 0
  show ?case by (rule rd.yieldsI) simp
next
  case (Suc n)
  show ?case unfolding read_truncatedUnaryEqProb.simps by (intro yields_elements rd.yields_if rd.yields_return Suc) simp
qed

definition alf_memory :: "alf_param \<Rightarrow> bool" where
  "alf_memory a \<longleftrightarrow> alf_wf a \<and> shorts (lumaCoeff a) \<and> shorts (chromaCoeff a)"

definition idx_read :: "int \<Rightarrow> nat \<Rightarrow> alf_param \<Rightarrow> bool" where
  "idx_read n k a \<longleftrightarrow> alf_memory a \<and> numLumaFilters a = n \<and> lumaFilterType a \<noteq> ALF_NUM_OF_FILTER_TYPES
     \<and> (\<forall>j<k. 0 \<le> filterCoeffDeltaIdx a ! j \<and> filterCoeffDeltaIdx a ! j < n)"

lemma idx_read_limits: "idx_read n 25 a \<Longrightarrow> 1 \<le> n \<Longrightarrow> n \<le> 25 \<Longrightarrow> alf_limits a"
  unfolding idx_read_def alf_memory_def alf_limits_def alf_wf_def by (auto simp: in_set_conv_nth)

lemma yields_delta_idx:
  assumes "alf_memory z" "lumaFilterType z \<noteq> ALF_NUM_OF_FILTER_TYPES" "1 \<le> numLumaFilters z" "numLumaFilters z \<le> 25"
  shows "rd.yields (\<lambda>s. if numLumaFilters z > 1 then read_loop (\<lambda>i a s. do {
            (code, s) \<leftarrow> read_TruncBinCode (nat (numLumaFilters a)) s;
            d \<leftarrow> arr_set (filterCoeffDeltaIdx a) i (to_i16 (to_i32 code));
            Some (a\<lparr>filterCoeffDeltaIdx := d\<rparr>, s) }) [0..<MAX_NUM_ALF_CLASSES] z s
          else Some (z\<lparr>filterCoeffDeltaIdx := replicate MAX_NUM_ALF_CLASSES 0\<rparr>, s)) alf_limits"
proof (intro rd.yields_if rd.yields_return)
  let ?n = "numLumaFilters z"
  assume n: "1 < ?n"
  have "rd.yields (read_loop (\<lambda>i a s. do {
            (code, s) \<leftarrow> read_TruncBinCode (nat (numLumaFilters a)) s;
            d \<leftarrow> arr_set (filterCoeffDeltaIdx a) i (to_i16 (to_i32 code));
            Some (a\<lparr>filterCoeffDeltaIdx := d\<rparr>, s) }) [0..<MAX_NUM_ALF_CLASSES] z) (idx_read ?n MAX_NUM_ALF_CLASSES)"
  proof (rule rd.yields_loop)
    fix k x
    assume x: "idx_read ?n k x"
    then have l: "length (filterCoeffDeltaIdx x) = 25" "numLumaFilters x = ?n" by (simp_all add: idx_read_def alf_memory_def alf_wf_def)
    have "idx_read ?n (Suc k) (x\<lparr>filterCoeffDeltaIdx := d\<rparr>)"
      if "code < nat ?n" "arr_set (filterCoeffDeltaIdx x) k (to_i16 (to_i32 code)) = Some d" for code d
    proof -
      have "code < 25" using that(1) assms(4) by simp
      then have "to_i16 (to_i32 code) = int code" by simp
      then have d: "d = (filterCoeffDeltaIdx x)[k := int code]" using that(2) by (simp add: arr_set_def split: if_splits)
      show ?thesis using x that l unfolding idx_read_def alf_memory_def alf_wf_def d
        by (auto simp: nth_list_update less_Suc_eq arr_set_def split: if_splits)
    qed
    moreover have "rd.yields (read_TruncBinCode (nat (numLumaFilters x))) (\<lambda>v. v < nat ?n)"
      using yields_TruncBinCode [of "nat ?n"] n assms(4) l(2) by simp
    ultimately show "rd.yields (\<lambda>s. do { (code, s) \<leftarrow> read_TruncBinCode (nat (numLumaFilters x)) s;
        d \<leftarrow> arr_set (filterCoeffDeltaIdx x) k (to_i16 (to_i32 code));
        Some (x\<lparr>filterCoeffDeltaIdx := d\<rparr>, s) }) (idx_read ?n (Suc k))"
      by (intro rd.yields_bind [where ?r1.0 = "read_TruncBinCode (nat (numLumaFilters x))"] rd.yields_option rd.yields_return)
  qed (use assms in \<open>simp add: idx_read_def\<close>)
  then show "rd.yields (read_loop (\<lambda>i a s. do {
            (code, s) \<leftarrow> read_TruncBinCode (nat (numLumaFilters a)) s;
            d \<leftarrow> arr_set (filterCoeffDeltaIdx a) i (to_i16 (to_i32 code));
            Some (a\<lparr>filterCoeffDeltaIdx := d\<rparr>, s) }) [0..<MAX_NUM_ALF_CLASSES] z) alf_limits"
    by (rule rd.yields_weaken) (use idx_read_limits assms in \<open>simp add: MAX_NUM_ALF_CLASSES_def\<close>)
qed (use assms in \<open>auto simp: alf_limits_def alf_memory_def alf_wf_def MAX_NUM_ALF_CLASSES_def\<close>)

lemma yields_alf:
  assumes "alf_memory a0"
  shows "rd.yields (parse_alf tab tab' a0) (\<lambda>a. alf_memory a \<and> (enabledFlag a ! 0 \<longrightarrow> alf_limits a))"
proof -
  have lim: "alf_limits a \<Longrightarrow> alf_memory a \<and> (enabledFlag a ! 0 \<longrightarrow> alf_limits a)" for a
    by (simp add: alf_limits_def alf_memory_def)
  have n: "to_i32 (u32 (code + 1)) = int code + 1" if "code < MAX_NUM_ALF_CLASSES" for code
    using that by (simp add: MAX_NUM_ALF_CLASSES_def take_bit_nat_eq_self)
  have len: "length (enabledFlag a0) = 3" using assms by (simp add: alf_memory_def alf_wf_def)
  have memory: "alf_memory (a0\<lparr>enabledFlag := e, numLumaFilters := m, lumaFilterType := f\<rparr>)" if "length e = 3" for e m f
    using assms that by (simp add: alf_memory_def alf_wf_def)
  have main: "rd.yields (\<lambda>s. do {
       (code, s) \<leftarrow> read_TruncBinCode MAX_NUM_ALF_CLASSES s;
       (flag, s) \<leftarrow> xReadFlag s;
       let a = a0\<lparr>enabledFlag := e, numLumaFilters := to_i32 (u32 (code + 1)), lumaFilterType := (if flag \<noteq> 0 then ALF_FILTER_5 else ALF_FILTER_7)\<rparr>;
       (a, s) \<leftarrow> (if numLumaFilters a > 1 then read_loop (\<lambda>i a s. do {
            (code, s) \<leftarrow> read_TruncBinCode (nat (numLumaFilters a)) s;
            d \<leftarrow> arr_set (filterCoeffDeltaIdx a) i (to_i16 (to_i32 code));
            Some (a\<lparr>filterCoeffDeltaIdx := d\<rparr>, s) }) [0..<MAX_NUM_ALF_CLASSES] a s
          else Some (a\<lparr>filterCoeffDeltaIdx := replicate MAX_NUM_ALF_CLASSES 0\<rparr>, s));
       (a, s) \<leftarrow> parse_alfFilter tab a False s;
       if alfChromaIdc \<noteq> 0 then do {
         (code, s) \<leftarrow> xReadFlag s;
         let a = a\<lparr>chromaCtbPresentFlag := (code \<noteq> 0)\<rparr>;
         parse_alfFilter tab' a True s
       } else Some (a, s) }) alf_limits" if "length e = 3" for e and alfChromaIdc :: nat
  proof -
    have "rd.yields (read_TruncBinCode MAX_NUM_ALF_CLASSES) (\<lambda>v. v < MAX_NUM_ALF_CLASSES)"
      by (rule yields_TruncBinCode) (simp_all add: MAX_NUM_ALF_CLASSES_def)
    then show ?thesis unfolding Let_def
      by (rule rd.yields_bind, intro yields_elements rd.yields_bind [OF yields_delta_idx] rd.yields_bind [OF yields_alfFilter]
          rd.yields_if rd.yields_return yields_alfFilter)
        (use memory [OF that] n in \<open>auto simp: MAX_NUM_ALF_CLASSES_def alf_limits_update\<close>)
  qed
  show ?thesis
    unfolding parse_alf_def Let_def
    apply (intro yields_elements rd.yields_option rd.yields_if rd.yields_bind [OF yields_truncated_unary] rd.yields_return)
    subgoal for c e e1 e2
      using assms len by (auto simp: alf_memory_def alf_wf_def arr_set_def COMPONENT_Y_def COMPONENT_Cb_def COMPONENT_Cr_def split: if_splits)
    subgoal for c e idc e1 e2
      by (rule rd.yields_weaken [OF main [unfolded Let_def] lim]) (use len in \<open>auto simp: arr_set_def split: if_splits\<close>)
    done
qed

section \<open>Properties\<close>

text \<open>
  C37. The filter parameters that \<open>HLSWriter::alf\<close> writes for a slice are received by \<open>HLSyntaxReader::alf\<close>: for every number
  of filters, both filter shapes, coefficients of the whole range of \<open>short\<close>, coded as they are, as differences or
  partly left out.  The Golomb orders that the encoder chooses always pass its own check and reach the decoder, whatever
  the static tables of the two held before.
\<close>

theorem alf_roundtrip:
  assumes "alf_ok a" "alf_wf a0" "length tab = 25" "length tab' = 25" "length dtab = 25" "length dtab' = 25"
  shows "\<exists>s t. code_alf tab tab' a clear = Some s
    \<and> parse_alf dtab dtab' a0 (open_stream (out_fifo (writeAlignZero s))) = Some (alf_received a a0, t)"
  by (rule codes_whole_stream [OF codes_alf [OF assms]])

text \<open>Three luma filters of which the second is not sent, and a chroma filter.\<close>

definition sample_alf :: alf_param where
  "sample_alf = (alf_reset \<lparr>enabledFlag = [], lumaFilterType = ALF_FILTER_5, chromaCtbPresentFlag = False, lumaCoeff = [],
      chromaCoeff = [], filterCoeffDeltaIdx = [], filterCoeffFlag = [], numLumaFilters = 0, coeffDeltaFlag = False,
      coeffDeltaPredModeFlag = False\<rparr>)
    \<lparr>enabledFlag := [True, False, True], lumaFilterType := ALF_FILTER_7, numLumaFilters := 3, coeffDeltaFlag := True,
     filterCoeffFlag := [True, False] @ replicate 23 True, filterCoeffDeltaIdx := [0, 1, 2] @ replicate 22 1,
     lumaCoeff := [3, - 200, 0, 17] @ replicate 22 0 @ [- 32768, 32767] @ replicate 297 0,
     chromaCoeff := [1, - 2, 30, - 4, 5, - 6, 0]\<rparr>"

definition empty_alf :: alf_param where
  "empty_alf = alf_reset sample_alf"

theorem alf_roundtrip_witness:
  "\<exists>s t. code_alf (replicate 25 0) (replicate 25 7) sample_alf clear = Some s
    \<and> parse_alf (replicate 25 1) (replicate 25 2) empty_alf (open_stream (out_fifo (writeAlignZero s)))
      = Some (alf_received sample_alf empty_alf, t)"
proof (rule alf_roundtrip)
  show "alf_ok sample_alf" by (auto simp: alf_ok_def alf_wf_def sample_alf_def alf_reset_def)
  show "alf_wf empty_alf" by (simp add: alf_wf_def empty_alf_def alf_reset_def)
qed simp_all

end
