(* ===== verification/AlfFilter.thy ===== *)
theory AlfFilter
  imports AlfSyntax
begin

text \<open>
  The coefficients of the adaptive loop filter: the filters that the decoder reconstructs from the parameters of the slice
  (\<open>reconstructCoeff\<close> of \<open>CommonLib/AdaptiveLoopFilter.cpp\<close>) and the differences that the encoder sends
  (\<open>EncoderLib/EncAdaptiveLoopFilter.cpp\<close>).  Accesses outside of an array and signed overflow are \<^const>\<open>None\<close>.
\<close>

section \<open>Reconstruction of the coefficients\<close>

definition m_NUM_BITS :: nat where "m_NUM_BITS = 10"

definition alf_num_coeff :: "alf_param \<Rightarrow> bool \<Rightarrow> nat" where
  "alf_num_coeff a chroma = (if (if chroma then ALF_FILTER_5 else lumaFilterType a) = ALF_FILTER_5 then 7 else 13)"

text \<open>\<open>coeff[i][j] += coeff[i - 1][j]\<close> for every filter but the first\<close>

definition add_previous :: "nat \<Rightarrow> nat \<Rightarrow> int list \<Rightarrow> int list option" where
  "add_previous numFilters n = for_loop (\<lambda>i. for_loop (\<lambda>j coeff. do {
     c \<leftarrow> arr_get coeff (i * MAX_NUM_ALF_LUMA_COEFF + j);
     p \<leftarrow> arr_get coeff ((i - 1) * MAX_NUM_ALF_LUMA_COEFF + j);
     arr_set coeff (i * MAX_NUM_ALF_LUMA_COEFF + j) (to_i16 (c + p)) }) [0..<n]) [1..<numFilters]"

definition subtract_previous :: "nat \<Rightarrow> nat \<Rightarrow> int list \<Rightarrow> int list option" where
  "subtract_previous numFilters n = for_loop (\<lambda>i. for_loop (\<lambda>j coeff. do {
     c \<leftarrow> arr_get coeff (i * MAX_NUM_ALF_LUMA_COEFF + j);
     p \<leftarrow> arr_get coeff ((i - 1) * MAX_NUM_ALF_LUMA_COEFF + j);
     arr_set coeff (i * MAX_NUM_ALF_LUMA_COEFF + j) (to_i16 (c - p)) }) [0..<n]) (rev [1..<numFilters])"

text \<open>
  The coefficient in the centre, by which the gain of the filter is \<open>factor\<close>.  The shift of a coefficient to the left doubles it, also
  when it is negative, and the sum is an \<open>int\<close>.
\<close>

fun twice_sum :: "int list \<Rightarrow> nat list \<Rightarrow> int \<Rightarrow> int option" where
  "twice_sum coeff [] acc = Some acc"
| "twice_sum coeff (p # ps) acc = do {
     c \<leftarrow> arr_get coeff p;
     c2 \<leftarrow> i32 (c * 2);
     acc \<leftarrow> i32 (acc + c2);
     twice_sum coeff ps acc }"

definition set_centre :: "int \<Rightarrow> nat \<Rightarrow> nat \<Rightarrow> int list \<Rightarrow> int list option" where
  "set_centre factor numFilters n = for_loop (\<lambda>filterIdx coeff. do {
     sum \<leftarrow> twice_sum coeff (map (\<lambda>i. filterIdx * MAX_NUM_ALF_LUMA_COEFF + i) [0..<n]) 0;
     arr_set coeff (filterIdx * MAX_NUM_ALF_LUMA_COEFF + n) (to_i16 (factor - sum)) }) [0..<numFilters]"

text \<open>\<open>memcpy\<close> of the filter of each class to \<open>m_coeffFinal\<close>\<close>

definition copy_filters :: "int list \<Rightarrow> int list \<Rightarrow> nat \<Rightarrow> int list \<Rightarrow> int list option" where
  "copy_filters coeff deltaIdx n = for_loop (\<lambda>classIdx final. do {
     filterIdx \<leftarrow> arr_get deltaIdx classIdx;
     for_loop (\<lambda>j final. do {
       c \<leftarrow> arr_get_i coeff (filterIdx * int MAX_NUM_ALF_LUMA_COEFF + int j);
       arr_set final (classIdx * MAX_NUM_ALF_LUMA_COEFF + j) c }) [0..<n] final }) [0..<MAX_NUM_ALF_CLASSES]"

definition reconstructCoeff :: "alf_param \<Rightarrow> bool \<Rightarrow> bool \<Rightarrow> int list \<Rightarrow> (alf_param \<times> int list) option" where
  "reconstructCoeff a chroma bRedo m_coeffFinal = do {
     let factor = push_bit (m_NUM_BITS - 1) 1;
     let numCoeff = alf_num_coeff a chroma;
     let numCoeffMinus1 = numCoeff - 1;
     let numFilters = alf_num_filters a chroma;
     let coeff = alf_coeff a chroma;
     coeff \<leftarrow> (if coeffDeltaPredModeFlag a \<and> \<not> chroma then add_previous numFilters numCoeffMinus1 coeff else Some coeff);
     coeff \<leftarrow> set_centre factor numFilters numCoeffMinus1 coeff;
     if chroma then Some (set_coeff chroma coeff a, m_coeffFinal)
     else do {
       m_coeffFinal \<leftarrow> copy_filters coeff (filterCoeffDeltaIdx a) numCoeff m_coeffFinal;
       coeff \<leftarrow> (if bRedo \<and> coeffDeltaPredModeFlag a then subtract_previous numFilters numCoeffMinus1 coeff else Some coeff);
       Some (set_coeff chroma coeff a, m_coeffFinal) } }"

text \<open>
  The other side of it, in \<open>EncAdaptiveLoopFilter\<close>: the differences that \<open>deriveFilterCoefficientsPredictionMode\<close> takes, and
  their storage in the parameters at the end of \<open>mergeFiltersAndCost\<close>.
\<close>

definition filter_differences :: "int list list \<Rightarrow> nat \<Rightarrow> nat \<Rightarrow> int list list \<Rightarrow> int list list option" where
  "filter_differences filterSet n numFilters = for_loop (\<lambda>ind filterCoeffDiff. do {
     row \<leftarrow> arr_get filterSet ind;
     diff \<leftarrow> arr_get filterCoeffDiff ind;
     diff \<leftarrow> for_loop (\<lambda>i diff. do {
       c \<leftarrow> arr_get row i;
       if ind = 0 then arr_set diff i c
       else do { prev \<leftarrow> arr_get filterSet (ind - 1); p \<leftarrow> arr_get prev i; arr_set diff i (c - p) } }) [0..<n] diff;
     arr_set filterCoeffDiff ind diff }) [0..<numFilters]"

definition store_filters :: "int list list \<Rightarrow> nat \<Rightarrow> nat \<Rightarrow> int list \<Rightarrow> int list option" where
  "store_filters filterSet n numFilters = for_loop (\<lambda>ind. for_loop (\<lambda>i luma. do {
     row \<leftarrow> arr_get filterSet ind;
     c \<leftarrow> arr_get row i;
     arr_set luma (ind * MAX_NUM_ALF_LUMA_COEFF + i) (to_i16 c) }) [0..<n]) [0..<numFilters]"

section \<open>Laws of the reconstruction\<close>

text \<open>Coefficient \<open>j\<close> of filter \<open>i\<close> after the prediction has been added.\<close>

fun summed :: "int list \<Rightarrow> nat \<Rightarrow> nat \<Rightarrow> int" where
  "summed coeff 0 j = coeff ! j"
| "summed coeff (Suc i) j = to_i16 (coeff ! (Suc i * 13 + j) + summed coeff i j)"

lemma block_position: "q div 13 = k \<and> q mod 13 = i \<longleftrightarrow> q = k * 13 + i" if "i < 13" for i k q :: nat
  using that by auto

lemma add_previous_law:
  assumes "n \<le> 13" "(m - 1) * 13 + n \<le> length coeff" "1 \<le> m"
  shows "add_previous m n coeff = Some (merge (\<lambda>p. p div 13 < m) (\<lambda>p. if p mod 13 < n then Some (summed coeff (p div 13) (p mod 13)) else None) coeff)"
    (is "_ = Some (merge _ ?g coeff)")
proof -
  let ?X = "\<lambda>i. merge (\<lambda>p. p div 13 < i) ?g coeff"
  let ?Y = "\<lambda>i j. merge (\<lambda>p. p div 13 < i \<or> p div 13 = i \<and> p mod 13 < j) ?g coeff"
  have first: "?X 1 = coeff" by (rule nth_equalityI) (auto simp: merge_def)
  have "for_loop (\<lambda>i. for_loop (\<lambda>j coeff. do {
     c \<leftarrow> arr_get coeff (i * MAX_NUM_ALF_LUMA_COEFF + j);
     p \<leftarrow> arr_get coeff ((i - 1) * MAX_NUM_ALF_LUMA_COEFF + j);
     arr_set coeff (i * MAX_NUM_ALF_LUMA_COEFF + j) (to_i16 (c + p)) }) [0..<n]) [1..<m] (?X 1) = Some (?X m)"
  proof (rule for_loop_upt)
    fix i
    assume i: "1 \<le> i" "i < m"
    have "i * 13 \<le> (m - 1) * 13" using i(2) by simp
    then have fits: "i * 13 + n \<le> length coeff" "(i - 1) * 13 + n \<le> length coeff" using assms(2) i by auto
    have "for_loop (\<lambda>j coeff. do {
       c \<leftarrow> arr_get coeff (i * MAX_NUM_ALF_LUMA_COEFF + j);
       p \<leftarrow> arr_get coeff ((i - 1) * MAX_NUM_ALF_LUMA_COEFF + j);
       arr_set coeff (i * MAX_NUM_ALF_LUMA_COEFF + j) (to_i16 (c + p)) }) [0..<n] (?Y i 0) = Some (?Y i n)"
    proof (rule for_loop_upt)
      fix j
      assume j: "j < n"
      then have j13: "j < 13" using assms(1) by simp
      have pos: "i * 13 + j < length coeff" "(i - 1) * 13 + j < length coeff" using fits j by auto
      have old: "?Y i j ! (i * 13 + j) = coeff ! (i * 13 + j)" using pos j13 by (simp add: merge_def)
      have prev: "?Y i j ! ((i - 1) * 13 + j) = summed coeff (i - 1) j" using pos j j13 i(1) by (simp add: merge_def)
      have "to_i16 (coeff ! (i * 13 + j) + summed coeff (i - 1) j) = summed coeff i j" using i(1) by (cases i) simp_all
      then have "(?Y i j)[i * 13 + j := to_i16 (coeff ! (i * 13 + j) + summed coeff (i - 1) j)] = ?Y i (Suc j)"
        using pos j j13 block_position [OF j13, of _ i] by (intro merge_set) (auto simp: less_Suc_eq)
      then show "do {
         c \<leftarrow> arr_get (?Y i j) (i * MAX_NUM_ALF_LUMA_COEFF + j);
         p \<leftarrow> arr_get (?Y i j) ((i - 1) * MAX_NUM_ALF_LUMA_COEFF + j);
         arr_set (?Y i j) (i * MAX_NUM_ALF_LUMA_COEFF + j) (to_i16 (c + p)) } = Some (?Y i (Suc j))"
        using pos old prev by (simp add: MAX_NUM_ALF_LUMA_COEFF_def)
    qed simp
    moreover have "?Y i n = ?X (Suc i)" by (rule merge_same) (auto simp: less_Suc_eq)
    ultimately show "for_loop (\<lambda>j coeff. do {
       c \<leftarrow> arr_get coeff (i * MAX_NUM_ALF_LUMA_COEFF + j);
       p \<leftarrow> arr_get coeff ((i - 1) * MAX_NUM_ALF_LUMA_COEFF + j);
       arr_set coeff (i * MAX_NUM_ALF_LUMA_COEFF + j) (to_i16 (c + p)) }) [0..<n] (?X i) = Some (?X (Suc i))" by simp
  qed (rule assms(3))
  then show ?thesis unfolding add_previous_def first .
qed

lemma twice_sum_law:
  "\<forall>p\<in>set ps. p < length coeff \<and> \<bar>coeff ! p\<bar> \<le> 32768 \<Longrightarrow> \<bar>acc\<bar> + 65536 * int (length ps) < 2 ^ 31
    \<Longrightarrow> twice_sum coeff ps acc = Some (acc + 2 * (\<Sum>p\<leftarrow>ps. coeff ! p))"
proof (induction ps arbitrary: acc)
  case (Cons p ps)
  let ?c = "coeff ! p"
  have c: "\<bar>?c\<bar> \<le> 32768" "p < length coeff" using Cons.prems(1) by simp_all
  have "\<bar>acc + ?c * 2\<bar> + 65536 * int (length ps) < 2 ^ 31" using Cons.prems(2) c(1) by simp
  moreover from this have "i32 (?c * 2) = Some (?c * 2)" "i32 (acc + ?c * 2) = Some (acc + ?c * 2)" using c(1) by (auto simp: i32_def)
  ultimately show ?case using Cons.IH [of "acc + ?c * 2"] Cons.prems(1) c(2) by simp
qed simp

text \<open>The centre coefficient of filter \<open>i\<close>, from the \<open>n\<close> others.\<close>

definition centre :: "int list \<Rightarrow> nat \<Rightarrow> nat \<Rightarrow> int" where
  "centre coeff n i = to_i16 (512 - 2 * (\<Sum>j\<leftarrow>[0..<n]. coeff ! (i * 13 + j)))"

lemma set_centre_law:
  assumes "n < 13" "\<And>i. i < m \<Longrightarrow> i * 13 + n < length coeff"
    and "\<And>i j. i < m \<Longrightarrow> j < n \<Longrightarrow> \<bar>coeff ! (i * 13 + j)\<bar> \<le> 32768"
  shows "set_centre 512 m n coeff = Some (merge (\<lambda>p. p div 13 < m) (\<lambda>p. if p mod 13 = n then Some (centre coeff n (p div 13)) else None) coeff)"
    (is "_ = Some (merge _ ?g coeff)")
proof -
  let ?X = "\<lambda>i. merge (\<lambda>p. p div 13 < i) ?g coeff"
  have "for_loop (\<lambda>filterIdx coeff. do {
     acc \<leftarrow> twice_sum coeff (map (\<lambda>i. filterIdx * MAX_NUM_ALF_LUMA_COEFF + i) [0..<n]) 0;
     arr_set coeff (filterIdx * MAX_NUM_ALF_LUMA_COEFF + n) (to_i16 (512 - acc)) }) [0..<m] (?X 0) = Some (?X m)"
  proof (rule for_loop_upt)
    fix i
    assume i: "i < m"
    note fits = assms(2) [OF i]
    have e: "?X i ! (i * 13 + j) = coeff ! (i * 13 + j)" if "j < n" for j
      using that fits assms(1) by (simp add: merge_def)
    have s: "twice_sum (?X i) (map (\<lambda>j. i * 13 + j) [0..<n]) 0 = Some (2 * (\<Sum>j\<leftarrow>[0..<n]. coeff ! (i * 13 + j)))"
    proof -
      have "(\<Sum>j\<leftarrow>[0..<n]. ?X i ! (i * 13 + j)) = (\<Sum>j\<leftarrow>[0..<n]. coeff ! (i * 13 + j))"
        by (rule arg_cong [of _ _ sum_list], rule map_cong) (use e in auto)
      moreover have b: "\<forall>p\<in>set (map (\<lambda>j. i * 13 + j) [0..<n]). p < length (?X i) \<and> \<bar>?X i ! p\<bar> \<le> 32768"
      proof
        fix p
        assume "p \<in> set (map (\<lambda>j. i * 13 + j) [0..<n])"
        then obtain j where "p = i * 13 + j" "j < n" by (auto simp del: image_add_atLeastLessThan)
        with e fits assms(3) [OF i] show "p < length (?X i) \<and> \<bar>?X i ! p\<bar> \<le> 32768" by simp
      qed
      ultimately show ?thesis using assms(1) by (subst twice_sum_law [OF b]) (simp_all add: comp_def)
    qed
    have "(?X i)[i * 13 + n := centre coeff n i] = ?X (Suc i)"
    proof -
      have "(?X i)[i * 13 + n := centre coeff n i] = merge (\<lambda>p. p div 13 < i \<or> p = i * 13 + n) ?g coeff"
        using fits assms(1) by (intro merge_set) auto
      also have "\<dots> = ?X (Suc i)"
        by (rule merge_same) (use block_position [OF assms(1), of _ i] in \<open>auto simp: less_Suc_eq\<close>)
      finally show ?thesis .
    qed
    then show "do { acc \<leftarrow> twice_sum (?X i) (map (\<lambda>j. i * MAX_NUM_ALF_LUMA_COEFF + j) [0..<n]) 0;
       arr_set (?X i) (i * MAX_NUM_ALF_LUMA_COEFF + n) (to_i16 (512 - acc)) } = Some (?X (Suc i))"
      using fits s by (simp add: MAX_NUM_ALF_LUMA_COEFF_def centre_def)
  qed simp
  then show ?thesis by (simp add: set_centre_def)
qed

lemma copy_filters_law:
  assumes "n \<le> 13" "length idx = 25" "length final = 325"
    "\<And>k. k < 25 \<Longrightarrow> 0 \<le> idx ! k \<and> nat (idx ! k) * 13 + n \<le> length coeff"
  shows "copy_filters coeff idx n final
    = Some (merge (\<lambda>p. p div 13 < 25) (\<lambda>p. if p mod 13 < n then Some (coeff ! (nat (idx ! (p div 13)) * 13 + p mod 13)) else None) final)"
    (is "_ = Some (merge _ ?g final)")
proof -
  let ?X = "\<lambda>i. merge (\<lambda>p. p div 13 < i) ?g final"
  let ?Y = "\<lambda>i j. merge (\<lambda>p. p div 13 < i \<or> p div 13 = i \<and> p mod 13 < j) ?g final"
  have "for_loop (\<lambda>classIdx final. do {
     filterIdx \<leftarrow> arr_get idx classIdx;
     for_loop (\<lambda>j final. do {
       c \<leftarrow> arr_get_i coeff (filterIdx * int MAX_NUM_ALF_LUMA_COEFF + int j);
       arr_set final (classIdx * MAX_NUM_ALF_LUMA_COEFF + j) c }) [0..<n] final }) [0..<25] (?X 0) = Some (?X 25)"
  proof (rule for_loop_upt)
    fix k :: nat
    assume k: "k < 25"
    define f where "f = nat (idx ! k)"
    have f: "idx ! k = int f" "f * 13 + n \<le> length coeff" using assms(4) [OF k] by (simp_all add: f_def)
    have "for_loop (\<lambda>j final. do {
       c \<leftarrow> arr_get_i coeff (int f * int MAX_NUM_ALF_LUMA_COEFF + int j);
       arr_set final (k * MAX_NUM_ALF_LUMA_COEFF + j) c }) [0..<n] (?Y k 0) = Some (?Y k n)"
    proof (rule for_loop_upt)
      fix j
      assume j: "j < n"
      then have j13: "j < 13" using assms(1) by simp
      have g: "arr_get_i coeff (int f * 13 + int j) = Some (coeff ! (f * 13 + j))"
      proof -
        have "int f * 13 + int j = int (f * 13 + j)" by simp
        then show ?thesis using f(2) j by (simp only: arr_int) simp
      qed
      have "(?Y k j)[k * 13 + j := coeff ! (f * 13 + j)] = ?Y k (Suc j)"
        using k j j13 assms(3) f(1) block_position [OF j13, of _ k] by (intro merge_set) (auto simp: less_Suc_eq)
      then show "do { c \<leftarrow> arr_get_i coeff (int f * int MAX_NUM_ALF_LUMA_COEFF + int j);
          arr_set (?Y k j) (k * MAX_NUM_ALF_LUMA_COEFF + j) c } = Some (?Y k (Suc j))"
        using g k j13 assms(3) by (simp add: MAX_NUM_ALF_LUMA_COEFF_def)
    qed simp
    moreover have "?Y k n = ?X (Suc k)" by (rule merge_same) (auto simp: less_Suc_eq)
    ultimately show "do { filterIdx \<leftarrow> arr_get idx k;
       for_loop (\<lambda>j final. do {
         c \<leftarrow> arr_get_i coeff (filterIdx * int MAX_NUM_ALF_LUMA_COEFF + int j);
         arr_set final (k * MAX_NUM_ALF_LUMA_COEFF + j) c }) [0..<n] (?X k) } = Some (?X (Suc k))"
      using k assms(2) f(1) by simp
  qed simp
  then show ?thesis by (simp add: copy_filters_def MAX_NUM_ALF_CLASSES_def)
qed


lemma nth_merge: "p < length old \<Longrightarrow> merge P g old ! p = (if P p then (case g p of Some v \<Rightarrow> v | None \<Rightarrow> old ! p) else old ! p)"
  by (simp add: merge_def split: option.split)

text \<open>The predicted coefficients of the filters are put back where the parameters are kept.\<close>

lemma subtract_previous_law:
  assumes "n \<le> 13" "(m - 1) * 13 + n \<le> length old" "length new = length old" "shorts old"
    "\<And>i j. i < m \<Longrightarrow> j < n \<Longrightarrow> new ! (i * 13 + j) = summed old i j"
  shows "\<exists>coeff. subtract_previous m n new = Some coeff \<and> length coeff = length old
    \<and> (\<forall>i<m. \<forall>j<n. coeff ! (i * 13 + j) = old ! (i * 13 + j))"
proof -
  let ?g = "\<lambda>p. if p mod 13 < n then Some (old ! p) else None"
  let ?Y = "\<lambda>i j. merge (\<lambda>p. p div 13 > i \<and> p div 13 < m \<or> p div 13 = i \<and> p mod 13 < j) ?g new"
  let ?f = "\<lambda>i. for_loop (\<lambda>j coeff. do {
     c \<leftarrow> arr_get coeff (i * MAX_NUM_ALF_LUMA_COEFF + j);
     p \<leftarrow> arr_get coeff ((i - 1) * MAX_NUM_ALF_LUMA_COEFF + j);
     arr_set coeff (i * MAX_NUM_ALF_LUMA_COEFF + j) (to_i16 (c - p)) }) [0..<n]"
  have step: "?f i (?Y i 0) = Some (?Y (i - 1) 0)" if i: "1 \<le> i" "i < m" for i
  proof -
    have "i * 13 \<le> (m - 1) * 13" using i(2) by simp
    then have fits: "i * 13 + n \<le> length old" "(i - 1) * 13 + n \<le> length old" using assms(2) i by auto
    have "?f i (?Y i 0) = Some (?Y i n)"
    proof (rule for_loop_upt)
      fix j
      assume j: "j < n"
      then have j13: "j < 13" using assms(1) by simp
      have pos: "i * 13 + j < length new" "(i - 1) * 13 + j < length new" using fits j assms(3) by auto
      have cur: "?Y i j ! (i * 13 + j) = summed old i j" using pos j13 assms(5) [OF i(2) j] by (simp add: nth_merge)
      have prev: "?Y i j ! ((i - 1) * 13 + j) = summed old (i - 1) j"
        using pos j13 i assms(5) [of "i - 1" j] j by (auto simp: nth_merge)
      have "old ! (i * 13 + j) \<in> set old" using pos assms(3) by simp
      then have sh: "- 32768 \<le> old ! (i * 13 + j)" "old ! (i * 13 + j) < 32768" using assms(4) by (auto simp: shorts_def)
      have "summed old i j = to_i16 (old ! (i * 13 + j) + summed old (i - 1) j)" using i(1) by (cases i) simp_all
      then have "to_i16 (summed old i j - summed old (i - 1) j) = old ! (i * 13 + j)"
        using sh to_i16_short [of "old ! (i * 13 + j)"] unfolding to_i16_def
        by (metis add_diff_cancel_right' signed_take_bit_diff signed_take_bit_signed_take_bit min.idem)
      then have "(?Y i j)[i * 13 + j := to_i16 (summed old i j - summed old (i - 1) j)] = ?Y i (Suc j)"
        using pos j j13 i block_position [OF j13, of _ i] by (intro merge_set) (auto simp: less_Suc_eq)
      then show "do {
         c \<leftarrow> arr_get (?Y i j) (i * MAX_NUM_ALF_LUMA_COEFF + j);
         p \<leftarrow> arr_get (?Y i j) ((i - 1) * MAX_NUM_ALF_LUMA_COEFF + j);
         arr_set (?Y i j) (i * MAX_NUM_ALF_LUMA_COEFF + j) (to_i16 (c - p)) } = Some (?Y i (Suc j))"
        using pos cur prev by (simp add: MAX_NUM_ALF_LUMA_COEFF_def)
    qed simp
    moreover have "?Y i n = ?Y (i - 1) 0" by (rule merge_same) (use i in auto)
    ultimately show ?thesis by simp
  qed
  have loop: "for_loop ?f (rev [1..<Suc k]) (?Y k 0) = Some (?Y 0 0)" if "k < m" for k
    using that
  proof (induction k)
    case (Suc k)
    have "rev [1..<Suc (Suc k)] = Suc k # rev [1..<Suc k]" by simp
    then show ?case using Suc step [of "Suc k"] by simp
  qed simp
  have first: "?Y (m - 1) 0 = new"
    by (rule nth_equalityI) (auto simp: nth_merge)
  have "subtract_previous m n new = Some (?Y 0 0)"
  proof (cases "m = 0")
    case True
    then show ?thesis by (simp add: subtract_previous_def)
  next
    case False
    then have "rev [1..<m] = rev [1..<Suc (m - 1)]" by simp
    then show ?thesis using loop [of "m - 1"] False first unfolding subtract_previous_def by simp
  qed
  moreover have "?Y 0 0 ! (i * 13 + j) = old ! (i * 13 + j)" if "i < m" "j < n" for i j
  proof -
    have "i * 13 \<le> (m - 1) * 13" using that(1) by simp
    then have "i * 13 + j < length new" using assms(2,3) that(2) by linarith
    moreover have "j < 13" using that(2) assms(1) by simp
    ultimately show ?thesis using that assms(5) [of 0 j] by (cases "i = 0") (simp_all add: nth_merge)
  qed
  ultimately show ?thesis using assms(3) by auto
qed

lemma to_i16_sub_add: "to_i16 (to_i16 (a - b) + b) = to_i16 a"
  unfolding to_i16_def by (metis diff_add_cancel signed_take_bit_add signed_take_bit_signed_take_bit min.idem)

text \<open>Coefficient \<open>j\<close> of filter \<open>f\<close> as the decoder uses it.\<close>

definition filter_tap :: "alf_param \<Rightarrow> nat \<Rightarrow> nat \<Rightarrow> int" where
  "filter_tap a f j =
     (let n = alf_num_coeff a False - 1; c = (\<lambda>j. if coeffDeltaPredModeFlag a then summed (lumaCoeff a) f j else lumaCoeff a ! (f * 13 + j))
      in if j < n then c j else to_i16 (512 - 2 * (\<Sum>i\<leftarrow>[0..<n]. c i)))"

lemma alf_num_coeff_bounds: "alf_num_coeff a ch = 7 \<or> alf_num_coeff a ch = 13"
  by (simp add: alf_num_coeff_def)

lemma reconstructCoeff_law:
  assumes a: "alf_limits a" and final: "length final = 325"
  shows "\<exists>a' final'. reconstructCoeff a False bRedo final = Some (a', final') \<and> length final' = 325
    \<and> (\<forall>k<25. \<forall>j<alf_num_coeff a False. final' ! (k * 13 + j) = filter_tap a (nat (filterCoeffDeltaIdx a ! k)) j)
    \<and> (bRedo \<longrightarrow> (\<forall>i<nat (numLumaFilters a). \<forall>j<alf_num_coeff a False - 1.
         lumaCoeff a' ! (i * 13 + j) = lumaCoeff a ! (i * 13 + j)))"
proof -
  define n where "n = alf_num_coeff a False - 1"
  define m where "m = nat (numLumaFilters a)"
  let ?c = "lumaCoeff a"
  have l: "length ?c = 325" "length (filterCoeffDeltaIdx a) = 25" "shorts ?c" using a by (simp_all add: alf_limits_def alf_wf_def)
  have m: "1 \<le> m" "m \<le> 25" using a by (auto simp: alf_limits_def m_def)
  have n: "n < 13" "0 < n" "alf_num_coeff a False = n + 1" using alf_num_coeff_bounds [of a False] by (auto simp: n_def)
  have idx: "0 \<le> filterCoeffDeltaIdx a ! k \<and> nat (filterCoeffDeltaIdx a ! k) < m" if "k < 25" for k
  proof -
    have "filterCoeffDeltaIdx a ! k \<in> set (filterCoeffDeltaIdx a)" using that l(2) by simp
    then show ?thesis using a by (auto simp: alf_limits_def m_def)
  qed
  have fits: "f * 13 + j < 325" if "f < m" "j < 13" for f j using that m(2) by auto
  define c1 where "c1 = (if coeffDeltaPredModeFlag a
    then merge (\<lambda>p. p div 13 < m) (\<lambda>p. if p mod 13 < n then Some (summed ?c (p div 13) (p mod 13)) else None) ?c else ?c)"
  have add: "(if coeffDeltaPredModeFlag a \<and> \<not> False then add_previous m n ?c else Some ?c) = Some c1"
    using add_previous_law [of n m ?c] n(1) m l(1) by (simp add: c1_def)
  have l1: "length c1 = 325" using l(1) by (simp add: c1_def)
  have c1: "c1 ! (f * 13 + j) = filter_tap a f j" if "f < m" "j < n" for f j
    using that fits [of f j] n l(1) by (simp add: c1_def filter_tap_def nth_merge)
  define c2 where "c2 = merge (\<lambda>p. p div 13 < m) (\<lambda>p. if p mod 13 = n then Some (centre c1 n (p div 13)) else None) c1"
  have short: "\<bar>c1 ! (f * 13 + j)\<bar> \<le> 32768" if "f < m" "j < n" for f j
  proof -
    have s: "\<bar>?c ! (f * 13 + j)\<bar> \<le> 32768" if "f < m" for f
    proof -
      have "?c ! (f * 13 + j) \<in> set ?c" using fits [OF that, of j] \<open>j < n\<close> n(1) l(1) by (intro nth_mem) simp
      then show ?thesis using l(3) by (auto simp: shorts_def)
    qed
    have "\<bar>summed ?c f j\<bar> \<le> 32768"
    proof (cases f)
      case 0
      then show ?thesis using s [OF that(1)] by simp
    next
      case (Suc k)
      then show ?thesis using to_i16_range [of "?c ! (Suc k * 13 + j) + summed ?c k j"] by auto
    qed
    then show ?thesis using c1 [OF that] s [OF that(1)] that(2) by (simp add: filter_tap_def n_def)
  qed
  have set: "set_centre 512 m n c1 = Some c2" unfolding c2_def by (rule set_centre_law) (use n(1) fits l1 short in auto)
  have l2: "length c2 = 325" using l1 by (simp add: c2_def)
  have c2: "c2 ! (f * 13 + j) = filter_tap a f j" if "f < m" "j \<le> n" for f j
  proof (cases "j = n")
    case True
    have "centre c1 n f = filter_tap a f n"
    proof -
      have "(\<Sum>j\<leftarrow>[0..<n]. c1 ! (f * 13 + j)) = (\<Sum>j\<leftarrow>[0..<n]. if coeffDeltaPredModeFlag a then summed ?c f j else ?c ! (f * 13 + j))"
        by (rule arg_cong [of _ _ sum_list], rule map_cong) (use c1 [OF that(1)] n in \<open>auto simp: filter_tap_def\<close>)
      then show ?thesis using n by (simp add: centre_def filter_tap_def)
    qed
    then show ?thesis using True that fits [of f n] n(1) l1 by (simp add: c2_def nth_merge)
  next
    case False
    then show ?thesis using that c1 [of f j] fits [of f j] n(1) l1 by (simp add: c2_def nth_merge)
  qed
  define final' where "final' = merge (\<lambda>p. p div 13 < 25)
    (\<lambda>p. if p mod 13 < n + 1 then Some (c2 ! (nat (filterCoeffDeltaIdx a ! (p div 13)) * 13 + p mod 13)) else None) final"
  have copy: "copy_filters c2 (filterCoeffDeltaIdx a) (n + 1) final = Some final'"
    unfolding final'_def
  proof (rule copy_filters_law [OF _ l(2) final])
    show "0 \<le> filterCoeffDeltaIdx a ! k \<and> nat (filterCoeffDeltaIdx a ! k) * 13 + (n + 1) \<le> length c2" if "k < 25" for k
      using idx [OF that] fits [of "nat (filterCoeffDeltaIdx a ! k)" n] n(1) l2 by auto
  qed (use n(1) in simp)
  have redo: "\<exists>c3. (if bRedo \<and> coeffDeltaPredModeFlag a then subtract_previous m n c2 else Some c2) = Some c3
    \<and> (bRedo \<longrightarrow> (\<forall>i<m. \<forall>j<n. c3 ! (i * 13 + j) = ?c ! (i * 13 + j)))"
  proof (cases "bRedo \<and> coeffDeltaPredModeFlag a")
    case True
    have "(m - 1) * 13 + n \<le> length ?c" using fits [of "m - 1" n] m n(1) l(1) by simp
    then have "\<exists>coeff. subtract_previous m n c2 = Some coeff \<and> length coeff = length ?c
        \<and> (\<forall>i<m. \<forall>j<n. coeff ! (i * 13 + j) = ?c ! (i * 13 + j))"
      by (intro subtract_previous_law) (use n l l2 c2 True in \<open>auto simp: filter_tap_def\<close>)
    then show ?thesis using True by auto
  next
    case False
    then show ?thesis using c2 n by (auto simp: filter_tap_def)
  qed
  then obtain c3 where c3: "(if bRedo \<and> coeffDeltaPredModeFlag a then subtract_previous m n c2 else Some c2) = Some c3"
    "bRedo \<longrightarrow> (\<forall>i<m. \<forall>j<n. c3 ! (i * 13 + j) = ?c ! (i * 13 + j))" by blast
  have "reconstructCoeff a False bRedo final = Some (set_coeff False c3 a, final')"
    unfolding reconstructCoeff_def Let_def n_def [symmetric] alf_num_filters_def alf_coeff_def if_False m_def [symmetric]
    using add set copy c3(1) by (simp add: n(3) m_NUM_BITS_def push_bit_int_def)
  moreover have "final' ! (k * 13 + j) = filter_tap a (nat (filterCoeffDeltaIdx a ! k)) j" if "k < 25" "j < n + 1" for k j
    using that idx [OF that(1)] c2 [of "nat (filterCoeffDeltaIdx a ! k)" j] n(1) final by (simp add: final'_def nth_merge)
  ultimately show ?thesis
    using final c3(2) by (auto simp: n(3) final'_def set_coeff_def m_def)
qed

section \<open>From the filters of the encoder to those of the decoder\<close>

definition filters_ok :: "int list list \<Rightarrow> bool" where
  "filters_ok fs \<longleftrightarrow> length fs = 25 \<and> (\<forall>row\<in>set fs. length row = 13)"

lemma filters_ok_row: "filters_ok fs \<Longrightarrow> i < 25 \<Longrightarrow> length (fs ! i) = 13"
  by (simp add: filters_ok_def)

definition difference :: "int list list \<Rightarrow> nat \<Rightarrow> nat \<Rightarrow> int" where
  "difference fs i j = (if i = 0 then fs ! 0 ! j else fs ! i ! j - fs ! (i - 1) ! j)"

lemma filter_differences_law:
  assumes "filters_ok fs" "filters_ok D" "n \<le> 13" "m \<le> 25"
  shows "\<exists>d. filter_differences fs n m D = Some d \<and> filters_ok d \<and> (\<forall>i<m. \<forall>j<n. d ! i ! j = difference fs i j)"
proof -
  let ?R = "\<lambda>i. map (\<lambda>j. if j < n then difference fs i j else D ! i ! j) [0..<13]"
  let ?Rs = "map ?R [0..<25]"
  have len: "length fs = 25" "length D = 25" using assms(1,2) by (simp_all add: filters_ok_def)
  have row: "for_loop (\<lambda>j diff. do {
       c \<leftarrow> arr_get (fs ! i) j;
       if i = 0 then arr_set diff j c
       else do { prev \<leftarrow> arr_get fs (i - 1); p \<leftarrow> arr_get prev j; arr_set diff j (c - p) } }) [0..<n] (D ! i) = Some (?R i)"
    if i: "i < m" for i
  proof -
    have rows: "length (fs ! i) = 13" "length (fs ! (i - 1)) = 13" "length (D ! i) = 13"
      using filters_ok_row assms(1,2,4) i by simp_all
    have "for_loop (\<lambda>j diff. do {
       c \<leftarrow> arr_get (fs ! i) j;
       if i = 0 then arr_set diff j c
       else do { prev \<leftarrow> arr_get fs (i - 1); p \<leftarrow> arr_get prev j; arr_set diff j (c - p) } }) [0..<n]
        (overlay 0 (?R i) (D ! i)) = Some (overlay n (?R i) (D ! i))"
    proof (rule for_loop_upt)
      fix j
      assume j: "j < n"
      have r: "?R i ! j = (if i = 0 then fs ! i ! j else fs ! i ! j - fs ! (i - 1) ! j)"
        using j assms(3) by (simp add: difference_def)
      have "arr_set (overlay j (?R i) (D ! i)) j (?R i ! j) = Some (overlay (Suc j) (?R i) (D ! i))"
        by (rule arr_overlay) (use rows j assms(3) in auto)
      then show "do { c \<leftarrow> arr_get (fs ! i) j;
         if i = 0 then arr_set (overlay j (?R i) (D ! i)) j c
         else do { prev \<leftarrow> arr_get fs (i - 1); p \<leftarrow> arr_get prev j; arr_set (overlay j (?R i) (D ! i)) j (c - p) } }
         = Some (overlay (Suc j) (?R i) (D ! i))"
        using rows j assms(3,4) len i unfolding r by (auto simp del: arr_set_Some)
    qed simp
    moreover have "overlay n (?R i) (D ! i) = ?R i"
      by (rule nth_equalityI) (use rows in \<open>auto simp: nth_overlay\<close>)
    ultimately show ?thesis by simp
  qed
  have "filter_differences fs n m (overlay 0 ?Rs D) = Some (overlay m ?Rs D)"
    unfolding filter_differences_def
  proof (rule for_loop_upt)
    fix i
    assume i: "i < m"
    have "overlay i ?Rs D ! i = D ! i" using i assms(4) len by (simp add: nth_overlay)
    moreover have "arr_set (overlay i ?Rs D) i (?Rs ! i) = Some (overlay (Suc i) ?Rs D)"
      by (rule arr_overlay) (use len i assms(4) in auto)
    moreover have "?Rs ! i = ?R i" using i assms(4) by simp
    ultimately show "do {
       row \<leftarrow> arr_get fs i;
       diff \<leftarrow> arr_get (overlay i ?Rs D) i;
       diff \<leftarrow> for_loop (\<lambda>j diff. do {
         c \<leftarrow> arr_get row j;
         if i = 0 then arr_set diff j c
         else do { prev \<leftarrow> arr_get fs (i - 1); p \<leftarrow> arr_get prev j; arr_set diff j (c - p) } }) [0..<n] diff;
       arr_set (overlay i ?Rs D) i diff } = Some (overlay (Suc i) ?Rs D)"
      using row [OF i] i assms(4) len by (simp del: arr_set_Some)
  qed simp
  moreover have "filters_ok (overlay m ?Rs D)"
    unfolding filters_ok_def using assms(2) len by (auto simp: all_set_conv_all_nth nth_overlay filters_ok_def)
  moreover have "overlay m ?Rs D ! i ! j = difference fs i j" if "i < m" "j < n" for i j
    using that assms(3,4) len by (simp add: nth_overlay)
  ultimately show ?thesis by auto
qed

lemma store_filters_law:
  assumes "filters_ok fs" "length luma = 325" "n \<le> 13" "m \<le> 25"
  shows "\<exists>luma'. store_filters fs n m luma = Some luma' \<and> length luma' = 325
    \<and> (\<forall>i<m. \<forall>j<n. luma' ! (i * 13 + j) = to_i16 (fs ! i ! j)) \<and> (shorts luma \<longrightarrow> shorts luma')"
proof -
  let ?g = "\<lambda>p. if p mod 13 < n then Some (to_i16 (fs ! (p div 13) ! (p mod 13))) else None"
  let ?X = "\<lambda>i. merge (\<lambda>p. p div 13 < i) ?g luma"
  let ?Y = "\<lambda>i j. merge (\<lambda>p. p div 13 < i \<or> p div 13 = i \<and> p mod 13 < j) ?g luma"
  have len: "length fs = 25" using assms(1) by (simp add: filters_ok_def)
  have "store_filters fs n m (?X 0) = Some (?X m)"
    unfolding store_filters_def
  proof (rule for_loop_upt)
    fix i
    assume i: "i < m"
    have "for_loop (\<lambda>j luma. do { row \<leftarrow> arr_get fs i; c \<leftarrow> arr_get row j;
        arr_set luma (i * MAX_NUM_ALF_LUMA_COEFF + j) (to_i16 c) }) [0..<n] (?Y i 0) = Some (?Y i n)"
    proof (rule for_loop_upt)
      fix j
      assume j: "j < n"
      then have j13: "j < 13" using assms(3) by simp
      have "(?Y i j)[i * 13 + j := to_i16 (fs ! i ! j)] = ?Y i (Suc j)"
        using i j j13 assms(2,4) block_position [OF j13, of _ i] by (intro merge_set) (auto simp: less_Suc_eq)
      then show "do { row \<leftarrow> arr_get fs i; c \<leftarrow> arr_get row j;
          arr_set (?Y i j) (i * MAX_NUM_ALF_LUMA_COEFF + j) (to_i16 c) } = Some (?Y i (Suc j))"
        using i j13 assms(2,4) len filters_ok_row [OF assms(1), of i] by (simp add: MAX_NUM_ALF_LUMA_COEFF_def)
    qed simp
    moreover have "?Y i n = ?X (Suc i)" by (rule merge_same) (auto simp: less_Suc_eq)
    ultimately show "for_loop (\<lambda>j luma. do { row \<leftarrow> arr_get fs i; c \<leftarrow> arr_get row j;
        arr_set luma (i * MAX_NUM_ALF_LUMA_COEFF + j) (to_i16 c) }) [0..<n] (?X i) = Some (?X (Suc i))" by simp
  qed simp
  moreover have "?X m ! (i * 13 + j) = to_i16 (fs ! i ! j)" if "i < m" "j < n" for i j
    using that assms(2-4) by (simp add: nth_merge)
  moreover have "shorts (?X m)" if "shorts luma"
    using that to_i16_range unfolding shorts_def all_set_conv_all_nth by (auto simp: nth_merge)
  ultimately show ?thesis using assms(2) by auto
qed

lemma summed_difference:
  assumes "\<And>i. i \<le> f \<Longrightarrow> luma ! (i * 13 + j) = to_i16 (difference fs i j)"
    "\<And>i. i \<le> f \<Longrightarrow> - 32768 \<le> fs ! i ! j \<and> fs ! i ! j < 32768"
  shows "summed luma f j = fs ! f ! j"
  using assms
proof (induction f)
  case 0
  then show ?case by (simp add: difference_def)
next
  case (Suc f)
  have IH: "summed luma f j = fs ! f ! j" by (rule Suc.IH) (use Suc.prems in auto)
  have "luma ! (13 + f * 13 + j) = to_i16 (fs ! Suc f ! j - fs ! f ! j)" using Suc.prems(1) [of "Suc f"] by (simp add: difference_def)
  then show ?case using Suc.prems(2) [of "Suc f"] by (simp add: IH to_i16_sub_add)
qed

lemma coeff_received_shorts:
  assumes "alf_ok a" "shorts old" "length old = length (alf_coeff a ch)"
  shows "shorts (coeff_received a ch old)"
proof -
  have s: "shorts (alf_coeff a ch)" using assms(1) by (simp add: alf_ok_def alf_coeff_def shorts_def)
  show ?thesis
    using s assms(2,3) unfolding shorts_def all_set_conv_all_nth
    by (auto simp: coeff_received_def nth_merge coeff_at_def Let_def)
qed

lemma flags_received_length:
  assumes "alf_ok a" "length old = 25"
  shows "length (flags_received a old) = 25"
  using assms by (simp add: flags_received_def alf_ok_def alf_wf_def)

lemma alf_received_limits:
  assumes "alf_ok a" "alf_memory a0" "enabledFlag a ! 0"
  shows "alf_limits (alf_received a a0)"
proof -
  have step: "alf_limits (filter_received a ch x)" if "alf_limits x" for ch x
  proof -
    have l: "length (alf_coeff x ch) = length (alf_coeff a ch)"
      using that assms(1) by (auto simp: alf_limits_def alf_ok_def alf_wf_def alf_coeff_def)
    have "shorts (alf_coeff x ch)" using that by (simp add: alf_limits_def alf_coeff_def)
    note c = coeff_received_shorts [OF assms(1) this l]
    have f: "length (flags_received a (filterCoeffFlag x)) = 25"
      by (rule flags_received_length [OF assms(1)]) (use that in \<open>simp add: alf_limits_def alf_wf_def\<close>)
    show ?thesis
      using that c f by (auto simp: filter_received_def alf_limits_def alf_wf_def alf_coeff_def coeff_received_def)
  qed
  have d: "0 \<le> d \<and> d < numLumaFilters a" if "d \<in> set (filterCoeffDeltaIdx a)" for d
    using assms(1) that by (auto simp: alf_ok_def)
  have "alf_limits (a0\<lparr>enabledFlag := enabledFlag a, numLumaFilters := numLumaFilters a, lumaFilterType := lumaFilterType a,
      filterCoeffDeltaIdx := if numLumaFilters a > 1 then filterCoeffDeltaIdx a else replicate 25 0\<rparr>)"
    using assms(1,2) d by (auto simp: alf_limits_def alf_memory_def alf_wf_def alf_ok_def)
  then show ?thesis using assms(3) step alf_limits_update(4) by (simp add: alf_received_def Let_def)
qed

text \<open>What of the luma filters arrives.\<close>

lemma alf_received_luma:
  assumes "alf_ok a" "alf_wf a0" "enabledFlag a ! 0"
  shows "lumaFilterType (alf_received a a0) = lumaFilterType a"
    "numLumaFilters (alf_received a a0) = numLumaFilters a"
    "coeffDeltaPredModeFlag (alf_received a a0) = pred_received a"
    "filterCoeffDeltaIdx (alf_received a a0) = (if numLumaFilters a > 1 then filterCoeffDeltaIdx a else replicate 25 0)"
    "i < nat (numLumaFilters a) \<Longrightarrow> j < alf_num_coeff a False - 1 \<Longrightarrow>
      lumaCoeff (alf_received a a0) ! (i * 13 + j) = (if alf_skips a False i then 0 else lumaCoeff a ! (i * 13 + j))"
proof -
  have n: "numCoeff (alf_shape_of a False) = alf_num_coeff a False"
    by (simp add: alf_shape_of_def alf_num_coeff_def AlfFilterShape_def)
  have luma: "lumaCoeff (alf_received a a0) = coeff_received a False (lumaCoeff a0)"
    using assms(3) by (simp add: alf_received_def filter_received_def Let_def)
  have "length (lumaCoeff a0) = 325" using assms(2) by (simp add: alf_wf_def)
  moreover assume "i < nat (numLumaFilters a)" "j < alf_num_coeff a False - 1"
  moreover have "alf_num_coeff a False \<le> 13" using alf_num_coeff_bounds [of a False] by auto
  moreover have "nat (numLumaFilters a) \<le> 25" using assms(1) by (auto simp: alf_ok_def)
  ultimately show "lumaCoeff (alf_received a a0) ! (i * 13 + j) = (if alf_skips a False i then 0 else lumaCoeff a ! (i * 13 + j))"
    unfolding luma coeff_received_def by (auto simp: nth_merge coeff_at_def alf_num_filters_def n alf_coeff_def)
qed (use assms(3) in \<open>simp_all add: alf_received_def filter_received_def Let_def\<close>)


section \<open>Properties\<close>

text \<open>
  C6. From the filters of the encoder to the filters of the decoder: the encoder takes the differences between neighbouring
  filters, stores them as \<open>short\<close> and sends them; the decoder parses the parameters, adds the differences up again and
  copies the filter of each class.  Every class gets exactly the coefficients that the encoder had, also where a
  difference leaves the range of \<open>short\<close>, and a centre coefficient by which the gain is 512 (modulo \<open>2 ^ 16\<close>).
\<close>

theorem alf_filters_transmitted:
  assumes fs: "filters_ok fs" "\<forall>row\<in>set fs. \<forall>c\<in>set row. - (2 ^ 15) \<le> c \<and> c < 2 ^ 15" and D: "filters_ok D"
    and n: "n = alf_num_coeff a False" and m: "m = nat (numLumaFilters a)" "1 < m"
    and sent: "filter_differences fs n m D = Some d" "store_filters d n m L = Some (lumaCoeff a)" "length L = 325"
    and a: "alf_ok a" "enabledFlag a ! 0" "\<not> coeffDeltaFlag a" "coeffDeltaPredModeFlag a"
    and dec: "alf_memory a0" "length final = 325"
    and tabs: "length tab = 25" "length tab' = 25" "length dtab = 25" "length dtab' = 25"
  shows "\<exists>s t b a' final'. code_alf tab tab' a clear = Some s
    \<and> parse_alf dtab dtab' a0 (open_stream (out_fifo (writeAlignZero s))) = Some (b, t)
    \<and> reconstructCoeff b False False final = Some (a', final')
    \<and> (\<forall>k<25. let f = fs ! nat (filterCoeffDeltaIdx a ! k) in
        (\<forall>j<n - 1. final' ! (k * 13 + j) = f ! j)
        \<and> final' ! (k * 13 + (n - 1)) = to_i16 (512 - 2 * (\<Sum>j\<leftarrow>[0..<n - 1]. f ! j)))"
proof -
  have wf0: "alf_wf a0" using dec(1) by (simp add: alf_memory_def)
  let ?b = "alf_received a a0"
  from codes_whole_stream [OF codes_alf [OF a(1) wf0 tabs]] obtain s t where
    s: "code_alf tab tab' a clear = Some s" "parse_alf dtab dtab' a0 (open_stream (out_fifo (writeAlignZero s))) = Some (?b, t)" by blast
  note r = alf_received_luma [OF a(1) wf0 a(2)]
  have m25: "m \<le> 25" using a(1) m(1) by (auto simp: alf_ok_def)
  have n13: "n = 7 \<or> n = 13" unfolding n by (rule alf_num_coeff_bounds)
  have nb: "alf_num_coeff ?b False = n" using r(1) by (simp add: alf_num_coeff_def n)
  have pred: "coeffDeltaPredModeFlag ?b" using a(3,4) m r(3) by (simp add: pred_received_def)
  from filter_differences_law [OF fs(1) D, of n m] n13 m25 sent(1) have d: "filters_ok d" "\<And>i j. i < m \<Longrightarrow> j < n \<Longrightarrow> d ! i ! j = difference fs i j"
    by auto
  from store_filters_law [OF d(1) sent(3), of n m] n13 m25 sent(2)
  have luma: "lumaCoeff a ! (i * 13 + j) = to_i16 (difference fs i j)" if "i < m" "j < n" for i j
    using that d(2) by auto
  have sh: "- 32768 \<le> fs ! i ! j \<and> fs ! i ! j < 32768" if "i < 25" "j < 13" for i j
  proof -
    have "fs ! i \<in> set fs" using fs(1) that(1) by (simp add: filters_ok_def)
    moreover from this have "fs ! i ! j \<in> set (fs ! i)" using fs(1) that(2) by (simp add: filters_ok_def)
    ultimately show ?thesis using fs(2) by auto
  qed
  have tap: "filter_tap ?b f j = (if j < n - 1 then fs ! f ! j else to_i16 (512 - 2 * (\<Sum>j\<leftarrow>[0..<n - 1]. fs ! f ! j)))"
    if f: "f < m" for f j
  proof -
    have "summed (lumaCoeff ?b) f j = fs ! f ! j" if j: "j < n - 1" for j
    proof (rule summed_difference)
      show "lumaCoeff ?b ! (i * 13 + j) = to_i16 (difference fs i j)" if "i \<le> f" for i
        using r(5) [of i j] luma [of i j] that f j n m(1) a(3) by (simp add: alf_skips_def)
      show "- 32768 \<le> fs ! i ! j \<and> fs ! i ! j < 32768" if "i \<le> f" for i
        using sh [of i j] that f j m25 n13 by auto
    qed
    then have "map (\<lambda>i. summed (lumaCoeff ?b) f i) [0..<n - 1] = map (\<lambda>i. fs ! f ! i) [0..<n - 1]"
      and "j < n - 1 \<Longrightarrow> summed (lumaCoeff ?b) f j = fs ! f ! j" by simp_all
    then show ?thesis by (simp add: filter_tap_def nb pred del: map_eq_conv)
  qed
  have idx: "filterCoeffDeltaIdx ?b = filterCoeffDeltaIdx a" using r(4) m by simp
  have lt: "nat (filterCoeffDeltaIdx a ! k) < m" if "k < 25" for k
  proof -
    have "filterCoeffDeltaIdx a ! k \<in> set (filterCoeffDeltaIdx a)" using that a(1) by (simp add: alf_ok_def alf_wf_def)
    then show ?thesis using a(1) m(1) by (auto simp: alf_ok_def)
  qed
  from reconstructCoeff_law [OF alf_received_limits [OF a(1) dec(1) a(2)] dec(2), of False] obtain a' final' where
    f: "reconstructCoeff ?b False False final = Some (a', final')"
    "\<And>k j. k < 25 \<Longrightarrow> j < n \<Longrightarrow> final' ! (k * 13 + j) = filter_tap ?b (nat (filterCoeffDeltaIdx a ! k)) j"
    unfolding nb idx by blast
  have "\<forall>k<25. let f = fs ! nat (filterCoeffDeltaIdx a ! k) in
        (\<forall>j<n - 1. final' ! (k * 13 + j) = f ! j)
        \<and> final' ! (k * 13 + (n - 1)) = to_i16 (512 - 2 * (\<Sum>j\<leftarrow>[0..<n - 1]. f ! j))"
    using f(2) tap [OF lt] n13 by (auto simp: Let_def)
  with s f(1) show ?thesis by blast
qed

text \<open>Two filters whose difference is no \<open>short\<close>.\<close>

definition sample_filters :: "int list list" where
  "sample_filters = [replicate 13 32767, replicate 13 (- 32768)] @ replicate 23 (replicate 13 5)"

definition sample_differences :: "int list list" where
  "sample_differences = [replicate 13 32767, replicate 13 (- 65535)] @ replicate 23 (replicate 13 0)"

definition predicted_alf :: alf_param where
  "predicted_alf = empty_alf\<lparr>enabledFlag := [True, False, False], lumaFilterType := ALF_FILTER_7, numLumaFilters := 2,
     coeffDeltaPredModeFlag := True, filterCoeffDeltaIdx := [0, 1] @ replicate 23 1,
     lumaCoeff := replicate 13 32767 @ replicate 13 1 @ replicate 299 0\<rparr>"

theorem alf_filters_transmitted_witness:
  "\<exists>s t b a' final'. code_alf (replicate 25 0) (replicate 25 0) predicted_alf clear = Some s
    \<and> parse_alf (replicate 25 0) (replicate 25 0) empty_alf (open_stream (out_fifo (writeAlignZero s))) = Some (b, t)
    \<and> reconstructCoeff b False False (replicate 325 0) = Some (a', final')
    \<and> (\<forall>k<25. let f = sample_filters ! nat (filterCoeffDeltaIdx predicted_alf ! k) in
        (\<forall>j<13 - 1. final' ! (k * 13 + j) = f ! j)
        \<and> final' ! (k * 13 + (13 - 1)) = to_i16 (512 - 2 * (\<Sum>j\<leftarrow>[0..<13 - 1]. f ! j)))"
proof (rule alf_filters_transmitted)
  show "filter_differences sample_filters 13 2 (replicate 25 (replicate 13 0)) = Some sample_differences" by code_simp
  show "store_filters sample_differences 13 2 (replicate 325 0) = Some (lumaCoeff predicted_alf)" by code_simp
  show "filters_ok sample_filters" "filters_ok (replicate 25 (replicate 13 0))"
    "\<forall>row\<in>set sample_filters. \<forall>c\<in>set row. - (2 ^ 15) \<le> c \<and> c < 2 ^ 15"
    by (auto simp: filters_ok_def sample_filters_def)
  show "alf_ok predicted_alf" by (auto simp: alf_ok_def alf_wf_def predicted_alf_def empty_alf_def alf_reset_def)
  show "alf_memory empty_alf" by (auto simp: alf_memory_def alf_wf_def empty_alf_def alf_reset_def shorts_def)
qed (simp_all add: predicted_alf_def empty_alf_def alf_reset_def alf_num_coeff_def)

end
