(* ===== verification/AlfBlock.thy ===== *)
theory AlfBlock
imports AlfSyntax
begin

text \<open>
  The adaptive loop filter on samples (\<open>CommonLib/AdaptiveLoopFilter.cpp\<close>): the buffers of samples, the classification of
  four by four blocks by their second differences (\<open>deriveClassificationBlk\<close>) and the filter itself (\<open>filterBlk\<close>).
  A buffer of samples is the array it lies in, the position of \<open>buf\<close> in it and the distance of its rows.  Accesses
  outside of the array and signed overflow are \<^const>\<open>None\<close>.
\<close>

section \<open>Buffers of samples\<close>

record plane =
  pels :: "int list"
  origin :: int
  stride :: int

definition pel :: "plane \<Rightarrow> int \<Rightarrow> int option" where
  "pel p a = arr_get_i (pels p) (origin p + a)"

definition set_pel :: "plane \<Rightarrow> int \<Rightarrow> int \<Rightarrow> plane option" where
  "set_pel p a v = do { ps \<leftarrow> arr_set_i (pels p) (origin p + a) v; Some (p\<lparr>pels := ps\<rparr>) }"

record area =
  area_x :: int
  area_y :: int
  area_width :: nat
  area_height :: nat

record clp_rng =
  clp_min :: int
  clp_max :: int

definition Clip3 :: "int \<Rightarrow> int \<Rightarrow> int \<Rightarrow> int" where
  "Clip3 minVal maxVal a = min (max minVal a) maxVal"

definition ClipPel :: "int \<Rightarrow> clp_rng \<Rightarrow> int" where
  "ClipPel a clpRng = min (max (clp_min clpRng) a) (clp_max clpRng)"

text \<open>\<open>for (int i = 0; i < n; i += step)\<close>\<close>

definition steps :: "nat \<Rightarrow> nat \<Rightarrow> nat list" where
  "steps step n = map (\<lambda>k. k * step) [0..<(n + step - 1) div step]"

section \<open>Classification\<close>

text \<open>The four gradients, as rows of \<open>m_laplacian\<close>.\<close>

record laplacian =
  lap_ver :: "int list list"
  lap_hor :: "int list list"
  lap_dig0 :: "int list list"
  lap_dig1 :: "int list list"

definition lap_get :: "int list list \<Rightarrow> nat \<Rightarrow> nat \<Rightarrow> int option" where
  "lap_get l i j = do { row \<leftarrow> arr_get l i; arr_get row j }"

definition lap_set :: "int list list \<Rightarrow> nat \<Rightarrow> nat \<Rightarrow> int \<Rightarrow> int list list option" where
  "lap_set l i j v = do { row \<leftarrow> arr_get l i; row \<leftarrow> arr_set row j v; arr_set l i row }"

text \<open>The samples \<open>p[-1]\<close>, \<open>p[0]\<close>, \<open>p[1]\<close> and \<open>p[2]\<close>.\<close>

definition four_pels :: "plane \<Rightarrow> int \<Rightarrow> (int \<times> int \<times> int \<times> int) option" where
  "four_pels src a = do { m \<leftarrow> pel src (a - 1); p0 \<leftarrow> pel src a; p1 \<leftarrow> pel src (a + 1); p2 \<leftarrow> pel src (a + 2); Some (m, p0, p1, p2) }"

text \<open>The four gradients at two by two samples.\<close>

definition gradients :: "plane \<Rightarrow> int \<Rightarrow> (int \<times> int \<times> int \<times> int) option" where
  "gradients src a = do {
     (ym, pY0, pY1, pY2) \<leftarrow> four_pels src a;
     (dm, pYdown0, pYdown1, pYdown2) \<leftarrow> four_pels src (a - stride src);
     (um, pYup0, pYup1, pYup2) \<leftarrow> four_pels src (a + stride src);
     (vm, pYupp0, pYupp1, pYupp2) \<leftarrow> four_pels src (a + stride src * 2);
     let y0 = to_i16 (pY0 * 2);
     let y1 = to_i16 (pY1 * 2);
     let yup0 = to_i16 (pYup0 * 2);
     let yup1 = to_i16 (pYup1 * 2);
     let ver = \<bar>y0 - pYdown0 - pYup0\<bar> + \<bar>y1 - pYdown1 - pYup1\<bar> + \<bar>yup0 - pY0 - pYupp0\<bar> + \<bar>yup1 - pY1 - pYupp1\<bar>;
     let hor = \<bar>y0 - pY1 - ym\<bar> + \<bar>y1 - pY2 - pY0\<bar> + \<bar>yup0 - pYup1 - um\<bar> + \<bar>yup1 - pYup2 - pYup0\<bar>;
     let dig0 = \<bar>y0 - dm - pYup1\<bar> + \<bar>y1 - pYdown0 - pYup2\<bar> + \<bar>yup0 - ym - pYupp1\<bar> + \<bar>yup1 - pY0 - pYupp2\<bar>;
     let dig1 = \<bar>y0 - um - pYdown1\<bar> + \<bar>y1 - pYup0 - pYdown2\<bar> + \<bar>yup0 - vm - pY1\<bar> + \<bar>yup1 - pYupp0 - pY2\<bar>;
     Some (ver, hor, dig0, dig1) }"

text \<open>\<open>p[jM6] += p[jM4] + p[jM2] + p[j]\<close>\<close>

definition add_up :: "nat \<Rightarrow> nat \<Rightarrow> int list list \<Rightarrow> int list list option" where
  "add_up i j l = do {
     a \<leftarrow> lap_get l i (j - 6); b \<leftarrow> lap_get l i (j - 4); c \<leftarrow> lap_get l i (j - 2); d \<leftarrow> lap_get l i j;
     lap_set l i (j - 6) (a + (b + c + d)) }"

definition laplacian_step :: "plane \<Rightarrow> area \<Rightarrow> nat \<Rightarrow> nat \<Rightarrow> laplacian \<Rightarrow> laplacian option" where
  "laplacian_step src blk i j l = do {
     let startHeight = area_y blk - 3;
     let yoffset = (int i + 1 + startHeight) * stride src - 3;
     let pixY = int j + 1 + area_x blk;
     (v, h, d0, d1) \<leftarrow> gradients src (yoffset + pixY);
     ver \<leftarrow> lap_set (lap_ver l) i j v;
     hor \<leftarrow> lap_set (lap_hor l) i j h;
     dig0 \<leftarrow> lap_set (lap_dig0 l) i j d0;
     dig1 \<leftarrow> lap_set (lap_dig1 l) i j d1;
     if j > 4 \<and> (j - 6) mod 4 = 0 then do {
       ver \<leftarrow> add_up i j ver; hor \<leftarrow> add_up i j hor; dig0 \<leftarrow> add_up i j dig0; dig1 \<leftarrow> add_up i j dig1;
       Some \<lparr>lap_ver = ver, lap_hor = hor, lap_dig0 = dig0, lap_dig1 = dig1\<rparr>
     } else Some \<lparr>lap_ver = ver, lap_hor = hor, lap_dig0 = dig0, lap_dig1 = dig1\<rparr> }"

text \<open>\<open>th\<close> and \<open>transposeTable\<close> of the source\<close>

definition activity_class :: "nat list" where
  "activity_class = [0, 1, 2, 2, 2, 2, 2, 3, 3, 3, 3, 3, 3, 3, 3, 4]"

definition transposeTable :: "nat list" where
  "transposeTable = [0, 1, 0, 2, 2, 3, 1, 3]"

definition classify :: "int \<Rightarrow> int \<Rightarrow> int \<Rightarrow> int \<Rightarrow> nat \<Rightarrow> (nat \<times> nat) option" where
  "classify sumV sumH sumD0 sumD1 shift = do {
     let tempAct = sumV + sumH;
     scaled \<leftarrow> i32 (tempAct * 32);
     let activity = Clip3 0 15 (drop_bit shift scaled);
     classIdx \<leftarrow> arr_get_i activity_class activity;
     let (hv1, hv0, dirTempHV) = (if sumV > sumH then (sumV, sumH, 1) else (sumH, sumV, 3));
     let (d1, d0, dirTempD) = (if sumD0 > sumD1 then (sumD0, sumD1, 0) else (sumD1, sumD0, 2));
     dh \<leftarrow> i32 (d1 * hv0);
     hd \<leftarrow> i32 (hv1 * d0);
     let (hvd1, hvd0, mainDirection, secondaryDirection) =
       (if dh > hd then (d1, d0, dirTempD, dirTempHV) else (hv1, hv0, dirTempHV, dirTempD :: nat));
     let directionStrength = (0 :: nat);
     let directionStrength = (if hvd1 > 2 * hvd0 then 1 else directionStrength);
     let directionStrength = (if hvd1 * 2 > 9 * hvd0 then 2 else directionStrength);
     let classIdx = (if directionStrength \<noteq> 0 then classIdx + (push_bit 1 (mainDirection AND 1) + directionStrength) * 5 else classIdx);
     transposeIdx \<leftarrow> arr_get transposeTable (mainDirection * 2 + drop_bit 1 secondaryDirection);
     Some (classIdx, transposeIdx) }"

type_synonym classifier = "(nat \<times> nat) list list"

text \<open>The sum of four rows at a column.\<close>

definition window_sum :: "int list list \<Rightarrow> nat \<Rightarrow> nat \<Rightarrow> int option" where
  "window_sum l i j = do {
     a \<leftarrow> lap_get l i j; b \<leftarrow> lap_get l (i + 2) j; c \<leftarrow> lap_get l (i + 4) j; d \<leftarrow> lap_get l (i + 6) j;
     Some (a + b + c + d) }"

definition set_class :: "int \<Rightarrow> int \<Rightarrow> nat \<times> nat \<Rightarrow> classifier \<Rightarrow> classifier option" where
  "set_class y x cl classifier = do {
     row \<leftarrow> arr_get_i classifier y; row \<leftarrow> arr_set_i row x cl; arr_set_i classifier y row }"

definition classify_block :: "laplacian \<Rightarrow> area \<Rightarrow> nat \<Rightarrow> nat \<Rightarrow> nat \<Rightarrow> classifier \<Rightarrow> classifier option" where
  "classify_block l blk shift i j classifier = do {
     sumV \<leftarrow> window_sum (lap_ver l) i j;
     sumH \<leftarrow> window_sum (lap_hor l) i j;
     sumD0 \<leftarrow> window_sum (lap_dig0 l) i j;
     sumD1 \<leftarrow> window_sum (lap_dig1 l) i j;
     cl \<leftarrow> classify sumV sumH sumD0 sumD1 shift;
     let yOffset = int i + area_y blk;
     let xOffset = int j + area_x blk;
     for_loop (\<lambda>k. for_loop (\<lambda>m. set_class (yOffset + k) (xOffset + m) cl) [0, 1, 2, 3]) [0, 1, 2, 3] classifier }"

definition deriveClassificationBlk :: "plane \<Rightarrow> area \<Rightarrow> nat \<Rightarrow> classifier \<times> laplacian \<Rightarrow> (classifier \<times> laplacian) option" where
  "deriveClassificationBlk src blk shift = (\<lambda>(classifier, l). do {
     let height = area_height blk + 4;
     let width = area_width blk + 4;
     l \<leftarrow> for_loop (\<lambda>i. for_loop (\<lambda>j. laplacian_step src blk i j) (steps 2 width)) (steps 2 height) l;
     classifier \<leftarrow> for_loop (\<lambda>i. for_loop (\<lambda>j. classify_block l blk shift i j) (steps 4 (area_width blk))) (steps 4 (area_height blk)) classifier;
     Some (classifier, l) })"

definition m_CLASSIFICATION_BLK_SIZE :: nat where "m_CLASSIFICATION_BLK_SIZE = 32"

definition deriveClassification :: "nat \<Rightarrow> plane \<Rightarrow> area \<Rightarrow> classifier \<times> laplacian \<Rightarrow> (classifier \<times> laplacian) option" where
  "deriveClassification inputBitDepth src blk =
     for_loop (\<lambda>i. for_loop (\<lambda>j.
       let nHeight = min (i + m_CLASSIFICATION_BLK_SIZE) (area_height blk) - i;
           nWidth = min (j + m_CLASSIFICATION_BLK_SIZE) (area_width blk) - j
       in deriveClassificationBlk src \<lparr>area_x = area_x blk + int j, area_y = area_y blk + int i, area_width = nWidth, area_height = nHeight\<rparr>
            (inputBitDepth + 4))
       (steps m_CLASSIFICATION_BLK_SIZE (area_width blk))) (steps m_CLASSIFICATION_BLK_SIZE (area_height blk))"

section \<open>Filtering\<close>

definition filter_coeff7 :: "nat \<Rightarrow> int list \<Rightarrow> int list" where
  "filter_coeff7 transposeIdx coef = map ((!) coef)
     (if transposeIdx = 1 then [9, 4, 10, 8, 1, 5, 11, 7, 3, 0, 2, 6, 12]
      else if transposeIdx = 2 then [0, 3, 2, 1, 8, 7, 6, 5, 4, 9, 10, 11, 12]
      else if transposeIdx = 3 then [9, 8, 10, 4, 3, 7, 11, 5, 1, 0, 2, 6, 12]
      else [0, 1, 2, 3, 4, 5, 6, 7, 8, 9, 10, 11, 12])"

definition filter_coeff5 :: "nat \<Rightarrow> int list \<Rightarrow> int list" where
  "filter_coeff5 transposeIdx coef = map ((!) coef)
     (if transposeIdx = 1 then [4, 1, 5, 3, 0, 2, 6]
      else if transposeIdx = 2 then [0, 3, 2, 1, 4, 5, 6]
      else if transposeIdx = 3 then [4, 3, 5, 1, 0, 2, 6]
      else [0, 1, 2, 3, 4, 5, 6])"

text \<open>\<open>sum += c * (p[a] + p[b])\<close> and \<open>sum += c * p[a]\<close>\<close>

definition add_pair :: "int \<Rightarrow> int option \<Rightarrow> int option \<Rightarrow> int \<Rightarrow> int option" where
  "add_pair c a b acc = do { x \<leftarrow> a; y \<leftarrow> b; m \<leftarrow> i32 (c * (x + y)); i32 (acc + m) }"

definition add_one :: "int \<Rightarrow> int option \<Rightarrow> int \<Rightarrow> int option" where
  "add_one c a acc = do { x \<leftarrow> a; m \<leftarrow> i32 (c * x); i32 (acc + m) }"

text \<open>
  The weighted sum around the sample at \<open>a\<close>.  \<open>pImg0\<close> is its row; \<open>pImg1\<close>, \<open>pImg3\<close> and \<open>pImg5\<close> are the rows below,
  \<open>pImg2\<close>, \<open>pImg4\<close> and \<open>pImg6\<close> the rows above.
\<close>

definition filter_sum7 :: "int list \<Rightarrow> plane \<Rightarrow> int \<Rightarrow> int option" where
  "filter_sum7 c src a =
     (let pImg0 = a; pImg1 = a + stride src; pImg2 = a - stride src; pImg3 = pImg1 + stride src; pImg4 = pImg2 - stride src;
          pImg5 = pImg3 + stride src; pImg6 = pImg4 - stride src; p = pel src in do {
       acc \<leftarrow> add_pair (c ! 0) (p pImg5) (p pImg6) 0;
       acc \<leftarrow> add_pair (c ! 1) (p (pImg3 + 1)) (p (pImg4 - 1)) acc;
       acc \<leftarrow> add_pair (c ! 2) (p pImg3) (p pImg4) acc;
       acc \<leftarrow> add_pair (c ! 3) (p (pImg3 - 1)) (p (pImg4 + 1)) acc;
       acc \<leftarrow> add_pair (c ! 4) (p (pImg1 + 2)) (p (pImg2 - 2)) acc;
       acc \<leftarrow> add_pair (c ! 5) (p (pImg1 + 1)) (p (pImg2 - 1)) acc;
       acc \<leftarrow> add_pair (c ! 6) (p pImg1) (p pImg2) acc;
       acc \<leftarrow> add_pair (c ! 7) (p (pImg1 - 1)) (p (pImg2 + 1)) acc;
       acc \<leftarrow> add_pair (c ! 8) (p (pImg1 - 2)) (p (pImg2 + 2)) acc;
       acc \<leftarrow> add_pair (c ! 9) (p (pImg0 + 3)) (p (pImg0 - 3)) acc;
       acc \<leftarrow> add_pair (c ! 10) (p (pImg0 + 2)) (p (pImg0 - 2)) acc;
       acc \<leftarrow> add_pair (c ! 11) (p (pImg0 + 1)) (p (pImg0 - 1)) acc;
       add_one (c ! 12) (p pImg0) acc })"

definition filter_sum5 :: "int list \<Rightarrow> plane \<Rightarrow> int \<Rightarrow> int option" where
  "filter_sum5 c src a =
     (let pImg0 = a; pImg1 = a + stride src; pImg2 = a - stride src; pImg3 = pImg1 + stride src; pImg4 = pImg2 - stride src;
          p = pel src in do {
       acc \<leftarrow> add_pair (c ! 0) (p pImg3) (p pImg4) 0;
       acc \<leftarrow> add_pair (c ! 1) (p (pImg1 + 1)) (p (pImg2 - 1)) acc;
       acc \<leftarrow> add_pair (c ! 2) (p pImg1) (p pImg2) acc;
       acc \<leftarrow> add_pair (c ! 3) (p (pImg1 - 1)) (p (pImg2 + 1)) acc;
       acc \<leftarrow> add_pair (c ! 4) (p (pImg0 + 2)) (p (pImg0 - 2)) acc;
       acc \<leftarrow> add_pair (c ! 5) (p (pImg0 + 1)) (p (pImg0 - 1)) acc;
       add_one (c ! 6) (p pImg0) acc })"

text \<open>One sample.  \<open>taps\<close> is what \<open>filterCoeff\<close> holds.\<close>

definition filter_sample :: "alf_filter_type \<Rightarrow> int list \<Rightarrow> clp_rng \<Rightarrow> plane \<Rightarrow> int \<Rightarrow> int option" where
  "filter_sample filtType taps clpRng src a = do {
     acc \<leftarrow> (if filtType = ALF_FILTER_7 then filter_sum7 taps src a else filter_sum5 taps src a);
     acc \<leftarrow> i32 (acc + 256);
     Some (ClipPel (drop_bit 9 acc) clpRng) }"

text \<open>\<open>coef = filterSet + cl.classIdx * MAX_NUM_ALF_LUMA_COEFF\<close>; the coefficients that the filter uses must be there.\<close>

definition block_taps :: "alf_filter_type \<Rightarrow> bool \<Rightarrow> classifier \<Rightarrow> int list \<Rightarrow> int \<Rightarrow> int \<Rightarrow> int list option" where
  "block_taps filtType bChroma classifier filterSet y x = do {
     (classIdx, transposeIdx) \<leftarrow> (if bChroma then Some (0, 0) else do { row \<leftarrow> arr_get_i classifier y; arr_get_i row x });
     let coef = drop (if bChroma then 0 else classIdx * MAX_NUM_ALF_LUMA_COEFF) filterSet;
     check_not (length coef < (if filtType = ALF_FILTER_7 then 13 else 7));
     Some (if filtType = ALF_FILTER_7 then filter_coeff7 transposeIdx coef else filter_coeff5 transposeIdx coef) }"

definition filterBlk :: "alf_filter_type \<Rightarrow> bool \<Rightarrow> classifier \<Rightarrow> plane \<Rightarrow> area \<Rightarrow> int list \<Rightarrow> clp_rng \<Rightarrow> plane \<Rightarrow> plane option" where
  "filterBlk filtType bChroma classifier src blk filterSet clpRng dst = do {
     check_not (bChroma \<and> filtType \<noteq> ALF_FILTER_5);
     check_not (area_y blk mod 4 \<noteq> 0);
     check_not (area_x blk mod 4 \<noteq> 0);
     check_not (area_height blk mod 4 \<noteq> 0);
     check_not (area_width blk mod 4 \<noteq> 0);
     for_loop (\<lambda>i. for_loop (\<lambda>j dst. do {
       taps \<leftarrow> block_taps filtType bChroma classifier filterSet (area_y blk + int i) (area_x blk + int j);
       for_loop (\<lambda>ii. for_loop (\<lambda>jj dst. do {
         v \<leftarrow> filter_sample filtType taps clpRng src
           ((area_y blk + int i + int ii) * stride src + area_x blk + int j + int jj);
         set_pel dst ((area_y blk + int i + int ii) * stride dst + area_x blk + int j + int jj) v })
         [0, 1, 2, 3]) [0, 1, 2, 3] dst })
       (steps 4 (area_width blk))) (steps 4 (area_height blk)) dst }"

section \<open>Laws of the filter\<close>

text \<open>The neighbourhood of a sample: \<open>N dy dx\<close> is the sample \<open>dy\<close> rows below and \<open>dx\<close> columns to the right of it.\<close>

type_synonym neighbourhood = "int \<Rightarrow> int \<Rightarrow> int"

definition wsum7 :: "int list \<Rightarrow> neighbourhood \<Rightarrow> int" where
  "wsum7 c N = c ! 0 * (N 3 0 + N (- 3) 0)
     + c ! 1 * (N 2 1 + N (- 2) (- 1)) + c ! 2 * (N 2 0 + N (- 2) 0) + c ! 3 * (N 2 (- 1) + N (- 2) 1)
     + c ! 4 * (N 1 2 + N (- 1) (- 2)) + c ! 5 * (N 1 1 + N (- 1) (- 1)) + c ! 6 * (N 1 0 + N (- 1) 0)
     + c ! 7 * (N 1 (- 1) + N (- 1) 1) + c ! 8 * (N 1 (- 2) + N (- 1) 2)
     + c ! 9 * (N 0 3 + N 0 (- 3)) + c ! 10 * (N 0 2 + N 0 (- 2)) + c ! 11 * (N 0 1 + N 0 (- 1)) + c ! 12 * N 0 0"

definition wsum5 :: "int list \<Rightarrow> neighbourhood \<Rightarrow> int" where
  "wsum5 c N = c ! 0 * (N 2 0 + N (- 2) 0)
     + c ! 1 * (N 1 1 + N (- 1) (- 1)) + c ! 2 * (N 1 0 + N (- 1) 0) + c ! 3 * (N 1 (- 1) + N (- 1) 1)
     + c ! 4 * (N 0 2 + N 0 (- 2)) + c ! 5 * (N 0 1 + N 0 (- 1)) + c ! 6 * N 0 0"

text \<open>
  How \<open>transposeIdx\<close> turns the neighbourhood: 1 reflects it in its diagonal, 2 in its vertical axis, 3 does the first
  after the second.
\<close>

definition turned :: "nat \<Rightarrow> neighbourhood \<Rightarrow> neighbourhood" where
  "turned t N = (if t = 1 then (\<lambda>dy dx. N dx dy) else if t = 2 then (\<lambda>dy dx. N dy (- dx))
     else if t = 3 then (\<lambda>dy dx. N (- dx) dy) else N)"

lemma wsum_turned: "wsum7 (filter_coeff7 t c) N = wsum7 c (turned t N)" "wsum5 (filter_coeff5 t c) N = wsum5 c (turned t N)"
  by (simp_all add: wsum7_def wsum5_def filter_coeff7_def filter_coeff5_def turned_def algebra_simps)

definition abs_sum :: "int list \<Rightarrow> nat \<Rightarrow> int" where
  "abs_sum c n = (\<Sum>i\<leftarrow>[0..<n]. \<bar>c ! i\<bar>)"

lemma upto_13: "[0..<13] = [0, 1, 2, 3, 4, 5, 6, 7, 8, 9, 10, 11, 12 :: nat]"
  by code_simp

lemma upto_7: "[0..<7] = [0, 1, 2, 3, 4, 5, 6 :: nat]"
  by code_simp

definition near :: "nat \<Rightarrow> plane \<Rightarrow> int \<Rightarrow> neighbourhood \<Rightarrow> bool" where
  "near r src a N \<longleftrightarrow> (\<forall>dy dx. \<bar>dy\<bar> + \<bar>dx\<bar> \<le> int r \<longrightarrow> pel src (a + dy * stride src + dx) = Some (N dy dx))"

definition samples_below :: "nat \<Rightarrow> int \<Rightarrow> neighbourhood \<Rightarrow> bool" where
  "samples_below r M N \<longleftrightarrow> (\<forall>dy dx. \<bar>dy\<bar> + \<bar>dx\<bar> \<le> int r \<longrightarrow> \<bar>N dy dx\<bar> \<le> M)"

lemma add_pair_law:
  assumes "\<bar>x\<bar> \<le> M" "\<bar>y\<bar> \<le> M" "\<bar>acc\<bar> \<le> B" "B + 2 * M * \<bar>c\<bar> < 2 ^ 31"
  shows "add_pair c (Some x) (Some y) acc = Some (acc + c * (x + y))" "\<bar>acc + c * (x + y)\<bar> \<le> B + 2 * M * \<bar>c\<bar>"
proof -
  have "\<bar>c * (x + y)\<bar> = \<bar>c\<bar> * \<bar>x + y\<bar>" by (rule abs_mult)
  also have "\<dots> \<le> \<bar>c\<bar> * (2 * M)" by (rule mult_left_mono) (use assms(1,2) in auto)
  finally have m: "\<bar>c * (x + y)\<bar> \<le> 2 * M * \<bar>c\<bar>" by (simp add: mult.commute)
  show s: "\<bar>acc + c * (x + y)\<bar> \<le> B + 2 * M * \<bar>c\<bar>" using m assms(3) by linarith
  have "0 \<le> B" using assms(3) by linarith
  then show "add_pair c (Some x) (Some y) acc = Some (acc + c * (x + y))"
    using m s assms(4) unfolding add_pair_def i32_def bind.bind_lunit by (auto simp: abs_le_iff abs_less_iff)
qed

lemma add_one_law:
  assumes "\<bar>x\<bar> \<le> M" "\<bar>acc\<bar> \<le> B" "B + M * \<bar>c\<bar> < 2 ^ 31"
  shows "add_one c (Some x) acc = Some (acc + c * x)" "\<bar>acc + c * x\<bar> \<le> B + M * \<bar>c\<bar>"
proof -
  have "\<bar>c * x\<bar> = \<bar>c\<bar> * \<bar>x\<bar>" by (rule abs_mult)
  also have "\<dots> \<le> \<bar>c\<bar> * M" by (rule mult_left_mono) (use assms(1) in auto)
  finally have m: "\<bar>c * x\<bar> \<le> M * \<bar>c\<bar>" by (simp add: mult.commute)
  show s: "\<bar>acc + c * x\<bar> \<le> B + M * \<bar>c\<bar>" using m assms(2) by linarith
  have "0 \<le> B" using assms(2) by linarith
  then show "add_one c (Some x) acc = Some (acc + c * x)"
    using m s assms(3) unfolding add_one_def i32_def bind.bind_lunit by (auto simp: abs_le_iff abs_less_iff)
qed

text \<open>A list of pairs and the centre, added up; both filters are instances.\<close>

fun add_pairs :: "(int \<times> int \<times> int) list \<Rightarrow> int \<Rightarrow> int" where
  "add_pairs [] acc = acc"
| "add_pairs ((c, x, y) # ps) acc = add_pairs ps (acc + c * (x + y))"

fun run_pairs :: "(int \<times> int option \<times> int option) list \<Rightarrow> int \<Rightarrow> int option" where
  "run_pairs [] acc = Some acc"
| "run_pairs ((c, x, y) # ps) acc = do { acc \<leftarrow> add_pair c x y acc; run_pairs ps acc }"

lemma run_pairs_law:
  assumes "list_all2 (\<lambda>(c, x, y) (c', x', y'). c' = c \<and> x = Some x' \<and> y = Some y' \<and> \<bar>x'\<bar> \<le> M \<and> \<bar>y'\<bar> \<le> M) ps qs"
  shows "\<bar>acc\<bar> \<le> B \<Longrightarrow> B + 2 * M * (\<Sum>(c, x, y)\<leftarrow>ps. \<bar>c\<bar>) < 2 ^ 31 \<Longrightarrow>
    run_pairs ps acc = Some (add_pairs qs acc) \<and> \<bar>add_pairs qs acc\<bar> \<le> B + 2 * M * (\<Sum>(c, x, y)\<leftarrow>ps. \<bar>c\<bar>)"
  using assms
proof (induction ps qs arbitrary: acc B rule: list_all2_induct)
  case (Cons p ps q qs)
  obtain c x y where q: "q = (c, x, y)" "p = (c, Some x, Some y)" "\<bar>x\<bar> \<le> M" "\<bar>y\<bar> \<le> M" using Cons.hyps(1) by (cases p; cases q) auto
  let ?S = "\<Sum>(c, x, y)\<leftarrow>ps. \<bar>c\<bar>"
  have "0 \<le> M" using q(3) by linarith
  moreover have "0 \<le> ?S" by (rule sum_list_nonneg) auto
  ultimately have nn: "0 \<le> 2 * M * ?S" by simp
  have t: "B + 2 * M * \<bar>c\<bar> + 2 * M * ?S < 2 ^ 31" using Cons.prems(2) q(2) by (simp add: algebra_simps split_def)
  then have "B + 2 * M * \<bar>c\<bar> < 2 ^ 31" using nn by linarith
  note a = add_pair_law [OF q(3,4) Cons.prems(1) this]
  from Cons.IH [OF a(2) t] show ?case using a(1) q by (simp add: algebra_simps split_def)
qed simp

lemma near_pel: "near r src a N \<Longrightarrow> \<bar>dy\<bar> + \<bar>dx\<bar> \<le> int r \<Longrightarrow> b = a + dy * stride src + dx \<Longrightarrow> pel src b = Some (N dy dx)"
  by (simp add: near_def)

lemma filter_sum7_law:
  assumes N: "near 3 src a N" "samples_below 3 M N" and c: "2 * M * abs_sum c 13 < 2 ^ 31 - 256"
  shows "filter_sum7 c src a = Some (wsum7 c N) \<and> \<bar>wsum7 c N\<bar> < 2 ^ 31 - 256"
proof -
  note p = near_pel [OF N(1)]
  define qs where "qs = [(c ! 0, N 3 0, N (- 3) 0), (c ! 1, N 2 1, N (- 2) (- 1)), (c ! 2, N 2 0, N (- 2) 0), (c ! 3, N 2 (- 1), N (- 2) 1),
    (c ! 4, N 1 2, N (- 1) (- 2)), (c ! 5, N 1 1, N (- 1) (- 1)), (c ! 6, N 1 0, N (- 1) 0), (c ! 7, N 1 (- 1), N (- 1) 1),
    (c ! 8, N 1 (- 2), N (- 1) 2), (c ! 9, N 0 3, N 0 (- 3)), (c ! 10, N 0 2, N 0 (- 2)), (c ! 11, N 0 1, N 0 (- 1))]"
  define ps where "ps = map (\<lambda>(c, x, y). (c, Some x, Some y)) qs"
  have b: "\<bar>N dy dx\<bar> \<le> M" if "\<bar>dy\<bar> + \<bar>dx\<bar> \<le> 3" for dy dx using N(2) that by (simp add: samples_below_def)
  have M: "0 \<le> M" using b [of 0 0] by linarith
  have cs: "(\<Sum>(c, x, y)\<leftarrow>ps. \<bar>c\<bar>) + \<bar>c ! 12\<bar> = abs_sum c 13" by (simp add: ps_def qs_def abs_sum_def upto_13)
  have all: "list_all2 (\<lambda>(c, x, y) (c', x', y'). c' = c \<and> x = Some x' \<and> y = Some y' \<and> \<bar>x'\<bar> \<le> M \<and> \<bar>y'\<bar> \<le> M) ps qs"
    by (simp add: ps_def qs_def b)
  have "0 \<le> M * \<bar>c ! 12\<bar>" using M by simp
  moreover have "2 * M * (\<Sum>(c, x, y)\<leftarrow>ps. \<bar>c\<bar>) + 2 * M * \<bar>c ! 12\<bar> < 2 ^ 31 - 256" using c unfolding cs [symmetric] by (simp add: algebra_simps)
  ultimately have t: "0 + 2 * M * (\<Sum>(c, x, y)\<leftarrow>ps. \<bar>c\<bar>) < 2 ^ 31" "0 + 2 * M * (\<Sum>(c, x, y)\<leftarrow>ps. \<bar>c\<bar>) + M * \<bar>c ! 12\<bar> < 2 ^ 31 - 256"
    by linarith+
  have r: "run_pairs ps 0 = Some (add_pairs qs 0)" "\<bar>add_pairs qs 0\<bar> \<le> 0 + 2 * M * (\<Sum>(c, x, y)\<leftarrow>ps. \<bar>c\<bar>)"
    using run_pairs_law [OF all, of 0 0] t(1) by simp_all
  have l: "add_one (c ! 12) (Some (N 0 0)) (add_pairs qs 0) = Some (add_pairs qs 0 + c ! 12 * N 0 0)"
    "\<bar>add_pairs qs 0 + c ! 12 * N 0 0\<bar> < 2 ^ 31 - 256"
    using add_one_law [OF b [of 0 0] r(2), of "c ! 12"] t(2) by simp_all
  have w: "add_pairs qs 0 + c ! 12 * N 0 0 = wsum7 c N" by (simp add: qs_def wsum7_def)
  have "filter_sum7 c src a = run_pairs ps 0 \<bind> add_one (c ! 12) (Some (N 0 0))"
    unfolding filter_sum7_def Let_def ps_def qs_def
    by (simp add: p [of 3 0] p [of "- 3" 0] p [of 2 1] p [of "- 2" "- 1"] p [of 2 0] p [of "- 2" 0] p [of 2 "- 1"] p [of "- 2" 1]
        p [of 1 2] p [of "- 1" "- 2"] p [of 1 1] p [of "- 1" "- 1"] p [of 1 0] p [of "- 1" 0] p [of 1 "- 1"] p [of "- 1" 1]
        p [of 1 "- 2"] p [of "- 1" 2] p [of 0 3] p [of 0 "- 3"] p [of 0 2] p [of 0 "- 2"] p [of 0 1] p [of 0 "- 1"] p [of 0 0])
  then show ?thesis using r(1) l w by simp
qed


lemma filter_sum5_law:
  assumes N: "near 2 src a N" "samples_below 2 M N" and c: "2 * M * abs_sum c 7 < 2 ^ 31 - 256"
  shows "filter_sum5 c src a = Some (wsum5 c N) \<and> \<bar>wsum5 c N\<bar> < 2 ^ 31 - 256"
proof -
  note p = near_pel [OF N(1)]
  define qs where "qs = [(c ! 0, N 2 0, N (- 2) 0), (c ! 1, N 1 1, N (- 1) (- 1)), (c ! 2, N 1 0, N (- 1) 0), (c ! 3, N 1 (- 1), N (- 1) 1),
    (c ! 4, N 0 2, N 0 (- 2)), (c ! 5, N 0 1, N 0 (- 1))]"
  define ps where "ps = map (\<lambda>(c, x, y). (c, Some x, Some y)) qs"
  have b: "\<bar>N dy dx\<bar> \<le> M" if "\<bar>dy\<bar> + \<bar>dx\<bar> \<le> 2" for dy dx using N(2) that by (simp add: samples_below_def)
  have M: "0 \<le> M" using b [of 0 0] by linarith
  have cs: "(\<Sum>(c, x, y)\<leftarrow>ps. \<bar>c\<bar>) + \<bar>c ! 6\<bar> = abs_sum c 7" by (simp add: ps_def qs_def abs_sum_def upto_7)
  have all: "list_all2 (\<lambda>(c, x, y) (c', x', y'). c' = c \<and> x = Some x' \<and> y = Some y' \<and> \<bar>x'\<bar> \<le> M \<and> \<bar>y'\<bar> \<le> M) ps qs"
    by (simp add: ps_def qs_def b)
  have "0 \<le> M * \<bar>c ! 6\<bar>" using M by simp
  moreover have "2 * M * (\<Sum>(c, x, y)\<leftarrow>ps. \<bar>c\<bar>) + 2 * M * \<bar>c ! 6\<bar> < 2 ^ 31 - 256" using c unfolding cs [symmetric] by (simp add: algebra_simps)
  ultimately have t: "0 + 2 * M * (\<Sum>(c, x, y)\<leftarrow>ps. \<bar>c\<bar>) < 2 ^ 31" "0 + 2 * M * (\<Sum>(c, x, y)\<leftarrow>ps. \<bar>c\<bar>) + M * \<bar>c ! 6\<bar> < 2 ^ 31 - 256"
    by linarith+
  have r: "run_pairs ps 0 = Some (add_pairs qs 0)" "\<bar>add_pairs qs 0\<bar> \<le> 0 + 2 * M * (\<Sum>(c, x, y)\<leftarrow>ps. \<bar>c\<bar>)"
    using run_pairs_law [OF all, of 0 0] t(1) by simp_all
  have l: "add_one (c ! 6) (Some (N 0 0)) (add_pairs qs 0) = Some (add_pairs qs 0 + c ! 6 * N 0 0)"
    "\<bar>add_pairs qs 0 + c ! 6 * N 0 0\<bar> < 2 ^ 31 - 256"
    using add_one_law [OF b [of 0 0] r(2), of "c ! 6"] t(2) by simp_all
  have w: "add_pairs qs 0 + c ! 6 * N 0 0 = wsum5 c N" by (simp add: qs_def wsum5_def)
  have "filter_sum5 c src a = run_pairs ps 0 \<bind> add_one (c ! 6) (Some (N 0 0))"
    unfolding filter_sum5_def Let_def ps_def qs_def
    by (simp add: p [of 2 0] p [of "- 2" 0] p [of 1 1] p [of "- 1" "- 1"] p [of 1 0] p [of "- 1" 0] p [of 1 "- 1"] p [of "- 1" 1]
        p [of 0 2] p [of 0 "- 2"] p [of 0 1] p [of 0 "- 1"] p [of 0 0])
  then show ?thesis using r(1) l w by simp
qed

text \<open>The filtered sample, as a function of its neighbourhood.\<close>

definition taps_of :: "alf_filter_type \<Rightarrow> nat" where
  "taps_of ft = (if ft = ALF_FILTER_7 then 13 else 7)"

definition reach :: "alf_filter_type \<Rightarrow> nat" where
  "reach ft = (if ft = ALF_FILTER_7 then 3 else 2)"

definition filtered :: "alf_filter_type \<Rightarrow> int list \<Rightarrow> nat \<Rightarrow> clp_rng \<Rightarrow> neighbourhood \<Rightarrow> int" where
  "filtered ft coef transposeIdx clpRng N =
     ClipPel (drop_bit 9 ((if ft = ALF_FILTER_7 then wsum7 coef (turned transposeIdx N) else wsum5 coef (turned transposeIdx N)) + 256)) clpRng"

lemma abs_sum_turned: "abs_sum (filter_coeff7 t c) 13 = abs_sum c 13" "abs_sum (filter_coeff5 t c) 7 = abs_sum c 7"
  by (simp_all add: abs_sum_def upto_13 upto_7 filter_coeff7_def filter_coeff5_def)

lemma filter_sample_law:
  assumes "near (reach ft) src a N" "samples_below (reach ft) M N" "2 * M * abs_sum coef (taps_of ft) < 2 ^ 31 - 256"
  shows "filter_sample ft (if ft = ALF_FILTER_7 then filter_coeff7 t coef else filter_coeff5 t coef) clpRng src a
    = Some (filtered ft coef t clpRng N)"
proof (cases "ft = ALF_FILTER_7")
  case True
  have "2 * M * abs_sum (filter_coeff7 t coef) 13 < 2 ^ 31 - 256" using assms(3) True by (simp add: taps_of_def abs_sum_turned)
  from filter_sum7_law [OF _ _ this, of src a N] assms(1,2) True
  have "filter_sum7 (filter_coeff7 t coef) src a = Some (wsum7 coef (turned t N))" "\<bar>wsum7 coef (turned t N)\<bar> < 2 ^ 31 - 256"
    by (simp_all add: reach_def wsum_turned)
  then show ?thesis using True by (auto simp: filter_sample_def filtered_def i32_def)
next
  case False
  have "2 * M * abs_sum (filter_coeff5 t coef) 7 < 2 ^ 31 - 256" using assms(3) False by (simp add: taps_of_def abs_sum_turned)
  from filter_sum5_law [OF _ _ this, of src a N] assms(1,2) False
  have "filter_sum5 (filter_coeff5 t coef) src a = Some (wsum5 coef (turned t N))" "\<bar>wsum5 coef (turned t N)\<bar> < 2 ^ 31 - 256"
    by (simp_all add: reach_def wsum_turned)
  then show ?thesis using False by (auto simp: filter_sample_def filtered_def i32_def)
qed

text \<open>In a flat neighbourhood a filter of gain 512 changes nothing.\<close>

lemma filtered_flat:
  assumes "2 * (\<Sum>j\<leftarrow>[0..<taps_of ft - 1]. coef ! j) + coef ! (taps_of ft - 1) = 512" "clp_min clpRng \<le> v" "v \<le> clp_max clpRng"
    "\<And>dy dx. \<bar>dy\<bar> + \<bar>dx\<bar> \<le> int (reach ft) \<Longrightarrow> N dy dx = v"
  shows "filtered ft coef t clpRng N = v"
proof -
  have T: "turned t N dy dx = v" if "\<bar>dy\<bar> + \<bar>dx\<bar> \<le> int (reach ft)" for dy dx
    using assms(4) [of dx dy] assms(4) [of dy "- dx"] assms(4) [of "- dx" dy] assms(4) [of dy dx] that by (simp add: turned_def)
  have u: "[0..<12] = [0, 1, 2, 3, 4, 5, 6, 7, 8, 9, 10, 11 :: nat]" "[0..<6] = [0, 1, 2, 3, 4, 5 :: nat]" by code_simp+
  have "(if ft = ALF_FILTER_7 then wsum7 coef (turned t N) else wsum5 coef (turned t N)) = 512 * v"
  proof (cases "ft = ALF_FILTER_7")
    case True
    have "wsum7 coef (turned t N) = (2 * (\<Sum>j\<leftarrow>[0..<12]. coef ! j) + coef ! 12) * v"
      using T True by (simp add: wsum7_def reach_def u algebra_simps)
    then show ?thesis using assms(1) True by (simp add: taps_of_def)
  next
    case False
    have "wsum5 coef (turned t N) = (2 * (\<Sum>j\<leftarrow>[0..<6]. coef ! j) + coef ! 6) * v"
      using T False by (simp add: wsum5_def reach_def u algebra_simps)
    then show ?thesis using assms(1) False by (simp add: taps_of_def)
  qed
  moreover have "drop_bit 9 (512 * v + 256) = v" by (simp add: drop_bit_int_def)
  ultimately show ?thesis using assms(2,3) by (simp add: filtered_def ClipPel_def)
qed

section \<open>A block of samples\<close>

lemma for_loop_union:
  assumes "\<And>i S. i \<in> set is \<Longrightarrow> f i (P S) = Some (P (S \<union> A i))"
  shows "for_loop f is (P S) = Some (P (S \<union> (\<Union>i\<in>set is. A i)))"
  using assms
proof (induction "is" arbitrary: S)
  case (Cons i "is")
  have "for_loop f is (P (S \<union> A i)) = Some (P (S \<union> A i \<union> (\<Union>i\<in>set is. A i)))" by (rule Cons.IH) (use Cons.prems in auto)
  then show ?case using Cons.prems by (simp add: Un_assoc)
qed simp

definition patch :: "(int \<Rightarrow> int) \<Rightarrow> plane \<Rightarrow> int set \<Rightarrow> plane" where
  "patch G p S = p\<lparr>pels := map (\<lambda>k. if int k - origin p \<in> S then G (int k - origin p) else pels p ! k) [0..<length (pels p)]\<rparr>"

lemma patch_simps [simp]: "origin (patch G p S) = origin p" "stride (patch G p S) = stride p" "length (pels (patch G p S)) = length (pels p)"
  by (simp_all add: patch_def)

lemma patch_none [simp]: "patch G p {} = p"
  by (simp add: patch_def map_nth)

lemma set_pel_patch:
  assumes "0 \<le> origin p + a" "origin p + a < int (length (pels p))"
  shows "set_pel (patch G p S) a (G a) = Some (patch G p (S \<union> {a}))"
proof -
  have "(pels (patch G p S))[nat (origin p + a) := G a] = pels (patch G p (S \<union> {a}))"
    by (rule nth_equalityI) (use assms in \<open>auto simp: patch_def nth_list_update\<close>)
  then show ?thesis using assms unfolding set_pel_def
    by (simp add: arr_set_i_def nat_less_iff patch_def)
qed

lemma pel_patch:
  "pel (patch G p S) a = (if a \<in> S \<and> 0 \<le> origin p + a \<and> origin p + a < int (length (pels p)) then Some (G a) else pel p a)"
  by (auto simp: pel_def arr_get_i_def arr_get_def patch_def nat_less_iff)

lemma set_steps: "0 < s \<Longrightarrow> s dvd n \<Longrightarrow> set (steps s n) = {i. i < n \<and> s dvd i}"
proof -
  assume s: "0 < s" "s dvd n"
  then obtain m where m: "n = s * m" by (elim dvdE)
  have "(n + s - 1) div s = m" using s(1) unfolding m 
    using div_mult_self2 [of s "s - 1" m] by (simp add: ac_simps)
  then show ?thesis using s by (auto simp: steps_def m mult.commute)
qed

text \<open>The samples of a block, as addresses in a plane of the given stride.\<close>

definition pos :: "int \<Rightarrow> int \<Rightarrow> int \<Rightarrow> int" where
  "pos s Y X = Y * s + X"

definition in_block :: "area \<Rightarrow> int \<Rightarrow> int \<Rightarrow> bool" where
  "in_block blk Y X \<longleftrightarrow> area_y blk \<le> Y \<and> Y < area_y blk + int (area_height blk) \<and> area_x blk \<le> X \<and> X < area_x blk + int (area_width blk)"

definition block_addresses :: "int \<Rightarrow> area \<Rightarrow> int set" where
  "block_addresses s blk = {a. \<exists>Y X. a = pos s Y X \<and> in_block blk Y X}"

text \<open>Positions are on the grid of four by four blocks, as the checks of the function demand, and rows do not overlap.\<close>

definition block_ok :: "int \<Rightarrow> area \<Rightarrow> bool" where
  "block_ok s blk \<longleftrightarrow> area_y blk mod 4 = 0 \<and> area_x blk mod 4 = 0 \<and> area_height blk mod 4 = 0 \<and> area_width blk mod 4 = 0
     \<and> 0 \<le> area_x blk \<and> area_x blk + int (area_width blk) \<le> s"

lemma pos_div_mod: "0 \<le> X \<Longrightarrow> X < s \<Longrightarrow> pos s Y X div s = Y \<and> pos s Y X mod s = X"
  by (simp add: pos_def)

lemma grid_4: "{i. i < n \<and> 4 dvd i} = (\<lambda>k. 4 * k) ` {..<n div 4}" if "n mod 4 = 0" for n :: nat
  using that by (auto simp: dvd_def)

lemma set_0123: "set [0, 1, 2, 3] = {i. i < (4 :: nat)}"
  by auto

lemma block_quads:
  assumes "area_height blk mod 4 = 0" "area_width blk mod 4 = 0"
    and f: "\<And>i j ii jj. F i j ii jj = {g (area_y blk + int i + int ii) (area_x blk + int j + int jj)}"
  shows "(\<Union>i\<in>set (steps 4 (area_height blk)). \<Union>j\<in>set (steps 4 (area_width blk)). \<Union>ii\<in>set [0, 1, 2, 3]. \<Union>jj\<in>set [0, 1, 2, 3]. F i j ii jj)
    = {p. \<exists>Y X. p = g Y X \<and> in_block blk Y X}" (is "?U = _")
proof (intro equalityI subsetI)
  have st: "set (steps 4 (area_height blk)) = {i. i < area_height blk \<and> 4 dvd i}" "set (steps 4 (area_width blk)) = {i. i < area_width blk \<and> 4 dvd i}"
    using assms(1,2) by (simp_all add: set_steps mod_0_imp_dvd)
  show "p \<in> {p. \<exists>Y X. p = g Y X \<and> in_block blk Y X}" if "p \<in> ?U" for p
  proof -
    from that obtain i j ii jj where a: "p = g (area_y blk + int i + int ii) (area_x blk + int j + int jj)"
      "i < area_height blk" "4 dvd i" "j < area_width blk" "4 dvd j" "ii < 4" "jj < 4" unfolding st set_0123 f by blast
    have "i + ii < area_height blk" "j + jj < area_width blk" using a(2-7) assms(1,2) by presburger+
    then have "in_block blk (area_y blk + int i + int ii) (area_x blk + int j + int jj)" by (simp add: in_block_def)
    then show ?thesis using a(1) by blast
  qed
  show "p \<in> ?U" if "p \<in> {p. \<exists>Y X. p = g Y X \<and> in_block blk Y X}" for p
  proof -
    from that obtain Y X where a: "p = g Y X" and b: "in_block blk Y X" by blast
    define y where "y = nat (Y - area_y blk)"
    define x where "x = nat (X - area_x blk)"
    have yx: "y < area_height blk" "x < area_width blk" "Y = area_y blk + int y" "X = area_x blk + int x"
      using b by (auto simp: y_def x_def in_block_def)
    have "y - y mod 4 < area_height blk" "x - x mod 4 < area_width blk" using yx(1,2) by linarith+
    then have i: "y - y mod 4 \<in> set (steps 4 (area_height blk))" "x - x mod 4 \<in> set (steps 4 (area_width blk))"
      unfolding st by (simp_all add: dvd_minus_mod)
    have m: "n mod 4 \<in> set [0, 1, 2, 3]" for n :: nat unfolding set_0123 by simp
    have "Y = area_y blk + int (y - y mod 4) + int (y mod 4)" "X = area_x blk + int (x - x mod 4) + int (x mod 4)"
      by (simp_all add: yx add.assoc flip: of_nat_add)
    then have "p \<in> F (y - y mod 4) (x - x mod 4) (y mod 4) (x mod 4)" unfolding f a by simp
    then show ?thesis using i m [of y] m [of x] by blast
  qed
qed

lemma block_union:
  assumes "area_height blk mod 4 = 0" "area_width blk mod 4 = 0"
  shows "(\<Union>i\<in>set (steps 4 (area_height blk)). \<Union>j\<in>set (steps 4 (area_width blk)). \<Union>ii\<in>set [0, 1, 2, 3]. \<Union>jj\<in>set [0, 1, 2, 3].
      {(area_y blk + int i + int ii) * s + area_x blk + int j + int jj}) = block_addresses s blk"
  unfolding block_addresses_def by (rule block_quads [where g = "pos s"]) (use assms in \<open>simp_all add: pos_def\<close>)

text \<open>The class of the four by four block of a sample, and the sample that the filter makes of it.\<close>

definition quad :: "int \<Rightarrow> int" where
  "quad v = v - v mod 4"

definition filtered_at :: "alf_filter_type \<Rightarrow> bool \<Rightarrow> (int \<Rightarrow> int \<Rightarrow> nat \<times> nat) \<Rightarrow> int list \<Rightarrow> clp_rng \<Rightarrow> (int \<Rightarrow> int \<Rightarrow> int) \<Rightarrow> int \<Rightarrow> int \<Rightarrow> int" where
  "filtered_at ft bChroma cls filterSet clpRng P Y X =
     (let (classIdx, t) = (if bChroma then (0, 0) else cls (quad Y) (quad X)) in
      filtered ft (drop (classIdx * 13) filterSet) t clpRng (\<lambda>dy dx. P (Y + dy) (X + dx)))"

text \<open>What the function relies on: the samples around the block, the classes of the block, and coefficients that fit.\<close>

definition block_input :: "alf_filter_type \<Rightarrow> bool \<Rightarrow> classifier \<Rightarrow> plane \<Rightarrow> area \<Rightarrow> int list
    \<Rightarrow> (int \<Rightarrow> int \<Rightarrow> nat \<times> nat) \<Rightarrow> (int \<Rightarrow> int \<Rightarrow> int) \<Rightarrow> int \<Rightarrow> bool" where
  "block_input ft bChroma classifier src blk filterSet cls P M \<longleftrightarrow>
     (\<forall>Y X. in_block blk Y X \<longrightarrow>
       near (reach ft) src (pos (stride src) Y X) (\<lambda>dy dx. P (Y + dy) (X + dx)) \<and> samples_below (reach ft) M (\<lambda>dy dx. P (Y + dy) (X + dx))
       \<and> (\<not> bChroma \<longrightarrow> do { row \<leftarrow> arr_get_i classifier (quad Y); arr_get_i row (quad X) } = Some (cls (quad Y) (quad X)))
       \<and> (let coef = drop (if bChroma then 0 else fst (cls (quad Y) (quad X)) * 13) filterSet in
           taps_of ft \<le> length coef \<and> 2 * M * abs_sum coef (taps_of ft) < 2 ^ 31 - 256))"

lemma quad_add: "a mod 4 = 0 \<Longrightarrow> 4 dvd i \<Longrightarrow> ii < 4 \<Longrightarrow> quad (a + int i + int ii) = a + int i"
  unfolding quad_def by presburger

lemma filter_pos:
  assumes I: "block_input ft bChroma classifier src blk filterSet cls P M" "bChroma \<longrightarrow> ft = ALF_FILTER_5"
    and b: "in_block blk Y X" and q: "quad Y = Yq" "quad X = Xq"
  obtains taps where "block_taps ft bChroma classifier filterSet Yq Xq = Some taps"
    "filter_sample ft taps clpRng src (pos (stride src) Y X) = Some (filtered_at ft bChroma cls filterSet clpRng P Y X)"
proof -
  obtain c t where ct: "(if bChroma then (0, 0) else cls Yq Xq) = (c, t)" by fastforce
  have c: "(if bChroma then 0 else fst (cls Yq Xq) * 13) = c * 13" using ct by (auto split: if_splits)
  let ?coef = "drop (c * 13) filterSet"
  let ?taps = "if ft = ALF_FILTER_7 then filter_coeff7 t ?coef else filter_coeff5 t ?coef"
  from I(1) b have i: "near (reach ft) src (pos (stride src) Y X) (\<lambda>dy dx. P (Y + dy) (X + dx))"
    "samples_below (reach ft) M (\<lambda>dy dx. P (Y + dy) (X + dx))"
    "\<not> bChroma \<Longrightarrow> do { row \<leftarrow> arr_get_i classifier Yq; arr_get_i row Xq } = Some (cls Yq Xq)"
    "taps_of ft \<le> length ?coef" "2 * M * abs_sum ?coef (taps_of ft) < 2 ^ 31 - 256"
    using I(1) [unfolded block_input_def Let_def, THEN spec, THEN spec, THEN mp, OF b, unfolded q c] by blast+
  have "block_taps ft bChroma classifier filterSet Yq Xq = Some ?taps"
  proof -
    have l: "\<not> length ?coef < (if ft = ALF_FILTER_7 then 13 else 7)" using i(4) by (simp add: taps_of_def)
    have "(if bChroma then Some (0, 0) else do { row \<leftarrow> arr_get_i classifier Yq; arr_get_i row Xq }) = Some (c, t)"
      using i(3) ct by (auto split: if_splits)
    then show ?thesis using l ct unfolding block_taps_def
      by (auto simp: check_not_def MAX_NUM_ALF_LUMA_COEFF_def split: if_splits)
  qed
  moreover have "filter_sample ft ?taps clpRng src (pos (stride src) Y X) = Some (filtered_at ft bChroma cls filterSet clpRng P Y X)"
    using filter_sample_law [OF i(1,2,5), of t clpRng] unfolding filtered_at_def q ct by simp
  ultimately show thesis by (rule that)
qed

lemma filterBlk_law:
  assumes I: "block_input ft bChroma classifier src blk filterSet cls P M" "bChroma \<longrightarrow> ft = ALF_FILTER_5"
    and blk: "block_ok (stride dst) blk"
    and dst: "\<forall>a\<in>block_addresses (stride dst) blk. 0 \<le> origin dst + a \<and> origin dst + a < int (length (pels dst))"
  shows "filterBlk ft bChroma classifier src blk filterSet clpRng dst
    = Some (patch (\<lambda>a. filtered_at ft bChroma cls filterSet clpRng P (a div stride dst) (a mod stride dst)) dst (block_addresses (stride dst) blk))"
proof -
  let ?G = "\<lambda>a. filtered_at ft bChroma cls filterSet clpRng P (a div stride dst) (a mod stride dst)"
  let ?s = "stride dst"
  let ?h = "area_height blk" and ?w = "area_width blk"
  have mod4: "?h mod 4 = 0" "?w mod 4 = 0" "area_y blk mod 4 = 0" "area_x blk mod 4 = 0" "0 \<le> area_x blk" "area_x blk + int ?w \<le> ?s"
    using blk by (simp_all add: block_ok_def)
  have "for_loop (\<lambda>i. for_loop (\<lambda>j dst. do {
       taps \<leftarrow> block_taps ft bChroma classifier filterSet (area_y blk + int i) (area_x blk + int j);
       for_loop (\<lambda>ii. for_loop (\<lambda>jj dst. do {
         v \<leftarrow> filter_sample ft taps clpRng src
           ((area_y blk + int i + int ii) * stride src + area_x blk + int j + int jj);
         set_pel dst ((area_y blk + int i + int ii) * stride dst + area_x blk + int j + int jj) v })
         [0, 1, 2, 3]) [0, 1, 2, 3] dst })
       (steps 4 ?w)) (steps 4 ?h) (patch ?G dst {}) 
    = Some (patch ?G dst ({} \<union> (\<Union>i\<in>set (steps 4 ?h). \<Union>j\<in>set (steps 4 ?w). \<Union>ii\<in>set [0, 1, 2, 3]. \<Union>jj\<in>set [0, 1, 2, 3].
      {(area_y blk + int i + int ii) * ?s + area_x blk + int j + int jj})))"
  proof (rule for_loop_union, rule for_loop_union)
    fix i j S
    assume "i \<in> set (steps 4 ?h)" "j \<in> set (steps 4 ?w)"
    then have ij: "i < ?h" "4 dvd i" "j < ?w" "4 dvd j" using mod4(1,2) by (simp_all add: set_steps mod_0_imp_dvd)
    have b: "in_block blk (area_y blk + int i + int ii) (area_x blk + int j + int jj)" if "ii < 4" "jj < 4" for ii jj
    proof -
      have "i + ii < ?h" "j + jj < ?w" using ij that mod4(1,2) by presburger+
      then show ?thesis by (simp add: in_block_def)
    qed
    note q = quad_add [OF mod4(3) ij(2)] quad_add [OF mod4(4) ij(4)]
    obtain taps where t: "block_taps ft bChroma classifier filterSet (area_y blk + int i) (area_x blk + int j) = Some taps"
      using filter_pos [OF I b q, of 0 0] by force
    have "for_loop (\<lambda>ii. for_loop (\<lambda>jj dsta. do {
         v \<leftarrow> filter_sample ft taps clpRng src ((area_y blk + int i + int ii) * stride src + area_x blk + int j + int jj);
         set_pel dsta ((area_y blk + int i + int ii) * stride dsta + area_x blk + int j + int jj) v }) [0, 1, 2, 3]) [0, 1, 2, 3] (patch ?G dst S)
      = Some (patch ?G dst (S \<union> (\<Union>ii\<in>set [0, 1, 2, 3]. \<Union>jj\<in>set [0, 1, 2, 3]. {(area_y blk + int i + int ii) * ?s + area_x blk + int j + int jj})))"
    proof (rule for_loop_union, rule for_loop_union)
      fix ii jj :: nat and S
      assume "ii \<in> set [0, 1, 2, 3]" "jj \<in> set [0, 1, 2, 3]"
      then have lt: "ii < 4" "jj < 4" by auto
      let ?Y = "area_y blk + int i + int ii" and ?X = "area_x blk + int j + int jj"
      from filter_pos [OF I b [OF lt] q(1) [OF lt(1)] q(2) [OF lt(2)], of clpRng] t
      have "filter_sample ft taps clpRng src (pos (stride src) ?Y ?X) = Some (filtered_at ft bChroma cls filterSet clpRng P ?Y ?X)" by auto
      moreover have "0 \<le> ?X" "?X < ?s" using b [OF lt] mod4(5,6) by (auto simp: in_block_def)
      then have g: "?G (pos ?s ?Y ?X) = filtered_at ft bChroma cls filterSet clpRng P ?Y ?X" using pos_div_mod [of ?X ?s ?Y] by metis
      moreover have "pos ?s ?Y ?X \<in> block_addresses ?s blk" using b [OF lt] by (auto simp: block_addresses_def)
      with dst have "set_pel (patch ?G dst S) (pos ?s ?Y ?X) (?G (pos ?s ?Y ?X)) = Some (patch ?G dst (S \<union> {pos ?s ?Y ?X}))"
        by (intro set_pel_patch) auto
      ultimately show "(filter_sample ft taps clpRng src (?Y * stride src + area_x blk + int j + int jj) \<bind>
            (\<lambda>v. set_pel (patch ?G dst S) (?Y * stride (patch ?G dst S) + area_x blk + int j + int jj) v))
          = Some (patch ?G dst (S \<union> {?Y * ?s + area_x blk + int j + int jj}))"
        by (simp add: pos_def add.assoc)
    qed
    with t show "(block_taps ft bChroma classifier filterSet (area_y blk + int i) (area_x blk + int j) \<bind> (\<lambda>taps.
        for_loop (\<lambda>ii. for_loop (\<lambda>jj dsta. do {
         v \<leftarrow> filter_sample ft taps clpRng src ((area_y blk + int i + int ii) * stride src + area_x blk + int j + int jj);
         set_pel dsta ((area_y blk + int i + int ii) * stride dsta + area_x blk + int j + int jj) v }) [0, 1, 2, 3]) [0, 1, 2, 3] (patch ?G dst S)))
      = Some (patch ?G dst (S \<union> (\<Union>ii\<in>set [0, 1, 2, 3]. \<Union>jj\<in>set [0, 1, 2, 3]. {(area_y blk + int i + int ii) * ?s + area_x blk + int j + int jj})))"
      by simp
  qed
  then show ?thesis using I(2) mod4 unfolding filterBlk_def block_union [OF mod4(1,2)] Un_empty_left patch_none
    by (simp add: check_not_def)
qed

section \<open>Laws of the classification\<close>

text \<open>The second difference at a sample, its sum over two by two samples, and over the window of eight by eight around a block.\<close>

definition second_diff :: "(int \<Rightarrow> int \<Rightarrow> int) \<Rightarrow> int \<Rightarrow> int \<Rightarrow> int \<Rightarrow> int \<Rightarrow> int" where
  "second_diff P dy dx Y X = \<bar>2 * P Y X - P (Y - dy) (X - dx) - P (Y + dy) (X + dx)\<bar>"

definition quad_diff :: "(int \<Rightarrow> int \<Rightarrow> int) \<Rightarrow> int \<Rightarrow> int \<Rightarrow> int \<Rightarrow> int \<Rightarrow> int" where
  "quad_diff P dy dx Y X = second_diff P dy dx Y X + second_diff P dy dx Y (X + 1)
     + second_diff P dy dx (Y + 1) X + second_diff P dy dx (Y + 1) (X + 1)"

definition row_diff :: "(int \<Rightarrow> int \<Rightarrow> int) \<Rightarrow> int \<Rightarrow> int \<Rightarrow> int \<Rightarrow> int \<Rightarrow> int" where
  "row_diff P dy dx Y X = quad_diff P dy dx Y X + quad_diff P dy dx Y (X + 2) + quad_diff P dy dx Y (X + 4) + quad_diff P dy dx Y (X + 6)"

definition window_diff :: "(int \<Rightarrow> int \<Rightarrow> int) \<Rightarrow> int \<Rightarrow> int \<Rightarrow> int \<Rightarrow> int \<Rightarrow> int" where
  "window_diff P dy dx Y X = row_diff P dy dx (Y - 2) (X - 2) + row_diff P dy dx Y (X - 2)
     + row_diff P dy dx (Y + 2) (X - 2) + row_diff P dy dx (Y + 4) (X - 2)"

lemma to_i16_twice: "0 \<le> v \<Longrightarrow> v \<le> 16383 \<Longrightarrow> to_i16 (v * 2) = 2 * v"
  unfolding to_i16_def by (subst signed_take_bit_int_eq_self) simp_all

lemma gradients_law:
  assumes p: "\<And>Y' X'. Y - 1 \<le> Y' \<Longrightarrow> Y' \<le> Y + 2 \<Longrightarrow> X - 1 \<le> X' \<Longrightarrow> X' \<le> X + 2 \<Longrightarrow>
      pel src (pos (stride src) Y' X') = Some (P Y' X') \<and> 0 \<le> P Y' X' \<and> P Y' X' \<le> 16383"
  shows "gradients src (pos (stride src) Y X)
    = Some (quad_diff P 1 0 Y X, quad_diff P 0 (- 1) Y X, quad_diff P 1 1 Y X, quad_diff P (- 1) 1 Y X)"
proof -
  have q: "pel src (pos (stride src) Y X + dy * stride src + dx) = Some (P (Y + dy) (X + dx))"
    if "- 1 \<le> dy" "dy \<le> 2" "- 1 \<le> dx" "dx \<le> 2" for dy dx
    using p [of "Y + dy" "X + dx"] that by (simp add: pos_def algebra_simps)
  have four: "four_pels src (pos (stride src) Y X + dy * stride src) = Some (P (Y + dy) (X - 1), P (Y + dy) X, P (Y + dy) (X + 1), P (Y + dy) (X + 2))"
    if "- 1 \<le> dy" "dy \<le> 2" for dy
    using q [of dy "- 1"] q [of dy 0] q [of dy 1] q [of dy 2] that by (simp add: four_pels_def)
  have f: "four_pels src (pos (stride src) Y X) = Some (P Y (X - 1), P Y X, P Y (X + 1), P Y (X + 2))"
    "four_pels src (pos (stride src) Y X - stride src) = Some (P (Y - 1) (X - 1), P (Y - 1) X, P (Y - 1) (X + 1), P (Y - 1) (X + 2))"
    "four_pels src (pos (stride src) Y X + stride src) = Some (P (Y + 1) (X - 1), P (Y + 1) X, P (Y + 1) (X + 1), P (Y + 1) (X + 2))"
    "four_pels src (pos (stride src) Y X + stride src * 2) = Some (P (Y + 2) (X - 1), P (Y + 2) X, P (Y + 2) (X + 1), P (Y + 2) (X + 2))"
    using four [of 0] four [of "- 1"] four [of 1] four [of 2] by (simp_all add: mult.commute)
  have t: "to_i16 (P Y X * 2) = 2 * P Y X" "to_i16 (P Y (X + 1) * 2) = 2 * P Y (X + 1)"
    "to_i16 (P (Y + 1) X * 2) = 2 * P (Y + 1) X" "to_i16 (P (Y + 1) (X + 1) * 2) = 2 * P (Y + 1) (X + 1)"
    by (rule to_i16_twice; use p in simp)+
  have n: "a + 1 - 1 = a" "a + 1 + 1 = a + 2" "a - 0 = a" "a + 0 = a" "a - - 1 = a + 1" "a + - 1 = a - 1" "a + 1 - - 1 = a + 2" "a + 1 + - 1 = a"
    for a :: int by simp_all
  show ?thesis unfolding gradients_def f bind.bind_lunit prod.case Let_def t
    by (simp only: quad_diff_def second_diff_def n)
qed

text \<open>Rows of numbers in which some entries have been replaced.\<close>

definition fill :: "(nat \<times> nat \<rightharpoonup> 'a) \<Rightarrow> 'a list list \<Rightarrow> 'a list list" where
  "fill F l = map (\<lambda>i. map (\<lambda>j. case F (i, j) of None \<Rightarrow> l ! i ! j | Some v \<Rightarrow> v) [0..<length (l ! i)]) [0..<length l]"

definition inside :: "'a list list \<Rightarrow> nat \<Rightarrow> nat \<Rightarrow> bool" where
  "inside l i j \<longleftrightarrow> i < length l \<and> j < length (l ! i)"

lemma fill_empty [simp]: "fill (\<lambda>_. None) l = l"
  by (simp add: fill_def map_nth)

lemma length_fill [simp]: "length (fill F l) = length l" "i < length l \<Longrightarrow> length (fill F l ! i) = length (l ! i)"
  by (simp_all add: fill_def)

lemma fill_nth: "inside l i j \<Longrightarrow> fill F l ! i ! j = (case F (i, j) of None \<Rightarrow> l ! i ! j | Some v \<Rightarrow> v)"
  by (auto simp: fill_def inside_def split: option.split)

lemma fill_update:
  assumes "inside l i j"
  shows "(fill F l)[i := (fill F l ! i)[j := v]] = fill (F((i, j) \<mapsto> v)) l"
proof (rule nth_equalityI)
  fix k assume "k < length ((fill F l)[i := (fill F l ! i)[j := v]])"
  then have k: "k < length l" by simp
  show "(fill F l)[i := (fill F l ! i)[j := v]] ! k = fill (F((i, j) \<mapsto> v)) l ! k"
  proof (rule nth_equalityI)
    show "length ((fill F l)[i := (fill F l ! i)[j := v]] ! k) = length (fill (F((i, j) \<mapsto> v)) l ! k)"
      using k by (cases "k = i") simp_all
    fix m assume "m < length ((fill F l)[i := (fill F l ! i)[j := v]] ! k)"
    then have "inside l k m" using k by (cases "k = i") (simp_all add: inside_def)
    then show "(fill F l)[i := (fill F l ! i)[j := v]] ! k ! m = fill (F((i, j) \<mapsto> v)) l ! k ! m"
      using assms k by (cases "k = i"; cases "m = j") (simp_all add: fill_nth inside_def)
  qed
qed simp

lemma lap_get_fill: "inside l i j \<Longrightarrow> F (i, j) = Some v \<Longrightarrow> lap_get (fill F l) i j = Some v"
  by (simp add: lap_get_def fill_nth [unfolded inside_def] inside_def)

lemma lap_set_fill: "inside l i j \<Longrightarrow> lap_set (fill F l) i j v = Some (fill (F((i, j) \<mapsto> v)) l)"
  by (simp add: lap_set_def fill_update [symmetric] inside_def)

text \<open>
  The contents of a row after the columns below \<open>n\<close>: every second entry is a gradient, and every fourth has become the sum
  of four as soon as the column six to its right has been written.
\<close>

definition row_content :: "(nat \<Rightarrow> int) \<Rightarrow> nat \<Rightarrow> nat \<rightharpoonup> int" where
  "row_content g n j = (if even j \<and> j < n
     then Some (if 4 dvd j \<and> j + 6 < n then g j + (g (j + 2) + g (j + 4) + g (j + 6)) else g j) else None)"

definition rows_content :: "(nat \<Rightarrow> nat \<Rightarrow> int) \<Rightarrow> nat \<Rightarrow> nat \<Rightarrow> nat \<Rightarrow> nat \<times> nat \<rightharpoonup> int" where
  "rows_content g w m n = (\<lambda>(i, j). if even i \<and> i < m then row_content (g i) w j else if i = m then row_content (g i) n j else None)"

text \<open>One column of one array.\<close>

definition column_step :: "nat \<Rightarrow> nat \<Rightarrow> int \<Rightarrow> int list list \<Rightarrow> int list list option" where
  "column_step i j v l = do { l \<leftarrow> lap_set l i j v; if j > 4 \<and> (j - 6) mod 4 = 0 then add_up i j l else Some l }"

lemma row_content_other: "even j \<Longrightarrow> k \<noteq> j \<Longrightarrow> \<not> (j > 4 \<and> (j - 6) mod 4 = 0 \<and> k = j - 6) \<Longrightarrow> row_content g (j + 2) k = row_content g j k"
proof -
  assume a: "even j" "k \<noteq> j" "\<not> (j > 4 \<and> (j - 6) mod 4 = 0 \<and> k = j - 6)"
  have "even k \<Longrightarrow> k < j + 2 \<longleftrightarrow> k < j" using a(1,2) by presburger
  moreover have "4 dvd k \<Longrightarrow> k + 6 < j + 2 \<longleftrightarrow> k + 6 < j" using a(1,3) by presburger
  ultimately show ?thesis by (auto simp: row_content_def)
qed

lemma column_step_law:
  assumes j: "even j" and ok: "\<forall>k\<le>j. inside l i k" and v: "v = g i j" and i: "even i"
  shows "column_step i j v (fill (rows_content g w i j) l) = Some (fill (rows_content g w i (j + 2)) l)"
proof -
  have oth: "rows_content g w i n (a, b) = rows_content g w i n' (a, b)" if "a \<noteq> i" for a b n n' using that by (simp add: rows_content_def)
  have row: "rows_content g w i n (i, b) = row_content (g i) n b" for n b by (simp add: rows_content_def)
  let ?F = "(rows_content g w i j)((i, j) \<mapsto> v)"
  have s: "lap_set (fill (rows_content g w i j) l) i j v = Some (fill ?F l)" using ok by (simp add: lap_set_fill)
  show ?thesis
  proof (cases "j > 4 \<and> (j - 6) mod 4 = 0")
    case False
    have "?F (a, b) = rows_content g w i (j + 2) (a, b)" for a b
    proof (cases "a = i \<and> b \<noteq> j")
      case True
      then show ?thesis using row_content_other [OF j, of b "g i"] False row by auto
    next
      case f: False
      have "row_content (g i) (j + 2) j = Some (g i j)" using j by (simp add: row_content_def)
      then show ?thesis using f oth [of a j b "j + 2"] v row [of "j + 2" j] by auto
    qed
    then have "?F = rows_content g w i (j + 2)" by fast
    then show ?thesis using s False by (auto simp: column_step_def)
  next
    case True
    then have "j = 4 * ((j - 6) div 4) + 6" using j by presburger
    then obtain m where m: "j = 4 * m + 6" by blast
    let ?G = "?F((i, 4 * m) \<mapsto> g i (4 * m) + (g i (4 * m + 2) + g i (4 * m + 4) + g i (4 * m + 6)))"
    have e: "even (4 * m)" "even (4 * m + 2)" "even (4 * m + 4)" by simp_all
    have get: "?F (i, 4 * m) = Some (g i (4 * m))" "?F (i, 4 * m + 2) = Some (g i (4 * m + 2))" "?F (i, 4 * m + 4) = Some (g i (4 * m + 4))"
      "?F (i, 4 * m + 6) = Some (g i (4 * m + 6))" using v by (simp_all add: m row row_content_def)
    have "add_up i j (fill ?F l) = Some (fill ?G l)"
      using get [THEN lap_get_fill [rotated, where F = ?F and l = l]] ok unfolding add_up_def m by (simp add: lap_set_fill add.commute [of 4 "4 * m"])
    moreover have "?G (a, b) = rows_content g w i (j + 2) (a, b)" for a b
    proof (cases "a = i \<and> b \<noteq> j \<and> b \<noteq> 4 * m")
      case True
      then show ?thesis using row_content_other [OF j, of b "g i"] m row by auto
    next
      case f: False
      have "row_content (g i) (j + 2) j = Some (g i j)" "row_content (g i) (j + 2) (4 * m) = Some (g i (4 * m) + (g i (4 * m + 2) + g i (4 * m + 4) + g i (4 * m + 6)))"
        using j by (simp_all add: row_content_def m)
      then show ?thesis using f oth [of a j b "j + 2"] v m row [of "j + 2" j] row [of "j + 2" "4 * m"] by auto
    qed
    then have "?G = rows_content g w i (j + 2)" by fast
    ultimately show ?thesis using s True by (simp add: column_step_def)
  qed
qed

text \<open>All rows: the entry of block \<open>(i, j)\<close> in row \<open>i\<close> is the sum of four gradients.\<close>

definition lap_state :: "(nat \<Rightarrow> nat \<Rightarrow> int) \<Rightarrow> (nat \<Rightarrow> nat \<Rightarrow> int) \<Rightarrow> (nat \<Rightarrow> nat \<Rightarrow> int) \<Rightarrow> (nat \<Rightarrow> nat \<Rightarrow> int)
    \<Rightarrow> nat \<Rightarrow> nat \<Rightarrow> nat \<Rightarrow> laplacian \<Rightarrow> laplacian" where
  "lap_state gv gh g0 g1 w m n l = \<lparr>lap_ver = fill (rows_content gv w m n) (lap_ver l), lap_hor = fill (rows_content gh w m n) (lap_hor l),
     lap_dig0 = fill (rows_content g0 w m n) (lap_dig0 l), lap_dig1 = fill (rows_content g1 w m n) (lap_dig1 l)\<rparr>"

definition lap_inside :: "nat \<Rightarrow> nat \<Rightarrow> laplacian \<Rightarrow> bool" where
  "lap_inside h w l \<longleftrightarrow> (\<forall>a\<in>{lap_ver l, lap_hor l, lap_dig0 l, lap_dig1 l}. h \<le> length a \<and> (\<forall>row\<in>set a. w \<le> length row))"

lemma lap_insideD:
  "lap_inside h w l \<Longrightarrow> i < h \<Longrightarrow> j < w \<Longrightarrow> inside (lap_ver l) i j \<and> inside (lap_hor l) i j \<and> inside (lap_dig0 l) i j \<and> inside (lap_dig1 l) i j"
proof -
  assume a: "lap_inside h w l" "i < h" "j < w"
  have "inside b i j" if "h \<le> length b \<and> (\<forall>row\<in>set b. w \<le> length row)" for b :: "int list list"
    using that a(2,3) nth_mem [of i b] by (auto simp: inside_def intro: less_le_trans)
  then show ?thesis using a(1) by (simp add: lap_inside_def)
qed

lemma laplacian_step_columns:
  assumes "gradients src ((int i + 1 + (area_y blk - 3)) * stride src - 3 + (int j + 1 + area_x blk)) = Some (v, h, d0, d1)"
  shows "laplacian_step src blk i j l = do {
     ver \<leftarrow> column_step i j v (lap_ver l); hor \<leftarrow> column_step i j h (lap_hor l);
     dig0 \<leftarrow> column_step i j d0 (lap_dig0 l); dig1 \<leftarrow> column_step i j d1 (lap_dig1 l);
     Some \<lparr>lap_ver = ver, lap_hor = hor, lap_dig0 = dig0, lap_dig1 = dig1\<rparr> }"
proof (cases "j > 4 \<and> (j - 6) mod 4 = 0")
  case True
  then show ?thesis unfolding laplacian_step_def column_step_def Let_def assms bind.bind_lunit prod.case
    by (simp split: Option.bind_split)
next
  case False
  then show ?thesis unfolding laplacian_step_def column_step_def Let_def assms bind.bind_lunit prod.case
    by (simp only: False if_False bind_assoc bind.bind_lunit)
qed

text \<open>The samples that the classification of a block reads, two around the block and one more on every side.\<close>

definition class_input :: "plane \<Rightarrow> area \<Rightarrow> (int \<Rightarrow> int \<Rightarrow> int) \<Rightarrow> int \<Rightarrow> bool" where
  "class_input src blk P M \<longleftrightarrow> (\<forall>Y X. area_y blk - 3 \<le> Y \<and> Y \<le> area_y blk + int (area_height blk) + 2 \<and> area_x blk - 3 \<le> X
     \<and> X \<le> area_x blk + int (area_width blk) + 2 \<longrightarrow> pel src (pos (stride src) Y X) = Some (P Y X) \<and> 0 \<le> P Y X \<and> P Y X \<le> M)"

definition block_diff :: "(int \<Rightarrow> int \<Rightarrow> int) \<Rightarrow> area \<Rightarrow> int \<Rightarrow> int \<Rightarrow> nat \<Rightarrow> nat \<Rightarrow> int" where
  "block_diff P blk dy dx i j = quad_diff P dy dx (area_y blk + int i - 2) (area_x blk + int j - 2)"

abbreviation block_state :: "(int \<Rightarrow> int \<Rightarrow> int) \<Rightarrow> area \<Rightarrow> nat \<Rightarrow> nat \<Rightarrow> laplacian \<Rightarrow> laplacian" where
  "block_state P blk m n l \<equiv> lap_state (block_diff P blk 1 0) (block_diff P blk 0 (- 1)) (block_diff P blk 1 1) (block_diff P blk (- 1) 1)
     (area_width blk + 4) m n l"

lemma laplacian_step_law:
  assumes I: "class_input src blk P M" "M \<le> 16383" and l: "lap_inside (area_height blk + 4) (area_width blk + 4) l"
    and ij: "i < area_height blk + 4" "even i" "j < area_width blk + 4" "even j" "even (area_height blk)" "even (area_width blk)"
  shows "laplacian_step src blk i j (block_state P blk i j l) = Some (block_state P blk i (j + 2) l)"
proof -
  have ij2: "i + 2 \<le> area_height blk + 4" "j + 2 \<le> area_width blk + 4" using ij by presburger+
  let ?Y = "area_y blk + int i - 2" and ?X = "area_x blk + int j - 2"
  have g: "gradients src (pos (stride src) ?Y ?X) = Some (block_diff P blk 1 0 i j, block_diff P blk 0 (- 1) i j, block_diff P blk 1 1 i j, block_diff P blk (- 1) 1 i j)"
    unfolding block_diff_def
  proof (rule gradients_law)
    fix Y' X' assume "?Y - 1 \<le> Y'" "Y' \<le> ?Y + 2" "?X - 1 \<le> X'" "X' \<le> ?X + 2"
    moreover have "int i + 2 \<le> int (area_height blk) + 4" "int j + 2 \<le> int (area_width blk) + 4" using ij2 by linarith+
    ultimately have "area_y blk - 3 \<le> Y'" "Y' \<le> area_y blk + int (area_height blk) + 2" "area_x blk - 3 \<le> X'" "X' \<le> area_x blk + int (area_width blk) + 2"
      by linarith+
    then show "pel src (pos (stride src) Y' X') = Some (P Y' X') \<and> 0 \<le> P Y' X' \<and> P Y' X' \<le> 16383"
      using I by (fastforce simp: class_input_def)
  qed
  have a: "(int i + 1 + (area_y blk - 3)) * stride src - 3 + (int j + 1 + area_x blk) = pos (stride src) ?Y ?X"
    by (simp add: pos_def algebra_simps)
  have ok: "\<forall>k\<le>j. inside a i k" if "a \<in> {lap_ver l, lap_hor l, lap_dig0 l, lap_dig1 l}" for a
    using lap_insideD [OF l ij(1)] ij(3) that by (auto dest: le_less_trans)
  note c = column_step_law [OF ij(4) _ refl ij(2)]
  show ?thesis unfolding laplacian_step_columns [OF g [folded a]] lap_state_def by (simp add: c ok)
qed

lemma for_loop_steps:
  assumes "\<And>k. s dvd k \<Longrightarrow> k < n \<Longrightarrow> f k (S k) = Some (S (k + s))" "0 < s" "s dvd n"
  shows "for_loop f (steps s n) (S 0) = Some (S n)"
proof -
  from assms(3) obtain m where m: "n = s * m" by (elim dvdE)
  have c: "(n + s - 1) div s = m" unfolding m using div_mult_self2 [of s "s - 1" m] assms(2) by (simp add: ac_simps)
  have "for_loop f (map (\<lambda>k. k * s) [0..<q]) (S 0) = Some (S (q * s))" if "q \<le> m" for q
    using that
  proof (induction q)
    case (Suc q)
    have "f (q * s) (S (q * s)) = Some (S (q * s + s))" using Suc.prems assms(2) by (intro assms(1)) (simp_all add: m mult.commute)
    then show ?case using Suc by (simp add: for_loop_append add.commute)
  qed simp
  then show ?thesis unfolding steps_def c by (simp add: m mult.commute)
qed

lemma rows_content_next: "even i \<Longrightarrow> rows_content g w (i + 2) 0 = rows_content g w i w"
  by (rule ext) (auto simp: rows_content_def row_content_def elim!: evenE; presburger)

lemma laplacian_law:
  assumes I: "class_input src blk P M" "M \<le> 16383" and l: "lap_inside (area_height blk + 4) (area_width blk + 4) l"
    and e: "even (area_height blk)" "even (area_width blk)"
  shows "for_loop (\<lambda>i. for_loop (\<lambda>j. laplacian_step src blk i j) (steps 2 (area_width blk + 4))) (steps 2 (area_height blk + 4)) l
    = Some (block_state P blk (area_height blk + 4) 0 l)"
proof -
  have z: "rows_content g w 0 0 = (\<lambda>_. None)" for g w by (rule ext) (simp add: rows_content_def row_content_def split: prod.split)
  have "for_loop (\<lambda>i. for_loop (\<lambda>j. laplacian_step src blk i j) (steps 2 (area_width blk + 4))) (steps 2 (area_height blk + 4)) (block_state P blk 0 0 l)
    = Some (block_state P blk (area_height blk + 4) 0 l)"
  proof (rule for_loop_steps)
    fix i :: nat assume i: "2 dvd i" "i < area_height blk + 4"
    have "for_loop (\<lambda>j. laplacian_step src blk i j) (steps 2 (area_width blk + 4)) (block_state P blk i 0 l)
      = Some (block_state P blk i (area_width blk + 4) l)"
      by (rule for_loop_steps) (use i e in \<open>simp_all add: laplacian_step_law [OF I l]\<close>)
    moreover have "rows_content g w i w = rows_content g w (i + 2) 0" for g w using i(1) rows_content_next [of i g w] by simp
    ultimately show "for_loop (\<lambda>j. laplacian_step src blk i j) (steps 2 (area_width blk + 4)) (block_state P blk i 0 l)
      = Some (block_state P blk (i + 2) 0 l)" by (simp add: lap_state_def)
  qed (use e in simp_all)
  moreover have "block_state P blk 0 0 l = l" by (simp add: lap_state_def z)
  ultimately show ?thesis by simp
qed

text \<open>The class of a block from its four sums, and the turn of its filter from the two comparisons.\<close>

definition direction :: "int \<Rightarrow> int \<Rightarrow> int \<Rightarrow> int \<Rightarrow> nat" where
  "direction V H D0 D1 = (let diagonal = max D0 D1 * min V H > max V H * min D0 D1;
     strong = (if diagonal then max D0 D1 else max V H); weak = (if diagonal then min D0 D1 else min V H) in
     if 2 * strong > 9 * weak then (if diagonal then 2 else 4) else if strong > 2 * weak then (if diagonal then 1 else 3) else 0)"

definition turn :: "int \<Rightarrow> int \<Rightarrow> int \<Rightarrow> int \<Rightarrow> nat" where
  "turn V H D0 D1 = of_bool (V \<le> H) + 2 * of_bool (D0 \<le> D1)"

definition activity :: "int \<Rightarrow> int \<Rightarrow> nat \<Rightarrow> nat" where
  "activity V H shift = activity_class ! nat (min 15 (drop_bit shift ((V + H) * 32)))"

lemma i32_small: "0 \<le> a \<Longrightarrow> a \<le> 46340 \<Longrightarrow> 0 \<le> b \<Longrightarrow> b \<le> 46340 \<Longrightarrow> i32 (a * b) = Some (a * b)"
proof -
  assume a: "0 \<le> a" "a \<le> 46340" "0 \<le> b" "b \<le> 46340"
  have "a * b \<le> 46340 * 46340" using a by (intro mult_mono) simp_all
  moreover have "0 \<le> a * b" using a by simp
  ultimately show ?thesis by (simp add: i32_def)
qed

lemma activity_bound: "activity V H shift \<le> 4" if "0 \<le> V + H"
proof -
  have "nat (min 15 (drop_bit shift ((V + H) * 32))) < 16" by (auto simp: nat_less_iff)
  moreover have "\<forall>k\<in>{0..<16}. activity_class ! k \<le> 4" by code_simp
  ultimately show ?thesis by (simp add: activity_def)
qed

lemma classify_law:
  assumes "\<forall>v\<in>{V, H, D0, D1}. 0 \<le> v \<and> v \<le> 46340"
  shows "classify V H D0 D1 shift = Some (activity V H shift + direction V H D0 D1 * 5, turn V H D0 D1)"
    "activity V H shift + direction V H D0 D1 * 5 < 25" "turn V H D0 D1 < 4"
proof -
  have b: "0 \<le> V" "V \<le> 46340" "0 \<le> H" "H \<le> 46340" "0 \<le> D0" "D0 \<le> 46340" "0 \<le> D1" "D1 \<le> 46340" using assms by simp_all
  have s: "i32 ((V + H) * 32) = Some ((V + H) * 32)" using b by (simp add: i32_def)
  have a0: "0 \<le> drop_bit shift ((V + H) * 32)" using b by simp
  have c: "Clip3 0 15 (drop_bit shift ((V + H) * 32)) = min 15 (drop_bit shift ((V + H) * 32))" using a0 by (simp add: Clip3_def min.commute)
  have "nat (min 15 (drop_bit shift ((V + H) * 32))) < length activity_class" by (auto simp: activity_class_def nat_less_iff)
  then have act: "arr_get_i activity_class (min 15 (drop_bit shift ((V + H) * 32))) = Some (activity V H shift)"
    using a0 by (simp add: arr_get_i_def activity_def)
  have p: "i32 (max D0 D1 * min V H) = Some (max D0 D1 * min V H)" "i32 (max V H * min D0 D1) = Some (max V H * min D0 D1)"
    using b by (intro i32_small; simp)+
  have hv: "(if V > H then (V, H, 1 :: nat) else (H, V, 3)) = (max V H, min V H, if V > H then 1 else 3)" by (simp add: max_def min_def)
  have dd: "(if D0 > D1 then (D0, D1, 0 :: nat) else (D1, D0, 2)) = (max D0 D1, min D0 D1, if D0 > D1 then 0 else 2)" by (simp add: max_def min_def)
  have strong: "0 \<le> min V H" "0 \<le> min D0 D1" using b by simp_all
  have and1: "(1 :: nat) AND 1 = 1" "(3 :: nat) AND 1 = 1" "(0 :: nat) AND 1 = 0" "(2 :: nat) AND 1 = 0" by code_simp+
  have d1: "drop_bit 1 (1 :: nat) = 0" "drop_bit 1 (3 :: nat) = 1" "drop_bit 1 (0 :: nat) = 0" "drop_bit 1 (2 :: nat) = 1" by code_simp+
  have tt: "arr_get transposeTable 0 = Some 0" "arr_get transposeTable (Suc 0) = Some 1" "arr_get transposeTable 2 = Some 0" "arr_get transposeTable 3 = Some 2"
    "arr_get transposeTable 4 = Some 2" "arr_get transposeTable 5 = Some 3" "arr_get transposeTable 6 = Some 1" "arr_get transposeTable 7 = Some 3"
    by code_simp+
  show "classify V H D0 D1 shift = Some (activity V H shift + direction V H D0 D1 * 5, turn V H D0 D1)"
    unfolding classify_def Let_def s bind.bind_lunit c act hv dd prod.case p
    using strong by (auto simp: direction_def turn_def Let_def and1 d1 tt push_bit_eq_mult)
  have "direction V H D0 D1 \<le> 4" by (simp add: direction_def Let_def)
  then show "activity V H shift + direction V H D0 D1 * 5 < 25" using activity_bound [of V H shift] b by simp
  show "turn V H D0 D1 < 4" by (simp add: turn_def)
qed

text \<open>The class of the block at a position.\<close>

definition class_at :: "(int \<Rightarrow> int \<Rightarrow> int) \<Rightarrow> nat \<Rightarrow> int \<Rightarrow> int \<Rightarrow> nat \<times> nat" where
  "class_at P shift Y X = (let V = window_diff P 1 0 Y X; H = window_diff P 0 (- 1) Y X; D0 = window_diff P 1 1 Y X; D1 = window_diff P (- 1) 1 Y X in
     (activity V H shift + direction V H D0 D1 * 5, turn V H D0 D1))"

lemma second_diff_bound:
  assumes "\<forall>dy\<in>{-1, 0, 1}. \<forall>dx\<in>{-1, 0, 1}. 0 \<le> P (Y + dy) (X + dx) \<and> P (Y + dy) (X + dx) \<le> M" "dy \<in> {-1, 0, 1}" "dx \<in> {-1, 0, 1}"
  shows "0 \<le> second_diff P dy dx Y X \<and> second_diff P dy dx Y X \<le> 2 * M"
proof -
  have "0 \<le> P Y X \<and> P Y X \<le> M" using assms(1) [THEN bspec, THEN bspec, of 0 0] by simp
  moreover have "- dy \<in> {-1, 0, 1}" "- dx \<in> {-1, 0, 1}" using assms(2,3) by auto
  then have "0 \<le> P (Y - dy) (X - dx) \<and> P (Y - dy) (X - dx) \<le> M" using assms(1) [THEN bspec, THEN bspec, of "- dy" "- dx"] by simp
  moreover have "0 \<le> P (Y + dy) (X + dx) \<and> P (Y + dy) (X + dx) \<le> M" using assms by blast
  ultimately show ?thesis unfolding second_diff_def by linarith
qed

lemma window_diff_bound:
  assumes "\<And>Y' X'. Y - 3 \<le> Y' \<Longrightarrow> Y' \<le> Y + 6 \<Longrightarrow> X - 3 \<le> X' \<Longrightarrow> X' \<le> X + 6 \<Longrightarrow> 0 \<le> P Y' X' \<and> P Y' X' \<le> M"
    and d: "dy \<in> {-1, 0, 1}" "dx \<in> {-1, 0, 1}"
  shows "0 \<le> window_diff P dy dx Y X \<and> window_diff P dy dx Y X \<le> 128 * M"
proof -
  have q: "0 \<le> quad_diff P dy dx Y' X' \<and> quad_diff P dy dx Y' X' \<le> 8 * M"
    if "Y - 2 \<le> Y'" "Y' \<le> Y + 4" "X - 2 \<le> X'" "X' \<le> X + 4" for Y' X'
  proof -
    have s: "0 \<le> second_diff P dy dx y x \<and> second_diff P dy dx y x \<le> 2 * M"
      if "y = Y' \<or> y = Y' + 1" "x = X' \<or> x = X' + 1" for y x
    proof (rule second_diff_bound [OF _ d], intro ballI)
      fix a b :: int assume "a \<in> {-1, 0, 1}" "b \<in> {-1, 0, 1}"
      then have "- 1 \<le> a" "a \<le> 1" "- 1 \<le> b" "b \<le> 1" by auto
      moreover have "Y - 2 \<le> y" "y \<le> Y + 5" "X - 2 \<le> x" "x \<le> X + 5"
        using that \<open>Y - 2 \<le> Y'\<close> \<open>Y' \<le> Y + 4\<close> \<open>X - 2 \<le> X'\<close> \<open>X' \<le> X + 4\<close> by auto
      ultimately show "0 \<le> P (y + a) (x + b) \<and> P (y + a) (x + b) \<le> M" by (intro assms(1)) linarith+
    qed
    show ?thesis unfolding quad_diff_def using s [of Y' X'] s [of Y' "X' + 1"] s [of "Y' + 1" X'] s [of "Y' + 1" "X' + 1"] by linarith
  qed
  have r: "0 \<le> row_diff P dy dx Y' (X - 2) \<and> row_diff P dy dx Y' (X - 2) \<le> 32 * M" if "Y - 2 \<le> Y'" "Y' \<le> Y + 4" for Y'
    unfolding row_diff_def using q [OF that, of "X - 2"] q [OF that, of "X - 2 + 2"] q [OF that, of "X - 2 + 4"] q [OF that, of "X - 2 + 6"] by simp
  show ?thesis unfolding window_diff_def using r [of "Y - 2"] r [of Y] r [of "Y + 2"] r [of "Y + 4"] by simp
qed

lemma window_sum_law:
  assumes l: "\<And>k m. k < h + 4 \<Longrightarrow> m < w + 4 \<Longrightarrow> inside l k m" and i: "4 dvd i" "i + 4 \<le> h" and j: "4 dvd j" "j + 4 \<le> w"
  shows "window_sum (fill (rows_content (\<lambda>i j. quad_diff P dy dx (y + int i - 2) (x + int j - 2)) (w + 4) (h + 4) 0) l) i j
    = Some (window_diff P dy dx (y + int i) (x + int j))"
proof -
  let ?g = "\<lambda>i j. quad_diff P dy dx (y + int i - 2) (x + int j - 2)"
  have e: "lap_get (fill (rows_content ?g (w + 4) (h + 4) 0) l) k j = Some (row_diff P dy dx (y + int k - 2) (x + int j - 2))"
    if "even k" "k < h + 4" for k
  proof (rule lap_get_fill)
    show "inside l k j" using l that(2) j(2) by simp
    have "even j" using j(1) by (meson dvd_trans even_numeral)
    then show "rows_content ?g (w + 4) (h + 4) 0 (k, j) = Some (row_diff P dy dx (y + int k - 2) (x + int j - 2))"
      using that j by (simp add: rows_content_def row_content_def row_diff_def algebra_simps)
  qed
  have "even i" using i(1) by (meson dvd_trans even_numeral)
  then show ?thesis using e [of i] e [of "i + 2"] e [of "i + 4"] e [of "i + 6"] i(2)
    by (simp add: window_sum_def window_diff_def algebra_simps)
qed

lemma classify_block_law:
  assumes I: "class_input src blk P M" "M \<le> 362" and l: "lap_inside (area_height blk + 4) (area_width blk + 4) l"
    and i: "4 dvd i" "i + 4 \<le> area_height blk" and j: "4 dvd j" "j + 4 \<le> area_width blk"
  shows "classify_block (block_state P blk (area_height blk + 4) 0 l) blk shift i j classifier
    = for_loop (\<lambda>k. for_loop (\<lambda>m. set_class (int i + area_y blk + k) (int j + area_x blk + m)
        (class_at P shift (area_y blk + int i) (area_x blk + int j))) [0, 1, 2, 3]) [0, 1, 2, 3] classifier"
proof -
  let ?Y = "area_y blk + int i" and ?X = "area_x blk + int j"
  have w: "window_sum (fill (rows_content (block_diff P blk dy dx) (area_width blk + 4) (area_height blk + 4) 0) a) i j = Some (window_diff P dy dx ?Y ?X)"
    if "a \<in> {lap_ver l, lap_hor l, lap_dig0 l, lap_dig1 l}" for a dy dx
    unfolding block_diff_def using lap_insideD [OF l] that by (intro window_sum_law i j) auto
  have b: "0 \<le> P Y' X' \<and> P Y' X' \<le> M" if "?Y - 3 \<le> Y'" "Y' \<le> ?Y + 6" "?X - 3 \<le> X'" "X' \<le> ?X + 6" for Y' X'
  proof -
    have "int i + 4 \<le> int (area_height blk)" "int j + 4 \<le> int (area_width blk)" using i(2) j(2) by linarith+
    then have "area_y blk - 3 \<le> Y'" "Y' \<le> area_y blk + int (area_height blk) + 2" "area_x blk - 3 \<le> X'" "X' \<le> area_x blk + int (area_width blk) + 2"
      using that by linarith+
    then show ?thesis using I(1) by (auto simp: class_input_def)
  qed
  have v: "0 \<le> window_diff P dy dx ?Y ?X \<and> window_diff P dy dx ?Y ?X \<le> 46340" if "dy \<in> {-1, 0, 1}" "dx \<in> {-1, 0, 1}" for dy dx
    using window_diff_bound [where P = P and M = M and Y = "?Y" and X = "?X", OF b that] I(2) by simp
  have "classify (window_diff P 1 0 ?Y ?X) (window_diff P 0 (- 1) ?Y ?X) (window_diff P 1 1 ?Y ?X) (window_diff P (- 1) 1 ?Y ?X) shift
      = Some (class_at P shift ?Y ?X)"
    unfolding class_at_def Let_def by (rule classify_law(1)) (use v in auto)
  then show ?thesis unfolding classify_block_def lap_state_def Let_def by (simp add: w del: for_loop.simps)
qed

text \<open>Writing the classes of the block.\<close>

definition class_fill :: "(nat \<times> nat \<Rightarrow> 'a) \<Rightarrow> (nat \<times> nat) set \<Rightarrow> nat \<times> nat \<rightharpoonup> 'a" where
  "class_fill G S = (\<lambda>p. if p \<in> S then Some (G p) else None)"

lemma set_class_fill:
  assumes "inside cl (nat y) (nat x)" "0 \<le> y" "0 \<le> x" "c = G (nat y, nat x)"
  shows "set_class y x c (fill (class_fill G S) cl) = Some (fill (class_fill G (S \<union> {(nat y, nat x)})) cl)"
proof -
  have "(class_fill G S)((nat y, nat x) \<mapsto> c) = class_fill G (S \<union> {(nat y, nat x)})" using assms(4) by (auto simp: class_fill_def)
  then show ?thesis using assms fill_update [OF assms(1), of "class_fill G S" c]
    by (simp add: set_class_def arr_get_i_def arr_set_i_def inside_def)
qed

definition class_space :: "area \<Rightarrow> 'a list list \<Rightarrow> bool" where
  "class_space blk cl \<longleftrightarrow> 0 \<le> area_y blk \<and> 0 \<le> area_x blk \<and> area_y blk + int (area_height blk) \<le> int (length cl)
     \<and> (\<forall>row\<in>set cl. area_x blk + int (area_width blk) \<le> int (length row))"

lemma class_spaceD: "class_space blk cl \<Longrightarrow> in_block blk Y X \<Longrightarrow> 0 \<le> Y \<and> 0 \<le> X \<and> inside cl (nat Y) (nat X)"
proof -
  assume a: "class_space blk cl" "in_block blk Y X"
  then have y: "nat Y < length cl" "0 \<le> Y" "0 \<le> X" by (auto simp: class_space_def in_block_def nat_less_iff)
  then have "cl ! nat Y \<in> set cl" by simp
  then have "area_x blk + int (area_width blk) \<le> int (length (cl ! nat Y))" using a(1) by (simp add: class_space_def)
  then have "X < int (length (cl ! nat Y))" using a(2) by (simp add: in_block_def)
  then show ?thesis using y by (simp add: inside_def nat_less_iff)
qed

lemma class_loop:
  assumes "class_space blk cl" "in_block blk y x" "in_block blk (y + 3) (x + 3)" "\<And>k m. 0 \<le> k \<Longrightarrow> k < 4 \<Longrightarrow> 0 \<le> m \<Longrightarrow> m < 4 \<Longrightarrow> G (nat (y + k), nat (x + m)) = c"
  shows "for_loop (\<lambda>k. for_loop (\<lambda>m. set_class (y + k) (x + m) c) [0, 1, 2, 3]) [0, 1, 2, 3] (fill (class_fill G S) cl)
    = Some (fill (class_fill G (S \<union> (\<Union>ii\<in>set [0, 1, 2, 3 :: nat]. \<Union>jj\<in>set [0, 1, 2, 3 :: nat]. {(nat (y + int ii), nat (x + int jj))}))) cl)"
proof -
  have s: "set [0, 1, 2, 3 :: int] = int ` set [0, 1, 2, 3]" by simp
  have "for_loop (\<lambda>k. for_loop (\<lambda>m. set_class (y + k) (x + m) c) [0, 1, 2, 3]) [0, 1, 2, 3] (fill (class_fill G S) cl)
    = Some (fill (class_fill G (S \<union> (\<Union>k\<in>set [0, 1, 2, 3]. \<Union>m\<in>set [0, 1, 2, 3]. {(nat (y + k), nat (x + m))}))) cl)"
  proof (rule for_loop_union [where P = "\<lambda>S. fill (class_fill G S) cl"], rule for_loop_union [where P = "\<lambda>S. fill (class_fill G S) cl"])
    fix k m :: int and S assume "k \<in> set [0, 1, 2, 3]" "m \<in> set [0, 1, 2, 3]"
    then have km: "0 \<le> k" "k < 4" "0 \<le> m" "m < 4" by auto
    then have "in_block blk (y + k) (x + m)" using assms(2,3) by (auto simp: in_block_def)
    from class_spaceD [OF assms(1) this] assms(4) [OF km]
    show "set_class (y + k) (x + m) c (fill (class_fill G S) cl) = Some (fill (class_fill G (S \<union> {(nat (y + k), nat (x + m))})) cl)"
      by (intro set_class_fill) auto
  qed
  then show ?thesis unfolding s by (simp only: UN_simps image_image SUP_image comp_def)
qed

text \<open>The class of every sample of the block.\<close>

definition class_of :: "(int \<Rightarrow> int \<Rightarrow> int) \<Rightarrow> nat \<Rightarrow> nat \<times> nat \<Rightarrow> nat \<times> nat" where
  "class_of P shift = (\<lambda>(y, x). class_at P shift (quad (int y)) (quad (int x)))"

lemma deriveClassificationBlk_law:
  assumes I: "class_input src blk P M" "M \<le> 362" and l: "lap_inside (area_height blk + 4) (area_width blk + 4) l"
    and cl: "class_space blk cl" and b: "area_y blk mod 4 = 0" "area_x blk mod 4 = 0" "area_height blk mod 4 = 0" "area_width blk mod 4 = 0"
  shows "deriveClassificationBlk src blk shift (cl, l)
    = Some (fill (class_fill (class_of P shift) {p. \<exists>Y X. p = (nat Y, nat X) \<and> in_block blk Y X}) cl, block_state P blk (area_height blk + 4) 0 l)"
proof -
  let ?h = "area_height blk" and ?w = "area_width blk"
  let ?l = "block_state P blk (?h + 4) 0 l"
  let ?G = "class_of P shift"
  have e: "even ?h" "even ?w" using b(3,4) by presburger+
  have M: "M \<le> 16383" using I(2) by simp
  have "for_loop (\<lambda>i. for_loop (\<lambda>j. classify_block ?l blk shift i j) (steps 4 ?w)) (steps 4 ?h) (fill (class_fill ?G {}) cl)
    = Some (fill (class_fill ?G ({} \<union> (\<Union>i\<in>set (steps 4 ?h). \<Union>j\<in>set (steps 4 ?w). \<Union>ii\<in>set [0, 1, 2, 3]. \<Union>jj\<in>set [0, 1, 2, 3].
        {(nat (int i + area_y blk + int ii), nat (int j + area_x blk + int jj))}))) cl)"
  proof (rule for_loop_union [where P = "\<lambda>S. fill (class_fill ?G S) cl"], rule for_loop_union [where P = "\<lambda>S. fill (class_fill ?G S) cl"])
    fix i j S assume "i \<in> set (steps 4 ?h)" "j \<in> set (steps 4 ?w)"
    then have ij: "4 dvd i" "i < ?h" "4 dvd j" "j < ?w" using b(3,4) by (simp_all add: set_steps mod_0_imp_dvd)
    then have le: "i + 4 \<le> ?h" "j + 4 \<le> ?w" using b(3,4) by presburger+
    let ?Y = "int i + area_y blk" and ?X = "int j + area_x blk"
    have nn: "0 \<le> ?Y" "0 \<le> ?X" using cl by (auto simp: class_space_def)
    have G: "?G (nat (?Y + k), nat (?X + m)) = class_at P shift (area_y blk + int i) (area_x blk + int j)"
      if "0 \<le> k" "k < 4" "0 \<le> m" "m < 4" for k m
    proof -
      have "quad (area_y blk + int i + int (nat k)) = area_y blk + int i" "quad (area_x blk + int j + int (nat m)) = area_x blk + int j"
        using that by (intro quad_add b ij; simp)+
      then have "quad (?Y + k) = area_y blk + int i" "quad (?X + m) = area_x blk + int j" using that by (simp_all add: add.commute)
      then show ?thesis using nn that by (simp add: class_of_def add.commute)
    qed
    show "classify_block ?l blk shift i j (fill (class_fill ?G S) cl)
      = Some (fill (class_fill ?G (S \<union> (\<Union>ii\<in>set [0, 1, 2, 3]. \<Union>jj\<in>set [0, 1, 2, 3]. {(nat (?Y + int ii), nat (?X + int jj))}))) cl)"
      unfolding classify_block_law [OF I l ij(1) le(1) ij(3) le(2)]
      by (rule class_loop [OF cl]) (use le G in \<open>auto simp: in_block_def\<close>)
  qed
  moreover have "fill (class_fill ?G {}) cl = cl" by (simp add: class_fill_def)
  moreover have "(\<Union>i\<in>set (steps 4 ?h). \<Union>j\<in>set (steps 4 ?w). \<Union>ii\<in>set [0, 1, 2, 3]. \<Union>jj\<in>set [0, 1, 2, 3].
        {(nat (int i + area_y blk + int ii), nat (int j + area_x blk + int jj))}) = {p. \<exists>Y X. p = (nat Y, nat X) \<and> in_block blk Y X}"
    by (rule block_quads [where g = "\<lambda>Y X. (nat Y, nat X)"]) (use b in \<open>simp_all add: add.commute\<close>)
  ultimately show ?thesis unfolding deriveClassificationBlk_def prod.case Let_def laplacian_law [OF I(1) M l e] bind.bind_lunit by simp
qed

lemma filter_block_law:
  assumes "block_input ft bChroma classifier src blk filterSet cls P M" "bChroma \<longrightarrow> ft = ALF_FILTER_5"
    and "block_ok (stride dst) blk"
    and "\<forall>a\<in>block_addresses (stride dst) blk. 0 \<le> origin dst + a \<and> origin dst + a < int (length (pels dst))"
  shows "\<exists>d. filterBlk ft bChroma classifier src blk filterSet clpRng dst = Some d
    \<and> (\<forall>Y X. in_block blk Y X \<longrightarrow>
        pel d (pos (stride dst) Y X) = Some (filtered_at ft bChroma cls filterSet clpRng P Y X))
    \<and> (\<forall>a. a \<notin> block_addresses (stride dst) blk \<longrightarrow> pel d a = pel dst a)"
proof -
  have p: "pos (stride dst) Y X \<in> block_addresses (stride dst) blk" "pos (stride dst) Y X div stride dst = Y"
    "pos (stride dst) Y X mod stride dst = X" if "in_block blk Y X" for Y X
  proof -
    show "pos (stride dst) Y X \<in> block_addresses (stride dst) blk" using that by (auto simp: block_addresses_def)
    have "0 \<le> X" "X < stride dst" using that assms(3) by (auto simp: in_block_def block_ok_def)
    then show "pos (stride dst) Y X div stride dst = Y" "pos (stride dst) Y X mod stride dst = X"
      using pos_div_mod by metis+
  qed
  show ?thesis unfolding filterBlk_law [OF assms] using p assms(4) by (simp add: pel_patch)
qed

lemma class_fill_get:
  assumes "class_space blk cl" "in_block blk Y X"
  shows "do { row \<leftarrow> arr_get_i (fill (class_fill G {p. \<exists>Y X. p = (nat Y, nat X) \<and> in_block blk Y X}) cl) Y; arr_get_i row X }
    = Some (G (nat Y, nat X))"
proof -
  have "(nat Y, nat X) \<in> {p. \<exists>Y X. p = (nat Y, nat X) \<and> in_block blk Y X}" using assms(2) by blast
  then show ?thesis using class_spaceD [OF assms]
    by (simp add: arr_get_i_def inside_def fill_nth class_fill_def)
qed

lemma quad_in_block:
  assumes "area_y blk mod 4 = 0" "area_x blk mod 4 = 0" "in_block blk Y X"
  shows "in_block blk (quad Y) (quad X)" "quad (quad Y) = quad Y"
  using assms unfolding in_block_def quad_def by (auto; presburger)+

lemma class_at_bounds:
  assumes "class_input src blk P M" "M \<le> 362" "4 dvd area_height blk" "4 dvd area_width blk"
    and "area_y blk mod 4 = 0" "area_x blk mod 4 = 0" "in_block blk Y X"
  shows "fst (class_at P shift (quad Y) (quad X)) < 25" "snd (class_at P shift (quad Y) (quad X)) < 4"
proof -
  have q: "area_y blk \<le> quad Y" "quad Y + 4 \<le> area_y blk + int (area_height blk)" "area_x blk \<le> quad X" "quad X + 4 \<le> area_x blk + int (area_width blk)"
    using assms(3-7) unfolding in_block_def quad_def by presburger+
  have b: "0 \<le> P Y' X' \<and> P Y' X' \<le> M" if "quad Y - 3 \<le> Y'" "Y' \<le> quad Y + 6" "quad X - 3 \<le> X'" "X' \<le> quad X + 6" for Y' X'
  proof -
    have "area_y blk - 3 \<le> Y'" "Y' \<le> area_y blk + int (area_height blk) + 2" "area_x blk - 3 \<le> X'" "X' \<le> area_x blk + int (area_width blk) + 2"
      using that q by linarith+
    then show ?thesis using assms(1) by (auto simp: class_input_def)
  qed
  have v: "0 \<le> window_diff P dy dx (quad Y) (quad X) \<and> window_diff P dy dx (quad Y) (quad X) \<le> 46340" if "dy \<in> {-1, 0, 1}" "dx \<in> {-1, 0, 1}" for dy dx
    using window_diff_bound [where P = P and M = M and Y = "quad Y" and X = "quad X", OF b that] assms(2) by simp
  show "fst (class_at P shift (quad Y) (quad X)) < 25" unfolding class_at_def Let_def fst_conv by (rule classify_law(2)) (use v in auto)
  show "snd (class_at P shift (quad Y) (quad X)) < 4" unfolding class_at_def Let_def snd_conv by (rule classify_law(3)) (use v in auto)
qed

text \<open>Coefficients of all classes that keep the weighted sums within \<open>int\<close>.\<close>

definition filters_fit :: "alf_filter_type \<Rightarrow> int \<Rightarrow> int list \<Rightarrow> bool" where
  "filters_fit ft M filterSet \<longleftrightarrow> (\<forall>k<25. k * 13 + taps_of ft \<le> length filterSet \<and> 2 * M * abs_sum (drop (k * 13) filterSet) (taps_of ft) < 2 ^ 31 - 256)"

lemma luma_block_input:
  assumes I: "class_input src blk P M" "M \<le> 362" and fit: "filters_fit ft M filterSet"
    and b: "area_y blk mod 4 = 0" "area_x blk mod 4 = 0" "area_height blk mod 4 = 0" "area_width blk mod 4 = 0" and cl: "class_space blk cl"
  shows "block_input ft False (fill (class_fill (class_of P shift) {p. \<exists>Y X. p = (nat Y, nat X) \<and> in_block blk Y X}) cl)
    src blk filterSet (class_at P shift) P M"
  unfolding block_input_def
proof (intro allI impI)
  fix Y X assume YX: "in_block blk Y X"
  have d: "4 dvd area_height blk" "4 dvd area_width blk" using b by (simp_all add: mod_0_imp_dvd)
  have p: "pel src (pos (stride src) Y' X') = Some (P Y' X') \<and> 0 \<le> P Y' X' \<and> P Y' X' \<le> M" if "\<bar>Y' - Y\<bar> \<le> 3" "\<bar>X' - X\<bar> \<le> 3" for Y' X'
  proof -
    have "area_y blk - 3 \<le> Y'" "Y' \<le> area_y blk + int (area_height blk) + 2" "area_x blk - 3 \<le> X'" "X' \<le> area_x blk + int (area_width blk) + 2"
      using that YX by (auto simp: in_block_def)
    then show ?thesis using I(1) by (auto simp: class_input_def)
  qed
  have "near (reach ft) src (pos (stride src) Y X) (\<lambda>dy dx. P (Y + dy) (X + dx))" unfolding near_def
  proof (intro allI impI)
    fix dy dx assume "\<bar>dy\<bar> + \<bar>dx\<bar> \<le> int (reach ft)"
    then have "\<bar>dy\<bar> \<le> 3" "\<bar>dx\<bar> \<le> 3" by (auto simp: reach_def split: if_splits)
    then show "pel src (pos (stride src) Y X + dy * stride src + dx) = Some (P (Y + dy) (X + dx))"
      using p [of "Y + dy" "X + dx"] by (simp add: pos_def algebra_simps)
  qed
  moreover have "samples_below (reach ft) M (\<lambda>dy dx. P (Y + dy) (X + dx))" unfolding samples_below_def
  proof (intro allI impI)
    fix dy dx assume "\<bar>dy\<bar> + \<bar>dx\<bar> \<le> int (reach ft)"
    then have "\<bar>dy\<bar> \<le> 3" "\<bar>dx\<bar> \<le> 3" by (auto simp: reach_def split: if_splits)
    then show "\<bar>P (Y + dy) (X + dx)\<bar> \<le> M" using p [of "Y + dy" "X + dx"] by simp
  qed
  moreover have "do { row \<leftarrow> arr_get_i (fill (class_fill (class_of P shift) {p. \<exists>Y X. p = (nat Y, nat X) \<and> in_block blk Y X}) cl) (quad Y);
      arr_get_i row (quad X) } = Some (class_at P shift (quad Y) (quad X))"
    using class_fill_get [OF cl quad_in_block(1) [OF b(1,2) YX], of "class_of P shift"] class_spaceD [OF cl quad_in_block(1) [OF b(1,2) YX]]
    by (simp add: class_of_def) (simp add: quad_def)
  moreover have "fst (class_at P shift (quad Y) (quad X)) < 25" by (rule class_at_bounds [OF I d b(1,2) YX])
  then have "taps_of ft \<le> length (drop (fst (class_at P shift (quad Y) (quad X)) * 13) filterSet)
    \<and> 2 * M * abs_sum (drop (fst (class_at P shift (quad Y) (quad X)) * 13) filterSet) (taps_of ft) < 2 ^ 31 - 256"
    using fit unfolding filters_fit_def by fastforce
  ultimately show "near (reach ft) src (pos (stride src) Y X) (\<lambda>dy dx. P (Y + dy) (X + dx)) \<and>
      samples_below (reach ft) M (\<lambda>dy dx. P (Y + dy) (X + dx)) \<and>
      (\<not> False \<longrightarrow> do { row \<leftarrow> arr_get_i (fill (class_fill (class_of P shift) {p. \<exists>Y X. p = (nat Y, nat X) \<and> in_block blk Y X}) cl) (quad Y);
        arr_get_i row (quad X) } = Some (class_at P shift (quad Y) (quad X))) \<and>
      (let coef = drop (if False then 0 else fst (class_at P shift (quad Y) (quad X)) * 13) filterSet in
        taps_of ft \<le> length coef \<and> 2 * M * abs_sum coef (taps_of ft) < 2 ^ 31 - 256)"
    by (simp only: Let_def if_False simp_thms)
qed


definition dot_plane :: "int \<Rightarrow> plane" where
  "dot_plane v = \<lparr>pels = map (\<lambda>k. if even (k div 10) \<and> even (k mod 10) then v else 0) [0..<100], origin = 33, stride = 10\<rparr>"

abbreviation small_block :: area where
  "small_block \<equiv> \<lparr>area_x = 0, area_y = 0, area_width = 4, area_height = 4\<rparr>"

abbreviation zero_laplacian :: laplacian where
  "zero_laplacian \<equiv> \<lparr>lap_ver = replicate 8 (replicate 8 0), lap_hor = replicate 8 (replicate 8 0), lap_dig0 = replicate 8 (replicate 8 0),
     lap_dig1 = replicate 8 (replicate 8 0)\<rparr>"


section \<open>Properties\<close>

text \<open>
  C7. A luma block of 8-bit samples: the classification succeeds, and the filter then replaces every sample by the rounded,
  clipped weighted sum of its neighbours.  The coefficients and the turn of the neighbourhood are those of the class of
  its four by four block, and the class is a function of the sums of second differences over the eight by eight window
  around that block.  Samples outside the block keep their values.
\<close>

theorem alf_luma_block:
  assumes "class_input src blk P M" "M \<le> 362" "filters_fit ft M filterSet"
    and "block_ok (stride dst) blk" "\<forall>a\<in>block_addresses (stride dst) blk. 0 \<le> origin dst + a \<and> origin dst + a < int (length (pels dst))"
    and "class_space blk cl" "lap_inside (area_height blk + 4) (area_width blk + 4) l"
  shows "\<exists>cl' l' d. deriveClassificationBlk src blk shift (cl, l) = Some (cl', l')
    \<and> filterBlk ft False cl' src blk filterSet clpRng dst = Some d
    \<and> (\<forall>Y X. in_block blk Y X \<longrightarrow> (let (classIdx, transposeIdx) = class_at P shift (quad Y) (quad X) in
        classIdx < 25 \<and> transposeIdx < 4
        \<and> pel d (pos (stride dst) Y X) = Some (filtered ft (drop (classIdx * 13) filterSet) transposeIdx clpRng (\<lambda>dy dx. P (Y + dy) (X + dx)))))
    \<and> (\<forall>a. a \<notin> block_addresses (stride dst) blk \<longrightarrow> pel d a = pel dst a)"
proof -
  have b: "area_y blk mod 4 = 0" "area_x blk mod 4 = 0" "area_height blk mod 4 = 0" "area_width blk mod 4 = 0"
    using assms(4) by (simp_all add: block_ok_def)
  have d: "4 dvd area_height blk" "4 dvd area_width blk" using b by (simp_all add: mod_0_imp_dvd)
  note c = deriveClassificationBlk_law [OF assms(1,2,7,6) b, of shift]
  from filter_block_law [OF luma_block_input [OF assms(1,2,3) b assms(6), of shift] _ assms(4,5), of clpRng]
  obtain dst' where f: "filterBlk ft False (fill (class_fill (class_of P shift) {p. \<exists>Y X. p = (nat Y, nat X) \<and> in_block blk Y X}) cl)
      src blk filterSet clpRng dst = Some dst'"
    "\<And>Y X. in_block blk Y X \<Longrightarrow> pel dst' (pos (stride dst) Y X) = Some (filtered_at ft False (class_at P shift) filterSet clpRng P Y X)"
    "\<And>a. a \<notin> block_addresses (stride dst) blk \<Longrightarrow> pel dst' a = pel dst a" by auto
  have "let (classIdx, transposeIdx) = class_at P shift (quad Y) (quad X) in classIdx < 25 \<and> transposeIdx < 4
      \<and> pel dst' (pos (stride dst) Y X) = Some (filtered ft (drop (classIdx * 13) filterSet) transposeIdx clpRng (\<lambda>dy dx. P (Y + dy) (X + dx)))"
    if "in_block blk Y X" for Y X
    using class_at_bounds [OF assms(1,2) d b(1,2) that, of shift] f(2) [OF that] by (simp add: filtered_at_def split: prod.splits)
  then show ?thesis using c f(1,3) by blast
qed

text \<open>Samples 0, 1, 2, \<open>\<dots>\<close> in rows of ten, and a block in the middle of them: no second differences, hence class 0.\<close>

definition ramp_plane :: plane where
  "ramp_plane = \<lparr>pels = map int [0..<100], origin = 33, stride = 10\<rparr>"

theorem alf_luma_block_witness:
  "\<exists>cl' l' d. deriveClassificationBlk ramp_plane small_block 12 (replicate 4 (replicate 4 (7, 1)), zero_laplacian) = Some (cl', l')
    \<and> filterBlk ALF_FILTER_7 False cl' ramp_plane small_block (concat (replicate 25 [1, 2, 3, 4, 5, 6, 7, 8, 9, 10, 11, 12, 300])) \<lparr>clp_min = 0, clp_max = 255\<rparr> ramp_plane = Some d
    \<and> pel d (pos 10 3 3) = Some 59"
proof -
  let ?P = "\<lambda>Y X. pos 10 Y X + 33" and ?f = "concat (replicate 25 [1, 2, 3, 4, 5, 6, 7, 8, 9, 10, 11, 12, 300])" and ?c = "\<lparr>clp_min = 0, clp_max = 255\<rparr>"
  have st: "stride ramp_plane = 10" and sz: "origin ramp_plane = 33" "length (pels ramp_plane) = 100" by (simp_all add: ramp_plane_def)
  have "pel ramp_plane (pos 10 Y X) = Some (?P Y X) \<and> 0 \<le> ?P Y X \<and> ?P Y X \<le> 99" if "- 3 \<le> Y" "Y \<le> 6" "- 3 \<le> X" "X \<le> 6" for Y X
    using that by (simp add: ramp_plane_def pel_def arr_get_i_def arr_get_def nat_less_iff pos_def)
  then have i: "class_input ramp_plane small_block ?P 99" by (simp add: class_input_def st)
  have "\<forall>k<25. k * 13 + taps_of ALF_FILTER_7 \<le> length ?f \<and> 2 * 99 * abs_sum (drop (k * 13) ?f) (taps_of ALF_FILTER_7) < 2 ^ 31 - 256" by code_simp
  then have fit: "filters_fit ALF_FILTER_7 99 ?f" by (simp only: filters_fit_def)
  have ok: "block_ok (stride ramp_plane) small_block" by (simp add: block_ok_def st)
  have r: "\<forall>a\<in>block_addresses (stride ramp_plane) small_block. 0 \<le> origin ramp_plane + a \<and> origin ramp_plane + a < int (length (pels ramp_plane))"
    unfolding st sz by (auto simp: block_addresses_def in_block_def pos_def)
  have cl: "class_space small_block (replicate 4 (replicate 4 (7, 1)) :: classifier)" by (simp add: class_space_def)
  have l: "lap_inside (area_height small_block + 4) (area_width small_block + 4) zero_laplacian" by (simp add: lap_inside_def)
  from alf_luma_block [OF i _ fit ok r cl l, of 12 ?c] obtain cl' l' d where
    d: "deriveClassificationBlk ramp_plane small_block 12 (replicate 4 (replicate 4 (7, 1)), zero_laplacian) = Some (cl', l')"
    "filterBlk ALF_FILTER_7 False cl' ramp_plane small_block ?f ?c ramp_plane = Some d"
    "\<And>Y X. in_block small_block Y X \<Longrightarrow> let (classIdx, transposeIdx) = class_at ?P 12 (quad Y) (quad X) in classIdx < 25 \<and> transposeIdx < 4
      \<and> pel d (pos 10 Y X) = Some (filtered ALF_FILTER_7 (drop (classIdx * 13) ?f) transposeIdx ?c (\<lambda>dy dx. ?P (Y + dy) (X + dx)))"
    unfolding st by auto
  have w: "window_diff ?P dy dx 0 0 = 0" for dy dx by (simp add: window_diff_def row_diff_def quad_diff_def second_diff_def pos_def algebra_simps)
  have q: "quad 3 = 0" by (simp add: quad_def)
  have cls: "class_at ?P 12 (quad 3) (quad 3) = (0, 3)" unfolding q
    by (simp add: class_at_def w activity_def direction_def turn_def activity_class_def)
  have "wsum7 ?f (turned 3 (\<lambda>dy dx. ?P (3 + dy) (3 + dx))) = 30096" by (simp add: wsum7_def turned_def pos_def numeral_eq_Suc)
  then have "filtered ALF_FILTER_7 (drop (0 * 13) ?f) 3 ?c (\<lambda>dy dx. ?P (3 + dy) (3 + dx)) = 59"
    by (simp add: filtered_def ClipPel_def drop_bit_int_def)
  then have "pel d (pos 10 3 3) = Some 59" using d(3) [of 3 3] by (simp add: cls in_block_def)
  then show ?thesis using d(1,2) by blast
qed

text \<open>One turn that is undefined makes the loop undefined.\<close>

lemma for_loop_undefined: "i \<in> set is \<Longrightarrow> \<forall>s. f i s = None \<Longrightarrow> for_loop f is s = None"
  by (induction "is" arbitrary: s) (auto split: bind_splits)

lemma in_steps: "k \<in> set (steps 4 n)" if "k < n" "k mod 4 = 0" "n mod 4 = 0"
proof -
  have "k = k div 4 * 4" "k div 4 < (n + 4 - 1) div 4" using that by presburger+
  then show ?thesis unfolding steps_def by (metis atLeastLessThan_iff image_eqI list.set_map set_upt zero_le)
qed

lemma classify_overflow:
  assumes "max V H * min D0 D1 \<ge> 2 ^ 31 \<or> max D0 D1 * min V H \<ge> 2 ^ 31"
  shows "classify V H D0 D1 shift = None"
proof -
  have hv: "(if V > H then (V, H, 1 :: nat) else (H, V, 3)) = (max V H, min V H, if V > H then 1 else 3)" by (simp add: max_def min_def)
  have dd: "(if D0 > D1 then (D0, D1, 0 :: nat) else (D1, D0, 2)) = (max D0 D1, min D0 D1, if D0 > D1 then 0 else 2)" by (simp add: max_def min_def)
  have o: "i32 (max D0 D1 * min V H) = None \<or> i32 (max V H * min D0 D1) = None" using assms by (auto simp: i32_def)
  show ?thesis unfolding classify_def Let_def hv dd prod.case using o by (elim disjE) (simp_all only: bind.bind_lzero bind_rzero)
qed

text \<open>
  C38. The comparison of the directions overflows.  Whenever for one four by four block inside the area the product of the larger of one
  pair of directional sums with the smaller of the other reaches \<open>2 ^ 31\<close>, the call of \<open>deriveClassificationBlk\<close> is undefined.  The sums
  reach \<open>128\<close> times the largest sample, so that 8-bit samples cannot do it, while a pattern of isolated bright 10-bit samples does.
\<close>

theorem alf_class_overflow:
  assumes "class_input src blk P M" "M \<le> 16383" "lap_inside (area_height blk + 4) (area_width blk + 4) l"
    and "area_height blk mod 4 = 0" "area_width blk mod 4 = 0" "i < area_height blk" "i mod 4 = 0" "j < area_width blk" "j mod 4 = 0"
    and "V = window_diff P 1 0 (area_y blk + int i) (area_x blk + int j)" "H = window_diff P 0 (- 1) (area_y blk + int i) (area_x blk + int j)"
      "D0 = window_diff P 1 1 (area_y blk + int i) (area_x blk + int j)" "D1 = window_diff P (- 1) 1 (area_y blk + int i) (area_x blk + int j)"
    and "max V H * min D0 D1 \<ge> 2 ^ 31 \<or> max D0 D1 * min V H \<ge> 2 ^ 31"
  shows "deriveClassificationBlk src blk shift (cl, l) = None"
proof -
  have e: "even (area_height blk)" "even (area_width blk)" and f: "4 dvd i" "i + 4 \<le> area_height blk" "4 dvd j" "j + 4 \<le> area_width blk"
    using assms(4-9) by presburger+
  let ?Y = "area_y blk + int i" and ?X = "area_x blk + int j" and ?l = "block_state P blk (area_height blk + 4) 0 l"
  have w: "window_sum (fill (rows_content (block_diff P blk dy dx) (area_width blk + 4) (area_height blk + 4) 0) a) i j = Some (window_diff P dy dx ?Y ?X)"
    if "a \<in> {lap_ver l, lap_hor l, lap_dig0 l, lap_dig1 l}" for a dy dx
    unfolding block_diff_def using lap_insideD [OF assms(3)] that by (intro window_sum_law f) auto
  have "classify_block ?l blk shift i j c = None" for c
    using w classify_overflow [OF assms(14)] by (simp add: classify_block_def lap_state_def assms(10-13))
  moreover have "i \<in> set (steps 4 (area_height blk))" "j \<in> set (steps 4 (area_width blk))"
    using assms(4-9) by (simp_all only: in_steps)
  ultimately have "for_loop (\<lambda>i. for_loop (\<lambda>j. classify_block ?l blk shift i j) (steps 4 (area_width blk))) (steps 4 (area_height blk)) cl = None"
    by (intro for_loop_undefined allI) auto
  then show ?thesis by (simp add: deriveClassificationBlk_def laplacian_law [OF assms(1-3) e])
qed

theorem alf_class_overflow_witness:
  "deriveClassificationBlk (dot_plane 1023) small_block 14 (replicate 4 (replicate 4 (0, 0)), zero_laplacian) = None"
proof -
  let ?P = "\<lambda>Y X. (if even ((pos 10 Y X + 33) div 10) \<and> even ((pos 10 Y X + 33) mod 10) then 1023 else 0 :: int)"
  have st: "stride (dot_plane 1023) = 10" by (simp add: dot_plane_def)
  have "pel (dot_plane 1023) (pos 10 Y X) = Some (?P Y X) \<and> 0 \<le> ?P Y X \<and> ?P Y X \<le> 1023"
    if b: "- 3 \<le> Y" "Y \<le> 6" "- 3 \<le> X" "X \<le> 6" for Y X
  proof -
    define k where "k = nat (pos 10 Y X + 33)"
    have k: "int k = pos 10 Y X + 33" "k < 100" using b by (simp_all add: k_def pos_def nat_less_iff)
    have "(pos 10 Y X + 33) div 10 = int (k div 10)" "(pos 10 Y X + 33) mod 10 = int (k mod 10)"
      unfolding k(1) [symmetric] by (simp_all add: zdiv_int zmod_int)
    moreover have "pel (dot_plane 1023) (pos 10 Y X) = Some (if even (k div 10) \<and> even (k mod 10) then 1023 else 0)"
    proof -
      have "origin (dot_plane 1023) + pos 10 Y X = int k" using k(1) by (simp add: dot_plane_def)
      then show ?thesis using k(2) by (simp add: pel_def arr_get_i_def arr_get_def) (simp add: dot_plane_def)
    qed
    ultimately show ?thesis by simp
  qed
  then have i: "class_input (dot_plane 1023) small_block ?P 1023" by (simp add: class_input_def st)
  have l: "lap_inside (area_height small_block + 4) (area_width small_block + 4) zero_laplacian" by (simp add: lap_inside_def)
  have w: "window_diff ?P 1 0 0 0 = 65472" "window_diff ?P 0 (- 1) 0 0 = 65472" "window_diff ?P 1 1 0 0 = 65472" "window_diff ?P (- 1) 1 0 0 = 65472"
    by code_simp+
  show ?thesis
    by (rule alf_class_overflow [OF i _ l, of 0 0 _ _ _ _ 14, OF _ _ _ _ _ _ _ refl refl refl refl]) (simp_all add: w)
qed

end
