(* ===== verification/WeightTables.thy ===== *)
theory WeightTables
  imports SeqParameterSet PicParameterSet PictureBuffer
begin

text \<open>
  The tables of weighted prediction in the slice header: \<open>WPScalingParam\<close> of \<open>CommonLib/Slice.h\<close>,
  \<open>Slice::initWpScaling\<close>, and their syntax \<open>HLSWriter::xCodePredWeightTable\<close> and
  \<open>HLSyntaxReader::parsePredWeightTable\<close>.

  An entry of \<open>m_weightPredTable\<close> is the triple of its three components; \<open>wp\<close> of the source points at one.
\<close>

record wp_param =
  bPresentFlag :: bool
  uiLog2WeightDenom :: nat
  iWeight :: int
  iOffset :: int
  wp_w :: int
  wp_o :: int
  wp_shift :: int
  wp_round :: int

type_synonym wp_entry = "wp_param \<times> wp_param \<times> wp_param"
type_synonym wp_table = "wp_entry list list"

text \<open>The values of \<open>SliceType\<close>; the header holds them as numbers, because the parser does not check them.\<close>

definition B_TYPE :: nat where "B_TYPE = 0"
definition P_TYPE :: nat where "P_TYPE = 1"
definition I_TYPE :: nat where "I_TYPE = 2"

definition getWpScaling :: "wp_table \<Rightarrow> nat \<Rightarrow> int \<Rightarrow> wp_entry option" where
  "getWpScaling tab e i = do { check_not (e \<ge> 2); row \<leftarrow> arr_get tab e; arr_get_i row i }"

definition setWpScaling :: "nat \<Rightarrow> int \<Rightarrow> wp_entry \<Rightarrow> wp_table \<Rightarrow> wp_table option" where
  "setWpScaling e i wp tab = do { row \<leftarrow> arr_get tab e; row \<leftarrow> arr_set_i row i wp; arr_set tab e row }"

text \<open>\<open>1 << n\<close> as an \<open>int\<close>\<close>

definition one_shl :: "nat \<Rightarrow> int option" where
  "one_shl n = (if n < 31 then Some (2 ^ n) else None)"

definition reset_wp :: "wp_param \<Rightarrow> wp_param" where
  "reset_wp wp = wp\<lparr>bPresentFlag := False, uiLog2WeightDenom := 0, iWeight := 1, iOffset := 0\<rparr>"

definition resetWpScaling :: "wp_table \<Rightarrow> wp_table" where
  "resetWpScaling = map (map (\<lambda>(y, cb, cr). (reset_wp y, reset_wp cb, reset_wp cr)))"

definition init_wp :: "bool \<Rightarrow> int \<Rightarrow> wp_param \<Rightarrow> wp_param option" where
  "init_wp bUseHighPrecision bitDepth wp = do {
     m \<leftarrow> (if bPresentFlag wp then Some 0 else one_shl (uiLog2WeightDenom wp));
     let wp = (if bPresentFlag wp then wp else wp\<lparr>iWeight := m, iOffset := 0\<rparr>);
     factor \<leftarrow> (if bUseHighPrecision then Some 1 else do { check_not (bitDepth < 8); one_shl (nat (bitDepth - 8)) });
     scaled \<leftarrow> i32 (iOffset wp * factor);
     half \<leftarrow> (if uiLog2WeightDenom wp \<ge> 1 then one_shl (uiLog2WeightDenom wp - 1) else Some 0);
     Some (wp\<lparr>wp_w := iWeight wp, wp_o := scaled, wp_shift := int (uiLog2WeightDenom wp), wp_round := half\<rparr>) }"

definition init_entry :: "sps \<Rightarrow> wp_entry \<Rightarrow> wp_entry option" where
  "init_entry x = (\<lambda>(y, cb, cr). let high = highPrecisionOffsetsEnabledFlag (m_spsRangeExtension x) in do {
     y \<leftarrow> init_wp high (m_bitDepthLuma x) y;
     cb \<leftarrow> init_wp high (m_bitDepthChroma x) cb;
     cr \<leftarrow> init_wp high (m_bitDepthChroma x) cr;
     Some (y, cb, cr) })"

fun map_option_list :: "('a \<Rightarrow> 'b option) \<Rightarrow> 'a list \<Rightarrow> 'b list option" where
  "map_option_list f [] = Some []"
| "map_option_list f (x # xs) = do { y \<leftarrow> f x; ys \<leftarrow> map_option_list f xs; Some (y # ys) }"

definition initWpScaling :: "sps \<Rightarrow> wp_table \<Rightarrow> wp_table option" where
  "initWpScaling x = map_option_list (map_option_list (init_entry x))"

section \<open>Writer\<close>

text \<open>The values of the two channel types, and the range of the offsets of the chroma samples.\<close>

definition code_denoms :: "bool \<Rightarrow> wp_entry \<Rightarrow> obs \<Rightarrow> obs option" where
  "code_denoms bChroma = (\<lambda>(y, cb, cr) s. do {
     s \<leftarrow> xWriteUvlc (uiLog2WeightDenom y) s;
     if bChroma then do {
       check_not (uiLog2WeightDenom cb \<noteq> uiLog2WeightDenom cr);
       xWriteSvlc (to_i32 (sub32 (uiLog2WeightDenom cb) (uiLog2WeightDenom y))) s
     } else Some s })"

definition code_luma_flag :: "bool \<Rightarrow> bool \<Rightarrow> wp_table \<Rightarrow> nat \<Rightarrow> nat \<Rightarrow> obs \<Rightarrow> obs option" where
  "code_luma_flag bChroma bDenomCoded tab e i s = do {
     wp \<leftarrow> getWpScaling tab e (int i);
     s \<leftarrow> (if \<not> bDenomCoded \<and> i = 0 then code_denoms bChroma wp s else Some s);
     xWriteFlag (of_bool (bPresentFlag (fst wp))) s }"

definition code_chroma_flag :: "wp_table \<Rightarrow> nat \<Rightarrow> nat \<Rightarrow> obs \<Rightarrow> obs option" where
  "code_chroma_flag tab e i s = do {
     (y, cb, cr) \<leftarrow> getWpScaling tab e (int i);
     check_not (bPresentFlag cb \<noteq> bPresentFlag cr);
     xWriteFlag (of_bool (bPresentFlag cb)) s }"

definition offset_range :: "bool \<Rightarrow> int \<Rightarrow> int option" where
  "offset_range high bitDepth = (if high then do { check_not (bitDepth < 0); m \<leftarrow> one_shl (nat bitDepth); Some (m div 2) } else Some 128)"

definition code_chroma_weight :: "sps \<Rightarrow> nat \<Rightarrow> wp_param \<Rightarrow> obs \<Rightarrow> obs option" where
  "code_chroma_weight x denom wp s = do {
     m \<leftarrow> one_shl denom;
     d \<leftarrow> i32 (iWeight wp - m);
     s \<leftarrow> xWriteSvlc d s;
     rng \<leftarrow> offset_range (highPrecisionOffsetsEnabledFlag (m_spsRangeExtension x)) (m_bitDepthChroma x);
     scaled \<leftarrow> i32 (rng * iWeight wp);
     check_not (uiLog2WeightDenom wp > 31);
     pred \<leftarrow> i32 (rng - drop_bit (uiLog2WeightDenom wp) scaled);
     d \<leftarrow> i32 (iOffset wp - pred);
     xWriteSvlc d s }"

definition code_weights :: "sps \<Rightarrow> wp_table \<Rightarrow> nat \<Rightarrow> nat \<Rightarrow> obs \<Rightarrow> obs option" where
  "code_weights x tab e i s = do {
     (y, cb, cr) \<leftarrow> getWpScaling tab e (int i);
     s \<leftarrow> (if bPresentFlag y then do {
         m \<leftarrow> one_shl (uiLog2WeightDenom y);
         d \<leftarrow> i32 (iWeight y - m);
         s \<leftarrow> xWriteSvlc d s;
         xWriteSvlc (iOffset y) s
       } else Some s);
     if isChromaEnabled (m_chromaFormatIdc x) \<and> bPresentFlag cb then do {
       check_not (uiLog2WeightDenom cb \<noteq> uiLog2WeightDenom cr);
       s \<leftarrow> code_chroma_weight x (uiLog2WeightDenom cb) cb s;
       code_chroma_weight x (uiLog2WeightDenom cb) cr s
     } else Some s }"

definition code_weight_list :: "sps \<Rightarrow> wp_table \<Rightarrow> bool \<Rightarrow> nat \<Rightarrow> nat \<Rightarrow> obs \<Rightarrow> obs option" where
  "code_weight_list x tab bDenomCoded e n s = do {
     let bChroma = isChromaEnabled (m_chromaFormatIdc x);
     s \<leftarrow> for_loop (code_luma_flag bChroma bDenomCoded tab e) [0..<n] s;
     s \<leftarrow> (if bChroma then for_loop (code_chroma_flag tab e) [0..<n] s else Some s);
     for_loop (code_weights x tab e) [0..<n] s }"

text \<open>\<open>uiTotalSignalledWeightFlags\<close>: one for the luma flag of an entry, two for the chroma flag.\<close>

definition count_flags :: "(nat \<Rightarrow> bool) \<Rightarrow> nat \<Rightarrow> nat" where
  "count_flags p n = length (filter p [0..<n])"

definition signalled_flags :: "bool \<Rightarrow> wp_table \<Rightarrow> nat \<Rightarrow> nat \<Rightarrow> nat" where
  "signalled_flags bChroma tab e n = count_flags (\<lambda>i. bPresentFlag (fst (tab ! e ! i))) n
     + (if bChroma then 2 * count_flags (\<lambda>i. bPresentFlag (fst (snd (tab ! e ! i)))) n else 0)"

definition xCodePredWeightTable :: "sps \<Rightarrow> pps \<Rightarrow> nat \<Rightarrow> int \<times> int \<Rightarrow> wp_table \<Rightarrow> obs \<Rightarrow> obs option" where
  "xCodePredWeightTable x p sliceType = (\<lambda>(num0, num1) tab s.
     if sliceType = P_TYPE \<and> useWeightPred p \<or> sliceType = B_TYPE \<and> useWeightedBiPred p then do {
       let bChroma = isChromaEnabled (m_chromaFormatIdc x);
       s \<leftarrow> code_weight_list x tab False 0 (nat num0) s;
       s \<leftarrow> (if sliceType = B_TYPE then code_weight_list x tab (num0 > 0) 1 (nat num1) s else Some s);
       check_not (signalled_flags bChroma tab 0 (nat num0)
         + (if sliceType = B_TYPE then signalled_flags bChroma tab 1 (nat num1) else 0) > 24);
       Some s
     } else Some s)"

section \<open>Parser\<close>

definition parse_denoms :: "bool \<Rightarrow> ibs \<Rightarrow> ((nat \<times> nat) \<times> ibs) option" where
  "parse_denoms bChroma s = do {
     (luma, s) \<leftarrow> xReadUvlc s;
     check_not (luma > 7);
     if bChroma then do {
       (iDeltaDenom, s) \<leftarrow> xReadSvlc s;
       check_not (iDeltaDenom + int luma < 0);
       check_not (iDeltaDenom + int luma > 7);
       Some ((luma, to_u32 (iDeltaDenom + int luma)), s)
     } else Some ((luma, 0), s) }"

definition parse_luma_flag :: "bool \<Rightarrow> nat \<Rightarrow> nat \<Rightarrow> nat \<Rightarrow> nat \<Rightarrow> wp_table \<times> nat \<Rightarrow> ibs \<Rightarrow> ((wp_table \<times> nat) \<times> ibs) option" where
  "parse_luma_flag bChroma luma chroma e i = (\<lambda>(tab, sent) s. do {
     (y, cb, cr) \<leftarrow> getWpScaling tab e (int i);
     let (cb, cr) = (if bChroma then (cb\<lparr>uiLog2WeightDenom := chroma\<rparr>, cr\<lparr>uiLog2WeightDenom := chroma\<rparr>) else (cb, cr));
     (uiCode, s) \<leftarrow> xReadFlag s;
     tab \<leftarrow> setWpScaling e (int i) (y\<lparr>uiLog2WeightDenom := luma, bPresentFlag := (uiCode = 1)\<rparr>, cb, cr) tab;
     Some ((tab, u32 (sent + of_bool (uiCode = 1))), s) })"

definition parse_chroma_flag :: "nat \<Rightarrow> nat \<Rightarrow> wp_table \<times> nat \<Rightarrow> ibs \<Rightarrow> ((wp_table \<times> nat) \<times> ibs) option" where
  "parse_chroma_flag e i = (\<lambda>(tab, sent) s. do {
     (y, cb, cr) \<leftarrow> getWpScaling tab e (int i);
     (uiCode, s) \<leftarrow> xReadFlag s;
     tab \<leftarrow> setWpScaling e (int i) (y, cb\<lparr>bPresentFlag := (uiCode = 1)\<rparr>, cr\<lparr>bPresentFlag := (uiCode = 1)\<rparr>) tab;
     Some ((tab, u32 (sent + 2 * of_bool (uiCode = 1))), s) })"

definition clip_offset :: "int \<Rightarrow> int \<Rightarrow> int" where
  "clip_offset rng v = min (max (- rng) v) (rng - 1)"

definition parse_luma_weight :: "sps \<Rightarrow> wp_param \<Rightarrow> ibs \<Rightarrow> (wp_param \<times> ibs) option" where
  "parse_luma_weight x wp s = do {
     m \<leftarrow> one_shl (uiLog2WeightDenom wp);
     if bPresentFlag wp then do {
       (iDeltaWeight, s) \<leftarrow> xReadSvlc s;
       check_not (iDeltaWeight < - 128);
       check_not (iDeltaWeight > 127);
       (offset, s) \<leftarrow> xReadSvlc s;
       rng \<leftarrow> offset_range (highPrecisionOffsetsEnabledFlag (m_spsRangeExtension x)) (m_bitDepthLuma x);
       check_not (offset < - rng);
       check_not (offset \<ge> rng);
       Some (wp\<lparr>iWeight := iDeltaWeight + m, iOffset := offset\<rparr>, s)
     } else Some (wp\<lparr>iWeight := m, iOffset := 0\<rparr>, s) }"

definition parse_chroma_weight :: "sps \<Rightarrow> wp_param \<Rightarrow> ibs \<Rightarrow> (wp_param \<times> ibs) option" where
  "parse_chroma_weight x wp s = do {
     rng \<leftarrow> offset_range (highPrecisionOffsetsEnabledFlag (m_spsRangeExtension x)) (m_bitDepthChroma x);
     (iDeltaWeight, s) \<leftarrow> xReadSvlc s;
     check_not (iDeltaWeight < - 128);
     check_not (iDeltaWeight > 127);
     m \<leftarrow> one_shl (uiLog2WeightDenom wp);
     let w = iDeltaWeight + m;
     (iDeltaChroma, s) \<leftarrow> xReadSvlc s;
     check_not (iDeltaChroma < - 4 * rng);
     check_not (iDeltaChroma \<ge> 4 * rng);
     scaled \<leftarrow> i32 (rng * w);
     pred \<leftarrow> i32 (rng - drop_bit (uiLog2WeightDenom wp) scaled);
     v \<leftarrow> i32 (iDeltaChroma + pred);
     Some (wp\<lparr>iWeight := w, iOffset := clip_offset rng v\<rparr>, s) }"

definition no_weight :: "wp_param \<Rightarrow> wp_param option" where
  "no_weight wp = do { m \<leftarrow> one_shl (uiLog2WeightDenom wp); Some (wp\<lparr>iWeight := m, iOffset := 0\<rparr>) }"

definition parse_weights :: "sps \<Rightarrow> nat \<Rightarrow> nat \<Rightarrow> wp_table \<Rightarrow> ibs \<Rightarrow> (wp_table \<times> ibs) option" where
  "parse_weights x e i tab s = do {
     (y, cb, cr) \<leftarrow> getWpScaling tab e (int i);
     (y, s) \<leftarrow> parse_luma_weight x y s;
     ((cb, cr), s) \<leftarrow> (if isChromaEnabled (m_chromaFormatIdc x) then
         if bPresentFlag cb then do {
           (cb, s) \<leftarrow> parse_chroma_weight x cb s;
           (cr, s) \<leftarrow> parse_chroma_weight x cr s;
           Some ((cb, cr), s)
         } else do { cb \<leftarrow> no_weight cb; cr \<leftarrow> no_weight cr; Some ((cb, cr), s) }
       else Some ((cb, cr), s));
     tab \<leftarrow> setWpScaling e (int i) (y, cb, cr) tab;
     Some (tab, s) }"

definition clear_flags :: "nat \<Rightarrow> nat \<Rightarrow> wp_table \<Rightarrow> wp_table option" where
  "clear_flags e i tab = do {
     (y, cb, cr) \<leftarrow> getWpScaling tab e (int i);
     setWpScaling e (int i) (y\<lparr>bPresentFlag := False\<rparr>, cb\<lparr>bPresentFlag := False\<rparr>, cr\<lparr>bPresentFlag := False\<rparr>) tab }"

definition parse_weight_list :: "sps \<Rightarrow> nat \<Rightarrow> nat \<Rightarrow> nat \<Rightarrow> nat \<Rightarrow> wp_table \<times> nat \<Rightarrow> ibs \<Rightarrow> ((wp_table \<times> nat) \<times> ibs) option" where
  "parse_weight_list x luma chroma e n = (\<lambda>(tab, sent) s. do {
     let bChroma = isChromaEnabled (m_chromaFormatIdc x);
     (st, s) \<leftarrow> read_loop (parse_luma_flag bChroma luma chroma e) [0..<n] (tab, sent) s;
     ((tab, sent), s) \<leftarrow> (if bChroma then read_loop (parse_chroma_flag e) [0..<n] st s else Some (st, s));
     (tab, s) \<leftarrow> read_loop (parse_weights x e) [0..<n] tab s;
     tab \<leftarrow> for_loop (clear_flags e) [n..<MAX_NUM_REF] tab;
     Some ((tab, sent), s) })"

definition parsePredWeightTable :: "sps \<Rightarrow> nat \<Rightarrow> int \<times> int \<Rightarrow> wp_table \<Rightarrow> ibs \<Rightarrow> (wp_table \<times> ibs) option" where
  "parsePredWeightTable x sliceType = (\<lambda>(num0, num1) tab s. do {
     ((luma, chroma), s) \<leftarrow> parse_denoms (isChromaEnabled (m_chromaFormatIdc x)) s;
     (st, s) \<leftarrow> parse_weight_list x luma chroma 0 (nat num0) (tab, 0) s;
     ((tab, sent), s) \<leftarrow> (if sliceType = B_TYPE then parse_weight_list x luma chroma 1 (nat num1) st s else Some (st, s));
     check_not (sent > 24);
     Some (tab, s) })"

section \<open>Rows under construction\<close>

text \<open>Row \<open>e\<close> of the table after \<open>f\<close> has been applied to its first \<open>k\<close> entries.\<close>

definition upd_row :: "nat \<Rightarrow> (nat \<Rightarrow> 'a \<Rightarrow> 'a) \<Rightarrow> nat \<Rightarrow> 'a list list \<Rightarrow> 'a list list" where
  "upd_row e f k tab = tab[e := map (\<lambda>i. if i < k then f i (tab ! e ! i) else tab ! e ! i) [0..<length (tab ! e)]]"

definition has_entry :: "'a list list \<Rightarrow> nat \<Rightarrow> nat \<Rightarrow> bool" where
  "has_entry tab e i \<longleftrightarrow> e < 2 \<and> e < length tab \<and> i < length (tab ! e)"

lemma upd_row_0 [simp]: "e < length tab \<Longrightarrow> upd_row e f 0 tab = tab"
  by (simp add: upd_row_def map_nth)

lemma length_upd_row [simp]: "length (upd_row e f k tab) = length tab" "length (upd_row e f k tab ! d) = length (tab ! d)"
  by (simp add: upd_row_def) (cases "d = e"; cases "e < length tab"; simp add: upd_row_def list_update_beyond)

lemma has_entry_upd [simp]: "has_entry (upd_row e f k tab) d i = has_entry tab d i"
  by (simp add: has_entry_def)

lemma upd_row_nth: "has_entry tab e i \<Longrightarrow> upd_row e f k tab ! e ! i = (if i < k then f i (tab ! e ! i) else tab ! e ! i)"
  by (simp add: has_entry_def upd_row_def)

lemma upd_row_other [simp]: "d \<noteq> e \<Longrightarrow> upd_row e f k tab ! d = tab ! d"
  by (simp add: upd_row_def)

lemma table_entry: "has_entry tab e i \<Longrightarrow> getWpScaling tab e (int i) = Some (tab ! e ! i)"
  by (simp add: getWpScaling_def has_entry_def)

lemma get_upd_row: "has_entry tab e i \<Longrightarrow> getWpScaling (upd_row e f i tab) e (int i) = Some (tab ! e ! i)"
  by (simp add: table_entry upd_row_nth)

lemma set_upd_row:
  assumes "has_entry tab e i" "v = f i (tab ! e ! i)"
  shows "setWpScaling e (int i) v (upd_row e f i tab) = Some (upd_row e f (Suc i) tab)"
proof -
  have "(map (\<lambda>j. if j < i then f j (tab ! e ! j) else tab ! e ! j) [0..<length (tab ! e)])[i := v]
      = map (\<lambda>j. if j < Suc i then f j (tab ! e ! j) else tab ! e ! j) [0..<length (tab ! e)]"
    by (rule nth_equalityI) (use assms in \<open>auto simp: nth_list_update less_Suc_eq\<close>)
  then show ?thesis using assms(1) by (simp add: setWpScaling_def upd_row_def has_entry_def)
qed

text \<open>Two passes over the same entries.\<close>

lemma upd_row_comp: "upd_row e g k (upd_row e f k tab) = upd_row e (\<lambda>i. g i \<circ> f i) k tab"
proof (cases "e < length tab")
  case True
  have eq: "map (\<lambda>i. if i < k then g i (upd_row e f k tab ! e ! i) else upd_row e f k tab ! e ! i) [0..<length (tab ! e)]
      = map (\<lambda>i. if i < k then (g i \<circ> f i) (tab ! e ! i) else tab ! e ! i) [0..<length (tab ! e)]"
    by (rule nth_equalityI) (use True in \<open>auto simp: upd_row_def\<close>)
  show ?thesis unfolding upd_row_def [of e g] upd_row_def [of e "\<lambda>i. g i \<circ> f i"] length_upd_row eq
    by (simp add: upd_row_def del: map_eq_conv)
qed (simp add: upd_row_def list_update_beyond)

section \<open>What arrives\<close>

text \<open>The passes of the parser over a list, for the entries \<open>src\<close> that the writer had.\<close>

definition luma_pass :: "bool \<Rightarrow> nat \<Rightarrow> nat \<Rightarrow> (nat \<Rightarrow> wp_entry) \<Rightarrow> nat \<Rightarrow> wp_entry \<Rightarrow> wp_entry" where
  "luma_pass bChroma luma chroma src i = (\<lambda>(y, cb, cr). (y\<lparr>uiLog2WeightDenom := luma, bPresentFlag := bPresentFlag (fst (src i))\<rparr>,
     if bChroma then cb\<lparr>uiLog2WeightDenom := chroma\<rparr> else cb, if bChroma then cr\<lparr>uiLog2WeightDenom := chroma\<rparr> else cr))"

definition chroma_pass :: "(nat \<Rightarrow> wp_entry) \<Rightarrow> nat \<Rightarrow> wp_entry \<Rightarrow> wp_entry" where
  "chroma_pass src i = (\<lambda>(y, cb, cr). (y, cb\<lparr>bPresentFlag := bPresentFlag (fst (snd (src i)))\<rparr>, cr\<lparr>bPresentFlag := bPresentFlag (fst (snd (src i)))\<rparr>))"

definition weight_pass :: "bool \<Rightarrow> wp_param \<Rightarrow> wp_param \<Rightarrow> wp_param" where
  "weight_pass present from wp = (if present then wp\<lparr>iWeight := iWeight from, iOffset := iOffset from\<rparr>
     else wp\<lparr>iWeight := 2 ^ uiLog2WeightDenom wp, iOffset := 0\<rparr>)"

definition weights_pass :: "bool \<Rightarrow> (nat \<Rightarrow> wp_entry) \<Rightarrow> nat \<Rightarrow> wp_entry \<Rightarrow> wp_entry" where
  "weights_pass bChroma src i = (\<lambda>(y, cb, cr). let (y', cb', cr') = src i in
     (weight_pass (bPresentFlag y) y' y, if bChroma then weight_pass (bPresentFlag cb) cb' cb else cb,
      if bChroma then weight_pass (bPresentFlag cb) cr' cr else cr))"

definition clear_pass :: "nat \<Rightarrow> nat \<Rightarrow> wp_entry \<Rightarrow> wp_entry" where
  "clear_pass n i = (\<lambda>(y, cb, cr). if i < n then (y, cb, cr)
     else (y\<lparr>bPresentFlag := False\<rparr>, cb\<lparr>bPresentFlag := False\<rparr>, cr\<lparr>bPresentFlag := False\<rparr>))"

text \<open>The weights and offsets that the syntax can carry.\<close>

definition weight_fits :: "nat \<Rightarrow> int \<Rightarrow> wp_param \<Rightarrow> bool" where
  "weight_fits denom rng wp \<longleftrightarrow> - 128 \<le> iWeight wp - 2 ^ denom \<and> iWeight wp - 2 ^ denom \<le> 127
     \<and> - rng \<le> iOffset wp \<and> iOffset wp < rng"

definition chroma_pred :: "nat \<Rightarrow> int \<Rightarrow> wp_param \<Rightarrow> int" where
  "chroma_pred denom rng wp = rng - drop_bit denom (rng * iWeight wp)"

definition chroma_fits :: "nat \<Rightarrow> int \<Rightarrow> wp_param \<Rightarrow> bool" where
  "chroma_fits denom rng wp \<longleftrightarrow> weight_fits denom rng wp
     \<and> - 4 * rng \<le> iOffset wp - chroma_pred denom rng wp \<and> iOffset wp - chroma_pred denom rng wp < 4 * rng"

definition range_of :: "bool \<Rightarrow> int \<Rightarrow> int" where
  "range_of high bitDepth = (if high then 2 ^ nat (bitDepth - 1) else 128)"

lemma offset_range_law: "8 \<le> d \<Longrightarrow> d \<le> 16 \<Longrightarrow> offset_range high d = Some (range_of high d) \<and> 128 \<le> range_of high d \<and> range_of high d \<le> 2 ^ 15"
proof -
  assume d: "8 \<le> d" "d \<le> 16"
  define n where "n = nat d - 1"
  have n: "7 \<le> n" "n \<le> 15" "nat d = Suc n" "nat (d - 1) = n" using d by (auto simp: n_def)
  have "(2 :: int) ^ 7 \<le> 2 ^ n" "(2 :: int) ^ n \<le> 2 ^ 15" using n by (intro power_increasing; simp)+
  then show ?thesis using n d by (auto simp: offset_range_def range_of_def one_shl_def)
qed

definition entry_ok :: "sps \<Rightarrow> nat \<Rightarrow> nat \<Rightarrow> wp_entry \<Rightarrow> bool" where
  "entry_ok x luma chroma = (\<lambda>(y, cb, cr). let high = highPrecisionOffsetsEnabledFlag (m_spsRangeExtension x) in
     uiLog2WeightDenom y = luma \<and> (bPresentFlag y \<longrightarrow> weight_fits luma (range_of high (m_bitDepthLuma x)) y)
     \<and> (isChromaEnabled (m_chromaFormatIdc x) \<longrightarrow> uiLog2WeightDenom cb = chroma \<and> uiLog2WeightDenom cr = chroma
       \<and> bPresentFlag cr = bPresentFlag cb
       \<and> (bPresentFlag cb \<longrightarrow> chroma_fits chroma (range_of high (m_bitDepthChroma x)) cb \<and> chroma_fits chroma (range_of high (m_bitDepthChroma x)) cr)))"

section \<open>The passes\<close>

lemma of_bool_Suc_0 [simp]: "of_bool b = Suc 0 \<longleftrightarrow> b"
  by (cases b) simp_all

lemma count_flags_simps [simp]: "count_flags p 0 = 0" "count_flags p (Suc n) = count_flags p n + of_bool (p n)"
  by (simp_all add: count_flags_def)

lemma count_flags_le: "count_flags p n \<le> n"
  unfolding count_flags_def by (metis length_filter_le length_upt diff_zero)

lemma codes_luma_flags:
  assumes tab: "\<And>i. i < n \<Longrightarrow> has_entry tab e i" and tab0: "\<And>i. i < n \<Longrightarrow> has_entry tab0 e i" "e < length tab0"
    and sent: "sent + n < 2 ^ 32" and coded: "0 < n \<longrightarrow> bDenomCoded"
  shows "vlc.codes (for_loop (code_luma_flag bChroma bDenomCoded tab e) [0..<n])
    (read_loop (parse_luma_flag bChroma luma chroma e) [0..<n] (tab0, sent))
    (upd_row e (luma_pass bChroma luma chroma (\<lambda>i. tab ! e ! i)) n tab0, sent + count_flags (\<lambda>i. bPresentFlag (fst (tab ! e ! i))) n)"
proof -
  let ?f = "luma_pass bChroma luma chroma (\<lambda>i. tab ! e ! i)"
  let ?t = "\<lambda>k. sent + count_flags (\<lambda>i. bPresentFlag (fst (tab ! e ! i))) k"
  have b: "?t k \<le> sent + k" for k by (simp add: count_flags_le)
  have "vlc.codes (for_loop (code_luma_flag bChroma bDenomCoded tab e) [0..<n])
    (read_loop (parse_luma_flag bChroma luma chroma e) [0..<n] (upd_row e ?f 0 tab0, ?t 0)) (upd_row e ?f n tab0, ?t n)"
  proof (rule vlc.codes_read_upt [where X = "\<lambda>k. (upd_row e ?f k tab0, ?t k)"])
    fix i assume i: "i < n"
    obtain y cb cr where ent: "tab0 ! e ! i = (y, cb, cr)" by (metis prod_cases3)
    have t: "u32 (?t i + of_bool (bPresentFlag (fst (tab ! e ! i)))) = ?t (Suc i)"
      using b [of "Suc i"] i sent by (subst u32_less) auto
    have w: "code_luma_flag bChroma bDenomCoded tab e i = xWriteFlag (of_bool (bPresentFlag (fst (tab ! e ! i))))"
      using coded i by (auto simp: code_luma_flag_def fun_eq_iff table_entry [OF tab [OF i]])
    have r: "parse_luma_flag bChroma luma chroma e i (upd_row e ?f i tab0, ?t i) = (\<lambda>s. xReadFlag s \<bind> (\<lambda>(uiCode, s).
        setWpScaling e (int i) (y\<lparr>uiLog2WeightDenom := luma, bPresentFlag := (uiCode = 1)\<rparr>,
          if bChroma then cb\<lparr>uiLog2WeightDenom := chroma\<rparr> else cb, if bChroma then cr\<lparr>uiLog2WeightDenom := chroma\<rparr> else cr) (upd_row e ?f i tab0)
        \<bind> (\<lambda>tab. Some ((tab, u32 (?t i + of_bool (uiCode = 1))), s))))"
      by (simp add: parse_luma_flag_def fun_eq_iff get_upd_row [OF tab0(1) [OF i]] ent)
    show "vlc.codes (code_luma_flag bChroma bDenomCoded tab e i) (parse_luma_flag bChroma luma chroma e i (upd_row e ?f i tab0, ?t i))
        (upd_row e ?f (Suc i) tab0, ?t (Suc i))"
      unfolding w r
      by (rule vlc.codes_bind_end [OF codes_flag_bool]) (subst set_upd_row [OF tab0(1) [OF i]];
        use t in \<open>simp add: luma_pass_def ent vlc.codes_return split del: split_of_bool\<close>)
  qed
  then show ?thesis using tab0(2) by simp
qed

lemma luma_flags_first:
  "0 < n \<Longrightarrow> has_entry tab e 0 \<Longrightarrow> for_loop (code_luma_flag bChroma False tab e) [0..<n] s
    = code_denoms bChroma (tab ! e ! 0) s \<bind> for_loop (code_luma_flag bChroma True tab e) [0..<n]"
proof -
  assume a: "0 < n" "has_entry tab e 0"
  have u: "[0..<n] = 0 # [1..<n]" using a(1) by (simp add: upt_conv_Cons)
  have "for_loop (code_luma_flag bChroma False tab e) [1..<n] = for_loop (code_luma_flag bChroma True tab e) [1..<n]"
  proof -
    have "for_loop (code_luma_flag bChroma False tab e) is t = for_loop (code_luma_flag bChroma True tab e) is t" if "0 \<notin> set is" for "is" t
      using that by (induction "is" arbitrary: t) (auto simp: code_luma_flag_def split: bind_splits)
    then show ?thesis by (intro ext) simp
  qed
  moreover have "code_luma_flag bChroma False tab e 0 s = code_denoms bChroma (tab ! e ! 0) s \<bind> code_luma_flag bChroma True tab e 0"
  proof -
    have "code_luma_flag bChroma True tab e 0 = xWriteFlag (of_bool (bPresentFlag (fst (tab ! e ! 0))))"
      using table_entry [OF a(2)] by (simp add: code_luma_flag_def fun_eq_iff)
    then show ?thesis using table_entry [OF a(2)] by (simp add: code_luma_flag_def)
  qed
  ultimately show ?thesis unfolding u for_loop.simps by (simp del: upt_Suc)
qed

lemma to_i32_sub32: "a < 2 ^ 31 \<Longrightarrow> b < 2 ^ 31 \<Longrightarrow> to_i32 (sub32 a b) = int a - int b"
proof (cases "b \<le> a")
  case False
  assume a: "a < 2 ^ 31" "b < 2 ^ 31"
  then have "sub32 a b = a + (2 ^ 32 - b)" using False unfolding sub32_def by (subst u32_less) auto
  then show ?thesis using a False by (simp add: to_i32_def)
qed (simp add: sub32_ge)

lemma codes_denoms:
  assumes "uiLog2WeightDenom y = luma" "luma \<le> 7" "bChroma \<Longrightarrow> uiLog2WeightDenom cb = chroma \<and> uiLog2WeightDenom cr = chroma \<and> chroma \<le> 7"
  shows "vlc.codes (code_denoms bChroma (y, cb, cr)) (parse_denoms bChroma) (luma, if bChroma then chroma else 0)"
proof (cases bChroma)
  case True
  have d: "to_i32 (sub32 chroma luma) = int chroma - int luma"
    by (rule to_i32_sub32) (use assms True in simp_all)
  have u: "to_u32 (int chroma - int luma + int luma) = chroma" using assms(3) True by simp
  have w: "code_denoms bChroma (y, cb, cr) = (\<lambda>s. xWriteUvlc luma s \<bind> xWriteSvlc (int chroma - int luma))"
    using assms True d by (simp add: code_denoms_def fun_eq_iff)
  have r: "parse_denoms bChroma = (\<lambda>s. xReadUvlc s \<bind> (\<lambda>(luma, s). check_not (luma > 7) \<bind> (\<lambda>_. xReadSvlc s \<bind> (\<lambda>(d, s).
      check_not (d + int luma < 0) \<bind> (\<lambda>_. check_not (d + int luma > 7) \<bind> (\<lambda>_. Some ((luma, to_u32 (d + int luma)), s)))))))"
    using True by (simp add: parse_denoms_def fun_eq_iff)
  show ?thesis unfolding w r
    by (rule step_uvlc, use assms in simp) (use assms True u in \<open>(intro vlc.codes_check_reader vlc.codes_bind_end [OF codes_svlc]); auto simp: vlc.codes_return\<close>)
next
  case False
  have w: "code_denoms bChroma (y, cb, cr) = xWriteUvlc luma" using assms False by (simp add: code_denoms_def fun_eq_iff)
  have r: "parse_denoms bChroma = (\<lambda>s. xReadUvlc s \<bind> (\<lambda>(luma, s). check_not (luma > 7) \<bind> (\<lambda>_. Some ((luma, 0), s))))"
    using False by (simp add: parse_denoms_def fun_eq_iff)
  show ?thesis unfolding w r using False assms by (intro vlc.codes_bind_end [OF codes_uvlc]) (simp_all add: vlc.codes_return)
qed

lemma codes_chroma_flags:
  assumes tab: "\<And>i. i < n \<Longrightarrow> has_entry tab e i \<and> bPresentFlag (snd (snd (tab ! e ! i))) = bPresentFlag (fst (snd (tab ! e ! i)))"
    and tab0: "\<And>i. i < n \<Longrightarrow> has_entry tab0 e i" "e < length tab0" and cnt: "sent + 2 * n < 2 ^ 32"
  shows "vlc.codes (for_loop (code_chroma_flag tab e) [0..<n]) (read_loop (parse_chroma_flag e) [0..<n] (tab0, sent))
    (upd_row e (chroma_pass (\<lambda>i. tab ! e ! i)) n tab0, sent + 2 * count_flags (\<lambda>i. bPresentFlag (fst (snd (tab ! e ! i)))) n)"
proof -
  let ?f = "chroma_pass (\<lambda>i. tab ! e ! i)"
  let ?p = "\<lambda>i. bPresentFlag (fst (snd (tab ! e ! i)))"
  let ?t = "\<lambda>k. sent + 2 * count_flags ?p k"
  have b: "?t k \<le> sent + 2 * k" for k using count_flags_le [of ?p k] by simp
  have "vlc.codes (for_loop (code_chroma_flag tab e) [0..<n])
    (read_loop (parse_chroma_flag e) [0..<n] (upd_row e ?f 0 tab0, ?t 0)) (upd_row e ?f n tab0, ?t n)"
  proof (rule vlc.codes_read_upt [where X = "\<lambda>k. (upd_row e ?f k tab0, ?t k)"])
    fix i assume i: "i < n"
    obtain y cb cr where ent: "tab0 ! e ! i = (y, cb, cr)" by (metis prod_cases3)
    have t: "u32 (?t i + 2 * of_bool (?p i)) = ?t (Suc i)" using b [of "Suc i"] i cnt by (subst u32_less) auto
    have w: "code_chroma_flag tab e i = xWriteFlag (of_bool (?p i))"
      using tab [OF i] by (auto simp: code_chroma_flag_def fun_eq_iff table_entry split: prod.split)
    have r: "parse_chroma_flag e i (upd_row e ?f i tab0, ?t i) = (\<lambda>s. xReadFlag s \<bind> (\<lambda>(uiCode, s).
        setWpScaling e (int i) (y, cb\<lparr>bPresentFlag := (uiCode = 1)\<rparr>, cr\<lparr>bPresentFlag := (uiCode = 1)\<rparr>) (upd_row e ?f i tab0)
        \<bind> (\<lambda>tab. Some ((tab, u32 (?t i + 2 * of_bool (uiCode = 1))), s))))"
      by (simp add: parse_chroma_flag_def fun_eq_iff get_upd_row [OF tab0(1) [OF i]] ent)
    show "vlc.codes (code_chroma_flag tab e i) (parse_chroma_flag e i (upd_row e ?f i tab0, ?t i)) (upd_row e ?f (Suc i) tab0, ?t (Suc i))"
      unfolding w r
      by (rule vlc.codes_bind_end [OF codes_flag_bool]) (subst set_upd_row [OF tab0(1) [OF i]];
        use t in \<open>simp add: chroma_pass_def ent vlc.codes_return split del: split_of_bool\<close>)
  qed
  then show ?thesis using tab0(2) by simp
qed

lemma codes_luma_weight:
  assumes d: "luma \<le> 7" "uiLog2WeightDenom y = luma" "uiLog2WeightDenom y0 = luma" and p: "bPresentFlag y = bPresentFlag y0"
    and bd: "8 \<le> m_bitDepthLuma x" "m_bitDepthLuma x \<le> 16"
    and f: "bPresentFlag y \<Longrightarrow> weight_fits luma (range_of (highPrecisionOffsetsEnabledFlag (m_spsRangeExtension x)) (m_bitDepthLuma x)) y"
  shows "vlc.codes (\<lambda>s. if bPresentFlag y then do {
         m \<leftarrow> one_shl (uiLog2WeightDenom y);
         d \<leftarrow> i32 (iWeight y - m);
         s \<leftarrow> xWriteSvlc d s;
         xWriteSvlc (iOffset y) s
       } else Some s) (parse_luma_weight x y0) (weight_pass (bPresentFlag y0) y y0)"
proof -
  let ?R = "range_of (highPrecisionOffsetsEnabledFlag (m_spsRangeExtension x)) (m_bitDepthLuma x)"
  have one: "one_shl luma = Some (2 ^ luma)" using d(1) by (simp add: one_shl_def)
  have pw: "(2 :: int) ^ luma \<le> 2 ^ 7" using d(1) by (intro power_increasing) simp_all
  note R = offset_range_law [OF bd, of "highPrecisionOffsetsEnabledFlag (m_spsRangeExtension x)"]
  show ?thesis
  proof (cases "bPresentFlag y")
    case True
    have w: "weight_fits luma ?R y" by (rule f [OF True])
    then have i: "i32 (iWeight y - 2 ^ luma) = Some (iWeight y - 2 ^ luma)" by (simp add: weight_fits_def i32_def)
    have r: "parse_luma_weight x y0 = (\<lambda>s. xReadSvlc s \<bind> (\<lambda>(dw, s). check_not (dw < - 128) \<bind> (\<lambda>_. check_not (dw > 127) \<bind> (\<lambda>_.
        xReadSvlc s \<bind> (\<lambda>(off, s). check_not (off < - ?R) \<bind> (\<lambda>_. check_not (off \<ge> ?R) \<bind> (\<lambda>_.
        Some (y0\<lparr>iWeight := dw + 2 ^ luma, iOffset := off\<rparr>, s))))))))"
      using True p d R by (simp add: parse_luma_weight_def one fun_eq_iff)
    have o: "\<bar>iOffset y\<bar> < 2 ^ 30" using w R by (auto simp: weight_fits_def)
    show ?thesis unfolding r using True d w
      by (simp add: one i, intro step_svlc vlc.codes_check_reader vlc.codes_bind_end [OF codes_svlc])
        (use w o p in \<open>auto simp: weight_fits_def weight_pass_def vlc.codes_return\<close>)
  next
    case False
    then have "parse_luma_weight x y0 = (\<lambda>s. Some (y0\<lparr>iWeight := 2 ^ luma, iOffset := 0\<rparr>, s))"
      using p d by (simp add: parse_luma_weight_def one fun_eq_iff)
    then show ?thesis using False p d by (simp add: weight_pass_def vlc.codes_return)
  qed
qed

lemma codes_chroma_weight:
  assumes d: "chroma \<le> 7" "uiLog2WeightDenom c = chroma" "uiLog2WeightDenom c0 = chroma"
    and bd: "8 \<le> m_bitDepthChroma x" "m_bitDepthChroma x \<le> 16"
    and f: "chroma_fits chroma (range_of (highPrecisionOffsetsEnabledFlag (m_spsRangeExtension x)) (m_bitDepthChroma x)) c"
  shows "vlc.codes (code_chroma_weight x chroma c) (parse_chroma_weight x c0) (c0\<lparr>iWeight := iWeight c, iOffset := iOffset c\<rparr>)"
proof -
  let ?R = "range_of (highPrecisionOffsetsEnabledFlag (m_spsRangeExtension x)) (m_bitDepthChroma x)"
  let ?P = "chroma_pred chroma ?R c"
  have one: "one_shl chroma = Some (2 ^ chroma)" using d(1) by (simp add: one_shl_def)
  have pw: "(2 :: int) ^ chroma \<le> 128" using power_increasing [of chroma 7 "2 :: int"] d(1) by simp
  have pw0: "(0 :: int) < 2 ^ chroma" by simp
  note R = offset_range_law [OF bd, of "highPrecisionOffsetsEnabledFlag (m_spsRangeExtension x)"]
  have w: "- 128 \<le> iWeight c - 2 ^ chroma" "iWeight c - 2 ^ chroma \<le> 127" "- ?R \<le> iOffset c" "iOffset c < ?R"
    "- 4 * ?R \<le> iOffset c - ?P" "iOffset c - ?P < 4 * ?R" using f by (simp_all add: chroma_fits_def weight_fits_def)
  have wb: "\<bar>iWeight c\<bar> \<le> 255" using w(1,2) pw pw0 by linarith
  have "\<bar>?R * iWeight c\<bar> = ?R * \<bar>iWeight c\<bar>" using R by (simp add: abs_mult)
  also have "\<dots> \<le> 2 ^ 15 * 255" using R wb by (intro mult_mono) auto
  finally have sc: "\<bar>?R * iWeight c\<bar> \<le> 8355840" by simp
  have db: "\<bar>drop_bit chroma (?R * iWeight c)\<bar> \<le> 8355840"
  proof -
    have "drop_bit chroma v \<le> 8355840 \<and> - 8355840 \<le> drop_bit chroma v" if v: "\<bar>v\<bar> \<le> 8355840" for v :: int
    proof -
      have "v div 2 ^ chroma \<le> 8355840 div 2 ^ chroma" "- 8355840 div 2 ^ chroma \<le> v div 2 ^ chroma" using v by (auto intro!: zdiv_mono1)
      moreover have "(8355840 :: int) div 2 ^ chroma \<le> 8355840" using zdiv_mono2 [of 8355840 1 "2 ^ chroma"] by simp
      moreover have "- 8355840 \<le> (- 8355840 :: int) div 2 ^ chroma" using zdiv_mono2_neg [of "- 8355840" 1 "2 ^ chroma"] by simp
      ultimately show ?thesis by (simp add: drop_bit_eq_div)
    qed
    from this [OF sc] show ?thesis by (simp add: abs_le_iff)
  qed
  have i: "i32 (iWeight c - 2 ^ chroma) = Some (iWeight c - 2 ^ chroma)" "i32 (?R * iWeight c) = Some (?R * iWeight c)"
    "i32 (?R - drop_bit chroma (?R * iWeight c)) = Some ?P" "i32 (iOffset c - ?P) = Some (iOffset c - ?P)" "i32 (iOffset c) = Some (iOffset c)"
    using w sc db R by (auto simp: i32_def chroma_pred_def abs_le_iff)
  have cl: "clip_offset ?R (iOffset c) = iOffset c" using w by (simp add: clip_offset_def)
  have r: "parse_chroma_weight x c0 = (\<lambda>s. xReadSvlc s \<bind> (\<lambda>(dw, s). check_not (dw < - 128) \<bind> (\<lambda>_. check_not (dw > 127) \<bind> (\<lambda>_.
      xReadSvlc s \<bind> (\<lambda>(dc, s). check_not (dc < - 4 * ?R) \<bind> (\<lambda>_. check_not (dc \<ge> 4 * ?R) \<bind> (\<lambda>_.
      i32 (?R * (dw + 2 ^ chroma)) \<bind> (\<lambda>scaled. i32 (?R - drop_bit chroma scaled) \<bind> (\<lambda>pred. i32 (dc + pred) \<bind> (\<lambda>v.
      Some (c0\<lparr>iWeight := dw + 2 ^ chroma, iOffset := clip_offset ?R v\<rparr>, s)))))))))))"
    using d R by (simp add: parse_chroma_weight_def one fun_eq_iff Let_def)
  have wr: "code_chroma_weight x chroma c = (\<lambda>s. xWriteSvlc (iWeight c - 2 ^ chroma) s \<bind> xWriteSvlc (iOffset c - ?P))"
    using d R by (simp add: code_chroma_weight_def one fun_eq_iff i)
  have l: "\<bar>iOffset c - ?P\<bar> < 2 ^ 30" using w R by (auto simp: abs_less_iff)
  show ?thesis unfolding r wr
    by (intro step_svlc vlc.codes_check_reader vlc.codes_bind_end [OF codes_svlc]) (use w l R in \<open>auto simp: i cl vlc.codes_return\<close>)
qed

lemma codes_weights:
  assumes tab: "\<And>i. i < n \<Longrightarrow> has_entry tab e i \<and> entry_ok x luma chroma (tab ! e ! i)"
    and tab0: "\<And>i. i < n \<Longrightarrow> has_entry tab0 e i" "e < length tab0"
    and st: "\<And>i. i < n \<Longrightarrow> uiLog2WeightDenom (fst (tab0 ! e ! i)) = luma \<and> bPresentFlag (fst (tab0 ! e ! i)) = bPresentFlag (fst (tab ! e ! i))
      \<and> (isChromaEnabled (m_chromaFormatIdc x) \<longrightarrow> uiLog2WeightDenom (fst (snd (tab0 ! e ! i))) = chroma
        \<and> uiLog2WeightDenom (snd (snd (tab0 ! e ! i))) = chroma \<and> bPresentFlag (fst (snd (tab0 ! e ! i))) = bPresentFlag (fst (snd (tab ! e ! i))))"
    and d: "luma \<le> 7" "chroma \<le> 7"
    and bd: "8 \<le> m_bitDepthLuma x" "m_bitDepthLuma x \<le> 16" "8 \<le> m_bitDepthChroma x" "m_bitDepthChroma x \<le> 16"
  shows "vlc.codes (for_loop (code_weights x tab e) [0..<n]) (read_loop (parse_weights x e) [0..<n] tab0)
    (upd_row e (weights_pass (isChromaEnabled (m_chromaFormatIdc x)) (\<lambda>i. tab ! e ! i)) n tab0)"
proof -
  let ?ch = "isChromaEnabled (m_chromaFormatIdc x)"
  let ?f = "weights_pass ?ch (\<lambda>i. tab ! e ! i)"
  have "vlc.codes (for_loop (code_weights x tab e) [0..<n]) (read_loop (parse_weights x e) [0..<n] (upd_row e ?f 0 tab0)) (upd_row e ?f n tab0)"
  proof (rule vlc.codes_read_upt [where X = "\<lambda>k. upd_row e ?f k tab0"])
    fix i assume i: "i < n"
    obtain y0 cb0 cr0 where ent0: "tab0 ! e ! i = (y0, cb0, cr0)" by (metis prod_cases3)
    obtain y cb cr where ent: "tab ! e ! i = (y, cb, cr)" by (metis prod_cases3)
    note e = tab [OF i, THEN conjunct2, unfolded ent entry_ok_def prod.case Let_def]
    note s = st [OF i, unfolded ent ent0 fst_conv snd_conv]
    let ?r = "weight_pass (bPresentFlag y0) y y0"
    let ?c = "if ?ch then (weight_pass (bPresentFlag cb0) cb cb0, weight_pass (bPresentFlag cb0) cr cr0) else (cb0, cr0)"
    have g: "getWpScaling tab e (int i) = Some (y, cb, cr)" using table_entry tab [OF i] ent by simp
    have one: "one_shl chroma = Some (2 ^ chroma)" using d(2) by (simp add: one_shl_def)
    have l: "vlc.codes (\<lambda>s. if bPresentFlag y then do {
         m \<leftarrow> one_shl (uiLog2WeightDenom y);
         d \<leftarrow> i32 (iWeight y - m);
         s \<leftarrow> xWriteSvlc d s;
         xWriteSvlc (iOffset y) s
       } else Some s) (parse_luma_weight x y0) ?r"
      by (rule codes_luma_weight [OF d(1) _ _ _ bd(1,2)]) (use e s in auto)
    have c: "vlc.codes (\<lambda>s. if ?ch \<and> bPresentFlag cb then do {
       check_not (uiLog2WeightDenom cb \<noteq> uiLog2WeightDenom cr);
       s \<leftarrow> code_chroma_weight x (uiLog2WeightDenom cb) cb s;
       code_chroma_weight x (uiLog2WeightDenom cb) cr s
     } else Some s) (\<lambda>s. if ?ch then
         if bPresentFlag cb0 then do {
           (cb, s) \<leftarrow> parse_chroma_weight x cb0 s;
           (cr, s) \<leftarrow> parse_chroma_weight x cr0 s;
           Some ((cb, cr), s)
         } else do { cb \<leftarrow> no_weight cb0; cr \<leftarrow> no_weight cr0; Some ((cb, cr), s) }
       else Some ((cb0, cr0), s)) ?c"
    proof (cases "?ch \<and> bPresentFlag cb")
      case True
      have k: "vlc.codes (code_chroma_weight x chroma cb) (parse_chroma_weight x cb0) (weight_pass (bPresentFlag cb0) cb cb0)"
        "vlc.codes (code_chroma_weight x chroma cr) (parse_chroma_weight x cr0) (weight_pass (bPresentFlag cb0) cr cr0)"
        using codes_chroma_weight [of chroma cb cb0 x] codes_chroma_weight [of chroma cr cr0 x] True e s d bd by (simp_all add: weight_pass_def)
      have "vlc.codes (\<lambda>s. code_chroma_weight x chroma cb s \<bind> code_chroma_weight x chroma cr)
        (\<lambda>s. parse_chroma_weight x cb0 s \<bind> (\<lambda>(cb, s). parse_chroma_weight x cr0 s \<bind> (\<lambda>(cr, s). Some ((cb, cr), s)))) ?c"
        by (rule vlc.codes_bind [OF k(1)], rule vlc.codes_bind_end [OF k(2)]) (use True in \<open>simp add: vlc.codes_return\<close>)
      then show ?thesis using True e s by simp
    next
      case False
      then show ?thesis using e s one by (auto simp: no_weight_def weight_pass_def vlc.codes_return)
    qed
    have w: "code_weights x tab e i = (\<lambda>s. (if bPresentFlag y then do {
         m \<leftarrow> one_shl (uiLog2WeightDenom y);
         d \<leftarrow> i32 (iWeight y - m);
         s \<leftarrow> xWriteSvlc d s;
         xWriteSvlc (iOffset y) s
       } else Some s) \<bind> (\<lambda>s. if ?ch \<and> bPresentFlag cb then do {
       check_not (uiLog2WeightDenom cb \<noteq> uiLog2WeightDenom cr);
       s \<leftarrow> code_chroma_weight x (uiLog2WeightDenom cb) cb s;
       code_chroma_weight x (uiLog2WeightDenom cb) cr s
     } else Some s))" unfolding code_weights_def [abs_def] g by simp
    have r: "parse_weights x e i (upd_row e ?f i tab0) = (\<lambda>s. parse_luma_weight x y0 s \<bind> (\<lambda>(y, s). (if ?ch then
         if bPresentFlag cb0 then do {
           (cb, s) \<leftarrow> parse_chroma_weight x cb0 s;
           (cr, s) \<leftarrow> parse_chroma_weight x cr0 s;
           Some ((cb, cr), s)
         } else do { cb \<leftarrow> no_weight cb0; cr \<leftarrow> no_weight cr0; Some ((cb, cr), s) }
       else Some ((cb0, cr0), s)) \<bind> (\<lambda>((cb, cr), s). setWpScaling e (int i) (y, cb, cr) (upd_row e ?f i tab0) \<bind> (\<lambda>tab. Some (tab, s)))))"
      unfolding parse_weights_def [abs_def] get_upd_row [OF tab0(1) [OF i]] ent0 by simp
    have f: "setWpScaling e (int i) (?r, ?c) (upd_row e ?f i tab0) = Some (upd_row e ?f (Suc i) tab0)"
      by (rule set_upd_row [OF tab0(1) [OF i]]) (use s in \<open>simp add: ent ent0 weights_pass_def\<close>)
    obtain c1 c2 where cc: "?c = (c1, c2)" by fastforce
    show "vlc.codes (code_weights x tab e i) (parse_weights x e i (upd_row e ?f i tab0)) (upd_row e ?f (Suc i) tab0)"
      unfolding w r
    proof (rule vlc.codes_bind [OF l], rule vlc.codes_bind_end [OF c])
      show "vlc.codes Some (case ?c of (cb, cr) \<Rightarrow> \<lambda>s. setWpScaling e (int i) (?r, cb, cr) (upd_row e ?f i tab0) \<bind> (\<lambda>tab. Some (tab, s)))
          (upd_row e ?f (Suc i) tab0)"
        unfolding cc prod.case f [unfolded cc] by (simp add: vlc.codes_return)
    qed
  qed
  then show ?thesis using tab0(2) by simp
qed

lemma clear_loop:
  assumes "e < 2" "e < length tab" "length (tab ! e) = m" "n \<le> m"
  shows "for_loop (clear_flags e) [n..<m] tab = Some (upd_row e (clear_pass n) m tab)"
proof -
  have 0: "upd_row e (clear_pass n) n tab = tab"
  proof -
    have "map (\<lambda>i. if i < n then clear_pass n i (tab ! e ! i) else tab ! e ! i) [0..<length (tab ! e)] = map (nth (tab ! e)) [0..<length (tab ! e)]"
      by (simp add: clear_pass_def)
    then show ?thesis by (simp add: upd_row_def map_nth)
  qed
  have "for_loop (clear_flags e) [n..<m] (upd_row e (clear_pass n) n tab) = Some (upd_row e (clear_pass n) m tab)"
  proof (rule for_loop_upt)
    fix i assume i: "n \<le> i" "i < m"
    have h: "has_entry tab e i" using assms i by (simp add: has_entry_def)
    obtain y cb cr where ent: "tab ! e ! i = (y, cb, cr)" by (metis prod_cases3)
    show "clear_flags e i (upd_row e (clear_pass n) i tab) = Some (upd_row e (clear_pass n) (Suc i) tab)"
      unfolding clear_flags_def get_upd_row [OF h] ent
      by (simp, rule set_upd_row [OF h]) (use i in \<open>simp add: ent clear_pass_def\<close>)
  qed (use assms in simp)
  then show ?thesis by (simp add: 0)
qed

text \<open>All passes over one list of \<open>n\<close> entries.\<close>

definition received_list :: "sps \<Rightarrow> nat \<Rightarrow> nat \<Rightarrow> nat \<Rightarrow> nat \<Rightarrow> wp_table \<Rightarrow> wp_table \<Rightarrow> wp_table" where
  "received_list x luma chroma e n tab tab0 = (let ch = isChromaEnabled (m_chromaFormatIdc x); from = (\<lambda>i. tab ! e ! i);
     t1 = upd_row e (luma_pass ch luma chroma from) n tab0;
     t2 = (if ch then upd_row e (chroma_pass from) n t1 else t1)
   in upd_row e (clear_pass n) MAX_NUM_REF (upd_row e (weights_pass ch from) n t2))"

definition table_shape :: "wp_table \<Rightarrow> bool" where
  "table_shape tab \<longleftrightarrow> length tab = 2 \<and> (\<forall>row \<in> set tab. length row = MAX_NUM_REF)"

lemma table_shape_row: "table_shape tab \<Longrightarrow> e < 2 \<Longrightarrow> e < length tab \<and> length (tab ! e) = MAX_NUM_REF"
  by (simp add: table_shape_def)

lemma table_shape_entry: "table_shape tab \<Longrightarrow> e < 2 \<Longrightarrow> i < MAX_NUM_REF \<Longrightarrow> has_entry tab e i"
  by (simp add: has_entry_def table_shape_row)

lemma table_shape_upd: "table_shape tab \<Longrightarrow> table_shape (upd_row e f k tab)"
  by (simp add: table_shape_def all_set_conv_all_nth)

lemma table_shape_received: "table_shape tab0 \<Longrightarrow> table_shape (received_list x luma chroma e n tab tab0)"
  by (simp add: received_list_def Let_def table_shape_upd)

lemma received_other: "d \<noteq> e \<Longrightarrow> received_list x luma chroma e n tab tab0 ! d = tab0 ! d"
  by (simp add: received_list_def Let_def)

text \<open>The entry at one place.\<close>

lemma received_entry:
  assumes "table_shape tab0" "e < 2" "i < MAX_NUM_REF" "n \<le> MAX_NUM_REF"
  shows "received_list x luma chroma e n tab tab0 ! e ! i = (let ch = isChromaEnabled (m_chromaFormatIdc x); from = (\<lambda>i. tab ! e ! i) in
    if i < n then weights_pass ch from i ((if ch then chroma_pass from i else id) (luma_pass ch luma chroma from i (tab0 ! e ! i)))
    else clear_pass n i (tab0 ! e ! i))"
proof -
  have c: "i < n \<Longrightarrow> clear_pass n i v = v" for v by (simp add: clear_pass_def split: prod.splits)
  show ?thesis using assms
    by (simp add: received_list_def Let_def upd_row_nth table_shape_entry table_shape_upd c)
qed

definition list_ok :: "sps \<Rightarrow> nat \<Rightarrow> nat \<Rightarrow> wp_table \<Rightarrow> nat \<Rightarrow> nat \<Rightarrow> bool" where
  "list_ok x luma chroma tab e n \<longleftrightarrow> n \<le> MAX_NUM_REF \<and> (\<forall>i < n. entry_ok x luma chroma (tab ! e ! i))"

definition depths_ok :: "sps \<Rightarrow> bool" where
  "depths_ok x \<longleftrightarrow> 8 \<le> m_bitDepthLuma x \<and> m_bitDepthLuma x \<le> 16 \<and> 8 \<le> m_bitDepthChroma x \<and> m_bitDepthChroma x \<le> 16"

lemma codes_weight_list:
  assumes t: "table_shape tab" "table_shape tab0" "e < 2" and ok: "list_ok x luma chroma tab e n" and d: "luma \<le> 7" "chroma \<le> 7"
    and x: "depths_ok x" and sent: "sent \<le> 48" and coded: "0 < n \<longrightarrow> bDenomCoded"
  shows "vlc.codes (code_weight_list x tab bDenomCoded e n) (parse_weight_list x luma chroma e n (tab0, sent))
    (received_list x luma chroma e n tab tab0, sent + signalled_flags (isChromaEnabled (m_chromaFormatIdc x)) tab e n)"
proof -
  let ?ch = "isChromaEnabled (m_chromaFormatIdc x)"
  let ?from = "\<lambda>i. tab ! e ! i"
  let ?t1 = "upd_row e (luma_pass ?ch luma chroma ?from) n tab0"
  let ?t2 = "if ?ch then upd_row e (chroma_pass ?from) n ?t1 else ?t1"
  let ?s1 = "sent + count_flags (\<lambda>i. bPresentFlag (fst (tab ! e ! i))) n"
  let ?s2 = "sent + signalled_flags ?ch tab e n"
  have n: "n \<le> 16" and ent: "\<And>i. i < n \<Longrightarrow> entry_ok x luma chroma (tab ! e ! i)" using ok by (auto simp: list_ok_def MAX_NUM_REF_def)
  have h: "has_entry tab e i" "has_entry tab0 e i" if "i < n" for i
    using t n that by (simp_all add: table_shape_entry MAX_NUM_REF_def)
  have e: "e < length tab0" using t by (simp add: table_shape_def)
  have s1: "?s1 + 2 * n < 2 ^ 32" using count_flags_le [of "\<lambda>i. bPresentFlag (fst (tab ! e ! i))" n] n sent by simp
  have h1: "has_entry ?t1 e i" if "i < n" for i using h(2) that by simp
  have h2: "has_entry ?t2 e i" if "i < n" for i using h(2) that by simp
  have l: "vlc.codes (for_loop (code_luma_flag ?ch bDenomCoded tab e) [0..<n]) (read_loop (parse_luma_flag ?ch luma chroma e) [0..<n] (tab0, sent)) (?t1, ?s1)"
    by (rule codes_luma_flags) (use h e sent n coded in auto)
  have c: "vlc.codes (\<lambda>s. if ?ch then for_loop (code_chroma_flag tab e) [0..<n] s else Some s)
    (\<lambda>s. if ?ch then read_loop (parse_chroma_flag e) [0..<n] (?t1, ?s1) s else Some ((?t1, ?s1), s)) (?t2, ?s2)"
  proof (cases ?ch)
    case True
    have "bPresentFlag (snd (snd (tab ! e ! i))) = bPresentFlag (fst (snd (tab ! e ! i)))" if "i < n" for i
      using ent [OF that] True by (auto simp: entry_ok_def Let_def split: prod.splits)
    with codes_chroma_flags [of n tab e ?t1 ?s1] h h1 e s1 True show ?thesis by (simp add: signalled_flags_def add.assoc)
  qed (simp add: signalled_flags_def vlc.codes_return)
  have w: "vlc.codes (for_loop (code_weights x tab e) [0..<n]) (read_loop (parse_weights x e) [0..<n] ?t2) (upd_row e (weights_pass ?ch ?from) n ?t2)"
  proof (rule codes_weights)
    fix i assume i: "i < n"
    obtain y cb cr where y0: "tab0 ! e ! i = (y, cb, cr)" by (metis prod_cases3)
    show "uiLog2WeightDenom (fst (?t2 ! e ! i)) = luma \<and> bPresentFlag (fst (?t2 ! e ! i)) = bPresentFlag (fst (tab ! e ! i))
      \<and> (?ch \<longrightarrow> uiLog2WeightDenom (fst (snd (?t2 ! e ! i))) = chroma
        \<and> uiLog2WeightDenom (snd (snd (?t2 ! e ! i))) = chroma \<and> bPresentFlag (fst (snd (?t2 ! e ! i))) = bPresentFlag (fst (snd (tab ! e ! i))))"
      using upd_row_nth [OF h1 [OF i], of "chroma_pass ?from" n] upd_row_nth [OF h(2) [OF i], of "luma_pass ?ch luma chroma ?from" n] i y0
      by (cases ?ch) (simp_all add: luma_pass_def chroma_pass_def)
  qed (use h ent h2 e d x in \<open>auto simp: depths_ok_def\<close>)
  have f: "for_loop (clear_flags e) [n..<MAX_NUM_REF] (upd_row e (weights_pass ?ch ?from) n ?t2) = Some (received_list x luma chroma e n tab tab0)"
    unfolding received_list_def Let_def
    by (rule clear_loop) (use t n in \<open>simp_all add: table_shape_def MAX_NUM_REF_def\<close>)
  have wr: "code_weight_list x tab bDenomCoded e n = (\<lambda>s. for_loop (code_luma_flag ?ch bDenomCoded tab e) [0..<n] s \<bind> (\<lambda>s.
      (if ?ch then for_loop (code_chroma_flag tab e) [0..<n] s else Some s) \<bind> for_loop (code_weights x tab e) [0..<n]))"
    by (simp add: code_weight_list_def fun_eq_iff Let_def)
  have r: "parse_weight_list x luma chroma e n (tab0, sent) = (\<lambda>s. read_loop (parse_luma_flag ?ch luma chroma e) [0..<n] (tab0, sent) s \<bind> (\<lambda>(st, s).
      (if ?ch then read_loop (parse_chroma_flag e) [0..<n] st s else Some (st, s)) \<bind> (\<lambda>((tab, sent), s).
      read_loop (parse_weights x e) [0..<n] tab s \<bind> (\<lambda>(tab, s). for_loop (clear_flags e) [n..<MAX_NUM_REF] tab \<bind> (\<lambda>tab. Some ((tab, sent), s))))))"
    by (simp add: parse_weight_list_def fun_eq_iff Let_def)
  show ?thesis unfolding wr r
  proof (rule vlc.codes_bind [OF l], rule vlc.codes_bind [OF c])
    show "vlc.codes (for_loop (code_weights x tab e) [0..<n]) (case (?t2, ?s2) of (tab, sent) \<Rightarrow> \<lambda>s.
      read_loop (parse_weights x e) [0..<n] tab s \<bind> (\<lambda>(tab, s). for_loop (clear_flags e) [n..<MAX_NUM_REF] tab \<bind> (\<lambda>tab. Some ((tab, sent), s))))
      (received_list x luma chroma e n tab tab0, ?s2)"
      unfolding prod.case by (rule vlc.codes_bind_end [OF w]) (simp add: f vlc.codes_return)
  qed
qed

section \<open>The whole table\<close>

text \<open>The number of entries of a list that are in use.\<close>

definition list_size :: "nat \<Rightarrow> int \<times> int \<Rightarrow> nat \<Rightarrow> nat" where
  "list_size sliceType num e = (if e = 0 then nat (fst num) else if sliceType = B_TYPE then nat (snd num) else 0)"

definition weight_table_ok :: "sps \<Rightarrow> nat \<Rightarrow> nat \<Rightarrow> nat \<Rightarrow> int \<times> int \<Rightarrow> wp_table \<Rightarrow> bool" where
  "weight_table_ok x luma chroma sliceType num tab \<longleftrightarrow> table_shape tab \<and> depths_ok x \<and> luma \<le> 7 \<and> chroma \<le> 7
     \<and> fst num > 0 \<and> list_ok x luma chroma tab 0 (list_size sliceType num 0) \<and> list_ok x luma chroma tab 1 (list_size sliceType num 1)
     \<and> (let ch = isChromaEnabled (m_chromaFormatIdc x) in
        signalled_flags ch tab 0 (list_size sliceType num 0) + signalled_flags ch tab 1 (list_size sliceType num 1) \<le> 24)"

definition received_table :: "sps \<Rightarrow> nat \<Rightarrow> nat \<Rightarrow> nat \<Rightarrow> int \<times> int \<Rightarrow> wp_table \<Rightarrow> wp_table \<Rightarrow> wp_table" where
  "received_table x luma chroma sliceType num tab tab0 = (let
     chroma = (if isChromaEnabled (m_chromaFormatIdc x) then chroma else 0);
     t = received_list x luma chroma 0 (list_size sliceType num 0) tab tab0
   in if sliceType = B_TYPE then received_list x luma chroma 1 (list_size sliceType num 1) tab t else t)"

lemma signalled_flags_0 [simp]: "signalled_flags ch tab e 0 = 0"
  by (simp add: signalled_flags_def)

lemma entry_ok_no_chroma: "\<not> isChromaEnabled (m_chromaFormatIdc x) \<Longrightarrow> entry_ok x luma c = entry_ok x luma c'"
  by (auto simp: entry_ok_def Let_def fun_eq_iff)

lemma codes_weight_table:
  assumes st: "sliceType = P_TYPE \<and> useWeightPred p \<or> sliceType = B_TYPE \<and> useWeightedBiPred p"
    and ok: "weight_table_ok x luma chroma sliceType num tab" and tab0: "table_shape tab0"
  shows "vlc.codes (xCodePredWeightTable x p sliceType num tab) (parsePredWeightTable x sliceType num tab0)
    (received_table x luma chroma sliceType num tab tab0)"
proof -
  obtain num0 num1 where num: "num = (num0, num1)" by (cases num)
  let ?ch = "isChromaEnabled (m_chromaFormatIdc x)"
  define c where "c = (if ?ch then chroma else 0)"
  let ?n = "list_size sliceType num"
  let ?t0 = "received_list x luma c 0 (?n 0) tab tab0"
  let ?s0 = "signalled_flags ?ch tab 0 (?n 0)"
  have k: "table_shape tab" "depths_ok x" "luma \<le> 7" "c \<le> 7" "0 < ?n 0" "?s0 + signalled_flags ?ch tab 1 (?n 1) \<le> 24"
    using ok by (simp_all add: weight_table_ok_def list_size_def num c_def Let_def)
  have eo: "entry_ok x luma c = entry_ok x luma chroma"
    using entry_ok_no_chroma [of x luma c chroma] by (cases ?ch) (simp_all add: c_def)
  have l: "list_ok x luma c tab 0 (?n 0)" "list_ok x luma c tab 1 (?n 1)"
    using ok eo by (simp_all add: weight_table_ok_def list_ok_def)
  have n: "nat num0 = ?n 0" "sliceType = B_TYPE \<Longrightarrow> nat num1 = ?n 1" "0 < num0"
    using k(5) by (auto simp: list_size_def num)
  obtain y cb cr where ent: "tab ! 0 ! 0 = (y, cb, cr)" by (metis prod_cases3)
  have e0: "has_entry tab 0 0" using k(1) by (simp add: table_shape_entry MAX_NUM_REF_def)
  have den: "vlc.codes (code_denoms ?ch (tab ! 0 ! 0)) (parse_denoms ?ch) (luma, c)"
    unfolding ent using codes_denoms [of y luma ?ch cb c cr] l(1) k(3-5) ent
    by (auto simp: list_ok_def entry_ok_def Let_def c_def)
  have a: "vlc.codes (code_weight_list x tab True 0 (?n 0)) (parse_weight_list x luma c 0 (?n 0) (tab0, 0)) (?t0, ?s0)"
    using codes_weight_list [OF k(1) tab0 _ l(1) k(3,4,2), of 0 True] by simp
  have b: "vlc.codes (\<lambda>s. if sliceType = B_TYPE then code_weight_list x tab True 1 (?n 1) s else Some s)
    (\<lambda>s. if sliceType = B_TYPE then parse_weight_list x luma c 1 (?n 1) (?t0, ?s0) s else Some ((?t0, ?s0), s))
    (received_table x luma chroma sliceType num tab tab0, ?s0 + signalled_flags ?ch tab 1 (?n 1))"
  proof (cases "sliceType = B_TYPE")
    case True
    have "vlc.codes (code_weight_list x tab True 1 (?n 1)) (parse_weight_list x luma c 1 (?n 1) (?t0, ?s0))
      (received_list x luma c 1 (?n 1) tab ?t0, ?s0 + signalled_flags ?ch tab 1 (?n 1))"
      using codes_weight_list [OF k(1) table_shape_received [OF tab0] _ l(2) k(3,4,2), of ?s0 True x luma c 0 "?n 0" tab] k(6) by simp
    then show ?thesis using True by (simp add: received_table_def c_def Let_def)
  qed (simp add: received_table_def list_size_def c_def Let_def vlc.codes_return)
  have first: "code_weight_list x tab False 0 (?n 0) s = code_denoms ?ch (tab ! 0 ! 0) s \<bind> code_weight_list x tab True 0 (?n 0)" for s
    unfolding code_weight_list_def [abs_def] Let_def luma_flags_first [OF k(5) e0] by simp
  have chk: "signalled_flags ?ch tab 0 (?n 0) + (if sliceType = B_TYPE then signalled_flags ?ch tab 1 (?n 1) else 0)
     = ?s0 + signalled_flags ?ch tab 1 (?n 1)" by (simp add: list_size_def)
  have w: "xCodePredWeightTable x p sliceType num tab = (\<lambda>s. code_denoms ?ch (tab ! 0 ! 0) s \<bind> (\<lambda>s. code_weight_list x tab True 0 (?n 0) s
      \<bind> (\<lambda>s. if sliceType = B_TYPE then code_weight_list x tab True 1 (?n 1) s else Some s)))"
    unfolding xCodePredWeightTable_def num prod.case Let_def
    using st n k(6) chk first by (auto simp: fun_eq_iff num split: bind_splits)
  have r: "parsePredWeightTable x sliceType num tab0 = (\<lambda>s. parse_denoms ?ch s \<bind> (\<lambda>((luma, chroma), s).
      parse_weight_list x luma chroma 0 (?n 0) (tab0, 0) s \<bind> (\<lambda>(st, s).
      (if sliceType = B_TYPE then parse_weight_list x luma chroma 1 (?n 1) st s else Some (st, s)) \<bind> (\<lambda>((tab, sent), s).
      check_not (sent > 24) \<bind> (\<lambda>_. Some (tab, s))))))"
    using n by (simp add: parsePredWeightTable_def num fun_eq_iff cong: if_cong)
  show ?thesis unfolding w r
  proof (rule vlc.codes_bind [OF den], unfold prod.case, rule vlc.codes_bind [OF a], rule vlc.codes_bind_end [OF b])
  qed (use k(6) in \<open>simp add: vlc.codes_return\<close>)
qed

text \<open>After the inference of \<open>initWpScaling\<close> the entries in use are those of the encoder.\<close>

lemma init_wp_agree:
  assumes "bPresentFlag v = bPresentFlag w" "uiLog2WeightDenom v = uiLog2WeightDenom w"
    "bPresentFlag v \<Longrightarrow> iWeight v = iWeight w \<and> iOffset v = iOffset w"
  shows "init_wp high depth v = init_wp high depth w"
  using assms by (cases v, cases w) (simp add: init_wp_def Let_def)

lemma weight_pass_agrees:
  "bPresentFlag v = b \<Longrightarrow> bPresentFlag w = b \<Longrightarrow> uiLog2WeightDenom v = uiLog2WeightDenom w
    \<Longrightarrow> init_wp high depth (weight_pass b w v) = init_wp high depth w"
  by (rule init_wp_agree) (auto simp: weight_pass_def)

definition entry_agrees :: "sps \<Rightarrow> wp_entry \<Rightarrow> wp_entry \<Rightarrow> bool" where
  "entry_agrees x a b \<longleftrightarrow> (if isChromaEnabled (m_chromaFormatIdc x) then init_entry x a = init_entry x b
     else init_wp (highPrecisionOffsetsEnabledFlag (m_spsRangeExtension x)) (m_bitDepthLuma x) (fst a)
       = init_wp (highPrecisionOffsetsEnabledFlag (m_spsRangeExtension x)) (m_bitDepthLuma x) (fst b))"

lemma received_agrees:
  assumes "table_shape tab0" "e < 2" "n \<le> MAX_NUM_REF" "i < n" "entry_ok x luma chroma (tab ! e ! i)"
  shows "entry_agrees x (received_list x luma (if isChromaEnabled (m_chromaFormatIdc x) then chroma else 0) e n tab tab0 ! e ! i) (tab ! e ! i)"
proof -
  let ?ch = "isChromaEnabled (m_chromaFormatIdc x)"
  obtain y0 cb0 cr0 where ent0: "tab0 ! e ! i = (y0, cb0, cr0)" by (metis prod_cases3)
  obtain y cb cr where ent: "tab ! e ! i = (y, cb, cr)" by (metis prod_cases3)
  note ok = assms(5) [unfolded ent entry_ok_def prod.case Let_def]
  show ?thesis
  proof (cases ?ch)
    case True
    have r: "received_list x luma chroma e n tab tab0 ! e ! i = (weight_pass (bPresentFlag y) y (y0\<lparr>uiLog2WeightDenom := luma, bPresentFlag := bPresentFlag y\<rparr>),
      weight_pass (bPresentFlag cb) cb (cb0\<lparr>uiLog2WeightDenom := chroma, bPresentFlag := bPresentFlag cb\<rparr>),
      weight_pass (bPresentFlag cb) cr (cr0\<lparr>uiLog2WeightDenom := chroma, bPresentFlag := bPresentFlag cb\<rparr>))"
      using True assms(1-4) by (simp add: received_entry Let_def ent ent0 luma_pass_def chroma_pass_def weights_pass_def)
    show ?thesis using True ok
      by (simp add: r entry_agrees_def init_entry_def ent weight_pass_agrees [of _ "bPresentFlag y" y] weight_pass_agrees [of _ "bPresentFlag cb" cb]
          weight_pass_agrees [of _ "bPresentFlag cb" cr])
  next
    case False
    have r: "received_list x luma 0 e n tab tab0 ! e ! i = (weight_pass (bPresentFlag y) y (y0\<lparr>uiLog2WeightDenom := luma, bPresentFlag := bPresentFlag y\<rparr>), cb0, cr0)"
      using False assms(1-4) by (simp add: received_entry Let_def ent ent0 luma_pass_def weights_pass_def)
    show ?thesis using False ok
      by (simp add: r entry_agrees_def ent weight_pass_agrees [of _ "bPresentFlag y" y])
  qed
qed

lemma received_unused:
  assumes "table_shape tab0" "e < 2" "n \<le> i" "i < MAX_NUM_REF"
  shows "\<not> bPresentFlag (fst (received_list x luma chroma e n tab tab0 ! e ! i))
    \<and> \<not> bPresentFlag (fst (snd (received_list x luma chroma e n tab tab0 ! e ! i)))
    \<and> \<not> bPresentFlag (snd (snd (received_list x luma chroma e n tab tab0 ! e ! i)))"
  using assms by (simp add: received_entry clear_pass_def Let_def split: prod.split)

text \<open>
  The table of weights arrives: for every list that the slice has, the entries in use are the same after
  \<open>initWpScaling\<close>, and all others are marked as not present.
\<close>

definition weights_arrive :: "sps \<Rightarrow> nat \<Rightarrow> int \<times> int \<Rightarrow> wp_table \<Rightarrow> wp_table \<Rightarrow> bool" where
  "weights_arrive x sliceType num tab tab' \<longleftrightarrow> table_shape tab' \<and> (\<forall>e < (if sliceType = B_TYPE then 2 else 1).
     (\<forall>i < list_size sliceType num e. entry_agrees x (tab' ! e ! i) (tab ! e ! i))
     \<and> (\<forall>i \<in> {list_size sliceType num e..<MAX_NUM_REF}. \<not> bPresentFlag (fst (tab' ! e ! i))
        \<and> \<not> bPresentFlag (fst (snd (tab' ! e ! i))) \<and> \<not> bPresentFlag (snd (snd (tab' ! e ! i)))))"

lemma received_table_arrives:
  assumes ok: "weight_table_ok x luma chroma sliceType num tab" and tab0: "table_shape tab0"
  shows "weights_arrive x sliceType num tab (received_table x luma chroma sliceType num tab tab0)"
proof -
  let ?c = "if isChromaEnabled (m_chromaFormatIdc x) then chroma else 0"
  let ?T = "received_table x luma chroma sliceType num tab tab0"
  have n: "list_size sliceType num e \<le> MAX_NUM_REF" "\<forall>i < list_size sliceType num e. entry_ok x luma chroma (tab ! e ! i)" if "e < 2" for e
    using ok that by (auto simp: weight_table_ok_def list_ok_def less_2_cases_iff)
  have T: "\<exists>t. table_shape t \<and> ?T ! e = received_list x luma ?c e (list_size sliceType num e) tab t ! e"
    if "e < (if sliceType = B_TYPE then 2 else 1)" for e
    using that tab0 table_shape_received [OF tab0]
    by (auto simp: received_table_def Let_def received_other less_2_cases_iff split: if_splits; blast)
  show ?thesis unfolding weights_arrive_def
  proof (intro conjI allI impI ballI)
    show "table_shape ?T" using tab0 by (simp add: received_table_def Let_def table_shape_received)
  next
    fix e i assume e: "e < (if sliceType = B_TYPE then 2 else 1)" and i: "i < list_size sliceType num e"
    have e2: "e < 2" using e by (simp split: if_splits)
    from T [OF e] obtain t where t: "table_shape t" "?T ! e = received_list x luma ?c e (list_size sliceType num e) tab t ! e" by blast
    show "entry_agrees x (?T ! e ! i) (tab ! e ! i)" unfolding t(2)
      by (rule received_agrees [OF t(1) e2 n(1) [OF e2] i]) (use n(2) [OF e2] i in blast)
  next
    fix e i assume e: "e < (if sliceType = B_TYPE then 2 else 1)" and i: "i \<in> {list_size sliceType num e..<MAX_NUM_REF}"
    have e2: "e < 2" using e by (simp split: if_splits)
    from T [OF e] obtain t where t: "table_shape t" "?T ! e = received_list x luma ?c e (list_size sliceType num e) tab t ! e" by blast
    note u = received_unused [OF t(1) e2, of "list_size sliceType num e" i x luma ?c tab]
    show "\<not> bPresentFlag (fst (?T ! e ! i))" "\<not> bPresentFlag (fst (snd (?T ! e ! i)))" "\<not> bPresentFlag (snd (snd (?T ! e ! i)))"
      unfolding t(2) using u i by simp_all
  qed
qed

text \<open>
  C5. The weights and offsets of weighted prediction reach the decoder: for every type of slice that uses them, every number of
  reference pictures and every present flag, the entries in use are the same after \<open>Slice::initWpScaling\<close>, whatever the
  table of the decoder held before, and the other entries are marked as not present.
\<close>

theorem weight_table_roundtrip:
  assumes "sliceType = P_TYPE \<and> useWeightPred p \<or> sliceType = B_TYPE \<and> useWeightedBiPred p"
    and "weight_table_ok x luma chroma sliceType num tab" "table_shape tab0"
  shows "\<exists>s tab' t. xCodePredWeightTable x p sliceType num tab clear = Some s
    \<and> parsePredWeightTable x sliceType num tab0 (open_stream (out_fifo (writeAlignZero s))) = Some (tab', t)
    \<and> weights_arrive x sliceType num tab tab'"
  using codes_whole_stream [OF codes_weight_table [OF assms]] received_table_arrives [OF assms(2,3)] by blast

text \<open>A slice with two and one reference pictures, of which the first has weights.\<close>

definition sample_wp :: "bool \<Rightarrow> nat \<Rightarrow> int \<Rightarrow> int \<Rightarrow> wp_param" where
  "sample_wp present denom w off = \<lparr>bPresentFlag = present, uiLog2WeightDenom = denom, iWeight = w, iOffset = off,
     wp_w = 0, wp_o = 0, wp_shift = 0, wp_round = 0\<rparr>"

definition sample_table :: wp_table where
  "sample_table = (let none = (sample_wp False 6 64 0, sample_wp False 5 32 0, sample_wp False 5 32 0) in
     [(sample_wp True 6 70 (- 3), sample_wp True 5 40 5, sample_wp True 5 30 (- 7)) # replicate 15 none, replicate 16 none])"

lemma sample_table_ok: "weight_table_ok sample_sps 6 5 B_TYPE (2, 1) sample_table"
proof -
  have two: "(\<forall>i<2. P i) = (P 0 \<and> P 1)" for P :: "nat \<Rightarrow> bool" by (auto simp: less_2_cases_iff)
  have sps: "m_chromaFormatIdc sample_sps = 1" "m_bitDepthLuma sample_sps = 10" "m_bitDepthChroma sample_sps = 10"
    "highPrecisionOffsetsEnabledFlag (m_spsRangeExtension sample_sps) = False"
    by (simp_all add: sample_sps_def SPS_def sample_memory_def SPSRExt_def)
  show ?thesis
    by (simp add: weight_table_ok_def depths_ok_def sps table_shape_def sample_table_def list_size_def list_ok_def two entry_ok_def upt_rec [of 0 2] upt_rec [of 1 2] sample_wp_def
        weight_fits_def chroma_fits_def chroma_pred_def range_of_def drop_bit_eq_div signalled_flags_def count_flags_def
        B_TYPE_def MAX_NUM_REF_def isChromaEnabled_def Let_def)
qed

theorem weight_table_roundtrip_witness:
  "\<exists>s tab' t. xCodePredWeightTable sample_sps sample_pps B_TYPE (2, 1) sample_table clear = Some s
    \<and> parsePredWeightTable sample_sps B_TYPE (2, 1) (replicate 2 (replicate 16 (sample_wp True 3 1 9, sample_wp True 3 1 9, sample_wp True 3 1 9)))
      (open_stream (out_fifo (writeAlignZero s))) = Some (tab', t)
    \<and> weights_arrive sample_sps B_TYPE (2, 1) sample_table tab'"
  by (rule weight_table_roundtrip [OF _ sample_table_ok]) (simp_all add: sample_pps_def table_shape_def MAX_NUM_REF_def)

end
