(* ===== verification/LongTermRefs.thy ===== *)
theory LongTermRefs
  imports SeqParameterSet PictureBuffer
begin

text \<open>
  The picture order count and the reference pictures in the slice header: its low bits and their completion by the parser,
  the long-term pictures, which \<open>EncGOP::arrangeLongtermPicturesInRPS\<close> orders and
  \<open>HLSWriter::codeSliceHeader\<close> and \<open>HLSyntaxReader::parseSliceHeader\<close> transmit, and the choice between a
  set of the SPS and one of the slice.
\<close>

section \<open>Numbers of bits\<close>

text \<open>\<open>while ((1 << numBits) < n) numBits++\<close>, which starts at 0; \<open>1 << 31\<close> overflows.\<close>

function bits_from :: "int \<Rightarrow> nat \<Rightarrow> nat option" where
  "bits_from n numBits = (if numBits \<ge> 31 then None else if 2 ^ numBits < n then bits_from n (numBits + 1) else Some numBits)"
  by pat_completeness auto
termination by (relation "measure (\<lambda>(n, k). 31 - k)") auto

declare bits_from.simps [simp del]

definition bits_for :: "int \<Rightarrow> nat option" where
  "bits_for n = bits_from n 0"

section \<open>Low bits of the picture order count\<close>

definition getLSB :: "int \<Rightarrow> int \<Rightarrow> int" where
  "getLSB p maxLSB = (if p \<ge> 0 then p mod maxLSB else (maxLSB - (- p) mod maxLSB) mod maxLSB)"

definition code_poc_lsb :: "sps \<Rightarrow> int \<Rightarrow> int \<Rightarrow> obs \<Rightarrow> obs option" where
  "code_poc_lsb x c lastIDR s = do {
     check_not (m_uiBitsForPOC x \<ge> 31);
     d \<leftarrow> i32 (c - lastIDR);
     d \<leftarrow> i32 (d + 2 ^ m_uiBitsForPOC x);
     xWriteCode (to_u32 (d AND (2 ^ m_uiBitsForPOC x - 1))) (m_uiBitsForPOC x) s }"

definition complete_poc :: "nat \<Rightarrow> int \<Rightarrow> nat \<Rightarrow> int \<Rightarrow> int option" where
  "complete_poc bits iPrevPOC nut iPOClsb = do {
     check_not (bits \<ge> 31);
     let iMaxPOClsb = 2 ^ bits;
     let iPrevPOClsb = iPrevPOC AND (iMaxPOClsb - 1);
     let iPrevPOCmsb = iPrevPOC - iPrevPOClsb;
     iPOCmsb \<leftarrow> (if iPOClsb < iPrevPOClsb \<and> iPrevPOClsb - iPOClsb \<ge> iMaxPOClsb div 2 then i32 (iPrevPOCmsb + iMaxPOClsb)
       else if iPOClsb > iPrevPOClsb \<and> iPOClsb - iPrevPOClsb > iMaxPOClsb div 2 then i32 (iPrevPOCmsb - iMaxPOClsb)
       else Some iPrevPOCmsb);
     let iPOCmsb = (if nut = NAL_UNIT_CODED_SLICE_BLA_W_LP \<or> nut = NAL_UNIT_CODED_SLICE_BLA_W_RADL
       \<or> nut = NAL_UNIT_CODED_SLICE_BLA_N_LP then 0 else iPOCmsb);
     i32 (iPOCmsb + iPOClsb) }"

section \<open>The order of the long-term pictures\<close>

text \<open>The arrays \<open>longtermPicsPoc\<close>, \<open>longtermPicsLSB\<close>, \<open>longtermPicsMSB\<close> and \<open>indices\<close>, as a list of their entries.\<close>

type_synonym lt_entry = "int \<times> int \<times> int \<times> int"

abbreviation (input) lt_poc :: "lt_entry \<Rightarrow> int" where "lt_poc e \<equiv> fst e"
abbreviation (input) lt_lsb :: "lt_entry \<Rightarrow> int" where "lt_lsb e \<equiv> fst (snd e)"
abbreviation (input) lt_msb :: "lt_entry \<Rightarrow> int" where "lt_msb e \<equiv> fst (snd (snd e))"
abbreviation (input) lt_index :: "lt_entry \<Rightarrow> int" where "lt_index e \<equiv> snd (snd (snd e))"

fun collect_lt :: "int \<Rightarrow> ref_pic_set \<Rightarrow> int list \<Rightarrow> lt_entry list \<Rightarrow> lt_entry list option" where
  "collect_lt maxLSB r [] es = Some es"
| "collect_lt maxLSB r (i # is) es = do {
     p \<leftarrow> getPOC r i;
     check_not (length es \<ge> MAX_NUM_REF_PICS);
     collect_lt maxLSB r is (es @ [(p, getLSB p maxLSB, p - getLSB p maxLSB, i)]) }"

definition swap_step :: "nat \<Rightarrow> lt_entry list \<Rightarrow> lt_entry list option" where
  "swap_step j es = do {
     a \<leftarrow> arr_get es j;
     b \<leftarrow> arr_get es (j + 1);
     if lt_msb a < lt_msb b then Some (es[j := b, j + 1 := a]) else Some es }"

definition sort_lt :: "nat \<Rightarrow> lt_entry list \<Rightarrow> lt_entry list option" where
  "sort_lt n = for_loop (\<lambda>_. for_loop swap_step [0..<n - 1]) [0..<n]"

definition msb_needed :: "int \<Rightarrow> picture list \<Rightarrow> lt_entry \<Rightarrow> bool" where
  "msb_needed maxLSB pics e = list_ex (\<lambda>p. getLSB (poc p) maxLSB = lt_lsb e \<and> referenced p \<and> poc p \<noteq> lt_poc e) pics"

definition setPocLSBLT :: "int \<Rightarrow> int \<Rightarrow> ref_pic_set \<Rightarrow> ref_pic_set option" where
  "setPocLSBLT i x r = do { a \<leftarrow> arr_set_i (pocLSBLT r) i x; Some (r\<lparr>pocLSBLT := a\<rparr>) }"

definition setDeltaPocMSBCycleLT :: "int \<Rightarrow> int \<Rightarrow> ref_pic_set \<Rightarrow> ref_pic_set option" where
  "setDeltaPocMSBCycleLT i x r = do { a \<leftarrow> arr_set_i (deltaPOCMSBCycleLT r) i x; Some (r\<lparr>deltaPOCMSBCycleLT := a\<rparr>) }"

definition setDeltaPocMSBPresentFlag :: "int \<Rightarrow> bool \<Rightarrow> ref_pic_set \<Rightarrow> ref_pic_set option" where
  "setDeltaPocMSBPresentFlag i b r = do { a \<leftarrow> arr_set_i (deltaPocMSBPresentFlag r) i b; Some (r\<lparr>deltaPocMSBPresentFlag := a\<rparr>) }"

text \<open>The quotient is of multiples of \<open>maxLSB\<close>, so that its rounding does not matter.\<close>

definition store_lt :: "int \<Rightarrow> int \<Rightarrow> picture list \<Rightarrow> int \<times> lt_entry \<times> bool \<Rightarrow> ref_pic_set \<Rightarrow> ref_pic_set option" where
  "store_lt maxLSB cur pics = (\<lambda>(i, e, u) r. do {
     let cycle = (cur - getLSB cur maxLSB - lt_msb e) div maxLSB;
     r \<leftarrow> setPOC i (lt_poc e) r;
     r \<leftarrow> setDeltaPOC i (- cur + lt_poc e) r;
     r \<leftarrow> setUsed i u r;
     r \<leftarrow> setPocLSBLT i (lt_lsb e) r;
     r \<leftarrow> setDeltaPocMSBCycleLT i cycle r;
     r \<leftarrow> setDeltaPocMSBPresentFlag i (msb_needed maxLSB pics e) r;
     check_not (cycle < 0);
     Some r })"

fun used_flags :: "ref_pic_set \<Rightarrow> lt_entry list \<Rightarrow> bool list option" where
  "used_flags r [] = Some []"
| "used_flags r (e # es) = do { u \<leftarrow> getUsed r (lt_index e); us \<leftarrow> used_flags r es; Some (u # us) }"

definition distinct_lt :: "ref_pic_set \<Rightarrow> int \<Rightarrow> int list \<Rightarrow> unit option" where
  "distinct_lt r i js = for_loop (\<lambda>j u. do { p \<leftarrow> getPOC r i; q \<leftarrow> getPOC r j; check_not (p = q) }) js ()"

text \<open>The positions of the long-term pictures, last one first.\<close>

definition lt_positions :: "ref_pic_set \<Rightarrow> int list" where
  "lt_positions r = rev [numberOfNegativePictures r + numberOfPositivePictures r..numberOfPictures r - 1]"

definition arrangeLongtermPicturesInRPS :: "nat \<Rightarrow> int \<Rightarrow> int \<Rightarrow> picture list \<Rightarrow> ref_pic_set \<Rightarrow> ref_pic_set option" where
  "arrangeLongtermPicturesInRPS bitsForPOC cur rpsIdx pics r =
     (if numberOfLongtermPictures r = 0 then Some r
      else do {
        check_not (rpsIdx \<noteq> - 1);
        let offset = numberOfNegativePictures r + numberOfPositivePictures r;
        check_not (bitsForPOC \<ge> 31);
        let maxLSB = 2 ^ bitsForPOC;
        es \<leftarrow> collect_lt maxLSB r (lt_positions r) [];
        check_not (int (length es) \<noteq> numberOfLongtermPictures r);
        es \<leftarrow> sort_lt (length es) es;
        us \<leftarrow> used_flags r es;
        r \<leftarrow> for_loop (store_lt maxLSB cur pics) (zip (lt_positions r) (zip es us)) r;
        _ \<leftarrow> for_loop (\<lambda>i u. distinct_lt r i (rev [offset..i - 1])) (lt_positions r) ();
        Some r })"

section \<open>Writer\<close>

fun find_ltrp :: "sps \<Rightarrow> int \<Rightarrow> bool \<Rightarrow> nat list \<Rightarrow> nat option option" where
  "find_ltrp x lsb usedFlag [] = Some None"
| "find_ltrp x lsb usedFlag (k # ks) = do {
     v \<leftarrow> getLtRefPicPocLsbSps x k;
     u \<leftarrow> getUsedByCurrPicLtSPSFlag x k;
     if lsb = int v \<and> usedFlag = u then Some (Some k) else find_ltrp x lsb usedFlag ks }"

definition xFindMatchingLTRP :: "sps \<Rightarrow> int \<Rightarrow> bool \<Rightarrow> nat option option" where
  "xFindMatchingLTRP x ltrpPOC usedFlag = do {
     check_not (m_uiBitsForPOC x \<ge> 31);
     find_ltrp x (ltrpPOC AND (2 ^ m_uiBitsForPOC x - 1)) usedFlag [0..<m_numLongTermRefPicSPS x] }"

text \<open>The array \<open>ltrpInSPS\<close>, of \<open>MAX_NUM_REF_PICS\<close> entries.\<close>

fun match_ltrps :: "sps \<Rightarrow> ref_pic_set \<Rightarrow> int list \<Rightarrow> nat list \<Rightarrow> nat list option" where
  "match_ltrps x r [] ltrpInSPS = Some ltrpInSPS"
| "match_ltrps x r (k # ks) ltrpInSPS = do {
     p \<leftarrow> getPOC r k;
     u \<leftarrow> getUsed r k;
     f \<leftarrow> xFindMatchingLTRP x p u;
     case f of None \<Rightarrow> match_ltrps x r ks ltrpInSPS
     | Some i \<Rightarrow> do { check_not (length ltrpInSPS \<ge> MAX_NUM_REF_PICS); match_ltrps x r ks (ltrpInSPS @ [i]) } }"

text \<open>The loop over the long-term pictures; its state is \<open>counter\<close>, \<open>prevDeltaMSB\<close> and \<open>prevLSB\<close>.\<close>

definition code_lt_pic :: "sps \<Rightarrow> ref_pic_set \<Rightarrow> nat list \<Rightarrow> nat \<Rightarrow> int \<Rightarrow> nat \<Rightarrow> obs \<Rightarrow> obs option" where
  "code_lt_pic x r ltrpInSPS bitsForLtrpInSPS i counter s =
     (if counter < length ltrpInSPS then
        if bitsForLtrpInSPS > 0 then xWriteCode (ltrpInSPS ! counter) bitsForLtrpInSPS s else Some s
      else do {
        lsb \<leftarrow> arr_get_i (pocLSBLT r) i;
        s \<leftarrow> xWriteCode (to_u32 lsb) (m_uiBitsForPOC x) s;
        u \<leftarrow> getUsed r i;
        xWriteFlag (of_bool u) s })"

definition code_msb_cycle :: "int \<Rightarrow> nat \<Rightarrow> int \<Rightarrow> int \<Rightarrow> int \<Rightarrow> int \<Rightarrow> int \<Rightarrow> obs \<Rightarrow> obs option" where
  "code_msb_cycle n numLtrpInSPS i lsb cyc prevDeltaMSB prevLSB s =
     (if i = n - 1 \<or> i = n - 1 - int numLtrpInSPS \<or> lsb \<noteq> prevLSB then xWriteUvlc (to_u32 cyc) s
      else do {
        let differenceInDeltaMSB = cyc - prevDeltaMSB;
        check_not (differenceInDeltaMSB < 0);
        xWriteUvlc (to_u32 differenceInDeltaMSB) s })"

fun code_lt_pics :: "sps \<Rightarrow> ref_pic_set \<Rightarrow> nat list \<Rightarrow> nat \<Rightarrow> int list \<Rightarrow> nat \<Rightarrow> int \<times> int \<Rightarrow> obs \<Rightarrow> obs option" where
  "code_lt_pics x r ltrpInSPS bitsForLtrpInSPS [] counter prev s = Some s"
| "code_lt_pics x r ltrpInSPS bitsForLtrpInSPS (i # is) counter prev s = do {
     s \<leftarrow> code_lt_pic x r ltrpInSPS bitsForLtrpInSPS i counter s;
     present \<leftarrow> arr_get_i (deltaPocMSBPresentFlag r) i;
     s \<leftarrow> xWriteFlag (of_bool present) s;
     lsb \<leftarrow> arr_get_i (pocLSBLT r) i;
     cyc \<leftarrow> arr_get_i (deltaPOCMSBCycleLT r) i;
     s \<leftarrow> (if present then code_msb_cycle (numberOfPictures r) (length ltrpInSPS) i lsb cyc (fst prev) (snd prev) s else Some s);
     code_lt_pics x r ltrpInSPS bitsForLtrpInSPS is (counter + 1) (if present then (cyc, lsb) else prev) s }"

definition code_long_term :: "sps \<Rightarrow> ref_pic_set \<Rightarrow> obs \<Rightarrow> obs option" where
  "code_long_term x r s = do {
     let n = numberOfPictures r;
     ltrpInSPS \<leftarrow> match_ltrps x r (rev [n - numberOfLongtermPictures r..n - 1]) [];
     let numLtrpInSPS = length ltrpInSPS;
     let numLtrpInSH = numberOfLongtermPictures r - int numLtrpInSPS;
     check_not (numLtrpInSH \<noteq> 0 \<and> numLtrpInSPS \<noteq> 0);
     bitsForLtrpInSPS \<leftarrow> bits_for (int (m_numLongTermRefPicSPS x));
     s \<leftarrow> (if m_numLongTermRefPicSPS x > 0 then xWriteUvlc numLtrpInSPS s else Some s);
     s \<leftarrow> xWriteUvlc (to_u32 numLtrpInSH) s;
     code_lt_pics x r ltrpInSPS bitsForLtrpInSPS (lt_positions r) 0 (0, 0) s }"

section \<open>Parser\<close>

definition parse_lt_pic :: "sps \<Rightarrow> nat \<Rightarrow> nat \<Rightarrow> int \<Rightarrow> nat \<Rightarrow> ref_pic_set \<Rightarrow> ibs \<Rightarrow> ((nat \<times> ref_pic_set) \<times> ibs) option" where
  "parse_lt_pic x numLtrpInSPS bitsForLtrpInSPS j k r s =
     (if k < numLtrpInSPS then do {
        (uiCode, s) \<leftarrow> (if bitsForLtrpInSPS > 0 then xReadCode bitsForLtrpInSPS s else Some (0, s));
        usedByCurrFromSPS \<leftarrow> getUsedByCurrPicLtSPSFlag x uiCode;
        pocLsbLt \<leftarrow> getLtRefPicPocLsbSps x uiCode;
        r \<leftarrow> setUsed j usedByCurrFromSPS r;
        Some ((pocLsbLt, r), s)
      } else do {
        (pocLsbLt, s) \<leftarrow> xReadCode (m_uiBitsForPOC x) s;
        (uiCode, s) \<leftarrow> xReadFlag s;
        r \<leftarrow> setUsed j (uiCode \<noteq> 0) r;
        Some ((pocLsbLt, r), s) })"

text \<open>\<open>first_in_sh\<close> is the comparison of \<open>j\<close> with \<open>offset + (numOfLtrp - numLtrpInSPS) - 1\<close>, which is made on \<open>uint32_t\<close>.\<close>

definition first_in_sh :: "int \<Rightarrow> nat \<Rightarrow> nat \<Rightarrow> int \<Rightarrow> bool" where
  "first_in_sh offset numOfLtrp numLtrpInSPS j \<longleftrightarrow> to_u32 j = to_u32 (offset + int (sub32 numOfLtrp numLtrpInSPS) - 1)"

definition lt_with_cycle :: "nat \<Rightarrow> int \<Rightarrow> int \<Rightarrow> int \<Rightarrow> nat \<Rightarrow> nat \<Rightarrow> int \<Rightarrow> nat \<Rightarrow> int \<Rightarrow> nat \<Rightarrow> ref_pic_set \<Rightarrow> (int \<times> ref_pic_set) option" where
  "lt_with_cycle bits cur iPOClsb offset numOfLtrp numLtrpInSPS j pocLsbLt prevDeltaMSB uiCode r = do {
     let deltaFlag = (j = offset + numberOfLongtermPictures r - 1 \<or> first_in_sh offset numOfLtrp numLtrpInSPS j);
     let cycle = to_i32 (if deltaFlag then uiCode else u32 (uiCode + to_u32 prevDeltaMSB));
     m \<leftarrow> i32 (cycle * 2 ^ bits);
     c \<leftarrow> i32 (cur - m);
     c \<leftarrow> i32 (c - iPOClsb);
     c \<leftarrow> i32 (c + int pocLsbLt);
     r \<leftarrow> setPOC j c r;
     r \<leftarrow> setDeltaPOC j (- cur + c) r;
     r \<leftarrow> setCheckLTMSBPresent j True r;
     Some (cycle, r) }"

definition lt_without_cycle :: "int \<Rightarrow> int \<Rightarrow> nat \<Rightarrow> nat \<Rightarrow> int \<Rightarrow> nat \<Rightarrow> int \<Rightarrow> ref_pic_set \<Rightarrow> (int \<times> ref_pic_set) option" where
  "lt_without_cycle cur offset numOfLtrp numLtrpInSPS j pocLsbLt prevDeltaMSB r = do {
     r \<leftarrow> setPOC j (int pocLsbLt) r;
     r \<leftarrow> setDeltaPOC j (- cur + int pocLsbLt) r;
     r \<leftarrow> setCheckLTMSBPresent j False r;
     Some (if first_in_sh offset numOfLtrp numLtrpInSPS j then 0 else prevDeltaMSB, r) }"

definition parse_lt_msb :: "nat \<Rightarrow> int \<Rightarrow> int \<Rightarrow> int \<Rightarrow> nat \<Rightarrow> nat \<Rightarrow> int \<Rightarrow> nat \<Rightarrow> int \<Rightarrow> ref_pic_set \<Rightarrow> ibs
    \<Rightarrow> ((int \<times> ref_pic_set) \<times> ibs) option" where
  "parse_lt_msb bits cur iPOClsb offset numOfLtrp numLtrpInSPS j pocLsbLt prevDeltaMSB r s = do {
     (mSBPresentFlag, s) \<leftarrow> xReadFlag s;
     if mSBPresentFlag \<noteq> 0 then do {
       (uiCode, s) \<leftarrow> xReadUvlc s;
       y \<leftarrow> lt_with_cycle bits cur iPOClsb offset numOfLtrp numLtrpInSPS j pocLsbLt prevDeltaMSB uiCode r;
       Some (y, s)
     } else do {
       y \<leftarrow> lt_without_cycle cur offset numOfLtrp numLtrpInSPS j pocLsbLt prevDeltaMSB r;
       Some (y, s)
     } }"

text \<open>At the end of each round \<open>prevDeltaMSB\<close> and \<open>deltaPocMSBCycleLT\<close> are equal; \<open>j\<close> is \<open>offset + L - 1 - k\<close>.\<close>

definition parse_lt_step :: "sps \<Rightarrow> int \<Rightarrow> int \<Rightarrow> int \<Rightarrow> nat \<Rightarrow> nat \<Rightarrow> nat \<Rightarrow> nat \<Rightarrow> int \<times> ref_pic_set \<Rightarrow> ibs
    \<Rightarrow> ((int \<times> ref_pic_set) \<times> ibs) option" where
  "parse_lt_step x cur iPOClsb offset numOfLtrp numLtrpInSPS bitsForLtrpInSPS k = (\<lambda>(prevDeltaMSB, r) s. do {
     let j = offset + numberOfLongtermPictures r - 1 - int k;
     ((pocLsbLt, r), s) \<leftarrow> parse_lt_pic x numLtrpInSPS bitsForLtrpInSPS j k r s;
     parse_lt_msb (m_uiBitsForPOC x) cur iPOClsb offset numOfLtrp numLtrpInSPS j pocLsbLt prevDeltaMSB r s })"

definition parse_long_term :: "sps \<Rightarrow> int \<Rightarrow> int \<Rightarrow> ref_pic_set \<Rightarrow> ibs \<Rightarrow> (ref_pic_set \<times> ibs) option" where
  "parse_long_term x cur iPOClsb r s = do {
     let offset = numberOfNegativePictures r + numberOfPositivePictures r;
     (numLtrpInSPS, s) \<leftarrow> (if m_numLongTermRefPicSPS x > 0 then xReadUvlc s else Some (0, s));
     bitsForLtrpInSPS \<leftarrow> bits_for (int (m_numLongTermRefPicSPS x));
     (uiCode, s) \<leftarrow> xReadUvlc s;
     let numOfLtrp = u32 (numLtrpInSPS + uiCode);
     let r = r\<lparr>numberOfLongtermPictures := to_i32 numOfLtrp\<rparr>;
     check_not (m_uiBitsForPOC x \<ge> 31);
     ((_, r), s) \<leftarrow> read_loop (parse_lt_step x cur iPOClsb offset numOfLtrp numLtrpInSPS bitsForLtrpInSPS) [0..<numOfLtrp] (0, r) s;
     Some (r\<lparr>numberOfPictures := offset + numberOfLongtermPictures r\<rparr>, s) }"

section \<open>Short-term pictures\<close>

definition code_short_term :: "sps \<Rightarrow> int \<Rightarrow> ref_pic_set \<Rightarrow> obs \<Rightarrow> obs option" where
  "code_short_term x rpsIdx r s =
     (if rpsIdx < 0 then do {
        s \<leftarrow> xWriteFlag 0 s;
        xCodeShortTermRefPicSet r True (int (length (m_RPSList x))) s
      } else do {
        s \<leftarrow> xWriteFlag 1 s;
        numBits \<leftarrow> bits_for (int (length (m_RPSList x)));
        if numBits > 0 then xWriteCode (to_u32 rpsIdx) numBits s else Some s })"

definition parse_short_term :: "sps \<Rightarrow> ref_pic_set \<Rightarrow> ibs \<Rightarrow> (ref_pic_set \<times> ibs) option" where
  "parse_short_term x r s = do {
     (uiCode, s) \<leftarrow> xReadFlag s;
     if uiCode = 0 then parseShortTermRefPicSet (m_RPSList x) r (int (length (m_RPSList x))) s
     else do {
       numBits \<leftarrow> bits_for (int (length (m_RPSList x)));
       (uiCode, s) \<leftarrow> (if numBits > 0 then xReadCode numBits s else Some (0, s));
       r \<leftarrow> arr_get (m_RPSList x) uiCode;
       Some (r, s) } }"

section \<open>Laws of the low bits\<close>

lemma bits_for_law:
  assumes "n \<le> 2 ^ 30"
  obtains k where "bits_for n = Some k" "k \<le> 30" "n \<le> 2 ^ k" "0 < k \<Longrightarrow> 2 ^ (k - 1) < n"
proof -
  have "\<exists>k. bits_from n j = Some k \<and> k \<le> 30 \<and> n \<le> 2 ^ k \<and> (0 < k \<longrightarrow> 2 ^ (k - 1) < n)"
    if "j \<le> 30" "0 < j \<longrightarrow> 2 ^ (j - 1) < n" for j
    using that
  proof (induction "30 - j" arbitrary: j)
    case 0
    then show ?case using assms by (subst bits_from.simps) auto
  next
    case (Suc m)
    show ?case
    proof (cases "2 ^ j < n")
      case True
      have "j \<noteq> 30" using True assms by auto
      then show ?thesis using Suc True by (subst bits_from.simps) simp
    next
      case False
      then show ?thesis using Suc.prems by (subst bits_from.simps) auto
    qed
  qed
  from this [of 0] show ?thesis using that by (auto simp: bits_for_def)
qed

lemma getLSB_mod: "0 < m \<Longrightarrow> getLSB p m = p mod m"
proof (cases "p \<ge> 0")
  case False
  assume m: "0 < m"
  have "(m - (- p) mod m) mod m = (0 - (- p)) mod m" by (metis mod_diff_eq mod_mod_trivial mod_self)
  then show ?thesis using False by (simp add: getLSB_def)
qed (simp add: getLSB_def)

lemma and_low_bits: "(a :: int) AND (2 ^ n - 1) = a mod 2 ^ n"
  by (simp flip: mask_eq_exp_minus_1 take_bit_eq_mask add: take_bit_eq_mod)

lemma bits_fit:
  assumes "n \<in> {4..16}"
  shows "(16 :: int) \<le> 2 ^ n" "(2 :: int) ^ n \<le> 65536"
  using power_increasing [of 4 n "2 :: int"] power_increasing [of n 16 "2 :: int"] assms by simp_all

lemma codes_poc_lsb:
  assumes "m_uiBitsForPOC x \<in> {4..16}" "\<bar>c\<bar> < 2 ^ 30" "\<bar>lastIDR\<bar> < 2 ^ 29"
  shows "vlc.codes (code_poc_lsb x c lastIDR) (xReadCode (m_uiBitsForPOC x)) (nat ((c - lastIDR) mod 2 ^ m_uiBitsForPOC x))"
proof -
  let ?b = "m_uiBitsForPOC x" and ?d = "c - lastIDR"
  note b = bits_fit [OF assms(1)]
  have m: "(?d + 2 ^ ?b) AND (2 ^ ?b - 1) = ?d mod 2 ^ ?b" by (simp add: and_low_bits)
  have l: "0 \<le> ?d mod 2 ^ ?b" "?d mod 2 ^ ?b < 2 ^ ?b" by simp_all
  have "?d mod 2 ^ ?b < 2 ^ 32" by (rule less_le_trans [OF l(2)]) (use b in simp)
  with l have u: "to_u32 (?d mod 2 ^ ?b) = nat (?d mod 2 ^ ?b)" by simp
  have i: "i32 ?d = Some ?d" "i32 (?d + 2 ^ ?b) = Some (?d + 2 ^ ?b)" using assms b by (auto simp: i32_def)
  have "code_poc_lsb x c lastIDR = xWriteCode (nat (?d mod 2 ^ ?b)) ?b"
    using assms(1) by (simp add: code_poc_lsb_def fun_eq_iff i m u)
  then show ?thesis using assms(1) l by (simp add: codes_code nat_less_iff)
qed

text \<open>The value that the parser arrives at: the only one in the window around the previous picture with these low bits.\<close>

lemma complete_poc_law:
  assumes b: "b \<in> {4..16}" and r: "\<bar>c\<bar> < 2 ^ 30" "\<bar>prev\<bar> < 2 ^ 30"
    and nut: "nut \<notin> {NAL_UNIT_CODED_SLICE_BLA_W_LP, NAL_UNIT_CODED_SLICE_BLA_W_RADL, NAL_UNIT_CODED_SLICE_BLA_N_LP}"
  shows "complete_poc b prev nut (c mod 2 ^ b) = Some c \<longleftrightarrow> - (2 ^ b) < 2 * (c - prev) \<and> 2 * (c - prev) \<le> 2 ^ b"
proof -
  define M where "M = (2 :: int) ^ b"
  have "(2 :: int) ^ b = 2 * 2 ^ (b - 1)" using b by (cases b) auto
  then obtain H where H: "M = 2 * H" by (auto simp: M_def)
  have M: "16 \<le> M" "M \<le> 65536" using bits_fit [OF b] by (simp_all add: M_def)
  define p q where "p = prev mod M" and "q = c mod M"
  have p: "0 \<le> p" "p < M" "0 \<le> q" "q < M" using M by (simp_all add: p_def q_def)
  obtain i j where i: "prev = M * i + p" and j: "c = M * j + q" by (metis p_def q_def div_mult_mod_eq mult.commute)
  have d: "c - prev = M * (j - i) + (q - p)" by (simp add: i j algebra_simps)
  have lo: "prev - p = M * i" by (simp add: i)
  have fit: "\<bar>M * i\<bar> < 2 ^ 30 + 65536" using p M r i by linarith
  define k where "k = (if q < p \<and> p - q \<ge> H then i + 1 else if q > p \<and> q - p > H then i - 1 else i)"
  have eval: "complete_poc b prev nut q = Some (M * k + q)"
  proof -
    have e: "\<not> 31 \<le> b" "prev AND (M - 1) = p" "(2 :: int) ^ b = M" using b by (simp_all add: and_low_bits p_def M_def)
    have h: "M div 2 = H" using H by simp
    have f: "i32 (M * i + M) = Some (M * i + M)" "i32 (M * i - M) = Some (M * i - M)" "i32 (M * k + q) = Some (M * k + q)"
      using fit p M by (auto simp: i32_def k_def algebra_simps)
    show ?thesis unfolding complete_poc_def Let_def e h lo
      using e(1) nut f by (auto simp: k_def algebra_simps)
  qed
  have win: "- M < 2 * (M * k + q - prev) \<and> 2 * (M * k + q - prev) \<le> M"
    using p H by (auto simp: k_def i algebra_simps)
  have "M * k + q = c \<longleftrightarrow> - M < 2 * (c - prev) \<and> 2 * (c - prev) \<le> M"
  proof
    assume a: "- M < 2 * (c - prev) \<and> 2 * (c - prev) \<le> M"
    have "2 * (M * k + q - c) < 2 * M" "- (2 * M) < 2 * (M * k + q - c)" using a win by (auto simp: algebra_simps)
    then have "\<bar>M * (k - j)\<bar> < M" by (simp add: j algebra_simps)
    then have "M * \<bar>k - j\<bar> < M * 1" using M by (simp add: abs_mult)
    then have "k = j" using M by (subst (asm) mult_less_cancel_left_pos) auto
    then show "M * k + q = c" by (simp add: j)
  qed (use win in auto)
  then show ?thesis using eval by (simp add: q_def M_def)
qed

section \<open>Candidates of the SPS\<close>

definition lt_sps_wf :: "sps \<Rightarrow> bool" where
  "lt_sps_wf x \<longleftrightarrow> m_uiBitsForPOC x \<in> {4..16} \<and> m_numLongTermRefPicSPS x \<le> 33
     \<and> length (m_ltRefPicPocLsbSps x) = 33 \<and> length (m_usedByCurrPicLtSPSFlag x) = 33"

definition candidate :: "sps \<Rightarrow> int \<Rightarrow> bool \<Rightarrow> nat option" where
  "candidate x p u = List.find (\<lambda>k. p mod 2 ^ m_uiBitsForPOC x = int (m_ltRefPicPocLsbSps x ! k) \<and> u = m_usedByCurrPicLtSPSFlag x ! k)
     [0..<m_numLongTermRefPicSPS x]"

lemma find_ltrp_law:
  assumes "lt_sps_wf x" "\<forall>k\<in>set ks. k < 33"
  shows "find_ltrp x l u ks = Some (List.find (\<lambda>k. l = int (m_ltRefPicPocLsbSps x ! k) \<and> u = m_usedByCurrPicLtSPSFlag x ! k) ks)"
  using assms(2) assms(1)
  by (induction ks) (auto simp: lt_sps_wf_def getLtRefPicPocLsbSps_def getUsedByCurrPicLtSPSFlag_def MAX_NUM_LONG_TERM_REF_PICS_def)

lemma xFindMatchingLTRP_law: "lt_sps_wf x \<Longrightarrow> xFindMatchingLTRP x p u = Some (candidate x p u)"
  using find_ltrp_law [of x "[0..<m_numLongTermRefPicSPS x]"]
  by (simp add: xFindMatchingLTRP_def candidate_def and_low_bits lt_sps_wf_def)

lemma candidateD:
  "candidate x p u = Some k \<Longrightarrow> k < m_numLongTermRefPicSPS x \<and> int (m_ltRefPicPocLsbSps x ! k) = p mod 2 ^ m_uiBitsForPOC x
     \<and> m_usedByCurrPicLtSPSFlag x ! k = u"
  unfolding candidate_def find_Some_iff by auto

lemma match_ltrps_law:
  assumes "lt_sps_wf x" "rps_wf r" "\<forall>k\<in>set ks. k < 16" "length acc + length ks \<le> 16"
  shows "match_ltrps x r (map int ks) acc = Some (acc @ List.map_filter (\<lambda>k. candidate x (POC r ! k) (used r ! k)) ks)"
  using assms(3,4)
proof (induction ks arbitrary: acc)
  case (Cons k ks)
  then have "getPOC r (int k) = Some (POC r ! k)" "getUsed r (int k) = Some (used r ! k)"
    using assms(2) by (simp_all add: RefPicSet.getPOC_def getUsed_def rps_wf_def MAX_NUM_REF_PICS_def)
  then show ?case using Cons by (auto simp: xFindMatchingLTRP_law [OF assms(1)] MAX_NUM_REF_PICS_def map_filter_simps split: option.split)
qed (simp add: map_filter_simps)

lemma map_filter_none: "\<forall>k\<in>set ks. f k = None \<Longrightarrow> List.map_filter f ks = []"
  by (induction ks) (auto simp: map_filter_simps)

lemma map_filter_all: "\<forall>k\<in>set ks. f k \<noteq> None \<Longrightarrow> List.map_filter f ks = map (\<lambda>k. the (f k)) ks"
  by (induction ks) (auto simp: map_filter_simps)

section \<open>What the parser receives\<close>

text \<open>
  The state of writer and parser after \<open>k\<close> long-term pictures: the writer remembers the cycle and the low bits of
  the last picture sent with a cycle, the parser the last cycle that it computed.
\<close>

primrec lt_state :: "ref_pic_set \<Rightarrow> nat \<Rightarrow> nat \<Rightarrow> int \<times> int \<times> int" where
  "lt_state r n 0 = (0, 0, 0)"
| "lt_state r n (Suc k) = (let (d, l, c) = lt_state r n k; i = n - 1 - k; cyc = deltaPOCMSBCycleLT r ! i; lsb = pocLSBLT r ! i in
     if deltaPocMSBPresentFlag r ! i then (cyc, lsb, if k = 0 then cyc else (if lsb \<noteq> l then cyc else cyc - d) + c) else (d, l, c))"

definition lt_value :: "int \<Rightarrow> nat \<Rightarrow> ref_pic_set \<Rightarrow> nat \<Rightarrow> nat \<Rightarrow> int" where
  "lt_value cur b r n i = (if deltaPocMSBPresentFlag r ! i
     then cur - snd (snd (lt_state r n (n - i))) * 2 ^ b - cur mod 2 ^ b + pocLSBLT r ! i else pocLSBLT r ! i)"

definition lt_partial :: "int \<Rightarrow> nat \<Rightarrow> ref_pic_set \<Rightarrow> nat \<Rightarrow> ref_pic_set \<Rightarrow> nat \<Rightarrow> ref_pic_set" where
  "lt_partial cur b r n r0 k = r0\<lparr>used := copied (n - k) k (used r) (used r0),
     POC := copied (n - k) k (map (lt_value cur b r n) [0..<16]) (POC r0),
     deltaPOC := copied (n - k) k (map (\<lambda>i. - cur + lt_value cur b r n i) [0..<16]) (deltaPOC r0),
     bCheckLTMSB := copied (n - k) k (deltaPocMSBPresentFlag r) (bCheckLTMSB r0)\<rparr>"

lemma copied_before: "k < n \<Longrightarrow> n \<le> length es \<Longrightarrow> (copied (n - k) k src es)[n - Suc k := src ! (n - Suc k)] = copied (n - Suc k) (Suc k) src es"
  by (rule nth_equalityI) (auto simp: nth_copied nth_list_update simp del: copied_simps)

lemma lt_partial_0 [simp]: "lt_partial cur b r n r0 0 = r0"
  by (simp add: lt_partial_def)

lemma lt_partial_sel [simp]:
  "numberOfLongtermPictures (lt_partial cur b r n r0 k) = numberOfLongtermPictures r0"
  "numberOfNegativePictures (lt_partial cur b r n r0 k) = numberOfNegativePictures r0"
  "numberOfPositivePictures (lt_partial cur b r n r0 k) = numberOfPositivePictures r0"
  by (simp_all add: lt_partial_def)

text \<open>The sets that the syntax can carry: \<open>off\<close> short-term and \<open>L\<close> long-term pictures, in the order of increasing cycles.\<close>

definition lt_counts :: "ref_pic_set \<Rightarrow> nat \<Rightarrow> nat \<Rightarrow> bool" where
  "lt_counts r off L \<longleftrightarrow> numberOfNegativePictures r + numberOfPositivePictures r = int off
     \<and> numberOfPictures r = int (off + L) \<and> numberOfLongtermPictures r = int L \<and> off + L \<le> 16"

definition lt_codable :: "sps \<Rightarrow> ref_pic_set \<Rightarrow> nat \<Rightarrow> nat \<Rightarrow> bool" where
  "lt_codable x r off L \<longleftrightarrow> lt_sps_wf x \<and> rps_wf r \<and> lt_counts r off L
     \<and> (\<forall>i\<in>{off..<off + L}. pocLSBLT r ! i = POC r ! i mod 2 ^ m_uiBitsForPOC x \<and> 0 \<le> deltaPOCMSBCycleLT r ! i
        \<and> deltaPOCMSBCycleLT r ! i * 2 ^ m_uiBitsForPOC x \<le> 2 ^ 25)
     \<and> (\<forall>i\<in>{off..<off + L}. \<forall>j\<in>{i..<off + L}. deltaPOCMSBCycleLT r ! j \<le> deltaPOCMSBCycleLT r ! i)
     \<and> ((\<forall>i\<in>{off..<off + L}. candidate x (POC r ! i) (used r ! i) = None) \<or> (\<forall>i\<in>{off..<off + L}. candidate x (POC r ! i) (used r ! i) \<noteq> None))"

lemma lt_state_bounds:
  assumes "\<forall>i\<in>{off..<off + L}. 0 \<le> deltaPOCMSBCycleLT r ! i \<and> deltaPOCMSBCycleLT r ! i * M \<le> B"
    and "\<forall>i\<in>{off..<off + L}. \<forall>j\<in>{i..<off + L}. deltaPOCMSBCycleLT r ! j \<le> deltaPOCMSBCycleLT r ! i"
    and "lt_state r (off + L) k = (d, l, c)" "k \<le> L" "0 < M" "0 \<le> B"
  shows "0 \<le> d \<and> (k < L \<longrightarrow> d \<le> deltaPOCMSBCycleLT r ! (off + L - 1 - k)) \<and> 0 \<le> c \<and> c * M \<le> int k * B"
  using assms(3,4)
proof (induction k arbitrary: d l c)
  case 0
  then show ?case using assms(1) by auto
next
  case (Suc k)
  obtain d' l' c' where e: "lt_state r (off + L) k = (d', l', c')" by (metis prod_cases3)
  let ?i = "off + L - 1 - k"
  have i: "?i \<in> {off..<off + L}" using Suc.prems by auto
  have IH: "0 \<le> d'" "d' \<le> deltaPOCMSBCycleLT r ! ?i" "0 \<le> c'" "c' * M \<le> int k * B"
    using Suc.IH [OF e] Suc.prems by auto
  have cyc: "0 \<le> deltaPOCMSBCycleLT r ! ?i" "deltaPOCMSBCycleLT r ! ?i * M \<le> B" using assms(1) i by auto
  have nxt: "Suc k < L \<Longrightarrow> deltaPOCMSBCycleLT r ! ?i \<le> deltaPOCMSBCycleLT r ! (off + L - 1 - Suc k)"
    using assms(2) by auto
  have m: "(deltaPOCMSBCycleLT r ! ?i - d') * M \<le> B"
    using mult_right_mono [of "deltaPOCMSBCycleLT r ! ?i - d'" "deltaPOCMSBCycleLT r ! ?i" M] IH(1) cyc assms(5) by linarith
  show ?case
  proof (cases "deltaPocMSBPresentFlag r ! ?i")
    case True
    then show ?thesis using Suc.prems(1) e IH cyc nxt m assms(6)
      by (auto simp: Let_def distrib_right split: if_splits)
  next
    case False
    then show ?thesis using Suc.prems(1) e IH nxt assms(6) by (auto simp: Let_def distrib_right)
  qed
qed

section \<open>Round trip of the long-term pictures\<close>

lemma first_in_sh_law:
  assumes "off + L \<le> 16" "off \<le> j" "j < off + L" "m = 0 \<or> m = L"
  shows "first_in_sh (int off) L m (int j) \<longleftrightarrow> m = 0 \<and> j = off + L - 1"
proof (cases "m = 0")
  case True
  have s: "sub32 L 0 = L" using assms by (simp add: sub32_ge)
  have "to_u32 (int j) = j" "to_u32 (int off + int L - 1) = off + L - 1" using assms by (auto simp: to_u32_def nat_diff_distrib nat_add_distrib)
  then show ?thesis using True s by (simp add: first_in_sh_def)
next
  case False
  then have m: "m = L" "sub32 L L = 0" using assms by (simp_all add: sub32_ge)
  have "to_u32 (int off - 1) \<noteq> j"
  proof (cases "off = 0")
    case True
    have "to_u32 (- 1) = 2 ^ 32 - 1" by (simp add: to_u32_def)
    then show ?thesis using True assms by simp
  next
    case False
    then have "to_u32 (int off - 1) = off - 1" using assms by (auto simp: to_u32_def)
    then show ?thesis using False assms by simp
  qed
  moreover have "to_u32 (int j) = j" using assms by (simp add: to_u32_def)
  ultimately show ?thesis using m False by (auto simp: first_in_sh_def)
qed

definition sps_matches :: "sps \<Rightarrow> ref_pic_set \<Rightarrow> nat \<Rightarrow> nat \<Rightarrow> nat list \<Rightarrow> bool" where
  "sps_matches x r n L lt \<longleftrightarrow> lt = [] \<or> length lt = L \<and> (\<forall>k<L. lt ! k < m_numLongTermRefPicSPS x
     \<and> int (m_ltRefPicPocLsbSps x ! (lt ! k)) = pocLSBLT r ! (n - 1 - k) \<and> m_usedByCurrPicLtSPSFlag x ! (lt ! k) = used r ! (n - 1 - k))"

lemma codes_lt_pic:
  assumes x: "lt_sps_wf x" and lt: "sps_matches x src n L lt" and bits: "bits_for (int (m_numLongTermRefPicSPS x)) = Some bits"
    and wf: "rps_wf src" "i < 16" "length (used r) = 16" and k: "k < L" "i = n - 1 - k"
    and lsb: "pocLSBLT src ! i = p mod 2 ^ m_uiBitsForPOC x"
  shows "vlc.codes (code_lt_pic x src lt bits (int i) k) (parse_lt_pic x (length lt) bits (int i) k r)
    (nat (pocLSBLT src ! i), r\<lparr>used := (used r)[i := used src ! i]\<rparr>)"
proof -
  let ?b = "m_uiBitsForPOC x"
  have set: "setUsed (int i) u r = Some (r\<lparr>used := (used r)[i := u]\<rparr>)" for u using wf by (simp add: setUsed_def)
  have b: "?b \<in> {4..16}" "m_numLongTermRefPicSPS x \<le> 33" using x by (simp_all add: lt_sps_wf_def)
  obtain kb where kb: "bits_for (int (m_numLongTermRefPicSPS x)) = Some kb" "kb \<le> 30" "int (m_numLongTermRefPicSPS x) \<le> 2 ^ kb"
    by (rule bits_for_law [of "int (m_numLongTermRefPicSPS x)"]) (use b(2) in auto)
  have kb': "kb = bits" using kb(1) bits by simp
  show ?thesis
  proof (cases "k < length lt")
    case True
    let ?i = "lt ! k"
    have m: "?i < m_numLongTermRefPicSPS x" "int (m_ltRefPicPocLsbSps x ! ?i) = pocLSBLT src ! i" "m_usedByCurrPicLtSPSFlag x ! ?i = used src ! i"
      using lt True k by (auto simp: sps_matches_def)
    have g: "getUsedByCurrPicLtSPSFlag x ?i = Some (used src ! i)" "getLtRefPicPocLsbSps x ?i = Some (nat (pocLSBLT src ! i))"
      using m x by (auto simp: getUsedByCurrPicLtSPSFlag_def getLtRefPicPocLsbSps_def lt_sps_wf_def MAX_NUM_LONG_TERM_REF_PICS_def simp flip: m(2))
    have l: "int ?i < 2 ^ bits" using m(1) kb(3) unfolding kb' by linarith
    then have l: "?i < 2 ^ bits" by (metis of_nat_less_iff of_nat_numeral of_nat_power)
    have w: "code_lt_pic x src lt bits (int i) k = (\<lambda>s. if bits > 0 then xWriteCode ?i bits s else Some s)"
      using True by (simp add: code_lt_pic_def fun_eq_iff)
    have r: "parse_lt_pic x (length lt) bits (int i) k r = (\<lambda>s. (if bits > 0 then xReadCode bits s else Some (0, s)) \<bind> (\<lambda>(uiCode, s).
        getUsedByCurrPicLtSPSFlag x uiCode \<bind> (\<lambda>u. getLtRefPicPocLsbSps x uiCode \<bind> (\<lambda>l. setUsed (int i) u r \<bind> (\<lambda>r. Some ((l, r), s))))))"
      using True by (simp add: parse_lt_pic_def fun_eq_iff)
    have c: "vlc.codes (\<lambda>s. if bits > 0 then xWriteCode ?i bits s else Some s) (\<lambda>s. if bits > 0 then xReadCode bits s else Some (0, s)) ?i"
      by (rule vlc.codes_if [OF refl codes_code]) (use l kb kb' in \<open>auto simp: vlc.codes_return\<close>)
    show ?thesis unfolding w r by (rule vlc.codes_bind_end [OF c]) (simp add: g set vlc.codes_return)
  next
    case False
    have s: "0 \<le> pocLSBLT src ! i" "pocLSBLT src ! i < 2 ^ ?b" unfolding lsb by simp_all
    have "(2 :: int) ^ ?b < 2 ^ 32" using b(1) by (intro power_strict_increasing) auto
    then have u: "to_u32 (pocLSBLT src ! i) = nat (pocLSBLT src ! i)" using s by simp
    have l: "nat (pocLSBLT src ! i) < 2 ^ ?b" using s by (simp add: nat_less_iff)
    have w: "code_lt_pic x src lt bits (int i) k = (\<lambda>s. xWriteCode (nat (pocLSBLT src ! i)) ?b s \<bind> xWriteFlag (of_bool (used src ! i)))"
      using False wf by (simp add: code_lt_pic_def fun_eq_iff rps_wf_def MAX_NUM_REF_PICS_def getUsed_def u)
    have r: "parse_lt_pic x (length lt) bits (int i) k r = (\<lambda>s. xReadCode ?b s \<bind> (\<lambda>(l, s). xReadFlag s \<bind> (\<lambda>(uiCode, s).
        setUsed (int i) (uiCode \<noteq> 0) r \<bind> (\<lambda>r. Some ((l, r), s)))))"
      using False by (simp add: parse_lt_pic_def fun_eq_iff)
    show ?thesis unfolding w r
      by (rule step_code, use b in force, use b in force, rule l) (rule vlc.codes_bind_end [OF codes_flag_bool], simp add: set vlc.codes_return)
  qed
qed

lemma codes_lt_msb:
  assumes b: "b \<in> {4..16}" and L: "off + L \<le> 16" "off \<le> i" "i < off + L" "m = 0 \<or> m = L" "numberOfLongtermPictures r = int L"
    and len: "length (POC r) = 16" "length (deltaPOC r) = 16" "length (bCheckLTMSB r) = 16"
    and v: "0 \<le> lsb" "lsb < 2 ^ b" "0 \<le> cyc" "cyc * 2 ^ b \<le> 2 ^ 25" "0 \<le> d" "d \<le> cyc" "0 \<le> c" "c * 2 ^ b \<le> 15 * 2 ^ 25" "\<bar>cur\<bar> < 2 ^ 30"
    and c': "c' = (if present then if i = off + L - 1 then cyc else (if lsb \<noteq> l then cyc else cyc - d) + c else c)"
    and first: "i = off + L - 1 \<Longrightarrow> c = 0 \<and> d = 0"
    and val: "val = (if present then cur - c' * 2 ^ b - cur mod 2 ^ b + lsb else lsb)"
  shows "vlc.codes (\<lambda>s. xWriteFlag (of_bool present) s \<bind> (\<lambda>s. if present then code_msb_cycle (int (off + L)) m (int i) lsb cyc d l s else Some s))
    (parse_lt_msb b cur (cur mod 2 ^ b) (int off) L m (int i) (nat lsb) c r)
    (c', r\<lparr>POC := (POC r)[i := val], deltaPOC := (deltaPOC r)[i := - cur + val], bCheckLTMSB := (bCheckLTMSB r)[i := present]\<rparr>)"
proof -
  have i: "i < 16" using L by simp
  note M = bits_fit [OF b]
  have M0: "(0 :: int) < 2 ^ b" by simp
  have set: "setPOC (int i) p q = Some (q\<lparr>POC := (POC q)[i := p]\<rparr>)" "setDeltaPOC (int i) p q = Some (q\<lparr>deltaPOC := (deltaPOC q)[i := p]\<rparr>)"
    "setCheckLTMSBPresent (int i) e q = Some (q\<lparr>bCheckLTMSB := (bCheckLTMSB q)[i := e]\<rparr>)"
    if "length (POC q) = 16" "length (deltaPOC q) = 16" "length (bCheckLTMSB q) = 16" for p q e
    using that i by (simp_all add: setPOC_def setDeltaPOC_def setCheckLTMSBPresent_def)
  note fst = first_in_sh_law [OF L(1-4)]
  let ?up = "\<lambda>v. r\<lparr>POC := (POC r)[i := v], deltaPOC := (deltaPOC r)[i := - cur + v], bCheckLTMSB := (bCheckLTMSB r)[i := present]\<rparr>"
  show ?thesis
  proof (cases present)
    case False
    have e: "lt_without_cycle cur (int off) L m (int i) (nat lsb) c r = Some (c, ?up lsb)"
      using False first v(1) fst by (auto simp: lt_without_cycle_def set len)
    have w: "(\<lambda>s. xWriteFlag (of_bool present) s \<bind> (\<lambda>s. if present then code_msb_cycle (int (off + L)) m (int i) lsb cyc d l s else Some s))
      = xWriteFlag (of_bool False)" using False by simp
    show ?thesis unfolding w parse_lt_msb_def
      by (rule vlc.codes_bind_end [OF codes_flag_bool]) (use False e c' val in \<open>simp add: vlc.codes_return\<close>)
  next
    case True
    define code where "code = (if i = off + L - 1 \<or> lsb \<noteq> l then cyc else cyc - d)"
    have code: "0 \<le> code" "code \<le> cyc" "c' = (if i = off + L - 1 then code else code + c)"
      using v True c' by (auto simp: code_def)
    have cm: "code * 2 ^ b \<le> 2 ^ 25" using mult_right_mono [OF code(2) less_imp_le [OF M0]] v(4) by linarith
    have c16: "0 \<le> c'" "c' * 2 ^ b \<le> 16 * 2 ^ 25" using code v(7,8) cm by (auto simp: distrib_right)
    have small: "code \<le> 2 ^ 25" "c \<le> 15 * 2 ^ 25"
      using mult_left_mono [of 1 "2 ^ b" code] mult_left_mono [of 1 "2 ^ b" c] code v M cm by auto
    have w: "(\<lambda>s. xWriteFlag (of_bool present) s \<bind> (\<lambda>s. if present then code_msb_cycle (int (off + L)) m (int i) lsb cyc d l s else Some s))
      = (\<lambda>s. xWriteFlag (of_bool True) s \<bind> xWriteUvlc (nat code))"
    proof -
      have f: "(int i = int (off + L) - 1 \<or> int i = int (off + L) - 1 - int m \<or> lsb \<noteq> l) = (i = off + L - 1 \<or> lsb \<noteq> l)" using L by auto
      have u: "to_u32 code = nat code" using code(1) small(1) by simp
      have "code_msb_cycle (int (off + L)) m (int i) lsb cyc d l = xWriteUvlc (to_u32 code)"
        unfolding code_msb_cycle_def [abs_def] f using v(6) by (auto simp: code_def fun_eq_iff Let_def)
      then show ?thesis using True u by simp
    qed
    have val': "val = cur - c' * 2 ^ b - cur mod 2 ^ b + lsb" using True val by simp
    have i3: "i32 (c' * 2 ^ b) = Some (c' * 2 ^ b)" "i32 (cur - c' * 2 ^ b) = Some (cur - c' * 2 ^ b)"
      "i32 (cur - c' * 2 ^ b - cur mod 2 ^ b) = Some (cur - c' * 2 ^ b - cur mod 2 ^ b)" "i32 val = Some val"
    proof -
      have cm: "0 \<le> cur mod 2 ^ b" "cur mod 2 ^ b < 65536" using less_le_trans [OF pos_mod_bound [OF M0, of cur] M(2)] by simp_all
      have "i32 X = Some X \<and> i32 (cur - X) = Some (cur - X) \<and> i32 (cur - X - Y) = Some (cur - X - Y)
          \<and> i32 (cur - X - Y + lsb) = Some (cur - X - Y + lsb)" if "0 \<le> X" "X \<le> 16 * 2 ^ 25" "0 \<le> Y" "Y < 65536" for X Y
        using that v(1,2,9) M by (auto simp: i32_def)
      from this [of "c' * 2 ^ b" "cur mod 2 ^ b"] show "i32 (c' * 2 ^ b) = Some (c' * 2 ^ b)" "i32 (cur - c' * 2 ^ b) = Some (cur - c' * 2 ^ b)"
        "i32 (cur - c' * 2 ^ b - cur mod 2 ^ b) = Some (cur - c' * 2 ^ b - cur mod 2 ^ b)" "i32 val = Some val"
        using c16 cm by (simp_all add: val')
    qed
    have cyc: "to_i32 (if i = off + L - 1 \<or> m = 0 \<and> i = off + L - 1 then nat code else u32 (nat code + to_u32 c)) = c'"
    proof (cases "i = off + L - 1")
      case False
      have "u32 (nat code + to_u32 c) = nat code + nat c" using small code v(7) by (subst to_u32_nonneg) (auto simp: take_bit_nat_eq_self)
      then show ?thesis using False code small v(7) by (simp add: nat_add_distrib [symmetric] to_i32_def)
    qed (use code small in \<open>simp add: to_i32_def\<close>)
    have l: "nat code < 2 ^ 31 - 1" using small by simp
    have e: "lt_with_cycle b cur (cur mod 2 ^ b) (int off) L m (int i) (nat lsb) c (nat code) r = Some (c', ?up val)"
    proof -
      have n: "(int i = int off + numberOfLongtermPictures r - 1) = (i = off + L - 1)" using L by auto
      have s: "int (nat lsb) = lsb" using v(1) by simp
      show ?thesis unfolding lt_with_cycle_def Let_def n fst cyc
        using True v(1) by (simp add: i3 s val' [symmetric] set len)
    qed
    show ?thesis unfolding w parse_lt_msb_def
      by (rule step_flag) (simp, rule vlc.codes_bind_end [OF codes_uvlc [OF l]], simp add: e vlc.codes_return)
  qed
qed

lemma lt_partial_len:
  "rps_wf r0 \<Longrightarrow> length (used (lt_partial cur b r n r0 k)) = 16 \<and> length (POC (lt_partial cur b r n r0 k)) = 16
    \<and> length (deltaPOC (lt_partial cur b r n r0 k)) = 16 \<and> length (bCheckLTMSB (lt_partial cur b r n r0 k)) = 16"
  by (simp add: lt_partial_def rps_wf_def MAX_NUM_REF_PICS_def)

lemma lt_partial_Suc:
  assumes "rps_wf r0" "n \<le> 16" "k < n" "i = n - Suc k" "v = lt_value cur b r n i"
  shows "(lt_partial cur b r n r0 k)\<lparr>used := (used (lt_partial cur b r n r0 k))[i := used r ! i],
      POC := (POC (lt_partial cur b r n r0 k))[i := v], deltaPOC := (deltaPOC (lt_partial cur b r n r0 k))[i := - cur + v],
      bCheckLTMSB := (bCheckLTMSB (lt_partial cur b r n r0 k))[i := deltaPocMSBPresentFlag r ! i]\<rparr> = lt_partial cur b r n r0 (Suc k)"
proof -
  have l: "n \<le> length (used r0)" "n \<le> length (POC r0)" "n \<le> length (deltaPOC r0)" "n \<le> length (bCheckLTMSB r0)"
    using assms(1,2) by (simp_all add: rps_wf_def MAX_NUM_REF_PICS_def)
  have i: "i < 16" using assms by simp
  have m: "map f [0..<16] ! i = f i" for f :: "nat \<Rightarrow> int" using i by simp
  note c = copied_before [OF assms(3) l(1), of "used r"] copied_before [OF assms(3) l(2), of "map (lt_value cur b r n) [0..<16]"]
    copied_before [OF assms(3) l(3), of "map (\<lambda>i. - cur + lt_value cur b r n i) [0..<16]"] copied_before [OF assms(3) l(4), of "deltaPocMSBPresentFlag r"]
  show ?thesis using c m [of "lt_value cur b r n"] m [of "\<lambda>i. - cur + lt_value cur b r n i"] i
    by (simp add: lt_partial_def assms(4,5) [symmetric] del: copied_simps map_upt_Suc)
qed

lemma lt_positions_map: "lt_counts r off L \<Longrightarrow> lt_positions r = map int (rev [off..<off + L])"
proof -
  assume "lt_counts r off L"
  then have "numberOfNegativePictures r + numberOfPositivePictures r = int off" "numberOfPictures r - 1 = int (off + L) - 1"
    by (simp_all add: lt_counts_def)
  then show ?thesis unfolding lt_positions_def upto_int by (simp add: upto_int [of off "off + L", simplified] rev_map)
qed

lemma drop_rev_upt: "k < L \<Longrightarrow> drop k (rev [off..<off + L]) = (off + L - 1 - k) # drop (Suc k) (rev [off..<off + L])"
  by (subst Cons_nth_drop_Suc [symmetric]) (simp_all add: rev_nth)

lemma codes_lt_pics:
  assumes ok: "lt_codable x r off L" and lt: "sps_matches x r (off + L) L lt" and bits: "bits_for (int (m_numLongTermRefPicSPS x)) = Some bits"
    and r0: "rps_wf r0" "numberOfLongtermPictures r0 = int L" and cur: "\<bar>cur\<bar> < 2 ^ 30"
  shows "vlc.codes (code_lt_pics x r lt bits (lt_positions r) 0 (0, 0))
    (read_loop (parse_lt_step x cur (cur mod 2 ^ m_uiBitsForPOC x) (int off) L (length lt) bits) [0..<L] (0, r0))
    (snd (snd (lt_state r (off + L) L)), lt_partial cur (m_uiBitsForPOC x) r (off + L) r0 L)"
proof -
  let ?b = "m_uiBitsForPOC x" and ?n = "off + L"
  let ?R = "lt_partial cur ?b r ?n r0" and ?S = "lt_state r ?n"
  have x: "lt_sps_wf x" "rps_wf r" "lt_counts r off L" "?b \<in> {4..16}" "?n \<le> 16" "numberOfPictures r = int ?n"
    using ok by (simp_all add: lt_codable_def lt_sps_wf_def lt_counts_def)
  have ent: "pocLSBLT r ! i = POC r ! i mod 2 ^ ?b" "0 \<le> deltaPOCMSBCycleLT r ! i" "deltaPOCMSBCycleLT r ! i * 2 ^ ?b \<le> 2 ^ 25"
    if "i \<in> {off..<?n}" for i using ok that by (auto simp: lt_codable_def)
  have mono: "\<forall>i\<in>{off..<?n}. \<forall>j\<in>{i..<?n}. deltaPOCMSBCycleLT r ! j \<le> deltaPOCMSBCycleLT r ! i" using ok by (simp add: lt_codable_def)
  have m: "length lt = 0 \<or> length lt = L" using lt by (auto simp: sps_matches_def)
  have "vlc.codes (code_lt_pics x r lt bits (map int (drop k (rev [off..<?n]))) k (fst (?S k), fst (snd (?S k))))
      (read_loop (parse_lt_step x cur (cur mod 2 ^ ?b) (int off) L (length lt) bits) [k..<L] (snd (snd (?S k)), ?R k)) (snd (snd (?S L)), ?R L)"
    if "k \<le> L" for k
    using that
  proof (induction "L - k" arbitrary: k)
    case 0
    then show ?case by (simp add: vlc.codes_return)
  next
    case (Suc j)
    then have k: "k < L" by simp
    let ?i = "?n - 1 - k"
    obtain d l c where st: "?S k = (d, l, c)" by (metis prod_cases3)
    obtain d' l' c' where st': "?S (Suc k) = (d', l', c')" by (metis prod_cases3)
    have i: "off \<le> ?i" "?i < ?n" "?i \<in> {off..<?n}" "?i < 16" "?i = ?n - Suc k" using k x(5) by auto
    note B = lt_state_bounds [OF _ mono st, of "2 ^ ?b" "2 ^ 25"]
    have bd: "0 \<le> d" "d \<le> deltaPOCMSBCycleLT r ! ?i" "0 \<le> c" "c * 2 ^ ?b \<le> 15 * 2 ^ 25"
    proof -
      have "int k * 2 ^ 25 \<le> 15 * (2 :: int) ^ 25" using k x(5) by simp
      then show "0 \<le> d" "d \<le> deltaPOCMSBCycleLT r ! ?i" "0 \<le> c" "c * 2 ^ ?b \<le> 15 * 2 ^ 25"
        using B k ent by auto
    qed
    let ?val = "lt_value cur ?b r ?n ?i"
    have c': "c' = (if deltaPocMSBPresentFlag r ! ?i then if ?i = ?n - 1 then deltaPOCMSBCycleLT r ! ?i
        else (if pocLSBLT r ! ?i \<noteq> l then deltaPOCMSBCycleLT r ! ?i else deltaPOCMSBCycleLT r ! ?i - d) + c else c)"
      using st st' k by (auto simp: Let_def split: if_splits)
    have nx: "(d', l') = (if deltaPocMSBPresentFlag r ! ?i then (deltaPOCMSBCycleLT r ! ?i, pocLSBLT r ! ?i) else (d, l))"
      using st st' by (auto simp: Let_def split: if_splits)
    have first: "?i = ?n - 1 \<Longrightarrow> c = 0 \<and> d = 0" using st k by (cases k) auto
    have val: "?val = (if deltaPocMSBPresentFlag r ! ?i then cur - c' * 2 ^ ?b - cur mod 2 ^ ?b + pocLSBLT r ! ?i else pocLSBLT r ! ?i)"
    proof -
      have "?n - ?i = Suc k" using k by simp
      then show ?thesis unfolding lt_value_def by (simp only: st' snd_conv)
    qed
    note len = lt_partial_len [OF r0(1), of cur ?b r ?n k]
    have lsb: "0 \<le> pocLSBLT r ! ?i" "pocLSBLT r ! ?i < 2 ^ ?b" unfolding ent(1) [OF i(3)] by simp_all
    have p: "vlc.codes (code_lt_pic x r lt bits (int ?i) k) (parse_lt_pic x (length lt) bits (int ?i) k (?R k))
        (nat (pocLSBLT r ! ?i), (?R k)\<lparr>used := (used (?R k))[?i := used r ! ?i]\<rparr>)"
      by (rule codes_lt_pic [OF x(1) lt bits x(2) i(4) _ k _ ent(1) [OF i(3)]]) (use len in auto)
    let ?R' = "(?R k)\<lparr>used := (used (?R k))[?i := used r ! ?i]\<rparr>"
    have q: "vlc.codes (\<lambda>s. xWriteFlag (of_bool (deltaPocMSBPresentFlag r ! ?i)) s \<bind> (\<lambda>s. if deltaPocMSBPresentFlag r ! ?i
          then code_msb_cycle (int ?n) (length lt) (int ?i) (pocLSBLT r ! ?i) (deltaPOCMSBCycleLT r ! ?i) d l s else Some s))
        (parse_lt_msb ?b cur (cur mod 2 ^ ?b) (int off) L (length lt) (int ?i) (nat (pocLSBLT r ! ?i)) c ?R')
        (c', ?R'\<lparr>POC := (POC ?R')[?i := ?val], deltaPOC := (deltaPOC ?R')[?i := - cur + ?val], bCheckLTMSB := (bCheckLTMSB ?R')[?i := deltaPocMSBPresentFlag r ! ?i]\<rparr>)"
      by (rule codes_lt_msb [OF x(4,5) i(1,2) m _ _ _ _ lsb ent(2,3) [OF i(3)] bd cur c' first val]) (use r0(2) len in auto)
    have R: "?R'\<lparr>POC := (POC ?R')[?i := ?val], deltaPOC := (deltaPOC ?R')[?i := - cur + ?val], bCheckLTMSB := (bCheckLTMSB ?R')[?i := deltaPocMSBPresentFlag r ! ?i]\<rparr> = ?R (Suc k)"
      using lt_partial_Suc [OF r0(1) x(5) _ i(5) refl, of cur ?b r] k by simp
    have IH: "vlc.codes (code_lt_pics x r lt bits (map int (drop (Suc k) (rev [off..<?n]))) (Suc k) (d', l'))
        (read_loop (parse_lt_step x cur (cur mod 2 ^ ?b) (int off) L (length lt) bits) [Suc k..<L] (c', ?R (Suc k))) (snd (snd (?S L)), ?R L)"
      using Suc.hyps(1) [of "Suc k"] Suc.hyps(2) k unfolding st' by simp
    have arr: "arr_get_i (deltaPocMSBPresentFlag r) (int ?i) = Some (deltaPocMSBPresentFlag r ! ?i)" "arr_get_i (pocLSBLT r) (int ?i) = Some (pocLSBLT r ! ?i)"
      "arr_get_i (deltaPOCMSBCycleLT r) (int ?i) = Some (deltaPOCMSBCycleLT r ! ?i)"
      using x(2) i(4) by (simp_all add: rps_wf_def MAX_NUM_REF_PICS_def)
    have w: "code_lt_pics x r lt bits (map int (drop k (rev [off..<?n]))) k (d, l) = (\<lambda>s. code_lt_pic x r lt bits (int ?i) k s \<bind> (\<lambda>s.
        (xWriteFlag (of_bool (deltaPocMSBPresentFlag r ! ?i)) s \<bind> (\<lambda>s. if deltaPocMSBPresentFlag r ! ?i
          then code_msb_cycle (int ?n) (length lt) (int ?i) (pocLSBLT r ! ?i) (deltaPOCMSBCycleLT r ! ?i) d l s else Some s))
        \<bind> code_lt_pics x r lt bits (map int (drop (Suc k) (rev [off..<?n]))) (Suc k) (d', l')))"
      unfolding drop_rev_upt [OF k] nx list.map code_lt_pics.simps arr x(6) by (simp add: fun_eq_iff)
    have r: "read_loop (parse_lt_step x cur (cur mod 2 ^ ?b) (int off) L (length lt) bits) [k..<L] (c, ?R k) = (\<lambda>s.
        parse_lt_pic x (length lt) bits (int ?i) k (?R k) s \<bind> (\<lambda>((p, r), s).
        parse_lt_msb ?b cur (cur mod 2 ^ ?b) (int off) L (length lt) (int ?i) p c r s \<bind> (\<lambda>(y, s).
        read_loop (parse_lt_step x cur (cur mod 2 ^ ?b) (int off) L (length lt) bits) [Suc k..<L] y s)))"
    proof -
      have j: "int off + int L - 1 - int k = int ?i" using k by auto
      show ?thesis unfolding upt_conv_Cons [OF k] by (simp add: fun_eq_iff parse_lt_step_def r0(2) j case_prod_beta' Let_def)
    qed
    show ?case unfolding st fst_conv snd_conv w r
      by (rule vlc.codes_bind [OF p], unfold prod.case, rule vlc.codes_bind [OF q], unfold R, rule IH)
  qed
  from this [of 0] show ?thesis by (simp add: lt_positions_map [OF x(3)])
qed

definition lt_received :: "sps \<Rightarrow> int \<Rightarrow> ref_pic_set \<Rightarrow> nat \<Rightarrow> nat \<Rightarrow> ref_pic_set \<Rightarrow> ref_pic_set" where
  "lt_received x cur r off L r0 = (lt_partial cur (m_uiBitsForPOC x) r (off + L) (r0\<lparr>numberOfLongtermPictures := int L\<rparr>) L)
     \<lparr>numberOfPictures := int (off + L)\<rparr>"

lemma match_all_or_none:
  assumes ok: "lt_codable x r off L"
  obtains lt where "match_ltrps x r (rev [int off..int (off + L) - 1]) [] = Some lt" "sps_matches x r (off + L) L lt" "length lt \<in> {0, L}"
    "lt = [] \<or> 0 < m_numLongTermRefPicSPS x"
proof -
  let ?ks = "rev [off..<off + L]" and ?f = "\<lambda>k. candidate x (POC r ! k) (used r ! k)"
  have x: "lt_sps_wf x" "rps_wf r" "off + L \<le> 16" using ok by (simp_all add: lt_codable_def lt_counts_def)
  have m: "match_ltrps x r (rev [int off..int (off + L) - 1]) [] = Some (List.map_filter ?f ?ks)"
    using match_ltrps_law [OF x(1,2), of ?ks "[]"] x(3) by (simp only: upto_int rev_map) auto
  have lsb: "pocLSBLT r ! i = POC r ! i mod 2 ^ m_uiBitsForPOC x" if "i \<in> {off..<off + L}" for i using ok that by (auto simp: lt_codable_def)
  consider "\<forall>i\<in>{off..<off + L}. ?f i = None" | "\<forall>i\<in>{off..<off + L}. ?f i \<noteq> None" using ok by (auto simp: lt_codable_def)
  then show ?thesis
  proof cases
    case 1
    then have "List.map_filter ?f ?ks = []" by (intro map_filter_none) auto
    then show ?thesis using that m by (simp add: sps_matches_def)
  next
    case 2
    then have e: "List.map_filter ?f ?ks = map (\<lambda>k. the (?f k)) ?ks" by (intro map_filter_all) auto
    have c: "the (?f i) < m_numLongTermRefPicSPS x" "int (m_ltRefPicPocLsbSps x ! the (?f i)) = pocLSBLT r ! i"
      "m_usedByCurrPicLtSPSFlag x ! the (?f i) = used r ! i" if i: "i \<in> {off..<off + L}" for i
    proof -
      from 2 i obtain k where "?f i = Some k" by blast
      with candidateD [OF this] show "the (?f i) < m_numLongTermRefPicSPS x" "int (m_ltRefPicPocLsbSps x ! the (?f i)) = pocLSBLT r ! i"
        "m_usedByCurrPicLtSPSFlag x ! the (?f i) = used r ! i" by (simp_all add: lsb [OF i])
    qed
    have "sps_matches x r (off + L) L (map (\<lambda>k. the (?f k)) ?ks)"
      unfolding sps_matches_def using c by (auto simp: rev_nth)
    moreover have "0 < m_numLongTermRefPicSPS x" if "L \<noteq> 0" using c(1) [of off] that by simp
    ultimately show ?thesis using that [OF m] unfolding e by (cases "L = 0") auto
  qed
qed

lemma codes_long_term:
  assumes ok: "lt_codable x r off L" and r0: "rps_wf r0" "numberOfNegativePictures r0 + numberOfPositivePictures r0 = int off"
    and cur: "\<bar>cur\<bar> < 2 ^ 30"
  shows "vlc.codes (code_long_term x r) (parse_long_term x cur (cur mod 2 ^ m_uiBitsForPOC x) r0) (lt_received x cur r off L r0)"
proof -
  let ?b = "m_uiBitsForPOC x" and ?N = "m_numLongTermRefPicSPS x"
  have x: "lt_sps_wf x" "lt_counts r off L" "off + L \<le> 16" "?N \<le> 33" "\<not> 31 \<le> ?b" using ok by (auto simp: lt_codable_def lt_counts_def lt_sps_wf_def)
  have n: "numberOfPictures r = int (off + L)" "numberOfPictures r - numberOfLongtermPictures r = int off" "numberOfLongtermPictures r = int L"
    using x(2) by (simp_all add: lt_counts_def)
  obtain lt where lt: "match_ltrps x r (rev [int off..int (off + L) - 1]) [] = Some lt" "sps_matches x r (off + L) L lt" "length lt \<in> {0, L}"
    "lt = [] \<or> 0 < ?N" by (rule match_all_or_none [OF ok])
  obtain bits where bits: "bits_for (int ?N) = Some bits" by (rule bits_for_law [of "int ?N"]) (use x(4) in auto)
  define R where "R = r0\<lparr>numberOfLongtermPictures := int L\<rparr>"
  have p: "vlc.codes (code_lt_pics x r lt bits (lt_positions r) 0 (0, 0))
      (read_loop (parse_lt_step x cur (cur mod 2 ^ ?b) (int off) L (length lt) bits) [0..<L] (0, R))
      (snd (snd (lt_state r (off + L) L)), lt_partial cur ?b r (off + L) R L)"
    by (rule codes_lt_pics [OF ok lt(2) bits _ _ cur]) (use r0 in \<open>simp_all add: R_def rps_wf_def\<close>)
  have c: "vlc.codes (\<lambda>s. if ?N > 0 then xWriteUvlc (length lt) s else Some s) (\<lambda>s. if ?N > 0 then xReadUvlc s else Some (0, s)) (length lt)"
    by (rule vlc.codes_if [OF refl codes_uvlc]) (use lt(3,4) x(3) in \<open>auto simp: vlc.codes_return\<close>)
  have sh: "to_u32 (int L - int (length lt)) = L - length lt" "\<not> (int L - int (length lt) \<noteq> 0 \<and> length lt \<noteq> 0)" "u32 (length lt + (L - length lt)) = L"
    "to_i32 L = int L" "L - length lt < 2 ^ 31 - 1" using lt(3) x(3) by auto
  have w: "code_long_term x r = (\<lambda>s. (if ?N > 0 then xWriteUvlc (length lt) s else Some s) \<bind> (\<lambda>s. xWriteUvlc (L - length lt) s
      \<bind> code_lt_pics x r lt bits (lt_positions r) 0 (0, 0)))"
  proof -
    have "match_ltrps x r (rev [int off..int off + int L - 1]) [] = Some lt" using lt(1) by simp
    then show ?thesis unfolding code_long_term_def [abs_def] Let_def using sh(1) lt(3) by (auto simp: fun_eq_iff n bits)
  qed
  have r: "parse_long_term x cur (cur mod 2 ^ ?b) r0 = (\<lambda>s. (if ?N > 0 then xReadUvlc s else Some (0, s)) \<bind> (\<lambda>(m, s). xReadUvlc s \<bind> (\<lambda>(u, s).
      read_loop (parse_lt_step x cur (cur mod 2 ^ ?b) (int off) (u32 (m + u)) m bits) [0..<u32 (m + u)] (0, r0\<lparr>numberOfLongtermPictures := to_i32 (u32 (m + u))\<rparr>) s
      \<bind> (\<lambda>((_, r), s). Some (r\<lparr>numberOfPictures := int off + numberOfLongtermPictures r\<rparr>, s)))))"
    unfolding parse_long_term_def [abs_def] Let_def bits r0(2) using x(5) by (simp add: fun_eq_iff cong: if_cong)
  show ?thesis unfolding w r
  proof (rule vlc.codes_bind [OF c], rule step_uvlc [OF sh(5)], unfold sh(3,4) R_def [symmetric], rule vlc.codes_bind_end [OF p])
  qed (simp add: vlc.codes_return lt_received_def R_def)
qed

text \<open>When the cycles of the writer and the parser agree.\<close>

lemma lt_state_agree:
  assumes "\<And>i j. off \<le> i \<Longrightarrow> i < off + L \<Longrightarrow> off \<le> j \<Longrightarrow> j < off + L \<Longrightarrow> deltaPocMSBPresentFlag r ! i \<Longrightarrow> deltaPocMSBPresentFlag r ! j
      \<Longrightarrow> pocLSBLT r ! i = pocLSBLT r ! j" and "k \<le> L"
  shows "\<exists>d l. lt_state r (off + L) k = (d, l, d) \<and> (l = 0 \<and> d = 0 \<or> (\<exists>j\<in>{off..<off + L}. deltaPocMSBPresentFlag r ! j \<and> l = pocLSBLT r ! j))
    \<and> (\<forall>m. k = Suc m \<longrightarrow> deltaPocMSBPresentFlag r ! (off + L - 1 - m) \<longrightarrow> d = deltaPOCMSBCycleLT r ! (off + L - 1 - m))"
  using assms(2)
proof (induction k)
  case (Suc k)
  let ?i = "off + L - 1 - k"
  have i: "off \<le> ?i" "?i < off + L" using Suc.prems by auto
  from Suc obtain d l where s: "lt_state r (off + L) k = (d, l, d)" "l = 0 \<and> d = 0 \<or> (\<exists>j\<in>{off..<off + L}. deltaPocMSBPresentFlag r ! j \<and> l = pocLSBLT r ! j)"
    by auto
  have "pocLSBLT r ! ?i = l \<or> d = 0" if "deltaPocMSBPresentFlag r ! ?i" using s(2) assms(1) [OF i _ _ that] by fastforce
  then show ?case using s i by (auto simp: Let_def)
qed simp

lemma lt_value_agree:
  assumes "\<And>i j. off \<le> i \<Longrightarrow> i < off + L \<Longrightarrow> off \<le> j \<Longrightarrow> j < off + L \<Longrightarrow> deltaPocMSBPresentFlag r ! i \<Longrightarrow> deltaPocMSBPresentFlag r ! j
      \<Longrightarrow> pocLSBLT r ! i = pocLSBLT r ! j" "off \<le> i" "i < off + L"
  shows "lt_value cur b r (off + L) i = (if deltaPocMSBPresentFlag r ! i
     then cur - deltaPOCMSBCycleLT r ! i * 2 ^ b - cur mod 2 ^ b + pocLSBLT r ! i else pocLSBLT r ! i)"
proof -
  have k: "off + L - i = Suc (off + L - 1 - i)" "off + L - i \<le> L" "off + L - 1 - (off + L - 1 - i) = i" using assms(2,3) by auto
  from lt_state_agree [OF assms(1) k(2)] k(1,3) show ?thesis by (fastforce simp: lt_value_def simp del: lt_state.simps)
qed

section \<open>The order is by decreasing high bits\<close>

fun bubble :: "('a \<Rightarrow> int) \<Rightarrow> 'a list \<Rightarrow> 'a list" where
  "bubble f (a # b # xs) = (if f a < f b then b # bubble f (a # xs) else a # bubble f (b # xs))"
| "bubble f xs = xs"

lemma mset_bubble [simp]: "mset (bubble f xs) = mset xs"
  by (induction f xs rule: bubble.induct) auto

lemma length_bubble [simp]: "length (bubble f xs) = length xs"
  using mset_bubble by (metis size_mset)

lemma set_bubble [simp]: "set (bubble f xs) = set xs"
  using mset_bubble by (metis set_mset_mset)

lemma swap_loop_law:
  "for_loop swap_step [length p..<length p + length xs] (p @ a # xs) = Some (p @ bubble lt_msb (a # xs))"
proof (induction xs arbitrary: p a)
  case (Cons b xs)
  have u: "[length p..<length p + length (b # xs)] = length p # [length (p @ [a])..<length (p @ [a]) + length xs]"
    using upt_conv_Cons [of "length p" "length p + length (b # xs)"] by simp
  have s: "swap_step (length p) (p @ a # b # xs) = Some (if lt_msb a < lt_msb b then (p @ [b]) @ a # xs else (p @ [a]) @ b # xs)"
    by (simp add: swap_step_def nth_append list_update_append)
  have u': "[length (p @ [a])..<length (p @ [a]) + length xs] = [length (p @ [b])..<length (p @ [b]) + length xs]" by simp
  show ?case
  proof (cases "lt_msb a < lt_msb b")
    case True
    then show ?thesis unfolding u for_loop.simps s using Cons.IH [of "p @ [b]" a] by (simp add: u' del: length_append)
  next
    case False
    then show ?thesis unfolding u for_loop.simps s using Cons.IH [of "p @ [a]" b] by (simp del: length_append)
  qed
qed simp

lemma swap_loop: "for_loop swap_step [0..<length es - 1] es = Some (bubble lt_msb es)"
proof (cases es)
  case (Cons a xs)
  then show ?thesis using swap_loop_law [of "[]" xs a] by simp
qed simp

text \<open>After a pass the least key is last, and a sorted tail of lesser keys is left alone.\<close>

lemma bubble_last: "xs \<noteq> [] \<Longrightarrow> \<exists>p m. bubble f xs = p @ [m] \<and> (\<forall>x\<in>set xs. f m \<le> f x)"
proof (induction f xs rule: bubble.induct)
  case (1 f a b xs)
  show ?case
  proof (cases "f a < f b")
    case True
    with 1 obtain p m where "bubble f (a # xs) = p @ [m]" "\<forall>x\<in>set (a # xs). f m \<le> f x" by blast
    with True show ?thesis by (intro exI [of _ "b # p"] exI [of _ m]) auto
  next
    case False
    with 1 obtain p m where "bubble f (b # xs) = p @ [m]" "\<forall>x\<in>set (b # xs). f m \<le> f x" by blast
    with False show ?thesis by (intro exI [of _ "a # p"] exI [of _ m]) auto
  qed
qed auto

lemma bubble_sorted: "sorted_wrt (\<lambda>a b. f b \<le> f a) xs \<Longrightarrow> bubble f xs = xs"
  by (induction f xs rule: bubble.induct) auto

lemma bubble_append:
  "sorted_wrt (\<lambda>a b. f b \<le> f a) q \<Longrightarrow> \<forall>x\<in>set p. \<forall>y\<in>set q. f y \<le> f x \<Longrightarrow> bubble f (p @ q) = bubble f p @ q"
  by (induction f p rule: bubble.induct) (auto simp: bubble_sorted)

lemma bubble_passes:
  "k \<le> length xs \<Longrightarrow> \<exists>p q. (bubble f ^^ k) xs = p @ q \<and> length q = k \<and> sorted_wrt (\<lambda>a b. f b \<le> f a) q
     \<and> (\<forall>x\<in>set p. \<forall>y\<in>set q. f y \<le> f x) \<and> mset (p @ q) = mset xs"
proof (induction k)
  case (Suc k)
  then obtain p q where s: "(bubble f ^^ k) xs = p @ q" "length q = k" "sorted_wrt (\<lambda>a b. f b \<le> f a) q"
    "\<forall>x\<in>set p. \<forall>y\<in>set q. f y \<le> f x" "mset (p @ q) = mset xs" by auto
  have "length p + k = length xs" using arg_cong [OF s(5), of size] s(2) by simp
  with Suc.prems have "p \<noteq> []" by auto
  from bubble_last [OF this, of f] obtain p' m where m: "bubble f p = p' @ [m]" "\<forall>x\<in>set p. f m \<le> f x" by blast
  have "mset (p' @ [m]) = mset p" using mset_bubble [of f p] m(1) by simp
  then have sp: "set p = insert m (set p')" by (metis list.set_map mset_eq_setD set_append list.simps(15) empty_set Un_insert_right sup_bot_right)
  show ?case
  proof (intro exI conjI)
    show "(bubble f ^^ Suc k) xs = p' @ m # q" using bubble_append [OF s(3,4)] s(1) m(1) by simp
    show "mset (p' @ m # q) = mset xs" using s(5) \<open>mset (p' @ [m]) = mset p\<close> by (simp flip: s(5))
  qed (use s m sp in auto)
qed simp

lemma sort_lt_law:
  "\<exists>es'. sort_lt (length es) es = Some es' \<and> mset es' = mset es \<and> sorted_wrt (\<lambda>a b. lt_msb b \<le> lt_msb a) es'"
proof -
  have l: "length ((bubble f ^^ k) es) = length es" for f k and es :: "'a list" by (induction k) simp_all
  have "for_loop (\<lambda>_. for_loop swap_step [0..<length es - 1]) [0..<length es] ((bubble lt_msb ^^ 0) es) = Some ((bubble lt_msb ^^ length es) es)"
    by (rule for_loop_upt) (use swap_loop [of "(bubble lt_msb ^^ i) es" for i] in \<open>simp_all add: l\<close>)
  moreover from bubble_passes [of "length es" es lt_msb] have "mset ((bubble lt_msb ^^ length es) es) = mset es"
    "sorted_wrt (\<lambda>a b. lt_msb b \<le> lt_msb a) ((bubble lt_msb ^^ length es) es)" by (auto dest: arg_cong [of _ _ size])
  ultimately show ?thesis by (auto simp: sort_lt_def)
qed

section \<open>The arranged set\<close>

definition lt_entry_of :: "int \<Rightarrow> ref_pic_set \<Rightarrow> nat \<Rightarrow> lt_entry" where
  "lt_entry_of M r i = (POC r ! i, POC r ! i mod M, POC r ! i - POC r ! i mod M, int i)"

lemma collect_lt_law:
  assumes "rps_wf r" "0 < M" "\<forall>i\<in>set is. i < 16" "length acc + length is \<le> 16"
  shows "collect_lt M r (map int is) acc = Some (acc @ map (lt_entry_of M r) is)"
  using assms(3,4)
proof (induction "is" arbitrary: acc)
  case (Cons i "is")
  then have "getPOC r (int i) = Some (POC r ! i)" using assms(1) by (simp add: RefPicSet.getPOC_def rps_wf_def MAX_NUM_REF_PICS_def)
  then show ?case using Cons assms(2) by (simp add: getLSB_mod lt_entry_of_def MAX_NUM_REF_PICS_def)
qed simp

lemma used_flags_law:
  "rps_wf r \<Longrightarrow> \<forall>e\<in>set es. 0 \<le> lt_index e \<and> lt_index e < 16 \<Longrightarrow> used_flags r es = Some (map (\<lambda>e. used r ! nat (lt_index e)) es)"
  by (induction es) (auto simp: getUsed_def arr_get_i_def rps_wf_def MAX_NUM_REF_PICS_def nat_less_iff)

text \<open>The arrays after \<open>k\<close> of the sorted entries have been stored.\<close>

definition lt_stored :: "int \<Rightarrow> int \<Rightarrow> picture list \<Rightarrow> ref_pic_set \<Rightarrow> nat \<Rightarrow> lt_entry list \<Rightarrow> nat \<Rightarrow> ref_pic_set" where
  "lt_stored M cur pics r n es k = (let at = (\<lambda>i. es ! (n - 1 - i)) in
     r\<lparr>POC := copied (n - k) k (map (\<lambda>i. lt_poc (at i)) [0..<16]) (POC r),
       deltaPOC := copied (n - k) k (map (\<lambda>i. - cur + lt_poc (at i)) [0..<16]) (deltaPOC r),
       used := copied (n - k) k (map (\<lambda>i. used r ! nat (lt_index (at i))) [0..<16]) (used r),
       pocLSBLT := copied (n - k) k (map (\<lambda>i. lt_lsb (at i)) [0..<16]) (pocLSBLT r),
       deltaPOCMSBCycleLT := copied (n - k) k (map (\<lambda>i. (cur - cur mod M - lt_msb (at i)) div M) [0..<16]) (deltaPOCMSBCycleLT r),
       deltaPocMSBPresentFlag := copied (n - k) k (map (\<lambda>i. msb_needed M pics (at i)) [0..<16]) (deltaPocMSBPresentFlag r)\<rparr>)"

lemma lt_stored_wf: "rps_wf r \<Longrightarrow> rps_wf (lt_stored M cur pics r n es k)"
  by (simp add: rps_wf_def lt_stored_def Let_def)

lemma copied_map_before:
  "k < n \<Longrightarrow> n \<le> 16 \<Longrightarrow> length es = 16 \<Longrightarrow> (copied (n - k) k (map g [0..<16]) es)[n - Suc k := g (n - Suc k)] = copied (n - Suc k) (Suc k) (map g [0..<16]) es"
  using copied_before [of k n es "map g [0..<16]"] by (simp del: copied_simps map_upt_Suc)

lemma store_lt_step:
  assumes "rps_wf r" "n \<le> 16" "k < n" "0 < M" "u = used r ! nat (lt_index (es ! k))" "0 \<le> (cur - cur mod M - lt_msb (es ! k)) div M"
  shows "store_lt M cur pics (int (n - Suc k), es ! k, u) (lt_stored M cur pics r n es k) = Some (lt_stored M cur pics r n es (Suc k))"
proof -
  let ?i = "n - Suc k"
  have at: "n - 1 - ?i = k" "?i < 16" using assms(2,3) by auto
  have wf: "rps_wf (lt_stored M cur pics r n es k)" by (rule lt_stored_wf [OF assms(1)])
  note c = copied_map_before [OF assms(3,2), of _ "\<lambda>i. _ (es ! (n - 1 - i))"]
  have len: "length (POC r) = 16" "length (deltaPOC r) = 16" "length (used r) = 16" "length (pocLSBLT r) = 16"
    "length (deltaPOCMSBCycleLT r) = 16" "length (deltaPocMSBPresentFlag r) = 16" using assms(1) by (simp_all add: rps_wf_def MAX_NUM_REF_PICS_def)
  show ?thesis
    using copied_map_before [OF assms(3,2) len(1), of "\<lambda>i. lt_poc (es ! (n - 1 - i))"]
      copied_map_before [OF assms(3,2) len(2), of "\<lambda>i. - cur + lt_poc (es ! (n - 1 - i))"]
      copied_map_before [OF assms(3,2) len(3), of "\<lambda>i. used r ! nat (lt_index (es ! (n - 1 - i)))"]
      copied_map_before [OF assms(3,2) len(4), of "\<lambda>i. lt_lsb (es ! (n - 1 - i))"]
      copied_map_before [OF assms(3,2) len(5), of "\<lambda>i. (cur - cur mod M - lt_msb (es ! (n - 1 - i))) div M"]
      copied_map_before [OF assms(3,2) len(6), of "\<lambda>i. msb_needed M pics (es ! (n - 1 - i))"] assms(4-6) len
    unfolding at(1)
    by (simp add: store_lt_def lt_stored_def Let_def setPOC_def setDeltaPOC_def setUsed_def setPocLSBLT_def setDeltaPocMSBCycleLT_def
        setDeltaPocMSBPresentFlag_def at(2) getLSB_mod del: copied_simps map_upt_Suc)
qed

lemma for_loop_map: "for_loop f (map g is) s = for_loop (\<lambda>i. f (g i)) is s"
  by (induction "is" arbitrary: s) (auto split: bind_splits)

lemma for_loop_checks: "\<forall>i\<in>set is. f i () = Some () \<Longrightarrow> for_loop f is () = Some ()"
  by (induction "is") auto

lemma lt_stored_nth:
  assumes "rps_wf r" "n \<le> 16" "i < n" "n - k \<le> i"
  shows "POC (lt_stored M cur pics r n es k) ! i = lt_poc (es ! (n - 1 - i))"
    "used (lt_stored M cur pics r n es k) ! i = used r ! nat (lt_index (es ! (n - 1 - i)))"
    "pocLSBLT (lt_stored M cur pics r n es k) ! i = lt_lsb (es ! (n - 1 - i))"
    "deltaPOCMSBCycleLT (lt_stored M cur pics r n es k) ! i = (cur - cur mod M - lt_msb (es ! (n - 1 - i))) div M"
    "deltaPocMSBPresentFlag (lt_stored M cur pics r n es k) ! i = msb_needed M pics (es ! (n - 1 - i))"
proof -
  have "i < n - k + k" using assms(3,4) by simp
  then show "POC (lt_stored M cur pics r n es k) ! i = lt_poc (es ! (n - 1 - i))"
    "used (lt_stored M cur pics r n es k) ! i = used r ! nat (lt_index (es ! (n - 1 - i)))"
    "pocLSBLT (lt_stored M cur pics r n es k) ! i = lt_lsb (es ! (n - 1 - i))"
    "deltaPOCMSBCycleLT (lt_stored M cur pics r n es k) ! i = (cur - cur mod M - lt_msb (es ! (n - 1 - i))) div M"
    "deltaPocMSBPresentFlag (lt_stored M cur pics r n es k) ! i = msb_needed M pics (es ! (n - 1 - i))"
    using assms by (simp_all add: lt_stored_def Let_def nth_copied rps_wf_def MAX_NUM_REF_PICS_def del: copied_simps map_upt_Suc)
qed

lemma lt_stored_frame:
  "numberOfPictures (lt_stored M cur pics r n es k) = numberOfPictures r" "numberOfNegativePictures (lt_stored M cur pics r n es k) = numberOfNegativePictures r"
  "numberOfPositivePictures (lt_stored M cur pics r n es k) = numberOfPositivePictures r" "numberOfLongtermPictures (lt_stored M cur pics r n es k) = numberOfLongtermPictures r"
  "interRPSPrediction (lt_stored M cur pics r n es k) = interRPSPrediction r"
  by (simp_all add: lt_stored_def Let_def)

lemma lt_positions_stored [simp]: "lt_positions (lt_stored M cur pics r n es k) = lt_positions r"
  by (simp add: lt_positions_def lt_stored_frame)

definition lt_sorted :: "int \<Rightarrow> ref_pic_set \<Rightarrow> nat \<Rightarrow> nat \<Rightarrow> lt_entry list \<Rightarrow> bool" where
  "lt_sorted M r off L es \<longleftrightarrow> mset es = image_mset (lt_entry_of M r) (mset [off..<off + L]) \<and> sorted_wrt (\<lambda>a b. lt_msb b \<le> lt_msb a) es"

lemma arrange_law:
  assumes wf: "rps_wf r" "lt_counts r off L" "b \<in> {4..16}" and d: "distinct (map (nth (POC r)) [off..<off + L])"
    and past: "\<forall>i\<in>{off..<off + L}. POC r ! i div 2 ^ b \<le> cur div 2 ^ b" and L: "0 < L"
  shows "\<exists>es. lt_sorted (2 ^ b) r off L es \<and> arrangeLongtermPicturesInRPS b cur (- 1) pics r = Some (lt_stored (2 ^ b) cur pics r (off + L) es L)"
proof -
  let ?M = "2 ^ b :: int" and ?n = "off + L"
  have M: "0 < ?M" by simp
  let ?es = "map (lt_entry_of ?M r) (rev [off..<?n])"
  have n: "?n \<le> 16" using wf(2) by (simp add: lt_counts_def)
  note p = lt_positions_map [OF wf(2)]
  have c: "collect_lt ?M r (lt_positions r) [] = Some ?es"
    unfolding p using collect_lt_law [OF wf(1) M, of "rev [off..<?n]" "[]"] n by auto
  have l: "length ?es = L" by simp
  obtain es where es: "sort_lt L ?es = Some es" "mset es = mset ?es" "sorted_wrt (\<lambda>a b. lt_msb b \<le> lt_msb a) es"
    using sort_lt_law [of ?es] by (auto simp: l)
  have el: "length es = L" using arg_cong [OF es(2), of size] by simp
  have srt: "lt_sorted ?M r off L es" using es(2,3) by (simp add: lt_sorted_def)
  have mem: "\<exists>i\<in>{off..<?n}. e = lt_entry_of ?M r i" if "e \<in> set es" for e
    using that mset_eq_setD [OF es(2)] by auto
  have u: "used_flags r es = Some (map (\<lambda>e. used r ! nat (lt_index e)) es)"
  proof (rule used_flags_law [OF wf(1)], rule ballI)
    fix e assume "e \<in> set es"
    from mem [OF this] n show "0 \<le> lt_index e \<and> lt_index e < 16" by (auto simp: lt_entry_of_def)
  qed
  have z: "zip (lt_positions r) (zip es (map (\<lambda>e. used r ! nat (lt_index e)) es))
      = map (\<lambda>k. (int (?n - Suc k), es ! k, used r ! nat (lt_index (es ! k)))) [0..<L]"
    by (rule nth_equalityI) (simp_all add: p el rev_nth)
  have st: "for_loop (store_lt ?M cur pics) (zip (lt_positions r) (zip es (map (\<lambda>e. used r ! nat (lt_index e)) es))) r
      = Some (lt_stored ?M cur pics r ?n es L)"
  proof -
    have "for_loop (\<lambda>k. store_lt ?M cur pics (int (?n - Suc k), es ! k, used r ! nat (lt_index (es ! k)))) [0..<L] (lt_stored ?M cur pics r ?n es 0)
        = Some (lt_stored ?M cur pics r ?n es L)"
    proof (rule for_loop_upt)
      fix k assume k: "k < L"
      then have "es ! k \<in> set es" using el by simp
      from mem [OF this] obtain i where i: "i \<in> {off..<?n}" "es ! k = lt_entry_of ?M r i" by blast
      have ge: "cur - cur mod ?M - lt_msb (es ! k) = ?M * (cur div ?M - POC r ! i div ?M)"
        by (simp add: i(2) lt_entry_of_def minus_mod_eq_mult_div right_diff_distrib)
      have "0 \<le> (cur - cur mod ?M - lt_msb (es ! k)) div ?M" unfolding ge using past i(1) by simp
      then show "store_lt ?M cur pics (int (?n - Suc k), es ! k, used r ! nat (lt_index (es ! k))) (lt_stored ?M cur pics r ?n es k)
          = Some (lt_stored ?M cur pics r ?n es (Suc k))"
        by (intro store_lt_step [OF wf(1) n]) (use k in auto)
    qed simp
    then show ?thesis unfolding z by (simp add: for_loop_map) (simp add: lt_stored_def Let_def)
  qed
  let ?r = "lt_stored ?M cur pics r ?n es L"
  have dist: "distinct (map fst es)"
  proof -
    have "mset (map fst es) = mset (map fst ?es)" unfolding mset_map [of fst] es(2) by (rule refl)
    moreover have "distinct (map fst ?es)" using d by (simp add: lt_entry_of_def comp_def flip: rev_map)
    ultimately show ?thesis using mset_eq_imp_distinct_iff by blast
  qed
  have ch: "for_loop (\<lambda>i u. distinct_lt ?r i (rev [int off..i - 1])) (lt_positions r) () = Some ()"
  proof (rule for_loop_checks, rule ballI)
    fix i' assume "i' \<in> set (lt_positions r)"
    then obtain i where i: "i' = int i" "off \<le> i" "i < ?n" by (auto simp: p)
    have g: "getPOC ?r (int j) = Some (lt_poc (es ! (?n - 1 - j)))" if "off \<le> j" "j < ?n" for j
      using lt_stored_nth(1) [OF wf(1) n that(2), of L] lt_stored_wf [OF wf(1), of ?M cur pics ?n es L] that n
      by (simp add: RefPicSet.getPOC_def rps_wf_def MAX_NUM_REF_PICS_def)
    have "for_loop (\<lambda>j u. getPOC ?r i' \<bind> (\<lambda>p. getPOC ?r j \<bind> (\<lambda>q. check_not (p = q)))) (rev [int off..i' - 1]) () = Some ()"
    proof (rule for_loop_checks, rule ballI)
      fix j' assume "j' \<in> set (rev [int off..i' - 1])"
      then obtain j where j: "j' = int j" "off \<le> j" "j < i" using i(1) by (auto simp: upto_int)
      have "lt_poc (es ! (?n - 1 - i)) \<noteq> lt_poc (es ! (?n - 1 - j))"
        using dist i j by (auto simp: distinct_conv_nth el)
      then show "getPOC ?r i' \<bind> (\<lambda>p. getPOC ?r j' \<bind> (\<lambda>q. check_not (p = q))) = Some ()"
        using g [OF i(2,3)] g [OF j(2)] i j by simp
    qed
    then show "distinct_lt ?r i' (rev [int off..i' - 1]) = Some ()" by (simp add: distinct_lt_def)
  qed
  have cnt: "numberOfLongtermPictures r = int L" "numberOfNegativePictures r + numberOfPositivePictures r = int off" using wf(2) by (simp_all add: lt_counts_def)
  have "arrangeLongtermPicturesInRPS b cur (- 1) pics r = Some ?r"
    unfolding arrangeLongtermPicturesInRPS_def Let_def cnt
    using c es(1) u st ch L wf(3) by (simp add: cnt)
  then show ?thesis using srt by blast
qed

section \<open>From the pictures of the encoder to those of the decoder\<close>

text \<open>Another picture kept for reference has the same low bits.\<close>

definition ambiguous :: "int \<Rightarrow> picture list \<Rightarrow> int \<Rightarrow> bool" where
  "ambiguous M pics c \<longleftrightarrow> (\<exists>q\<in>set pics. poc q mod M = c mod M \<and> referenced q \<and> poc q \<noteq> c)"

text \<open>What the encoder has to be able to send: long-term pictures that are different, not later than the current one in their high bits,
  and either all or none of them candidates of the SPS.\<close>

definition lt_input :: "sps \<Rightarrow> int \<Rightarrow> ref_pic_set \<Rightarrow> nat \<Rightarrow> nat \<Rightarrow> bool" where
  "lt_input x cur r off L \<longleftrightarrow> lt_sps_wf x \<and> rps_wf r \<and> lt_counts r off L \<and> 0 < L \<and> distinct (map (nth (POC r)) [off..<off + L]) \<and> \<bar>cur\<bar> < 2 ^ 23
     \<and> (\<forall>i\<in>{off..<off + L}. \<bar>POC r ! i\<bar> < 2 ^ 23 \<and> POC r ! i div 2 ^ m_uiBitsForPOC x \<le> cur div 2 ^ m_uiBitsForPOC x)
     \<and> ((\<forall>i\<in>{off..<off + L}. candidate x (POC r ! i) (used r ! i) = None) \<or> (\<forall>i\<in>{off..<off + L}. candidate x (POC r ! i) (used r ! i) \<noteq> None))"

lemma arranged_codable:
  assumes a: "lt_input x cur r off L"
  obtains r' where "arrangeLongtermPicturesInRPS (m_uiBitsForPOC x) cur (- 1) pics r = Some r'" "lt_codable x r' off L"
    "numberOfNegativePictures r' = numberOfNegativePictures r" "numberOfPositivePictures r' = numberOfPositivePictures r"
    "image_mset (\<lambda>i. (POC r' ! i, used r' ! i)) (mset [off..<off + L]) = image_mset (\<lambda>i. (POC r ! i, used r ! i)) (mset [off..<off + L])"
    "\<forall>i\<in>{off..<off + L}. deltaPocMSBPresentFlag r' ! i = ambiguous (2 ^ m_uiBitsForPOC x) pics (POC r' ! i)"
    "\<forall>i\<in>{off..<off + L}. cur - deltaPOCMSBCycleLT r' ! i * 2 ^ m_uiBitsForPOC x - cur mod 2 ^ m_uiBitsForPOC x + pocLSBLT r' ! i = POC r' ! i"
    "\<forall>i\<in>{off..<off + L}. pocLSBLT r' ! i = POC r' ! i mod 2 ^ m_uiBitsForPOC x"
    "rps_wf r'"
proof -
  let ?b = "m_uiBitsForPOC x" and ?n = "off + L"
  let ?M = "2 ^ ?b :: int"
  have M: "0 < ?M" by simp
  have h: "lt_sps_wf x" "rps_wf r" "lt_counts r off L" "0 < L" "distinct (map (nth (POC r)) [off..<?n])" "?b \<in> {4..16}" "?n \<le> 16"
    "\<bar>cur\<bar> < 2 ^ 23"
    using a by (simp_all add: lt_input_def lt_sps_wf_def lt_counts_def)
  have ent: "\<bar>POC r ! i\<bar> < 2 ^ 23" "POC r ! i div ?M \<le> cur div ?M" if "i \<in> {off..<?n}" for i using a that by (auto simp: lt_input_def)
  obtain es where es: "lt_sorted ?M r off L es" "arrangeLongtermPicturesInRPS ?b cur (- 1) pics r = Some (lt_stored ?M cur pics r ?n es L)"
    using arrange_law [OF h(2,3,6,5) _ h(4), of cur pics] ent(2) by blast
  define r' where "r' = lt_stored ?M cur pics r ?n es L"
  have el: "length es = L" using arg_cong [OF es(1) [unfolded lt_sorted_def, THEN conjunct1], of size] by simp
  have mem: "\<exists>m\<in>{off..<?n}. es ! k = lt_entry_of ?M r m" if "k < L" for k
  proof -
    have "es ! k \<in> set es" using that el by simp
    moreover have "set es = lt_entry_of ?M r ` {off..<?n}" using arg_cong [OF es(1) [unfolded lt_sorted_def, THEN conjunct1], of set_mset] by simp
    ultimately show ?thesis by blast
  qed
  note nth = lt_stored_nth [OF h(2,7), of _ L ?M cur pics es, folded r'_def]
  have at: "\<exists>m\<in>{off..<?n}. POC r' ! i = POC r ! m \<and> used r' ! i = used r ! m \<and> pocLSBLT r' ! i = POC r ! m mod ?M
      \<and> deltaPOCMSBCycleLT r' ! i = cur div ?M - POC r ! m div ?M \<and> deltaPocMSBPresentFlag r' ! i = ambiguous ?M pics (POC r ! m)
      \<and> lt_msb (es ! (?n - 1 - i)) = POC r ! m - POC r ! m mod ?M" if i: "i \<in> {off..<?n}" for i
  proof -
    have "?n - 1 - i < L" using i by auto
    from mem [OF this] obtain m where m: "m \<in> {off..<?n}" "es ! (?n - 1 - i) = lt_entry_of ?M r m" by blast
    have "(cur - cur mod ?M - (POC r ! m - POC r ! m mod ?M)) div ?M = (?M * (cur div ?M - POC r ! m div ?M)) div ?M"
      by (simp add: minus_mod_eq_mult_div right_diff_distrib)
    also have "\<dots> = cur div ?M - POC r ! m div ?M" by (rule nonzero_mult_div_cancel_left) simp
    finally have c: "(cur - cur mod ?M - (POC r ! m - POC r ! m mod ?M)) div ?M = cur div ?M - POC r ! m div ?M" .
    have f: "msb_needed ?M pics (lt_entry_of ?M r m) = ambiguous ?M pics (POC r ! m)"
      by (auto simp: msb_needed_def ambiguous_def lt_entry_of_def list_ex_iff getLSB_mod)
    have "i < ?n" "?n - L \<le> i" using i by auto
    note N = nth [OF this, unfolded m(2)]
    show ?thesis unfolding N m(2) f by (intro bexI [OF _ m(1)]) (simp add: lt_entry_of_def c)
  qed
  have cyc: "deltaPOCMSBCycleLT r' ! i * ?M = cur - cur mod ?M - (POC r' ! i - POC r' ! i mod ?M)"
    "pocLSBLT r' ! i = POC r' ! i mod ?M" "0 \<le> deltaPOCMSBCycleLT r' ! i" "\<bar>POC r' ! i\<bar> < 2 ^ 23"
    "deltaPocMSBPresentFlag r' ! i = ambiguous ?M pics (POC r' ! i)" if i: "i \<in> {off..<?n}" for i
  proof -
    from at [OF i] obtain m where m: "m \<in> {off..<?n}" "POC r' ! i = POC r ! m" "pocLSBLT r' ! i = POC r ! m mod ?M"
      "deltaPOCMSBCycleLT r' ! i = cur div ?M - POC r ! m div ?M" "deltaPocMSBPresentFlag r' ! i = ambiguous ?M pics (POC r ! m)" by blast
    show "deltaPOCMSBCycleLT r' ! i * ?M = cur - cur mod ?M - (POC r' ! i - POC r' ! i mod ?M)"
      by (simp add: m minus_mod_eq_mult_div algebra_simps)
    show "pocLSBLT r' ! i = POC r' ! i mod ?M" "0 \<le> deltaPOCMSBCycleLT r' ! i" "\<bar>POC r' ! i\<bar> < 2 ^ 23"
      "deltaPocMSBPresentFlag r' ! i = ambiguous ?M pics (POC r' ! i)" using m ent [OF m(1)] by simp_all
  qed
  have mono: "deltaPOCMSBCycleLT r' ! j \<le> deltaPOCMSBCycleLT r' ! i" if ij: "i \<in> {off..<?n}" "j \<in> {i..<?n}" for i j
  proof (cases "i = j")
    case False
    have j: "j \<in> {off..<?n}" using ij by auto
    have "lt_msb (es ! (?n - 1 - i)) \<le> lt_msb (es ! (?n - 1 - j))"
      using es(1) ij False el by (auto simp: lt_sorted_def sorted_wrt_iff_nth_less)
    moreover obtain m where m: "lt_msb (es ! (?n - 1 - i)) = POC r ! m - POC r ! m mod ?M" "deltaPOCMSBCycleLT r' ! i = cur div ?M - POC r ! m div ?M"
      using at [OF ij(1)] by blast
    moreover obtain m' where m': "lt_msb (es ! (?n - 1 - j)) = POC r ! m' - POC r ! m' mod ?M" "deltaPOCMSBCycleLT r' ! j = cur div ?M - POC r ! m' div ?M"
      using at [OF j] by blast
    ultimately have "?M * (POC r ! m div ?M) \<le> ?M * (POC r ! m' div ?M)" by (simp add: minus_mod_eq_mult_div)
    then show ?thesis using M by (simp add: m(2) m'(2))
  qed simp
  have cod: "lt_codable x r' off L"
  proof -
    have "deltaPOCMSBCycleLT r' ! i * ?M \<le> 2 ^ 25" if i: "i \<in> {off..<?n}" for i
    proof -
      have "cur - A - (p - B) \<le> 2 ^ 25" if "0 \<le> A" "B < 65536" "\<bar>p\<bar> < 2 ^ 23" for A B p :: int using that h(8) by auto
      from this [of "cur mod ?M" "POC r' ! i mod ?M" "POC r' ! i"] show ?thesis
        unfolding cyc(1) [OF i] using less_le_trans [OF pos_mod_bound [OF M] bits_fit(2) [OF h(6)]] cyc(4) [OF i] by simp
    qed
    moreover have "lt_counts r' off L" using h(3) by (simp add: r'_def lt_counts_def lt_stored_frame)
    moreover have "(\<forall>i\<in>{off..<?n}. candidate x (POC r' ! i) (used r' ! i) = None) \<or> (\<forall>i\<in>{off..<?n}. candidate x (POC r' ! i) (used r' ! i) \<noteq> None)"
    proof -
      have "\<exists>m\<in>{off..<?n}. candidate x (POC r' ! i) (used r' ! i) = candidate x (POC r ! m) (used r ! m)" if "i \<in> {off..<?n}" for i
        using at [OF that] by (elim bexE conjE) (auto intro: bexI)
      then show ?thesis using a unfolding lt_input_def by metis
    qed
    ultimately show ?thesis using h(1) lt_stored_wf [OF h(2)] cyc mono by (simp add: lt_codable_def r'_def)
  qed
  have ms: "image_mset (\<lambda>i. (POC r' ! i, used r' ! i)) (mset [off..<?n]) = image_mset (\<lambda>i. (POC r ! i, used r ! i)) (mset [off..<?n])"
  proof -
    let ?g = "\<lambda>e :: lt_entry. (lt_poc e, used r ! nat (lt_index e))"
    have "map (\<lambda>i. (POC r' ! i, used r' ! i)) [off..<?n] = map ?g (rev es)"
    proof (rule nth_equalityI)
      fix k assume "k < length (map (\<lambda>i. (POC r' ! i, used r' ! i)) [off..<?n])"
      then have k: "k < L" by simp
      then have "POC r' ! (off + k) = lt_poc (es ! (?n - 1 - (off + k)))" "used r' ! (off + k) = used r ! nat (lt_index (es ! (?n - 1 - (off + k))))"
        using nth(1,2) [of "off + k"] by auto
      then show "map (\<lambda>i. (POC r' ! i, used r' ! i)) [off..<?n] ! k = map ?g (rev es) ! k" using k el by (simp add: rev_nth)
    qed (simp add: el)
    from arg_cong [OF this, of mset] have "image_mset (\<lambda>i. (POC r' ! i, used r' ! i)) (mset [off..<?n]) = image_mset ?g (mset es)"
      unfolding mset_map mset_rev .
    also have "\<dots> = image_mset (\<lambda>i. (POC r ! i, used r ! i)) (mset [off..<?n])"
      using es(1) by (simp add: lt_sorted_def image_mset.compositionality comp_def lt_entry_of_def)
    finally show ?thesis .
  qed
  show ?thesis
    by (rule that [OF es(2) [folded r'_def] cod _ _ ms])
      (use cyc(1,2,5) lt_stored_wf [OF h(2)] in \<open>simp_all add: r'_def lt_stored_frame\<close>)
qed

lemma lt_received_nth:
  assumes "rps_wf r0" "off + L \<le> 16" "off \<le> i" "i < off + L"
  shows "used (lt_received x cur r off L r0) ! i = used r ! i"
    "POC (lt_received x cur r off L r0) ! i = lt_value cur (m_uiBitsForPOC x) r (off + L) i"
    "bCheckLTMSB (lt_received x cur r off L r0) ! i = deltaPocMSBPresentFlag r ! i"
  using assms by (simp_all add: lt_received_def lt_partial_def nth_copied rps_wf_def MAX_NUM_REF_PICS_def del: copied_simps map_upt_Suc)

lemma find_only: "p \<in> set ps \<Longrightarrow> P p \<Longrightarrow> \<forall>q\<in>set ps. P q \<longrightarrow> q = p \<Longrightarrow> List.find P ps = Some p"
proof -
  assume a: "p \<in> set ps" "P p" "\<forall>q\<in>set ps. P q \<longrightarrow> q = p"
  then obtain q where q: "List.find P ps = Some q" by (meson find_None_iff not_None_eq)
  then have "q \<in> set ps" "P q" by (auto simp: find_Some_iff)
  with a(3) q show ?thesis by blast
qed

text \<open>The picture with POC \<open>c\<close>, which is kept for reference, is found by the decoder from the POC and the flag that it has received.\<close>

definition found_as :: "picture list \<Rightarrow> int \<Rightarrow> nat \<Rightarrow> int \<Rightarrow> int \<Rightarrow> bool \<Rightarrow> bool" where
  "found_as pics cur b c c' msb \<longleftrightarrow> (\<forall>h p. m_iPOC h = cur \<and> sps_BitsForPOC h = b \<and> p \<in> set pics \<and> referenced p \<and> poc p = c \<and> c \<noteq> cur
     \<and> (\<forall>q\<in>set pics. referenced q \<and> poc q = c \<longrightarrow> q = p) \<longrightarrow> xGetLongTermRefPic h pics c' msb = Some (pic_id p))"

lemma found_with_msb: "found_as pics cur b c c True"
  unfolding found_as_def
proof (intro allI impI, elim conjE)
  fix h :: slice and p assume h: "m_iPOC h = cur" "p \<in> set pics" "referenced p" "poc p = c" "c \<noteq> cur" "\<forall>q\<in>set pics. referenced q \<and> poc q = c \<longrightarrow> q = p"
  have "List.find (\<lambda>p. poc p \<noteq> m_iPOC h \<and> referenced p \<and> c = poc p) pics = Some p"
    by (rule find_only [OF h(2)], use h(1,3,4,5) in simp, use h(6) in blast)
  moreover have "pics \<noteq> []" using h(2) by auto
  ultimately show "xGetLongTermRefPic h pics c True = Some (pic_id p)" by (simp add: xGetLongTermRefPic_def Let_def)
qed

lemma found_by_lsb:
  assumes "\<not> ambiguous (2 ^ b) pics c" shows "found_as pics cur b c (c mod 2 ^ b) False"
  unfolding found_as_def
proof (intro allI impI, elim conjE)
  fix h :: slice and p assume h: "m_iPOC h = cur" "sps_BitsForPOC h = b" "p \<in> set pics" "referenced p" "poc p = c" "c \<noteq> cur"
    "\<forall>q\<in>set pics. referenced q \<and> poc q = c \<longrightarrow> q = p"
  have m: "a AND (push_bit b 1 - 1) = a mod 2 ^ b" for a :: int by (rule and_mask_int)
  have same: "q = p" if "q \<in> set pics" "referenced q" "c mod 2 ^ b = poc q mod 2 ^ b" for q
  proof -
    have "poc q = c" using assms that unfolding ambiguous_def by metis
    with h(7) that(1,2) show ?thesis by blast
  qed
  have "List.find (\<lambda>p. poc p \<noteq> m_iPOC h \<and> referenced p \<and> c mod 2 ^ b = poc p mod 2 ^ b) pics = Some p"
    by (rule find_only [OF h(3)], use h(1,4,5,6) in simp, use same in blast)
  moreover have "pics \<noteq> []" using h(3) by auto
  ultimately show "xGetLongTermRefPic h pics (c mod 2 ^ b) False = Some (pic_id p)"
    unfolding xGetLongTermRefPic_def Let_def h(2) m by simp
qed

text \<open>
  C4. The long-term pictures of a slice reach the decoder.  \<open>arrangeLongtermPicturesInRPS\<close> keeps the pictures of the set with their
  flags and only changes their order; the header is written, and what the decoder gets from it leads
  \<open>xGetLongTermRefPic\<close>, in the same buffer, to the very pictures that the encoder meant.  This holds when the pictures that
  need their high bits all have the same low bits (otherwise the parser adds up their cycles), and when either all or none of the
  pictures are candidates of the SPS.
\<close>

theorem long_term_transmitted:
  assumes "lt_input x cur r off L"
    and "\<forall>i\<in>{off..<off + L}. \<forall>j\<in>{off..<off + L}. ambiguous (2 ^ m_uiBitsForPOC x) pics (POC r ! i) \<and> ambiguous (2 ^ m_uiBitsForPOC x) pics (POC r ! j)
      \<longrightarrow> POC r ! i mod 2 ^ m_uiBitsForPOC x = POC r ! j mod 2 ^ m_uiBitsForPOC x"
    and "rps_wf r0" "numberOfNegativePictures r0 + numberOfPositivePictures r0 = int off"
  shows "\<exists>r' s r'' t. arrangeLongtermPicturesInRPS (m_uiBitsForPOC x) cur (- 1) pics r = Some r' \<and> code_long_term x r' clear = Some s
    \<and> parse_long_term x cur (cur mod 2 ^ m_uiBitsForPOC x) r0 (open_stream (out_fifo (writeAlignZero s))) = Some (r'', t)
    \<and> numberOfPictures r'' = int (off + L) \<and> numberOfLongtermPictures r'' = int L
    \<and> image_mset (\<lambda>i. (POC r' ! i, used r' ! i)) (mset [off..<off + L]) = image_mset (\<lambda>i. (POC r ! i, used r ! i)) (mset [off..<off + L])
    \<and> (\<forall>i\<in>{off..<off + L}. used r'' ! i = used r' ! i \<and> found_as pics cur (m_uiBitsForPOC x) (POC r' ! i) (POC r'' ! i) (bCheckLTMSB r'' ! i))"
proof -
  let ?M = "2 ^ m_uiBitsForPOC x :: int" and ?n = "off + L"
  obtain r' where r': "arrangeLongtermPicturesInRPS (m_uiBitsForPOC x) cur (- 1) pics r = Some r'" "lt_codable x r' off L"
    "numberOfNegativePictures r' = numberOfNegativePictures r" "numberOfPositivePictures r' = numberOfPositivePictures r"
    "image_mset (\<lambda>i. (POC r' ! i, used r' ! i)) (mset [off..<?n]) = image_mset (\<lambda>i. (POC r ! i, used r ! i)) (mset [off..<?n])"
    "\<forall>i\<in>{off..<?n}. deltaPocMSBPresentFlag r' ! i = ambiguous ?M pics (POC r' ! i)"
    "\<forall>i\<in>{off..<?n}. cur - deltaPOCMSBCycleLT r' ! i * ?M - cur mod ?M + pocLSBLT r' ! i = POC r' ! i"
    "\<forall>i\<in>{off..<?n}. pocLSBLT r' ! i = POC r' ! i mod ?M"
    "rps_wf r'" by (rule arranged_codable [OF assms(1), of pics])
  note flag = r'(6) [THEN bspec] and val = r'(7) [THEN bspec] and low = r'(8) [THEN bspec]
  have n: "?n \<le> 16" "\<bar>cur\<bar> < 2 ^ 30" using assms(1) by (auto simp: lt_input_def lt_counts_def)
  have mem: "\<exists>m\<in>{off..<?n}. POC r' ! i = POC r ! m" if "i \<in> {off..<?n}" for i
  proof -
    have "(\<lambda>i. (POC r' ! i, used r' ! i)) ` {off..<?n} = (\<lambda>i. (POC r ! i, used r ! i)) ` {off..<?n}"
      using arg_cong [OF r'(5), of set_mset] by simp
    then have "(POC r' ! i, used r' ! i) \<in> (\<lambda>i. (POC r ! i, used r ! i)) ` {off..<?n}" using that by blast
    then show ?thesis by auto
  qed
  have same: "pocLSBLT r' ! i = pocLSBLT r' ! j" if "off \<le> i" "i < ?n" "off \<le> j" "j < ?n" "deltaPocMSBPresentFlag r' ! i" "deltaPocMSBPresentFlag r' ! j" for i j
  proof -
    have i: "i \<in> {off..<?n}" and j: "j \<in> {off..<?n}" using that by auto
    obtain m where m: "m \<in> {off..<?n}" "POC r' ! i = POC r ! m" using mem [OF i] by blast
    obtain m' where m': "m' \<in> {off..<?n}" "POC r' ! j = POC r ! m'" using mem [OF j] by blast
    have "ambiguous ?M pics (POC r ! m)" "ambiguous ?M pics (POC r ! m')" using that(5,6) flag [OF i] flag [OF j] m(2) m'(2) by auto
    with assms(2) m(1) m'(1) have "POC r ! m mod ?M = POC r ! m' mod ?M" by blast
    then show ?thesis using low [OF i] low [OF j] m(2) m'(2) by simp
  qed
  note c = codes_long_term [OF r'(2) assms(3,4) n(2)]
  let ?R = "lt_received x cur r' off L r0"
  have "used ?R ! i = used r' ! i \<and> found_as pics cur (m_uiBitsForPOC x) (POC r' ! i) (POC ?R ! i) (bCheckLTMSB ?R ! i)" if i: "i \<in> {off..<?n}" for i
  proof -
    have i': "off \<le> i" "i < ?n" using i by auto
    have v: "POC ?R ! i = (if ambiguous ?M pics (POC r' ! i) then POC r' ! i else POC r' ! i mod ?M)"
      unfolding lt_received_nth(2) [OF assms(3) n(1) i'] using lt_value_agree [OF same i', of cur "m_uiBitsForPOC x"] flag [OF i] val [OF i] low [OF i] by simp
    show ?thesis using lt_received_nth(1,3) [OF assms(3) n(1) i', of x cur r'] flag [OF i] v found_with_msb found_by_lsb by auto
  qed
  then show ?thesis using r'(1,5) codes_whole_stream [OF c] by (fastforce simp: lt_received_def)
qed

text \<open>Two long-term pictures, of which one needs its high bits, beside a picture with the same low bits.\<close>

definition example_lt :: ref_pic_set where
  "example_lt = ReferencePictureSet\<lparr>numberOfPictures := 3, numberOfNegativePictures := 1, numberOfLongtermPictures := 2,
     POC := [0, 20, 300] @ replicate 13 0, used := [True, True, False] @ replicate 13 False, deltaPOC := - 1 # replicate 15 0\<rparr>"

definition no_candidates :: sps where
  "no_candidates = sample_sps\<lparr>m_numLongTermRefPicSPS := 0\<rparr>"

lemma example_lt_input: "lt_input no_candidates 600 example_lt 1 2"
  by (simp add: lt_input_def lt_sps_wf_def no_candidates_def sample_sps_def SPS_def sample_memory_def rps_wf_def example_lt_def ReferencePictureSet_def
      MAX_NUM_REF_PICS_def lt_counts_def candidate_def less_Suc_eq nth_Cons' numeral_3_eq_3 numeral_2_eq_2 upt_rec Ball_def split: if_splits)

definition lt_buffer :: "picture list" where
  "lt_buffer = [example_pic 1 20, example_pic 2 300, example_pic 3 276]"

lemma two_positions: "{1..<1 + 2} = {1, 2 :: nat}"
  by auto

theorem long_term_transmitted_witness:
  "\<exists>r' s r'' t. arrangeLongtermPicturesInRPS (m_uiBitsForPOC no_candidates) 600 (- 1) lt_buffer example_lt = Some r' \<and> code_long_term no_candidates r' clear = Some s
    \<and> parse_long_term no_candidates 600 (600 mod 2 ^ m_uiBitsForPOC no_candidates) (ReferencePictureSet\<lparr>numberOfNegativePictures := 1\<rparr>)
        (open_stream (out_fifo (writeAlignZero s))) = Some (r'', t)
    \<and> numberOfPictures r'' = int (1 + 2) \<and> numberOfLongtermPictures r'' = int 2
    \<and> image_mset (\<lambda>i. (POC r' ! i, used r' ! i)) (mset [1..<1 + 2]) = image_mset (\<lambda>i. (POC example_lt ! i, used example_lt ! i)) (mset [1..<1 + 2])
    \<and> (\<forall>i\<in>{1..<1 + 2}. used r'' ! i = used r' ! i
        \<and> found_as lt_buffer 600 (m_uiBitsForPOC no_candidates) (POC r' ! i) (POC r'' ! i) (bCheckLTMSB r'' ! i))"
proof (rule long_term_transmitted [OF example_lt_input])
  have "\<not> ambiguous 256 lt_buffer 300" by (simp add: ambiguous_def lt_buffer_def example_pic_def)
  then show "\<forall>i\<in>{1..<1 + 2}. \<forall>j\<in>{1..<1 + 2}. ambiguous (2 ^ m_uiBitsForPOC no_candidates) lt_buffer (POC example_lt ! i)
      \<and> ambiguous (2 ^ m_uiBitsForPOC no_candidates) lt_buffer (POC example_lt ! j)
    \<longrightarrow> POC example_lt ! i mod 2 ^ m_uiBitsForPOC no_candidates = POC example_lt ! j mod 2 ^ m_uiBitsForPOC no_candidates"
    unfolding two_positions by (simp add: example_lt_def no_candidates_def sample_sps_def SPS_def sample_memory_def)
qed (simp_all add: rps_wf_def ReferencePictureSet_def)

text \<open>
  C39. The coding of the high bits is not inverted by the parser.  When two long-term pictures need their high bits and differ in the low
  ones, the writer sends the whole cycle of the second, while the parser adds the cycle of the first to it: the decoder looks
  for a picture that is further in the past by this cycle.
\<close>

theorem long_term_cycle_mismatch:
  assumes "lt_input x cur r off 2"
    and "\<forall>i\<in>{off, off + 1}. ambiguous (2 ^ m_uiBitsForPOC x) pics (POC r ! i) \<and> POC r ! i div 2 ^ m_uiBitsForPOC x < cur div 2 ^ m_uiBitsForPOC x"
    and "POC r ! off mod 2 ^ m_uiBitsForPOC x \<noteq> POC r ! (off + 1) mod 2 ^ m_uiBitsForPOC x"
    and "rps_wf r0" "numberOfNegativePictures r0 + numberOfPositivePictures r0 = int off"
  shows "\<exists>r' s r'' t. arrangeLongtermPicturesInRPS (m_uiBitsForPOC x) cur (- 1) pics r = Some r' \<and> code_long_term x r' clear = Some s
    \<and> parse_long_term x cur (cur mod 2 ^ m_uiBitsForPOC x) r0 (open_stream (out_fifo (writeAlignZero s))) = Some (r'', t)
    \<and> bCheckLTMSB r'' ! off \<and> POC r'' ! off < POC r' ! off
    \<and> POC r'' ! off = POC r' ! off - (cur div 2 ^ m_uiBitsForPOC x - POC r' ! (off + 1) div 2 ^ m_uiBitsForPOC x) * 2 ^ m_uiBitsForPOC x"
proof -
  let ?M = "2 ^ m_uiBitsForPOC x :: int" and ?n = "off + 2"
  obtain r' where r': "arrangeLongtermPicturesInRPS (m_uiBitsForPOC x) cur (- 1) pics r = Some r'" "lt_codable x r' off 2"
    "numberOfNegativePictures r' = numberOfNegativePictures r" "numberOfPositivePictures r' = numberOfPositivePictures r"
    "image_mset (\<lambda>i. (POC r' ! i, used r' ! i)) (mset [off..<?n]) = image_mset (\<lambda>i. (POC r ! i, used r ! i)) (mset [off..<?n])"
    "\<forall>i\<in>{off..<?n}. deltaPocMSBPresentFlag r' ! i = ambiguous ?M pics (POC r' ! i)"
    "\<forall>i\<in>{off..<?n}. cur - deltaPOCMSBCycleLT r' ! i * ?M - cur mod ?M + pocLSBLT r' ! i = POC r' ! i"
    "\<forall>i\<in>{off..<?n}. pocLSBLT r' ! i = POC r' ! i mod ?M"
    "rps_wf r'" by (rule arranged_codable [OF assms(1), of pics])
  note flag = r'(6) [THEN bspec] and val = r'(7) [THEN bspec] and low = r'(8) [THEN bspec]
  have n: "?n \<le> 16" "\<bar>cur\<bar> < 2 ^ 30" using assms(1) by (auto simp: lt_input_def lt_counts_def)
  have u: "[off..<?n] = [off, off + 1]" by (simp add: upt_rec)
  have perm: "{#(POC r' ! off, used r' ! off), (POC r' ! (off + 1), used r' ! (off + 1))#} = {#(POC r ! off, used r ! off), (POC r ! (off + 1), used r ! (off + 1))#}"
    using r'(5) unfolding u by simp
  then have p: "POC r' ! off = POC r ! off \<and> POC r' ! (off + 1) = POC r ! (off + 1) \<or> POC r' ! off = POC r ! (off + 1) \<and> POC r' ! (off + 1) = POC r ! off"
    by (auto simp: add_eq_conv_ex)
  have i: "off \<in> {off..<?n}" "off + 1 \<in> {off..<?n}" by auto
  have f: "deltaPocMSBPresentFlag r' ! off" "deltaPocMSBPresentFlag r' ! Suc off" using flag [OF i(1)] flag [OF i(2)] p assms(2) by auto
  have d: "pocLSBLT r' ! off \<noteq> pocLSBLT r' ! Suc off" using low [OF i(1)] low [OF i(2)] p assms(3) by auto
  have past: "POC r' ! (off + 1) div ?M < cur div ?M" using p assms(2) by auto
  have cyc: "deltaPOCMSBCycleLT r' ! Suc off * ?M = (cur div ?M - POC r' ! (off + 1) div ?M) * ?M"
    using val [OF i(2)] low [OF i(2)] by (simp add: algebra_simps minus_mod_eq_mult_div [symmetric])
  let ?R = "lt_received x cur r' off 2 r0"
  have "lt_value cur (m_uiBitsForPOC x) r' ?n off = POC r' ! off - deltaPOCMSBCycleLT r' ! Suc off * ?M"
    using f d val [OF i(1)] by (simp add: lt_value_def numeral_2_eq_2 Let_def algebra_simps)
  with cyc have v: "POC ?R ! off = POC r' ! off - (cur div ?M - POC r' ! (off + 1) div ?M) * ?M"
    using lt_received_nth(2) [OF assms(4) n(1), of off x cur r'] by simp
  have "0 < (cur div ?M - POC r' ! (off + 1) div ?M) * ?M" using past by simp
  then have "POC ?R ! off < POC r' ! off" unfolding v by linarith
  moreover have "bCheckLTMSB ?R ! off" using lt_received_nth(3) [OF assms(4) n(1), of off x cur r'] f by simp
  ultimately show ?thesis using r'(1) v codes_whole_stream [OF codes_long_term [OF r'(2) assms(4,5) n(2)]] by blast
qed

theorem long_term_cycle_mismatch_witness:
  "\<exists>r' s r'' t. arrangeLongtermPicturesInRPS (m_uiBitsForPOC no_candidates) 600 (- 1) (example_pic 4 556 # lt_buffer) example_lt = Some r'
    \<and> code_long_term no_candidates r' clear = Some s
    \<and> parse_long_term no_candidates 600 (600 mod 2 ^ m_uiBitsForPOC no_candidates) (ReferencePictureSet\<lparr>numberOfNegativePictures := 1\<rparr>)
        (open_stream (out_fifo (writeAlignZero s))) = Some (r'', t)
    \<and> bCheckLTMSB r'' ! 1 \<and> POC r'' ! 1 < POC r' ! 1
    \<and> POC r'' ! 1 = POC r' ! 1 - (600 div 2 ^ m_uiBitsForPOC no_candidates - POC r' ! (1 + 1) div 2 ^ m_uiBitsForPOC no_candidates) * 2 ^ m_uiBitsForPOC no_candidates"
  by (rule long_term_cycle_mismatch [OF example_lt_input])
    (simp_all add: ambiguous_def lt_buffer_def example_pic_def example_lt_def no_candidates_def sample_sps_def SPS_def sample_memory_def
      rps_wf_def ReferencePictureSet_def)

text \<open>
  C40. The decoder completes the low bits of the picture order count to the number that the encoder counted from its last IDR picture, exactly
  when this lies in the window of \<open>2 ^ bits\<close> numbers around the previous picture of the lowest temporal layer.
\<close>

theorem poc_recovered:
  assumes "m_uiBitsForPOC x \<in> {4..16}" "\<bar>cur\<bar> < 2 ^ 29" "\<bar>lastIDR\<bar> < 2 ^ 29" "\<bar>prev\<bar> < 2 ^ 30"
    and "nut \<notin> {NAL_UNIT_CODED_SLICE_BLA_W_LP, NAL_UNIT_CODED_SLICE_BLA_W_RADL, NAL_UNIT_CODED_SLICE_BLA_N_LP}"
  shows "\<exists>s t lsb. code_poc_lsb x cur lastIDR clear = Some s \<and> xReadCode (m_uiBitsForPOC x) (open_stream (out_fifo (writeAlignZero s))) = Some (lsb, t)
    \<and> (complete_poc (m_uiBitsForPOC x) prev nut (int lsb) = Some (cur - lastIDR)
      \<longleftrightarrow> - (2 ^ m_uiBitsForPOC x) < 2 * (cur - lastIDR - prev) \<and> 2 * (cur - lastIDR - prev) \<le> 2 ^ m_uiBitsForPOC x)"
proof -
  have "\<bar>cur\<bar> < 2 ^ 30" "\<bar>cur - lastIDR\<bar> < 2 ^ 30" using assms(2,3) by auto
  from codes_whole_stream [OF codes_poc_lsb [OF assms(1) this(1) assms(3)]] complete_poc_law [OF assms(1) this(2) assms(4,5)]
  show ?thesis by fastforce
qed

theorem poc_recovered_witness:
  "\<exists>s t lsb. code_poc_lsb sample_sps 700 420 clear = Some s \<and> xReadCode (m_uiBitsForPOC sample_sps) (open_stream (out_fifo (writeAlignZero s))) = Some (lsb, t)
    \<and> (complete_poc (m_uiBitsForPOC sample_sps) 270 NAL_UNIT_CODED_SLICE_TRAIL_R (int lsb) = Some (700 - 420)
      \<longleftrightarrow> - (2 ^ m_uiBitsForPOC sample_sps) < 2 * (700 - 420 - (270 :: int)) \<and> 2 * (700 - 420 - (270 :: int)) \<le> 2 ^ m_uiBitsForPOC sample_sps)"
  by (rule poc_recovered) (simp_all add: sample_sps_def SPS_def sample_memory_def)

end
