(* ===== verification/WindowSizes.thy ===== *)
theory WindowSizes
  imports ContextTables SeqParameterSet
begin

text \<open>
  Adaptive window sizes of the probability models: the classes \<open>CtxWSizeSet\<close> and \<open>CtxWSizeStore\<close> of
  \<open>CommonLib/Contexts.cpp\<close>, the estimation in \<open>EncoderLib/CABACWriter.cpp\<close>, and the run-level code of the sizes at the end of
  the slice header, \<open>HLSWriter::xCodeCABACWSizes\<close> and \<open>HLSyntaxReader::xParseCABACWSizes\<close>.

  The engines 2 and 3 of the arithmetic coder have models with a window size that the encoder chooses for each context.  A
  store has a set of sizes for every type of slice and every slice quantiser.
\<close>

definition NUMBER_OF_SLICE_TYPES :: nat where "NUMBER_OF_SLICE_TYPES = 3"
definition GBI_NUM :: nat where "GBI_NUM = 5"

text \<open>Conversion of an \<open>int\<close> to \<open>uint8_t\<close>.\<close>

definition to_u8 :: "int \<Rightarrow> nat" where
  "to_u8 i = nat (i mod 256)"

section \<open>One set of sizes\<close>

record wsize_set =
  m_valid :: bool
  m_changes :: bool
  m_coded :: bool
  m_log2WinSizes :: "nat list"

definition CtxWSizeSet :: wsize_set where
  "CtxWSizeSet = \<lparr>m_valid = False, m_changes = False, m_coded = False, m_log2WinSizes = []\<rparr>"

definition getMode :: "wsize_set \<Rightarrow> int" where
  "getMode w = (if \<not> m_valid w \<or> \<not> m_changes w then 0 else if m_coded w then 2 else 1)"

definition setInvalid :: "wsize_set \<Rightarrow> wsize_set" where
  "setInvalid w = w\<lparr>m_valid := False, m_changes := False, m_coded := False\<rparr>"

definition setCoded :: "wsize_set \<Rightarrow> wsize_set" where
  "setCoded w = w\<lparr>m_coded := True\<rparr>"

definition setValidOnly :: "wsize_set \<Rightarrow> wsize_set" where
  "setValidOnly w = w\<lparr>m_valid := True\<rparr>"

definition setValid :: "nat \<Rightarrow> wsize_set \<Rightarrow> wsize_set" where
  "setValid defSize w = w\<lparr>m_valid := True, m_changes := list_ex (\<lambda>v. v \<noteq> 0 \<and> v \<noteq> defSize) (m_log2WinSizes w)\<rparr>"

section \<open>The store\<close>

record wsize_store =
  m_isInitialized :: bool
  m_readWriteBuffer :: "nat list"
  m_codeId2ctxId :: "int list"
  m_winSizes :: "wsize_set list list"

definition CtxWSizeStore :: wsize_store where
  "CtxWSizeStore = \<lparr>m_isInitialized = False, m_readWriteBuffer = [], m_codeId2ctxId = [],
     m_winSizes = replicate NUMBER_OF_SLICE_TYPES (replicate (nat MAX_QP + 1) CtxWSizeSet)\<rparr>"

text \<open>\<open>m_winSizes[slice->getSliceType()][slice->getSliceQpBase()]\<close>\<close>

definition getWSizeSet :: "nat \<Rightarrow> int \<Rightarrow> wsize_store \<Rightarrow> wsize_set option" where
  "getWSizeSet sliceType qp d = do { row \<leftarrow> arr_get (m_winSizes d) sliceType; arr_get_i row qp }"

definition putWSizeSet :: "nat \<Rightarrow> int \<Rightarrow> wsize_set \<Rightarrow> wsize_store \<Rightarrow> wsize_store option" where
  "putWSizeSet sliceType qp w d = do {
     row \<leftarrow> arr_get (m_winSizes d) sliceType;
     row \<leftarrow> arr_set_i row qp w;
     tab \<leftarrow> arr_set (m_winSizes d) sliceType row;
     Some (d\<lparr>m_winSizes := tab\<rparr>) }"

text \<open>The default sizes of \<open>BinProbModel_JAW\<close> and \<open>BinProbModel_JMPAW\<close>; the other models have no windows.\<close>

definition getDefaultWindowSize :: "nat \<Rightarrow> nat" where
  "getDefaultWindowSize cabacEngineId = (if cabacEngineId = 2 then 6 else if cabacEngineId = 3 then 4 else 0)"

definition addCtxSetToMapping :: "ctx_name \<Rightarrow> nat \<Rightarrow> nat \<Rightarrow> int list \<Rightarrow> int list option" where
  "addCtxSetToMapping n startId numCtx mapping = do {
     c \<leftarrow> ctxSet n;
     let ctxOffset = ctxInc c startId;
     let numActualCtx = min numCtx (Size c);
     Some (mapping @ map (\<lambda>k. int (ctxOffset + k)) [0..<numActualCtx] @ replicate (numCtx - numActualCtx) (- 1)) }"

text \<open>The calls of \<open>addCtxSetToMapping\<close>; \<open>bt\<close> is the size of the set \<open>BTSplitFlag\<close>.\<close>

definition mapping_calls :: "sps_next \<Rightarrow> nat \<Rightarrow> (ctx_name \<times> nat \<times> nat) list" where
  "mapping_calls x bt = (let
     numCtxSplitFlag = (if m_LargeCTU x then 5 else 3);
     numCtxMergeIdx = 5;
     numCtxIPredLuma = 1;
     numCtxIPredChroma = 8 + (if m_MDMS x then 4 else 0);
     numCtxTransSubdiv = (if m_LargeCTU x \<or> m_QTBT x then 4 else 3);
     numCtxLastXY = (if m_LargeCTU x \<or> m_QTBT x then 25 else 15);
     numCtxEmtCUFlag = (if m_LargeCTU x \<or> m_QTBT x then 6 else 4);
     numImvCtx = (if m_ImvMode x > 1 then 4 else 3);
     numGBiCtx = GBI_NUM + 2
   in [(SplitFlag, 0, numCtxSplitFlag)] @ (if m_QTBT x then [(BTSplitFlag, 0, 6)] else [])
     @ [(SkipFlag, 0, 3), (PdpcFlag, 0, 2), (NSSTIdx, 0, 7), (MergeFlag, 0, 1), (MergeIdx, 0, numCtxMergeIdx),
        (FrucFlag, 0, 3), (FrucMode, 0, 3), (PartSize, 0, 4), (PredMode, 0, 1), (IPredMode 0, 0, numCtxIPredLuma),
        (IPredMode 1, if m_MDMS x then 0 else 1, numCtxIPredChroma),
        (DeltaQP, 0, 3), (InterDir, 0, 5), (RefPic, 0, 2), (Mvd, 0, 2), (QtCbf 0, 0, 5), (QtCbf 1, 0, 5),
        (TransSubdivFlag, 0, numCtxTransSubdiv), (QtRootCbf, 0, 1),
        (LastX 0, 0, numCtxLastXY), (LastX 1, 0, numCtxLastXY), (LastY 0, 0, numCtxLastXY), (LastY 1, 0, numCtxLastXY),
        (MVPIdx, 0, 1), (SaoMergeFlag, 0, 1), (SaoTypeIdx, 0, 1), (TransformSkipFlag, 0, 2), (TransquantBypassFlag, 0, 1),
        (RdpcmFlag, 0, 2), (RdpcmDir, 0, 2), (CrossCompPred, 0, 10), (ChromaQpAdjFlag, 0, 1), (ChromaQpAdjIdc, 0, 1),
        (ObmcFlag, 0, 1), (ImvFlag, 0, numImvCtx)]
     @ (if m_LICEnabled x then [(LICFlag, 0, 1)] else [])
     @ [(GBiIdx, 0, numGBiCtx), (EMTTuIndex, 0, 4), (EMTCuFlag, 0, numCtxEmtCUFlag), (AffineFlag, 0, 3)]
     @ (if m_QTBT x then [(BTSplitFlag, 6, to_u32 (int bt - 6))] else []))"

definition xInitMappingTable :: "sps_next \<Rightarrow> nat \<Rightarrow> int list \<Rightarrow> int list option" where
  "xInitMappingTable x bufferSize mapping = do {
     c \<leftarrow> ctxSet BTSplitFlag;
     mapping \<leftarrow> for_loop (\<lambda>(n, startId, numCtx). addCtxSetToMapping n startId numCtx) (mapping_calls x (Size c)) mapping;
     Some (vec_resize bufferSize (- 1) mapping) }"

definition xSetAllInvalid :: "wsize_store \<Rightarrow> wsize_store" where
  "xSetAllInvalid d = d\<lparr>m_winSizes := map (map setInvalid) (m_winSizes d)\<rparr>"

definition checkInit :: "sps_next \<Rightarrow> wsize_store \<Rightarrow> wsize_store option" where
  "checkInit x d = (if m_isInitialized d then Some d else do {
     let d = d\<lparr>m_readWriteBuffer := vec_resize 384 0 (m_readWriteBuffer d)\<rparr>;
     mapping \<leftarrow> xInitMappingTable x (length (m_readWriteBuffer d)) (m_codeId2ctxId d);
     Some ((xSetAllInvalid (d\<lparr>m_codeId2ctxId := mapping\<rparr>))\<lparr>m_isInitialized := True\<rparr>) })"

definition validWinSizes :: "nat \<Rightarrow> int \<Rightarrow> wsize_store \<Rightarrow> bool option" where
  "validWinSizes sliceType qp d = do { w \<leftarrow> getWSizeSet sliceType qp d; Some (m_valid w) }"

definition getWinSizes :: "nat \<Rightarrow> int \<Rightarrow> int \<Rightarrow> wsize_store \<Rightarrow> nat list option option" where
  "getWinSizes sliceType qp mode d = (if mode = 0 then Some None else do {
     w \<leftarrow> getWSizeSet sliceType qp d;
     check_not (\<not> m_valid w);
     Some (Some (m_log2WinSizes w)) })"

definition setSliceWinUpdateMode :: "nat \<Rightarrow> int \<Rightarrow> wsize_store \<Rightarrow> int option" where
  "setSliceWinUpdateMode sliceType qp d = do { w \<leftarrow> getWSizeSet sliceType qp d; Some (getMode w) }"

text \<open>The size that a level of the buffer stands for, and the level that a size is coded as; the smallest size is 4.\<close>

definition size_of_level :: "nat \<Rightarrow> nat \<Rightarrow> nat" where
  "size_of_level defWinSize level = (let threshold = to_u8 (int defWinSize - 4 + 1) in
     to_u8 (4 + (if level < threshold then int level - 1 else int level)))"

definition level_of_size :: "nat \<Rightarrow> nat \<Rightarrow> nat" where
  "level_of_size defWinSize winSize = (if winSize \<noteq> defWinSize
     then to_u8 (1 + int winSize - 4 - (if winSize < defWinSize then 0 else 1)) else 0)"

definition apply_level :: "nat \<Rightarrow> nat list \<Rightarrow> int list \<Rightarrow> nat \<Rightarrow> nat list \<Rightarrow> nat list option" where
  "apply_level defWinSize buffer mapping readId winBuffer = do {
     level \<leftarrow> arr_get buffer readId;
     if level \<noteq> 0 then do { i \<leftarrow> arr_get mapping readId; arr_set_i winBuffer i (size_of_level defWinSize level) }
     else Some winBuffer }"

definition xApplyReadWriteBuffer :: "nat \<Rightarrow> nat \<Rightarrow> int \<Rightarrow> wsize_store \<Rightarrow> wsize_store option" where
  "xApplyReadWriteBuffer engine sliceType qp d = do {
     w \<leftarrow> getWSizeSet sliceType qp d;
     winBuffer \<leftarrow> for_loop (apply_level (getDefaultWindowSize engine) (m_readWriteBuffer d) (m_codeId2ctxId d))
       [0..<length (m_readWriteBuffer d)] (replicate NumberOfContexts 0);
     putWSizeSet sliceType qp (setValidOnly (w\<lparr>m_log2WinSizes := winBuffer\<rparr>)) d }"

definition set_level :: "nat \<Rightarrow> int list \<Rightarrow> nat list \<Rightarrow> nat \<Rightarrow> nat list \<Rightarrow> nat list option" where
  "set_level defWinSize mapping winBuffer codeId buffer = do {
     i \<leftarrow> arr_get mapping codeId;
     level \<leftarrow> (if i \<ge> 0 then do { winSize \<leftarrow> arr_get_i winBuffer i; Some (level_of_size defWinSize winSize) } else Some 0);
     arr_set buffer codeId level }"

definition xSetReadWriteBuffer :: "nat \<Rightarrow> nat \<Rightarrow> int \<Rightarrow> wsize_store \<Rightarrow> wsize_store option" where
  "xSetReadWriteBuffer engine sliceType qp d = do {
     w \<leftarrow> getWSizeSet sliceType qp d;
     check_not (\<not> m_valid w);
     buffer \<leftarrow> for_loop (set_level (getDefaultWindowSize engine) (m_codeId2ctxId d) (m_log2WinSizes w))
       [0..<length (m_readWriteBuffer d)] (m_readWriteBuffer d);
     Some (d\<lparr>m_readWriteBuffer := buffer\<rparr>) }"

definition updateState :: "nat \<Rightarrow> nat \<Rightarrow> int \<Rightarrow> int \<Rightarrow> bool \<Rightarrow> wsize_store \<Rightarrow> wsize_store option" where
  "updateState engine sliceType qp mode enc d =
     (if \<not> enc \<and> mode = 1 then xApplyReadWriteBuffer engine sliceType qp d else Some d)"

text \<open>
  \<open>Ctx::setWinSizes\<close> on the windows of the models: a size of 0 leaves the one from the initialisation, which is the default.
\<close>

definition setLog2WindowSize :: "nat \<Rightarrow> nat \<Rightarrow> nat" where
  "setLog2WindowSize log2WindowSize old = (if log2WindowSize \<noteq> 0 then log2WindowSize else old)"

definition model_windows :: "nat \<Rightarrow> nat list option \<Rightarrow> nat list option" where
  "model_windows engine sizes = (let init = replicate NumberOfContexts (getDefaultWindowSize engine) in
     case sizes of None \<Rightarrow> Some init
     | Some ws \<Rightarrow> do { check_not (length ws \<noteq> NumberOfContexts); Some (map2 setLog2WindowSize ws init) })"

section \<open>Estimation by the encoder\<close>

text \<open>
  The size that codes the recorded bins of a context with the fewest bits; \<open>bits\<close> gives the length of the code for a size.
\<close>

definition try_size :: "(nat \<Rightarrow> nat) \<Rightarrow> nat \<Rightarrow> nat \<times> nat \<Rightarrow> nat \<times> nat" where
  "try_size bits testWinSize = (\<lambda>(minBits, bestWinSize).
     if bits testWinSize < minBits then (bits testWinSize, testWinSize) else (minBits, bestWinSize))"

definition estWinSize :: "nat \<Rightarrow> bool \<Rightarrow> (nat \<Rightarrow> nat) \<Rightarrow> nat" where
  "estWinSize defWinSize recorded bits =
     (if \<not> recorded then defWinSize else snd (fold (try_size bits) [4..<8] (2 ^ 32 - 1, 0)))"

definition estimate_step :: "nat \<Rightarrow> (nat \<Rightarrow> bool) \<Rightarrow> (nat \<Rightarrow> nat \<Rightarrow> nat) \<Rightarrow> int \<Rightarrow> nat list \<Rightarrow> nat list option" where
  "estimate_step defWinSize recorded bits i winBuffer =
     (if i \<ge> 0 then arr_set_i winBuffer i (estWinSize defWinSize (recorded (nat i)) (bits (nat i))) else Some winBuffer)"

definition estWinSizes :: "nat \<Rightarrow> nat \<Rightarrow> int \<Rightarrow> (nat \<Rightarrow> bool) \<Rightarrow> (nat \<Rightarrow> nat \<Rightarrow> nat) \<Rightarrow> wsize_store \<Rightarrow> wsize_store option" where
  "estWinSizes engine sliceType qp recorded bits d = do {
     w \<leftarrow> getWSizeSet sliceType qp d;
     check_not (length (m_codeId2ctxId d) < length (m_readWriteBuffer d));
     winBuffer \<leftarrow> for_loop (estimate_step (getDefaultWindowSize engine) recorded bits)
       (take (length (m_readWriteBuffer d)) (m_codeId2ctxId d)) (replicate NumberOfContexts 0);
     putWSizeSet sliceType qp (setValid (getDefaultWindowSize engine) (w\<lparr>m_log2WinSizes := winBuffer\<rparr>)) d }"

section \<open>Writer\<close>

text \<open>The inner loop over a run of zeros, and what follows the entry that ends it.\<close>

fun next_run :: "nat list \<Rightarrow> nat \<Rightarrow> nat \<times> nat list" where
  "next_run [] run = (run, [])"
| "next_run (x # xs) run = (if x = 0 then next_run xs (run + 1) else (run, xs))"

lemma next_run_shorter: "length (snd (next_run xs run)) \<le> length xs - 1"
proof (induction xs arbitrary: run)
  case (Cons x xs)
  have "length (snd (next_run xs (run + 1))) \<le> length xs" using Cons.IH [of "run + 1"] by linarith
  then show ?case by simp
qed simp

function code_runs :: "nat list \<Rightarrow> obs \<Rightarrow> obs option" where
  "code_runs [] s = Some s"
| "code_runs (x # xs) s = do { s \<leftarrow> xWriteUvlc (fst (next_run (x # xs) 0)) s; code_runs (snd (next_run (x # xs) 0)) s }"
  by pat_completeness auto
termination
  by (relation "measure (\<lambda>(xs, s). length xs)") (auto simp: le_imp_less_Suc le_trans [OF next_run_shorter])

fun code_levels :: "nat list \<Rightarrow> obs \<Rightarrow> obs option" where
  "code_levels [] s = Some s"
| "code_levels (x # xs) s = do { s \<leftarrow> (if x \<noteq> 0 then xWriteUvlc (x - 1) s else Some s); code_levels xs s }"

definition xCodeCABACWSizes :: "nat \<Rightarrow> nat \<Rightarrow> int \<Rightarrow> int \<Rightarrow> wsize_store \<Rightarrow> obs \<Rightarrow> (wsize_store \<times> obs) option" where
  "xCodeCABACWSizes engine sliceType qp mode d s =
     (if engine \<noteq> 2 \<and> engine \<noteq> 3 then do { check_not (mode \<noteq> 0); Some (d, s) }
      else do {
        check_not (mode < 0 \<or> mode > 2);
        _ \<leftarrow> (if mode > 0 then do { v \<leftarrow> validWinSizes sliceType qp d; check_not (\<not> v) } else Some ());
        s \<leftarrow> xWriteFlag (of_bool (mode > 0)) s;
        if \<not> mode > 0 then Some (d, s) else do {
          s \<leftarrow> xWriteFlag (of_bool (mode > 1)) s;
          if mode > 1 then Some (d, s) else do {
            d \<leftarrow> xSetReadWriteBuffer engine sliceType qp d;
            s \<leftarrow> code_runs (m_readWriteBuffer d) s;
            s \<leftarrow> code_levels (m_readWriteBuffer d) s;
            w \<leftarrow> getWSizeSet sliceType qp d;
            d \<leftarrow> putWSizeSet sliceType qp (setCoded w) d;
            Some (d, s) } } })"

section \<open>Parser\<close>

text \<open>The first loop fills all entries of the buffer with 0 or 1; \<open>m\<close> of them are left.\<close>

function parse_runs :: "nat \<Rightarrow> ibs \<Rightarrow> (nat list \<times> ibs) option" where
  "parse_runs m s = (if m = 0 then Some ([], s) else do {
     (run, s) \<leftarrow> xReadUvlc s;
     if run < m then do {
       (rest, s) \<leftarrow> parse_runs (m - run - 1) s;
       Some (replicate run 0 @ 1 # rest, s)
     } else Some (replicate m 0, s) })"
  by pat_completeness auto
termination by (relation "measure fst") auto

declare parse_runs.simps [simp del]

fun parse_levels :: "nat list \<Rightarrow> ibs \<Rightarrow> (nat list \<times> ibs) option" where
  "parse_levels [] s = Some ([], s)"
| "parse_levels (b # bs) s = do {
     (b, s) \<leftarrow> (if b \<noteq> 0 then do { (level, s) \<leftarrow> xReadUvlc s; Some (u8 (b + u8 level), s) } else Some (b, s));
     (bs, s) \<leftarrow> parse_levels bs s;
     Some (b # bs, s) }"

definition xParseCABACWSizes :: "sps_next \<Rightarrow> wsize_store \<Rightarrow> ibs \<Rightarrow> ((int \<times> wsize_store) \<times> ibs) option" where
  "xParseCABACWSizes x d s =
     (if m_CABACEngineMode x \<noteq> 2 \<and> m_CABACEngineMode x \<noteq> 3 then Some ((0, d), s)
      else do {
        d \<leftarrow> checkInit x d;
        (updateFlag, s) \<leftarrow> xReadFlag s;
        if updateFlag = 0 then Some ((0, d), s) else do {
          (reuseFlag, s) \<leftarrow> xReadFlag s;
          if reuseFlag \<noteq> 0 then Some ((1 + int reuseFlag, d), s) else do {
            (buffer, s) \<leftarrow> parse_runs (length (m_readWriteBuffer d)) s;
            (buffer, s) \<leftarrow> parse_levels buffer s;
            Some ((1 + int reuseFlag, d\<lparr>m_readWriteBuffer := buffer\<rparr>), s) } } })"

section \<open>The run-level code\<close>

lemma next_run_eq: "next_run xs run = (run + length (takeWhile (\<lambda>x. x = 0) xs), drop (Suc (length (takeWhile (\<lambda>x. x = 0) xs))) xs)"
  by (induction xs arbitrary: run) auto

definition marks :: "nat list \<Rightarrow> nat list" where
  "marks = map (\<lambda>x. of_bool (x \<noteq> 0))"

lemma marks_split:
  assumes "k = length (takeWhile (\<lambda>x. x = 0) xs)"
  shows "marks xs = (if k < length xs then replicate k 0 @ 1 # marks (drop (Suc k) xs) else replicate (length xs) 0)"
  unfolding assms
  by (induction xs) (auto simp: marks_def)

lemma codes_window_runs: "length xs < 2 ^ 31 - 1 \<Longrightarrow> vlc.codes (code_runs xs) (parse_runs (length xs)) (marks xs)"
proof (induction "length xs" arbitrary: xs rule: less_induct)
  case less
  show ?case
  proof (cases xs)
    case Nil
    have "code_runs [] = Some" by (simp add: fun_eq_iff)
    moreover have "parse_runs 0 = (\<lambda>s. Some ([], s))" by (simp add: fun_eq_iff parse_runs.simps)
    ultimately show ?thesis using Nil by (simp add: marks_def vlc.codes_return)
  next
    case (Cons y ys)
    define k where "k = length (takeWhile (\<lambda>x. x = 0) xs)"
    define r where "r = drop (Suc k) xs"
    have k: "k \<le> length xs" by (simp add: k_def length_takeWhile_le)
    have w: "code_runs xs = (\<lambda>s. xWriteUvlc k s \<bind> code_runs r)"
      using next_run_eq [of xs 0] by (simp add: fun_eq_iff Cons k_def r_def)
    have p: "parse_runs (length xs) = (\<lambda>s. xReadUvlc s \<bind> (\<lambda>(run, s). if run < length xs
        then parse_runs (length xs - run - 1) s \<bind> (\<lambda>(rest, s). Some (replicate run 0 @ 1 # rest, s))
        else Some (replicate (length xs) 0, s)))"
      by (rule ext, subst parse_runs.simps) (simp add: Cons)
    have "vlc.codes (code_runs r) (\<lambda>s. if k < length xs
        then parse_runs (length xs - k - 1) s \<bind> (\<lambda>(rest, s). Some (replicate k 0 @ 1 # rest, s))
        else Some (replicate (length xs) 0, s)) (marks xs)"
    proof (cases "k < length xs")
      case True
      have l: "length r = length xs - k - 1" by (simp add: r_def)
      have "vlc.codes (code_runs r) (parse_runs (length r)) (marks r)"
        using less.prems l True by (intro less.hyps) simp_all
      then have "vlc.codes (code_runs r) (\<lambda>s. parse_runs (length r) s \<bind> (\<lambda>(rest, s). Some (replicate k 0 @ 1 # rest, s))) (marks xs)"
        by (rule vlc.codes_bind_end) (simp add: marks_split [OF k_def] True r_def vlc.codes_return)
      then show ?thesis using True l by simp
    next
      case False
      then have "r = []" "code_runs r = Some" by (simp_all add: r_def fun_eq_iff)
      then show ?thesis using False marks_split [OF k_def] by (simp add: vlc.codes_return)
    qed
    then show ?thesis unfolding w p using less.prems k by (intro step_uvlc) simp_all
  qed
qed

lemma codes_window_levels: "\<forall>x\<in>set xs. x < 256 \<Longrightarrow> vlc.codes (code_levels xs) (parse_levels (marks xs)) xs"
proof (induction xs)
  case Nil
  have "code_levels [] = Some" "parse_levels [] = (\<lambda>s. Some ([], s))" by (simp_all add: fun_eq_iff)
  then show ?case by (simp add: marks_def vlc.codes_return)
next
  case (Cons x xs)
  have w: "code_levels (x # xs) = (\<lambda>s. (if x \<noteq> 0 then xWriteUvlc (x - 1) s else Some s) \<bind> code_levels xs)"
    by (simp add: fun_eq_iff)
  have p: "parse_levels (marks (x # xs)) = (\<lambda>s. (if x \<noteq> 0 then xReadUvlc s \<bind> (\<lambda>(level, s). Some (u8 (1 + u8 level), s)) else Some (0, s))
      \<bind> (\<lambda>(b, s). parse_levels (marks xs) s \<bind> (\<lambda>(bs, s). Some (b # bs, s))))"
    by (simp add: fun_eq_iff marks_def cong: if_cong)
  have x: "x < 256" and t: "vlc.codes (code_levels xs) (parse_levels (marks xs)) xs" using Cons by auto
  have "u8 (1 + u8 (x - 1)) = x" if "x \<noteq> 0" using x that by (simp add: take_bit_nat_eq_self)
  then have e: "vlc.codes (\<lambda>s. xWriteUvlc (x - 1) s) (\<lambda>s. xReadUvlc s \<bind> (\<lambda>(level, s). Some (u8 (1 + u8 level), s))) x" if "x \<noteq> 0"
    using that x by (intro end_uvlc) simp_all
  show ?case unfolding w p
    by (rule step_opt, rule refl, rule e, assumption, rule vlc.codes_bind_end [OF t]) (simp add: vlc.codes_return)
qed

section \<open>Levels and sizes\<close>

lemma size_of_level_inverse:
  assumes "defWinSize \<in> {4, 6}" "4 \<le> w" "w < 256" "w \<noteq> defWinSize"
  shows "level_of_size defWinSize w \<noteq> 0 \<and> level_of_size defWinSize w < 256 \<and> size_of_level defWinSize (level_of_size defWinSize w) = w"
  using assms by (auto simp: level_of_size_def size_of_level_def to_u8_def Let_def nat_mod_distrib)

lemma level_of_default [simp]: "level_of_size d d = 0"
  by (simp add: level_of_size_def)

section \<open>The mapping\<close>

text \<open>Every call of \<open>addCtxSetToMapping\<close> names a registered set and stays below the number of contexts.\<close>

definition call_ok :: "ctx_name \<times> nat \<times> nat \<Rightarrow> bool" where
  "call_ok = (\<lambda>(n, startId, numCtx). case ctxSet n of None \<Rightarrow> False | Some c \<Rightarrow> Offset c + startId + Size c \<le> NumberOfContexts)"

lemma BTSplitFlag_set: "ctxSet BTSplitFlag = Some \<lparr>Offset = 5, Size = 12\<rparr>"
  by (simp add: ctxSet_eq layout_contextSets)

lemma registered: "n \<in> set (map fst contextSets) \<Longrightarrow> call_ok (n, 0, k)"
proof -
  assume "n \<in> set (map fst contextSets)"
  then have "\<exists>c. map_of (layout contextSets 0) n = Some c"
    unfolding layout_names [of contextSets 0, symmetric] by (metis map_of_eq_None_iff not_None_eq list.set_map)
  then show "call_ok (n, 0, k)" using ctxSet_bounds by (auto simp: call_ok_def ctxSet_eq)
qed

lemma mapping_calls_ok: "c \<in> set (mapping_calls x bt) \<Longrightarrow> call_ok c"
proof -
  have "call_ok (IPredMode 1, 1, k)" "call_ok (BTSplitFlag, 6, k)" for k
    by (simp_all add: call_ok_def ctxSet_eq layout_contextSets NumberOfContexts_eq)
  then have "list_all call_ok (mapping_calls x bt)"
    by (simp add: mapping_calls_def Let_def registered contextSets_def)
  then show "c \<in> set (mapping_calls x bt) \<Longrightarrow> call_ok c" by (simp add: list_all_iff)
qed

definition mapping_ok :: "int list \<Rightarrow> bool" where
  "mapping_ok m \<longleftrightarrow> (\<forall>i\<in>set m. - 1 \<le> i \<and> i < int NumberOfContexts)"

lemma addCtxSet_ok:
  assumes "call_ok (n, a, k)" "mapping_ok m"
  shows "\<exists>m'. addCtxSetToMapping n a k m = Some m' \<and> mapping_ok m'"
proof -
  obtain c where c: "ctxSet n = Some c" "Offset c + a + Size c \<le> 399"
    using assms(1) by (auto simp: call_ok_def NumberOfContexts_eq split: option.splits)
  have "ctxInc c a = Offset c + a" using c(2) by (simp add: ctxInc_def take_bit_nat_eq_self)
  then show ?thesis using assms(2) c
    by (auto simp: addCtxSetToMapping_def mapping_ok_def Let_def NumberOfContexts_eq)
qed

lemma xInitMappingTable_ok:
  assumes "mapping_ok m"
  shows "\<exists>m'. xInitMappingTable x n m = Some m' \<and> mapping_ok m' \<and> length m' = n"
proof -
  have "\<exists>m'. for_loop (\<lambda>(n, startId, numCtx). addCtxSetToMapping n startId numCtx) cs m = Some m' \<and> mapping_ok m'"
    if "\<forall>c\<in>set cs. call_ok c" for cs
    using that assms
  proof (induction cs arbitrary: m)
    case (Cons c cs)
    obtain n a k where [simp]: "c = (n, a, k)" by (cases c)
    from addCtxSet_ok [of n a k m] Cons.prems obtain m1 where "addCtxSetToMapping n a k m = Some m1" "mapping_ok m1" by auto
    with Cons show ?case by auto
  qed simp
  with mapping_calls_ok obtain m' where m': "for_loop (\<lambda>(n, startId, numCtx). addCtxSetToMapping n startId numCtx) (mapping_calls x 12) m = Some m'" "mapping_ok m'"
    by blast
  then have "mapping_ok (vec_resize n (- 1) m')" by (auto simp: mapping_ok_def vec_resize_def dest: in_set_takeD)
  then show ?thesis using m' by (simp add: xInitMappingTable_def BTSplitFlag_set vec_resize_def)
qed

section \<open>Access to the store\<close>

definition key_ok :: "nat \<Rightarrow> int \<Rightarrow> bool" where
  "key_ok ty qp \<longleftrightarrow> ty < NUMBER_OF_SLICE_TYPES \<and> 0 \<le> qp \<and> qp \<le> MAX_QP"

definition sets_shape :: "wsize_set list list \<Rightarrow> bool" where
  "sets_shape ws \<longleftrightarrow> length ws = NUMBER_OF_SLICE_TYPES \<and> (\<forall>row\<in>set ws. length row = nat MAX_QP + 1)"

definition wset_at :: "nat \<Rightarrow> int \<Rightarrow> wsize_store \<Rightarrow> wsize_set" where
  "wset_at ty qp d = m_winSizes d ! ty ! nat qp"

definition with_wset :: "nat \<Rightarrow> int \<Rightarrow> wsize_set \<Rightarrow> wsize_store \<Rightarrow> wsize_store" where
  "with_wset ty qp w d = d\<lparr>m_winSizes := (m_winSizes d)[ty := (m_winSizes d ! ty)[nat qp := w]]\<rparr>"

lemma getWSizeSet_eq: "sets_shape (m_winSizes d) \<Longrightarrow> key_ok ty qp \<Longrightarrow> getWSizeSet ty qp d = Some (wset_at ty qp d)"
  by (auto simp: getWSizeSet_def sets_shape_def key_ok_def wset_at_def arr_get_i_def)

lemma putWSizeSet_eq: "sets_shape (m_winSizes d) \<Longrightarrow> key_ok ty qp \<Longrightarrow> putWSizeSet ty qp w d = Some (with_wset ty qp w d)"
  by (auto simp: putWSizeSet_def sets_shape_def key_ok_def with_wset_def arr_set_i_def)

lemma with_wset_simps [simp]:
  "m_isInitialized (with_wset ty qp w d) = m_isInitialized d" "m_readWriteBuffer (with_wset ty qp w d) = m_readWriteBuffer d"
  "m_codeId2ctxId (with_wset ty qp w d) = m_codeId2ctxId d"
  by (simp_all add: with_wset_def)

lemma sets_shape_with [simp]: "sets_shape (m_winSizes d) \<Longrightarrow> sets_shape (m_winSizes (with_wset ty qp w d))"
  by (cases "ty < length (m_winSizes d)") (auto simp: sets_shape_def with_wset_def list_update_beyond dest!: set_update_subset_insert [THEN subsetD])

lemma wset_at_with:
  "sets_shape (m_winSizes d) \<Longrightarrow> key_ok ty qp \<Longrightarrow> key_ok ty' qp' \<Longrightarrow>
    wset_at ty' qp' (with_wset ty qp w d) = (if ty' = ty \<and> qp' = qp then w else wset_at ty' qp' d)"
  by (auto simp: wset_at_def with_wset_def sets_shape_def key_ok_def MAX_QP_def nth_list_update eq_nat_nat_iff)

section \<open>The buffer of levels\<close>

text \<open>The level of every code number for the sizes \<open>win\<close>.\<close>

definition levels_of :: "nat \<Rightarrow> int list \<Rightarrow> nat list \<Rightarrow> nat list" where
  "levels_of def mapping win = map (\<lambda>i. if i \<ge> 0 then level_of_size def (win ! nat i) else 0) mapping"

lemma set_levels:
  assumes "mapping_ok mapping" "length win = NumberOfContexts" "length buffer = length mapping"
  shows "for_loop (set_level def mapping win) [0..<length buffer] buffer = Some (levels_of def mapping win)"
proof -
  let ?L = "levels_of def mapping win"
  have len: "length ?L = length mapping" by (simp add: levels_of_def)
  have "for_loop (set_level def mapping win) [0..<length mapping] (overlay 0 ?L buffer) = Some (overlay (length mapping) ?L buffer)"
  proof (rule for_loop_upt)
    fix k assume k: "k < length mapping"
    have "mapping ! k < int NumberOfContexts" using assms(1) k by (simp add: mapping_ok_def)
    then have "0 \<le> mapping ! k \<Longrightarrow> arr_get_i win (mapping ! k) = Some (win ! nat (mapping ! k))"
      using assms(2) by (simp add: arr_get_i_def)
    then show "set_level def mapping win k (overlay k ?L buffer) = Some (overlay (Suc k) ?L buffer)"
      using k len assms(3) arr_overlay [of ?L buffer k] by (cases "0 \<le> mapping ! k") (simp_all add: set_level_def levels_of_def)
  qed simp
  then show ?thesis using assms(3) len by simp
qed

text \<open>The sizes that a buffer of levels stands for, where the code numbers of a context agree.\<close>

definition sizes_of :: "nat \<Rightarrow> int list \<Rightarrow> nat list \<Rightarrow> nat list" where
  "sizes_of def mapping win = map (\<lambda>c. if int c \<in> set mapping \<and> win ! c \<noteq> def then win ! c else 0) [0..<NumberOfContexts]"

definition sizes_ok :: "nat \<Rightarrow> int list \<Rightarrow> nat list \<Rightarrow> bool" where
  "sizes_ok def mapping win \<longleftrightarrow> length win = NumberOfContexts
     \<and> (\<forall>c < NumberOfContexts. if int c \<in> set mapping then 4 \<le> win ! c \<and> win ! c < 256 else win ! c = 0)"

lemma level_0_iff: "def \<in> {4, 6} \<Longrightarrow> 4 \<le> w \<Longrightarrow> w < 256 \<Longrightarrow> level_of_size def w = 0 \<longleftrightarrow> w = def"
  using size_of_level_inverse [of "def" w] by (auto simp: level_of_size_def)

lemma nth_levels_of: "k < length mapping \<Longrightarrow> levels_of def mapping win ! k = (if mapping ! k \<ge> 0 then level_of_size def (win ! nat (mapping ! k)) else 0)"
  by (simp add: levels_of_def)

lemma int_mem_take_Suc: "k < length m \<Longrightarrow> i \<in> set (take (Suc k) m) \<longleftrightarrow> i = m ! k \<or> i \<in> set (take k m)"
  by (auto simp: take_Suc_conv_app_nth)

lemma apply_levels:
  assumes "mapping_ok mapping" "sizes_ok def mapping win" "def \<in> {4, 6}"
  shows "for_loop (apply_level def (levels_of def mapping win) mapping) [0..<length mapping] (replicate NumberOfContexts 0)
    = Some (sizes_of def mapping win)"
proof -
  define X where "X k = map (\<lambda>c. if int c \<in> set (take k mapping) \<and> win ! c \<noteq> def then win ! c else 0) [0..<NumberOfContexts]" for k
  have "for_loop (apply_level def (levels_of def mapping win) mapping) [0..<length mapping] (X 0) = Some (X (length mapping))"
  proof (rule for_loop_upt)
    show "0 \<le> length mapping" by simp
  next
    fix k assume k: "k < length mapping"
    let ?i = "mapping ! k"
    have i: "- 1 \<le> ?i" "?i < int NumberOfContexts" using assms(1) k by (simp_all add: mapping_ok_def)
    show "apply_level def (levels_of def mapping win) mapping k (X k) = Some (X (Suc k))"
    proof (cases "0 \<le> ?i")
      case True
      define c where "c = nat ?i"
      have c: "?i = int c" "c < NumberOfContexts" using True i by (simp_all add: c_def)
      have "int c \<in> set mapping" using k c(1) by (metis nth_mem)
      then have w: "4 \<le> win ! c" "win ! c < 256" using assms(2) c(2) by (auto simp: sizes_ok_def)
      have lev: "levels_of def mapping win ! k = level_of_size def (win ! c)" using k c(1) by (simp add: nth_levels_of)
      have ln: "length (levels_of def mapping win) = length mapping" by (simp add: levels_of_def)
      show ?thesis
      proof (cases "win ! c = def")
        case True
        then have "X (Suc k) = X k" using k c by (auto simp: X_def int_mem_take_Suc)
        then show ?thesis using lev ln k True by (simp add: apply_level_def)
      next
        case False
        note s = size_of_level_inverse [OF assms(3) w False]
        have "X (Suc k) = (X k)[c := win ! c]"
          using k c False by (intro nth_equalityI) (auto simp: X_def int_mem_take_Suc nth_list_update)
        moreover have "c < length (X k)" using c(2) by (simp add: X_def)
        ultimately show ?thesis using lev ln k s c(1) by (simp add: apply_level_def arr_set_i_def)
      qed
    next
      case False
      then have "X (Suc k) = X k" using k by (auto simp: X_def int_mem_take_Suc)
      then show ?thesis using False k by (simp add: apply_level_def nth_levels_of levels_of_def)
    qed
  qed
  moreover have "X 0 = replicate NumberOfContexts 0" by (intro nth_equalityI) (simp_all add: X_def)
  ultimately show ?thesis by (simp add: X_def sizes_of_def)
qed

text \<open>Applied to the models, both sets of sizes give the same windows.\<close>

lemma same_windows:
  assumes "sizes_ok (getDefaultWindowSize engine) mapping win"
  shows "model_windows engine (Some (sizes_of (getDefaultWindowSize engine) mapping win)) = model_windows engine (Some win)"
    "model_windows engine (Some win) \<noteq> None"
proof -
  have "sizes_ok (getDefaultWindowSize engine) mapping win \<Longrightarrow> c < NumberOfContexts \<Longrightarrow>
    setLog2WindowSize (sizes_of (getDefaultWindowSize engine) mapping win ! c) (getDefaultWindowSize engine) = setLog2WindowSize (win ! c) (getDefaultWindowSize engine)" for c
    by (auto simp: sizes_of_def sizes_ok_def setLog2WindowSize_def)
  then show "model_windows engine (Some (sizes_of (getDefaultWindowSize engine) mapping win)) = model_windows engine (Some win)"
    using assms by (auto simp: model_windows_def sizes_ok_def sizes_of_def Let_def intro!: nth_equalityI)
  show "model_windows engine (Some win) \<noteq> None" using assms by (simp add: model_windows_def sizes_ok_def Let_def)
qed

section \<open>What the encoder estimates\<close>

lemma estWinSize_bounds:
  assumes "4 \<le> def" "def < 8" "\<forall>w. bits w < 2 ^ 32 - 1"
  shows "4 \<le> estWinSize def recorded bits \<and> estWinSize def recorded bits < 8"
proof -
  have u: "[4..<8] = [4, 5, 6, 7 :: nat]" by (simp add: upt_rec)
  show ?thesis using assms unfolding estWinSize_def u by (auto simp: try_size_def split: prod.split)
qed

definition estimates :: "nat \<Rightarrow> (nat \<Rightarrow> bool) \<Rightarrow> (nat \<Rightarrow> nat \<Rightarrow> nat) \<Rightarrow> int list \<Rightarrow> nat list" where
  "estimates def recorded bits mapping = map (\<lambda>c. if int c \<in> set mapping then estWinSize def (recorded c) (bits c) else 0) [0..<NumberOfContexts]"

lemma estimated:
  assumes "mapping_ok mapping"
  shows "for_loop (estimate_step def recorded bits) mapping (replicate NumberOfContexts 0) = Some (estimates def recorded bits mapping)"
proof -
  have "for_loop (estimate_step def recorded bits) m (estimates def recorded bits m0) = Some (estimates def recorded bits (m0 @ m))"
    if "mapping_ok m" for m m0
    using that
  proof (induction m arbitrary: m0)
    case (Cons i m)
    have "estimate_step def recorded bits i (estimates def recorded bits m0) = Some (estimates def recorded bits (m0 @ [i]))"
    proof (cases "0 \<le> i")
      case True
      define c where "c = nat i"
      have i: "i = int c" "c < NumberOfContexts" using Cons.prems True by (auto simp: mapping_ok_def c_def)
      have "(estimates def recorded bits m0)[c := estWinSize def (recorded c) (bits c)] = estimates def recorded bits (m0 @ [i])"
        by (intro nth_equalityI) (auto simp: estimates_def nth_list_update i)
      then show ?thesis using i by (simp add: estimate_step_def arr_set_i_def estimates_def)
    next
      case False
      then have "estimates def recorded bits (m0 @ [i]) = estimates def recorded bits m0" by (auto simp: estimates_def)
      then show ?thesis using False by (simp add: estimate_step_def)
    qed
    with Cons.IH [of "m0 @ [i]"] Cons.prems show ?case by (simp add: mapping_ok_def)
  qed simp
  moreover have "estimates def recorded bits [] = replicate NumberOfContexts 0" by (intro nth_equalityI) (simp_all add: estimates_def)
  ultimately show ?thesis using assms by (metis append_Nil)
qed

lemma estimates_ok:
  assumes "def \<in> {4, 6}" "\<forall>c w. bits c w < 2 ^ 32 - 1"
  shows "sizes_ok def mapping (estimates def recorded bits mapping)"
proof -
  have b: "4 \<le> estWinSize def (recorded c) (bits c)" "estWinSize def (recorded c) (bits c) < 256" for c
    using estWinSize_bounds [of "def" "bits c" "recorded c"] assms by auto
  show ?thesis by (simp add: sizes_ok_def estimates_def b)
qed

section \<open>Encoder and decoder in step\<close>

definition store_wf :: "sps_next \<Rightarrow> wsize_store \<Rightarrow> bool" where
  "store_wf x d \<longleftrightarrow> m_isInitialized d \<and> sets_shape (m_winSizes d) \<and> length (m_readWriteBuffer d) = 384
     \<and> xInitMappingTable x 384 [] = Some (m_codeId2ctxId d)"

lemma store_wf_mapping: "store_wf x d \<Longrightarrow> mapping_ok (m_codeId2ctxId d) \<and> length (m_codeId2ctxId d) = 384"
  using xInitMappingTable_ok [of "[]" x 384] by (auto simp: store_wf_def mapping_ok_def)

lemma fresh_store:
  "\<exists>e. checkInit x CtxWSizeStore = Some e \<and> store_wf x e \<and> (\<forall>ty qp. key_ok ty qp \<longrightarrow> \<not> m_valid (wset_at ty qp e) \<and> \<not> m_coded (wset_at ty qp e))"
proof -
  obtain m where m: "xInitMappingTable x 384 [] = Some m" using xInitMappingTable_ok [of "[]" x 384] by (auto simp: mapping_ok_def)
  have "\<not> m_valid w \<and> \<not> m_coded w" if "w = map (map setInvalid) (replicate 3 (replicate 64 CtxWSizeSet)) ! ty ! nat qp" "key_ok ty qp" for ty qp w
    using that by (auto simp: key_ok_def NUMBER_OF_SLICE_TYPES_def MAX_QP_def setInvalid_def)
  then show ?thesis
    using m by (simp add: checkInit_def CtxWSizeStore_def vec_resize_def xSetAllInvalid_def store_wf_def sets_shape_def wset_at_def
        NUMBER_OF_SLICE_TYPES_def MAX_QP_def)
qed

definition started :: "sps_next \<Rightarrow> wsize_store \<Rightarrow> wsize_store" where
  "started x d = (if m_isInitialized d then d else the (checkInit x CtxWSizeStore))"

text \<open>
  The decoder has the sizes of every set that the encoder has marked as coded; \<open>e\<close> is the store of the encoder and \<open>d\<close>
  that of the decoder, which is initialised by the first slice header.
\<close>

definition windows_agree :: "sps_next \<Rightarrow> wsize_store \<Rightarrow> wsize_store \<Rightarrow> bool" where
  "windows_agree x e d \<longleftrightarrow> store_wf x e \<and> (d = CtxWSizeStore \<or> store_wf x d)
     \<and> (\<forall>ty qp. key_ok ty qp \<longrightarrow> (let w = wset_at ty qp e; v = wset_at ty qp (started x d); def = getDefaultWindowSize (m_CABACEngineMode x) in
          (m_valid w \<longrightarrow> sizes_ok def (m_codeId2ctxId e) (m_log2WinSizes w)) \<and> (m_coded w \<longrightarrow> m_valid w
            \<and> m_valid v \<and> m_log2WinSizes v = sizes_of def (m_codeId2ctxId e) (m_log2WinSizes w))))"

lemma started_wf: "d = CtxWSizeStore \<or> store_wf x d \<Longrightarrow> checkInit x d = Some (started x d) \<and> store_wf x (started x d)"
  using fresh_store [of x] by (auto simp: started_def store_wf_def checkInit_def CtxWSizeStore_def)

lemma started_started [simp]: "store_wf x d \<Longrightarrow> started x d = d"
  by (simp add: started_def store_wf_def)

lemma engine_default: "m \<in> {2, 3} \<Longrightarrow> getDefaultWindowSize m \<in> {4, 6}"
  by (auto simp: getDefaultWindowSize_def)

lemma estimate_agrees:
  assumes "windows_agree x e d" "key_ok ty qp" "validWinSizes ty qp e = Some False" "m_CABACEngineMode x \<in> {2, 3}"
    "\<forall>c w. bits c w < 2 ^ 32 - 1" "estWinSizes (m_CABACEngineMode x) ty qp recorded bits e = Some e'"
  shows "windows_agree x e' d"
proof -
  let ?def = "getDefaultWindowSize (m_CABACEngineMode x)" and ?w = "wset_at ty qp e"
  have e: "store_wf x e" and shape: "sets_shape (m_winSizes e)" using assms(1) by (simp_all add: windows_agree_def store_wf_def)
  have v: "\<not> m_valid ?w" using assms(2,3) shape by (simp add: validWinSizes_def getWSizeSet_eq)
  have nc: "\<not> m_coded ?w" using assms(1,2) v by (auto simp: windows_agree_def Let_def)
  note m = store_wf_mapping [OF e]
  define win where "win = estimates ?def recorded bits (m_codeId2ctxId e)"
  have win: "for_loop (estimate_step ?def recorded bits) (m_codeId2ctxId e) (replicate NumberOfContexts 0) = Some win"
    "sizes_ok ?def (m_codeId2ctxId e) win"
    using estimated [of "m_codeId2ctxId e"] estimates_ok [OF engine_default [OF assms(4)]] m assms(5) by (auto simp: win_def)
  have "e' = with_wset ty qp (setValid ?def (?w\<lparr>m_log2WinSizes := win\<rparr>)) e"
    using assms(6,2) win(1) m e shape by (simp add: estWinSizes_def getWSizeSet_eq putWSizeSet_eq store_wf_def)
  then show ?thesis using assms(1,2) win(2) nc e shape
    by (auto simp: windows_agree_def Let_def wset_at_with store_wf_def setValid_def)
qed

section \<open>One slice\<close>

text \<open>What the writer appends, what both stores are afterwards.\<close>

definition wsize_bits :: "nat \<Rightarrow> int \<Rightarrow> nat list \<Rightarrow> obs \<Rightarrow> obs option" where
  "wsize_bits engine mode levels = (if engine \<noteq> 2 \<and> engine \<noteq> 3 then Some else (\<lambda>s.
     xWriteFlag (of_bool (mode > 0)) s \<bind> (if \<not> mode > 0 then Some else (\<lambda>s.
     xWriteFlag (of_bool (mode > 1)) s \<bind> (if mode > 1 then Some else (\<lambda>s.
     code_runs levels s \<bind> code_levels levels))))))"

definition slice_levels :: "sps_next \<Rightarrow> nat \<Rightarrow> int \<Rightarrow> wsize_store \<Rightarrow> nat list" where
  "slice_levels x ty qp e = levels_of (getDefaultWindowSize (m_CABACEngineMode x)) (m_codeId2ctxId e) (m_log2WinSizes (wset_at ty qp e))"

definition enc_after :: "sps_next \<Rightarrow> nat \<Rightarrow> int \<Rightarrow> int \<Rightarrow> wsize_store \<Rightarrow> wsize_store" where
  "enc_after x ty qp mode e = (if mode = 1 \<and> m_CABACEngineMode x \<in> {2, 3}
     then with_wset ty qp (setCoded (wset_at ty qp e)) (e\<lparr>m_readWriteBuffer := slice_levels x ty qp e\<rparr>) else e)"

definition dec_parsed :: "sps_next \<Rightarrow> nat \<Rightarrow> int \<Rightarrow> int \<Rightarrow> wsize_store \<Rightarrow> wsize_store \<Rightarrow> wsize_store" where
  "dec_parsed x ty qp mode e d = (if m_CABACEngineMode x \<in> {2, 3}
     then if mode = 1 then (started x d)\<lparr>m_readWriteBuffer := slice_levels x ty qp e\<rparr> else started x d else d)"

definition dec_after :: "sps_next \<Rightarrow> nat \<Rightarrow> int \<Rightarrow> int \<Rightarrow> wsize_store \<Rightarrow> wsize_store \<Rightarrow> wsize_store" where
  "dec_after x ty qp mode e d = (let d1 = dec_parsed x ty qp mode e d in
     if mode = 1 then with_wset ty qp (setValidOnly ((wset_at ty qp d1)
       \<lparr>m_log2WinSizes := sizes_of (getDefaultWindowSize (m_CABACEngineMode x)) (m_codeId2ctxId e) (m_log2WinSizes (wset_at ty qp e))\<rparr>)) d1 else d1)"

text \<open>
  The mode of the slice is the one that \<open>setSliceWinUpdateMode\<close> takes from the store, or 0; the engines without windows have mode 0.
  With mode 0 the store is not accessed, so that the QP may be any.
\<close>

definition slice_mode_ok :: "sps_next \<Rightarrow> nat \<Rightarrow> int \<Rightarrow> int \<Rightarrow> wsize_store \<Rightarrow> bool" where
  "slice_mode_ok x ty qp mode e \<longleftrightarrow> (mode \<noteq> 0 \<longrightarrow> key_ok ty qp) \<and> (if m_CABACEngineMode x \<in> {2, 3} then mode \<in> {0, getMode (wset_at ty qp e)} else mode = 0)"

lemma slice_mode_cases:
  assumes "windows_agree x e d" "slice_mode_ok x ty qp mode e"
  shows "mode \<in> {0, 1, 2}" "mode \<noteq> 0 \<Longrightarrow> m_valid (wset_at ty qp e) \<and> m_CABACEngineMode x \<in> {2, 3}" "mode = 2 \<Longrightarrow> m_coded (wset_at ty qp e)"
  using assms(2) by (auto simp: slice_mode_ok_def getMode_def split: if_splits)

lemma slice_levels_ok:
  assumes "windows_agree x e d" "slice_mode_ok x ty qp mode e" "mode \<noteq> 0"
  shows "length (slice_levels x ty qp e) = 384" "\<forall>l\<in>set (slice_levels x ty qp e). l < 256"
    "xSetReadWriteBuffer (m_CABACEngineMode x) ty qp e = Some (e\<lparr>m_readWriteBuffer := slice_levels x ty qp e\<rparr>)"
proof -
  let ?def = "getDefaultWindowSize (m_CABACEngineMode x)" and ?w = "wset_at ty qp e"
  have e: "store_wf x e" "sets_shape (m_winSizes e)" "length (m_readWriteBuffer e) = 384"
    using assms(1) by (simp_all add: windows_agree_def store_wf_def)
  have key: "key_ok ty qp" using assms(2,3) by (simp add: slice_mode_ok_def)
  note m = store_wf_mapping [OF e(1)] and v = slice_mode_cases(2) [OF assms]
  have ok: "sizes_ok ?def (m_codeId2ctxId e) (m_log2WinSizes ?w)" using assms(1) key v by (auto simp: windows_agree_def Let_def)
  show "length (slice_levels x ty qp e) = 384" using m by (simp add: slice_levels_def levels_of_def)
  have "level_of_size ?def w < 256" for w by (auto simp: level_of_size_def to_u8_def nat_less_iff)
  then show "\<forall>l\<in>set (slice_levels x ty qp e). l < 256" by (auto simp: slice_levels_def levels_of_def)
  show "xSetReadWriteBuffer (m_CABACEngineMode x) ty qp e = Some (e\<lparr>m_readWriteBuffer := slice_levels x ty qp e\<rparr>)"
    using set_levels [of "m_codeId2ctxId e" "m_log2WinSizes ?w" "m_readWriteBuffer e" ?def] m e v key ok
    by (simp add: xSetReadWriteBuffer_def getWSizeSet_eq slice_levels_def sizes_ok_def)
qed

lemma code_wsizes:
  assumes "windows_agree x e d" "slice_mode_ok x ty qp mode e"
  shows "xCodeCABACWSizes (m_CABACEngineMode x) ty qp mode e s
    = map_option (Pair (enc_after x ty qp mode e)) (wsize_bits (m_CABACEngineMode x) mode (slice_levels x ty qp e) s)"
proof -
  have e: "sets_shape (m_winSizes e)" using assms(1) by (simp add: windows_agree_def store_wf_def)
  have key: "mode \<noteq> 0 \<Longrightarrow> key_ok ty qp" using assms(2) by (simp add: slice_mode_ok_def)
  note c = slice_mode_cases [OF assms] and b = slice_levels_ok [OF assms]
  have at: "wset_at ty qp (e\<lparr>m_readWriteBuffer := l\<rparr>) = wset_at ty qp e" for l by (simp add: wset_at_def)
  consider "mode = 0" | "mode = 1" | "mode = 2" using c(1) by auto
  then show ?thesis
  proof cases
    case 1 then show ?thesis by (auto simp: xCodeCABACWSizes_def wsize_bits_def enc_after_def split: bind_splits)
  next
    case 2 then show ?thesis using c(2) b e key
      by (auto simp: xCodeCABACWSizes_def wsize_bits_def enc_after_def validWinSizes_def getWSizeSet_eq putWSizeSet_eq at split: bind_splits)
  next
    case 3 then show ?thesis using c(2) e key
      by (auto simp: xCodeCABACWSizes_def wsize_bits_def enc_after_def validWinSizes_def getWSizeSet_eq split: bind_splits)
  qed
qed

lemma codes_wsizes:
  assumes "windows_agree x e d" "slice_mode_ok x ty qp mode e"
  shows "vlc.codes (wsize_bits (m_CABACEngineMode x) mode (slice_levels x ty qp e)) (xParseCABACWSizes x d) (mode, dec_parsed x ty qp mode e d)"
proof (cases "m_CABACEngineMode x \<in> {2, 3}")
  case False
  then have "xParseCABACWSizes x d = (\<lambda>s. Some ((0, d), s))" "mode = 0" using assms(2) by (auto simp: xParseCABACWSizes_def slice_mode_ok_def)
  then show ?thesis using False by (simp add: wsize_bits_def dec_parsed_def vlc.codes_return)
next
  case True
  have d: "d = CtxWSizeStore \<or> store_wf x d" using assms(1) by (auto simp: windows_agree_def)
  note st = started_wf [OF d] and c = slice_mode_cases [OF assms] and b = slice_levels_ok [OF assms]
  have len: "length (m_readWriteBuffer (started x d)) = 384" using st by (simp add: store_wf_def)
  let ?L = "slice_levels x ty qp e" and ?D = "started x d"
  have p: "xParseCABACWSizes x d = (\<lambda>s. xReadFlag s \<bind> (\<lambda>(updateFlag, s). if updateFlag = 0 then Some ((0, ?D), s) else
      xReadFlag s \<bind> (\<lambda>(reuseFlag, s). if reuseFlag \<noteq> 0 then Some ((1 + int reuseFlag, ?D), s) else
      parse_runs 384 s \<bind> (\<lambda>(buffer, s). parse_levels buffer s \<bind> (\<lambda>(buffer, s). Some ((1 + int reuseFlag, ?D\<lparr>m_readWriteBuffer := buffer\<rparr>), s))))))"
    using True st len by (auto simp: xParseCABACWSizes_def fun_eq_iff cong: if_cong)
  have w: "wsize_bits (m_CABACEngineMode x) mode ?L = (\<lambda>s. xWriteFlag (of_bool (mode > 0)) s \<bind> (if \<not> mode > 0 then Some else (\<lambda>s.
     xWriteFlag (of_bool (mode > 1)) s \<bind> (if mode > 1 then Some else (\<lambda>s. code_runs ?L s \<bind> code_levels ?L)))))"
    using True by (auto simp: wsize_bits_def)
  show ?thesis unfolding p w
  proof (rule step_flag)
    show "vlc.codes (if \<not> mode > 0 then Some else (\<lambda>s. xWriteFlag (of_bool (mode > 1)) s \<bind> (if mode > 1 then Some else (\<lambda>s. code_runs ?L s \<bind> code_levels ?L))))
      (\<lambda>s. if (of_bool (mode > 0) :: nat) = 0 then Some ((0, ?D), s) else xReadFlag s \<bind> (\<lambda>(reuseFlag, s). if reuseFlag \<noteq> 0 then Some ((1 + int reuseFlag, ?D), s) else
      parse_runs 384 s \<bind> (\<lambda>(buffer, s). parse_levels buffer s \<bind> (\<lambda>(buffer, s). Some ((1 + int reuseFlag, ?D\<lparr>m_readWriteBuffer := buffer\<rparr>), s)))))
      (mode, dec_parsed x ty qp mode e d)"
    proof (cases "mode > 0")
      case False
      then show ?thesis using c(1) True by (auto simp: dec_parsed_def intro!: vlc.codes_return)
    next
      case pos: True
      have "vlc.codes (if mode > 1 then Some else (\<lambda>s. code_runs ?L s \<bind> code_levels ?L))
        (\<lambda>s. if (of_bool (mode > 1) :: nat) \<noteq> 0 then Some ((1 + int (of_bool (mode > 1)), ?D), s) else
          parse_runs 384 s \<bind> (\<lambda>(buffer, s). parse_levels buffer s \<bind> (\<lambda>(buffer, s). Some ((1 + int (of_bool (mode > 1)), ?D\<lparr>m_readWriteBuffer := buffer\<rparr>), s))))
        (mode, dec_parsed x ty qp mode e d)"
      proof (cases "mode > 1")
        case True
        then have "mode = 2" using c(1) by auto
        then show ?thesis using c(2) by (auto simp: dec_parsed_def intro!: vlc.codes_return)
      next
        case False
        then have m1: "mode = 1" using pos by simp
        have r: "vlc.codes (code_runs ?L) (parse_runs 384) (marks ?L)" using codes_window_runs [of ?L] b(1) m1 by simp
        have l: "vlc.codes (code_levels ?L) (parse_levels (marks ?L)) ?L" using codes_window_levels b(2) m1 by simp
        have "vlc.codes (\<lambda>s. code_runs ?L s \<bind> code_levels ?L)
          (\<lambda>s. parse_runs 384 s \<bind> (\<lambda>(buffer, s). parse_levels buffer s \<bind> (\<lambda>(buffer, s). Some ((1, ?D\<lparr>m_readWriteBuffer := buffer\<rparr>), s))))
          (mode, dec_parsed x ty qp mode e d)"
          by (rule vlc.codes_bind [OF r], rule vlc.codes_bind_end [OF l]) (use m1 True \<open>m_CABACEngineMode x \<in> {2, 3}\<close> in \<open>auto simp: dec_parsed_def intro!: vlc.codes_return\<close>)
        then show ?thesis using m1 by simp
      qed
      then show ?thesis using pos by (simp add: step_flag)
    qed
  qed
qed

lemma slice_agrees:
  assumes "windows_agree x e d" "slice_mode_ok x ty qp mode e"
  shows "updateState (m_CABACEngineMode x) ty qp mode False (dec_parsed x ty qp mode e d) = Some (dec_after x ty qp mode e d)"
    "windows_agree x (enc_after x ty qp mode e) (dec_after x ty qp mode e d)"
    "getWinSizes ty qp mode (dec_after x ty qp mode e d) \<bind> model_windows (m_CABACEngineMode x)
       = getWinSizes ty qp mode (enc_after x ty qp mode e) \<bind> model_windows (m_CABACEngineMode x)"
    "getWinSizes ty qp mode (enc_after x ty qp mode e) \<bind> model_windows (m_CABACEngineMode x) \<noteq> None"
proof -
  let ?def = "getDefaultWindowSize (m_CABACEngineMode x)" and ?w = "wset_at ty qp e" and ?D = "started x d" and ?L = "slice_levels x ty qp e"
  have d: "d = CtxWSizeStore \<or> store_wf x d" using assms(1) by (auto simp: windows_agree_def)
  have e: "store_wf x e" "sets_shape (m_winSizes e)" using assms(1) by (simp_all add: windows_agree_def store_wf_def)
  have key: "mode \<noteq> 0 \<Longrightarrow> key_ok ty qp" using assms(2) by (simp add: slice_mode_ok_def)
  have D: "store_wf x ?D" "sets_shape (m_winSizes ?D)" "m_codeId2ctxId ?D = m_codeId2ctxId e" "length (m_readWriteBuffer ?D) = 384"
    using started_wf [OF d] e(1) by (auto simp: store_wf_def)
  note c = slice_mode_cases [OF assms] and b = slice_levels_ok [OF assms] and m = store_wf_mapping [OF e(1)]
  have ok: "sizes_ok ?def (m_codeId2ctxId e) (m_log2WinSizes ?w)" if "mode \<noteq> 0"
    using assms(1) key [OF that] c(2) [OF that] by (auto simp: windows_agree_def Let_def)
  have buf [simp]: "wset_at a q (f\<lparr>m_readWriteBuffer := l\<rparr>) = wset_at a q f" for a q f l by (simp add: wset_at_def)
  have "updateState (m_CABACEngineMode x) ty qp mode False (dec_parsed x ty qp mode e d) = Some (dec_after x ty qp mode e d)
    \<and> windows_agree x (enc_after x ty qp mode e) (dec_after x ty qp mode e d)
    \<and> getWinSizes ty qp mode (dec_after x ty qp mode e d) \<bind> model_windows (m_CABACEngineMode x)
       = getWinSizes ty qp mode (enc_after x ty qp mode e) \<bind> model_windows (m_CABACEngineMode x)
    \<and> getWinSizes ty qp mode (enc_after x ty qp mode e) \<bind> model_windows (m_CABACEngineMode x) \<noteq> None"
  proof (cases "mode = 1")
    case True
    have eng: "m_CABACEngineMode x \<in> {2, 3}" "m_valid ?w" using c(2) True by auto
    note same = same_windows [OF ok]
    have "for_loop (apply_level ?def ?L (m_codeId2ctxId e)) [0..<384] (replicate NumberOfContexts 0) = Some (sizes_of ?def (m_codeId2ctxId e) (m_log2WinSizes ?w))"
      using apply_levels [of "m_codeId2ctxId e" ?def "m_log2WinSizes ?w"] m ok True engine_default [OF eng(1)] by (simp add: slice_levels_def)
    then have u: "updateState (m_CABACEngineMode x) ty qp mode False (dec_parsed x ty qp mode e d) = Some (dec_after x ty qp mode e d)"
      using True eng D b(1) key by (simp add: updateState_def dec_parsed_def dec_after_def xApplyReadWriteBuffer_def getWSizeSet_eq putWSizeSet_eq Let_def)
    have ag: "windows_agree x (enc_after x ty qp mode e) (dec_after x ty qp mode e d)"
      using assms(1) True eng D e b(1) key
      by (auto simp: windows_agree_def Let_def enc_after_def dec_after_def dec_parsed_def store_wf_def wset_at_with setCoded_def setValidOnly_def started_def)
    show ?thesis using u ag same True eng D e key
      by (simp add: enc_after_def dec_after_def dec_parsed_def getWinSizes_def getWSizeSet_eq wset_at_with setCoded_def setValidOnly_def Let_def)
  next
    case False
    then have after: "enc_after x ty qp mode e = e" "dec_after x ty qp mode e d = dec_parsed x ty qp mode e d"
      "dec_parsed x ty qp mode e d = (if m_CABACEngineMode x \<in> {2, 3} then ?D else d)"
      by (auto simp: enc_after_def dec_after_def dec_parsed_def Let_def)
    have ag: "windows_agree x e (dec_parsed x ty qp mode e d)"
      using assms(1) D(1) unfolding after by (auto simp: windows_agree_def Let_def)
    have w: "getWinSizes ty qp mode (dec_parsed x ty qp mode e d) \<bind> model_windows (m_CABACEngineMode x)
       = getWinSizes ty qp mode e \<bind> model_windows (m_CABACEngineMode x)
      \<and> getWinSizes ty qp mode e \<bind> model_windows (m_CABACEngineMode x) \<noteq> None"
    proof (cases "mode = 0")
      case True
      then show ?thesis by (simp add: getWinSizes_def model_windows_def Let_def)
    next
      case nz: False
      then have coded: "m_coded ?w" "m_valid ?w" "m_CABACEngineMode x \<in> {2, 3}" using c False by auto
      then have "m_valid (wset_at ty qp ?D)" "m_log2WinSizes (wset_at ty qp ?D) = sizes_of ?def (m_codeId2ctxId e) (m_log2WinSizes ?w)"
        using assms(1) key [OF nz] by (auto simp: windows_agree_def Let_def)
      then show ?thesis using same_windows [OF ok [OF nz]] coded nz key [OF nz] D(2) e(2) unfolding after
        by (simp add: getWinSizes_def getWSizeSet_eq)
    qed
    show ?thesis using False ag w unfolding after by (auto simp: updateState_def)
  qed
  then show "updateState (m_CABACEngineMode x) ty qp mode False (dec_parsed x ty qp mode e d) = Some (dec_after x ty qp mode e d)"
    "windows_agree x (enc_after x ty qp mode e) (dec_after x ty qp mode e d)"
    "getWinSizes ty qp mode (dec_after x ty qp mode e d) \<bind> model_windows (m_CABACEngineMode x)
       = getWinSizes ty qp mode (enc_after x ty qp mode e) \<bind> model_windows (m_CABACEngineMode x)"
    "getWinSizes ty qp mode (enc_after x ty qp mode e) \<bind> model_windows (m_CABACEngineMode x) \<noteq> None" by auto
qed

section \<open>The stores of a run\<close>

text \<open>
  The encoder initialises its store and estimates a set of sizes only where it has no valid one (\<open>CABACWriter::enableBinStore\<close>); for each
  slice the mode is taken from the store, the header is written and read, and the decoder takes over the sizes it has read.
\<close>

inductive run_stores :: "sps_next \<Rightarrow> wsize_store \<Rightarrow> wsize_store \<Rightarrow> bool" for x where
  run_start: "checkInit x CtxWSizeStore = Some e \<Longrightarrow> run_stores x e CtxWSizeStore"
| run_estimate: "run_stores x e d \<Longrightarrow> key_ok ty qp \<Longrightarrow> validWinSizes ty qp e = Some False \<Longrightarrow> \<forall>c w. bits c w < 2 ^ 32 - 1
    \<Longrightarrow> estWinSizes (m_CABACEngineMode x) ty qp recorded bits e = Some e' \<Longrightarrow> run_stores x e' d"
| run_slice: "run_stores x e d \<Longrightarrow> key_ok ty qp \<Longrightarrow> setSliceWinUpdateMode ty qp e = Some mode
    \<Longrightarrow> xCodeCABACWSizes (m_CABACEngineMode x) ty qp mode e clear = Some (e', s)
    \<Longrightarrow> xParseCABACWSizes x d (open_stream (out_fifo (writeAlignZero s))) = Some ((mode', d1), t)
    \<Longrightarrow> updateState (m_CABACEngineMode x) ty qp mode' False d1 = Some d' \<Longrightarrow> run_stores x e' d'"

lemma mode_of_store:
  assumes "windows_agree x e d" "m_CABACEngineMode x \<in> {2, 3}" "key_ok ty qp"
  shows "setSliceWinUpdateMode ty qp e = Some (getMode (wset_at ty qp e))" "slice_mode_ok x ty qp (getMode (wset_at ty qp e)) e"
  using assms by (auto simp: setSliceWinUpdateMode_def slice_mode_ok_def windows_agree_def store_wf_def getWSizeSet_eq)

lemma one_slice:
  assumes "windows_agree x e d" "slice_mode_ok x ty qp mode e"
  shows "\<exists>s t. xCodeCABACWSizes (m_CABACEngineMode x) ty qp mode e clear = Some (enc_after x ty qp mode e, s)
    \<and> xParseCABACWSizes x d (open_stream (out_fifo (writeAlignZero s))) = Some ((mode, dec_parsed x ty qp mode e d), t)"
  using codes_whole_stream [OF codes_wsizes [OF assms]] by (auto simp: code_wsizes [OF assms])

lemma run_agrees: "run_stores x e d \<Longrightarrow> m_CABACEngineMode x \<in> {2, 3} \<Longrightarrow> windows_agree x e d"
proof (induction rule: run_stores.induct)
  case (run_start e)
  then show ?case using fresh_store [of x] by (fastforce simp: windows_agree_def Let_def)
next
  case (run_estimate e d ty qp bits recorded e')
  then show ?case by (blast intro: estimate_agrees)
next
  case (run_slice e d ty qp mode e' s mode' d1 t d')
  have ag: "windows_agree x e d" using run_slice by blast
  have m: "mode = getMode (wset_at ty qp e)" using mode_of_store [OF ag run_slice.prems run_slice.hyps(2)] run_slice.hyps(3) by simp
  then have ok: "slice_mode_ok x ty qp mode e" using mode_of_store(2) [OF ag run_slice.prems run_slice.hyps(2)] by simp
  from one_slice [OF ag ok] run_slice.hyps(4,5) have "mode' = mode" "e' = enc_after x ty qp mode e" "d1 = dec_parsed x ty qp mode e d" by auto
  then show ?case using slice_agrees(1,2) [OF ag ok] run_slice.hyps(6) by simp
qed

text \<open>
  C8. In every run of an encoder and a decoder with one of the engines with adaptive windows, the header of the next slice is written
  and read, and both sides then code the slice with the same window for every context: whether the slice has the default windows, brings new
  ones, or uses again those of an earlier slice of its type and quantiser.  A run has one sequence parameter set, quantisers from 0 on, and
  one slice per picture: the mode of a slice is taken from the store when its header is written, which is the store that the encoder
  saw when it compressed the slice only if no other slice was written between.
\<close>

theorem windows_in_step:
  assumes "run_stores x e d" "m_CABACEngineMode x \<in> {2, 3}" "key_ok ty qp"
  shows "\<exists>mode e' s d1 t d' ws. setSliceWinUpdateMode ty qp e = Some mode
    \<and> xCodeCABACWSizes (m_CABACEngineMode x) ty qp mode e clear = Some (e', s)
    \<and> xParseCABACWSizes x d (open_stream (out_fifo (writeAlignZero s))) = Some ((mode, d1), t)
    \<and> updateState (m_CABACEngineMode x) ty qp mode False d1 = Some d'
    \<and> getWinSizes ty qp mode e' \<bind> model_windows (m_CABACEngineMode x) = Some ws
    \<and> getWinSizes ty qp mode d' \<bind> model_windows (m_CABACEngineMode x) = Some ws"
proof -
  note ag = run_agrees [OF assms(1,2)]
  note m = mode_of_store [OF ag assms(2,3)]
  from one_slice [OF ag m(2)] slice_agrees [OF ag m(2)] m(1) show ?thesis by (metis option.exhaust)
qed

text \<open>A store whose first set has been estimated: every context is best coded with the smallest window.\<close>

lemma mapping_grows: "for_loop (\<lambda>(n, a, k). addCtxSetToMapping n a k) cs m = Some m' \<Longrightarrow> set m \<subseteq> set m' \<and> (\<exists>r. m' = m @ r)"
  by (induction cs arbitrary: m) (fastforce simp: addCtxSetToMapping_def Let_def split: bind_splits)+

lemma first_context_mapped:
  assumes "xInitMappingTable x 384 [] = Some m"
  shows "0 \<in> set m"
proof -
  obtain m' where m': "for_loop (\<lambda>(n, a, k). addCtxSetToMapping n a k) (mapping_calls x 12) [] = Some m'" "m = vec_resize 384 (- 1) m'"
    using assms by (auto simp: xInitMappingTable_def BTSplitFlag_set split: bind_splits)
  obtain k cs where cs: "mapping_calls x 12 = (SplitFlag, 0, Suc k) # cs"
    by (cases "m_LargeCTU x") (auto simp: mapping_calls_def Let_def)
  have "ctxSet SplitFlag = Some \<lparr>Offset = 0, Size = 5\<rparr>" by (simp add: ctxSet_eq layout_contextSets)
  then obtain m1 where "addCtxSetToMapping SplitFlag 0 (Suc k) [] = Some (0 # m1)"
    by (simp add: addCtxSetToMapping_def ctxInc_def Let_def upt_conv_Cons del: upt_Suc)
  then obtain r where "m' = 0 # r" using m'(1) mapping_grows [of cs "0 # m1" m'] unfolding cs by auto
  then show ?thesis using m'(2) by (simp add: vec_resize_def)
qed

lemma estimated_store:
  assumes "m_CABACEngineMode x = 2" "key_ok ty qp"
  shows "\<exists>e. run_stores x e CtxWSizeStore \<and> setSliceWinUpdateMode ty qp e = Some 1"
proof -
  obtain e where e: "checkInit x CtxWSizeStore = Some e" "store_wf x e" "\<not> m_valid (wset_at ty qp e)" "\<not> m_coded (wset_at ty qp e)"
    using fresh_store [of x] assms(2) by blast
  have shape: "sets_shape (m_winSizes e)" "length (m_readWriteBuffer e) = 384" using e(2) by (simp_all add: store_wf_def)
  note m = store_wf_mapping [OF e(2)]
  let ?win = "estimates 6 (\<lambda>_. True) (\<lambda>_ _. 0) (m_codeId2ctxId e)" and ?w = "wset_at ty qp e"
  define e' where "e' = with_wset ty qp (setValid 6 (?w\<lparr>m_log2WinSizes := ?win\<rparr>)) e"
  have est: "estWinSizes 2 ty qp (\<lambda>_. True) (\<lambda>_ _. 0) e = Some e'"
    using assms(2) shape m by (simp add: estWinSizes_def getWSizeSet_eq putWSizeSet_eq estimated getDefaultWindowSize_def e'_def)
  have reach: "run_stores x e' CtxWSizeStore"
    by (rule run_estimate [OF run_start [OF e(1)] assms(2) _ _ est [folded assms(1)]]) (use e(3) shape assms(2) in \<open>simp_all add: validWinSizes_def getWSizeSet_eq\<close>)
  have "0 \<in> set (m_codeId2ctxId e)" using first_context_mapped e(2) by (auto simp: store_wf_def)
  then have "?win ! 0 = 4"
    by (simp add: estimates_def estWinSize_def try_size_def NumberOfContexts_eq upt_rec [of 4 8] upt_rec [of 5 8] upt_rec [of 6 8] upt_rec [of 7 8])
  moreover have "0 < length ?win" by (simp add: estimates_def NumberOfContexts_eq)
  ultimately have "4 \<in> set ?win" by (metis nth_mem)
  then have "list_ex (\<lambda>v. v \<noteq> 0 \<and> v \<noteq> 6) ?win" by (auto simp: list_ex_iff intro!: bexI [of _ 4])
  then have "setSliceWinUpdateMode ty qp e' = Some 1"
    using shape(1) assms(2) e(4) by (simp add: setSliceWinUpdateMode_def getWSizeSet_eq e'_def wset_at_with getMode_def setValid_def)
  then show ?thesis using reach by blast
qed

theorem windows_in_step_witness:
  "\<exists>e. run_stores sample_next e CtxWSizeStore \<and> setSliceWinUpdateMode 1 32 e = Some 1
    \<and> (\<exists>mode e' s d1 t d' ws. setSliceWinUpdateMode 1 32 e = Some mode
      \<and> xCodeCABACWSizes (m_CABACEngineMode sample_next) 1 32 mode e clear = Some (e', s)
      \<and> xParseCABACWSizes sample_next CtxWSizeStore (open_stream (out_fifo (writeAlignZero s))) = Some ((mode, d1), t)
      \<and> updateState (m_CABACEngineMode sample_next) 1 32 mode False d1 = Some d'
      \<and> getWinSizes 1 32 mode e' \<bind> model_windows (m_CABACEngineMode sample_next) = Some ws
      \<and> getWinSizes 1 32 mode d' \<bind> model_windows (m_CABACEngineMode sample_next) = Some ws)"
proof -
  have k: "key_ok 1 32" "m_CABACEngineMode sample_next = 2" by (simp_all add: key_ok_def NUMBER_OF_SLICE_TYPES_def MAX_QP_def sample_next_def)
  from estimated_store [OF k(2,1)] obtain e where "run_stores sample_next e CtxWSizeStore" "setSliceWinUpdateMode 1 32 e = Some 1" by blast
  with windows_in_step [OF this(1) _ k(1)] k(2) show ?thesis by auto
qed

end
