(* ===== verification/SliceHeader.thy ===== *)
theory SliceHeader
  imports WeightTables LongTermRefs WindowSizes AlfSyntax
begin

definition REF_PIC_LIST_NUM_IDX :: nat where "REF_PIC_LIST_NUM_IDX = 32"

record comp_range =
  rng_min :: int
  rng_max :: int
  rng_bd :: int
  rng_n :: int

record clip_ranges =
  comp_Y :: comp_range
  comp_Cb :: comp_range
  comp_Cr :: comp_range
  clip_used :: bool
  clip_chroma :: bool

record header =
  h_noOutputPriorPicsFlag :: bool
  h_PPSId :: int
  h_sliceCurStartCtuTsAddr :: nat
  h_sliceCurEndCtuTsAddr :: nat
  h_SliceType :: nat
  h_PicOutputFlag :: bool
  h_POC :: int
  h_LastIDR :: int
  h_rpsIdx :: int
  h_RPS :: ref_pic_set
  h_enableTMVPFlag :: bool
  h_saoLuma :: bool
  h_saoChroma :: bool
  h_alfSliceParam :: alf_param
  h_NumRefIdx :: "int \<times> int"
  h_ListModificationL0 :: "bool \<times> nat list"
  h_ListModificationL1 :: "bool \<times> nat list"
  h_MvdL1Zero :: bool
  h_cabacInitFlag :: bool
  h_encCABACTableIdx :: nat
  h_colFromL0Flag :: bool
  h_colRefIdx :: nat
  h_weightPredTable :: wp_table
  h_UseLIC :: bool
  h_depQuantEnabledFlag :: bool
  h_signDataHidingEnabledFlag :: bool
  h_MaxBTSize :: nat
  h_maxNumMergeCand :: nat
  h_SliceQp :: int
  h_SliceQpBase :: int
  h_CbQpDelta :: int
  h_CrQpDelta :: int
  h_ChromaQpAdjEnabled :: bool
  h_deblockingFilterOverrideFlag :: bool
  h_deblockingFilterDisable :: bool
  h_deblockingFilterBetaOffsetDiv2 :: int
  h_deblockingFilterTcOffsetDiv2 :: int
  h_LFCrossSliceBoundaryFlag :: bool
  h_clpRngs :: clip_ranges
  h_subPuMvpSubBlkSizeSliceEnable :: bool
  h_subPuMvpSubBlkLog2Size :: int
  h_cabacWinUpdateMode :: int
  h_SPS :: "sps option"

section \<open>Predicates of a slice\<close>





definition h_isIntra :: "header \<Rightarrow> bool" where "h_isIntra h \<longleftrightarrow> h_SliceType h = I_TYPE"
definition h_isInterB :: "header \<Rightarrow> bool" where "h_isInterB h \<longleftrightarrow> h_SliceType h = B_TYPE"


text \<open>\<open>Slice::getNumRpsCurrTempList\<close>; the SPS is dereferenced although it need not be set.\<close>

definition h_NumRpsCurrTempList :: "header \<Rightarrow> int option" where
  "h_NumRpsCurrTempList h =
     (if h_isIntra h then Some 0
      else do {
        let r = h_RPS h;
        n \<leftarrow> for_loop (\<lambda>i n. do { u \<leftarrow> getUsed r i; Some (if u then n + 1 else n) })
          [0..numberOfNegativePictures r + numberOfPositivePictures r + numberOfLongtermPictures r - 1] (0 :: int);
        x \<leftarrow> h_SPS h;
        Some (if m_IBCMode (m_spsNextExtension x) \<noteq> 0 then n + 1 else n) })"

text \<open>\<open>while( n >>= 1 ) length++\<close>, from a positive \<open>n\<close>\<close>

fun entry_length :: "nat \<Rightarrow> nat \<Rightarrow> nat" where
  "entry_length n l = (if n < 2 then l else entry_length (n div 2) (l + 1))"

declare entry_length.simps [simp del]




section \<open>Writer\<close>



























section \<open>Parser\<close>





text \<open>
  The modification of one list; it is read only when there is more than one picture to choose from, so that the branch of the
  source for a single picture, which follows the flag, is never taken.
\<close>

definition parse_list_mod :: "pps \<Rightarrow> header \<Rightarrow> int \<Rightarrow> bool \<times> nat list \<Rightarrow> ibs \<Rightarrow> ((bool \<times> nat list) \<times> ibs) option" where
  "parse_list_mod p h n m s = do {
     num \<leftarrow> (if listsModificationPresentFlag p then h_NumRpsCurrTempList h else Some 0);
     if num \<le> 1 then Some ((False, snd m), s)
     else do {
       (flag, s) \<leftarrow> xReadFlag s;
       if flag = 0 then Some ((False, snd m), s)
       else do {
         (idx, s) \<leftarrow> read_loop (\<lambda>i idx s. do {
             (uiCode, s) \<leftarrow> xReadCode (entry_length (nat (num - 1)) 1) s;
             check_not (i \<ge> REF_PIC_LIST_NUM_IDX);
             idx \<leftarrow> arr_set idx i uiCode;
             Some (idx, s) }) [0..<nat n] (snd m) s;
         Some ((True, idx), s) } } }"

definition parse_list_mods :: "pps \<Rightarrow> header \<Rightarrow> ibs \<Rightarrow> (header \<times> ibs) option" where
  "parse_list_mods p h s = do {
     (m0, s) \<leftarrow> (if \<not> h_isIntra h then parse_list_mod p h (fst (h_NumRefIdx h)) (h_ListModificationL0 h) s
       else Some ((False, snd (h_ListModificationL0 h)), s));
     (m1, s) \<leftarrow> (if h_isInterB h then parse_list_mod p h (snd (h_NumRefIdx h)) (h_ListModificationL1 h) s
       else Some ((False, snd (h_ListModificationL1 h)), s));
     Some (h\<lparr>h_ListModificationL0 := m0, h_ListModificationL1 := m1\<rparr>, s) }"
















section \<open>What the parser receives, part by part\<close>











































































section \<open>The whole header\<close>







































text \<open>
  The list modifications need the SPS in the object of the parser, which \<open>h_NumRpsCurrTempList\<close> reads.  The pilot slice has
  none (\<open>Picture::swapSliceObject\<close> clears the pointer), so that the parser fails on every inter slice of a PPS with
  \<open>listsModificationPresentFlag\<close>, a flag that this encoder never sets.
\<close>

lemma list_mods_need_sps:
  assumes "listsModificationPresentFlag p" "\<not> h_isIntra y" "h_SPS y = None"
  shows "parse_list_mods p y s = None"
  using assms by (simp add: parse_list_mods_def parse_list_mod_def h_NumRpsCurrTempList_def Let_def)














end
