(* ===== verification/Spec2Isabelle.thy ===== *)
theory Spec2Isabelle
  imports PicParameterSet SeqParameterSet AnnexB NalUnit BinCodes ContextTables ExplicitRps DecoderControl AlfFilter AlfBlock WeightTables LongTermRefs WindowSizes SliceHeader
begin

text \<open>
  A verification library for NextSoftware (the BMS video codec), \<open>src/source\<close>: the bit stream layers, the
  entropy coding, the high level syntax, and the management of reference pictures, output and random access.

  \<^bold>\<open>How the program's parts interact.\<close>  The encoder writes parameter sets and slice headers with the
  syntax functions of \<open>EncoderLib/VLCWriter.cpp\<close> and slice data with the arithmetic encoder
  \<open>EncoderLib/BinEncoder.cpp\<close>, driven by the context models of \<open>CommonLib/Contexts.cpp\<close>, into an
  \<open>OutputBitstream\<close> (\<open>CommonLib/BitStream.cpp\<close>); \<open>EncoderLib/NALwrite.cpp\<close> wraps that payload
  into a NAL unit, and \<open>EncoderLib/AnnexBwrite.h\<close> puts NAL units into a byte stream.  The decoder undoes
  this with \<open>DecoderLib/AnnexBread.cpp\<close>, \<open>NALread.cpp\<close>, \<open>InputBitstream\<close>, \<open>VLCReader.cpp\<close> and \<open>BinDecoder.cpp\<close>.
  \<open>DecLib\<close> dispatches the units, skips leading pictures at random access, and hands the reference picture set of
  each slice to \<open>CommonLib/Slice.cpp\<close>, which marks the picture buffer and fills the reference lists; the decoder
  application takes finished pictures out of the buffer in output order.

  \<^bold>\<open>Conventions.\<close>  The model is of the configured build (\<open>TypeDef.h\<close>: \<open>BMS_TOOLS\<close> and \<open>JEM_TOOLS\<close> set,
  \<open>HEVC_TOOLS\<close> and tracing off).  A class is a record, its methods take and return the record; a
  \<open>CHECK\<close>, a \<open>THROW\<close> and behaviour that C++ leaves undefined are the value \<open>None\<close>, with two exceptions that no target
  gets wrong: a 32 bit write at an aligned position shifts zero held bits by 32 (\<open>obs_write\<close>), and the left shift by one of a negative
  filter coefficient doubles it.  Unsigned
  integers are natural numbers with every truncation written out (\<open>u8\<close>, \<open>u16\<close>, \<open>u32\<close>), because the
  proofs relate them to the numbers that bit strings stand for; signed ones are integers.  A loop is a
  recursive function of its own with a measure; a loop whose end depends on the input
  is a \<open>partial_function\<close> in the option monad and is shown to return where the input was
  written by the encoder.  No fuel is used.

  \<^bold>\<open>Theories.\<close>
  \<^item> \<open>Prelude\<close>: unsigned arithmetic, checks, array access, and bit strings as numbers.
  \<^item> \<open>Codec\<close>: the contract between coders and parsers.
  \<^item> \<open>BitStream\<close>: \<open>CommonLib/BitStream.cpp\<close>: both bit streams with all operations; what a write appends and a read takes.
  \<^item> \<open>Vlc\<close>: \<open>EncoderLib/VLCWriter.cpp\<close>, \<open>DecoderLib/VLCReader.cpp\<close>: fixed length, Exp-Golomb and flag codes, access unit delimiter, filler data, trailing bits.
  \<^item> \<open>PicParameterSet\<close>: \<open>HLSWriter::codePPS\<close> and \<open>HLSyntaxReader::parsePPS\<close> with the class \<open>PPS\<close> of \<open>CommonLib/Slice.h\<close>.
  \<^item> \<open>ProfileTier\<close>: profile, tier and level.
  \<^item> \<open>VideoUsability\<close>: video usability information and hypothetical reference decoder parameters.
  \<^item> \<open>SpsNext\<close>: \<open>codeSPSNext\<close> and \<open>parseSPSNext\<close>: the extension with the tools beyond HEVC.
  \<^item> \<open>SeqParameterSet\<close>: \<open>codeSPS\<close> and \<open>parseSPS\<close>: the round trip, and the limits that every accepted set is within.
  \<^item> \<open>NalUnit\<close>: \<open>NALwrite.cpp\<close>, \<open>NALread.cpp\<close>: NAL unit header, emulation prevention, \<open>cabac_zero_words\<close>.
  \<^item> \<open>AnnexB\<close>: \<open>AnnexBwrite.h\<close>, \<open>AnnexBread.cpp\<close>: the byte stream, as a refinement of splitting it into units.
  \<^item> \<open>Contexts\<close>: the probability model \<open>BinProbModel_Std\<close> and what the coder relies on.
  \<^item> \<open>BinEncoder\<close>: \<open>BinEncoder.cpp\<close>: the arithmetic encoder with its carry buffer, counters and bin store.
  \<^item> \<open>BinDecoder\<close>: \<open>BinDecoder.cpp\<close>: the arithmetic decoder.
  \<^item> \<open>Cabac\<close>: encoder and decoder in step; the end of a slice in \<open>CABACWriter.cpp\<close> and \<open>CABACReader.cpp\<close>.
  \<^item> \<open>TruncBinary\<close>: truncated binary codes over any channel that writes numbers in pieces.
  \<^item> \<open>BinCodes\<close>: binarisations: \<open>encodeRemAbsEP\<close>, truncated unary, Exp-Golomb, truncated binary codes.
  \<^item> \<open>ContextTables\<close>: the context sets of \<open>Contexts.cpp\<close>, their initialisation tables and the context store.
  \<^item> \<open>RefPicSet\<close>: class \<open>ReferencePictureSet\<close>, \<open>sortDeltaPOC\<close>, and the syntax of a set in parameter sets and slice headers.
  \<^item> \<open>PictureBuffer\<close>: the decoded picture buffer: marking by the set, refresh at random access pictures, missing pictures, restrictions on leading pictures (\<open>CommonLib/Slice.cpp\<close>).
  \<^item> \<open>RefPicLists\<close>: \<open>setRefPicList\<close> and what is derived from the lists.
  \<^item> \<open>ExplicitRps\<close>: \<open>createExplicitReferencePictureSetFromReference\<close> and its transmission.
  \<^item> \<open>PictureOutput\<close>: \<open>xWriteOutput\<close> and \<open>xFlushOutput\<close> of \<open>App/DecoderApp/DecApp.cpp\<close>: the order and time of output.
  \<^item> \<open>DecoderControl\<close>: class \<open>DecLib\<close>: random access, skipped pictures, picture buffers, lost pictures, and the runs of the decoder.
  \<^item> \<open>AlfSyntax\<close>: the parameters of the adaptive loop filter: their syntax with the Golomb orders that the writer chooses.
  \<^item> \<open>AlfFilter\<close>: \<open>reconstructCoeff\<close> of \<open>CommonLib/AdaptiveLoopFilter.cpp\<close> and the differences that the encoder sends: the filters arrive.
  \<^item> \<open>AlfBlock\<close>: \<open>deriveClassificationBlk\<close> and \<open>filterBlk\<close> on buffers of samples: the class of a block and the filtered samples.
  \<^item> \<open>WeightTables\<close>: the tables of weighted prediction in the slice header and their inference.
  \<^item> \<open>LongTermRefs\<close>: the picture order count and the long-term pictures of the slice header: arranged by the encoder, written, parsed and found in the buffer.
  \<^item> \<open>WindowSizes\<close>: the window sizes of the adaptive engines of the arithmetic coder: their store, estimation and syntax, and the runs of encoder and decoder.
  \<^item> \<open>SliceHeader\<close>: \<open>codeSliceHeader\<close> and \<open>parseSliceHeader\<close>: the slice header in all its parts, closed by the slice data, and what of it reaches the decoder.

  \<^bold>\<open>How the proofs are organised.\<close>  Locale \<open>coupling\<close> (theory \<open>Codec\<close>) is the contract between a coder and
  its parser: \<open>codes w r x\<close> says that \<open>r\<close> gets \<open>x\<close> back from what \<open>w\<close> writes, whatever stands before
  and after.  \<open>codes\<close> composes along the option monad (\<open>codes_bind\<close>), so the round trip of
  a syntax structure is the composition of those of its elements.  The contract has two
  providers: the bit streams of the high level syntax (theory \<open>Vlc\<close>) and the arithmetic coder (theory \<open>Cabac\<close>, for every model
  class that satisfies locale \<open>prob_model\<close>; \<open>BinProbModel_Std\<close> does).  The extended locale \<open>bit_channel\<close>
  adds that a number can be written in pieces, which carries the unary and Exp-Golomb codes.
  For the arithmetic coder the state of the encoder is the number \<open>total\<close> of \<open>prec\<close> bits, the low end of its interval;
  lemmas \<open>_step\<close> say how an operation scales it and adds to it, lemmas \<open>_pos\<close> that the decoder follows.

  \<^bold>\<open>Bounds.\<close>  The round trips hold for fields of up to 32 bits, for Exp-Golomb values below \<open>2 ^ 31 - 1\<close> in
  the syntax (longer codes overflow \<open>int\<close> in the reader) and below about \<open>2 ^ 16\<close> in slice data, for remaining levels below \<open>2 ^ 24\<close>, and for
  streams of any length.  These bounds cover the ranges the codec uses.

  \<^bold>\<open>Not modelled.\<close>
  Everything else that works on samples or searches: prediction, transform, deblocking and SAO, rate distortion and
  encoder control, and the block level syntax that walks the coding structures; the
  alternative engines of the arithmetic coder (\<open>BinProbModel_JMP\<close>, \<open>JAW\<close>, \<open>JMPAW\<close>), which need a table of 32768 entries;
  file access and command lines.  They are listed with reasons in the manifest.
\<close>

section \<open>Properties that span components\<close>

text \<open>
  C9. A picture parameter set passes through all layers: \<open>codePPS\<close> into a payload, \<open>write\<close>
  into a NAL unit, \<open>writeAnnexB\<close> into a byte stream, and back through \<open>byteStreamNALUnit\<close>,
  \<open>read\<close> and \<open>parsePPS\<close>.  It arrives as \<open>pps_received p0 p\<close>: every field that the syntax sends has the value of \<open>p\<close>, the
  fields that it leaves out are reset or keep the value of the object \<open>p0\<close> that is parsed into.  For the last unit of
  the stream \<open>byteStreamNALUnit\<close> returns true, as the code does; its doc comment says false at the end of the stream.
\<close>

theorem pps_transport:
  assumes "pps_ok p" "length (chromaQpAdjTableIncludingNullEntry (ppsRangeExtension p0)) = 7"
    "chromaQpOffsetListLen (ppsRangeExtension p0) = 0" "n = \<lparr>nalUnitType = NAL_UNIT_PPS, temporalId = 0, nuhLayerId = 0\<rparr>"
  shows "\<exists>s buf u t. codePPS p clear = Some s \<and> write_nalu n (out_fifo s) = Some buf
    \<and> read_units 1 (new_ibytes (fst (writeAnnexB [(nalUnitType n, buf)]))) = [(True, buf)]
    \<and> read_nalu buf = Some (n, u) \<and> parsePPS p0 u = Some (pps_received p0 p, t) \<and> in_bits t = []"
proof -
  have n: "nal_ok n" "nal_checked n" by (simp_all add: assms(4) nal_ok_def nal_checked_def)
  note c = codes_PPS [OF assms(1-3)]
  from codes_whole_stream [OF c] obtain s where s: "codePPS p clear = Some s" by blast
  with closes_codePPS [of p] have e: "obs_inv s" "out_num_held s = 0" "out_fifo s \<noteq> []" "last (out_fifo s) \<noteq> 0"
    unfolding closes_def by (metis obs_inv_clear)+
  have b: "bytes (out_fifo s)" using e(1) by (simp add: obs_inv_def)
  from read_write_received [OF n b] received_plain [OF e(3,4), of n] obtain buf u where
    u: "write_nalu n (out_fifo s) = Some buf" "bytes buf" "no_start_code buf" "last buf \<noteq> 0"
      "read_nalu buf = Some (n, u)" "ibs_inv u" "in_bits u = byte_bits (out_fifo s)" by auto
  have ne: "buf \<noteq> []" using u(1) writeNalUnitHeader_law [OF n(1)] by (auto simp: write_nalu_def)
  have "read_units (length [(nalUnitType n, buf)]) (new_ibytes (fst (writeAnnexB [(nalUnitType n, buf)])))
      = map (\<lambda>(t, d). (False, d)) (butlast [(nalUnitType n, buf)])
        @ map (\<lambda>(t, d). (True, d)) (drop (length [(nalUnitType n, buf)] - 1) [(nalUnitType n, buf)])"
    unfolding writeAnnexB_def
    by (rule read_writeAnnexB [of _ True]) (use u(2-4) ne bytes_writeAnnexB [of "[(nalUnitType n, buf)]" True] in \<open>auto simp: unit_ok_def\<close>)
  then have "read_units 1 (new_ibytes (fst (writeAnnexB [(nalUnitType n, buf)]))) = [(True, buf)]" by simp
  moreover have "in_bits u = out_bits s" using u(7) e(2) by (simp add: out_bits_def)
  moreover have "8 dvd length (out_bits s)" using held_mod [OF e(1)] e(2) by auto
  ultimately show ?thesis
    using codes_aligned_stream [OF c s _ u(6)] s u(1,5) by blast
qed

theorem pps_transport_witness:
  "\<exists>s buf u t. codePPS sample_pps clear = Some s
    \<and> write_nalu \<lparr>nalUnitType = NAL_UNIT_PPS, temporalId = 0, nuhLayerId = 0\<rparr> (out_fifo s) = Some buf
    \<and> read_units 1 (new_ibytes (fst (writeAnnexB [(nalUnitType \<lparr>nalUnitType = NAL_UNIT_PPS, temporalId = 0, nuhLayerId = 0\<rparr>, buf)])))
      = [(True, buf)]
    \<and> read_nalu buf = Some (\<lparr>nalUnitType = NAL_UNIT_PPS, temporalId = 0, nuhLayerId = 0\<rparr>, u)
    \<and> parsePPS (sample_pps\<lparr>ppsRangeExtension := sample_rext\<rparr>) u
      = Some (pps_received (sample_pps\<lparr>ppsRangeExtension := sample_rext\<rparr>) sample_pps, t) \<and> in_bits t = []"
  by (rule pps_transport) (simp_all add: pps_ok_def rext_ok_def sample_pps_def sample_rext_def)

end
